(* ===== verification/Prelude.thy ===== *)
theory Prelude
  imports Main "HOL-Library.Word" "HOL-Library.Monad_Syntax"
begin

unbundle bit_operations_syntax

section \<open>Prelude: machine types, C objects, shared lemmas\<close>

text \<open>
  What every theory of the development shares: the machine integers of the x86-64 target the
  kernel is built for (the width of each C type), access to a C array object with its bounds
  written out (\<open>None\<close> is an access outside the object, which C leaves undefined), the conversion
  of a \<open>char\<close> to \<open>int\<close>, and the word and list lemmas the component proofs use.
\<close>

type_synonym u8 = "8 word"
type_synonym u16 = "16 word"
type_synonym u32 = "32 word"
type_synonym u64 = "64 word"

text \<open>
  The collections of the library: \<open>obj_simps\<close> evaluates accesses to C objects,
  \<open>mem_simps\<close> reads from updated physical memory.
\<close>

named_theorems obj_simps
named_theorems mem_simps

subsection \<open>C array objects\<close>

text \<open>
  \<open>a[i]\<close> and \<open>a[i] = v\<close> for an array object held as the list of its elements. An index outside
  the object is \<open>None\<close>.
\<close>

definition obj_get :: "'a list \<Rightarrow> int \<Rightarrow> 'a option" where
  "obj_get a i = (if 0 \<le> i \<and> i < int (length a) then Some (a ! nat i) else None)"

definition obj_set :: "'a list \<Rightarrow> int \<Rightarrow> 'a \<Rightarrow> 'a list option" where
  "obj_set a i v = (if 0 \<le> i \<and> i < int (length a) then Some (a[nat i := v]) else None)"

lemma obj_get_nat [obj_simps]: "i < length a \<Longrightarrow> obj_get a (int i) = Some (a ! i)"
  by (simp add: obj_get_def)

lemma obj_set_nat [obj_simps]: "i < length a \<Longrightarrow> obj_set a (int i) v = Some (a[i := v])"
  by (simp add: obj_set_def)

lemma obj_get_in: "0 \<le> i \<Longrightarrow> i < int (length a) \<Longrightarrow> obj_get a i = Some (a ! nat i)"
  by (simp add: obj_get_def)

lemma obj_set_in: "0 \<le> i \<Longrightarrow> i < int (length a) \<Longrightarrow> obj_set a i v = Some (a[nat i := v])"
  by (simp add: obj_set_def)

lemma obj_get_out [obj_simps]: "length a \<le> i \<Longrightarrow> obj_get a (int i) = None"
  by (simp add: obj_get_def)

lemma obj_set_out [obj_simps]: "length a \<le> i \<Longrightarrow> obj_set a (int i) v = None"
  by (simp add: obj_set_def)

lemma obj_set_SomeD:
  "obj_set a i v = Some b \<Longrightarrow> 0 \<le> i \<and> i < int (length a) \<and> b = a[nat i := v]"
  by (auto simp: obj_set_def split: if_splits)

lemma obj_set_length: "obj_set a i v = Some b \<Longrightarrow> length b = length a"
  by (auto dest: obj_set_SomeD)

lemma obj_get_SomeD:
  "obj_get a i = Some v \<Longrightarrow> 0 \<le> i \<and> i < int (length a) \<and> v = a ! nat i"
  by (auto simp: obj_get_def split: if_splits)

subsection \<open>Characters\<close>

text \<open>A \<open>char\<close> is signed on the target: its value as an \<open>int\<close>.\<close>

definition chr_int :: "u8 \<Rightarrow> int" where
  "chr_int c = sint c"

lemma chr_int_eq [simp]: "chr_int c = chr_int d \<longleftrightarrow> c = d"
  unfolding chr_int_def by (metis signed_word_eqI)

lemma chr_int_0 [simp]: "chr_int c = 0 \<longleftrightarrow> c = 0" "chr_int 0 = 0"
  by (simp_all add: chr_int_def signed_eq_0_iff)

text \<open>A string literal as its bytes.\<close>

definition bytes :: "string \<Rightarrow> u8 list" where
  "bytes s = map (\<lambda>c. of_nat (of_char c)) s"

lemma bytes_Nil [simp]: "bytes [] = []"
  by (simp add: bytes_def)

lemma length_bytes [simp]: "length (bytes s) = length s"
  by (simp add: bytes_def)

text \<open>A null-terminated string in an array object: its bytes before the first zero.\<close>

definition cstr :: "u8 list \<Rightarrow> u8 list" where
  "cstr b = takeWhile (\<lambda>c. c \<noteq> 0) b"

lemma cstr_append_zero [simp]: "0 \<notin> set s \<Longrightarrow> cstr (s @ 0 # r) = s"
  unfolding cstr_def by (subst takeWhile_append2) auto

lemma length_cstr_le: "length (cstr b) \<le> length b"
  by (simp add: cstr_def length_takeWhile_le)

lemma cstr_split: "0 \<in> set b \<Longrightarrow> \<exists>r. b = cstr b @ 0 # r \<and> 0 \<notin> set (cstr b)"
proof -
  assume z: "0 \<in> set b"
  have "dropWhile (\<lambda>c. c \<noteq> 0) b \<noteq> []"
    using z by (auto simp: dropWhile_eq_Nil_conv)
  then obtain x r where d: "dropWhile (\<lambda>c. c \<noteq> 0) b = x # r"
    by (cases "dropWhile (\<lambda>c. c \<noteq> 0) b") auto
  have "x = 0" using hd_dropWhile [of "\<lambda>c. c \<noteq> 0" b] d by simp
  moreover have "b = cstr b @ dropWhile (\<lambda>c. c \<noteq> 0) b" by (simp add: cstr_def)
  moreover have "0 \<notin> set (cstr b)" by (auto simp: cstr_def dest: set_takeWhileD)
  ultimately show ?thesis using d by metis
qed

lemma cstr_take: "0 \<in> set (take k s) \<Longrightarrow> cstr s = cstr (take k s)"
proof -
  assume "0 \<in> set (take k s)"
  then have "takeWhile (\<lambda>c. c \<noteq> 0) (take k s @ drop k s) = takeWhile (\<lambda>c. c \<noteq> 0) (take k s)"
    by (intro takeWhile_append1) auto
  then show ?thesis by (simp add: cstr_def)
qed

subsection \<open>Words and numbers\<close>

lemma sint_word_of_int_small: "- (2 ^ 31) \<le> x \<Longrightarrow> x < 2 ^ 31 \<Longrightarrow> sint (word_of_int x :: u32) = x"
  by (simp add: signed_of_int signed_take_bit_int_eq_self)

lemma ucast_word_of_int: "(ucast (word_of_int x :: u64) :: u32) = word_of_int x"
  by (simp add: unsigned_of_int word_of_int_eq_iff take_bit_take_bit)

lemma unat_of_nat_small: "n < 2 ^ LENGTH('a) \<Longrightarrow> unat (of_nat n :: 'a::len word) = n"
  by (simp add: unat_of_nat take_bit_nat_eq_self)

lemma unat_word_mod: "unat (of_nat n :: 'a::len word) = n mod 2 ^ LENGTH('a)"
  by (simp add: unat_of_nat take_bit_eq_mod)

lemma sint_small: "uint w < 2 ^ (LENGTH('a) - 1) \<Longrightarrow> sint (w :: 'a::len word) = uint w"
  unfolding sint_uint by (rule signed_take_bit_int_eq_self) (auto intro: order_trans [of _ 0])

lemma uint_less_unat: "unat w < k \<Longrightarrow> uint w < int k"
  by (metis of_nat_less_iff of_nat_unat)

lemma sint_of_nat_small:
  assumes "n < 2 ^ (LENGTH('a) - 1)"
  shows "sint (of_nat n :: 'a::len word) = int n"
proof -
  have "(2 :: nat) ^ (LENGTH('a) - 1) \<le> 2 ^ LENGTH('a)" by (rule power_increasing) simp_all
  then have "unat (of_nat n :: 'a word) = n" using assms by (intro unat_of_nat_small) linarith
  then have u: "uint (of_nat n :: 'a word) = int n" by (metis of_nat_unat)
  have "int n < int (2 ^ (LENGTH('a) - 1))" using assms by (simp only: of_nat_less_iff)
  then have "uint (of_nat n :: 'a word) < 2 ^ (LENGTH('a) - 1)" unfolding u by simp
  then have "sint (of_nat n :: 'a word) = uint (of_nat n :: 'a word)" by (rule sint_small)
  then show ?thesis using u by simp
qed

lemma word_of_unat: "unat w = n \<Longrightarrow> w = of_nat n"
  by auto

lemma word_div_of_nat:
  assumes "k < 2 ^ LENGTH('a)" and "d < 2 ^ LENGTH('a)"
  shows "(of_nat k :: 'a::len word) div of_nat d = of_nat (k div d)"
  by (rule word_of_unat) (simp add: unat_div_distrib unat_of_nat_small [OF assms(1)] unat_of_nat_small [OF assms(2)])

lemma unat_lt64: "unat (w :: u64) < 18446744073709551616"
  using unsigned_less [of w] by simp

lemma unat_lt32: "unat (w :: u32) < 4294967296"
  using unsigned_less [of w] by simp

lemma unat_lt8: "unat (w :: u8) < 256"
  using unsigned_less [of w] by simp

lemma ucast_8_32_16: "(ucast (ucast (c :: u8) :: u32) :: u16) = ucast c"
  by (rule bit_word_eqI) (auto simp: bit_simps)

lemma ucast_8_32_0: "(ucast (c :: u8) :: u32) = 0 \<longleftrightarrow> c = 0"
proof -
  have "(ucast (ucast c :: u32) :: u8) = c" by (rule bit_word_eqI) (auto simp: bit_simps)
  then show ?thesis by (metis unsigned_0)
qed

lemma bit7_iff: "bit (c :: u8) 7 \<longleftrightarrow> 128 \<le> unat c"
proof -
  have "bit c 7 \<longleftrightarrow> bit (unat c) 7" by (simp add: bit_unsigned_iff)
  also have "\<dots> \<longleftrightarrow> odd (unat c div 128)" by (simp add: bit_iff_odd)
  also have "\<dots> \<longleftrightarrow> 128 \<le> unat c"
  proof (cases "128 \<le> unat c")
    case True
    then have "unat c div 128 = 1" using unat_lt8 [of c] by simp
    then show ?thesis using True by simp
  qed simp
  finally show ?thesis .
qed

lemma word_and_mask_unat: "unat (w AND mask n) = unat w mod 2 ^ n"
proof -
  have "w AND mask n = take_bit n w" by (rule take_bit_eq_mask [symmetric])
  then have "unat (w AND mask n) = take_bit n (unat w)" by (simp add: unsigned_take_bit_eq)
  then show ?thesis by (simp add: take_bit_eq_mod)
qed

subsection \<open>Ring indices\<close>

text \<open>The number of places from index \<open>f\<close> on to index \<open>l\<close> in a ring of \<open>m\<close> places.\<close>

definition ring_dist :: "int \<Rightarrow> int \<Rightarrow> int \<Rightarrow> nat" where
  "ring_dist m f l = nat ((l - f) mod m)"

lemma ring_dist_less: "0 < m \<Longrightarrow> int (ring_dist m f l) < m"
  by (simp add: ring_dist_def)

lemma ring_dist_reach: "0 \<le> l \<Longrightarrow> l < m \<Longrightarrow> (f + int (ring_dist m f l)) mod m = l"
  by (simp add: ring_dist_def mod_add_right_eq)

lemma ring_index_inj:
  fixes i j m f :: int
  assumes "0 \<le> i" "i < m" "0 \<le> j" "j < m" and "(f + i) mod m = (f + j) mod m"
  shows "i = j"
proof -
  have "i mod m = j mod m" using assms(5) by (metis add_diff_cancel_left' mod_diff_left_eq)
  then show ?thesis using assms by simp
qed

lemma ring_dist_Suc:
  assumes "0 < m" and "int (ring_dist m f l) + 1 < m"
  shows "ring_dist m f ((l + 1) mod m) = Suc (ring_dist m f l)"
proof -
  have "((l + 1) mod m - f) mod m = ((l - f) mod m + 1) mod m"
    by (simp add: mod_simps algebra_simps)
  also have "\<dots> = (l - f) mod m + 1"
    using assms pos_mod_sign [OF assms(1), of "l - f"]
    by (intro mod_pos_pos_trivial) (simp_all add: ring_dist_def)
  finally show ?thesis
    using assms(1) by (simp add: ring_dist_def nat_add_distrib)
qed

lemma ring_dist_pred:
  assumes "0 < m" and "0 < ring_dist m f l"
  shows "Suc (ring_dist m ((f + 1) mod m) l) = ring_dist m f l"
proof -
  have "(l - (f + 1) mod m) mod m = ((l - f) mod m - 1) mod m"
    by (simp add: mod_simps algebra_simps)
  also have "\<dots> = (l - f) mod m - 1"
  proof (rule mod_pos_pos_trivial)
    show "0 \<le> (l - f) mod m - 1" using assms(2) by (simp add: ring_dist_def)
    have "(l - f) mod m < m" using assms(1) by simp
    then show "(l - f) mod m - 1 < m" by linarith
  qed
  finally show ?thesis
    using assms by (simp add: ring_dist_def nat_diff_distrib)
qed

lemma ring_dist_0:
  assumes "0 \<le> f" "f < m" "0 \<le> l" "l < m"
  shows "ring_dist m f l = 0 \<longleftrightarrow> f = l"
proof
  assume "ring_dist m f l = 0"
  with ring_dist_reach [of l m f] assms show "f = l" by simp
qed (simp add: ring_dist_def)

lemma ring_dist_max:
  assumes "0 \<le> f" "f < m" "0 \<le> l" "l < m"
  shows "int (ring_dist m f l) = m - 1 \<longleftrightarrow> f = (l + 1) mod m"
proof
  assume d: "int (ring_dist m f l) = m - 1"
  have "(l + 1) mod m = ((f + int (ring_dist m f l)) mod m + 1) mod m"
    using assms by (simp add: ring_dist_reach)
  also have "\<dots> = f" using assms by (simp add: d mod_simps)
  finally show "f = (l + 1) mod m" by simp
next
  assume f: "f = (l + 1) mod m"
  have "(l - f) mod m = (- 1) mod m" unfolding f by (simp add: mod_simps)
  also have "\<dots> = m - 1" using assms by (simp add: zmod_minus1)
  finally show "int (ring_dist m f l) = m - 1" using assms by (simp add: ring_dist_def)
qed

end
