(* ===== verification/Phys_Mem.thy ===== *)
theory Phys_Mem
  imports Prelude
begin

unbundle bit_operations_syntax

section \<open>Physical memory\<close>

text \<open>
  The kernel runs on identity-mapped memory and dereferences raw 64-bit addresses, so memory is
  a total function from addresses to bytes. Wider objects are little-endian, as on x86-64. The
  locale \<open>cell_store\<close> is the interface the allocators and the page tables use: reading a cell
  gives the value last stored there, and a store leaves every disjoint range as it was. It is
  interpreted on the 64-bit, the 32-bit and the byte cells.
\<close>

type_synonym mem = "u64 \<Rightarrow> u8"

subsection \<open>Ranges of addresses\<close>

text \<open>The \<open>n\<close> bytes from \<open>a\<close> on (modulo the size of the address space).\<close>

definition in_range :: "u64 \<Rightarrow> nat \<Rightarrow> u64 \<Rightarrow> bool" where
  "in_range a n x \<longleftrightarrow> unat (x - a) < n"

definition apart :: "u64 \<Rightarrow> nat \<Rightarrow> u64 \<Rightarrow> nat \<Rightarrow> bool" where
  "apart a n b k \<longleftrightarrow> n \<le> unat (b - a) \<and> k \<le> unat (a - b)"

lemma apart_sym: "apart a n b k \<longleftrightarrow> apart b k a n"
  by (auto simp: apart_def)

lemma unat_add_diff:
  fixes a b :: u64
  assumes "i < k" and "k \<le> 2 ^ 64"
  shows "unat (b + of_nat i - a) =
    (if unat (b - a) + i < 2 ^ 64 then unat (b - a) + i else unat (b - a) + i - 2 ^ 64)"
proof -
  have i: "unat (of_nat i :: u64) = i" using assms by (intro unat_of_nat_small) simp
  have "b + of_nat i - a = (b - a) + of_nat i" by simp
  then have "unat (b + of_nat i - a) = (unat (b - a) + i) mod 2 ^ 64"
    using unat_word_ariths(1) [of "b - a" "of_nat i"] by (simp only: i) simp
  moreover have "unat (b - a) + i < 2 * 2 ^ 64"
    using assms unat_lt64 [of "b - a"] by simp
  ultimately show ?thesis by (auto simp: mod_if)
qed

lemma unat_minus_swap: "unat ((a :: u64) - b) = (if a = b then 0 else 2 ^ 64 - unat (b - a))"
proof -
  have "unat a \<noteq> unat b" if "a \<noteq> b" using that by (simp add: word_unat_eq_iff)
  then show ?thesis
    using unat_lt64 [of a] unat_lt64 [of b]
    by (auto simp: unat_sub_if_size word_size)
qed

lemma apart_not_in_range:
  assumes "apart a n b k" and "i < k"
  shows "\<not> in_range a n (b + of_nat i)"
proof -
  have "k \<le> 2 ^ 64"
    using assms(1) less_imp_le [OF unat_lt64 [of "a - b"]] by (auto simp: apart_def)
  note d = unat_add_diff [OF assms(2) this, of b a]
  from assms show ?thesis
    by (auto simp: in_range_def d apart_def unat_minus_swap [of a b] split: if_splits)
qed

lemma in_range_self: "i < n \<Longrightarrow> n \<le> 2 ^ 64 \<Longrightarrow> in_range a n (a + of_nat i)"
  by (simp add: in_range_def unat_of_nat_small)

lemma apart_below:
  assumes "unat a + n \<le> unat b" and "unat b + k \<le> 2 ^ 64" and "0 < n"
  shows "apart a n b k" "apart b k a n"
proof -
  have "a \<le> b" using assms(1) by (simp add: word_le_nat_alt)
  then have d: "unat (b - a) = unat b - unat a" by (rule unat_sub)
  moreover have "a \<noteq> b" using assms(1,3) by auto
  ultimately have "unat (a - b) = 2 ^ 64 - (unat b - unat a)" using unat_minus_swap [of a b] by simp
  then show "apart a n b k" using assms d unfolding apart_def by linarith
  then show "apart b k a n" by (simp add: apart_sym)
qed

lemma unat_add_small: "unat (a :: u64) + n < 2 ^ 64 \<Longrightarrow> unat (a + of_nat n) = unat a + n"
proof -
  assume l: "unat a + n < 2 ^ 64"
  then have "unat (of_nat n :: u64) = n" by (intro unat_of_nat_small) simp
  with l show ?thesis using unat_word_ariths(1) [of a "of_nat n"] by simp
qed

subsection \<open>Bytes of a range\<close>

definition load_bytes :: "mem \<Rightarrow> u64 \<Rightarrow> nat \<Rightarrow> u8 list" where
  "load_bytes m a n = map (\<lambda>i. m (a + of_nat i)) [0..<n]"

definition store_bytes :: "mem \<Rightarrow> u64 \<Rightarrow> u8 list \<Rightarrow> mem" where
  "store_bytes m a bs =
     (\<lambda>x. if in_range a (length bs) x then bs ! unat (x - a) else m x)"

lemma length_load_bytes [simp]: "length (load_bytes m a n) = n"
  by (simp add: load_bytes_def)

lemma nth_load_bytes [simp]: "i < n \<Longrightarrow> load_bytes m a n ! i = m (a + of_nat i)"
  by (simp add: load_bytes_def)

lemma store_bytes_Nil [simp]: "store_bytes m a [] = m"
  by (simp add: store_bytes_def in_range_def)

lemma load_store_bytes [mem_simps]:
  "length bs \<le> 2 ^ 64 \<Longrightarrow> load_bytes (store_bytes m a bs) a (length bs) = bs"
  by (rule nth_equalityI)
    (simp_all add: store_bytes_def in_range_def unat_of_nat_small)

lemma load_store_bytes_apart [mem_simps]:
  "apart a (length bs) b k \<Longrightarrow> load_bytes (store_bytes m a bs) b k = load_bytes m b k"
  by (rule nth_equalityI) (auto simp: store_bytes_def apart_not_in_range)

lemma store_bytes_other: "\<not> in_range a (length bs) x \<Longrightarrow> store_bytes m a bs x = m x"
  by (simp add: store_bytes_def)

lemma store_load_bytes [mem_simps]: "n \<le> 2 ^ 64 \<Longrightarrow> store_bytes m a (load_bytes m a n) = m"
  by (rule ext) (simp add: store_bytes_def in_range_def)

lemma load_bytes_append: "load_bytes m a (i + j) = load_bytes m a i @ load_bytes m (a + of_nat i) j"
  by (rule nth_equalityI) (auto simp: nth_append add.assoc simp flip: of_nat_add)

lemma wrapped_outside: "\<not> i \<le> y \<Longrightarrow> i + j \<le> N \<Longrightarrow> \<not> y + N - i < (j :: nat)"
  by linarith

lemma diff_less_add: "i \<le> y \<Longrightarrow> y - i < j \<longleftrightarrow> y < i + (j :: nat)"
  by linarith

lemma in_range_offset:
  assumes "i + j \<le> 2 ^ 64" and "0 < j"
  shows "in_range (a + of_nat i) j x \<longleftrightarrow> i \<le> unat (x - a) \<and> unat (x - a) < i + j"
    and "in_range (a + of_nat i) j x \<Longrightarrow> unat (x - (a + of_nat i)) = unat (x - a) - i"
proof -
  have ui: "unat (of_nat i :: u64) = i" using assms by (intro unat_of_nat_small) simp
  have eq: "x - (a + of_nat i) = (x - a) - of_nat i" by simp
  have u: "unat (x - (a + of_nat i)) =
    (if i \<le> unat (x - a) then unat (x - a) - i else unat (x - a) + 2 ^ 64 - i)"
    unfolding eq using unat_sub_if_size [of "x - a" "of_nat i"] by (simp add: ui word_size)
  show iff: "in_range (a + of_nat i) j x \<longleftrightarrow> i \<le> unat (x - a) \<and> unat (x - a) < i + j"
  proof (cases "i \<le> unat (x - a)")
    case True
    then show ?thesis unfolding in_range_def u by (simp only: if_True diff_less_add simp_thms)
  next
    case False
    then show ?thesis
      unfolding in_range_def u
      by (simp only: if_False wrapped_outside [OF False assms(1)] simp_thms)
  qed
  show "in_range (a + of_nat i) j x \<Longrightarrow> unat (x - (a + of_nat i)) = unat (x - a) - i"
    using iff u by (simp only: if_True)
qed

lemma store_bytes_append:
  assumes "length xs + length ys \<le> 2 ^ 64"
  shows "store_bytes (store_bytes m a xs) (a + of_nat (length xs)) ys = store_bytes m a (xs @ ys)"
proof (cases "ys = []")
  case False
  note r = in_range_offset [OF assms, of a]
  show ?thesis
  proof (rule ext)
    fix x
    show "store_bytes (store_bytes m a xs) (a + of_nat (length xs)) ys x = store_bytes m a (xs @ ys) x"
    proof (cases "in_range (a + of_nat (length xs)) (length ys) x")
      case True
      have b: "length xs \<le> unat (x - a)" "unat (x - a) < length xs + length ys"
        using True r(1) False by blast+
      have "in_range a (length (xs @ ys)) x" using b by (simp add: in_range_def)
      then show ?thesis
        using True b r(2) [OF _ True] False by (simp add: store_bytes_def nth_append)
    next
      case outside: False
      then have o: "\<not> (length xs \<le> unat (x - a) \<and> unat (x - a) < length xs + length ys)"
        using r(1) False by blast
      show ?thesis
        unfolding store_bytes_def if_not_P [OF outside]
        using o by (auto simp: in_range_def nth_append)
    qed
  qed
qed simp

subsection \<open>Little-endian codes\<close>

definition le_bytes :: "nat \<Rightarrow> 'a::len word \<Rightarrow> u8 list" where
  "le_bytes n w = map (\<lambda>i. ucast (drop_bit (8 * i) w)) [0..<n]"

primrec le_word :: "u8 list \<Rightarrow> 'a::len word" where
  "le_word [] = 0"
| "le_word (b # bs) = ucast b OR push_bit 8 (le_word bs)"

lemma length_le_bytes [simp]: "length (le_bytes n w) = n"
  by (simp add: le_bytes_def)

lemma bit_le_word:
  "bit (le_word bs :: 'a::len word) k \<longleftrightarrow>
     k < LENGTH('a) \<and> k div 8 < length bs \<and> bit (bs ! (k div 8)) (k mod 8)"
proof (induction bs arbitrary: k)
  case Nil
  then show ?case by simp
next
  case (Cons b bs)
  show ?case
  proof (cases "k < 8")
    case True
    then show ?thesis
      by (auto simp: bit_simps)
  next
    case False
    then have "k div 8 = Suc ((k - 8) div 8)" and "k mod 8 = (k - 8) mod 8"
      by (simp_all add: le_div_geq le_mod_geq)
    moreover have "\<not> bit b k" using False by (auto dest: bit_imp_le_length)
    ultimately show ?thesis
      using False by (auto simp: bit_simps Cons.IH)
  qed
qed

lemma le_word_le_bytes: "LENGTH('a) = 8 * n \<Longrightarrow> le_word (le_bytes n w) = (w :: 'a::len word)"
  by (rule bit_word_eqI)
    (auto simp: bit_le_word le_bytes_def bit_simps less_mult_imp_div_less mult.commute)

lemma le_bytes_le_word:
  assumes "LENGTH('a) = 8 * length bs"
  shows "le_bytes (length bs) (le_word bs :: 'a::len word) = bs"
proof (rule nth_equalityI)
  fix i assume "i < length (le_bytes (length bs) (le_word bs :: 'a word))"
  then have i: "i < length bs" by simp
  show "le_bytes (length bs) (le_word bs :: 'a word) ! i = bs ! i"
  proof (rule bit_word_eqI)
    fix k assume "k < LENGTH(8)"
    then have k: "k < 8" by simp
    then show "bit (le_bytes (length bs) (le_word bs :: 'a word) ! i) k = bit (bs ! i) k"
      using i assms by (auto simp: le_bytes_def bit_simps bit_le_word)
  qed
qed simp

subsection \<open>Cells\<close>

definition load64 :: "mem \<Rightarrow> u64 \<Rightarrow> u64" where
  "load64 m a = le_word (load_bytes m a 8)"

definition store64 :: "mem \<Rightarrow> u64 \<Rightarrow> u64 \<Rightarrow> mem" where
  "store64 m a v = store_bytes m a (le_bytes 8 v)"

definition load32 :: "mem \<Rightarrow> u64 \<Rightarrow> u32" where
  "load32 m a = le_word (load_bytes m a 4)"

definition store32 :: "mem \<Rightarrow> u64 \<Rightarrow> u32 \<Rightarrow> mem" where
  "store32 m a v = store_bytes m a (le_bytes 4 v)"

definition load8 :: "mem \<Rightarrow> u64 \<Rightarrow> u8" where
  "load8 m a = m a"

definition store8 :: "mem \<Rightarrow> u64 \<Rightarrow> u8 \<Rightarrow> mem" where
  "store8 m a v = m(a := v)"

locale cell_store =
  fixes ld :: "mem \<Rightarrow> u64 \<Rightarrow> 'v" and st :: "mem \<Rightarrow> u64 \<Rightarrow> 'v \<Rightarrow> mem" and sz :: nat
  assumes sz_pos: "0 < sz"
    and ld_st: "ld (st m a v) a = v"
    and st_apart: "apart a sz b k \<Longrightarrow> load_bytes (st m a v) b k = load_bytes m b k"
    and ld_bytes: "load_bytes m a sz = load_bytes m' b sz \<Longrightarrow> ld m a = ld m' b"
    and st_ld: "st m a (ld m' b) = store_bytes m a (load_bytes m' b sz)"
begin

lemma ld_st_apart: "apart a sz b sz \<Longrightarrow> ld (st m a v) b = ld m b"
  by (rule ld_bytes) (rule st_apart)

text \<open>
  Copying an array of cells upwards, one cell at a time: the memory after the first \<open>n\<close> of them.
  On disjoint ranges it is a copy of the bytes.
\<close>

primrec copy :: "mem \<Rightarrow> u64 \<Rightarrow> u64 \<Rightarrow> nat \<Rightarrow> mem" where
  "copy m d s 0 = m"
| "copy m d s (Suc n) =
     st (copy m d s n) (d + of_nat (sz * n)) (ld (copy m d s n) (s + of_nat (sz * n)))"

lemma copy_bytes:
  assumes "apart d (sz * n) s (sz * n)"
  shows "copy m d s n = store_bytes m d (load_bytes m s (sz * n))"
proof -
  have le: "sz * n \<le> 2 ^ 64"
    using assms less_imp_le [OF unat_lt64 [of "d - s"]] by (auto simp: apart_def)
  have "copy m d s k = store_bytes m d (load_bytes m s (sz * k))" if "k \<le> n" for k
    using that
  proof (induction k)
    case (Suc k)
    let ?m = "store_bytes m d (load_bytes m s (sz * k))"
    have k: "sz * k + sz \<le> sz * n" using Suc.prems by (metis add.commute mult_Suc_right mult_le_mono2)
    have ap: "apart d (sz * k) s (sz * n)" using assms k by (auto simp: apart_def)
    have bs: "load_bytes ?m (s + of_nat (sz * k)) sz = load_bytes m (s + of_nat (sz * k)) sz"
    proof (rule nth_equalityI)
      fix i assume "i < length (load_bytes ?m (s + of_nat (sz * k)) sz)"
      then have "sz * k + i < sz * n" and i: "i < sz" using k by simp_all
      then have "\<not> in_range d (sz * k) (s + of_nat (sz * k + i))"
        using apart_not_in_range [OF ap] by blast
      then show "load_bytes ?m (s + of_nat (sz * k)) sz ! i = load_bytes m (s + of_nat (sz * k)) sz ! i"
        using i by (simp add: store_bytes_def add.assoc)
    qed simp
    have "copy m d s (Suc k) = st ?m (d + of_nat (sz * k)) (ld ?m (s + of_nat (sz * k)))"
      using Suc by simp
    also have "\<dots> = store_bytes ?m (d + of_nat (sz * k)) (load_bytes m (s + of_nat (sz * k)) sz)"
      by (simp only: st_ld bs)
    also have "\<dots> = store_bytes m d
        (load_bytes m s (sz * k) @ load_bytes m (s + of_nat (sz * k)) sz)"
      using store_bytes_append [of "load_bytes m s (sz * k)"
          "load_bytes m (s + of_nat (sz * k)) sz" m d] k le by simp
    also have "\<dots> = store_bytes m d (load_bytes m s (sz * Suc k))"
      by (simp only: load_bytes_append [symmetric]) (simp add: add.commute)
    finally show ?case .
  qed (simp add: load_bytes_def)
  then show ?thesis by simp
qed

text \<open>Filling an array of cells: cell \<open>i\<close> from \<open>f i\<close>, in increasing order.\<close>

primrec fill :: "mem \<Rightarrow> u64 \<Rightarrow> (nat \<Rightarrow> 'v) \<Rightarrow> nat \<Rightarrow> mem" where
  "fill m a f 0 = m"
| "fill m a f (Suc n) = st (fill m a f n) (a + of_nat (sz * n)) (f n)"

lemma ld_fill:
  assumes "i < n" and "sz * n \<le> 2 ^ 64"
  shows "ld (fill m a f n) (a + of_nat (sz * i)) = f i"
  using assms(1,2)
proof (induction n)
  case (Suc n)
  show ?case
  proof (cases "i = n")
    case True
    then show ?thesis by (simp add: ld_st)
  next
    case False
    with Suc.prems have i: "i < n" by simp
    have le: "sz * n + sz \<le> 2 ^ 64" using Suc.prems by (simp add: algebra_simps)
    have lt: "sz * i + sz \<le> sz * n"
      using i by (metis Suc_leI add.commute mult_Suc_right mult_le_mono2)
    have un: "unat (of_nat (sz * n) :: u64) = sz * n"
      using le sz_pos by (intro unat_of_nat_small) simp
    have ui: "unat (of_nat (sz * i) :: u64) = sz * i"
      using le lt sz_pos by (intro unat_of_nat_small) simp
    have "unat ((of_nat (sz * n) :: u64) - of_nat (sz * i)) = sz * n - sz * i"
      using lt un ui
      by (metis add_leE unat_sub word_le_nat_alt)
    then have d: "unat ((a + of_nat (sz * n)) - (a + of_nat (sz * i))) = sz * n - sz * i"
      by (metis add_diff_cancel_left)
    have ne: "a + of_nat (sz * i) \<noteq> a + of_nat (sz * n)"
      using lt un ui sz_pos by (metis add_left_cancel less_add_same_cancel1 linorder_not_less)
    have "apart (a + of_nat (sz * n)) sz (a + of_nat (sz * i)) sz"
      unfolding apart_def
      using ne lt le d unat_minus_swap [of "a + of_nat (sz * i)" "a + of_nat (sz * n)"]
      by auto
    then show ?thesis using Suc i le sz_pos by (simp add: ld_st_apart)
  qed
qed simp

end

interpretation c64: cell_store load64 store64 8
proof unfold_locales
  fix m :: mem and a and v :: u64
  have "load_bytes (store_bytes m a (le_bytes 8 v)) a (length (le_bytes 8 v)) = le_bytes 8 v"
    by (rule load_store_bytes) simp
  then show "load64 (store64 m a v) a = v"
    by (simp add: load64_def store64_def le_word_le_bytes)
next
  fix m m' :: mem and a b
  show "store64 m a (load64 m' b) = store_bytes m a (load_bytes m' b 8)"
    using le_bytes_le_word [of "load_bytes m' b 8", where 'a = 64]
    by (simp add: store64_def load64_def)
qed (simp_all add: store64_def load64_def mem_simps)

interpretation c32: cell_store load32 store32 4
proof unfold_locales
  fix m :: mem and a and v :: u32
  have "load_bytes (store_bytes m a (le_bytes 4 v)) a (length (le_bytes 4 v)) = le_bytes 4 v"
    by (rule load_store_bytes) simp
  then show "load32 (store32 m a v) a = v"
    by (simp add: load32_def store32_def le_word_le_bytes)
next
  fix m m' :: mem and a b
  show "store32 m a (load32 m' b) = store_bytes m a (load_bytes m' b 4)"
    using le_bytes_le_word [of "load_bytes m' b 4", where 'a = 32]
    by (simp add: store32_def load32_def)
qed (simp_all add: store32_def load32_def mem_simps)

lemma store8_bytes: "store8 m a v = store_bytes m a [v]"
  by (rule ext) (auto simp: store8_def store_bytes_def in_range_def unat_eq_zero)

interpretation c8: cell_store load8 store8 1
proof unfold_locales
  fix m :: mem and a v b and k :: nat
  assume "apart a 1 b k"
  then show "load_bytes (store8 m a v) b k = load_bytes m b k"
    by (simp add: store8_bytes mem_simps)
qed (simp_all add: load8_def store8_bytes load_bytes_def, simp add: store_bytes_def in_range_def)

lemmas cell_simps [mem_simps] =
  c64.ld_st c32.ld_st c8.ld_st c64.ld_st_apart c32.ld_st_apart c8.ld_st_apart

end
