(* ===== verification/Lib_Mem.thy ===== *)
theory Lib_Mem
  imports Phys_Mem
begin

unbundle bit_operations_syntax

section \<open>Kernel/lib/mem.c: memset, memcpy, memmove\<close>

text \<open>
  The three block operations on physical memory. Each loop is the memory after a given number of
  iterations; the functions also return the destination, as the C functions do. The lemmas give
  each one its meaning as a single block store: \<open>memset\<close> on every input, \<open>memcpy\<close> on disjoint
  ranges whichever of its two loops it takes, \<open>memmove\<close> also on overlapping ones.
\<close>

primrec memset_loop :: "mem \<Rightarrow> u64 \<Rightarrow> u8 \<Rightarrow> nat \<Rightarrow> mem" where
  "memset_loop m dst chr 0 = m"
| "memset_loop m dst chr (Suc len) = memset_loop (store8 m (dst + of_nat len) chr) dst chr len"

definition memset :: "mem \<Rightarrow> u64 \<Rightarrow> u32 \<Rightarrow> u64 \<Rightarrow> mem \<times> u64" where
  "memset m destination c len =
     (let chr = ucast c :: u8
      in (memset_loop m destination chr (unat len), destination))"

primrec memcpy_words :: "mem \<Rightarrow> u64 \<Rightarrow> u64 \<Rightarrow> nat \<Rightarrow> mem" where
  "memcpy_words m d s 0 = m"
| "memcpy_words m d s (Suc i) =
     (let m' = memcpy_words m d s i
      in store32 m' (d + of_nat (4 * i)) (load32 m' (s + of_nat (4 * i))))"

primrec memcpy_bytes :: "mem \<Rightarrow> u64 \<Rightarrow> u64 \<Rightarrow> nat \<Rightarrow> mem" where
  "memcpy_bytes m d s 0 = m"
| "memcpy_bytes m d s (Suc i) =
     (let m' = memcpy_bytes m d s i
      in store8 m' (d + of_nat i) (load8 m' (s + of_nat i)))"

definition memcpy :: "mem \<Rightarrow> u64 \<Rightarrow> u64 \<Rightarrow> u64 \<Rightarrow> mem \<times> u64" where
  "memcpy m destination source len =
     ((if destination mod 4 = 0 \<and> source mod 4 = 0 \<and> len mod 4 = 0
       then memcpy_words m destination source (unat (len div 4))
       else memcpy_bytes m destination source (unat len)),
      destination)"

text \<open>
  \<open>int direction\<close>, \<open>int base\<close>: the conditional has the type of \<open>length\<close>, so \<open>base\<close> is
  \<open>length - 1\<close> cut to 32 bits; in \<open>base + i * direction\<close> both are extended with their sign.
\<close>

definition memmove_index :: "u32 \<Rightarrow> u32 \<Rightarrow> u64 \<Rightarrow> u64" where
  "memmove_index base direction i = scast base + i * scast direction"

primrec memmove_loop :: "mem \<Rightarrow> u64 \<Rightarrow> u64 \<Rightarrow> u32 \<Rightarrow> u32 \<Rightarrow> nat \<Rightarrow> mem" where
  "memmove_loop m d s base direction 0 = m"
| "memmove_loop m d s base direction (Suc i) =
     (let m' = memmove_loop m d s base direction i;
          k = memmove_index base direction (of_nat i)
      in store8 m' (d + k) (load8 m' (s + k)))"

definition memmove :: "mem \<Rightarrow> u64 \<Rightarrow> u64 \<Rightarrow> u64 \<Rightarrow> mem \<times> u64" where
  "memmove m destination source len =
     (let direction = (if source > destination then 1 else - 1);
          base = (if source > destination then 0 else ucast (len - 1))
      in (memmove_loop m destination source base direction (unat len), destination))"

subsection \<open>memset\<close>

lemma memset_loop_store:
  "n \<le> 2 ^ 64 \<Longrightarrow> memset_loop m dst chr n = store_bytes m dst (replicate n chr)"
proof (induction n arbitrary: m)
  case (Suc n)
  have "unat (of_nat n :: u64) = n" using Suc.prems by (intro unat_of_nat_small) simp
  then have "x = dst + of_nat n \<longleftrightarrow> unat (x - dst) = n" for x
    by (metis add_diff_cancel_left' diff_add_cancel add.commute word_unat_eq_iff)
  then show ?case
    using Suc
    by (auto simp: store_bytes_def in_range_def store8_def less_Suc_eq fun_eq_iff nth_Cons'
        simp flip: replicate_Suc)
qed simp

text \<open>
  \<open>memset\<close> sets exactly the \<open>length\<close> bytes from \<open>destination\<close> on to the low byte of \<open>c\<close>,
  leaves all other memory as it was, and returns \<open>destination\<close>.\<close>

theorem memset_sets_range:
  "memset m destination c len =
     (store_bytes m destination (replicate (unat len) (ucast c)), destination)"
  using memset_loop_store [of "unat len"] less_imp_le [OF unat_lt64 [of len]]
  by (simp add: memset_def)

subsection \<open>memcpy\<close>

lemma memcpy_words_copy: "memcpy_words m d s n = c32.copy m d s n"
  by (induction n) (simp_all add: Let_def)

lemma memcpy_bytes_copy: "memcpy_bytes m d s n = c8.copy m d s n"
  by (induction n) (simp_all add: Let_def c8.copy.simps del: One_nat_def)

theorem memcpy_disjoint:
  assumes "apart destination (unat len) source (unat len)"
  shows "memcpy m destination source len =
    (store_bytes m destination (load_bytes m source (unat len)), destination)"
proof (cases "destination mod 4 = 0 \<and> source mod 4 = 0 \<and> len mod 4 = 0")
  case True
  then have "unat (len mod 4) = 0" by simp
  then have "unat len mod 4 = 0" unfolding unat_mod by simp
  then have "unat (len div 4) * 4 = unat len" unfolding unat_div by auto
  with True assms show ?thesis
    using c32.copy_bytes [of destination "unat (len div 4)" source m]
    by (simp add: memcpy_def memcpy_words_copy mult.commute)
next
  case False
  with assms show ?thesis
    using c8.copy_bytes [of destination "unat len" source m]
    by (simp only: memcpy_def memcpy_bytes_copy if_False mult_1)
qed

subsection \<open>memmove\<close>

lemma memmove_index_forward: "memmove_index 0 1 i = i"
  by (simp add: memmove_index_def)

lemma scast_ucast_small: "uint w < 2 ^ 31 \<Longrightarrow> scast (ucast (w :: u64) :: u32) = w"
proof -
  assume w: "uint w < 2 ^ 31"
  have u: "uint (ucast w :: u32) = uint w"
    using w uint_ge_0 [of w]
    by (simp add: unsigned_ucast_eq take_bit_int_eq_self)
  then have "sint (ucast w :: u32) = uint w" using w by (simp add: sint_small)
  then show ?thesis by (simp add: scast_eq)
qed

lemma memmove_index_backward:
  fixes len :: u64
  assumes "i < unat len" and "unat len \<le> 2 ^ 31"
  shows "memmove_index (ucast (len - 1)) (- 1) (of_nat i) = of_nat (unat len - Suc i)"
proof -
  have "len \<noteq> 0" using assms(1) by auto
  then have u: "unat (len - 1) = unat len - 1" by (rule unat_minus_one)
  then have "unat (len - 1) < 2 ^ 31" using assms by linarith
  then have "uint (len - 1) < 2 ^ 31" using uint_less_unat [of "len - 1" "2 ^ 31"] by simp
  then have "memmove_index (ucast (len - 1)) (- 1) (of_nat i) = len - 1 - of_nat i"
    by (simp add: memmove_index_def scast_ucast_small)
  also have "\<dots> = of_nat (unat len - Suc i)"
    using assms(1) by (simp add: of_nat_diff)
  finally show ?thesis .
qed

lemma store_bytes_snoc:
  "length xs < 2 ^ 64 \<Longrightarrow>
   store8 (store_bytes m a xs) (a + of_nat (length xs)) v = store_bytes m a (xs @ [v])"
  using store_bytes_append [of xs "[v]" m a] by (simp add: store8_bytes)

lemma memmove_forward:
  assumes "source > destination" and "unat source + n \<le> 2 ^ 64" and "k \<le> n"
  shows "memmove_loop m destination source 0 1 k
    = store_bytes m destination (load_bytes m source k)"
  using assms(3)
proof (induction k)
  case (Suc k)
  let ?m = "store_bytes m destination (load_bytes m source k)"
  have k: "unat (of_nat k :: u64) = k"
    using Suc.prems assms(2) by (intro unat_of_nat_small) simp
  have d: "unat (source - destination) = unat source - unat destination"
    using assms(1) by (simp add: unat_sub word_less_nat_alt word_le_nat_alt)
  have "source + of_nat k - destination = (source - destination) + of_nat k" by simp
  then have "unat (source + of_nat k - destination) = unat source - unat destination + k"
    using d k Suc.prems assms(2)
    by (simp only:) (subst unat_plus_simple [THEN iffD1], simp_all add: word_le_nat_alt unat_plus_if')
  then have "\<not> in_range destination k (source + of_nat k)" by (simp add: in_range_def)
  then have r: "?m (source + of_nat k) = m (source + of_nat k)" by (simp add: store_bytes_def)
  have "store8 ?m (destination + of_nat k) (m (source + of_nat k))
      = store_bytes m destination (load_bytes m source k @ [m (source + of_nat k)])"
    using store_bytes_snoc [of "load_bytes m source k" m destination] Suc.prems assms(2) by simp
  also have "load_bytes m source k @ [m (source + of_nat k)] = load_bytes m source (Suc k)"
    by (simp add: load_bytes_def)
  finally show ?case
    using Suc by (simp add: memmove_index_forward load8_def r)
qed (simp add: load_bytes_def)

lemma store_bytes_Cons:
  assumes "length xs < 2 ^ 64"
  shows "store8 (store_bytes m (a + 1) xs) a v = store_bytes m a (v # xs)"
proof (cases "xs = []")
  case False
  have le: "1 + length xs \<le> 2 ^ 64" and pos: "0 < length xs" using assms False by simp_all
  note r = in_range_offset [OF le pos, of a, unfolded of_nat_1]
  show ?thesis
  proof (rule ext)
    fix x
    consider "x = a" | "x \<noteq> a" "in_range (a + 1) (length xs) x"
      | "x \<noteq> a" "\<not> in_range (a + 1) (length xs) x" by blast
    then show "store8 (store_bytes m (a + 1) xs) a v x = store_bytes m a (v # xs) x"
    proof cases
      case 1
      then show ?thesis by (simp add: store8_def store_bytes_def in_range_def)
    next
      case 2
      then have b: "1 \<le> unat (x - a)" "unat (x - a) < 1 + length xs" using r(1) by blast+
      have "in_range a (length (v # xs)) x" using b by (simp add: in_range_def)
      then show ?thesis
        using 2 b r(2) [OF 2(2)] by (simp add: store8_def store_bytes_def nth_Cons')
    next
      case 3
      have "unat (x - a) \<noteq> 0" using 3(1) by (simp add: unat_eq_zero)
      then have "\<not> in_range a (length (v # xs)) x"
        using 3(2) r(1) [of x] by (auto simp: in_range_def)
      then show ?thesis using 3 by (simp add: store8_def store_bytes_def)
    qed
  qed
qed (auto simp: store8_bytes)

lemma memmove_backward_read:
  assumes "source \<le> destination" and "unat destination + n \<le> 2 ^ 64" and "j < n - k" and "k \<le> n"
  shows "\<not> in_range (destination + of_nat (n - k)) k (source + of_nat j)"
proof (cases "k = 0")
  case False
  have jn: "unat (of_nat j :: u64) = j"
    using assms by (intro unat_of_nat_small) (simp add: less_diff_conv)
  have le: "unat source \<le> unat destination" using assms(1) by (simp add: word_le_nat_alt)
  have eq: "source + of_nat j - destination = of_nat j - (destination - source)" by simp
  have ds: "unat (destination - source) = unat destination - unat source"
    by (rule unat_sub [OF assms(1)])
  have "\<not> (n - k \<le> unat (source + of_nat j - destination)
      \<and> unat (source + of_nat j - destination) < n)"
  proof (cases "unat destination - unat source \<le> j")
    case True
    then have "unat (source + of_nat j - destination) = j - (unat destination - unat source)"
      unfolding eq unat_sub_if_size [of "of_nat j" "destination - source"] ds jn by simp
    then show ?thesis using assms(3) by linarith
  next
    case False
    then have "unat (source + of_nat j - destination)
        = j + 2 ^ 64 - (unat destination - unat source)"
      unfolding eq unat_sub_if_size [of "of_nat j" "destination - source"] ds jn by (simp add: word_size)
    then show ?thesis using assms(2) False by linarith
  qed
  then show ?thesis
    using in_range_offset(1) [of "n - k" k destination "source + of_nat j"] False assms
    by (simp add: less_imp_le)
qed (simp add: in_range_def)

lemma memmove_backward:
  fixes len :: u64
  assumes "source \<le> destination" and "unat destination + unat len \<le> 2 ^ 64"
    and "unat source + unat len \<le> 2 ^ 64" and "unat len \<le> 2 ^ 31" and "k \<le> unat len"
  shows "memmove_loop m destination source (ucast (len - 1)) (- 1) k
    = store_bytes m (destination + of_nat (unat len - k))
        (load_bytes m (source + of_nat (unat len - k)) k)"
  using assms(5)
proof (induction k)
  case (Suc k)
  define j where "j = unat len - Suc k"
  have j: "unat len - k = Suc j" and jk: "j < unat len - k" and kn: "k \<le> unat len"
    using Suc.prems by (simp_all add: j_def)
  let ?bs = "load_bytes m (source + of_nat (Suc j)) k"
  let ?m = "store_bytes m (destination + of_nat (Suc j)) ?bs"
  have sh: "a + of_nat (Suc j) = (a + of_nat j) + 1" for a :: u64 by simp
  have r: "?m (source + of_nat j) = m (source + of_nat j)"
    using memmove_backward_read [OF assms(1,2) jk kn]
    by (simp add: store_bytes_def j del: of_nat_Suc)
  have "store8 ?m (destination + of_nat j) (m (source + of_nat j))
      = store_bytes m (destination + of_nat j) (m (source + of_nat j) # ?bs)"
    unfolding sh by (rule store_bytes_Cons) (use kn unat_lt64 [of len] in simp)
  also have "m (source + of_nat j) # ?bs = load_bytes m (source + of_nat j) (Suc k)"
  proof -
    have "load_bytes m (source + of_nat j) (1 + k) =
        load_bytes m (source + of_nat j) 1 @ load_bytes m (source + of_nat j + of_nat 1) k"
      by (rule load_bytes_append)
    moreover have "load_bytes m (source + of_nat j) 1 = [m (source + of_nat j)]"
      by (simp add: load_bytes_def)
    moreover have "source + of_nat j + of_nat 1 = source + (of_nat (Suc j) :: u64)"
      by (simp add: ac_simps)
    ultimately show ?thesis by (simp only: plus_1_eq_Suc append_Cons append_Nil)
  qed
  finally show ?case
    using Suc.IH kn memmove_index_backward [of k len] Suc.prems assms(4) r
    by (simp add: load8_def j j_def [symmetric] Let_def del: of_nat_Suc)
qed (simp add: load_bytes_def)

text \<open>\<open>memmove\<close> copies \<open>length\<close> bytes correctly also when the two ranges overlap: the
  destination ends up with the bytes the source held at the call, all other memory is unchanged,
  and \<open>destination\<close> is returned. The bound \<open>2 ^ 31\<close> is where \<open>int base\<close> still holds
  \<open>length - 1\<close>.
\<close>

theorem memmove_overlapping:
  assumes "unat len \<le> 2 ^ 31" and "unat source + unat len \<le> 2 ^ 64"
    and "unat destination + unat len \<le> 2 ^ 64"
  shows "memmove m destination source len =
    (store_bytes m destination (load_bytes m source (unat len)), destination)"
proof (cases "source > destination")
  case True
  then show ?thesis using memmove_forward [OF True assms(2) order_refl, of m] by (simp add: memmove_def)
next
  case False
  then show ?thesis
    using memmove_backward [OF _ assms(3,2,1) order_refl, of m] by (simp add: memmove_def)
qed

theorem memmove_overlapping_witness:
  "(\<forall>m. memmove m 1002 1000 3 = (store_bytes m 1002 (load_bytes m 1000 3), 1002))
    \<and> in_range 1000 3 (1002 :: u64)"
  using memmove_overlapping [of 3 1000 1002] by (simp add: in_range_def)

end
