(* ===== verification/Machine.thy ===== *)
theory Machine
  imports Lib_Mem
begin

unbundle bit_operations_syntax

section \<open>The machine: memory, I/O ports and the CMOS memory size\<close>

text \<open>
  The base of the kernel's state. Every component adds its own static variables to this record by
  extension, and its operations take any extension of their own record, so that the operations of
  all components run on one kernel state.

  A device is what it answers: \<open>inq p\<close> is the sequence of bytes that port \<open>p\<close> will return, and
  \<open>outs\<close> is the log of the bytes written, the oldest first. \<open>None\<close> is a read from a port whose
  device has nothing more to say, a read that never returns.
\<close>

record machine =
  mem :: mem
  inq :: "u16 \<Rightarrow> u8 list"
  outs :: "(u16 \<times> u8) list"

subsection \<open>Kernel/io.c\<close>

definition outportb :: "u32 \<Rightarrow> u32 \<Rightarrow> 'a machine_scheme \<Rightarrow> 'a machine_scheme" where
  "outportb port val s = s\<lparr>outs := outs s @ [(ucast port, ucast val)]\<rparr>"

definition inportb :: "u16 \<Rightarrow> 'a machine_scheme \<Rightarrow> (u32 \<times> 'a machine_scheme) option" where
  "inportb port s =
     (case inq s port of
        [] \<Rightarrow> None
      | v # vs \<Rightarrow> Some (ucast v, s\<lparr>inq := (inq s)(port := vs)\<rparr>))"

lemma inportb_Cons:
  "inq s port = v # vs \<Longrightarrow> inportb port s = Some (ucast v, s\<lparr>inq := (inq s)(port := vs)\<rparr>)"
  by (simp add: inportb_def)

lemma inportb_Nil: "inq s port = [] \<Longrightarrow> inportb port s = None"
  by (simp add: inportb_def)

lemma outportb_simps [simp]:
  "mem (outportb p v s) = mem s"
  "inq (outportb p v s) = inq s"
  "outs (outportb p v s) = outs s @ [(ucast p, ucast v)]"
  "machine.more (outportb p v s) = machine.more s"
  by (simp_all add: outportb_def)

end
