(* ===== verification/Sound.thy ===== *)
theory Sound
  imports Machine
begin

unbundle bit_operations_syntax

section \<open>Kernel/sound.c: the PC speaker\<close>

text \<open>
  \<open>timeout\<close> counts the timer ticks the speaker stays on; the timer interrupt (\<open>pit_irq\<close> of
  Kernel/kernel.c) calls \<open>tick_sound\<close>.
\<close>

record sound_state = machine +
  snd_timeout :: u32

definition sound :: "u32 \<Rightarrow> 'a machine_scheme \<Rightarrow> 'a machine_scheme option" where
  "sound frequency s =
     (if frequency < 19 \<or> frequency > 22000 then Some s
      else do {
        (v, s) \<leftarrow> inportb 0x61 s;
        let s = outportb 0x61 (v OR 3) s;
        let s = outportb 0x43 0xB6 s;
        let d = (1193182 :: u64) div ucast frequency;
        let s = outportb 0x42 (ucast (d AND 0xFF)) s;
        Some (outportb 0x42 (ucast (drop_bit 8 d)) s)
      })"

definition nosound :: "'a machine_scheme \<Rightarrow> 'a machine_scheme option" where
  "nosound s = do {
     (v, s) \<leftarrow> inportb 0x61 s;
     Some (outportb 0x61 (v AND 0xFC) s)
   }"

definition beeplf :: "u32 \<Rightarrow> u32 \<Rightarrow> 'a sound_state_scheme \<Rightarrow> 'a sound_state_scheme option" where
  "beeplf len freq s =
     sound freq (s\<lparr>snd_timeout := (if snd_timeout s > len then snd_timeout s else len)\<rparr>)"

definition beepl :: "u32 \<Rightarrow> 'a sound_state_scheme \<Rightarrow> 'a sound_state_scheme option" where
  "beepl len s = beeplf len 0x533 s"

definition beep :: "'a sound_state_scheme \<Rightarrow> 'a sound_state_scheme option" where
  "beep s = beepl 1 s"

definition tick_sound :: "'a sound_state_scheme \<Rightarrow> 'a sound_state_scheme option" where
  "tick_sound s =
     (if snd_timeout s > 0 then Some (s\<lparr>snd_timeout := snd_timeout s - 1\<rparr>) else nosound s)"

text \<open>The ticks of the timer, one after the other.\<close>

primrec ticks :: "nat \<Rightarrow> 'a sound_state_scheme \<Rightarrow> 'a sound_state_scheme option" where
  "ticks 0 s = Some s"
| "ticks (Suc n) s = Option.bind (tick_sound s) (ticks n)"

lemma ticks_counting:
  "n \<le> unat (snd_timeout s) \<Longrightarrow> ticks n s = Some (s\<lparr>snd_timeout := snd_timeout s - of_nat n\<rparr>)"
proof (induction n arbitrary: s)
  case (Suc n)
  have "snd_timeout s \<noteq> 0" using Suc.prems by auto
  then have pos: "snd_timeout s > 0" and "unat (snd_timeout s - 1) = unat (snd_timeout s) - 1"
    by (simp_all add: word_neq_0_conv unat_minus_one)
  then have "n \<le> unat (snd_timeout (s\<lparr>snd_timeout := snd_timeout s - 1\<rparr>))"
    using Suc.prems by simp
  from Suc.IH [OF this] pos show ?case by (simp add: tick_sound_def algebra_simps)
qed simp

text \<open>A beep turns the speaker on and programs the timer channel with the divisor.\<close>

lemma beep_ports:
  assumes "inq s 0x61 = v # vs"
  shows "beep s = Some (s\<lparr>
     snd_timeout := max (snd_timeout s) 1,
     inq := (inq s)(0x61 := vs),
     outs := outs s @ [(0x61, v OR 3), (0x43, 0xB6), (0x42, 0x80), (0x42, 3)]\<rparr>)"
proof -
  have "(ucast (ucast v OR 3 :: u32) :: u8) = v OR 3"
    by (rule bit_word_eqI) (auto simp: bit_simps)
  then show ?thesis
    using assms
    by (simp add: beep_def beepl_def beeplf_def sound_def inportb_def outportb_def max_def)
qed

end
