(* ===== verification/Video.thy ===== *)
theory Video
  imports Sound
begin

unbundle bit_operations_syntax

section \<open>Kernel/video.c: the two text terminals\<close>

text \<open>
  Two off-screen terminals of 25 rows and 80 columns; \<open>vid_update\<close> copies the active one to the
  VGA text buffer. \<open>None\<close> is a write outside the \<open>video\<close> array of a terminal. The invariant
  \<open>vm_ok\<close> (the array has its 2000 cells and the cursor is at most 2000, one past the end) is kept
  by every operation, and under it no operation writes outside the array.
\<close>

abbreviation ROWS :: int where
  "ROWS \<equiv> 25"

abbreviation COLS :: int where
  "COLS \<equiv> 80"

abbreviation TAB_SIZE :: int where
  "TAB_SIZE \<equiv> 8"

datatype vid_term = VID_PROC | VID_SYSLOG

record vid_cell =
  cell_c :: u8
  cell_fmt :: u8

record vid_mem =
  vm_video :: "vid_cell list"
  vm_cursor :: u32
  vm_fmt :: u8

record video_state = sound_state +
  terminals :: "vid_term \<Rightarrow> vid_mem"
  vid_active :: vid_term

definition VID_POS :: "int \<Rightarrow> int \<Rightarrow> int" where
  "VID_POS row col = COLS * row + col"

definition VID_COLOR :: "u32 \<Rightarrow> u32 \<Rightarrow> u32" where
  "VID_COLOR foreground background = (foreground AND 0x0F) OR push_bit 4 background"

subsection \<open>The operations on one terminal\<close>

definition print_cell :: "vid_mem \<Rightarrow> u8 \<Rightarrow> u8 \<Rightarrow> vid_mem option" where
  "print_cell t c f = do {
     let pos = sint (vm_cursor t);
     v \<leftarrow> obj_set (vm_video t) pos \<lparr>cell_c = c, cell_fmt = f\<rparr>;
     Some (t\<lparr>vm_video := v, vm_cursor := vm_cursor t + 1\<rparr>)
   }"

definition term_cursor :: "u32 \<Rightarrow> u32 \<Rightarrow> vid_mem \<Rightarrow> vid_mem" where
  "term_cursor row col t =
     (let raw = sint (80 * row + col);
          max_pos = VID_POS (ROWS - 1) COLS;
          min_pos = VID_POS 0 0
      in t\<lparr>vm_cursor := word_of_int
           (if raw > max_pos then max_pos else if raw < min_pos then min_pos else raw)\<rparr>)"

text \<open>The \<open>memcpy\<close> of one row, cell by cell.\<close>

primrec copy_cells :: "nat \<Rightarrow> int \<Rightarrow> int \<Rightarrow> vid_cell list \<Rightarrow> vid_cell list option" where
  "copy_cells 0 src dst v = Some v"
| "copy_cells (Suc n) src dst v = do {
     v \<leftarrow> copy_cells n src dst v;
     x \<leftarrow> obj_get v (src + int n);
     obj_set v (dst + int n) x
   }"

definition vid_copy_row :: "int \<Rightarrow> int \<Rightarrow> vid_mem \<Rightarrow> vid_mem option" where
  "vid_copy_row row_src row_dst t = do {
     v \<leftarrow> copy_cells (nat COLS) (VID_POS row_src 0) (VID_POS row_dst 0) (vm_video t);
     Some (t\<lparr>vm_video := v\<rparr>)
   }"

primrec scroll_rows :: "nat \<Rightarrow> vid_mem \<Rightarrow> vid_mem option" where
  "scroll_rows 0 t = Some t"
| "scroll_rows (Suc row) t = do {
     t \<leftarrow> scroll_rows row t;
     vid_copy_row (int row + 1) (int row) t
   }"

primrec print_blanks :: "nat \<Rightarrow> u8 \<Rightarrow> vid_mem \<Rightarrow> vid_mem option" where
  "print_blanks 0 f t = Some t"
| "print_blanks (Suc n) f t = do {
     t \<leftarrow> print_cell t 0 f;
     print_blanks n f t
   }"

definition term_scroll :: "vid_mem \<Rightarrow> vid_mem option" where
  "term_scroll t = do {
     t \<leftarrow> scroll_rows (nat (ROWS - 1)) t;
     let t = t\<lparr>vm_cursor := word_of_int (VID_POS (ROWS - 1) 0)\<rparr>;
     print_blanks (nat COLS) (vm_fmt t) t
   }"

text \<open>The two loops of \<open>vid_raw_putc\<close>, to the end of the line and to the tab stop.\<close>

partial_function (option) newline_fill :: "u32 \<Rightarrow> u8 \<Rightarrow> vid_mem \<Rightarrow> vid_mem option" where
  "newline_fill lim f t =
     (if vm_cursor t < lim
      then Option.bind (print_cell t 0 f) (newline_fill lim f)
      else Some t)"

partial_function (option) tab_fill :: "int \<Rightarrow> u8 \<Rightarrow> vid_mem \<Rightarrow> vid_mem option" where
  "tab_fill col f t = do {
     t \<leftarrow> print_cell t 0 f;
     (if col + 1 < COLS \<and> col + 1 < TAB_SIZE then tab_fill (col + 1) f t else Some t)
   }"

definition term_putc :: "u8 \<Rightarrow> u8 \<Rightarrow> vid_mem \<Rightarrow> vid_mem option" where
  "term_putc c f t = do {
     t \<leftarrow> (if vm_cursor t \<ge> word_of_int (VID_POS (ROWS - 1) COLS)
          then do {
            t \<leftarrow> term_scroll t;
            Some (term_cursor (word_of_int (ROWS - 1)) 0 t)
          }
          else Some t);
     let row = sint (vm_cursor t div 80);
     let col = sint (vm_cursor t mod 80);
     (if c = 10 then do {
        t \<leftarrow> newline_fill (word_of_int (VID_POS (row + 1) 0)) f t;
        Some (term_cursor (word_of_int (row + 1)) 0 t)
      }
      else if c = 13 then Some (term_cursor (word_of_int row) 0 t)
      else if c = 8 then
        (let row' = (if col - 1 < 0 then max (row - 1) 0 else row);
             col' = (if col - 1 < 0 then COLS + col - 1 else col - 1)
         in Some (term_cursor (word_of_int row') (word_of_int col') t))
      else if c = 9 then tab_fill col f t
      else print_cell t c f)
   }"

primrec term_print :: "u8 list \<Rightarrow> vid_mem \<Rightarrow> vid_mem option" where
  "term_print [] t = Some t"
| "term_print (c # cs) t = Option.bind (term_putc c (vm_fmt t) t) (term_print cs)"

fun term_raw_print :: "u8 list \<Rightarrow> vid_mem \<Rightarrow> vid_mem option" where
  "term_raw_print (c # f # cs) t = Option.bind (term_putc c f t) (term_raw_print cs)"
| "term_raw_print _ t = Some t"

primrec clr_loop :: "nat \<Rightarrow> vid_mem \<Rightarrow> vid_mem option" where
  "clr_loop 0 t = Some t"
| "clr_loop (Suc n) t = Option.bind (term_putc 0 (vm_fmt t) t) (clr_loop n)"

definition term_clr :: "vid_mem \<Rightarrow> vid_mem option" where
  "term_clr t = do {
     let t = term_cursor 0 0 t;
     t \<leftarrow> clr_loop 2001 t;
     Some (term_cursor 0 0 t)
   }"

subsection \<open>The interface of video.c\<close>

definition vid_on ::
  "vid_term \<Rightarrow> (vid_mem \<Rightarrow> vid_mem option) \<Rightarrow> 'a video_state_scheme \<Rightarrow> 'a video_state_scheme option"
where
  "vid_on trm f s = map_option (\<lambda>t. s\<lparr>terminals := (terminals s)(trm := t)\<rparr>) (f (terminals s trm))"

definition vid_show :: "vid_term \<Rightarrow> 'a video_state_scheme \<Rightarrow> 'a video_state_scheme" where
  "vid_show trm s = s\<lparr>vid_active := trm\<rparr>"

definition vid_update :: "'a video_state_scheme \<Rightarrow> 'a video_state_scheme" where
  "vid_update s =
     s\<lparr>mem := store_bytes (mem s) 0xB8000
        (concat (map (\<lambda>x. [cell_c x, cell_fmt x]) (vm_video (terminals s (vid_active s)))))\<rparr>"

definition vid_cursor ::
  "vid_term \<Rightarrow> u32 \<Rightarrow> u32 \<Rightarrow> 'a video_state_scheme \<Rightarrow> u32 \<times> 'a video_state_scheme" where
  "vid_cursor trm row col s =
     (let t = term_cursor row col (terminals s trm)
      in (vm_cursor t, s\<lparr>terminals := (terminals s)(trm := t)\<rparr>))"

definition vid_color ::
  "vid_term \<Rightarrow> u32 \<Rightarrow> u32 \<Rightarrow> 'a video_state_scheme \<Rightarrow> u8 \<times> 'a video_state_scheme" where
  "vid_color trm foreground background s =
     (let f = ucast (VID_COLOR foreground background)
      in (f, s\<lparr>terminals := (terminals s)(trm := (terminals s trm)\<lparr>vm_fmt := f\<rparr>)\<rparr>))"

definition vid_raw_putc where
  "vid_raw_putc trm c f = vid_on trm (term_putc c f)"

definition vid_putc where
  "vid_putc trm c = vid_on trm (\<lambda>t. term_putc c (vm_fmt t) t)"

definition vid_print where
  "vid_print trm str = vid_on trm (term_print str)"

definition vid_raw_print where
  "vid_raw_print trm str = vid_on trm (term_raw_print str)"

definition vid_clr where
  "vid_clr trm = vid_on trm term_clr"

subsection \<open>Cells and cursor\<close>

definition vm_ok :: "vid_mem \<Rightarrow> bool" where
  "vm_ok t \<longleftrightarrow> length (vm_video t) = 2000 \<and> unat (vm_cursor t) \<le> 2000"

abbreviation blank :: "u8 \<Rightarrow> vid_cell" where
  "blank f \<equiv> \<lparr>cell_c = 0, cell_fmt = f\<rparr>"

lemma sint_cursor: "unat (w :: u32) \<le> 2000 \<Longrightarrow> sint w = int (unat w)"
proof -
  assume "unat w \<le> 2000"
  then have "uint w < int 2001" by (intro uint_less_unat) simp
  then show ?thesis by (simp add: sint_small)
qed

lemma unat_cursor_Suc: "unat (w :: u32) < 2000 \<Longrightarrow> unat (w + 1) = Suc (unat w)"
  by (simp add: unat_plus_if')

lemma of_nat_cursor: "of_nat (unat (w :: u32)) = w"
  by simp

lemma print_cell_in:
  assumes "length (vm_video t) = 2000" and "unat (vm_cursor t) < 2000"
  shows "print_cell t c f = Some (t\<lparr>
    vm_video := (vm_video t)[unat (vm_cursor t) := \<lparr>cell_c = c, cell_fmt = f\<rparr>],
    vm_cursor := vm_cursor t + 1\<rparr>)"
proof -
  have "uint (vm_cursor t) < int 2000" by (rule uint_less_unat [OF assms(2)])
  then show ?thesis using assms by (simp add: print_cell_def sint_cursor obj_set_def)
qed

text \<open>The array after \<open>xs\<close> was written from position \<open>p\<close> on.\<close>

definition overwrite :: "'a list \<Rightarrow> nat \<Rightarrow> 'a list \<Rightarrow> 'a list" where
  "overwrite v p xs = take p v @ xs @ drop (p + length xs) v"

lemma overwrite_Nil [simp]: "overwrite v p [] = v"
  by (simp add: overwrite_def)

lemma length_overwrite [simp]: "p + length xs \<le> length v \<Longrightarrow> length (overwrite v p xs) = length v"
  by (simp add: overwrite_def)

lemma overwrite_Cons:
  "p < length v \<Longrightarrow> overwrite (v[p := x]) (Suc p) xs = overwrite v p (x # xs)"
  by (simp add: overwrite_def take_update_swap upd_conv_take_nth_drop take_Suc_conv_app_nth add.commute)

text \<open>
  Printing a list of plain characters into the free room after the cursor: the shape all the
  printing loops have.
\<close>

lemma print_run:
  fixes run :: "'a list \<Rightarrow> vid_mem \<Rightarrow> vid_mem option"
  assumes nil: "\<And>t. run [] t = Some t"
    and cons: "\<And>x xs t. length (vm_video t) = 2000 \<Longrightarrow> unat (vm_cursor t) < 2000 \<Longrightarrow> vm_fmt t = f \<Longrightarrow>
      P x \<Longrightarrow> run (x # xs) t = Option.bind (print_cell t (ch x) (fm x)) (run xs)"
    and "length (vm_video t) = 2000" and "unat (vm_cursor t) + length xs \<le> 2000"
    and "vm_fmt t = f" and "list_all P xs"
  shows "run xs t = Some (t\<lparr>
    vm_video := overwrite (vm_video t) (unat (vm_cursor t))
      (map (\<lambda>x. \<lparr>cell_c = ch x, cell_fmt = fm x\<rparr>) xs),
    vm_cursor := vm_cursor t + of_nat (length xs)\<rparr>)"
  using assms(3-)
proof (induction xs arbitrary: t)
  case Nil
  then show ?case by (simp add: nil)
next
  case (Cons x xs)
  let ?c = "\<lparr>cell_c = ch x, cell_fmt = fm x\<rparr>"
  let ?t = "t\<lparr>vm_video := (vm_video t)[unat (vm_cursor t) := ?c], vm_cursor := vm_cursor t + 1\<rparr>"
  have u: "unat (vm_cursor t) < 2000" using Cons.prems(2) by simp
  have "run xs ?t = Some (?t\<lparr>
      vm_video := overwrite (vm_video ?t) (unat (vm_cursor ?t))
        (map (\<lambda>x. \<lparr>cell_c = ch x, cell_fmt = fm x\<rparr>) xs),
      vm_cursor := vm_cursor ?t + of_nat (length xs)\<rparr>)"
    by (rule Cons.IH) (use Cons.prems u in \<open>simp_all add: unat_cursor_Suc\<close>)
  then show ?case
    using Cons.prems u
    by (simp add: cons print_cell_in unat_cursor_Suc [OF u] overwrite_Cons add.assoc)
qed

lemma print_blanks_eq:
  assumes "length (vm_video t) = 2000" and "unat (vm_cursor t) + n \<le> 2000"
  shows "print_blanks n f t = Some (t\<lparr>
    vm_video := overwrite (vm_video t) (unat (vm_cursor t)) (replicate n (blank f)),
    vm_cursor := vm_cursor t + of_nat n\<rparr>)"
  using print_run [of "\<lambda>xs. print_blanks (length xs) f" "vm_fmt t" "\<lambda>_. True" "\<lambda>_. 0" "\<lambda>_. f" t
      "replicate n ()"] assms
  by (simp add: list_all_iff)

lemma newline_fill_blanks:
  "unat lim - unat (vm_cursor t) = n \<Longrightarrow> unat lim \<le> 2000 \<Longrightarrow> length (vm_video t) = 2000 \<Longrightarrow>
   newline_fill lim f t = print_blanks n f t"
proof (induction n arbitrary: t)
  case 0
  then show ?case by (subst newline_fill.simps) (simp add: word_less_nat_alt)
next
  case (Suc n)
  then have lt: "unat (vm_cursor t) < unat lim" and u: "unat (vm_cursor t) < 2000" by simp_all
  let ?t = "t\<lparr>vm_video := (vm_video t)[unat (vm_cursor t) := blank f], vm_cursor := vm_cursor t + 1\<rparr>"
  have "newline_fill lim f ?t = print_blanks n f ?t"
    by (rule Suc.IH) (use Suc.prems u in \<open>simp_all add: unat_cursor_Suc\<close>)
  then show ?case
    using lt u Suc.prems
    by (subst newline_fill.simps) (simp add: word_less_nat_alt print_cell_in)
qed

lemma tab_fill_blanks:
  "0 \<le> col \<Longrightarrow> col < 80 \<Longrightarrow> length (vm_video t) = 2000 \<Longrightarrow>
   unat (vm_cursor t) + Suc n \<le> 2000 \<Longrightarrow> n = nat (7 - col) \<Longrightarrow>
   tab_fill col f t = print_blanks (Suc n) f t"
proof (induction n arbitrary: col t)
  case 0
  then show ?case by (subst tab_fill.simps) (simp add: print_cell_in)
next
  case (Suc n)
  have u: "unat (vm_cursor t) < 2000" using Suc.prems by simp
  let ?t = "t\<lparr>vm_video := (vm_video t)[unat (vm_cursor t) := blank f], vm_cursor := vm_cursor t + 1\<rparr>"
  have "tab_fill (col + 1) f ?t = print_blanks (Suc n) f ?t"
    by (rule Suc.IH) (use Suc.prems u in \<open>simp_all add: unat_cursor_Suc\<close>)
  moreover have "col < 7" using Suc.prems by linarith
  ultimately show ?case
    using u Suc.prems by (subst tab_fill.simps) (simp add: print_cell_in)
qed

subsection \<open>Scrolling\<close>

lemma copy_cells_eq:
  "dst + n \<le> src \<Longrightarrow> src + n \<le> length v \<Longrightarrow>
   copy_cells n (int src) (int dst) v = Some (overwrite v dst (take n (drop src v)))"
proof (induction n)
  case (Suc n)
  let ?v = "overwrite v dst (take n (drop src v))"
  have len: "length (take n (drop src v)) = n" using Suc.prems by simp
  have x: "?v ! (src + n) = v ! (src + n)"
    using Suc.prems len by (simp add: overwrite_def nth_append min_def add.commute)
  have "?v[dst + n := v ! (src + n)] = overwrite v dst (take (Suc n) (drop src v))"
    using Suc.prems
    by (intro nth_equalityI)
      (auto simp: overwrite_def nth_append nth_list_update take_Suc_conv_app_nth min_def not_less
        le_Suc_eq add.commute)
  then show ?case
    using Suc x by (simp add: obj_get_def obj_set_def nat_int_add)
qed simp

lemma vid_copy_row_eq:
  assumes "length (vm_video t) = 2000" and "k < 24"
  shows "vid_copy_row (int k + 1) (int k) t = Some (t\<lparr>
    vm_video := overwrite (vm_video t) (80 * k) (take 80 (drop (80 * k + 80) (vm_video t)))\<rparr>)"
  using copy_cells_eq [of "80 * k" 80 "80 * k + 80" "vm_video t"] assms
  by (simp add: vid_copy_row_def VID_POS_def algebra_simps)

lemma overwrite_shift:
  assumes "a + 2 * n \<le> length v"
  shows "overwrite (take a (drop n v) @ drop a v) a
      (take n (drop (a + n) (take a (drop n v) @ drop a v)))
    = take (a + n) (drop n v) @ drop (a + n) v"
proof -
  have "length (take a (drop n v)) = a" using assms by simp
  then have "drop (a + n) (take a (drop n v) @ drop a v) = drop (a + n) v" by (simp add: add.commute)
  moreover have "length (take n (drop (a + n) v)) = n" using assms by simp
  moreover have "take a (drop n v) @ take n (drop (a + n) v) = take (a + n) (drop n v)"
    by (simp add: take_add add.commute)
  ultimately show ?thesis
    using \<open>length (take a (drop n v)) = a\<close> unfolding overwrite_def
    by (metis append.assoc append_eq_conv_conj)
qed

lemma scroll_rows_eq:
  "length (vm_video t) = 2000 \<Longrightarrow> k \<le> 24 \<Longrightarrow>
   scroll_rows k t = Some (t\<lparr>vm_video :=
     take (80 * k) (drop 80 (vm_video t)) @ drop (80 * k) (vm_video t)\<rparr>)"
proof (induction k)
  case (Suc k)
  let ?v = "vm_video t"
  let ?w = "take (80 * k) (drop 80 ?v) @ drop (80 * k) ?v"
  have "overwrite ?w (80 * k) (take 80 (drop (80 * k + 80) ?w))
      = take (80 * Suc k) (drop 80 ?v) @ drop (80 * Suc k) ?v"
    using overwrite_shift [of "80 * k" 80 ?v] Suc.prems by (simp add: add.commute)
  then show ?case
    using Suc by (simp add: vid_copy_row_eq)
qed simp

text \<open>Scrolling moves every row one up, blanks the last one and leaves the cursor after it.\<close>

lemma term_scroll_eq:
  assumes "length (vm_video t) = 2000"
  shows "term_scroll t = Some (t\<lparr>
    vm_video := drop 80 (vm_video t) @ replicate 80 (blank (vm_fmt t)), vm_cursor := 2000\<rparr>)"
proof -
  let ?t = "t\<lparr>vm_video := take 1920 (drop 80 (vm_video t)) @ drop 1920 (vm_video t),
    vm_cursor := 1920\<rparr>"
  have "print_blanks 80 (vm_fmt ?t) ?t = Some (?t\<lparr>
      vm_video := overwrite (vm_video ?t) 1920 (replicate 80 (blank (vm_fmt t))),
      vm_cursor := 2000\<rparr>)"
    using assms by (subst print_blanks_eq) simp_all
  moreover have "overwrite (vm_video ?t) 1920 (replicate 80 (blank (vm_fmt t)))
      = drop 80 (vm_video t) @ replicate 80 (blank (vm_fmt t))"
    using assms by (simp add: overwrite_def)
  ultimately show ?thesis
    using assms by (simp add: term_scroll_def scroll_rows_eq VID_POS_def)
qed

subsection \<open>The cursor\<close>

lemma term_cursor_pos:
  assumes "r \<le> 25" and "c \<le> 80"
  shows "term_cursor (of_nat r) (of_nat c) t = t\<lparr>vm_cursor := of_nat (min 2000 (80 * r + c))\<rparr>"
proof -
  have "(80 * of_nat r + of_nat c :: u32) = of_nat (80 * r + c)" by simp
  moreover have "sint (of_nat (80 * r + c) :: u32) = int (80 * r + c)"
    using assms by (intro sint_of_nat_small) simp
  ultimately have raw: "sint (80 * of_nat r + of_nat c :: u32) = int (80 * r + c)" by simp
  have clamp: "(if int n > VID_POS (ROWS - 1) COLS then VID_POS (ROWS - 1) COLS
      else if int n < VID_POS 0 0 then VID_POS 0 0 else int n) = int (min 2000 n)" for n
    by (auto simp: VID_POS_def)
  show ?thesis unfolding term_cursor_def raw Let_def clamp by (simp only: of_int_of_nat_eq)
qed

lemma term_cursor_video [simp]:
  "vm_video (term_cursor row col t) = vm_video t" "vm_fmt (term_cursor row col t) = vm_fmt t"
  by (simp_all add: term_cursor_def Let_def)

text \<open>Whatever the arguments, the cursor is set to a position of the terminal or to its end.\<close>

lemma term_cursor_ok: "length (vm_video t) = 2000 \<Longrightarrow> vm_ok (term_cursor row col t)"
proof -
  define p where "p = (if sint (80 * row + col) > 2000 then 2000
    else if sint (80 * row + col) < 0 then 0 else sint (80 * row + col))"
  have "0 \<le> p" "p \<le> 2000" by (auto simp: p_def)
  then have "unat (of_nat (nat p) :: u32) = nat p" by (intro unat_of_nat_small) simp
  then have "unat (word_of_int p :: u32) = nat p" using \<open>0 \<le> p\<close> by simp
  then show ?thesis
    if "length (vm_video t) = 2000"
    using that \<open>p \<le> 2000\<close> by (simp add: vm_ok_def term_cursor_def VID_POS_def p_def Let_def)
qed

subsection \<open>Printing one character\<close>

text \<open>The terminal as \<open>vid_raw_putc\<close> has it after its scrolling step.\<close>

definition term_room :: "vid_mem \<Rightarrow> vid_mem" where
  "term_room t =
     (if unat (vm_cursor t) < 2000 then t
      else t\<lparr>vm_video := drop 80 (vm_video t) @ replicate 80 (blank (vm_fmt t)), vm_cursor := 1920\<rparr>)"

lemma term_room_props:
  "vm_ok t \<Longrightarrow> length (vm_video (term_room t)) = 2000 \<and> unat (vm_cursor (term_room t)) < 2000
    \<and> vm_fmt (term_room t) = vm_fmt t"
  by (auto simp: term_room_def vm_ok_def)

text \<open>\<open>vid_raw_putc\<close> by cases of the character, with row and column of the cursor.\<close>

lemma term_putc_cases:
  assumes "vm_ok t"
  defines "t1 \<equiv> term_room t"
  defines "row \<equiv> unat (vm_cursor t1) div 80" and "col \<equiv> unat (vm_cursor t1) mod 80"
  shows "term_putc c f t =
    (if c = 10 then map_option (term_cursor (of_nat (row + 1)) 0) (print_blanks (80 - col) f t1)
     else if c = 13 then Some (term_cursor (of_nat row) 0 t1)
     else if c = 8 then Some (if col = 0 then term_cursor (of_nat (row - 1)) 79 t1
                              else term_cursor (of_nat row) (of_nat (col - 1)) t1)
     else if c = 9 then print_blanks (max 1 (8 - col)) f t1
     else print_cell t1 c f)"
proof -
  have len: "length (vm_video t1) = 2000" and cur: "unat (vm_cursor t1) < 2000"
    using term_room_props [OF assms(1)] by (simp_all add: t1_def)
  have room: "(if vm_cursor t \<ge> word_of_int (VID_POS (ROWS - 1) COLS)
      then do { t \<leftarrow> term_scroll t; Some (term_cursor (word_of_int (ROWS - 1)) 0 t) }
      else Some t) = Some t1"
    using assms(1) term_cursor_pos [of 24 0]
    by (auto simp: t1_def term_room_def vm_ok_def VID_POS_def word_le_nat_alt term_scroll_eq)
  have row25: "row < 25" and col80: "col < 80" using cur by (simp_all add: row_def col_def less_mult_imp_div_less)
  have split: "unat (vm_cursor t1) = 80 * row + col" by (simp add: row_def col_def)
  have "vm_cursor t1 div 80 = of_nat row" and "vm_cursor t1 mod 80 = of_nat col"
    unfolding row_def col_def
    using word_arith_nat_div [of "vm_cursor t1" 80] word_arith_nat_mod [of "vm_cursor t1" 80] by simp_all
  then have r: "sint (vm_cursor t1 div 80) = int row" and c: "sint (vm_cursor t1 mod 80) = int col"
    using row25 col80 by (simp_all only:) (intro sint_of_nat_small; simp)+
  have lim: "unat (word_of_int (VID_POS (int row + 1) 0) :: u32) = 80 * (row + 1)"
  proof -
    have "(word_of_int (VID_POS (int row + 1) 0) :: u32) = of_nat (80 * (row + 1))"
      by (simp add: VID_POS_def)
    then show ?thesis using row25 by (simp only:) (intro unat_of_nat_small, simp)
  qed
  have nl: "newline_fill (word_of_int (VID_POS (int row + 1) 0)) f t1 = print_blanks (80 - col) f t1"
    by (rule newline_fill_blanks) (use lim split row25 col80 len in \<open>simp_all\<close>)
  have tab: "tab_fill (int col) f t1 = print_blanks (max 1 (8 - col)) f t1"
  proof -
    have "max 1 (8 - col) = Suc (nat (7 - int col))" by (auto simp: max_def nat_diff_distrib')
    moreover have "tab_fill (int col) f t1 = print_blanks (Suc (nat (7 - int col))) f t1"
      by (rule tab_fill_blanks) (use len split row25 col80 in \<open>auto\<close>)
    ultimately show ?thesis by simp
  qed
  show ?thesis
    unfolding term_putc_def room
    using nl tab by (auto simp: r c Let_def max_def of_nat_diff map_option_case add.commute
        split: option.splits)
qed

lemma vm_ok_length: "vm_ok t \<Longrightarrow> length (vm_video t) = 2000"
  by (simp add: vm_ok_def)

lemma vm_ok_run:
  "length (vm_video t) = 2000 \<Longrightarrow> unat (vm_cursor t) + n \<le> 2000 \<Longrightarrow>
   \<exists>t'. print_blanks n f t = Some t' \<and> vm_ok t' \<and> vm_fmt t' = vm_fmt t"
  by (simp add: print_blanks_eq vm_ok_def unat_plus_if' unat_of_nat_small)

lemma term_putc_ok:
  assumes "vm_ok t"
  shows "\<exists>t'. term_putc c f t = Some t' \<and> vm_ok t' \<and> vm_fmt t' = vm_fmt t"
proof -
  define t1 where "t1 = term_room t"
  have len: "length (vm_video t1) = 2000" and cur: "unat (vm_cursor t1) < 2000"
    and fmt: "vm_fmt t1 = vm_fmt t"
    using term_room_props [OF assms] by (simp_all add: t1_def)
  have split: "unat (vm_cursor t1) = 80 * (unat (vm_cursor t1) div 80) + unat (vm_cursor t1) mod 80"
    by simp
  have row: "unat (vm_cursor t1) div 80 < 25" using cur by (simp add: less_mult_imp_div_less)
  have "unat (vm_cursor t1) + max 1 (8 - unat (vm_cursor t1) mod 80) \<le> 2000"
    and "unat (vm_cursor t1) + (80 - unat (vm_cursor t1) mod 80) \<le> 2000"
    using split row cur by linarith+
  note runs = vm_ok_run [OF len this(1), of f] vm_ok_run [OF len this(2), of f]
  have "\<exists>t'. print_cell t1 c f = Some t' \<and> vm_ok t' \<and> vm_fmt t' = vm_fmt t1"
    using len cur by (simp add: print_cell_in vm_ok_def unat_cursor_Suc)
  then show ?thesis
    unfolding term_putc_cases [OF assms] t1_def [symmetric]
    using runs len fmt by (auto simp: term_cursor_ok vm_ok_length)
qed

lemma term_print_ok:
  "vm_ok t \<Longrightarrow> \<exists>t'. term_print cs t = Some t' \<and> vm_ok t' \<and> vm_fmt t' = vm_fmt t"
proof (induction cs arbitrary: t)
  case (Cons c cs)
  from term_putc_ok [OF Cons.prems, of c "vm_fmt t"] obtain t1
    where "term_putc c (vm_fmt t) t = Some t1" "vm_ok t1" "vm_fmt t1 = vm_fmt t" by blast
  then show ?case using Cons.IH [of t1] by simp
qed simp

lemma term_raw_print_ok:
  "vm_ok t \<Longrightarrow> \<exists>t'. term_raw_print cs t = Some t' \<and> vm_ok t' \<and> vm_fmt t' = vm_fmt t"
proof (induction cs t rule: term_raw_print.induct)
  case (1 c f cs t)
  from term_putc_ok [OF 1(2), of c f] obtain t1
    where "term_putc c f t = Some t1" "vm_ok t1" "vm_fmt t1 = vm_fmt t" by blast
  then show ?case using 1(1) [of t1] by simp
qed simp_all

text \<open>Plain characters in the free room after the cursor are stored as they are.\<close>

definition plain :: "u8 \<Rightarrow> bool" where
  "plain c \<longleftrightarrow> c \<noteq> 8 \<and> c \<noteq> 9 \<and> c \<noteq> 10 \<and> c \<noteq> 13"

lemma term_putc_plain:
  "length (vm_video t) = 2000 \<Longrightarrow> unat (vm_cursor t) < 2000 \<Longrightarrow> plain c \<Longrightarrow>
   term_putc c f t = print_cell t c f"
  by (subst term_putc_cases) (simp_all add: vm_ok_def plain_def term_room_def)

lemma term_print_plain:
  assumes "length (vm_video t) = 2000" and "unat (vm_cursor t) + length cs \<le> 2000"
    and "list_all plain cs"
  shows "term_print cs t = Some (t\<lparr>
    vm_video := overwrite (vm_video t) (unat (vm_cursor t))
      (map (\<lambda>c. \<lparr>cell_c = c, cell_fmt = vm_fmt t\<rparr>) cs),
    vm_cursor := vm_cursor t + of_nat (length cs)\<rparr>)"
  by (rule print_run [where P = plain and f = "vm_fmt t"])
    (use assms in \<open>simp_all add: term_putc_plain\<close>)

lemma clr_loop_blanks:
  "length (vm_video t) = 2000 \<Longrightarrow> unat (vm_cursor t) + n \<le> 2000 \<Longrightarrow>
   clr_loop (n + k) t = Option.bind (print_blanks n (vm_fmt t) t) (clr_loop k)"
proof (induction n arbitrary: t)
  case (Suc n)
  have u: "unat (vm_cursor t) < 2000" using Suc.prems by simp
  let ?t = "t\<lparr>vm_video := (vm_video t)[unat (vm_cursor t) := blank (vm_fmt t)],
    vm_cursor := vm_cursor t + 1\<rparr>"
  have "clr_loop (n + k) ?t = Option.bind (print_blanks n (vm_fmt ?t) ?t) (clr_loop k)"
    by (rule Suc.IH) (use Suc.prems u in \<open>simp_all add: unat_cursor_Suc\<close>)
  then show ?case
    using Suc.prems u by (simp add: term_putc_plain plain_def print_cell_in)
qed simp

lemma term_clr_eq:
  assumes "length (vm_video t) = 2000"
  shows "term_clr t = Some (t\<lparr>vm_video := replicate 2000 (blank (vm_fmt t)), vm_cursor := 0\<rparr>)"
proof -
  let ?b = "blank (vm_fmt t)"
  let ?t0 = "t\<lparr>vm_cursor := 0\<rparr>"
  let ?t1 = "t\<lparr>vm_video := replicate 2000 ?b, vm_cursor := 2000\<rparr>"
  have c0: "term_cursor 0 0 u = u\<lparr>vm_cursor := 0\<rparr>" for u
    using term_cursor_pos [of 0 0 u] by simp
  have "print_blanks 2000 (vm_fmt t) ?t0 = Some ?t1"
    using assms by (subst print_blanks_eq) (simp_all add: overwrite_def)
  moreover have "clr_loop (2000 + 1) ?t0
      = Option.bind (print_blanks 2000 (vm_fmt ?t0) ?t0) (clr_loop 1)"
    using assms by (intro clr_loop_blanks) simp_all
  moreover have "term_putc 0 (vm_fmt t) ?t1
      = Some (t\<lparr>vm_video := replicate 2000 ?b, vm_cursor := 1921\<rparr>)"
    by (subst term_putc_cases)
      (simp_all add: vm_ok_def term_room_def print_cell_in list_update_same_conv
        flip: replicate_add)
  ultimately show ?thesis by (simp add: term_clr_def c0)
qed

subsection \<open>Properties\<close>

text \<open>The video part of the kernel's state as it is before \<open>vid_init\<close>: everything is zero.\<close>

definition video_boot :: video_state where
  "video_boot = \<lparr>mem = (\<lambda>_. 0), inq = (\<lambda>_. []), outs = [],
     snd_timeout = 0,
     terminals = (\<lambda>_. \<lparr>vm_video = replicate 2000 (blank 0), vm_cursor = 0, vm_fmt = 0\<rparr>),
     vid_active = VID_PROC\<rparr>"

lemma video_boot_ok: "vm_ok (terminals video_boot trm)"
  by (simp add: video_boot_def vm_ok_def)

lemma vid_on_eq:
  "f (terminals s trm) = Some t \<Longrightarrow> vid_on trm f s = Some (s\<lparr>terminals := (terminals s)(trm := t)\<rparr>)"
  by (simp add: vid_on_def)

text \<open>C38: Printing any string on a terminal ends without a write outside its cell array: the
  cursor stays inside the terminal (or one past its last cell), the colour and the other terminal
  stay as they are.\<close>

theorem vid_print_safe:
  assumes "vm_ok (terminals s trm)"
  shows "\<exists>t. vid_print trm str s = Some (s\<lparr>terminals := (terminals s)(trm := t)\<rparr>) \<and> vm_ok t
    \<and> vm_fmt t = vm_fmt (terminals s trm)"
  using term_print_ok [OF assms, of str] by (auto simp: vid_print_def vid_on_def)

theorem vid_print_safe_witness:
  "\<exists>t. vid_print VID_PROC [72, 105, 10] video_boot
      = Some (video_boot\<lparr>terminals := (terminals video_boot)(VID_PROC := t)\<rparr>)
    \<and> vm_ok t \<and> vm_fmt t = vm_fmt (terminals video_boot VID_PROC)"
  by (rule vid_print_safe [OF video_boot_ok])

text \<open>Text without control characters that fits behind the cursor appears on the terminal
  exactly as it was given, in the terminal's colour, at the cursor; the cursor ends behind it and
  no other cell changes.\<close>

theorem vid_print_text:
  assumes "vm_ok (terminals s trm)" and "unat (vm_cursor (terminals s trm)) + length str \<le> 2000"
    and "list_all plain str"
  shows "vid_print trm str s = Some (s\<lparr>terminals := (terminals s)(trm := (terminals s trm)\<lparr>
    vm_video := overwrite (vm_video (terminals s trm)) (unat (vm_cursor (terminals s trm)))
      (map (\<lambda>c. \<lparr>cell_c = c, cell_fmt = vm_fmt (terminals s trm)\<rparr>) str),
    vm_cursor := vm_cursor (terminals s trm) + of_nat (length str)\<rparr>)\<rparr>)"
  unfolding vid_print_def
  by (rule vid_on_eq, rule term_print_plain) (use assms in \<open>simp_all add: vm_ok_def\<close>)

theorem vid_print_text_witness:
  "vid_print VID_PROC [72, 105] video_boot
    = Some (video_boot\<lparr>terminals := (terminals video_boot)(VID_PROC := (terminals video_boot VID_PROC)\<lparr>
    vm_video := overwrite (vm_video (terminals video_boot VID_PROC))
      (unat (vm_cursor (terminals video_boot VID_PROC)))
      (map (\<lambda>c. \<lparr>cell_c = c, cell_fmt = vm_fmt (terminals video_boot VID_PROC)\<rparr>) [72, 105]),
    vm_cursor := vm_cursor (terminals video_boot VID_PROC) + of_nat (length [72, 105 :: u8])\<rparr>)\<rparr>)"
  by (rule vid_print_text) (simp_all add: video_boot_ok, simp_all add: video_boot_def plain_def)

text \<open>A printable character on a full terminal scrolls it by one row: every row moves up, the
  last row is blank but for the character in its first column, and the cursor is behind it.\<close>

theorem vid_putc_scrolls:
  assumes "vm_ok (terminals s trm)" and "vm_cursor (terminals s trm) = 2000" and "plain c"
  shows "vid_putc trm c s = Some (s\<lparr>terminals := (terminals s)(trm := (terminals s trm)\<lparr>
    vm_video := drop 80 (vm_video (terminals s trm)) @
      \<lparr>cell_c = c, cell_fmt = vm_fmt (terminals s trm)\<rparr> # replicate 79 (blank (vm_fmt (terminals s trm))),
    vm_cursor := 1921\<rparr>)\<rparr>)"
proof -
  let ?t = "terminals s trm"
  let ?b = "blank (vm_fmt ?t)"
  have "(drop 80 (vm_video ?t) @ replicate 80 ?b)[1920 := x] = drop 80 (vm_video ?t) @ x # replicate 79 ?b"
    for x
  proof -
    have "replicate 80 ?b = ?b # replicate 79 ?b" by (simp flip: replicate_Suc)
    then show ?thesis using assms(1) by (simp add: list_update_append vm_ok_def)
  qed
  then have "term_putc c (vm_fmt ?t) ?t = Some (?t\<lparr>
      vm_video := drop 80 (vm_video ?t) @ \<lparr>cell_c = c, cell_fmt = vm_fmt ?t\<rparr> # replicate 79 ?b,
      vm_cursor := 1921\<rparr>)"
    using assms by (subst term_putc_cases) (simp_all add: plain_def term_room_def print_cell_in vm_ok_def)
  then show ?thesis unfolding vid_putc_def by (rule vid_on_eq)
qed

theorem vid_putc_scrolls_witness:
  "let t = \<lparr>vm_video = replicate 2000 (blank 7), vm_cursor = 2000, vm_fmt = 7\<rparr> in
    vid_putc VID_PROC 65 (video_boot\<lparr>terminals := \<lambda>_. t\<rparr>) = Some (video_boot\<lparr>terminals :=
      (\<lambda>_. t)(VID_PROC := t\<lparr>vm_video := drop 80 (vm_video t) @
        \<lparr>cell_c = 65, cell_fmt = vm_fmt t\<rparr> # replicate 79 (blank (vm_fmt t)), vm_cursor := 1921\<rparr>)\<rparr>)"
  using vid_putc_scrolls [of "video_boot\<lparr>terminals := \<lambda>_. \<lparr>vm_video = replicate 2000 (blank 7),
    vm_cursor = 2000, vm_fmt = 7\<rparr>\<rparr>" VID_PROC 65]
  by (simp add: vm_ok_def plain_def Let_def)

text \<open>Clearing a terminal blanks all of its cells in the terminal's colour and moves the cursor
  to its first cell; the other terminal stays as it is.\<close>

theorem vid_clr_blanks:
  assumes "vm_ok (terminals s trm)"
  shows "vid_clr trm s = Some (s\<lparr>terminals := (terminals s)(trm := (terminals s trm)\<lparr>
    vm_video := replicate 2000 (blank (vm_fmt (terminals s trm))), vm_cursor := 0\<rparr>)\<rparr>)"
  unfolding vid_clr_def by (rule vid_on_eq) (simp add: term_clr_eq assms vm_ok_length)

theorem vid_clr_blanks_witness:
  "vid_clr VID_SYSLOG video_boot = Some (video_boot\<lparr>terminals := (terminals video_boot)(VID_SYSLOG :=
    (terminals video_boot VID_SYSLOG)\<lparr>vm_video := replicate 2000 (blank (vm_fmt (terminals video_boot VID_SYSLOG))),
      vm_cursor := 0\<rparr>)\<rparr>)"
  by (rule vid_clr_blanks [OF video_boot_ok])

lemma back_first: "n = 80 * k + r \<Longrightarrow> r = (0 :: nat) \<Longrightarrow> 80 * (k - 1) + 79 = (if n = 0 then 79 else n - 1)"
  by (cases k) simp_all

lemma back_other: "n = 80 * k + r \<Longrightarrow> r \<noteq> (0 :: nat) \<Longrightarrow> 80 * k + (r - 1) = n - 1 \<and> n \<noteq> 0"
  by simp

text \<open>A backspace moves the cursor one cell back and deletes nothing, but in the first column of
  the first row, where it moves the cursor forward to the last column.\<close>

theorem vid_putc_backspace:
  assumes "vm_ok (terminals s trm)" and "vm_cursor (terminals s trm) \<noteq> 2000"
  shows "vid_putc trm 8 s = Some (s\<lparr>terminals := (terminals s)(trm := (terminals s trm)\<lparr>
    vm_cursor := (if vm_cursor (terminals s trm) = 0 then 79 else vm_cursor (terminals s trm) - 1)\<rparr>)\<rparr>)"
proof -
  let ?t = "terminals s trm"
  let ?n = "unat (vm_cursor ?t)"
  have n: "?n < 2000" using assms unat_of_nat_small [of 2000, where 'a = 32]
    by (auto simp: vm_ok_def word_unat_eq_iff le_less)
  have room: "term_room ?t = ?t" using n by (simp add: term_room_def)
  have split: "?n = 80 * (?n div 80) + ?n mod 80" by simp
  have rc: "?n div 80 \<le> 25" "?n mod 80 \<le> 80" using n by (simp_all add: le_less_trans less_imp_le)
  have z: "vm_cursor ?t = 0 \<longleftrightarrow> ?n = 0" by (simp add: unat_eq_zero)
  have step: "term_putc 8 (vm_fmt ?t) ?t = Some (?t\<lparr>vm_cursor :=
      of_nat (if ?n = 0 then 79 else ?n - 1)\<rparr>)"
  proof (cases "?n mod 80 = 0")
    case True
    have e: "80 * (?n div 80 - 1) + 79 = (if ?n = 0 then 79 else ?n - 1)" 
      by (rule back_first [OF split True])
    have "term_putc 8 (vm_fmt ?t) ?t = Some (term_cursor (of_nat (?n div 80 - 1)) (of_nat 79) ?t)"
      using True by (subst term_putc_cases [OF assms(1)]) (simp add: room)
    also have "\<dots> = Some (?t\<lparr>vm_cursor := of_nat (min 2000 (80 * (?n div 80 - 1) + 79))\<rparr>)"
      using rc by (subst term_cursor_pos) simp_all
    finally show ?thesis using n unfolding e by (simp add: min_def)
  next
    case False
    then have e: "80 * (?n div 80) + (?n mod 80 - 1) = ?n - 1" and p: "?n \<noteq> 0"
      using back_other [OF split] by blast+
    have "term_putc 8 (vm_fmt ?t) ?t = Some (term_cursor (of_nat (?n div 80)) (of_nat (?n mod 80 - 1)) ?t)"
      using False by (subst term_putc_cases [OF assms(1)]) (simp add: room)
    also have "\<dots> = Some (?t\<lparr>vm_cursor := of_nat (min 2000 (80 * (?n div 80) + (?n mod 80 - 1)))\<rparr>)"
      using rc by (subst term_cursor_pos) simp_all
    finally show ?thesis using n p unfolding e by (simp add: min_def)
  qed
  moreover have "of_nat (if ?n = 0 then 79 else ?n - 1) = (if vm_cursor ?t = 0 then 79 else vm_cursor ?t - 1)"
    unfolding z by (simp add: of_nat_diff)
  ultimately show ?thesis unfolding vid_putc_def by (intro vid_on_eq) simp
qed

theorem vid_putc_backspace_witness:
  "vid_putc VID_PROC 8 video_boot = Some (video_boot\<lparr>terminals := (terminals video_boot)(VID_PROC :=
    (terminals video_boot VID_PROC)\<lparr>vm_cursor := (if vm_cursor (terminals video_boot VID_PROC) = 0 then 79
      else vm_cursor (terminals video_boot VID_PROC) - 1)\<rparr>)\<rparr>)"
  by (rule vid_putc_backspace [OF video_boot_ok]) (simp add: video_boot_def)

end
