(* ===== verification/Interfaces.thy ===== *)
theory Interfaces
  imports Prelude
begin

section \<open>Interfaces between components\<close>

text \<open>
  The contracts that one component promises to the others, as locales over the operations the
  client calls. Each is interpreted in the theory of the component that provides it; the lemmas
  proved here then hold of the code's own operations.
\<close>

subsection \<open>A bounded first-in first-out queue\<close>

datatype 'x fifo_op = Put 'x | Get

text \<open>
  A sequence of operations, with the items the queue accepted and those it delivered: an item put
  into a full queue is dropped, a get from an empty queue delivers nothing.
\<close>

fun fifo_run ::
  "('x \<Rightarrow> 's \<Rightarrow> 's option) \<Rightarrow> ('s \<Rightarrow> ('x \<times> 's) option) \<Rightarrow> ('s \<Rightarrow> bool) \<Rightarrow> ('s \<Rightarrow> bool) \<Rightarrow>
   'x fifo_op list \<Rightarrow> 's \<Rightarrow> ('x list \<times> 'x list \<times> 's) option"
where
  "fifo_run put get full vacant [] s = Some ([], [], s)"
| "fifo_run put get full vacant (Put x # ops) s = do {
     s' \<leftarrow> put x s;
     (acc, del, t) \<leftarrow> fifo_run put get full vacant ops s';
     Some (if full s then acc else x # acc, del, t)
   }"
| "fifo_run put get full vacant (Get # ops) s = do {
     (x, s') \<leftarrow> get s;
     (acc, del, t) \<leftarrow> fifo_run put get full vacant ops s';
     Some (acc, if vacant s then del else x # del, t)
   }"

locale bounded_fifo =
  fixes put :: "'x \<Rightarrow> 's \<Rightarrow> 's option" and get :: "'s \<Rightarrow> ('x \<times> 's) option"
    and full :: "'s \<Rightarrow> bool" and vacant :: "'s \<Rightarrow> bool"
    and items :: "'s \<Rightarrow> 'x list" and ok :: "'s \<Rightarrow> bool" and cap :: nat
  assumes full_iff: "ok s \<Longrightarrow> full s \<longleftrightarrow> length (items s) = cap"
    and items_cap: "ok s \<Longrightarrow> length (items s) \<le> cap"
    and empty_iff: "ok s \<Longrightarrow> vacant s \<longleftrightarrow> items s = []"
    and put_room: "ok s \<Longrightarrow> \<not> full s \<Longrightarrow> \<exists>s'. put x s = Some s' \<and> ok s' \<and> items s' = items s @ [x]"
    and put_full: "ok s \<Longrightarrow> full s \<Longrightarrow> put x s = Some s' \<Longrightarrow> ok s' \<and> items s' = items s"
    and get_item: "ok s \<Longrightarrow> items s = x # xs \<Longrightarrow> \<exists>s'. get s = Some (x, s') \<and> ok s' \<and> items s' = xs"
    and get_empty: "ok s \<Longrightarrow> items s = [] \<Longrightarrow> \<exists>x. get s = Some (x, s)"
begin

lemma put_some: "ok s \<Longrightarrow> put x s = Some s' \<Longrightarrow>
  ok s' \<and> items s' = (if full s then items s else items s @ [x])"
  using put_room [of s x] put_full [of s x s'] by (cases "full s") auto

lemma get_some:
  assumes "ok s" and "get s = Some (x, s')"
  shows "ok s' \<and> (if vacant s then items s' = [] \<and> items s = [] else items s = x # items s')"
proof (cases "items s")
  case Nil
  with assms get_empty [of s] show ?thesis by (auto simp: empty_iff)
next
  case (Cons y ys)
  with assms get_item [of s y ys] show ?thesis by (auto simp: empty_iff)
qed

text \<open>Items leave the queue in the order they were accepted, none lost and none duplicated.\<close>

lemma run_order:
  "ok s \<Longrightarrow> fifo_run put get full vacant ops s = Some (acc, del, t) \<Longrightarrow>
   ok t \<and> items s @ acc = del @ items t"
proof (induction ops arbitrary: s acc del)
  case (Cons p ops)
  show ?case
  proof (cases p)
    case (Put x)
    with Cons.prems(2) obtain s' acc' where s': "put x s = Some s'"
      and r: "fifo_run put get full vacant ops s' = Some (acc', del, t)"
      and acc: "acc = (if full s then acc' else x # acc')"
      by (auto split: bind_splits)
    from put_some [OF Cons.prems(1) s'] Cons.IH [OF _ r] show ?thesis by (auto simp: acc)
  next
    case Get
    with Cons.prems(2) obtain x s' del' where s': "get s = Some (x, s')"
      and r: "fifo_run put get full vacant ops s' = Some (acc, del', t)"
      and del: "del = (if vacant s then del' else x # del')"
      by (auto split: bind_splits)
    from get_some [OF Cons.prems(1) s'] Cons.IH [OF _ r] show ?thesis
      by (auto simp: del split: if_splits)
  qed
qed simp

text \<open>What fits into an empty queue comes out again, complete and in order.\<close>

lemma put_all_get_all:
  assumes "ok s" and "items s = []" and "length xs \<le> cap"
  shows "\<exists>t. fifo_run put get full vacant (map Put xs @ replicate (length xs) Get) s = Some (xs, xs, t)
    \<and> ok t \<and> items t = []"
proof -
  have gets: "\<exists>t. fifo_run put get full vacant (replicate (length ys) Get) u = Some ([], ys, t)
      \<and> ok t \<and> items t = []" if "ok u" "items u = ys" for ys u
    using that
  proof (induction ys arbitrary: u)
    case (Cons y ys)
    then obtain v where v: "get u = Some (y, v)" "ok v" "items v = ys" using get_item by metis
    with Cons.IH [of v] Cons.prems show ?case by (auto simp: empty_iff)
  qed simp
  have "\<exists>t. fifo_run put get full vacant (map Put ys @ replicate (length zs + length ys) Get) u
      = Some (ys, zs @ ys, t) \<and> ok t \<and> items t = []"
    if "ok u" "items u = zs" "length zs + length ys \<le> cap" for ys zs u
    using that
  proof (induction ys arbitrary: u zs)
    case Nil
    then show ?case using gets [of u zs] by simp
  next
    case (Cons y ys)
    then have nf: "\<not> full u" by (simp add: full_iff)
    then obtain v where v: "put y u = Some v" "ok v" "items v = zs @ [y]"
      using put_room Cons.prems by metis
    with Cons.IH [of v "zs @ [y]"] Cons.prems nf show ?case by auto
  qed
  from this [of s "[]" xs] assms show ?thesis by simp
qed

end

subsection \<open>An allocator of page frames\<close>

text \<open>
  \<open>frames s\<close> are the free frames, the next one last, out of the frames \<open>pool\<close> the allocator
  manages. A client may give back a frame it holds; the allocator may fail to take it (it then
  belongs to nobody), but takes nothing else.
\<close>

locale frame_allocator =
  fixes alloc :: "'s \<Rightarrow> 'f \<times> 's" and free :: "'f \<Rightarrow> 's \<Rightarrow> int \<times> 's"
    and frames :: "'s \<Rightarrow> 'f list" and ok :: "'s \<Rightarrow> bool" and pool :: "'f set" and none :: 'f
  assumes frames_pool: "ok s \<Longrightarrow> distinct (frames s) \<and> set (frames s) \<subseteq> pool"
    and none_pool: "ok s \<Longrightarrow> none \<notin> pool"
    and alloc_frame: "ok s \<Longrightarrow> frames s = fs @ [f] \<Longrightarrow> \<exists>s'. alloc s = (f, s') \<and> ok s' \<and> frames s' = fs"
    and alloc_empty: "ok s \<Longrightarrow> frames s = [] \<Longrightarrow> alloc s = (none, s)"
    and free_frame: "ok s \<Longrightarrow> f \<in> pool \<Longrightarrow> f \<notin> set (frames s) \<Longrightarrow> free f s = (r, s') \<Longrightarrow>
      ok s' \<and> frames s' = (if r = 1 then frames s @ [f] else frames s)"
begin

text \<open>A client that gives back only what it holds: the frames it holds, and the allocator.\<close>

inductive client :: "'f set \<times> 's \<Rightarrow> 'f set \<times> 's \<Rightarrow> bool" where
  take: "alloc s = (f, s') \<Longrightarrow> f \<noteq> none \<Longrightarrow> client (H, s) (insert f H, s')"
| fail: "alloc s = (none, s') \<Longrightarrow> client (H, s) (H, s')"
| give: "f \<in> H \<Longrightarrow> free f s = (r, s') \<Longrightarrow> client (H, s) (H - {f}, s')"

lemma alloc_cases:
  assumes "ok s" and "alloc s = (f, s')"
  obtains "f = none" "frames s = []" "s' = s" | "f \<in> pool" "frames s = frames s' @ [f]" "ok s'"
proof (cases "frames s" rule: rev_cases)
  case Nil
  then show ?thesis using alloc_empty [OF assms(1)] assms(2) that(1) by simp
next
  case (snoc fs g)
  then show ?thesis
    using alloc_frame [OF assms(1) snoc] assms(2) frames_pool [OF assms(1)] that(2) by auto
qed

lemma client_step:
  assumes "client (H, s) (H', s')" and "ok s" and "H \<subseteq> pool" and "H \<inter> set (frames s) = {}"
  shows "ok s' \<and> H' \<subseteq> pool \<and> H' \<inter> set (frames s') = {} \<and> H' \<union> set (frames s') \<subseteq> H \<union> set (frames s)"
  using assms(1)
proof cases
  case (take f)
  show ?thesis
  proof (rule alloc_cases [OF assms(2) take(2)])
    assume "f \<in> pool" "frames s = frames s' @ [f]" "ok s'"
    then show ?thesis using take(1) assms(3,4) frames_pool [OF assms(2)] by auto
  qed (use take(3) in simp)
next
  case fail
  show ?thesis
    by (rule alloc_cases [OF assms(2) fail(2)]) (use fail assms none_pool [OF assms(2)] in auto)
next
  case (give f r)
  then have "f \<in> pool" "f \<notin> set (frames s)" using assms by auto
  from free_frame [OF assms(2) this give(3)] show ?thesis using give assms by (auto split: if_splits)
qed

text \<open>No sequence of such steps leads to a frame that is held and free, or held twice.\<close>

lemma client_safe:
  assumes "client\<^sup>*\<^sup>* (H, s) (H', s')" and "ok s" and "H \<subseteq> pool" and "H \<inter> set (frames s) = {}"
  shows "ok s' \<and> H' \<subseteq> pool \<and> H' \<inter> set (frames s') = {} \<and> H' \<union> set (frames s') \<subseteq> H \<union> set (frames s)"
  using assms(1)
proof (induction rule: rtranclp_induct2)
  case (step H1 s1 H2 s2)
  then show ?case using client_step [OF step(2)] by blast
qed (use assms in simp)

lemma take_fresh:
  assumes "ok s" and "H \<inter> set (frames s) = {}" and "alloc s = (f, s')" and "f \<noteq> none"
  shows "f \<notin> H" and "f \<notin> set (frames s')"
proof -
  have "frames s = frames s' @ [f]"
    by (rule alloc_cases [OF assms(1,3)]) (use assms(4) in simp_all)
  then show "f \<notin> H" "f \<notin> set (frames s')"
    using frames_pool [OF assms(1)] assms(2) by auto
qed

end

subsection \<open>A run queue\<close>

text \<open>A run queue whose head is running; each switch moves the head to the end.\<close>

locale run_queue =
  fixes queue :: "'s \<Rightarrow> 'p list \<Rightarrow> bool" and current :: "'s \<Rightarrow> 'p option" and switch :: "'c \<Rightarrow> 's \<Rightarrow> 's option"
  assumes head: "queue s (z # zs) \<Longrightarrow> current s = Some z"
    and turn: "queue s (z # zs) \<Longrightarrow> \<exists>t. switch c s = Some t \<and> queue t (zs @ [z])"
begin

primrec switches :: "'c list \<Rightarrow> 's \<Rightarrow> 's option" where
  "switches [] s = Some s"
| "switches (c # cs) s = (case switch c s of None \<Rightarrow> None | Some t \<Rightarrow> switches cs t)"

lemma switches_rotate:
  "queue s zs \<Longrightarrow> zs \<noteq> [] \<Longrightarrow> \<exists>t. switches cs s = Some t \<and> queue t (rotate (length cs) zs)"
proof (induction cs arbitrary: s zs)
  case (Cons c cs)
  obtain z zs' where zs: "zs = z # zs'" using Cons.prems(2) by (cases zs) auto
  obtain t where t: "switch c s = Some t" "queue t (zs' @ [z])" using turn Cons.prems(1) zs by metis
  from Cons.IH [OF t(2)] obtain u where "switches cs t = Some u" "queue u (rotate (length cs) (zs' @ [z]))" by auto
  then show ?case using t(1) zs by (simp add: rotate1_rotate_swap)
qed simp

lemma nth_turn:
  assumes "queue s zs" and "length cs < length zs"
  shows "\<exists>t. switches cs s = Some t \<and> current t = Some (zs ! length cs)"
proof -
  have "zs \<noteq> []" using assms(2) by auto
  then obtain t where t: "switches cs s = Some t" "queue t (rotate (length cs) zs)"
    using switches_rotate [OF assms(1)] by blast
  have "hd (rotate (length cs) zs) = zs ! length cs" using assms(2) by (simp add: hd_rotate_conv_nth \<open>zs \<noteq> []\<close>)
  moreover have "rotate (length cs) zs \<noteq> []" using \<open>zs \<noteq> []\<close> by simp
  ultimately show ?thesis using t head by (cases "rotate (length cs) zs") auto
qed

lemma full_round:
  assumes "queue s zs" and "zs \<noteq> []" and "length cs = length zs"
  shows "\<exists>t. switches cs s = Some t \<and> queue t zs"
  using switches_rotate [OF assms(1,2), of cs] assms(3) by (auto simp: rotate_id)

end

end
