(* ===== verification/Keyboard.thy ===== *)
theory Keyboard
  imports Video Interfaces
begin

unbundle bit_operations_syntax

section \<open>Kernel/keyboard.c: scan codes, modifiers and the key buffer\<close>

text \<open>
  The driver of the PS/2 keyboard: the interrupt handler \<open>kbrd_irq\<close> turns scan codes into key
  codes, follows the modifier and lock keys and queues the other keys in a ring buffer of 64
  places, from which \<open>syscall_read\<close> takes them. Ports are those of the machine record; the
  handler for the escape key is Kernel/kernel.c's \<open>handle_esc\<close>. \<open>None\<close> is an access outside
  the scan code table or a port read that never returns.

  The locale \<open>bounded_fifo\<close> states what the rest of the kernel expects of the buffer; it is
  interpreted on the code's \<open>key_buffer_add\<close> and \<open>kbrd_get_key\<close>.
\<close>

subsection \<open>Key codes (include/keyboard.h)\<close>

abbreviation KEY_ENTER :: int where
  "KEY_ENTER \<equiv> 10"

abbreviation KEY_SPACE :: int where
  "KEY_SPACE \<equiv> 32"

abbreviation KEY_0 :: int where
  "KEY_0 \<equiv> 48"

abbreviation KEY_1 :: int where
  "KEY_1 \<equiv> 49"

abbreviation KEY_2 :: int where
  "KEY_2 \<equiv> 50"

abbreviation KEY_3 :: int where
  "KEY_3 \<equiv> 51"

abbreviation KEY_4 :: int where
  "KEY_4 \<equiv> 52"

abbreviation KEY_5 :: int where
  "KEY_5 \<equiv> 53"

abbreviation KEY_6 :: int where
  "KEY_6 \<equiv> 54"

abbreviation KEY_7 :: int where
  "KEY_7 \<equiv> 55"

abbreviation KEY_8 :: int where
  "KEY_8 \<equiv> 56"

abbreviation KEY_9 :: int where
  "KEY_9 \<equiv> 57"

abbreviation KEY_A :: int where
  "KEY_A \<equiv> 97"

abbreviation KEY_B :: int where
  "KEY_B \<equiv> 98"

abbreviation KEY_C :: int where
  "KEY_C \<equiv> 99"

abbreviation KEY_D :: int where
  "KEY_D \<equiv> 100"

abbreviation KEY_E :: int where
  "KEY_E \<equiv> 101"

abbreviation KEY_F :: int where
  "KEY_F \<equiv> 102"

abbreviation KEY_G :: int where
  "KEY_G \<equiv> 103"

abbreviation KEY_H :: int where
  "KEY_H \<equiv> 104"

abbreviation KEY_I :: int where
  "KEY_I \<equiv> 105"

abbreviation KEY_J :: int where
  "KEY_J \<equiv> 106"

abbreviation KEY_K :: int where
  "KEY_K \<equiv> 107"

abbreviation KEY_L :: int where
  "KEY_L \<equiv> 108"

abbreviation KEY_M :: int where
  "KEY_M \<equiv> 109"

abbreviation KEY_N :: int where
  "KEY_N \<equiv> 110"

abbreviation KEY_O :: int where
  "KEY_O \<equiv> 111"

abbreviation KEY_P :: int where
  "KEY_P \<equiv> 112"

abbreviation KEY_Q :: int where
  "KEY_Q \<equiv> 113"

abbreviation KEY_R :: int where
  "KEY_R \<equiv> 114"

abbreviation KEY_S :: int where
  "KEY_S \<equiv> 115"

abbreviation KEY_T :: int where
  "KEY_T \<equiv> 116"

abbreviation KEY_U :: int where
  "KEY_U \<equiv> 117"

abbreviation KEY_V :: int where
  "KEY_V \<equiv> 118"

abbreviation KEY_W :: int where
  "KEY_W \<equiv> 119"

abbreviation KEY_X :: int where
  "KEY_X \<equiv> 120"

abbreviation KEY_Y :: int where
  "KEY_Y \<equiv> 121"

abbreviation KEY_Z :: int where
  "KEY_Z \<equiv> 122"

abbreviation KEY_ESCAPE :: int where
  "KEY_ESCAPE \<equiv> 4097"

abbreviation KEY_BACKSPACE :: int where
  "KEY_BACKSPACE \<equiv> 8"

abbreviation KEY_F1 :: int where
  "KEY_F1 \<equiv> 4609"

abbreviation KEY_F2 :: int where
  "KEY_F2 \<equiv> 4610"

abbreviation KEY_F3 :: int where
  "KEY_F3 \<equiv> 4611"

abbreviation KEY_F4 :: int where
  "KEY_F4 \<equiv> 4612"

abbreviation KEY_F5 :: int where
  "KEY_F5 \<equiv> 4613"

abbreviation KEY_F6 :: int where
  "KEY_F6 \<equiv> 4614"

abbreviation KEY_F7 :: int where
  "KEY_F7 \<equiv> 4615"

abbreviation KEY_F8 :: int where
  "KEY_F8 \<equiv> 4616"

abbreviation KEY_F9 :: int where
  "KEY_F9 \<equiv> 4617"

abbreviation KEY_F10 :: int where
  "KEY_F10 \<equiv> 4618"

abbreviation KEY_F11 :: int where
  "KEY_F11 \<equiv> 4619"

abbreviation KEY_F12 :: int where
  "KEY_F12 \<equiv> 4619"

abbreviation KEY_DOT :: int where
  "KEY_DOT \<equiv> 46"

abbreviation KEY_COMMA :: int where
  "KEY_COMMA \<equiv> 44"

abbreviation KEY_COLON :: int where
  "KEY_COLON \<equiv> 58"

abbreviation KEY_SEMICOLON :: int where
  "KEY_SEMICOLON \<equiv> 59"

abbreviation KEY_SLASH :: int where
  "KEY_SLASH \<equiv> 47"

abbreviation KEY_BACKSLASH :: int where
  "KEY_BACKSLASH \<equiv> 92"

abbreviation KEY_PLUS :: int where
  "KEY_PLUS \<equiv> 43"

abbreviation KEY_MINUS :: int where
  "KEY_MINUS \<equiv> 45"

abbreviation KEY_ASTERISK :: int where
  "KEY_ASTERISK \<equiv> 42"

abbreviation KEY_EXCLAMATION :: int where
  "KEY_EXCLAMATION \<equiv> 33"

abbreviation KEY_QUESTION :: int where
  "KEY_QUESTION \<equiv> 63"

abbreviation KEY_QUOTEDOUBLE :: int where
  "KEY_QUOTEDOUBLE \<equiv> 34"

abbreviation KEY_QUOTE :: int where
  "KEY_QUOTE \<equiv> 39"

abbreviation KEY_EQUAL :: int where
  "KEY_EQUAL \<equiv> 61"

abbreviation KEY_HASH :: int where
  "KEY_HASH \<equiv> 35"

abbreviation KEY_PERCENT :: int where
  "KEY_PERCENT \<equiv> 37"

abbreviation KEY_AMPERSAND :: int where
  "KEY_AMPERSAND \<equiv> 38"

abbreviation KEY_UNDERSCORE :: int where
  "KEY_UNDERSCORE \<equiv> 95"

abbreviation KEY_LEFTPARENTHESIS :: int where
  "KEY_LEFTPARENTHESIS \<equiv> 40"

abbreviation KEY_RIGHTPARENTHESIS :: int where
  "KEY_RIGHTPARENTHESIS \<equiv> 41"

abbreviation KEY_LEFTBRACKET :: int where
  "KEY_LEFTBRACKET \<equiv> 91"

abbreviation KEY_RIGHTBRACKET :: int where
  "KEY_RIGHTBRACKET \<equiv> 93"

abbreviation KEY_LEFTCURL :: int where
  "KEY_LEFTCURL \<equiv> 123"

abbreviation KEY_RIGHTCURL :: int where
  "KEY_RIGHTCURL \<equiv> 125"

abbreviation KEY_EURO :: int where
  "KEY_EURO \<equiv> 36"

abbreviation KEY_LESS :: int where
  "KEY_LESS \<equiv> 60"

abbreviation KEY_GREATER :: int where
  "KEY_GREATER \<equiv> 62"

abbreviation KEY_BAR :: int where
  "KEY_BAR \<equiv> 124"

abbreviation KEY_GRAVE :: int where
  "KEY_GRAVE \<equiv> 96"

abbreviation KEY_TILDE :: int where
  "KEY_TILDE \<equiv> 126"

abbreviation KEY_AT :: int where
  "KEY_AT \<equiv> 64"

abbreviation KEY_CARRET :: int where
  "KEY_CARRET \<equiv> 94"

abbreviation KEY_KP_0 :: int where
  "KEY_KP_0 \<equiv> 48"

abbreviation KEY_KP_1 :: int where
  "KEY_KP_1 \<equiv> 49"

abbreviation KEY_KP_2 :: int where
  "KEY_KP_2 \<equiv> 50"

abbreviation KEY_KP_3 :: int where
  "KEY_KP_3 \<equiv> 51"

abbreviation KEY_KP_4 :: int where
  "KEY_KP_4 \<equiv> 52"

abbreviation KEY_KP_5 :: int where
  "KEY_KP_5 \<equiv> 53"

abbreviation KEY_KP_6 :: int where
  "KEY_KP_6 \<equiv> 54"

abbreviation KEY_KP_7 :: int where
  "KEY_KP_7 \<equiv> 55"

abbreviation KEY_KP_8 :: int where
  "KEY_KP_8 \<equiv> 56"

abbreviation KEY_KP_9 :: int where
  "KEY_KP_9 \<equiv> 57"

abbreviation KEY_KP_MINUS :: int where
  "KEY_KP_MINUS \<equiv> 45"

abbreviation KEY_KP_DECIMAL :: int where
  "KEY_KP_DECIMAL \<equiv> 46"

abbreviation KEY_KP_ASTERISK :: int where
  "KEY_KP_ASTERISK \<equiv> 42"

abbreviation KEY_KP_NUMLOCK :: int where
  "KEY_KP_NUMLOCK \<equiv> 12303"

abbreviation KEY_TAB :: int where
  "KEY_TAB \<equiv> 16384"

abbreviation KEY_CAPSLOCK :: int where
  "KEY_CAPSLOCK \<equiv> 16385"

abbreviation KEY_LSHIFT :: int where
  "KEY_LSHIFT \<equiv> 16386"

abbreviation KEY_LCTRL :: int where
  "KEY_LCTRL \<equiv> 16387"

abbreviation KEY_LALT :: int where
  "KEY_LALT \<equiv> 16388"

abbreviation KEY_RSHIFT :: int where
  "KEY_RSHIFT \<equiv> 16390"

abbreviation KEY_RCTRL :: int where
  "KEY_RCTRL \<equiv> 16391"

abbreviation KEY_RALT :: int where
  "KEY_RALT \<equiv> 16392"

abbreviation KEY_SCROLLLOCK :: int where
  "KEY_SCROLLLOCK \<equiv> 16400"

abbreviation KEY_UNKNOWN :: int where
  "KEY_UNKNOWN \<equiv> 16402"

subsection \<open>The scan code table\<close>

definition kbrdscancode_std :: "int list" where
  "kbrdscancode_std = [KEY_UNKNOWN, KEY_ESCAPE, KEY_1, KEY_2, KEY_3, KEY_4, KEY_5, KEY_6, KEY_7, KEY_8, 
     KEY_9, KEY_0, KEY_MINUS, KEY_EQUAL, KEY_BACKSPACE, KEY_TAB, KEY_Q, KEY_W, KEY_E, 
     KEY_R, KEY_T, KEY_Y, KEY_U, KEY_I, KEY_O, KEY_P, KEY_LEFTBRACKET, 
     KEY_RIGHTBRACKET, KEY_ENTER, KEY_LCTRL, KEY_A, KEY_S, KEY_D, KEY_F, KEY_G, KEY_H, 
     KEY_J, KEY_K, KEY_L, KEY_SEMICOLON, KEY_QUOTE, KEY_GRAVE, KEY_LSHIFT, 
     KEY_BACKSLASH, KEY_Z, KEY_X, KEY_C, KEY_V, KEY_B, KEY_N, KEY_M, KEY_COMMA, 
     KEY_DOT, KEY_SLASH, KEY_RSHIFT, KEY_KP_ASTERISK, KEY_RALT, KEY_SPACE, 
     KEY_CAPSLOCK, KEY_F1, KEY_F2, KEY_F3, KEY_F4, KEY_F5, KEY_F6, KEY_F7, KEY_F8, 
     KEY_F9, KEY_F10, KEY_KP_NUMLOCK, KEY_SCROLLLOCK, KEY_KP_7, KEY_KP_8, KEY_KP_9, 
     KEY_KP_MINUS, KEY_KP_4, KEY_KP_5, KEY_KP_6, KEY_PLUS, KEY_KP_1, KEY_KP_2, 
     KEY_KP_3, KEY_KP_0, KEY_KP_DECIMAL, KEY_UNKNOWN, KEY_UNKNOWN, KEY_UNKNOWN, 
     KEY_F11, KEY_F12, KEY_UNKNOWN, KEY_ENTER]"

subsection \<open>State\<close>

datatype kbd_esc = Handle_esc

record keyboard_state = video_state +
  kern_active_term :: vid_term
  esc_fn :: "kbd_esc option"
  num_lock :: u8
  scroll_lock :: u8
  caps_lock :: u8
  shift_hold :: u8
  alt_hold :: u8
  ctrl_hold :: u8
  key_buffer :: "int list"
  buffer_last_key :: int
  buffer_first_key :: int
  scancode :: u8

text \<open>Kernel/kernel.c: the escape key shows the other terminal.\<close>

definition handle_esc :: "'a keyboard_state_scheme \<Rightarrow> 'a keyboard_state_scheme" where
  "handle_esc s =
     (let a = (case kern_active_term s of VID_PROC \<Rightarrow> VID_SYSLOG | VID_SYSLOG \<Rightarrow> VID_PROC)
      in vid_update (vid_show a (s\<lparr>kern_active_term := a\<rparr>)))"

fun call_esc :: "kbd_esc \<Rightarrow> 'a keyboard_state_scheme \<Rightarrow> 'a keyboard_state_scheme" where
  "call_esc Handle_esc s = handle_esc s"

subsection \<open>From key codes to characters\<close>

definition isascii :: "int \<Rightarrow> bool" where
  "isascii c \<longleftrightarrow> c \<ge> 0 \<and> c < 128"

definition shifted_digit :: "int \<Rightarrow> int" where
  "shifted_digit key =
     (if key = 48 then KEY_RIGHTPARENTHESIS
      else if key = 49 then KEY_EXCLAMATION
      else if key = 50 then KEY_AT
      else if key = 51 then KEY_HASH
      else if key = 52 then KEY_EURO
      else if key = 53 then KEY_PERCENT
      else if key = 54 then KEY_CARRET
      else if key = 55 then KEY_AMPERSAND
      else if key = 56 then KEY_ASTERISK
      else if key = 57 then KEY_LEFTPARENTHESIS
      else key)"

definition shifted_other :: "int \<Rightarrow> int" where
  "shifted_other key =
     (if key = KEY_EQUAL then KEY_PLUS
      else if key = KEY_COMMA then KEY_LESS
      else if key = KEY_DOT then KEY_GREATER
      else if key = KEY_SLASH then KEY_QUESTION
      else if key = KEY_SEMICOLON then KEY_COLON
      else if key = KEY_QUOTE then KEY_QUOTEDOUBLE
      else if key = KEY_LEFTBRACKET then KEY_LEFTCURL
      else if key = KEY_RIGHTBRACKET then KEY_RIGHTCURL
      else if key = KEY_GRAVE then KEY_TILDE
      else if key = KEY_MINUS then KEY_UNDERSCORE
      else if key = KEY_PLUS then KEY_EQUAL
      else if key = KEY_BACKSLASH then KEY_BAR
      else key)"

text \<open>\<open>uint8_t key = code\<close> keeps the low byte of the key code.\<close>

definition kbrd_key_to_ascii :: "int \<Rightarrow> 'a keyboard_state_scheme \<Rightarrow> u8" where
  "kbrd_key_to_ascii code s =
     (let key = code mod 256
      in if isascii key then
           (let key = (if shift_hold s XOR caps_lock s \<noteq> 0
                       then (if key \<ge> 97 \<and> key \<le> 122 then key - 32 else key) else key);
                key = (if shift_hold s \<noteq> 0 \<and> caps_lock s = 0
                       then (if key \<ge> 48 \<and> key \<le> 57 then shifted_digit key
                             else shifted_other key)
                       else key)
            in word_of_int key)
         else 0)"

subsection \<open>The key buffer\<close>

abbreviation KEY_BUFFER_SIZE :: int where
  "KEY_BUFFER_SIZE \<equiv> 64"

definition key_buffer_init :: "'a keyboard_state_scheme \<Rightarrow> 'a keyboard_state_scheme" where
  "key_buffer_init s =
     s\<lparr>buffer_last_key := 0, buffer_first_key := 0,
       key_buffer := replicate (nat KEY_BUFFER_SIZE) KEY_UNKNOWN\<rparr>"

definition buffer_is_empty :: "'a keyboard_state_scheme \<Rightarrow> bool" where
  "buffer_is_empty s \<longleftrightarrow> buffer_first_key s = buffer_last_key s"

definition key_buffer_is_full :: "'a keyboard_state_scheme \<Rightarrow> bool" where
  "key_buffer_is_full s \<longleftrightarrow> buffer_first_key s = (buffer_last_key s + 1) mod KEY_BUFFER_SIZE"

definition key_buffer_add :: "int \<Rightarrow> 'a keyboard_state_scheme \<Rightarrow> 'a keyboard_state_scheme option" where
  "key_buffer_add key s =
     (if key_buffer_is_full s then beep s
      else do {
        b \<leftarrow> obj_set (key_buffer s) (buffer_last_key s) key;
        Some (s\<lparr>key_buffer := b,
                buffer_last_key := (buffer_last_key s + 1) mod KEY_BUFFER_SIZE\<rparr>)
      })"

definition key_buffer_reset :: "'a keyboard_state_scheme \<Rightarrow> 'a keyboard_state_scheme" where
  "key_buffer_reset s = key_buffer_init s"

definition kbrd_get_key :: "'a keyboard_state_scheme \<Rightarrow> (int \<times> 'a keyboard_state_scheme) option" where
  "kbrd_get_key s =
     (if buffer_is_empty s then Some (KEY_UNKNOWN, s)
      else do {
        c \<leftarrow> obj_get (key_buffer s) (buffer_first_key s);
        Some (c, s\<lparr>buffer_first_key := (buffer_first_key s + 1) mod KEY_BUFFER_SIZE\<rparr>)
      })"

definition kbrd_get_previous_key :: "'a keyboard_state_scheme \<Rightarrow> int option" where
  "kbrd_get_previous_key s =
     obj_get (key_buffer s)
       (if buffer_first_key s - 1 \<ge> 0 then buffer_first_key s - 1 else KEY_BUFFER_SIZE - 1)"

subsection \<open>The controller\<close>

definition kbrd_ctrl_read_status :: "'a machine_scheme \<Rightarrow> (u32 \<times> 'a machine_scheme) option" where
  "kbrd_ctrl_read_status s = inportb 0x64 s"

text \<open>The polling loop of the two send functions.\<close>

partial_function (option) wait_input_clear :: "'a machine_scheme \<Rightarrow> 'a machine_scheme option" where
  "wait_input_clear s = do {
     (v, s) \<leftarrow> kbrd_ctrl_read_status s;
     (if v AND 2 = 0 then Some s else wait_input_clear s)
   }"

definition kbrd_ctrl_send_cmd :: "u8 \<Rightarrow> 'a machine_scheme \<Rightarrow> 'a machine_scheme option" where
  "kbrd_ctrl_send_cmd cmd s = do {
     s \<leftarrow> wait_input_clear s;
     Some (outportb 0x64 (ucast cmd) s)
   }"

definition kbrd_enc_read_buf :: "'a machine_scheme \<Rightarrow> (u16 \<times> 'a machine_scheme) option" where
  "kbrd_enc_read_buf s = do {
     (v, s) \<leftarrow> inportb 0x60 s;
     Some (ucast v, s)
   }"

definition kbrd_enc_send_cmd :: "u8 \<Rightarrow> 'a machine_scheme \<Rightarrow> 'a machine_scheme option" where
  "kbrd_enc_send_cmd cmd s = do {
     s \<leftarrow> wait_input_clear s;
     Some (outportb 0x60 (ucast cmd) s)
   }"

definition led_data :: "u8 \<Rightarrow> u8 \<Rightarrow> u8 \<Rightarrow> u8" where
  "led_data num caps scroll =
     (let data = 0;
          data = (if scroll \<noteq> 0 then data OR 1 else data);
          data = (if num \<noteq> 0 then data OR 2 else data AND 1);
          data = (if caps \<noteq> 0 then data OR 4 else data AND 3)
      in data)"

definition kbrd_set_leds :: "u8 \<Rightarrow> u8 \<Rightarrow> u8 \<Rightarrow> 'a machine_scheme \<Rightarrow> 'a machine_scheme option" where
  "kbrd_set_leds num caps scroll s = do {
     s \<leftarrow> kbrd_enc_send_cmd 0xED s;
     kbrd_enc_send_cmd (led_data num caps scroll) s
   }"

definition kbrd_install :: "kbd_esc option \<Rightarrow> 'a keyboard_state_scheme \<Rightarrow> 'a keyboard_state_scheme option" where
  "kbrd_install esc s = do {
     let s = s\<lparr>scancode := 0, num_lock := 0, scroll_lock := 0, caps_lock := 0\<rparr>;
     s \<leftarrow> kbrd_set_leds 0 0 0 s;
     let s = key_buffer_init s;
     Some (s\<lparr>shift_hold := 0, alt_hold := 0, ctrl_hold := 0, esc_fn := esc\<rparr>)
   }"

definition kbrd_reset_system :: "'a machine_scheme \<Rightarrow> 'a machine_scheme option" where
  "kbrd_reset_system s = do {
     s \<leftarrow> kbrd_ctrl_send_cmd 0xD1 s;
     kbrd_enc_send_cmd 0xFE s
   }"

subsection \<open>The interrupt handler\<close>

definition c_not :: "u8 \<Rightarrow> u8" where
  "c_not x = (if x = 0 then 1 else 0)"

text \<open>A key is released: \<open>code\<close> is the break code less its bit 7.\<close>

definition kbrd_break :: "int \<Rightarrow> 'a keyboard_state_scheme \<Rightarrow> 'a keyboard_state_scheme option" where
  "kbrd_break code s = do {
     key \<leftarrow> obj_get kbrdscancode_std code;
     Some (if key = KEY_LCTRL \<or> key = KEY_RCTRL then s\<lparr>ctrl_hold := 0\<rparr>
           else if key = KEY_LSHIFT \<or> key = KEY_RSHIFT then s\<lparr>shift_hold := 0\<rparr>
           else if key = KEY_LALT \<or> key = KEY_RALT then s\<lparr>alt_hold := 0\<rparr>
           else s)
   }"

text \<open>A key is pressed.\<close>

definition kbrd_make :: "int \<Rightarrow> 'a keyboard_state_scheme \<Rightarrow> 'a keyboard_state_scheme option" where
  "kbrd_make code s = do {
     let s = s\<lparr>scancode := word_of_int code\<rparr>;
     key \<leftarrow> obj_get kbrdscancode_std code;
     (if key = KEY_ESCAPE then
        Some (case esc_fn s of None \<Rightarrow> s | Some f \<Rightarrow> call_esc f s)
      else if key = KEY_LCTRL \<or> key = KEY_RCTRL then Some (s\<lparr>ctrl_hold := 1\<rparr>)
      else if key = KEY_LSHIFT \<or> key = KEY_RSHIFT then Some (s\<lparr>shift_hold := 1\<rparr>)
      else if key = KEY_LALT \<or> key = KEY_RALT then Some (s\<lparr>alt_hold := 1\<rparr>)
      else if key = KEY_CAPSLOCK then
        (let s = s\<lparr>caps_lock := c_not (caps_lock s)\<rparr>
         in kbrd_set_leds (num_lock s) (caps_lock s) (scroll_lock s) s)
      else if key = KEY_KP_NUMLOCK then
        (let s = s\<lparr>num_lock := c_not (num_lock s)\<rparr>
         in kbrd_set_leds (num_lock s) (caps_lock s) (scroll_lock s) s)
      else if key = KEY_SCROLLLOCK then
        (let s = s\<lparr>scroll_lock := c_not (scroll_lock s)\<rparr>
         in kbrd_set_leds (num_lock s) (caps_lock s) (scroll_lock s) s)
      else key_buffer_add key s)
   }"

definition kbrd_irq :: "'a keyboard_state_scheme \<Rightarrow> 'a keyboard_state_scheme option" where
  "kbrd_irq s = do {
     (status, s) \<leftarrow> kbrd_ctrl_read_status s;
     (if status AND 1 \<noteq> 0 then do {
        (code, s) \<leftarrow> kbrd_enc_read_buf s;
        let code = uint code;
        (if code = 0xE0 \<or> code = 0xE1 then Some s
         else if code AND 0x80 \<noteq> 0 then kbrd_break (code - 0x80) s
         else kbrd_make code s)
      }
      else Some s)
   }"

subsection \<open>The ring buffer is a first-in first-out queue of 63 keys\<close>

definition kbd_ok :: "'a keyboard_state_scheme \<Rightarrow> bool" where
  "kbd_ok s \<longleftrightarrow> length (key_buffer s) = 64 \<and> 0 \<le> buffer_first_key s \<and> buffer_first_key s < 64
     \<and> 0 \<le> buffer_last_key s \<and> buffer_last_key s < 64"

text \<open>The queued keys, oldest first.\<close>

definition kbd_count :: "'a keyboard_state_scheme \<Rightarrow> nat" where
  "kbd_count s = ring_dist KEY_BUFFER_SIZE (buffer_first_key s) (buffer_last_key s)"

definition kbd_items :: "'a keyboard_state_scheme \<Rightarrow> int list" where
  "kbd_items s = map (\<lambda>i. key_buffer s ! nat ((buffer_first_key s + int i) mod KEY_BUFFER_SIZE))
     [0..<kbd_count s]"

lemma length_kbd_items [simp]: "length (kbd_items s) = kbd_count s"
  by (simp add: kbd_items_def)

lemma kbd_count_less: "kbd_count s < 64"
  using ring_dist_less [of KEY_BUFFER_SIZE] by (simp add: kbd_count_def)

lemma kbd_full_iff: "kbd_ok s \<Longrightarrow> key_buffer_is_full s \<longleftrightarrow> kbd_count s = 63"
  using ring_dist_max [of "buffer_first_key s" KEY_BUFFER_SIZE "buffer_last_key s"]
  by (auto simp: kbd_ok_def key_buffer_is_full_def kbd_count_def)

lemma kbd_empty_iff: "kbd_ok s \<Longrightarrow> buffer_is_empty s \<longleftrightarrow> kbd_count s = 0"
  by (simp add: kbd_ok_def buffer_is_empty_def kbd_count_def ring_dist_0)

lemma key_buffer_add_room:
  assumes "kbd_ok s" and "\<not> key_buffer_is_full s"
  shows "\<exists>s'. key_buffer_add key s = Some s' \<and> kbd_ok s' \<and> kbd_items s' = kbd_items s @ [key]"
proof -
  let ?f = "buffer_first_key s" and ?l = "buffer_last_key s" and ?n = "kbd_count s"
  let ?s = "s\<lparr>key_buffer := (key_buffer s)[nat ?l := key],
    buffer_last_key := (?l + 1) mod KEY_BUFFER_SIZE\<rparr>"
  have n: "?n < 63" using assms kbd_count_less [of s] kbd_full_iff [of s] by linarith
  have add: "key_buffer_add key s = Some ?s"
    using assms by (simp add: key_buffer_add_def obj_set_in kbd_ok_def)
  have ok: "kbd_ok ?s" using assms(1) by (simp add: kbd_ok_def)
  have c: "kbd_count ?s = Suc ?n" using n by (simp add: kbd_count_def ring_dist_Suc)
  have l: "(?f + int ?n) mod KEY_BUFFER_SIZE = ?l"
    using assms(1) by (simp add: kbd_count_def ring_dist_reach kbd_ok_def)
  have "nat ((?f + int i) mod KEY_BUFFER_SIZE) \<noteq> nat ?l" if "i < ?n" for i
    using ring_index_inj [of "int i" KEY_BUFFER_SIZE "int ?n" ?f] that n l assms(1)
    by (auto simp: kbd_ok_def eq_nat_nat_iff)
  then have "map (\<lambda>i. (key_buffer s)[nat ?l := key] ! nat ((?f + int i) mod KEY_BUFFER_SIZE)) [0..<?n]
      = kbd_items s"
    unfolding kbd_items_def by (intro map_cong refl nth_list_update_neq) (metis atLeastLessThan_iff set_upt)
  then have "kbd_items ?s = kbd_items s @ [key]"
    using c l assms(1) by (simp add: kbd_items_def [of ?s] kbd_ok_def)
  with add ok show ?thesis by blast
qed

lemma kbrd_get_key_item:
  assumes "kbd_ok s" and "kbd_items s = x # xs"
  shows "\<exists>s'. kbrd_get_key s = Some (x, s') \<and> kbd_ok s' \<and> kbd_items s' = xs"
proof -
  let ?f = "buffer_first_key s" and ?l = "buffer_last_key s" and ?n = "kbd_count s"
  let ?s = "s\<lparr>buffer_first_key := (?f + 1) mod KEY_BUFFER_SIZE\<rparr>"
  have n: "?n = Suc (length xs)" using assms(2) by (metis length_Cons length_kbd_items)
  then have ne: "\<not> buffer_is_empty s" using assms(1) by (simp add: kbd_empty_iff)
  have c: "kbd_count ?s = length xs"
    using ring_dist_pred [of KEY_BUFFER_SIZE ?f ?l] n by (simp add: kbd_count_def)
  have nth: "(x # xs) ! i = key_buffer s ! nat ((?f + int i) mod KEY_BUFFER_SIZE)" if "i < ?n" for i
    using that by (simp add: kbd_items_def flip: assms(2))
  have "x = key_buffer s ! nat ?f" using nth [of 0] n assms(1) by (simp add: kbd_ok_def)
  then have get: "kbrd_get_key s = Some (x, ?s)"
    using ne assms(1) by (simp add: kbrd_get_key_def obj_get_in kbd_ok_def)
  have "kbd_items ?s = xs"
  proof (rule nth_equalityI)
    fix i assume "i < length (kbd_items ?s)"
    then have i: "i < length xs" by (simp add: c)
    then have "xs ! i = key_buffer s ! nat ((?f + int (Suc i)) mod KEY_BUFFER_SIZE)"
      using nth [of "Suc i"] n by simp
    moreover have "(?f + int (Suc i)) mod KEY_BUFFER_SIZE
        = ((?f + 1) mod KEY_BUFFER_SIZE + int i) mod KEY_BUFFER_SIZE"
      by (simp add: mod_simps add_ac)
    ultimately show "kbd_items ?s ! i = xs ! i"
      using i by (simp add: kbd_items_def c)
  qed (simp add: c)
  moreover have "kbd_ok ?s" using assms(1) by (simp add: kbd_ok_def)
  ultimately show ?thesis using get by blast
qed

lemma sound_kbd:
  assumes "sound f s = Some s'"
  shows "key_buffer s' = key_buffer s" "buffer_first_key s' = buffer_first_key s"
    "buffer_last_key s' = buffer_last_key s" "shift_hold s' = shift_hold s" "caps_lock s' = caps_lock s"
  using assms
  by (auto simp: sound_def inportb_def outportb_def Let_def split: if_splits list.splits bind_splits)

lemma beep_kbd:
  assumes "beep s = Some s'"
  shows "key_buffer s' = key_buffer s" "buffer_first_key s' = buffer_first_key s"
    "buffer_last_key s' = buffer_last_key s" "shift_hold s' = shift_hold s" "caps_lock s' = caps_lock s"
  using sound_kbd [OF assms [unfolded beep_def beepl_def beeplf_def]] by simp_all

interpretation kbf: bounded_fifo key_buffer_add kbrd_get_key key_buffer_is_full buffer_is_empty
  kbd_items kbd_ok 63
proof unfold_locales
  fix s s' :: "'a keyboard_state_scheme" and x xs
  assume ok: "kbd_ok s"
  show "key_buffer_is_full s \<longleftrightarrow> length (kbd_items s) = 63" using ok by (simp add: kbd_full_iff)
  show "length (kbd_items s) \<le> 63" using kbd_count_less [of s] by simp
  show "buffer_is_empty s \<longleftrightarrow> kbd_items s = []"
    using ok by (simp add: kbd_empty_iff kbd_items_def)
  show "kbd_items s = [] \<Longrightarrow> \<exists>x. kbrd_get_key s = Some (x, s)"
    using ok by (auto simp: kbrd_get_key_def kbd_empty_iff kbd_items_def)
  show "key_buffer_is_full s \<Longrightarrow> key_buffer_add x s = Some s' \<Longrightarrow> kbd_ok s' \<and> kbd_items s' = kbd_items s"
    using ok beep_kbd [of s s'] by (auto simp: key_buffer_add_def kbd_ok_def kbd_items_def kbd_count_def)
qed (blast intro: key_buffer_add_room kbrd_get_key_item)+

subsection \<open>Properties\<close>

definition keyboard_boot :: keyboard_state where
  "keyboard_boot = \<lparr>mem = (\<lambda>_. 0), inq = (\<lambda>_. []), outs = [], snd_timeout = 0,
     terminals = (\<lambda>_. \<lparr>vm_video = replicate 2000 (blank 0), vm_cursor = 0, vm_fmt = 0\<rparr>),
     vid_active = VID_PROC, kern_active_term = VID_PROC, esc_fn = Some Handle_esc,
     num_lock = 0, scroll_lock = 0, caps_lock = 0, shift_hold = 0, alt_hold = 0, ctrl_hold = 0,
     key_buffer = replicate 64 KEY_UNKNOWN, buffer_last_key = 0, buffer_first_key = 0, scancode = 0\<rparr>"

lemma keyboard_boot_ok: "kbd_ok keyboard_boot" "kbd_items keyboard_boot = []"
  by (simp_all add: keyboard_boot_def kbd_ok_def kbd_items_def kbd_count_def ring_dist_def)

text \<open>C36: Keys leave the key buffer in the order in which it accepted them, none lost and none
  twice, over every sequence of \<open>key_buffer_add\<close> and \<open>kbrd_get_key\<close>: what was queued, followed by
  what was accepted, is what was delivered followed by what is still queued.\<close>

theorem key_buffer_order:
  assumes "kbd_ok s"
    and "fifo_run key_buffer_add kbrd_get_key key_buffer_is_full buffer_is_empty ops s = Some (acc, del, t)"
  shows "kbd_ok t \<and> kbd_items s @ acc = del @ kbd_items t"
  using assms by (rule kbf.run_order)

theorem key_buffer_order_witness:
  "\<exists>t. fifo_run key_buffer_add kbrd_get_key key_buffer_is_full buffer_is_empty
      (map Put [KEY_H, KEY_I] @ replicate (length [KEY_H, KEY_I]) Get) keyboard_boot
      = Some ([KEY_H, KEY_I], [KEY_H, KEY_I], t)
    \<and> kbd_ok t \<and> kbd_items keyboard_boot @ [KEY_H, KEY_I] = [KEY_H, KEY_I] @ kbd_items t"
proof -
  obtain t where t: "fifo_run key_buffer_add kbrd_get_key key_buffer_is_full buffer_is_empty
      (map Put [KEY_H, KEY_I] @ replicate (length [KEY_H, KEY_I]) Get) keyboard_boot
      = Some ([KEY_H, KEY_I], [KEY_H, KEY_I], t)"
    using kbf.put_all_get_all [OF keyboard_boot_ok, of "[KEY_H, KEY_I]"] by auto
  from key_buffer_order [OF keyboard_boot_ok(1) t] t show ?thesis by blast
qed

text \<open>An empty buffer takes 63 keys and gives back exactly these, in order; the sequence runs
  to its end without an access outside the buffer.\<close>

theorem key_buffer_round_trip:
  assumes "kbd_ok s" and "kbd_items s = []" and "length ks \<le> 63"
  shows "\<exists>t. fifo_run key_buffer_add kbrd_get_key key_buffer_is_full buffer_is_empty
      (map Put ks @ replicate (length ks) Get) s = Some (ks, ks, t) \<and> kbd_items t = []"
  using kbf.put_all_get_all [OF assms] by blast

theorem key_buffer_round_trip_witness:
  "\<exists>t. fifo_run key_buffer_add kbrd_get_key key_buffer_is_full buffer_is_empty
      (map Put (replicate 63 KEY_A) @ replicate (length (replicate 63 KEY_A)) Get) keyboard_boot
      = Some (replicate 63 KEY_A, replicate 63 KEY_A, t) \<and> kbd_items t = []"
  by (rule key_buffer_round_trip [OF keyboard_boot_ok]) simp

text \<open>The polling loop ends when the controller has room, and takes nothing more from the port.\<close>

lemma wait_input_clear_ends:
  "inq s 0x64 = busy @ v # rest \<Longrightarrow> list_all (\<lambda>b. b AND 2 \<noteq> 0) busy \<Longrightarrow> v AND 2 = 0 \<Longrightarrow>
   wait_input_clear s = Some (s\<lparr>inq := (inq s)(0x64 := rest)\<rparr>)"
proof (induction busy arbitrary: s)
  case Nil
  have "(ucast v AND 2 :: u32) = ucast (v AND 2)" by (simp add: unsigned_and_eq)
  then show ?case
    using Nil by (subst wait_input_clear.simps) (simp add: kbrd_ctrl_read_status_def inportb_Cons)
next
  case (Cons b busy)
  have nz: "(ucast b AND 2 :: u32) = ucast (b AND 2)" by (simp add: unsigned_and_eq)
  have nz': "ucast (b AND 2) \<noteq> (0 :: u32)"
    using Cons.prems(2) by (simp add: ucast_8_32_0)
  define g where "g = (inq s)(0x64 := busy @ v # rest)"
  have g: "g 0x64 = busy @ v # rest" and upd: "g(0x64 := rest) = (inq s)(0x64 := rest)"
    by (simp_all add: g_def)
  have "wait_input_clear s = wait_input_clear (s\<lparr>inq := g\<rparr>)"
    using Cons.prems
    by (subst wait_input_clear.simps) (simp add: kbrd_ctrl_read_status_def inportb_Cons g_def nz nz')
  also have "\<dots> = Some ((s\<lparr>inq := g\<rparr>)\<lparr>inq := (inq (s\<lparr>inq := g\<rparr>))(0x64 := rest)\<rparr>)"
    by (rule Cons.IH) (use Cons.prems(2,3) g in simp_all)
  also have "\<dots> = Some (s\<lparr>inq := g(0x64 := rest)\<rparr>)" by simp
  finally show ?case unfolding upd .
qed

text \<open>The interrupt handler on a byte that waits in the output buffer of the encoder.\<close>

lemma kbrd_irq_code:
  assumes "inq s 0x64 = st # sts" and "inq s 0x60 = code # codes" and "bit st 0"
  defines "s1 \<equiv> s\<lparr>inq := (inq s)(0x64 := sts, 0x60 := codes)\<rparr>"
  shows "kbrd_irq s =
    (if code = 0xE0 \<or> code = 0xE1 then Some s1
     else if bit code 7 then kbrd_break (uint code - 0x80) s1 else kbrd_make (uint code) s1)"
proof -
  have "ucast st AND 1 \<noteq> (0 :: u32)"
    using assms(3) by (auto simp: bit_eq_iff bit_simps intro!: exI [of _ 0])
  moreover have "uint code AND 0x80 \<noteq> 0 \<longleftrightarrow> bit code 7"
    using and_exp_eq_0_iff_not_bit [of "uint code" 7] by (simp add: bit_uint_iff)
  moreover have "uint code = 224 \<longleftrightarrow> code = 0xE0" "uint code = 225 \<longleftrightarrow> code = 0xE1"
    by (simp_all add: word_uint_eq_iff)
  moreover have "uint (ucast code :: u32) = uint code" "uint (ucast (ucast code :: u32) :: u16) = uint code"
    by (simp_all add: uint_up_ucast is_up ucast_8_32_16)
  ultimately show ?thesis
    using assms(1,2)
    by (simp add: kbrd_irq_def kbrd_ctrl_read_status_def kbrd_enc_read_buf_def inportb_Cons s1_def
        fun_upd_twist)
qed

text \<open>The keys that the handler queues, and those it acts on itself.\<close>

definition acted_on :: "int \<Rightarrow> bool" where
  "acted_on key \<longleftrightarrow> key \<in> {KEY_ESCAPE, KEY_LCTRL, KEY_RCTRL, KEY_LSHIFT, KEY_RSHIFT, KEY_LALT, KEY_RALT,
     KEY_CAPSLOCK, KEY_KP_NUMLOCK, KEY_SCROLLLOCK}"

text \<open>A make code of a key that is queued, and its key.\<close>

definition types_key :: "u8 \<Rightarrow> bool" where
  "types_key c \<longleftrightarrow> unat c < 91 \<and> \<not> acted_on (kbrdscancode_std ! unat c)"

definition key_of :: "u8 \<Rightarrow> int" where
  "key_of c = kbrdscancode_std ! unat c"

lemma length_scancodes [simp]: "length kbrdscancode_std = 91"
  by (simp add: kbrdscancode_std_def)

lemma scancode_get: "unat c < 91 \<Longrightarrow> obj_get kbrdscancode_std (uint c) = Some (key_of c)"
  by (simp add: obj_get_def key_of_def uint_less_unat [of c 91, simplified] nat_uint_eq)

lemma low_bit7: "unat (c :: u8) < 128 \<Longrightarrow> \<not> bit c 7"
  by (simp add: bit7_iff)

lemma high_bit7: "128 \<le> unat (c :: u8) \<Longrightarrow> bit c 7"
  by (simp add: bit7_iff)

lemma kbrd_make_queues:
  assumes "types_key c" and "kbd_ok s" and "kbd_count s < 63"
  shows "\<exists>s'. kbrd_make (uint c) s = Some s' \<and> kbd_ok s' \<and> kbd_items s' = kbd_items s @ [key_of c]
    \<and> inq s' = inq s \<and> mem s' = mem s \<and> shift_hold s' = shift_hold s \<and> caps_lock s' = caps_lock s"
proof -
  let ?s = "s\<lparr>scancode := word_of_int (uint c)\<rparr>"
  have same: "kbd_ok ?s = kbd_ok s" "key_buffer_is_full ?s = key_buffer_is_full s"
    "kbd_items ?s = kbd_items s"
    by (simp_all add: kbd_ok_def key_buffer_is_full_def kbd_items_def kbd_count_def)
  have nf: "\<not> key_buffer_is_full s" using assms(2,3) by (simp add: kbd_full_iff)
  then obtain s' where s': "key_buffer_add (key_of c) ?s = Some s'" "kbd_ok s'"
    "kbd_items s' = kbd_items s @ [key_of c]"
    using key_buffer_add_room [of ?s "key_of c"] assms(2) same by auto
  then have "inq s' = inq s" "mem s' = mem s" "shift_hold s' = shift_hold s" "caps_lock s' = caps_lock s"
    using nf same by (auto simp: key_buffer_add_def split: bind_splits)
  moreover have "kbrd_make (uint c) s = Some s'"
    using assms(1) s'(1) scancode_get [of c]
    by (simp add: kbrd_make_def types_key_def acted_on_def key_of_def)
  ultimately show ?thesis using s' by blast
qed

text \<open>\<open>n\<close> keyboard interrupts.\<close>

primrec kbrd_irqs :: "nat \<Rightarrow> 'a keyboard_state_scheme \<Rightarrow> 'a keyboard_state_scheme option" where
  "kbrd_irqs 0 s = Some s"
| "kbrd_irqs (Suc n) s = Option.bind (kbrd_irq s) (kbrd_irqs n)"

lemma types_key_not_prefix: "types_key c \<Longrightarrow> c \<noteq> 0xE0 \<and> c \<noteq> 0xE1 \<and> \<not> bit c 7"
  by (auto simp: types_key_def low_bit7)

lemma kbrd_irqs_type:
  "kbd_ok s \<Longrightarrow> kbd_count s + length cs \<le> 63 \<Longrightarrow> list_all types_key cs \<Longrightarrow> inq s 0x60 = cs @ codes \<Longrightarrow>
   inq s 0x64 = sts \<Longrightarrow> length cs \<le> length sts \<Longrightarrow> list_all (\<lambda>v. bit v 0) sts \<Longrightarrow>
   \<exists>s'. kbrd_irqs (length cs) s = Some s' \<and> kbd_ok s' \<and> kbd_items s' = kbd_items s @ map key_of cs
     \<and> mem s' = mem s \<and> shift_hold s' = shift_hold s \<and> caps_lock s' = caps_lock s"
proof (induction cs arbitrary: s sts)
  case (Cons c cs)
  obtain st sts' where sts: "sts = st # sts'" using Cons.prems(6) by (cases sts) auto
  let ?s = "s\<lparr>inq := (inq s)(0x64 := sts', 0x60 := cs @ codes)\<rparr>"
  have ok: "kbd_ok ?s" and n: "kbd_count ?s = kbd_count s" and it: "kbd_items ?s = kbd_items s"
    using Cons.prems(1) by (simp_all add: kbd_ok_def kbd_count_def kbd_items_def)
  have tk: "types_key c" using Cons.prems(3) by simp
  have irq: "kbrd_irq s = kbrd_make (uint c) ?s"
    using kbrd_irq_code [of s st sts' c "cs @ codes"] Cons.prems(4,5,7) types_key_not_prefix [OF tk]
    by (simp add: sts)
  obtain s1 where s1: "kbrd_make (uint c) ?s = Some s1" "kbd_ok s1"
    "kbd_items s1 = kbd_items s @ [key_of c]" "inq s1 = inq ?s" "mem s1 = mem s"
    "shift_hold s1 = shift_hold s" "caps_lock s1 = caps_lock s"
    using kbrd_make_queues [OF tk ok] n it Cons.prems(2) by auto
  have "kbd_count s1 = Suc (kbd_count s)"
    using arg_cong [OF s1(3), of length] by simp
  then show ?case
    using Cons.IH [of s1 sts'] s1 irq Cons.prems(2,3,6,7) by (simp add: sts)
qed (simp add: kbd_items_def)

text \<open>Every press of a key that is not a modifier, a lock or escape queues that key: after one
  interrupt for each of the scan codes the buffer holds their keys behind the ones it had, in the
  order of the presses, as long as it has room, and the modifiers are as before.\<close>

theorem kbrd_irqs_queue:
  assumes "kbd_ok s" and "length (kbd_items s) + length cs \<le> 63" and "list_all types_key cs"
    and "inq s 0x60 = cs @ codes" and "length cs \<le> length (inq s 0x64)"
    and "list_all (\<lambda>v. bit v 0) (inq s 0x64)"
  shows "\<exists>s'. kbrd_irqs (length cs) s = Some s' \<and> kbd_items s' = kbd_items s @ map key_of cs
    \<and> shift_hold s' = shift_hold s \<and> caps_lock s' = caps_lock s"
  using kbrd_irqs_type [of s cs codes "inq s 0x64"] assms by auto

theorem kbrd_irqs_queue_witness:
  "let s = keyboard_boot\<lparr>inq := (\<lambda>_. [])(0x60 := [0x23, 0x17], 0x64 := [1, 1])\<rparr>
   in \<exists>s'. kbrd_irqs (length [0x23, 0x17 :: u8]) s = Some s'
     \<and> kbd_items s' = kbd_items s @ map key_of [0x23, 0x17]
     \<and> shift_hold s' = shift_hold s \<and> caps_lock s' = caps_lock s"
  unfolding Let_def
  by (rule kbrd_irqs_queue)
    (simp_all add: keyboard_boot_def kbd_ok_def kbd_items_def kbd_count_def ring_dist_def
      types_key_def acted_on_def kbrdscancode_std_def)

text \<open>A shift key is held from its make code to its break code, whatever the state of the buffer
  and of the other modifiers.\<close>

theorem kbrd_irq_shift:
  assumes "inq s 0x64 = st # sts" and "inq s 0x60 = code # codes" and "bit st 0"
    and "code \<in> {0x2A, 0x36, 0xAA, 0xB6}"
  shows "\<exists>s'. kbrd_irq s = Some s' \<and> shift_hold s' = (if code \<in> {0x2A, 0x36} then 1 else 0)
    \<and> caps_lock s' = caps_lock s \<and> ctrl_hold s' = ctrl_hold s \<and> alt_hold s' = alt_hold s
    \<and> kbd_items s' = kbd_items s"
proof -
  have "bit (0xAA :: u8) 7" "bit (0xB6 :: u8) 7" "\<not> bit (0x2A :: u8) 7" "\<not> bit (0x36 :: u8) 7"
    by (simp_all add: high_bit7 low_bit7)
  moreover have "obj_get kbrdscancode_std 0x2A = Some KEY_LSHIFT" "obj_get kbrdscancode_std 0x36 = Some KEY_RSHIFT"
    by (simp_all add: obj_get_def kbrdscancode_std_def)
  ultimately show ?thesis
    using assms(4) unfolding kbrd_irq_code [OF assms(1-3)]
    by (elim insertE) (auto simp: kbrd_make_def kbrd_break_def kbd_items_def kbd_count_def)
qed

theorem kbrd_irq_shift_witness:
  "let s = keyboard_boot\<lparr>inq := (\<lambda>_. [])(0x60 := [0x2A], 0x64 := [1])\<rparr>
   in \<exists>s'. kbrd_irq s = Some s' \<and> shift_hold s' = (if (0x2A :: u8) \<in> {0x2A, 0x36} then 1 else 0)
    \<and> caps_lock s' = caps_lock s \<and> ctrl_hold s' = ctrl_hold s \<and> alt_hold s' = alt_hold s
    \<and> kbd_items s' = kbd_items s"
  unfolding Let_def by (rule kbrd_irq_shift [where st = 1]) (simp_all add: bit_0)

text \<open>A letter key gives the small letter, or the capital when exactly one of shift and caps lock
  is active; no other state has an influence.\<close>

theorem kbrd_key_to_ascii_letter:
  assumes "97 \<le> key" and "key \<le> 122" and "shift_hold s \<in> {0, 1}" and "caps_lock s \<in> {0, 1}"
  shows "chr_int (kbrd_key_to_ascii key s) = (if shift_hold s = caps_lock s then key else key - 32)"
proof -
  have c: "chr_int (word_of_int k) = k" if "0 \<le> k" "k < 128" for k
    using sint_of_nat_small [of "nat k", where 'a = 8] that by (simp add: chr_int_def)
  show ?thesis
    using assms c [of key] c [of "key - 32"]
    by (auto simp: kbrd_key_to_ascii_def isascii_def shifted_other_def Let_def)
qed

theorem kbrd_key_to_ascii_letter_witness:
  "chr_int (kbrd_key_to_ascii KEY_A (keyboard_boot\<lparr>shift_hold := 1\<rparr>)) =
    (if shift_hold (keyboard_boot\<lparr>shift_hold := 1\<rparr>) = caps_lock (keyboard_boot\<lparr>shift_hold := 1\<rparr>)
     then KEY_A else KEY_A - 32)"
  by (rule kbrd_key_to_ascii_letter) (simp_all add: keyboard_boot_def)

text \<open>The handler for a scan code that the table does not have (a make code from 0x5B on) reads
  past the end of \<open>kbrdscancode_std\<close>.\<close>

theorem kbrd_irq_unknown_code:
  assumes "inq s 0x64 = st # sts" and "inq s 0x60 = code # codes" and "bit st 0"
    and "0x5B \<le> unat code" and "unat code < 0x80"
  shows "kbrd_irq s = None"
proof -
  have "uint code = int (unat code)" by simp
  then have "\<not> uint code < 91" using assms(4) by linarith
  then show ?thesis
    using assms(4,5) low_bit7 [of code]
    by (subst kbrd_irq_code [OF assms(1-3)]) (auto simp: kbrd_make_def obj_get_def)
qed

theorem kbrd_irq_unknown_code_witness:
  "kbrd_irq (keyboard_boot\<lparr>inq := (\<lambda>_. [])(0x60 := [0x5B], 0x64 := [1])\<rparr>) = None"
  by (rule kbrd_irq_unknown_code [where code = "0x5B" and st = 1]) simp_all

text \<open>A command to the keyboard waits while the controller reports a full input buffer and is
  then sent, after any finite number of such reports.\<close>

theorem kbrd_enc_send_cmd_ends:
  assumes "inq s 0x64 = busy @ v # rest" and "list_all (\<lambda>b. b AND 2 \<noteq> 0) busy" and "v AND 2 = 0"
  shows "kbrd_enc_send_cmd cmd s = Some (s\<lparr>inq := (inq s)(0x64 := rest), outs := outs s @ [(0x60, cmd)]\<rparr>)"
proof -
  have "(ucast (ucast cmd :: u32) :: u8) = cmd" by (rule bit_word_eqI) (auto simp: bit_simps)
  then show ?thesis
    by (simp add: kbrd_enc_send_cmd_def wait_input_clear_ends [OF assms] outportb_def)
qed

theorem kbrd_enc_send_cmd_ends_witness:
  "let s = keyboard_boot\<lparr>inq := \<lambda>_. [2, 3, 1]\<rparr> in
   kbrd_enc_send_cmd 0xED s = Some (s\<lparr>inq := (inq s)(0x64 := []), outs := outs s @ [(0x60, 0xED)]\<rparr>)"
  unfolding Let_def by (rule kbrd_enc_send_cmd_ends [where busy = "[2, 3]" and v = 1]) simp_all

end
