(* ===== verification/Lib_Text.thy ===== *)
theory Lib_Text
  imports Prelude
begin

unbundle bit_operations_syntax

section \<open>Kernel/lib/string.c, Userland/libc/string.c and the two printf.c\<close>

text \<open>
  The string functions and the formatted output of the kernel and of the C library, which carry
  the same code. A \<open>char *\<close> is the list of the bytes from the pointer to the end of its object;
  \<open>None\<close> is an access outside the object (an unterminated string, a buffer that is too small).
  Formatted output takes the function that writes bytes to the file descriptor as its argument;
  the kernel passes its own \<open>syscall_write\<close>.

  The lemmas give the numbers their digits: \<open>print_to_base\<close> stores the digits of the number, most
  significant first, whenever the buffer has room for them and the terminator, and \<open>s_to_i\<close> and
  \<open>atoi\<close> read a number back.
\<close>

subsection \<open>Strings\<close>

fun strlen :: "u8 list \<Rightarrow> int option" where
  "strlen [] = None"
| "strlen (c # s) = (if c = 0 then Some 0 else map_option (\<lambda>n. n + 1) (strlen s))"

text \<open>The loop of \<open>reverse\<close>, and of the end of \<open>print_to_base\<close>.\<close>

function swap_loop :: "int \<Rightarrow> int \<Rightarrow> u8 list \<Rightarrow> u8 list option" where
  "swap_loop i j s =
     (if i < j then do {
        c \<leftarrow> obj_get s i;
        d \<leftarrow> obj_get s j;
        s \<leftarrow> obj_set s i d;
        s \<leftarrow> obj_set s j c;
        swap_loop (i + 1) (j - 1) s
      }
      else Some s)"
  by pat_completeness auto
termination by (relation "measure (\<lambda>(i, j, s). nat (j - i))") auto

declare swap_loop.simps [simp del]

definition reverse :: "u8 list \<Rightarrow> u8 list option" where
  "reverse s = do {
     n \<leftarrow> strlen s;
     swap_loop 0 (n - 1) s
   }"

text \<open>The digits of \<open>n \<ge> 0\<close> in reverse order, from index \<open>i\<close> on; the next index.\<close>

function itoa_loop :: "int \<Rightarrow> int \<Rightarrow> u8 list \<Rightarrow> (u8 list \<times> int) option" where
  "itoa_loop n i s = do {
     s \<leftarrow> obj_set s i (word_of_int (n mod 10 + 48));
     (if n div 10 > 0 then itoa_loop (n div 10) (i + 1) s else Some (s, i + 1))
   }"
  by pat_completeness auto
termination by (relation "measure (\<lambda>(n, i, s). nat n)") auto

declare itoa_loop.simps [simp del]

text \<open>\<open>-n\<close> is an \<open>int\<close> unless \<open>n\<close> is the smallest one.\<close>

definition itoa :: "int \<Rightarrow> u8 list \<Rightarrow> u8 list option" where
  "itoa n s = do {
     m \<leftarrow> (if n < 0 then (if n = - (2 ^ 31) then None else Some (- n)) else Some n);
     (s, i) \<leftarrow> itoa_loop m 0 s;
     (s, i) \<leftarrow> (if n < 0 then do { s \<leftarrow> obj_set s i 45; Some (s, i + 1) } else Some (s, i));
     s \<leftarrow> obj_set s i 0;
     reverse s
   }"

text \<open>\<open>substr s1 s2\<close>: whether \<open>s1\<close> is a prefix of \<open>s2\<close>.\<close>

fun substr :: "u8 list \<Rightarrow> u8 list \<Rightarrow> bool option" where
  "substr [] s2 = None"
| "substr (c # s1) s2 =
     (if c = 0 then Some True
      else (case s2 of [] \<Rightarrow> None | d # s2' \<Rightarrow> if c \<noteq> d then Some False else substr s1 s2'))"

fun strcmp :: "u8 list \<Rightarrow> u8 list \<Rightarrow> int option" where
  "strcmp (c # s1) (d # s2) =
     (if c \<noteq> 0 \<or> d \<noteq> 0
      then (let ret = chr_int c - chr_int d in if ret = 0 then strcmp s1 s2 else Some ret)
      else Some 0)"
| "strcmp _ _ = None"

text \<open>\<open>strcpy\<close>: the destination object after the copy.\<close>

fun strcpy :: "u8 list \<Rightarrow> u8 list \<Rightarrow> u8 list option" where
  "strcpy (d # dest) (c # src) = (if c = 0 then Some (0 # dest) else map_option (Cons c) (strcpy dest src))"
| "strcpy _ _ = None"

primrec s_to_i_loop :: "u8 list \<Rightarrow> nat \<Rightarrow> u64 \<Rightarrow> u64 \<Rightarrow> u64 option" where
  "s_to_i_loop string 0 resp multiplier = Some resp"
| "s_to_i_loop string (Suc aux) resp multiplier = do {
     c \<leftarrow> obj_get string (int aux);
     (if chr_int c < 48 \<or> chr_int c > 57 then Some (- 1)
      else s_to_i_loop string aux (resp + (scast c - 48) * multiplier) (multiplier * 10))
   }"

definition s_to_i :: "u8 list \<Rightarrow> u64 option" where
  "s_to_i string = do {
     aux \<leftarrow> strlen string;
     (if aux = 0 \<or> aux > 19 then Some (- 1) else s_to_i_loop string (nat aux) 0 1)
   }"

text \<open>Userland/libc/scanf.c: \<open>None\<close> is also the overflow of the \<open>int\<close> accumulator.\<close>

definition int32 :: "int \<Rightarrow> int option" where
  "int32 x = (if - (2 ^ 31) \<le> x \<and> x < 2 ^ 31 then Some x else None)"

fun atoi_loop :: "u8 list \<Rightarrow> int \<Rightarrow> int option" where
  "atoi_loop [] i = None"
| "atoi_loop (c # str) i =
     (if c = 0 then Some i
      else if chr_int c < 48 \<or> chr_int c > 57 then Some i
      else do {
        a \<leftarrow> int32 (i * 10);
        a \<leftarrow> int32 (a + chr_int c);
        a \<leftarrow> int32 (a - 48);
        atoi_loop str a
      })"

definition atoi :: "u8 list \<Rightarrow> int option" where
  "atoi str = atoi_loop str 0"

subsection \<open>Numbers in a base\<close>

definition digit_char :: "u64 \<Rightarrow> u8" where
  "digit_char remainder = ucast (remainder + (if remainder < 10 then 48 else 65 - 10))"

text \<open>
  The digits in reverse order, from index \<open>p\<close> on; the index after them. The divisor is the
  \<open>int base\<close> converted to \<open>uint64_t\<close>.
\<close>

partial_function (option) base_loop :: "u64 \<Rightarrow> u64 \<Rightarrow> u8 list \<Rightarrow> int \<Rightarrow> (u8 list \<times> int) option" where
  "base_loop base value buffer p =
     (if base = 0 then None
      else do {
        buffer \<leftarrow> obj_set buffer p (digit_char (value mod base));
        (if value div base \<noteq> 0 then base_loop base (value div base) buffer (p + 1)
         else Some (buffer, p + 1))
      })"

definition print_to_base :: "u64 \<Rightarrow> u8 list \<Rightarrow> u64 \<Rightarrow> (int \<times> u8 list) option" where
  "print_to_base value buffer base = do {
     (buffer, p) \<leftarrow> base_loop base value buffer 0;
     buffer \<leftarrow> obj_set buffer p 0;
     buffer \<leftarrow> swap_loop 0 (p - 1) buffer;
     Some (p, buffer)
   }"

subsection \<open>Formatted output\<close>

text \<open>
  The variable arguments: a 64-bit value or a pointer to a string. Taking an argument that is not
  there, or one of the other kind, is \<open>None\<close>. \<open>wr bs\<close> is \<open>write(fd, bs, length bs)\<close>.
\<close>

datatype fmt_arg = Arg_num u64 | Arg_str "u8 list"

fun va_num :: "fmt_arg list \<Rightarrow> (u64 \<times> fmt_arg list) option" where
  "va_num (Arg_num n # ap) = Some (n, ap)"
| "va_num _ = None"

fun va_str :: "fmt_arg list \<Rightarrow> (u8 list \<times> fmt_arg list) option" where
  "va_str (Arg_str s # ap) = Some (s, ap)"
| "va_str _ = None"

fun print_str :: "(u8 list \<Rightarrow> 's \<Rightarrow> 's option) \<Rightarrow> u8 list \<Rightarrow> 's \<Rightarrow> (int \<times> 's) option" where
  "print_str wr [] s = None"
| "print_str wr (c # str) s =
     (if c = 0 then Some (0, s)
      else do {
        s \<leftarrow> wr [c] s;
        (count, s) \<leftarrow> print_str wr str s;
        Some (count + 1, s)
      })"

text \<open>\<open>print_dec\<close>, \<open>print_oct\<close>, \<open>print_hex\<close> and \<open>print_bin\<close>: the size of their buffer and the base.\<close>

definition print_based ::
  "nat \<Rightarrow> u64 \<Rightarrow> (u8 list \<Rightarrow> 's \<Rightarrow> 's option) \<Rightarrow> u64 \<Rightarrow> 's \<Rightarrow> (int \<times> 's) option" where
  "print_based sz base wr n s = do {
     (count, buffer) \<leftarrow> print_to_base n (replicate sz 0) base;
     s \<leftarrow> wr (take (nat count) buffer) s;
     Some (count, s)
   }"

definition print_dec where "print_dec wr n s = print_based 40 10 wr n s"
definition print_oct where "print_oct wr n s = print_based 40 8 wr n s"
definition print_hex where "print_hex wr n s = print_based 40 16 wr n s"
definition print_bin where "print_bin wr n s = print_based 64 2 wr n s"

definition print_chr :: "(u8 list \<Rightarrow> 's \<Rightarrow> 's option) \<Rightarrow> u64 \<Rightarrow> 's \<Rightarrow> (int \<times> 's) option" where
  "print_chr wr c s = do {
     s \<leftarrow> wr [ucast (c AND 0xFF)] s;
     Some (1, s)
   }"

definition print_number ::
  "(u8 list \<Rightarrow> 's \<Rightarrow> 's option) \<Rightarrow> fmt_arg list \<Rightarrow> u8 \<Rightarrow> 's \<Rightarrow> (int \<times> fmt_arg list \<times> 's) option"
where
  "print_number wr ap c s =
     (if c = 115 then do {
        (str, ap) \<leftarrow> va_str ap; (written, s) \<leftarrow> print_str wr str s; Some (written, ap, s)
      }
      else if c = 100 then do {
        (n, ap) \<leftarrow> va_num ap; (written, s) \<leftarrow> print_dec wr n s; Some (written, ap, s)
      }
      else if c = 111 then do {
        (n, ap) \<leftarrow> va_num ap; (written, s) \<leftarrow> print_oct wr n s; Some (written, ap, s)
      }
      else if c = 120 then do {
        (n, ap) \<leftarrow> va_num ap; (written, s) \<leftarrow> print_hex wr n s; Some (written, ap, s)
      }
      else if c = 98 then do {
        (n, ap) \<leftarrow> va_num ap; (written, s) \<leftarrow> print_bin wr n s; Some (written, ap, s)
      }
      else if c = 99 then do {
        (n, ap) \<leftarrow> va_num ap; (written, s) \<leftarrow> print_chr wr n s; Some (written, ap, s)
      }
      else do {
        s \<leftarrow> wr [c] s; Some (1, ap, s)
      })"

text \<open>
  The loop over the format string, with the flag \<open>in_fmt\<close>; the conversion function is the
  argument \<open>conv\<close>, as the kernel and the C library differ in it.
\<close>

fun vfprintf_loop ::
  "((u8 list \<Rightarrow> 's \<Rightarrow> 's option) \<Rightarrow> fmt_arg list \<Rightarrow> u8 \<Rightarrow> 's \<Rightarrow> (int \<times> fmt_arg list \<times> 's) option) \<Rightarrow>
   (u8 list \<Rightarrow> 's \<Rightarrow> 's option) \<Rightarrow> u8 list \<Rightarrow> bool \<Rightarrow> fmt_arg list \<Rightarrow> 's \<Rightarrow> (int \<times> 's) option"
where
  "vfprintf_loop conv wr [] in_fmt ap s = None"
| "vfprintf_loop conv wr (c # ptr) in_fmt ap s =
     (if c = 0 then Some (0, s)
      else if in_fmt \<and> c = 37 then do {
        s \<leftarrow> wr [c] s;
        (written, s) \<leftarrow> vfprintf_loop conv wr ptr False ap s;
        Some (written + 1, s)
      }
      else if in_fmt then do {
        (n, ap, s) \<leftarrow> conv wr ap c s;
        (written, s) \<leftarrow> vfprintf_loop conv wr ptr False ap s;
        Some (written + n, s)
      }
      else if c = 37 then vfprintf_loop conv wr ptr True ap s
      else do {
        s \<leftarrow> wr [c] s;
        (written, s) \<leftarrow> vfprintf_loop conv wr ptr False ap s;
        Some (written + 1, s)
      })"

definition vfprintf where
  "vfprintf wr fmt ap s = vfprintf_loop print_number wr fmt False ap s"

text \<open>Userland/libc/printf.c: no \<open>%b\<close>, and larger buffers.\<close>

definition libc_print_dec where "libc_print_dec wr n s = print_based 128 10 wr n s"
definition libc_print_oct where "libc_print_oct wr n s = print_based 128 8 wr n s"
definition libc_print_hex where "libc_print_hex wr n s = print_based 128 16 wr n s"

definition libc_print_number ::
  "(u8 list \<Rightarrow> 's \<Rightarrow> 's option) \<Rightarrow> fmt_arg list \<Rightarrow> u8 \<Rightarrow> 's \<Rightarrow> (int \<times> fmt_arg list \<times> 's) option"
where
  "libc_print_number wr ap c s =
     (if c = 115 then do {
        (str, ap) \<leftarrow> va_str ap; (written, s) \<leftarrow> print_str wr str s; Some (written, ap, s)
      }
      else if c = 100 then do {
        (n, ap) \<leftarrow> va_num ap; (written, s) \<leftarrow> libc_print_dec wr n s; Some (written, ap, s)
      }
      else if c = 111 then do {
        (n, ap) \<leftarrow> va_num ap; (written, s) \<leftarrow> libc_print_oct wr n s; Some (written, ap, s)
      }
      else if c = 120 then do {
        (n, ap) \<leftarrow> va_num ap; (written, s) \<leftarrow> libc_print_hex wr n s; Some (written, ap, s)
      }
      else if c = 99 then do {
        (n, ap) \<leftarrow> va_num ap; (written, s) \<leftarrow> print_chr wr n s; Some (written, ap, s)
      }
      else do {
        s \<leftarrow> wr [c] s; Some (1, ap, s)
      })"

definition libc_vfprintf where
  "libc_vfprintf wr fmt ap s = vfprintf_loop libc_print_number wr fmt False ap s"

subsection \<open>Strings as their bytes before the terminator\<close>

text \<open>A string object: a terminator is in it.\<close>

lemma string_obj: "0 \<in> set s \<longleftrightarrow> (\<exists>r. s = cstr s @ 0 # r)"
  using cstr_split by (metis in_set_conv_decomp)

lemma cstr_no_zero: "0 \<notin> set (cstr s)"
  by (auto simp: cstr_def dest: set_takeWhileD)

lemma strlen_append: "0 \<notin> set s \<Longrightarrow> strlen (s @ 0 # r) = Some (int (length s))"
  by (induction s) auto

lemma strlen_None: "0 \<notin> set s \<Longrightarrow> strlen s = None"
  by (induction s) auto

lemma strlen_eq: "strlen s = (if 0 \<in> set s then Some (int (length (cstr s))) else None)"
proof (cases "0 \<in> set s")
  case True
  then obtain r where "s = cstr s @ 0 # r" using string_obj by blast
  then have "strlen s = strlen (cstr s @ 0 # r)" by simp
  then show ?thesis using strlen_append [OF cstr_no_zero] True by simp
qed (simp add: strlen_None)

lemma strcmp_append:
  "0 \<notin> set a \<Longrightarrow> 0 \<notin> set b \<Longrightarrow>
   \<exists>k. strcmp (a @ 0 # r) (b @ 0 # q) = Some k \<and> (k = 0 \<longleftrightarrow> a = b)"
proof (induction a arbitrary: b)
  case Nil
  then show ?case by (cases b) auto
next
  case (Cons x a)
  then show ?case by (cases b) (auto simp: Let_def)
qed

lemma substr_append:
  "0 \<notin> set a \<Longrightarrow> 0 \<notin> set b \<Longrightarrow> substr (a @ 0 # r) (b @ 0 # q) = Some (take (length a) b = a)"
proof (induction a arbitrary: b)
  case (Cons x a)
  then show ?case by (cases b) auto
qed auto

lemma strcpy_append:
  "0 \<notin> set a \<Longrightarrow> length a < length d \<Longrightarrow>
   strcpy d (a @ 0 # r) = Some (a @ 0 # drop (Suc (length a)) d)"
proof (induction a arbitrary: d)
  case Nil
  then show ?case by (cases d) auto
next
  case (Cons x a)
  then show ?case by (cases d) auto
qed

lemma strcpy_short:
  "0 \<notin> set a \<Longrightarrow> length d \<le> length a \<Longrightarrow> strcpy d (a @ 0 # r) = None"
proof (induction a arbitrary: d)
  case (Cons x a)
  then show ?case by (cases d) auto
qed simp

subsection \<open>Reversing in place\<close>

lemma swap_loop_append:
  "swap_loop (int (length pre)) (int (length pre + length xs) - 1) (pre @ xs @ post)
     = Some (pre @ rev xs @ post)"
proof (induction "length xs" arbitrary: pre xs post rule: less_induct)
  case less
  show ?case
  proof (cases "length xs \<le> 1")
    case True
    then have "rev xs = xs" by (cases xs) auto
    then show ?thesis using True by (simp add: swap_loop.simps)
  next
    case False
    then obtain x xs' where x: "xs = x # xs'" "xs' \<noteq> []" by (cases xs) auto
    obtain ys y where y: "xs' = ys @ [y]" using x(2) by (cases xs' rule: rev_cases) auto
    note xs = x(1) [unfolded y]
    let ?i = "int (length pre)"
    have "swap_loop (int (length (pre @ [y]))) (int (length (pre @ [y]) + length ys) - 1)
        ((pre @ [y]) @ ys @ [x] @ post) = Some ((pre @ [y]) @ rev ys @ [x] @ post)"
      by (rule less) (simp add: xs)
    then have IH: "swap_loop (?i + 1) (?i + int (length ys)) (pre @ y # ys @ x # post)
        = Some (pre @ y # rev ys @ x # post)"
      by (simp add: algebra_simps)
    let ?s = "pre @ x # ys @ y # post"
    have gi: "obj_get ?s ?i = Some x" by (simp add: obj_get_def nth_append)
    have j: "?i + int (length ys) + 1 = int (length pre + Suc (length ys))" by simp
    have gj: "obj_get ?s (?i + int (length ys) + 1) = Some y"
      unfolding j by (subst obj_get_nat) (simp_all add: nth_append)
    have si: "obj_set ?s ?i y = Some (pre @ y # ys @ y # post)"
      by (simp add: obj_set_def list_update_append)
    have sj: "obj_set (pre @ y # ys @ y # post) (?i + int (length ys) + 1) x
        = Some (pre @ y # ys @ x # post)"
      unfolding j by (subst obj_set_nat) (simp_all add: list_update_append)
    have "swap_loop ?i (?i + int (length ys) + 1) ?s
        = swap_loop (?i + 1) (?i + int (length ys)) (pre @ y # ys @ x # post)"
      by (subst swap_loop.simps) (simp add: gi gj si sj)
    then show ?thesis using IH by (simp add: xs algebra_simps)
  qed
qed

lemma swap_loop_prefix: "swap_loop 0 (int (length xs) - 1) (xs @ post) = Some (rev xs @ post)"
  using swap_loop_append [of "[]" xs post] by simp

lemma reverse_append: "0 \<notin> set s \<Longrightarrow> reverse (s @ 0 # r) = Some (rev s @ 0 # r)"
  using swap_loop_prefix [of s "0 # r"] by (simp add: reverse_def strlen_append)

subsection \<open>Digits\<close>

text \<open>The digits of a number, least significant first, and the number of a digit list.\<close>

fun digits :: "nat \<Rightarrow> nat \<Rightarrow> nat list" where
  "digits b n = (if b < 2 \<or> n < b then [n] else n mod b # digits b (n div b))"

declare digits.simps [simp del]

definition undigits :: "nat \<Rightarrow> nat list \<Rightarrow> nat" where
  "undigits b ds = foldr (\<lambda>d n. n * b + d) ds 0"

lemma digits_nonempty [simp]: "digits b n \<noteq> []"
  by (subst digits.simps) simp

lemma undigits_digits: "undigits b (digits b n) = n"
  by (induction b n rule: digits.induct)
    (subst digits.simps, auto simp: undigits_def)

lemma digits_less: "2 \<le> b \<Longrightarrow> d \<in> set (digits b n) \<Longrightarrow> d < b"
proof (induction b n rule: digits.induct)
  case (1 b n)
  then show ?case by (subst (asm) (2) digits.simps) (auto split: if_splits)
qed

lemma length_digits_le: "2 \<le> b \<Longrightarrow> length (digits b n) \<le> Suc k \<longleftrightarrow> n < b ^ Suc k"
proof (induction b n arbitrary: k rule: digits.induct)
  case (1 b n)
  show ?case
  proof (cases "n < b")
    case True
    have "b * 1 \<le> b * b ^ k" by (rule mult_le_mono2) (use 1(2) in simp)
    with True have "n < b ^ Suc k" by (simp only: power_Suc mult_1_right)
    then show ?thesis using True by (subst digits.simps) simp
  next
    case False
    then have d: "digits b n = n mod b # digits b (n div b)" using 1(2) by (subst digits.simps) simp
    show ?thesis
    proof (cases k)
      case 0
      then show ?thesis using False by (simp add: d)
    next
      case (Suc j)
      have "length (digits b (n div b)) \<le> Suc j \<longleftrightarrow> n div b < b ^ Suc j"
        using 1(1) [of j] 1(2) False by simp
      also have "\<dots> \<longleftrightarrow> n < b ^ Suc k"
        using 1(2) by (simp add: Suc div_less_iff_less_mult mult.commute mult.left_commute)
      finally show ?thesis by (simp add: d Suc)
    qed
  qed
qed

definition digit_byte :: "nat \<Rightarrow> u8" where
  "digit_byte d = of_nat (if d < 10 then 48 + d else 55 + d)"

lemma digit_char_of_nat: "d < 16 \<Longrightarrow> digit_char (of_nat d) = digit_byte d"
proof -
  assume d: "d < 16"
  then have u: "unat (of_nat d :: u64) = d" by (intro unat_of_nat_small) simp
  then have lt: "(of_nat d :: u64) < 10 \<longleftrightarrow> d < 10" by (simp add: word_less_nat_alt)
  have "ucast (of_nat d + of_nat k :: u64) = (of_nat (d + k) :: u8)" if "k < 100" for k
  proof -
    have "take_bit 64 (d + k) = d + k" using d that by (intro take_bit_nat_eq_self) simp
    then show ?thesis by (simp add: unsigned_of_nat flip: of_nat_add)
  qed
  from this [of 48] this [of 55] show ?thesis
    by (simp add: digit_char_def digit_byte_def lt add.commute)
qed

lemma digit_byte_ascii:
  assumes "d < 10" shows "digit_byte d \<noteq> 0" "chr_int (digit_byte d) = int d + 48"
proof -
  have "sint (of_nat (48 + d) :: u8) = int (48 + d)" using assms by (intro sint_of_nat_small) simp
  then show i: "chr_int (digit_byte d) = int d + 48" using assms by (simp add: chr_int_def digit_byte_def)
  show "digit_byte d \<noteq> 0"
  proof
    assume "digit_byte d = 0"
    with i show False by (simp add: chr_int_def)
  qed
qed

text \<open>What \<open>print_to_base\<close> prints: the digits of the number, most significant first.\<close>

definition numeral_in :: "nat \<Rightarrow> nat \<Rightarrow> u8 list" where
  "numeral_in b n = rev (map digit_byte (digits b n))"

lemma length_numeral [simp]: "length (numeral_in b n) = length (digits b n)"
  by (simp add: numeral_in_def)

lemma word_divmod_base:
  assumes "2 \<le> b" and "b \<le> 16"
  shows "(v :: u64) mod of_nat b = of_nat (unat v mod b)" "unat (v div of_nat b) = unat v div b"
    "v div of_nat b = 0 \<longleftrightarrow> unat v < b"
proof -
  have b: "unat (of_nat b :: u64) = b" using assms by (intro unat_of_nat_small) simp
  show "v mod of_nat b = of_nat (unat v mod b)"
    using word_arith_nat_mod [of v "of_nat b"] by (simp only: b)
  show d: "unat (v div of_nat b) = unat v div b"
    using unat_div_distrib [of v "of_nat b"] by (simp only: b)
  have "v div of_nat b = 0 \<longleftrightarrow> unat v div b = 0" using d unat_eq_zero [of "v div of_nat b"] by simp
  then show "v div of_nat b = 0 \<longleftrightarrow> unat v < b" using assms(1) by (simp add: div_eq_0_iff)
qed

lemma word_base_nonzero:
  assumes "2 \<le> b" and "b \<le> 16" shows "(of_nat b :: u64) \<noteq> 0"
proof
  have "unat (of_nat b :: u64) = b" using assms by (intro unat_of_nat_small) simp
  moreover assume "(of_nat b :: u64) = 0"
  ultimately show False using assms(1) by simp
qed

lemma digits_cases:
  assumes "2 \<le> b"
  shows "digits b n = n mod b # (if n < b then [] else digits b (n div b))"
  using assms by (subst digits.simps) simp

lemma base_loop_digits:
  assumes b: "2 \<le> b" "b \<le> 16"
  shows "length mid = length (digits b (unat v)) \<Longrightarrow>
    base_loop (of_nat b) v (pre @ mid @ post) (int (length pre)) =
      Some (pre @ map digit_byte (digits b (unat v)) @ post, int (length pre + length mid))"
proof (induction "unat v" arbitrary: v pre mid rule: less_induct)
  case less
  note w = word_divmod_base [OF b, of v]
  have "unat v mod b < 16" using b by (intro less_le_trans [OF mod_less_divisor]) simp_all
  then have ch: "digit_char (v mod of_nat b) = digit_byte (unat v mod b)"
    by (simp only: w(1) digit_char_of_nat)
  obtain x mid' where mid: "mid = x # mid'"
    using less.prems by (cases mid) simp_all
  have set: "obj_set (pre @ x # ys) (int (length pre)) c = Some (pre @ c # ys)" for c ys
    by (simp add: obj_set_def list_update_append)
  show ?case
  proof (cases "unat v < b")
    case True
    then have "mid' = []" using less.prems b(1) by (simp add: mid digits_cases)
    then show ?thesis
      using True b(1) word_base_nonzero [OF b]
      by (subst base_loop.simps) (simp add: w(3) set ch digits_cases mid)
  next
    case False
    let ?c = "digit_byte (unat v mod b)"
    have "unat v div b < unat v" using False b(1) by (intro div_less_dividend) simp_all
    then have "base_loop (of_nat b) (v div of_nat b) ((pre @ [?c]) @ mid' @ post)
        (int (length (pre @ [?c]))) = Some ((pre @ [?c]) @ map digit_byte (digits b (unat v div b)) @ post,
          int (length (pre @ [?c]) + length mid'))"
      using less.hyps [of "v div of_nat b" mid' "pre @ [?c]"] less.prems False b(1)
      by (simp add: w(2) mid digits_cases [OF b(1), of "unat v"])
    then have IH: "base_loop (of_nat b) (v div of_nat b) (pre @ ?c # mid' @ post) (int (length pre) + 1)
        = Some (pre @ ?c # map digit_byte (digits b (unat v div b)) @ post,
            int (length pre) + int (length mid') + 1)"
      by (simp add: add.commute)
    show ?thesis
      using False IH w(3) word_base_nonzero [OF b]
      by (subst base_loop.simps) (simp add: set ch digits_cases [OF b(1), of "unat v"] mid)
  qed
qed

lemma base_loop_short:
  assumes b: "2 \<le> b" "b \<le> 16"
  shows "p \<le> length buffer \<Longrightarrow> length buffer < p + length (digits b (unat v)) \<Longrightarrow>
    base_loop (of_nat b) v buffer (int p) = None"
proof (induction "unat v" arbitrary: v p buffer rule: less_induct)
  case less
  note w = word_divmod_base [OF b, of v]
  show ?case
  proof (cases "p < length buffer")
    case False
    then show ?thesis using less.prems by (subst base_loop.simps) (simp add: obj_set_out)
  next
    case True
    then have big: "\<not> unat v < b" using less.prems(2) b(1) by (auto simp: digits_cases)
    then have "unat v div b < unat v" using b(1) by (intro div_less_dividend) simp_all
    then have IH: "base_loop (of_nat b) (v div of_nat b) (buffer[p := c]) (int (Suc p)) = None" for c
      using less.hyps [of "v div of_nat b" "Suc p" "buffer[p := c]"] less.prems(2) True big b(1)
      by (simp add: w(2) digits_cases [OF b(1), of "unat v"])
    then show ?thesis
      using True big w(3) word_base_nonzero [OF b] by (subst base_loop.simps) (simp add: obj_set_nat add.commute)
  qed
qed

lemma print_to_base_room:
  assumes b: "2 \<le> b" "b \<le> 16" and len: "length (digits b (unat v)) < length buffer"
  shows "print_to_base v buffer (of_nat b) = Some (int (length (digits b (unat v))),
    numeral_in b (unat v) @ 0 # drop (Suc (length (digits b (unat v)))) buffer)"
proof -
  let ?n = "length (digits b (unat v))" and ?ds = "map digit_byte (digits b (unat v))"
  have split: "buffer = take ?n buffer @ drop ?n buffer" by simp
  have "base_loop (of_nat b) v ([] @ take ?n buffer @ drop ?n buffer) (int (length ([] :: u8 list)))
      = Some ([] @ ?ds @ drop ?n buffer, int (length ([] :: u8 list) + length (take ?n buffer)))"
    by (rule base_loop_digits [OF b]) (use len in simp)
  then have loop: "base_loop (of_nat b) v buffer 0 = Some (?ds @ drop ?n buffer, int ?n)"
    using len by simp
  have "drop ?n buffer = buffer ! ?n # drop (Suc ?n) buffer" using len by (rule Cons_nth_drop_Suc [symmetric])
  then have "obj_set (?ds @ drop ?n buffer) (int ?n) 0 = Some (?ds @ 0 # drop (Suc ?n) buffer)"
    by (simp add: obj_set_def list_update_append)
  moreover have "swap_loop 0 (int ?n - 1) (?ds @ 0 # drop (Suc ?n) buffer)
      = Some (numeral_in b (unat v) @ 0 # drop (Suc ?n) buffer)"
    using swap_loop_prefix [of ?ds] by (simp add: numeral_in_def)
  ultimately show ?thesis by (simp add: print_to_base_def loop)
qed

lemma print_to_base_short:
  assumes b: "2 \<le> b" "b \<le> 16" and len: "length buffer \<le> length (digits b (unat v))"
  shows "print_to_base v buffer (of_nat b) = None"
proof (cases "length buffer < length (digits b (unat v))")
  case True
  then show ?thesis using base_loop_short [OF b, of 0 buffer v] by (simp add: print_to_base_def)
next
  case False
  with len have eq: "length buffer = length (digits b (unat v))" by simp
  have "base_loop (of_nat b) v ([] @ buffer @ []) (int (length ([] :: u8 list)))
      = Some ([] @ map digit_byte (digits b (unat v)) @ [], int (length ([] :: u8 list) + length buffer))"
    by (rule base_loop_digits [OF b eq])
  then show ?thesis by (simp add: print_to_base_def eq obj_set_out)
qed

lemma print_based_eq:
  assumes "2 \<le> b" and "b \<le> 16"
  shows "print_based k (of_nat b) wr v s =
    (if length (digits b (unat v)) < k
     then map_option (Pair (int (length (digits b (unat v))))) (wr (numeral_in b (unat v)) s)
     else None)"
  using print_to_base_room [OF assms, of v "replicate k 0"]
    print_to_base_short [OF assms, of "replicate k 0" v]
  by (auto simp: print_based_def map_option_case split: option.split)

lemma digits_bound:
  assumes "2 \<le> b" and "unat (v :: u64) < b ^ k" and "0 < k" shows "length (digits b (unat v)) \<le> k"
  using length_digits_le [of b "unat v" "k - 1"] assms by (cases k) simp_all

text \<open>The four conversions: every 64-bit number fits, but for the binary ones from 2^63 on.\<close>

lemma print_dec_eq: "print_dec wr v s =
  map_option (Pair (int (length (digits 10 (unat v))))) (wr (numeral_in 10 (unat v)) s)"
  using print_based_eq [of 10 40 wr v s] digits_bound [of 10 v 20] unat_lt64 [of v]
  by (simp add: print_dec_def)

lemma print_oct_eq: "print_oct wr v s =
  map_option (Pair (int (length (digits 8 (unat v))))) (wr (numeral_in 8 (unat v)) s)"
  using print_based_eq [of 8 40 wr v s] digits_bound [of 8 v 22] unat_lt64 [of v]
  by (simp add: print_oct_def)

lemma print_hex_eq: "print_hex wr v s =
  map_option (Pair (int (length (digits 16 (unat v))))) (wr (numeral_in 16 (unat v)) s)"
  using print_based_eq [of 16 40 wr v s] digits_bound [of 16 v 16] unat_lt64 [of v]
  by (simp add: print_hex_def)

lemma print_bin_eq: "print_bin wr v s =
  (if unat v < 2 ^ 63
   then map_option (Pair (int (length (digits 2 (unat v))))) (wr (numeral_in 2 (unat v)) s)
   else None)"
  using print_based_eq [of 2 64 wr v s] length_digits_le [of 2 "unat v" 62]
  by (auto simp: print_bin_def)

subsection \<open>Reading a number back\<close>

lemma digits10: "d \<in> set (digits 10 n) \<Longrightarrow> d < 10"
  by (rule digits_less) simp_all

lemma numeral_no_zero: "0 \<notin> set (numeral_in 10 n)"
  using digit_byte_ascii(1) digits10 by (force simp: numeral_in_def)

lemma undigits_simps [simp]:
  "undigits b [] = 0" "undigits b (d # ds) = undigits b ds * b + d"
  by (simp_all add: undigits_def)

lemma s_to_i_loop_digits:
  "(\<And>d. d \<in> set ds \<Longrightarrow> d < 10) \<Longrightarrow>
   s_to_i_loop (rev (map digit_byte ds) @ q) (length ds) resp multiplier =
     Some (resp + multiplier * of_nat (undigits 10 ds))"
proof (induction ds arbitrary: q resp multiplier)
  case (Cons d ds)
  let ?s = "rev (map digit_byte ds) @ digit_byte d # q"
  have d: "d < 10" using Cons.prems [of d] by simp
  have get: "obj_get ?s (int (length ds)) = Some (digit_byte d)"
    by (simp add: obj_get_def nth_append)
  have "scast (digit_byte d) = (of_int (chr_int (digit_byte d)) :: u64)"
    by (simp add: chr_int_def)
  then have v: "scast (digit_byte d) - 48 = (of_nat d :: u64)"
    by (simp add: digit_byte_ascii [OF d])
  have "s_to_i_loop ?s (length ds) (resp + of_nat d * multiplier) (multiplier * 10)
      = Some (resp + of_nat d * multiplier + multiplier * 10 * of_nat (undigits 10 ds))"
    by (rule Cons.IH) (simp add: Cons.prems)
  then show ?case
    using d by (simp add: get v digit_byte_ascii [OF d] algebra_simps)
qed simp

lemma s_to_i_numeral:
  "s_to_i (numeral_in 10 n @ 0 # r) = Some (if n < 10 ^ 19 then of_nat n else - 1)"
proof -
  have len: "length (digits 10 n) \<le> 19 \<longleftrightarrow> n < 10 ^ 19"
    using length_digits_le [of 10 n 18] by simp
  have "s_to_i_loop (numeral_in 10 n @ 0 # r) (length (digits 10 n)) 0 1 = Some (of_nat n)"
    using s_to_i_loop_digits [of "digits 10 n" "0 # r" 0 1] digits10
    by (simp add: numeral_in_def undigits_digits)
  then show ?thesis
    using len by (auto simp: s_to_i_def strlen_append numeral_no_zero)
qed

lemma atoi_loop_digit:
  assumes "d < 10" and "j * 10 + d + 48 < 2 ^ 31"
  shows "atoi_loop (digit_byte d # q) (int j) = atoi_loop q (int (j * 10 + d))"
proof -
  have "int (j * 10 + d + 48) < int (2 ^ 31)" using assms(2) by (simp only: of_nat_less_iff)
  then show ?thesis using assms(1) by (simp add: digit_byte_ascii [OF assms(1)] int32_def)
qed

lemma atoi_loop_digits:
  "(\<And>d. d \<in> set ds \<Longrightarrow> d < 10) \<Longrightarrow> i * 10 ^ length ds + undigits 10 ds + 48 < 2 ^ 31 \<Longrightarrow>
   atoi_loop (rev (map digit_byte ds) @ q) (int i) =
     atoi_loop q (int (i * 10 ^ length ds + undigits 10 ds))"
proof (induction ds arbitrary: q)
  case (Cons d ds)
  let ?j = "i * 10 ^ length ds + undigits 10 ds"
  have d: "d < 10" using Cons.prems(1) [of d] by simp
  have eq: "i * 10 ^ length (d # ds) + undigits 10 (d # ds) = ?j * 10 + d" by (simp add: algebra_simps)
  have bound: "?j * 10 + d + 48 < 2 ^ 31" using Cons.prems(2) by (simp only: eq)
  have "atoi_loop (rev (map digit_byte ds) @ digit_byte d # q) (int i)
      = atoi_loop (digit_byte d # q) (int ?j)"
    by (rule Cons.IH) (use Cons.prems(1) bound in auto)
  also have "\<dots> = atoi_loop q (int (?j * 10 + d))"
    by (rule atoi_loop_digit [OF d bound])
  finally show ?case by (simp only: eq) simp
qed simp

lemma atoi_numeral:
  assumes "n + 48 < 2 ^ 31"
  shows "atoi (numeral_in 10 n @ 0 # r) = Some (int n)"
  using atoi_loop_digits [of "digits 10 n" 0 "0 # r"] assms digits10
  by (simp add: atoi_def numeral_in_def undigits_digits)

lemma itoa_loop_digits:
  "length mid = length (digits 10 n) \<Longrightarrow>
    itoa_loop (int n) (int (length pre)) (pre @ mid @ post) =
      Some (pre @ map digit_byte (digits 10 n) @ post, int (length pre + length mid))"
proof (induction n arbitrary: pre mid rule: less_induct)
  case (less n)
  have db: "word_of_int (int n mod 10 + 48) = digit_byte (n mod 10)"
  proof -
    have "word_of_int (int (n mod 10 + 48)) = (of_nat (n mod 10 + 48) :: u8)" by (simp only: of_int_of_nat_eq)
    then show ?thesis by (simp add: digit_byte_def zmod_int add.commute)
  qed
  obtain x mid' where mid: "mid = x # mid'"
    using less.prems by (cases mid) simp_all
  have set: "obj_set (pre @ x # ys) (int (length pre)) c = Some (pre @ c # ys)" for c ys
    by (simp add: obj_set_def list_update_append)
  show ?case
  proof (cases "n < 10")
    case True
    then have "mid' = []" using less.prems by (simp add: mid digits_cases)
    then show ?thesis
      using True db by (subst itoa_loop.simps) (simp add: set digits_cases mid)
  next
    case False
    let ?c = "digit_byte (n mod 10)"
    have "itoa_loop (int (n div 10)) (int (length (pre @ [?c]))) ((pre @ [?c]) @ mid' @ post) =
        Some ((pre @ [?c]) @ map digit_byte (digits 10 (n div 10)) @ post,
          int (length (pre @ [?c]) + length mid'))"
      by (rule less.IH) (use False less.prems in \<open>simp_all add: mid digits_cases [of 10 n]\<close>)
    then have IH: "itoa_loop (int n div 10) (int (length pre) + 1) (pre @ ?c # mid' @ post)
        = Some (pre @ ?c # map digit_byte (digits 10 (n div 10)) @ post,
            int (length pre) + int (length mid') + 1)"
      by (simp add: add.commute zdiv_int)
    moreover have "0 < int n div 10" using False by presburger
    ultimately show ?thesis
      using False db by (subst itoa_loop.simps) (simp add: set digits_cases [of 10 n] mid)
  qed
qed

definition itoa_text :: "int \<Rightarrow> u8 list" where
  "itoa_text n = (if n < 0 then 45 # numeral_in 10 (nat (- n)) else numeral_in 10 (nat n))"

lemma itoa_writes:
  assumes n: "- (2 ^ 31) < n" "n < 2 ^ 31" and len: "length (itoa_text n) < length s"
  shows "itoa n s = Some (itoa_text n @ 0 # drop (Suc (length (itoa_text n))) s)"
proof -
  let ?m = "nat \<bar>n\<bar>"
  let ?k = "length (digits 10 ?m)" and ?ds = "map digit_byte (digits 10 ?m)"
  have k: "?k < length s" using len by (auto simp: itoa_text_def split: if_splits)
  have "itoa_loop (int ?m) (int (length ([] :: u8 list))) ([] @ take ?k s @ drop ?k s) =
      Some ([] @ ?ds @ drop ?k s, int (length ([] :: u8 list) + length (take ?k s)))"
    by (rule itoa_loop_digits) (use k in simp)
  then have loop: "itoa_loop (int ?m) 0 s = Some (?ds @ drop ?k s, int ?k)" using k by simp
  have zero: "0 \<notin> set ?ds"
    using numeral_no_zero [of ?m] by (simp add: numeral_in_def)
  have drop: "(drop i s)[0 := x] = x # drop (Suc i) s" if "i < length s" for i x
    using Cons_nth_drop_Suc [OF that] by (metis list_update_code(2))
  have drop': "(drop i s)[0 := x, Suc 0 := y] = x # y # drop (Suc (Suc i)) s" if "Suc i < length s" for i x y
    using that by (simp add: drop)
  show ?thesis
  proof (cases "n < 0")
    case False
    then have "itoa_loop n 0 s = Some (map digit_byte (digits 10 (nat n)) @ drop ?k s, int ?k)"
      using loop by simp
    then show ?thesis
      using False k zero reverse_append [of ?ds "drop (Suc ?k) s"]
      by (simp add: itoa_def drop obj_set_def list_update_append itoa_text_def numeral_in_def)
  next
    case True
    then have k2: "Suc ?k < length s" using len by (simp add: itoa_text_def)
    have "reverse ((?ds @ [45]) @ 0 # drop (Suc (Suc ?k)) s) =
        Some (rev (?ds @ [45]) @ 0 # drop (Suc (Suc ?k)) s)"
      by (rule reverse_append) (use zero in simp)
    moreover have "itoa_loop (- n) 0 s = Some (map digit_byte (digits 10 (nat (- n))) @ drop ?k s, int ?k)"
      using loop True by simp
    ultimately show ?thesis
      using True k k2 n
      by (simp add: itoa_def drop drop' nat_add_distrib obj_set_def list_update_append
          itoa_text_def numeral_in_def)
  qed
qed

subsection \<open>Formats\<close>

text \<open>Writing the characters one at a time.\<close>

fun wr_each :: "(u8 list \<Rightarrow> 's \<Rightarrow> 's option) \<Rightarrow> u8 list \<Rightarrow> 's \<Rightarrow> 's option" where
  "wr_each wr [] s = Some s"
| "wr_each wr (c # cs) s = Option.bind (wr [c] s) (wr_each wr cs)"

lemma print_str_each:
  "0 \<notin> set str \<Longrightarrow>
   print_str wr (str @ 0 # r) s = map_option (Pair (int (length str))) (wr_each wr str s)"
proof (induction str arbitrary: s)
  case (Cons c str)
  then show ?case
    by (cases "wr [c] s") (auto simp: map_option_case split: option.splits)
qed simp

lemma vfprintf_loop_plain:
  "0 \<notin> set str \<Longrightarrow> 37 \<notin> set str \<Longrightarrow>
   vfprintf_loop conv wr (str @ fmt) False ap s =
     Option.bind (wr_each wr str s) (\<lambda>s.
       map_option (\<lambda>(n, s). (int (length str) + n, s)) (vfprintf_loop conv wr fmt False ap s))"
proof (induction str arbitrary: s)
  case Nil
  then show ?case by (simp add: option.map_id0 [unfolded id_def] prod.case_eq_if option.map_ident)
next
  case (Cons c str)
  then show ?case
    by (cases "wr [c] s")
      (auto simp: map_option_case bind_eq_None_conv split: option.splits bind_splits)
qed

text \<open>The formats whose arguments are there, of the right kind, and in the range of \<open>%b\<close>.\<close>

fun fmt_ok :: "u8 list \<Rightarrow> bool \<Rightarrow> fmt_arg list \<Rightarrow> bool" where
  "fmt_ok [] in_fmt ap = False"
| "fmt_ok (c # ptr) in_fmt ap =
     (if c = 0 then True
      else if in_fmt \<and> c = 37 then fmt_ok ptr False ap
      else if in_fmt then
        (if c = 115 then (case ap of Arg_str str # ap \<Rightarrow> 0 \<in> set str \<and> fmt_ok ptr False ap | _ \<Rightarrow> False)
         else if c = 98 then (case ap of Arg_num v # ap \<Rightarrow> unat v < 2 ^ 63 \<and> fmt_ok ptr False ap | _ \<Rightarrow> False)
         else if c \<in> {100, 111, 120, 99} then (case ap of Arg_num v # ap \<Rightarrow> fmt_ok ptr False ap | _ \<Rightarrow> False)
         else fmt_ok ptr False ap)
      else fmt_ok ptr (c = 37) ap)"

text \<open>
  The interface of a byte sink: on a good state a write ends in a good state that is related to the
  one before. Formatted output on it then ends, related in the same way.
\<close>

locale byte_sink =
  fixes wr :: "u8 list \<Rightarrow> 's \<Rightarrow> 's option" and good :: "'s \<Rightarrow> bool" and rel :: "'s \<Rightarrow> 's \<Rightarrow> bool"
  assumes wr_rel: "good s \<Longrightarrow> \<exists>s'. wr bs s = Some s' \<and> good s' \<and> rel s s'"
    and rel_refl: "good s \<Longrightarrow> rel s s"
    and rel_trans: "rel s t \<Longrightarrow> rel t u \<Longrightarrow> rel s u"
begin

lemma wr_then:
  assumes "good s" and "\<And>s'. good s' \<Longrightarrow> \<exists>n t. f s' = Some (n, t) \<and> good t \<and> rel s' t"
  shows "\<exists>n t. do { s \<leftarrow> wr bs s; (n, s) \<leftarrow> f s; Some (n + k, s) } = Some (n, t) \<and> good t \<and> rel s t"
proof -
  obtain s' where s': "wr bs s = Some s'" "good s'" "rel s s'" using wr_rel [OF assms(1)] by blast
  obtain n t where "f s' = Some (n, t)" "good t" "rel s' t" using assms(2) [OF s'(2)] by blast
  then show ?thesis using s' rel_trans by auto
qed

lemma print_str_sink:
  "0 \<in> set str \<Longrightarrow> good s \<Longrightarrow> \<exists>n t. print_str wr str s = Some (n, t) \<and> good t \<and> rel s t"
proof (induction str arbitrary: s)
  case (Cons c str)
  show ?case
  proof (cases "c = 0")
    case True
    then show ?thesis using Cons.prems rel_refl by simp
  next
    case False
    then show ?thesis using wr_then [of s "print_str wr str" "[c]" 1] Cons by simp
  qed
qed simp

lemma print_number_sink:
  assumes "good s" and "fmt_ok (c # ptr) True ap" and "c \<noteq> 0" "c \<noteq> 37"
  shows "\<exists>n ap' t. print_number wr ap c s = Some (n, ap', t) \<and> fmt_ok ptr False ap' \<and> good t \<and> rel s t"
proof -
  have w: "\<exists>t. wr bs s = Some t \<and> good t \<and> rel s t" for bs by (rule wr_rel [OF assms(1)])
  show ?thesis
  proof (cases "c \<in> {115, 100, 111, 120, 98, 99}")
    case False
    then show ?thesis using w [of "[c]"] assms(2-4) by (auto simp: print_number_def)
  next
    case True
    show ?thesis
    proof (cases ap)
      case Nil
      then show ?thesis using True assms(2) by auto
    next
      case (Cons a ap')
      show ?thesis
      proof (cases a)
        case (Arg_str str)
        then have "c = 115" "0 \<in> set str" "fmt_ok ptr False ap'" using True assms(2) Cons by auto
        then show ?thesis
          using print_str_sink [of str s] assms(1) Arg_str Cons by (auto simp: print_number_def)
      next
        case (Arg_num v)
        then have "c \<noteq> 115" "fmt_ok ptr False ap'" "c = 98 \<longrightarrow> unat v < 2 ^ 63" using True assms(2) Cons by auto
        then show ?thesis
          using True w [of "numeral_in 2 (unat v)"] w [of "numeral_in 8 (unat v)"]
            w [of "numeral_in 10 (unat v)"] w [of "numeral_in 16 (unat v)"] w [of "[ucast (v AND 0xFF)]"]
          unfolding print_number_def Cons Arg_num print_chr_def print_dec_eq print_oct_eq print_hex_eq print_bin_eq
          by (elim insertE) auto
      qed
    qed
  qed
qed

lemma vfprintf_loop_sink:
  "fmt_ok fmt in_fmt ap \<Longrightarrow> good s \<Longrightarrow>
   \<exists>n t. vfprintf_loop print_number wr fmt in_fmt ap s = Some (n, t) \<and> good t \<and> rel s t"
proof (induction fmt arbitrary: in_fmt ap s)
  case (Cons c ptr)
  show ?case
  proof (cases "c = 0 \<or> c = 37 \<or> \<not> in_fmt")
    case True
    then show ?thesis
      using Cons.prems rel_refl [of s] Cons.IH [of True ap s]
        wr_then [of s "vfprintf_loop print_number wr ptr False ap" "[c]" 1] Cons.IH [of False ap]
      by (auto split: if_splits)
  next
    case False
    then obtain n ap' t where t: "print_number wr ap c s = Some (n, ap', t)" "fmt_ok ptr False ap'" "good t" "rel s t"
      using print_number_sink [of s c ptr ap] Cons.prems by auto
    obtain k u where "vfprintf_loop print_number wr ptr False ap' t = Some (k, u)" "good u" "rel t u"
      using Cons.IH [OF t(2,3)] by blast
    then show ?thesis using False t rel_trans [of s t u] by auto
  qed
qed simp

end

subsection \<open>Properties\<close>

text \<open>\<open>print_to_base\<close> in base 10 and \<open>s_to_i\<close> are inverse: every 64-bit number fits into a buffer
  of 21 bytes, the text is terminated and has the length returned, and reading it back gives the
  number, but for those of 20 digits, which \<open>s_to_i\<close> refuses with -1.\<close>

theorem print_to_base_s_to_i:
  assumes "21 \<le> length buffer"
  shows "\<exists>b. print_to_base v buffer 10 = Some (int (length (cstr b)), b) \<and> length b = length buffer
    \<and> s_to_i b = Some (if unat v < 10 ^ 19 then v else - 1)"
proof -
  let ?n = "length (digits 10 (unat v))"
  let ?b = "numeral_in 10 (unat v) @ 0 # drop (Suc ?n) buffer"
  have n: "?n \<le> 20" using digits_bound [of 10 v 20] unat_lt64 [of v] by simp
  then have "print_to_base v buffer 10 = Some (int ?n, ?b)"
    using print_to_base_room [of 10 v buffer] assms by simp
  moreover have "cstr ?b = numeral_in 10 (unat v)" by (rule cstr_append_zero) (rule numeral_no_zero)
  ultimately show ?thesis using n assms s_to_i_numeral [of "unat v" "drop (Suc ?n) buffer"] by auto
qed

theorem print_to_base_s_to_i_witness:
  "\<exists>b. print_to_base 90210 (replicate 40 0) 10 = Some (int (length (cstr b)), b)
    \<and> length b = length (replicate 40 (0 :: u8))
    \<and> s_to_i b = Some (if unat (90210 :: u64) < 10 ^ 19 then 90210 else - 1)"
  by (rule print_to_base_s_to_i) simp

text \<open>\<open>print_dec\<close>, \<open>print_oct\<close> and \<open>print_hex\<close> write the digits of any 64-bit number, most
  significant first, in one call, and return how many they are; \<open>print_bin\<close> does so below 2^63, and
  from there on writes past its buffer.\<close>

theorem print_based_numbers:
  "print_dec wr v s = map_option (Pair (int (length (digits 10 (unat v))))) (wr (numeral_in 10 (unat v)) s)
   \<and> print_oct wr v s = map_option (Pair (int (length (digits 8 (unat v))))) (wr (numeral_in 8 (unat v)) s)
   \<and> print_hex wr v s = map_option (Pair (int (length (digits 16 (unat v))))) (wr (numeral_in 16 (unat v)) s)
   \<and> print_bin wr v s = (if unat v < 2 ^ 63
        then map_option (Pair (int (length (digits 2 (unat v))))) (wr (numeral_in 2 (unat v)) s)
        else None)"
  by (simp only: print_dec_eq print_oct_eq print_hex_eq print_bin_eq simp_thms)

text \<open>\<open>itoa\<close> and \<open>atoi\<close> are inverse on the numbers from 0 up to 2^31 - 49, if the buffer has room
  for the digits and the terminator (above, the intermediate value \<open>i * 10 + c\<close> of \<open>atoi\<close> overflows).\<close>

theorem itoa_atoi:
  assumes "0 \<le> n" and "n + 48 < 2 ^ 31" and "length (itoa_text n) < length s"
  shows "\<exists>t. itoa n s = Some t \<and> atoi t = Some n \<and> length t = length s"
proof -
  have "itoa n s = Some (itoa_text n @ 0 # drop (Suc (length (itoa_text n))) s)"
    by (rule itoa_writes) (use assms in simp_all)
  moreover have "atoi (itoa_text n @ 0 # r) = Some n" for r
    using atoi_numeral [of "nat n" r] assms by (simp add: itoa_text_def)
  ultimately show ?thesis using assms(3) by simp
qed

theorem itoa_atoi_witness:
  "\<exists>t. itoa 2012 (replicate 8 0) = Some t \<and> atoi t = Some 2012 \<and> length t = length (replicate 8 (0 :: u8))"
  by (rule itoa_atoi) (simp_all add: itoa_text_def numeral_in_def digits.simps)

text \<open>On terminated strings, \<open>strcmp\<close> returns zero exactly for equal ones and \<open>substr\<close> tells whether
  the first is a prefix of the second (not whether it occurs in it, as its comment has it); neither
  reads past a terminator.\<close>

theorem strcmp_substr_strings:
  assumes "0 \<in> set s1" and "0 \<in> set s2"
  shows "(\<exists>k. strcmp s1 s2 = Some k \<and> (k = 0 \<longleftrightarrow> cstr s1 = cstr s2))
    \<and> substr s1 s2 = Some (take (length (cstr s1)) (cstr s2) = cstr s1)"
proof -
  obtain r1 r2 where r: "s1 = cstr s1 @ 0 # r1" "s2 = cstr s2 @ 0 # r2"
    using assms string_obj by blast
  have "\<exists>k. strcmp (cstr s1 @ 0 # r1) (cstr s2 @ 0 # r2) = Some k \<and> (k = 0 \<longleftrightarrow> cstr s1 = cstr s2)"
    by (rule strcmp_append) (rule cstr_no_zero)+
  moreover have "substr (cstr s1 @ 0 # r1) (cstr s2 @ 0 # r2)
      = Some (take (length (cstr s1)) (cstr s2) = cstr s1)"
    by (rule substr_append) (rule cstr_no_zero)+
  ultimately show ?thesis unfolding r(1) [symmetric] r(2) [symmetric] ..
qed

theorem strcmp_substr_strings_witness:
  "(\<exists>k. strcmp [98, 0] [97, 98, 0] = Some k \<and> (k = 0 \<longleftrightarrow> cstr [98, 0] = cstr [97, 98, 0]))
    \<and> substr [98, 0] [97, 98, 0] = Some (take (length (cstr [98, 0])) (cstr [97, 98, 0]) = cstr [98, 0])"
  by (rule strcmp_substr_strings) simp_all

text \<open>Formatted output of text with one \<open>%d\<close>: the text before it, the digits of the number and the
  text behind it are written in this order, and the number of characters written is returned.\<close>

theorem vfprintf_one_number:
  assumes "0 \<notin> set pre" and "37 \<notin> set pre" and "0 \<notin> set post" and "37 \<notin> set post"
  shows "vfprintf wr (pre @ [37, 100] @ post @ [0]) [Arg_num v] s =
    map_option (Pair (int (length pre + length (digits 10 (unat v)) + length post)))
      (Option.bind (wr_each wr pre s) (\<lambda>s. Option.bind (wr (numeral_in 10 (unat v)) s) (wr_each wr post)))"
proof -
  have tl: "vfprintf_loop print_number wr (post @ [0]) False ap s =
      map_option (Pair (int (length post))) (wr_each wr post s)" for ap s
    using vfprintf_loop_plain [OF assms(3,4), of print_number wr "[0]" ap s]
    by (cases "wr_each wr post s") simp_all
  have "vfprintf_loop print_number wr (37 # 100 # post @ [0]) False [Arg_num v] s =
      map_option (Pair (int (length (digits 10 (unat v)) + length post)))
        (Option.bind (wr (numeral_in 10 (unat v)) s) (wr_each wr post))" for s
    by (cases "wr (numeral_in 10 (unat v)) s")
      (auto simp: print_number_def print_dec_eq tl map_option_case split: option.splits)
  then show ?thesis
    unfolding vfprintf_def append.simps
    using vfprintf_loop_plain [OF assms(1,2), of print_number wr "37 # 100 # post @ [0]" "[Arg_num v]" s]
    by (cases "wr_each wr pre s") (auto simp: map_option_case algebra_simps split: option.splits)
qed

theorem vfprintf_one_number_witness:
  "vfprintf (\<lambda>bs out. Some (out @ bs)) ([80, 32] @ [37, 100] @ [10] @ [0]) [Arg_num 42] [] =
    map_option (Pair (int (length [80, 32 :: u8] + length (digits 10 (unat (42 :: u64))) + length [10 :: u8])))
      (Option.bind (wr_each (\<lambda>bs out. Some (out @ bs)) [80, 32] []) (\<lambda>s.
        Option.bind ((\<lambda>bs out. Some (out @ bs)) (numeral_in 10 (unat (42 :: u64))) s)
          (wr_each (\<lambda>bs out. Some (out @ bs)) [10])))"
  by (rule vfprintf_one_number) simp_all

end
