(* ===== verification/Console.thy ===== *)
theory Console
  imports Keyboard Lib_Text
begin

unbundle bit_operations_syntax

section \<open>Kernel/syscall/io.c, power.c and the kernel's formatted output\<close>

text \<open>
  The system calls on the terminals and the keyboard: \<open>write\<close> prints on the process terminal (or,
  for the kernel itself, on the log) in the colours of the descriptor, \<open>read\<close> drains the key
  buffer into the caller's memory, \<open>ioctl\<close> moves the cursor, clears the screen and sets colours.
  The state adds the table of colours. \<open>kprintf\<close> is the kernel's \<open>printf\<close>, on the log.
\<close>

abbreviation STDIN :: u32 where
  "STDIN \<equiv> 0"

abbreviation STDOUT :: u32 where
  "STDOUT \<equiv> 1"

abbreviation STDERR :: u32 where
  "STDERR \<equiv> 2"

abbreviation STDRAW :: u32 where
  "STDRAW \<equiv> 3"

abbreviation SYSLOG :: u32 where
  "SYSLOG \<equiv> 4"

abbreviation BLACK :: u32 where
  "BLACK \<equiv> 0"

abbreviation BLUE :: u32 where
  "BLUE \<equiv> 1"

abbreviation RED :: u32 where
  "RED \<equiv> 4"

abbreviation LIGHT_GRAY :: u32 where
  "LIGHT_GRAY \<equiv> 7"

abbreviation GRAY :: u32 where
  "GRAY \<equiv> 8"

abbreviation WHITE :: u32 where
  "WHITE \<equiv> 15"

record console_state = keyboard_state +
  colors :: "u32 list"

definition colors_init :: "u32 list" where
  "colors_init = [LIGHT_GRAY, BLACK, RED, BLACK]"

text \<open>\<open>char high\<close>, \<open>char low\<close>: signed, and extended with their sign where they are passed on.\<close>

definition syscall_ioctl ::
  "u32 \<Rightarrow> u64 \<Rightarrow> u64 \<Rightarrow> 'a console_state_scheme \<Rightarrow> (u32 \<times> 'a console_state_scheme) option"
where
  "syscall_ioctl fd request params s =
     (if fd = STDOUT \<or> fd = STDERR \<or> fd = STDRAW \<or> fd = STDIN
      then (let high = ucast (drop_bit 8 params AND 0xFF) :: u8;
                low = ucast (params AND 0xFF) :: u8
            in if request = 0
               then (let (_, s) = vid_cursor VID_PROC (scast high) (scast low) s in Some (0, s))
               else if request = 1
               then map_option (Pair 0) (vid_clr VID_PROC s)
               else if request = 2
               then (let (_, s) = vid_color VID_PROC (scast high) (scast low) s
                     in if fd = STDOUT \<or> fd = STDERR
                        then do {
                          cs \<leftarrow> obj_set (colors s) (uint fd - 1) (scast high);
                          cs \<leftarrow> obj_set cs (uint fd) (scast low);
                          Some (0, s\<lparr>colors := cs\<rparr>)
                        }
                        else Some (0, s))
               else if request = 3 then Some (ucast params, s)
               else Some (- 1, s))
      else Some (- 1, s))"

text \<open>\<open>syscall_write\<close> on the bytes that \<open>str\<close> points to.\<close>

definition write_bytes ::
  "u32 \<Rightarrow> u8 list \<Rightarrow> 'a console_state_scheme \<Rightarrow> (u32 \<times> 'a console_state_scheme) option"
where
  "write_bytes fd str s =
     (let print = (\<lambda>term fg bg. do {
        let (_, s) = vid_color term fg bg s;
        s \<leftarrow> vid_print term str s;
        Some (of_nat (length str), vid_update s)
      })
      in if fd = STDOUT then do {
           fg \<leftarrow> obj_get (colors s) 0;
           bg \<leftarrow> obj_get (colors s) 1;
           print VID_PROC fg bg
         }
         else if fd = STDERR then do {
           fg \<leftarrow> obj_get (colors s) 2;
           bg \<leftarrow> obj_get (colors s) 3;
           print VID_PROC fg bg
         }
         else if fd = STDRAW then do {
           s \<leftarrow> vid_raw_print VID_PROC str s;
           Some (of_nat (length str), s)
         }
         else if fd = SYSLOG then print VID_SYSLOG WHITE BLUE
         else Some (- 1, s))"

definition syscall_write ::
  "u32 \<Rightarrow> u64 \<Rightarrow> u32 \<Rightarrow> 'a console_state_scheme \<Rightarrow> (u32 \<times> 'a console_state_scheme) option"
where
  "syscall_write fd str size32 s = write_bytes fd (load_bytes (mem s) str (unat size32)) s"

text \<open>
  The loop of \<open>syscall_read\<close> with its counter \<open>read\<close>: the requested size is not looked at.
\<close>

partial_function (option) read_loop ::
  "u64 \<Rightarrow> u32 \<Rightarrow> 'a console_state_scheme \<Rightarrow> (u32 \<times> 'a console_state_scheme) option"
where
  "read_loop buf read s = do {
     (keycode, s) \<leftarrow> kbrd_get_key s;
     (if keycode \<noteq> KEY_UNKNOWN
      then (let read = read + 1;
                code = kbrd_key_to_ascii keycode s;
                s = (if code \<noteq> 0 then s\<lparr>mem := store8 (mem s) (buf + scast read) code\<rparr> else s)
            in read_loop buf read s)
      else Some (read, s))
   }"

definition syscall_read ::
  "u32 \<Rightarrow> u64 \<Rightarrow> u32 \<Rightarrow> 'a console_state_scheme \<Rightarrow> (u32 \<times> 'a console_state_scheme) option"
where
  "syscall_read fd buf size32 s = read_loop buf (- 1) s"

subsection \<open>Kernel/lib/putc.c and printf.c on the log\<close>

definition fputsn ::
  "u32 \<Rightarrow> u8 list \<Rightarrow> 'a console_state_scheme \<Rightarrow> 'a console_state_scheme option"
where
  "fputsn fd c s = map_option snd (write_bytes fd c s)"

definition puts :: "string \<Rightarrow> 'a console_state_scheme \<Rightarrow> 'a console_state_scheme option" where
  "puts c s = fputsn SYSLOG (bytes c) s"

definition kprintf ::
  "string \<Rightarrow> fmt_arg list \<Rightarrow> 'a console_state_scheme \<Rightarrow> 'a console_state_scheme option"
where
  "kprintf fmt ap s = map_option snd (vfprintf (fputsn SYSLOG) (bytes fmt @ [0]) ap s)"

subsection \<open>Kernel/syscall/power.c\<close>

text \<open>The screen the machine stops with; the message is written with its terminator.\<close>

definition syscall_halt :: "'a console_state_scheme \<Rightarrow> 'a console_state_scheme option" where
  "syscall_halt s = do {
     let msg = bytes ''System offline.'' @ [0];
     s \<leftarrow> vid_clr VID_PROC s;
     let (_, s) = vid_cursor VID_PROC (25 div 2) (of_nat (nat ((80 - int (length msg)) div 2))) s;
     s \<leftarrow> vid_print VID_PROC msg s;
     s \<leftarrow> vid_print VID_SYSLOG msg s;
     Some (vid_update s)
   }"

text \<open>Kernel/kernel.c: \<open>panic\<close>, and the screens at the start.\<close>

definition panic :: "string \<Rightarrow> 'a console_state_scheme \<Rightarrow> 'a console_state_scheme option" where
  "panic msg s = do {
     s \<leftarrow> puts (CHR 0x0A # ''KERNEL PANIC'' @ [CHR 0x0A]) s;
     s \<leftarrow> kprintf (''Error: %s'' @ [CHR 0x0A]) [Arg_str (bytes msg @ [0])] s;
     let s = vid_update (vid_show VID_SYSLOG s);
     syscall_halt s
   }"

definition vid_init :: "'a console_state_scheme \<Rightarrow> 'a console_state_scheme option" where
  "vid_init s = do {
     let (_, s) = vid_color VID_SYSLOG GRAY BLACK s;
     s \<leftarrow> vid_clr VID_PROC s;
     let (_, s) = vid_color VID_SYSLOG WHITE BLUE s;
     vid_clr VID_SYSLOG s
   }"

subsection \<open>What output changes\<close>

text \<open>
  The invariant of the console, and what output on it may change: the terminals, which stay well
  formed, and the 4000 bytes of the VGA text buffer.
\<close>

definition con_ok :: "'a console_state_scheme \<Rightarrow> bool" where
  "con_ok s \<longleftrightarrow> (\<forall>trm. vm_ok (terminals s trm)) \<and> length (colors s) = 4"

definition screen_only :: "'a console_state_scheme \<Rightarrow> 'a console_state_scheme \<Rightarrow> bool" where
  "screen_only s t \<longleftrightarrow> (\<exists>T M. t = s\<lparr>mem := M, terminals := T\<rparr> \<and> (\<forall>trm. vm_ok (T trm))
     \<and> (\<forall>a. \<not> in_range 0xB8000 4000 a \<longrightarrow> M a = mem s a))"

lemma screen_only_refl: "con_ok s \<Longrightarrow> screen_only s s"
  unfolding screen_only_def con_ok_def
  by (intro exI [of _ "terminals s"] exI [of _ "mem s"]) simp

lemma screen_only_trans:
  assumes "screen_only s t" and "screen_only t u" shows "screen_only s u"
proof -
  obtain T M where t: "t = s\<lparr>mem := M, terminals := T\<rparr>" and m: "\<forall>a. \<not> in_range 0xB8000 4000 a \<longrightarrow> M a = mem s a"
    using assms(1) unfolding screen_only_def by blast
  obtain T' M' where u: "u = t\<lparr>mem := M', terminals := T'\<rparr>" "\<forall>trm. vm_ok (T' trm)"
    and m': "\<forall>a. \<not> in_range 0xB8000 4000 a \<longrightarrow> M' a = mem t a"
    using assms(2) unfolding screen_only_def by blast
  have "u = s\<lparr>mem := M', terminals := T'\<rparr>" using u(1) by (simp add: t)
  moreover have "\<forall>a. \<not> in_range 0xB8000 4000 a \<longrightarrow> M' a = mem s a" using m m' by (simp add: t)
  ultimately show ?thesis using u(2) unfolding screen_only_def by blast
qed

lemma screen_only_ok: "con_ok s \<Longrightarrow> screen_only s t \<Longrightarrow> con_ok t"
  by (auto simp: screen_only_def con_ok_def)

lemma screen_only_mem: "screen_only s t \<Longrightarrow> \<not> in_range 0xB8000 4000 a \<Longrightarrow> mem t a = mem s a"
  by (auto simp: screen_only_def)

lemma screen_only_fields:
  "screen_only s t \<Longrightarrow> inq t = inq s \<and> outs t = outs s \<and> colors t = colors s \<and>
     vid_active t = vid_active s \<and> console_state.more t = console_state.more s"
  by (auto simp: screen_only_def)

lemma vga_length: "vm_ok t \<Longrightarrow> length (concat (map (\<lambda>x. [cell_c x, cell_fmt x]) (vm_video t))) = 4000"
proof -
  have "length (concat (map (\<lambda>x. [cell_c x, cell_fmt x]) v)) = 2 * length v" for v :: "vid_cell list"
    by (induction v) simp_all
  then show "vm_ok t \<Longrightarrow> ?thesis" by (simp add: vm_ok_def)
qed

lemma print_screen:
  fixes s :: "'a console_state_scheme" and fg bg :: u32 and trm :: vid_term
  assumes "con_ok s"
  defines "s1 \<equiv> snd (vid_color trm fg bg s)"
  shows "\<exists>t. vid_print trm str s1 = Some t \<and> screen_only s (vid_update t)
    \<and> (\<forall>u. u \<noteq> trm \<longrightarrow> terminals (vid_update t) u = terminals s u)"
proof -
  let ?f = "ucast (VID_COLOR fg bg) :: u8"
  have s1: "s1 = s\<lparr>terminals := (terminals s)(trm := (terminals s trm)\<lparr>vm_fmt := ?f\<rparr>)\<rparr>"
    by (simp add: s1_def vid_color_def Let_def)
  have ok: "vm_ok (terminals s u)" for u using assms(1) by (simp add: con_ok_def)
  have "vm_ok (terminals s1 trm)" using ok [of trm] by (simp add: s1 vm_ok_def)
  from term_print_ok [OF this, of str] obtain t where
    t: "term_print str (terminals s1 trm) = Some t" "vm_ok t" by blast
  let ?T = "(terminals s)(trm := t)"
  have p: "vid_print trm str s1 = Some (s1\<lparr>terminals := (terminals s1)(trm := t)\<rparr>)"
    unfolding vid_print_def by (rule vid_on_eq) (rule t(1))
  let ?bs = "concat (map (\<lambda>x. [cell_c x, cell_fmt x]) (vm_video (?T (vid_active s))))"
  have Tok: "vm_ok (?T u)" for u using ok t(2) by simp
  have "vid_update (s1\<lparr>terminals := (terminals s1)(trm := t)\<rparr>)
      = s\<lparr>mem := store_bytes (mem s) 0xB8000 ?bs, terminals := ?T\<rparr>"
    by (simp add: vid_update_def s1)
  moreover have "store_bytes (mem s) 0xB8000 ?bs a = mem s a" if "\<not> in_range 0xB8000 4000 a" for a
    by (rule store_bytes_other) (unfold vga_length [OF Tok], rule that)
  ultimately show ?thesis
    using p Tok by (auto simp: screen_only_def simp del: fun_upd_apply intro!: exI [of _ ?T])
      (simp_all)
qed

lemma write_bytes_screen:
  assumes "con_ok s"
  shows "\<exists>t. write_bytes fd str s = Some (if fd \<in> {STDOUT, STDERR, STDRAW, SYSLOG} then of_nat (length str) else - 1, t)
    \<and> screen_only s t
    \<and> (\<forall>u. u \<noteq> (if fd = SYSLOG then VID_SYSLOG else VID_PROC) \<longrightarrow> terminals t u = terminals s u)"
proof -
  have cols: "obj_get (colors s) 0 = Some (colors s ! 0)" "obj_get (colors s) 1 = Some (colors s ! 1)"
    "obj_get (colors s) 2 = Some (colors s ! 2)" "obj_get (colors s) 3 = Some (colors s ! 3)"
    using assms by (simp_all add: con_ok_def obj_get_def)
  have col: "(case vid_color trm fg bg s of (_, t) \<Rightarrow> f t) = f (snd (vid_color trm fg bg s))" for f trm fg bg
    by (simp add: split_def)
  have ok: "vm_ok (terminals s u)" for u using assms by (simp add: con_ok_def)
  show ?thesis
  proof (cases "fd = STDRAW")
    case True
    obtain t where t: "term_raw_print str (terminals s VID_PROC) = Some t" "vm_ok t"
      using term_raw_print_ok [OF ok] by blast
    let ?T = "(terminals s)(VID_PROC := t)"
    have "screen_only s (s\<lparr>terminals := ?T\<rparr>)"
      unfolding screen_only_def using ok t(2)
      by (intro exI [of _ ?T] exI [of _ "mem s"]) simp
    then show ?thesis
      using True t(1) vid_on_eq [of "term_raw_print str" s VID_PROC t]
      by (simp add: write_bytes_def vid_raw_print_def)
  next
    case False
    then show ?thesis
      using print_screen [OF assms, of VID_PROC str "colors s ! 0" "colors s ! 1"]
        print_screen [OF assms, of VID_PROC str "colors s ! 2" "colors s ! 3"]
        print_screen [OF assms, of VID_SYSLOG str WHITE BLUE] screen_only_refl [OF assms]
      by (auto simp: write_bytes_def cols col Let_def)
  qed
qed

lemma fputsn_screen: "con_ok s \<Longrightarrow> \<exists>t. fputsn fd str s = Some t \<and> con_ok t \<and> screen_only s t"
  using write_bytes_screen [of s fd str] screen_only_ok [of s] by (auto simp: fputsn_def)

interpretation log: byte_sink "fputsn fd" con_ok screen_only
  by unfold_locales (use fputsn_screen screen_only_refl screen_only_trans in blast)+

text \<open>The kernel's messages end and change nothing but the screen.\<close>

lemma puts_screen: "con_ok s \<Longrightarrow> \<exists>t. puts str s = Some t \<and> con_ok t \<and> screen_only s t"
  unfolding puts_def by (rule fputsn_screen)

lemma kprintf_screen:
  "con_ok s \<Longrightarrow> fmt_ok (bytes fmt @ [0]) False ap \<Longrightarrow>
   \<exists>t. kprintf fmt ap s = Some t \<and> con_ok t \<and> screen_only s t"
  using log.vfprintf_loop_sink [of "bytes fmt @ [0]" False ap s SYSLOG]
  by (auto simp: kprintf_def vfprintf_def)

subsection \<open>Reading the keyboard\<close>

lemma kbrd_key_to_ascii_state:
  "shift_hold t = shift_hold s \<Longrightarrow> caps_lock t = caps_lock s \<Longrightarrow>
   kbrd_key_to_ascii key t = kbrd_key_to_ascii key s"
  unfolding kbrd_key_to_ascii_def by (simp only:)

lemma scast_count: "k < 2 ^ 31 \<Longrightarrow> (scast (of_nat k :: u32) :: u64) = of_nat k"
proof -
  assume "k < 2 ^ 31"
  then have "sint (of_nat k :: u32) = int k" by (intro sint_of_nat_small) simp
  then show ?thesis by (metis of_int_of_nat_eq of_int_sint)
qed

lemma kbrd_get_key_rest:
  assumes "kbrd_get_key s = Some (x, t)"
  shows "mem t = mem s \<and> shift_hold t = shift_hold s \<and> caps_lock t = caps_lock s"
  using assms by (auto simp: kbrd_get_key_def split: if_splits bind_splits)

lemma read_loop_keys:
  assumes "\<forall>key \<in> set ks. key \<noteq> KEY_UNKNOWN \<and> kbrd_key_to_ascii key s0 \<noteq> 0"
  shows "kbd_ok s \<Longrightarrow> kbd_items s = ks' \<Longrightarrow> ks' = ks \<Longrightarrow> k + length ks < 2 ^ 31 \<Longrightarrow>
    shift_hold s = shift_hold s0 \<Longrightarrow> caps_lock s = caps_lock s0 \<Longrightarrow>
    \<exists>t. read_loop buf (of_nat k - 1) s = Some (of_nat (k + length ks) - 1, t)
      \<and> mem t = store_bytes (mem s) (buf + of_nat k) (map (\<lambda>key. kbrd_key_to_ascii key s0) ks)
      \<and> kbd_ok t \<and> kbd_items t = []"
  using assms
proof (induction ks arbitrary: ks' s k)
  case Nil
  then obtain x where "kbrd_get_key s = Some (x, s)" "x = KEY_UNKNOWN"
    using kbf.get_empty [of s] kbf.empty_iff [of s] by (auto simp: kbrd_get_key_def)
  then show ?case using Nil by (subst read_loop.simps) simp
next
  case (Cons key ks)
  obtain s1 where s1: "kbrd_get_key s = Some (key, s1)" "kbd_ok s1" "kbd_items s1 = ks"
    using kbf.get_item [of s key ks] Cons.prems(1-3) by blast
  note rest = kbrd_get_key_rest [OF s1(1)]
  have key: "key \<noteq> KEY_UNKNOWN" "kbrd_key_to_ascii key s1 = kbrd_key_to_ascii key s0"
    "kbrd_key_to_ascii key s0 \<noteq> 0"
    using Cons.prems(5-7) rest by (auto intro: kbrd_key_to_ascii_state)
  let ?c = "kbrd_key_to_ascii key s0"
  let ?s = "s1\<lparr>mem := store8 (mem s1) (buf + of_nat k) ?c\<rparr>"
  have same: "kbd_ok ?s" "kbd_items ?s = ks"
    using s1(2,3) by (simp_all add: kbd_ok_def kbd_items_def kbd_count_def)
  have k: "k < 2 ^ 31" using Cons.prems(4) by simp
  have "read_loop buf (of_nat k - 1) s = read_loop buf (of_nat (Suc k) - 1) ?s"
    using key by (subst read_loop.simps) (simp add: s1(1) scast_count [OF k])
  moreover obtain t where t: "read_loop buf (of_nat (Suc k) - 1) ?s = Some (of_nat (Suc k + length ks) - 1, t)"
    "mem t = store_bytes (mem ?s) (buf + of_nat (Suc k)) (map (\<lambda>key. kbrd_key_to_ascii key s0) ks)"
    "kbd_ok t" "kbd_items t = []"
    using Cons.IH [of ?s ks "Suc k"] same Cons.prems(4-7) rest by auto
  moreover have "mem t = store_bytes (mem s) (buf + of_nat k) ([?c] @ map (\<lambda>key. kbrd_key_to_ascii key s0) ks)"
    using store_bytes_append [of "[?c]" "map (\<lambda>key. kbrd_key_to_ascii key s0) ks" "mem s" "buf + of_nat k"]
      Cons.prems(4) rest by (simp add: t(2) store8_bytes add_ac)
  ultimately show ?case by auto
qed

subsection \<open>Properties\<close>

definition console_boot :: console_state where
  "console_boot = \<lparr>mem = (\<lambda>_. 0), inq = (\<lambda>_. []), outs = [], snd_timeout = 0,
     terminals = (\<lambda>_. \<lparr>vm_video = replicate 2000 (blank 0), vm_cursor = 0, vm_fmt = 0\<rparr>),
     vid_active = VID_PROC, kern_active_term = VID_PROC, esc_fn = Some Handle_esc,
     num_lock = 0, scroll_lock = 0, caps_lock = 0, shift_hold = 0, alt_hold = 0, ctrl_hold = 0,
     key_buffer = replicate 64 KEY_UNKNOWN, buffer_last_key = 0, buffer_first_key = 0, scancode = 0,
     colors = colors_init\<rparr>"

lemma console_boot_ok: "con_ok console_boot"
  by (simp add: console_boot_def con_ok_def vm_ok_def colors_init_def)

text \<open>C37: \<open>syscall_write\<close> always returns: with the number of bytes for a descriptor one can write to,
  else with -1. It never writes outside a terminal; besides the terminal of the descriptor (the log
  for SYSLOG, the process terminal for the others) it changes only the VGA text buffer, and no other
  part of the state: the active terminal, the keys, the ports and the colours stay. So no process can
  write on the kernel's log, and the kernel's messages leave the process terminal alone.\<close>

theorem syscall_write_screen:
  assumes "con_ok s"
  shows "\<exists>t. syscall_write fd buf n s =
      Some (if fd \<in> {STDOUT, STDERR, STDRAW, SYSLOG} then n else - 1, t)
    \<and> t = s\<lparr>mem := mem t, terminals := terminals t\<rparr>
    \<and> (\<forall>u. u \<noteq> (if fd = SYSLOG then VID_SYSLOG else VID_PROC) \<longrightarrow> terminals t u = terminals s u)
    \<and> (\<forall>u. vm_ok (terminals t u))
    \<and> (\<forall>a. \<not> in_range 0xB8000 4000 a \<longrightarrow> mem t a = mem s a)"
  using write_bytes_screen [OF assms, of fd "load_bytes (mem s) buf (unat n)"]
  by (auto simp: syscall_write_def screen_only_def)

theorem syscall_write_screen_witness:
  "\<exists>t. syscall_write STDOUT 0x4000000 5 console_boot =
      Some (if STDOUT \<in> {STDOUT, STDERR, STDRAW, SYSLOG} then 5 else - 1, t)
    \<and> t = console_boot\<lparr>mem := mem t, terminals := terminals t\<rparr>
    \<and> (\<forall>u. u \<noteq> (if STDOUT = SYSLOG then VID_SYSLOG else VID_PROC) \<longrightarrow> terminals t u = terminals console_boot u)
    \<and> (\<forall>u. vm_ok (terminals t u))
    \<and> (\<forall>a. \<not> in_range 0xB8000 4000 a \<longrightarrow> mem t a = mem console_boot a)"
  by (rule syscall_write_screen [OF console_boot_ok])

text \<open>C1: What is typed is what \<open>syscall_read\<close> delivers: after one interrupt for each of up to 63 key
  presses on an empty buffer, one \<open>read\<close> stores the characters of all of them, in order, from the
  address of the caller's buffer on, empties the key buffer and returns the number of characters
  less one. The size the caller gives plays no part: a longer line is written past the end of its
  buffer.\<close>

theorem typed_text_is_read:
  assumes "kbd_ok s" and "kbd_items s = []" and "length cs \<le> 63" and "list_all types_key cs"
    and "list_all (\<lambda>c. key_of c \<noteq> KEY_UNKNOWN \<and> kbrd_key_to_ascii (key_of c) s \<noteq> 0) cs"
    and "inq s 0x60 = cs @ codes" and "length cs \<le> length (inq s 0x64)"
    and "list_all (\<lambda>v. bit v 0) (inq s 0x64)"
  shows "\<exists>s1 t. kbrd_irqs (length cs) s = Some s1
    \<and> syscall_read fd buf n s1 = Some (of_nat (length cs) - 1, t)
    \<and> mem t = store_bytes (mem s) buf (map (\<lambda>c. kbrd_key_to_ascii (key_of c) s) cs)
    \<and> kbd_items t = []"
proof -
  have "kbd_count s + length cs \<le> 63"
    using assms(2,3) length_kbd_items [of s] by simp
  then obtain s1 where s1: "kbrd_irqs (length cs) s = Some s1" "kbd_ok s1"
    "kbd_items s1 = map key_of cs" "mem s1 = mem s" "shift_hold s1 = shift_hold s" "caps_lock s1 = caps_lock s"
    using kbrd_irqs_type [of s cs codes "inq s 0x64"] assms by auto
  have "\<forall>key \<in> set (map key_of cs). key \<noteq> KEY_UNKNOWN \<and> kbrd_key_to_ascii key s \<noteq> 0"
    using assms(5) by (auto simp: list_all_iff)
  from read_loop_keys [OF this s1(2,3) refl, of 0 buf] s1 assms(3)
  show ?thesis by (auto simp: syscall_read_def comp_def)
qed

theorem typed_text_is_read_witness:
  "let s = console_boot\<lparr>inq := (\<lambda>_. [])(0x60 := [0x23, 0x17], 0x64 := [1, 1])\<rparr>
   in \<exists>s1 t. kbrd_irqs (length [0x23, 0x17 :: u8]) s = Some s1
    \<and> syscall_read STDIN 0x1000 1 s1 = Some (of_nat (length [0x23, 0x17 :: u8]) - 1, t)
    \<and> mem t = store_bytes (mem s) 0x1000 (map (\<lambda>c. kbrd_key_to_ascii (key_of c) s) [0x23, 0x17])
    \<and> kbd_items t = []"
  unfolding Let_def
  by (rule typed_text_is_read)
    (simp_all add: console_boot_def kbd_ok_def kbd_items_def kbd_count_def ring_dist_def types_key_def
      key_of_def acted_on_def kbrdscancode_std_def kbrd_key_to_ascii_def isascii_def shifted_other_def)

text \<open>Setting the colours of the standard error stores the foreground where the background of the
  standard output is and the background where the foreground of the standard error is: the next
  write to the standard error uses the new background as its foreground, on the old background.\<close>

theorem ioctl_color_stderr:
  assumes "con_ok s"
  shows "\<exists>t. syscall_ioctl STDERR 2 params s = Some (0, t)
    \<and> colors t = [colors s ! 0, scast (ucast (drop_bit 8 params AND 0xFF) :: u8),
        scast (ucast (params AND 0xFF) :: u8), colors s ! 3]"
proof -
  obtain a b c d where cs: "colors s = [a, b, c, d]"
    using assms unfolding con_ok_def by (auto simp: length_Suc_conv numeral_eq_Suc)
  then show ?thesis
    by (simp add: syscall_ioctl_def Let_def obj_set_def vid_color_def)
qed

theorem ioctl_color_stderr_witness:
  "\<exists>t. syscall_ioctl STDERR 2 0x0E01 console_boot = Some (0, t)
    \<and> colors t = [colors console_boot ! 0, scast (ucast (drop_bit 8 (0x0E01 :: u64) AND 0xFF) :: u8),
        scast (ucast ((0x0E01 :: u64) AND 0xFF) :: u8), colors console_boot ! 3]"
  by (rule ioctl_color_stderr [OF console_boot_ok])

end
