(* ===== verification/Phys_Alloc.thy ===== *)
theory Phys_Alloc
  imports Console "HOL-Library.Signed_Division"
begin

unbundle bit_operations_syntax

section \<open>Kernel/pmm.c: the physical memory manager\<close>

text \<open>
  A stack of the addresses of free page frames and a bitmap of the frames in use, both in reserved
  physical memory. \<open>gmem\<close> takes a frame, \<open>fmem\<close> gives one back.

  \<open>1 << (bit % 64)\<close> is an \<open>int\<close> shift: on the target the count is taken modulo 32 and the result is
  extended with its sign when it meets the 64-bit word. The bitmap therefore mixes up frames that
  are 32 apart. The lemmas show that the stack alone still keeps the allocator safe, as the locale
  \<open>frame_allocator\<close> states it, and what the mix-up costs.
\<close>

abbreviation PMM_BLOCK_SIZE :: u64 where
  "PMM_BLOCK_SIZE \<equiv> 4096"

record pmm_state = console_state +
  reserved_pages :: u64
  pmm_map :: u64
  mem_stack :: u64
  free_blocks :: u64

text \<open>asm/libasm.asm: the boot loader leaves the number of megabytes at 0x5020.\<close>

definition get_memory_size :: "'a machine_scheme \<Rightarrow> u32" where
  "get_memory_size s = load32 (mem s) 0x5020"

definition PMM_TOTAL_BLOCKS :: "'a machine_scheme \<Rightarrow> u32" where
  "PMM_TOTAL_BLOCKS s = get_memory_size s * 1024 * 1024 div 4096"

subsection \<open>The bitmap\<close>

definition int_shl1 :: "u64 \<Rightarrow> u64" where
  "int_shl1 bn = scast (push_bit (unat (bn mod 64) mod 32) 1 :: u32)"

definition mmap_alloc :: "u64 \<Rightarrow> 'a pmm_state_scheme \<Rightarrow> 'a pmm_state_scheme" where
  "mmap_alloc bn s =
     (let a = pmm_map s + 8 * (bn div 64)
      in s\<lparr>mem := store64 (mem s) a (load64 (mem s) a OR int_shl1 bn)\<rparr>)"

definition mmap_free :: "u64 \<Rightarrow> 'a pmm_state_scheme \<Rightarrow> 'a pmm_state_scheme" where
  "mmap_free bn s =
     (let a = pmm_map s + 8 * (bn div 64)
      in s\<lparr>mem := store64 (mem s) a (load64 (mem s) a AND NOT (int_shl1 bn))\<rparr>)"

definition mmap_is_occ :: "u64 \<Rightarrow> 'a pmm_state_scheme \<Rightarrow> bool" where
  "mmap_is_occ bn s \<longleftrightarrow> load64 (mem s) (pmm_map s + 8 * (bn div 64)) AND int_shl1 bn \<noteq> 0"

subsection \<open>The stack\<close>

definition pop :: "'a pmm_state_scheme \<Rightarrow> u64 \<times> 'a pmm_state_scheme" where
  "pop s =
     (let addr = load64 (mem s) (mem_stack s + 8 * free_blocks s)
      in (addr, s\<lparr>free_blocks := free_blocks s - 1\<rparr>))"

definition push :: "u64 \<Rightarrow> 'a pmm_state_scheme \<Rightarrow> 'a pmm_state_scheme" where
  "push addr s =
     s\<lparr>mem := store64 (mem s) (mem_stack s + 8 * free_blocks s + 8) addr,
       free_blocks := free_blocks s + 1\<rparr>"

subsection \<open>Frames\<close>

definition gmem :: "'a pmm_state_scheme \<Rightarrow> u64 \<times> 'a pmm_state_scheme" where
  "gmem s =
     (if free_blocks s > 0
      then (let (addr, s) = pop s in (addr, mmap_alloc (addr div PMM_BLOCK_SIZE) s))
      else (- 1, s))"

definition fmem :: "u64 \<Rightarrow> 'a pmm_state_scheme \<Rightarrow> int \<times> 'a pmm_state_scheme" where
  "fmem addr s =
     (if addr mod PMM_BLOCK_SIZE \<noteq> 0 then (- 1, s)
      else (let bit_index = addr div PMM_BLOCK_SIZE
            in if mmap_is_occ bit_index s then (1, push addr (mmap_free bit_index s))
               else (0, s)))"

text \<open>The three loops of \<open>init_mem\<close>: \<open>n\<close> iterations from an index on.\<close>

primrec zero_loop :: "nat \<Rightarrow> u64 \<Rightarrow> mem \<Rightarrow> mem" where
  "zero_loop 0 indx m = m"
| "zero_loop (Suc n) indx m = zero_loop n (indx + 1) (store64 m indx 0)"

primrec reserve_loop :: "nat \<Rightarrow> 'a pmm_state_scheme \<Rightarrow> 'a pmm_state_scheme" where
  "reserve_loop 0 s = s"
| "reserve_loop (Suc n) s = mmap_alloc (of_nat n * PMM_BLOCK_SIZE) (reserve_loop n s)"

definition init_mem :: "u32 \<Rightarrow> 'a pmm_state_scheme \<Rightarrow> u32 \<times> 'a pmm_state_scheme" where
  "init_mem reserve s =
     (let total = PMM_TOTAL_BLOCKS s;
          bitmap_size = total div 4096;
          stack_size = ucast (ucast total * 8 div 4096 :: u64) :: u32;
          res = scast (word_of_int (sint reserve sdiv 4096) + 1 + bitmap_size + stack_size) :: u64;
          s = s\<lparr>reserved_pages := res,
                pmm_map := PMM_BLOCK_SIZE * (res - scast bitmap_size),
                mem_stack := PMM_BLOCK_SIZE * (res - scast bitmap_size - scast stack_size),
                free_blocks := ucast total - res - 1\<rparr>;
          s = s\<lparr>mem := zero_loop (unat (total div 64) + 1) (pmm_map s) (mem s)\<rparr>;
          s = reserve_loop (unat res) s;
          s = s\<lparr>mem := c64.fill (mem s) (mem_stack s)
                  (\<lambda>i. (res + of_nat i) * PMM_BLOCK_SIZE) (unat total - unat res)\<rparr>
      in (ucast (res * PMM_BLOCK_SIZE), s))"

subsection \<open>The free frames\<close>

text \<open>
  The free frames are the entries 1 to \<open>free_blocks\<close> of the stack. \<open>pmm_ok P N K\<close>: the stack has
  room for \<open>N\<close> entries and lies below the \<open>K\<close> words of the bitmap, both lie below all frames of the
  pool \<open>P\<close>, the frames of the pool are page addresses that the bitmap covers, and the free frames are
  distinct frames of the pool.
\<close>

definition pmm_frames :: "'a pmm_state_scheme \<Rightarrow> u64 list" where
  "pmm_frames s =
     map (\<lambda>i. load64 (mem s) (mem_stack s + of_nat (8 * i))) [1..<Suc (unat (free_blocks s))]"

definition pmm_layout :: "u64 set \<Rightarrow> nat \<Rightarrow> nat \<Rightarrow> 'a pmm_state_scheme \<Rightarrow> bool" where
  "pmm_layout P N K s \<longleftrightarrow>
     finite P \<and> card P < N \<and> unat (mem_stack s) + 8 * N \<le> unat (pmm_map s)
     \<and> unat (pmm_map s) + 8 * K \<le> 2 ^ 63
     \<and> (\<forall>f \<in> P. f mod PMM_BLOCK_SIZE = 0 \<and> unat (f div PMM_BLOCK_SIZE) div 64 < K
          \<and> unat (pmm_map s) + 8 * K \<le> unat f \<and> unat f + 4096 \<le> 2 ^ 63)"

definition pmm_ok :: "u64 set \<Rightarrow> nat \<Rightarrow> nat \<Rightarrow> 'a pmm_state_scheme \<Rightarrow> bool" where
  "pmm_ok P N K s \<longleftrightarrow> pmm_layout P N K s \<and> distinct (pmm_frames s) \<and> set (pmm_frames s) \<subseteq> P"

lemma length_pmm_frames [simp]: "length (pmm_frames s) = unat (free_blocks s)"
  by (simp add: pmm_frames_def)

lemma pmm_frames_bound: "pmm_ok P N K s \<Longrightarrow> unat (free_blocks s) \<le> card P"
  unfolding pmm_ok_def pmm_layout_def
  by (metis card_mono distinct_card length_pmm_frames)

lemma stack_addr:
  assumes "pmm_layout P N K s" and "i < N"
  shows "unat (mem_stack s + of_nat (8 * i)) = unat (mem_stack s) + 8 * i"
  using assms by (intro unat_add_small) (simp add: pmm_layout_def)

lemma map_addr:
  assumes "pmm_layout P N K s" and "unat w < K"
  shows "unat (pmm_map s + 8 * w) = unat (pmm_map s) + 8 * unat w"
proof -
  have "8 * w = of_nat (8 * unat w)" by simp
  moreover have "unat (pmm_map s) + 8 * unat w < 2 ^ 64" using assms by (simp add: pmm_layout_def)
  ultimately show ?thesis using unat_add_small [of "pmm_map s" "8 * unat w"] by simp
qed

text \<open>Writing a bitmap word leaves the stack, and writing a stack entry leaves the others.\<close>

lemma stack_map_apart:
  assumes "pmm_layout P N K s" and "i < N" and "unat w < K"
  shows "apart (pmm_map s + 8 * w) 8 (mem_stack s + of_nat (8 * i)) 8"
proof -
  have "unat (pmm_map s) + 8 * K \<le> 2 ^ 63" "unat (mem_stack s) + 8 * N \<le> unat (pmm_map s)"
    using assms(1) by (simp_all add: pmm_layout_def)
  then show ?thesis
    using assms(2,3)
    by (intro apart_below(2))
      (simp_all add: stack_addr [OF assms(1,2)] map_addr [OF assms(1,3)] del: of_nat_mult)
qed

lemma stack_stack_apart:
  assumes "pmm_layout P N K s" and "i < j" and "j < N"
  shows "apart (mem_stack s + of_nat (8 * j)) 8 (mem_stack s + of_nat (8 * i)) 8"
proof -
  have "unat (pmm_map s) + 8 * K \<le> 2 ^ 63" "unat (mem_stack s) + 8 * N \<le> unat (pmm_map s)"
    using assms(1) by (simp_all add: pmm_layout_def)
  then show ?thesis
    using assms(2,3) stack_addr [OF assms(1), of i] stack_addr [OF assms(1), of j]
    by (intro apart_below(2)) (simp_all del: of_nat_mult)
qed

lemma pmm_frames_map_update:
  assumes "pmm_layout P N K s" and "unat (free_blocks s) < N" and "unat w < K"
  shows "pmm_frames (s\<lparr>mem := store64 (mem s) (pmm_map s + 8 * w) v\<rparr>) = pmm_frames s"
  unfolding pmm_frames_def
  by (rule map_cong) (use assms stack_map_apart [OF assms(1) _ assms(3)] in \<open>auto simp: mem_simps simp del: of_nat_mult\<close>)

lemma pmm_layout_cong:
  "pmm_map t = pmm_map s \<Longrightarrow> mem_stack t = mem_stack s \<Longrightarrow> pmm_layout P N K t = pmm_layout P N K s"
  by (simp add: pmm_layout_def)

lemma frame_word: "pmm_layout P N K s \<Longrightarrow> f \<in> P \<Longrightarrow> unat (f div PMM_BLOCK_SIZE div 64) < K"
  by (simp add: pmm_layout_def unat_div_distrib)

lemma mmap_alloc_frames:
  assumes "pmm_layout P N K s" and "unat (free_blocks s) < N" and "f \<in> P"
  shows "pmm_frames (mmap_alloc (f div PMM_BLOCK_SIZE) s) = pmm_frames s"
    "pmm_frames (mmap_free (f div PMM_BLOCK_SIZE) s) = pmm_frames s"
  unfolding mmap_alloc_def mmap_free_def Let_def
  by (rule pmm_frames_map_update [OF assms(1,2)], rule frame_word [OF assms(1,3)])+

lemma mmap_fields [simp]:
  "pmm_map (mmap_alloc b s) = pmm_map s" "mem_stack (mmap_alloc b s) = mem_stack s"
  "free_blocks (mmap_alloc b s) = free_blocks s"
  "pmm_map (mmap_free b s) = pmm_map s" "mem_stack (mmap_free b s) = mem_stack s"
  "free_blocks (mmap_free b s) = free_blocks s"
  by (simp_all add: mmap_alloc_def mmap_free_def Let_def)

lemma gmem_frame:
  assumes ok: "pmm_ok P N K s" and fs: "pmm_frames s = fs @ [f]"
  shows "\<exists>s'. gmem s = (f, s') \<and> pmm_ok P N K s' \<and> pmm_frames s' = fs"
proof -
  have lay: "pmm_layout P N K s" using ok by (simp add: pmm_ok_def)
  let ?n = "unat (free_blocks s)"
  have n: "?n = Suc (length fs)" using fs by (metis length_append_singleton length_pmm_frames)
  then have pos: "free_blocks s > 0" by (simp add: word_less_nat_alt)
  have nN: "?n < N" using pmm_frames_bound [OF ok] lay by (simp add: pmm_layout_def)
  have "free_blocks s = of_nat ?n" by simp
  then have addr: "8 * free_blocks s = of_nat (8 * ?n)" by (metis of_nat_mult of_nat_numeral)
  have split: "pmm_frames s = map (\<lambda>i. load64 (mem s) (mem_stack s + of_nat (8 * i))) [1..<?n]
      @ [load64 (mem s) (mem_stack s + of_nat (8 * ?n))]"
    using n by (simp add: pmm_frames_def)
  let ?s = "s\<lparr>free_blocks := free_blocks s - 1\<rparr>"
  have n1: "unat (free_blocks s - 1) = length fs" using n pos by (simp add: unat_minus_one)
  have f: "load64 (mem s) (mem_stack s + 8 * free_blocks s) = f" and fs': "pmm_frames ?s = fs"
    using split fs n n1 by (simp_all add: addr pmm_frames_def del: of_nat_mult)
  have fP: "f \<in> P" using ok fs by (simp add: pmm_ok_def)
  have lay': "pmm_layout P N K ?s" using lay by (simp add: pmm_layout_def)
  let ?t = "mmap_alloc (f div PMM_BLOCK_SIZE) ?s"
  have "pmm_frames ?t = fs"
    using mmap_alloc_frames(1) [OF lay' _ fP] fs' nN n n1 by simp
  moreover have "pmm_layout P N K ?t" using lay' by (simp add: pmm_layout_def)
  moreover have "gmem s = (f, ?t)" using pos f by (simp add: gmem_def pop_def Let_def)
  ultimately show ?thesis using ok fs by (simp add: pmm_ok_def)
qed

lemma gmem_empty:
  assumes "pmm_frames s = []" shows "gmem s = (- 1, s)"
proof -
  have "unat (free_blocks s) = length (pmm_frames s)" by simp
  also have "\<dots> = 0" unfolding assms by simp
  finally have "free_blocks s = 0" by (simp add: unat_eq_zero)
  then show ?thesis by (simp add: gmem_def)
qed

lemma push_frames:
  assumes "pmm_layout P N K s" and "Suc (unat (free_blocks s)) < N"
  shows "pmm_frames (push f s) = pmm_frames s @ [f]"
proof -
  let ?n = "unat (free_blocks s)"
  have N64: "8 * N \<le> 2 ^ 63" using assms(1) by (simp add: pmm_layout_def)
  have n1: "unat (free_blocks s + 1) = Suc ?n"
    using assms(2) N64 unat_add_small [of "free_blocks s" 1] by simp
  have "free_blocks s = of_nat ?n" by simp
  then have "8 * free_blocks s = of_nat (8 * ?n)" by (metis of_nat_mult of_nat_numeral)
  then have addr: "mem_stack s + 8 * free_blocks s + 8 = mem_stack s + of_nat (8 * Suc ?n)"
    by (simp only: mult_Suc_right of_nat_add of_nat_numeral add.assoc add.commute [of 8])
  let ?m = "store64 (mem s) (mem_stack s + of_nat (8 * Suc ?n)) f"
  have "map (\<lambda>i. load64 ?m (mem_stack s + of_nat (8 * i))) [1..<Suc ?n] = pmm_frames s"
    unfolding pmm_frames_def
  proof (rule map_cong [OF refl])
    fix i assume "i \<in> set [1..<Suc ?n]"
    then have "i < Suc ?n" by auto
    from stack_stack_apart [OF assms(1) this assms(2)]
    show "load64 ?m (mem_stack s + of_nat (8 * i)) = load64 (mem s) (mem_stack s + of_nat (8 * i))"
      by (rule c64.ld_st_apart)
  qed
  moreover have "load64 ?m (mem_stack s + of_nat (8 * Suc ?n)) = f" by (rule c64.ld_st)
  ultimately show ?thesis
    unfolding push_def addr by (simp add: pmm_frames_def n1 del: of_nat_mult mult_Suc_right)
qed

lemma fmem_frame:
  assumes ok: "pmm_ok P N K s" and "f \<in> P" and "f \<notin> set (pmm_frames s)" and "fmem f s = (r, s')"
  shows "pmm_ok P N K s' \<and> pmm_frames s' = (if r = 1 then pmm_frames s @ [f] else pmm_frames s)"
proof -
  have lay: "pmm_layout P N K s" using ok by (simp add: pmm_ok_def)
  have al: "f mod PMM_BLOCK_SIZE = 0" using lay assms(2) by (simp add: pmm_layout_def)
  show ?thesis
  proof (cases "mmap_is_occ (f div PMM_BLOCK_SIZE) s")
    case False
    then show ?thesis using assms(4) ok al by (simp add: fmem_def Let_def)
  next
    case True
    let ?s = "mmap_free (f div PMM_BLOCK_SIZE) s"
    have r: "r = 1" "s' = push f ?s" using True assms(4) al by (simp_all add: fmem_def Let_def)
    have "distinct (pmm_frames s @ [f])" "set (pmm_frames s @ [f]) \<subseteq> P" "finite P"
      using ok assms(2,3) by (auto simp: pmm_ok_def pmm_layout_def)
    then have "length (pmm_frames s @ [f]) \<le> card P" by (metis card_mono distinct_card)
    then have N: "Suc (unat (free_blocks s)) < N" using lay by (simp add: pmm_layout_def)
    then have "pmm_frames ?s = pmm_frames s" by (intro mmap_alloc_frames(2) [OF lay _ assms(2)]) simp
    moreover have "pmm_layout P N K ?s" using lay by (simp add: pmm_layout_def)
    ultimately have "pmm_frames s' = pmm_frames s @ [f]"
      using push_frames [of P N K ?s f] N r by simp
    moreover have "pmm_layout P N K s'" using lay r by (simp add: pmm_layout_def push_def)
    ultimately show ?thesis using ok assms(2,3) r by (simp add: pmm_ok_def)
  qed
qed

text \<open>What the allocator writes: its stack and its bitmap.\<close>

lemma store64_outside:
  "unat b + 8 \<le> 2 ^ 64 \<Longrightarrow> unat a < unat b \<or> unat b + 8 \<le> unat a \<Longrightarrow> store64 m b v a = m a"
proof -
  assume b: "unat b + 8 \<le> 2 ^ 64" and ab: "unat a < unat b \<or> unat b + 8 \<le> unat a"
  have "\<not> in_range b 8 a"
  proof (cases "b \<le> a")
    case True
    then have "unat (a - b) = unat a - unat b" "unat b \<le> unat a" by (simp_all add: unat_sub word_le_nat_alt)
    then show ?thesis using ab by (simp add: in_range_def)
  next
    case False
    then have "unat a < unat b" by (simp add: word_le_nat_alt)
    moreover have "b \<le> b" by simp
    ultimately have "unat (a - b) = 2 ^ 64 + unat a - unat b"
      using unat_sub_if_size [of a b] by (simp add: word_size)
    then show ?thesis using b by (simp add: in_range_def)
  qed
  then show ?thesis by (simp add: store64_def store_bytes_other)
qed

definition pmm_area :: "nat \<Rightarrow> 'a pmm_state_scheme \<Rightarrow> u64 \<Rightarrow> bool" where
  "pmm_area K s a \<longleftrightarrow> unat (mem_stack s) \<le> unat a \<and> unat a < unat (pmm_map s) + 8 * K"

lemma pmm_word_outside:
  assumes "pmm_layout P N K s" and "unat w < K" and "\<not> pmm_area K s a"
  shows "store64 m (pmm_map s + 8 * w) v a = m a"
proof (rule store64_outside)
  have m: "unat (pmm_map s + 8 * w) = unat (pmm_map s) + 8 * unat w" by (rule map_addr [OF assms(1,2)])
  have l: "unat (pmm_map s) + 8 * K \<le> 2 ^ 63" "unat (mem_stack s) + 8 * N \<le> unat (pmm_map s)"
    using assms(1) by (simp_all add: pmm_layout_def)
  show "unat (pmm_map s + 8 * w) + 8 \<le> 2 ^ 64" using l(1) assms(2) by (simp add: m)
  show "unat a < unat (pmm_map s + 8 * w) \<or> unat (pmm_map s + 8 * w) + 8 \<le> unat a"
    using assms(2,3) l(2) unfolding m pmm_area_def by linarith
qed

lemma gmem_writes:
  assumes "pmm_ok P N K s" and "gmem s = (f, s')" and "\<not> pmm_area K s a"
  shows "mem s' a = mem s a"
proof (cases "pmm_frames s" rule: rev_cases)
  case Nil
  then show ?thesis using gmem_empty [OF Nil] assms(2) by simp
next
  case (snoc fs g)
  have lay: "pmm_layout P N K s" using assms(1) by (simp add: pmm_ok_def)
  from gmem_frame [OF assms(1) snoc] assms(2) have "f = g" by simp
  then have fP: "f \<in> P" using assms(1) snoc by (simp add: pmm_ok_def)
  have "free_blocks s > 0"
    using snoc length_pmm_frames [of s] by (simp add: word_less_nat_alt)
  then have s': "s' = mmap_alloc (f div PMM_BLOCK_SIZE) (s\<lparr>free_blocks := free_blocks s - 1\<rparr>)"
    using assms(2) by (auto simp: gmem_def pop_def Let_def)
  show ?thesis
    unfolding s' mmap_alloc_def Let_def
    using pmm_word_outside [OF lay frame_word [OF lay fP] assms(3)] by simp
qed

lemma gmem_rest:
  assumes "gmem s = (f, s')"
  shows "s' = s\<lparr>mem := mem s', free_blocks := free_blocks s'\<rparr>"
  using assms by (auto simp: gmem_def pop_def mmap_alloc_def Let_def split: if_splits)

lemma fmem_writes:
  assumes "pmm_ok P N K s" and "f \<in> P" and "f \<notin> set (pmm_frames s)" and "fmem f s = (r, s')"
    and "\<not> pmm_area K s a"
  shows "mem s' a = mem s a"
proof -
  have lay: "pmm_layout P N K s" using assms(1) by (simp add: pmm_ok_def)
  have fr: "pmm_frames s' = (if r = 1 then pmm_frames s @ [f] else pmm_frames s)"
    "pmm_ok P N K s'" using fmem_frame [OF assms(1-4)] by blast+
  show ?thesis
  proof (cases "r = 1")
    case False
    then show ?thesis using assms(4) by (auto simp: fmem_def Let_def split: if_splits)
  next
    case True
    let ?s = "mmap_free (f div PMM_BLOCK_SIZE) s"
    have s': "s' = push f ?s" using True assms(4) by (auto simp: fmem_def Let_def split: if_splits)
    have N: "8 * N \<le> 2 ^ 63" "unat (mem_stack s) + 8 * N \<le> unat (pmm_map s)"
      "unat (pmm_map s) + 8 * K \<le> 2 ^ 63" using lay by (simp_all add: pmm_layout_def)
    have "Suc (unat (free_blocks s)) = unat (free_blocks s')"
      using fr(1) True length_pmm_frames [of s'] by simp
    then have nN: "Suc (unat (free_blocks s)) < N"
      using pmm_frames_bound [OF fr(2)] lay by (simp add: pmm_layout_def)
    have "free_blocks s = of_nat (unat (free_blocks s))" by simp
    then have "8 * free_blocks s = of_nat (8 * unat (free_blocks s))" by (metis of_nat_mult of_nat_numeral)
    then have addr: "mem_stack s + 8 * free_blocks s + 8 = mem_stack s + of_nat (8 * Suc (unat (free_blocks s)))"
      by (simp only: mult_Suc_right of_nat_add of_nat_numeral add.assoc add.commute [of 8])
    define x where "x = mem_stack s + of_nat (8 * Suc (unat (free_blocks s)))"
    have ux: "unat x = unat (mem_stack s) + 8 * Suc (unat (free_blocks s))"
      unfolding x_def by (rule stack_addr [OF lay nN])
    have x: "unat x + 8 \<le> unat (mem_stack s) + 8 * N" using ux nN by arith
    have x': "unat (mem_stack s) \<le> unat x" using ux by arith
    have "unat x + 8 \<le> 2 ^ 63" using x N by linarith
    then have "unat x + 8 \<le> 2 ^ 64" by (rule order_trans) simp
    moreover have "unat a < unat x \<or> unat x + 8 \<le> unat a"
      using assms(5) x x' N(2) unfolding pmm_area_def by linarith
    ultimately have "store64 m x f a = m a" for m by (rule store64_outside)
    then have "mem s' a = mem ?s a"
      unfolding s' push_def by (simp add: addr x_def del: of_nat_mult mult_Suc_right)
    also have "\<dots> = mem s a"
      unfolding mmap_free_def Let_def
      using pmm_word_outside [OF lay frame_word [OF lay assms(2)] assms(5)] by simp
    finally show ?thesis .
  qed
qed

interpretation pmm: frame_allocator gmem fmem pmm_frames "pmm_ok P N K" P "- 1 :: u64"
  for P N K
proof unfold_locales
  fix s :: "'a pmm_state_scheme" and f :: u64 and fs r s'
  assume ok: "pmm_ok P N K s"
  show "distinct (pmm_frames s) \<and> set (pmm_frames s) \<subseteq> P" using ok by (simp add: pmm_ok_def)
  show "- 1 \<notin> P"
  proof
    assume "- 1 \<in> P"
    then have "(- 1 :: u64) mod PMM_BLOCK_SIZE = 0" using ok unfolding pmm_ok_def pmm_layout_def by blast
    then show False by simp
  qed
  show "pmm_frames s = fs @ [f] \<Longrightarrow> \<exists>s'. gmem s = (f, s') \<and> pmm_ok P N K s' \<and> pmm_frames s' = fs"
    by (rule gmem_frame [OF ok])
  show "pmm_frames s = [] \<Longrightarrow> gmem s = (- 1, s)" by (rule gmem_empty)
  show "f \<in> P \<Longrightarrow> f \<notin> set (pmm_frames s) \<Longrightarrow> fmem f s = (r, s') \<Longrightarrow>
      pmm_ok P N K s' \<and> pmm_frames s' = (if r = 1 then pmm_frames s @ [f] else pmm_frames s)"
    by (rule fmem_frame [OF ok])
qed

subsection \<open>The start\<close>

lemma reserve_loop_mem: "\<exists>M. reserve_loop n s = s\<lparr>mem := M\<rparr>"
proof (induction n)
  case 0
  show ?case by (rule exI [of _ "mem s"]) simp
next
  case (Suc n)
  then show ?case by (auto simp: mmap_alloc_def Let_def)
qed

text \<open>The sizes that \<open>init_mem\<close> computes for \<open>m\<close> megabytes, with the kernel's reservation of 256 MB.\<close>

definition pmm_B :: "nat \<Rightarrow> nat" where "pmm_B m = m div 16"
definition pmm_S :: "nat \<Rightarrow> nat" where "pmm_S m = m div 2"
definition pmm_R :: "nat \<Rightarrow> nat" where "pmm_R m = 65537 + pmm_B m + pmm_S m"

definition pmm_pool :: "nat \<Rightarrow> u64 set" where
  "pmm_pool m = (\<lambda>p. of_nat (4096 * p)) ` {Suc (pmm_R m)..<256 * m}"

lemma total_blocks:
  assumes "unat (get_memory_size s) = m" and "m < 4096"
  shows "PMM_TOTAL_BLOCKS s = of_nat (256 * m)"
proof -
  have "get_memory_size s * 1024 * 1024 = of_nat (m * 1048576)" using assms(1) by auto
  then have "PMM_TOTAL_BLOCKS s = of_nat (m * 1048576) div of_nat 4096" by (simp add: PMM_TOTAL_BLOCKS_def)
  also have "\<dots> = of_nat (m * 1048576 div 4096)"
    by (rule word_div_of_nat) (use assms(2) in simp_all)
  also have "m * 1048576 div 4096 = 256 * m" by simp
  finally show ?thesis .
qed

lemma scast_of_nat_32: "k < 2 ^ 31 \<Longrightarrow> (scast (of_nat k :: u32) :: u64) = of_nat k"
  by (rule scast_count)

lemma ucast_of_nat_32: "k < 2 ^ 32 \<Longrightarrow> (ucast (of_nat k :: u32) :: u64) = of_nat k"
proof -
  assume "k < 2 ^ 32"
  then have "take_bit 32 k = k" by (intro take_bit_nat_eq_self) simp
  then show ?thesis by (simp add: unsigned_of_nat)
qed

lemma pmm_R_less: "300 \<le> m \<Longrightarrow> pmm_R m + 1 < 256 * m"
  unfolding pmm_R_def pmm_B_def pmm_S_def by linarith

lemma init_mem_eq:
  assumes m: "unat (get_memory_size s) = m" "300 \<le> m" "m < 4096"
  shows "\<exists>M. init_mem 0x10000000 s = (ucast (of_nat (4096 * pmm_R m) :: u64), s\<lparr>
    reserved_pages := of_nat (pmm_R m), pmm_map := of_nat (4096 * (65537 + pmm_S m)),
    mem_stack := of_nat (4096 * 65537), free_blocks := of_nat (256 * m - pmm_R m - 1),
    mem := c64.fill M (of_nat (4096 * 65537)) (\<lambda>i. of_nat (4096 * (pmm_R m + i))) (256 * m - pmm_R m)\<rparr>)"
proof -
  note t = total_blocks [OF m(1,3)]
  have b: "pmm_B m < 256" "pmm_S m < 2048" "pmm_R m < 70000"
    using m(3) by (simp_all add: pmm_R_def pmm_B_def pmm_S_def)
  have B: "PMM_TOTAL_BLOCKS s div 4096 = of_nat (pmm_B m)"
  proof -
    have "(of_nat (256 * m) :: u32) div of_nat 4096 = of_nat (256 * m div 4096)"
      by (rule word_div_of_nat) (use m(3) in simp_all)
    moreover have "256 * m div 4096 = pmm_B m" by (simp add: pmm_B_def)
    ultimately show ?thesis by (simp only: t) simp
  qed
  have tu: "(ucast (PMM_TOTAL_BLOCKS s) :: u64) = of_nat (256 * m)"
    unfolding t by (rule ucast_of_nat_32) (use m(3) in simp)
  have S: "(ucast (ucast (PMM_TOTAL_BLOCKS s) * 8 div 4096 :: u64) :: u32) = of_nat (pmm_S m)"
  proof -
    have "(of_nat (2048 * m) :: u64) div of_nat 4096 = of_nat (2048 * m div 4096)"
      by (rule word_div_of_nat) (use m(3) in simp_all)
    moreover have "2048 * m div 4096 = pmm_S m" by (simp add: pmm_S_def)
    moreover have "take_bit 64 (pmm_S m) = pmm_S m" using b(2) by (intro take_bit_nat_eq_self) simp
    moreover have "(ucast (PMM_TOTAL_BLOCKS s) * 8 :: u64) = of_nat (2048 * m)" by (simp add: tu)
    ultimately show ?thesis by (simp add: unsigned_of_nat)
  qed
  have r: "(word_of_int (sint (0x10000000 :: u32) sdiv 4096) :: u32) = 65536" by simp
  have R: "scast ((65536 :: u32) + 1 + of_nat (pmm_B m) + of_nat (pmm_S m)) = (of_nat (pmm_R m) :: u64)"
  proof -
    have "(65536 :: u32) + 1 + of_nat (pmm_B m) + of_nat (pmm_S m) = of_nat (pmm_R m)"
      by (simp add: pmm_R_def)
    moreover have "(scast (of_nat (pmm_R m) :: u32) :: u64) = of_nat (pmm_R m)"
      by (rule scast_of_nat_32) (use b(3) in simp)
    ultimately show ?thesis by (simp only:)
  qed
  have sc: "(scast (of_nat (pmm_B m) :: u32) :: u64) = of_nat (pmm_B m)"
    "(scast (of_nat (pmm_S m) :: u32) :: u64) = of_nat (pmm_S m)"
    using b by (intro scast_of_nat_32; simp)+
  have u: "unat (of_nat (256 * m) :: u32) = 256 * m" "unat (of_nat (pmm_R m) :: u64) = pmm_R m"
    using m(3) b(3) by (intro unat_of_nat_small; simp)+
  have map: "PMM_BLOCK_SIZE * (of_nat (pmm_R m) - of_nat (pmm_B m)) = of_nat (4096 * (65537 + pmm_S m))"
    and stack: "PMM_BLOCK_SIZE * (of_nat (pmm_R m) - of_nat (pmm_B m) - of_nat (pmm_S m)) = of_nat (4096 * 65537)"
    by (simp_all add: pmm_R_def algebra_simps)
  have fb: "(of_nat (256 * m) - of_nat (pmm_R m) - 1 :: u64) = of_nat (256 * m - pmm_R m - 1)"
    using pmm_R_less [OF m(2)] by (simp add: of_nat_diff)
  have idx: "(\<lambda>i. (of_nat (pmm_R m) + of_nat i) * PMM_BLOCK_SIZE) = (\<lambda>i. of_nat (4096 * (pmm_R m + i)))"
    by (simp add: algebra_simps)
  show ?thesis
    unfolding init_mem_def Let_def B S r
    unfolding R sc
    unfolding tu map stack fb idx
    unfolding t u
    using reserve_loop_mem [of "pmm_R m" "s\<lparr>reserved_pages := of_nat (pmm_R m),
        pmm_map := of_nat (4096 * (65537 + pmm_S m)), mem_stack := of_nat (4096 * 65537),
        free_blocks := of_nat (256 * m - pmm_R m - 1),
        mem := zero_loop (unat (of_nat (256 * m) div 64 :: u32) + 1)
          (of_nat (4096 * (65537 + pmm_S m))) (mem s)\<rparr>"]
    by (auto simp: mult.commute)
qed

text \<open>
  \<open>init_mem\<close> leaves the pages from \<open>pmm_R m + 1\<close> up to the end of memory free, in this order.
\<close>

lemma init_mem_frames:
  assumes m: "unat (get_memory_size s) = m" "300 \<le> m" "m < 4096" and i: "init_mem 0x10000000 s = (r, s')"
  shows "pmm_frames s' = map (\<lambda>p. of_nat (4096 * p)) [Suc (pmm_R m)..<256 * m]"
proof -
  obtain M where s': "s' = s\<lparr>
    reserved_pages := of_nat (pmm_R m), pmm_map := of_nat (4096 * (65537 + pmm_S m)),
    mem_stack := of_nat (4096 * 65537), free_blocks := of_nat (256 * m - pmm_R m - 1),
    mem := c64.fill M (of_nat (4096 * 65537)) (\<lambda>i. of_nat (4096 * (pmm_R m + i))) (256 * m - pmm_R m)\<rparr>"
    using init_mem_eq [OF m] i by auto
  let ?n = "256 * m - pmm_R m"
  have lt: "pmm_R m + 1 < 256 * m" by (rule pmm_R_less [OF m(2)])
  have fb: "unat (free_blocks s') = ?n - 1"
    unfolding s' using m(3) by (simp add: unat_of_nat_small del: of_nat_diff)
  have Suc_n: "Suc (?n - 1) = ?n" using lt by simp
  have "load64 (mem s') (mem_stack s' + of_nat (8 * i)) = of_nat (4096 * (pmm_R m + i))" if "i < ?n" for i
    unfolding s' using c64.ld_fill [OF that] m(3) by (simp del: of_nat_mult of_nat_add)
  then have "pmm_frames s' = map (\<lambda>i. of_nat (4096 * (pmm_R m + i))) [1..<?n]"
    unfolding pmm_frames_def fb Suc_n by (intro map_cong refl) (simp only: atLeastLessThan_iff set_upt)
  also have "\<dots> = map (\<lambda>p. of_nat (4096 * p)) (map (\<lambda>i. i + pmm_R m) [1..<?n])"
    by (simp add: add.commute comp_def del: of_nat_mult)
  also have "map (\<lambda>i. i + pmm_R m) [1..<?n] = [Suc (pmm_R m)..<256 * m]"
    by (rule nth_equalityI) (use lt in simp_all)
  finally show ?thesis .
qed

lemma page_addr_inj: "p < 2 ^ 52 \<Longrightarrow> q < 2 ^ 52 \<Longrightarrow> (of_nat (4096 * p) :: u64) = of_nat (4096 * q) \<Longrightarrow> p = q"
  using unat_of_nat_small [of "4096 * p", where 'a = 64] unat_of_nat_small [of "4096 * q", where 'a = 64]
  by simp

lemma init_mem_ok:
  assumes m: "unat (get_memory_size s) = m" "300 \<le> m" "m < 4096" and i: "init_mem 0x10000000 s = (r, s')"
  shows "pmm_ok (pmm_pool m) (256 * m - pmm_R m) (4 * m + 1) s'"
proof -
  obtain M where s': "s' = s\<lparr>
    reserved_pages := of_nat (pmm_R m), pmm_map := of_nat (4096 * (65537 + pmm_S m)),
    mem_stack := of_nat (4096 * 65537), free_blocks := of_nat (256 * m - pmm_R m - 1),
    mem := c64.fill M (of_nat (4096 * 65537)) (\<lambda>i. of_nat (4096 * (pmm_R m + i))) (256 * m - pmm_R m)\<rparr>"
    using init_mem_eq [OF m] i by auto
  have lt: "pmm_R m + 1 < 256 * m" by (rule pmm_R_less [OF m(2)])
  have fr: "pmm_frames s' = map (\<lambda>p. of_nat (4096 * p)) [Suc (pmm_R m)..<256 * m]"
    by (rule init_mem_frames [OF m i])
  have inj: "inj_on (\<lambda>p. of_nat (4096 * p) :: u64) {Suc (pmm_R m)..<256 * m}"
    by (rule inj_onI, rule page_addr_inj) (use m(3) in auto)
  have S: "pmm_S m < 2048" using m(3) by (simp add: pmm_S_def)
  have map: "unat (pmm_map s') = 4096 * (65537 + pmm_S m)" "unat (mem_stack s') = 4096 * 65537"
    unfolding s' using S by (simp_all add: unat_of_nat_small del: of_nat_mult of_nat_add)
  have "card (pmm_pool m) = 256 * m - Suc (pmm_R m)"
    unfolding pmm_pool_def using card_image [OF inj] by simp
  moreover have "f mod PMM_BLOCK_SIZE = 0 \<and> unat (f div PMM_BLOCK_SIZE) div 64 < 4 * m + 1
          \<and> unat (pmm_map s') + 8 * (4 * m + 1) \<le> unat f \<and> unat f + 4096 \<le> 2 ^ 63" if "f \<in> pmm_pool m" for f
  proof -
    have "\<exists>p. f = of_nat (4096 * p) \<and> Suc (pmm_R m) \<le> p \<and> p < 256 * m"
      using that unfolding pmm_pool_def image_iff Bex_def atLeastLessThan_iff by blast
    then obtain p where p: "f = of_nat (4096 * p)" "Suc (pmm_R m) \<le> p" "p < 256 * m" by blast
    have uf: "unat f = 4096 * p" unfolding p(1) by (rule unat_of_nat_small) (use p m(3) in simp)
    have "unat (f mod PMM_BLOCK_SIZE) = 0" by (simp add: unat_mod_distrib uf)
    moreover have "unat (f div PMM_BLOCK_SIZE) = p" by (simp add: unat_div_distrib uf)
    moreover have "4096 * (65537 + pmm_S m) + 8 * (4 * m + 1) \<le> 4096 * p"
    proof -
      have "m \<le> 16 * (m div 16) + 15" by linarith
      then have "4096 * (65537 + pmm_S m) + 8 * (4 * m + 1) \<le> 4096 * (65538 + m div 16 + pmm_S m)"
        by (simp add: algebra_simps)
      also have "\<dots> \<le> 4096 * p"
        by (rule mult_le_mono2) (use p(2) in \<open>simp add: pmm_R_def pmm_B_def\<close>)
      finally show ?thesis .
    qed
    moreover have "p div 64 < 4 * m" by (rule less_mult_imp_div_less) (use p(3) in simp)
    ultimately show ?thesis using p(2,3) m(3) by (simp add: uf map unat_eq_zero)
  qed
  moreover have "4096 * 65537 + 8 * (256 * m - pmm_R m) \<le> 4096 * (65537 + pmm_S m)"
  proof -
    have "m \<le> 2 * pmm_S m + 1" unfolding pmm_S_def by linarith
    then have "2048 * m \<le> 4096 * pmm_S m + 2048" by simp
    moreover have "8 * (256 * m - pmm_R m) \<le> 2048 * m - 8 * 65537" by (simp add: pmm_R_def)
    ultimately have "8 * (256 * m - pmm_R m) \<le> 4096 * pmm_S m" by simp
    then show ?thesis by (simp add: algebra_simps)
  qed
  moreover have "4096 * (65537 + pmm_S m) + 8 * (4 * m + 1) \<le> 2 ^ 63" using S m(3) by simp
  ultimately have "pmm_layout (pmm_pool m) (256 * m - pmm_R m) (4 * m + 1) s'"
    using lt by (auto simp: pmm_layout_def map pmm_pool_def)
  moreover have "distinct (pmm_frames s')" unfolding fr using inj by (simp add: distinct_map)
  moreover have "set (pmm_frames s') \<subseteq> pmm_pool m" by (simp add: fr pmm_pool_def)
  ultimately show ?thesis by (simp add: pmm_ok_def)
qed

subsection \<open>The bitmap as \<open>fmem\<close> sees it\<close>

lemma int_shl1_nonzero: "int_shl1 b \<noteq> 0"
proof
  assume z: "int_shl1 b = 0"
  define k where "k = unat (b mod 64) mod 32"
  have k: "k < 32" by (simp add: k_def)
  have "bit (int_shl1 b) k \<longleftrightarrow> bit (push_bit k 1 :: u32) k"
    unfolding int_shl1_def k_def [symmetric] using k by (simp add: bit_signed_iff)
  also have "\<dots>" using k by (simp add: bit_exp_iff)
  finally show False by (simp add: z)
qed

lemma occ_after_alloc: "mmap_is_occ b (mmap_alloc b s)"
proof -
  let ?w = "load64 (mem s) (pmm_map s + 8 * (b div 64))"
  have "(?w OR int_shl1 b) AND int_shl1 b = int_shl1 b" by (rule bit_word_eqI) (auto simp: bit_simps)
  then show ?thesis
    using int_shl1_nonzero [of b] by (simp add: mmap_is_occ_def mmap_alloc_def Let_def cell_simps)
qed

lemma free_after_free:
  assumes "b div 64 = c div 64" and "int_shl1 b = int_shl1 c"
  shows "\<not> mmap_is_occ c (mmap_free b s)"
proof -
  let ?w = "load64 (mem s) (pmm_map s + 8 * (b div 64))"
  have "(?w AND NOT (int_shl1 b)) AND int_shl1 b = 0" by (rule bit_word_eqI) (auto simp: bit_simps)
  then show ?thesis
    using assms(2) by (simp add: mmap_is_occ_def mmap_free_def Let_def cell_simps flip: assms(1))
qed

text \<open>Pushing an address leaves the bitmap words.\<close>

lemma occ_push:
  assumes "pmm_layout P N K s" and "Suc (unat (free_blocks s)) < N" and "unat (b div 64) < K"
  shows "mmap_is_occ b (push f s) = mmap_is_occ b s"
proof -
  let ?i = "Suc (unat (free_blocks s))"
  have "free_blocks s = of_nat (unat (free_blocks s))" by simp
  then have "8 * free_blocks s = of_nat (8 * unat (free_blocks s))" by (metis of_nat_mult of_nat_numeral)
  then have addr: "mem_stack s + 8 * free_blocks s + 8 = mem_stack s + of_nat (8 * ?i)"
    by (simp only: mult_Suc_right of_nat_add of_nat_numeral add.assoc add.commute [of 8])
  have "apart (mem_stack s + of_nat (8 * ?i)) 8 (pmm_map s + 8 * (b div 64)) 8"
    using stack_map_apart [OF assms] by (simp only: apart_sym)
  then show ?thesis
    by (simp add: mmap_is_occ_def push_def addr c64.ld_st_apart del: of_nat_mult mult_Suc_right)
qed

subsection \<open>Properties\<close>

definition pmm_boot :: pmm_state where
  "pmm_boot = console_state.extend (console_boot\<lparr>mem := (\<lambda>_. 0)(0x5021 := 2)\<rparr>) (pmm_state.fields 0 0 0 0)"

definition pmm_start :: pmm_state where
  "pmm_start = snd (init_mem 0x10000000 pmm_boot)"

lemma pmm_boot_size: "unat (get_memory_size pmm_boot) = 512"
proof -
  have "load_bytes (mem pmm_boot) 0x5020 4 = [0, 2, 0, 0]"
    by (simp add: pmm_boot_def pmm_state.defs console_state.defs load_bytes_def upt_rec numeral_eq_Suc)
  then show ?thesis by (simp add: get_memory_size_def load32_def)
qed

lemma pmm_start_ok: "pmm_ok (pmm_pool 512) (256 * 512 - pmm_R 512) (4 * 512 + 1) pmm_start"
  by (rule init_mem_ok [OF pmm_boot_size]) (simp_all add: pmm_start_def prod_eq_iff)

lemma pmm_start_frames: "pmm_frames pmm_start = map (\<lambda>p. of_nat (4096 * p)) [Suc (pmm_R 512)..<256 * 512]"
  by (rule init_mem_frames [OF pmm_boot_size]) (simp_all add: pmm_start_def prod_eq_iff)

lemma upt_last: "i < n \<Longrightarrow> [i..<n] = [i..<n - 1] @ [n - 1]"
  by (cases n) simp_all

lemma pmm_start_split: "pmm_frames pmm_start =
  map (\<lambda>p. of_nat (4096 * p)) [Suc (pmm_R 512)..<256 * 512 - 1] @ [of_nat (4096 * (256 * 512 - 1))]"
proof -
  have "[Suc (pmm_R 512)..<256 * 512] = [Suc (pmm_R 512)..<256 * 512 - 1] @ [256 * 512 - 1]"
    by (rule upt_last) (simp add: pmm_R_def pmm_B_def pmm_S_def)
  then show ?thesis unfolding pmm_start_frames by (simp only: map_append list.map)
qed

text \<open>C2: No page frame has two owners: under every sequence of \<open>gmem\<close> and \<open>fmem\<close> by clients that
  give back only frames they hold, the frames held and the frames on the free stack stay disjoint,
  the stack has no frame twice, and no frame appears that was not there at the start.\<close>

theorem frames_never_shared:
  assumes "pmm_ok P N K s" and "pmm.client\<^sup>*\<^sup>* ({}, s) (H, t)"
  shows "pmm_ok P N K t \<and> H \<inter> set (pmm_frames t) = {} \<and> distinct (pmm_frames t)
    \<and> H \<union> set (pmm_frames t) \<subseteq> set (pmm_frames s)"
  using pmm.client_safe [OF assms(2,1)] by (auto simp: pmm_ok_def)

theorem frames_never_shared_witness:
  "\<exists>H t. pmm.client\<^sup>*\<^sup>* ({}, pmm_start) (H, t) \<and> H \<noteq> {}
    \<and> pmm_ok (pmm_pool 512) (256 * 512 - pmm_R 512) (4 * 512 + 1) t
    \<and> H \<inter> set (pmm_frames t) = {} \<and> distinct (pmm_frames t)
    \<and> H \<union> set (pmm_frames t) \<subseteq> set (pmm_frames pmm_start)"
proof -
  let ?f = "of_nat (4096 * (256 * 512 - 1)) :: u64"
  obtain t where t: "gmem pmm_start = (?f, t)" using pmm.alloc_frame [OF pmm_start_ok pmm_start_split] by blast
  have "?f \<noteq> - 1" by simp
  from pmm.client.take [OF t this] have "pmm.client\<^sup>*\<^sup>* ({}, pmm_start) ({?f}, t)" by blast
  then show ?thesis using frames_never_shared [OF pmm_start_ok] by blast
qed

text \<open>\<open>init_mem\<close> on a machine with \<open>m\<close> megabytes (300 to 4095) leaves on the free stack exactly the
  pages from behind the reserved ones to the end of memory, each once, and reserves the kernel's
  256 MB, its own stack and its bitmap, which lie below them.\<close>

theorem init_mem_frees:
  assumes "unat (get_memory_size s) = m" and "300 \<le> m" and "m < 4096" and "init_mem 0x10000000 s = (r, t)"
  shows "pmm_frames t = map (\<lambda>p. of_nat (4096 * p)) [Suc (pmm_R m)..<256 * m]
    \<and> pmm_ok (pmm_pool m) (256 * m - pmm_R m) (4 * m + 1) t"
  using init_mem_frames [OF assms] init_mem_ok [OF assms] by blast

theorem init_mem_frees_witness:
  "pmm_frames (snd (init_mem 0x10000000 pmm_boot)) = map (\<lambda>p. of_nat (4096 * p)) [Suc (pmm_R 512)..<256 * 512]
    \<and> pmm_ok (pmm_pool 512) (256 * 512 - pmm_R 512) (4 * 512 + 1) (snd (init_mem 0x10000000 pmm_boot))"
  by (rule init_mem_frees [OF pmm_boot_size, of "fst (init_mem 0x10000000 pmm_boot)"]) simp_all

text \<open>A frame that is taken and given back at once is accepted, and is the next one to be taken:
  \<open>fmem\<close> undoes \<open>gmem\<close> on the free stack.\<close>

theorem gmem_fmem:
  assumes "pmm_ok P N K s" and "pmm_frames s \<noteq> []" and "gmem s = (f, s1)"
  shows "\<exists>s2. fmem f s1 = (1, s2) \<and> pmm_ok P N K s2 \<and> pmm_frames s2 = pmm_frames s"
proof -
  obtain fs where fs: "pmm_frames s = fs @ [f]" "pmm_ok P N K s1" "pmm_frames s1 = fs"
    using gmem_frame [OF assms(1)] assms(2,3) by (cases "pmm_frames s" rule: rev_cases) auto
  have f: "f \<in> P" "f \<notin> set (pmm_frames s1)" using assms(1) fs by (auto simp: pmm_ok_def)
  then have al: "f mod PMM_BLOCK_SIZE = 0" using assms(1) by (simp add: pmm_ok_def pmm_layout_def)
  have "free_blocks s > 0" using fs(1) length_pmm_frames [of s] by (simp add: word_less_nat_alt)
  then have "s1 = mmap_alloc (f div PMM_BLOCK_SIZE) (s\<lparr>free_blocks := free_blocks s - 1\<rparr>)"
    using assms(3) by (auto simp: gmem_def pop_def Let_def)
  then have "mmap_is_occ (f div PMM_BLOCK_SIZE) s1" by (simp add: occ_after_alloc)
  then obtain s2 where "fmem f s1 = (1, s2)" using al by (auto simp: fmem_def Let_def)
  moreover from fmem_frame [OF fs(2) f this] have "pmm_ok P N K s2 \<and> pmm_frames s2 = fs @ [f]" by (simp add: fs(3))
  ultimately show ?thesis using fs(1) by auto
qed

theorem gmem_fmem_witness:
  "\<exists>s2. fmem (fst (gmem pmm_start)) (snd (gmem pmm_start)) = (1, s2)
    \<and> pmm_ok (pmm_pool 512) (256 * 512 - pmm_R 512) (4 * 512 + 1) s2 \<and> pmm_frames s2 = pmm_frames pmm_start"
  by (rule gmem_fmem [OF pmm_start_ok]) (simp_all add: pmm_start_split)

text \<open>Two frames in use that are 32 pages apart in one word of the bitmap share their bit: after one
  of them is given back, the other one is refused as free already, and is lost.\<close>

theorem fmem_loses_frame:
  assumes ok: "pmm_ok P N K s" and f: "f \<in> P" "f \<notin> set (pmm_frames s)" and g: "g \<in> P"
    and page: "unat (f div PMM_BLOCK_SIZE) mod 64 < 32"
    and g32: "g div PMM_BLOCK_SIZE = f div PMM_BLOCK_SIZE + 32"
    and free: "fmem f s = (1, t)"
  shows "fmem g t = (0, t)"
proof -
  let ?b = "f div PMM_BLOCK_SIZE"
  have lay: "pmm_layout P N K s" using ok by (simp add: pmm_ok_def)
  have t: "t = push f (mmap_free ?b s)"
    using free by (auto simp: fmem_def Let_def split: if_splits)
  obtain n where n: "n = unat ?b" by simp
  have n52: "n < 2 ^ 52" using unat_lt64 [of f] by (simp add: n unat_div_distrib)
  have ub: "unat (?b + 32) = n + 32"
    using unat_add_small [of ?b 32] n52 by (simp add: n)
  have "(n + 32) div 64 = n div 64"
    using page div_add1_eq [of n 32 64] by (simp flip: n)
  moreover have "(n + 32) mod 64 mod 32 = n mod 64 mod 32" by (simp add: mod_mod_cancel)
  ultimately have q: "(n + 32) div 64 = n div 64" "(n + 32) mod 64 mod 32 = n mod 64 mod 32" .
  have "unat ((?b + 32) div 64) = unat (?b div 64)" 
    by (simp only: unat_div_distrib [of "?b + 32"] unat_div_distrib [of ?b] ub n [symmetric])
      (simp add: q(1))
  then have d: "?b div 64 = (?b + 32) div 64" by (simp add: word_unat_eq_iff)
  have sh: "int_shl1 ?b = int_shl1 (?b + 32)"
    unfolding int_shl1_def unat_mod_distrib [of ?b] unat_mod_distrib [of "?b + 32"] ub n [symmetric]
    using q(2) by simp
  have "set (pmm_frames t) \<subseteq> P" "distinct (pmm_frames t)" "length (pmm_frames t) = Suc (unat (free_blocks s))"
    using fmem_frame [OF ok f free] ok f by (auto simp: pmm_ok_def)
  then have "Suc (unat (free_blocks s)) \<le> card P"
    using lay by (metis card_mono distinct_card pmm_layout_def)
  then have "Suc (unat (free_blocks (mmap_free ?b s))) < N" using lay by (simp add: pmm_layout_def)
  moreover have "pmm_layout P N K (mmap_free ?b s)" using lay by (simp add: pmm_layout_def)
  moreover have "unat ((?b + 32) div 64) < K" using frame_word [OF lay f(1)] by (simp flip: d)
  ultimately have "mmap_is_occ (?b + 32) t = mmap_is_occ (?b + 32) (mmap_free ?b s)"
    unfolding t by (intro occ_push)
  also have "\<not> \<dots>" by (rule free_after_free [OF d sh])
  finally have "\<not> mmap_is_occ (g div PMM_BLOCK_SIZE) t" by (simp add: g32)
  moreover have "g mod PMM_BLOCK_SIZE = 0" using lay g by (simp add: pmm_layout_def)
  ultimately show ?thesis by (simp add: fmem_def)
qed

definition pmm_tight :: pmm_state where
  "pmm_tight = pmm_boot\<lparr>mem_stack := 0x10000000, pmm_map := 0x10001000, free_blocks := 0,
     mem := store64 (\<lambda>_. 0) (0x10001000 + 8 * 2047) 1\<rparr>"

lemma pmm_tight_ok: "pmm_ok {0x1FFC0000, 0x1FFE0000} 3 2048 pmm_tight"
  by (simp add: pmm_ok_def pmm_layout_def pmm_frames_def pmm_tight_def)

theorem fmem_loses_frame_witness:
  "fmem 0x1FFE0000 (snd (fmem 0x1FFC0000 pmm_tight)) = (0, snd (fmem 0x1FFC0000 pmm_tight))"
proof (rule fmem_loses_frame [OF pmm_tight_ok])
  have "mmap_is_occ (0x1FFC0000 div PMM_BLOCK_SIZE) pmm_tight"
    by (simp add: mmap_is_occ_def pmm_tight_def c64.ld_st int_shl1_def)
  then show "fmem 0x1FFC0000 pmm_tight = (1, snd (fmem 0x1FFC0000 pmm_tight))"
    by (simp add: fmem_def Let_def)
qed (simp_all add: pmm_frames_def pmm_tight_def)

end
