(* ===== verification/Paging.thy ===== *)
theory Paging
  imports Phys_Alloc Lib_Mem
begin

unbundle bit_operations_syntax

section \<open>Kernel/pte.c and Kernel/vmm.c: page tables and virtual memory\<close>

text \<open>
  Page table entries, the walk through the four levels, mapping and freeing of pages, the search
  for free virtual pages with its bitmap of complete page tables, and the identity mapping of the
  first gigabyte.

  Tables are read and written at their physical address. The code uses the same number as a virtual
  address; the two agree as long as a table lies in the gigabyte that is mapped to itself. An
  \<open>int\<close> shift takes its count modulo 32, and its result is extended with its sign, as in
  \<open>Phys_Alloc\<close>. An \<open>entry *\<close> is the address of the entry; a function that changes the entry it points
  to is a function on its value, and its caller stores the result.
\<close>

abbreviation VMM_PAGE_SIZE :: u64 where "VMM_PAGE_SIZE \<equiv> 4096"
abbreviation VMM_TABLE_SIZE :: u64 where "VMM_TABLE_SIZE \<equiv> 4096"
abbreviation VMM_PT_SIZE :: u64 where "VMM_PT_SIZE \<equiv> 2097152"
abbreviation VMM_TOTAL_PTS :: u64 where "VMM_TOTAL_PTS \<equiv> 32768"
abbreviation ENTRIES_PER_TABLE :: nat where "ENTRIES_PER_TABLE \<equiv> 512"
abbreviation ONE_GB_OF_PAGES :: u32 where "ONE_GB_OF_PAGES \<equiv> 262144"
abbreviation MAX_PAGES :: u64 where "MAX_PAGES \<equiv> 16777216"

abbreviation MASK_PRESENT :: u64 where "MASK_PRESENT \<equiv> 0x1"
abbreviation MASK_WRITEABLE :: u64 where "MASK_WRITEABLE \<equiv> 0x2"
abbreviation MASK_USER :: u64 where "MASK_USER \<equiv> 0x4"
abbreviation MASK_TABLE :: u32 where "MASK_TABLE \<equiv> 0x1FF"

definition MASK_FRAME :: u64 where
  "MASK_FRAME = scast (NOT 0xFFF :: u32)"

record vmm_state = pmm_state +
  cr3 :: u64
  cur_bitmap :: u64

text \<open>asm/paging.asm.\<close>

definition read_cr3 :: "'a vmm_state_scheme \<Rightarrow> u64" where
  "read_cr3 s = cr3 s AND 0xFFFFFFFFF000"

definition write_cr3 :: "u64 \<Rightarrow> 'a vmm_state_scheme \<Rightarrow> 'a vmm_state_scheme" where
  "write_cr3 addr s = s\<lparr>cr3 := addr OR 0x8\<rparr>"

subsection \<open>Kernel/pte.c\<close>

definition pte_add_attrib :: "u64 \<Rightarrow> u64 \<Rightarrow> u64" where
  "pte_add_attrib e attrib = e OR attrib"

definition pte_del_attrib :: "u64 \<Rightarrow> u64 \<Rightarrow> u64" where
  "pte_del_attrib e attrib = e AND NOT attrib"

definition pte_set_frame :: "u64 \<Rightarrow> u64 \<Rightarrow> u64" where
  "pte_set_frame e phys_addr =
     (let attributes = e AND NOT MASK_FRAME;
          frame_addr = phys_addr AND MASK_FRAME
      in attributes OR frame_addr)"

definition pte_is_present :: "u64 \<Rightarrow> bool" where
  "pte_is_present e \<longleftrightarrow> e AND MASK_PRESENT \<noteq> 0"

definition pte_is_writable :: "u64 \<Rightarrow> bool" where
  "pte_is_writable e \<longleftrightarrow> e AND MASK_WRITEABLE \<noteq> 0"

definition pte_pfn :: "u64 \<Rightarrow> u64" where
  "pte_pfn e = e AND MASK_FRAME"

subsection \<open>The bitmap of complete page tables\<close>

definition pt_complete :: "u64 \<Rightarrow> 'a vmm_state_scheme \<Rightarrow> 'a vmm_state_scheme" where
  "pt_complete bn s =
     (let a = cur_bitmap s + 8 * (bn div 64)
      in s\<lparr>mem := store64 (mem s) a (load64 (mem s) a OR int_shl1 bn)\<rparr>)"

definition pt_incomplete :: "u64 \<Rightarrow> 'a vmm_state_scheme \<Rightarrow> 'a vmm_state_scheme" where
  "pt_incomplete bn s =
     (let a = cur_bitmap s + 8 * (bn div 64)
      in s\<lparr>mem := store64 (mem s) a (load64 (mem s) a AND NOT (int_shl1 bn))\<rparr>)"

definition pt_is_complete :: "u64 \<Rightarrow> 'a vmm_state_scheme \<Rightarrow> bool" where
  "pt_is_complete bn s \<longleftrightarrow> load64 (mem s) (cur_bitmap s + 8 * (bn div 64)) AND int_shl1 bn \<noteq> 0"

subsection \<open>Walking the tables\<close>

text \<open>\<open>MASK_TABLE << (level*9+12)\<close> is an \<open>int\<close> shift; \<open>table_pos\<close> is an \<open>int\<close>.\<close>

definition table_pos :: "u64 \<Rightarrow> nat \<Rightarrow> u32" where
  "table_pos virt_addr level =
     (let m = scast (push_bit ((level * 9 + 12) mod 32) MASK_TABLE) :: u64
      in ucast (drop_bit (level * 9 + 12) (virt_addr AND m)))"

definition get_entry_from_table :: "u64 \<Rightarrow> u64 \<Rightarrow> nat \<Rightarrow> u64 option" where
  "get_entry_from_table table virt_addr level =
     (if table \<noteq> 0 then Some (table + 8 * scast (table_pos virt_addr level)) else None)"

text \<open>The loop of \<open>get_entry\<close> from a level on: the table of level 0.\<close>

primrec get_entry_loop :: "nat \<Rightarrow> u64 \<Rightarrow> u64 \<Rightarrow> mem \<Rightarrow> u64 option" where
  "get_entry_loop 0 virt_addr cur_table m = Some cur_table"
| "get_entry_loop (Suc k) virt_addr cur_table m = do {
     e \<leftarrow> get_entry_from_table cur_table virt_addr (Suc k);
     if pte_is_present (load64 m e) then get_entry_loop k virt_addr (pte_pfn (load64 m e)) m
     else None
   }"

definition get_entry :: "u64 \<Rightarrow> 'a vmm_state_scheme \<Rightarrow> u64 option" where
  "get_entry virt_addr s = do {
     t \<leftarrow> get_entry_loop 3 virt_addr (read_cr3 s) (mem s);
     get_entry_from_table t virt_addr 0
   }"

text \<open>The test \<open>!found_entry || !pte_is_present(*e)\<close>.\<close>

definition page_absent :: "u64 \<Rightarrow> 'a vmm_state_scheme \<Rightarrow> bool" where
  "page_absent virt_addr s =
     (case get_entry virt_addr s of None \<Rightarrow> True | Some e \<Rightarrow> \<not> pte_is_present (load64 (mem s) e))"

subsection \<open>Mapping and freeing a page\<close>

text \<open>
  \<open>map_page_loop\<close> is the loop of \<open>map_page\<close> from a level on, with the entry \<open>*e\<close> of the level before:
  the table of level 0 and the last \<open>*e\<close>, or \<open>None\<close> for the early \<open>return 0\<close>, and the state at that
  point. When the table of level 0 is null, \<open>map_page\<close> writes to that last entry all the same.
\<close>

definition set_entry :: "u64 \<Rightarrow> u64 \<Rightarrow> u32 \<Rightarrow> mem \<Rightarrow> mem" where
  "set_entry e phys_addr attributes m =
     (let m = store64 m e (pte_set_frame (load64 m e) phys_addr);
          m = store64 m e (pte_add_attrib (load64 m e) MASK_PRESENT)
      in store64 m e (pte_add_attrib (load64 m e) (scast attributes)))"

primrec map_page_loop ::
  "nat \<Rightarrow> u64 \<Rightarrow> u32 \<Rightarrow> u64 \<Rightarrow> u64 \<Rightarrow> 'a vmm_state_scheme \<Rightarrow> (u64 \<times> u64) option \<times> 'a vmm_state_scheme"
where
  "map_page_loop 0 virt_addr attributes cur_table e s = (Some (cur_table, e), s)"
| "map_page_loop (Suc k) virt_addr attributes cur_table e s =
     (case get_entry_from_table cur_table virt_addr (Suc k) of
        None \<Rightarrow> (None, s)
      | Some e \<Rightarrow>
          if pte_is_present (load64 (mem s) e)
          then map_page_loop k virt_addr attributes (pte_pfn (load64 (mem s) e)) e s
          else (let (alloc_table, s) = gmem s
                in if alloc_table = 0 then (None, s)
                   else (let s = s\<lparr>mem := fst (memset (mem s) alloc_table 0 VMM_TABLE_SIZE)\<rparr>;
                             s = s\<lparr>mem := set_entry e alloc_table attributes (mem s)\<rparr>
                         in map_page_loop k virt_addr attributes (pte_pfn (load64 (mem s) e)) e s)))"

definition map_page ::
  "u64 \<Rightarrow> u64 \<Rightarrow> u32 \<Rightarrow> 'a vmm_state_scheme \<Rightarrow> bool \<times> 'a vmm_state_scheme"
where
  "map_page phys_addr virt_addr attributes s =
     (case map_page_loop 3 virt_addr attributes (read_cr3 s) 0 s of
        (None, s) \<Rightarrow> (False, s)
      | (Some (t, e), s) \<Rightarrow>
          (let found = get_entry_from_table t virt_addr 0;
               e = (case found of None \<Rightarrow> e | Some e \<Rightarrow> e)
           in (found \<noteq> None, s\<lparr>mem := set_entry e phys_addr attributes (mem s)\<rparr>)))"

definition alloc_page :: "u64 \<Rightarrow> u32 \<Rightarrow> 'a vmm_state_scheme \<Rightarrow> bool \<times> 'a vmm_state_scheme" where
  "alloc_page virt_addr attributes s =
     (let (phys_addr, s) = gmem s
      in if phys_addr = 0 then (False, s) else map_page phys_addr virt_addr attributes s)"

definition free_page :: "u64 \<Rightarrow> 'a vmm_state_scheme \<Rightarrow> 'a vmm_state_scheme" where
  "free_page e s =
     (let (_, s) = fmem (pte_pfn (load64 (mem s) e)) s
      in s\<lparr>mem := store64 (mem s) e (pte_del_attrib (load64 (mem s) e) MASK_PRESENT)\<rparr>)"

subsection \<open>Searching for free pages\<close>

partial_function (option) get_free_page_in_pt ::
  "u64 \<Rightarrow> u64 \<Rightarrow> 'a vmm_state_scheme \<Rightarrow> u64 option"
where
  "get_free_page_in_pt start_addr max_addr s =
     (if start_addr = max_addr then Some max_addr
      else if page_absent start_addr s then Some start_addr
      else get_free_page_in_pt (start_addr + VMM_PAGE_SIZE) max_addr s)"

text \<open>\<open>mappable_from\<close> returns its result and the new value of \<open>*last_addr\<close>.\<close>

partial_function (option) mappable_from ::
  "u64 \<Rightarrow> u64 \<Rightarrow> u32 \<Rightarrow> u64 \<Rightarrow> 'a vmm_state_scheme \<Rightarrow> (bool \<times> u64 \<times> 'a vmm_state_scheme) option"
where
  "mappable_from cur_addr max_addr attributes last_addr s =
     (if cur_addr = max_addr then Some (True, max_addr, s)
      else if page_absent cur_addr s then do {
        (_, last_addr, s) \<leftarrow> mappable_from (cur_addr + VMM_PAGE_SIZE) max_addr attributes cur_addr s;
        if last_addr = max_addr
        then (let (ok, s) = alloc_page cur_addr attributes s in Some (ok, last_addr, s))
        else Some (False, last_addr, s)
      }
      else Some (False, last_addr, s))"

partial_function (option) is_pt_range_incomplete ::
  "u64 \<Rightarrow> u64 \<Rightarrow> 'a vmm_state_scheme \<Rightarrow> bool option"
where
  "is_pt_range_incomplete from_addr finish_addr s =
     (if from_addr = finish_addr then Some False
      else if page_absent from_addr s then Some True
      else is_pt_range_incomplete (from_addr + VMM_PAGE_SIZE) finish_addr s)"

definition is_pt_incomplete :: "u64 \<Rightarrow> 'a vmm_state_scheme \<Rightarrow> bool option" where
  "is_pt_incomplete pt_num s = is_pt_range_incomplete (pt_num * VMM_PT_SIZE) ((pt_num + 1) * VMM_PT_SIZE) s"

text \<open>The loop of \<open>update_bitmap\<close>: \<open>n\<close> page tables from \<open>cur_bit\<close> on.\<close>

primrec complete_loop :: "nat \<Rightarrow> u64 \<Rightarrow> 'a vmm_state_scheme \<Rightarrow> 'a vmm_state_scheme" where
  "complete_loop 0 cur_bit s = s"
| "complete_loop (Suc n) cur_bit s = complete_loop n (cur_bit + 1) (pt_complete cur_bit s)"

definition update_bitmap ::
  "u64 \<Rightarrow> u64 \<Rightarrow> bool \<Rightarrow> 'a vmm_state_scheme \<Rightarrow> 'a vmm_state_scheme option"
where
  "update_bitmap start_addr finish_addr incomplete s = do {
     let f = start_addr div VMM_PT_SIZE;
     let t = finish_addr div VMM_PT_SIZE;
     let s = complete_loop (Suc (unat t) - unat f) f s;
     let s = (if incomplete then pt_incomplete f s else s);
     inc \<leftarrow> is_pt_incomplete t s;
     Some (if inc then pt_incomplete t s else s)
   }"

text \<open>
  The \<open>while (1)\<close> of \<open>alloc_pages\<close> in one page table: it ends with the table exhausted, with the
  pages found, or with the place in another table where the search goes on.
\<close>

datatype search = Exhausted | Found u64 | Elsewhere u64 u64

partial_function (option) search_pt ::
  "u64 \<Rightarrow> u64 \<Rightarrow> bool \<Rightarrow> u32 \<Rightarrow> u32 \<Rightarrow> 'a vmm_state_scheme \<Rightarrow> (search \<times> 'a vmm_state_scheme) option"
where
  "search_pt pt_number cur_addr incomplete needed_pages attributes s = do {
     let next_pt_addr = (pt_number + 1) * VMM_PT_SIZE;
     cur_addr \<leftarrow> get_free_page_in_pt cur_addr next_pt_addr s;
     if cur_addr = next_pt_addr then Some (Exhausted, s)
     else do {
       let finish_addr = cur_addr + scast (needed_pages * 4096);
       (found_memory, last_addr, s) \<leftarrow> mappable_from cur_addr finish_addr attributes cur_addr s;
       if found_memory then do {
         s \<leftarrow> update_bitmap cur_addr finish_addr incomplete s;
         Some (Found cur_addr, s)
       }
       else do {
         let last_addr_pt_num = scast (ucast (last_addr div VMM_PT_SIZE) :: u32);
         let last_addr_offset = scast (ucast (drop_bit 12 (last_addr mod VMM_PT_SIZE)) :: u32);
         if pt_number \<noteq> last_addr_pt_num then Some (Elsewhere last_addr_pt_num last_addr_offset, s)
         else search_pt pt_number last_addr True needed_pages attributes s
       }
     }
   }"

text \<open>\<open>alloc_pages\<close> returns \<open>*result\<close>, or \<open>None\<close> for 0.\<close>

partial_function (option) alloc_pages ::
  "u64 \<Rightarrow> u64 \<Rightarrow> u32 \<Rightarrow> u32 \<Rightarrow> 'a vmm_state_scheme \<Rightarrow> (u64 option \<times> 'a vmm_state_scheme) option"
where
  "alloc_pages pt_number pt_entry_offset needed_pages attributes s =
     (if pt_number > VMM_TOTAL_PTS then Some (None, s)
      else if pt_is_complete pt_number s then alloc_pages (pt_number + 1) 0 needed_pages attributes s
      else do {
        let cur_addr = pt_number * VMM_PT_SIZE + pt_entry_offset * VMM_PAGE_SIZE;
        (r, s) \<leftarrow> search_pt pt_number cur_addr False needed_pages attributes s;
        case r of
          Exhausted \<Rightarrow> alloc_pages (pt_number + 1) 0 needed_pages attributes s
        | Found a \<Rightarrow> Some (Some a, s)
        | Elsewhere n i \<Rightarrow> alloc_pages n i needed_pages attributes s
      })"

definition needed_pages_for :: "u64 \<Rightarrow> u32" where
  "needed_pages_for size64 =
     (if size64 mod VMM_PAGE_SIZE = 0 then ucast (size64 div VMM_PAGE_SIZE)
      else ucast (size64 div VMM_PAGE_SIZE + 1))"

definition vmm_alloc_pages_from ::
  "u64 \<Rightarrow> u64 \<Rightarrow> u32 \<Rightarrow> 'a vmm_state_scheme \<Rightarrow> (u64 option \<times> 'a vmm_state_scheme) option"
where
  "vmm_alloc_pages_from base size64 attributes s =
     alloc_pages (drop_bit 21 base) (drop_bit 55 (push_bit 43 base)) (needed_pages_for size64) attributes s"

definition vmm_alloc_pages ::
  "u64 \<Rightarrow> u32 \<Rightarrow> 'a vmm_state_scheme \<Rightarrow> (u64 option \<times> 'a vmm_state_scheme) option"
where
  "vmm_alloc_pages size64 attributes s = alloc_pages 0 0 (needed_pages_for size64) attributes s"

subsection \<open>Freeing pages and address spaces\<close>

primrec incomplete_loop :: "nat \<Rightarrow> u64 \<Rightarrow> 'a vmm_state_scheme \<Rightarrow> 'a vmm_state_scheme" where
  "incomplete_loop 0 cur_pt s = s"
| "incomplete_loop (Suc n) cur_pt s = incomplete_loop n (cur_pt + 1) (pt_incomplete cur_pt s)"

partial_function (option) free_pages_loop ::
  "u64 \<Rightarrow> u64 \<Rightarrow> 'a vmm_state_scheme \<Rightarrow> 'a vmm_state_scheme option"
where
  "free_pages_loop cur_page end_addr s =
     (if cur_page < end_addr
      then free_pages_loop (cur_page + VMM_PAGE_SIZE) end_addr
             (case get_entry cur_page s of None \<Rightarrow> s | Some e \<Rightarrow> free_page e s)
      else Some s)"

text \<open>\<open>start_pt\<close> and \<open>end_pt\<close> are \<open>int\<close>; \<open>cur_pt\<close> is a \<open>uint64_t\<close>.\<close>

definition vmm_free_pages :: "u64 \<Rightarrow> u64 \<Rightarrow> 'a vmm_state_scheme \<Rightarrow> 'a vmm_state_scheme option" where
  "vmm_free_pages start_addr size64 s =
     (let end_addr = start_addr + size64;
          start_pt = scast (ucast (start_addr div VMM_PT_SIZE) :: u32) :: u64;
          end_pt = scast (ucast (end_addr div VMM_PT_SIZE) :: u32) :: u64;
          s = incomplete_loop (unat end_pt - unat start_pt) start_pt s;
          s = (if end_addr mod VMM_PT_SIZE \<noteq> 0 then pt_incomplete end_pt s else s)
      in free_pages_loop start_addr end_addr s)"

definition vmm_switch_process :: "u64 \<Rightarrow> u64 \<Rightarrow> 'a vmm_state_scheme \<Rightarrow> 'a vmm_state_scheme" where
  "vmm_switch_process cr bitmap s = write_cr3 cr (s\<lparr>cur_bitmap := bitmap\<rparr>)"

definition vmm_get_cur_bitmap :: "'a vmm_state_scheme \<Rightarrow> u64" where
  "vmm_get_cur_bitmap s = cur_bitmap s"

primrec recursively_destroy_tables :: "nat \<Rightarrow> u64 \<Rightarrow> 'a vmm_state_scheme \<Rightarrow> 'a vmm_state_scheme" where
  "recursively_destroy_tables 0 table_addr s = s"
| "recursively_destroy_tables (Suc k) table_addr s =
     fold (\<lambda>cur_entry s.
       let e = load64 (mem s) (table_addr + of_nat (8 * cur_entry))
       in if pte_is_present e
          then (let next_table = pte_pfn e
                in snd (fmem next_table (recursively_destroy_tables k next_table s)))
          else s) [0..<ENTRIES_PER_TABLE] s"

partial_function (option) shutdown_loop ::
  "u64 \<Rightarrow> u64 \<Rightarrow> 'a vmm_state_scheme \<Rightarrow> 'a vmm_state_scheme option"
where
  "shutdown_loop cur_addr end_of_vm_addr s =
     (if cur_addr < end_of_vm_addr then do {
        s \<leftarrow> vmm_free_pages cur_addr VMM_PAGE_SIZE s;
        shutdown_loop (cur_addr + VMM_PAGE_SIZE) end_of_vm_addr s
      }
      else Some s)"

definition vmm_shutdown_process ::
  "u64 \<Rightarrow> u64 \<Rightarrow> 'a vmm_state_scheme \<Rightarrow> 'a vmm_state_scheme option"
where
  "vmm_shutdown_process cr bitmap s = do {
     let one_gb_addr = VMM_PAGE_SIZE * ucast ONE_GB_OF_PAGES;
     let end_of_vm_addr = VMM_PAGE_SIZE * (MAX_PAGES - 1);
     s \<leftarrow> shutdown_loop one_gb_addr end_of_vm_addr s;
     Some (recursively_destroy_tables 3 cr s)
   }"

subsection \<open>A new address space\<close>

text \<open>
  \<open>identity_paging\<close> at level \<open>k - 1\<close>: the result, \<open>*cur_page_ptr\<close>, \<open>*frame\<close>, \<open>*new_pml4\<close> and the
  state. \<open>fill_table\<close> is its loop, \<open>n\<close> entries before the end of the table, over the call for the
  level below. At level 3 the code calls itself once more when pages are left over; one table of
  that level covers \<open>2\<^sup>3\<^sup>6\<close> pages, more than an \<open>int\<close> can ask for, and that call is left out.
\<close>

type_synonym 'a idp = "bool \<times> u32 \<times> u64 \<times> u64 \<times> 'a vmm_state_scheme"

primrec fill_table ::
  "(u32 \<Rightarrow> u64 \<Rightarrow> u64 \<Rightarrow> 'a vmm_state_scheme \<Rightarrow> 'a idp) \<Rightarrow> nat \<Rightarrow> u64 \<Rightarrow> u32
   \<Rightarrow> u32 \<Rightarrow> u64 \<Rightarrow> u64 \<Rightarrow> 'a vmm_state_scheme \<Rightarrow> 'a idp"
where
  "fill_table below 0 new_table needed_pages cur_page frame new_pml4 s = (True, cur_page, frame, new_pml4, s)"
| "fill_table below (Suc n) new_table needed_pages cur_page frame new_pml4 s =
     (if cur_page <s needed_pages
      then (let (paged, cur_page, frame, new_pml4, s) = below cur_page frame new_pml4 s
            in if \<not> paged then (False, cur_page, frame, new_pml4, s)
               else (let new_entry = pte_add_attrib 0 (MASK_PRESENT OR MASK_WRITEABLE);
                         new_entry = pte_set_frame new_entry frame;
                         cur_entry = ENTRIES_PER_TABLE - Suc n;
                         s = s\<lparr>mem := store64 (mem s) (new_table + of_nat (8 * cur_entry)) new_entry\<rparr>
                     in fill_table below n new_table needed_pages cur_page frame new_pml4 s))
      else (True, cur_page, frame, new_pml4, s))"

primrec identity_paging ::
  "nat \<Rightarrow> u32 \<Rightarrow> u32 \<Rightarrow> u64 \<Rightarrow> u64 \<Rightarrow> 'a vmm_state_scheme \<Rightarrow> 'a idp"
where
  "identity_paging 0 needed_pages cur_page frame new_pml4 s =
     (True, cur_page + 1, scast cur_page * VMM_PAGE_SIZE, new_pml4, s)"
| "identity_paging (Suc k) needed_pages cur_page frame new_pml4 s =
     (let (new_table, s) = gmem s;
          s = s\<lparr>mem := fst (memset (mem s) new_table 0 VMM_TABLE_SIZE)\<rparr>
      in if new_table = 0 then (False, cur_page, frame, new_pml4, s)
         else (let (paged, cur_page, frame, new_pml4, s) =
                     fill_table (identity_paging k needed_pages) ENTRIES_PER_TABLE new_table
                       needed_pages cur_page frame new_pml4 s
               in if \<not> paged then (False, cur_page, frame, new_pml4, s)
                  else (True, cur_page, new_table, new_table, s)))"

text \<open>The \<open>int\<close> loops \<open>for (i = from; i < to; i++)\<close> over the bitmap.\<close>

primrec mark_bits_loop :: "nat \<Rightarrow> u32 \<Rightarrow> 'a vmm_state_scheme \<Rightarrow> 'a vmm_state_scheme" where
  "mark_bits_loop 0 i s = s"
| "mark_bits_loop (Suc n) i s = mark_bits_loop n (i + 1) (pt_complete (scast i) s)"

definition mark_bits :: "u32 \<Rightarrow> u32 \<Rightarrow> 'a vmm_state_scheme \<Rightarrow> 'a vmm_state_scheme" where
  "mark_bits lo hi s = mark_bits_loop (nat (sint hi - sint lo)) lo s"

text \<open>\<open>vmm_initialize\<close> returns \<open>*new_bitmap_addr\<close>, or \<open>None\<close> for 0.\<close>

definition vmm_initialize :: "'a vmm_state_scheme \<Rightarrow> u64 option \<times> 'a vmm_state_scheme" where
  "vmm_initialize s =
     (let pages = ONE_GB_OF_PAGES;
          (made_tables, cur_page, frame, pml4_table, s) = identity_paging 4 pages 0 0 0 s
      in if \<not> made_tables then (None, s)
         else (let cr3_frame = push_bit 12 (drop_bit 28 (push_bit 16 pml4_table));
                   new_cr3 = cr3_frame OR 0x8;
                   s = write_cr3 new_cr3 s;
                   (phys_bitmap_add, s) = gmem s
               in if phys_bitmap_add = 0 then (None, s)
                  else (let s = s\<lparr>cur_bitmap := phys_bitmap_add\<rparr>;
                            s = incomplete_loop 4096 0 s;
                            s = mark_bits 0 (pages div 512) s
                        in (Some phys_bitmap_add, s))))"

subsection \<open>Printing\<close>

partial_function (option) vmm_print_bitmap_loop ::
  "u32 \<Rightarrow> u64 \<Rightarrow> 'a vmm_state_scheme \<Rightarrow> 'a vmm_state_scheme option"
where
  "vmm_print_bitmap_loop i hi s =
     (if scast i \<le> hi then do {
        s \<leftarrow> kprintf ''%d'' [Arg_num (of_bool (pt_is_complete (scast i) s))] s;
        vmm_print_bitmap_loop (i + 1) hi s
      }
      else Some s)"

definition vmm_print_bitmap :: "u64 \<Rightarrow> u64 \<Rightarrow> 'a vmm_state_scheme \<Rightarrow> 'a vmm_state_scheme option" where
  "vmm_print_bitmap lo hi s = do {
     s \<leftarrow> vmm_print_bitmap_loop (ucast lo) hi s;
     kprintf [CHR 0x0A] [] s
   }"

partial_function (option) vmm_print_pt_loop ::
  "u64 \<Rightarrow> u64 \<Rightarrow> 'a vmm_state_scheme \<Rightarrow> 'a vmm_state_scheme option"
where
  "vmm_print_pt_loop cur_addr hi s =
     (if cur_addr < hi then do {
        s \<leftarrow> kprintf ''%d''
          [Arg_num (case get_entry cur_addr s of None \<Rightarrow> 0 | Some e \<Rightarrow> of_bool (pte_is_present (load64 (mem s) e)))] s;
        vmm_print_pt_loop (cur_addr + VMM_PAGE_SIZE) hi s
      }
      else Some s)"

definition vmm_print_pt :: "u64 \<Rightarrow> 'a vmm_state_scheme \<Rightarrow> 'a vmm_state_scheme option" where
  "vmm_print_pt pt_number s = do {
     s \<leftarrow> vmm_print_pt_loop (pt_number * VMM_PT_SIZE) ((pt_number + 1) * VMM_PT_SIZE) s;
     kprintf [CHR 0x0A] [] s
   }"

partial_function (option) vmm_print_bitmap_addr_loop ::
  "u64 \<Rightarrow> u32 \<Rightarrow> u64 \<Rightarrow> 'a vmm_state_scheme \<Rightarrow> 'a vmm_state_scheme option"
where
  "vmm_print_bitmap_addr_loop addr i hi s =
     (if scast i \<le> hi then do {
        let w = load64 (mem s) (addr + 8 * scast (word_of_int (sint i sdiv 64) :: u32));
        let b = scast (push_bit (unat (word_of_int (sint i smod 64) :: u32) mod 32) 1 :: u32);
        s \<leftarrow> kprintf ''%d'' [Arg_num (w AND b)] s;
        vmm_print_bitmap_addr_loop addr (i + 1) hi s
      }
      else Some s)"

definition vmm_print_bitmap_addr ::
  "u64 \<Rightarrow> u64 \<Rightarrow> u64 \<Rightarrow> 'a vmm_state_scheme \<Rightarrow> 'a vmm_state_scheme option"
where
  "vmm_print_bitmap_addr addr lo hi s = do {
     s \<leftarrow> vmm_print_bitmap_addr_loop addr (ucast lo) hi s;
     kprintf [CHR 0x0A] [] s
   }"

subsection \<open>The position of an entry\<close>

text \<open>\<open>vidx v l\<close> is the index the architecture gives the address \<open>v\<close> in a table of level \<open>l\<close>.\<close>

definition vidx :: "u64 \<Rightarrow> nat \<Rightarrow> nat" where
  "vidx v level = unat v div 2 ^ (level * 9 + 12) mod 512"

lemma vidx_less [simp]: "vidx v level < 512"
  by (simp add: vidx_def)

lemma drop_and_push:
  "drop_bit n (v AND push_bit n m) = drop_bit n (v :: 'a::len word) AND m" if "n + k \<le> LENGTH('a)" "take_bit k m = m"
proof (rule bit_eqI)
  fix i assume i: "possible_bit TYPE('a word) i"
  have "bit m i \<Longrightarrow> i < k" using that(2) by (metis bit_take_bit_iff)
  then show "bit (drop_bit n (v AND push_bit n m)) i = bit (drop_bit n v AND m) i"
    using that(1) i by (auto simp: bit_drop_bit_eq bit_and_iff bit_push_bit_iff)
qed

lemma table_pos_low:
  assumes "(scast (push_bit ((level * 9 + 12) mod 32) MASK_TABLE) :: u64) = push_bit (level * 9 + 12) 0x1FF"
    and "level * 9 + 12 \<le> 55"
  shows "unat (table_pos v level) = vidx v level"
proof -
  let ?n = "level * 9 + 12"
  have m: "(0x1FF :: u64) = mask 9" by (simp add: mask_eq_exp_minus_1)
  have "drop_bit ?n (v AND push_bit ?n 0x1FF) = drop_bit ?n v AND mask 9"
    unfolding m using assms(2) by (intro drop_and_push [where k = 9]) simp_all
  then have "unat (drop_bit ?n (v AND push_bit ?n 0x1FF)) = drop_bit ?n (unat v) mod 2 ^ 9"
    by (simp only: word_and_mask_unat unat_drop_bit_eq)
  then have "unat (drop_bit ?n (v AND push_bit ?n 0x1FF)) = vidx v level"
    by (simp only: drop_bit_eq_div vidx_def) simp
  moreover have "vidx v level < 2 ^ 32" using vidx_less [of v level] by (rule less_trans) simp
  ultimately show ?thesis
    unfolding table_pos_def Let_def assms(1) unsigned_ucast_eq by (simp add: take_bit_nat_eq_self)
qed

lemma table_pos_vidx:
  assumes "unat v < 2 ^ 39" and "level \<le> 3"
  shows "unat (table_pos v level) = vidx v level"
proof -
  consider "level = 0" | "level = 1" | "level = 2" | "level = 3" using assms(2) by linarith
  then show ?thesis
  proof cases
    case 3
    have m: "(0xFFFFFFFFC0000000 :: u64) = push_bit 30 (mask 34)"
      unfolding push_bit_eq_mult mask_eq_exp_minus_1 by simp
    have lt: "unat (drop_bit 30 v) < 512" using assms(1) by (simp add: drop_bit_eq_div unat_div_distrib)
    have "drop_bit 30 (v AND push_bit 30 (mask 34)) = drop_bit 30 v AND mask 34"
      by (rule drop_and_push [where k = 34]) simp_all
    also have "\<dots> = drop_bit 30 v"
      using lt by (simp only: word_unat_eq_iff word_and_mask_unat) simp
    finally have "drop_bit 30 (v AND 0xFFFFFFFFC0000000) = drop_bit 30 v" unfolding m .
    moreover have "table_pos v 2 = ucast (drop_bit 30 (v AND 0xFFFFFFFFC0000000))"
      by (simp add: table_pos_def)
    ultimately have "table_pos v 2 = ucast (drop_bit 30 v)" by (simp only:)
    moreover have "unat (drop_bit 30 v) < 2 ^ LENGTH(32)" using lt by simp
    ultimately have "unat (table_pos v 2) = unat (drop_bit 30 v)"
      by (simp only: unsigned_ucast_eq take_bit_nat_eq_self)
    also have "\<dots> = vidx v 2" using lt by (simp add: drop_bit_eq_div unat_div_distrib vidx_def)
    finally show ?thesis using 3 by simp
  next
    case 4
    have "v AND 0xFF80 \<le> 0xFF80" by (rule word_and_le1)
    then have "unat (v AND 0xFF80) < 2 ^ 39" by (simp add: word_le_nat_alt)
    then have z: "drop_bit 39 (v AND 0xFF80) = 0"
      by (simp add: word_unat_eq_iff drop_bit_eq_div unat_div_distrib)
    have "vidx v 3 = 0" using assms(1) by (simp add: vidx_def)
    then show ?thesis using z 4 by (simp add: table_pos_def)
  qed (auto intro!: table_pos_low)
qed
subsection \<open>Entries\<close>

lemma MASK_FRAME_eq: "MASK_FRAME = NOT (mask 12)"
  unfolding MASK_FRAME_def mask_eq_exp_minus_1 by simp

lemma frame_and_mask: "f AND MASK_FRAME = f" if "f mod VMM_PAGE_SIZE = 0"
proof -
  have "f AND mask 12 = 0" using that by (simp add: take_bit_eq_mod flip: take_bit_eq_mask)
  moreover have "f = (f AND mask 12) OR (f AND NOT (mask 12))"
    by (simp flip: bit.conj_disj_distrib)
  ultimately show ?thesis by (simp add: MASK_FRAME_eq)
qed

lemma pte_pfn_aligned: "pte_pfn e mod VMM_PAGE_SIZE = 0"
proof -
  have "(e AND NOT (mask 12)) AND mask 12 = 0" by (simp add: and.assoc)
  then have "take_bit 12 (pte_pfn e) = 0" by (simp add: pte_pfn_def MASK_FRAME_eq take_bit_eq_mask)
  then show ?thesis by (simp add: take_bit_eq_mod)
qed

lemma store64_twice [mem_simps]: "store64 (store64 m a v) a w = store64 m a w"
  by (simp add: store64_def store_bytes_def fun_eq_iff)

text \<open>The value an entry gets from \<open>set_entry\<close>.\<close>

definition entry_val :: "u64 \<Rightarrow> u64 \<Rightarrow> u32 \<Rightarrow> u64" where
  "entry_val old phys_addr attributes =
     ((old AND NOT MASK_FRAME) OR (phys_addr AND MASK_FRAME)) OR MASK_PRESENT OR scast attributes"

lemma set_entry_eq: "set_entry e p a m = store64 m e (entry_val (load64 m e) p a)"
  by (simp add: set_entry_def Let_def entry_val_def pte_set_frame_def pte_add_attrib_def c64.ld_st
      store64_twice or.assoc)

lemma entry_val_pfn:
  assumes "p mod VMM_PAGE_SIZE = 0" and "scast a AND MASK_FRAME = 0"
  shows "pte_pfn (entry_val old p a) = p"
proof -
  have "(old AND NOT MASK_FRAME) AND MASK_FRAME = 0" by (simp add: and.assoc)
  moreover have "(1 :: u64) AND MASK_FRAME = 0" by (simp add: MASK_FRAME_def)
  ultimately show ?thesis
    using assms frame_and_mask [OF assms(1)]
    by (simp add: pte_pfn_def entry_val_def bit.conj_disj_distrib2 and.assoc)
qed

lemma entry_val_present: "pte_is_present (entry_val old p a)"
proof -
  have "bit (entry_val old p a AND 1) 0" by (simp add: entry_val_def bit_or_iff bit_and_iff)
  then show ?thesis unfolding pte_is_present_def by (metis bit_0_eq bot_apply bot_bool_def)
qed
subsection \<open>The tables as a tree\<close>

text \<open>
  The tables below a table \<open>t\<close> of level \<open>k\<close>, as a set of frames and as a tree: no frame is used
  twice. \<open>pt_lookup\<close> is the entry for a page, when all entries on the way and it itself are present.
\<close>

definition slot :: "u64 \<Rightarrow> nat \<Rightarrow> u64" where
  "slot t i = t + of_nat (8 * i)"

definition child :: "u64 \<Rightarrow> nat \<Rightarrow> mem \<Rightarrow> u64 option" where
  "child t i m = (let e = load64 m (slot t i) in if pte_is_present e then Some (pte_pfn e) else None)"

primrec pt_tables :: "nat \<Rightarrow> u64 \<Rightarrow> mem \<Rightarrow> u64 set" where
  "pt_tables 0 t m = {t}"
| "pt_tables (Suc k) t m = insert t (\<Union>i<512. case child t i m of None \<Rightarrow> {} | Some c \<Rightarrow> pt_tables k c m)"

primrec pt_tree :: "nat \<Rightarrow> u64 \<Rightarrow> mem \<Rightarrow> bool" where
  "pt_tree 0 t m = True"
| "pt_tree (Suc k) t m =
     (\<forall>i<512. \<forall>c. child t i m = Some c \<longrightarrow> pt_tree k c m \<and> t \<notin> pt_tables k c m
        \<and> (\<forall>j<512. \<forall>d. j \<noteq> i \<longrightarrow> child t j m = Some d \<longrightarrow> pt_tables k c m \<inter> pt_tables k d m = {}))"

primrec pt_lookup :: "nat \<Rightarrow> u64 \<Rightarrow> u64 \<Rightarrow> mem \<Rightarrow> u64 option" where
  "pt_lookup 0 v t m =
     (let e = load64 m (slot t (vidx v 0)) in if pte_is_present e then Some e else None)"
| "pt_lookup (Suc k) v t m =
     (case child t (vidx v (Suc k)) m of None \<Rightarrow> None | Some c \<Rightarrow> pt_lookup k v c m)"

definition in_frame :: "u64 \<Rightarrow> u64 \<Rightarrow> bool" where
  "in_frame t a \<longleftrightarrow> unat t \<le> unat a \<and> unat a < unat t + 4096"

definition is_frame :: "u64 \<Rightarrow> bool" where
  "is_frame t \<longleftrightarrow> t \<noteq> 0 \<and> t mod VMM_PAGE_SIZE = 0 \<and> unat t + 4096 \<le> 2 ^ 63"

definition same_frame :: "u64 \<Rightarrow> mem \<Rightarrow> mem \<Rightarrow> bool" where
  "same_frame t m m' \<longleftrightarrow> (\<forall>a. in_frame t a \<longrightarrow> m' a = m a)"

lemma unat_slot: "is_frame t \<Longrightarrow> i < 512 \<Longrightarrow> unat (slot t i) = unat t + 8 * i"
  unfolding slot_def is_frame_def by (intro unat_add_small) simp

lemma load64_same:
  assumes "same_frame t m m'" and "is_frame t" and "i < 512"
  shows "load64 m' (slot t i) = load64 m (slot t i)"
proof -
  have "m' (slot t i + of_nat j) = m (slot t i + of_nat j)" if "j < 8" for j
  proof -
    have "unat (slot t i + of_nat j) = unat t + 8 * i + j"
      using unat_slot [OF assms(2,3)] assms(2,3) that
      by (subst unat_add_small) (auto simp: is_frame_def)
    then have "in_frame t (slot t i + of_nat j)" using that assms(3) by (simp add: in_frame_def)
    then show ?thesis using assms(1) by (simp add: same_frame_def)
  qed
  then have "load_bytes m' (slot t i) 8 = load_bytes m (slot t i) 8" by (simp add: load_bytes_def)
  then show ?thesis by (simp add: load64_def)
qed

lemma frames_apart:
  assumes "is_frame f" and "is_frame g" and "f \<noteq> g" and "in_frame f a"
  shows "\<not> in_frame g a"
proof
  assume g: "in_frame g a"
  have "4096 dvd unat f" "4096 dvd unat g"
    using assms(1,2) by (auto simp: is_frame_def word_unat_eq_iff unat_mod_distrib dvd_eq_mod_eq_0)
  then obtain p q where pq: "unat f = 4096 * p" "unat g = 4096 * q" by (auto elim!: dvdE)
  moreover have "unat f \<noteq> unat g" using assms(3) by (simp add: word_unat_eq_iff)
  ultimately have "p < q \<or> q < p" by auto
  then show False using g assms(4) unfolding in_frame_def pq by auto
qed

lemma store64_frame:
  assumes "is_frame t" and "i < 512" and "\<not> in_frame t a"
  shows "store64 m (slot t i) v a = m a"
proof (rule store64_outside)
  show "unat (slot t i) + 8 \<le> 2 ^ 64" "unat a < unat (slot t i) \<or> unat (slot t i) + 8 \<le> unat a"
    using assms unat_slot [OF assms(1,2)] by (auto simp: is_frame_def in_frame_def)
qed

lemma store64_other_slot:
  assumes "is_frame t" and "i < 512" and "j < 512" and "i \<noteq> j"
  shows "load64 (store64 m (slot t i) v) (slot t j) = load64 m (slot t j)"
proof (rule c64.ld_st_apart)
  have b: "unat t + 4096 \<le> 2 ^ 63" using assms(1) by (simp add: is_frame_def)
  show "apart (slot t i) 8 (slot t j) 8"
  proof (cases "i < j")
    case True
    then show ?thesis
      using unat_slot [OF assms(1,2)] unat_slot [OF assms(1,3)] assms(3) b by (intro apart_below(1)) simp_all
  next
    case False
    then show ?thesis
      using unat_slot [OF assms(1,2)] unat_slot [OF assms(1,3)] assms b by (intro apart_below(2)) simp_all
  qed
qed

lemma child_same: "same_frame t m m' \<Longrightarrow> is_frame t \<Longrightarrow> i < 512 \<Longrightarrow> child t i m' = child t i m"
  by (simp add: child_def load64_same)

lemma pt_tables_self [simp]: "t \<in> pt_tables k t m"
  by (cases k) simp_all

lemma pt_tables_child:
  "i < 512 \<Longrightarrow> child t i m = Some c \<Longrightarrow> pt_tables k c m \<subseteq> pt_tables (Suc k) t m"
  by (auto intro!: bexI [of _ i])

lemma tables_same:
  assumes "\<And>f. f \<in> pt_tables k t m \<Longrightarrow> is_frame f \<and> same_frame f m m'"
  shows "pt_tables k t m' = pt_tables k t m"
  using assms
proof (induction k arbitrary: t)
  case (Suc k)
  have "is_frame t" "same_frame t m m'" using Suc.prems by simp_all
  then have c: "child t i m' = child t i m" if "i < 512" for i using that by (rule_tac child_same)
  have "pt_tables k d m' = pt_tables k d m" if "i < 512" "child t i m = Some d" for i d
    using Suc pt_tables_child [OF that] by blast
  then have "(case child t i m' of None \<Rightarrow> {} | Some c \<Rightarrow> pt_tables k c m') =
      (case child t i m of None \<Rightarrow> {} | Some c \<Rightarrow> pt_tables k c m)" if "i < 512" for i
    using c [OF that] that by (simp split: option.split)
  then show ?case by simp
qed simp

lemma tree_same:
  assumes "\<And>f. f \<in> pt_tables k t m \<Longrightarrow> is_frame f \<and> same_frame f m m'" and "pt_tree k t m"
  shows "pt_tree k t m'"
  using assms
proof (induction k arbitrary: t)
  case (Suc k)
  have "is_frame t" "same_frame t m m'" using Suc.prems by simp_all
  then have c: "child t i m' = child t i m" if "i < 512" for i using that by (rule_tac child_same)
  have sub: "is_frame f \<and> same_frame f m m'" if "i < 512" "child t i m = Some d" "f \<in> pt_tables k d m" for i d f
    using Suc.prems(1) pt_tables_child [OF that(1,2)] that(3) by blast
  have tab: "pt_tables k d m' = pt_tables k d m" if "i < 512" "child t i m = Some d" for i d
    using sub [OF that] by (rule tables_same)
  show ?case
    unfolding pt_tree.simps
  proof (intro allI impI conjI)
    fix i d assume i: "i < 512" "child t i m' = Some d"
    then have d: "child t i m = Some d" using c by simp
    show "pt_tree k d m'" using Suc.IH [OF sub [OF i(1) d]] Suc.prems(2) i d by simp
    show "t \<notin> pt_tables k d m'" using Suc.prems(2) i(1) d tab by auto
    fix j e assume j: "j < 512" "j \<noteq> i" "child t j m' = Some e"
    then have "child t j m = Some e" using c by simp
    then show "pt_tables k d m' \<inter> pt_tables k e m' = {}" using Suc.prems(2) i(1) d j tab by auto
  qed
qed simp

lemma lookup_same:
  assumes "\<And>f. f \<in> pt_tables k t m \<Longrightarrow> is_frame f \<and> same_frame f m m'"
  shows "pt_lookup k v t m' = pt_lookup k v t m"
  using assms
proof (induction k arbitrary: t)
  case 0
  then show ?case using load64_same [of t m m' "vidx v 0"] by simp
next
  case (Suc k)
  have "child t (vidx v (Suc k)) m' = child t (vidx v (Suc k)) m" using Suc.prems by (intro child_same) simp_all
  moreover have "pt_lookup k v d m' = pt_lookup k v d m" if "child t (vidx v (Suc k)) m = Some d" for d
    using Suc pt_tables_child [OF _ that] by (meson subsetD vidx_less)
  ultimately show ?case by (simp split: option.split)
qed
end
