(* ===== verification/Address_Space.thy ===== *)
theory Address_Space
  imports Paging
begin

unbundle bit_operations_syntax

section \<open>Address spaces: what mapping a page does\<close>

text \<open>
  The abstract view of the page tables, a map from page numbers to entries (\<open>as_map\<close>), and the proof
  that \<open>get_entry\<close> reads it and \<open>map_page\<close> and \<open>alloc_page\<close> update it at one page. The tables are kept
  apart from each other and from the allocator by the invariant \<open>vmm_ok\<close>.
\<close>

subsection \<open>Frames, cleared tables, entries\<close>

lemma load64_cong: "(\<And>j. j < 8 \<Longrightarrow> m' (a + of_nat j) = m (a + of_nat j)) \<Longrightarrow> load64 m' a = load64 m a"
  by (auto simp: load64_def load_bytes_def intro!: arg_cong [where f = le_word] map_cong)

lemma pmm_frames_mem:
  assumes "pmm_ok P N K s" and "\<And>x. pmm_area K s x \<Longrightarrow> m x = mem s x"
  shows "pmm_frames (s\<lparr>mem := m\<rparr>) = pmm_frames s"
  unfolding pmm_frames_def
proof (rule map_cong)
  fix i assume "i \<in> set [1..<Suc (unat (free_blocks s))]"
  then have i: "i \<le> unat (free_blocks s)" by auto
  have lay: "pmm_layout P N K s" using assms(1) by (simp add: pmm_ok_def)
  have iN: "i < N" using i pmm_frames_bound [OF assms(1)] lay by (simp add: pmm_layout_def)
  show "load64 (mem (s\<lparr>mem := m\<rparr>)) (mem_stack (s\<lparr>mem := m\<rparr>) + of_nat (8 * i)) =
      load64 (mem s) (mem_stack s + of_nat (8 * i))"
  proof (simp del: of_nat_mult, rule load64_cong)
    fix j :: nat assume j: "j < 8"
    have u: "unat (mem_stack s + of_nat (8 * i)) = unat (mem_stack s) + 8 * i" by (rule stack_addr [OF lay iN])
    have b: "unat (mem_stack s) + 8 * N \<le> unat (pmm_map s)" "unat (pmm_map s) + 8 * K \<le> 2 ^ 63"
      using lay by (simp_all add: pmm_layout_def)
    then have "unat (mem_stack s + of_nat (8 * i) + of_nat j) = unat (mem_stack s) + 8 * i + j"
      using u j iN by (subst unat_add_small) (simp_all del: of_nat_mult)
    then have "pmm_area K s (mem_stack s + of_nat (8 * i) + of_nat j)"
      using b j iN by (simp add: pmm_area_def del: of_nat_mult)
    then show "m (mem_stack s + of_nat (8 * i) + of_nat j) = mem s (mem_stack s + of_nat (8 * i) + of_nat j)"
      by (rule assms(2))
  qed
qed simp

lemma pmm_ok_mem:
  assumes "pmm_ok P N K s" and "\<And>x. pmm_area K s x \<Longrightarrow> m x = mem s x"
  shows "pmm_ok P N K (s\<lparr>mem := m\<rparr>)"
  using assms(1) pmm_frames_mem [OF assms] by (simp add: pmm_ok_def pmm_layout_def)

lemma pool_frame:
  assumes "pmm_layout P N K s" and "f \<in> P"
  shows "is_frame f" and "in_frame f x \<Longrightarrow> \<not> pmm_area K s x"
proof -
  have l: "unat (mem_stack s) + 8 * N \<le> unat (pmm_map s)" "card P < N"
      "f mod VMM_PAGE_SIZE = 0" "unat (pmm_map s) + 8 * K \<le> unat f" "unat f + 4096 \<le> 2 ^ 63"
    using assms by (simp_all add: pmm_layout_def)
  then have "0 < unat f" by linarith
  then have "f \<noteq> 0" by auto
  then show "is_frame f" using l by (simp add: is_frame_def)
  show "in_frame f x \<Longrightarrow> \<not> pmm_area K s x" using l by (simp add: pmm_area_def in_frame_def)
qed

lemma in_range_frame: "is_frame f \<Longrightarrow> in_range f 4096 x \<longleftrightarrow> in_frame f x"
proof -
  assume f: "is_frame f"
  show ?thesis
  proof (cases "f \<le> x")
    case True
    then have "unat (x - f) = unat x - unat f" "unat f \<le> unat x" by (simp_all add: unat_sub word_le_nat_alt)
    then show ?thesis by (auto simp: in_range_def in_frame_def)
  next
    case False
    then have "unat x < unat f" by (simp add: word_le_nat_alt)
    moreover have "unat (x - f) = 2 ^ 64 + unat x - unat f"
      using False unat_sub_if_size [of x f] by (simp add: word_size word_le_nat_alt)
    moreover have "unat f \<le> 2 ^ 63" using f by (simp add: is_frame_def)
    ultimately have "4096 \<le> unat (x - f)" "\<not> unat f \<le> unat x" by simp_all
    then show ?thesis by (simp add: in_range_def in_frame_def)
  qed
qed

text \<open>A cleared table.\<close>

definition clear_frame :: "u64 \<Rightarrow> mem \<Rightarrow> mem" where
  "clear_frame f m = fst (memset m f 0 VMM_TABLE_SIZE)"

lemma clear_frame_eq: "clear_frame f m = store_bytes m f (replicate 4096 0)"
  by (simp add: clear_frame_def memset_sets_range)

lemma clear_frame_other: "is_frame f \<Longrightarrow> \<not> in_frame f x \<Longrightarrow> clear_frame f m x = m x"
  by (simp add: clear_frame_eq store_bytes_other in_range_frame)

lemma le_word_zeros: "le_word (replicate n 0) = 0"
  by (induction n) simp_all

lemma clear_frame_zero: "is_frame f \<Longrightarrow> i < 512 \<Longrightarrow> load64 (clear_frame f m) (slot f i) = 0"
proof -
  assume f: "is_frame f" and i: "i < 512"
  have "load_bytes (clear_frame f m) (slot f i) 8 = replicate 8 0"
  proof (rule nth_equalityI)
    fix j assume "j < length (load_bytes (clear_frame f m) (slot f i) 8)"
    then have j: "j < 8" by simp
    have "unat (slot f i + of_nat j) = unat f + 8 * i + j"
      using unat_slot [OF f i] f i j by (subst unat_add_small) (auto simp: is_frame_def)
    then have in_f: "in_frame f (slot f i + of_nat j)" using i j by (simp add: in_frame_def)
    then have r: "in_range f 4096 (slot f i + of_nat j)" using in_range_frame [OF f] by blast
    then have "unat (slot f i + of_nat j - f) < 4096" by (simp add: in_range_def)
    with r show "load_bytes (clear_frame f m) (slot f i) 8 ! j = replicate 8 0 ! j"
      using j by (simp add: clear_frame_eq store_bytes_def)
  qed simp
  then show ?thesis by (simp add: load64_def le_word_zeros)
qed

lemma clear_frame_child: "is_frame f \<Longrightarrow> i < 512 \<Longrightarrow> child f i (clear_frame f m) = None"
  by (simp add: child_def clear_frame_zero pte_is_present_def)

lemma empty_table:
  assumes "\<And>i. i < 512 \<Longrightarrow> child f i m = None"
  shows "pt_tables k f m = {f}" and "pt_tree k f m" and "pt_lookup k v f m = None"
proof -
  show "pt_tables k f m = {f}" "pt_tree k f m" using assms by (cases k; simp)+
  show "pt_lookup k v f m = None"
  proof (cases k)
    case 0
    then show ?thesis using assms [of "vidx v 0"] by (simp add: child_def Let_def split: if_splits)
  qed (use assms in simp)
qed

lemma slot_entry:
  assumes "unat v < 2 ^ 39" and "l \<le> 3" and "t \<noteq> 0"
  shows "get_entry_from_table t v l = Some (slot t (vidx v l))"
proof -
  have u: "unat (table_pos v l) = vidx v l" by (rule table_pos_vidx [OF assms(1,2)])
  then have "table_pos v l = of_nat (vidx v l)" by (rule word_of_unat)
  moreover have "vidx v l < 2 ^ 31" using vidx_less [of v l] by (rule less_trans) simp
  ultimately have "(scast (table_pos v l) :: u64) = of_nat (vidx v l)" by (simp add: scast_of_nat_32)
  then show ?thesis using assms(3) by (simp add: get_entry_from_table_def slot_def)
qed

subsection \<open>Changing one entry of a table\<close>

lemma get_entry_loop_Suc:
  assumes "unat v < 2 ^ 39" and "Suc k \<le> 3" and "t \<noteq> 0"
  shows "get_entry_loop (Suc k) v t m =
    (case child t (vidx v (Suc k)) m of None \<Rightarrow> None | Some c \<Rightarrow> get_entry_loop k v c m)"
  using slot_entry [OF assms] by (simp add: child_def Let_def)

text \<open>The tables after the entry \<open>i\<close> of the root has changed to lead to \<open>c\<close>.\<close>

lemma root_update:
  assumes i: "i < 512" and c: "child t i m' = Some c" "pt_tree k c m'" "t \<notin> pt_tables k c m'"
    and rest: "\<And>j. j < 512 \<Longrightarrow> j \<noteq> i \<Longrightarrow> child t j m' = child t j m"
    and sub: "\<And>j d f. j < 512 \<Longrightarrow> j \<noteq> i \<Longrightarrow> child t j m = Some d \<Longrightarrow> f \<in> pt_tables k d m \<Longrightarrow>
      is_frame f \<and> same_frame f m m' \<and> f \<notin> pt_tables k c m'"
    and tree: "pt_tree (Suc k) t m"
  shows "pt_tree (Suc k) t m'"
    and "pt_tables (Suc k) t m' \<subseteq> pt_tables (Suc k) t m \<union> pt_tables k c m'"
    and "pt_lookup (Suc k) v t m' =
      (if vidx v (Suc k) = i then pt_lookup k v c m' else pt_lookup (Suc k) v t m)"
proof -
  have tab: "pt_tables k d m' = pt_tables k d m" "pt_tree k d m'" "pt_lookup k v d m' = pt_lookup k v d m"
    if "j < 512" "j \<noteq> i" "child t j m = Some d" for j d v
  proof -
    have s: "is_frame f \<and> same_frame f m m'" if "f \<in> pt_tables k d m" for f
      using sub [OF \<open>j < 512\<close> \<open>j \<noteq> i\<close> \<open>child t j m = Some d\<close> that] by blast
    then show "pt_tables k d m' = pt_tables k d m" by (rule tables_same)
    show "pt_lookup k v d m' = pt_lookup k v d m" using s by (rule lookup_same)
    show "pt_tree k d m'" using s by (rule tree_same) (use tree that in auto)
  qed
  show "pt_tree (Suc k) t m'"
    unfolding pt_tree.simps
  proof (intro allI impI conjI)
    fix j d assume j: "j < 512" "child t j m' = Some d"
    show "pt_tree k d m'" using j c tab(2) rest by (cases "j = i") auto
    show "t \<notin> pt_tables k d m'" using j c tab(1) rest tree by (cases "j = i") auto
    fix l e assume l: "l < 512" "l \<noteq> j" "child t l m' = Some e"
    show "pt_tables k d m' \<inter> pt_tables k e m' = {}"
    proof (cases "j = i")
      case True
      then have "child t l m = Some e" using l rest by simp
      then have "f \<in> pt_tables k e m' \<Longrightarrow> f \<notin> pt_tables k c m'" for f
        using sub [of l e f] tab(1) [of l e] l True by auto
      then show ?thesis using True j c(1) by auto
    next
      case j': False
      then have d: "child t j m = Some d" using j rest by simp
      show ?thesis
      proof (cases "l = i")
        case True
        have "f \<in> pt_tables k d m' \<Longrightarrow> f \<notin> pt_tables k c m'" for f
          using sub [of j d f] tab(1) [of j d] j j' d by auto
        then show ?thesis using True l c(1) by auto
      next
        case False
        then have "child t l m = Some e" using l rest by simp
        then show ?thesis using tab(1) [OF j(1) j' d] tab(1) [of l e] tree j l d False by auto
      qed
    qed
  qed
  show "pt_tables (Suc k) t m' \<subseteq> pt_tables (Suc k) t m \<union> pt_tables k c m'"
  proof
    fix f assume "f \<in> pt_tables (Suc k) t m'"
    then consider "f = t" | j d where "j < 512" "child t j m' = Some d" "f \<in> pt_tables k d m'"
      by (auto split: option.splits)
    then show "f \<in> pt_tables (Suc k) t m \<union> pt_tables k c m'"
    proof cases
      case 2
      show ?thesis
      proof (cases "j = i")
        case False
        then have "child t j m = Some d" using 2 rest by simp
        then show ?thesis using tab(1) [OF 2(1) False] 2 pt_tables_child by blast
      qed (use 2 c in auto)
    qed simp
  qed
  show "pt_lookup (Suc k) v t m' =
      (if vidx v (Suc k) = i then pt_lookup k v c m' else pt_lookup (Suc k) v t m)"
  proof (cases "vidx v (Suc k) = i")
    case False
    then show ?thesis using rest [OF _ False] tab(3) [OF _ False] by (simp split: option.split)
  qed (use c in simp)
qed

text \<open>A fresh cleared table behind an absent entry of the root.\<close>

definition attr_ok :: "u32 \<Rightarrow> bool" where
  "attr_ok a \<longleftrightarrow> scast a AND MASK_FRAME = 0"

lemma new_table:
  assumes ok: "pmm_ok P N K s" and tab: "pt_tables (Suc k) t (mem s) \<subseteq> P - set (pmm_frames s)"
    and tree: "pt_tree (Suc k) t (mem s)" and fs: "pmm_frames s = fs @ [f]"
    and i: "i < 512" and none: "child t i (mem s) = None" and a: "attr_ok a"
    and g: "gmem s = (f, s1)" and s2: "s2 = s1\<lparr>mem := set_entry (slot t i) f a (clear_frame f (mem s1))\<rparr>"
  shows "pmm_ok P N K s2" and "pmm_frames s2 = fs" and "child t i (mem s2) = Some f"
    and "pt_tree (Suc k) t (mem s2)" and "pt_tables (Suc k) t (mem s2) \<subseteq> insert f (pt_tables (Suc k) t (mem s))"
    and "pt_lookup (Suc k) v t (mem s2) = pt_lookup (Suc k) v t (mem s)"
    and "\<not> pmm_area K s x \<Longrightarrow> \<not> in_frame t x \<Longrightarrow> \<not> in_frame f x \<Longrightarrow> mem s2 x = mem s x"
    and "\<And>x. in_frame f x \<Longrightarrow> mem s2 x = clear_frame f (mem s1) x"
proof -
  have lay: "pmm_layout P N K s" using ok by (simp add: pmm_ok_def)
  have fP: "f \<in> P" "f \<notin> set fs" using ok fs by (auto simp: pmm_ok_def)
  have ff: "is_frame f" by (rule pool_frame [OF lay fP(1)])
  have tP: "t \<in> P" "t \<noteq> f" using tab fs by auto
  have tf: "is_frame t" by (rule pool_frame [OF lay tP(1)])
  have s1: "pmm_ok P N K s1" "pmm_frames s1 = fs" using gmem_frame [OF ok fs] g by auto
  have s1': "s1 = s\<lparr>mem := mem s1, free_blocks := free_blocks s1\<rparr>" by (rule gmem_rest [OF g])
  have ar: "pmm_area K s1 = pmm_area K s" by (subst s1') (simp add: pmm_area_def fun_eq_iff)
  let ?m = "clear_frame f (mem s1)"
  have m2: "mem s2 = store64 ?m (slot t i) (entry_val (load64 ?m (slot t i)) f a)"
    by (simp add: s2 set_entry_eq)
  have out: "mem s2 x = mem s1 x" if "\<not> in_frame t x" "\<not> in_frame f x" for x
    unfolding m2 using store64_frame [OF tf i that(1)] clear_frame_other [OF ff that(2)] by simp
  have wr: "mem s1 x = mem s x" if "\<not> pmm_area K s x" for x by (rule gmem_writes [OF ok g that])
  show "\<not> pmm_area K s x \<Longrightarrow> \<not> in_frame t x \<Longrightarrow> \<not> in_frame f x \<Longrightarrow> mem s2 x = mem s x"
    using out wr by simp
  have na: "\<not> in_frame t x \<and> \<not> in_frame f x" if "pmm_area K s1 x" for x
    using that pool_frame(2) [OF lay tP(1)] pool_frame(2) [OF lay fP(1)] ar by metis
  have s2': "s2 = s1\<lparr>mem := mem s2\<rparr>" by (simp add: s2)
  show "pmm_ok P N K s2" "pmm_frames s2 = fs"
    using pmm_ok_mem [OF s1(1), of "mem s2"] pmm_frames_mem [OF s1(1), of "mem s2"] out na s1(2) s2' by metis+
  show clr: "\<And>x. in_frame f x \<Longrightarrow> mem s2 x = ?m x"
    unfolding m2 using store64_frame [OF tf i] frames_apart [OF ff tf tP(2) [symmetric]] by blast
  have ch: "child t j (mem s2) = child t j (mem s)" if "j < 512" "j \<noteq> i" for j
  proof -
    have "same_frame t (mem s) ?m"
      using wr pool_frame(2) [OF lay tP(1)] clear_frame_other [OF ff] frames_apart [OF tf ff tP(2)]
      unfolding same_frame_def by metis
    then have "load64 ?m (slot t j) = load64 (mem s) (slot t j)" by (rule load64_same [OF _ tf that(1)])
    then show ?thesis
      using store64_other_slot [OF tf i that(1)] that(2) by (simp add: child_def m2)
  qed
  show ci: "child t i (mem s2) = Some f"
    using entry_val_pfn a ff
    by (simp add: child_def m2 c64.ld_st entry_val_present attr_ok_def is_frame_def)
  have fc: "child f j (mem s2) = None" if "j < 512" for j
  proof -
    have "same_frame f ?m (mem s2)" using clr by (simp add: same_frame_def)
    from child_same [OF this ff that] show ?thesis by (simp add: clear_frame_child [OF ff that])
  qed
  have fe: "pt_tables k f (mem s2) = {f}" "pt_tree k f (mem s2)"
    using empty_table [of f "mem s2" k] fc by simp_all
  have sub: "is_frame h \<and> same_frame h (mem s) (mem s2) \<and> h \<notin> pt_tables k f (mem s2)"
    if "j < 512" "j \<noteq> i" "child t j (mem s) = Some d" "h \<in> pt_tables k d (mem s)" for j d h
  proof -
    have "h \<in> P - set (pmm_frames s)" using pt_tables_child [OF that(1,3)] that(4) tab by blast
    then have h: "h \<in> P" "h \<noteq> f" using fs by auto
    have ht: "h \<noteq> t" using tree that by auto
    have hf: "is_frame h" by (rule pool_frame [OF lay h(1)])
    have "mem s2 x = mem s x" if "in_frame h x" for x
      using out [of x] wr [of x] frames_apart [OF hf ff h(2) that] frames_apart [OF hf tf ht that]
        pool_frame(2) [OF lay h(1) that] by simp
    then show ?thesis using hf h fe by (simp add: same_frame_def)
  qed
  note ru = root_update [OF i ci fe(2) _ ch sub tree]
  have tn: "t \<notin> pt_tables k f (mem s2)" using fe tP by simp
  show "pt_tree (Suc k) t (mem s2)" by (rule ru(1) [OF tn])
  show "pt_tables (Suc k) t (mem s2) \<subseteq> insert f (pt_tables (Suc k) t (mem s))"
    using ru(2) [OF tn] fe by simp
  show "pt_lookup (Suc k) v t (mem s2) = pt_lookup (Suc k) v t (mem s)"
    using ru(3) [OF tn, where v = v] none empty_table(3) [of f "mem s2" k v] fc by auto
qed

subsection \<open>The loop of map_page\<close>

lemma map_page_loop_Suc:
  assumes "unat v < 2 ^ 39" and "Suc k \<le> 3" and "t \<noteq> 0"
  shows "map_page_loop (Suc k) v a t e s =
    (case child t (vidx v (Suc k)) (mem s) of
       Some c \<Rightarrow> map_page_loop k v a c (slot t (vidx v (Suc k))) s
     | None \<Rightarrow> (let (f, s1) = gmem s
        in if f = 0 then (None, s1)
           else (let s2 = s1\<lparr>mem := set_entry (slot t (vidx v (Suc k))) f a (clear_frame f (mem s1))\<rparr>
             in map_page_loop k v a (pte_pfn (load64 (mem s2) (slot t (vidx v (Suc k)))))
                  (slot t (vidx v (Suc k))) s2)))"
  using slot_entry [OF assms] by (simp add: child_def Let_def clear_frame_def split: prod.split)

lemma pt_tree_child:
  assumes "pt_tree (Suc k) t m" and "i < 512" and "child t i m = Some c"
  shows "pt_tree k c m" and "t \<notin> pt_tables k c m"
    and "j < 512 \<Longrightarrow> j \<noteq> i \<Longrightarrow> child t j m = Some d \<Longrightarrow> pt_tables k c m \<inter> pt_tables k d m = {}"
  using assms by simp_all

text \<open>
  What the loop of \<open>map_page\<close> does to the tables below \<open>t\<close>: they stay a tree, out of the old tables
  and the frames taken from the free stack; no page gains or loses a mapping; the table of level 0
  for \<open>v\<close> is there; all other memory is as before.
\<close>

definition tables_for ::
  "u64 set \<Rightarrow> nat \<Rightarrow> nat \<Rightarrow> nat \<Rightarrow> u64 \<Rightarrow> u64 \<Rightarrow> 'a vmm_state_scheme \<Rightarrow> u64 \<Rightarrow> 'a vmm_state_scheme \<Rightarrow> bool"
where
  "tables_for P N K k v t s t0 s' \<longleftrightarrow>
     pmm_ok P N K s' \<and> (\<exists>gs. pmm_frames s = pmm_frames s' @ gs \<and> length gs \<le> k)
     \<and> s' = s\<lparr>mem := mem s', free_blocks := free_blocks s'\<rparr>
     \<and> pt_tree k t (mem s')
     \<and> pt_tables k t (mem s') \<subseteq> pt_tables k t (mem s) \<union> (set (pmm_frames s) - set (pmm_frames s'))
     \<and> (\<forall>w. pt_lookup k w t (mem s') = pt_lookup k w t (mem s))
     \<and> get_entry_loop k v t (mem s') = Some t0 \<and> t0 \<in> pt_tables k t (mem s')
     \<and> (\<forall>x. \<not> pmm_area K s x \<longrightarrow> (\<forall>f \<in> pt_tables k t (mem s) \<union> (set (pmm_frames s) - set (pmm_frames s')).
          \<not> in_frame f x) \<longrightarrow> mem s' x = mem s x)"

lemma tables_for_Suc:
  assumes v: "unat v < 2 ^ 39" "Suc k \<le> 3" and ok: "pmm_ok P N K s"
    and tree: "pt_tree (Suc k) t (mem s)" and tab: "pt_tables (Suc k) t (mem s) \<subseteq> P - set (pmm_frames s)"
    and c: "child t (vidx v (Suc k)) (mem s) = Some c"
    and sub: "tables_for P N K k v c s t0 s'"
  shows "tables_for P N K (Suc k) v t s t0 s'"
proof -
  let ?i = "vidx v (Suc k)"
  have lay: "pmm_layout P N K s" using ok by (simp add: pmm_ok_def)
  have ctab: "pt_tables k c (mem s) \<subseteq> pt_tables (Suc k) t (mem s)" by (rule pt_tables_child [OF vidx_less c])
  have new: "pt_tables k c (mem s') \<subseteq> pt_tables k c (mem s) \<union> (set (pmm_frames s) - set (pmm_frames s'))"
    and rest: "\<not> pmm_area K s x \<Longrightarrow> \<forall>f \<in> pt_tables k c (mem s) \<union> (set (pmm_frames s) - set (pmm_frames s')).
          \<not> in_frame f x \<Longrightarrow> mem s' x = mem s x" for x
    using sub by (simp_all add: tables_for_def)
  have P: "f \<in> P" if "f \<in> pt_tables k c (mem s) \<union> (set (pmm_frames s) - set (pmm_frames s'))" for f
    using that tab ctab ok by (auto simp: pmm_ok_def)
  have same: "same_frame h (mem s) (mem s')"
    if "h \<in> P" "h \<notin> pt_tables k c (mem s)" "h \<notin> set (pmm_frames s)" for h
  proof -
    have "mem s' x = mem s x" if x: "in_frame h x" for x
    proof (rule rest)
      show "\<not> pmm_area K s x" using pool_frame(2) [OF lay \<open>h \<in> P\<close> x] .
      show "\<forall>f \<in> pt_tables k c (mem s) \<union> (set (pmm_frames s) - set (pmm_frames s')). \<not> in_frame f x"
        using frames_apart [OF pool_frame(1) [OF lay \<open>h \<in> P\<close>] pool_frame(1) [OF lay P] _ x] that
          \<open>h \<notin> pt_tables k c (mem s)\<close> \<open>h \<notin> set (pmm_frames s)\<close> by blast
    qed
    then show ?thesis by (simp add: same_frame_def)
  qed
  have tn: "t \<notin> pt_tables k c (mem s)" by (rule pt_tree_child(2) [OF tree vidx_less c])
  have tP: "t \<in> P" "t \<notin> set (pmm_frames s)" using tab by auto
  have tf: "is_frame t" by (rule pool_frame [OF lay tP(1)])
  have ch: "child t j (mem s') = child t j (mem s)" if "j < 512" for j
    by (rule child_same [OF same [OF tP(1) tn tP(2)] tf that])
  then have ch': "child t j (mem s') = child t j (mem s)" if "j < 512" "j \<noteq> ?i" for j using that by blast
  have ci: "child t ?i (mem s') = Some c" using ch c by simp
  have si: "is_frame h \<and> same_frame h (mem s) (mem s') \<and> h \<notin> pt_tables k c (mem s')"
    if j: "j < 512" "j \<noteq> ?i" "child t j (mem s) = Some d" "h \<in> pt_tables k d (mem s)" for j d h
  proof -
    have h: "h \<in> P" "h \<notin> set (pmm_frames s)" using tab pt_tables_child [OF j(1,3)] j(4) by blast+
    have hc: "h \<notin> pt_tables k c (mem s)" using pt_tree_child(3) [OF tree j(1,3) vidx_less _ c] j(2,4) by blast
    then have "h \<notin> pt_tables k c (mem s')" using new h by blast
    then show ?thesis using same [OF h(1) hc h(2)] pool_frame [OF lay h(1)] by blast
  qed
  have tn': "t \<notin> pt_tables k c (mem s')" using new tn tP by blast
  have ct: "pt_tree k c (mem s')" using sub by (simp add: tables_for_def)
  note ru = root_update [OF vidx_less ci ct tn' _ _ tree]
  have tr: "pt_tree (Suc k) t (mem s')" by (rule ru(1)) (use ch' si in blast)+
  have "pt_tables (Suc k) t (mem s') \<subseteq> pt_tables (Suc k) t (mem s) \<union> pt_tables k c (mem s')"
    by (rule ru(2)) (use ch' si in blast)+
  then have tb: "pt_tables (Suc k) t (mem s') \<subseteq> pt_tables (Suc k) t (mem s) \<union> (set (pmm_frames s) - set (pmm_frames s'))"
    using new ctab by blast
  have "pt_lookup (Suc k) w t (mem s') =
      (if vidx w (Suc k) = ?i then pt_lookup k w c (mem s') else pt_lookup (Suc k) w t (mem s))" for w
    by (rule ru(3)) (use ch' si in blast)+
  then have lk: "pt_lookup (Suc k) w t (mem s') = pt_lookup (Suc k) w t (mem s)" for w
    using c sub by (simp add: tables_for_def)
  have ge: "get_entry_loop (Suc k) v t (mem s') = Some t0"
    using get_entry_loop_Suc [OF v, of t "mem s'"] ci sub tf by (simp add: tables_for_def is_frame_def)
  have t0: "t0 \<in> pt_tables (Suc k) t (mem s')"
    using sub subsetD [OF pt_tables_child [OF vidx_less ci]] unfolding tables_for_def by blast
  have "\<exists>gs. pmm_frames s = pmm_frames s' @ gs \<and> length gs \<le> Suc k"
    using sub unfolding tables_for_def by (meson le_SucI)
  moreover have "\<forall>x. \<not> pmm_area K s x \<longrightarrow> (\<forall>f \<in> pt_tables (Suc k) t (mem s) \<union> (set (pmm_frames s) - set (pmm_frames s')).
          \<not> in_frame f x) \<longrightarrow> mem s' x = mem s x"
    using rest ctab by blast
  ultimately show ?thesis
    using sub tr tb lk ge t0 unfolding tables_for_def by blast
qed

lemma map_page_loop_ok:
  assumes "unat v < 2 ^ 39" and "k \<le> 3" and "attr_ok a" and "pmm_ok P N K s" and "pt_tree k t (mem s)"
    and "pt_tables k t (mem s) \<subseteq> P - set (pmm_frames s)" and "k \<le> length (pmm_frames s)"
  shows "\<exists>t0 e' s'. map_page_loop k v a t e s = (Some (t0, e'), s') \<and> tables_for P N K k v t s t0 s'"
  using assms(2,4-7)
proof (induction k arbitrary: t e s)
  case 0
  then show ?case by (auto simp: tables_for_def)
next
  case (Suc k)
  let ?i = "vidx v (Suc k)"
  have lay: "pmm_layout P N K s" using Suc.prems by (simp add: pmm_ok_def)
  have tP: "t \<in> P" "t \<notin> set (pmm_frames s)" using Suc.prems(4) by auto
  have tf: "is_frame t" by (rule pool_frame [OF lay tP(1)])
  then have "t \<noteq> 0" by (simp add: is_frame_def)
  note step = map_page_loop_Suc [OF assms(1) Suc.prems(1) this]
  show ?case
  proof (cases "child t ?i (mem s)")
    case (Some c)
    have "pt_tree k c (mem s)" by (rule pt_tree_child(1) [OF Suc.prems(3) vidx_less Some])
    moreover have "pt_tables k c (mem s) \<subseteq> P - set (pmm_frames s)"
      using Suc.prems(4) pt_tables_child [OF vidx_less Some] by blast
    ultimately obtain t0 e' s' where r: "map_page_loop k v a c (slot t ?i) s = (Some (t0, e'), s')"
        "tables_for P N K k v c s t0 s'"
      using Suc.IH [of s c "slot t ?i"] Suc.prems by auto
    then show ?thesis
      using tables_for_Suc [OF assms(1) Suc.prems(1,2,3,4) Some r(2)] unfolding step Some by auto
  next
    case None
    obtain fs f where fs: "pmm_frames s = fs @ [f]" using Suc.prems(5) by (cases "pmm_frames s" rule: rev_cases) auto
    obtain s1 where g: "gmem s = (f, s1)" using gmem_frame [OF Suc.prems(2) fs] by blast
    define s2 where "s2 = s1\<lparr>mem := set_entry (slot t ?i) f a (clear_frame f (mem s1))\<rparr>"
    note nt = new_table [OF Suc.prems(2,4,3) fs vidx_less None assms(3) g s2_def]
    have fP: "f \<in> P" "f \<notin> set fs" using Suc.prems(2) fs by (auto simp: pmm_ok_def)
    have ff: "is_frame f" by (rule pool_frame [OF lay fP(1)])
    then have f0: "f \<noteq> 0" by (simp add: is_frame_def)
    have pf: "pte_pfn (load64 (mem s2) (slot t ?i)) = f"
      using nt(3) by (simp add: child_def Let_def split: if_splits)
    have tab2: "pt_tables (Suc k) t (mem s2) \<subseteq> P - set (pmm_frames s2)"
      using nt(5) nt(2) Suc.prems(4) fP fs by auto
    have "pt_tree k f (mem s2)" by (rule pt_tree_child(1) [OF nt(4) vidx_less nt(3)])
    moreover have "pt_tables k f (mem s2) \<subseteq> P - set (pmm_frames s2)"
      using tab2 pt_tables_child [OF vidx_less nt(3)] by blast
    moreover have "k \<le> length (pmm_frames s2)" using Suc.prems(5) unfolding fs nt(2) by simp
    ultimately obtain t0 e' s' where r: "map_page_loop k v a f (slot t ?i) s2 = (Some (t0, e'), s')"
        "tables_for P N K k v f s2 t0 s'"
      using Suc.IH [of s2 f "slot t ?i"] Suc.prems(1) nt(1) by auto
    have T: "tables_for P N K (Suc k) v t s2 t0 s'"
      by (rule tables_for_Suc [OF assms(1) Suc.prems(1) nt(1,4) tab2 nt(3) r(2)])
    have s2s: "s2 = s\<lparr>mem := mem s2, free_blocks := free_blocks s2\<rparr>"
      unfolding s2_def by (subst gmem_rest [OF g]) simp
    have ar: "pmm_area K s2 = pmm_area K s" by (subst s2s) (simp add: pmm_area_def fun_eq_iff)
    obtain gs where gs: "pmm_frames s2 = pmm_frames s' @ gs" "length gs \<le> k"
      using r(2) by (auto simp: tables_for_def)
    have fr: "pmm_frames s = pmm_frames s' @ (gs @ [f])" "length (gs @ [f]) \<le> Suc k"
      using gs nt(2) fs by simp_all
    have fn: "f \<notin> set (pmm_frames s')" using gs nt(2) fP by auto
    have sub: "insert f (set (pmm_frames s2) - set (pmm_frames s')) \<subseteq> set (pmm_frames s) - set (pmm_frames s')"
      using fs nt(2) fn by auto
    have "tables_for P N K (Suc k) v t s t0 s'"
      unfolding tables_for_def
    proof (intro conjI allI impI)
      show "pmm_ok P N K s'" "pt_tree (Suc k) t (mem s')" "get_entry_loop (Suc k) v t (mem s') = Some t0"
        "t0 \<in> pt_tables (Suc k) t (mem s')"
        using T by (simp_all only: tables_for_def)
      show "\<exists>gs. pmm_frames s = pmm_frames s' @ gs \<and> length gs \<le> Suc k" using fr by blast
      have "s' = s2\<lparr>mem := mem s', free_blocks := free_blocks s'\<rparr>" using T by (simp only: tables_for_def)
      then show "s' = s\<lparr>mem := mem s', free_blocks := free_blocks s'\<rparr>"
        by (subst (asm) s2s) simp
      have "pt_tables (Suc k) t (mem s') \<subseteq> pt_tables (Suc k) t (mem s2) \<union> (set (pmm_frames s2) - set (pmm_frames s'))"
        using T by (simp only: tables_for_def)
      then show "pt_tables (Suc k) t (mem s') \<subseteq> pt_tables (Suc k) t (mem s) \<union> (set (pmm_frames s) - set (pmm_frames s'))"
        using nt(5) sub by blast
      fix w show "pt_lookup (Suc k) w t (mem s') = pt_lookup (Suc k) w t (mem s)"
        using T nt(6) [of w] unfolding tables_for_def by metis
    next
      fix x assume x: "\<not> pmm_area K s x" and o:
        "\<forall>h \<in> pt_tables (Suc k) t (mem s) \<union> (set (pmm_frames s) - set (pmm_frames s')). \<not> in_frame h x"
      have "\<not> in_frame t x" "\<not> in_frame f x" using o sub by auto
      then have 1: "mem s2 x = mem s x" by (rule nt(7) [OF x])
      have "mem s' x = mem s2 x"
      proof -
        have "\<forall>h \<in> pt_tables (Suc k) t (mem s2) \<union> (set (pmm_frames s2) - set (pmm_frames s')). \<not> in_frame h x"
          using o nt(5) sub by blast
        then show ?thesis using T x ar unfolding tables_for_def by metis
      qed
      then show "mem s' x = mem s x" using 1 by simp
    qed
    moreover have "map_page_loop (Suc k) v a t e s = map_page_loop k v a f (slot t ?i) s2"
      unfolding step None g using f0 pf unfolding s2_def by (simp add: Let_def)
    ultimately show ?thesis using r(1) by auto
  qed
qed

subsection \<open>Storing an entry of level 0\<close>

lemma get_entry_loop_in:
  assumes "unat v < 2 ^ 39" and "k \<le> 3" and "\<And>f. f \<in> pt_tables k t m \<Longrightarrow> is_frame f"
    and "get_entry_loop k v t m = Some t0"
  shows "t0 \<in> pt_tables k t m"
  using assms(2-)
proof (induction k arbitrary: t)
  case (Suc k)
  have "t \<noteq> 0" using Suc.prems(2) [of t] by (simp add: is_frame_def)
  from get_entry_loop_Suc [OF assms(1) Suc.prems(1) this, of m] Suc.prems(3)
  obtain c where c: "child t (vidx v (Suc k)) m = Some c" "get_entry_loop k v c m = Some t0"
    by (auto split: option.splits)
  note sub = pt_tables_child [OF vidx_less c(1)]
  have fr: "f \<in> pt_tables k c m \<Longrightarrow> is_frame f" for f using Suc.prems(2) sub by blast
  have "t0 \<in> pt_tables k c m" using Suc.IH [OF _ fr c(2)] Suc.prems(1) by simp
  then show ?case using sub by blast
qed simp

lemma same_frame_refl [simp]: "same_frame f m m"
  by (simp add: same_frame_def)

lemma leaf_store:
  assumes "unat v < 2 ^ 39" and "k \<le> 3" and "\<And>f. f \<in> pt_tables k t m \<Longrightarrow> is_frame f"
    and "pt_tree k t m" and "get_entry_loop k v t m = Some t0"
    and m': "m' = store64 m (slot t0 (vidx v 0)) x"
  shows "pt_tree k t m' \<and> pt_tables k t m' \<subseteq> pt_tables k t m \<and> get_entry_loop k v t m' = Some t0
    \<and> (\<forall>w. pt_lookup k w t m' =
        (if \<forall>l \<le> k. vidx w l = vidx v l then (if pte_is_present x then Some x else None) else pt_lookup k w t m))"
  using assms(2-5)
proof (induction k arbitrary: t)
  case 0
  have t: "t0 = t" "is_frame t" using 0 by auto
  have "pt_lookup 0 w t m' =
      (if vidx w 0 = vidx v 0 then (if pte_is_present x then Some x else None) else pt_lookup 0 w t m)" for w
    using store64_other_slot [OF t(2) vidx_less vidx_less, of v 0 w 0] by (simp add: m' t c64.ld_st)
  then show ?case using t by simp
next
  case (Suc k)
  let ?i = "vidx v (Suc k)"
  have tf: "is_frame t" using Suc.prems(2) [of t] by simp
  then have "t \<noteq> 0" by (simp add: is_frame_def)
  note step = get_entry_loop_Suc [OF assms(1) Suc.prems(1) this]
  obtain c where c: "child t ?i m = Some c" "get_entry_loop k v c m = Some t0"
    using step [of m] Suc.prems(4) by (auto split: option.splits)
  note sub = pt_tables_child [OF vidx_less c(1)]
  have fr: "f \<in> pt_tables k c m \<Longrightarrow> is_frame f" for f using Suc.prems(2) sub by blast
  note tree = pt_tree_child [OF Suc.prems(3) vidx_less c(1)]
  have IH: "pt_tree k c m'" "pt_tables k c m' \<subseteq> pt_tables k c m" "get_entry_loop k v c m' = Some t0"
    "\<And>w. pt_lookup k w c m' =
        (if \<forall>l \<le> k. vidx w l = vidx v l then (if pte_is_present x then Some x else None) else pt_lookup k w c m)"
    using Suc.IH [OF _ fr tree(1) c(2)] Suc.prems(1) by (auto split: if_splits)
  have t0: "t0 \<in> pt_tables k c m"
    by (rule get_entry_loop_in [OF assms(1) _ fr c(2)]) (use Suc.prems(1) in simp_all)
  have t0f: "is_frame t0" by (rule fr [OF t0])
  have same: "same_frame h m m'" if "is_frame h" "h \<noteq> t0" for h
    unfolding same_frame_def m' using store64_frame [OF t0f vidx_less] frames_apart [OF that(1) t0f that(2)] by blast
  have ch: "child t j m' = child t j m" if "j < 512" for j
    by (rule child_same [OF same tf that]) (use tf t0 tree(2) in auto)
  have ci: "child t ?i m' = Some c" using ch [OF vidx_less] c(1) by simp
  have tn: "t \<notin> pt_tables k c m'" using IH(2) tree(2) by blast
  have si: "is_frame h \<and> same_frame h m m' \<and> h \<notin> pt_tables k c m'"
    if j: "j < 512" "j \<noteq> ?i" "child t j m = Some d" "h \<in> pt_tables k d m" for j d h
  proof -
    have "h \<notin> pt_tables k c m" using tree(3) [OF j(1,2,3)] j(4) by blast
    moreover have "is_frame h" using Suc.prems(2) pt_tables_child [OF j(1,3)] j(4) by blast
    ultimately show ?thesis using same [of h] t0 IH(2) by blast
  qed
  note ru = root_update [OF vidx_less ci IH(1) tn _ _ Suc.prems(3)]
  have "pt_tree (Suc k) t m'" by (rule ru(1)) (use ch si in blast)+
  moreover have "pt_tables (Suc k) t m' \<subseteq> pt_tables (Suc k) t m \<union> pt_tables k c m'"
    by (rule ru(2)) (use ch si in blast)+
  then have "pt_tables (Suc k) t m' \<subseteq> pt_tables (Suc k) t m" using IH(2) sub by blast
  moreover have "pt_lookup (Suc k) w t m' =
      (if vidx w (Suc k) = ?i then pt_lookup k w c m' else pt_lookup (Suc k) w t m)" for w
    by (rule ru(3)) (use ch si in blast)+
  then have "pt_lookup (Suc k) w t m' = (if \<forall>l \<le> Suc k. vidx w l = vidx v l
      then (if pte_is_present x then Some x else None) else pt_lookup (Suc k) w t m)" for w
    using IH(4) [of w] c(1) by (auto simp: le_Suc_eq)
  moreover have "get_entry_loop (Suc k) v t m' = Some t0" using step [of m'] ci IH(3) by simp
  ultimately show ?case by blast
qed

lemma same_page:
  assumes "unat v < 2 ^ 39" and "unat w < 2 ^ 39"
  shows "(\<forall>l \<le> 3. vidx w l = vidx v l) \<longleftrightarrow> w div VMM_PAGE_SIZE = v div VMM_PAGE_SIZE"
proof -
  define x y where xy: "x = unat v div 4096" "y = unat w div 4096"
  have lt: "x < 2 ^ 27" "y < 2 ^ 27" using assms xy by simp_all
  have ix: "vidx v 0 = x mod 512" "vidx v 1 = x div 512 mod 512" "vidx v 2 = x div 512 div 512 mod 512"
      "vidx v 3 = 0" "vidx w 0 = y mod 512" "vidx w 1 = y div 512 mod 512"
      "vidx w 2 = y div 512 div 512 mod 512" "vidx w 3 = 0"
    using assms div_mult2_eq [of "unat v" 4096 512] div_mult2_eq [of "unat w" 4096 512]
      div_mult2_eq [of "unat v" "4096 * 512" 512] div_mult2_eq [of "unat w" "4096 * 512" 512]
    by (simp_all add: vidx_def xy)
  have "l \<le> 3 \<longleftrightarrow> l = 0 \<or> l = 1 \<or> l = 2 \<or> l = (3 :: nat)" for l by arith
  then have "(\<forall>l \<le> 3. vidx w l = vidx v l) \<longleftrightarrow>
      y mod 512 = x mod 512 \<and> y div 512 mod 512 = x div 512 mod 512
      \<and> y div 512 div 512 mod 512 = x div 512 div 512 mod 512"
    by (auto simp: ix simp del: One_nat_def)
  also have "\<dots> \<longleftrightarrow> y = x"
  proof
    assume h: "y mod 512 = x mod 512 \<and> y div 512 mod 512 = x div 512 mod 512
      \<and> y div 512 div 512 mod 512 = x div 512 div 512 mod 512"
    have "x div 512 div 512 < 512" "y div 512 div 512 < 512" using lt by simp_all
    then have "y div 512 div 512 = x div 512 div 512" using h by simp
    then have "y div 512 = x div 512" using h by (metis div_mult_mod_eq)
    then show "y = x" using h by (metis div_mult_mod_eq)
  qed simp
  also have "\<dots> \<longleftrightarrow> w div VMM_PAGE_SIZE = v div VMM_PAGE_SIZE"
    by (simp add: xy word_unat_eq_iff unat_div_distrib)
  finally show ?thesis .
qed

subsection \<open>The address space as a map\<close>

text \<open>
  The abstract view of an address space: a map from page numbers to entries. \<open>vmm_ok\<close>: the tables
  form a tree of distinct frames of the pool, none of them on the free stack; the bitmap has a frame
  of its own.
\<close>

definition as_map :: "'a vmm_state_scheme \<Rightarrow> u64 \<rightharpoonup> u64" where
  "as_map s q = (if unat q < 2 ^ 27 then pt_lookup 3 (4096 * q) (read_cr3 s) (mem s) else None)"

definition vm_tables :: "'a vmm_state_scheme \<Rightarrow> u64 set" where
  "vm_tables s = pt_tables 3 (read_cr3 s) (mem s)"

definition vmm_ok :: "u64 set \<Rightarrow> nat \<Rightarrow> nat \<Rightarrow> 'a vmm_state_scheme \<Rightarrow> bool" where
  "vmm_ok P N K s \<longleftrightarrow> pmm_ok P N K s \<and> pt_tree 3 (read_cr3 s) (mem s)
     \<and> vm_tables s \<subseteq> P - set (pmm_frames s)
     \<and> cur_bitmap s \<in> P - set (pmm_frames s) - vm_tables s"

definition page_of :: "u64 \<Rightarrow> u64" where
  "page_of v = v div VMM_PAGE_SIZE"

lemma page_of_less: "unat v < 2 ^ 39 \<Longrightarrow> unat (page_of v) < 2 ^ 27"
  by (simp add: page_of_def unat_div_distrib)

lemma unat_page_addr: "unat q < 2 ^ 27 \<Longrightarrow> unat (4096 * q :: u64) = 4096 * unat q"
  by (subst unat_mult_lem [THEN iffD1]) simp_all

lemma page_of_addr: "unat q < 2 ^ 27 \<Longrightarrow> page_of (4096 * q) = q"
  using unat_page_addr [of q] by (simp add: page_of_def word_unat_eq_iff unat_div_distrib)

lemma lookup_page:
  "(\<And>l. l \<le> k \<Longrightarrow> vidx w l = vidx v l) \<Longrightarrow> pt_lookup k w t m = pt_lookup k v t m"
  by (induction k arbitrary: t) (simp_all split: option.split)

lemma as_map_page:
  assumes "unat v < 2 ^ 39"
  shows "as_map s (page_of v) = pt_lookup 3 v (read_cr3 s) (mem s)"
proof -
  have q: "unat (page_of v) < 2 ^ 27" by (rule page_of_less [OF assms])
  have "unat (4096 * page_of v) < 2 ^ 39" using q by (simp add: unat_page_addr)
  moreover have "4096 * page_of v div VMM_PAGE_SIZE = v div VMM_PAGE_SIZE"
    using page_of_addr [OF q] by (simp add: page_of_def)
  ultimately have "\<forall>l \<le> 3. vidx (4096 * page_of v) l = vidx v l" using same_page [OF assms] by blast
  then show ?thesis using q lookup_page [of 3 "4096 * page_of v" v] by (simp add: as_map_def)
qed

lemma vm_frames: "vmm_ok P N K s \<Longrightarrow> f \<in> vm_tables s \<Longrightarrow> is_frame f"
  unfolding vmm_ok_def pmm_ok_def using pool_frame(1) by blast

lemma root_nonzero: "vmm_ok P N K s \<Longrightarrow> read_cr3 s \<noteq> 0"
  using vm_frames [of P N K s "read_cr3 s"] by (simp add: vm_tables_def is_frame_def)

lemma loop_lookup:
  assumes "unat v < 2 ^ 39" and "k \<le> 3" and "\<And>f. f \<in> pt_tables k t m \<Longrightarrow> is_frame f"
  shows "pt_lookup k v t m = (case get_entry_loop k v t m of None \<Rightarrow> None | Some t0 \<Rightarrow>
    (let e = load64 m (slot t0 (vidx v 0)) in if pte_is_present e then Some e else None))"
  using assms(2,3)
proof (induction k arbitrary: t)
  case (Suc k)
  have "t \<noteq> 0" using Suc.prems(2) [of t] by (simp add: is_frame_def)
  note step = get_entry_loop_Suc [OF assms(1) Suc.prems(1) this]
  show ?case
  proof (cases "child t (vidx v (Suc k)) m")
    case (Some c)
    have "f \<in> pt_tables k c m \<Longrightarrow> is_frame f" for f
      using Suc.prems(2) pt_tables_child [OF vidx_less Some] by blast
    then show ?thesis using Suc.IH [of c] Suc.prems(1) unfolding step Some by (simp add: Some)
  qed (simp only: step pt_lookup.simps, simp)
qed simp

text \<open>\<open>get_entry\<close> reads the map.\<close>

lemma get_entry_slot:
  assumes "vmm_ok P N K s" and "unat v < 2 ^ 39"
  shows "get_entry v s = map_option (\<lambda>t. slot t (vidx v 0)) (get_entry_loop 3 v (read_cr3 s) (mem s))"
proof (cases "get_entry_loop 3 v (read_cr3 s) (mem s)")
  case (Some t0)
  have "t0 \<in> vm_tables s"
    unfolding vm_tables_def
    by (rule get_entry_loop_in [OF assms(2) _ _ Some])
      (use vm_frames [OF assms(1)] in \<open>auto simp: vm_tables_def\<close>)
  then have "t0 \<noteq> 0" using vm_frames [OF assms(1)] by (auto simp: is_frame_def)
  then show ?thesis using slot_entry [OF assms(2), of 0] Some by (simp add: get_entry_def)
qed (simp add: get_entry_def)

lemma as_map_get_entry:
  assumes "vmm_ok P N K s" and "unat v < 2 ^ 39"
  shows "as_map s (page_of v) = (case get_entry v s of None \<Rightarrow> None | Some e \<Rightarrow>
    (if pte_is_present (load64 (mem s) e) then Some (load64 (mem s) e) else None))"
  unfolding as_map_page [OF assms(2)] get_entry_slot [OF assms]
  by (subst loop_lookup [OF assms(2)])
    (use vm_frames [OF assms(1)] in \<open>auto simp: vm_tables_def Let_def split: option.split\<close>)

lemma page_absent_iff:
  assumes "vmm_ok P N K s" and "unat v < 2 ^ 39"
  shows "page_absent v s \<longleftrightarrow> as_map s (page_of v) = None"
  unfolding page_absent_def as_map_get_entry [OF assms] by (auto split: option.splits)

text \<open>
  What an operation may do to the memory outside: \<open>vm_rest\<close> says that besides the free stack and
  the bitmap of frames only old tables and taken frames change, and \<open>cr3\<close> and the bitmap stay.
\<close>

definition vm_rest :: "nat \<Rightarrow> 'a vmm_state_scheme \<Rightarrow> 'a vmm_state_scheme \<Rightarrow> bool" where
  "vm_rest K s s' \<longleftrightarrow> s' = s\<lparr>mem := mem s', free_blocks := free_blocks s'\<rparr>
     \<and> set (pmm_frames s') \<subseteq> set (pmm_frames s)
     \<and> vm_tables s' \<subseteq> vm_tables s \<union> (set (pmm_frames s) - set (pmm_frames s'))
     \<and> (\<forall>x. \<not> pmm_area K s x \<longrightarrow> (\<forall>f \<in> vm_tables s \<union> (set (pmm_frames s) - set (pmm_frames s')). \<not> in_frame f x)
          \<longrightarrow> mem s' x = mem s x)"

lemma map_page_maps:
  assumes ok: "vmm_ok P N K s" and v: "unat v < 2 ^ 39" and p: "p mod VMM_PAGE_SIZE = 0"
    and a: "attr_ok a" and n: "3 \<le> length (pmm_frames s)"
  shows "\<exists>s' e gs. map_page p v a s = (True, s') \<and> vmm_ok P N K s' \<and> vm_rest K s s'
    \<and> pmm_frames s = pmm_frames s' @ gs \<and> length gs \<le> 3
    \<and> pte_pfn e = p \<and> pte_is_present e \<and> e AND scast a = scast a
    \<and> as_map s' = (as_map s)(page_of v \<mapsto> e)"
proof -
  let ?r = "read_cr3 s"
  have ok': "pmm_ok P N K s" "pt_tree 3 ?r (mem s)" "pt_tables 3 ?r (mem s) \<subseteq> P - set (pmm_frames s)"
    using ok by (simp_all add: vmm_ok_def vm_tables_def)
  have lay: "pmm_layout P N K s" using ok'(1) by (simp add: pmm_ok_def)
  obtain t0 e' s1 where l: "map_page_loop 3 v a ?r 0 s = (Some (t0, e'), s1)" "tables_for P N K 3 v ?r s t0 s1"
    using map_page_loop_ok [OF v _ a ok' n] by blast
  obtain gs where gs: "pmm_frames s = pmm_frames s1 @ gs" "length gs \<le> 3"
    using l(2) by (auto simp: tables_for_def)
  have s1: "pmm_ok P N K s1" "s1 = s\<lparr>mem := mem s1, free_blocks := free_blocks s1\<rparr>"
    "pt_tree 3 ?r (mem s1)" "get_entry_loop 3 v ?r (mem s1) = Some t0" "t0 \<in> pt_tables 3 ?r (mem s1)"
    "pt_tables 3 ?r (mem s1) \<subseteq> pt_tables 3 ?r (mem s) \<union> (set (pmm_frames s) - set (pmm_frames s1))"
    using l(2) by (simp_all only: tables_for_def)
  have cr: "read_cr3 s1 = ?r" by (subst s1(2)) (simp add: read_cr3_def)
  have tabP: "pt_tables 3 ?r (mem s1) \<subseteq> P - set (pmm_frames s1)"
    using s1(6) ok'(3,1) gs by (auto simp: pmm_ok_def)
  have fr: "f \<in> pt_tables 3 ?r (mem s1) \<Longrightarrow> is_frame f" for f using tabP pool_frame(1) [OF lay] by blast
  have t0P: "t0 \<in> P" using s1(5) tabP by blast
  have t0f: "is_frame t0" by (rule fr [OF s1(5)])
  then have t0: "t0 \<noteq> 0" by (simp add: is_frame_def)
  define e where "e = entry_val (load64 (mem s1) (slot t0 (vidx v 0))) p a"
  define s' where "s' = s1\<lparr>mem := store64 (mem s1) (slot t0 (vidx v 0)) e\<rparr>"
  have call: "map_page p v a s = (True, s')"
    unfolding map_page_def l(1) using slot_entry [OF v _ t0, of 0]
    by (simp add: set_entry_eq s'_def e_def Let_def)
  have out: "mem s' x = mem s1 x" if "\<not> in_frame t0 x" for x
    unfolding s'_def using store64_frame [OF t0f vidx_less that] by simp
  have leaf: "pt_tree 3 ?r (mem s')" "pt_tables 3 ?r (mem s') \<subseteq> pt_tables 3 ?r (mem s1)"
    "\<And>w. pt_lookup 3 w ?r (mem s') =
        (if \<forall>l \<le> 3. vidx w l = vidx v l then (if pte_is_present e then Some e else None) else pt_lookup 3 w ?r (mem s1))"
    using leaf_store [OF v _ fr s1(3,4), of "mem s'" e] by (simp_all add: s'_def)
  have area: "pmm_area K s1 = pmm_area K s" by (subst s1(2)) (simp add: pmm_area_def fun_eq_iff)
  have am: "mem s' x = mem s1 x" if "pmm_area K s1 x" for x
    using out pool_frame(2) [OF lay t0P] that unfolding area by blast
  have s'1: "s' = s1\<lparr>mem := mem s'\<rparr>" by (simp add: s'_def)
  have pm: "pmm_ok P N K s'" "pmm_frames s' = pmm_frames s1"
    using pmm_ok_mem [OF s1(1), of "mem s'"] pmm_frames_mem [OF s1(1), of "mem s'"] am s'1 by metis+
  have cr': "read_cr3 s' = ?r" using cr by (simp add: s'_def read_cr3_def)
  have s's: "s' = s\<lparr>mem := mem s', free_blocks := free_blocks s'\<rparr>"
    unfolding s'_def by (subst s1(2)) simp
  have tabs: "vm_tables s' \<subseteq> vm_tables s \<union> (set (pmm_frames s) - set (pmm_frames s'))"
    using leaf(2) s1(6) by (auto simp: vm_tables_def cr' pm(2))
  have "cur_bitmap s' = cur_bitmap s" by (subst s's) simp
  then have "cur_bitmap s' \<in> P - set (pmm_frames s') - vm_tables s'"
    using ok tabs gs pm(2) by (auto simp: vmm_ok_def)
  then have "vmm_ok P N K s'" using pm(1) leaf(1,2) tabP by (auto simp: vmm_ok_def vm_tables_def cr' pm(2))
  moreover have "vm_rest K s s'"
    unfolding vm_rest_def
  proof (intro conjI allI impI)
    show "s' = s\<lparr>mem := mem s', free_blocks := free_blocks s'\<rparr>" by (rule s's)
    show "set (pmm_frames s') \<subseteq> set (pmm_frames s)" using gs pm(2) by auto
    show "vm_tables s' \<subseteq> vm_tables s \<union> (set (pmm_frames s) - set (pmm_frames s'))" by (rule tabs)
    fix x assume x: "\<not> pmm_area K s x"
      "\<forall>f \<in> vm_tables s \<union> (set (pmm_frames s) - set (pmm_frames s')). \<not> in_frame f x"
    have "mem s1 x = mem s x" using l(2) x unfolding tables_for_def vm_tables_def pm(2) by blast
    moreover have "\<not> in_frame t0 x" using x(2) s1(5,6) unfolding vm_tables_def pm(2) by blast
    ultimately show "mem s' x = mem s x" using out by simp
  qed
  moreover have "as_map s' = (as_map s)(page_of v \<mapsto> e)"
  proof
    fix q
    have lk: "pt_lookup 3 w ?r (mem s1) = pt_lookup 3 w ?r (mem s)" for w using l(2) by (simp only: tables_for_def)
    show "as_map s' q = ((as_map s)(page_of v \<mapsto> e)) q"
    proof (cases "unat q < 2 ^ 27")
      case True
      have w: "unat (4096 * q) < 2 ^ 39" using True by (simp add: unat_page_addr)
      have "(\<forall>l \<le> 3. vidx (4096 * q) l = vidx v l) \<longleftrightarrow> q = page_of v"
        using same_page [OF v w] page_of_addr [OF True] by (auto simp: page_of_def)
      then show ?thesis
        using leaf(3) [of "4096 * q"] True entry_val_present lk
        by (simp add: as_map_def cr' e_def)
    next
      case False
      then have "q \<noteq> page_of v" using page_of_less [OF v] by auto
      then show ?thesis using False by (simp add: as_map_def)
    qed
  qed
  moreover have "pte_pfn e = p" "pte_is_present e" using entry_val_pfn [OF p] a
    by (simp_all add: e_def entry_val_present attr_ok_def)
  moreover have "e AND scast a = scast a" 
    by (rule bit_eqI) (auto simp: e_def entry_val_def bit_and_iff bit_or_iff)
  ultimately show ?thesis using call gs pm(2) by metis
qed

lemma gmem_vm:
  assumes ok: "vmm_ok P N K s" and fs: "pmm_frames s = fs @ [f]"
  shows "\<exists>s'. gmem s = (f, s') \<and> vmm_ok P N K s' \<and> pmm_frames s' = fs \<and> vm_tables s' = vm_tables s
    \<and> as_map s' = as_map s \<and> s' = s\<lparr>mem := mem s', free_blocks := free_blocks s'\<rparr>
    \<and> (\<forall>x. \<not> pmm_area K s x \<longrightarrow> mem s' x = mem s x)"
proof -
  have ok': "pmm_ok P N K s" using ok by (simp add: vmm_ok_def)
  have lay: "pmm_layout P N K s" using ok' by (simp add: pmm_ok_def)
  obtain s' where s': "gmem s = (f, s')" "pmm_ok P N K s'" "pmm_frames s' = fs"
    using gmem_frame [OF ok' fs] by blast
  have w: "\<forall>x. \<not> pmm_area K s x \<longrightarrow> mem s' x = mem s x" using gmem_writes [OF ok' s'(1)] by blast
  have e: "s' = s\<lparr>mem := mem s', free_blocks := free_blocks s'\<rparr>" by (rule gmem_rest [OF s'(1)])
  have cr: "read_cr3 s' = read_cr3 s" "cur_bitmap s' = cur_bitmap s" by (subst e, simp add: read_cr3_def)+
  have "is_frame h \<and> same_frame h (mem s) (mem s')" if "h \<in> pt_tables 3 (read_cr3 s) (mem s)" for h
  proof -
    have "h \<in> P" using that ok by (auto simp: vmm_ok_def vm_tables_def)
    then show ?thesis using pool_frame [OF lay] w by (auto simp: same_frame_def)
  qed
  note same = tables_same [OF this] tree_same [OF this] lookup_same [OF this]
  have "vm_tables s' = vm_tables s" "as_map s' = as_map s"
    using same by (simp_all add: vm_tables_def as_map_def cr fun_eq_iff)
  moreover have "vmm_ok P N K s'"
    using ok same(2) s' fs calculation(1) by (auto simp: vmm_ok_def cr)
  ultimately show ?thesis using s' w e by blast
qed

lemma alloc_page_maps:
  assumes ok: "vmm_ok P N K s" and v: "unat v < 2 ^ 39" and a: "attr_ok a" and n: "4 \<le> length (pmm_frames s)"
  shows "\<exists>s' e fs. alloc_page v a s = (True, s') \<and> vmm_ok P N K s' \<and> vm_rest K s s'
    \<and> pmm_frames s = pmm_frames s' @ fs \<and> length fs \<le> 4
    \<and> pte_is_present e \<and> pte_pfn e = last fs \<and> last fs \<notin> vm_tables s' \<and> fs \<noteq> [] \<and> e AND scast a = scast a
    \<and> as_map s' = (as_map s)(page_of v \<mapsto> e)"
proof -
  obtain fs f where fs: "pmm_frames s = fs @ [f]" using n by (cases "pmm_frames s" rule: rev_cases) auto
  obtain s1 where g: "gmem s = (f, s1)" "vmm_ok P N K s1" "pmm_frames s1 = fs" "vm_tables s1 = vm_tables s"
      "as_map s1 = as_map s" "s1 = s\<lparr>mem := mem s1, free_blocks := free_blocks s1\<rparr>"
      "\<forall>x. \<not> pmm_area K s x \<longrightarrow> mem s1 x = mem s x"
    using gmem_vm [OF ok fs] by blast
  have lay: "pmm_layout P N K s" using ok by (simp add: vmm_ok_def pmm_ok_def)
  have fP: "f \<in> P" "f \<notin> set fs" using ok fs by (auto simp: vmm_ok_def pmm_ok_def)
  have ff: "is_frame f" by (rule pool_frame(1) [OF lay fP(1)])
  have al: "f mod VMM_PAGE_SIZE = 0" using ff by (simp add: is_frame_def)
  have "3 \<le> length (pmm_frames s1)" using n fs g(3) by simp
  from map_page_maps [OF g(2) v al a this] obtain s' e gs where r: "map_page f v a s1 = (True, s')" "vmm_ok P N K s'"
      "vm_rest K s1 s'" "pmm_frames s1 = pmm_frames s' @ gs" "length gs \<le> 3"
      "pte_pfn e = f" "pte_is_present e" "e AND scast a = scast a" "as_map s' = (as_map s1)(page_of v \<mapsto> e)"
    by blast
  have call: "alloc_page v a s = (True, s')" using ff r(1) by (simp add: alloc_page_def g(1) is_frame_def)
  have fr: "pmm_frames s = pmm_frames s' @ (gs @ [f])" using fs g(3) r(4) by simp
  have area: "pmm_area K s1 = pmm_area K s" by (subst g(6)) (simp add: pmm_area_def fun_eq_iff)
  have "f \<notin> vm_tables s1" using ok fs g(4) by (auto simp: vmm_ok_def)
  then have ft: "f \<notin> vm_tables s'" using r(3) fP(2) g(3) by (auto simp: vm_rest_def)
  have fn: "f \<notin> set (pmm_frames s')" using fP(2) g(3) r(4) by auto
  have "vm_rest K s s'"
    unfolding vm_rest_def
  proof (intro conjI allI impI)
    have "s' = s1\<lparr>mem := mem s', free_blocks := free_blocks s'\<rparr>" using r(3) by (simp only: vm_rest_def)
    then show "s' = s\<lparr>mem := mem s', free_blocks := free_blocks s'\<rparr>" by (subst (asm) g(6)) simp
    show "set (pmm_frames s') \<subseteq> set (pmm_frames s)" unfolding fr by auto
    show "vm_tables s' \<subseteq> vm_tables s \<union> (set (pmm_frames s) - set (pmm_frames s'))"
      using r(3) unfolding vm_rest_def g(3,4) fs by auto
    fix x assume x: "\<not> pmm_area K s x"
      "\<forall>f \<in> vm_tables s \<union> (set (pmm_frames s) - set (pmm_frames s')). \<not> in_frame f x"
    have "\<forall>f \<in> vm_tables s1 \<union> (set (pmm_frames s1) - set (pmm_frames s')). \<not> in_frame f x"
      using x(2) unfolding g(3,4) fs by auto
    then have "mem s' x = mem s1 x" using r(3) x(1) area unfolding vm_rest_def by metis
    then show "mem s' x = mem s x" using g(7) x(1) by simp
  qed
  then show ?thesis using call r fr ft g(5) by (intro exI [of _ s'] exI [of _ e] exI [of _ "gs @ [f]"]) simp
qed

lemma vm_rest_trans:
  assumes "vm_rest K s t" and "vm_rest K t u"
  shows "vm_rest K s u"
proof -
  have t: "t = s\<lparr>mem := mem t, free_blocks := free_blocks t\<rparr>" using assms(1) by (simp only: vm_rest_def)
  have area: "pmm_area K t = pmm_area K s" by (subst t) (simp add: pmm_area_def fun_eq_iff)
  show ?thesis
    unfolding vm_rest_def
  proof (intro conjI allI impI)
    have "u = t\<lparr>mem := mem u, free_blocks := free_blocks u\<rparr>" using assms(2) by (simp only: vm_rest_def)
    then show "u = s\<lparr>mem := mem u, free_blocks := free_blocks u\<rparr>" by (subst (asm) t) simp
    show "set (pmm_frames u) \<subseteq> set (pmm_frames s)" using assms unfolding vm_rest_def by blast
    show "vm_tables u \<subseteq> vm_tables s \<union> (set (pmm_frames s) - set (pmm_frames u))"
      using assms unfolding vm_rest_def by blast
    fix x assume x: "\<not> pmm_area K s x"
      "\<forall>f \<in> vm_tables s \<union> (set (pmm_frames s) - set (pmm_frames u)). \<not> in_frame f x"
    have sub: "set (pmm_frames u) \<subseteq> set (pmm_frames t)" "set (pmm_frames t) \<subseteq> set (pmm_frames s)"
      "vm_tables t \<subseteq> vm_tables s \<union> (set (pmm_frames s) - set (pmm_frames t))"
      using assms unfolding vm_rest_def by blast+
    have "mem t x = mem s x" using assms(1) x sub unfolding vm_rest_def by blast
    moreover have "\<forall>f \<in> vm_tables t \<union> (set (pmm_frames t) - set (pmm_frames u)). \<not> in_frame f x" using x(2) sub by blast
    then have "mem u x = mem t x" using assms(2) x(1) unfolding vm_rest_def area by blast
    ultimately show "mem u x = mem s x" by simp
  qed
qed

lemma vm_rest_refl: "vm_rest K s s"
  by (simp add: vm_rest_def)

end
