(* ===== verification/Page_Search.thy ===== *)
theory Page_Search
  imports Address_Space
begin

unbundle bit_operations_syntax

section \<open>Allocating and freeing virtual pages\<close>

text \<open>
  \<open>vmm_alloc_pages_from\<close> searches for free virtual pages and maps them, \<open>vmm_free_pages\<close> unmaps pages.
  The search succeeds when the first gap it meets is large enough; after a gap that is too small it
  starts again at the last page of that gap, and never ends.
\<close>

subsection \<open>Mapping consecutive pages\<close>

text \<open>Mapping \<open>n\<close> absent pages from the page \<open>q\<close> on.\<close>

definition page_addr :: "nat \<Rightarrow> u64" where
  "page_addr q = of_nat (4096 * q)"

lemma page_addr_Suc: "page_addr q + VMM_PAGE_SIZE = page_addr (Suc q)"
  by (simp add: page_addr_def)

lemma unat_of_page: "q \<le> 2 ^ 27 \<Longrightarrow> unat (page_addr q) = 4096 * q"
  unfolding page_addr_def by (subst unat_of_nat_small) simp_all

lemma page_addr_low: "q < 2 ^ 27 \<Longrightarrow> unat (page_addr q) < 2 ^ 39"
  by (simp add: unat_of_page)

lemma page_of_page_addr: "q < 2 ^ 27 \<Longrightarrow> page_of (page_addr q) = of_nat q"
  by (simp add: page_of_def word_unat_eq_iff unat_div_distrib unat_of_page unat_of_nat_small)

lemma page_addr_eq: "p \<le> 2 ^ 27 \<Longrightarrow> q \<le> 2 ^ 27 \<Longrightarrow> page_addr p = page_addr q \<longleftrightarrow> p = q"
  using unat_of_page [of p] unat_of_page [of q] by (auto simp: word_unat_eq_iff)

definition mapped_run :: "nat \<Rightarrow> nat \<Rightarrow> u32 \<Rightarrow> u64 set \<Rightarrow> 'a vmm_state_scheme \<Rightarrow> 'a vmm_state_scheme \<Rightarrow> bool" where
  "mapped_run q n a F s s' \<longleftrightarrow>
     (\<forall>p. p < of_nat q \<or> of_nat (q + n) \<le> p \<longrightarrow> as_map s' p = as_map s p)
     \<and> (\<forall>i<n. \<exists>e. as_map s' (of_nat (q + i)) = Some e \<and> pte_pfn e \<in> F \<and> e AND scast a = scast a)
     \<and> (\<forall>i<n. \<forall>j<n. i \<noteq> j \<longrightarrow> map_option pte_pfn (as_map s' (of_nat (q + i))) \<noteq> map_option pte_pfn (as_map s' (of_nat (q + j))))"

lemma mappable_from_maps:
  assumes "attr_ok a"
  shows "vmm_ok P N K s \<Longrightarrow> q + n \<le> 2 ^ 27 \<Longrightarrow> (\<forall>i<n. as_map s (of_nat (q + i)) = None) \<Longrightarrow>
    4 * n \<le> length (pmm_frames s) \<Longrightarrow>
    \<exists>s'. mappable_from (page_addr q) (page_addr (q + n)) a l s = Some (True, page_addr (q + n), s')
      \<and> vmm_ok P N K s' \<and> vm_rest K s s' \<and> (\<exists>gs. pmm_frames s = pmm_frames s' @ gs \<and> length gs \<le> 4 * n)
      \<and> mapped_run q n a (set (pmm_frames s) - set (pmm_frames s') - vm_tables s') s s'"
proof (induction n arbitrary: q l s)
  case 0
  then show ?case
    by (simp add: mappable_from.simps mapped_run_def vm_rest_refl not_less)
next
  case (Suc n)
  have q: "q < 2 ^ 27" using Suc.prems(2) by simp
  have ne: "page_addr q \<noteq> page_addr (q + Suc n)" using page_addr_eq [of q "q + Suc n"] Suc.prems(2) by simp
  have "as_map s (of_nat q) = None" using Suc.prems(3) by (metis add_0_right zero_less_Suc)
  then have ab: "page_absent (page_addr q) s"
    using page_absent_iff [OF Suc.prems(1) page_addr_low [OF q]] by (simp add: page_of_page_addr [OF q])
  have "\<forall>i<n. as_map s (of_nat (Suc q + i)) = None" using Suc.prems(3) by (metis Suc_less_eq add_Suc_shift)
  from Suc.IH [OF Suc.prems(1) _ this, of "page_addr q"] Suc.prems(2,4)
  obtain s1 gs where r: "mappable_from (page_addr (Suc q)) (page_addr (q + Suc n)) a (page_addr q) s
        = Some (True, page_addr (q + Suc n), s1)" "vmm_ok P N K s1" "vm_rest K s s1"
      "pmm_frames s = pmm_frames s1 @ gs" "length gs \<le> 4 * n"
      "mapped_run (Suc q) n a (set (pmm_frames s) - set (pmm_frames s1) - vm_tables s1) s s1"
    by auto
  have "4 \<le> length (pmm_frames s1)" using Suc.prems(4) r(4,5) by simp
  from alloc_page_maps [OF r(2) page_addr_low [OF q] assms this]
  obtain s2 e fs where t: "alloc_page (page_addr q) a s1 = (True, s2)" "vmm_ok P N K s2" "vm_rest K s1 s2"
      "pmm_frames s1 = pmm_frames s2 @ fs" "length fs \<le> 4" "pte_is_present e" "pte_pfn e = last fs"
      "last fs \<notin> vm_tables s2" "fs \<noteq> []" "e AND scast a = scast a" "as_map s2 = (as_map s1)(of_nat q \<mapsto> e)"
    unfolding page_of_page_addr [OF q] by blast
  have "mappable_from (page_addr q) (page_addr (q + Suc n)) a l s = Some (True, page_addr (q + Suc n), s2)"
    using ne ab r(1) t(1) by (subst mappable_from.simps) (simp add: page_addr_Suc)
  moreover have "vm_rest K s s2" by (rule vm_rest_trans [OF r(3) t(3)])
  moreover have fr: "pmm_frames s = pmm_frames s2 @ (fs @ gs)" "length (fs @ gs) \<le> 4 * Suc n"
    using r(4,5) t(4,5) by simp_all
  moreover have "mapped_run q (Suc n) a (set (pmm_frames s) - set (pmm_frames s2) - vm_tables s2) s s2"
  proof -
    have d: "distinct (pmm_frames s)" using Suc.prems(1) by (simp add: vmm_ok_def pmm_ok_def)
    have un: "unat (of_nat k :: u64) = k" if "k \<le> 2 ^ 27" for k
      using that by (intro unat_of_nat_small) simp
    have neq: "(of_nat (Suc q + i) :: u64) \<noteq> of_nat q" if "i < n" for i
      using un [of "Suc q + i"] un [of q] that Suc.prems(2) by (metis add_Suc less_add_Suc1 less_irrefl_nat less_or_eq_imp_le nat_add_left_cancel_less order_trans add_Suc_right q)
    have lf: "last fs \<in> set (pmm_frames s1)" "last fs \<in> set fs" using t(4,9) by auto
    show ?thesis
      unfolding mapped_run_def
    proof (intro conjI allI impI)
      fix p :: u64 assume p: "p < of_nat q \<or> of_nat (q + Suc n) \<le> p"
      have "p \<noteq> of_nat q" using p un [of q] un [of "q + Suc n"] Suc.prems(2) q
        by (auto simp: word_less_nat_alt word_le_nat_alt)
      moreover have "p < of_nat (Suc q) \<or> of_nat (Suc q + n) \<le> p"
        using p un [of q] un [of "Suc q"] q by (auto simp: word_less_nat_alt)
      then have "as_map s1 p = as_map s p" using r(6) by (simp only: mapped_run_def)
      ultimately show "as_map s2 p = as_map s p" by (simp add: t(11))
    next
      fix i assume i: "i < Suc n"
      show "\<exists>e. as_map s2 (of_nat (q + i)) = Some e \<and>
          pte_pfn e \<in> set (pmm_frames s) - set (pmm_frames s2) - vm_tables s2 \<and> e AND scast a = scast a"
      proof (cases i)
        case 0
        have "last fs \<notin> set (pmm_frames s2)" using d lf fr(1) by auto
        then show ?thesis using 0 t(7,8,10,11) lf fr(1) by auto
      next
        case (Suc j)
        then have j: "j < n" using i by simp
        obtain e' where e': "as_map s1 (of_nat (Suc q + j)) = Some e'"
            "pte_pfn e' \<in> set (pmm_frames s) - set (pmm_frames s1) - vm_tables s1" "e' AND scast a = scast a"
          using r(6) j unfolding mapped_run_def by blast
        have "pte_pfn e' \<notin> set (pmm_frames s2)" "pte_pfn e' \<notin> vm_tables s2"
          using e'(2) t(3,4) by (auto simp: vm_rest_def)
        then show ?thesis using e' neq [OF j] Suc by (auto simp: t(11))
      qed
    next
      have old: "\<exists>e'. as_map s2 (of_nat (q + i)) = Some e' \<and> pte_pfn e' \<noteq> last fs
          \<and> as_map s2 (of_nat (q + i)) = as_map s1 (of_nat (Suc q + (i - 1)))" if "i < Suc n" "i \<noteq> 0" for i
      proof -
        obtain j where j: "i = Suc j" "j < n" using \<open>i < Suc n\<close> \<open>i \<noteq> 0\<close> by (cases i) auto
        obtain e' where "as_map s1 (of_nat (Suc q + j)) = Some e'" "pte_pfn e' \<notin> set (pmm_frames s1)"
          using r(6) j unfolding mapped_run_def by blast
        then show ?thesis using j neq [OF j(2)] lf by (auto simp: t(11))
      qed
      have new: "map_option pte_pfn (as_map s2 (of_nat (q + 0))) = Some (last fs)" by (simp add: t(7,11))
      fix i j assume ij: "i < Suc n" "j < Suc n" "i \<noteq> j"
      consider "i = 0" "j \<noteq> 0" | "j = 0" "i \<noteq> 0" | "i \<noteq> 0" "j \<noteq> 0" using ij by metis
      then show "map_option pte_pfn (as_map s2 (of_nat (q + i))) \<noteq> map_option pte_pfn (as_map s2 (of_nat (q + j)))"
      proof cases
        case 1
        then show ?thesis using new old [OF ij(2)] by auto
      next
        case 2
        then show ?thesis using new old [OF ij(1)] by auto
      next
        case 3
        have "i - 1 < n" "j - 1 < n" "i - 1 \<noteq> j - 1" using ij 3 by auto
        then have "map_option pte_pfn (as_map s1 (of_nat (Suc q + (i - 1))))
            \<noteq> map_option pte_pfn (as_map s1 (of_nat (Suc q + (j - 1))))"
          using r(6) unfolding mapped_run_def by blast
        then show ?thesis using old [OF ij(1)] old [OF ij(2)] 3 by metis
      qed
    qed
  qed
  ultimately show ?case using t(2) by metis
qed

subsection \<open>The bitmap and the scans\<close>

text \<open>Writing the bitmap leaves the address space as it is.\<close>

lemma bitmap_store:
  assumes ok: "vmm_ok P N K s" and i: "i < 512" and s': "s' = s\<lparr>mem := store64 (mem s) (slot (cur_bitmap s) i) x\<rparr>"
  shows "vmm_ok P N K s' \<and> as_map s' = as_map s \<and> vm_tables s' = vm_tables s \<and> pmm_frames s' = pmm_frames s"
proof -
  have ok': "pmm_ok P N K s" using ok by (simp add: vmm_ok_def)
  have lay: "pmm_layout P N K s" using ok' by (simp add: pmm_ok_def)
  have b: "cur_bitmap s \<in> P" "cur_bitmap s \<notin> vm_tables s" using ok by (auto simp: vmm_ok_def)
  have bf: "is_frame (cur_bitmap s)" by (rule pool_frame(1) [OF lay b(1)])
  have out: "mem s' x = mem s x" if "\<not> in_frame (cur_bitmap s) x" for x
    using store64_frame [OF bf i that] by (simp add: s')
  have am: "mem s' x = mem s x" if "pmm_area K s x" for x
    using out pool_frame(2) [OF lay b(1)] that by blast
  have s'1: "s' = s\<lparr>mem := mem s'\<rparr>" by (simp add: s')
  have pm: "pmm_ok P N K s'" "pmm_frames s' = pmm_frames s"
    using pmm_ok_mem [OF ok', of "mem s'"] pmm_frames_mem [OF ok', of "mem s'"] am s'1 by metis+
  have cr: "read_cr3 s' = read_cr3 s" "cur_bitmap s' = cur_bitmap s" by (simp_all add: s' read_cr3_def)
  have "is_frame h \<and> same_frame h (mem s) (mem s')" if "h \<in> pt_tables 3 (read_cr3 s) (mem s)" for h
  proof -
    have h: "h \<in> P" "h \<noteq> cur_bitmap s" using that ok b by (auto simp: vmm_ok_def vm_tables_def)
    have hf: "is_frame h" by (rule pool_frame(1) [OF lay h(1)])
    then show ?thesis using frames_apart [OF hf bf h(2)] out by (auto simp: same_frame_def)
  qed
  note same = tables_same [OF this] tree_same [OF this] lookup_same [OF this]
  have "vm_tables s' = vm_tables s" "as_map s' = as_map s"
    using same by (simp_all add: vm_tables_def as_map_def cr fun_eq_iff)
  moreover have "vmm_ok P N K s'" using ok same(2) pm calculation(1) by (auto simp: vmm_ok_def cr)
  ultimately show ?thesis using pm by blast
qed

definition vm_same :: "'a vmm_state_scheme \<Rightarrow> 'a vmm_state_scheme \<Rightarrow> bool" where
  "vm_same s s' \<longleftrightarrow> as_map s' = as_map s \<and> vm_tables s' = vm_tables s \<and> pmm_frames s' = pmm_frames s
     \<and> cur_bitmap s' = cur_bitmap s \<and> s' = s\<lparr>mem := mem s'\<rparr>
     \<and> (\<forall>x. \<not> in_frame (cur_bitmap s) x \<longrightarrow> mem s' x = mem s x)"

lemma vm_same_refl [simp]: "vm_same s s"
  by (simp add: vm_same_def)

lemma vm_same_trans:
  assumes st: "vm_same s t" and tu: "vm_same t u" shows "vm_same s u"
proof -
  have t: "t = s\<lparr>mem := mem t\<rparr>" using st by (simp only: vm_same_def)
  have "u = t\<lparr>mem := mem u\<rparr>" using tu by (simp only: vm_same_def)
  then have "u = s\<lparr>mem := mem u\<rparr>" by (subst (asm) t) simp
  moreover have "\<forall>x. \<not> in_frame (cur_bitmap s) x \<longrightarrow> mem u x = mem s x"
    using st tu by (auto simp: vm_same_def)
  ultimately show ?thesis using st tu unfolding vm_same_def by metis
qed

lemma bitmap_slot: "unat bn < 2 ^ 15 \<Longrightarrow> a + 8 * (bn div 64) = slot a (unat bn div 64)"
proof -
  assume "unat bn < 2 ^ 15"
  have "bn div 64 = of_nat (unat bn div 64)" by (rule word_of_unat) (simp add: unat_div_distrib)
  then show ?thesis by (simp add: slot_def)
qed

lemma bitmap_ops:
  assumes "vmm_ok P N K s" and "unat bn < 2 ^ 15"
  shows "vmm_ok P N K (pt_complete bn s) \<and> vm_same s (pt_complete bn s)"
    and "vmm_ok P N K (pt_incomplete bn s) \<and> vm_same s (pt_incomplete bn s)"
proof -
  have i: "unat bn div 64 < 512" using assms(2) by simp
  have f: "is_frame (cur_bitmap s)" using assms(1) pool_frame(1) by (fastforce simp: vmm_ok_def pmm_ok_def)
  have "vmm_ok P N K t \<and> vm_same s t" if "t = s\<lparr>mem := store64 (mem s) (slot (cur_bitmap s) (unat bn div 64)) x\<rparr>" for t x
    using bitmap_store [OF assms(1) i that] store64_frame [OF f i] by (simp add: vm_same_def that)
  then show "vmm_ok P N K (pt_complete bn s) \<and> vm_same s (pt_complete bn s)"
    "vmm_ok P N K (pt_incomplete bn s) \<and> vm_same s (pt_incomplete bn s)"
    unfolding pt_complete_def pt_incomplete_def Let_def bitmap_slot [OF assms(2)] by blast+
qed

lemma complete_loop_ok:
  "vmm_ok P N K s \<Longrightarrow> unat bn + n \<le> 2 ^ 15 \<Longrightarrow> vmm_ok P N K (complete_loop n bn s) \<and> vm_same s (complete_loop n bn s)"
proof (induction n arbitrary: bn s)
  case (Suc n)
  have "unat bn < 2 ^ 15" using Suc.prems(2) by simp
  from bitmap_ops(1) [OF Suc.prems(1) this] have c: "vmm_ok P N K (pt_complete bn s)" "vm_same s (pt_complete bn s)" by auto
  have "unat (bn + 1) \<le> unat bn + 1" using unat_add_small [of bn 1] Suc.prems(2) by simp
  then have "unat (bn + 1) + n \<le> 2 ^ 15" using Suc.prems(2) by simp
  from Suc.IH [OF c(1) this] show ?case using vm_same_trans [OF c(2)] by simp
qed simp

text \<open>The scans over the pages of a table.\<close>

lemma absent_page:
  assumes "vmm_ok P N K s" and "p < 2 ^ 27"
  shows "page_absent (page_addr p) s \<longleftrightarrow> as_map s (of_nat p) = None"
  using page_absent_iff [OF assms(1) page_addr_low [OF assms(2)]] page_of_page_addr [OF assms(2)] by simp

lemma range_incomplete:
  "vmm_ok P N K s \<Longrightarrow> p + n \<le> 2 ^ 27 \<Longrightarrow>
    is_pt_range_incomplete (page_addr p) (page_addr (p + n)) s = Some (\<exists>i<n. as_map s (of_nat (p + i)) = None)"
proof (induction n arbitrary: p)
  case 0
  then show ?case by (simp add: is_pt_range_incomplete.simps)
next
  case (Suc n)
  have p: "p < 2 ^ 27" using Suc.prems(2) by simp
  have ne: "page_addr p \<noteq> page_addr (p + Suc n)" using page_addr_eq [of p "p + Suc n"] Suc.prems(2) by simp
  have "(\<exists>i<Suc n. as_map s (of_nat (p + i)) = None)
      \<longleftrightarrow> as_map s (of_nat p) = None \<or> (\<exists>i<n. as_map s (of_nat (Suc p + i)) = None)"
    unfolding Ex_less_Suc2 by simp
  then show ?case
    using Suc.IH [OF Suc.prems(1), of "Suc p"] Suc.prems(2) ne absent_page [OF Suc.prems(1) p]
    by (subst is_pt_range_incomplete.simps) (auto simp: page_addr_Suc)
qed

lemma free_page_in_pt:
  "vmm_ok P N K s \<Longrightarrow> p + n \<le> 2 ^ 27 \<Longrightarrow> i \<le> n \<Longrightarrow> (\<forall>j<i. as_map s (of_nat (p + j)) \<noteq> None) \<Longrightarrow>
    i = n \<or> as_map s (of_nat (p + i)) = None \<Longrightarrow>
    get_free_page_in_pt (page_addr p) (page_addr (p + n)) s = Some (page_addr (p + i))"
proof (induction i arbitrary: p n)
  case 0
  have "n = 0 \<or> p < 2 ^ 27" using 0(2) by auto
  then show ?case
    using 0 absent_page [OF 0(1), of p] by (subst get_free_page_in_pt.simps) auto
next
  case (Suc i)
  obtain m where n: "n = Suc m" using Suc.prems(3) by (cases n) auto
  have p: "p < 2 ^ 27" using Suc.prems(2) n by simp
  have ne: "page_addr p \<noteq> page_addr (p + n)" using page_addr_eq [of p "p + n"] Suc.prems(2) n by simp
  have "as_map s (of_nat p) \<noteq> None" using Suc.prems(4) by (metis add_0_right zero_less_Suc)
  then have pr: "\<not> page_absent (page_addr p) s" using absent_page [OF Suc.prems(1) p] by simp
  have "\<forall>j<i. as_map s (of_nat (Suc p + j)) \<noteq> None" using Suc.prems(4) by (metis Suc_less_eq add_Suc_shift)
  then have "get_free_page_in_pt (page_addr (Suc p)) (page_addr (Suc p + m)) s = Some (page_addr (Suc p + i))"
    using Suc.prems n by (intro Suc.IH) auto
  then show ?case using ne pr by (subst get_free_page_in_pt.simps) (simp add: page_addr_Suc n)
qed

lemma table_addr: "of_nat k * VMM_PT_SIZE = page_addr (512 * k)" "(of_nat k + 1) * VMM_PT_SIZE = page_addr (512 * Suc k)"
  by (simp_all add: page_addr_def algebra_simps)

lemma addr_table: "q \<le> 2 ^ 27 \<Longrightarrow> page_addr q div VMM_PT_SIZE = of_nat (q div 512)"
proof (rule word_unat_eq_iff [THEN iffD2])
  assume q: "q \<le> 2 ^ 27"
  have "unat (page_addr q div VMM_PT_SIZE) = 4096 * q div 2097152"
    using unat_of_page [OF q] by (simp add: unat_div_distrib)
  also have "\<dots> = q div 512" using div_mult_mult1 [of 4096 q 512] by simp
  finally show "unat (page_addr q div VMM_PT_SIZE) = unat (of_nat (q div 512) :: u64)"
    using q by (simp add: unat_of_nat_small)
qed

lemma update_bitmap_ok:
  assumes ok: "vmm_ok P N K s" and pq: "p \<le> q" "q < 2 ^ 24"
  shows "\<exists>s'. update_bitmap (page_addr p) (page_addr q) inc s = Some s' \<and> vmm_ok P N K s' \<and> vm_same s s'"
proof -
  let ?f = "p div 512" and ?t = "q div 512"
  have p27: "p \<le> 2 ^ 27" and q27: "q \<le> 2 ^ 27" using pq by simp_all
  have lt: "?f \<le> ?t" "?t < 2 ^ 15" using pq by (auto intro: div_le_mono)
  have u: "unat (of_nat k :: u64) = k" if "k \<le> 2 ^ 27" for k using that by (intro unat_of_nat_small) simp
  have ft: "unat (of_nat ?f :: u64) = ?f" "unat (of_nat ?t :: u64) = ?t" using lt by (auto intro!: u)
  define s1 where "s1 = complete_loop (Suc ?t - ?f) (of_nat ?f) s"
  have s1: "vmm_ok P N K s1" "vm_same s s1"
    using complete_loop_ok [OF ok, of "of_nat ?f" "Suc ?t - ?f"] lt ft by (simp_all add: s1_def)
  define s2 where "s2 = (if inc then pt_incomplete (of_nat ?f) s1 else s1)"
  have "unat (of_nat ?f :: u64) < 2 ^ 15" using ft lt by simp
  from bitmap_ops(2) [OF s1(1) this] have s2: "vmm_ok P N K s2" "vm_same s s2"
    using s1 vm_same_trans by (auto simp: s2_def)
  obtain b where b: "is_pt_incomplete (of_nat ?t) s2 = Some b"
    using range_incomplete [OF s2(1), of "512 * ?t" 512] lt
    unfolding is_pt_incomplete_def table_addr by (simp add: add.commute)
  have "unat (of_nat ?t :: u64) < 2 ^ 15" using ft lt by simp
  from bitmap_ops(2) [OF s2(1) this] have
    "vmm_ok P N K (if b then pt_incomplete (of_nat ?t) s2 else s2) \<and> vm_same s (if b then pt_incomplete (of_nat ?t) s2 else s2)"
    using s2 vm_same_trans by auto
  moreover have "update_bitmap (page_addr p) (page_addr q) inc s = Some (if b then pt_incomplete (of_nat ?t) s2 else s2)"
    unfolding update_bitmap_def Let_def addr_table [OF p27] addr_table [OF q27] ft s1_def [symmetric]
      s2_def [symmetric] b by simp
  ultimately show ?thesis by blast
qed

subsection \<open>The search\<close>

lemma run_end:
  assumes "n < 2 ^ 19" and "q + n \<le> 2 ^ 27"
  shows "page_addr q + scast ((of_nat n :: u32) * 4096) = page_addr (q + n)"
proof -
  have "(of_nat n :: u32) * 4096 = of_nat (4096 * n)" by simp
  moreover have "4096 * n < 2 ^ 31" using assms(1) by simp
  ultimately have "(scast ((of_nat n :: u32) * 4096) :: u64) = of_nat (4096 * n)"
    by (simp only: scast_of_nat_32)
  then show ?thesis by (simp add: page_addr_def algebra_simps)
qed

lemma search_pt_finds:
  assumes ok: "vmm_ok P N K s" and a: "attr_ok a" and T: "512 * T \<le> p" "p + i < 512 * Suc T" "p + i + n < 2 ^ 24"
    and n: "n < 2 ^ 19"
    and used: "\<forall>j<i. as_map s (of_nat (p + j)) \<noteq> None" and gap: "\<forall>j<n. as_map s (of_nat (p + i + j)) = None"
    and n0: "0 < n" and mem: "4 * n \<le> length (pmm_frames s)"
  shows "\<exists>s1 s'. search_pt (of_nat T) (page_addr p) inc (of_nat n) a s = Some (Found (page_addr (p + i)), s')
    \<and> vmm_ok P N K s' \<and> vmm_ok P N K s1 \<and> vm_rest K s s1 \<and> (\<exists>gs. pmm_frames s = pmm_frames s1 @ gs \<and> length gs \<le> 4 * n)
    \<and> mapped_run (p + i) n a (set (pmm_frames s) - set (pmm_frames s1) - vm_tables s1) s s1 \<and> vm_same s1 s'"
proof -
  let ?m = "512 * Suc T - p"
  have pm: "p + ?m = 512 * Suc T" using T by simp
  have "as_map s (of_nat (p + i)) = None" using gap n0 by (metis add_0_right)
  then have g: "get_free_page_in_pt (page_addr p) (page_addr (512 * Suc T)) s = Some (page_addr (p + i))"
    using free_page_in_pt [OF ok, of p ?m i] T used unfolding pm by auto
  have ne: "page_addr (p + i) \<noteq> page_addr (512 * Suc T)" using page_addr_eq [of "p + i" "512 * Suc T"] T by auto
  have q27: "p + i + n \<le> 2 ^ 27" using T(3) by simp
  from mappable_from_maps [OF a ok q27 gap mem, of "page_addr (p + i)"]
  obtain s1 where r: "mappable_from (page_addr (p + i)) (page_addr (p + i + n)) a (page_addr (p + i)) s
      = Some (True, page_addr (p + i + n), s1)" "vmm_ok P N K s1" "vm_rest K s s1"
      "\<exists>gs. pmm_frames s = pmm_frames s1 @ gs \<and> length gs \<le> 4 * n"
      "mapped_run (p + i) n a (set (pmm_frames s) - set (pmm_frames s1) - vm_tables s1) s s1" by blast
  from update_bitmap_ok [OF r(2) _ T(3), of "p + i" inc]
  obtain s' where u: "update_bitmap (page_addr (p + i)) (page_addr (p + i + n)) inc s1 = Some s'"
      "vmm_ok P N K s'" "vm_same s1 s'" by auto
  have "search_pt (of_nat T) (page_addr p) inc (of_nat n) a s = Some (Found (page_addr (p + i)), s')"
    by (subst search_pt.simps, unfold Let_def table_addr g)
      (use ne r(1) u(1) in \<open>simp add: run_end [OF n q27] del: of_nat_add\<close>)
  then show ?thesis using r u by blast
qed

text \<open>A gap of \<open>r\<close> pages that is too small: the attempt fails, with the last free page as \<open>*last_addr\<close>.\<close>

lemma mappable_from_fails:
  "vmm_ok P N K s \<Longrightarrow> q + n \<le> 2 ^ 27 \<Longrightarrow> r < n \<Longrightarrow> (\<forall>j<r. as_map s (of_nat (q + j)) = None) \<Longrightarrow>
    as_map s (of_nat (q + r)) \<noteq> None \<Longrightarrow>
    mappable_from (page_addr q) (page_addr (q + n)) a l s
      = Some (False, if r = 0 then l else page_addr (q + r - 1), s)"
proof (induction r arbitrary: q n l)
  case 0
  have q: "q < 2 ^ 27" using 0 by simp
  have ne: "page_addr q \<noteq> page_addr (q + n)" using page_addr_eq [of q "q + n"] 0 by simp
  have "\<not> page_absent (page_addr q) s" using absent_page [OF 0(1) q] 0(5) by simp
  then show ?case using ne by (subst mappable_from.simps) simp
next
  case (Suc r)
  obtain m where m: "n = Suc m" using Suc.prems(3) by (cases n) auto
  have q: "q < 2 ^ 27" using Suc.prems(2) m by simp
  have ne: "page_addr q \<noteq> page_addr (q + n)" using page_addr_eq [of q "q + n"] Suc.prems m by simp
  have "as_map s (of_nat q) = None" using Suc.prems(4) by (metis add_0_right zero_less_Suc)
  then have ab: "page_absent (page_addr q) s" using absent_page [OF Suc.prems(1) q] by simp
  have "\<forall>j<r. as_map s (of_nat (Suc q + j)) = None" using Suc.prems(4) by (metis Suc_less_eq add_Suc_shift)
  then have IH: "mappable_from (page_addr (Suc q)) (page_addr (Suc q + m)) a (page_addr q) s
      = Some (False, if r = 0 then page_addr q else page_addr (Suc q + r - 1), s)"
    using Suc.prems m by (intro Suc.IH) auto
  have "(if r = 0 then page_addr q else page_addr (Suc q + r - 1)) = page_addr (q + r)" by simp
  moreover have "page_addr (q + r) \<noteq> page_addr (q + n)"
    using page_addr_eq [of "q + r" "q + n"] Suc.prems(2,3) by simp
  ultimately show ?case using IH ne ab by (subst mappable_from.simps) (simp add: page_addr_Suc m)
qed

lemma last_table:
  assumes "q < 2 ^ 27"
  shows "scast (ucast (page_addr q div VMM_PT_SIZE) :: u32) = (of_nat (q div 512) :: u64)"
    and "scast (ucast (drop_bit 12 (page_addr q mod VMM_PT_SIZE)) :: u32) = (of_nat (q mod 512) :: u64)"
proof -
  have k: "scast (ucast (of_nat k :: u64) :: u32) = (of_nat k :: u64)" if "k < 2 ^ 31" for k
    using that scast_of_nat_32 [OF that] by (simp add: unsigned_of_nat take_bit_nat_eq_self)
  show "scast (ucast (page_addr q div VMM_PT_SIZE) :: u32) = (of_nat (q div 512) :: u64)"
    using assms by (subst addr_table) (auto intro!: k)
  have "unat (page_addr q mod VMM_PT_SIZE) = 4096 * (q mod 512)"
    using unat_of_page [of q] assms by (simp add: unat_mod_distrib mult_mod_right)
  then have "unat (drop_bit 12 (page_addr q mod VMM_PT_SIZE)) = q mod 512"
    by (simp only: unat_drop_bit_eq) (simp add: drop_bit_eq_div)
  then have "drop_bit 12 (page_addr q mod VMM_PT_SIZE) = of_nat (q mod 512)" by (rule word_of_unat)
  moreover have "q mod 512 < 2 ^ 31" by (rule less_trans [of _ 512]) simp_all
  ultimately show "scast (ucast (drop_bit 12 (page_addr q mod VMM_PT_SIZE)) :: u32) = (of_nat (q mod 512) :: u64)"
    using k by simp
qed

lemma search_pt_hangs:
  assumes ok: "vmm_ok P N K s" and n: "n < 2 ^ 19" "1 < n" and q: "q + n \<le> 2 ^ 27"
    and one: "as_map s (of_nat q) = None" "as_map s (of_nat (Suc q)) \<noteq> None"
  shows "search_pt (of_nat (q div 512)) (page_addr q) inc (of_nat n) a s = None"
proof -
  let ?T = "of_nat (q div 512) :: u64"
  have q27: "q < 2 ^ 27" using q n by simp
  have "q < 512 * Suc (q div 512)" using dividend_less_times_div [of 512 q] by simp
  then have ne: "page_addr q \<noteq> page_addr (512 * Suc (q div 512))"
    using page_addr_eq [of q "512 * Suc (q div 512)"] q27 by auto
  have ab: "page_absent (page_addr q) s" using absent_page [OF ok q27] one by simp
  have g: "get_free_page_in_pt (page_addr q) (page_addr (512 * Suc (q div 512))) s = Some (page_addr q)"
    using ne ab by (subst get_free_page_in_pt.simps) simp
  have m: "mappable_from (page_addr q) (page_addr (q + n)) a l s = Some (False, page_addr q, s)" for l
    using mappable_from_fails [OF ok q n(2), of a l] one by simp
  have "\<not> (pt = ?T \<and> c = page_addr q \<and> k = of_nat n \<and> b = a \<and> u = s)"
    if "search_pt pt c i k b u = Some y" for pt c i k b u y
  proof (rule search_pt.raw_induct [where P = "\<lambda>pt c i k b u y.
      \<not> (pt = ?T \<and> c = page_addr q \<and> k = of_nat n \<and> b = a \<and> u = s)", OF _ that], goal_cases)
    case (1 f pt c i k b u y)
    show ?case
    proof
      assume "pt = ?T \<and> c = page_addr q \<and> k = of_nat n \<and> b = a \<and> u = s"
      then have h: "pt = ?T" "c = page_addr q" "k = of_nat n" "b = a" "u = s" by simp_all
      have "f ?T (page_addr q) True (of_nat n) a s = Some y"
        using 1(2) ne unfolding Let_def h table_addr g
        by (simp add: m run_end [OF n(1) q] last_table [OF q27] del: of_nat_add)
      from 1(1) [OF this] show False by simp
    qed
  qed
  then have "search_pt ?T (page_addr q) inc (of_nat n) a s \<noteq> Some y" for y by blast
  then show ?thesis by (meson not_Some_eq)
qed

lemma div512: "512 * (T :: nat) \<le> p \<Longrightarrow> p < 512 * Suc T \<Longrightarrow> p div 512 = T"
  by (simp add: div_nat_eqI)

lemma pt_start:
  "T \<le> 32768 \<Longrightarrow> \<not> of_nat T > VMM_TOTAL_PTS"
  by (simp add: word_less_nat_alt unat_of_nat_small)

lemma start_addr: "of_nat T * VMM_PT_SIZE + of_nat i * VMM_PAGE_SIZE = page_addr (512 * T + i)"
  by (simp add: page_addr_def algebra_simps)

text \<open>The search stops when the first gap is large enough, and only then.\<close>

lemma alloc_pages_finds:
  assumes ok: "vmm_ok P N K s" and a: "attr_ok a" and T: "512 * T \<le> p" "p + i < 512 * Suc T" "p + i + n < 2 ^ 24"
    and inc: "\<not> pt_is_complete (of_nat T) s" and n: "0 < n" "n < 2 ^ 19"
    and used: "\<forall>j<i. as_map s (of_nat (p + j)) \<noteq> None" and gap: "\<forall>j<n. as_map s (of_nat (p + i + j)) = None"
    and mem: "4 * n \<le> length (pmm_frames s)"
  shows "\<exists>s1 s'. alloc_pages (of_nat T) (of_nat (p - 512 * T)) (of_nat n) a s = Some (Some (page_addr (p + i)), s')
    \<and> vmm_ok P N K s' \<and> vmm_ok P N K s1 \<and> vm_rest K s s1 \<and> (\<exists>gs. pmm_frames s = pmm_frames s1 @ gs \<and> length gs \<le> 4 * n)
    \<and> mapped_run (p + i) n a (set (pmm_frames s) - set (pmm_frames s1) - vm_tables s1) s s1 \<and> vm_same s1 s'"
proof -
  have "T \<le> 32768" using T by simp
  note st = pt_start [OF this]
  have "512 * T + (p - 512 * T) = p" using T by simp
  then have ad: "of_nat T * VMM_PT_SIZE + of_nat (p - 512 * T) * VMM_PAGE_SIZE = page_addr p" by (simp only: start_addr)
  obtain s1 s' where r: "search_pt (of_nat T) (page_addr p) False (of_nat n) a s = Some (Found (page_addr (p + i)), s')"
    "vmm_ok P N K s' \<and> vmm_ok P N K s1 \<and> vm_rest K s s1 \<and> (\<exists>gs. pmm_frames s = pmm_frames s1 @ gs \<and> length gs \<le> 4 * n)
    \<and> mapped_run (p + i) n a (set (pmm_frames s) - set (pmm_frames s1) - vm_tables s1) s s1 \<and> vm_same s1 s'"
    using search_pt_finds [OF ok a T n(2) used gap n(1) mem] by blast
  have "alloc_pages (of_nat T) (of_nat (p - 512 * T)) (of_nat n) a s = Some (Some (page_addr (p + i)), s')"
    by (subst alloc_pages.simps, unfold Let_def ad r(1)) (use st inc in simp)
  then show ?thesis using r(2) by blast
qed

text \<open>Tables that are marked complete, and tables with no free page from the address on, are passed over.\<close>

lemma alloc_pages_next:
  assumes ok: "vmm_ok P N K s" and T: "512 * T \<le> p" "p < 512 * Suc T" "512 * Suc T \<le> 2 ^ 24"
    and full: "pt_is_complete (of_nat T) s \<or> (\<forall>q. p \<le> q \<longrightarrow> q < 512 * Suc T \<longrightarrow> as_map s (of_nat q) \<noteq> None)"
  shows "alloc_pages (of_nat T) (of_nat (p - 512 * T)) n a s = alloc_pages (of_nat (Suc T)) 0 n a s"
proof -
  have "T \<le> 32768" using T by simp
  note st = pt_start [OF this]
  have S: "(of_nat (Suc T) :: u64) = of_nat T + 1" by simp
  show ?thesis
  proof (cases "pt_is_complete (of_nat T) s")
    case True
    then show ?thesis unfolding S using st by (subst alloc_pages.simps) simp
  next
    case False
    let ?m = "512 * Suc T - p"
    have pm: "p + ?m = 512 * Suc T" using T by simp
    have "\<forall>j<?m. as_map s (of_nat (p + j)) \<noteq> None"
    proof (intro allI impI)
      fix j assume "j < ?m"
      then have "p \<le> p + j" "p + j < 512 * Suc T" by simp_all
      then show "as_map s (of_nat (p + j)) \<noteq> None" using full False by blast
    qed
    then have f: "get_free_page_in_pt (page_addr p) (page_addr (512 * Suc T)) s = Some (page_addr (512 * Suc T))"
      using free_page_in_pt [OF ok, of p ?m ?m] T(3) unfolding pm by simp
    have r: "search_pt (of_nat T) (page_addr p) False n a s = Some (Exhausted, s)"
      by (subst search_pt.simps, unfold Let_def table_addr f) simp
    have "512 * T + (p - 512 * T) = p" using T by simp
    then have ad: "of_nat T * VMM_PT_SIZE + of_nat (p - 512 * T) * VMM_PAGE_SIZE = page_addr p" by (simp only: start_addr)
    show ?thesis unfolding S by (subst alloc_pages.simps, unfold Let_def ad r) (use st False in simp)
  qed
qed

lemma alloc_pages_reaches:
  assumes ok: "vmm_ok P N K s" and g: "g < 2 ^ 24" "g div 512 = G"
  shows "512 * T \<le> p \<Longrightarrow> p < 512 * Suc T \<Longrightarrow> p \<le> g \<Longrightarrow>
    (\<forall>q. p \<le> q \<longrightarrow> q < g \<longrightarrow> as_map s (of_nat q) \<noteq> None \<or> pt_is_complete (of_nat (q div 512)) s) \<Longrightarrow>
    alloc_pages (of_nat T) (of_nat (p - 512 * T)) n a s
      = alloc_pages (of_nat G) (of_nat (max p (512 * G) - 512 * G)) n a s"
proof (induction "G - T" arbitrary: T p)
  case 0
  have "G \<le> T" using 0(1) by simp
  moreover have "T \<le> G" using div_le_mono [OF 0(4), of 512] div512 [OF 0(2,3)] g(2) by simp
  ultimately have "T = G" by simp
  then show ?case using 0(2) by (simp add: max_def)
next
  case (Suc k)
  have "Suc T \<le> G" using Suc(2) by simp
  moreover have "512 * G \<le> g" unfolding g(2) [symmetric] by simp
  ultimately have T: "512 * Suc T \<le> 512 * G" "512 * Suc T \<le> g" by auto
  have d: "q div 512 = T" if "p \<le> q" "q < 512 * Suc T" for q using that Suc(3) by (intro div512) simp_all
  have full: "pt_is_complete (of_nat T) s \<or> (\<forall>q. p \<le> q \<longrightarrow> q < 512 * Suc T \<longrightarrow> as_map s (of_nat q) \<noteq> None)"
  proof (cases "\<forall>q. p \<le> q \<longrightarrow> q < 512 * Suc T \<longrightarrow> as_map s (of_nat q) \<noteq> None")
    case False
    then obtain r where "p \<le> r" "r < 512 * Suc T" "as_map s (of_nat r) = None" by blast
    moreover have "r < g" using \<open>r < 512 * Suc T\<close> T(2) by simp
    ultimately have "pt_is_complete (of_nat (r div 512)) s" using Suc(6) by blast
    then show ?thesis using d [of r] \<open>p \<le> r\<close> \<open>r < 512 * Suc T\<close> by simp
  qed simp
  have "512 * Suc T \<le> 2 ^ 24" using T(2) g(1) by simp
  from alloc_pages_next [OF ok Suc(3,4) this full]
  have "alloc_pages (of_nat T) (of_nat (p - 512 * T)) n a s
      = alloc_pages (of_nat (Suc T)) (of_nat (512 * Suc T - 512 * Suc T)) n a s" by simp
  also have "\<dots> = alloc_pages (of_nat G) (of_nat (max (512 * Suc T) (512 * G) - 512 * G)) n a s"
  proof (rule Suc(1))
    show "k = G - Suc T" using Suc(2) by simp
    show "\<forall>q. 512 * Suc T \<le> q \<longrightarrow> q < g \<longrightarrow> as_map s (of_nat q) \<noteq> None \<or> pt_is_complete (of_nat (q div 512)) s"
      using Suc(6) Suc(4) by auto
  qed (use T in simp_all)
  also have "max (512 * Suc T) (512 * G) = max p (512 * G)" using T(1) Suc(4) by simp
  finally show ?case .
qed

lemma alloc_pages_hangs:
  assumes ok: "vmm_ok P N K s" and T: "512 * T \<le> p" "p + i < 512 * Suc T"
    and inc: "\<not> pt_is_complete (of_nat T) s" "\<not> pt_is_complete (of_nat ((p + i + r - 1) div 512)) s"
    and n: "n < 2 ^ 19" "p + i + n < 2 ^ 24" and r: "0 < r" "r < n"
    and used: "\<forall>j<i. as_map s (of_nat (p + j)) \<noteq> None" and gap: "\<forall>j<r. as_map s (of_nat (p + i + j)) = None"
    and full: "as_map s (of_nat (p + i + r)) \<noteq> None"
  shows "alloc_pages (of_nat T) (of_nat (p - 512 * T)) (of_nat n) a s = None"
proof -
  define q where "q = p + i + r - 1"
  have T15: "T \<le> 32768" "q div 512 \<le> 32768" using T n r by (auto simp: q_def)
  note st = pt_start [OF T15(1)] pt_start [OF T15(2)]
  have "512 * T + (p - 512 * T) = p" using T by simp
  then have ad: "of_nat T * VMM_PT_SIZE + of_nat (p - 512 * T) * VMM_PAGE_SIZE = page_addr p" by (simp only: start_addr)
  have q27: "q < 2 ^ 27" "q + n \<le> 2 ^ 27" "1 < n" using n r by (simp_all add: q_def)
  have at: "p + i + (r - 1) = q" "p + i + r = Suc q" using r by (simp_all add: q_def)
  have one: "as_map s (of_nat q) = None" "as_map s (of_nat (Suc q)) \<noteq> None"
    using gap [rule_format, of "r - 1"] full r unfolding at by simp_all
  have hang: "search_pt (of_nat (q div 512)) (page_addr q) inc (of_nat n) a s = None" for inc
    by (rule search_pt_hangs [OF ok n(1) q27(3,2) one])
  let ?m = "512 * Suc T - p"
  have pm: "p + ?m = 512 * Suc T" using T by simp
  have "as_map s (of_nat (p + i)) = None" using gap r by (metis add_0_right)
  then have g: "get_free_page_in_pt (page_addr p) (page_addr (512 * Suc T)) s = Some (page_addr (p + i))"
    using free_page_in_pt [OF ok, of p ?m i] T n used unfolding pm by auto
  have ne: "page_addr (p + i) \<noteq> page_addr (512 * Suc T)"
    using page_addr_eq [of "p + i" "512 * Suc T"] T n by auto
  have q27': "p + i + n \<le> 2 ^ 27" using n by simp
  have m: "mappable_from (page_addr (p + i)) (page_addr (p + i + n)) a l s = Some (False, page_addr q, s)" for l
    using mappable_from_fails [OF ok q27' r(2) gap full, of a l] r by (simp add: q_def)
  have step: "search_pt (of_nat T) (page_addr p) False (of_nat n) a s =
      (if of_nat T \<noteq> (of_nat (q div 512) :: u64) then Some (Elsewhere (of_nat (q div 512)) (of_nat (q mod 512)), s)
       else search_pt (of_nat T) (page_addr q) True (of_nat n) a s)"
    by (subst search_pt.simps, unfold Let_def table_addr g)
      (use ne in \<open>simp add: m run_end [OF n(1) q27'] last_table [OF q27(1)] del: of_nat_add\<close>)
  have again: "alloc_pages (of_nat (q div 512)) (of_nat (q mod 512)) (of_nat n) a s = None"
    by (subst alloc_pages.simps, unfold Let_def start_addr)
      (use st(2) inc(2) [folded q_def] hang in simp)
  show ?thesis
    by (subst alloc_pages.simps, unfold Let_def ad step)
      (use st(1) inc(1) hang again in \<open>auto simp del: of_nat_mod of_nat_div\<close>)
qed

subsection \<open>Freeing a page\<close>

text \<open>Freeing the page behind an entry.\<close>

lemma load64_frame_area:
  assumes "pmm_layout P N K s" and "f \<in> P" and "\<And>x. \<not> pmm_area K s x \<Longrightarrow> m x = mem s x"
  shows "same_frame f (mem s) m"
  using pool_frame(2) [OF assms(1,2)] assms(3) by (simp add: same_frame_def)

lemma loop_same:
  assumes "unat v < 2 ^ 39" and "k \<le> 3" and "\<And>f. f \<in> pt_tables k t m \<Longrightarrow> is_frame f \<and> same_frame f m m'"
  shows "get_entry_loop k v t m' = get_entry_loop k v t m"
  using assms(2,3)
proof (induction k arbitrary: t)
  case (Suc k)
  have tf: "is_frame t" "same_frame t m m'" using Suc.prems(2) [of t] by simp_all
  then have "t \<noteq> 0" by (simp add: is_frame_def)
  note step = get_entry_loop_Suc [OF assms(1) Suc.prems(1) this]
  have "get_entry_loop k v c m' = get_entry_loop k v c m" if c: "child t (vidx v (Suc k)) m = Some c" for c
    using Suc.IH [of c] Suc.prems pt_tables_child [OF vidx_less c] by (meson Suc_leD subsetD)
  then show ?case unfolding step child_same [OF tf(2,1) vidx_less] by (simp split: option.split)
qed simp

lemma present_del: "\<not> pte_is_present (pte_del_attrib e MASK_PRESENT)"
proof -
  have "pte_del_attrib e MASK_PRESENT AND 1 = 0" by (simp add: pte_del_attrib_def and.assoc)
  then show ?thesis by (simp add: pte_is_present_def)
qed

lemma pfn_del: "pte_pfn (pte_del_attrib e MASK_PRESENT) = pte_pfn e"
  by (rule bit_eqI) (auto simp: pte_del_attrib_def pte_pfn_def MASK_FRAME_eq bit_and_iff bit_not_iff bit_mask_iff bit_1_iff)

lemma free_page_unmaps:
  assumes ok: "vmm_ok P N K s" and v: "unat v < 2 ^ 39" and e: "get_entry v s = Some e"
    and f: "f = pte_pfn (load64 (mem s) e)" "f \<in> P - set (pmm_frames s) - vm_tables s - {cur_bitmap s}"
  shows "\<exists>s'. free_page e s = s' \<and> vmm_ok P N K s' \<and> as_map s' = (as_map s)(page_of v := None)
    \<and> vm_tables s' \<subseteq> vm_tables s \<and> cur_bitmap s' = cur_bitmap s
    \<and> pmm_frames s' = (if mmap_is_occ (f div PMM_BLOCK_SIZE) s then pmm_frames s @ [f] else pmm_frames s)
    \<and> get_entry v s' = Some e \<and> load64 (mem s') e = pte_del_attrib (load64 (mem s) e) MASK_PRESENT"
proof -
  let ?r = "read_cr3 s"
  have ok': "pmm_ok P N K s" using ok by (simp add: vmm_ok_def)
  have lay: "pmm_layout P N K s" using ok' by (simp add: pmm_ok_def)
  have fP: "f \<in> P" "f \<notin> set (pmm_frames s)" using f(2) by auto
  obtain r s1 where fm: "fmem f s = (r, s1)" by force
  note ff = fmem_frame [OF ok' fP fm]
  have s1: "s1 = s\<lparr>mem := mem s1, free_blocks := free_blocks s1\<rparr>"
    using fm by (auto simp: fmem_def push_def mmap_free_def Let_def split: if_splits)
  have cr1: "read_cr3 s1 = ?r" "cur_bitmap s1 = cur_bitmap s" by (subst s1, simp add: read_cr3_def)+
  have wr: "mem s1 x = mem s x" if "\<not> pmm_area K s x" for x by (rule fmem_writes [OF ok' fP fm that])
  have al: "f mod PMM_BLOCK_SIZE = 0" using lay fP(1) by (simp add: pmm_layout_def)
  have r1: "r = 1 \<longleftrightarrow> mmap_is_occ (f div PMM_BLOCK_SIZE) s"
    using fm al by (auto simp: fmem_def Let_def split: if_splits)
  have tabP: "pt_tables 3 ?r (mem s) \<subseteq> P" using ok by (auto simp: vmm_ok_def vm_tables_def)
  have fr: "is_frame h" if "h \<in> pt_tables 3 ?r (mem s)" for h using that tabP pool_frame(1) [OF lay] by blast
  have same: "is_frame h \<and> same_frame h (mem s) (mem s1)" if "h \<in> pt_tables 3 ?r (mem s)" for h
    using that tabP fr load64_frame_area [OF lay _ wr] by blast
  note keep = tables_same [OF same] tree_same [OF same] lookup_same [OF same]
  obtain t0 where t0: "get_entry_loop 3 v ?r (mem s) = Some t0" "e = slot t0 (vidx v 0)"
    using e unfolding get_entry_slot [OF ok v] by auto
  have t0in: "t0 \<in> pt_tables 3 ?r (mem s)" by (rule get_entry_loop_in [OF v _ fr t0(1)]) simp_all
  have t0f: "is_frame t0" by (rule fr [OF t0in])
  have ld: "load64 (mem s1) e = load64 (mem s) e"
    unfolding t0(2) using same [OF t0in] by (intro load64_same) simp_all
  have tree1: "pt_tree 3 ?r (mem s1)" using keep(2) ok by (simp add: vmm_ok_def)
  have fr1: "is_frame h" if "h \<in> pt_tables 3 ?r (mem s1)" for h using that fr keep(1) by simp
  have loop1: "get_entry_loop 3 v ?r (mem s1) = Some t0"
    using loop_same [OF v order_refl same] t0(1) by simp
  define x where "x = pte_del_attrib (load64 (mem s) e) MASK_PRESENT"
  define s' where "s' = s1\<lparr>mem := store64 (mem s1) e x\<rparr>"
  have call: "free_page e s = s'"
    unfolding free_page_def f(1) [symmetric] fm by (simp add: s'_def x_def ld)
  have np: "\<not> pte_is_present x" by (simp add: x_def present_del)
  have m': "mem s' = store64 (mem s1) (slot t0 (vidx v 0)) x" by (simp add: s'_def t0(2))
  have leaf: "pt_tree 3 ?r (mem s')" "pt_tables 3 ?r (mem s') \<subseteq> pt_tables 3 ?r (mem s1)"
    "get_entry_loop 3 v ?r (mem s') = Some t0"
    "\<And>w. pt_lookup 3 w ?r (mem s') = (if \<forall>l \<le> 3. vidx w l = vidx v l then None else pt_lookup 3 w ?r (mem s1))"
    using leaf_store [OF v order_refl fr1 tree1 loop1 m'] np by presburger+
  have area: "pmm_area K s1 = pmm_area K s" by (subst s1) (simp add: pmm_area_def fun_eq_iff)
  have am: "mem s' y = mem s1 y" if "pmm_area K s1 y" for y
    unfolding m' using store64_frame [OF t0f vidx_less] pool_frame(2) [OF lay subsetD [OF tabP t0in]] that area
    by metis
  have s'1: "s' = s1\<lparr>mem := mem s'\<rparr>" by (simp add: s'_def)
  have pm: "pmm_ok P N K s'" "pmm_frames s' = pmm_frames s1"
    using pmm_ok_mem [of P N K s1 "mem s'"] pmm_frames_mem [of P N K s1 "mem s'"] ff am s'1 by metis+
  have cr: "read_cr3 s' = ?r" "cur_bitmap s' = cur_bitmap s" using cr1 by (simp_all add: s'_def read_cr3_def)
  have tabs: "vm_tables s' \<subseteq> vm_tables s" using leaf(2) keep(1) by (simp add: vm_tables_def cr)
  have frm: "set (pmm_frames s') \<subseteq> insert f (set (pmm_frames s))" using pm(2) ff by auto
  have fnb: "f \<noteq> cur_bitmap s" "f \<notin> vm_tables s" using f(2) by auto
  have "vmm_ok P N K s'"
    using ok pm(1) leaf(1) tabs frm fnb unfolding vmm_ok_def cr by blast
  moreover have "as_map s' = (as_map s)(page_of v := None)"
  proof
    fix q show "as_map s' q = ((as_map s)(page_of v := None)) q"
    proof (cases "unat q < 2 ^ 27")
      case True
      have w: "unat (4096 * q) < 2 ^ 39" using True by (simp add: unat_page_addr)
      have "(\<forall>l \<le> 3. vidx (4096 * q) l = vidx v l) \<longleftrightarrow> q = page_of v"
        using same_page [OF v w] page_of_addr [OF True] by (auto simp: page_of_def)
      then show ?thesis using leaf(4) [of "4096 * q"] True keep(3) by (simp add: as_map_def cr)
    next
      case False
      then show ?thesis by (simp add: as_map_def)
    qed
  qed
  moreover have "get_entry v s' = Some e"
    using get_entry_slot [OF calculation(1) v] leaf(3) t0(2) by (simp add: cr)
  moreover have "load64 (mem s') e = x" by (simp add: s'_def c64.ld_st)
  moreover have "pmm_frames s' = (if mmap_is_occ (f div PMM_BLOCK_SIZE) s then pmm_frames s @ [f] else pmm_frames s)"
    using pm(2) ff r1 by simp
  ultimately show ?thesis using call tabs cr x_def by metis
qed

subsection \<open>The search from an address\<close>

lemma base_split:
  assumes "p < 2 ^ 27"
  shows "drop_bit 21 (page_addr p) = of_nat (p div 512)"
    and "drop_bit 55 (push_bit 43 (page_addr p)) = of_nat (p - 512 * (p div 512))"
proof -
  have u: "unat (page_addr p) = 4096 * p" using assms by (simp add: unat_of_page)
  have "unat (drop_bit 21 (page_addr p)) = p div 512"
    using div_mult_mult1 [of 4096 p 512] by (simp only: unat_drop_bit_eq u) (simp add: drop_bit_eq_div)
  then show "drop_bit 21 (page_addr p) = of_nat (p div 512)" by (rule word_of_unat)
  have p: "p = 512 * (p div 512) + p mod 512" by simp
  have "unat (push_bit 43 (page_addr p)) = (4096 * p * 2 ^ 43) mod 2 ^ 64"
    by (simp only: unsigned_push_bit_eq u) (simp add: push_bit_eq_mult take_bit_eq_mod)
  also have "4096 * p * 2 ^ 43 = p mod 512 * 2 ^ 55 + (p div 512) * 2 ^ 64"
  proof -
    have "4096 * (512 * a + b) * 2 ^ 43 = b * 2 ^ 55 + a * 2 ^ 64" for a b :: nat by simp
    then show ?thesis using p by metis
  qed
  also have "\<dots> mod 2 ^ 64 = p mod 512 * 2 ^ 55"
    using mod_less_divisor [of 512 p] by (simp add: mod_less)
  finally have "unat (drop_bit 55 (push_bit 43 (page_addr p))) = p mod 512"
    by (simp only: unat_drop_bit_eq) (simp add: drop_bit_eq_div)
  then show "drop_bit 55 (push_bit 43 (page_addr p)) = of_nat (p - 512 * (p div 512))"
    by (subst word_of_unat) (simp_all add: minus_mult_div_eq_mod)
qed

definition pages_for :: "u64 \<Rightarrow> nat" where
  "pages_for sz = (unat sz + 4095) div 4096"

lemma needed_pages_eq: "needed_pages_for sz = of_nat (pages_for sz)"
proof -
  have m: "sz mod VMM_PAGE_SIZE = 0 \<longleftrightarrow> unat sz mod 4096 = 0"
    by (simp add: word_unat_eq_iff unat_mod_distrib)
  have d: "sz div VMM_PAGE_SIZE = of_nat (unat sz div 4096)" by (rule word_of_unat) (simp add: unat_div_distrib)
  show ?thesis
  proof (cases "unat sz mod 4096 = 0")
    case True
    then obtain k where "unat sz = 4096 * k" by blast
    then have "(unat sz + 4095) div 4096 = unat sz div 4096" by simp
    then show ?thesis
      using True m unat_lt64 [of sz] by (simp add: needed_pages_for_def pages_for_def d unsigned_of_nat take_bit_nat_eq_self)
  next
    case False
    then have "(unat sz + 4095) div 4096 = Suc (unat sz div 4096)"
    proof -
      have "0 < r \<Longrightarrow> r < 4096 \<Longrightarrow> (k * 4096 + r + 4095) div 4096 = Suc k" for k r :: nat
        by (rule div_nat_eqI) simp_all
      from this [of "unat sz mod 4096" "unat sz div 4096"] show ?thesis using False by simp
    qed
    moreover have "(of_nat (unat sz div 4096) + 1 :: u64) = of_nat (Suc (unat sz div 4096))" by simp
    moreover have "Suc (unat sz div 4096) < 2 ^ 64" using unat_lt64 [of sz] by simp
    ultimately show ?thesis
      using False m by (simp add: needed_pages_for_def pages_for_def d unsigned_of_nat take_bit_nat_eq_self del: of_nat_Suc)
  qed
qed

lemma page_split: "p < 512 * Suc (p div 512)" for p :: nat
  using dividend_less_times_div [of 512 p] by simp

lemma vmm_alloc_pages_from_eq:
  "p < 2 ^ 27 \<Longrightarrow> vmm_alloc_pages_from (page_addr p) sz a s =
    alloc_pages (of_nat (p div 512)) (of_nat (p - 512 * (p div 512))) (of_nat (pages_for sz)) a s"
  by (simp only: vmm_alloc_pages_from_def base_split needed_pages_eq)

subsection \<open>vmm_free_pages of one page\<close>

lemma incomplete_loop_ok:
  "vmm_ok P N K s \<Longrightarrow> unat bn + n \<le> 2 ^ 15 \<Longrightarrow> vmm_ok P N K (incomplete_loop n bn s) \<and> vm_same s (incomplete_loop n bn s)"
proof (induction n arbitrary: bn s)
  case (Suc n)
  have "unat bn < 2 ^ 15" using Suc.prems(2) by simp
  from bitmap_ops(2) [OF Suc.prems(1) this] have c: "vmm_ok P N K (pt_incomplete bn s)" "vm_same s (pt_incomplete bn s)" by auto
  have "unat (bn + 1) \<le> unat bn + 1" using unat_add_small [of bn 1] Suc.prems(2) by simp
  then have "unat (bn + 1) + n \<le> 2 ^ 15" using Suc.prems(2) by simp
  from Suc.IH [OF c(1) this] show ?case using vm_same_trans [OF c(2)] by simp
qed simp

lemma last_table': "q \<le> 2 ^ 27 \<Longrightarrow> scast (ucast (page_addr q div VMM_PT_SIZE) :: u32) = (of_nat (q div 512) :: u64)"
proof -
  assume q: "q \<le> 2 ^ 27"
  have "q div 512 < 2 ^ 31" using q by simp
  then show ?thesis using scast_of_nat_32 by (simp add: addr_table [OF q] unsigned_of_nat take_bit_nat_eq_self)
qed

lemma vmm_free_one:
  assumes ok: "vmm_ok P N K s" and p: "Suc p < 2 ^ 24"
  shows "\<exists>s1. vmm_free_pages (page_addr p) VMM_PAGE_SIZE s =
      Some (case get_entry (page_addr p) s1 of None \<Rightarrow> s1 | Some e \<Rightarrow> free_page e s1)
    \<and> vmm_ok P N K s1 \<and> vm_same s s1"
proof -
  have e: "page_addr p + VMM_PAGE_SIZE = page_addr (Suc p)" by (rule page_addr_Suc)
  have q: "p \<le> 2 ^ 27" "Suc p \<le> 2 ^ 27" using p by simp_all
  have u: "unat (of_nat (p div 512) :: u64) = p div 512" "unat (of_nat (Suc p div 512) :: u64) = Suc p div 512"
    using p by (auto intro!: unat_of_nat_small)
  define s2 where "s2 = incomplete_loop (Suc p div 512 - p div 512) (of_nat (p div 512)) s"
  have "p div 512 + (Suc p div 512 - p div 512) \<le> 2 ^ 15" using p by simp
  then have s2: "vmm_ok P N K s2" "vm_same s s2"
    using incomplete_loop_ok [OF ok, of "of_nat (p div 512)"] by (simp_all add: s2_def u)
  define s1 where "s1 = (if page_addr (Suc p) mod VMM_PT_SIZE \<noteq> 0 then pt_incomplete (of_nat (Suc p div 512)) s2 else s2)"
  have "unat (of_nat (Suc p div 512) :: u64) < 2 ^ 15" using p by (simp add: u)
  from bitmap_ops(2) [OF s2(1) this] have s1: "vmm_ok P N K s1" "vm_same s s1"
    using s2 vm_same_trans by (auto simp: s1_def)
  have lt: "page_addr p < page_addr (Suc p)" using unat_of_page [OF q(1)] unat_of_page [OF q(2)] by (simp add: word_less_nat_alt)
  have "vmm_free_pages (page_addr p) VMM_PAGE_SIZE s = free_pages_loop (page_addr p) (page_addr (Suc p)) s1"
    by (simp only: vmm_free_pages_def Let_def e last_table' [OF q(1)] last_table' [OF q(2)] u s2_def [symmetric] s1_def [symmetric])
  also have "\<dots> = Some (case get_entry (page_addr p) s1 of None \<Rightarrow> s1 | Some e \<Rightarrow> free_page e s1)"
    by (subst free_pages_loop.simps, subst free_pages_loop.simps) (simp add: lt page_addr_Suc)
  finally show ?thesis using s1 by blast
qed

lemma occ_same:
  assumes "vm_same s s'" and "vmm_ok P N K s" and "f \<in> P"
  shows "mmap_is_occ (f div PMM_BLOCK_SIZE) s' = mmap_is_occ (f div PMM_BLOCK_SIZE) s"
proof -
  have lay: "pmm_layout P N K s" using assms(2) by (simp add: vmm_ok_def pmm_ok_def)
  let ?w = "f div PMM_BLOCK_SIZE div 64"
  have w: "unat ?w < K" by (rule frame_word [OF lay assms(3)])
  have b: "cur_bitmap s \<in> P" using assms(2) by (simp add: vmm_ok_def)
  have s': "s' = s\<lparr>mem := mem s'\<rparr>" using assms(1) by (simp only: vm_same_def)
  have "load64 (mem s') (pmm_map s + 8 * ?w) = load64 (mem s) (pmm_map s + 8 * ?w)"
  proof (rule load64_cong)
    fix j :: nat assume j: "j < 8"
    have "unat (pmm_map s) + 8 * K \<le> 2 ^ 63" "unat (mem_stack s) + 8 * N \<le> unat (pmm_map s)"
      using lay by (simp_all add: pmm_layout_def)
    moreover have "unat (pmm_map s + 8 * ?w + of_nat j) = unat (pmm_map s) + 8 * unat ?w + j"
      using map_addr [OF lay w] w j calculation(1) by (subst unat_add_small) simp_all
    ultimately have "pmm_area K s (pmm_map s + 8 * ?w + of_nat j)" using w j by (simp add: pmm_area_def)
    then have "\<not> in_frame (cur_bitmap s) (pmm_map s + 8 * ?w + of_nat j)" using pool_frame(2) [OF lay b] by blast
    then show "mem s' (pmm_map s + 8 * ?w + of_nat j) = mem s (pmm_map s + 8 * ?w + of_nat j)"
      using assms(1) by (simp add: vm_same_def)
  qed
  moreover have "pmm_map s' = pmm_map s" by (subst s') simp
  ultimately show ?thesis by (simp add: mmap_is_occ_def)
qed

lemma entry_same:
  assumes "vm_same s s'" and "vmm_ok P N K s" and "vmm_ok P N K s'" and v: "unat v < 2 ^ 39"
  shows "get_entry v s' = get_entry v s"
    and "get_entry v s = Some e \<Longrightarrow> load64 (mem s') e = load64 (mem s) e"
proof -
  have s': "s' = s\<lparr>mem := mem s'\<rparr>" using assms(1) by (simp only: vm_same_def)
  have cr: "read_cr3 s' = read_cr3 s" by (subst s') (simp add: read_cr3_def)
  have lay: "pmm_layout P N K s" using assms(2) by (simp add: vmm_ok_def pmm_ok_def)
  have bf: "is_frame (cur_bitmap s)" by (rule pool_frame(1) [OF lay]) (use assms(2) in \<open>simp add: vmm_ok_def\<close>)
  have same: "is_frame h \<and> same_frame h (mem s) (mem s')" if "h \<in> pt_tables 3 (read_cr3 s) (mem s)" for h
  proof -
    have "h \<in> P" "h \<noteq> cur_bitmap s" using that assms(2) by (auto simp: vmm_ok_def vm_tables_def)
    then have "is_frame h" "h \<noteq> cur_bitmap s" using pool_frame(1) [OF lay] by auto
    then show ?thesis using frames_apart [OF _ bf] assms(1) by (auto simp: same_frame_def vm_same_def)
  qed
  show "get_entry v s' = get_entry v s"
    unfolding get_entry_slot [OF assms(2) v] get_entry_slot [OF assms(3) v] cr
    using loop_same [OF v order_refl same] by simp
  assume "get_entry v s = Some e"
  then obtain t0 where t0: "get_entry_loop 3 v (read_cr3 s) (mem s) = Some t0" "e = slot t0 (vidx v 0)"
    unfolding get_entry_slot [OF assms(2) v] by auto
  have "t0 \<in> pt_tables 3 (read_cr3 s) (mem s)"
    by (rule get_entry_loop_in [OF v order_refl _ t0(1)]) (use same in blast)
  then show "load64 (mem s') e = load64 (mem s) e" unfolding t0(2) using same by (intro load64_same) simp_all
qed

text \<open>Unmapping a page gives its frame back.\<close>

lemma vmm_free_one_unmaps:
  assumes ok: "vmm_ok P N K s" and p: "Suc p < 2 ^ 24" and e: "get_entry (page_addr p) s = Some e"
    and f: "f = pte_pfn (load64 (mem s) e)" "f \<in> P - set (pmm_frames s) - vm_tables s - {cur_bitmap s}"
    and occ: "mmap_is_occ (f div PMM_BLOCK_SIZE) s"
  shows "\<exists>s'. vmm_free_pages (page_addr p) VMM_PAGE_SIZE s = Some s' \<and> vmm_ok P N K s'
    \<and> as_map s' = (as_map s)(of_nat p := None) \<and> pmm_frames s' = pmm_frames s @ [f] \<and> vm_tables s' \<subseteq> vm_tables s
    \<and> cur_bitmap s' = cur_bitmap s \<and> get_entry (page_addr p) s' = Some e \<and> pte_pfn (load64 (mem s') e) = f"
proof -
  obtain s1 where s1: "vmm_free_pages (page_addr p) VMM_PAGE_SIZE s =
      Some (case get_entry (page_addr p) s1 of None \<Rightarrow> s1 | Some e \<Rightarrow> free_page e s1)"
      "vmm_ok P N K s1" "vm_same s s1"
    using vmm_free_one [OF ok p] by blast
  have v: "unat (page_addr p) < 2 ^ 39" by (rule page_addr_low) (use p in simp)
  have e1: "get_entry (page_addr p) s1 = Some e" "load64 (mem s1) e = load64 (mem s) e"
    using entry_same [OF s1(3) ok s1(2) v] e by simp_all
  have f1: "f = pte_pfn (load64 (mem s1) e)" "f \<in> P - set (pmm_frames s1) - vm_tables s1 - {cur_bitmap s1}"
    using f s1(3) by (simp_all add: e1 vm_same_def)
  have occ1: "mmap_is_occ (f div PMM_BLOCK_SIZE) s1" using occ_same [OF s1(3) ok] f(2) occ by simp
  have pq: "page_of (page_addr p) = of_nat p" by (rule page_of_page_addr) (use p in simp)
  from free_page_unmaps [OF s1(2) v e1(1) f1] occ1 s1(3) show ?thesis
    unfolding s1(1) e1(1) pq by (auto simp: vm_same_def pfn_del e1(2) f(1))
qed

end
