(* ===== verification/Virtual_Memory.thy ===== *)
theory Virtual_Memory
  imports Page_Search
begin

unbundle bit_operations_syntax

section \<open>Virtual memory: the properties\<close>

text \<open>
  What \<open>Paging\<close>, \<open>Address_Space\<close> and \<open>Page_Search\<close> establish about Kernel/vmm.c, each with an instance on
  a small concrete machine.
\<close>

subsection \<open>A small machine\<close>

text \<open>Reading an entry after a store to another one.\<close>

lemma load64_store64_slot:
  assumes "is_frame f" and "is_frame g" and "i < 512" and "j < 512"
  shows "load64 (store64 m (slot f i) x) (slot g j) = (if f = g \<and> i = j then x else load64 m (slot g j))"
proof (cases "f = g")
  case True
  then show ?thesis using store64_other_slot [OF assms(1,3,4)] by (simp add: c64.ld_st)
next
  case False
  have "same_frame g m (store64 m (slot f i) x)"
    using store64_frame [OF assms(1,3)] frames_apart [OF assms(2,1)] False by (auto simp: same_frame_def)
  then show ?thesis using load64_same [OF _ assms(2,4)] False by simp
qed

lemma single_child:
  assumes "\<And>j. j < 512 \<Longrightarrow> child t j m = (if j = i then Some c else None)" and "i < 512"
  shows "pt_tables (Suc k) t m = insert t (pt_tables k c m)"
    and "pt_tree k c m \<Longrightarrow> t \<notin> pt_tables k c m \<Longrightarrow> pt_tree (Suc k) t m"
  using assms by (auto split: if_splits intro!: bexI [of _ i])

text \<open>
  A small machine: eighteen frames from 0x20000 on, four tables, the bitmap, a page mapped at
  0x40001000, and twelve free frames.
\<close>

definition demo_frames :: "u64 set" where
  "demo_frames = {0x20000, 0x21000, 0x22000, 0x23000, 0x24000, 0x25000, 0x26000, 0x27000, 0x28000, 0x29000, 0x2A000, 0x2B000, 0x2C000, 0x2D000, 0x2E000, 0x2F000, 0x30000, 0x31000}"

definition demo_base :: mem where
  "demo_base = c64.fill (store64 (\<lambda>_. 0) 0x11000 (- 1)) 0x10008 (\<lambda>i. of_nat (0x26000 + 4096 * i)) 12"

definition demo_mem :: mem where
  "demo_mem = store64 (store64 (store64 (store64 demo_base (slot 0x20000 0) 0x21003)
     (slot 0x21000 1) 0x22003) (slot 0x22000 0) 0x23003) (slot 0x23000 1) 0x25003"

definition vmm_demo :: vmm_state where
  "vmm_demo = pmm_state.extend
     (pmm_boot\<lparr>mem := demo_mem, mem_stack := 0x10000, pmm_map := 0x11000, free_blocks := 12\<rparr>)
     (vmm_state.fields 0x20008 0x24000)"

lemma vmm_demo_fields [simp]:
  "mem vmm_demo = demo_mem" "mem_stack vmm_demo = 0x10000" "pmm_map vmm_demo = 0x11000"
  "free_blocks vmm_demo = 12" "read_cr3 vmm_demo = 0x20000" "cur_bitmap vmm_demo = 0x24000"
  by (simp_all add: vmm_demo_def pmm_state.defs vmm_state.defs read_cr3_def)

lemma demo_frame: "f \<in> demo_frames \<Longrightarrow> is_frame f"
  by (auto simp: demo_frames_def is_frame_def)

lemma demo_layout: "pmm_layout demo_frames 24 1 vmm_demo"
  by (simp add: pmm_layout_def demo_frames_def)

lemma demo_is_frame [simp]: "is_frame 0x20000" "is_frame 0x21000" "is_frame 0x22000" "is_frame 0x23000"
  "is_frame 0x24000" "is_frame 0x25000"
  by (simp_all add: is_frame_def)

lemma demo_area: "pmm_area 1 vmm_demo x \<Longrightarrow> demo_mem x = demo_base x"
proof -
  assume "pmm_area 1 vmm_demo x"
  then have "unat x < 0x20000" by (simp add: pmm_area_def)
  then show ?thesis unfolding demo_mem_def by (simp add: store64_frame in_frame_def)
qed

lemma demo_pmm_frames: "pmm_frames vmm_demo = map (\<lambda>i. of_nat (0x26000 + 4096 * i)) [0..<12]"
proof -
  have entry: "load64 demo_base (0x10000 + of_nat (8 * Suc i)) = of_nat (0x26000 + 4096 * i)" if "i < 12" for i
  proof -
    have "load64 demo_base (0x10008 + of_nat (8 * i)) = of_nat (0x26000 + 4096 * i)"
      unfolding demo_base_def by (rule c64.ld_fill) (use that in simp_all)
    then show ?thesis by (simp add: algebra_simps)
  qed
  have D: "mem (vmm_demo\<lparr>mem := demo_base\<rparr>) = demo_base" "mem_stack (vmm_demo\<lparr>mem := demo_base\<rparr>) = 0x10000"
    "unat (free_blocks (vmm_demo\<lparr>mem := demo_base\<rparr>)) = 12" by simp_all
  have "pmm_frames (vmm_demo\<lparr>mem := demo_base\<rparr>) =
      map (\<lambda>i. load64 demo_base (0x10000 + of_nat (8 * i))) (map Suc [0..<12])"
    by (simp only: pmm_frames_def map_Suc_upt One_nat_def D)
  also have "\<dots> = map (\<lambda>i. of_nat (0x26000 + 4096 * i)) [0..<12]"
    unfolding map_map comp_def by (rule map_cong [OF refl], rule entry) simp
  finally have "pmm_frames (vmm_demo\<lparr>mem := demo_base\<rparr>) = map (\<lambda>i. of_nat (0x26000 + 4096 * i)) [0..<12]" .
  moreover have "pmm_frames vmm_demo = pmm_frames (vmm_demo\<lparr>mem := demo_base\<rparr>)"
  proof -
    have "load64 demo_mem (0x10000 + of_nat (8 * i)) = load64 demo_base (0x10000 + of_nat (8 * i))" if "i < 13" for i
    proof (rule load64_cong)
      fix j :: nat assume j: "j < 8"
      have "unat (0x10000 + of_nat (8 * i) :: u64) = 0x10000 + 8 * i" using that by (subst unat_add_small) simp_all
      then have "unat (0x10000 + of_nat (8 * i) + of_nat j :: u64) = 0x10000 + 8 * i + j"
        using that j by (subst unat_add_small) simp_all
      then show "demo_mem (0x10000 + of_nat (8 * i) + of_nat j) = demo_base (0x10000 + of_nat (8 * i) + of_nat j)"
        using that j by (intro demo_area) (simp add: pmm_area_def)
    qed
    then show ?thesis
      unfolding pmm_frames_def by (intro map_cong) (auto simp del: of_nat_mult)
  qed
  ultimately show ?thesis by simp
qed

lemma demo_pmm_ok: "pmm_ok demo_frames 24 1 vmm_demo"
  unfolding pmm_ok_def demo_pmm_frames using demo_layout
  by (simp add: upt_conv_Cons demo_frames_def)

lemma fill_above:
  "unat a + 8 * n \<le> 2 ^ 63 \<Longrightarrow> unat a + 8 * n \<le> unat x \<Longrightarrow> c64.fill m a f n x = m x"
proof (induction n)
  case (Suc n)
  have u: "unat (a + of_nat (8 * n)) = unat a + 8 * n" using Suc.prems(1) by (intro unat_add_small) simp
  have "store64 (c64.fill m a f n) (a + of_nat (8 * n)) (f n) x = c64.fill m a f n x"
    by (rule store64_outside) (use Suc.prems u in simp_all)
  then show ?case using Suc by simp
qed simp

lemma demo_base_zero: "is_frame t \<Longrightarrow> 0x20000 \<le> unat t \<Longrightarrow> i < 512 \<Longrightarrow> load64 demo_base (slot t i) = 0"
proof -
  assume t: "is_frame t" "0x20000 \<le> unat t" and i: "i < 512"
  have z: "demo_base x = 0" if "0x20000 \<le> unat x" for x
    using that fill_above [where a = "0x10008" and n = 12 and x = x] store64_outside [where b = "0x11000" and a = x]
    by (simp add: demo_base_def)
  have "load64 demo_base (slot t i) = load64 (\<lambda>_. 0) (slot t i)"
  proof (rule load64_cong)
    fix j :: nat assume "j < 8"
    then have "unat (slot t i + of_nat j) = unat t + 8 * i + j"
      using unat_slot [OF t(1) i] t(1) i by (subst unat_add_small) (auto simp: is_frame_def)
    then show "demo_base (slot t i + of_nat j) = 0" using t(2) by (intro z) simp
  qed
  also have "load64 (\<lambda>_. 0) (slot t i) = 0"
    by (simp add: load64_def load_bytes_def map_replicate_const le_word_zeros)
  finally show ?thesis .
qed

lemma demo_child:
  assumes "i < 512"
  shows "child 0x20000 i demo_mem = (if i = 0 then Some 0x21000 else None)"
    and "child 0x21000 i demo_mem = (if i = 1 then Some 0x22000 else None)"
    and "child 0x22000 i demo_mem = (if i = 0 then Some 0x23000 else None)"
    and "load64 demo_mem (slot 0x23000 i) = (if i = 1 then 0x25003 else 0)"
    and "load64 demo_mem (slot 0x24000 i) = 0"
  unfolding demo_mem_def using assms
  by (simp_all add: child_def load64_store64_slot demo_base_zero pte_is_present_def pte_pfn_def MASK_FRAME_def Let_def)

lemma demo_tables: "vm_tables vmm_demo = {0x20000, 0x21000, 0x22000, 0x23000}"
    and demo_tree: "pt_tree 3 0x20000 demo_mem"
proof -
  have 0: "(0 :: nat) < 512" "(1 :: nat) < 512" by simp_all
  have 1: "pt_tables (Suc 0) 0x22000 demo_mem = {0x22000, 0x23000}"
    by (rule trans [OF single_child(1) [OF demo_child(3) 0(1)]]) simp_all
  have t1: "pt_tree (Suc 0) 0x22000 demo_mem"
    by (rule single_child(2) [OF demo_child(3) 0(1)]) simp_all
  have 2: "pt_tables (Suc (Suc 0)) 0x21000 demo_mem = {0x21000, 0x22000, 0x23000}"
    by (rule trans [OF single_child(1) [OF demo_child(2) 0(2)]]) (simp_all add: 1 del: pt_tables.simps(2))
  have t2: "pt_tree (Suc (Suc 0)) 0x21000 demo_mem"
    by (rule single_child(2) [OF demo_child(2) 0(2) t1]) (simp_all add: 1 del: pt_tables.simps)
  have 3: "pt_tables (Suc (Suc (Suc 0))) 0x20000 demo_mem = {0x20000, 0x21000, 0x22000, 0x23000}"
    by (rule trans [OF single_child(1) [OF demo_child(1) 0(1)]]) (simp_all add: 2 del: pt_tables.simps(2))
  have "pt_tree (Suc (Suc (Suc 0))) 0x20000 demo_mem"
    by (rule single_child(2) [OF demo_child(1) 0(1) t2]) (simp_all add: 2 del: pt_tables.simps)
  then show "pt_tree 3 0x20000 demo_mem" by (simp only: numeral_3_eq_3)
  show "vm_tables vmm_demo = {0x20000, 0x21000, 0x22000, 0x23000}"
    using 3 by (simp only: vm_tables_def numeral_3_eq_3 vmm_demo_fields)
qed

lemma demo_ok: "vmm_ok demo_frames 24 1 vmm_demo"
  unfolding vmm_ok_def demo_tables demo_pmm_frames using demo_pmm_ok demo_tree
  by (simp add: demo_frames_def upt_conv_Cons)

lemma demo_lookup:
  assumes "vidx v 3 = 0" and "vidx v 2 = 1" and "vidx v 1 = 0"
  shows "pt_lookup 3 v 0x20000 demo_mem = (if vidx v 0 = 1 then Some 0x25003 else None)"
proof -
  have 0: "pt_lookup 0 v 0x23000 demo_mem = (if vidx v 0 = 1 then Some 0x25003 else None)"
    by (simp add: demo_child pte_is_present_def)
  have 1: "pt_lookup (Suc 0) v 0x22000 demo_mem = pt_lookup 0 v 0x23000 demo_mem"
    using assms(3) demo_child(3) [of 0] by simp
  have 2: "pt_lookup (Suc (Suc 0)) v 0x21000 demo_mem = pt_lookup (Suc 0) v 0x22000 demo_mem"
    using assms(2) demo_child(2) [of 1] by (simp add: numeral_2_eq_2)
  have 3: "pt_lookup (Suc (Suc (Suc 0))) v 0x20000 demo_mem = pt_lookup (Suc (Suc 0)) v 0x21000 demo_mem"
    using assms(1) demo_child(1) [of 0] by (simp add: numeral_3_eq_3)
  show ?thesis unfolding numeral_3_eq_3 3 2 1 0 ..
qed

lemma demo_map:
  "as_map vmm_demo (of_nat 0x40000) = None" "as_map vmm_demo (of_nat 0x40001) = Some 0x25003"
  "as_map vmm_demo (of_nat 0x40002) = None" "as_map vmm_demo (of_nat 0x40003) = None"
  unfolding as_map_def vmm_demo_fields
  by (subst demo_lookup; simp add: vidx_def)+

lemma demo_frames_left: "length (pmm_frames vmm_demo) = 12"
  by simp

lemma attr_demo: "attr_ok 3"
  by (simp add: attr_ok_def MASK_FRAME_def)


text \<open>The small machine with the page table of the mapped page, table 0x200, marked complete.\<close>

definition vmm_full :: vmm_state where
  "vmm_full = pt_complete 0x200 vmm_demo"

lemma vmm_full_same: "vmm_ok demo_frames 24 1 vmm_full" "vm_same vmm_demo vmm_full"
  using bitmap_ops(1) [OF demo_ok, of "0x200"] by (simp_all add: vmm_full_def)

lemma vmm_full_bitmap: "pt_is_complete 0x200 vmm_full" "\<not> pt_is_complete 0x201 vmm_full"
proof -
  have "load64 demo_mem (slot 0x24000 8) = 0" using demo_child(5) [of 8] by simp
  then show "pt_is_complete 0x200 vmm_full" "\<not> pt_is_complete 0x201 vmm_full"
    by (simp_all add: vmm_full_def pt_complete_def pt_is_complete_def slot_def Let_def c64.ld_st int_shl1_def read_cr3_def)
qed

lemma demo_map_next: "as_map vmm_demo (of_nat 0x40200) = None" "as_map vmm_demo (of_nat 0x40201) = None"
proof -
  have "pt_lookup 3 v 0x20000 demo_mem = None" if "vidx v 3 = 0" "vidx v 2 = 1" "vidx v 1 = 1" for v
  proof -
    have 1: "pt_lookup (Suc 0) v 0x22000 demo_mem = None" using that(3) demo_child(3) [of 1] by simp
    have 2: "pt_lookup (Suc (Suc 0)) v 0x21000 demo_mem = pt_lookup (Suc 0) v 0x22000 demo_mem"
      using that(2) demo_child(2) [of 1] by (simp add: numeral_2_eq_2)
    have 3: "pt_lookup (Suc (Suc (Suc 0))) v 0x20000 demo_mem = pt_lookup (Suc (Suc 0)) v 0x21000 demo_mem"
      using that(1) demo_child(1) [of 0] by (simp add: numeral_3_eq_3)
    show ?thesis unfolding numeral_3_eq_3 3 2 1 ..
  qed
  note none = this
  show "as_map vmm_demo (of_nat 0x40200) = None" "as_map vmm_demo (of_nat 0x40201) = None"
    unfolding as_map_def vmm_demo_fields by (subst none; simp add: vidx_def)+
qed

lemma demo_pages_for: "pages_for 0x2000 = 2"
  by (simp add: pages_for_def)

lemma demo_occ: "mmap_is_occ 37 vmm_demo"
proof -
  have "load64 demo_mem 0x11000 = load64 (store64 (\<lambda>_. 0) 0x11000 (- 1)) 0x11000"
  proof (rule load64_cong)
    fix j :: nat assume j: "j < 8"
    have u: "unat (0x11000 + of_nat j :: u64) = 0x11000 + j" using j by (subst unat_add_small) simp_all
    have "demo_mem (0x11000 + of_nat j) = demo_base (0x11000 + of_nat j)"
      using u j by (intro demo_area) (simp add: pmm_area_def)
    also have "\<dots> = store64 (\<lambda>_. 0) 0x11000 (- 1) (0x11000 + of_nat j)"
      unfolding demo_base_def by (rule fill_above) (simp_all add: u)
    finally show "demo_mem (0x11000 + of_nat j) = store64 (\<lambda>_. 0) 0x11000 (- 1) (0x11000 + of_nat j)" .
  qed
  then have "load64 demo_mem 0x11000 = - 1" by (simp only: c64.ld_st)
  then show ?thesis by (simp add: mmap_is_occ_def int_shl1_def)
qed

subsection \<open>The properties\<close>

text \<open>Below 512 GB the entry of an address in a table of any level is the one the architecture
  uses: nine bits of the address from bit \<open>9 * level + 12\<close> on. The \<open>int\<close> shift that computes the mask
  loses bits only for addresses above.\<close>

theorem table_pos_bounds:
  assumes "unat v < 2 ^ 39" and "level \<le> 3" and "t \<noteq> 0"
  shows "unat (table_pos v level) = unat v div 2 ^ (9 * level + 12) mod 512
    \<and> get_entry_from_table t v level = Some (t + of_nat (8 * (unat v div 2 ^ (9 * level + 12) mod 512)))"
  using table_pos_vidx [OF assms(1,2)] slot_entry [OF assms] by (simp add: vidx_def slot_def mult.commute)

theorem table_pos_bounds_witness:
  "unat (table_pos 0x40201000 1) = unat (0x40201000 :: u64) div 2 ^ (9 * 1 + 12) mod 512
    \<and> get_entry_from_table 0x21000 0x40201000 1 =
        Some (0x21000 + of_nat (8 * (unat (0x40201000 :: u64) div 2 ^ (9 * 1 + 12) mod 512)))"
  by (rule table_pos_bounds) simp_all

text \<open>The top level index is 0 for every address: addresses 512 GB apart get the same tables.\<close>

theorem table_pos_512_GB: "table_pos v 3 = 0"
proof -
  have "v AND 0xFF80 \<le> 0xFF80" by (rule word_and_le1)
  then have "drop_bit 39 (v AND 0xFF80) = 0"
    by (simp add: word_unat_eq_iff drop_bit_eq_div unat_div_distrib word_le_nat_alt)
  then show ?thesis by (simp add: table_pos_def)
qed

text \<open>C32: \<open>map_page\<close> with enough frames for the missing tables succeeds and refines the update of the
  address space at one page: that page leads to the frame given, present and with the attributes,
  and every other page is mapped as before. The tables stay a tree of frames nobody else owns.\<close>

theorem map_page_refines:
  assumes "vmm_ok P N K s" and "unat v < 2 ^ 39" and "p mod VMM_PAGE_SIZE = 0" and "attr_ok a"
    and "3 \<le> length (pmm_frames s)"
  shows "\<exists>s' e. map_page p v a s = (True, s') \<and> vmm_ok P N K s'
    \<and> as_map s' = (as_map s)(page_of v \<mapsto> e) \<and> pte_pfn e = p \<and> pte_is_present e \<and> e AND scast a = scast a"
  using map_page_maps [OF assms] by blast

theorem map_page_refines_witness:
  "\<exists>s' e. map_page 0x31000 0x80000000 3 vmm_demo = (True, s') \<and> vmm_ok demo_frames 24 1 s'
    \<and> as_map s' = (as_map vmm_demo)(page_of 0x80000000 \<mapsto> e) \<and> pte_pfn e = 0x31000 \<and> pte_is_present e
    \<and> e AND scast (3 :: u32) = scast (3 :: u32)"
  by (rule map_page_refines [OF demo_ok _ _ attr_demo]) simp_all

text \<open>\<open>get_entry\<close> reads the address space: it finds a present entry exactly for the mapped pages,
  and that entry.\<close>

theorem get_entry_refines:
  assumes "vmm_ok P N K s" and "unat v < 2 ^ 39"
  shows "as_map s (page_of v) = (case get_entry v s of None \<Rightarrow> None | Some e \<Rightarrow>
    (if pte_is_present (load64 (mem s) e) then Some (load64 (mem s) e) else None))"
  by (rule as_map_get_entry [OF assms])

theorem get_entry_refines_witness:
  "as_map vmm_demo (page_of 0x40001000) = (case get_entry 0x40001000 vmm_demo of None \<Rightarrow> None | Some e \<Rightarrow>
    (if pte_is_present (load64 (mem vmm_demo) e) then Some (load64 (mem vmm_demo) e) else None))"
  by (rule get_entry_refines [OF demo_ok]) simp

text \<open>C33: \<open>vmm_alloc_pages_from\<close> passes over mapped pages and over page tables that are marked complete, across
  any number of tables. When the first page at or after the address that is neither, starts a gap with
  room for the pages asked for (below 64 GB, fewer than 2^19 pages), and there are four frames for each page, it returns the start of that
  gap with exactly these pages newly mapped, each to a frame of its own taken from the free stack.\<close>

theorem vmm_alloc_pages_from_maps:
  assumes "vmm_ok P N K s" and "attr_ok a" and "n = pages_for sz" and "0 < n" and "n < 2 ^ 19"
    and "p \<le> g" and "g + n < 2 ^ 24" and "\<not> pt_is_complete (of_nat (g div 512)) s"
    and "\<forall>q. p \<le> q \<longrightarrow> q < g \<longrightarrow> as_map s (of_nat q) \<noteq> None \<or> pt_is_complete (of_nat (q div 512)) s"
    and "\<forall>j<n. as_map s (of_nat (g + j)) = None" and "4 * n \<le> length (pmm_frames s)"
  shows "\<exists>F s'. vmm_alloc_pages_from (page_addr p) sz a s = Some (Some (page_addr g), s')
    \<and> vmm_ok P N K s' \<and> mapped_run g n a F s s'
    \<and> F \<subseteq> set (pmm_frames s) - set (pmm_frames s') - vm_tables s' \<and> (\<exists>gs. pmm_frames s = pmm_frames s' @ gs \<and> length gs \<le> 4 * n)"
proof -
  let ?G = "g div 512"
  let ?p = "max p (512 * ?G)"
  have p: "512 * (p div 512) \<le> p" "p < 2 ^ 27" "g < 2 ^ 24" using assms(6,7) by simp_all
  have G: "512 * ?G \<le> ?p" "?p \<le> g" "?p + (g - ?p) = g" "g < 512 * Suc ?G"
    using assms(6) page_split [of g] by simp_all
  have used: "\<forall>j<g - ?p. as_map s (of_nat (?p + j)) \<noteq> None"
  proof (intro allI impI)
    fix j assume "j < g - ?p"
    then have j: "p \<le> ?p + j" "?p + j < g" "512 * ?G \<le> ?p + j" by simp_all
    then have "(?p + j) div 512 = ?G" using G(4) by (intro div512) simp_all
    then show "as_map s (of_nat (?p + j)) \<noteq> None" using assms(8) assms(9) j by metis
  qed
  have gap: "\<forall>j<n. as_map s (of_nat (?p + (g - ?p) + j)) = None" unfolding G(3) by (rule assms(10))
  have "?p + (g - ?p) < 512 * Suc ?G" "?p + (g - ?p) + n < 2 ^ 24" unfolding G(3) using G(4) assms(7) by simp_all
  from alloc_pages_finds [OF assms(1,2) G(1) this assms(8,4,5) used gap assms(11)]
  obtain s1 s' where r: "alloc_pages (of_nat ?G) (of_nat (?p - 512 * ?G)) (of_nat n) a s = Some (Some (page_addr g), s')"
      "vmm_ok P N K s'" "\<exists>gs. pmm_frames s = pmm_frames s1 @ gs \<and> length gs \<le> 4 * n"
      "mapped_run g n a (set (pmm_frames s) - set (pmm_frames s1) - vm_tables s1) s s1" "vm_same s1 s'"
    unfolding G(3) by blast
  then have "mapped_run g n a (set (pmm_frames s) - set (pmm_frames s') - vm_tables s') s s'"
    "\<exists>gs. pmm_frames s = pmm_frames s' @ gs \<and> length gs \<le> 4 * n"
    by (simp_all only: vm_same_def mapped_run_def)
  moreover have "vmm_alloc_pages_from (page_addr p) sz a s = Some (Some (page_addr g), s')"
    using r(1) alloc_pages_reaches [OF assms(1) p(3) refl p(1) page_split assms(6,9)]
    unfolding vmm_alloc_pages_from_eq [OF p(2)] assms(3) by simp
  ultimately show ?thesis using r(2) by blast
qed

theorem vmm_alloc_pages_from_maps_witness:
  "\<exists>F s'. vmm_alloc_pages_from (page_addr 0x40001) 0x2000 3 vmm_full = Some (Some (page_addr 0x40200), s')
    \<and> vmm_ok demo_frames 24 1 s' \<and> mapped_run 0x40200 2 3 F vmm_full s'
    \<and> F \<subseteq> set (pmm_frames vmm_full) - set (pmm_frames s') - vm_tables s'
    \<and> (\<exists>gs. pmm_frames vmm_full = pmm_frames s' @ gs \<and> length gs \<le> 4 * 2)"
proof (rule vmm_alloc_pages_from_maps [OF vmm_full_same(1) attr_demo demo_pages_for [symmetric]])
  show "\<forall>q. 0x40001 \<le> q \<longrightarrow> q < 0x40200 \<longrightarrow>
      as_map vmm_full (of_nat q) \<noteq> None \<or> pt_is_complete (of_nat (q div 512)) vmm_full"
  proof (intro allI impI disjI2)
    fix q :: nat assume "0x40001 \<le> q" "q < 0x40200"
    then have "q div 512 = 0x200" by (intro div512) simp_all
    then show "pt_is_complete (of_nat (q div 512)) vmm_full" using vmm_full_bitmap(1) by simp
  qed
  have "as_map vmm_full = as_map vmm_demo" using vmm_full_same(2) by (simp add: vm_same_def)
  then show "\<forall>j<2. as_map vmm_full (of_nat (0x40200 + j)) = None"
    using demo_map_next by (auto simp: less_Suc_eq numeral_2_eq_2)
  show "4 * 2 \<le> length (pmm_frames vmm_full)" using vmm_full_same(2) by (simp add: vm_same_def)
qed (use vmm_full_bitmap(2) in simp_all)



text \<open>C35: \<open>vmm_free_pages\<close> on a mapped page whose frame is marked as used unmaps that page only and puts
  its frame on the free stack.\<close>

theorem vmm_free_pages_unmaps:
  assumes "vmm_ok P N K s" and "Suc p < 2 ^ 24" and "as_map s (of_nat p) = Some x" and "f = pte_pfn x"
    and "f \<in> P - set (pmm_frames s) - vm_tables s - {cur_bitmap s}" and "mmap_is_occ (f div PMM_BLOCK_SIZE) s"
  shows "\<exists>s'. vmm_free_pages (page_addr p) VMM_PAGE_SIZE s = Some s' \<and> vmm_ok P N K s'
    \<and> as_map s' = (as_map s)(of_nat p := None) \<and> pmm_frames s' = pmm_frames s @ [f]"
proof -
  have p: "p < 2 ^ 27" using assms(2) by simp
  have "as_map s (page_of (page_addr p)) = Some x" using assms(3) by (simp add: page_of_page_addr [OF p])
  then obtain e where "get_entry (page_addr p) s = Some e" "load64 (mem s) e = x"
    unfolding as_map_get_entry [OF assms(1) page_addr_low [OF p]] by (auto split: option.splits if_splits)
  then show ?thesis using vmm_free_one_unmaps [OF assms(1,2) _ _ assms(5,6)] assms(4) by blast
qed

theorem vmm_free_pages_unmaps_witness:
  "\<exists>s'. vmm_free_pages (page_addr 0x40001) VMM_PAGE_SIZE vmm_demo = Some s' \<and> vmm_ok demo_frames 24 1 s'
    \<and> as_map s' = (as_map vmm_demo)(of_nat 0x40001 := None) \<and> pmm_frames s' = pmm_frames vmm_demo @ [0x25000]"
  by (rule vmm_free_pages_unmaps [OF demo_ok _ demo_map(2)])
    (simp_all add: demo_tables demo_pmm_frames demo_occ demo_frames_def upt_conv_Cons pte_pfn_def MASK_FRAME_def)

text \<open>\<open>free_page\<close> does not look at the present bit. A page that is freed twice has its frame freed
  twice, also when the allocator has handed the frame to a new owner in between.\<close>

theorem freed_page_freed_again:
  assumes ok: "vmm_ok P N K s" and p: "Suc p < 2 ^ 24" and x: "as_map s (of_nat p) = Some x" "f = pte_pfn x"
    and f: "f \<in> P - set (pmm_frames s) - vm_tables s - {cur_bitmap s}" and occ: "mmap_is_occ (f div PMM_BLOCK_SIZE) s"
    and free: "vmm_free_pages (page_addr p) VMM_PAGE_SIZE s = Some s1" and take: "gmem s1 = (g, s2)"
  shows "g = f \<and> (\<exists>s3. vmm_free_pages (page_addr p) VMM_PAGE_SIZE s2 = Some s3 \<and> f \<in> set (pmm_frames s3))"
proof -
  have p27: "p < 2 ^ 27" using p by simp
  have v: "unat (page_addr p) < 2 ^ 39" by (rule page_addr_low [OF p27])
  have "as_map s (page_of (page_addr p)) = Some x" using x(1) by (simp add: page_of_page_addr [OF p27])
  then obtain e where e: "get_entry (page_addr p) s = Some e" "load64 (mem s) e = x"
    unfolding as_map_get_entry [OF ok v] by (auto split: option.splits if_splits)
  have s1: "vmm_ok P N K s1" "pmm_frames s1 = pmm_frames s @ [f]" "vm_tables s1 \<subseteq> vm_tables s"
      "cur_bitmap s1 = cur_bitmap s" "get_entry (page_addr p) s1 = Some e" "pte_pfn (load64 (mem s1) e) = f"
    using vmm_free_one_unmaps [OF ok p e(1) _ f occ] e(2) x(2) free by auto
  obtain s2' where s2: "gmem s1 = (f, s2')" "vmm_ok P N K s2'" "pmm_frames s2' = pmm_frames s" "vm_tables s2' = vm_tables s1"
      "s2' = s1\<lparr>mem := mem s2', free_blocks := free_blocks s2'\<rparr>" "\<forall>x. \<not> pmm_area K s1 x \<longrightarrow> mem s2' x = mem s1 x"
    using gmem_vm [OF s1(1,2)] by blast
  have g: "g = f" "s2' = s2" using s2(1) take by simp_all
  have cr: "read_cr3 s2 = read_cr3 s1" "cur_bitmap s2 = cur_bitmap s1"
    using arg_cong [OF s2(5), of read_cr3] arg_cong [OF s2(5), of cur_bitmap] by (simp_all add: g read_cr3_def)
  have lay: "pmm_layout P N K s1" using s1(1) by (simp add: vmm_ok_def pmm_ok_def)
  have same: "is_frame h \<and> same_frame h (mem s1) (mem s2)" if "h \<in> pt_tables 3 (read_cr3 s1) (mem s1)" for h
  proof -
    have "h \<in> P" using that s1(1) by (auto simp: vmm_ok_def vm_tables_def)
    then show ?thesis using pool_frame [OF lay] s2(6) g by (auto simp: same_frame_def)
  qed
  obtain t0 where t0: "get_entry_loop 3 (page_addr p) (read_cr3 s1) (mem s1) = Some t0" "e = slot t0 (vidx (page_addr p) 0)"
    using s1(5) unfolding get_entry_slot [OF s1(1) v] by auto
  have t0in: "t0 \<in> pt_tables 3 (read_cr3 s1) (mem s1)"
    by (rule get_entry_loop_in [OF v order_refl _ t0(1)]) (use same in blast)
  have e2: "get_entry (page_addr p) s2 = Some e"
    using get_entry_slot [OF s2(2) v] loop_same [OF v order_refl same] t0 cr by (simp add: g)
  have "load64 (mem s2) e = load64 (mem s1) e"
    unfolding t0(2) using same [OF t0in] by (intro load64_same) simp_all
  then have f2: "f = pte_pfn (load64 (mem s2) e)" using s1(6) by simp
  have nf: "f \<in> P - set (pmm_frames s2) - vm_tables s2 - {cur_bitmap s2}"
    using f s1(3,4) s2(3,4) cr(2) g by auto
  have "free_blocks s1 > 0" using s1(2) length_pmm_frames [of s1] by (simp add: word_less_nat_alt)
  then have "s2 = mmap_alloc (f div PMM_BLOCK_SIZE) (s1\<lparr>free_blocks := free_blocks s1 - 1\<rparr>)"
    using take g by (auto simp: gmem_def pop_def Let_def)
  then have "mmap_is_occ (f div PMM_BLOCK_SIZE) s2" by (simp add: occ_after_alloc)
  from vmm_free_one_unmaps [OF s2(2) [unfolded g] p e2 f2 nf this] show ?thesis using g by auto
qed

theorem freed_page_freed_again_witness:
  "fst (gmem (the (vmm_free_pages (page_addr 0x40001) VMM_PAGE_SIZE vmm_demo))) = 0x25000
    \<and> (\<exists>s3. vmm_free_pages (page_addr 0x40001) VMM_PAGE_SIZE
          (snd (gmem (the (vmm_free_pages (page_addr 0x40001) VMM_PAGE_SIZE vmm_demo)))) = Some s3
        \<and> 0x25000 \<in> set (pmm_frames s3))"
proof (rule freed_page_freed_again [OF demo_ok _ demo_map(2)])
  show "vmm_free_pages (page_addr 0x40001) VMM_PAGE_SIZE vmm_demo =
      Some (the (vmm_free_pages (page_addr 0x40001) VMM_PAGE_SIZE vmm_demo))"
    using vmm_free_one [OF demo_ok, of "0x40001"] by auto
qed (simp_all add: demo_tables demo_pmm_frames demo_occ demo_frames_def upt_conv_Cons pte_pfn_def MASK_FRAME_def)

end
