(* ===== verification/Sched.thy ===== *)
theory Sched
  imports Virtual_Memory
begin

unbundle bit_operations_syntax

section \<open>Kernel/sched.c: the scheduler\<close>

text \<open>
  The process table, the ring of processes through their \<open>next\<close> pointers, process creation and
  termination, and the two stack switches every interrupt and system call goes through. A pointer to
  a process is the idle process or an index into \<open>processes\<close>; \<open>None\<close> is the null pointer, and an
  access outside the array makes the operation \<open>None\<close>. The addresses the linker chooses are the
  record \<open>kernel_symbols\<close>, an argument of the operations that use them.
\<close>

abbreviation SCHED_MAX_PROC :: nat where "SCHED_MAX_PROC \<equiv> 20"
abbreviation PROC_BASE_STACK :: u64 where "PROC_BASE_STACK \<equiv> 0x50000000"

record kernel_symbols =
  zygote_addr :: u64
  idle_addr :: u64
  exit_addr :: u64

record module_entry =
  mod_start :: u64
  mod_size :: u64
  mod_name :: "u8 list"

datatype process_ptr = Idle | Process nat

datatype sched_sleeping = IO | WAIT | TIME

record sched_process =
  p_pid :: u64
  p_name :: "u8 list"
  p_symbol :: u64
  p_stack :: u64
  p_stack_base :: u64
  p_page_count :: u64
  p_pagetable :: u64
  p_cr3 :: u64
  p_kernel_stack :: u64
  p_code :: u16
  p_sleeping :: sched_sleeping
  p_reason :: u64
  p_parent :: "process_ptr option"
  p_children :: "process_ptr option"
  p_next :: "process_ptr option"

record sched_state = vmm_state +
  idle_process :: sched_process
  active :: "process_ptr option"
  max_pid :: u64
  fg_pid :: u64
  processes :: "sched_process list"
  proc_idx :: nat

text \<open>Reading and writing through a pointer.\<close>

definition proc_at :: "process_ptr \<Rightarrow> 'a sched_state_scheme \<Rightarrow> sched_process option" where
  "proc_at p s = (case p of Idle \<Rightarrow> Some (idle_process s) | Process i \<Rightarrow> obj_get (processes s) (int i))"

definition proc_set ::
  "process_ptr \<Rightarrow> (sched_process \<Rightarrow> sched_process) \<Rightarrow> 'a sched_state_scheme \<Rightarrow> 'a sched_state_scheme option"
where
  "proc_set p f s =
     (case p of
        Idle \<Rightarrow> Some (s\<lparr>idle_process := f (idle_process s)\<rparr>)
      | Process i \<Rightarrow> do {
          q \<leftarrow> obj_get (processes s) (int i);
          ps \<leftarrow> obj_set (processes s) (int i) (f q);
          Some (s\<lparr>processes := ps\<rparr>)
        })"

subsection \<open>Stacks\<close>

definition get_stack_base :: "u64 \<Rightarrow> u32 \<Rightarrow> u64" where
  "get_stack_base stack_base pages = stack_base + 4096 * scast pages - 8"

definition sched_alloc_pages ::
  "u64 \<Rightarrow> u64 \<Rightarrow> 'a sched_state_scheme \<Rightarrow> (u64 \<times> 'a sched_state_scheme) option"
where
  "sched_alloc_pages base size64 s = do {
     let size64 = 4096 * size64;
     (r, s) \<leftarrow> (if base \<noteq> 0 then vmm_alloc_pages_from base size64 (ucast MASK_WRITEABLE) s
                else vmm_alloc_pages size64 (ucast MASK_WRITEABLE) s);
     page \<leftarrow> r;
     Some (page, s\<lparr>mem := fst (memset (mem s) page 0 size64)\<rparr>)
   }"

text \<open>
  asm/scheduling.asm: \<open>push\<close> of a list of words, and the trap frame and register values of a new
  process. \<open>rdx\<close> is what the register holds at the call.
\<close>

primrec push_all :: "u64 list \<Rightarrow> u64 \<times> mem \<Rightarrow> u64 \<times> mem" where
  "push_all [] c = c"
| "push_all (v # vs) c = (let (rsp, m) = c in push_all vs (rsp - 8, store64 m (rsp - 8) v))"

definition INITPROC :: "u64 \<Rightarrow> u64 \<Rightarrow> u64 list" where
  "INITPROC rsp rdx = [0x01, 0x02, 0x03, rdx, rsp - 8 * 4, 0, 0, 0x08, 0x09, 0x0A, 0x0B, 0x0C, 0x0D, 0x0E, 0x0F, 0, 0]"

definition sched_init_stack ::
  "kernel_symbols \<Rightarrow> u64 \<Rightarrow> u64 \<Rightarrow> u64 \<Rightarrow> 'a sched_state_scheme \<Rightarrow> u64 \<times> 'a sched_state_scheme"
where
  "sched_init_stack ks rdx stack symbol s =
     (let (rsp, m) = push_all
            ([exit_addr ks, 0, stack - 8 * 2, 0x202, 0x08, symbol] @ INITPROC (stack - 8 * 6) rdx)
            (stack, mem s)
      in (rsp, s\<lparr>mem := m\<rparr>))"

text \<open>\<open>SET_SYSCALL_RET\<close>: the saved \<open>rax\<close> of a process stack.\<close>

definition sched_step_syscall_rax :: "u64 \<Rightarrow> u64 \<Rightarrow> 'a sched_state_scheme \<Rightarrow> 'a sched_state_scheme" where
  "sched_step_syscall_rax stack v s = s\<lparr>mem := store64 (mem s) (stack + 8 * 16) v\<rparr>"

definition sched_init_process ::
  "kernel_symbols \<Rightarrow> u64 \<Rightarrow> process_ptr \<Rightarrow> u64 \<Rightarrow> u64 \<Rightarrow> u64 \<Rightarrow> u32
   \<Rightarrow> 'a sched_state_scheme \<Rightarrow> 'a sched_state_scheme option"
where
  "sched_init_process ks rdx process symbol stack kernel_stack pages s = do {
     s \<leftarrow> proc_set process (\<lambda>p. p\<lparr>p_symbol := symbol\<rparr>) s;
     s \<leftarrow> proc_set process (\<lambda>p. p\<lparr>p_stack_base := stack\<rparr>) s;
     let (sp, s) = sched_init_stack ks rdx (get_stack_base stack pages) symbol s;
     s \<leftarrow> proc_set process (\<lambda>p. p\<lparr>p_stack := sp\<rparr>) s;
     s \<leftarrow> proc_set process (\<lambda>p. p\<lparr>p_kernel_stack := get_stack_base kernel_stack 1\<rparr>) s;
     proc_set process (\<lambda>p. p\<lparr>p_page_count := scast pages\<rparr>) s
   }"

definition sched_init ::
  "kernel_symbols \<Rightarrow> u64 \<Rightarrow> u64 \<Rightarrow> 'a sched_state_scheme \<Rightarrow> (u64 \<times> 'a sched_state_scheme) option"
where
  "sched_init ks rdx pagetable s = do {
     (stack, s) \<leftarrow> sched_alloc_pages PROC_BASE_STACK 1 s;
     (kernel_stack, s) \<leftarrow> sched_alloc_pages 0 1 s;
     s \<leftarrow> sched_init_process ks rdx Idle (idle_addr ks) stack kernel_stack 1 s;
     s \<leftarrow> proc_set Idle (\<lambda>p. p\<lparr>p_pagetable := pagetable\<rparr>) s;
     s \<leftarrow> proc_set Idle (\<lambda>p. p\<lparr>p_next := Some Idle\<rparr>) s;
     s \<leftarrow> proc_set Idle (\<lambda>p. p\<lparr>p_name := bytes ''idle'' @ [0] @ drop 5 (p_name p)\<rparr>) s;
     Some (0, s)
   }"

subsection \<open>Creating a process\<close>

definition sched_alloc_process :: "'a sched_state_scheme \<Rightarrow> process_ptr \<times> 'a sched_state_scheme" where
  "sched_alloc_process s = (Process (proc_idx s), s\<lparr>proc_idx := proc_idx s + 1\<rparr>)"

definition sched_load_module ::
  "kernel_symbols \<Rightarrow> u64 \<Rightarrow> process_ptr \<Rightarrow> u64 \<Rightarrow> 'a sched_state_scheme \<Rightarrow> 'a sched_state_scheme option"
where
  "sched_load_module ks rdx proc symbol s = do {
     (stack, s) \<leftarrow> sched_alloc_pages 0 16 s;
     (kernel_stack, s) \<leftarrow> sched_alloc_pages 0 1 s;
     sched_init_process ks rdx proc symbol stack kernel_stack 16 s
   }"

text \<open>\<open>while (last && last->next != active) last = last->next\<close>.\<close>

partial_function (option) find_last ::
  "process_ptr option \<Rightarrow> 'a sched_state_scheme \<Rightarrow> process_ptr option option"
where
  "find_last lst s =
     (case lst of
        None \<Rightarrow> Some None
      | Some q \<Rightarrow> do {
          p \<leftarrow> proc_at q s;
          if p_next p = active s then Some (Some q) else find_last (p_next p) s
        })"

definition sched_spawn_module ::
  "kernel_symbols \<Rightarrow> u64 \<Rightarrow> module_entry \<Rightarrow> u64 \<Rightarrow> 'a sched_state_scheme \<Rightarrow> (u64 \<times> 'a sched_state_scheme) option"
where
  "sched_spawn_module ks rdx entry symbol s = do {
     let (process, s) = sched_alloc_process s;
     let s = s\<lparr>max_pid := max_pid s + 1\<rparr>;
     s \<leftarrow> proc_set process (\<lambda>p. p\<lparr>p_pid := max_pid s\<rparr>) s;
     s \<leftarrow> proc_set process (\<lambda>p. p\<lparr>p_name := mod_name entry\<rparr>) s;
     s \<leftarrow> sched_load_module ks rdx process symbol s;
     s \<leftarrow> proc_set process (\<lambda>p. p\<lparr>p_symbol := zygote_addr ks\<rparr>) s;
     let s = (if active s = None then s\<lparr>active := Some process\<rparr> else s);
     s \<leftarrow> proc_set process (\<lambda>p. p\<lparr>p_next := active s\<rparr>) s;
     lst \<leftarrow> find_last (active s) s;
     lst \<leftarrow> lst;
     s \<leftarrow> proc_set lst (\<lambda>p. p\<lparr>p_next := Some process\<rparr>) s;
     p \<leftarrow> proc_at process s;
     Some (p_pid p, s)
   }"

subsection \<open>Inspecting the active process\<close>

definition sched_get_current_process_entry :: "'a sched_state_scheme \<Rightarrow> u64 option" where
  "sched_get_current_process_entry s =
     (case active s of None \<Rightarrow> Some (p_symbol (idle_process s)) | Some a \<Rightarrow> map_option p_symbol (proc_at a s))"

definition sched_getpid :: "'a sched_state_scheme \<Rightarrow> u64 option" where
  "sched_getpid s = (case active s of None \<Rightarrow> Some 0 | Some a \<Rightarrow> map_option p_pid (proc_at a s))"

definition sched_get_process :: "'a sched_state_scheme \<Rightarrow> u64 option" where
  "sched_get_process s =
     (case active s of None \<Rightarrow> Some (p_stack (idle_process s)) | Some a \<Rightarrow> map_option p_stack (proc_at a s))"

definition sched_forkexec :: "u64 \<Rightarrow> u64 \<Rightarrow> u64" where
  "sched_forkexec parent_pid new_symbol = - 1"

subsection \<open>Terminating a process\<close>

text \<open>\<open>_sched_free_pages\<close> and \<open>_sched_free_process\<close> have empty bodies.\<close>

definition sched_terminate_defunct ::
  "process_ptr \<Rightarrow> u16 \<Rightarrow> 'a sched_state_scheme \<Rightarrow> 'a sched_state_scheme option"
where
  "sched_terminate_defunct defunct code s = proc_set defunct (\<lambda>p. p\<lparr>p_code := code\<rparr>) s"

partial_function (option) terminate_loop ::
  "u64 \<Rightarrow> u16 \<Rightarrow> process_ptr option \<Rightarrow> process_ptr option \<Rightarrow> 'a sched_state_scheme
   \<Rightarrow> (u64 \<times> 'a sched_state_scheme) option"
where
  "terminate_loop pid retval process prev s =
     (case process of
        None \<Rightarrow> Some (- 1, s)
      | Some q \<Rightarrow> do {
          p \<leftarrow> proc_at q s;
          a \<leftarrow> active s;
          ap \<leftarrow> proc_at a s;
          if p_next ap = Some a \<and> p_pid p = pid then do {
            s \<leftarrow> sched_terminate_defunct q retval s;
            Some (0, s\<lparr>active := None\<rparr>)
          }
          else if p_pid p = pid then do {
            prev \<leftarrow> prev;
            s \<leftarrow> proc_set prev (\<lambda>r. r\<lparr>p_next := p_next p\<rparr>) s;
            s \<leftarrow> sched_terminate_defunct q retval s;
            Some (0, s)
          }
          else if p_next p = Some a then Some (- 1, s)
          else terminate_loop pid retval (p_next p) (Some q) s
        })"

definition sched_terminate_process ::
  "u64 \<Rightarrow> u16 \<Rightarrow> 'a sched_state_scheme \<Rightarrow> (u64 \<times> 'a sched_state_scheme) option"
where
  "sched_terminate_process pid retval s =
     (case active s of
        None \<Rightarrow> Some (- 1, s)
      | Some a \<Rightarrow> do {
          prev \<leftarrow> find_last (Some a) s;
          terminate_loop pid retval (Some a) prev s
        })"

subsection \<open>Switching stacks\<close>

definition sched_switch_to_kernel_stack ::
  "u64 \<Rightarrow> 'a sched_state_scheme \<Rightarrow> (u64 \<times> 'a sched_state_scheme) option"
where
  "sched_switch_to_kernel_stack stack s =
     (let a = (case active s of None \<Rightarrow> Idle | Some a \<Rightarrow> a)
      in do {
           s \<leftarrow> proc_set a (\<lambda>p. p\<lparr>p_stack := stack\<rparr>) s;
           p \<leftarrow> proc_at a s;
           Some (p_kernel_stack p, s)
         })"

definition sched_switch_to_user_stack ::
  "u64 \<Rightarrow> 'a sched_state_scheme \<Rightarrow> (u64 \<times> 'a sched_state_scheme) option"
where
  "sched_switch_to_user_stack stack s =
     (case active s of
        None \<Rightarrow> do {
          s \<leftarrow> proc_set Idle (\<lambda>p. p\<lparr>p_kernel_stack := stack\<rparr>) s;
          Some (p_stack (idle_process s), s)
        }
      | Some a \<Rightarrow> do {
          s \<leftarrow> proc_set a (\<lambda>p. p\<lparr>p_kernel_stack := stack\<rparr>) s;
          p \<leftarrow> proc_at a s;
          let s = s\<lparr>active := p_next p\<rparr>;
          a \<leftarrow> active s;
          p \<leftarrow> proc_at a s;
          Some (p_stack p, s)
        })"

subsection \<open>Printing\<close>

definition sched_idle_turn :: "'a sched_state_scheme \<Rightarrow> 'a sched_state_scheme option" where
  "sched_idle_turn s = map_option snd (write_bytes 1 (bytes ''*IDLING!* '') s)"

partial_function (option) print_proclist_loop ::
  "process_ptr \<Rightarrow> 'a sched_state_scheme \<Rightarrow> 'a sched_state_scheme option"
where
  "print_proclist_loop q s = do {
     p \<leftarrow> proc_at q s;
     (case p_next p of
        None \<Rightarrow> Some s
      | Some n \<Rightarrow> do {
          s \<leftarrow> kprintf ''%s (%d) '' [Arg_str (p_name p), Arg_num (p_pid p)] s;
          if p_next p = active s then Some s else print_proclist_loop n s
        })
   }"

definition sched_print_proclist :: "'a sched_state_scheme \<Rightarrow> 'a sched_state_scheme option" where
  "sched_print_proclist s = do {
     s \<leftarrow> puts ''processes: '' s;
     (case active s of
        None \<Rightarrow> puts (''<idle>'' @ [CHR 0x0A]) s
      | Some a \<Rightarrow> do {
          s \<leftarrow> print_proclist_loop a s;
          puts [CHR 0x0A] s
        })
   }"

primrec show_stack_loop :: "nat \<Rightarrow> u64 \<Rightarrow> 'a console_state_scheme \<Rightarrow> 'a console_state_scheme option" where
  "show_stack_loop 0 sp s = Some s"
| "show_stack_loop (Suc n) sp s = do {
     let i = 16 - n;
     s \<leftarrow> kprintf (''%d'' @ [CHR 0x09] @ ''%x'' @ [CHR 0x0A])
       [Arg_num (of_nat i), Arg_num (load64 (mem s) (sp + of_nat (8 * i)))] s;
     show_stack_loop n sp s
   }"

definition show_stack :: "u64 \<Rightarrow> 'a console_state_scheme \<Rightarrow> 'a console_state_scheme option" where
  "show_stack sp s = do {
     s \<leftarrow> show_stack_loop 17 sp s;
     kprintf (''%x'' @ [CHR 0x0A]) [Arg_num sp] s
   }"

end
