(* ===== verification/Sched_Ring.thy ===== *)
theory Sched_Ring
  imports Sched
begin

section \<open>The ring of processes\<close>

text \<open>
  The circular list that the \<open>next\<close> pointers of the process table form, as the list of its members
  in the order of the pointers (\<open>cycle\<close>), with the running process first (\<open>settled\<close>). The lemmas say
  what a turn of the scheduler and a termination do to that list.
\<close>

definition next_of :: "'a sched_state_scheme \<Rightarrow> process_ptr \<Rightarrow> process_ptr option" where
  "next_of s q = (case proc_at q s of None \<Rightarrow> None | Some p \<Rightarrow> p_next p)"

definition in_table :: "'a sched_state_scheme \<Rightarrow> process_ptr \<Rightarrow> bool" where
  "in_table s q \<longleftrightarrow> (\<exists>i<length (processes s). q = Process i)"

definition cycle :: "'a sched_state_scheme \<Rightarrow> process_ptr list \<Rightarrow> bool" where
  "cycle s zs \<longleftrightarrow> distinct zs \<and> (\<forall>q \<in> set zs. in_table s q)
     \<and> (\<forall>k < length zs. next_of s (zs ! k) = Some (zs ! (Suc k mod length zs)))"

definition settled :: "'a sched_state_scheme \<Rightarrow> process_ptr list \<Rightarrow> bool" where
  "settled s zs \<longleftrightarrow> cycle s zs \<and> active s = (case zs of [] \<Rightarrow> None | z # _ \<Rightarrow> Some z)"

definition departed :: "'a sched_state_scheme \<Rightarrow> process_ptr \<Rightarrow> process_ptr list \<Rightarrow> bool" where
  "departed s a zs \<longleftrightarrow> cycle s zs \<and> zs \<noteq> [] \<and> active s = Some a \<and> in_table s a \<and> a \<notin> set zs \<and> next_of s a = Some (hd zs)"

lemma proc_at_table: "in_table s q \<Longrightarrow> \<exists>p. proc_at q s = Some p"
  by (auto simp: in_table_def proc_at_def obj_simps)

lemma proc_set_table:
  assumes "in_table s q"
  shows "\<exists>ps. proc_set q f s = Some (s\<lparr>processes := ps\<rparr>) \<and> length ps = length (processes s)
    \<and> (\<forall>r. proc_at r (s\<lparr>processes := ps\<rparr>) = (if r = q then map_option f (proc_at q s) else proc_at r s))"
proof -
  obtain i where i: "i < length (processes s)" "q = Process i" using assms by (auto simp: in_table_def)
  let ?ps = "(processes s)[i := f (processes s ! i)]"
  have "proc_set q f s = Some (s\<lparr>processes := ?ps\<rparr>)" using i by (simp add: proc_set_def obj_simps)
  moreover have "proc_at r (s\<lparr>processes := ?ps\<rparr>) = (if r = q then map_option f (proc_at q s) else proc_at r s)" for r
  proof (cases r)
    case (Process j)
    then show ?thesis using i by (cases "j < length (processes s)") (auto simp: proc_at_def obj_simps)
  qed (use i in \<open>simp add: proc_at_def\<close>)
  ultimately show ?thesis by (intro exI [of _ ?ps]) simp
qed

text \<open>A write that leaves all \<open>next\<close> pointers leaves the cycle.\<close>

lemma cycle_cong:
  assumes "cycle s zs" and "\<And>q. q \<in> set zs \<Longrightarrow> next_of t q = next_of s q" and "length (processes t) = length (processes s)"
  shows "cycle t zs"
  using assms by (auto simp: cycle_def in_table_def)

lemma cycle_rotate1: "cycle s zs \<Longrightarrow> cycle s (rotate1 zs)"
proof (cases zs)
  case (Cons z zs')
  assume c: "cycle s zs"
  have "next_of s (rotate1 zs ! k) = Some (rotate1 zs ! (Suc k mod length zs))" if k: "k < length zs" for k
  proof -
    have n: "0 < length zs" using k by auto
    have 1: "rotate1 zs ! k = zs ! (Suc k mod length zs)" using nth_rotate1 [OF k] by simp
    have "Suc k mod length zs < length zs" using n by simp
    from nth_rotate1 [OF this] have 2: "rotate1 zs ! (Suc k mod length zs) = zs ! (Suc (Suc k mod length zs) mod length zs)" by simp
    have "Suc k mod length zs < length zs" using n by simp
    then show ?thesis using c unfolding 1 2 cycle_def by blast
  qed
  then show ?thesis using c by (simp add: cycle_def)
qed simp

lemma cycle_next:
  assumes "cycle s (z # zs)"
  shows "next_of s z = Some (hd (zs @ [z]))"
proof -
  have "next_of s ((z # zs) ! 0) = Some ((z # zs) ! (Suc 0 mod length (z # zs)))"
    using assms unfolding cycle_def by (metis length_greater_0_conv list.distinct(1))
  then show ?thesis by (cases zs) auto
qed

subsection \<open>Switching\<close>

definition sched_turn :: "u64 \<times> u64 \<Rightarrow> 'a sched_state_scheme \<Rightarrow> (u64 \<times> 'a sched_state_scheme) option" where
  "sched_turn c s = do {
     (_, s) \<leftarrow> sched_switch_to_kernel_stack (fst c) s;
     sched_switch_to_user_stack (snd c) s
   }"

lemma next_of_upd:
  assumes "\<forall>r. proc_at r t = (if r = q then map_option f (proc_at q s) else proc_at r s)" and "\<And>p. p_next (f p) = p_next p"
  shows "next_of t r = next_of s r"
  using assms by (auto simp: next_of_def split: option.split)

lemma to_kernel_settled:
  assumes "settled s (z # zs)"
  shows "\<exists>k ps. sched_switch_to_kernel_stack st s = Some (k, s\<lparr>processes := ps\<rparr>) \<and> length ps = length (processes s)
    \<and> (\<forall>r. proc_at r (s\<lparr>processes := ps\<rparr>) =
        (if r = z then map_option (\<lambda>p. p\<lparr>p_stack := st\<rparr>) (proc_at z s) else proc_at r s))"
proof -
  have a: "active s = Some z" "in_table s z" using assms by (auto simp: settled_def cycle_def)
  obtain ps where ps: "proc_set z (\<lambda>p. p\<lparr>p_stack := st\<rparr>) s = Some (s\<lparr>processes := ps\<rparr>)"
    "length ps = length (processes s)"
    "\<forall>r. proc_at r (s\<lparr>processes := ps\<rparr>) =
        (if r = z then map_option (\<lambda>p. p\<lparr>p_stack := st\<rparr>) (proc_at z s) else proc_at r s)"
    using proc_set_table [OF a(2)] by blast
  obtain p where "proc_at z s = Some p" using proc_at_table [OF a(2)] by blast
  then show ?thesis using ps a(1) by (auto simp: sched_switch_to_kernel_stack_def Let_def)
qed

lemma to_user_step:
  assumes a: "active s = Some a" "in_table s a" and n: "next_of s a = Some n" "in_table s n"
  shows "\<exists>u t. sched_switch_to_user_stack st s = Some (u, t) \<and> active t = Some n \<and> map_option p_stack (proc_at n s) = Some u
    \<and> length (processes t) = length (processes s)
    \<and> (\<forall>r. proc_at r t = (if r = a then map_option (\<lambda>p. p\<lparr>p_kernel_stack := st\<rparr>) (proc_at a s) else proc_at r s))
    \<and> (\<exists>ps. t = s\<lparr>processes := ps, active := Some n\<rparr>)"
proof -
  obtain ps where ps: "proc_set a (\<lambda>p. p\<lparr>p_kernel_stack := st\<rparr>) s = Some (s\<lparr>processes := ps\<rparr>)"
    "length ps = length (processes s)"
    "\<forall>r. proc_at r (s\<lparr>processes := ps\<rparr>) =
        (if r = a then map_option (\<lambda>p. p\<lparr>p_kernel_stack := st\<rparr>) (proc_at a s) else proc_at r s)"
    using proc_set_table [OF a(2)] by blast
  obtain p where p: "proc_at a s = Some p" using proc_at_table [OF a(2)] by blast
  then have pn: "p_next p = Some n" using n(1) by (simp add: next_of_def)
  obtain q where q: "proc_at n s = Some q" using proc_at_table [OF n(2)] by blast
  let ?t = "s\<lparr>processes := ps, active := Some n\<rparr>"
  have at: "proc_at r ?t = proc_at r (s\<lparr>processes := ps\<rparr>)" for r by (simp add: proc_at_def split: process_ptr.split)
  have "sched_switch_to_user_stack st s = Some (p_stack q, ?t)"
    using ps p pn q a(1) by (auto simp: sched_switch_to_user_stack_def at)
  then show ?thesis using ps q at by (intro exI [of _ "p_stack q"] exI [of _ ?t]) auto
qed

lemma turn_settled:
  assumes "settled s (z # zs)"
  shows "\<exists>u t. sched_turn c s = Some (u, t) \<and> settled t (zs @ [z])
    \<and> (\<forall>r. map_option p_stack (proc_at r t) = (if r = z then Some (fst c) else map_option p_stack (proc_at r s)))
    \<and> map_option p_stack (proc_at (hd (zs @ [z])) t) = Some u"
proof -
  obtain k ps where k: "sched_switch_to_kernel_stack (fst c) s = Some (k, s\<lparr>processes := ps\<rparr>)"
    "length ps = length (processes s)"
    "\<forall>r. proc_at r (s\<lparr>processes := ps\<rparr>) =
        (if r = z then map_option (\<lambda>p. p\<lparr>p_stack := fst c\<rparr>) (proc_at z s) else proc_at r s)"
    using to_kernel_settled [OF assms] by blast
  let ?s = "s\<lparr>processes := ps\<rparr>"
  have nx: "next_of ?s r = next_of s r" for r by (rule next_of_upd [OF k(3)]) simp
  have cyc: "cycle s (z # zs)" and ac: "active s = Some z" using assms by (simp_all add: settled_def)
  have c1: "cycle ?s (z # zs)" by (rule cycle_cong [OF cyc]) (simp_all add: nx k(2))
  let ?n = "hd (zs @ [z])"
  have n: "next_of ?s z = Some ?n" by (rule cycle_next [OF c1])
  have "?n \<in> set (z # zs)" by (cases zs) auto
  then have inn: "in_table ?s ?n" "in_table ?s z" using c1 by (auto simp: cycle_def)
  obtain u t ps' where t: "sched_switch_to_user_stack (snd c) ?s = Some (u, t)" "active t = Some ?n"
      "map_option p_stack (proc_at ?n ?s) = Some u" "length (processes t) = length (processes ?s)"
      "\<forall>r. proc_at r t = (if r = z then map_option (\<lambda>p. p\<lparr>p_kernel_stack := snd c\<rparr>) (proc_at z ?s) else proc_at r ?s)"
    using to_user_step [OF _ inn(2) n inn(1), of "snd c"] ac by auto
  have nx': "next_of t r = next_of ?s r" for r by (rule next_of_upd [OF t(5)]) simp
  have "cycle t (rotate1 (z # zs))" by (rule cycle_cong [OF cycle_rotate1 [OF c1]]) (simp_all add: nx' t(4))
  then have "settled t (zs @ [z])" using t(2) by (cases zs) (auto simp: settled_def)
  moreover have st: "map_option p_stack (proc_at r t) = (if r = z then Some (fst c) else map_option p_stack (proc_at r s))" for r
  proof -
    obtain p where "proc_at z s = Some p" using proc_at_table [of s z] cyc by (auto simp: cycle_def)
    then show ?thesis using t(5) k(3) by auto
  qed
  moreover have "map_option p_stack (proc_at ?n t) = Some u"
    using t(3,5) by (auto simp: option.map_comp comp_def split: option.splits)
  moreover have "sched_turn c s = Some (u, t)" using k(1) t(1) by (simp add: sched_turn_def)
  ultimately show ?thesis by blast
qed

subsection \<open>Leaving the ring\<close>

lemma cycle_rotate: "cycle s (xs @ ys) \<Longrightarrow> cycle s (ys @ xs)"
proof (induction xs arbitrary: ys)
  case (Cons x xs)
  then have "cycle s (rotate1 (x # xs @ ys))" using cycle_rotate1 by fastforce
  then have "cycle s (xs @ (ys @ [x]))" by simp
  from Cons.IH [OF this] show ?case by simp
qed simp

lemma cycle_nexts:
  assumes "cycle s (q # xs)"
  shows "\<And>k. Suc k < length xs \<Longrightarrow> next_of s (xs ! k) = Some (xs ! Suc k)"
proof -
  fix k assume k: "Suc k < length xs"
  have "Suc k < length (q # xs)" using k by simp
  then have "next_of s ((q # xs) ! Suc k) = Some ((q # xs) ! (Suc (Suc k) mod length (q # xs)))"
    using assms unfolding cycle_def by blast
  then show "next_of s (xs ! k) = Some (xs ! Suc k)" using k by simp
qed

lemma cycle_drop_hd:
  assumes c: "cycle s (q # xs)" and ne: "xs \<noteq> []" and len: "length (processes t) = length (processes s)"
    and nx: "\<And>r. r \<in> set xs \<Longrightarrow> next_of t r = (if r = last xs then Some (hd xs) else next_of s r)"
  shows "cycle t xs"
proof -
  have d: "distinct xs" using c by (simp add: cycle_def)
  have "next_of t (xs ! k) = Some (xs ! (Suc k mod length xs))" if k: "k < length xs" for k
  proof (cases "Suc k < length xs")
    case True
    have "xs ! k \<noteq> last xs"
      using True d ne by (simp add: last_conv_nth nth_eq_iff_index_eq)
    then show ?thesis using nx [OF nth_mem [OF k]] cycle_nexts [OF c True] True by simp
  next
    case False
    then have "Suc k = length xs" using k by simp
    moreover have "k = length xs - 1" using calculation by simp
    then have "xs ! k = last xs" using ne by (simp add: last_conv_nth)
    ultimately show ?thesis using nx [OF nth_mem [OF k]] ne by (simp add: hd_conv_nth)
  qed
  moreover have "in_table t r" if "r \<in> set xs" for r using c that len by (simp add: cycle_def in_table_def)
  ultimately show ?thesis using d by (simp add: cycle_def)
qed

text \<open>The process before and the one behind position \<open>length xs\<close> of the ring \<open>xs @ q # ys\<close>.\<close>

lemma cycle_remove:
  assumes c: "cycle s (xs @ q # ys)" and ne: "ys @ xs \<noteq> []" and len: "length (processes t) = length (processes s)"
    and nx: "\<And>r. r \<in> set (ys @ xs) \<Longrightarrow> next_of t r = (if r = last (ys @ xs) then Some (hd (ys @ xs)) else next_of s r)"
  shows "cycle t (xs @ ys)"
proof -
  have "cycle s (q # (ys @ xs))" using cycle_rotate [OF c] by simp
  from cycle_drop_hd [OF this ne len nx] show ?thesis by (rule cycle_rotate)
qed

lemma cycle_insert:
  assumes c: "cycle s xs" and ne: "xs \<noteq> []" and q: "in_table t q" "q \<notin> set xs"
    and len: "length (processes t) = length (processes s)"
    and nq: "next_of t q = Some (hd xs)"
    and nx: "\<And>r. r \<in> set xs \<Longrightarrow> next_of t r = (if r = last xs then Some q else next_of s r)"
  shows "cycle t (xs @ [q])"
proof -
  have d: "distinct xs" using c by (simp add: cycle_def)
  have "next_of t ((xs @ [q]) ! k) = Some ((xs @ [q]) ! (Suc k mod length (xs @ [q])))" if k: "k < length (xs @ [q])" for k
  proof -
    consider "Suc k < length xs" | "Suc k = length xs" | "k = length xs" using k by fastforce
    then show ?thesis
    proof cases
      case 1
      then have "k < length xs" by simp
      have "xs ! k \<noteq> last xs" using 1 d ne by (simp add: last_conv_nth nth_eq_iff_index_eq)
      then show ?thesis using nx [OF nth_mem [OF \<open>k < length xs\<close>]] c 1 \<open>k < length xs\<close>
        by (auto simp: cycle_def nth_append)
    next
      case 2
      then have "k < length xs" by simp
      moreover have "k = length xs - 1" using 2 by simp
      then have "xs ! k = last xs" using ne by (simp add: last_conv_nth)
      ultimately show ?thesis using nx [OF nth_mem [OF \<open>k < length xs\<close>]] 2 by (simp add: nth_append)
    next
      case 3
      then show ?thesis using nq ne by (simp add: nth_append hd_conv_nth)
    qed
  qed
  moreover have "in_table t r" if "r \<in> set xs" for r using c that len by (simp add: cycle_def in_table_def)
  ultimately show ?thesis using d q by (simp add: cycle_def)
qed

lemma find_last_cycle:
  assumes "cycle s zs" and "zs \<noteq> []" and "active s = Some (hd zs)" and "k < length zs"
  shows "find_last (Some (zs ! k)) s = Some (Some (last zs))"
  using assms(4)
proof (induction "length zs - k" arbitrary: k)
  case (Suc n)
  have d: "distinct zs" using assms(1) by (simp add: cycle_def)
  have nx: "next_of s (zs ! k) = Some (zs ! (Suc k mod length zs))" using assms(1) Suc.prems by (simp add: cycle_def)
  obtain p where p: "proc_at (zs ! k) s = Some p" "p_next p = Some (zs ! (Suc k mod length zs))"
    using nx by (auto simp: next_of_def split: option.splits)
  show ?case
  proof (cases "Suc k < length zs")
    case True
    have "zs ! Suc k \<noteq> hd zs" using True d assms(2) by (simp add: hd_conv_nth nth_eq_iff_index_eq)
    then show ?thesis using Suc.hyps True p assms(3) by (subst find_last.simps) simp
  next
    case False
    then have k: "Suc k = length zs" using Suc.prems by simp
    then have "k = length zs - 1" by simp
    then have "zs ! k = last zs" using assms(2) by (simp add: last_conv_nth)
    then show ?thesis using p assms(2,3) k by (subst find_last.simps) (simp add: hd_conv_nth)
  qed
qed simp

definition pid_of :: "'a sched_state_scheme \<Rightarrow> process_ptr \<Rightarrow> u64 option" where
  "pid_of s q = map_option p_pid (proc_at q s)"

text \<open>\<open>terminate_loop\<close> from position \<open>k\<close> of the ring on.\<close>

lemma terminate_walk:
  assumes "cycle s zs" and "zs \<noteq> []" and "active s = Some (hd zs)" and "2 \<le> length zs"
    and "j \<le> k" and "k < length zs" and "\<And>i. j \<le> i \<Longrightarrow> i < k \<Longrightarrow> pid_of s (zs ! i) \<noteq> Some pid"
  shows "terminate_loop pid rv (Some (zs ! j)) (Some pre) s =
    terminate_loop pid rv (Some (zs ! k)) (Some (if j = k then pre else zs ! (k - 1))) s"
  using assms(5-7)
proof (induction "k - j" arbitrary: j pre)
  case (Suc n)
  have j: "Suc j < length zs" "j < length zs" using Suc.prems Suc.hyps(2) by simp_all
  have d: "distinct zs" using assms(1) by (simp add: cycle_def)
  have "next_of s (zs ! j) = Some (zs ! Suc j)" using assms(1) j by (simp add: cycle_def)
  then obtain p where p: "proc_at (zs ! j) s = Some p" "p_next p = Some (zs ! Suc j)"
    by (auto simp: next_of_def split: option.splits)
  have np: "p_pid p \<noteq> pid" using Suc.prems(3) [of j] Suc.hyps(2) p by (auto simp: pid_of_def)
  obtain ap where ap: "proc_at (hd zs) s = Some ap"
    using proc_at_table [of s "hd zs"] assms(1,2) by (auto simp: cycle_def)
  have ne: "zs ! Suc j \<noteq> hd zs" using j d assms(2) by (simp add: hd_conv_nth nth_eq_iff_index_eq)
  have "terminate_loop pid rv (Some (zs ! j)) (Some pre) s = terminate_loop pid rv (Some (zs ! Suc j)) (Some (zs ! j)) s"
    using p np ap ne assms(3) by (subst terminate_loop.simps) simp
  also have "\<dots> = terminate_loop pid rv (Some (zs ! k)) (Some (if Suc j = k then zs ! j else zs ! (k - 1))) s"
    using Suc.hyps(1) [of "Suc j"] Suc.hyps(2) Suc.prems by simp
  also have "(if Suc j = k then zs ! j else zs ! (k - 1)) = zs ! (k - 1)" by auto
  finally show ?case using Suc.hyps(2) by (cases "j = k") simp_all
qed simp

lemma terminate_unknown:
  assumes "settled s zs" and "\<And>q. q \<in> set zs \<Longrightarrow> pid_of s q \<noteq> Some pid"
  shows "sched_terminate_process pid rv s = Some (- 1, s)"
proof (cases zs)
  case Nil
  then show ?thesis using assms(1) by (simp add: sched_terminate_process_def settled_def)
next
  case (Cons z zs')
  have c: "cycle s zs" "zs \<noteq> []" "active s = Some (hd zs)" using assms(1) Cons by (auto simp: settled_def)
  have fl: "find_last (Some z) s = Some (Some (last zs))" using find_last_cycle [OF c, of 0] Cons by simp
  obtain ap where ap: "proc_at (hd zs) s = Some ap"
    using proc_at_table [of s "hd zs"] c by (auto simp: cycle_def)
  have lst: "terminate_loop pid rv (Some (last zs)) pre s = Some (- 1, s)" for pre
  proof -
    have "next_of s (zs ! (length zs - 1)) = Some (zs ! (Suc (length zs - 1) mod length zs))"
      using c(1,2) by (simp add: cycle_def)
    then have "next_of s (last zs) = Some (hd zs)" using c(2) by (simp add: last_conv_nth hd_conv_nth)
    then obtain p where p: "proc_at (last zs) s = Some p" "p_next p = Some (hd zs)"
      by (auto simp: next_of_def split: option.splits)
    have "p_pid p \<noteq> pid" using assms(2) [of "last zs"] p c(2) by (auto simp: pid_of_def)
    then show ?thesis using p ap c(3) by (subst terminate_loop.simps) simp
  qed
  have "terminate_loop pid rv (Some z) (Some (last zs)) s = Some (- 1, s)"
  proof (cases "zs' = []")
    case True
    then show ?thesis using lst [of "Some (last zs)"] Cons by simp
  next
    case False
    then have "2 \<le> length zs" using Cons by (cases zs') auto
    then obtain pre where "terminate_loop pid rv (Some (zs ! 0)) (Some (last zs)) s =
        terminate_loop pid rv (Some (zs ! (length zs - 1))) pre s"
      using terminate_walk [OF c, of 0 "length zs - 1" pid rv "last zs"] assms(2) c(2) by auto
    moreover have "zs ! (length zs - 1) = last zs" using c(2) by (simp add: last_conv_nth)
    moreover have "zs ! 0 = z" by (simp add: Cons)
    ultimately show ?thesis using lst by metis
  qed
  then show ?thesis using fl Cons c(3) by (simp add: sched_terminate_process_def)
qed

lemma proc_set_twice:
  assumes "in_table s p" and "in_table s q"
  shows "\<exists>ps. proc_set p f s = Some (s\<lparr>processes := ps\<rparr>) \<and> length ps = length (processes s)
    \<and> (\<exists>qs. proc_set q g (s\<lparr>processes := ps\<rparr>) = Some (s\<lparr>processes := qs\<rparr>) \<and> length qs = length (processes s)
        \<and> (\<forall>r. proc_at r (s\<lparr>processes := qs\<rparr>) =
            map_option (\<lambda>x. if r = q then g (if r = p then f x else x) else if r = p then f x else x) (proc_at r s)))"
proof -
  obtain ps where ps: "proc_set p f s = Some (s\<lparr>processes := ps\<rparr>)" "length ps = length (processes s)"
    "\<forall>r. proc_at r (s\<lparr>processes := ps\<rparr>) = (if r = p then map_option f (proc_at p s) else proc_at r s)"
    using proc_set_table [OF assms(1)] by blast
  have "in_table (s\<lparr>processes := ps\<rparr>) q" using assms(2) ps(2) by (simp add: in_table_def)
  from proc_set_table [OF this, of g] obtain qs where qs:
    "proc_set q g (s\<lparr>processes := ps\<rparr>) = Some (s\<lparr>processes := qs\<rparr>)" "length qs = length (processes s)"
    "\<forall>r. proc_at r (s\<lparr>processes := qs\<rparr>) =
      (if r = q then map_option g (proc_at q (s\<lparr>processes := ps\<rparr>)) else proc_at r (s\<lparr>processes := ps\<rparr>))"
    using ps(2) by auto
  have "proc_at r (s\<lparr>processes := qs\<rparr>) =
      map_option (\<lambda>x. if r = q then g (if r = p then f x else x) else if r = p then f x else x) (proc_at r s)" for r
    using ps(3) qs(3) by (cases "proc_at r s") auto
  then show ?thesis using ps qs by blast
qed

text \<open>Only \<open>next\<close> pointers and exit codes change.\<close>

definition same_procs :: "'a sched_state_scheme \<Rightarrow> 'a sched_state_scheme \<Rightarrow> bool" where
  "same_procs s t \<longleftrightarrow> length (processes t) = length (processes s)
     \<and> (\<forall>r. map_option (\<lambda>p. p\<lparr>p_next := None, p_code := 0\<rparr>) (proc_at r t) =
            map_option (\<lambda>p. p\<lparr>p_next := None, p_code := 0\<rparr>) (proc_at r s))
     \<and> t = s\<lparr>processes := processes t, active := active t\<rparr>"

lemma terminate_only:
  assumes st: "settled s [z]" and pid: "pid_of s z = Some pid"
  shows "\<exists>t. sched_terminate_process pid rv s = Some (0, t) \<and> settled t [] \<and> same_procs s t"
proof -
  have c: "cycle s [z]" "active s = Some z" using st by (auto simp: settled_def)
  have inz: "in_table s z" using c(1) by (simp add: cycle_def)
  have nz: "next_of s z = Some z" using cycle_next [OF c(1)] by simp
  then obtain p where p: "proc_at z s = Some p" "p_next p = Some z" by (auto simp: next_of_def split: option.splits)
  have pp: "p_pid p = pid" using pid p by (simp add: pid_of_def)
  obtain ps where ps: "proc_set z (\<lambda>p. p\<lparr>p_code := rv\<rparr>) s = Some (s\<lparr>processes := ps\<rparr>)"
    "length ps = length (processes s)"
    "\<forall>r. proc_at r (s\<lparr>processes := ps\<rparr>) = (if r = z then map_option (\<lambda>p. p\<lparr>p_code := rv\<rparr>) (proc_at z s) else proc_at r s)"
    using proc_set_table [OF inz] by blast
  let ?t = "s\<lparr>processes := ps, active := None\<rparr>"
  have fl: "find_last (Some z) s = Some (Some z)" using find_last_cycle [OF c(1), of 0] c(2) by simp
  have "terminate_loop pid rv (Some z) (Some z) s = Some (0, ?t)"
    using p pp c(2) ps(1) by (subst terminate_loop.simps) (simp add: sched_terminate_defunct_def)
  then have "sched_terminate_process pid rv s = Some (0, ?t)" using fl c(2) by (simp add: sched_terminate_process_def)
  moreover have "settled ?t []" by (simp add: settled_def cycle_def)
  moreover have "proc_at r ?t = proc_at r (s\<lparr>processes := ps\<rparr>)" for r by (simp add: proc_at_def split: process_ptr.split)
  then have "same_procs s ?t" using ps(2,3) p by (auto simp: same_procs_def)
  ultimately show ?thesis by blast
qed

lemma terminate_one:
  assumes st: "settled s (xs @ q # ys)" and ne: "ys @ xs \<noteq> []" and pid: "pid_of s q = Some pid"
    and first: "\<And>r. r \<in> set xs \<Longrightarrow> pid_of s r \<noteq> Some pid"
  shows "\<exists>t. sched_terminate_process pid rv s = Some (0, t) \<and> cycle t (xs @ ys) \<and> active t = active s
    \<and> same_procs s t \<and> next_of t q = next_of s q"
proof -
  let ?zs = "xs @ q # ys"
  let ?k = "length xs"
  have c: "cycle s ?zs" "?zs \<noteq> []" "active s = Some (hd ?zs)" using st by (auto simp: settled_def split: list.splits)
  have two: "2 \<le> length ?zs" using ne by (cases xs; cases ys) auto
  have tab: "r \<in> set ?zs \<Longrightarrow> in_table s r" for r using c(1) unfolding cycle_def by blast
  let ?pre = "last (ys @ xs)"
  let ?nxt = "hd (ys @ xs)"
  have pre: "(if 0 = ?k then last ?zs else ?zs ! (?k - 1)) = ?pre"
    using ne by (cases xs rule: rev_cases) (auto simp: nth_append last_conv_nth)
  have prein: "?pre \<in> set ?zs" using ne by (cases "xs = []") auto
  have dq: "q \<notin> set xs" "q \<notin> set ys" "distinct ?zs" using c(1) by (auto simp: cycle_def)
  have cr: "cycle s (q # (ys @ xs))" using cycle_rotate [OF c(1)] by simp
  have nq: "next_of s q = Some ?nxt" using cycle_next [OF cr] ne by (cases "ys @ xs") auto
  then obtain p where p: "proc_at q s = Some p" "p_next p = Some ?nxt" by (auto simp: next_of_def split: option.splits)
  have pp: "p_pid p = pid" using pid p by (simp add: pid_of_def)
  obtain ap where ap: "proc_at (hd ?zs) s = Some ap" using proc_at_table [OF tab] c(2) by (metis hd_in_set)
  have "next_of s (hd ?zs) \<noteq> Some (hd ?zs)"
  proof -
    have "next_of s (?zs ! 0) = Some (?zs ! (Suc 0 mod length ?zs))" using c(1) two unfolding cycle_def by (metis less_le_trans zero_less_numeral)
    moreover have "?zs ! (Suc 0 mod length ?zs) \<noteq> ?zs ! 0" using dq(3) two by (subst nth_eq_iff_index_eq) auto
    ultimately show ?thesis using c(2) by (simp add: hd_conv_nth)
  qed
  then have nap: "p_next ap \<noteq> Some (hd ?zs)" using ap by (simp add: next_of_def)
  obtain ps qs where u: "proc_set ?pre (\<lambda>r. r\<lparr>p_next := p_next p\<rparr>) s = Some (s\<lparr>processes := ps\<rparr>)"
      "proc_set q (\<lambda>p. p\<lparr>p_code := rv\<rparr>) (s\<lparr>processes := ps\<rparr>) = Some (s\<lparr>processes := qs\<rparr>)"
      "length qs = length (processes s)"
      "\<forall>r. proc_at r (s\<lparr>processes := qs\<rparr>) =
          map_option (\<lambda>x. if r = q then (if r = ?pre then x\<lparr>p_next := p_next p\<rparr> else x)\<lparr>p_code := rv\<rparr>
            else if r = ?pre then x\<lparr>p_next := p_next p\<rparr> else x) (proc_at r s)"
    using proc_set_twice [OF tab [OF prein] tab, of q "\<lambda>r. r\<lparr>p_next := p_next p\<rparr>" "\<lambda>p. p\<lparr>p_code := rv\<rparr>"] by auto
  let ?t = "s\<lparr>processes := qs\<rparr>"
  have qpre: "q \<noteq> ?pre" using dq ne by (metis Un_iff last_in_set set_append)
  have "find_last (Some (?zs ! 0)) s = Some (Some (last ?zs))" using find_last_cycle [OF c, of 0] by simp
  then have fl: "find_last (Some (hd ?zs)) s = Some (Some (last ?zs))" using c(2) by (simp add: hd_conv_nth)
  have "terminate_loop pid rv (Some (?zs ! 0)) (Some (last ?zs)) s = terminate_loop pid rv (Some (?zs ! ?k)) (Some ?pre) s"
    using terminate_walk [OF c two, of 0 ?k pid rv "last ?zs"] first unfolding pre by (simp add: nth_append)
  also have "\<dots> = Some (0, ?t)"
    using p pp c(3) ap nap u(1,2) by (subst terminate_loop.simps) (simp add: sched_terminate_defunct_def)
  finally have "terminate_loop pid rv (Some (hd ?zs)) (Some (last ?zs)) s = Some (0, ?t)" using c(2) by (simp add: hd_conv_nth)
  then have "sched_terminate_process pid rv s = Some (0, ?t)" using fl c(3) by (simp add: sched_terminate_process_def)
  moreover have nx: "next_of ?t r = (if r = ?pre then Some ?nxt else next_of s r)" if "r \<in> set ?zs" for r
    using u(4) p(2) proc_at_table [OF tab [OF that]] qpre by (auto simp: next_of_def)
  then have "cycle ?t (xs @ ys)" by (intro cycle_remove [OF c(1) ne]) (auto simp: u(3))
  moreover have "next_of ?t q = next_of s q" using nx [of q] qpre by simp
  moreover have "same_procs s ?t"
    using u(3,4) by (auto simp: same_procs_def option.map_comp comp_def intro!: option.map_cong)
  ultimately show ?thesis by (intro exI [of _ ?t]) simp
qed

end
