(* ===== verification/Spawn.thy ===== *)
theory Spawn
  imports Sched_Ring
begin

section \<open>Creating a process\<close>

text \<open>
  What page allocation leaves of the state, and the creation of a process on the ring: the new
  process is linked in before the running one.
\<close>

text \<open>What allocating pages leaves alone: every field but the memory and the height of the free stack.\<close>

definition fixed_part :: "'a pmm_state_scheme \<Rightarrow> 'a pmm_state_scheme" where
  "fixed_part s = s\<lparr>mem := (\<lambda>_. 0), free_blocks := 0\<rparr>"

named_theorems fixed_parts

lemma fixed_part_upd [fixed_parts]:
  "fixed_part (s\<lparr>mem := m\<rparr>) = fixed_part s" "fixed_part (s\<lparr>free_blocks := n\<rparr>) = fixed_part s"
  by (simp_all add: fixed_part_def)

lemma fixed_gmem [fixed_parts]: "gmem s = (a, t) \<Longrightarrow> fixed_part t = fixed_part s"
  using gmem_rest [of s a t] by (metis fixed_part_upd)

lemma fixed_map_loop [fixed_parts]: "map_page_loop k v a t e s = (r, s') \<Longrightarrow> fixed_part s' = fixed_part s"
proof (induction k arbitrary: t e s)
  case (Suc k)
  show ?case using Suc.prems
    by (auto simp: Let_def fixed_parts dest!: Suc.IH dest: fixed_gmem split: option.splits if_splits prod.splits)
qed simp

lemma fixed_map_page [fixed_parts]: "map_page p v a s = (r, s') \<Longrightarrow> fixed_part s' = fixed_part s"
  by (auto simp: map_page_def Let_def fixed_parts split: prod.splits option.splits dest!: fixed_map_loop)

lemma fixed_alloc_page [fixed_parts]: "alloc_page v a s = (r, s') \<Longrightarrow> fixed_part s' = fixed_part s"
  by (auto simp: alloc_page_def split: prod.splits if_splits dest!: fixed_map_page fixed_gmem)

lemma fixed_mappable: "mappable_from c m a l s = Some y \<Longrightarrow> fixed_part (snd (snd y)) = fixed_part s"
proof (rule mappable_from.raw_induct [where P = "\<lambda>c m a l s y. fixed_part (snd (snd y)) = fixed_part s"], goal_cases)
  case (1 f c m a l s y)
  show ?case using 1(3)
    by (auto split: if_splits prod.splits Option.bind_splits dest!: 1(2) dest: fixed_alloc_page)
qed auto

lemma fixed_complete_loop [fixed_parts]: "fixed_part (complete_loop n b s) = fixed_part s"
  by (induction n arbitrary: b s) (simp_all add: pt_complete_def Let_def fixed_parts)

lemma fixed_update_bitmap [fixed_parts]: "update_bitmap f t i s = Some s' \<Longrightarrow> fixed_part s' = fixed_part s"
  by (auto simp: update_bitmap_def Let_def fixed_parts pt_incomplete_def split: Option.bind_splits)

lemma fixed_search: "search_pt n c i k a s = Some y \<Longrightarrow> fixed_part (snd y) = fixed_part s"
proof (rule search_pt.raw_induct [where P = "\<lambda>n c i k a s y. fixed_part (snd y) = fixed_part s"], goal_cases)
  case (1 f n c i k a s y)
  show ?case using 1(3)
    by (auto simp: Let_def split: if_splits prod.splits Option.bind_splits
      dest!: 1(2) fixed_mappable fixed_update_bitmap)
qed auto

lemma fixed_alloc_pages: "alloc_pages n c k a s = Some y \<Longrightarrow> fixed_part (snd y) = fixed_part s"
proof (rule alloc_pages.raw_induct [where P = "\<lambda>n c k a s y. fixed_part (snd y) = fixed_part s"], goal_cases)
  case (1 f n c k a s y)
  show ?case using 1(3)
    by (auto simp: Let_def split: if_splits prod.splits Option.bind_splits search.splits
      dest!: 1(2) dest: fixed_search)
qed auto

lemma fixed_sched_alloc [fixed_parts]:
  "sched_alloc_pages b n s = Some (r, s') \<Longrightarrow> fixed_part s' = fixed_part s"
  by (auto simp: sched_alloc_pages_def vmm_alloc_pages_def vmm_alloc_pages_from_def fixed_parts Let_def
    split: if_splits prod.splits Option.bind_splits dest!: fixed_alloc_pages)

lemma fixed_fields:
  assumes "fixed_part t = fixed_part (s :: 'a sched_state_scheme)"
  shows "processes t = processes s" "active t = active s" "max_pid t = max_pid s" "proc_idx t = proc_idx s"
    "idle_process t = idle_process s"
  using arg_cong [OF assms, of processes] arg_cong [OF assms, of active] arg_cong [OF assms, of max_pid]
    arg_cong [OF assms, of proc_idx] arg_cong [OF assms, of idle_process]
  by (simp_all add: fixed_part_def)

text \<open>A step that writes process \<open>q\<close> only.\<close>

definition touches :: "process_ptr \<Rightarrow> 'a sched_state_scheme \<Rightarrow> 'a sched_state_scheme \<Rightarrow> bool" where
  "touches q s t \<longleftrightarrow> length (processes t) = length (processes s) \<and> active t = active s \<and> max_pid t = max_pid s
     \<and> proc_idx t = proc_idx s \<and> (\<forall>r. r \<noteq> q \<longrightarrow> proc_at r t = proc_at r s)"

lemma touches_trans: "touches q s t \<Longrightarrow> touches q t u \<Longrightarrow> touches q s u"
  by (auto simp: touches_def)

lemma touches_fixed: "fixed_part t = fixed_part s \<Longrightarrow> touches q s t \<and> proc_at q t = proc_at q s"
  using fixed_fields [of t s] by (auto simp: touches_def proc_at_def split: process_ptr.split)

lemma touches_set:
  assumes "in_table s q"
  shows "\<exists>t. proc_set q f s = Some t \<and> touches q s t \<and> proc_at q t = map_option f (proc_at q s)"
  using proc_set_table [OF assms, of f] by (auto simp: touches_def)

lemma touches_table: "touches q s t \<Longrightarrow> in_table t r = in_table s r"
  by (simp add: touches_def in_table_def)

lemma touches_set':
  assumes "touches q s t" and "in_table s q" and "proc_at q t = Some p"
  shows "\<exists>u. proc_set q f t = Some u \<and> touches q s u \<and> proc_at q u = Some (f p)"
  using touches_set [of t q f] touches_table [OF assms(1)] assms touches_trans by fastforce

lemma init_process_touches:
  assumes "in_table s q" and "proc_at q s = Some p"
  shows "\<exists>t p'. sched_init_process ks rdx q symb st kst n s = Some t \<and> touches q s t \<and> proc_at q t = Some p'
    \<and> p_next p' = p_next p \<and> p_pid p' = p_pid p \<and> p_name p' = p_name p"
proof -
  have t0: "touches q s s" by (simp add: touches_def)
  obtain s1 where 1: "proc_set q (\<lambda>p. p\<lparr>p_symbol := symb\<rparr>) s = Some s1" "touches q s s1"
    "proc_at q s1 = Some (p\<lparr>p_symbol := symb\<rparr>)" using touches_set' [OF t0 assms] by blast
  obtain s2 where 2: "proc_set q (\<lambda>p. p\<lparr>p_stack_base := st\<rparr>) s1 = Some s2" "touches q s s2"
    "proc_at q s2 = Some (p\<lparr>p_symbol := symb, p_stack_base := st\<rparr>)" using touches_set' [OF 1(2) assms(1) 1(3)] by blast
  obtain sp s3 where 3: "sched_init_stack ks rdx (get_stack_base st n) symb s2 = (sp, s3)" by fastforce
  have "fixed_part s3 = fixed_part s2" using 3 by (auto simp: sched_init_stack_def fixed_parts split: prod.splits)
  from touches_fixed [OF this] 2(2,3) have 4: "touches q s s3" "proc_at q s3 = Some (p\<lparr>p_symbol := symb, p_stack_base := st\<rparr>)"
    by (auto intro: touches_trans)
  obtain s4 where 5: "proc_set q (\<lambda>p. p\<lparr>p_stack := sp\<rparr>) s3 = Some s4" "touches q s s4"
    "proc_at q s4 = Some (p\<lparr>p_symbol := symb, p_stack_base := st, p_stack := sp\<rparr>)"
    using touches_set' [OF 4(1) assms(1) 4(2)] by blast
  obtain s5 where 6: "proc_set q (\<lambda>p. p\<lparr>p_kernel_stack := get_stack_base kst 1\<rparr>) s4 = Some s5" "touches q s s5"
    "proc_at q s5 = Some (p\<lparr>p_symbol := symb, p_stack_base := st, p_stack := sp, p_kernel_stack := get_stack_base kst 1\<rparr>)"
    using touches_set' [OF 5(2) assms(1) 5(3)] by blast
  obtain s6 where 7: "proc_set q (\<lambda>p. p\<lparr>p_page_count := scast n\<rparr>) s5 = Some s6" "touches q s s6"
    "proc_at q s6 = Some (p\<lparr>p_symbol := symb, p_stack_base := st, p_stack := sp, p_kernel_stack := get_stack_base kst 1,
       p_page_count := scast n\<rparr>)"
    using touches_set' [OF 6(2) assms(1) 6(3)] by blast
  show ?thesis by (simp add: sched_init_process_def 1(1) 2(1) 3 5(1) 6(1) 7)
qed

lemma load_module_touches:
  assumes "in_table s q" and "proc_at q s = Some p" and "sched_load_module ks rdx q symb s = Some t"
  shows "\<exists>p'. touches q s t \<and> proc_at q t = Some p' \<and> p_next p' = p_next p \<and> p_pid p' = p_pid p \<and> p_name p' = p_name p"
proof -
  obtain st s1 kst s2 where a: "sched_alloc_pages 0 16 s = Some (st, s1)" "sched_alloc_pages 0 1 s1 = Some (kst, s2)"
      "sched_init_process ks rdx q symb st kst 16 s2 = Some t"
    using assms(3) by (auto simp: sched_load_module_def split: Option.bind_splits)
  have "fixed_part s2 = fixed_part s" using a fixed_sched_alloc by metis
  from touches_fixed [OF this] have t: "touches q s s2" "proc_at q s2 = Some p" using assms(2) by auto
  from init_process_touches [of s2 q p ks rdx symb st kst 16] t assms(1)
  obtain p' where "touches q s2 t" "proc_at q t = Some p'"
    "p_next p' = p_next p" "p_pid p' = p_pid p" "p_name p' = p_name p" using touches_table [OF t(1)] a(3) by auto
  then show ?thesis using touches_trans [OF t(1)] by blast
qed

lemma touches_next: "touches q s t \<Longrightarrow> r \<noteq> q \<Longrightarrow> next_of t r = next_of s r"
  by (simp add: touches_def next_of_def)

lemma touches_cycle: "touches q s t \<Longrightarrow> q \<notin> set zs \<Longrightarrow> cycle s zs \<Longrightarrow> cycle t zs"
  by (rule cycle_cong, assumption) (metis touches_next, simp add: touches_def)

text \<open>Up to the link into the ring.\<close>

lemma spawn_links:
  assumes "sched_spawn_module ks rdx entry symb s = Some (pid, t)"
    and "in_table s q" and "q = Process (proc_idx s)"
  shows "\<exists>s1 p. touches q (s\<lparr>proc_idx := proc_idx s + 1, max_pid := max_pid s + 1\<rparr>) s1 \<and> proc_at q s1 = Some p
    \<and> p_pid p = max_pid s + 1 \<and> p_name p = mod_name entry
    \<and> (let s2 = (if active s1 = None then s1\<lparr>active := Some q\<rparr> else s1)
       in do {
            s \<leftarrow> proc_set q (\<lambda>p. p\<lparr>p_next := active s2\<rparr>) s2;
            lst \<leftarrow> find_last (active s) s;
            lst \<leftarrow> lst;
            s \<leftarrow> proc_set lst (\<lambda>p. p\<lparr>p_next := Some q\<rparr>) s;
            p \<leftarrow> proc_at q s;
            Some (p_pid p, s)
          } = Some (pid, t))"
proof -
  let ?s0 = "s\<lparr>proc_idx := proc_idx s + 1, max_pid := max_pid s + 1\<rparr>"
  have in0: "in_table ?s0 q" and t0: "touches q ?s0 ?s0" using assms(2) by (simp_all add: in_table_def touches_def)
  obtain p where p: "proc_at q ?s0 = Some p" using proc_at_table [OF in0] by blast
  obtain s1 where 1: "proc_set q (\<lambda>p. p\<lparr>p_pid := max_pid s + 1\<rparr>) ?s0 = Some s1" "touches q ?s0 s1"
    "proc_at q s1 = Some (p\<lparr>p_pid := max_pid s + 1\<rparr>)" using touches_set' [OF t0 in0 p] by blast
  obtain s2 where 2: "proc_set q (\<lambda>p. p\<lparr>p_name := mod_name entry\<rparr>) s1 = Some s2" "touches q ?s0 s2"
    "proc_at q s2 = Some (p\<lparr>p_pid := max_pid s + 1, p_name := mod_name entry\<rparr>)"
    using touches_set' [OF 1(2) in0 1(3)] by blast
  have in2: "in_table s2 q" using in0 touches_table [OF 2(2)] by blast
  obtain s3 where s3: "sched_load_module ks rdx q symb s2 = Some s3"
    using assms(1) 1(1) 2(1) unfolding assms(3)
    by (auto simp: sched_spawn_module_def sched_alloc_process_def split: Option.bind_splits)
  obtain p' where 3: "touches q s2 s3" "proc_at q s3 = Some p'" "p_pid p' = max_pid s + 1" "p_name p' = mod_name entry"
    using load_module_touches [OF in2 2(3) s3] by auto
  note t3 = touches_trans [OF 2(2) 3(1)]
  obtain s4 where 4: "proc_set q (\<lambda>p. p\<lparr>p_symbol := zygote_addr ks\<rparr>) s3 = Some s4" "touches q ?s0 s4"
    "proc_at q s4 = Some (p'\<lparr>p_symbol := zygote_addr ks\<rparr>)" using touches_set' [OF t3 in0 3(2)] by blast
  show ?thesis
    using assms(1) 1(1) 2(1) s3 4 3(3,4) unfolding assms(3)
    by (intro exI [of _ s4] exI [of _ "p'\<lparr>p_symbol := zygote_addr ks\<rparr>"])
      (simp add: sched_spawn_module_def sched_alloc_process_def Let_def cong: if_cong)
qed

lemma spawn_settled:
  assumes sp: "sched_spawn_module ks rdx entry symb s = Some (pid, t)"
    and st: "settled s zs" and q: "in_table s q" "q = Process (proc_idx s)" "q \<notin> set zs"
  shows "pid = max_pid s + 1 \<and> settled t (zs @ [q]) \<and> max_pid t = max_pid s + 1 \<and> proc_idx t = proc_idx s + 1
    \<and> length (processes t) = length (processes s) \<and> (\<forall>r. pid_of t r = (if r = q then Some pid else pid_of s r))
    \<and> (\<forall>r. r \<noteq> q \<longrightarrow> map_option p_stack (proc_at r t) = map_option p_stack (proc_at r s))
    \<and> map_option p_name (proc_at q t) = Some (mod_name entry)"
proof -
  let ?s0 = "s\<lparr>proc_idx := proc_idx s + 1, max_pid := max_pid s + 1\<rparr>"
  obtain s1 p where 1: "touches q ?s0 s1" "proc_at q s1 = Some p" "p_pid p = max_pid s + 1" "p_name p = mod_name entry"
    and link: "(let s2 = (if active s1 = None then s1\<lparr>active := Some q\<rparr> else s1)
       in do {
            s \<leftarrow> proc_set q (\<lambda>p. p\<lparr>p_next := active s2\<rparr>) s2;
            lst \<leftarrow> find_last (active s) s;
            lst \<leftarrow> lst;
            s \<leftarrow> proc_set lst (\<lambda>p. p\<lparr>p_next := Some q\<rparr>) s;
            p \<leftarrow> proc_at q s;
            Some (p_pid p, s)
          } = Some (pid, t))"
    using spawn_links [OF sp q(1,2)] by blast
  define zs1 where "zs1 = (if zs = [] then [q] else zs)"
  define s2 where "s2 = (if active s1 = None then s1\<lparr>active := Some q\<rparr> else s1)"
  have st0: "cycle ?s0 zs" "active ?s0 = active s"
    using st by (auto simp: settled_def intro!: cycle_cong [of s] simp: next_of_def proc_at_def split: process_ptr.split option.split)
  have c1: "cycle s1 zs" by (rule touches_cycle [OF 1(1) q(3) st0(1)])
  have a2: "active s2 = Some (hd zs1)"
    using st 1(1) by (auto simp: s2_def zs1_def settled_def touches_def split: list.splits)
  have p2: "proc_at r s2 = proc_at r s1" for r by (simp add: s2_def proc_at_def split: process_ptr.split)
  have l2: "length (processes s2) = length (processes s)" using 1(1) by (simp add: s2_def touches_def)
  have in2: "in_table s2 q" using q(1) l2 by (simp add: in_table_def)
  obtain s3 where 3: "proc_set q (\<lambda>p. p\<lparr>p_next := active s2\<rparr>) s2 = Some s3" "touches q s2 s3"
    "proc_at q s3 = Some (p\<lparr>p_next := active s2\<rparr>)"
    using touches_set [OF in2, of "\<lambda>p. p\<lparr>p_next := active s2\<rparr>"] 1(2) p2 by auto
  have l3: "length (processes s3) = length (processes s)" using 3(2) l2 by (simp add: touches_def)
  have c3: "cycle s3 zs1"
  proof (cases "zs = []")
    case True
    then show ?thesis using 3(3) a2 q(1) l3 by (simp add: zs1_def cycle_def next_of_def in_table_def)
  next
    case False
    have "cycle s2 zs" by (rule cycle_cong [OF c1]) (simp_all add: next_of_def p2, simp add: s2_def)
    then show ?thesis using touches_cycle [OF 3(2) q(3)] False by (simp add: zs1_def)
  qed
  have a3: "active s3 = Some (hd zs1)" "zs1 \<noteq> []" using 3(2) a2 by (simp_all add: touches_def zs1_def)
  have fl: "find_last (active s3) s3 = Some (Some (last zs1))"
    using find_last_cycle [OF c3 a3(2,1), of 0] a3 by (simp add: hd_conv_nth)
  have in3: "in_table s3 (last zs1)" using c3 a3(2) by (simp add: cycle_def)
  obtain s4 where 4: "proc_set (last zs1) (\<lambda>p. p\<lparr>p_next := Some q\<rparr>) s3 = Some s4" "touches (last zs1) s3 s4"
    "proc_at (last zs1) s4 = map_option (\<lambda>p. p\<lparr>p_next := Some q\<rparr>) (proc_at (last zs1) s3)"
    using touches_set [OF in3] by blast
  have at: "proc_at r s4 = (if r = last zs1 then map_option (\<lambda>p. p\<lparr>p_next := Some q\<rparr>) (proc_at r s3) else proc_at r s3)" for r
    using 4(2,3) by (simp add: touches_def)
  have t: "t = s4" "pid = max_pid s + 1"
    using link 4(1) 3 fl at [of q] 1(3) unfolding Let_def s2_def [symmetric] by (auto split: if_splits)
  have old: "proc_at r s3 = proc_at r s" if "r \<noteq> q" for r
    using that 1(1) 3(2) p2 by (auto simp: touches_def proc_at_def split: process_ptr.split)
  have l4: "length (processes s4) = length (processes s)" using 4(2) l3 by (simp add: touches_def)
  have "settled s4 (zs @ [q])"
  proof (cases "zs = []")
    case True
    then have "zs1 = [q]" by (simp add: zs1_def)
    then show ?thesis using at [of q] 3(3) q(1) l4 a3(1) 4(2) True
      by (simp add: settled_def cycle_def next_of_def in_table_def touches_def)
  next
    case False
    then have z: "zs1 = zs" by (simp add: zs1_def)
    have "cycle s4 (zs @ [q])"
    proof (rule cycle_insert [OF c3 [unfolded z] False _ q(3)])
      show "in_table s4 q" using q(1) l4 by (simp add: in_table_def)
      show "length (processes s4) = length (processes s3)" using l3 l4 by simp
      have "q \<noteq> last zs" using q(3) False by auto
      then show "next_of s4 q = Some (hd zs)" using at [of q] 3(3) a2 by (simp add: z next_of_def)
      show "next_of s4 r = (if r = last zs then Some q else next_of s3 r)" if "r \<in> set zs" for r
        using at [of r] proc_at_table [OF in3] by (auto simp: z next_of_def)
    qed
    then show ?thesis using a3(1) 4(2) False by (cases zs) (auto simp: settled_def touches_def z)
  qed
  moreover have "max_pid s4 = max_pid s + 1 \<and> proc_idx s4 = proc_idx s + 1"
    using 4(2) 3(2) 1(1) by (simp add: touches_def s2_def)
  moreover have "pid_of s4 r = (if r = q then Some pid else pid_of s r)" for r
    using at [of r] old [of r] 3(3) 1(3) by (auto simp: pid_of_def t option.map_comp comp_def)
  moreover have "map_option p_stack (proc_at r s4) = map_option p_stack (proc_at r s)" if "r \<noteq> q" for r
    using at [of r] old [OF that] by (cases "r = last zs1") (simp_all add: option.map_comp comp_def)
  moreover have "map_option p_name (proc_at q s4) = Some (mod_name entry)" using at [of q] 3(3) 1(4) by auto
  ultimately show ?thesis using t l4 by simp
qed

end
