(* ===== verification/Scheduling.thy ===== *)
theory Scheduling
  imports Spawn
begin

section \<open>The scheduler: traps, reachable states and the properties\<close>

text \<open>
  Every interrupt and system call is bracketed by the two stack switches (\<open>sched_trap\<close>). The process
  table invariant \<open>sched_ok\<close> is kept by timer ticks, terminations and creations; the ring is an
  instance of the run queue of \<open>Interfaces\<close>.
\<close>

definition running :: "process_ptr list \<Rightarrow> process_ptr" where
  "running zs = (case zs of [] \<Rightarrow> Idle | z # _ \<Rightarrow> z)"

definition stack_of :: "'a sched_state_scheme \<Rightarrow> process_ptr \<Rightarrow> u64 option" where
  "stack_of s q = map_option p_stack (proc_at q s)"

definition same_pids :: "'a sched_state_scheme \<Rightarrow> 'a sched_state_scheme \<Rightarrow> bool" where
  "same_pids s t \<longleftrightarrow> length (processes t) = length (processes s) \<and> max_pid t = max_pid s \<and> proc_idx t = proc_idx s
     \<and> (\<forall>r. pid_of t r = pid_of s r)"

lemma same_pids_trans: "same_pids s t \<Longrightarrow> same_pids t u \<Longrightarrow> same_pids s u"
  by (simp add: same_pids_def)

text \<open>The idle process is not in the table: writing it leaves the ring.\<close>

lemma idle_write:
  assumes "settled s []"
  shows "settled (s\<lparr>idle_process := p\<rparr>) []" and "p_pid p = p_pid (idle_process s) \<Longrightarrow> same_pids s (s\<lparr>idle_process := p\<rparr>)"
    and "stack_of (s\<lparr>idle_process := p\<rparr>) r = (if r = Idle then Some (p_stack p) else stack_of s r)"
  using assms by (auto simp: settled_def cycle_def same_pids_def pid_of_def stack_of_def proc_at_def split: process_ptr.split)

lemma kernel_side:
  assumes "settled s zs"
  shows "\<exists>k t. sched_switch_to_kernel_stack st s = Some (k, t) \<and> settled t zs \<and> same_pids s t
    \<and> (\<forall>r. stack_of t r = (if r = running zs then Some st else stack_of s r))"
proof (cases zs)
  case Nil
  then have "settled s []" "active s = None" using assms by (simp_all add: settled_def)
  then show ?thesis using idle_write [OF \<open>settled s []\<close>, of "(idle_process s)\<lparr>p_stack := st\<rparr>"] Nil
    by (simp add: sched_switch_to_kernel_stack_def proc_set_def proc_at_def running_def)
next
  case (Cons z zs')
  obtain k ps where k: "sched_switch_to_kernel_stack st s = Some (k, s\<lparr>processes := ps\<rparr>)"
    "length ps = length (processes s)"
    "\<forall>r. proc_at r (s\<lparr>processes := ps\<rparr>) =
        (if r = z then map_option (\<lambda>p. p\<lparr>p_stack := st\<rparr>) (proc_at z s) else proc_at r s)"
    using to_kernel_settled [of s z zs'] assms Cons by blast
  let ?t = "s\<lparr>processes := ps\<rparr>"
  have nx: "next_of ?t r = next_of s r" for r by (rule next_of_upd [OF k(3)]) simp
  have c: "cycle s zs" and a: "active s = Some z" using assms Cons by (simp_all add: settled_def)
  then obtain p where p: "proc_at z s = Some p" using proc_at_table [of s z] Cons by (auto simp: cycle_def)
  have "cycle ?t zs" by (rule cycle_cong [OF c]) (simp_all add: nx k(2))
  then have "settled ?t zs" using a Cons by (simp add: settled_def)
  moreover have "same_pids s ?t" using k(2,3) p by (auto simp: same_pids_def pid_of_def)
  moreover have "stack_of ?t r = (if r = running zs then Some st else stack_of s r)" for r
    using k(3) p Cons by (auto simp: stack_of_def running_def)
  ultimately show ?thesis using k(1) by blast
qed

text \<open>The step to the next process, also from a process that has left the ring.\<close>

lemma user_next:
  assumes c: "cycle s zs" and ne: "zs \<noteq> []" and a: "active s = Some a" "in_table s a" "next_of s a = Some (hd zs)"
  shows "\<exists>u t. sched_switch_to_user_stack st s = Some (u, t) \<and> settled t zs \<and> same_pids s t
    \<and> (\<forall>r. stack_of t r = stack_of s r) \<and> stack_of s (hd zs) = Some u"
proof -
  have inh: "in_table s (hd zs)" using c ne by (simp add: cycle_def)
  obtain u t ps where t: "sched_switch_to_user_stack st s = Some (u, t)" "active t = Some (hd zs)"
      "map_option p_stack (proc_at (hd zs) s) = Some u" "length (processes t) = length (processes s)"
      "\<forall>r. proc_at r t = (if r = a then map_option (\<lambda>p. p\<lparr>p_kernel_stack := st\<rparr>) (proc_at a s) else proc_at r s)"
      "t = s\<lparr>processes := ps, active := Some (hd zs)\<rparr>"
    using to_user_step [OF a inh, of st] by blast
  obtain p where p: "proc_at a s = Some p" using proc_at_table [OF a(2)] by blast
  have nx: "next_of t r = next_of s r" for r by (rule next_of_upd [OF t(5)]) simp
  have "cycle t zs" by (rule cycle_cong [OF c]) (simp_all add: nx t(4))
  then have "settled t zs" using t(2) ne by (cases zs) (simp_all add: settled_def)
  moreover have "same_pids s t"
    unfolding same_pids_def
  proof (intro conjI allI)
    show "max_pid t = max_pid s" "proc_idx t = proc_idx s" by (simp_all add: t(6))
    show "length (processes t) = length (processes s)" by (rule t(4))
    show "pid_of t r = pid_of s r" for r using t(5) p by (simp add: pid_of_def)
  qed
  moreover have "stack_of t r = stack_of s r" for r using t(5) p by (simp add: stack_of_def)
  moreover have "stack_of s (hd zs) = Some u" using t(3) by (simp add: stack_of_def)
  ultimately show ?thesis using t(1) by blast
qed

lemma user_side:
  assumes "settled s zs"
  shows "\<exists>u t. sched_switch_to_user_stack st s = Some (u, t) \<and> settled t (rotate1 zs) \<and> same_pids s t
    \<and> (\<forall>r. stack_of t r = stack_of s r) \<and> stack_of s (running (rotate1 zs)) = Some u"
proof (cases zs)
  case Nil
  then have "settled s []" "active s = None" using assms by (simp_all add: settled_def)
  then show ?thesis using idle_write [OF \<open>settled s []\<close>, of "(idle_process s)\<lparr>p_kernel_stack := st\<rparr>"] Nil
    by (simp add: sched_switch_to_user_stack_def proc_set_def running_def stack_of_def proc_at_def)
next
  case (Cons z zs')
  have c: "cycle s (z # zs')" "active s = Some z" using assms Cons by (simp_all add: settled_def)
  have hd: "running (rotate1 zs) = hd (rotate1 zs)" by (cases zs') (simp_all add: running_def Cons)
  have "in_table s z" using c(1) by (simp add: cycle_def)
  from user_next [OF cycle_rotate1 [OF c(1)] _ c(2) this, of st] cycle_next [OF c(1)]
  show ?thesis unfolding hd unfolding Cons by simp
qed

text \<open>An interrupt or a system call: the switch to the kernel stack, what the kernel does, and the switch back.\<close>

definition sched_trap ::
  "('a sched_state_scheme \<Rightarrow> (u64 \<times> 'a sched_state_scheme) option) \<Rightarrow> u64 \<times> u64
   \<Rightarrow> 'a sched_state_scheme \<Rightarrow> (u64 \<times> u64 \<times> 'a sched_state_scheme) option"
where
  "sched_trap work c s = do {
     (_, s) \<leftarrow> sched_switch_to_kernel_stack (fst c) s;
     (r, s) \<leftarrow> work s;
     (u, s) \<leftarrow> sched_switch_to_user_stack (snd c) s;
     Some (r, u, s)
   }"

definition sched_ok :: "'a sched_state_scheme \<Rightarrow> process_ptr list \<Rightarrow> bool" where
  "sched_ok s zs \<longleftrightarrow> settled s zs \<and> length (processes s) = SCHED_MAX_PROC \<and> proc_idx s \<le> SCHED_MAX_PROC
     \<and> max_pid s = of_nat (proc_idx s) \<and> set zs \<subseteq> Process ` {..<proc_idx s}
     \<and> (\<forall>i<proc_idx s. pid_of s (Process i) = Some (of_nat (Suc i)))"

lemma sched_ok_step: "sched_ok s zs \<Longrightarrow> settled t ws \<Longrightarrow> set ws \<subseteq> set zs \<Longrightarrow> same_pids s t \<Longrightarrow> sched_ok t ws"
  by (auto simp: sched_ok_def same_pids_def)

lemma sched_ok_settled: "sched_ok s zs \<Longrightarrow> settled s zs"
  by (simp add: sched_ok_def)

lemma turn_ok:
  assumes "sched_ok s zs"
  shows "\<exists>u t. sched_trap (\<lambda>s. Some (0, s)) c s = Some (0, u, t) \<and> sched_ok t (rotate1 zs)
    \<and> (\<forall>r. stack_of t r = (if r = running zs then Some (fst c) else stack_of s r))
    \<and> stack_of t (running (rotate1 zs)) = Some u"
proof -
  obtain k s1 where 1: "sched_switch_to_kernel_stack (fst c) s = Some (k, s1)" "settled s1 zs" "same_pids s s1"
    "\<forall>r. stack_of s1 r = (if r = running zs then Some (fst c) else stack_of s r)"
    using kernel_side [OF sched_ok_settled [OF assms]] by blast
  obtain u t where 2: "sched_switch_to_user_stack (snd c) s1 = Some (u, t)" "settled t (rotate1 zs)" "same_pids s1 t"
    "\<forall>r. stack_of t r = stack_of s1 r" "stack_of s1 (running (rotate1 zs)) = Some u" using user_side [OF 1(2)] by blast
  have "sched_ok t (rotate1 zs)"
    by (rule sched_ok_step [OF assms 2(2) _ same_pids_trans [OF 1(3) 2(3)]]) simp
  then show ?thesis using 1 2 by (simp add: sched_trap_def)
qed

lemma same_procs_pids: "same_procs s t \<Longrightarrow> same_pids s t" and same_procs_stacks: "same_procs s t \<Longrightarrow> stack_of t r = stack_of s r"
proof -
  assume s: "same_procs s t"
  have eq: "map_option (\<lambda>p. p\<lparr>p_next := None, p_code := 0\<rparr>) (proc_at r t) = map_option (\<lambda>p. p\<lparr>p_next := None, p_code := 0\<rparr>) (proc_at r s)" for r
    using s by (simp add: same_procs_def)
  have f: "map_option f (proc_at r t) = map_option f (proc_at r s)" if "\<And>p. f (p\<lparr>p_next := None, p_code := 0\<rparr>) = f p"
    for f :: "sched_process \<Rightarrow> u64" and r
    using arg_cong [OF eq [of r], of "map_option f"] that by (simp add: option.map_comp comp_def)
  show "stack_of t r = stack_of s r" unfolding stack_of_def by (rule f) simp
  have t: "t = s\<lparr>processes := processes t, active := active t\<rparr>" using s by (simp only: same_procs_def)
  have "max_pid t = max_pid s" "proc_idx t = proc_idx s" using arg_cong [OF t, of max_pid] arg_cong [OF t, of proc_idx] by simp_all
  then show "same_pids s t" using s f by (simp add: same_pids_def same_procs_def pid_of_def)
qed

lemma sched_ok_pid:
  assumes "sched_ok s zs" and "q \<in> set zs"
  shows "\<exists>i<proc_idx s. q = Process i \<and> pid_of s q = Some (of_nat (Suc i))"
  using assms by (auto simp: sched_ok_def)

lemma sched_ok_inj:
  assumes "sched_ok s zs" and "q \<in> set zs" and "r \<in> set zs" and "pid_of s q = pid_of s r"
  shows "q = r"
proof -
  obtain i j where ij: "i < proc_idx s" "q = Process i" "pid_of s q = Some (of_nat (Suc i))"
    "j < proc_idx s" "r = Process j" "pid_of s r = Some (of_nat (Suc j))"
    using sched_ok_pid [OF assms(1,2)] sched_ok_pid [OF assms(1,3)] by blast
  moreover have "proc_idx s \<le> 20" using assms(1) by (simp add: sched_ok_def)
  ultimately have b: "Suc i < 2 ^ 64" "Suc j < 2 ^ 64" by simp_all
  have u: "unat (of_nat n :: u64) = n" if "n < 2 ^ 64" for n using that by (simp add: unat_of_nat take_bit_nat_eq_self)
  have "of_nat (Suc i) = (of_nat (Suc j) :: u64)" using ij assms(4) by (simp del: of_nat_Suc)
  then have "Suc i = Suc j" using u [OF b(1)] u [OF b(2)] by metis
  then show ?thesis using ij(2,5) by simp
qed

text \<open>A termination and the switch to the process that goes on.\<close>

lemma terminate_ok:
  assumes ok: "sched_ok s zs" and q: "q \<in> set zs" "pid_of s q = Some pid"
  defines "ws \<equiv> remove1 q (rotate1 zs)"
  shows "\<exists>s2 u t. sched_terminate_process pid rv s = Some (0, s2) \<and> same_procs s s2
    \<and> sched_switch_to_user_stack st s2 = Some (u, t) \<and> sched_ok t ws \<and> same_pids s t
    \<and> (\<forall>r. stack_of t r = stack_of s r) \<and> stack_of t (running ws) = Some u"
proof -
  have st: "settled s zs" by (rule sched_ok_settled [OF ok])
  obtain xs ys where zs: "zs = xs @ q # ys" using q(1) by (meson split_list)
  have d: "distinct zs" using st by (simp add: settled_def cycle_def)
  have "\<exists>u s2 t. sched_terminate_process pid rv s = Some (0, s2) \<and> same_procs s s2
    \<and> sched_switch_to_user_stack st s2 = Some (u, t) \<and> settled t ws \<and> same_pids s2 t
    \<and> (\<forall>r. stack_of t r = stack_of s2 r) \<and> stack_of s2 (running ws) = Some u"
  proof (cases "ys @ xs = []")
    case True
    then have "settled s [q]" "ws = []" using st by (simp_all add: zs ws_def)
    from terminate_only [OF this(1) q(2), of rv] obtain s2 where
      2: "sched_terminate_process pid rv s = Some (0, s2)" "settled s2 []" "same_procs s s2" by blast
    then show ?thesis using user_side [OF 2(2), of st] \<open>ws = []\<close> by auto
  next
    case False
    have "pid_of s r \<noteq> Some pid" if "r \<in> set xs" for r
      using sched_ok_inj [OF ok _ q(1), of r] that d q(2) by (auto simp: zs)
    from terminate_one [OF st [unfolded zs] False q(2) this] obtain s2 where
      2: "sched_terminate_process pid rv s = Some (0, s2)" "cycle s2 (xs @ ys)" "active s2 = active s" "same_procs s s2"
        "next_of s2 q = next_of s q" by metis
    show ?thesis
    proof (cases xs)
      case Nil
      have c1: "cycle s (q # ys)" and a1: "active s = Some q" using st by (simp_all add: zs Nil settled_def)
      have ws: "ws = ys" using d by (simp add: ws_def zs Nil remove1_append)
      have y: "ys \<noteq> []" using False Nil by simp
      have "in_table s2 q" using c1 2(4) by (simp add: cycle_def in_table_def same_procs_def)
      moreover have "next_of s2 q = Some (hd ys)" using 2(5) cycle_next [OF c1] y by (cases ys) auto
      moreover have "running ys = hd ys" using y by (cases ys) (simp_all add: running_def)
      ultimately show ?thesis using user_next [of s2 ys q st] 2(1-4) a1 y Nil unfolding ws by auto
    next
      case (Cons z xs')
      have ws: "ws = rotate1 (xs @ ys)" using d by (auto simp: ws_def zs Cons remove1_append)
      have "settled s2 (xs @ ys)" using 2(2,3) st by (simp add: settled_def zs Cons)
      from user_side [OF this, of st] show ?thesis using 2(1,4) unfolding ws by blast
    qed
  qed
  then obtain u s2 t where 3: "sched_terminate_process pid rv s = Some (0, s2)" "same_procs s s2"
    "sched_switch_to_user_stack st s2 = Some (u, t)" "settled t ws" "same_pids s2 t"
    "\<forall>r. stack_of t r = stack_of s2 r" "stack_of s2 (running ws) = Some u" by blast
  have sp: "same_pids s t" using same_pids_trans [OF same_procs_pids [OF 3(2)] 3(5)] .
  have "sched_ok t ws" by (rule sched_ok_step [OF ok 3(4) _ sp]) (use set_remove1_subset [of q "rotate1 zs"] in \<open>simp add: ws_def\<close>)
  moreover have "stack_of t r = stack_of s r" for r using 3(6) same_procs_stacks [OF 3(2)] by simp
  moreover have "stack_of t (running ws) = Some u" using 3(6,7) by simp
  ultimately show ?thesis using 3(1,2,3) sp by blast
qed

lemma kill_ok:
  assumes ok: "sched_ok s zs" and q: "q \<in> set zs" "pid_of s q = Some pid"
  shows "\<exists>u t. sched_trap (sched_terminate_process pid rv) c s = Some (0, u, t)
    \<and> sched_ok t (remove1 q (rotate1 zs)) \<and> same_pids s t
    \<and> (\<forall>r. stack_of t r = (if r = running zs then Some (fst c) else stack_of s r))
    \<and> stack_of t (running (remove1 q (rotate1 zs))) = Some u"
proof -
  obtain k s1 where 1: "sched_switch_to_kernel_stack (fst c) s = Some (k, s1)" "settled s1 zs" "same_pids s s1"
    "\<forall>r. stack_of s1 r = (if r = running zs then Some (fst c) else stack_of s r)"
    using kernel_side [OF sched_ok_settled [OF ok]] by blast
  have ok1: "sched_ok s1 zs" by (rule sched_ok_step [OF ok 1(2) _ 1(3)]) simp
  have "pid_of s1 q = Some pid" using 1(3) q(2) by (simp add: same_pids_def)
  from terminate_ok [OF ok1 q(1) this, of rv "snd c"] obtain s2 u t where
    3: "sched_terminate_process pid rv s1 = Some (0, s2)" "sched_switch_to_user_stack (snd c) s2 = Some (u, t)"
      "sched_ok t (remove1 q (rotate1 zs))" "same_pids s1 t" "\<forall>r. stack_of t r = stack_of s1 r"
      "stack_of t (running (remove1 q (rotate1 zs))) = Some u" by blast
  have "same_pids s t" using same_pids_trans [OF 1(3) 3(4)] .
  then show ?thesis using 1(1,4) 3 by (simp add: sched_trap_def)
qed

lemma kill_unknown_ok:
  assumes ok: "sched_ok s zs" and none: "\<And>q. q \<in> set zs \<Longrightarrow> pid_of s q \<noteq> Some pid"
  shows "\<exists>u t. sched_trap (sched_terminate_process pid rv) c s = Some (- 1, u, t) \<and> sched_ok t (rotate1 zs)"
proof -
  obtain k s1 where 1: "sched_switch_to_kernel_stack (fst c) s = Some (k, s1)" "settled s1 zs" "same_pids s s1"
    using kernel_side [OF sched_ok_settled [OF ok]] by blast
  have "sched_terminate_process pid rv s1 = Some (- 1, s1)"
    by (rule terminate_unknown [OF 1(2)]) (use none 1(3) in \<open>simp add: same_pids_def\<close>)
  moreover obtain u t where 2: "sched_switch_to_user_stack (snd c) s1 = Some (u, t)" "settled t (rotate1 zs)" "same_pids s1 t"
    using user_side [OF 1(2)] by blast
  moreover have "sched_ok t (rotate1 zs)"
    by (rule sched_ok_step [OF ok 2(2) _ same_pids_trans [OF 1(3) 2(3)]]) simp
  ultimately show ?thesis using 1(1) by (simp add: sched_trap_def)
qed

text \<open>Places in the table are given out in ascending order, and pids with them.\<close>

fun proc_rank :: "process_ptr \<Rightarrow> nat" where
  "proc_rank Idle = 0"
| "proc_rank (Process i) = Suc i"

lemma proc_rank_inj: "proc_rank q = proc_rank r \<Longrightarrow> q = r"
  by (cases q; cases r) auto

instantiation process_ptr :: linorder
begin

definition less_eq_process_ptr :: "process_ptr \<Rightarrow> process_ptr \<Rightarrow> bool" where
  "q \<le> r \<longleftrightarrow> proc_rank q \<le> proc_rank r"

definition less_process_ptr :: "process_ptr \<Rightarrow> process_ptr \<Rightarrow> bool" where
  "q < r \<longleftrightarrow> proc_rank q < proc_rank r"

instance
  by standard (auto simp: less_eq_process_ptr_def less_process_ptr_def intro: proc_rank_inj)

end

lemma sched_ok_older: "sched_ok s zs \<Longrightarrow> q \<in> set zs \<Longrightarrow> q < Process (proc_idx s)"
  by (auto simp: sched_ok_def less_process_ptr_def)

lemma spawn_ok:
  assumes ok: "sched_ok s zs" and sp: "sched_trap (sched_spawn_module ks rdx entry symb) c s = Some (pid, u, t)"
  shows "sched_ok t (rotate1 (zs @ [Process (proc_idx s)])) \<and> pid = of_nat (Suc (proc_idx s)) \<and> proc_idx s < SCHED_MAX_PROC
    \<and> pid_of t (Process (proc_idx s)) = Some pid"
proof -
  let ?q = "Process (proc_idx s)"
  obtain k s1 where 1: "sched_switch_to_kernel_stack (fst c) s = Some (k, s1)" "settled s1 zs" "same_pids s s1"
    using kernel_side [OF sched_ok_settled [OF ok]] by blast
  obtain s2 where 2: "sched_spawn_module ks rdx entry symb s1 = Some (pid, s2)"
      "sched_switch_to_user_stack (snd c) s2 = Some (u, t)"
    using sp 1(1) by (auto simp: sched_trap_def split: Option.bind_splits)
  have "proc_idx s < 20"
  proof (rule ccontr)
    assume "\<not> ?thesis"
    then have "proc_idx s1 = 20" "length (processes s1) = 20" using ok 1(3) by (simp_all add: sched_ok_def same_pids_def)
    then have "proc_set (Process (proc_idx s1)) f (s1\<lparr>proc_idx := x, max_pid := y\<rparr>) = None" for f x y
      by (simp add: proc_set_def obj_get_def)
    then show False using 2(1) by (simp add: sched_spawn_module_def sched_alloc_process_def)
  qed
  moreover have p1: "proc_idx s1 = proc_idx s" "max_pid s1 = of_nat (proc_idx s)" "length (processes s1) = 20"
    using ok 1(3) by (simp_all add: sched_ok_def same_pids_def)
  ultimately have q: "in_table s1 ?q" "?q = Process (proc_idx s1)" "?q \<notin> set zs"
    using sched_ok_older [OF ok] by (auto simp: in_table_def)
  from spawn_settled [OF 2(1) 1(2) q] have 3: "pid = of_nat (Suc (proc_idx s))" "settled s2 (zs @ [?q])"
      "max_pid s2 = of_nat (Suc (proc_idx s))" "proc_idx s2 = Suc (proc_idx s)" "length (processes s2) = 20"
      "\<And>r. pid_of s2 r = (if r = ?q then Some pid else pid_of s1 r)"
    using p1 by (auto simp: add.commute)
  have ok2: "sched_ok s2 (zs @ [?q])"
    using ok 3 \<open>proc_idx s < 20\<close> 1(3) by (auto simp: sched_ok_def same_pids_def less_Suc_eq)
  obtain u' t' where 4: "sched_switch_to_user_stack (snd c) s2 = Some (u', t')" "settled t' (rotate1 (zs @ [?q]))"
      "same_pids s2 t'" using user_side [OF 3(2)] by blast
  have "t' = t" using 4(1) 2(2) by simp
  have "sched_ok t (rotate1 (zs @ [?q]))" using sched_ok_step [OF ok2 4(2) _ 4(3)] \<open>t' = t\<close> by simp
  moreover have "pid_of t ?q = Some pid" using 4(3) 3(6) \<open>t' = t\<close> by (simp add: same_pids_def)
  ultimately show ?thesis using 3(1) \<open>proc_idx s < 20\<close> by blast
qed

text \<open>One trap after the other.\<close>

inductive sched_step :: "'a sched_state_scheme \<Rightarrow> 'a sched_state_scheme \<Rightarrow> bool" where
  tick: "sched_trap (\<lambda>s. Some (0, s)) c s = Some (r, u, t) \<Longrightarrow> sched_step s t"
| kill: "sched_trap (sched_terminate_process pid rv) c s = Some (r, u, t) \<Longrightarrow> sched_step s t"
| spawn: "sched_trap (sched_spawn_module ks rdx entry symb) c s = Some (r, u, t) \<Longrightarrow> sched_step s t"

inductive_cases sched_stepE: "sched_step s t"

lemma sched_step_ok: "sched_step s t \<Longrightarrow> sched_ok s zs \<Longrightarrow> \<exists>ws. sched_ok t ws"
proof (erule sched_stepE, goal_cases)
  case (1 c r u)
  then show ?case using turn_ok [OF 1(1), of c] by auto
next
  case (2 pid rv c r u)
  show ?case
  proof (cases "\<exists>q\<in>set zs. pid_of s q = Some pid")
    case True
    then obtain q where "q \<in> set zs" "pid_of s q = Some pid" by blast
    from kill_ok [OF 2(1) this, of rv c] show ?thesis using 2(2) by auto
  next
    case False
    then show ?thesis using kill_unknown_ok [OF 2(1), of pid rv c] 2(2) by auto
  qed
next
  case (3 ks rdx entry symb c r u)
  then show ?case using spawn_ok by blast
qed

lemma sched_reachable_ok: "sched_step\<^sup>*\<^sup>* s t \<Longrightarrow> sched_ok s zs \<Longrightarrow> \<exists>ws. sched_ok t ws"
  by (induction rule: rtranclp_induct) (use sched_step_ok in blast)+

text \<open>A timer interrupt does nothing but switch.\<close>

primrec sched_turns ::
  "(u64 \<times> u64) list \<Rightarrow> 'a sched_state_scheme \<Rightarrow> (u64 list \<times> 'a sched_state_scheme) option"
where
  "sched_turns [] s = Some ([], s)"
| "sched_turns (c # cs) s = do {
     (_, u, s) \<leftarrow> sched_trap (\<lambda>s. Some (0, s)) c s;
     (us, s) \<leftarrow> sched_turns cs s;
     Some (u # us, s)
   }"

interpretation rq: run_queue sched_ok active "\<lambda>c s. map_option (\<lambda>x. snd (snd x)) (sched_trap (\<lambda>s. Some (0, s)) c s)"
proof
  show "active s = Some z" if "sched_ok s (z # zs)" for s :: "'a sched_state_scheme" and z zs
    using that by (simp add: sched_ok_def settled_def)
  show "\<exists>t. map_option (\<lambda>x. snd (snd x)) (sched_trap (\<lambda>s. Some (0, s)) c s) = Some t \<and> sched_ok t (zs @ [z])"
    if "sched_ok s (z # zs)" for c and s :: "'a sched_state_scheme" and z zs
    using turn_ok [OF that, of c] by auto
qed

lemma turns_switches: "rq.switches cs s = map_option snd (sched_turns cs s)"
proof (induction cs arbitrary: s)
  case (Cons c cs)
  show ?case
  proof (cases "sched_trap (\<lambda>s. Some (0, s)) c s")
    case (Some x)
    obtain r u t where "x = (r, u, t)" by (cases x) auto
    then show ?thesis using Some Cons.IH [of t] by (cases "sched_turns cs t") (auto simp: rq.switches.simps)
  qed (simp add: rq.switches.simps)
qed (simp add: rq.switches.simps)

text \<open>The stacks of the processes that do not run stay.\<close>

lemma turns_stacks:
  assumes "sched_ok s (xs @ q # ys)" and "length cs = length xs"
  shows "\<exists>us t. sched_turns cs s = Some (us, t) \<and> sched_ok t (q # ys @ xs) \<and> stack_of t q = stack_of s q
    \<and> (cs \<noteq> [] \<longrightarrow> stack_of s q = Some (last us))"
  using assms
proof (induction cs arbitrary: s xs ys)
  case (Cons c cs)
  obtain x xs' where xs: "xs = x # xs'" using Cons.prems(2) by (cases xs) auto
  have d: "distinct (xs @ q # ys)" using Cons.prems(1) by (simp add: sched_ok_def settled_def cycle_def)
  obtain u t where t: "sched_trap (\<lambda>s. Some (0, s)) c s = Some (0, u, t)" "sched_ok t (rotate1 (xs @ q # ys))"
    "\<forall>r. stack_of t r = (if r = running (xs @ q # ys) then Some (fst c) else stack_of s r)"
    "stack_of t (running (rotate1 (xs @ q # ys))) = Some u"
    using turn_ok [OF Cons.prems(1), of c] by blast
  have ok: "sched_ok t (xs' @ q # ys @ [x])" using t(2) by (simp add: xs)
  have st: "stack_of t q = stack_of s q" using t(3) d by (auto simp: xs running_def)
  obtain us v where r: "sched_turns cs t = Some (us, v)" "sched_ok v (q # (ys @ [x]) @ xs')" "stack_of v q = stack_of t q"
    "cs \<noteq> [] \<longrightarrow> stack_of t q = Some (last us)"
    using Cons.IH [of t xs' "ys @ [x]"] ok Cons.prems(2) xs by auto
  have "stack_of s q = Some (last (u # us))"
  proof (cases "cs = []")
    case True
    then have "us = []" "xs' = []" using r(1) Cons.prems(2) xs by auto
    then show ?thesis using t(4) st by (simp add: xs running_def)
  next
    case False
    then obtain c' cs' where "cs = c' # cs'" by (cases cs) auto
    then have "us \<noteq> []" using r(1) by (auto split: Option.bind_splits)
    then show ?thesis using r(4) st False by simp
  qed
  then show ?case using t(1) r st xs by simp
qed simp

lemma turns_resume:
  assumes "sched_ok s (z # zs)" and "length cs = length zs"
  shows "\<exists>us t. sched_turns (c # cs) s = Some (us, t) \<and> sched_ok t (z # zs) \<and> last us = fst c"
proof -
  obtain u t where t: "sched_trap (\<lambda>s. Some (0, s)) c s = Some (0, u, t)" "sched_ok t (zs @ [z])"
    "\<forall>r. stack_of t r = (if r = z then Some (fst c) else stack_of s r)" "stack_of t (running (zs @ [z])) = Some u"
    using turn_ok [OF assms(1), of c] by (auto simp: running_def)
  obtain us v where r: "sched_turns cs t = Some (us, v)" "sched_ok v (z # zs)"
    "cs \<noteq> [] \<longrightarrow> stack_of t z = Some (last us)"
    using turns_stacks [OF t(2), of cs] assms(2) by auto
  have "last (u # us) = fst c"
  proof (cases cs)
    case Nil
    then show ?thesis using r(1) t(3,4) assms(2) by (simp add: running_def)
  next
    case (Cons c' cs')
    then have "us \<noteq> []" using r(1) by (auto split: Option.bind_splits)
    then show ?thesis using r(3) t(3) Cons by simp
  qed
  then show ?thesis using t(1) r by simp
qed

subsection \<open>Two small machines\<close>

definition demo_proc :: "u64 \<Rightarrow> process_ptr option \<Rightarrow> u64 \<Rightarrow> sched_process" where
  "demo_proc pid nxt stack =
     \<lparr>p_pid = pid, p_name = replicate 128 0, p_symbol = 0, p_stack = stack, p_stack_base = 0, p_page_count = 0,
      p_pagetable = 0, p_cr3 = 0, p_kernel_stack = 0, p_code = 0, p_sleeping = IO, p_reason = 0,
      p_parent = None, p_children = None, p_next = nxt\<rparr>"

text \<open>The machine before the first process, and one with three processes of which the first runs.\<close>

definition sched_fresh :: sched_state where
  "sched_fresh = vmm_state.extend vmm_demo
     (sched_state.fields (demo_proc 0 (Some Idle) 0x50000F78) None 0 0 (replicate 20 (demo_proc 0 None 0)) 0)"

definition sched_demo :: sched_state where
  "sched_demo = vmm_state.extend vmm_demo
     (sched_state.fields (demo_proc 0 (Some Idle) 0x50000F78) (Some (Process 0)) 3 0
       ([demo_proc 1 (Some (Process 2)) 0x100, demo_proc 2 (Some (Process 0)) 0x200, demo_proc 3 (Some (Process 1)) 0x300]
          @ replicate 17 (demo_proc 0 None 0)) 3)"

lemma fresh_ok: "sched_ok sched_fresh []"
  by (simp add: sched_ok_def settled_def cycle_def sched_fresh_def vmm_state.defs sched_state.defs)

lemma sched_demo_fields [simp]:
  "active sched_demo = Some (Process 0)" "max_pid sched_demo = 3" "proc_idx sched_demo = 3" "length (processes sched_demo) = 20"
  by (simp_all add: sched_demo_def vmm_state.defs sched_state.defs)

lemma sched_demo_at [simp]:
  "proc_at (Process 0) sched_demo = Some (demo_proc 1 (Some (Process 2)) 0x100)"
  "proc_at (Process (Suc 0)) sched_demo = Some (demo_proc 2 (Some (Process 0)) 0x200)"
  "proc_at (Process 2) sched_demo = Some (demo_proc 3 (Some (Process 1)) 0x300)"
  by (simp_all add: proc_at_def obj_get_def sched_demo_def vmm_state.defs sched_state.defs)

lemma demo_proc_fields [simp]: "p_pid (demo_proc a b c) = a" "p_next (demo_proc a b c) = b" "p_stack (demo_proc a b c) = c"
  by (simp_all add: demo_proc_def)

lemma sched_demo_pid: "pid_of sched_demo (Process 0) = Some 1" "pid_of sched_demo (Process (Suc 0)) = Some 2"
    "pid_of sched_demo (Process 2) = Some 3"
  by (simp_all add: pid_of_def)

lemma sched_demo_ok: "sched_ok sched_demo [Process 0, Process 2, Process 1]"
proof -
  have "cycle sched_demo [Process 0, Process 2, Process 1]"
    by (simp add: cycle_def in_table_def next_of_def All_less_Suc)
  moreover have "\<forall>i<3. pid_of sched_demo (Process i) = Some (of_nat (Suc i))"
    using sched_demo_pid by (simp add: numeral_3_eq_3 All_less_Suc numeral_2_eq_2)
  ultimately show ?thesis by (auto simp: sched_ok_def settled_def)
qed

subsection \<open>Properties\<close>

text \<open>C3: From a machine without processes, any sequence of timer interrupts, creations and terminations
  keeps the process table: the running process and the others form one ring, each with its own pid.\<close>

theorem sched_reachable:
  assumes "sched_step\<^sup>*\<^sup>* s t" and "sched_ok s zs"
  shows "\<exists>ws. sched_ok t ws"
  by (rule sched_reachable_ok [OF assms])

theorem sched_reachable_witness:
  "\<exists>ws. sched_ok (snd (snd (the (sched_trap (sched_terminate_process 2 0) (0x111, 0x222) sched_demo)))) ws"
proof (rule sched_reachable [OF r_into_rtranclp sched_demo_ok])
  obtain u t where "sched_trap (sched_terminate_process 2 0) (0x111, 0x222) sched_demo = Some (0, u, t)"
    using kill_ok [OF sched_demo_ok _ sched_demo_pid(2), of 0 "(0x111, 0x222)"] by auto
  then show "sched_step sched_demo (snd (snd (the (sched_trap (sched_terminate_process 2 0) (0x111, 0x222) sched_demo))))"
    by (auto intro: sched_step.kill)
qed

text \<open>C8: No interrupt and no termination request faults or hangs in a machine with a sound process table,
  whatever the pid.\<close>

theorem sched_never_faults:
  assumes "sched_ok s zs"
  shows "sched_trap (\<lambda>s. Some (0, s)) c s \<noteq> None \<and> sched_trap (sched_terminate_process pid rv) c s \<noteq> None
    \<and> sched_getpid s \<noteq> None \<and> sched_get_process s \<noteq> None"
proof -
  have "sched_trap (sched_terminate_process pid rv) c s \<noteq> None"
  proof (cases "\<exists>q\<in>set zs. pid_of s q = Some pid")
    case True
    then show ?thesis using kill_ok [OF assms] by fastforce
  next
    case False
    then show ?thesis using kill_unknown_ok [OF assms, of pid rv c] by auto
  qed
  moreover have "sched_trap (\<lambda>s. Some (0, s)) c s \<noteq> None" using turn_ok [OF assms, of c] by auto
  moreover have "sched_getpid s \<noteq> None \<and> sched_get_process s \<noteq> None"
  proof (cases zs)
    case (Cons z zs')
    then have "active s = Some z" "in_table s z" using assms by (simp_all add: sched_ok_def settled_def cycle_def)
    then show ?thesis using proc_at_table [of s z] by (auto simp: sched_getpid_def sched_get_process_def)
  qed (use assms in \<open>simp add: sched_ok_def settled_def sched_getpid_def sched_get_process_def\<close>)
  ultimately show ?thesis by blast
qed

theorem sched_never_faults_witness:
  "sched_trap (\<lambda>s. Some (0, s)) (0x111, 0x222) sched_demo \<noteq> None
    \<and> sched_trap (sched_terminate_process 9 7) (0x111, 0x222) sched_demo \<noteq> None
    \<and> sched_getpid sched_demo \<noteq> None \<and> sched_get_process sched_demo \<noteq> None"
  by (rule sched_never_faults [OF sched_demo_ok])

text \<open>C9: The scheduler is fair: after \<open>n\<close> timer interrupts the process that was \<open>n\<close> places behind in
  the ring runs.\<close>

theorem round_robin:
  assumes "sched_ok s zs" and "length cs < length zs"
  shows "\<exists>us t. sched_turns cs s = Some (us, t) \<and> active t = Some (zs ! length cs)"
  using rq.nth_turn [OF assms] by (auto simp: turns_switches)

theorem round_robin_witness:
  "\<exists>us t. sched_turns [(0x111, 0x222), (0x333, 0x444)] sched_demo = Some (us, t)
     \<and> active t = Some ([Process 0, Process 2, Process 1] ! length [(0x111 :: u64, 0x222 :: u64), (0x333, 0x444)])"
  by (rule round_robin [OF sched_demo_ok]) simp

text \<open>A process goes on where it was interrupted: when the others have had their turn, the switch to
  the user stack returns the stack pointer of its interrupt.\<close>

theorem turn_resumes:
  assumes "sched_ok s (z # zs)" and "length cs = length zs"
  shows "\<exists>us t. sched_turns (c # cs) s = Some (us, t) \<and> active t = Some z \<and> last us = fst c"
  using turns_resume [OF assms, of c] rq.head by blast

theorem turn_resumes_witness:
  "\<exists>us t. sched_turns [(0x111, 0x222), (0x333, 0x444), (0x555, 0x666)] sched_demo = Some (us, t)
     \<and> active t = Some (Process 0) \<and> last us = fst (0x111 :: u64, 0x222 :: u64)"
  by (rule turn_resumes [OF sched_demo_ok]) simp

text \<open>C30: Terminating a process takes it, and no other, out of the ring, and the next process goes on with
  its own stack; the last one to end leaves the idle process running.\<close>

theorem kill_removes:
  assumes "sched_ok s zs" and "q \<in> set zs" and "pid_of s q = Some pid"
  shows "\<exists>u t. sched_trap (sched_terminate_process pid rv) c s = Some (0, u, t)
    \<and> sched_ok t (remove1 q (rotate1 zs)) \<and> stack_of t (running (remove1 q (rotate1 zs))) = Some u"
  using kill_ok [OF assms, of rv c] by blast

theorem kill_removes_witness:
  "\<exists>u t. sched_trap (sched_terminate_process 2 7) (0x111, 0x222) sched_demo = Some (0, u, t)
    \<and> sched_ok t (remove1 (Process 1) (rotate1 [Process 0, Process 2, Process 1]))
    \<and> stack_of t (running (remove1 (Process 1) (rotate1 [Process 0, Process 2, Process 1]))) = Some u"
  by (rule kill_removes [OF sched_demo_ok]) (simp_all add: sched_demo_pid)

text \<open>Terminating a pid no process has returns -1 and leaves the machine as it was.\<close>

theorem kill_unknown:
  assumes "sched_ok s zs" and "\<forall>q \<in> set zs. pid_of s q \<noteq> Some pid"
  shows "sched_terminate_process pid rv s = Some (- 1, s)"
  by (rule terminate_unknown [OF sched_ok_settled [OF assms(1)]]) (use assms(2) in blast)

theorem kill_unknown_witness: "sched_terminate_process 9 7 sched_demo = Some (- 1, sched_demo)"
  by (rule kill_unknown [OF sched_demo_ok]) (simp add: sched_demo_pid)

text \<open>The place of a process is never used again: the twenty-first creation writes past the table.\<close>

theorem spawn_past_table:
  assumes "sched_ok s zs" and "proc_idx s = SCHED_MAX_PROC"
  shows "sched_spawn_module ks rdx entry symb s = None"
proof -
  have "proc_set (Process (proc_idx s)) f (s\<lparr>proc_idx := x, max_pid := y\<rparr>) = None" for f x y
    using assms by (simp add: proc_set_def obj_get_def sched_ok_def)
  then show ?thesis by (simp add: sched_spawn_module_def sched_alloc_process_def)
qed

theorem spawn_past_table_witness:
  "sched_spawn_module \<lparr>zygote_addr = 0x1000, idle_addr = 0x1100, exit_addr = 0x1200\<rparr> 0
     \<lparr>mod_start = 0, mod_size = 0, mod_name = replicate 128 0\<rparr> 0x600000
     (sched_fresh\<lparr>processes := map (\<lambda>i. demo_proc (of_nat (Suc i)) None 0) [0..<20], proc_idx := 20, max_pid := 20\<rparr>) = None"
proof (rule spawn_past_table)
  let ?s = "sched_fresh\<lparr>processes := map (\<lambda>i. demo_proc (of_nat (Suc i)) None 0) [0..<20], proc_idx := 20, max_pid := 20\<rparr>"
  have "settled ?s []" by (simp add: settled_def cycle_def sched_fresh_def vmm_state.defs sched_state.defs)
  then show "sched_ok ?s []" by (simp add: sched_ok_def pid_of_def proc_at_def obj_get_def)
qed simp

end
