(* ===== verification/Heap.thy ===== *)
theory Heap
  imports Scheduling
begin

unbundle bit_operations_syntax

section \<open>Kernel/mmu.c: kernel heap and user pages\<close>

text \<open>
  The kernel heap is a list of blocks, each a header of 32 bytes (size, next, prev, free) in front of
  its data; the blocks lie in frames of the physical allocator. Addresses of blocks are raw, the null
  pointer is 0: page 0 is mapped, so that reading and writing through it does not fault. The two
  arrays say which page the processes got from \<open>mmap\<close> and how many bytes of it are taken.
\<close>

abbreviation PAGES_PER_THREAD :: nat where "PAGES_PER_THREAD \<equiv> 2"
abbreviation TOTAL_PAGES :: nat where "TOTAL_PAGES \<equiv> SCHED_MAX_PROC * PAGES_PER_THREAD"
abbreviation BLOCK_SIZE :: u64 where "BLOCK_SIZE \<equiv> 32"
abbreviation MIN_ALLOC_SIZE :: u64 where "MIN_ALLOC_SIZE \<equiv> 4"

record mmu_state = sched_state +
  pages :: "u64 list"
  bytes_used :: "u32 list"
  base_addr :: u64

subsection \<open>The fields of a block\<close>

definition block_size :: "mem \<Rightarrow> u64 \<Rightarrow> u32" where "block_size m b = load32 m b"
definition block_next :: "mem \<Rightarrow> u64 \<Rightarrow> u64" where "block_next m b = load64 m (b + 8)"
definition block_prev :: "mem \<Rightarrow> u64 \<Rightarrow> u64" where "block_prev m b = load64 m (b + 16)"
definition block_free :: "mem \<Rightarrow> u64 \<Rightarrow> u32" where "block_free m b = load32 m (b + 24)"

definition set_size :: "u64 \<Rightarrow> u32 \<Rightarrow> mem \<Rightarrow> mem" where "set_size b v m = store32 m b v"
definition set_next :: "u64 \<Rightarrow> u64 \<Rightarrow> mem \<Rightarrow> mem" where "set_next b v m = store64 m (b + 8) v"
definition set_prev :: "u64 \<Rightarrow> u64 \<Rightarrow> mem \<Rightarrow> mem" where "set_prev b v m = store64 m (b + 16) v"
definition set_free :: "u64 \<Rightarrow> u32 \<Rightarrow> mem \<Rightarrow> mem" where "set_free b v m = store32 m (b + 24) v"

subsection \<open>Pages of the processes\<close>

text \<open>\<open>n\<close> more entries from \<open>cur\<close> on. \<open>VMM_PAGE_SIZE\<close> is an \<open>int\<close>, the size a \<open>uint64_t\<close>.\<close>

primrec free_thread_loop :: "nat \<Rightarrow> int \<Rightarrow> 'a mmu_state_scheme \<Rightarrow> 'a mmu_state_scheme option" where
  "free_thread_loop 0 cur s = Some s"
| "free_thread_loop (Suc n) cur s = do {
     page \<leftarrow> obj_get (pages s) cur;
     s \<leftarrow> (if page \<noteq> 0 then do {
         s \<leftarrow> vmm_free_pages page VMM_PAGE_SIZE s;
         ps \<leftarrow> obj_set (pages s) cur 0;
         let s = s\<lparr>pages := ps\<rparr>;
         bs \<leftarrow> obj_set (bytes_used s) cur 0;
         Some (s\<lparr>bytes_used := bs\<rparr>)
       }
       else Some s);
     free_thread_loop n (cur + 1) s
   }"

definition free_thread_pages :: "u32 \<Rightarrow> 'a mmu_state_scheme \<Rightarrow> 'a mmu_state_scheme option" where
  "free_thread_pages pid s = free_thread_loop PAGES_PER_THREAD (sint (pid * 2)) s"

definition bytes_left :: "u32 \<Rightarrow> u32" where
  "bytes_left used = 4096 - used"

primrec mmap_loop ::
  "nat \<Rightarrow> int \<Rightarrow> u64 \<Rightarrow> u64 \<Rightarrow> 'a mmu_state_scheme \<Rightarrow> (u64 \<times> 'a mmu_state_scheme) option"
where
  "mmap_loop 0 cur pid size64 s = Some (0, s)"
| "mmap_loop (Suc n) cur pid size64 s = do {
     page \<leftarrow> obj_get (pages s) cur;
     if page = 0 then do {
       (r, s) \<leftarrow> vmm_alloc_pages_from 0x43000000 VMM_PAGE_SIZE (ucast (MASK_WRITEABLE OR MASK_USER)) s;
       case r of
         None \<Rightarrow> Some (0, s)
       | Some ret_addr \<Rightarrow> do {
           ps \<leftarrow> obj_set (pages s) cur ret_addr;
           bs \<leftarrow> obj_set (bytes_used s) cur (ucast size64);
           let s = s\<lparr>pages := ps, bytes_used := bs\<rparr>;
           s \<leftarrow> kprintf (''Allocing at page %d of thread %d, bytes left: %d'' @ [CHR 0x0A])
             [Arg_num (word_of_int cur - pid * 2), Arg_num pid, Arg_num (ucast (bytes_left (ucast size64)))] s;
           Some (ret_addr, s)
         }
     }
     else do {
       used \<leftarrow> obj_get (bytes_used s) cur;
       if scast (bytes_left used) \<ge> size64 then do {
         let ret_addr = page + scast used;
         let used' = used + ucast size64;
         bs \<leftarrow> obj_set (bytes_used s) cur used';
         let s = s\<lparr>bytes_used := bs\<rparr>;
         s \<leftarrow> kprintf (''Using page %d of thread %d, bytes left: %d'' @ [CHR 0x0A])
           [Arg_num (word_of_int cur - pid * 2), Arg_num pid, Arg_num (ucast (bytes_left used'))] s;
         Some (ret_addr, s)
       }
       else mmap_loop n (cur + 1) pid size64 s
     }
   }"

definition syscall_mmap :: "u64 \<Rightarrow> u64 \<Rightarrow> 'a mmu_state_scheme \<Rightarrow> (u64 \<times> 'a mmu_state_scheme) option" where
  "syscall_mmap addr size64 s =
     (if size64 > VMM_PAGE_SIZE then Some (0, s)
      else do {
        pid \<leftarrow> sched_getpid s;
        mmap_loop PAGES_PER_THREAD (sint (ucast (pid * 2) :: u32)) pid size64 s
      })"

text \<open>\<open>bytes_used[cur] - size <= 0\<close> is a comparison of unsigned numbers.\<close>

primrec munmap_loop :: "nat \<Rightarrow> int \<Rightarrow> u64 \<Rightarrow> u64 \<Rightarrow> 'a mmu_state_scheme \<Rightarrow> 'a mmu_state_scheme option" where
  "munmap_loop 0 cur page_start size64 s = Some s"
| "munmap_loop (Suc n) cur page_start size64 s = do {
     page \<leftarrow> obj_get (pages s) cur;
     s \<leftarrow> (if page = page_start then do {
         used \<leftarrow> obj_get (bytes_used s) cur;
         if scast used - size64 \<le> 0 then do {
           s \<leftarrow> vmm_free_pages page VMM_PAGE_SIZE s;
           bs \<leftarrow> obj_set (bytes_used s) cur 0;
           ps \<leftarrow> obj_set (pages s) cur 0;
           Some (s\<lparr>bytes_used := bs, pages := ps\<rparr>)
         }
         else do {
           bs \<leftarrow> obj_set (bytes_used s) cur (ucast (scast used - size64));
           Some (s\<lparr>bytes_used := bs\<rparr>)
         }
       }
       else Some s);
     munmap_loop n (cur + 1) page_start size64 s
   }"

definition syscall_munmap :: "u64 \<Rightarrow> u64 \<Rightarrow> 'a mmu_state_scheme \<Rightarrow> 'a mmu_state_scheme option" where
  "syscall_munmap addr size64 s = do {
     let page_num = addr div VMM_PAGE_SIZE;
     let page_start = page_num * VMM_PAGE_SIZE;
     pid \<leftarrow> sched_getpid s;
     munmap_loop PAGES_PER_THREAD (sint (ucast (pid * 2) :: u32)) page_start size64 s
   }"

subsection \<open>The kernel heap\<close>

text \<open>\<open>find_block\<close> returns the block and the new value of \<open>*last_block\<close>.\<close>

definition block_fits :: "mem \<Rightarrow> u64 \<Rightarrow> u64 \<Rightarrow> bool" where
  "block_fits m b size64 \<longleftrightarrow> block_free m b \<noteq> 0 \<and> scast (block_size m b) \<ge> size64"

partial_function (option) find_block_loop :: "u64 \<Rightarrow> u64 \<Rightarrow> u64 \<Rightarrow> mem \<Rightarrow> (u64 \<times> u64) option" where
  "find_block_loop cur_block last_block size64 m =
     (if cur_block \<noteq> 0 \<and> \<not> block_fits m cur_block size64
      then find_block_loop (block_next m cur_block) cur_block size64 m
      else Some (cur_block, last_block))"

definition find_block :: "u64 \<Rightarrow> u64 \<Rightarrow> 'a mmu_state_scheme \<Rightarrow> (u64 \<times> u64) option" where
  "find_block last_block size64 s = find_block_loop (base_addr s) last_block size64 (mem s)"

definition split_block :: "u64 \<Rightarrow> u64 \<Rightarrow> mem \<Rightarrow> mem" where
  "split_block b size64 m =
     (let new_block = b + BLOCK_SIZE + size64;
          m = set_next new_block (block_next m b) m;
          m = set_prev new_block b m;
          m = set_free new_block 1 m;
          m = set_size new_block (ucast (scast (block_size m b) - size64 - BLOCK_SIZE)) m;
          m = set_next b new_block m;
          m = set_size b (ucast size64) m
      in if block_next m new_block \<noteq> 0 then set_prev (block_next m new_block) new_block m else m)"

text \<open>\<open>VMM_PAGE_SIZE % size\<close> is a division error for size 0.\<close>

definition expand_heap :: "u64 \<Rightarrow> u64 \<Rightarrow> 'a mmu_state_scheme \<Rightarrow> (u64 \<times> 'a mmu_state_scheme) option" where
  "expand_heap last_block size64 s =
     (let (result, s) = gmem s
      in if result = 0 then Some (0, s)
         else (let new_block = result;
                   m = set_size new_block (ucast size64) (mem s);
                   m = set_free new_block 0 m;
                   m = set_prev new_block last_block m;
                   m = set_next new_block 0 m;
                   s = (if last_block \<noteq> 0 then s\<lparr>mem := set_next last_block new_block m\<rparr>
                        else s\<lparr>mem := m, base_addr := new_block\<rparr>)
               in if size64 = 0 then None
                  else (let free_bytes = ucast (VMM_PAGE_SIZE mod size64) :: u32
                        in if scast free_bytes > BLOCK_SIZE + MIN_ALLOC_SIZE \<and> sint free_bytes < 4096
                           then (let free_block = result + size64 + BLOCK_SIZE;
                                     m = set_size free_block (ucast (scast free_bytes - BLOCK_SIZE)) (mem s);
                                     m = set_free free_block 1 m;
                                     m = set_prev free_block new_block m;
                                     m = set_next free_block 0 m;
                                     m = set_next new_block free_block m
                                 in Some (new_block, s\<lparr>mem := m\<rparr>))
                           else Some (new_block, s))))"

definition mmu_kmalloc :: "u64 \<Rightarrow> 'a mmu_state_scheme \<Rightarrow> (u64 \<times> 'a mmu_state_scheme) option" where
  "mmu_kmalloc size64 s =
     (if size64 > VMM_PAGE_SIZE then do {
        s \<leftarrow> kprintf (''Way too big bro'' @ [CHR 0x0A]) [] s;
        Some (0, s)
      }
      else if base_addr s \<noteq> 0 then do {
        (current_block, last_block) \<leftarrow> find_block (base_addr s) size64 s;
        if current_block \<noteq> 0
        then (let m = (if scast (block_size (mem s) current_block) - size64 \<ge> BLOCK_SIZE + MIN_ALLOC_SIZE
                       then split_block current_block size64 (mem s) else mem s)
              in Some (current_block + BLOCK_SIZE, s\<lparr>mem := set_free current_block 0 m\<rparr>))
        else do {
          (current_block, s) \<leftarrow> expand_heap last_block size64 s;
          Some (if current_block = 0 then 0 else current_block + BLOCK_SIZE, s)
        }
      }
      else do {
        (current_block, s) \<leftarrow> expand_heap 0 size64 s;
        Some (if current_block = 0 then 0 else current_block + BLOCK_SIZE, s)
      })"

partial_function (option) get_block_loop :: "u64 \<Rightarrow> u64 \<Rightarrow> mem \<Rightarrow> u64 option" where
  "get_block_loop cur_block address m =
     (if cur_block \<noteq> 0
      then if cur_block + BLOCK_SIZE = address then Some cur_block
           else get_block_loop (block_next m cur_block) address m
      else Some 0)"

definition get_block :: "u64 \<Rightarrow> 'a mmu_state_scheme \<Rightarrow> u64 option" where
  "get_block address s = get_block_loop (base_addr s) address (mem s)"

definition mmu_kfree :: "u64 \<Rightarrow> 'a mmu_state_scheme \<Rightarrow> 'a mmu_state_scheme option" where
  "mmu_kfree address s = do {
     block_to_free \<leftarrow> get_block address s;
     s \<leftarrow> (if block_to_free = 0 then kprintf (''Block doesnt exist'' @ [CHR 0x0A]) [] s else Some s);
     let s = s\<lparr>mem := set_free block_to_free 1 (mem s)\<rparr>;
     Some (if block_next (mem s) block_to_free = 0
           then if block_prev (mem s) block_to_free \<noteq> 0
                then s\<lparr>mem := set_next (block_prev (mem s) block_to_free) 0 (mem s)\<rparr>
                else s\<lparr>base_addr := 0\<rparr>
           else s)
   }"

subsection \<open>Printing\<close>

text \<open>The zero-terminated string at an address.\<close>

partial_function (option) load_str :: "mem \<Rightarrow> u64 \<Rightarrow> u8 list option" where
  "load_str m a =
     (if m a = 0 then Some [0] else do { str \<leftarrow> load_str m (a + 1); Some (m a # str) })"

definition kheap_format :: string where
  "kheap_format =
     ''Block address: %d'' @ [CHR 0x0A] @ ''Data address: %d'' @ [CHR 0x0A] @ ''Block size: %d'' @ [CHR 0x0A]
     @ ''Prev block: %d'' @ [CHR 0x0A] @ ''Next block: %d'' @ [CHR 0x0A] @ ''Free: %d'' @ [CHR 0x0A]
     @ ''String: %s'' @ [CHR 0x0A, CHR 0x0A]"

partial_function (option) print_kheap_loop :: "u64 \<Rightarrow> 'a mmu_state_scheme \<Rightarrow> 'a mmu_state_scheme option" where
  "print_kheap_loop cur_block s =
     (if cur_block = 0 then Some s
      else do {
        str \<leftarrow> load_str (mem s) (cur_block + BLOCK_SIZE);
        s \<leftarrow> kprintf kheap_format
          [Arg_num cur_block, Arg_num (cur_block + BLOCK_SIZE), Arg_num (ucast (block_size (mem s) cur_block)),
           Arg_num (block_prev (mem s) cur_block), Arg_num (block_next (mem s) cur_block),
           Arg_num (ucast (block_free (mem s) cur_block)), Arg_str str] s;
        print_kheap_loop (block_next (mem s) cur_block) s
      })"

definition mmu_print_kheap :: "'a mmu_state_scheme \<Rightarrow> 'a mmu_state_scheme option" where
  "mmu_print_kheap s =
     (if base_addr s = 0 then kprintf (''Heap is empty bro'' @ [CHR 0x0A]) [] s
      else print_kheap_loop (base_addr s) s)"

end
