(* ===== verification/Heap_List.thy ===== *)
theory Heap_List
  imports Heap
begin

section \<open>The kernel heap as a list of blocks\<close>

text \<open>
  The header fields of a block and how writes to them interact; the list of blocks as a path along the
  \<open>next\<close> pointers with the \<open>prev\<close> pointers back, its blocks in given frames and apart from each other;
  first fit, splitting a block, and a new block at the end.
\<close>

lemmas block_defs = block_size_def block_next_def block_prev_def block_free_def set_size_def set_next_def set_prev_def set_free_def

text \<open>Reading a 32-bit cell after a 64-bit store, and the other way round.\<close>

lemma load32_store64_apart: "apart a 8 b 4 \<Longrightarrow> load32 (store64 m a v) b = load32 m b"
  and load64_store32_apart: "apart a 4 b 8 \<Longrightarrow> load64 (store32 m a w) b = load64 m b"
  using c64.st_apart [of a b 4 m v] c32.st_apart [of a b 8 m w] by (simp_all add: load32_def load64_def)

lemmas cell_apart = c64.ld_st_apart c32.ld_st_apart load32_store64_apart load64_store32_apart

text \<open>The fields of one block.\<close>

lemma block_same [simp]:
  "block_size (set_size b v m) b = v" "block_next (set_next b x m) b = x"
  "block_prev (set_prev b x m) b = x" "block_free (set_free b v m) b = v"
  by (simp_all add: block_defs c64.ld_st c32.ld_st)

lemma block_other [simp]:
  "block_size (set_next b x m) b = block_size m b" "block_size (set_prev b x m) b = block_size m b"
  "block_size (set_free b v m) b = block_size m b"
  "block_next (set_size b v m) b = block_next m b" "block_next (set_prev b x m) b = block_next m b"
  "block_next (set_free b v m) b = block_next m b"
  "block_prev (set_size b v m) b = block_prev m b" "block_prev (set_next b x m) b = block_prev m b"
  "block_prev (set_free b v m) b = block_prev m b"
  "block_free (set_size b v m) b = block_free m b" "block_free (set_next b x m) b = block_free m b"
  "block_free (set_prev b x m) b = block_free m b"
  unfolding block_defs by (rule cell_apart, simp add: apart_def unat_minus_swap)+

text \<open>Two headers that do not overlap.\<close>

definition far :: "u64 \<Rightarrow> u64 \<Rightarrow> bool" where
  "far b c \<longleftrightarrow> unat b + 32 \<le> 2 ^ 63 \<and> unat c + 32 \<le> 2 ^ 63 \<and> (unat b + 32 \<le> unat c \<or> unat c + 32 \<le> unat b)"

lemma far_sym: "far b c \<longleftrightarrow> far c b"
  by (auto simp: far_def)

lemma far_apart:
  assumes "far b c" and "i + n \<le> 32" and "j + k \<le> 32" and "0 < n" and "0 < k"
  shows "apart (b + of_nat i) n (c + of_nat j) k"
proof -
  have u: "unat (b + of_nat i) = unat b + i" "unat (c + of_nat j) = unat c + j"
    using assms by (auto simp: far_def intro!: unat_add_small)
  show ?thesis
    using assms(1) unfolding far_def
  proof (elim conjE disjE)
    assume "unat b + 32 \<le> unat c" "unat c + 32 \<le> 2 ^ 63"
    then show ?thesis using assms(2-) u by (intro apart_below(1)) simp_all
  next
    assume "unat c + 32 \<le> unat b" "unat b + 32 \<le> 2 ^ 63"
    then show ?thesis using assms(2-) u by (intro apart_below(2)) simp_all
  qed
qed

lemma block_far:
  assumes "far b c"
  shows "block_size (set_size b v m) c = block_size m c" "block_size (set_next b x m) c = block_size m c"
    "block_size (set_prev b x m) c = block_size m c" "block_size (set_free b v m) c = block_size m c"
    "block_next (set_size b v m) c = block_next m c" "block_next (set_next b x m) c = block_next m c"
    "block_next (set_prev b x m) c = block_next m c" "block_next (set_free b v m) c = block_next m c"
    "block_prev (set_size b v m) c = block_prev m c" "block_prev (set_next b x m) c = block_prev m c"
    "block_prev (set_prev b x m) c = block_prev m c" "block_prev (set_free b v m) c = block_prev m c"
    "block_free (set_size b v m) c = block_free m c" "block_free (set_next b x m) c = block_free m c"
    "block_free (set_prev b x m) c = block_free m c" "block_free (set_free b v m) c = block_free m c"
proof -
  note f = far_apart [OF assms]
  have ap: "apart b 4 c 4" "apart b 4 (c + 8) 8" "apart b 4 (c + 16) 8" "apart b 4 (c + 24) 4"
    "apart (b + 8) 8 c 4" "apart (b + 8) 8 (c + 8) 8" "apart (b + 8) 8 (c + 16) 8" "apart (b + 8) 8 (c + 24) 4"
    "apart (b + 16) 8 c 4" "apart (b + 16) 8 (c + 8) 8" "apart (b + 16) 8 (c + 16) 8" "apart (b + 16) 8 (c + 24) 4"
    "apart (b + 24) 4 c 4" "apart (b + 24) 4 (c + 8) 8" "apart (b + 24) 4 (c + 16) 8" "apart (b + 24) 4 (c + 24) 4"
    using f [of 0 4 0 4] f [of 0 4 8 8] f [of 0 4 16 8] f [of 0 4 24 4]
      f [of 8 8 0 4] f [of 8 8 8 8] f [of 8 8 16 8] f [of 8 8 24 4]
      f [of 16 8 0 4] f [of 16 8 8 8] f [of 16 8 16 8] f [of 16 8 24 4]
      f [of 24 4 0 4] f [of 24 4 8 8] f [of 24 4 16 8] f [of 24 4 24 4] by simp_all
  show "block_size (set_size b v m) c = block_size m c" "block_size (set_next b x m) c = block_size m c"
    "block_size (set_prev b x m) c = block_size m c" "block_size (set_free b v m) c = block_size m c"
    "block_next (set_size b v m) c = block_next m c" "block_next (set_next b x m) c = block_next m c"
    "block_next (set_prev b x m) c = block_next m c" "block_next (set_free b v m) c = block_next m c"
    "block_prev (set_size b v m) c = block_prev m c" "block_prev (set_next b x m) c = block_prev m c"
    "block_prev (set_prev b x m) c = block_prev m c" "block_prev (set_free b v m) c = block_prev m c"
    "block_free (set_size b v m) c = block_free m c" "block_free (set_next b x m) c = block_free m c"
    "block_free (set_prev b x m) c = block_free m c" "block_free (set_free b v m) c = block_free m c"
    unfolding block_defs by (simp_all add: ap cell_apart)
qed

text \<open>Nothing outside the header changes.\<close>

lemma header_outside:
  assumes "unat b + 32 \<le> 2 ^ 63" and "unat x < unat b \<or> unat b + 32 \<le> unat x" and "i + n \<le> 32" and "0 < n"
  shows "\<not> in_range (b + of_nat i) n x"
proof -
  have bi: "unat (b + of_nat i) = unat b + i" using assms(1,3,4) by (intro unat_add_small) simp
  show ?thesis
  proof (cases "unat (b + of_nat i) \<le> unat x")
    case True
    then have "unat (x - (b + of_nat i)) = unat x - unat (b + of_nat i)" by (intro unat_sub) (simp add: word_le_nat_alt)
    then show ?thesis using assms(2-4) True bi by (simp add: in_range_def)
  next
    case False
    have "unat (x - (b + of_nat i)) = 2 ^ 64 - unat ((b + of_nat i) - x)"
      using False unat_minus_swap [of x "b + of_nat i"] by auto
    moreover have "unat ((b + of_nat i) - x) = unat (b + of_nat i) - unat x"
      using False by (intro unat_sub) (simp add: word_le_nat_alt)
    ultimately show ?thesis using False assms(3,4) bi assms(1) by (simp add: in_range_def)
  qed
qed

lemma set_outside:
  assumes "unat b + 32 \<le> 2 ^ 63" and "unat x < unat b \<or> unat b + 32 \<le> unat x"
  shows "set_size b v m x = m x" "set_next b w m x = m x" "set_prev b w m x = m x" "set_free b v m x = m x"
  using header_outside [OF assms, of 0 4] header_outside [OF assms, of 8 8] header_outside [OF assms, of 16 8]
    header_outside [OF assms, of 24 4]
  by (simp_all add: set_size_def set_next_def set_prev_def set_free_def store32_def store64_def store_bytes_other)

subsection \<open>The list of blocks\<close>

text \<open>The blocks from \<open>a\<close> on, before which \<open>p\<close> stands, up to \<open>z\<close>.\<close>

fun path :: "mem \<Rightarrow> u64 \<Rightarrow> u64 \<Rightarrow> u64 list \<Rightarrow> u64 \<Rightarrow> bool" where
  "path m p a [] z \<longleftrightarrow> a = z"
| "path m p a (b # bs) z \<longleftrightarrow> a = b \<and> b \<noteq> 0 \<and> block_prev m b = p \<and> path m b (block_next m b) bs z"

definition block_len :: "mem \<Rightarrow> u64 \<Rightarrow> nat" where
  "block_len m b = 32 + unat (block_size m b)"

definition block_in :: "u64 set \<Rightarrow> mem \<Rightarrow> u64 \<Rightarrow> bool" where
  "block_in H m b \<longleftrightarrow> (\<exists>f \<in> H. unat f + 4096 \<le> 2 ^ 63 \<and> unat f \<le> unat b \<and> unat b + block_len m b \<le> unat f + 4096)"

definition blocks_apart :: "mem \<Rightarrow> u64 \<Rightarrow> u64 \<Rightarrow> bool" where
  "blocks_apart m b c \<longleftrightarrow> unat b + block_len m b \<le> unat c \<or> unat c + block_len m c \<le> unat b"

definition heap_list :: "u64 set \<Rightarrow> mem \<Rightarrow> u64 \<Rightarrow> u64 list \<Rightarrow> bool" where
  "heap_list H m a bs \<longleftrightarrow> path m 0 a bs 0 \<and> distinct bs \<and> (\<forall>b \<in> set bs. block_in H m b)
     \<and> (\<forall>b \<in> set bs. \<forall>c \<in> set bs. b \<noteq> c \<longrightarrow> blocks_apart m b c)"

text \<open>An address among the data of a block.\<close>

definition in_data :: "mem \<Rightarrow> u64 \<Rightarrow> u64 \<Rightarrow> bool" where
  "in_data m b x \<longleftrightarrow> unat b + 32 \<le> unat x \<and> unat x < unat b + block_len m b"

lemma path_append: "path m p a (xs @ ys) z \<longleftrightarrow> (\<exists>y. path m p a xs y \<and> path m (last (p # xs)) y ys z)"
  by (induction xs arbitrary: p a) auto

lemma path_cong:
  "(\<And>b. b \<in> set bs \<Longrightarrow> block_next m' b = block_next m b \<and> block_prev m' b = block_prev m b) \<Longrightarrow>
   path m' p a bs z = path m p a bs z"
  by (induction bs arbitrary: p a) auto

text \<open>Only the \<open>next\<close> pointer of the last block leads out of a path.\<close>

lemma path_end:
  assumes "path m p a xs y" and "distinct xs" and "xs \<noteq> []"
    and "\<And>b. b \<in> set xs \<Longrightarrow> block_prev m' b = block_prev m b"
    and "\<And>b. b \<in> set xs \<Longrightarrow> b \<noteq> last xs \<Longrightarrow> block_next m' b = block_next m b" and "block_next m' (last xs) = y'"
  shows "path m' p a xs y'"
  using assms
proof (induction xs arbitrary: p a)
  case (Cons b xs)
  show ?case
  proof (cases "xs = []")
    case False
    then have "b \<noteq> last xs" using Cons.prems(2) by auto
    then show ?thesis using Cons False by simp
  qed (use Cons.prems in simp)
qed simp

lemma path_nonzero: "path m p a xs z \<Longrightarrow> 0 \<notin> set xs"
  by (induction xs arbitrary: p a) auto

subsection \<open>Searching the list\<close>

lemma find_block_first:
  assumes "path m p a (xs @ b # ys) 0" and "\<And>c. c \<in> set xs \<Longrightarrow> \<not> block_fits m c sz" and "block_fits m b sz"
  shows "find_block_loop a l sz m = Some (b, last (l # xs))"
  using assms
proof (induction xs arbitrary: p a l)
  case Nil
  then show ?case by (subst find_block_loop.simps) simp
next
  case (Cons c xs)
  then show ?case by (subst find_block_loop.simps) auto
qed

lemma find_block_none:
  assumes "path m p a bs 0" and "\<And>c. c \<in> set bs \<Longrightarrow> \<not> block_fits m c sz"
  shows "find_block_loop a l sz m = Some (0, last (l # bs))"
  using assms
proof (induction bs arbitrary: p a l)
  case (Cons b bs)
  then show ?case by (subst find_block_loop.simps) auto
qed (subst find_block_loop.simps, simp)

lemma first_split: "(\<forall>c \<in> set bs. \<not> Q c) \<or> (\<exists>xs b ys. bs = xs @ b # ys \<and> (\<forall>c \<in> set xs. \<not> Q c) \<and> Q b)"
  using split_list_first_prop [of bs Q] by blast

lemma get_block_list:
  assumes "path m p a bs 0" and "b \<in> set bs"
  shows "get_block_loop a (b + 32) m = Some b"
  using assms
proof (induction bs arbitrary: p a)
  case (Cons c bs)
  then show ?case by (subst get_block_loop.simps) auto
qed simp

lemma get_block_none:
  assumes "path m p a bs 0" and "x - 32 \<notin> set bs"
  shows "get_block_loop a x m = Some 0"
  using assms
proof (induction bs arbitrary: p a)
  case (Cons c bs)
  then show ?case by (subst get_block_loop.simps) auto
qed (subst get_block_loop.simps, simp)

subsection \<open>Changing the list\<close>

lemma block_in_bounds:
  assumes "block_in H m b"
  shows "unat b + 32 \<le> 2 ^ 63" "unat (block_size m b) \<le> 4064" "unat b + block_len m b \<le> 2 ^ 63"
  using assms by (auto simp: block_in_def block_len_def)

lemma heap_far:
  assumes "heap_list H m a bs" and "b \<in> set bs" and "c \<in> set bs" and "b \<noteq> c"
  shows "far b c"
proof -
  have "block_in H m b" "block_in H m c" "blocks_apart m b c" using assms by (auto simp: heap_list_def)
  then show ?thesis using block_in_bounds(1) by (auto simp: far_def blocks_apart_def block_len_def)
qed

lemma size_u64:
  assumes "unat (v :: u32) \<le> 4064"
  shows "scast v = (ucast v :: u64)" "unat (scast v :: u64) = unat v"
proof -
  have "uint v < int 4065" by (rule uint_less_unat) (use assms in simp)
  then have "sint v = uint v" by (intro sint_small) simp
  then show "scast v = (ucast v :: u64)" by (simp add: scast_eq)
  moreover have "unat (ucast v :: u64) = unat v" using unat_lt32 [of v] by (simp add: unsigned_ucast_eq take_bit_nat_eq_self)
  ultimately show "unat (scast v :: u64) = unat v" by simp
qed

lemma block_len_cong: "block_size m' b = block_size m b \<Longrightarrow> block_len m' b = block_len m b"
  by (simp add: block_len_def)

lemma heap_list_cong:
  assumes "heap_list H m a bs" and "H \<subseteq> H'"
    and "\<And>b. b \<in> set bs \<Longrightarrow> block_next m' b = block_next m b \<and> block_prev m' b = block_prev m b \<and> block_size m' b = block_size m b"
  shows "heap_list H' m' a bs"
proof -
  have len: "block_len m' b = block_len m b" if "b \<in> set bs" for b using assms(3) [OF that] by (simp add: block_len_def)
  have "path m' 0 a bs 0 = path m 0 a bs 0" by (rule path_cong) (use assms(3) in blast)
  moreover have "block_in H m b \<Longrightarrow> block_in H' m' b" if "b \<in> set bs" for b
    using assms(2) len [OF that] by (auto simp: block_in_def)
  ultimately show ?thesis using assms(1) len unfolding heap_list_def blocks_apart_def by auto
qed

text \<open>A new block behind \<open>b\<close>, as the headers see it.\<close>

lemma path_insert:
  assumes p: "path m 0 a (xs @ b # ys) 0" and d: "distinct (xs @ b # ys)" and n: "n \<notin> set (xs @ b # ys)" "n \<noteq> 0"
    and b: "block_next m' b = n" "block_prev m' b = block_prev m b" and nn: "block_next m' n = block_next m b" "block_prev m' n = b"
    and c: "\<And>c. c \<in> set (xs @ ys) \<Longrightarrow> block_next m' c = block_next m c
      \<and> block_prev m' c = (if ys \<noteq> [] \<and> c = hd ys then n else block_prev m c)"
  shows "path m' 0 a (xs @ b # n # ys) 0"
proof -
  have pth: "path m 0 a xs b" "b \<noteq> 0" "block_prev m b = last (0 # xs)" "path m b (block_next m b) ys 0"
    using p by (auto simp: path_append)
  have "path m' 0 a xs b"
    using pth(1)
  proof (subst path_cong [where m = m])
    fix e assume e: "e \<in> set xs"
    have "ys \<noteq> [] \<Longrightarrow> e \<noteq> hd ys" using d e by (cases ys) auto
    then show "block_next m' e = block_next m e \<and> block_prev m' e = block_prev m e" using c [of e] e by auto
  qed simp
  moreover have "path m' n (block_next m b) ys 0"
  proof (cases ys)
    case (Cons y zs)
    have 1: "block_next m b = y" "y \<noteq> 0" "path m y (block_next m y) zs 0" using pth(4) Cons by auto
    have "path m' y (block_next m y) zs 0"
      using 1(3)
    proof (subst path_cong [where m = m])
      fix e assume "e \<in> set zs"
      then show "block_next m' e = block_next m e \<and> block_prev m' e = block_prev m e" using c [of e] d Cons by auto
    qed simp
    then show ?thesis using 1 c [of y] Cons by simp
  qed (use pth(4) in simp)
  ultimately show ?thesis unfolding path_append using pth(2,3) b nn n(2) by auto
qed

text \<open>What \<open>split_block\<close> writes.\<close>

lemma split_headers:
  assumes fbn: "far b n" and n: "n = b + 32 + sz" and m': "m' = split_block b sz m" and y: "y = block_next m b"
    and fy: "y \<noteq> 0 \<Longrightarrow> far y b \<and> far y n"
  shows "block_size m' b = ucast sz" "block_next m' b = n" "block_prev m' b = block_prev m b" "block_free m' b = block_free m b"
    and "block_size m' n = ucast (scast (block_size m b) - sz - BLOCK_SIZE)" "block_next m' n = y" "block_prev m' n = b"
    and "block_free m' n = 1"
    and "\<And>c. far b c \<Longrightarrow> far n c \<Longrightarrow> c = y \<or> y = 0 \<or> far y c \<Longrightarrow> block_size m' c = block_size m c \<and> block_next m' c = block_next m c
      \<and> block_free m' c = block_free m c \<and> block_prev m' c = (if y \<noteq> 0 \<and> c = y then n else block_prev m c)"
    and "\<And>x :: u64. \<not> (unat b \<le> unat x \<and> unat x < unat b + 32) \<Longrightarrow> \<not> (unat n \<le> unat x \<and> unat x < unat n + 32) \<Longrightarrow>
      y = 0 \<or> \<not> (unat y \<le> unat x \<and> unat x < unat y + 32) \<Longrightarrow> m' x = m x"
proof -
  have fnb: "far n b" using fbn by (simp add: far_sym)
  let ?nsz = "ucast (scast (block_size m b) - sz - BLOCK_SIZE) :: u32"
  define m1 where "m1 = set_size b (ucast sz) (set_next b n (set_size n ?nsz (set_free n 1
    (set_prev n b (set_next n (block_next m b) m)))))"
  have h1: "block_size m1 b = ucast sz" "block_next m1 b = n" "block_prev m1 b = block_prev m b" "block_free m1 b = block_free m b"
    "block_size m1 n = ?nsz" "block_next m1 n = y" "block_prev m1 n = b" "block_free m1 n = 1"
    by (simp_all add: m1_def y block_far [OF fnb] block_far [OF fbn])
  have eq: "m' = (if y \<noteq> 0 then set_prev y n m1 else m1)"
    using h1(6) by (simp add: m' split_block_def Let_def n [symmetric] block_far [OF fnb] m1_def)
  show "block_size m' b = ucast sz" "block_next m' b = n" "block_prev m' b = block_prev m b" "block_free m' b = block_free m b"
    "block_size m' n = ?nsz" "block_next m' n = y" "block_prev m' n = b" "block_free m' n = 1"
    using fy h1 by (auto simp: eq block_far)
  show "block_size m' c = block_size m c \<and> block_next m' c = block_next m c \<and> block_free m' c = block_free m c
      \<and> block_prev m' c = (if y \<noteq> 0 \<and> c = y then n else block_prev m c)"
    if "far b c" "far n c" "c = y \<or> y = 0 \<or> far y c" for c
  proof -
    have "block_size m1 c = block_size m c" "block_next m1 c = block_next m c" "block_prev m1 c = block_prev m c"
      "block_free m1 c = block_free m c"
      by (simp_all add: m1_def block_far [OF that(1)] block_far [OF that(2)])
    moreover have "\<not> far y y" by (simp add: far_def)
    ultimately show ?thesis using that(3) by (auto simp: eq block_far)
  qed
  fix x :: u64
  assume x: "\<not> (unat b \<le> unat x \<and> unat x < unat b + 32)" "\<not> (unat n \<le> unat x \<and> unat x < unat n + 32)"
    "y = 0 \<or> \<not> (unat y \<le> unat x \<and> unat x < unat y + 32)"
  have "m1 x = m x" using fbn x(1,2) by (simp add: m1_def far_def set_outside not_le not_less disj_commute)
  moreover have "m' x = m1 x" using fy x(3) by (auto simp: eq far_def set_outside not_le not_less)
  ultimately show "m' x = m x" by simp
qed

lemma split_sizes:
  assumes "block_in H m b" and "unat sz + 32 \<le> unat (block_size m b)" and "n = b + 32 + sz"
  shows "unat n = unat b + 32 + unat sz" and "unat (ucast sz :: u32) = unat sz"
    and "unat (ucast (scast (block_size m b) - sz - BLOCK_SIZE) :: u32) = unat (block_size m b) - unat sz - 32"
    and "far b n"
proof -
  note bb = block_in_bounds [OF assms(1)]
  have "unat (b + of_nat (32 + unat sz)) = unat b + (32 + unat sz)"
    by (rule unat_add_small) (use bb assms(2) in \<open>simp add: block_len_def\<close>)
  moreover have "b + of_nat (32 + unat sz) = n" by (simp add: assms(3) algebra_simps)
  ultimately show un: "unat n = unat b + 32 + unat sz" by simp
  show "unat (ucast sz :: u32) = unat sz" using bb(2) assms(2) by (simp add: unsigned_ucast_eq take_bit_nat_eq_self)
  have sb: "unat (scast (block_size m b) :: u64) = unat (block_size m b)" by (rule size_u64(2) [OF bb(2)])
  have "unat (scast (block_size m b) - sz :: u64) = unat (block_size m b) - unat sz"
    using unat_sub [of sz "scast (block_size m b)"] sb assms(2) by (simp add: word_le_nat_alt)
  then have "unat (scast (block_size m b) - sz - BLOCK_SIZE :: u64) = unat (block_size m b) - unat sz - 32"
    using unat_sub [of "32 :: u64" "scast (block_size m b) - sz"] assms(2) by (simp add: word_le_nat_alt)
  then show "unat (ucast (scast (block_size m b) - sz - BLOCK_SIZE) :: u32) = unat (block_size m b) - unat sz - 32"
    using bb(2) by (simp add: unsigned_ucast_eq take_bit_nat_eq_self)
  show "far b n" using bb assms(2) by (simp add: far_def un block_len_def)
qed

text \<open>A region cut in two.\<close>

lemma heap_list_cut:
  assumes hl: "heap_list H m a (xs @ b # ys)" and p: "path m' 0 a (xs @ b # n # ys) 0"
    and n: "n \<notin> set (xs @ b # ys)" "unat b + block_len m' b = unat n" "unat n + block_len m' n = unat b + block_len m b"
    and c: "\<And>c. c \<in> set (xs @ ys) \<Longrightarrow> block_size m' c = block_size m c"
  shows "heap_list H m' a (xs @ b # n # ys)"
proof -
  have lenc: "block_len m' c = block_len m c" if "c \<in> set (xs @ ys)" for c using c [OF that] by (simp add: block_len_def)
  obtain f where f: "f \<in> H" "unat f + 4096 \<le> 2 ^ 63" "unat f \<le> unat b" "unat b + block_len m b \<le> unat f + 4096"
    using hl by (auto simp: heap_list_def block_in_def)
  have "block_in H m' c" if "c \<in> set (xs @ b # n # ys)" for c
  proof (cases "c = b \<or> c = n")
    case True
    then show ?thesis using f n(2,3) by (auto simp: block_in_def intro!: bexI [of _ f])
  next
    case False
    then have "c \<in> set (xs @ ys)" using that by auto
    moreover from this have "block_in H m c" using hl by (auto simp: heap_list_def)
    ultimately show ?thesis using lenc by (simp add: block_in_def)
  qed
  moreover have "blocks_apart m' c e" if ce: "c \<in> set (xs @ b # n # ys)" "e \<in> set (xs @ b # n # ys)" "c \<noteq> e" for c e
  proof -
    have on: "blocks_apart m' b e \<and> blocks_apart m' n e \<and> blocks_apart m' e b \<and> blocks_apart m' e n" if e: "e \<in> set (xs @ ys)" for e
    proof -
      have "blocks_apart m b e" using hl e by (auto simp: heap_list_def)
      then show ?thesis using n(2,3) lenc [OF e] by (auto simp: blocks_apart_def)
    qed
    have bn: "blocks_apart m' b n" "blocks_apart m' n b" using n(2) by (auto simp: blocks_apart_def)
    show ?thesis
    proof (cases "c \<in> {b, n} \<or> e \<in> {b, n}")
      case False
      then have "c \<in> set (xs @ ys)" "e \<in> set (xs @ ys)" using ce by auto
      moreover from this have "blocks_apart m c e" using hl ce(3) by (auto simp: heap_list_def)
      ultimately show ?thesis using lenc by (simp add: blocks_apart_def)
    qed (use on bn ce in auto)
  qed
  moreover have "distinct (xs @ b # n # ys)" using hl n(1) by (auto simp: heap_list_def)
  ultimately show ?thesis using p by (simp add: heap_list_def)
qed

text \<open>Splitting the block between \<open>xs\<close> and \<open>ys\<close>.\<close>

lemma split_block_list:
  assumes hl: "heap_list H m a (xs @ b # ys)" and sz: "unat sz + 32 \<le> unat (block_size m b)"
    and n: "n = b + 32 + sz" and m': "m' = split_block b sz m"
  shows "heap_list H m' a (xs @ b # n # ys)" and "block_size m' b = ucast sz" and "block_free m' n = 1"
    and "n \<notin> set (xs @ b # ys)"
    and "\<And>c. c \<in> set (xs @ ys) \<Longrightarrow> block_size m' c = block_size m c \<and> block_free m' c = block_free m c"
    and "\<And>x :: u64. \<not> (unat b \<le> unat x \<and> unat x < unat b + block_len m b) \<Longrightarrow>
      (\<And>c. c \<in> set ys \<Longrightarrow> \<not> (unat c \<le> unat x \<and> unat x < unat c + 32)) \<Longrightarrow> m' x = m x"
proof -
  have inb: "block_in H m b" using hl by (simp add: heap_list_def)
  note bb = block_in_bounds [OF inb] and ss = split_sizes [OF inb sz n]
  have far_c: "far b c \<and> far n c" if c: "c \<in> set (xs @ ys)" for c
  proof -
    have ne: "b \<noteq> c" using c hl by (auto simp: heap_list_def)
    have "blocks_apart m b c" "block_in H m c" using c hl ne by (auto simp: heap_list_def)
    moreover have "far b c" by (rule heap_far [OF hl]) (use c ne in auto)
    ultimately show ?thesis using block_in_bounds [of H m c] bb sz
      by (auto simp: far_def blocks_apart_def ss(1) block_len_def)
  qed
  show new: "n \<notin> set (xs @ b # ys)"
  proof
    assume "n \<in> set (xs @ b # ys)"
    then have "n = b \<or> n \<in> set (xs @ ys)" by auto
    then show False using far_c [of n] ss(4) by (auto simp: far_def)
  qed
  have p: "path m 0 a (xs @ b # ys) 0" "distinct (xs @ b # ys)" using hl by (simp_all add: heap_list_def)
  define y where "y = block_next m b"
  have y: "y = (case ys of [] \<Rightarrow> 0 | y # _ \<Rightarrow> y)" using p(1) by (cases ys) (auto simp: path_append y_def)
  have y0: "y \<noteq> 0 \<longleftrightarrow> ys \<noteq> []" using p(1) y by (cases ys) (auto simp: path_append)
  have yh: "ys \<noteq> [] \<Longrightarrow> y = hd ys" "ys \<noteq> [] \<Longrightarrow> y \<in> set ys" using y by (cases ys; simp)+
  have fy: "y \<noteq> 0 \<Longrightarrow> far y b \<and> far y n" using far_c [of y] y0 yh by (auto simp: far_sym)
  note h = split_headers [OF ss(4) n m' y_def fy]
  show "block_size m' b = ucast sz" by (rule h(1))
  show "block_free m' n = 1" by (rule h(8))
  have hc: "block_size m' c = block_size m c \<and> block_next m' c = block_next m c
      \<and> block_free m' c = block_free m c \<and> block_prev m' c = (if ys \<noteq> [] \<and> c = hd ys then n else block_prev m c)"
    if c: "c \<in> set (xs @ ys)" for c
  proof -
    have "c = y \<or> y = 0 \<or> far y c" using heap_far [OF hl, of y c] c y0 yh(2) by (cases "c = y") auto
    then show ?thesis using h(9) [of c] far_c [OF c] y0 yh(1) by auto
  qed
  then show "\<And>c. c \<in> set (xs @ ys) \<Longrightarrow> block_size m' c = block_size m c \<and> block_free m' c = block_free m c" by blast
  have "n \<noteq> 0" using ss(1) by auto
  then have "path m' 0 a (xs @ b # n # ys) 0"
    using path_insert [OF p new _ h(2,3)] h(6,7) hc by (auto simp: y_def)
  moreover have "unat b + block_len m' b = unat n" "unat n + block_len m' n = unat b + block_len m b"
    using h(1,5) ss sz by (simp_all add: block_len_def)
  ultimately show "heap_list H m' a (xs @ b # n # ys)" using hc by (intro heap_list_cut [OF hl _ new]) auto
  fix x :: u64
  assume x: "\<not> (unat b \<le> unat x \<and> unat x < unat b + block_len m b)"
    "\<And>c. c \<in> set ys \<Longrightarrow> \<not> (unat c \<le> unat x \<and> unat x < unat c + 32)"
  show "m' x = m x"
  proof (rule h(10))
    show "y = 0 \<or> \<not> (unat y \<le> unat x \<and> unat x < unat y + 32)" using x(2) [of y] y0 yh(2) by auto
  qed (use x(1) sz ss(1) in \<open>auto simp: block_len_def\<close>)
qed

text \<open>A block behind the last one.\<close>

lemma heap_list_snoc:
  assumes hl: "heap_list H m a bs" and HH: "H \<subseteq> H'" and g: "g \<noteq> 0" "block_in H' m' g"
    and ap: "\<And>b. b \<in> set bs \<Longrightarrow> blocks_apart m' b g"
    and gh: "block_next m' g = 0" "block_prev m' g = last (0 # bs)"
    and hb: "\<And>b. b \<in> set bs \<Longrightarrow> block_size m' b = block_size m b \<and> block_prev m' b = block_prev m b
      \<and> block_next m' b = (if b = last bs then g else block_next m b)"
  shows "heap_list H' m' (if bs = [] then g else a) (bs @ [g])"
proof -
  have len: "block_len m' b = block_len m b" if "b \<in> set bs" for b using hb [OF that] by (simp add: block_len_def)
  have p: "path m 0 a bs 0" "distinct bs" using hl by (simp_all add: heap_list_def)
  have "path m' 0 (if bs = [] then g else a) bs g"
  proof (cases "bs = []")
    case False
    then have "path m' 0 a bs g" by (intro path_end [OF p]) (auto simp: hb)
    then show ?thesis using False by simp
  qed simp
  then have "path m' 0 (if bs = [] then g else a) (bs @ [g]) 0" unfolding path_append using g gh by auto
  moreover have "g \<notin> set bs"
  proof
    assume "g \<in> set bs"
    then show False using ap [of g] by (simp add: blocks_apart_def block_len_def)
  qed
  moreover have "block_in H' m' b" if "b \<in> set bs" for b
  proof -
    have "block_in H m b" using hl that by (simp add: heap_list_def)
    then show ?thesis using HH unfolding block_in_def len [OF that] by blast
  qed
  moreover have "blocks_apart m' b c" if "b \<in> set bs" "c \<in> set bs" "b \<noteq> c" for b c
    using hl that len by (simp add: heap_list_def blocks_apart_def)
  moreover have "blocks_apart m' g b" if "b \<in> set bs" for b using ap [OF that] by (auto simp: blocks_apart_def)
  ultimately show ?thesis using p(2) g(2) ap by (auto simp: heap_list_def)
qed

text \<open>The header of a new block \<open>g\<close> and its link to the last block.\<close>

definition link_block :: "u64 \<Rightarrow> u32 \<Rightarrow> u32 \<Rightarrow> u64 \<Rightarrow> mem \<Rightarrow> mem" where
  "link_block g sz fr p m = (let m = set_next g 0 (set_prev g p (set_free g fr (set_size g sz m)))
     in if p \<noteq> 0 then set_next p g m else m)"

lemma link_block_header:
  assumes "p \<noteq> 0 \<Longrightarrow> far p g"
  shows "block_size (link_block g sz fr p m) g = sz" "block_next (link_block g sz fr p m) g = 0"
    "block_prev (link_block g sz fr p m) g = p" "block_free (link_block g sz fr p m) g = fr"
    and "\<And>b. far g b \<Longrightarrow> b = p \<or> p = 0 \<or> far p b \<Longrightarrow> block_size (link_block g sz fr p m) b = block_size m b
      \<and> block_prev (link_block g sz fr p m) b = block_prev m b \<and> block_free (link_block g sz fr p m) b = block_free m b
      \<and> block_next (link_block g sz fr p m) b = (if p \<noteq> 0 \<and> b = p then g else block_next m b)"
    and "\<And>x :: u64. unat g + 32 \<le> 2 ^ 63 \<Longrightarrow> \<not> (unat g \<le> unat x \<and> unat x < unat g + 32) \<Longrightarrow>
      p = 0 \<or> \<not> (unat p \<le> unat x \<and> unat x < unat p + 32) \<Longrightarrow> link_block g sz fr p m x = m x"
proof -
  show "block_size (link_block g sz fr p m) g = sz" "block_next (link_block g sz fr p m) g = 0"
    "block_prev (link_block g sz fr p m) g = p" "block_free (link_block g sz fr p m) g = fr"
    using assms by (auto simp: link_block_def Let_def block_far)
  show "block_size (link_block g sz fr p m) b = block_size m b
      \<and> block_prev (link_block g sz fr p m) b = block_prev m b \<and> block_free (link_block g sz fr p m) b = block_free m b
      \<and> block_next (link_block g sz fr p m) b = (if p \<noteq> 0 \<and> b = p then g else block_next m b)"
    if "far g b" "b = p \<or> p = 0 \<or> far p b" for b
  proof -
    have "\<not> far p p" by (simp add: far_def)
    then show ?thesis using that by (auto simp: link_block_def Let_def block_far)
  qed
  show "link_block g sz fr p m x = m x" if "unat g + 32 \<le> 2 ^ 63" "\<not> (unat g \<le> unat x \<and> unat x < unat g + 32)"
    "p = 0 \<or> \<not> (unat p \<le> unat x \<and> unat x < unat p + 32)" for x :: u64
    using that assms by (auto simp: link_block_def Let_def set_outside far_def not_le not_less)
qed

lemma last_null: "0 \<notin> set xs \<Longrightarrow> last (0 # xs) \<noteq> 0 \<longleftrightarrow> xs \<noteq> []"
  using last_in_set [of xs] by (cases "xs = []") (simp, metis last_ConsR)

lemma last_block_null: "heap_list H m a bs \<Longrightarrow> last (0 # bs) \<noteq> 0 \<longleftrightarrow> bs \<noteq> []"
  using last_null [of bs] path_nonzero [of m 0 a bs 0] by (simp add: heap_list_def)

lemma link_block_list:
  assumes hl: "heap_list H m a bs" and HH: "H \<subseteq> H'" and g: "g \<noteq> 0"
    and f: "f \<in> H'" "unat f + 4096 \<le> 2 ^ 63" "unat f \<le> unat g" "unat g + 32 + unat sz \<le> unat f + 4096"
    and ap: "\<forall>b \<in> set bs. unat b + block_len m b \<le> unat g \<or> unat g + 32 + unat sz \<le> unat b"
    and m': "m' = link_block g sz fr (last (0 # bs)) m"
  shows "heap_list H' m' (if bs = [] then g else a) (bs @ [g])"
    and "block_size m' g = sz" "block_free m' g = fr" "g \<notin> set bs"
    and "\<And>b. b \<in> set bs \<Longrightarrow> block_size m' b = block_size m b \<and> block_free m' b = block_free m b"
    and "\<And>x :: u64. \<not> (unat g \<le> unat x \<and> unat x < unat g + 32) \<Longrightarrow>
      (\<And>b. b \<in> set bs \<Longrightarrow> \<not> (unat b \<le> unat x \<and> unat x < unat b + 32)) \<Longrightarrow> m' x = m x"
proof -
  let ?p = "last (0 # bs)"
  have bi: "block_in H m b" if "b \<in> set bs" for b using hl that by (simp add: heap_list_def)
  have far_g: "far b g" if "b \<in> set bs" for b
    using bspec [OF ap that] block_in_bounds [OF bi [OF that]] f by (auto simp: far_def block_len_def)
  note pz = last_block_null [OF hl]
  have pin: "?p \<noteq> 0 \<Longrightarrow> ?p \<in> set bs" using pz by (auto split: if_splits)
  note h = link_block_header [where p = ?p and g = g and sz = sz and fr = fr and m = m, folded m', OF far_g [OF pin]]
  have hb: "block_size m' b = block_size m b \<and> block_prev m' b = block_prev m b \<and> block_free m' b = block_free m b
      \<and> block_next m' b = (if b = last bs then g else block_next m b)" if b: "b \<in> set bs" for b
  proof -
    have "bs \<noteq> []" using b by auto
    moreover have "b = ?p \<or> far ?p b" using heap_far [OF hl pin b] pz \<open>bs \<noteq> []\<close> by auto
    ultimately show ?thesis using h(5) [of b] far_g [OF b] pz by (auto simp: far_sym)
  qed
  have len: "block_len m' g = 32 + unat sz" using h(1) by (simp add: block_len_def)
  have apg: "blocks_apart m' b g" if "b \<in> set bs" for b
    using bspec [OF ap that] hb [OF that] len by (auto simp: blocks_apart_def block_len_def)
  have "block_in H' m' g" unfolding block_in_def using f len by (intro bexI [of _ f]) auto
  then show "heap_list H' m' (if bs = [] then g else a) (bs @ [g])"
    using h(2,3) apg hb by (intro heap_list_snoc [OF hl HH g]) auto
  show "block_size m' g = sz" by (rule h(1))
  show "block_free m' g = fr" by (rule h(4))
  show "g \<notin> set bs" using far_g [of g] by (auto simp: far_def)
  show "\<And>b. b \<in> set bs \<Longrightarrow> block_size m' b = block_size m b \<and> block_free m' b = block_free m b" using hb by blast
  show "m' x = m x" if "\<not> (unat g \<le> unat x \<and> unat x < unat g + 32)"
    "\<And>b. b \<in> set bs \<Longrightarrow> \<not> (unat b \<le> unat x \<and> unat x < unat b + 32)" for x :: u64
    using h(6) [of x] f that pin by auto
qed

end
