(* ===== verification/Heap_Alloc.thy ===== *)
theory Heap_Alloc
  imports Heap_List
begin

section \<open>Allocation on the kernel heap\<close>

text \<open>
  The list of blocks in the frames taken from the physical allocator: \<open>expand_heap\<close>, \<open>mmu_kmalloc\<close> and
  \<open>mmu_kfree\<close> keep it sound and keep the blocks in use.
\<close>

subsection \<open>The heap in the frames of the allocator\<close>

definition heap_ok :: "u64 set \<Rightarrow> nat \<Rightarrow> nat \<Rightarrow> 'a mmu_state_scheme \<Rightarrow> u64 list \<Rightarrow> bool" where
  "heap_ok P N K s bs \<longleftrightarrow> pmm_ok P N K s \<and> heap_list (P - set (pmm_frames s)) (mem s) (base_addr s) bs"

lemma block_cong:
  assumes "unat b + 32 \<le> 2 ^ 63" and eq: "\<And>x. unat b \<le> unat x \<Longrightarrow> unat x < unat b + 32 \<Longrightarrow> m' x = m x"
  shows "block_size m' b = block_size m b" "block_next m' b = block_next m b" "block_prev m' b = block_prev m b"
    "block_free m' b = block_free m b"
proof -
  have ld: "load_bytes m' (b + of_nat i) n = load_bytes m (b + of_nat i) n" if "i + n \<le> 32" for i n
  proof (rule nth_equalityI)
    fix j assume "j < length (load_bytes m' (b + of_nat i) n)"
    then have j: "i + j < 32" "j < n" using that by simp_all
    have "unat (b + of_nat (i + j)) = unat b + (i + j)" using assms(1) j by (intro unat_add_small) simp
    then have "m' (b + of_nat (i + j)) = m (b + of_nat (i + j))" using j by (intro eq) simp_all
    then show "load_bytes m' (b + of_nat i) n ! j = load_bytes m (b + of_nat i) n ! j"
      using j by (simp add: add.assoc)
  qed simp
  show "block_size m' b = block_size m b" "block_next m' b = block_next m b" "block_prev m' b = block_prev m b"
    "block_free m' b = block_free m b"
    using ld [of 0 4] ld [of 8 8] ld [of 16 8] ld [of 24 4] by (simp_all add: block_defs load32_def load64_def)
qed

lemma frame_distance:
  assumes "pmm_layout P N K s" and "f \<in> P" and "g \<in> P" and "f \<noteq> g"
  shows "unat f + 4096 \<le> unat g \<or> unat g + 4096 \<le> unat f"
proof -
  have m: "unat h mod 4096 = 0" if "h \<in> P" for h
  proof -
    have "h mod PMM_BLOCK_SIZE = 0" using assms(1) that by (simp add: pmm_layout_def)
    then have "unat (h mod PMM_BLOCK_SIZE) = 0" by simp
    then show ?thesis by (simp add: unat_mod_distrib)
  qed
  obtain i j where ij: "unat f = 4096 * i" "unat g = 4096 * j" using m [OF assms(2)] m [OF assms(3)] by (metis mod_0_imp_dvd dvdE)
  have "unat f \<noteq> unat g" using assms(4) by (simp add: word_unat_eq_iff)
  then have "i \<noteq> j" using ij by auto
  then have "i + 1 \<le> j \<or> j + 1 \<le> i" by arith
  then show ?thesis using ij by auto
qed

text \<open>The blocks lie outside the allocator's own tables and outside every free frame.\<close>

lemma heap_block_places:
  assumes "heap_ok P N K s bs" and "b \<in> set bs"
  shows "unat b \<le> unat x \<Longrightarrow> unat x < unat b + block_len (mem s) b \<Longrightarrow> \<not> pmm_area K s x"
    and "f \<in> set (pmm_frames s) \<Longrightarrow> unat b + block_len (mem s) b \<le> unat f \<or> unat f + 4096 \<le> unat b"
proof -
  have lay: "pmm_layout P N K s" "set (pmm_frames s) \<subseteq> P" using assms(1) by (simp_all add: heap_ok_def pmm_ok_def)
  obtain g where g: "g \<in> P - set (pmm_frames s)" "unat g \<le> unat b" "unat b + block_len (mem s) b \<le> unat g + 4096"
    using assms by (auto simp: heap_ok_def heap_list_def block_in_def)
  show "\<not> pmm_area K s x" if "unat b \<le> unat x" "unat x < unat b + block_len (mem s) b"
    using pool_frame(2) [OF lay(1), of g x] g that by (auto simp: in_frame_def)
  show "unat b + block_len (mem s) b \<le> unat f \<or> unat f + 4096 \<le> unat b" if "f \<in> set (pmm_frames s)"
  proof -
    have "f \<in> P" "f \<noteq> g" using that lay(2) g by auto
    then show ?thesis using frame_distance [OF lay(1), of f g] g by auto
  qed
qed

text \<open>A change of the memory outside the allocator's tables that leaves the list in order.\<close>

lemma heap_ok_mem:
  assumes "pmm_ok P N K s" and "heap_list (P - set (pmm_frames s)) m a bs"
    and "\<And>x. pmm_area K s x \<Longrightarrow> m x = mem s x"
  shows "heap_ok P N K (s\<lparr>mem := m, base_addr := a\<rparr>) bs"
proof -
  have "pmm_frames (s\<lparr>mem := m, base_addr := a\<rparr>) = pmm_frames (s\<lparr>mem := m\<rparr>)" by (simp add: pmm_frames_def)
  then have "pmm_frames (s\<lparr>mem := m, base_addr := a\<rparr>) = pmm_frames s" using pmm_frames_mem [OF assms(1,3)] by simp
  then show ?thesis using assms(1,2) by (simp add: heap_ok_def pmm_ok_def pmm_layout_def)
qed

text \<open>The frame a new block gets.\<close>

lemma heap_gmem:
  assumes ok: "heap_ok P N K s bs" and fs: "pmm_frames s = fs @ [f]"
  shows "\<exists>t. gmem s = (f, t) \<and> pmm_ok P N K t \<and> pmm_frames t = fs \<and> f \<in> P \<and> f \<noteq> 0 \<and> unat f + 4096 \<le> 2 ^ 63
    \<and> heap_list (P - set (pmm_frames s)) (mem t) (base_addr s) bs \<and> base_addr t = base_addr s
    \<and> (\<forall>b \<in> set bs. block_free (mem t) b = block_free (mem s) b \<and> block_size (mem t) b = block_size (mem s) b)
    \<and> (\<forall>x. \<not> pmm_area K s x \<longrightarrow> mem t x = mem s x) \<and> pmm_area K t = pmm_area K s"
proof -
  have ok': "pmm_ok P N K s" using ok by (simp add: heap_ok_def)
  obtain t where t: "gmem s = (f, t)" "pmm_ok P N K t" "pmm_frames t = fs" using gmem_frame [OF ok' fs] by blast
  have w: "\<forall>x. \<not> pmm_area K s x \<longrightarrow> mem t x = mem s x" using gmem_writes [OF ok' t(1)] by blast
  have hd: "block_size (mem t) b = block_size (mem s) b" "block_next (mem t) b = block_next (mem s) b"
    "block_prev (mem t) b = block_prev (mem s) b" "block_free (mem t) b = block_free (mem s) b" if "b \<in> set bs" for b
  proof -
    have "block_in (P - set (pmm_frames s)) (mem s) b" using ok that by (simp add: heap_ok_def heap_list_def)
    note bb = block_in_bounds(1) [OF this]
    have "mem t x = mem s x" if "unat b \<le> unat x" "unat x < unat b + 32" for x
      using heap_block_places(1) [OF ok \<open>b \<in> set bs\<close> that(1)] that(2) w by (simp add: block_len_def)
    from block_cong [where m' = "mem t" and m = "mem s", OF bb this] show "block_size (mem t) b = block_size (mem s) b" "block_next (mem t) b = block_next (mem s) b"
      "block_prev (mem t) b = block_prev (mem s) b" "block_free (mem t) b = block_free (mem s) b" by blast+
  qed
  have "heap_list (P - set (pmm_frames s)) (mem s) (base_addr s) bs" using ok by (simp add: heap_ok_def)
  then have "heap_list (P - set (pmm_frames s)) (mem t) (base_addr s) bs" by (rule heap_list_cong) (simp_all add: hd)
  moreover have te: "t = s\<lparr>mem := mem t, free_blocks := free_blocks t\<rparr>" by (rule gmem_rest [OF t(1)])
  then have "base_addr t = base_addr s" by (metis mmu_state.select_convs(3) mmu_state.surjective pmm_state.update_convs(4) machine.update_convs(1))
  moreover have "pmm_area K t = pmm_area K s"
    using arg_cong [OF te, of mem_stack] arg_cong [OF te, of pmm_map] by (simp add: pmm_area_def fun_eq_iff)
  moreover have fP: "f \<in> P" using ok' fs by (simp add: pmm_ok_def)
  moreover have "is_frame f"
  proof -
    have "pmm_layout P N K s" using ok' by (simp add: pmm_ok_def)
    from pool_frame(1) [OF this fP] show ?thesis .
  qed
  ultimately show ?thesis using t w hd by (auto simp: is_frame_def)
qed

text \<open>What an allocation leaves of the blocks that are in use: they stay, with their size and their data.\<close>

definition used_kept :: "mem \<Rightarrow> u64 list \<Rightarrow> mem \<Rightarrow> u64 list \<Rightarrow> bool" where
  "used_kept m bs m' cs \<longleftrightarrow> (\<forall>b \<in> set bs. block_free m b = 0 \<longrightarrow> b \<in> set cs \<and> block_free m' b = 0
     \<and> block_size m' b = block_size m b \<and> (\<forall>x. in_data m b x \<longrightarrow> m' x = m x))"

lemma expand_heap_eq:
  assumes "gmem s = (f, t)" and "f \<noteq> 0" and "0 < unat sz" and "unat sz \<le> 4064"
  shows "expand_heap p sz s =
    (let m1 = link_block f (ucast sz) 0 p (mem t); a = (if p \<noteq> 0 then base_addr t else f); r = 4096 mod unat sz
     in Some (f, t\<lparr>mem := (if 36 < r then link_block (f + sz + 32) (of_nat (r - 32)) 1 f m1 else m1), base_addr := a\<rparr>))"
proof -
  have sz: "sz \<noteq> 0" "unat (VMM_PAGE_SIZE mod sz) = 4096 mod unat sz"
    using assms(3) by (auto simp: unat_mod_distrib)
  have r: "4096 mod unat sz < 4064" using mod_less_divisor [OF assms(3), of 4096] assms(4) by linarith
  define fb where "fb = (ucast (VMM_PAGE_SIZE mod sz) :: u32)"
  have fb: "unat fb = 4096 mod unat sz" using r by (simp add: fb_def unsigned_ucast_eq take_bit_nat_eq_self sz(2))
  then have fb': "unat fb \<le> 4064" using r by simp
  have c1: "scast fb > BLOCK_SIZE + MIN_ALLOC_SIZE \<longleftrightarrow> 36 < 4096 mod unat sz"
    using size_u64(2) [OF fb'] fb by (simp add: word_less_nat_alt)
  have "uint fb < int 4065" by (rule uint_less_unat) (use fb' in simp)
  then have c2: "sint fb < 4096" using sint_small [of fb] by simp
  have c3: "ucast (scast fb - BLOCK_SIZE :: u64) = (of_nat (4096 mod unat sz - 32) :: u32)" if "36 < 4096 mod unat sz"
  proof -
    have "unat (scast fb - BLOCK_SIZE :: u64) = 4096 mod unat sz - 32"
      using unat_sub [of "32 :: u64" "scast fb"] size_u64(2) [OF fb'] fb that by (simp add: word_le_nat_alt)
    then have "unat (ucast (scast fb - BLOCK_SIZE :: u64) :: u32) = 4096 mod unat sz - 32"
      using r by (simp add: unsigned_ucast_eq take_bit_nat_eq_self)
    then show ?thesis by (rule word_of_unat)
  qed
  show ?thesis
    unfolding expand_heap_def Let_def assms(1) fb_def [symmetric] using assms(2) sz(1) c1 c2 c3
    by (auto simp: link_block_def Let_def)
qed

lemma mod_split: "0 < (n :: nat) \<Longrightarrow> n \<le> 2048 \<Longrightarrow> n + 4096 mod n \<le> 4096 - n"
proof -
  assume n: "0 < n" "n \<le> 2048"
  have "2 \<le> 4096 div n" using div_le_mono2 [OF n(1), of 2048 4096] n by (simp add: Suc_leI div_greater_zero_iff)
  then have "2 * n \<le> 4096 div n * n" by (rule mult_le_mono1)
  moreover have "4096 div n * n + 4096 mod n = 4096" by simp
  ultimately show ?thesis by linarith
qed

lemma data_not_header:
  assumes "heap_list H m a bs" and "b \<in> set bs" and "c \<in> set bs" and "in_data m c x"
  shows "\<not> (unat b \<le> unat x \<and> unat x < unat b + 32)"
proof (cases "b = c")
  case False
  then have "blocks_apart m b c" using assms by (simp add: heap_list_def)
  then show ?thesis using assms(4) by (auto simp: blocks_apart_def in_data_def block_len_def)
qed (use assms(4) in \<open>simp add: in_data_def\<close>)

text \<open>The places an allocation leaves: the allocator's tables and the data of all blocks.\<close>

definition reserved :: "nat \<Rightarrow> 'a mmu_state_scheme \<Rightarrow> u64 list \<Rightarrow> u64 \<Rightarrow> bool" where
  "reserved K s bs x \<longleftrightarrow> pmm_area K s x \<or> (\<exists>b \<in> set bs. in_data (mem s) b x)"

lemma reserved_outside:
  assumes "heap_ok P N K s bs" and "reserved K s bs x"
  shows "b \<in> set bs \<Longrightarrow> \<not> (unat b \<le> unat x \<and> unat x < unat b + 32)"
    and "f \<in> set (pmm_frames s) \<Longrightarrow> \<not> (unat f \<le> unat x \<and> unat x < unat f + 4096)"
proof -
  have hl: "heap_list (P - set (pmm_frames s)) (mem s) (base_addr s) bs" using assms(1) by (simp add: heap_ok_def)
  show "\<not> (unat b \<le> unat x \<and> unat x < unat b + 32)" if "b \<in> set bs"
    using assms(2) heap_block_places(1) [OF assms(1) that, of x] data_not_header [OF hl that]
    by (auto simp: reserved_def block_len_def)
  show "\<not> (unat f \<le> unat x \<and> unat x < unat f + 4096)" if f: "f \<in> set (pmm_frames s)"
  proof (cases "pmm_area K s x")
    case True
    have "pmm_layout P N K s" "f \<in> P" using assms(1) f by (auto simp: heap_ok_def pmm_ok_def)
    from pool_frame(2) [OF this, of x] show ?thesis using True by (auto simp: in_frame_def)
  next
    case False
    then obtain b where b: "b \<in> set bs" "in_data (mem s) b x" using assms(2) by (auto simp: reserved_def)
    show ?thesis using heap_block_places(2) [OF assms(1) b(1) f] b(2) by (auto simp: in_data_def)
  qed
qed

lemma expand_heap_ok:
  assumes ok: "heap_ok P N K s bs" and fs: "pmm_frames s = fs @ [f]" and sz: "0 < unat sz" "unat sz \<le> 2048"
  shows "\<exists>t cs. expand_heap (last (0 # bs)) sz s = Some (f, t) \<and> heap_ok P N K t cs \<and> f \<in> set cs \<and> f \<notin> set bs
    \<and> block_free (mem t) f = 0 \<and> block_size (mem t) f = ucast sz \<and> used_kept (mem s) bs (mem t) cs"
proof -
  obtain t where t: "gmem s = (f, t)" "pmm_ok P N K t" "pmm_frames t = fs" "f \<in> P" "f \<noteq> 0" "unat f + 4096 \<le> 2 ^ 63"
    "heap_list (P - set (pmm_frames s)) (mem t) (base_addr s) bs" "base_addr t = base_addr s"
    "\<forall>b \<in> set bs. block_free (mem t) b = block_free (mem s) b \<and> block_size (mem t) b = block_size (mem s) b"
    "\<forall>x. \<not> pmm_area K s x \<longrightarrow> mem t x = mem s x" "pmm_area K t = pmm_area K s"
    using heap_gmem [OF ok fs] by blast
  let ?H = "P - set fs" and ?p = "last (0 # bs)" and ?a = "if bs = [] then f else base_addr s"
  have fH: "f \<in> ?H" "P - set (pmm_frames s) \<subseteq> ?H" using t(4) ok fs by (auto simp: heap_ok_def pmm_ok_def)
  define r where "r = 4096 mod unat sz"
  have ur: "unat (ucast sz :: u32) = unat sz" using sz(2) by (simp add: unsigned_ucast_eq take_bit_nat_eq_self)
  have rr: "unat sz + r \<le> 4096 - unat sz" unfolding r_def by (rule mod_split [OF sz])
  have rlt: "r < unat sz" using sz(1) by (simp add: r_def)
  have away: "unat b + block_len (mem t) b \<le> unat f \<or> unat f + 4096 \<le> unat b" if "b \<in> set bs" for b
    using heap_block_places(2) [OF ok that, of f] t(9) that fs by (simp add: block_len_def)
  define m1 where "m1 = link_block f (ucast sz) 0 ?p (mem t)"
  have ap1: "\<forall>b \<in> set bs. unat b + block_len (mem t) b \<le> unat f \<or> unat f + 32 + unat (ucast sz :: u32) \<le> unat b"
    using away ur sz(2) by fastforce
  have le: "unat f + 32 + unat (ucast sz :: u32) \<le> unat f + 4096" using ur sz(2) by simp
  note l1 = link_block_list [OF t(7) fH(2) t(5) fH(1) t(6) order_refl le ap1 m1_def]
  note l1a = l1(1) and f1 = l1(2-4)
  have b1: "block_size m1 b = block_size (mem s) b \<and> block_free m1 b = block_free (mem s) b" if "b \<in> set bs" for b
    using l1(5) [OF that] t(9) that by simp
  have out1: "m1 x = mem t x" if "reserved K s bs x" for x
    using l1(6) [of x] reserved_outside [OF ok that] fs sz(2) by fastforce
  define g where "g = f + sz + 32"
  define m2 where "m2 = (if 36 < r then link_block g (of_nat (r - 32)) 1 f m1 else m1)"
  define cs where "cs = (if 36 < r then bs @ [f, g] else bs @ [f])"
  have two: "heap_list ?H m2 ?a cs \<and> block_size m2 f = ucast sz \<and> block_free m2 f = 0
      \<and> (\<forall>b \<in> set bs. block_size m2 b = block_size m1 b \<and> block_free m2 b = block_free m1 b)
      \<and> (\<forall>x. reserved K s bs x \<longrightarrow> m2 x = m1 x)"
  proof (cases "36 < r")
    case True
    have tot: "unat sz + r + 32 \<le> 4096" using True rr rlt by arith
    have ug: "unat g = unat f + (unat sz + 32)"
      using unat_add_small [of f "unat sz + 32"] t(6) sz(2) by (simp add: g_def algebra_simps)
    have us: "unat (of_nat (r - 32) :: u32) = r - 32" using rr by (intro unat_of_nat_small) simp
    have ap2: "\<forall>b \<in> set (bs @ [f]). unat b + block_len m1 b \<le> unat g \<or> unat g + 32 + unat (of_nat (r - 32) :: u32) \<le> unat b"
    proof
      fix b assume that: "b \<in> set (bs @ [f])"
      show "unat b + block_len m1 b \<le> unat g \<or> unat g + 32 + unat (of_nat (r - 32) :: u32) \<le> unat b"
    proof (cases "b = f")
      case True
      then show ?thesis using f1(1) ur ug by (simp add: block_len_def)
    next
      case False
      then have "b \<in> set bs" using that by simp
      moreover from this have "block_len m1 b = block_len (mem t) b" using b1 t(9) by (simp add: block_len_def)
      ultimately show ?thesis using away [OF \<open>b \<in> set bs\<close>] ug us tot True by (elim disjE) simp_all
    qed
    qed
    have pre: "g \<noteq> 0" "unat f \<le> unat g" "unat g + 32 + unat (of_nat (r - 32) :: u32) \<le> unat f + 4096"
        "m2 = link_block g (of_nat (r - 32)) 1 (last (0 # (bs @ [f]))) m1"
      using ug us tot True by (auto simp: m2_def)
    note l2 = link_block_list [OF l1a subset_refl pre(1) fH(1) t(6) pre(2,3) ap2 pre(4)]
    have "heap_list ?H m2 ?a (bs @ [f] @ [g])" using l2(1) by simp
    moreover have "m2 x = m1 x" if x: "reserved K s bs x" for x
    proof (rule l2(6))
      show "\<not> (unat g \<le> unat x \<and> unat x < unat g + 32)"
        using reserved_outside(2) [OF ok x, of f] fs ug sz(2) by auto
      show "\<not> (unat b \<le> unat x \<and> unat x < unat b + 32)" if "b \<in> set (bs @ [f])" for b
        using reserved_outside [OF ok x] fs that by fastforce
    qed
    ultimately show ?thesis using l2(5) f1 True by (auto simp: cs_def)
  qed (use l1a f1 in \<open>simp add: m2_def cs_def\<close>)
  have sz': "unat sz \<le> 4064" using sz(2) by simp
  let ?t = "t\<lparr>mem := m2, base_addr := ?a\<rparr>"
  note pz = last_block_null [OF t(7)]
  have "expand_heap ?p sz s = Some (f, ?t)"
    unfolding expand_heap_eq [OF t(1,5) sz(1) sz'] Let_def m1_def [symmetric] r_def [symmetric] g_def [symmetric] m2_def [symmetric]
    using pz t(8) by (simp del: last.simps)
  moreover have "heap_ok P N K ?t cs"
  proof (rule heap_ok_mem [OF t(2)])
    show "m2 x = mem t x" if "pmm_area K t x" for x using two out1 [of x] that t(11) by (auto simp: reserved_def)
  qed (use two t(3) in simp)
  moreover have "used_kept (mem s) bs m2 cs"
    unfolding used_kept_def
  proof (intro ballI impI conjI allI)
    fix b assume b: "b \<in> set bs" "block_free (mem s) b = 0"
    show "b \<in> set cs" using b by (simp add: cs_def)
    show "block_free m2 b = 0" "block_size m2 b = block_size (mem s) b" using b two b1 by auto
    fix x assume "in_data (mem s) b x"
    then have "reserved K s bs x" "\<not> pmm_area K s x"
      using b heap_block_places(1) [OF ok b(1), of x] by (auto simp: reserved_def in_data_def)
    then show "m2 x = mem s x" using two out1 t(10) by simp
  qed
  moreover have "f \<in> set cs" by (simp add: cs_def)
  ultimately show ?thesis using two f1(3) by (intro exI [of _ ?t] exI [of _ cs]) simp
qed

lemma fits_unat:
  assumes "heap_list H m a bs" and "b \<in> set bs"
  shows "block_fits m b sz \<longleftrightarrow> block_free m b \<noteq> 0 \<and> unat sz \<le> unat (block_size m b)"
    and "unat sz \<le> unat (block_size m b) \<Longrightarrow>
      scast (block_size m b) - sz \<ge> BLOCK_SIZE + MIN_ALLOC_SIZE \<longleftrightarrow> unat sz + 36 \<le> unat (block_size m b)"
proof -
  have "block_in H m b" using assms by (simp add: heap_list_def)
  note u = size_u64(2) [OF block_in_bounds(2) [OF this]]
  show "block_fits m b sz \<longleftrightarrow> block_free m b \<noteq> 0 \<and> unat sz \<le> unat (block_size m b)"
    by (simp add: block_fits_def word_le_nat_alt u)
  show "scast (block_size m b) - sz \<ge> BLOCK_SIZE + MIN_ALLOC_SIZE \<longleftrightarrow> unat sz + 36 \<le> unat (block_size m b)"
    if "unat sz \<le> unat (block_size m b)"
    using unat_sub [of sz "scast (block_size m b)"] that u by (auto simp: word_le_nat_alt)
qed

text \<open>Taking a free block, whole or split.\<close>

lemma take_block_ok:
  assumes ok: "heap_ok P N K s bs" and bs: "bs = xs @ b # ys" and b: "block_free (mem s) b \<noteq> 0"
    and sz: "unat sz \<le> unat (block_size (mem s) b)"
    and t: "t = s\<lparr>mem := set_free b 0 (if scast (block_size (mem s) b) - sz \<ge> BLOCK_SIZE + MIN_ALLOC_SIZE
      then split_block b sz (mem s) else mem s)\<rparr>"
  shows "\<exists>cs. heap_ok P N K t cs \<and> b \<in> set cs \<and> block_free (mem t) b = 0 \<and> unat sz \<le> unat (block_size (mem t) b)
    \<and> used_kept (mem s) bs (mem t) cs"
proof -
  define H where "H = P - set (pmm_frames s)"
  have hl: "heap_list H (mem s) (base_addr s) bs" and pok: "pmm_ok P N K s" using ok by (simp_all add: heap_ok_def H_def)
  have bin: "b \<in> set bs" by (simp add: bs)
  define m1 where "m1 = (if scast (block_size (mem s) b) - sz \<ge> BLOCK_SIZE + MIN_ALLOC_SIZE
    then split_block b sz (mem s) else mem s)"
  have "\<exists>cs. heap_list H m1 (base_addr s) cs \<and> set bs \<subseteq> set cs \<and> unat sz \<le> unat (block_size m1 b)
    \<and> (\<forall>c \<in> set bs. c \<noteq> b \<longrightarrow> block_size m1 c = block_size (mem s) c \<and> block_free m1 c = block_free (mem s) c)
    \<and> (\<forall>x. \<not> (unat b \<le> unat x \<and> unat x < unat b + block_len (mem s) b) \<longrightarrow>
         (\<forall>c \<in> set bs. \<not> (unat c \<le> unat x \<and> unat x < unat c + 32)) \<longrightarrow> m1 x = mem s x)"
  proof (cases "scast (block_size (mem s) b) - sz \<ge> BLOCK_SIZE + MIN_ALLOC_SIZE")
    case True
    then have "unat sz + 32 \<le> unat (block_size (mem s) b)" using fits_unat(2) [OF hl bin sz] by simp
    note sp = split_block_list [OF hl [unfolded bs] this refl refl]
    have "m1 = split_block b sz (mem s)" using True by (simp add: m1_def)
    moreover have "unat (ucast sz :: u32) = unat sz"
      using sz unat_lt32 [of "block_size (mem s) b"] by (simp add: unsigned_ucast_eq take_bit_nat_eq_self)
    ultimately show ?thesis
      using sp(1,2,5,6) by (intro exI [of _ "xs @ b # (b + 32 + sz) # ys"]) (auto simp: bs)
  qed (use hl sz in \<open>auto simp: m1_def intro!: exI [of _ bs]\<close>)
  then obtain cs where cs: "heap_list H m1 (base_addr s) cs" "set bs \<subseteq> set cs" "unat sz \<le> unat (block_size m1 b)"
    "\<And>c. c \<in> set bs \<Longrightarrow> c \<noteq> b \<Longrightarrow> block_size m1 c = block_size (mem s) c \<and> block_free m1 c = block_free (mem s) c"
    "\<And>x. \<not> (unat b \<le> unat x \<and> unat x < unat b + block_len (mem s) b) \<Longrightarrow>
         (\<forall>c \<in> set bs. \<not> (unat c \<le> unat x \<and> unat x < unat c + 32)) \<Longrightarrow> m1 x = mem s x" by blast
  have tm: "mem t = set_free b 0 m1" by (simp add: t m1_def)
  have bc: "b \<in> set cs" using cs(2) bin by blast
  have other: "block_next (mem t) c = block_next m1 c \<and> block_prev (mem t) c = block_prev m1 c
      \<and> block_size (mem t) c = block_size m1 c \<and> (c \<noteq> b \<longrightarrow> block_free (mem t) c = block_free m1 c)" if "c \<in> set cs" for c
    using heap_far [OF cs(1) bc that] by (cases "c = b") (simp_all add: tm block_far)
  have hl2: "heap_list H (mem t) (base_addr s) cs" by (rule heap_list_cong [OF cs(1)]) (use other in auto)
  have b63: "unat b + 32 \<le> 2 ^ 63" using hl bin block_in_bounds(1) by (auto simp: heap_list_def)
  have out: "mem t x = mem s x" if "pmm_area K s x \<or> (\<exists>c \<in> set bs. c \<noteq> b \<and> in_data (mem s) c x)" for x
  proof -
    have rx: "reserved K s bs x" using that by (auto simp: reserved_def)
    have "\<not> (unat b \<le> unat x \<and> unat x < unat b + block_len (mem s) b)"
      using that
    proof (elim disjE bexE conjE)
      assume "pmm_area K s x"
      then show ?thesis using heap_block_places(1) [OF ok bin, of x] by blast
    next
      fix c assume "c \<in> set bs" "c \<noteq> b" "in_data (mem s) c x"
      moreover from this have "blocks_apart (mem s) b c" using hl bin by (simp add: heap_list_def)
      ultimately show ?thesis by (auto simp: blocks_apart_def in_data_def)
    qed
    then have "m1 x = mem s x" using cs(5) reserved_outside(1) [OF ok rx] by blast
    moreover have "mem t x = m1 x"
      using set_outside(4) [OF b63, of x] reserved_outside(1) [OF ok rx bin] by (auto simp: tm)
    ultimately show ?thesis by simp
  qed
  have teq: "s\<lparr>mem := mem t, base_addr := base_addr s\<rparr> = t" by (simp add: t)
  have "heap_ok P N K (s\<lparr>mem := mem t, base_addr := base_addr s\<rparr>) cs"
    by (rule heap_ok_mem [OF pok]) (use hl2 out in \<open>auto simp: H_def\<close>)
  then have "heap_ok P N K t cs" unfolding teq .
  moreover have "used_kept (mem s) bs (mem t) cs"
    unfolding used_kept_def
  proof (intro ballI impI conjI allI)
    fix c assume c: "c \<in> set bs" "block_free (mem s) c = 0"
    then have ne: "c \<noteq> b" using b by auto
    show ci: "c \<in> set cs" using c cs(2) by blast
    show "block_free (mem t) c = 0" "block_size (mem t) c = block_size (mem s) c" using other [OF ci] cs(4) [OF c(1) ne] ne c by auto
    show "mem t x = mem s x" if "in_data (mem s) c x" for x using out [of x] that c ne by blast
  qed
  moreover have "block_free (mem t) b = 0" "unat sz \<le> unat (block_size (mem t) b)" using other [OF bc] cs(3) by (simp_all add: tm)
  ultimately show ?thesis using bc by blast
qed

lemma kmalloc_ok:
  assumes ok: "heap_ok P N K s bs" and mem: "pmm_frames s \<noteq> []" and sz: "0 < unat sz" "unat sz \<le> 2048"
  shows "\<exists>b t cs. mmu_kmalloc sz s = Some (b + 32, t) \<and> heap_ok P N K t cs \<and> b \<in> set cs \<and> block_free (mem t) b = 0
    \<and> unat sz \<le> unat (block_size (mem t) b) \<and> (b \<in> set bs \<longrightarrow> block_free (mem s) b \<noteq> 0) \<and> used_kept (mem s) bs (mem t) cs"
proof -
  obtain fs f where fs: "pmm_frames s = fs @ [f]" using mem by (cases "pmm_frames s" rule: rev_cases) auto
  have hl: "heap_list (P - set (pmm_frames s)) (mem s) (base_addr s) bs" using ok by (simp add: heap_ok_def)
  then have p: "path (mem s) 0 (base_addr s) bs 0" by (simp add: heap_list_def)
  then have b0: "base_addr s = 0 \<longleftrightarrow> bs = []" by (cases bs) auto
  have big: "\<not> sz > VMM_PAGE_SIZE" using sz by (simp add: word_less_nat_alt)
  obtain t cs where e: "expand_heap (last (0 # bs)) sz s = Some (f, t)" "heap_ok P N K t cs" "f \<in> set cs" "f \<notin> set bs"
    "block_free (mem t) f = 0" "block_size (mem t) f = ucast sz" "used_kept (mem s) bs (mem t) cs"
    using expand_heap_ok [OF ok fs sz] by blast
  have f0: "f \<noteq> 0" using heap_gmem [OF ok fs] by blast
  have us: "unat (ucast sz :: u32) = unat sz" using sz(2) by (simp add: unsigned_ucast_eq take_bit_nat_eq_self)
  consider "\<forall>c \<in> set bs. \<not> block_fits (mem s) c sz"
    | xs b ys where "bs = xs @ b # ys" "\<forall>c \<in> set xs. \<not> block_fits (mem s) c sz" "block_fits (mem s) b sz"
    using first_split [of bs "\<lambda>c. block_fits (mem s) c sz"] by blast
  then show ?thesis
  proof cases
    case 1
    have "bs \<noteq> [] \<Longrightarrow> find_block (base_addr s) sz s = Some (0, last (0 # bs))"
      using find_block_none [OF p, of sz "base_addr s"] 1 by (simp add: find_block_def)
    then have "mmu_kmalloc sz s = Some (f + 32, t)"
      using e(1) f0 b0 big by (cases "bs = []") (simp add: mmu_kmalloc_def, auto simp: mmu_kmalloc_def simp del: last.simps)
    then show ?thesis using e us by (intro exI [of _ f] exI [of _ t] exI [of _ cs]) simp
  next
    case (2 xs b ys)
    have bin: "b \<in> set bs" by (simp add: 2)
    have fb: "block_free (mem s) b \<noteq> 0" "unat sz \<le> unat (block_size (mem s) b)"
      using 2(3) fits_unat(1) [OF hl bin] by blast+
    have bn: "b \<noteq> 0" using path_nonzero [OF p] bin by auto
    have "find_block (base_addr s) sz s = Some (b, last (base_addr s # xs))"
      using find_block_first [OF p [unfolded 2(1)], of sz "base_addr s"] 2(2,3) by (simp add: find_block_def)
    then have k: "mmu_kmalloc sz s = Some (b + 32, s\<lparr>mem := set_free b 0
        (if scast (block_size (mem s) b) - sz \<ge> BLOCK_SIZE + MIN_ALLOC_SIZE then split_block b sz (mem s) else mem s)\<rparr>)"
      using bn b0 bin big by (auto simp: mmu_kmalloc_def Let_def)
    show ?thesis using take_block_ok [OF ok 2(1) fb refl] k fb(1) by blast
  qed
qed

subsection \<open>Freeing a block\<close>

lemma get_block_in: "heap_ok P N K s bs \<Longrightarrow> b \<in> set bs \<Longrightarrow> get_block (b + 32) s = Some b"
  unfolding get_block_def heap_ok_def heap_list_def by (blast intro: get_block_list)

lemma path_butlast:
  assumes p: "path m 0 a (xs @ [b]) 0" and d: "distinct (xs @ [b])"
    and b: "xs \<noteq> [] \<Longrightarrow> block_next m' (last xs) = 0"
    and c: "\<And>c. c \<in> set xs \<Longrightarrow> block_prev m' c = block_prev m c \<and> (c \<noteq> last xs \<longrightarrow> block_next m' c = block_next m c)"
  shows "path m' 0 (if xs = [] then 0 else a) xs 0"
proof (cases "xs = []")
  case False
  have "path m 0 a xs b" using p by (auto simp: path_append)
  from path_end [OF this] d False b c show ?thesis by auto
qed simp

lemma path_last: "path m p a (xs @ [b]) z \<Longrightarrow> block_next m b = z \<and> block_prev m b = last (p # xs)"
  by (auto simp: path_append)

lemma path_inner:
  "path m p a (xs @ b # ys) 0 \<Longrightarrow> ys \<noteq> [] \<Longrightarrow> block_next m b \<noteq> 0"
  by (cases ys) (auto simp: path_append)

lemma kfree_ok:
  assumes ok: "heap_ok P N K s bs" and bin: "b \<in> set bs"
  shows "\<exists>t. mmu_kfree (b + 32) s = Some t \<and> heap_ok P N K t (if b = last bs then butlast bs else bs)
    \<and> block_free (mem t) b = 1 \<and> used_kept (mem s) (remove1 b bs) (mem t) (if b = last bs then butlast bs else bs)"
proof -
  define H where "H = P - set (pmm_frames s)"
  have hl: "heap_list H (mem s) (base_addr s) bs" and pok: "pmm_ok P N K s" using ok by (simp_all add: heap_ok_def H_def)
  then have p: "path (mem s) 0 (base_addr s) bs 0" and d: "distinct bs" by (simp_all add: heap_list_def)
  have b0: "b \<noteq> 0" using path_nonzero [OF p] bin by auto
  define m1 where "m1 = set_free b 1 (mem s)"
  have h1: "block_next m1 c = block_next (mem s) c \<and> block_prev m1 c = block_prev (mem s) c
      \<and> block_size m1 c = block_size (mem s) c \<and> (c \<noteq> b \<longrightarrow> block_free m1 c = block_free (mem s) c)" if "c \<in> set bs" for c
    using heap_far [OF hl bin that] by (cases "c = b") (simp_all add: m1_def block_far)
  have hl1: "heap_list H m1 (base_addr s) bs" by (rule heap_list_cong [OF hl]) (use h1 in auto)
  have b63: "unat c + 32 \<le> 2 ^ 63" if "c \<in> set bs" for c using hl that block_in_bounds(1) by (auto simp: heap_list_def)
  have out1: "m1 x = mem s x" if "reserved K s bs x" for x
    using set_outside(4) [OF b63 [OF bin], of x] reserved_outside(1) [OF ok that bin] by (auto simp: m1_def)
  have kf: "mmu_kfree (b + 32) s = Some (if block_next m1 b = 0
      then if block_prev m1 b \<noteq> 0 then s\<lparr>mem := set_next (block_prev m1 b) 0 m1\<rparr> else s\<lparr>mem := m1, base_addr := 0\<rparr>
      else s\<lparr>mem := m1\<rparr>)"
    using get_block_in [OF ok bin] b0 by (simp add: mmu_kfree_def Let_def m1_def)
  have "\<exists>m2 a cs. mmu_kfree (b + 32) s = Some (s\<lparr>mem := m2, base_addr := a\<rparr>) \<and> heap_list H m2 a cs
    \<and> cs = (if b = last bs then butlast bs else bs) \<and> block_free m2 b = 1
    \<and> (\<forall>c \<in> set bs. c \<noteq> b \<longrightarrow> block_size m2 c = block_size (mem s) c \<and> block_free m2 c = block_free (mem s) c)
    \<and> (\<forall>x. reserved K s bs x \<longrightarrow> m2 x = mem s x)"
  proof (cases "b = last bs")
    case False
    obtain xs ys where bs: "bs = xs @ b # ys" using bin by (meson split_list)
    then have "ys \<noteq> []" using False by auto
    then have "block_next m1 b \<noteq> 0" using path_inner [of m1 0 "base_addr s" xs b ys] hl1 bs by (simp add: heap_list_def)
    then have "mmu_kfree (b + 32) s = Some (s\<lparr>mem := m1, base_addr := base_addr s\<rparr>)" using kf by simp
    then show ?thesis using hl1 h1 out1 False by (intro exI [of _ m1] exI [of _ "base_addr s"] exI [of _ bs]) (simp add: m1_def)
  next
    case True
    define xs where "xs = butlast bs"
    have bs: "bs = xs @ [b]" using True bin by (cases bs rule: rev_cases) (auto simp: xs_def)
    have pl: "block_next m1 b = 0" "block_prev m1 b = last (0 # xs)"
      using path_last [of m1 0 "base_addr s" xs b 0] hl1 bs by (auto simp: heap_list_def)
    define m2 where "m2 = (if xs = [] then m1 else set_next (last xs) 0 m1)"
    have pz: "last (0 # xs) \<noteq> 0 \<longleftrightarrow> xs \<noteq> []" using last_null [of xs] path_nonzero [OF p] by (simp add: bs)
    have "mmu_kfree (b + 32) s = Some (s\<lparr>mem := m2, base_addr := if xs = [] then 0 else base_addr s\<rparr>)"
      using kf pl pz by (auto simp: m2_def)
    moreover have lf: "far (last xs) c" if "xs \<noteq> []" "c \<in> set bs" "c \<noteq> last xs" for c
      by (rule heap_far [OF hl]) (use that bs in auto)
    have h2: "block_prev m2 c = block_prev m1 c \<and> block_size m2 c = block_size m1 c \<and> block_free m2 c = block_free m1 c
        \<and> (c \<noteq> last xs \<longrightarrow> block_next m2 c = block_next m1 c)" if "c \<in> set bs" for c
      using lf [OF _ that] by (cases "c = last xs") (auto simp: m2_def block_far)
    have "path m2 0 (if xs = [] then 0 else base_addr s) xs 0"
      by (rule path_butlast [of m1 _ _ b]) (use hl1 bs h2 in \<open>auto simp: heap_list_def m2_def\<close>)
    then have "heap_list H m2 (if xs = [] then 0 else base_addr s) xs"
      using hl1 h2 by (auto simp: heap_list_def bs block_in_def blocks_apart_def block_len_def)
    moreover have "m2 x = mem s x" if x: "reserved K s bs x" for x
    proof (cases "xs = []")
      case False
      then have "last xs \<in> set bs" by (simp add: bs)
      from set_outside(2) [OF b63 [OF this], of x 0 m1] reserved_outside(1) [OF ok x this] out1 [OF x]
      show ?thesis using False by (auto simp: m2_def)
    qed (use out1 x in \<open>simp add: m2_def\<close>)
    moreover have "block_free m2 b = 1" using h2 [OF bin] by (simp add: m1_def)
    ultimately show ?thesis using h1 h2 True xs_def by (intro exI conjI) auto
  qed
  then obtain m2 a cs where r: "mmu_kfree (b + 32) s = Some (s\<lparr>mem := m2, base_addr := a\<rparr>)" "heap_list H m2 a cs"
    "cs = (if b = last bs then butlast bs else bs)" "block_free m2 b = 1"
    "\<And>c. c \<in> set bs \<Longrightarrow> c \<noteq> b \<Longrightarrow> block_size m2 c = block_size (mem s) c \<and> block_free m2 c = block_free (mem s) c"
    "\<And>x. reserved K s bs x \<Longrightarrow> m2 x = mem s x" by blast
  have "heap_ok P N K (s\<lparr>mem := m2, base_addr := a\<rparr>) cs"
    by (rule heap_ok_mem [OF pok]) (use r(2,6) in \<open>auto simp: H_def reserved_def\<close>)
  moreover have "used_kept (mem s) (remove1 b bs) m2 cs"
    unfolding used_kept_def
  proof (intro ballI impI conjI allI)
    fix c assume c: "c \<in> set (remove1 b bs)" "block_free (mem s) c = 0"
    then have cb: "c \<in> set bs" "c \<noteq> b" using d by auto
    show "c \<in> set cs" using cb r(3) by (cases bs rule: rev_cases) (auto split: if_splits)
    show "block_free m2 c = 0" "block_size m2 c = block_size (mem s) c" using r(5) [OF cb] c(2) by auto
    fix x assume "in_data (mem s) c x"
    then show "m2 x = mem s x" using r(6) cb(1) by (auto simp: reserved_def)
  qed
  ultimately show ?thesis using r(1,4) unfolding r(3) by (intro exI [of _ "s\<lparr>mem := m2, base_addr := a\<rparr>"]) simp
qed

end
