(* ===== verification/Heap_Props.thy ===== *)
theory Heap_Props
  imports Heap_Alloc
begin

section \<open>Kernel heap and user pages: the properties\<close>

text \<open>
  \<open>mmap\<close> and \<open>munmap\<close> on the page of a process, and the properties of Kernel/mmu.c on a concrete machine.
\<close>

subsection \<open>Pages of the processes\<close>

lemma page_index:
  assumes "unat (pid :: u64) < 2 ^ 30" and "k = 2 * unat pid"
  shows "sint (ucast (pid * 2) :: u32) = int k"
proof -
  have "unat (pid * 2) = k" using assms by (subst unat_mult_lem [THEN iffD1]) simp_all
  then have "unat (ucast (pid * 2) :: u32) = k" using assms by (simp add: unsigned_ucast_eq take_bit_nat_eq_self)
  then have "ucast (pid * 2) = (of_nat k :: u32)" by (rule word_of_unat)
  moreover have "k < 2 ^ 31" using assms by simp
  ultimately show ?thesis using sint_word_of_int_small [of "int k"] by simp
qed

lemma bytes_negative:
  assumes "0 < d" and "d \<le> 4096"
  shows "scast (- of_nat d :: u32) = (- of_nat d :: u64)" and "scast (bytes_left (- of_nat d)) = (4096 + of_nat d :: u64)"
proof -
  have "sint (word_of_int (- int d) :: u32) = - int d" using assms by (intro sint_word_of_int_small) simp_all
  then show "scast (- of_nat d :: u32) = (- of_nat d :: u64)" by (simp add: scast_eq)
  have "sint (word_of_int (4096 + int d) :: u32) = 4096 + int d" using assms by (intro sint_word_of_int_small) simp_all
  then show "scast (bytes_left (- of_nat d)) = (4096 + of_nat d :: u64)" by (simp add: scast_eq bytes_left_def)
qed

text \<open>Giving back more than was taken makes the count of used bytes negative.\<close>

lemma munmap_more:
  assumes pid: "sched_getpid s = Some pid" "unat pid < 20" "k = 2 * unat pid"
    and len: "length (pages s) = TOTAL_PAGES" "length (bytes_used s) = TOTAL_PAGES"
    and p: "pages s ! k = p" "pages s ! Suc k \<noteq> p" "p mod VMM_PAGE_SIZE = 0"
    and used: "bytes_used s ! k = of_nat u" and n: "n = of_nat (u + d)" and d: "0 < d" "u + d \<le> 4096"
  shows "syscall_munmap p n s = Some (s\<lparr>bytes_used := (bytes_used s)[k := - of_nat d]\<rparr>)"
proof -
  have pd: "p div VMM_PAGE_SIZE * VMM_PAGE_SIZE = p" using p(3) by (metis add.right_neutral div_mult_mod_eq)
  have i: "int k + 1 = int (Suc k)" by simp
  have k: "k < length (pages s)" "Suc k < length (pages s)" "k < length (bytes_used s)" using pid(2,3) len by simp_all
  have g: "obj_get (pages s) (int k) = Some p" "obj_get (bytes_used s) (int k) = Some (of_nat u)"
    "obj_get (pages s) (int (Suc k)) = Some (pages s ! Suc k)"
    "obj_set (bytes_used s) (int k) v = Some ((bytes_used s)[k := v])" for v
    using obj_get_nat k obj_set_nat p(1) used by metis+
  have u: "sint (of_nat u :: u32) = int u" using sint_word_of_int_small [of "int u"] d by simp
  have diff: "scast (of_nat u :: u32) - n = - (of_nat d :: u64)" by (simp add: scast_eq u n)
  have nz: "- (of_nat d :: u64) \<noteq> 0"
  proof -
    have "unat (of_nat d :: u64) = d" using d by (intro unat_of_nat_small) simp
    then show ?thesis using d(1) by auto
  qed
  then have ne: "scast (of_nat u :: u32) \<noteq> n" using diff by auto
  have uc: "(ucast (- of_nat d :: u64) :: u32) = - of_nat d"
    using ucast_word_of_int [of "- int d"] by simp
  have ix: "sint (ucast (pid * 2) :: u32) = int k" by (rule page_index) (use pid(2,3) in simp_all)
  show ?thesis
    unfolding syscall_munmap_def Let_def pd pid(1) using ne p(2)
    by (simp add: numeral_2_eq_2 ix g i diff uc del: of_nat_Suc)
qed

text \<open>The next request is served from in front of the page.\<close>

lemma mmap_negative:
  assumes pid: "sched_getpid s = Some pid" "unat pid < 20" "k = 2 * unat pid" and con: "con_ok s"
    and len: "length (pages s) = TOTAL_PAGES" "length (bytes_used s) = TOTAL_PAGES"
    and p: "pages s ! k = p" "p \<noteq> 0" and used: "bytes_used s ! k = - of_nat d" and d: "0 < d" "d \<le> 4096" and n: "unat n \<le> 4096"
  shows "\<exists>t. syscall_mmap a n s = Some (p - of_nat d, t)"
proof -
  have k: "k < length (pages s)" "k < length (bytes_used s)" using pid(2,3) len by simp_all
  have g: "obj_get (pages s) (int k) = Some p" "obj_get (bytes_used s) (int k) = Some (- of_nat d)"
    "obj_set (bytes_used s) (int k) v = Some ((bytes_used s)[k := v])" for v
    using obj_get_nat k obj_set_nat p(1) used by metis+
  have ix: "sint (ucast (pid * 2) :: u32) = int k" by (rule page_index) (use pid(2,3) in simp_all)
  have "4096 + of_nat d = (of_nat (4096 + d) :: u64)" by simp
  then have "unat (4096 + of_nat d :: u64) = 4096 + d" using d(2) unat_of_nat_small [of "4096 + d", where 'a = 64] by simp
  then have room: "n \<le> 4096 + of_nat d" using n by (simp add: word_le_nat_alt)
  let ?s = "s\<lparr>bytes_used := (bytes_used s)[k := - of_nat d + ucast n]\<rparr>"
  have "con_ok ?s" using con by (simp add: con_ok_def)
  then obtain t where "kprintf (''Using page %d of thread %d, bytes left: %d'' @ [CHR 0x0A])
      [Arg_num (word_of_int (int k) - pid * 2), Arg_num pid, Arg_num (ucast (bytes_left (- of_nat d + ucast n)))] ?s = Some t"
    using kprintf_screen [of ?s "''Using page %d of thread %d, bytes left: %d'' @ [CHR 0x0A]"
      "[Arg_num (word_of_int (int k) - pid * 2), Arg_num pid, Arg_num (ucast (bytes_left (- of_nat d + ucast n)))]"]
    by (auto simp: bytes_def)
  moreover have "\<not> n > VMM_PAGE_SIZE" using n by (simp add: word_less_nat_alt)
  ultimately show ?thesis
    using room p(2) by (simp add: syscall_mmap_def numeral_2_eq_2 ix pid(1) g bytes_negative [OF d] Let_def)
qed

text \<open>A machine with the processes of \<open>sched_demo\<close>, an empty heap, and a page of process 1.\<close>

definition heap_demo :: mmu_state where
  "heap_demo = sched_state.extend sched_demo
     (mmu_state.fields ((replicate 40 0)[2 := 0x43000000]) ((replicate 40 0)[2 := 100]) 0)"

lemma heap_demo_more: "sched_state.truncate heap_demo = sched_demo"
  by (simp add: heap_demo_def sched_state.defs mmu_state.defs)

lemma heap_demo_vmm [simp]:
  "mem heap_demo = mem vmm_demo" "mem_stack heap_demo = mem_stack vmm_demo" "pmm_map heap_demo = pmm_map vmm_demo"
  "free_blocks heap_demo = free_blocks vmm_demo" "base_addr heap_demo = 0" "terminals heap_demo = terminals vmm_demo"
  "colors heap_demo = colors vmm_demo"
  by (simp_all add: heap_demo_def sched_demo_def sched_state.defs mmu_state.defs vmm_state.defs)

lemma heap_demo_frames: "pmm_frames heap_demo = pmm_frames vmm_demo"
  by (simp only: pmm_frames_def heap_demo_vmm)

lemma heap_demo_ok: "heap_ok demo_frames 24 1 heap_demo []"
  using demo_ok by (simp add: heap_ok_def heap_list_def vmm_ok_def pmm_ok_def pmm_layout_def heap_demo_frames)

lemma heap_demo_con: "con_ok heap_demo"
proof -
  have "con_ok vmm_demo" using console_boot_ok by (simp add: con_ok_def vmm_demo_def pmm_state.defs vmm_state.defs pmm_boot_def console_state.defs)
  then show ?thesis by (simp add: con_ok_def)
qed

subsection \<open>Properties\<close>

text \<open>C10: An allocation of 1 to 2048 bytes (half a page) from a sound heap, when a frame is left, returns
  a block that was not in use, large enough, apart from all others; every block in use keeps its place,
  its size and its data, and the heap stays sound. Both bounds are needed: size 0 divides by zero, and
  from 2049 bytes on the free block behind the new one reaches past the frame (\<open>kmalloc_overrun\<close>).\<close>

theorem kmalloc_separates:
  assumes "heap_ok P N K s bs" and "pmm_frames s \<noteq> []" and "0 < unat sz" and "unat sz \<le> 2048"
  shows "\<exists>b t cs. mmu_kmalloc sz s = Some (b + 32, t) \<and> heap_ok P N K t cs \<and> b \<in> set cs \<and> block_free (mem t) b = 0
    \<and> unat sz \<le> unat (block_size (mem t) b) \<and> (b \<in> set bs \<longrightarrow> block_free (mem s) b \<noteq> 0) \<and> used_kept (mem s) bs (mem t) cs"
  by (rule kmalloc_ok [OF assms])

theorem kmalloc_separates_witness:
  "\<exists>b t cs. mmu_kmalloc 200 heap_demo = Some (b + 32, t) \<and> heap_ok demo_frames 24 1 t cs \<and> b \<in> set cs
    \<and> block_free (mem t) b = 0 \<and> unat (200 :: u64) \<le> unat (block_size (mem t) b)
    \<and> (b \<in> set [] \<longrightarrow> block_free (mem heap_demo) b \<noteq> 0) \<and> used_kept (mem heap_demo) [] (mem t) cs"
  by (rule kmalloc_separates [OF heap_demo_ok]) (simp_all add: heap_demo_frames demo_pmm_frames)

text \<open>Freeing a block of a sound heap marks it free, or unlinks it when it is the last one, and leaves
  every other block in use with its size and its data.\<close>

theorem kfree_frees:
  assumes "heap_ok P N K s bs" and "b \<in> set bs"
  shows "\<exists>t. mmu_kfree (b + 32) s = Some t \<and> heap_ok P N K t (if b = last bs then butlast bs else bs)
    \<and> block_free (mem t) b = 1 \<and> used_kept (mem s) (remove1 b bs) (mem t) (if b = last bs then butlast bs else bs)"
  by (rule kfree_ok [OF assms])

theorem kfree_frees_witness:
  "\<exists>b t cs. mmu_kmalloc 200 heap_demo = Some (b + 32, t)
    \<and> (\<exists>u. mmu_kfree (b + 32) t = Some u \<and> heap_ok demo_frames 24 1 u (if b = last cs then butlast cs else cs)
      \<and> block_free (mem u) b = 1 \<and> used_kept (mem t) (remove1 b cs) (mem u) (if b = last cs then butlast cs else cs))"
proof -
  obtain b t cs where "mmu_kmalloc 200 heap_demo = Some (b + 32, t)" "heap_ok demo_frames 24 1 t cs" "b \<in> set cs"
    using kmalloc_ok [OF heap_demo_ok, of 200] by (auto simp: heap_demo_frames demo_pmm_frames)
  then show ?thesis using kfree_frees [of demo_frames 24 1 t cs b] by blast
qed

text \<open>An allocation of more than half a page puts a free block behind the new one that reaches 32 bytes
  past the frame.\<close>

theorem kmalloc_overrun:
  assumes "heap_ok P N K s []" and "pmm_frames s = fs @ [f]" and "2048 < unat sz" and "unat sz < 4060" and "unat f < 2 ^ 62"
  shows "\<exists>t. mmu_kmalloc sz s = Some (f + 32, t)
    \<and> unat (block_next (mem t) f) + block_len (mem t) (block_next (mem t) f) = unat f + 4096 + 32"
proof -
  obtain t where t: "gmem s = (f, t)" "f \<noteq> 0" using heap_gmem [OF assms(1,2)] by blast
  have r: "4096 mod unat sz = 4096 - unat sz"
    using assms(3,4) by (subst mod_if) (simp add: le_mod_geq)
  define g where "g = f + sz + 32"
  have ug: "unat g = unat f + (unat sz + 32)"
    using unat_add_small [of f "unat sz + 32"] assms(4,5) by (simp add: g_def algebra_simps)
  have fg: "far f g" using ug assms(3-5) by (simp add: far_def)
  define m2 where "m2 = link_block g (of_nat (4096 - unat sz - 32)) 1 f (link_block f (ucast sz) 0 0 (mem t))"
  have h: "block_size m2 g = of_nat (4096 - unat sz - 32)" "block_next m2 f = g"
    using link_block_header(1) [where p = f and g = g, OF fg] link_block_header(5) [where p = f and g = g, OF fg, of f] fg t(2)
    by (simp_all add: m2_def far_sym [of g])
  have "base_addr s = 0" using assms(1) by (simp add: heap_ok_def heap_list_def)
  moreover have "\<not> sz > VMM_PAGE_SIZE" using assms(4) by (simp add: word_less_nat_alt)
  ultimately have "mmu_kmalloc sz s = Some (f + 32, t\<lparr>mem := m2, base_addr := f\<rparr>)"
    using expand_heap_eq [OF t, of sz 0] assms(3,4) t(2)
    by (simp add: mmu_kmalloc_def Let_def r m2_def g_def)
  moreover have "unat (of_nat (4096 - unat sz - 32) :: u32) = 4096 - unat sz - 32"
    by (rule unat_of_nat_small) simp
  ultimately show ?thesis using h ug assms(4) by (simp add: block_len_def del: of_nat_diff)
qed

theorem kmalloc_overrun_witness:
  "\<exists>t. mmu_kmalloc 3000 heap_demo = Some (0x31000 + 32, t)
    \<and> unat (block_next (mem t) 0x31000) + block_len (mem t) (block_next (mem t) 0x31000) = unat (0x31000 :: u64) + 4096 + 32"
  by (rule kmalloc_overrun [OF heap_demo_ok, of "map (\<lambda>i. of_nat (0x26000 + 4096 * i)) [0..<11]"])
    (simp_all add: heap_demo_frames demo_pmm_frames upt_conv_Cons)

text \<open>A process that gives back more bytes than it took of its page leaves a negative count, and its
  next \<open>mmap\<close> returns an address in front of the page.\<close>

theorem munmap_underflow:
  assumes "sched_getpid s = Some pid" and "unat pid < 20" and "k = 2 * unat pid" and "con_ok s"
    and "length (pages s) = TOTAL_PAGES" and "length (bytes_used s) = TOTAL_PAGES"
    and "pages s ! k = p" and "pages s ! Suc k \<noteq> p" and "p mod VMM_PAGE_SIZE = 0" and "p \<noteq> 0"
    and "bytes_used s ! k = of_nat u" and "0 < d" and "u + d \<le> 4096" and "unat n \<le> 4096"
  shows "\<exists>t t'. syscall_munmap p (of_nat (u + d)) s = Some t \<and> syscall_mmap a n t = Some (p - of_nat d, t')"
proof -
  let ?t = "s\<lparr>bytes_used := (bytes_used s)[k := - of_nat d]\<rparr>"
  have "sched_getpid ?t = Some pid" using assms(1) by (auto simp: sched_getpid_def proc_at_def split: option.splits process_ptr.splits)
  moreover have "con_ok ?t" using assms(4) by (simp add: con_ok_def)
  ultimately have "\<exists>t'. syscall_mmap a n ?t = Some (p - of_nat d, t')"
    using assms by (intro mmap_negative [where k = k and pid = pid]) (simp_all add: nth_list_update)
  then show ?thesis using munmap_more [OF assms(1-3,5-9,11) refl assms(12,13)] by blast
qed

theorem munmap_underflow_witness:
  "\<exists>t t'. syscall_munmap 0x43000000 (of_nat (100 + 50)) heap_demo = Some t
    \<and> syscall_mmap 0 16 t = Some (0x43000000 - of_nat 50, t')"
proof (rule munmap_underflow [OF _ _ _ heap_demo_con, where k = 2 and pid = 1])
  show "sched_getpid heap_demo = Some 1"
    by (simp add: sched_getpid_def proc_at_def obj_get_def heap_demo_def sched_demo_def sched_state.defs mmu_state.defs vmm_state.defs demo_proc_def)
qed (simp_all add: heap_demo_def mmu_state.defs sched_state.defs nth_list_update)

end
