(* ===== verification/Modules.thy ===== *)
theory Modules
  imports Heap_Props
begin

section \<open>The packed modules\<close>

text \<open>
  \<open>Kernel/moduleLoader.c\<close> and the module zone of \<open>Kernel/kernel.c\<close>: behind the kernel image lies a
  section of packed modules, which the kernel moves above its stack and searches by name. The format
  is written by the packer of the theory Packer. The lemmas describe a section of any contents in
  memory: the size the loader computes, and the module a lookup finds.
\<close>

subsection \<open>Reading the section\<close>

abbreviation MODULE_NAME_SIZE :: nat where "MODULE_NAME_SIZE \<equiv> 128"

definition readUint32 :: "mem \<Rightarrow> u64 \<Rightarrow> u32 \<times> u64" where
  "readUint32 m address = (load32 m address, address + 4)"

text \<open>In both loops \<open>i\<close> counts to \<open>moduleCount\<close>. The sum \<open>moduleSize + MODULE_NAME_SIZE\<close> is one of 32 bits.\<close>

primrec section_size_loop :: "mem \<Rightarrow> nat \<Rightarrow> u64 \<Rightarrow> u32 \<Rightarrow> u32" where
  "section_size_loop m 0 currentModule moduleSectionSize = moduleSectionSize"
| "section_size_loop m (Suc i) currentModule moduleSectionSize =
     (let (moduleSize, currentModule) = readUint32 m currentModule;
          currentModule = currentModule + ucast (moduleSize + of_nat MODULE_NAME_SIZE);
          moduleSectionSize = moduleSectionSize + (moduleSize + of_nat MODULE_NAME_SIZE + 4)
      in section_size_loop m i currentModule moduleSectionSize)"

definition ldr_module_section_size :: "mem \<Rightarrow> u64 \<Rightarrow> u64" where
  "ldr_module_section_size m module_section_start =
     (let (moduleCount, currentModule) = readUint32 m module_section_start
      in ucast (section_size_loop m (unat moduleCount) currentModule 1))"

text \<open>
  The local \<open>buffer\<close> is the list of its bytes after the \<open>memcpy\<close>; \<open>entry\<close> is returned as the call
  leaves it. The value is None where \<open>strcmp\<close> runs past the end of a string.
\<close>

primrec module_load_loop ::
  "mem \<Rightarrow> u8 list \<Rightarrow> nat \<Rightarrow> u64 \<Rightarrow> module_entry \<Rightarrow> (u64 \<times> module_entry) option"
where
  "module_load_loop m module_name 0 currentModule entry = Some (0, entry)"
| "module_load_loop m module_name (Suc i) currentModule entry = do {
     let (moduleSize, currentModule) = readUint32 m currentModule;
     let buffer = load_bytes m (currentModule + ucast moduleSize) MODULE_NAME_SIZE;
     r \<leftarrow> strcmp buffer module_name;
     if r = 0
     then Some (currentModule,
       entry\<lparr>mod_start := currentModule, mod_size := ucast moduleSize, mod_name := buffer\<rparr>)
     else module_load_loop m module_name i
       (currentModule + of_nat MODULE_NAME_SIZE + ucast moduleSize) entry
   }"

definition ldr_module_load ::
  "mem \<Rightarrow> u64 \<Rightarrow> u8 list \<Rightarrow> module_entry \<Rightarrow> (u64 \<times> module_entry) option"
where
  "ldr_module_load m module_section_start module_name entry =
     (let (moduleCount, currentModule) = readUint32 m module_section_start
      in module_load_loop m module_name (unat moduleCount) currentModule entry)"

subsection \<open>Loading without names\<close>

definition loadModule :: "mem \<Rightarrow> u64 \<Rightarrow> u64 \<Rightarrow> mem \<times> u64" where
  "loadModule m module targetModuleAddress =
     (let (moduleSize, module) = readUint32 m module
      in (fst (memcpy m targetModuleAddress module (ucast moduleSize)), module + ucast moduleSize))"

primrec load_modules_loop :: "u64 list \<Rightarrow> nat \<Rightarrow> nat \<Rightarrow> mem \<times> u64 \<Rightarrow> (mem \<times> u64) option" where
  "load_modules_loop targets i 0 s = Some s"
| "load_modules_loop targets i (Suc n) s = do {
     target \<leftarrow> obj_get targets (int i);
     load_modules_loop targets (Suc i) n (loadModule (fst s) (snd s) target)
   }"

definition loadModules :: "mem \<Rightarrow> u64 \<Rightarrow> u64 list \<Rightarrow> (u8 \<times> mem) option" where
  "loadModules m payloadStart targetModuleAddress = do {
     let (moduleCount, currentModule) = readUint32 m payloadStart;
     (m, currentModule) \<leftarrow> load_modules_loop targetModuleAddress 0 (unat moduleCount) (m, currentModule);
     Some (ucast moduleCount, m)
   }"

subsection \<open>The module zone of the kernel\<close>

text \<open>The addresses the linker script sets, beside those the scheduler uses.\<close>

record image_symbols =
  sym_text :: u64
  sym_rodata :: u64
  sym_data :: u64
  sym_bss :: u64
  sym_end_of_binary :: u64
  sym_end_of_kernel :: u64

abbreviation STACK_SIZE :: u64 where "STACK_SIZE \<equiv> 0x4000 * 8"

definition ALIGN4K :: "u64 \<Rightarrow> u64" where
  "ALIGN4K a = push_bit 12 (drop_bit 12 a + 1)"

definition clearBSS :: "mem \<Rightarrow> u64 \<Rightarrow> u64 \<Rightarrow> mem" where
  "clearBSS m bssAddress bssSize = fst (memset m bssAddress 0 bssSize)"

definition getStackBase :: "image_symbols \<Rightarrow> u64" where
  "getStackBase im = sym_bss im + STACK_SIZE - 8"

definition get_module_zone :: "image_symbols \<Rightarrow> u64" where
  "get_module_zone im = ALIGN4K (sym_bss im + STACK_SIZE)"

definition get_safe_zone :: u64 where
  "get_safe_zone = ALIGN4K 0xFFFFFFF"

definition initializeKernelBinary :: "image_symbols \<Rightarrow> mem \<Rightarrow> mem \<times> u64" where
  "initializeKernelBinary im m =
     (let e = sym_end_of_binary im;
          m = fst (memmove m (get_module_zone im) e (ldr_module_section_size m e));
          m = clearBSS m (sym_bss im) STACK_SIZE
      in (m, getStackBase im))"

definition get_entry_point :: "image_symbols \<Rightarrow> u8 list \<Rightarrow> module_entry \<Rightarrow> mem \<Rightarrow> u64 option" where
  "get_entry_point im name module m = do {
     (r, module) \<leftarrow> ldr_module_load m (get_module_zone im) name module;
     Some (if r = 0 then 0 else mod_start module)
   }"

subsection \<open>The packed section\<close>

text \<open>
  What the packer writes behind the kernel: the number of modules, and for each one its size, its
  bytes and the 128 bytes of its name.
\<close>

type_synonym packed = "u8 list \<times> u8 list"

definition entry_bytes :: "packed \<Rightarrow> u8 list" where
  "entry_bytes p = le_bytes 4 (of_nat (length (fst p)) :: u32) @ fst p @ snd p"

definition entries_bytes :: "packed list \<Rightarrow> u8 list" where
  "entries_bytes ps = concat (map entry_bytes ps)"

definition section_bytes :: "packed list \<Rightarrow> u8 list" where
  "section_bytes ps = le_bytes 4 (of_nat (length ps) :: u32) @ entries_bytes ps"

text \<open>A module that fits the format: a 32-bit size and a name that ends within \<open>k\<close> of its 128 bytes.\<close>

definition packed_ok :: "nat \<Rightarrow> packed \<Rightarrow> bool" where
  "packed_ok k p \<longleftrightarrow> length (fst p) < 2 ^ 32 - 128 \<and> length (snd p) = MODULE_NAME_SIZE
     \<and> 0 \<in> set (take k (snd p))"

lemma entries_bytes_simps [simp]:
  "entries_bytes [] = []" "entries_bytes (p # ps) = entry_bytes p @ entries_bytes ps"
  by (simp_all add: entries_bytes_def)

lemma length_entry_bytes:
  "packed_ok k p \<Longrightarrow> length (entry_bytes p) = length (fst p) + 132"
  by (simp add: entry_bytes_def packed_ok_def)

lemma load_bytes_split:
  "load_bytes m a (length xs + n) = xs @ ys \<longleftrightarrow>
   load_bytes m a (length xs) = xs \<and> load_bytes m (a + of_nat (length xs)) n = ys"
  by (simp add: load_bytes_append)

lemma load32_le: "load_bytes m a 4 = le_bytes 4 w \<Longrightarrow> load32 m a = w"
  by (simp add: load32_def le_word_le_bytes)

lemma ucast_of_nat32: "n < 2 ^ 32 \<Longrightarrow> (ucast (of_nat n :: u32) :: u64) = of_nat n"
  by (rule word_unat_eq_iff [THEN iffD2]) (simp add: unat_of_nat_small unsigned_ucast_eq take_bit_nat_eq_self)

text \<open>
  The first \<open>k\<close> bytes of a section lie at \<open>a\<close>; at most three of the last name are missing, which is
  how many \<open>ldr_module_section_size\<close> leaves out.
\<close>

definition holds :: "mem \<Rightarrow> u64 \<Rightarrow> u8 list \<Rightarrow> nat \<Rightarrow> bool" where
  "holds m a bs k \<longleftrightarrow> load_bytes m a k = take k bs \<and> k \<le> length bs \<and> length bs \<le> k + 3"

lemma load_bytes_prefix:
  assumes "load_bytes m a k = take k bs" and "j \<le> k"
  shows "load_bytes m a j = take j bs"
proof -
  have "load_bytes m a j = take j (load_bytes m a (j + (k - j)))"
    unfolding load_bytes_append by simp
  then show ?thesis using assms by simp
qed

lemma holds_split:
  assumes "load_bytes m a k = take k (xs @ ys)" and "length xs \<le> k"
  shows "load_bytes m a (length xs) = xs"
    and "load_bytes m (a + of_nat (length xs)) (k - length xs) = take (k - length xs) ys"
proof -
  have "load_bytes m a (length xs + (k - length xs)) = xs @ take (k - length xs) ys"
    using assms by simp
  then show "load_bytes m a (length xs) = xs"
    and "load_bytes m (a + of_nat (length xs)) (k - length xs) = take (k - length xs) ys"
    unfolding load_bytes_split by blast+
qed

lemma entries_gap: "\<forall>p\<in>set ps. packed_ok k p \<Longrightarrow> ps = [] \<or> 132 \<le> length (entries_bytes ps)"
  by (cases ps) (auto simp: length_entry_bytes)

text \<open>The parts of the first module of a section at hand, and the rest of it.\<close>

lemma entry_at:
  assumes "holds m a (entry_bytes p @ entries_bytes ps) k" and "\<forall>q\<in>set (p # ps). packed_ok 125 q"
  shows entry_size: "load32 m a = of_nat (length (fst p))"
    and entry_data: "load_bytes m (a + 4) (length (fst p)) = fst p"
    and entry_name: "load_bytes m (a + 4 + of_nat (length (fst p))) 125 = take 125 (snd p)"
    and entry_rest: "holds m (a + 4 + of_nat (length (fst p)) + 128) (entries_bytes ps)
      (k - length (entry_bytes p))"
proof -
  let ?n = "length (fst p)"
  have le: "length (entry_bytes p) = ?n + 132" using assms(2) by (simp add: length_entry_bytes [of 125])
  have b: "load_bytes m a k = take k (entry_bytes p @ entries_bytes ps)"
    and k: "?n + 132 + length (entries_bytes ps) \<le> k + 3" "k \<le> ?n + 132 + length (entries_bytes ps)"
    using assms(1) by (simp_all add: holds_def le)
  have b': "load_bytes m a k =
      take k (le_bytes 4 (of_nat ?n :: u32) @ (fst p @ snd p @ entries_bytes ps))"
    using b by (simp add: entry_bytes_def)
  have s: "load_bytes m a 4 = le_bytes 4 (of_nat ?n :: u32)"
    and b4: "load_bytes m (a + 4) (k - 4) = take (k - 4) (fst p @ (snd p @ entries_bytes ps))"
    using holds_split [OF b'] k by simp_all
  show "load32 m a = of_nat ?n" using s by (rule load32_le)
  have f: "load_bytes m (a + 4) ?n = fst p"
    and bn: "load_bytes m (a + 4 + of_nat ?n) (k - 4 - ?n)
      = take (k - 4 - ?n) (snd p @ entries_bytes ps)"
    using holds_split [OF b4] k by simp_all
  show "load_bytes m (a + 4) ?n = fst p" by (rule f)
  have sp: "length (snd p) = 128" using assms(2) by (simp add: packed_ok_def)
  show "load_bytes m (a + 4 + of_nat ?n) 125 = take 125 (snd p)"
    using load_bytes_prefix [OF bn, of 125] k sp by simp
  show "holds m (a + 4 + of_nat ?n + 128) (entries_bytes ps) (k - length (entry_bytes p))"
  proof (cases "ps = []")
    case True
    then show ?thesis using k by (simp add: holds_def load_bytes_def le)
  next
    case False
    then have "128 \<le> k - 4 - ?n" using entries_gap [of ps 125] assms(2) k by auto
    have e: "k - 4 - ?n - 128 = k - (?n + 132)" by simp
    have "k - (?n + 132) \<le> length (entries_bytes ps)"
      "length (entries_bytes ps) \<le> k - (?n + 132) + 3" using k by linarith+
    then show ?thesis
      using holds_split(2) [OF bn, unfolded sp, OF \<open>128 \<le> k - 4 - ?n\<close>]
      unfolding holds_def le e by (simp only: of_nat_numeral simp_thms)
  qed
qed

lemma length_entries: "\<forall>q\<in>set ps. packed_ok k q \<Longrightarrow>
  length (entries_bytes ps) = sum_list (map (\<lambda>p. length (fst p) + 132) ps)"
  by (induction ps) (simp_all add: length_entry_bytes [of k])

lemma section_size_loop_entries:
  assumes "holds m a (entries_bytes ps) k" and "\<forall>q\<in>set ps. packed_ok 125 q"
  shows "section_size_loop m (length ps) a sz = sz + of_nat (length (entries_bytes ps))"
  using assms
proof (induction ps arbitrary: a k sz)
  case (Cons p ps)
  let ?n = "length (fst p)"
  have h: "holds m a (entry_bytes p @ entries_bytes ps) k" using Cons.prems(1) by simp
  have ok: "packed_ok 125 p" using Cons.prems(2) by simp
  then have "(of_nat ?n + 128 :: u32) = of_nat (?n + 128)" by simp
  then have c: "(ucast (of_nat ?n + 128 :: u32) :: u64) = of_nat ?n + 128"
    using ok ucast_of_nat32 [of "?n + 128"] by (simp add: packed_ok_def)
  have "a + 4 + (of_nat ?n + 128) = a + 4 + of_nat ?n + (128 :: u64)" by simp
  then show ?case
    using Cons.IH [OF entry_rest [OF h Cons.prems(2)]] Cons.prems(2) entry_size [OF h Cons.prems(2)]
    by (simp add: readUint32_def c length_entry_bytes [of 125] ac_simps)
qed simp

lemma section_size_short:
  assumes "load_bytes m a (length (section_bytes ps)) = section_bytes ps"
    and "\<forall>q\<in>set ps. packed_ok 125 q" and "length (section_bytes ps) < 2 ^ 32"
  shows "unat (ldr_module_section_size m a) = length (section_bytes ps) - 3"
proof -
  let ?es = "entries_bytes ps"
  have "load_bytes m a (4 + length ?es) = le_bytes 4 (of_nat (length ps) :: u32) @ ?es"
    using assms(1) by (simp add: section_bytes_def)
  then have c: "load_bytes m a 4 = le_bytes 4 (of_nat (length ps) :: u32)"
    and e: "load_bytes m (a + 4) (length ?es) = ?es"
    using load_bytes_split [of m a "le_bytes 4 (of_nat (length ps) :: u32)" "length ?es" ?es]
    by simp_all
  have l: "4 + length ?es < 2 ^ 32" using assms(3) by (simp add: section_bytes_def)
  have "length ps \<le> length ?es"
    using assms(2) by (induction ps) (auto simp: length_entry_bytes)
  then have "unat (of_nat (length ps) :: u32) = length ps"
    using l by (intro unat_of_nat_small) simp
  then have "ldr_module_section_size m a = ucast (1 + of_nat (length ?es) :: u32)"
    using section_size_loop_entries [of m "a + 4" ps "length ?es" 1] e assms(2)
    by (simp add: ldr_module_section_size_def readUint32_def load32_le [OF c] holds_def)
  also have "(1 + of_nat (length ?es) :: u32) = of_nat (1 + length ?es)" by simp
  also have "ucast (of_nat (1 + length ?es) :: u32) = (of_nat (1 + length ?es) :: u64)"
    using l by (intro ucast_of_nat32) simp
  finally show ?thesis
    using l by (simp add: section_bytes_def unat_of_nat_small del: of_nat_Suc)
qed


subsection \<open>Looking a module up\<close>

lemma strcmp_cstr:
  assumes "0 \<in> set s" and "0 \<notin> set b"
  shows "\<exists>r. strcmp s (b @ [0]) = Some r \<and> (r = 0 \<longleftrightarrow> cstr s = b)"
proof -
  obtain r where "s = cstr s @ 0 # r" using cstr_split [OF assms(1)] by blast
  then show ?thesis using strcmp_append [OF cstr_no_zero [of s] assms(2), of r "[]"] by metis
qed

text \<open>The module that a lookup by name finds in a packed section, with the memory around it.\<close>

definition found_in :: "mem \<Rightarrow> packed \<Rightarrow> u64 \<times> module_entry \<Rightarrow> bool" where
  "found_in m p r \<longleftrightarrow>
     mod_start (snd r) = fst r \<and> mod_size (snd r) = of_nat (length (fst p))
     \<and> load_bytes m (fst r) (length (fst p)) = fst p \<and> cstr (mod_name (snd r)) = cstr (snd p)
     \<and> length (mod_name (snd r)) = MODULE_NAME_SIZE"

lemma module_load_loop_entries:
  assumes "holds m a (entries_bytes ps) k" and "\<forall>q\<in>set ps. packed_ok 125 q" and "0 \<notin> set name"
  shows "case find (\<lambda>p. cstr (snd p) = name) ps of
      None \<Rightarrow> module_load_loop m (name @ [0]) (length ps) a entry = Some (0, entry)
    | Some p \<Rightarrow> \<exists>r. module_load_loop m (name @ [0]) (length ps) a entry = Some r \<and> found_in m p r
        \<and> (\<exists>i. i \<le> length (entries_bytes ps) \<and> fst r = a + of_nat i)"
  using assms(1,2)
proof (induction ps arbitrary: a k)
  case (Cons p ps)
  let ?n = "length (fst p)" and ?a = "a + 4 + of_nat (length (fst p)) + 128"
  let ?buf = "load_bytes m (a + 4 + of_nat ?n) 128"
  have h: "holds m a (entry_bytes p @ entries_bytes ps) k" using Cons.prems(1) by simp
  note at = entry_at [OF h Cons.prems(2)]
  have ok: "packed_ok 125 p" using Cons.prems(2) by simp
  have c: "(ucast (of_nat ?n :: u32) :: u64) = of_nat ?n"
    using ok by (intro ucast_of_nat32) (simp add: packed_ok_def)
  have t: "take 125 ?buf = take 125 (snd p)"
    using load_bytes_prefix [of m "a + 4 + of_nat ?n" 128 ?buf 125] at(3) by simp
  have z: "0 \<in> set (take 125 (snd p))" using ok by (simp add: packed_ok_def)
  have cb: "cstr ?buf = cstr (snd p)"
    using cstr_take [of 125 ?buf] cstr_take [of 125 "snd p"] t z by simp
  have "0 \<in> set ?buf" using z t by (metis in_set_takeD)
  from strcmp_cstr [OF this assms(3)] obtain r
    where r: "strcmp ?buf (name @ [0]) = Some r" "r = 0 \<longleftrightarrow> cstr (snd p) = name"
    unfolding cb by blast
  have step: "module_load_loop m (name @ [0]) (Suc n) a entry =
      (if cstr (snd p) = name
       then Some (a + 4, entry\<lparr>mod_start := a + 4, mod_size := of_nat ?n, mod_name := ?buf\<rparr>)
       else module_load_loop m (name @ [0]) n ?a entry)" for n
    using r by (simp add: readUint32_def at(1) c ac_simps)
  show ?case
  proof (cases "cstr (snd p) = name")
    case True
    have "\<exists>i. i \<le> length (entries_bytes (p # ps)) \<and> a + 4 = a + of_nat i"
      by (rule exI [of _ 4]) (simp add: entry_bytes_def)
    then show ?thesis
      using True at(2) cb by (simp add: step found_in_def del: module_load_loop.simps)
  next
    case False
    have l: "?a = a + of_nat (length (entry_bytes p))"
      using length_entry_bytes [OF ok] by simp
    have sh: "\<exists>i. i \<le> length (entries_bytes (p # ps)) \<and> x = a + of_nat i"
      if "\<exists>i. i \<le> length (entries_bytes ps) \<and> x = ?a + of_nat i" for x
    proof -
      obtain i where "i \<le> length (entries_bytes ps)" "x = ?a + of_nat i"
        using \<open>\<exists>i. i \<le> length (entries_bytes ps) \<and> x = ?a + of_nat i\<close> by blast
      then show ?thesis
        unfolding l by (intro exI [of _ "length (entry_bytes p) + i"]) simp
    qed
    let ?loop = "module_load_loop m (name @ [0]) (length ps) ?a entry"
    have IH: "case find (\<lambda>p. cstr (snd p) = name) ps of None \<Rightarrow> ?loop = Some (0, entry)
      | Some p \<Rightarrow> \<exists>r. ?loop = Some r \<and> found_in m p r
          \<and> (\<exists>i. i \<le> length (entries_bytes ps) \<and> fst r = ?a + of_nat i)"
      by (rule Cons.IH [OF at(4)]) (use Cons.prems(2) in simp)
    have eq: "module_load_loop m (name @ [0]) (length (p # ps)) a entry = ?loop"
      using False by (simp only: length_Cons step if_False)
    have f: "find (\<lambda>p. cstr (snd p) = name) (p # ps) = find (\<lambda>p. cstr (snd p) = name) ps"
      using False by simp
    show ?thesis
      unfolding eq f using IH sh by (cases "find (\<lambda>p. cstr (snd p) = name) ps") fastforce+
  qed
qed simp

lemma section_count:
  assumes "load_bytes m a k = take k (section_bytes ps)" and "length (section_bytes ps) \<le> k + 3"
    and "k \<le> length (section_bytes ps)" and "length (section_bytes ps) < 2 ^ 32" and "\<forall>q\<in>set ps. packed_ok 125 q" and "4 \<le> k"
  shows "unat (load32 m a) = length ps" and "holds m (a + 4) (entries_bytes ps) (k - 4)"
proof -
  let ?es = "entries_bytes ps"
  have "length ps \<le> length ?es"
    using assms(5) by (induction ps) (auto simp: length_entry_bytes [of 125])
  then have "unat (of_nat (length ps) :: u32) = length ps"
    using assms(4) by (intro unat_of_nat_small) (simp add: section_bytes_def)
  moreover have "load_bytes m a 4 = le_bytes 4 (of_nat (length ps) :: u32)"
    and "load_bytes m (a + 4) (k - 4) = take (k - 4) ?es"
    using holds_split [OF assms(1) [unfolded section_bytes_def]] assms(6) by simp_all
  moreover have "k - 4 \<le> length ?es" "length ?es \<le> k - 4 + 3"
    using assms(2,3,6) by (simp_all add: section_bytes_def)
  ultimately show "unat (load32 m a) = length ps" and "holds m (a + 4) (entries_bytes ps) (k - 4)"
    using load32_le by (simp_all add: holds_def)
qed

subsection \<open>From the image to the entry point\<close>

lemma ALIGN4K_bounds:
  assumes "unat a + 4096 < 2 ^ 64"
  shows "unat a < unat (ALIGN4K a)" and "unat (ALIGN4K a) \<le> unat a + 4096"
proof -
  have d: "unat (drop_bit 12 a) = unat a div 4096"
    by (simp add: unat_drop_bit_eq drop_bit_eq_div unat_div)
  have s: "(unat a div 4096 + 1) * 4096 \<le> unat a + 4096" by simp
  have "ALIGN4K a = of_nat ((unat a div 4096 + 1) * 4096)"
  proof -
    have "of_nat (unat a div 4096) = drop_bit 12 a" by (simp flip: d)
    then show ?thesis by (simp add: ALIGN4K_def push_bit_eq_mult algebra_simps)
  qed
  then have "unat (ALIGN4K a) = (unat a div 4096 + 1) * 4096"
    using assms s by (simp only:) (rule unat_of_nat_small, simp)
  then show "unat a < unat (ALIGN4K a)" and "unat (ALIGN4K a) \<le> unat a + 4096"
    by simp_all
qed

text \<open>After the copy and the clearing of the stack, the zone holds all of the section but three bytes.\<close>

lemma module_zone_holds:
  assumes "load_bytes m (sym_end_of_binary im) (length (section_bytes ps)) = section_bytes ps"
    and "\<forall>q\<in>set ps. packed_ok 125 q" and "length (section_bytes ps) \<le> 2 ^ 31"
    and "unat (sym_end_of_binary im) + length (section_bytes ps) \<le> 2 ^ 64"
    and "unat (sym_bss im) + 0x21000 + length (section_bytes ps) < 2 ^ 64"
  shows "load_bytes (fst (initializeKernelBinary im m)) (get_module_zone im)
      (length (section_bytes ps) - 3) = take (length (section_bytes ps) - 3) (section_bytes ps)"
    and "unat (get_module_zone im) + length (section_bytes ps) < 2 ^ 64"
    and "0 < unat (get_module_zone im)"
proof -
  let ?l = "length (section_bytes ps)" and ?e = "sym_end_of_binary im" and ?z = "get_module_zone im"
  let ?s = "ldr_module_section_size m ?e"
  have b: "unat (sym_bss im + 0x20000) = unat (sym_bss im) + 0x20000"
    using unat_add_small [of "sym_bss im" "0x20000"] assms(5) by simp
  have zone: "unat (sym_bss im) + 0x20000 < unat ?z" "unat ?z \<le> unat (sym_bss im) + 0x21000"
    using ALIGN4K_bounds [of "sym_bss im + 0x20000"] assms(5)
    by (simp_all add: b get_module_zone_def)
  then show zl: "unat ?z + ?l < 2 ^ 64" and "0 < unat ?z" using assms(5) by linarith+
  have l: "unat ?s = ?l - 3" using section_size_short [OF assms(1,2)] assms(3) by simp
  have mv: "memmove m ?z ?e ?s = (store_bytes m ?z (load_bytes m ?e (unat ?s)), ?z)"
    by (rule memmove_overlapping) (use l assms(3,4) zl in linarith)+
  have src: "load_bytes m ?e (?l - 3) = take (?l - 3) (section_bytes ps)"
    by (rule load_bytes_prefix [of _ _ ?l]) (use assms(1) in simp_all)
  let ?m = "store_bytes m ?z (take (?l - 3) (section_bytes ps))"
  have "fst (initializeKernelBinary im m) = clearBSS ?m (sym_bss im) STACK_SIZE"
    by (simp add: initializeKernelBinary_def Let_def mv l src)
  also have "\<dots> = store_bytes ?m (sym_bss im) (replicate 0x20000 0)"
    by (simp add: clearBSS_def memset_def memset_loop_store)
  finally have i: "fst (initializeKernelBinary im m)
    = store_bytes ?m (sym_bss im) (replicate 0x20000 0)" .
  have "apart (sym_bss im) 0x20000 ?z (?l - 3)"
    by (rule apart_below) (use zone zl in simp_all)
  then have "load_bytes (store_bytes ?m (sym_bss im) (replicate 0x20000 0)) ?z (?l - 3)
    = load_bytes ?m ?z (?l - 3)"
    by (intro load_store_bytes_apart) simp
  also have "\<dots> = take (?l - 3) (section_bytes ps)"
    using load_store_bytes [of "take (?l - 3) (section_bytes ps)" m ?z] zl by simp
  finally show "load_bytes (fst (initializeKernelBinary im m)) ?z (?l - 3)
      = take (?l - 3) (section_bytes ps)"
    unfolding i .
qed

lemma zone_lookup:
  assumes "load_bytes m (sym_end_of_binary im) (length (section_bytes ps)) = section_bytes ps"
    and "\<forall>q\<in>set ps. packed_ok 125 q" and "length (section_bytes ps) \<le> 2 ^ 31"
    and "unat (sym_end_of_binary im) + length (section_bytes ps) \<le> 2 ^ 64"
    and "unat (sym_bss im) + 0x21000 + length (section_bytes ps) < 2 ^ 64"
    and "ps \<noteq> []" and "0 \<notin> set name" and m': "m' = fst (initializeKernelBinary im m)"
  shows "case find (\<lambda>p. cstr (snd p) = name) ps of
      None \<Rightarrow> ldr_module_load m' (get_module_zone im) (name @ [0]) entry = Some (0, entry)
    | Some p \<Rightarrow> \<exists>r. ldr_module_load m' (get_module_zone im) (name @ [0]) entry = Some r
        \<and> fst r \<noteq> 0 \<and> found_in m' p r"
proof -
  let ?l = "length (section_bytes ps)" and ?z = "get_module_zone im"
  note z = module_zone_holds [OF assms(1-5), folded m']
  have "132 \<le> length (entries_bytes ps)" using entries_gap [OF assms(2)] assms(6) by simp
  then have l: "136 \<le> ?l" by (simp add: section_bytes_def)
  have c: "unat (load32 m' ?z) = length ps" "holds m' (?z + 4) (entries_bytes ps) (?l - 3 - 4)"
    using section_count [OF z(1) _ _ _ assms(2)] l assms(3) by simp_all
  have nz: "?z + 4 + of_nat i \<noteq> 0" if "i \<le> length (entries_bytes ps)" for i
  proof -
    have "4 + i \<le> ?l" using that by (simp add: section_bytes_def)
    then have "unat (?z + of_nat (4 + i)) = unat ?z + (4 + i)"
      using z(2) by (intro unat_add_small) simp
    then have "unat (?z + 4 + of_nat i) \<noteq> 0" using z(3) by (simp add: ac_simps)
    then show ?thesis by auto
  qed
  show ?thesis
    using module_load_loop_entries [OF c(2) assms(2,7), of entry] nz
    by (fastforce simp: ldr_module_load_def readUint32_def c(1) split: option.splits)
qed

end
