(* ===== verification/Packer.thy ===== *)
theory Packer
  imports Modules
begin

section \<open>The module packer\<close>

text \<open>
  \<open>Toolchain/ModulePacker/main.c\<close>, the tool that appends the modules to the kernel image, and the
  round trip from the packed files to the modules the booted kernel finds. Outside files are the
  argument \<open>files\<close>, a map from paths to contents. \<open>silent\<close> and \<open>verbose\<close> of the
  arguments are never used and left out; the messages on standard output are not modelled.
\<close>

subsection \<open>Arguments\<close>

text \<open>
  Names of files are the bytes of the C string. The option parser is called with a key, an argument
  and the number of the argument; \<open>argp_usage\<close> ends the program, which is an \<open>Inl\<close> with the exit
  status. None is a write past \<open>args\<close>.
\<close>

type_synonym path_name = "u8 list"

abbreviation MAX_FILES :: nat where "MAX_FILES \<equiv> 128"
abbreviation BUFFER_SIZE :: nat where "BUFFER_SIZE \<equiv> 128"
abbreviation OUTPUT_FILE :: path_name where "OUTPUT_FILE \<equiv> bytes ''packedKernel.bin''"
abbreviation ARGP_KEY_ARG :: int where "ARGP_KEY_ARG \<equiv> 0"
abbreviation ARGP_KEY_END :: int where "ARGP_KEY_END \<equiv> 0x1000001"
abbreviation ARGP_ERR_UNKNOWN :: int where "ARGP_ERR_UNKNOWN \<equiv> 7"
abbreviation EX_USAGE :: int where "EX_USAGE \<equiv> 64"

record arguments =
  pk_args :: "path_name list"
  pk_output_file :: path_name
  pk_count :: int

definition parse_opt ::
  "int \<Rightarrow> path_name \<Rightarrow> int \<Rightarrow> arguments \<Rightarrow> (int + int \<times> arguments) option"
where
  "parse_opt key arg arg_num arguments =
     (if key = 0x6F then Some (Inr (0, arguments\<lparr>pk_output_file := arg\<rparr>))
      else if key = ARGP_KEY_ARG then do {
        args \<leftarrow> obj_set (pk_args arguments) arg_num arg;
        Some (Inr (0, arguments\<lparr>pk_args := args\<rparr>))
      }
      else if key = ARGP_KEY_END then
        (if arg_num < 1 then Some (Inl EX_USAGE)
         else Some (Inr (0, arguments\<lparr>pk_count := arg_num\<rparr>)))
      else Some (Inr (ARGP_ERR_UNKNOWN, arguments)))"

subsection \<open>Writing a file\<close>

text \<open>A stream at its position: the bytes that are left and the end-of-file indicator, which a short
  read sets.\<close>

record stream =
  st_left :: "u8 list"
  st_eof :: bool

definition fopen_read :: "u8 list \<Rightarrow> stream" where
  "fopen_read contents = \<lparr>st_left = contents, st_eof = False\<rparr>"

definition fread :: "nat \<Rightarrow> stream \<Rightarrow> u8 list \<times> stream" where
  "fread n source = (take n (st_left source),
     \<lparr>st_left = drop n (st_left source), st_eof = st_eof source \<or> length (st_left source) < n\<rparr>)"

function write_file :: "u8 list \<Rightarrow> stream \<Rightarrow> u8 list" where
  "write_file target source =
     (if \<not> st_eof source
      then (let (buffer, source) = fread BUFFER_SIZE source in write_file (target @ buffer) source)
      else target)"
  by pat_completeness auto
termination
  by (relation "measure (\<lambda>(t, s). length (st_left s) + (if st_eof s then 0 else 1))")
    (auto simp: fread_def)

declare write_file.simps [simp del]

definition write_size :: "u8 list \<Rightarrow> nat \<Rightarrow> u8 list" where
  "write_size target st_size = target @ le_bytes 4 (of_nat st_size :: u32)"

text \<open>
  \<open>basename\<close> of the string in \<open>buffer\<close>: where its last component begins. It is not used on a path
  that ends with a slash, since such a path names no file that can be read. None is also a string
  that is not terminated within the buffer.
\<close>

definition basename_index :: "u8 list \<Rightarrow> nat option" where
  "basename_index buffer =
     (let s = cstr buffer
      in if 0 \<notin> set buffer \<or> s \<noteq> [] \<and> List.last s = 0x2F then None
         else Some (length s - length (takeWhile (\<lambda>c. c \<noteq> 0x2F) (rev s))))"

text \<open>
  \<open>beyond\<close> are the bytes of the stack behind \<open>buffer\<close>: \<open>fwrite\<close> takes 128 bytes from the last
  component on, so it reads as many of them as the directory part is long.
\<close>

definition write_name :: "(nat \<Rightarrow> u8) \<Rightarrow> u8 list \<Rightarrow> path_name \<Rightarrow> u8 list option" where
  "write_name beyond target filename = do {
     let buffer = take 128 (filename @ replicate 128 0);
     i \<leftarrow> basename_index buffer;
     Some (target @ drop i buffer @ map beyond [0..<i])
   }"

subsection \<open>The image\<close>

text \<open>
  The files are a map from names to contents; a name that is not in it cannot be read, and
  \<open>fopen\<close> gives a null pointer on which the program faults. \<open>writable\<close> says where the output can
  be created. An output that is also an input would be cut while it is read: None.
\<close>

type_synonym file_map = "path_name \<rightharpoonup> u8 list"

fun checkFiles :: "file_map \<Rightarrow> path_name list \<Rightarrow> bool" where
  "checkFiles files [] = True"
| "checkFiles files (f # fs) = (if files f = None then False else checkFiles files fs)"

fun build_modules ::
  "(nat \<Rightarrow> u8) \<Rightarrow> file_map \<Rightarrow> path_name list \<Rightarrow> u8 list \<Rightarrow> u8 list option"
where
  "build_modules beyond files [] target = Some target"
| "build_modules beyond files (f # fs) target = do {
     contents \<leftarrow> files f;
     let source = fopen_read contents;
     let target = write_size target (length contents);
     let target = write_file target source;
     target \<leftarrow> write_name beyond target f;
     build_modules beyond files fs target
   }"

definition buildImage ::
  "(nat \<Rightarrow> u8) \<Rightarrow> (path_name \<Rightarrow> bool) \<Rightarrow> file_map \<Rightarrow> path_name list \<Rightarrow> path_name
   \<Rightarrow> (bool \<times> file_map) option"
where
  "buildImage beyond writable files fileArray output_file =
     (if \<not> writable output_file then Some (False, files)
      else if output_file \<in> set fileArray then None
      else do {
        kernel_file \<leftarrow> obj_get fileArray 0;
        kbin \<leftarrow> files kernel_file;
        let target = write_file [] (fopen_read kbin);
        let extraBinaries = (of_nat (length fileArray - 1) :: u32);
        let target = target @ le_bytes 4 extraBinaries;
        target \<leftarrow> build_modules beyond files (drop 1 fileArray) target;
        Some (True, files(output_file \<mapsto> target))
      })"

text \<open>\<open>main\<close> after \<open>argp_parse\<close> has filled \<open>arguments\<close>.\<close>

definition packer_main ::
  "(nat \<Rightarrow> u8) \<Rightarrow> (path_name \<Rightarrow> bool) \<Rightarrow> file_map \<Rightarrow> arguments \<Rightarrow> (int \<times> file_map) option"
where
  "packer_main beyond writable files arguments = do {
     let fileArray = take (nat (pk_count arguments)) (pk_args arguments);
     if \<not> checkFiles files fileArray then Some (1, files)
     else do {
       (ok, files) \<leftarrow> buildImage beyond writable files fileArray (pk_output_file arguments);
       Some (if ok then 0 else 1, files)
     }
   }"

subsection \<open>What is written\<close>

lemma write_file_contents: "write_file t (fopen_read bs) = t @ bs"
proof -
  have "write_file t s = (if st_eof s then t else t @ st_left s)" for t s
  proof (induction t s rule: write_file.induct)
    case (1 t s)
    show ?case
    proof (cases "st_eof s")
      case False
      then show ?thesis
        using 1 by (subst write_file.simps) (auto simp: fread_def)
    qed (simp add: write_file.simps)
  qed
  then show ?thesis by (simp add: fopen_read_def)
qed

text \<open>The name under which a module is found: its path without the directories.\<close>

definition base_name :: "path_name \<Rightarrow> path_name" where
  "base_name f = rev (takeWhile (\<lambda>c. c \<noteq> 0x2F) (rev f))"

lemma base_name_suffix:
  "drop (length f - length (takeWhile (\<lambda>c. c \<noteq> 0x2F) (rev f))) f = base_name f"
proof -
  let ?t = "takeWhile (\<lambda>c. c \<noteq> 0x2F) (rev f)"
  have "f = rev (dropWhile (\<lambda>c. c \<noteq> 0x2F) (rev f)) @ base_name f"
    unfolding base_name_def by (metis rev_append rev_rev_ident takeWhile_dropWhile_id)
  moreover have "length (rev (dropWhile (\<lambda>c. c \<noteq> 0x2F) (rev f))) = length f - length ?t"
    by (metis add_diff_cancel_left' length_append length_rev takeWhile_dropWhile_id)
  ultimately show ?thesis by (metis append_eq_conv_conj)
qed

text \<open>A path the name field has room for.\<close>

definition path_ok :: "nat \<Rightarrow> path_name \<Rightarrow> bool" where
  "path_ok k f \<longleftrightarrow> 0 \<notin> set f \<and> length f < k \<and> f \<noteq> [] \<and> List.last f \<noteq> 0x2F"

lemma write_name_field:
  assumes "path_ok k f" and "k \<le> 128"
  shows "\<exists>nm. write_name beyond t f = Some (t @ nm) \<and> length nm = 128
    \<and> 0 \<in> set (take k nm) \<and> cstr nm = base_name f"
proof -
  define i where "i = length f - length (takeWhile (\<lambda>c. c \<noteq> 0x2F) (rev f))"
  let ?buf = "f @ 0 # replicate (127 - length f) 0"
  let ?nm = "base_name f @ 0 # replicate (127 - length f) 0 @ map beyond [0..<i]"
  have l: "length f < 128" using assms by (simp add: path_ok_def)
  then have buf: "take 128 (f @ replicate 128 0) = ?buf"
    by (simp flip: replicate_Suc)
  have c: "cstr ?buf = f" using assms by (simp add: path_ok_def)
  have "length (takeWhile (\<lambda>c. c \<noteq> 0x2F) (rev f)) \<le> length f"
    using length_takeWhile_le [of _ "rev f"] by simp
  then have il: "i \<le> length f" "length (base_name f) = length f - i"
    by (auto simp: i_def base_name_def)
  have "basename_index ?buf = Some i"
    using assms by (simp add: basename_index_def c i_def path_ok_def)
  moreover have "drop i ?buf = base_name f @ 0 # replicate (127 - length f) 0"
    using il base_name_suffix [of f] by (simp add: i_def)
  ultimately have "write_name beyond t f = Some (t @ ?nm)" 
    unfolding write_name_def Let_def buf by (simp del: drop_append)
  moreover have "length ?nm = 128" using il l by simp
  moreover have "0 \<notin> set (base_name f)"
    using assms by (auto simp: base_name_def path_ok_def dest: set_takeWhileD)
  then have "cstr ?nm = base_name f" by simp
  moreover have "length (base_name f) < k" using il assms(1) by (auto simp: path_ok_def)
  then have "0 \<in> set (take k ?nm)" by (cases "k - length (base_name f)") simp_all
  ultimately show ?thesis by blast
qed

lemma build_modules_section:
  assumes "\<forall>f\<in>set fs. path_ok k f \<and> (\<exists>c. files f = Some c \<and> length c < 2 ^ 32 - 128)" and "k \<le> 128"
  shows "\<exists>ps. build_modules beyond files fs t = Some (t @ entries_bytes ps)
    \<and> (\<forall>p\<in>set ps. packed_ok k p)
    \<and> map (\<lambda>p. (cstr (snd p), fst p)) ps = map (\<lambda>f. (base_name f, the (files f))) fs"
  using assms(1)
proof (induction fs arbitrary: t)
  case (Cons f fs)
  then obtain c where c: "files f = Some c" "length c < 2 ^ 32 - 128" and f: "path_ok k f" by auto
  let ?t = "(t @ le_bytes 4 (of_nat (length c) :: u32)) @ c"
  obtain nm where nm: "write_name beyond ?t f = Some (?t @ nm)" "length nm = 128"
    "0 \<in> set (take k nm)" "cstr nm = base_name f"
    using write_name_field [OF f assms(2)] by blast
  obtain ps where ps: "build_modules beyond files fs (?t @ nm) = Some ((?t @ nm) @ entries_bytes ps)"
    "\<forall>p\<in>set ps. packed_ok k p"
    "map (\<lambda>p. (cstr (snd p), fst p)) ps = map (\<lambda>f. (base_name f, the (files f))) fs"
    using Cons.IH [of "?t @ nm"] Cons.prems by auto
  show ?case
    by (rule exI [of _ "(c, nm) # ps"])
      (use c nm ps in \<open>simp add: write_size_def write_file_contents entry_bytes_def packed_ok_def\<close>)
qed simp


subsection \<open>From the packer to the kernel\<close>

text \<open>
  The image that \<open>packer_main\<close> writes, with the kernel's own bytes in front, as the kernel finds
  it in memory.
\<close>

definition image_at :: "mem \<Rightarrow> image_symbols \<Rightarrow> u8 list \<Rightarrow> u8 list \<Rightarrow> bool" where
  "image_at m im kbin img \<longleftrightarrow>
     load_bytes m (sym_end_of_binary im - of_nat (length kbin)) (length img) = img"

lemma buildImage_section:
  assumes "\<forall>f\<in>set fs. path_ok 125 f \<and> (\<exists>c. files f = Some c \<and> length c < 2 ^ 32 - 128)"
    and "files k = Some kbin" and "writable out" and "out \<notin> set (k # fs)"
  shows "\<exists>ps. buildImage beyond writable files (k # fs) out
      = Some (True, files(out \<mapsto> kbin @ section_bytes ps))
    \<and> (\<forall>p\<in>set ps. packed_ok 125 p)
    \<and> map (\<lambda>p. (cstr (snd p), fst p)) ps = map (\<lambda>f. (base_name f, the (files f))) fs"
proof -
  let ?t = "kbin @ le_bytes 4 (of_nat (length fs) :: u32)"
  obtain ps where ps: "build_modules beyond files fs ?t = Some (?t @ entries_bytes ps)"
    "\<forall>p\<in>set ps. packed_ok 125 p"
    "map (\<lambda>p. (cstr (snd p), fst p)) ps = map (\<lambda>f. (base_name f, the (files f))) fs"
    using build_modules_section [OF assms(1), of beyond ?t] by auto
  have "length ps = length fs" using arg_cong [where f = length, OF ps(3)] by simp
  then have s: "?t @ entries_bytes ps = kbin @ section_bytes ps" by (simp add: section_bytes_def)
  have k: "obj_get (k # fs) 0 = Some k" by (simp add: obj_get_in)
  have "buildImage beyond writable files (k # fs) out
      = Some (True, files(out \<mapsto> kbin @ section_bytes ps))"
    unfolding buildImage_def s [symmetric]
    using assms(2-4) k ps(1) by (simp add: write_file_contents Let_def)
  then show ?thesis using ps(2,3) by blast
qed

lemma checkFiles_all: "checkFiles files fs \<longleftrightarrow> (\<forall>f\<in>set fs. files f \<noteq> None)"
  by (induction fs) auto

lemma find_map_pair:
  assumes "map (\<lambda>p. (g p, h p)) ps = map (\<lambda>f. (g' f, h' f)) fs"
  shows "case find (\<lambda>f. g' f = x) fs of None \<Rightarrow> find (\<lambda>p. g p = x) ps = None
    | Some f \<Rightarrow> \<exists>p. find (\<lambda>p. g p = x) ps = Some p \<and> h p = h' f \<and> g p = g' f"
  using assms
proof (induction fs arbitrary: ps)
  case (Cons f fs)
  then obtain a ps' where ps: "ps = a # ps'" "g a = g' f" "h a = h' f"
    "map (\<lambda>p. (g p, h p)) ps' = map (\<lambda>f. (g' f, h' f)) fs" by (cases ps) auto
  show ?case unfolding ps(1)
    using Cons.IH [OF ps(4)] ps(2,3) by (cases "g' f = x") (simp_all cong: option.case_cong)
qed simp

lemma packed_image_loads:
  assumes args: "take (nat (pk_count a)) (pk_args a) = k # fs" "pk_output_file a = out"
    and files: "\<forall>f\<in>set fs. path_ok 125 f \<and> (\<exists>c. files f = Some c \<and> length c < 2 ^ 32 - 128)"
      "files k = Some kbin" "writable out" "out \<notin> set (k # fs)" "fs \<noteq> []"
    and memory: "\<And>img. files' out = Some img \<Longrightarrow> image_at m im kbin img
        \<and> length img \<le> 2 ^ 31 + length kbin
        \<and> unat (sym_end_of_binary im) + length img \<le> 2 ^ 64 + length kbin
        \<and> unat (sym_bss im) + 0x21000 + length img < 2 ^ 64 + length kbin"
    and run: "packer_main beyond writable files a = Some (status, files')"
    and boot: "m' = fst (initializeKernelBinary im m)" and name: "0 \<notin> set name"
  shows "status = 0" and "case find (\<lambda>f. base_name f = name) fs of
      None \<Rightarrow> ldr_module_load m' (get_module_zone im) (name @ [0]) entry = Some (0, entry)
    | Some f \<Rightarrow> \<exists>start e. ldr_module_load m' (get_module_zone im) (name @ [0]) entry = Some (start, e)
        \<and> start \<noteq> 0 \<and> mod_start e = start \<and> cstr (mod_name e) = name
        \<and> mod_size e = of_nat (length (the (files f)))
        \<and> load_bytes m' start (length (the (files f))) = the (files f)"
proof -
  obtain ps where ps: "buildImage beyond writable files (k # fs) out
      = Some (True, files(out \<mapsto> kbin @ section_bytes ps))"
    "\<forall>p\<in>set ps. packed_ok 125 p"
    "map (\<lambda>p. (cstr (snd p), fst p)) ps = map (\<lambda>f. (base_name f, the (files f))) fs"
    using buildImage_section [where writable = writable and out = out, OF files(1-4)] by blast
  have "checkFiles files (k # fs)" using files(1,2) by (auto simp: checkFiles_all)
  then have r: "status = 0 \<and> files' = files(out \<mapsto> kbin @ section_bytes ps)"
    using run by (simp add: packer_main_def args ps(1) del: checkFiles.simps)
  then show "status = 0" by simp
  let ?s = "section_bytes ps" and ?e = "sym_end_of_binary im"
  have mm: "load_bytes m (?e - of_nat (length kbin)) (length kbin + length ?s) = kbin @ ?s"
    "length ?s \<le> 2 ^ 31" "unat ?e + length ?s \<le> 2 ^ 64" "unat (sym_bss im) + 0x21000 + length ?s < 2 ^ 64"
    using memory [of "kbin @ ?s"] r by (simp_all add: image_at_def)
  have "load_bytes m ?e (length ?s) = ?s"
    using mm(1) unfolding load_bytes_split by simp
  note z = zone_lookup [OF this ps(2) mm(2-4) _ name boot, of entry]
  have "ps \<noteq> []" using ps(3) files(5) by auto
  note z = z [OF this]
  show "case find (\<lambda>f. base_name f = name) fs of
      None \<Rightarrow> ldr_module_load m' (get_module_zone im) (name @ [0]) entry = Some (0, entry)
    | Some f \<Rightarrow> \<exists>start e. ldr_module_load m' (get_module_zone im) (name @ [0]) entry = Some (start, e)
        \<and> start \<noteq> 0 \<and> mod_start e = start \<and> cstr (mod_name e) = name
        \<and> mod_size e = of_nat (length (the (files f)))
        \<and> load_bytes m' start (length (the (files f))) = the (files f)"
  proof (cases "find (\<lambda>f. base_name f = name) fs")
    case None
    then show ?thesis using find_map_pair [OF ps(3), of name] z by simp
  next
    case (Some f)
    then obtain p where p: "find (\<lambda>p. cstr (snd p) = name) ps = Some p" "fst p = the (files f)"
      "cstr (snd p) = base_name f" using find_map_pair [OF ps(3), of name] by auto
    have n: "cstr (snd p) = name" using p(1) unfolding find_Some_iff by blast
    obtain start e where "ldr_module_load m' (get_module_zone im) (name @ [0]) entry = Some (start, e)"
      "start \<noteq> 0" "found_in m' p (start, e)" using z unfolding p(1) option.case by fastforce
    then show ?thesis
      unfolding Some option.case using p(2) n
      by (intro exI [of _ start] exI [of _ e]) (simp add: found_in_def)
  qed
qed

text \<open>C11: A module that was packed is the module the kernel finds. The packer ends with status 0; when
  the image it wrote is in memory, with the kernel's bytes before \<open>endOfKernelBinary\<close>, then after
  \<open>initializeKernelBinary\<close> has moved the section behind the stack, \<open>ldr_module_load\<close> in the module
  zone gives for a name the first packed file with that base name: where it starts, its size, its
  bytes; for other names it gives null and leaves the entry. Paths are shorter than 125 bytes: the
  section size is computed three bytes short, so the end of the last name is not moved.\<close>

theorem packed_modules_load:
  assumes "take (nat (pk_count a)) (pk_args a) = k # fs" and "fs \<noteq> []"
    and "\<forall>f\<in>set fs. path_ok 125 f \<and> (\<exists>c. files f = Some c \<and> length c < 2 ^ 32 - 128)"
    and "files k = Some kbin" and "writable (pk_output_file a)" and "pk_output_file a \<notin> set (k # fs)"
    and "\<And>img. files' (pk_output_file a) = Some img \<Longrightarrow> image_at m im kbin img
        \<and> length img \<le> 2 ^ 31 + length kbin
        \<and> unat (sym_end_of_binary im) + length img \<le> 2 ^ 64 + length kbin
        \<and> unat (sym_bss im) + 0x21000 + length img < 2 ^ 64 + length kbin"
    and "packer_main beyond writable files a = Some (status, files')"
    and "m' = fst (initializeKernelBinary im m)" and "0 \<notin> set name"
  shows "status = 0 \<and> (case find (\<lambda>f. base_name f = name) fs of
      None \<Rightarrow> ldr_module_load m' (get_module_zone im) (name @ [0]) entry = Some (0, entry)
    | Some f \<Rightarrow> \<exists>start e. ldr_module_load m' (get_module_zone im) (name @ [0]) entry = Some (start, e)
        \<and> start \<noteq> 0 \<and> mod_start e = start \<and> cstr (mod_name e) = name
        \<and> mod_size e = of_nat (length (the (files f)))
        \<and> load_bytes m' start (length (the (files f))) = the (files f))"
  using packed_image_loads [where files = files and writable = writable and k = k and fs = fs,
      OF assms(1) refl assms(3-6,2,7-10)] by blast

text \<open>A kernel of two bytes, packed with a file of three bytes, ``s'' in the directory ``u''.\<close>

definition demo_files :: file_map where
  "demo_files = (\<lambda>_. None)([0x6B] \<mapsto> [1, 2], [0x75, 0x2F, 0x73] \<mapsto> [7, 8, 9])"

definition demo_args :: arguments where
  "demo_args = \<lparr>pk_args = [0x6B] # [0x75, 0x2F, 0x73] # replicate 126 [],
     pk_output_file = [0x6F], pk_count = 2\<rparr>"

definition demo_symbols :: image_symbols where
  "demo_symbols = \<lparr>sym_text = 0x100000, sym_rodata = 0x104000, sym_data = 0x108000, sym_bss = 0x10C000,
     sym_end_of_binary = 0x108002, sym_end_of_kernel = 0x130000\<rparr>"

definition demo_packed :: file_map where
  "demo_packed = snd (the (packer_main (\<lambda>_. 5) (\<lambda>_. True) demo_files demo_args))"

definition demo_memory :: mem where
  "demo_memory = store_bytes (\<lambda>_. 0) 0x108000 (the (demo_packed [0x6F]))"

lemma demo_packs:
  "packer_main (\<lambda>_. 5) (\<lambda>_. True) demo_files demo_args = Some (0, demo_packed)"
  "\<exists>i. demo_packed [0x6F] = Some i \<and> length i = 141"
proof -
  have ok: "\<forall>f\<in>set [[0x75, 0x2F, 0x73]]. path_ok 125 f
      \<and> (\<exists>c. demo_files f = Some c \<and> length c < 2 ^ 32 - 128)"
    by (simp add: path_ok_def demo_files_def)
  have k: "demo_files [0x6B] = Some [1, 2]" by (simp add: demo_files_def)
  obtain ps where ps: "buildImage (\<lambda>_. 5) (\<lambda>_. True) demo_files [[0x6B], [0x75, 0x2F, 0x73]] [0x6F]
      = Some (True, demo_files([0x6F] \<mapsto> [1, 2] @ section_bytes ps))" "\<forall>p\<in>set ps. packed_ok 125 p"
    "map (\<lambda>p. (cstr (snd p), fst p)) ps
      = map (\<lambda>f. (base_name f, the (demo_files f))) [[0x75, 0x2F, 0x73]]"
    using buildImage_section [where writable = "\<lambda>_. True" and out = "[0x6F]" and beyond = "\<lambda>_. 5",
        OF ok k] by auto
  have run: "packer_main (\<lambda>_. 5) (\<lambda>_. True) demo_files demo_args
      = Some (0, demo_files([0x6F] \<mapsto> [1, 2] @ section_bytes ps))"
    using ps(1) by (simp add: packer_main_def demo_args_def) (simp add: demo_files_def)
  then have d: "demo_packed = demo_files([0x6F] \<mapsto> [1, 2] @ section_bytes ps)"
    by (simp add: demo_packed_def)
  from ps(3) obtain p where "ps = [p]" "fst p = [7, 8, 9]"
    by (cases ps) (auto simp: demo_files_def)
  then have "length (section_bytes ps) = 139"
    using ps(2) length_entry_bytes [of 125 p] by (simp add: section_bytes_def)
  then show "packer_main (\<lambda>_. 5) (\<lambda>_. True) demo_files demo_args = Some (0, demo_packed)"
    and "\<exists>i. demo_packed [0x6F] = Some i \<and> length i = 141"
    using run by (simp_all add: d)
qed

theorem packed_modules_load_witness:
  "\<exists>start e. ldr_module_load (fst (initializeKernelBinary demo_symbols demo_memory))
      (get_module_zone demo_symbols) ([0x73] @ [0]) \<lparr>mod_start = 0, mod_size = 0, mod_name = []\<rparr>
      = Some (start, e) \<and> mod_size e = 3"
proof -
  obtain i where i: "demo_packed [0x6F] = Some i" "length i = 141" using demo_packs(2) by blast
  have f: "find (\<lambda>f. base_name f = [0x73]) [[0x75, 0x2F, 0x73]] = Some [0x75, 0x2F, 0x73]"
    by (simp add: base_name_def)
  have d: "the (demo_files [0x75, 0x2F, 0x73]) = [7, 8, 9]" by (simp add: demo_files_def)
  have at: "image_at demo_memory demo_symbols [1, 2] img
      \<and> length img \<le> 2 ^ 31 + length [1 :: u8, 2]
      \<and> unat (sym_end_of_binary demo_symbols) + length img \<le> 2 ^ 64 + length [1 :: u8, 2]
      \<and> unat (sym_bss demo_symbols) + 0x21000 + length img < 2 ^ 64 + length [1 :: u8, 2]"
    if "demo_packed (pk_output_file demo_args) = Some img" for img
    using that i load_store_bytes [of i "\<lambda>_. 0" "0x108000"]
    by (simp add: image_at_def demo_symbols_def demo_args_def demo_memory_def)
  have a: "take (nat (pk_count demo_args)) (pk_args demo_args) = [0x6B] # [[0x75, 0x2F, 0x73]]"
    "pk_output_file demo_args = [0x6F]" by (simp_all add: demo_args_def)
  have "(0 :: int) = 0 \<and> (case find (\<lambda>f. base_name f = [0x73]) [[0x75, 0x2F, 0x73]] of
      None \<Rightarrow> ldr_module_load (fst (initializeKernelBinary demo_symbols demo_memory))
        (get_module_zone demo_symbols) ([0x73] @ [0]) \<lparr>mod_start = 0, mod_size = 0, mod_name = []\<rparr>
        = Some (0, \<lparr>mod_start = 0, mod_size = 0, mod_name = []\<rparr>)
    | Some f \<Rightarrow> \<exists>start e. ldr_module_load (fst (initializeKernelBinary demo_symbols demo_memory))
        (get_module_zone demo_symbols) ([0x73] @ [0]) \<lparr>mod_start = 0, mod_size = 0, mod_name = []\<rparr>
        = Some (start, e) \<and> start \<noteq> 0 \<and> mod_start e = start \<and> cstr (mod_name e) = [0x73]
        \<and> mod_size e = of_nat (length (the (demo_files f)))
        \<and> load_bytes (fst (initializeKernelBinary demo_symbols demo_memory)) start
            (length (the (demo_files f))) = the (demo_files f))"
    by (rule packed_modules_load [where a = demo_args and k = "[0x6B]" and kbin = "[1, 2]"
          and writable = "\<lambda>_. True" and files' = demo_packed and beyond = "\<lambda>_. 5" and m = demo_memory,
          OF a(1) _ _ _ _ _ at demo_packs(1)])
      (simp_all add: a path_ok_def demo_files_def)
  then show ?thesis unfolding f option.case d by auto
qed

end
