(* ===== verification/Heap_Objects.thy ===== *)
theory Heap_Objects
  imports Packer
begin

section \<open>Objects on the kernel heap\<close>

text \<open>
  What the clients of \<open>mmu_kmalloc\<close> rely on. The locale \<open>object_store\<close> is the interface: objects do not
  overlap, and a write into one keeps all of them. It is interpreted on the blocks in use of the
  kernel heap. Allocation gives a new object and keeps the contents of the others.
\<close>

subsection \<open>The interface\<close>

text \<open>
  What a client of an allocator may rely on: \<open>own s a n\<close> says that the \<open>n\<close> bytes from \<open>a\<close> on are
  its own in state \<open>s\<close>. Objects at different addresses do not overlap, and a write into one of them
  keeps all of them. Inside, the rules by which a field of one object survives a write to another.
\<close>

locale object_store =
  fixes own :: "'s \<Rightarrow> u64 \<Rightarrow> nat \<Rightarrow> bool" and get :: "'s \<Rightarrow> mem" and put :: "mem \<Rightarrow> 's \<Rightarrow> 's"
  assumes get_put: "get (put m s) = m"
    and put_put: "put m (put m' s) = put m s"
    and own_bounds: "own s a n \<Longrightarrow> 0 < unat a \<and> unat a + n \<le> 2 ^ 63"
    and own_apart: "own s a n \<Longrightarrow> own s b k \<Longrightarrow> a \<noteq> b \<Longrightarrow> unat a + n \<le> unat b \<or> unat b + k \<le> unat a"
    and own_write: "own s a n \<Longrightarrow> i + length bs \<le> n
      \<Longrightarrow> own (put (store_bytes (get s) (a + of_nat i) bs) s) = own s"
begin

lemma own_address: "own s a n \<Longrightarrow> i \<le> n \<Longrightarrow> unat (a + of_nat i) = unat a + i"
  using own_bounds [of s a n] by (intro unat_add_small) auto

lemma fields_apart:
  assumes "own s a n" and "own s b k" and "a \<noteq> b" and "i + x \<le> n" and "j + y \<le> k" and "0 < x" and "0 < y"
  shows "apart (a + of_nat i) x (b + of_nat j) y"
proof -
  have u: "unat (a + of_nat i) = unat a + i" "unat (b + of_nat j) = unat b + j"
    using own_address [OF assms(1), of i] own_address [OF assms(2), of j] assms(4,5) by simp_all
  have b: "unat a + n \<le> 2 ^ 63" "unat b + k \<le> 2 ^ 63"
    using own_bounds [OF assms(1)] own_bounds [OF assms(2)] by simp_all
  show ?thesis
    using own_apart [OF assms(1-3)]
  proof
    assume "unat a + n \<le> unat b"
    then show ?thesis using assms u b by (intro apart_below(1)) simp_all
  next
    assume "unat b + k \<le> unat a"
    then show ?thesis using assms u b by (intro apart_below(2)) simp_all
  qed
qed

lemma own_store64:
  "own s a n \<Longrightarrow> i + 8 \<le> n \<Longrightarrow> own (put (store64 (get s) (a + of_nat i) v) s) = own s"
  unfolding store64_def by (rule own_write) simp_all

lemma own_store32:
  "own s a n \<Longrightarrow> i + 4 \<le> n \<Longrightarrow> own (put (store32 (get s) (a + of_nat i) w) s) = own s"
  unfolding store32_def by (rule own_write) simp_all

end

subsection \<open>The objects of the kernel heap\<close>

definition owned :: "u64 set \<Rightarrow> nat \<Rightarrow> nat \<Rightarrow> 'a mmu_state_scheme \<Rightarrow> u64 \<Rightarrow> nat \<Rightarrow> bool" where
  "owned P N K s a n \<longleftrightarrow> (\<exists>bs b. heap_ok P N K s bs \<and> b \<in> set bs \<and> block_free (mem s) b = 0
     \<and> a = b + 32 \<and> n \<le> unat (block_size (mem s) b))"

lemma path_unique: "path m p a xs 0 \<Longrightarrow> path m p a ys 0 \<Longrightarrow> xs = ys"
proof (induction xs arbitrary: p a ys)
  case Nil
  then show ?case by (cases ys) auto
next
  case (Cons x xs)
  then show ?case by (cases ys) auto
qed

lemma heap_ok_unique: "heap_ok P N K s bs \<Longrightarrow> heap_ok P N K s cs \<Longrightarrow> bs = cs"
  unfolding heap_ok_def heap_list_def by (blast intro: path_unique)

lemma owned_iff:
  assumes "heap_ok P N K s bs"
  shows "owned P N K s a n \<longleftrightarrow>
    (\<exists>b\<in>set bs. block_free (mem s) b = 0 \<and> a = b + 32 \<and> n \<le> unat (block_size (mem s) b))"
  unfolding owned_def using assms heap_ok_unique [OF assms] by blast

lemma owned_block:
  assumes "owned P N K s a n" and "heap_ok P N K s bs"
  obtains b where "b \<in> set bs" "block_free (mem s) b = 0" "a = b + 32" "n \<le> unat (block_size (mem s) b)"
    "unat a = unat b + 32"
proof -
  obtain cs b where b: "heap_ok P N K s cs" "b \<in> set cs" "block_free (mem s) b = 0" "a = b + 32"
    "n \<le> unat (block_size (mem s) b)" using assms(1) by (auto simp: owned_def)
  have "cs = bs" using heap_ok_unique [OF b(1) assms(2)] .
  moreover have "unat b + 32 \<le> 2 ^ 63"
    using b(1,2) block_in_bounds(1) by (auto simp: heap_ok_def heap_list_def)
  then have "unat (b + of_nat 32) = unat b + 32" by (intro unat_add_small) simp
  ultimately show ?thesis using that b by simp
qed

lemma block_after_frame:
  assumes "heap_ok P N K s bs" and "b \<in> set bs"
  shows "unat (pmm_map s) \<le> unat b" and "unat b + block_len (mem s) b \<le> 2 ^ 63"
proof -
  have "block_in (P - set (pmm_frames s)) (mem s) b" using assms by (simp add: heap_ok_def heap_list_def)
  then show "unat b + block_len (mem s) b \<le> 2 ^ 63" by (rule block_in_bounds(3))
  have "block_in P (mem s) b" using assms by (auto simp: heap_ok_def heap_list_def block_in_def)
  then obtain f where "f \<in> P" "unat f \<le> unat b" by (auto simp: block_in_def)
  then show "unat (pmm_map s) \<le> unat b" using assms(1) by (fastforce simp: heap_ok_def pmm_ok_def pmm_layout_def)
qed

lemma owned_bounds: "owned P N K s a n \<Longrightarrow> 0 < unat a \<and> unat a + n \<le> 2 ^ 63"
proof -
  assume o: "owned P N K s a n"
  then obtain bs where h: "heap_ok P N K s bs" by (auto simp: owned_def)
  obtain b where b: "b \<in> set bs" "n \<le> unat (block_size (mem s) b)" "unat a = unat b + 32"
    using owned_block [OF o h] by metis
  then show ?thesis using block_after_frame(2) [OF h b(1)] by (simp add: block_len_def)
qed

lemma owned_apart:
  assumes "owned P N K s a n" and "owned P N K s c k" and "a \<noteq> c"
  shows "unat a + n \<le> unat c \<or> unat c + k \<le> unat a"
proof -
  obtain bs where h: "heap_ok P N K s bs" using assms(1) by (auto simp: owned_def)
  obtain x where x: "x \<in> set bs" "n \<le> unat (block_size (mem s) x)" "unat a = unat x + 32" "a = x + 32"
    using owned_block [OF assms(1) h] by metis
  obtain y where y: "y \<in> set bs" "k \<le> unat (block_size (mem s) y)" "unat c = unat y + 32" "c = y + 32"
    using owned_block [OF assms(2) h] by metis
  have "blocks_apart (mem s) x y" using h x y assms(3) by (auto simp: heap_ok_def heap_list_def)
  then show ?thesis using x y by (auto simp: blocks_apart_def block_len_def)
qed

text \<open>Writing where no block header and no table of the allocator lies.\<close>

definition free_place :: "nat \<Rightarrow> 'a mmu_state_scheme \<Rightarrow> u64 list \<Rightarrow> u64 \<Rightarrow> bool" where
  "free_place K s bs x \<longleftrightarrow> \<not> pmm_area K s x \<and> (\<forall>b \<in> set bs. \<not> (unat b \<le> unat x \<and> unat x < unat b + 32))"

lemma heap_ok_write:
  assumes "heap_ok P N K s bs" and "\<And>x. m x \<noteq> mem s x \<Longrightarrow> free_place K s bs x"
  shows "heap_ok P N K (s\<lparr>mem := m\<rparr>) bs"
    and "b \<in> set bs \<Longrightarrow> block_size m b = block_size (mem s) b \<and> block_free m b = block_free (mem s) b"
proof -
  have hl: "heap_list (P - set (pmm_frames s)) (mem s) (base_addr s) bs" and ok: "pmm_ok P N K s"
    using assms(1) by (simp_all add: heap_ok_def)
  have eq: "block_size m b = block_size (mem s) b \<and> block_next m b = block_next (mem s) b
      \<and> block_prev m b = block_prev (mem s) b \<and> block_free m b = block_free (mem s) b" if "b \<in> set bs" for b
  proof -
    have "unat b + 32 \<le> 2 ^ 63" using hl that block_in_bounds(1) by (auto simp: heap_list_def)
    moreover have "m x = mem s x" if "unat b \<le> unat x" "unat x < unat b + 32" for x
      using assms(2) [of x] that \<open>b \<in> set bs\<close> by (auto simp: free_place_def)
    ultimately show ?thesis using block_cong [of b m "mem s"] by simp
  qed
  then show "b \<in> set bs \<Longrightarrow> block_size m b = block_size (mem s) b \<and> block_free m b = block_free (mem s) b"
    by simp
  have "heap_list (P - set (pmm_frames s)) m (base_addr s) bs"
    by (rule heap_list_cong [OF hl]) (use eq in auto)
  from heap_ok_mem [OF ok this] have "heap_ok P N K (s\<lparr>mem := m, base_addr := base_addr s\<rparr>) bs"
    using assms(2) by (auto simp: free_place_def)
  then show "heap_ok P N K (s\<lparr>mem := m\<rparr>) bs" by simp
qed

lemma owned_same:
  assumes "heap_ok P N K s bs" and "\<And>x. m x \<noteq> mem s x \<Longrightarrow> free_place K s bs x"
  shows "owned P N K (s\<lparr>mem := m\<rparr>) = owned P N K s"
proof -
  have h: "heap_ok P N K (s\<lparr>mem := m\<rparr>) bs" by (rule heap_ok_write(1) [OF assms])
  have eq: "block_size m b = block_size (mem s) b \<and> block_free m b = block_free (mem s) b" if "b \<in> set bs" for b
    by (rule heap_ok_write(2) [OF assms that])
  show ?thesis
    by (intro ext) (simp add: owned_iff [OF h] owned_iff [OF assms(1)] eq cong: bex_cong)
qed

lemma owned_place:
  assumes "heap_ok P N K s bs" and "owned P N K s a n" and "in_range (a + of_nat i) k x" and "i + k \<le> n"
  shows "free_place K s bs x"
proof -
  obtain b where b: "b \<in> set bs" "n \<le> unat (block_size (mem s) b)" "unat a = unat b + 32"
    using owned_block [OF assms(2,1)] by metis
  have hl: "heap_list (P - set (pmm_frames s)) (mem s) (base_addr s) bs" using assms(1) by (simp add: heap_ok_def)
  have u: "unat (a + of_nat i) = unat a + i"
    using owned_bounds [OF assms(2)] assms(4) by (intro unat_add_small) simp
  have "unat a + i \<le> unat x \<and> unat x < unat a + i + k"
  proof (cases "a + of_nat i \<le> x")
    case True
    then have "unat (x - (a + of_nat i)) = unat x - (unat a + i)" by (simp add: unat_sub u)
    then show ?thesis using assms(3) True u by (auto simp: in_range_def word_le_nat_alt)
  next
    case False
    then have "unat (x - (a + of_nat i)) = unat x + 2 ^ 64 - (unat a + i)"
      unfolding unat_sub_if_size u by (simp add: word_le_nat_alt u word_size)
    then show ?thesis using assms(3,4) owned_bounds [OF assms(2)] by (auto simp: in_range_def)
  qed
  then have d: "in_data (mem s) b x" using b assms(4) by (simp add: in_data_def block_len_def)
  show ?thesis
    using heap_block_places(1) [OF assms(1) b(1), of x] data_not_header [OF hl _ b(1) d] d
    by (auto simp: free_place_def in_data_def)
qed

interpretation heap_objects: object_store "owned P N K" mem "\<lambda>m s. s\<lparr>mem := m\<rparr>" for P N K
proof unfold_locales
  fix s :: "'a mmu_state_scheme" and a n i and bs :: "u8 list"
  assume o: "owned P N K s a n" and l: "i + length bs \<le> n"
  obtain cs where h: "heap_ok P N K s cs" using o by (auto simp: owned_def)
  show "owned P N K (s\<lparr>mem := store_bytes (mem s) (a + of_nat i) bs\<rparr>) = owned P N K s"
  proof (rule owned_same [OF h])
    fix x assume "store_bytes (mem s) (a + of_nat i) bs x \<noteq> mem s x"
    then have "in_range (a + of_nat i) (length bs) x" by (auto simp: store_bytes_def split: if_splits)
    then show "free_place K s cs x" by (rule owned_place [OF h o _ l])
  qed
next
  fix s :: "'a mmu_state_scheme" and a n
  assume "owned P N K s a n"
  then show "0 < unat a \<and> unat a + n \<le> 2 ^ 63" by (rule owned_bounds)
next
  fix s :: "'a mmu_state_scheme" and a b n k
  assume "owned P N K s a n" "owned P N K s b k" "a \<noteq> b"
  then show "unat a + n \<le> unat b \<or> unat b + k \<le> unat a" by (rule owned_apart)
qed simp_all

subsection \<open>Allocating an object\<close>

lemma kmalloc_rest:
  assumes "mmu_kmalloc sz s = Some (r, t)" and "unat sz \<le> 4096"
  shows "t = s\<lparr>mem := mem t, free_blocks := free_blocks t, base_addr := base_addr t\<rparr>"
proof -
  have big: "\<not> sz > VMM_PAGE_SIZE" using assms(2) by (simp add: word_less_nat_alt)
  have ex: "t' = s\<lparr>mem := mem t', free_blocks := free_blocks t', base_addr := base_addr t'\<rparr>"
    if e: "expand_heap p sz s = Some (c, t')" for p c and t' :: "'a mmu_state_scheme"
  proof -
    obtain f u where u: "gmem s = (f, u)" by (cases "gmem s")
    have "u = s\<lparr>mem := mem u, free_blocks := free_blocks u\<rparr>" by (rule gmem_rest [OF u])
    then obtain mu fu where "u = s\<lparr>mem := mu, free_blocks := fu\<rparr>" by blast
    then show ?thesis using e unfolding expand_heap_def u Let_def by (auto split: if_splits)
  qed
  have "(\<exists>p c. expand_heap p sz s = Some (c, t)) \<or> (\<exists>m. t = s\<lparr>mem := m\<rparr>)"
    using assms(1) big by (auto simp: mmu_kmalloc_def Let_def split: if_splits Option.bind_splits) blast+
  then show ?thesis
  proof
    assume "\<exists>p c. expand_heap p sz s = Some (c, t)"
    then show ?thesis using ex by blast
  qed auto
qed

lemma owned_alloc:
  assumes ok: "heap_ok P N K s bs" and "pmm_frames s \<noteq> []" and "0 < unat sz" and "unat sz \<le> 2048"
  shows "\<exists>a t cs. mmu_kmalloc sz s = Some (a, t) \<and> heap_ok P N K t cs \<and> owned P N K t a (unat sz)
    \<and> (\<forall>c k. owned P N K s c k \<longrightarrow> owned P N K t c k \<and> c \<noteq> a \<and> load_bytes (mem t) c k = load_bytes (mem s) c k)"
proof -
  obtain b t cs where b: "mmu_kmalloc sz s = Some (b + 32, t)" "heap_ok P N K t cs" "b \<in> set cs"
    "block_free (mem t) b = 0" "unat sz \<le> unat (block_size (mem t) b)"
    "b \<in> set bs \<longrightarrow> block_free (mem s) b \<noteq> 0" "used_kept (mem s) bs (mem t) cs"
    using kmalloc_ok [OF assms] by blast
  have own: "owned P N K t (b + 32) (unat sz)" unfolding owned_iff [OF b(2)] using b by blast
  have "owned P N K t c k \<and> c \<noteq> b + 32 \<and> load_bytes (mem t) c k = load_bytes (mem s) c k"
    if o: "owned P N K s c k" for c k
  proof -
    obtain x where x: "x \<in> set bs" "block_free (mem s) x = 0" "c = x + 32" "k \<le> unat (block_size (mem s) x)"
      "unat c = unat x + 32" using owned_block [OF o ok] by metis
    have k: "x \<in> set cs" "block_free (mem t) x = 0" "block_size (mem t) x = block_size (mem s) x"
      "\<And>y. in_data (mem s) x y \<Longrightarrow> mem t y = mem s y"
      using b(7) x(1,2) by (auto simp: used_kept_def)
    have "mem t (c + of_nat i) = mem s (c + of_nat i)" if "i < k" for i
    proof (rule k(4))
      have "unat (c + of_nat i) = unat c + i"
        using owned_bounds [OF o] that by (intro unat_add_small) simp
      then show "in_data (mem s) x (c + of_nat i)" using x that by (simp add: in_data_def block_len_def)
    qed
    then have "load_bytes (mem t) c k = load_bytes (mem s) c k" by (simp add: load_bytes_def)
    moreover have "owned P N K t c k" unfolding owned_iff [OF b(2)] using k x by fastforce
    moreover have "c \<noteq> b + 32" using b(6) x(1-3) by auto
    ultimately show ?thesis by blast
  qed
  then show ?thesis using b(1,2) own by blast
qed

text \<open>A write below the tables of the allocator leaves all objects.\<close>

lemma owned_low:
  assumes "heap_ok P N K s bs" and "length ws \<le> unat (mem_stack s)"
  shows "owned P N K (s\<lparr>mem := store_bytes (mem s) 0 ws\<rparr>) = owned P N K s"
    and "heap_ok P N K (s\<lparr>mem := store_bytes (mem s) 0 ws\<rparr>) bs"
    and "owned P N K s c k \<Longrightarrow> load_bytes (store_bytes m 0 ws) c k = load_bytes m c k"
proof -
  have lay: "unat (mem_stack s) \<le> unat (pmm_map s)" using assms(1) by (auto simp: heap_ok_def pmm_ok_def pmm_layout_def)
  have pl: "free_place K s bs x" if "store_bytes (mem s) 0 ws x \<noteq> mem s x" for x
  proof -
    have "unat x < unat (mem_stack s)"
      using that assms(2) by (auto simp: store_bytes_def in_range_def split: if_splits)
    then show ?thesis
      using block_after_frame(1) [OF assms(1)] lay by (fastforce simp: free_place_def pmm_area_def)
  qed
  show "owned P N K (s\<lparr>mem := store_bytes (mem s) 0 ws\<rparr>) = owned P N K s" by (rule owned_same [OF assms(1) pl])
  show "heap_ok P N K (s\<lparr>mem := store_bytes (mem s) 0 ws\<rparr>) bs" by (rule heap_ok_write(1) [OF assms(1) pl])
  show "load_bytes (store_bytes m 0 ws) c k = load_bytes m c k" if o: "owned P N K s c k"
  proof (cases "ws = []")
    case False
    obtain x where x: "x \<in> set bs" "unat c = unat x + 32" using owned_block [OF o assms(1)] by metis
    then have "length ws \<le> unat c" using block_after_frame(1) [OF assms(1) x(1)] lay assms(2) by simp
    then show ?thesis
      using owned_bounds [OF o] False by (intro load_store_bytes_apart apart_below(1)) simp_all
  qed simp
qed

text \<open>Fields from the bytes of an object.\<close>

lemma load_bytes_part:
  assumes "load_bytes m' a n = load_bytes m a n" and "i + k \<le> n"
  shows "load_bytes m' (a + of_nat i) k = load_bytes m (a + of_nat i) k"
proof (rule nth_equalityI)
  fix j assume "j < length (load_bytes m' (a + of_nat i) k)"
  then have j: "j < k" by simp
  then have "load_bytes m' a n ! (i + j) = load_bytes m a n ! (i + j)" using assms(1) by simp
  then show "load_bytes m' (a + of_nat i) k ! j = load_bytes m (a + of_nat i) k ! j"
    using j assms(2) by (simp add: add.assoc)
qed simp

lemma load_part:
  assumes "load_bytes m' a n = load_bytes m a n"
  shows "i + 8 \<le> n \<Longrightarrow> load64 m' (a + of_nat i) = load64 m (a + of_nat i)"
    and "i + 4 \<le> n \<Longrightarrow> load32 m' (a + of_nat i) = load32 m (a + of_nat i)"
  using load_bytes_part [OF assms, of i] by (simp_all add: load64_def load32_def)

end
