(* ===== verification/Semaphore.thy ===== *)
theory Semaphore
  imports Heap_Objects
begin

section \<open>Kernel/semaphore.c\<close>

text \<open>
  A semaphore is an object of 24 bytes (queue, value, last), the queue a list of nodes of 16 bytes (pid,
  next). The lemmas relate the operations to a counter with a queue of pids.
\<close>

subsection \<open>The fields\<close>

definition pq_pid :: "mem \<Rightarrow> u64 \<Rightarrow> u32" where "pq_pid m q = load32 m q"
definition pq_next :: "mem \<Rightarrow> u64 \<Rightarrow> u64" where "pq_next m q = load64 m (q + 8)"
definition set_pq_pid :: "u64 \<Rightarrow> u32 \<Rightarrow> mem \<Rightarrow> mem" where "set_pq_pid q v m = store32 m q v"
definition set_pq_next :: "u64 \<Rightarrow> u64 \<Rightarrow> mem \<Rightarrow> mem" where "set_pq_next q v m = store64 m (q + 8) v"

definition sem_queue :: "mem \<Rightarrow> u64 \<Rightarrow> u64" where "sem_queue m sem = load64 m sem"
definition sem_value :: "mem \<Rightarrow> u64 \<Rightarrow> u32" where "sem_value m sem = load32 m (sem + 8)"
definition sem_last :: "mem \<Rightarrow> u64 \<Rightarrow> u64" where "sem_last m sem = load64 m (sem + 16)"
definition set_queue :: "u64 \<Rightarrow> u64 \<Rightarrow> mem \<Rightarrow> mem" where "set_queue sem v m = store64 m sem v"
definition set_value :: "u64 \<Rightarrow> u32 \<Rightarrow> mem \<Rightarrow> mem" where "set_value sem v m = store32 m (sem + 8) v"
definition set_last :: "u64 \<Rightarrow> u64 \<Rightarrow> mem \<Rightarrow> mem" where "set_last sem v m = store64 m (sem + 16) v"

abbreviation SEM_SIZE :: u64 where "SEM_SIZE \<equiv> 24"
abbreviation PQ_SIZE :: u64 where "PQ_SIZE \<equiv> 16"

subsection \<open>Operations\<close>

definition CreateSem :: "u32 \<Rightarrow> 'a mmu_state_scheme \<Rightarrow> (u64 \<times> 'a mmu_state_scheme) option" where
  "CreateSem value s = do {
     (sem, s) \<leftarrow> mmu_kmalloc SEM_SIZE s;
     let m = set_value sem value (mem s);
     let m = set_queue sem 0 m;
     let m = set_last sem 0 m;
     Some (sem, s\<lparr>mem := m\<rparr>)
   }"

partial_function (option) FlushSemQueue :: "u64 \<Rightarrow> 'a mmu_state_scheme \<Rightarrow> 'a mmu_state_scheme option" where
  "FlushSemQueue sem s =
     (if sem_queue (mem s) sem \<noteq> 0
      then do {
        let aux = sem_queue (mem s) sem;
        let s = s\<lparr>mem := set_queue sem (pq_next (mem s) (sem_queue (mem s) sem)) (mem s)\<rparr>;
        s \<leftarrow> mmu_kfree aux s;
        FlushSemQueue sem s
      }
      else Some s)"

definition DeleteSem :: "u64 \<Rightarrow> 'a mmu_state_scheme \<Rightarrow> 'a mmu_state_scheme option" where
  "DeleteSem sem s = do {
     s \<leftarrow> FlushSemQueue sem s;
     mmu_kfree sem s
   }"

text \<open>
  \<open>value\<close> is an \<open>int\<close>: the comparison is signed. On an empty queue the pid is first written
  through the null pointer. Nobody sleeps; the second look at the value is the same as the first.
\<close>

definition WaitSem :: "u64 \<Rightarrow> 'a mmu_state_scheme \<Rightarrow> (u32 \<times> 'a mmu_state_scheme) option" where
  "WaitSem sem s =
     (if sint (sem_value (mem s) sem) > 0
      then Some (1, s\<lparr>mem := set_value sem (sem_value (mem s) sem - 1) (mem s)\<rparr>)
      else do {
        (newProc, s) \<leftarrow> mmu_kmalloc PQ_SIZE s;
        pid \<leftarrow> sched_getpid s;
        let m = set_pq_pid newProc (ucast pid) (mem s);
        let m = set_pq_next newProc 0 m;
        let m = (if sem_queue m sem = 0
                 then (let m = set_pq_pid (sem_queue m sem) (pq_pid m newProc) m;
                           m = set_queue sem newProc m
                       in set_last sem newProc m)
                 else (let m = set_pq_next (sem_last m sem) newProc m
                       in set_last sem newProc m));
        if sint (sem_value m sem) > 0
        then Some (1, s\<lparr>mem := set_value sem (sem_value m sem - 1) m\<rparr>)
        else Some (0, s\<lparr>mem := m\<rparr>)
      })"

definition SignalSem :: "u64 \<Rightarrow> mem \<Rightarrow> mem" where
  "SignalSem sem m =
     (if sem_queue m sem = 0 then set_value sem (sem_value m sem + 1) m
      else set_queue sem (pq_next m (sem_queue m sem)) m)"

definition ValueSem :: "u64 \<Rightarrow> mem \<Rightarrow> u32" where
  "ValueSem sem m = sem_value m sem"

partial_function (option) flush_loop :: "u64 \<Rightarrow> mem \<Rightarrow> mem option" where
  "flush_loop sem m = (if sem_queue m sem \<noteq> 0 then flush_loop sem (SignalSem sem m) else Some m)"

definition FlushSem :: "u64 \<Rightarrow> 'a mmu_state_scheme \<Rightarrow> 'a mmu_state_scheme option" where
  "FlushSem sem s = do {
     m \<leftarrow> flush_loop sem (set_value sem (- 1) (mem s));
     FlushSemQueue sem (s\<lparr>mem := m\<rparr>)
   }"

subsection \<open>The fields of one object\<close>

lemma apart_same:
  assumes "i + n \<le> j" and "j + k \<le> 2 ^ 63" and "0 < n" and "0 < k"
  shows "apart ((a :: u64) + of_nat i) n (a + of_nat j) k" and "apart (a + of_nat j) k (a + of_nat i) n"
proof -
  have u: "unat (of_nat j :: u64) = j" "unat (of_nat i :: u64) = i"
    using assms by (auto intro!: unat_of_nat_small)
  then have d: "unat ((of_nat j :: u64) - of_nat i) = j - i"
    using assms by (subst unat_sub) (simp_all add: word_le_nat_alt)
  have e: "(a + of_nat j) - (a + of_nat i) = of_nat j - of_nat i"
    "(a + of_nat i) - (a + of_nat j) = of_nat i - of_nat j" by simp_all
  have "(of_nat i :: u64) \<noteq> of_nat j" using u assms by auto
  then have "unat ((of_nat i :: u64) - of_nat j) = 2 ^ 64 - (j - i)"
    using unat_minus_swap [of "of_nat i" "of_nat j"] d by simp
  then have d': "unat ((of_nat i :: u64) - of_nat j) = 18446744073709551616 - (j - i)" by simp
  have "n \<le> j - i" "k \<le> 18446744073709551616 - (j - i)" using assms by simp_all
  then show "apart (a + of_nat i) n (a + of_nat j) k" unfolding apart_def e d d' by simp
  then show "apart (a + of_nat j) k (a + of_nat i) n" by (simp add: apart_sym)
qed

lemma sem_same [simp]:
  "sem_queue (set_queue q v m) q = v" "sem_value (set_value q w m) q = w" "sem_last (set_last q v m) q = v"
  "sem_queue (set_value q w m) q = sem_queue m q" "sem_queue (set_last q v m) q = sem_queue m q"
  "sem_value (set_queue q v m) q = sem_value m q" "sem_value (set_last q v m) q = sem_value m q"
  "sem_last (set_queue q v m) q = sem_last m q" "sem_last (set_value q w m) q = sem_last m q"
  "pq_pid (set_pq_pid q w m) q = w" "pq_next (set_pq_next q v m) q = v"
  "pq_pid (set_pq_next q v m) q = pq_pid m q" "pq_next (set_pq_pid q w m) q = pq_next m q"
  unfolding sem_queue_def sem_value_def sem_last_def set_queue_def set_value_def set_last_def
    pq_pid_def pq_next_def set_pq_pid_def set_pq_next_def
  using apart_same [of 0 8 8 4 q] apart_same [of 0 8 16 8 q] apart_same [of 8 4 16 8 q]
    apart_same [of 0 4 8 8 q]
  by (simp_all add: c64.ld_st c32.ld_st cell_apart)

lemmas sem_defs = sem_queue_def sem_value_def sem_last_def set_queue_def set_value_def set_last_def
  pq_pid_def pq_next_def set_pq_pid_def set_pq_next_def

subsection \<open>The queue\<close>

fun nqueue :: "mem \<Rightarrow> u64 \<Rightarrow> u64 list \<Rightarrow> bool" where
  "nqueue m q [] \<longleftrightarrow> q = 0"
| "nqueue m q (n # ns) \<longleftrightarrow> q = n \<and> n \<noteq> 0 \<and> nqueue m (pq_next m n) ns"

text \<open>A semaphore with value \<open>v\<close> on which the processes \<open>ps\<close> wait, in this order.\<close>

definition sem_rep ::
  "u64 set \<Rightarrow> nat \<Rightarrow> nat \<Rightarrow> 'a mmu_state_scheme \<Rightarrow> u64 \<Rightarrow> u32 \<Rightarrow> u32 list \<Rightarrow> bool"
where
  "sem_rep P N K s sem v ps \<longleftrightarrow> owned P N K s sem 24 \<and> sem_value (mem s) sem = v
     \<and> (\<exists>ns. nqueue (mem s) (sem_queue (mem s) sem) ns \<and> distinct (sem # ns)
         \<and> (\<forall>n\<in>set ns. owned P N K s n 16) \<and> map (pq_pid (mem s)) ns = ps
         \<and> (ns \<noteq> [] \<longrightarrow> sem_last (mem s) sem = last ns))"

lemma sem_fields_keep:
  assumes "load_bytes m' q 24 = load_bytes m q 24"
  shows "sem_queue m' q = sem_queue m q" "sem_value m' q = sem_value m q" "sem_last m' q = sem_last m q"
  using load_part(1) [OF assms, of 0] load_part(2) [OF assms, of 8] load_part(1) [OF assms, of 16]
  by (simp_all add: sem_defs)

lemma pq_fields_keep:
  assumes "load_bytes m' n 16 = load_bytes m n 16"
  shows "pq_pid m' n = pq_pid m n" "pq_next m' n = pq_next m n"
  using load_part(2) [OF assms, of 0] load_part(1) [OF assms, of 8] by (simp_all add: sem_defs)

lemma nqueue_keep:
  "nqueue m q ns \<Longrightarrow> (\<forall>n\<in>set ns. pq_next m' n = pq_next m n) \<Longrightarrow> nqueue m' q ns"
  by (induction ns arbitrary: q) auto

lemma nqueue_append:
  "nqueue m q ns \<Longrightarrow> ns \<noteq> [] \<Longrightarrow> distinct ns \<Longrightarrow> a \<noteq> 0 \<Longrightarrow> pq_next m' (last ns) = a \<Longrightarrow> pq_next m' a = 0
   \<Longrightarrow> (\<forall>n\<in>set (butlast ns). pq_next m' n = pq_next m n) \<Longrightarrow> nqueue m' q (ns @ [a])"
proof (induction ns arbitrary: q)
  case (Cons n ns)
  then show ?case by (cases ns) auto
qed simp

text \<open>Writes to one object leave the bytes of the others.\<close>

lemma write_other:
  assumes "owned P N K s o' n" and "owned P N K s c k" and "c \<noteq> o'" and "0 < k"
  shows "i + 8 \<le> n \<Longrightarrow> load_bytes (store64 m (o' + of_nat i) v) c k = load_bytes m c k"
    and "i + 4 \<le> n \<Longrightarrow> load_bytes (store32 m (o' + of_nat i) w) c k = load_bytes m c k"
  using heap_objects.fields_apart [OF assms(1,2), of i 8 0 k] heap_objects.fields_apart [OF assms(1,2), of i 4 0 k]
    assms(3,4) by (simp_all add: c64.st_apart c32.st_apart)

lemma set_fields_other:
  assumes "owned P N K s q n" and "owned P N K s c k" and "c \<noteq> q" and "0 < k"
  shows "24 \<le> n \<Longrightarrow> load_bytes (set_queue q v m) c k = load_bytes m c k"
    and "24 \<le> n \<Longrightarrow> load_bytes (set_value q w m) c k = load_bytes m c k"
    and "24 \<le> n \<Longrightarrow> load_bytes (set_last q v m) c k = load_bytes m c k"
    and "16 \<le> n \<Longrightarrow> load_bytes (set_pq_pid q w m) c k = load_bytes m c k"
    and "16 \<le> n \<Longrightarrow> load_bytes (set_pq_next q v m) c k = load_bytes m c k"
  using write_other(1) [OF assms, of 0] write_other(2) [OF assms, of 8] write_other(1) [OF assms, of 16]
    write_other(2) [OF assms, of 0] write_other(1) [OF assms, of 8]
  by (simp_all add: sem_defs)

text \<open>Writes to fields keep the objects.\<close>

lemma set_fields_owned:
  assumes "owned P N K s q n"
  shows "24 \<le> n \<Longrightarrow> owned P N K (s\<lparr>mem := set_queue q v (mem s)\<rparr>) = owned P N K s"
    and "24 \<le> n \<Longrightarrow> owned P N K (s\<lparr>mem := set_value q w (mem s)\<rparr>) = owned P N K s"
    and "24 \<le> n \<Longrightarrow> owned P N K (s\<lparr>mem := set_last q v (mem s)\<rparr>) = owned P N K s"
    and "16 \<le> n \<Longrightarrow> owned P N K (s\<lparr>mem := set_pq_pid q w (mem s)\<rparr>) = owned P N K s"
    and "16 \<le> n \<Longrightarrow> owned P N K (s\<lparr>mem := set_pq_next q v (mem s)\<rparr>) = owned P N K s"
  using heap_objects.own_store64 [OF assms, of 0 v] heap_objects.own_store32 [OF assms, of 8 w]
    heap_objects.own_store64 [OF assms, of 16 v] heap_objects.own_store32 [OF assms, of 0 w]
    heap_objects.own_store64 [OF assms, of 8 v]
  by (simp_all add: sem_defs)

subsection \<open>Waiting and signalling\<close>

text \<open>A state whose objects and queue nodes are those of \<open>s\<close>, with other fields of the semaphore.\<close>

lemma wait_passes:
  assumes "sem_rep P N K s q v ps" and "sint v > 0"
  shows "\<exists>t. WaitSem q s = Some (1, t) \<and> sem_rep P N K t q (v - 1) ps"
proof -
  let ?t = "s\<lparr>mem := set_value q (v - 1) (mem s)\<rparr>"
  obtain ns where o: "owned P N K s q 24" "sem_value (mem s) q = v" "nqueue (mem s) (sem_queue (mem s) q) ns"
    "distinct (q # ns)" "\<forall>n\<in>set ns. owned P N K s n 16" "map (pq_pid (mem s)) ns = ps"
    "ns \<noteq> [] \<longrightarrow> sem_last (mem s) q = last ns" using assms(1) by (auto simp: sem_rep_def)
  have own: "owned P N K ?t = owned P N K s" by (rule set_fields_owned(2) [OF o(1)]) simp
  have k: "pq_pid (mem ?t) n = pq_pid (mem s) n \<and> pq_next (mem ?t) n = pq_next (mem s) n" if "n \<in> set ns" for n
  proof -
    have n: "owned P N K s n 16" "n \<noteq> q" using o(4,5) that by auto
    have "load_bytes (mem ?t) n 16 = load_bytes (mem s) n 16"
      using set_fields_other(2) [OF o(1) n] by simp
    then show ?thesis using pq_fields_keep [of "mem ?t" n "mem s"] by simp
  qed
  have "nqueue (mem ?t) (sem_queue (mem ?t) q) ns"
    using nqueue_keep [OF o(3), of "mem ?t"] k by simp
  moreover have "map (pq_pid (mem ?t)) ns = ps" using o(6) k by auto
  ultimately have "sem_rep P N K ?t q (v - 1) ps"
    unfolding sem_rep_def own using o by (intro conjI exI [of _ ns]) simp_all
  moreover have "WaitSem q s = Some (1, ?t)" using assms(2) o(2) by (simp add: WaitSem_def)
  ultimately show ?thesis by blast
qed

lemma signal_refines:
  assumes "sem_rep P N K s q v ps"
  shows "sem_rep P N K (s\<lparr>mem := SignalSem q (mem s)\<rparr>) q (if ps = [] then v + 1 else v) (tl ps)"
proof -
  let ?t = "s\<lparr>mem := SignalSem q (mem s)\<rparr>"
  obtain ns where o: "owned P N K s q 24" "sem_value (mem s) q = v" "nqueue (mem s) (sem_queue (mem s) q) ns"
    "distinct (q # ns)" "\<forall>n\<in>set ns. owned P N K s n 16" "map (pq_pid (mem s)) ns = ps"
    "ns \<noteq> [] \<longrightarrow> sem_last (mem s) q = last ns" using assms(1) by (auto simp: sem_rep_def)
  have own: "owned P N K ?t = owned P N K s"
    using set_fields_owned(1,2) [OF o(1)] by (simp add: SignalSem_def)
  have k: "pq_pid (mem ?t) n = pq_pid (mem s) n \<and> pq_next (mem ?t) n = pq_next (mem s) n" if "n \<in> set ns" for n
  proof -
    have n: "owned P N K s n 16" "n \<noteq> q" using o(4,5) that by auto
    have "load_bytes (mem ?t) n 16 = load_bytes (mem s) n 16"
      using set_fields_other(1,2) [OF o(1) n] by (simp add: SignalSem_def)
    then show ?thesis using pq_fields_keep [of "mem ?t" n "mem s"] by simp
  qed
  have q0: "sem_queue (mem s) q = 0 \<longleftrightarrow> ns = []" using o(3) by (cases ns) auto
  show ?thesis
  proof (cases ns)
    case Nil
    then have "ps = []" using o(6) by simp
    then show ?thesis
      unfolding sem_rep_def own using o Nil q0 by (intro conjI exI [of _ "[]"]) (simp_all add: SignalSem_def)
  next
    case (Cons n ns')
    then have ps: "ps \<noteq> []" "tl ps = map (pq_pid (mem s)) ns'" using o(6) by auto
    have h: "sem_queue (mem s) q = n" "nqueue (mem s) (pq_next (mem s) n) ns'" "n \<noteq> 0" using o(3) Cons by auto
    have f: "sem_queue (mem ?t) q = pq_next (mem s) n" "sem_value (mem ?t) q = v"
      "sem_last (mem ?t) q = sem_last (mem s) q" using h o(2) by (simp_all add: SignalSem_def)
    have "nqueue (mem ?t) (pq_next (mem s) n) ns'"
      by (rule nqueue_keep [OF h(2)]) (use k Cons in auto)
    moreover have "map (pq_pid (mem ?t)) ns' = tl ps" using k Cons ps(2) by auto
    ultimately show ?thesis
      unfolding sem_rep_def own f using o(1,4,5,7) Cons ps(1)
      by (intro conjI exI [of _ ns']) (auto simp del: machine.simps)
  qed
qed

lemma getpid_after:
  assumes "t = s\<lparr>mem := m, free_blocks := f, base_addr := b\<rparr>"
  shows "sched_getpid t = sched_getpid s"
  by (auto simp: assms sched_getpid_def proc_at_def split: option.splits process_ptr.splits)

text \<open>What the new node and the semaphore look like when a process is put into the queue.\<close>

lemma wait_queues:
  assumes "sem_rep P N K s q v ps" and "\<not> sint v > 0" and "pmm_frames s \<noteq> []"
    and "4 \<le> unat (mem_stack s)" and "sched_getpid s = Some pid"
  shows "\<exists>t. WaitSem q s = Some (0, t) \<and> sem_rep P N K t q v (ps @ [ucast pid])"
proof -
  obtain bs where hk: "heap_ok P N K s bs" using assms(1) by (auto simp: sem_rep_def owned_def)
  obtain ns where o: "owned P N K s q 24" "sem_value (mem s) q = v" "nqueue (mem s) (sem_queue (mem s) q) ns"
    "distinct (q # ns)" "\<forall>n\<in>set ns. owned P N K s n 16" "map (pq_pid (mem s)) ns = ps"
    "ns \<noteq> [] \<longrightarrow> sem_last (mem s) q = last ns" using assms(1) by (auto simp: sem_rep_def)
  have sz: "0 < unat PQ_SIZE" "unat PQ_SIZE \<le> 2048" by simp_all
  obtain a t cs where "mmu_kmalloc PQ_SIZE s = Some (a, t)" "heap_ok P N K t cs" "owned P N K t a (unat PQ_SIZE)"
    "\<forall>c k. owned P N K s c k \<longrightarrow> owned P N K t c k \<and> c \<noteq> a \<and> load_bytes (mem t) c k = load_bytes (mem s) c k"
    using owned_alloc [OF hk assms(3) sz] by blast
  then have t: "mmu_kmalloc PQ_SIZE s = Some (a, t)" "heap_ok P N K t cs" "owned P N K t a 16"
    "\<And>c k. owned P N K s c k \<Longrightarrow> owned P N K t c k \<and> c \<noteq> a \<and> load_bytes (mem t) c k = load_bytes (mem s) c k"
    by simp_all
  have tr: "t = s\<lparr>mem := mem t, free_blocks := free_blocks t, base_addr := base_addr t\<rparr>"
    by (rule kmalloc_rest [OF t(1)]) simp
  have pid: "sched_getpid t = Some pid" using getpid_after [OF tr] assms(5) by simp
  have ms: "mem_stack t = mem_stack s" using arg_cong [OF tr, of mem_stack] by simp
  have oq: "owned P N K t q 24" "q \<noteq> a" using t(4) o(1) by blast+
  have on: "owned P N K t n 16" "n \<noteq> a" "n \<noteq> q" if "n \<in> set ns" for n using t(4) o(4,5) that by auto
  have a0: "a \<noteq> 0" using owned_bounds [OF t(3)] by auto
  define m2 where "m2 = set_pq_next a 0 (set_pq_pid a (ucast pid) (mem t))"
  have ow2: "owned P N K (t\<lparr>mem := m2\<rparr>) = owned P N K t"
  proof -
    have 1: "owned P N K (t\<lparr>mem := set_pq_pid a (ucast pid) (mem t)\<rparr>) = owned P N K t"
      by (rule set_fields_owned(4) [OF t(3)]) simp
    have "owned P N K (t\<lparr>mem := set_pq_pid a (ucast pid) (mem t)\<rparr>) a 16" unfolding 1 by (rule t(3))
    from set_fields_owned(5) [OF this, of 0] 1 show ?thesis by (simp add: m2_def)
  qed
  have q2: "load_bytes m2 q 24 = load_bytes (mem s) q 24"
    using t(4) [OF o(1)] set_fields_other(4,5) [OF t(3) oq] by (simp add: m2_def)
  have n2: "load_bytes m2 n 16 = load_bytes (mem s) n 16" if "n \<in> set ns" for n
    using t(4) o(5) set_fields_other(4,5) [OF t(3) on(1,2) [OF that]] that by (simp add: m2_def)
  have f2: "sem_queue m2 q = sem_queue (mem s) q" "sem_value m2 q = v" "sem_last m2 q = sem_last (mem s) q"
    "pq_pid m2 a = ucast pid" "pq_next m2 a = 0"
    using sem_fields_keep [OF q2] o(2) by (simp_all add: m2_def)
  have o2: "owned P N K (t\<lparr>mem := m2\<rparr>) q 24" "owned P N K (t\<lparr>mem := m2\<rparr>) a 16"
    "\<And>n. n \<in> set ns \<Longrightarrow> owned P N K (t\<lparr>mem := m2\<rparr>) n 16"
    unfolding ow2 using oq t(3) on by auto
  have w: "WaitSem q s = (let m3 = (if sem_queue m2 q = 0
        then set_last q a (set_queue q a (set_pq_pid (sem_queue m2 q) (pq_pid m2 a) m2))
        else set_last q a (set_pq_next (sem_last m2 q) a m2))
      in if sint (sem_value m3 q) > 0 then Some (1, t\<lparr>mem := set_value q (sem_value m3 q - 1) m3\<rparr>)
         else Some (0, t\<lparr>mem := m3\<rparr>))"
    using assms(2) o(2) by (simp add: WaitSem_def t(1) pid m2_def Let_def)
  show ?thesis
  proof (cases "ns = []")
    case True
    then have sq: "sem_queue m2 q = 0" "ps = []" using o(3,6) f2(1) by simp_all
    define m3 where "m3 = set_pq_pid 0 (ucast pid) m2"
    have m3: "m3 = store_bytes m2 0 (le_bytes 4 (ucast pid :: u32))"
      by (simp add: m3_def set_pq_pid_def store32_def)
    obtain ds where hd: "heap_ok P N K (t\<lparr>mem := m2\<rparr>) ds" using o2(1) by (auto simp: owned_def)
    note low = owned_low [OF hd, of "le_bytes 4 (ucast pid :: u32)"]
    have ow3: "owned P N K (t\<lparr>mem := m3\<rparr>) = owned P N K (t\<lparr>mem := m2\<rparr>)"
      using low(1) ms assms(4) by (simp add: m3)
    have q3: "load_bytes m3 q 24 = load_bytes m2 q 24" "load_bytes m3 a 16 = load_bytes m2 a 16"
      using low(3) [OF _ o2(1)] low(3) [OF _ o2(2)] ms assms(4) by (simp_all add: m3)
    define m5 where "m5 = set_last q a (set_queue q a m3)"
    have o3: "owned P N K (t\<lparr>mem := m3\<rparr>) q 24" unfolding ow3 by (rule o2)
    have 4: "owned P N K (t\<lparr>mem := set_queue q a m3\<rparr>) = owned P N K (t\<lparr>mem := m3\<rparr>)"
      using set_fields_owned(1) [OF o3, of a] by simp
    have o4: "owned P N K (t\<lparr>mem := set_queue q a m3\<rparr>) q 24" unfolding 4 by (rule o3)
    have ow5: "owned P N K (t\<lparr>mem := m5\<rparr>) = owned P N K t"
      using set_fields_owned(3) [OF o4, of a] 4 ow3 ow2 by (simp add: m5_def)
    have "load_bytes m5 a 16 = load_bytes m2 a 16"
      using set_fields_other(1,3) [OF oq(1) t(3)] oq(2) q3(2) by (simp add: m5_def)
    then have f5: "pq_pid m5 a = ucast pid" "pq_next m5 a = 0" using pq_fields_keep [of m5 a m2] f2 by simp_all
    have g5: "sem_queue m5 q = a" "sem_value m5 q = v" "sem_last m5 q = a"
      using sem_fields_keep [OF q3(1)] f2 by (simp_all add: m5_def)
    have "sem_rep P N K (t\<lparr>mem := m5\<rparr>) q v (ps @ [ucast pid])"
      unfolding sem_rep_def ow5 using oq t(3) a0 sq
      by (intro conjI exI [of _ "[a]"]) (simp_all add: f5 g5)
    moreover have "WaitSem q s = Some (0, t\<lparr>mem := m5\<rparr>)"
      using w sq f2 g5 assms(2) by (simp add: m5_def m3_def Let_def)
    ultimately show ?thesis by blast
  next
    case False
    let ?l = "last ns"
    have l: "?l \<in> set ns" "sem_last m2 q = ?l" "sem_queue m2 q \<noteq> 0"
      using False o(3,7) f2 by (cases ns, auto)+
    define m3 where "m3 = set_pq_next ?l a m2"
    define m5 where "m5 = set_last q a m3"
    have ow3: "owned P N K (t\<lparr>mem := m3\<rparr>) = owned P N K (t\<lparr>mem := m2\<rparr>)"
      using set_fields_owned(5) [OF o2(3) [OF l(1)], of a] by (simp add: m3_def)
    have o3: "owned P N K (t\<lparr>mem := m3\<rparr>) q 24" unfolding ow3 by (rule o2)
    have ow5: "owned P N K (t\<lparr>mem := m5\<rparr>) = owned P N K t"
      using set_fields_owned(3) [OF o3, of a] ow3 ow2 by (simp add: m5_def)
    have q3: "load_bytes m3 q 24 = load_bytes m2 q 24"
      using set_fields_other(5) [OF on(1) [OF l(1)] oq(1)] on(3) [OF l(1)] by (simp add: m3_def)
    have other: "load_bytes m5 n 16 = load_bytes (mem s) n 16" if "n \<in> set ns" "n \<noteq> ?l" for n
      using set_fields_other(3) [OF oq(1) on(1,3) [OF that(1)]] n2 [OF that(1)] that
        set_fields_other(5) [OF on(1) [OF l(1)] on(1) [OF that(1)]] by (simp add: m5_def m3_def)
    have la: "load_bytes m5 ?l 16 = load_bytes m3 ?l 16"
      using set_fields_other(3) [OF oq(1) on(1,3) [OF l(1)]] by (simp add: m5_def)
    have lf: "pq_pid m5 ?l = pq_pid (mem s) ?l" "pq_next m5 ?l = a"
      using pq_fields_keep [OF la] pq_fields_keep(1) [OF n2 [OF l(1)]] by (simp_all add: m3_def)
    have "load_bytes m5 a 16 = load_bytes m2 a 16"
      using set_fields_other(3) [OF oq(1) t(3)] oq(2) on(2) [OF l(1)]
        set_fields_other(5) [OF on(1) [OF l(1)] t(3)] by (simp add: m5_def m3_def)
    then have f5: "pq_pid m5 a = ucast pid" "pq_next m5 a = 0" using pq_fields_keep [of m5 a m2] f2 by simp_all
    have g5: "sem_queue m5 q = sem_queue (mem s) q" "sem_value m5 q = v" "sem_last m5 q = a"
      using sem_fields_keep [OF q3] f2 by (simp_all add: m5_def)
    have nx: "pq_next m5 n = pq_next (mem s) n" if "n \<in> set (butlast ns)" for n
    proof -
      have "n \<in> set ns" "n \<noteq> ?l" using that o(4) False by (auto dest: in_set_butlastD) (metis append_butlast_last_id distinct_append distinct_singleton disjoint_iff list.set_intros(1) not_distinct_conv_prefix)
      from pq_fields_keep(2) [OF other [OF this]] show ?thesis .
    qed
    have pd: "pq_pid m5 n = pq_pid (mem s) n" if "n \<in> set ns" for n
      using pq_fields_keep(1) [OF other [OF that]] lf(1) by (cases "n = ?l") auto
    have "nqueue m5 (sem_queue (mem s) q) (ns @ [a])"
      using nqueue_append [OF o(3) False _ a0 lf(2) f5(2)] o(4) nx by simp
    moreover have "map (pq_pid m5) (ns @ [a]) = ps @ [ucast pid]" using o(6) pd f5 by auto
    moreover have "distinct (q # ns @ [a])" using o(4) oq(2) on(2) by auto
    ultimately have "sem_rep P N K (t\<lparr>mem := m5\<rparr>) q v (ps @ [ucast pid])"
      unfolding sem_rep_def ow5 using oq(1) t(3) on(1)
      by (intro conjI exI [of _ "ns @ [a]"]) (auto simp: g5 simp del: distinct.simps)
    moreover have "WaitSem q s = Some (0, t\<lparr>mem := m5\<rparr>)"
      using w l g5 assms(2) by (simp add: m5_def m3_def Let_def)
    ultimately show ?thesis by blast
  qed
qed

end
