(* ===== verification/Pipe.thy ===== *)
theory Pipe
  imports Semaphore
begin

section \<open>Kernel/pipe.c\<close>

text \<open>
  A pipe is a structure of 56 bytes with a buffer of 200 bytes and a semaphore. The lemmas describe one
  write, the ring buffer after a sequence of bytes, and a read.
\<close>

abbreviation MAX_PIPES :: nat where "MAX_PIPES \<equiv> 20"
abbreviation PIPE_SIZE :: nat where "PIPE_SIZE \<equiv> 200"

record pipe_state = mmu_state +
  pipes :: "u64 list"

subsection \<open>The fields of a pipe\<close>

definition pipe_sem :: "mem \<Rightarrow> u64 \<Rightarrow> u64" where "pipe_sem m p = load64 m p"
definition pipe_size :: "mem \<Rightarrow> u64 \<Rightarrow> u32" where "pipe_size m p = load32 m (p + 8)"
definition pipe_avail :: "mem \<Rightarrow> u64 \<Rightarrow> u32" where "pipe_avail m p = load32 m (p + 12)"
definition pipe_buf :: "mem \<Rightarrow> u64 \<Rightarrow> u64" where "pipe_buf m p = load64 m (p + 16)"
definition pipe_head :: "mem \<Rightarrow> u64 \<Rightarrow> u64" where "pipe_head m p = load64 m (p + 24)"
definition pipe_tail :: "mem \<Rightarrow> u64 \<Rightarrow> u64" where "pipe_tail m p = load64 m (p + 32)"
definition pipe_end :: "mem \<Rightarrow> u64 \<Rightarrow> u64" where "pipe_end m p = load64 m (p + 40)"
definition pipe_users :: "mem \<Rightarrow> u64 \<Rightarrow> u32" where "pipe_users m p = load32 m (p + 48)"

definition set_pipe_sem :: "u64 \<Rightarrow> u64 \<Rightarrow> mem \<Rightarrow> mem" where "set_pipe_sem p v m = store64 m p v"
definition set_pipe_size :: "u64 \<Rightarrow> u32 \<Rightarrow> mem \<Rightarrow> mem" where "set_pipe_size p v m = store32 m (p + 8) v"
definition set_avail :: "u64 \<Rightarrow> u32 \<Rightarrow> mem \<Rightarrow> mem" where "set_avail p v m = store32 m (p + 12) v"
definition set_buf :: "u64 \<Rightarrow> u64 \<Rightarrow> mem \<Rightarrow> mem" where "set_buf p v m = store64 m (p + 16) v"
definition set_head :: "u64 \<Rightarrow> u64 \<Rightarrow> mem \<Rightarrow> mem" where "set_head p v m = store64 m (p + 24) v"
definition set_tail :: "u64 \<Rightarrow> u64 \<Rightarrow> mem \<Rightarrow> mem" where "set_tail p v m = store64 m (p + 32) v"
definition set_end :: "u64 \<Rightarrow> u64 \<Rightarrow> mem \<Rightarrow> mem" where "set_end p v m = store64 m (p + 40) v"
definition set_users :: "u64 \<Rightarrow> u32 \<Rightarrow> mem \<Rightarrow> mem" where "set_users p v m = store32 m (p + 48) v"

abbreviation PIPE_STRUCT_SIZE :: u64 where "PIPE_STRUCT_SIZE \<equiv> 56"

subsection \<open>Opening and deleting\<close>

definition OpenPipe :: "u32 \<Rightarrow> 'a pipe_state_scheme \<Rightarrow> (u32 \<times> 'a pipe_state_scheme) option" where
  "OpenPipe fd s =
     (if sint fd \<ge> int MAX_PIPES then Some (- 1, s)
      else do {
        p \<leftarrow> obj_get (pipes s) (sint fd);
        if p \<noteq> 0 then Some (fd, s\<lparr>mem := set_users p (pipe_users (mem s) p + 1) (mem s)\<rparr>)
        else do {
          (p, s) \<leftarrow> mmu_kmalloc PIPE_STRUCT_SIZE s;
          let s = s\<lparr>mem := set_pipe_size p (of_nat PIPE_SIZE) (mem s)\<rparr>;
          (b, s) \<leftarrow> mmu_kmalloc (of_nat PIPE_SIZE) s;
          let m = set_buf p b (mem s);
          let m = set_tail p b m;
          let m = set_head p b m;
          let m = set_end p (pipe_buf m p + of_nat PIPE_SIZE) m;
          let m = set_users p 1 m;
          (sem, s) \<leftarrow> CreateSem 1 (s\<lparr>mem := m\<rparr>);
          let s = s\<lparr>mem := set_pipe_sem p sem (mem s)\<rparr>;
          ps \<leftarrow> obj_set (pipes s) (sint fd) p;
          Some (fd, s\<lparr>pipes := ps\<rparr>)
        }
      })"

definition DeletePipe :: "u32 \<Rightarrow> 'a pipe_state_scheme \<Rightarrow> 'a pipe_state_scheme option" where
  "DeletePipe fd s = do {
     p \<leftarrow> obj_get (pipes s) (sint fd);
     if p = 0 then Some s
     else do {
       s \<leftarrow> FlushSem (pipe_sem (mem s) p) s;
       s \<leftarrow> FlushSemQueue (pipe_sem (mem s) p) s;
       s \<leftarrow> DeleteSem (pipe_sem (mem s) p) s;
       s \<leftarrow> mmu_kfree p s;
       ps \<leftarrow> obj_set (pipes s) (sint fd) 0;
       Some (s\<lparr>pipes := ps\<rparr>)
     }
   }"

definition ClosePipe :: "u32 \<Rightarrow> 'a pipe_state_scheme \<Rightarrow> 'a pipe_state_scheme option" where
  "ClosePipe fd s = do {
     p \<leftarrow> obj_get (pipes s) (sint fd);
     let s = s\<lparr>mem := set_users p (pipe_users (mem s) p - 1) (mem s)\<rparr>;
     p \<leftarrow> obj_get (pipes s) (sint fd);
     if pipe_users (mem s) p \<noteq> 0 then DeletePipe fd s else Some s
   }"

subsection \<open>Reading and writing\<close>

text \<open>\<open>p->head++\<close> with the return to the start of the buffer.\<close>

definition advance_head :: "u64 \<Rightarrow> mem \<Rightarrow> mem" where
  "advance_head p m =
     (let m = set_head p (pipe_head m p + 1) m
      in if pipe_head m p = pipe_end m p then set_head p (pipe_buf m p) m else m)"

text \<open>\<open>size > read\<close> compares unsigned numbers.\<close>

partial_function (option) get_pipe_loop :: "u64 \<Rightarrow> u32 \<Rightarrow> u32 \<Rightarrow> u64 \<Rightarrow> mem \<Rightarrow> (u32 \<times> mem) option" where
  "get_pipe_loop p size' read' d m =
     (if size' > read' \<and> pipe_head m p \<noteq> pipe_tail m p \<and> pipe_avail m p \<noteq> 0
      then (let m = store8 m d (load8 m (pipe_head m p));
                m = advance_head p m;
                m = set_avail p (pipe_avail m p - 1) m
            in get_pipe_loop p size' (read' - 1) (d + 1) m)
      else Some (read', m))"

definition GetPipe :: "u32 \<Rightarrow> u64 \<Rightarrow> u32 \<Rightarrow> 'a pipe_state_scheme \<Rightarrow> (u32 \<times> 'a pipe_state_scheme) option" where
  "GetPipe fd data size' s = do {
     p \<leftarrow> obj_get (pipes s) (sint fd);
     if p = 0 then Some (- 1, s)
     else if size' < 1 \<or> size' > pipe_size (mem s) p then Some (0, s)
     else do {
       (ok, s) \<leftarrow> WaitSem (pipe_sem (mem s) p) s;
       if ok = 0 then Some (- 1, s)
       else do {
         (read', m) \<leftarrow> get_pipe_loop p size' 0 data (mem s);
         Some (read', s\<lparr>mem := SignalSem (pipe_sem m p) m\<rparr>)
       }
     }
   }"

primrec put_pipe_loop :: "u64 \<Rightarrow> nat \<Rightarrow> u64 \<Rightarrow> mem \<Rightarrow> mem" where
  "put_pipe_loop p 0 d m = m"
| "put_pipe_loop p (Suc n) d m =
     (let m = store8 m (pipe_head m p) (load8 m d);
          m = advance_head p m;
          m = set_avail p (pipe_avail m p + 1) m
      in put_pipe_loop p n (d + 1) m)"

text \<open>After the loop \<open>size\<close> is 0, which is what is returned.\<close>

definition PutPipe :: "u32 \<Rightarrow> u64 \<Rightarrow> u32 \<Rightarrow> 'a pipe_state_scheme \<Rightarrow> (u32 \<times> 'a pipe_state_scheme) option" where
  "PutPipe fd data size' s = do {
     p \<leftarrow> obj_get (pipes s) (sint fd);
     if p = 0 then Some (- 1, s)
     else if size' > pipe_size (mem s) p then Some (0, s)
     else if pipe_avail (mem s) p < size' then Some (0, s)
     else (let m = put_pipe_loop p (unat size') data (mem s)
           in Some (0, s\<lparr>mem := SignalSem (pipe_sem m p) m\<rparr>))
   }"

subsection \<open>System calls\<close>

definition syscall_opipe :: "u32 \<Rightarrow> 'a pipe_state_scheme \<Rightarrow> (u32 \<times> 'a pipe_state_scheme) option" where
  "syscall_opipe fd s = OpenPipe fd s"

definition syscall_cpipe :: "u32 \<Rightarrow> 'a pipe_state_scheme \<Rightarrow> 'a pipe_state_scheme option" where
  "syscall_cpipe fd s = ClosePipe fd s"

definition syscall_wpipe :: "u32 \<Rightarrow> u64 \<Rightarrow> u32 \<Rightarrow> 'a pipe_state_scheme \<Rightarrow> (u32 \<times> 'a pipe_state_scheme) option" where
  "syscall_wpipe fd data size' s = PutPipe fd data size' s"

definition syscall_rpipe :: "u32 \<Rightarrow> u64 \<Rightarrow> u32 \<Rightarrow> 'a pipe_state_scheme \<Rightarrow> (u32 \<times> 'a pipe_state_scheme) option" where
  "syscall_rpipe fd data size' s = GetPipe fd data size' s"

text \<open>\<open>*fd[indx++] = aux\<close>: \<open>fd\<close> is an array of pointers to \<open>int\<close>.\<close>

primrec get_pipes_loop :: "u64 \<Rightarrow> u64 list \<Rightarrow> nat \<Rightarrow> u64 \<Rightarrow> mem \<Rightarrow> mem" where
  "get_pipes_loop fd [] aux indx m = m"
| "get_pipes_loop fd (p # ps) aux indx m =
     (if p \<noteq> 0 then get_pipes_loop fd ps (aux + 1) (indx + 1) (store32 m (load64 m (fd + 8 * indx)) (of_nat aux))
      else get_pipes_loop fd ps (aux + 1) indx m)"

definition syscall_get_pipes :: "u64 \<Rightarrow> 'a pipe_state_scheme \<Rightarrow> 'a pipe_state_scheme" where
  "syscall_get_pipes fd s = s\<lparr>mem := get_pipes_loop fd (take MAX_PIPES (pipes s)) 0 0 (mem s)\<rparr>"

subsection \<open>A pipe in memory\<close>

text \<open>
  The structure at \<open>p\<close> and the buffer at \<open>b\<close> do not overlap; \<open>B\<close> are the bytes of the buffer, \<open>h\<close> is
  the position of the head, \<open>v\<close> the count.
\<close>

definition pipe_places :: "u64 \<Rightarrow> u64 \<Rightarrow> bool" where
  "pipe_places p b \<longleftrightarrow> unat p + 56 \<le> 2 ^ 63 \<and> unat b + 200 \<le> 2 ^ 63
     \<and> (unat p + 56 \<le> unat b \<or> unat b + 200 \<le> unat p)"

definition pipe_rep :: "mem \<Rightarrow> u64 \<Rightarrow> u64 \<Rightarrow> u8 list \<Rightarrow> nat \<Rightarrow> u32 \<Rightarrow> bool" where
  "pipe_rep m p b B h v \<longleftrightarrow> pipe_places p b \<and> pipe_buf m p = b \<and> pipe_end m p = b + of_nat PIPE_SIZE
     \<and> h < PIPE_SIZE \<and> pipe_head m p = b + of_nat h \<and> load_bytes m b PIPE_SIZE = B \<and> pipe_avail m p = v"

lemmas pipe_defs = pipe_sem_def pipe_size_def pipe_avail_def pipe_buf_def pipe_head_def pipe_tail_def
  pipe_end_def pipe_users_def set_pipe_sem_def set_pipe_size_def set_avail_def set_buf_def set_head_def
  set_tail_def set_end_def set_users_def

lemma pipe_apart:
  fixes p :: u64
  shows "apart p 8 (p + 8) 4" "apart p 8 (p + 12) 4" "apart p 8 (p + 16) 8" "apart p 8 (p + 24) 8"
    "apart p 8 (p + 32) 8" "apart p 8 (p + 40) 8" "apart p 8 (p + 48) 4" "apart (p + 8) 4 p 8"
    "apart (p + 8) 4 (p + 12) 4" "apart (p + 8) 4 (p + 16) 8" "apart (p + 8) 4 (p + 24) 8" "apart (p + 8) 4 (p + 32) 8"
    "apart (p + 8) 4 (p + 40) 8" "apart (p + 8) 4 (p + 48) 4" "apart (p + 12) 4 p 8" "apart (p + 12) 4 (p + 8) 4"
    "apart (p + 12) 4 (p + 16) 8" "apart (p + 12) 4 (p + 24) 8" "apart (p + 12) 4 (p + 32) 8" "apart (p + 12) 4 (p + 40) 8"
    "apart (p + 12) 4 (p + 48) 4" "apart (p + 16) 8 p 8" "apart (p + 16) 8 (p + 8) 4" "apart (p + 16) 8 (p + 12) 4"
    "apart (p + 16) 8 (p + 24) 8" "apart (p + 16) 8 (p + 32) 8" "apart (p + 16) 8 (p + 40) 8" "apart (p + 16) 8 (p + 48) 4"
    "apart (p + 24) 8 p 8" "apart (p + 24) 8 (p + 8) 4" "apart (p + 24) 8 (p + 12) 4" "apart (p + 24) 8 (p + 16) 8"
    "apart (p + 24) 8 (p + 32) 8" "apart (p + 24) 8 (p + 40) 8" "apart (p + 24) 8 (p + 48) 4" "apart (p + 32) 8 p 8"
    "apart (p + 32) 8 (p + 8) 4" "apart (p + 32) 8 (p + 12) 4" "apart (p + 32) 8 (p + 16) 8" "apart (p + 32) 8 (p + 24) 8"
    "apart (p + 32) 8 (p + 40) 8" "apart (p + 32) 8 (p + 48) 4" "apart (p + 40) 8 p 8" "apart (p + 40) 8 (p + 8) 4"
    "apart (p + 40) 8 (p + 12) 4" "apart (p + 40) 8 (p + 16) 8" "apart (p + 40) 8 (p + 24) 8" "apart (p + 40) 8 (p + 32) 8"
    "apart (p + 40) 8 (p + 48) 4" "apart (p + 48) 4 p 8" "apart (p + 48) 4 (p + 8) 4" "apart (p + 48) 4 (p + 12) 4"
    "apart (p + 48) 4 (p + 16) 8" "apart (p + 48) 4 (p + 24) 8" "apart (p + 48) 4 (p + 32) 8" "apart (p + 48) 4 (p + 40) 8"
  by (simp_all add: apart_def unat_minus_swap)

lemma pipe_same [simp]:
  "pipe_sem (set_pipe_sem p v m) p = v" "pipe_size (set_pipe_sem p v m) p = pipe_size m p"
  "pipe_avail (set_pipe_sem p v m) p = pipe_avail m p" "pipe_buf (set_pipe_sem p v m) p = pipe_buf m p"
  "pipe_head (set_pipe_sem p v m) p = pipe_head m p" "pipe_tail (set_pipe_sem p v m) p = pipe_tail m p"
  "pipe_end (set_pipe_sem p v m) p = pipe_end m p" "pipe_users (set_pipe_sem p v m) p = pipe_users m p"
  "pipe_sem (set_pipe_size p w m) p = pipe_sem m p" "pipe_size (set_pipe_size p w m) p = w"
  "pipe_avail (set_pipe_size p w m) p = pipe_avail m p" "pipe_buf (set_pipe_size p w m) p = pipe_buf m p"
  "pipe_head (set_pipe_size p w m) p = pipe_head m p" "pipe_tail (set_pipe_size p w m) p = pipe_tail m p"
  "pipe_end (set_pipe_size p w m) p = pipe_end m p" "pipe_users (set_pipe_size p w m) p = pipe_users m p"
  "pipe_sem (set_avail p w m) p = pipe_sem m p" "pipe_size (set_avail p w m) p = pipe_size m p"
  "pipe_avail (set_avail p w m) p = w" "pipe_buf (set_avail p w m) p = pipe_buf m p"
  "pipe_head (set_avail p w m) p = pipe_head m p" "pipe_tail (set_avail p w m) p = pipe_tail m p"
  "pipe_end (set_avail p w m) p = pipe_end m p" "pipe_users (set_avail p w m) p = pipe_users m p"
  "pipe_sem (set_buf p v m) p = pipe_sem m p" "pipe_size (set_buf p v m) p = pipe_size m p"
  "pipe_avail (set_buf p v m) p = pipe_avail m p" "pipe_buf (set_buf p v m) p = v"
  "pipe_head (set_buf p v m) p = pipe_head m p" "pipe_tail (set_buf p v m) p = pipe_tail m p"
  "pipe_end (set_buf p v m) p = pipe_end m p" "pipe_users (set_buf p v m) p = pipe_users m p"
  "pipe_sem (set_head p v m) p = pipe_sem m p" "pipe_size (set_head p v m) p = pipe_size m p"
  "pipe_avail (set_head p v m) p = pipe_avail m p" "pipe_buf (set_head p v m) p = pipe_buf m p"
  "pipe_head (set_head p v m) p = v" "pipe_tail (set_head p v m) p = pipe_tail m p"
  "pipe_end (set_head p v m) p = pipe_end m p" "pipe_users (set_head p v m) p = pipe_users m p"
  "pipe_sem (set_tail p v m) p = pipe_sem m p" "pipe_size (set_tail p v m) p = pipe_size m p"
  "pipe_avail (set_tail p v m) p = pipe_avail m p" "pipe_buf (set_tail p v m) p = pipe_buf m p"
  "pipe_head (set_tail p v m) p = pipe_head m p" "pipe_tail (set_tail p v m) p = v"
  "pipe_end (set_tail p v m) p = pipe_end m p" "pipe_users (set_tail p v m) p = pipe_users m p"
  "pipe_sem (set_end p v m) p = pipe_sem m p" "pipe_size (set_end p v m) p = pipe_size m p"
  "pipe_avail (set_end p v m) p = pipe_avail m p" "pipe_buf (set_end p v m) p = pipe_buf m p"
  "pipe_head (set_end p v m) p = pipe_head m p" "pipe_tail (set_end p v m) p = pipe_tail m p"
  "pipe_end (set_end p v m) p = v" "pipe_users (set_end p v m) p = pipe_users m p"
  "pipe_sem (set_users p w m) p = pipe_sem m p" "pipe_size (set_users p w m) p = pipe_size m p"
  "pipe_avail (set_users p w m) p = pipe_avail m p" "pipe_buf (set_users p w m) p = pipe_buf m p"
  "pipe_head (set_users p w m) p = pipe_head m p" "pipe_tail (set_users p w m) p = pipe_tail m p"
  "pipe_end (set_users p w m) p = pipe_end m p" "pipe_users (set_users p w m) p = w"
  unfolding pipe_defs by (simp_all add: c64.ld_st c32.ld_st cell_apart pipe_apart)

lemma pipe_fields_keep:
  assumes "load_bytes m' p 56 = load_bytes m p 56"
  shows "pipe_sem m' p = pipe_sem m p" "pipe_size m' p = pipe_size m p" "pipe_avail m' p = pipe_avail m p"
    "pipe_buf m' p = pipe_buf m p" "pipe_head m' p = pipe_head m p" "pipe_tail m' p = pipe_tail m p"
    "pipe_end m' p = pipe_end m p" "pipe_users m' p = pipe_users m p"
  using load_part(1) [OF assms, of 0] load_part(2) [OF assms, of 8] load_part(2) [OF assms, of 12]
    load_part(1) [OF assms, of 16] load_part(1) [OF assms, of 24] load_part(1) [OF assms, of 32]
    load_part(1) [OF assms, of 40] load_part(2) [OF assms, of 48]
  by (simp_all add: pipe_defs)

lemma apart_inner:
  assumes "unat a + n \<le> unat c \<or> unat c + k \<le> unat a" and "unat a + n \<le> 2 ^ 64" "unat c + k \<le> 2 ^ 64"
    and "i + x \<le> n" and "j + y \<le> k" and "0 < x" and "0 < y"
  shows "apart (a + of_nat i) x (c + of_nat j) y"
proof -
  have u: "unat (a + of_nat i) = unat a + i" "unat (c + of_nat j) = unat c + j"
    using assms by (auto intro!: unat_add_small)
  show ?thesis using assms(1)
  proof
    assume "unat a + n \<le> unat c"
    then show ?thesis using assms u by (intro apart_below(1)) simp_all
  next
    assume "unat c + k \<le> unat a"
    then show ?thesis using assms u by (intro apart_below(2)) simp_all
  qed
qed

text \<open>Writing one byte into a range of bytes.\<close>

lemma store8_update:
  assumes "i < n" and "n \<le> 2 ^ 63"
  shows "load_bytes (store8 m (a + of_nat i) x) a n = (load_bytes m a n)[i := x]"
proof (rule nth_equalityI)
  fix j assume "j < length (load_bytes (store8 m (a + of_nat i) x) a n)"
  then have j: "j < n" by simp
  have "unat (of_nat i :: u64) = i" "unat (of_nat j :: u64) = j"
    using assms j by (auto intro!: unat_of_nat_small)
  then have "(of_nat i :: u64) = of_nat j \<longleftrightarrow> i = j" by metis
  then show "load_bytes (store8 m (a + of_nat i) x) a n ! j = (load_bytes m a n)[i := x] ! j"
    using j by (auto simp: store8_def nth_list_update)
qed simp

subsection \<open>Writing\<close>

text \<open>The buffer after bytes are written from position \<open>h\<close> on, around its end.\<close>

fun ring_put :: "u8 list \<Rightarrow> nat \<Rightarrow> u8 list \<Rightarrow> u8 list" where
  "ring_put B h [] = B"
| "ring_put B h (x # xs) = ring_put (B[h := x]) ((h + 1) mod PIPE_SIZE) xs"

definition put_step :: "u64 \<Rightarrow> u8 \<Rightarrow> mem \<Rightarrow> mem" where
  "put_step p x m =
     (let m = store8 m (pipe_head m p) x;
          m = advance_head p m
      in set_avail p (pipe_avail m p + 1) m)"

lemma put_pipe_loop_step: "put_pipe_loop p (Suc n) d m = put_pipe_loop p n (d + 1) (put_step p (m d) m)"
  by (simp add: put_step_def load8_def Let_def)

lemma advance_head_rep:
  assumes "pipe_rep m p b B h v"
  shows "advance_head p m = set_head p (b + of_nat ((h + 1) mod PIPE_SIZE))
      (if h + 1 = PIPE_SIZE then set_head p (b + of_nat (h + 1)) m else m)"
proof -
  have h: "h < 200" "pipe_head m p = b + of_nat h" "pipe_end m p = b + of_nat 200" "pipe_buf m p = b"
    using assms by (simp_all add: pipe_rep_def)
  have "b + of_nat (Suc h) = b + (of_nat 200 :: u64) \<longleftrightarrow> Suc h = 200"
  proof -
    have "unat (of_nat (Suc h) :: u64) = Suc h" using h(1) by (intro unat_of_nat_small) simp
    moreover have "unat (of_nat 200 :: u64) = 200" by simp
    ultimately show ?thesis by (metis add_left_cancel)
  qed
  moreover have e: "pipe_head m p + 1 = b + of_nat (Suc h)" using h(2) by simp
  moreover have "advance_head p m = (if b + of_nat (Suc h) = b + of_nat 200
      then set_head p b (set_head p (b + of_nat (Suc h)) m) else set_head p (b + of_nat (Suc h)) m)"
    unfolding advance_head_def Let_def e by (simp add: h(3,4) del: of_nat_Suc)
  ultimately show ?thesis
    using h(1) by (auto simp del: of_nat_Suc of_nat_numeral)
qed

lemma advance_head_avail: "pipe_avail (advance_head p m) p = pipe_avail m p"
  by (simp add: advance_head_def Let_def)

lemma struct_write_apart:
  assumes "unat p + 56 \<le> unat c \<or> unat c + k \<le> unat p" and "unat p + 56 \<le> 2 ^ 64" and "unat c + k \<le> 2 ^ 64"
  shows "load_bytes (set_head p x m) c k = load_bytes m c k" "load_bytes (set_avail p w m) c k = load_bytes m c k"
    "load_bytes (set_users p w m) c k = load_bytes m c k"
proof -
  have "load_bytes (set_head p x m) c k = load_bytes m c k \<and> load_bytes (set_avail p w m) c k = load_bytes m c k
    \<and> load_bytes (set_users p w m) c k = load_bytes m c k"
  proof (cases "k = 0")
    case False
    then show ?thesis
      using apart_inner [OF assms, of 24 8 0 k] apart_inner [OF assms, of 12 4 0 k] apart_inner [OF assms, of 48 4 0 k]
      by (simp add: set_head_def set_avail_def set_users_def c64.st_apart c32.st_apart)
  qed (simp add: load_bytes_def)
  then show "load_bytes (set_head p x m) c k = load_bytes m c k" "load_bytes (set_avail p w m) c k = load_bytes m c k"
    "load_bytes (set_users p w m) c k = load_bytes m c k" by blast+
qed

text \<open>One byte written: the buffer, the head and the count; ranges apart from the pipe are kept.\<close>

lemma put_step_rep:
  assumes r: "pipe_rep m p b B h v"
  shows "pipe_rep (put_step p x m) p b (B[h := x]) ((h + 1) mod PIPE_SIZE) (v + 1)"
    and "pipe_sem (put_step p x m) p = pipe_sem m p"
    and "unat p + 56 \<le> unat c \<or> unat c + k \<le> unat p \<Longrightarrow> unat b + 200 \<le> unat c \<or> unat c + k \<le> unat b
      \<Longrightarrow> unat c + k \<le> 2 ^ 64 \<Longrightarrow> load_bytes (put_step p x m) c k = load_bytes m c k"
proof -
  have pl: "unat p + 56 \<le> 2 ^ 64" "unat b + 200 \<le> 2 ^ 64" "unat p + 56 \<le> unat b \<or> unat b + 200 \<le> unat p"
    using r by (auto simp: pipe_rep_def pipe_places_def)
  have f: "h < 200" "pipe_head m p = b + of_nat h" "pipe_buf m p = b" "pipe_end m p = b + of_nat 200"
    "pipe_avail m p = v" "load_bytes m b 200 = B" using r by (simp_all add: pipe_rep_def)
  define m' where "m' = store8 m (b + of_nat h) x"
  have "unat b + 200 \<le> unat p \<or> unat p + 56 \<le> unat b" using pl(3) by blast
  from apart_inner [OF this pl(2,1), of h 1 0 56] f(1)
  have "load_bytes m' p 56 = load_bytes m p 56" by (simp add: m'_def c8.st_apart)
  note k = pipe_fields_keep [OF this]
  have B: "load_bytes m' b 200 = B[h := x]" using store8_update [OF f(1), of m b x] f(6) by (simp add: m'_def)
  have r1: "pipe_rep m' p b (B[h := x]) h v" using r k f B by (simp add: pipe_rep_def)
  have step: "put_step p x m = set_avail p (v + 1) (advance_head p m')"
    unfolding put_step_def Let_def f(2) advance_head_avail m'_def [symmetric] k f(5) ..
  note adv = advance_head_rep [OF r1]
  note w = struct_write_apart [OF pl(3,1,2)]
  show "pipe_rep (put_step p x m) p b (B[h := x]) ((h + 1) mod PIPE_SIZE) (v + 1)"
    using r1 unfolding step adv by (simp add: pipe_rep_def w)
  show "pipe_sem (put_step p x m) p = pipe_sem m p" unfolding step adv by (simp add: k)
  show "load_bytes (put_step p x m) c k = load_bytes m c k"
    if c: "unat p + 56 \<le> unat c \<or> unat c + k \<le> unat p" "unat b + 200 \<le> unat c \<or> unat c + k \<le> unat b"
      "unat c + k \<le> 2 ^ 64"
  proof (cases "k = 0")
    case False
    have "load_bytes m' c k = load_bytes m c k"
      using apart_inner [OF c(2) pl(2) c(3), of h 1 0 k] f(1) False by (simp add: m'_def c8.st_apart)
    then show ?thesis unfolding step adv by (simp add: struct_write_apart [OF c(1) pl(1) c(3)])
  qed (simp add: load_bytes_def)
qed

lemma put_pipe_loop_rep:
  assumes "pipe_rep m p b B h v" and "unat p + 56 \<le> unat d \<or> unat d + n \<le> unat p"
    and "unat b + 200 \<le> unat d \<or> unat d + n \<le> unat b" and "unat d + n \<le> 2 ^ 63"
  shows "pipe_rep (put_pipe_loop p n d m) p b (ring_put B h (load_bytes m d n)) ((h + n) mod PIPE_SIZE) (v + of_nat n)
    \<and> pipe_sem (put_pipe_loop p n d m) p = pipe_sem m p
    \<and> (\<forall>c k. (unat p + 56 \<le> unat c \<or> unat c + k \<le> unat p) \<and> (unat b + 200 \<le> unat c \<or> unat c + k \<le> unat b)
        \<and> unat c + k \<le> 2 ^ 64 \<longrightarrow> load_bytes (put_pipe_loop p n d m) c k = load_bytes m c k)"
  using assms
proof (induction n arbitrary: m B h v d)
  case 0
  then have "h < 200" by (simp add: pipe_rep_def)
  then show ?case using 0 by (simp add: load_bytes_def)
next
  case (Suc n)
  let ?m = "put_step p (m d) m"
  have d1: "unat (d + 1) = unat d + 1" using unat_add_small [of d 1] Suc.prems(4) by simp
  have d: "unat p + 56 \<le> unat (d + 1) \<or> unat (d + 1) + n \<le> unat p"
    "unat b + 200 \<le> unat (d + 1) \<or> unat (d + 1) + n \<le> unat b" "unat (d + 1) + n \<le> 2 ^ 63"
    using Suc.prems(2-4) d1 by auto
  have bs: "load_bytes m d (Suc n) = m d # load_bytes m (d + 1) n"
  proof -
    have "load_bytes m d (1 + n) = load_bytes m d 1 @ load_bytes m (d + of_nat 1) n" by (rule load_bytes_append)
    then show ?thesis by (simp add: load_bytes_def)
  qed
  have keep: "load_bytes ?m (d + 1) n = load_bytes m (d + 1) n"
    using put_step_rep(3) [OF Suc.prems(1) d(1,2)] d(3) by simp
  have md: "(h + 1) mod 200 + n = (h + 1) mod 200 + n" by simp
  have h: "((h + 1) mod PIPE_SIZE + n) mod PIPE_SIZE = (h + Suc n) mod PIPE_SIZE" by (simp add: mod_add_left_eq)
  have v: "v + 1 + of_nat n = v + of_nat (Suc n)" by simp
  show ?case
    using Suc.IH [OF put_step_rep(1) [where x = "m d", OF Suc.prems(1)] d] put_step_rep(2,3) [where x = "m d", OF Suc.prems(1)]
    unfolding put_pipe_loop_step bs ring_put.simps keep h v by simp
qed

lemma SignalSem_set: "\<exists>v w. SignalSem q m = (if sem_queue m q = 0 then set_value q w m else set_queue q v m)"
  by (auto simp: SignalSem_def)

lemma sem_rep_Nil: "sem_rep P N K s q v [] \<longleftrightarrow>
    owned P N K s q 24 \<and> sem_value (mem s) q = v \<and> sem_queue (mem s) q = 0"
  by (auto simp: sem_rep_def intro: exI [of _ "[]"])

text \<open>The structure, the buffer and the semaphore of a pipe are objects of the heap.\<close>

definition pipe_objects :: "u64 set \<Rightarrow> nat \<Rightarrow> nat \<Rightarrow> 'a mmu_state_scheme \<Rightarrow> u64 \<Rightarrow> u64 \<Rightarrow> u64 \<Rightarrow> bool" where
  "pipe_objects P N K s p b q \<longleftrightarrow> owned P N K s p 56 \<and> owned P N K s b 200 \<and> owned P N K s q 24
     \<and> distinct [p, b, q] \<and> pipe_sem (mem s) p = q"

lemma pipe_objects_places:
  assumes "pipe_objects P N K s p b q"
  shows "pipe_places p b" "unat p + 56 \<le> unat q \<or> unat q + 24 \<le> unat p" "unat b + 200 \<le> unat q \<or> unat q + 24 \<le> unat b"
    "unat q + 24 \<le> 2 ^ 63" "p \<noteq> 0"
proof -
  have o: "owned P N K s p 56" "owned P N K s b 200" "owned P N K s q 24" "p \<noteq> b" "p \<noteq> q" "b \<noteq> q"
    using assms by (simp_all add: pipe_objects_def)
  show "pipe_places p b"
    using owned_bounds [OF o(1)] owned_bounds [OF o(2)] owned_apart [OF o(1,2,4)] by (simp add: pipe_places_def)
  show "unat p + 56 \<le> unat q \<or> unat q + 24 \<le> unat p" by (rule owned_apart [OF o(1,3,5)])
  show "unat b + 200 \<le> unat q \<or> unat q + 24 \<le> unat b" by (rule owned_apart [OF o(2,3,6)])
  show "unat q + 24 \<le> 2 ^ 63" "p \<noteq> 0" using owned_bounds [OF o(3)] owned_bounds [OF o(1)] by auto
qed

lemma owned_store8:
  "owned P N K s a n \<Longrightarrow> i < n \<Longrightarrow> owned P N K (s\<lparr>mem := store8 (mem s) (a + of_nat i) x\<rparr>) = owned P N K s"
  using heap_objects.own_write [of P N K s a n i "[x]"] by (simp add: store8_bytes)

lemma owned_pipe_fields:
  assumes "owned P N K s p n" and "56 \<le> n"
  shows "owned P N K (s\<lparr>mem := set_head p v (mem s)\<rparr>) = owned P N K s"
    and "owned P N K (s\<lparr>mem := set_avail p w (mem s)\<rparr>) = owned P N K s"
    and "owned P N K (s\<lparr>mem := set_users p w (mem s)\<rparr>) = owned P N K s"
  using heap_objects.own_store64 [OF assms(1), of 24 v] heap_objects.own_store32 [OF assms(1), of 12 w]
    heap_objects.own_store32 [OF assms(1), of 48 w] assms(2)
  by (simp_all add: set_head_def set_avail_def set_users_def)

lemma put_step_owned:
  assumes "owned P N K s p 56" and "owned P N K s b 200" and "pipe_rep (mem s) p b B h v"
  shows "owned P N K (s\<lparr>mem := put_step p x (mem s)\<rparr>) = owned P N K s"
proof -
  let ?m1 = "store8 (mem s) (b + of_nat h) x"
  have h: "h < 200" "pipe_head (mem s) p = b + of_nat h" using assms(3) by (simp_all add: pipe_rep_def)
  have 1: "owned P N K (s\<lparr>mem := ?m1\<rparr>) = owned P N K s" by (rule owned_store8 [OF assms(2) h(1)])
  have set: "owned P N K (s\<lparr>mem := set_head p v m\<rparr>) = owned P N K s"
    "owned P N K (s\<lparr>mem := set_avail p w m\<rparr>) = owned P N K s"
    if "owned P N K (s\<lparr>mem := m\<rparr>) = owned P N K s" for m v w
  proof -
    have o: "owned P N K (s\<lparr>mem := m\<rparr>) p 56" unfolding that by (rule assms(1))
    show "owned P N K (s\<lparr>mem := set_head p v m\<rparr>) = owned P N K s"
      "owned P N K (s\<lparr>mem := set_avail p w m\<rparr>) = owned P N K s"
      using owned_pipe_fields(1) [OF o, of v] owned_pipe_fields(2) [OF o, of w] that by simp_all
  qed
  show ?thesis unfolding put_step_def Let_def advance_head_def h(2)
    using 1 by (simp add: set)
qed

lemma put_pipe_loop_owned:
  assumes "owned P N K s p 56" and "owned P N K s b 200" and "pipe_rep (mem s) p b B h v"
  shows "owned P N K (s\<lparr>mem := put_pipe_loop p n d (mem s)\<rparr>) = owned P N K s"
  using assms
proof (induction n arbitrary: s B h v d)
  case (Suc n)
  let ?t = "s\<lparr>mem := put_step p (mem s d) (mem s)\<rparr>"
  have o: "owned P N K ?t = owned P N K s" by (rule put_step_owned [OF Suc.prems])
  have r: "pipe_rep (mem ?t) p b (B[h := mem s d]) ((h + 1) mod PIPE_SIZE) (v + 1)"
    using put_step_rep(1) [OF Suc.prems(3)] by simp
  have "owned P N K (?t\<lparr>mem := put_pipe_loop p n (d + 1) (mem ?t)\<rparr>) = owned P N K ?t"
    by (rule Suc.IH [OF _ _ r]) (simp_all only: o Suc.prems(1,2))
  then show ?case unfolding put_pipe_loop_step using o by simp
qed simp

text \<open>What a write into a pipe leaves alone: every byte outside the head, the count and the buffer.\<close>

definition pipe_written :: "u64 \<Rightarrow> u64 \<Rightarrow> u64 \<Rightarrow> bool" where
  "pipe_written p b a \<longleftrightarrow> in_range (p + 12) 4 a \<or> in_range (p + 24) 8 a \<or> in_range b PIPE_SIZE a"

lemma pipe_set_outside:
  shows "\<not> in_range (p + 24) 8 a \<Longrightarrow> set_head p x m a = m a"
    and "\<not> in_range (p + 12) 4 a \<Longrightarrow> set_avail p w m a = m a"
  by (simp_all add: set_head_def set_avail_def store64_def store32_def store_bytes_other)

lemma put_step_outside:
  assumes "pipe_rep m p b B h v" and "\<not> pipe_written p b a"
  shows "put_step p x m a = m a"
proof -
  have h: "h < 200" "pipe_head m p = b + of_nat h" using assms(1) by (simp_all add: pipe_rep_def)
  have a: "\<not> in_range (p + 12) 4 a" "\<not> in_range (p + 24) 8 a" "\<not> in_range b 200 a"
    using assms(2) by (auto simp: pipe_written_def)
  have "a \<noteq> b + of_nat h" using a(3) h(1) in_range_self [of h 200 b] by auto
  then show ?thesis
    unfolding put_step_def Let_def advance_head_def h(2) by (simp add: pipe_set_outside a store8_def)
qed

lemma put_pipe_loop_outside:
  assumes "pipe_rep m p b B h v" and "\<not> pipe_written p b a"
  shows "put_pipe_loop p n d m a = m a"
  using assms(1)
proof (induction n arbitrary: m B h v d)
  case (Suc n)
  show ?case unfolding put_pipe_loop_step
    using Suc.IH [OF put_step_rep(1) [OF Suc.prems]] put_step_outside [OF Suc.prems assms(2)] by simp
qed simp

text \<open>A write of at most 200 bytes into a pipe whose count allows it.\<close>

lemma PutPipe_ring:
  assumes fd: "obj_get (pipes s) (sint fd) = Some p" and ob: "pipe_objects P N K s p b q"
    and rep: "pipe_rep (mem s) p b B h v" and sem: "sem_rep P N K s q w []"
    and sz: "pipe_size (mem s) p = of_nat PIPE_SIZE" "n \<le> of_nat PIPE_SIZE" "n \<le> v"
    and d: "unat p + 56 \<le> unat d \<or> unat d + unat n \<le> unat p" "unat b + 200 \<le> unat d \<or> unat d + unat n \<le> unat b"
      "unat d + unat n \<le> 2 ^ 63"
  shows "\<exists>t. PutPipe fd d n s = Some (0, t)
    \<and> pipe_rep (mem t) p b (ring_put B h (load_bytes (mem s) d (unat n))) ((h + unat n) mod PIPE_SIZE) (v + n)
    \<and> sem_rep P N K t q (w + 1) [] \<and> pipe_objects P N K t p b q \<and> t = s\<lparr>mem := mem t\<rparr>
    \<and> (\<forall>a. \<not> pipe_written p b a \<longrightarrow> \<not> in_range (q + 8) 4 a \<longrightarrow> mem t a = mem s a)"
proof -
  let ?m = "put_pipe_loop p (unat n) d (mem s)"
  note pl = pipe_objects_places [OF ob]
  have o: "owned P N K s p 56" "owned P N K s b 200" "owned P N K s q 24" "pipe_sem (mem s) p = q" "q \<noteq> p" "q \<noteq> b"
    using ob by (auto simp: pipe_objects_def)
  note l = put_pipe_loop_rep [OF rep d]
  have own: "owned P N K (s\<lparr>mem := ?m\<rparr>) = owned P N K s" by (rule put_pipe_loop_owned [OF o(1,2) rep])
  have "load_bytes ?m q 24 = load_bytes (mem s) q 24" using l pl by auto
  from sem_fields_keep [OF this] sem have sm: "sem_rep P N K (s\<lparr>mem := ?m\<rparr>) q w []"
    unfolding sem_rep_Nil own by simp
  then have q0: "sem_queue ?m q = 0" "sem_value ?m q = w" by (simp_all add: sem_rep_Nil)
  have ps: "pipe_sem ?m p = q" using l o(4) by simp
  let ?t = "s\<lparr>mem := SignalSem q ?m\<rparr>"
  have "sem_rep P N K ?t q (w + 1) []" using signal_refines [OF sm] by simp
  have sg: "SignalSem q ?m = set_value q (w + 1) ?m" using q0 by (simp add: SignalSem_def)
  have "owned P N K (s\<lparr>mem := ?m\<rparr>) q 24" unfolding own by (rule o(3))
  from set_fields_owned(2) [OF this, of "w + 1"] own have own': "owned P N K ?t = owned P N K s" by (simp add: sg)
  have keep: "load_bytes (SignalSem q ?m) p 56 = load_bytes ?m p 56" "load_bytes (SignalSem q ?m) b 200 = load_bytes ?m b 200"
    unfolding sg using set_fields_other(2) [OF o(3,1)] set_fields_other(2) [OF o(3,2)] o(5,6) by auto
  have "pipe_rep (SignalSem q ?m) p b (ring_put B h (load_bytes (mem s) d (unat n))) ((h + unat n) mod PIPE_SIZE) (v + n)"
    using l keep(2) pipe_fields_keep [OF keep(1)] by (simp add: pipe_rep_def)
  moreover have "pipe_objects P N K ?t p b q"
    using ob pipe_fields_keep(1) [OF keep(1)] ps unfolding pipe_objects_def own' by simp
  moreover have "PutPipe fd d n s = Some (0, ?t)"
    using fd pl(5) sz rep ps by (simp add: PutPipe_def pipe_rep_def Let_def not_less)
  moreover have "SignalSem q ?m a = mem s a" if "\<not> pipe_written p b a" "\<not> in_range (q + 8) 4 a" for a
    using put_pipe_loop_outside [OF rep that(1)] that(2) by (simp add: sg set_value_def store32_def store_bytes_other)
  ultimately show ?thesis using \<open>sem_rep P N K ?t q (w + 1) []\<close> by (intro exI [of _ ?t]) simp
qed

text \<open>Reading: at most one byte, whatever is asked for.\<close>

lemma get_pipe_loop_once:
  assumes "1 \<le> n"
  shows "get_pipe_loop p n 0 d m =
    (if pipe_head m p \<noteq> pipe_tail m p \<and> pipe_avail m p \<noteq> 0
     then (let m = advance_head p (store8 m d (load8 m (pipe_head m p)))
           in Some (- 1, set_avail p (pipe_avail m p - 1) m))
     else Some (0, m))"
proof -
  have z: "0 < n" using assms by (simp add: word_le_nat_alt word_less_nat_alt)
  have no: "\<not> - 1 < n" by (simp add: not_less)
  have "get_pipe_loop p n (- 1) d' m' = Some (- 1, m')" for d' m'
    by (subst get_pipe_loop.simps) (simp add: no)
  then show ?thesis by (subst get_pipe_loop.simps) (simp add: z Let_def)
qed

lemma set_value_same:
  "set_value q a (set_value q c m) = set_value q a m" "set_value q (sem_value m q) m = m"
proof -
  show "set_value q a (set_value q c m) = set_value q a m"
    by (simp add: set_value_def store32_def) (rule ext, simp add: store_bytes_def)
  show "set_value q (sem_value m q) m = m"
    by (simp add: set_value_def sem_value_def c32.st_ld store_load_bytes)
qed

lemma GetPipe_idle:
  assumes fd: "obj_get (pipes s) (sint fd) = Some p" and ob: "owned P N K s p 56" "pipe_sem (mem s) p = q" "p \<noteq> q"
    and sem: "sem_rep P N K s q w []" "sint w > 0" and idle: "pipe_head (mem s) p = pipe_tail (mem s) p \<or> pipe_avail (mem s) p = 0"
  shows "GetPipe fd d n s = Some (0, s)"
proof (cases "n < 1 \<or> n > pipe_size (mem s) p")
  case True
  then show ?thesis using fd owned_bounds [OF ob(1)] by (auto simp: GetPipe_def)
next
  case False
  have o: "owned P N K s q 24" "sem_value (mem s) q = w" "sem_queue (mem s) q = 0" using sem(1) by (simp_all add: sem_rep_Nil)
  let ?m = "set_value q (w - 1) (mem s)"
  have wait: "WaitSem q s = Some (1, s\<lparr>mem := ?m\<rparr>)" using o(2) sem(2) by (simp add: WaitSem_def)
  have "load_bytes ?m p 56 = load_bytes (mem s) p 56"
    using set_fields_other(2) [OF o(1) ob(1)] ob(3) by simp
  note k = pipe_fields_keep [OF this]
  have "1 \<le> n" using False by (simp add: word_le_nat_alt Suc_le_eq unat_gt_0)
  then have l: "get_pipe_loop p n 0 d ?m = Some (0, ?m)"
    using idle by (subst get_pipe_loop_once) (auto simp: k)
  have "SignalSem q ?m = mem s"
    using o set_value_same(2) [of q "mem s"] by (simp add: SignalSem_def set_value_same(1))
  then show ?thesis
    using False fd owned_bounds [OF ob(1)] by (auto simp: GetPipe_def ob(2) wait l k(1) Let_def)
qed

lemma PutPipe_refused:
  assumes "obj_get (pipes s) (sint fd) = Some p" and "p \<noteq> 0" and "pipe_avail (mem s) p < n"
  shows "PutPipe fd d n s = Some (0, s)"
  using assms by (simp add: PutPipe_def)

end
