(* ===== verification/Pipe_Props.thy ===== *)
theory Pipe_Props
  imports Pipe
begin

section \<open>Kernel/pipe.c: opening, closing and the properties\<close>

text \<open>
  A new pipe has its objects on the heap; closing frees some of them. The properties of semaphores and
  pipes, with a concrete machine.
\<close>

subsection \<open>Opening a pipe\<close>

lemma kmalloc_left: "mmu_kmalloc sz s = Some (r, t) \<Longrightarrow> unat sz \<le> 4096 \<Longrightarrow> unat (free_blocks s) \<le> Suc (unat (free_blocks t))"
proof -
  assume k: "mmu_kmalloc sz s = Some (r, t)" "unat sz \<le> 4096"
  have big: "\<not> sz > VMM_PAGE_SIZE" using k(2) by (simp add: word_less_nat_alt)
  have g: "unat (free_blocks s) \<le> Suc (unat (free_blocks u))" if "gmem s = (f, u)" for f and u :: "'a mmu_state_scheme"
  proof (cases "free_blocks s > 0")
    case True
    then have "free_blocks s \<noteq> 0" by auto
    then have "unat (free_blocks s - 1) = unat (free_blocks s) - 1" by (rule unat_minus_one)
    then show ?thesis using that True by (auto simp: gmem_def pop_def mmap_alloc_def Let_def split: if_splits)
  qed (use that in \<open>auto simp: gmem_def\<close>)
  have ex: "unat (free_blocks s) \<le> Suc (unat (free_blocks t'))"
    if e: "expand_heap p sz s = Some (c, t')" for p c and t' :: "'a mmu_state_scheme"
  proof -
    obtain f u where u: "gmem s = (f, u)" by (cases "gmem s")
    then show ?thesis using e g [OF u] unfolding expand_heap_def u Let_def by (auto split: if_splits)
  qed
  then show ?thesis
    using k(1) big by (auto simp: mmu_kmalloc_def Let_def split: if_splits Option.bind_splits)
qed

lemma frames_left: "0 < unat (free_blocks s) \<Longrightarrow> pmm_frames s \<noteq> []"
  by (metis length_pmm_frames length_greater_0_conv)

text \<open>An object at a time: what \<open>mmu_kmalloc\<close> keeps, in one statement.\<close>

definition grows :: "u64 set \<Rightarrow> nat \<Rightarrow> nat \<Rightarrow> u64 \<Rightarrow> 'a mmu_state_scheme \<Rightarrow> 'a mmu_state_scheme \<Rightarrow> bool" where
  "grows P N K a s t \<longleftrightarrow> (\<forall>c k. owned P N K s c k \<longrightarrow> owned P N K t c k \<and> c \<noteq> a
     \<and> load_bytes (mem t) c k = load_bytes (mem s) c k)"

lemma kmalloc_grows:
  assumes "heap_ok P N K s bs" and "0 < unat (free_blocks s)" and "0 < unat sz" and "unat sz \<le> 2048"
  shows "\<exists>a m f r. let t = s\<lparr>mem := m, free_blocks := f, base_addr := r\<rparr> in mmu_kmalloc sz s = Some (a, t)
    \<and> (\<exists>cs. heap_ok P N K t cs) \<and> owned P N K t a (unat sz) \<and> grows P N K a s t
    \<and> unat (free_blocks s) \<le> Suc (unat f)"
proof -
  obtain a t cs where t: "mmu_kmalloc sz s = Some (a, t)" "heap_ok P N K t cs" "owned P N K t a (unat sz)" "grows P N K a s t"
    using owned_alloc [OF assms(1) frames_left [OF assms(2)] assms(3,4)] unfolding grows_def by blast
  have "t = s\<lparr>mem := mem t, free_blocks := free_blocks t, base_addr := base_addr t\<rparr>"
    by (rule kmalloc_rest [OF t(1)]) (use assms(4) in simp)
  then show ?thesis
    using t kmalloc_left [OF t(1)] assms(4)
    by (intro exI [of _ a] exI [of _ "mem t"] exI [of _ "free_blocks t"] exI [of _ "base_addr t"]) (auto simp: Let_def)
qed

lemma owned_heap: "owned P N K s a n \<Longrightarrow> \<exists>bs. heap_ok P N K s bs"
  by (auto simp: owned_def)

lemma CreateSem_ok:
  assumes "heap_ok P N K s bs" and "0 < unat (free_blocks s)"
  shows "\<exists>q m f r. let t = s\<lparr>mem := m, free_blocks := f, base_addr := r\<rparr> in CreateSem v s = Some (q, t)
    \<and> sem_rep P N K t q v [] \<and> grows P N K q s t \<and> unat (free_blocks s) \<le> Suc (unat f)"
proof -
  obtain q m f r where t: "let t = s\<lparr>mem := m, free_blocks := f, base_addr := r\<rparr> in mmu_kmalloc SEM_SIZE s = Some (q, t)
    \<and> (\<exists>cs. heap_ok P N K t cs) \<and> owned P N K t q (unat SEM_SIZE) \<and> grows P N K q s t
    \<and> unat (free_blocks s) \<le> Suc (unat f)"
    using kmalloc_grows [OF assms, of SEM_SIZE] by auto
  define u where "u = s\<lparr>mem := m, free_blocks := f, base_addr := r\<rparr>"
  have u: "mmu_kmalloc SEM_SIZE s = Some (q, u)" "owned P N K u q 24" "grows P N K q s u" "mem u = m"
    "unat (free_blocks s) \<le> Suc (unat f)"
    using t by (simp_all add: u_def Let_def)
  let ?m = "set_last q 0 (set_queue q 0 (set_value q v m))"
  have 1: "owned P N K (u\<lparr>mem := set_value q v m\<rparr>) = owned P N K u" using set_fields_owned(2) [OF u(2), of v] u(4) by simp
  then have 2: "owned P N K (u\<lparr>mem := set_queue q 0 (set_value q v m)\<rparr>) = owned P N K u"
    using set_fields_owned(1) [of P N K "u\<lparr>mem := set_value q v m\<rparr>" q 24 0] u(2) by simp
  then have own: "owned P N K (u\<lparr>mem := ?m\<rparr>) = owned P N K u"
    using set_fields_owned(3) [of P N K "u\<lparr>mem := set_queue q 0 (set_value q v m)\<rparr>" q 24 0] u(2) by simp
  have "grows P N K q s (u\<lparr>mem := ?m\<rparr>)"
    unfolding grows_def own
  proof (intro allI impI)
    fix c k assume "owned P N K s c k"
    then have c: "owned P N K u c k" "c \<noteq> q" "load_bytes m c k = load_bytes (mem s) c k"
      using u(3,4) by (auto simp: grows_def)
    have "load_bytes ?m c k = load_bytes m c k"
    proof (cases "k = 0")
      case False
      then show ?thesis using set_fields_other(1-3) [OF u(2) c(1,2)] by simp
    qed (simp add: load_bytes_def)
    then show "owned P N K u c k \<and> c \<noteq> q \<and> load_bytes (mem (u\<lparr>mem := ?m\<rparr>)) c k = load_bytes (mem s) c k"
      using c by simp
  qed
  moreover have "sem_rep P N K (u\<lparr>mem := ?m\<rparr>) q v []" unfolding sem_rep_Nil own using u(2) by simp
  moreover have "CreateSem v s = Some (q, u\<lparr>mem := ?m\<rparr>)" by (simp add: CreateSem_def u(1,4) Let_def)
  moreover have "u\<lparr>mem := ?m\<rparr> = s\<lparr>mem := ?m, free_blocks := f, base_addr := r\<rparr>" by (simp add: u_def)
  ultimately show ?thesis unfolding Let_def using u(5) by metis
qed

text \<open>All fields of the structure are writes into the object.\<close>

lemma owned_pipe_set:
  assumes "owned P N K s p 56"
  shows "owned P N K (s\<lparr>mem := set_pipe_sem p v (mem s)\<rparr>) = owned P N K s"
    "owned P N K (s\<lparr>mem := set_pipe_size p w (mem s)\<rparr>) = owned P N K s"
    "owned P N K (s\<lparr>mem := set_buf p v (mem s)\<rparr>) = owned P N K s"
    "owned P N K (s\<lparr>mem := set_tail p v (mem s)\<rparr>) = owned P N K s"
    "owned P N K (s\<lparr>mem := set_head p v (mem s)\<rparr>) = owned P N K s"
    "owned P N K (s\<lparr>mem := set_end p v (mem s)\<rparr>) = owned P N K s"
    "owned P N K (s\<lparr>mem := set_users p w (mem s)\<rparr>) = owned P N K s"
  using heap_objects.own_store64 [OF assms, of 0 v] heap_objects.own_store32 [OF assms, of 8 w]
    heap_objects.own_store64 [OF assms, of 16 v] heap_objects.own_store64 [OF assms, of 32 v]
    heap_objects.own_store64 [OF assms, of 24 v] heap_objects.own_store64 [OF assms, of 40 v]
    heap_objects.own_store32 [OF assms, of 48 w]
  by (simp_all add: pipe_defs)

text \<open>The same for a state that is given by its memory.\<close>

lemma owned_pipe_chain:
  assumes "owned P N K (s\<lparr>mem := m\<rparr>) = Q" and "Q p 56"
  shows "owned P N K (s\<lparr>mem := set_pipe_sem p v m\<rparr>) = Q" "owned P N K (s\<lparr>mem := set_pipe_size p w m\<rparr>) = Q"
    "owned P N K (s\<lparr>mem := set_buf p v m\<rparr>) = Q" "owned P N K (s\<lparr>mem := set_tail p v m\<rparr>) = Q"
    "owned P N K (s\<lparr>mem := set_head p v m\<rparr>) = Q" "owned P N K (s\<lparr>mem := set_end p v m\<rparr>) = Q"
    "owned P N K (s\<lparr>mem := set_users p w m\<rparr>) = Q"
  using assms owned_pipe_set(1) [of P N K "s\<lparr>mem := m\<rparr>" p v] owned_pipe_set(2) [of P N K "s\<lparr>mem := m\<rparr>" p w] owned_pipe_set(3) [of P N K "s\<lparr>mem := m\<rparr>" p v] 
    owned_pipe_set(4) [of P N K "s\<lparr>mem := m\<rparr>" p v] owned_pipe_set(5) [of P N K "s\<lparr>mem := m\<rparr>" p v] 
    owned_pipe_set(6) [of P N K "s\<lparr>mem := m\<rparr>" p v] owned_pipe_set(7) [of P N K "s\<lparr>mem := m\<rparr>" p w]
  by simp_all

lemma pipe_write_other:
  assumes "owned P N K s p 56" and "owned P N K s c k" and "c \<noteq> p"
  shows "load_bytes (set_pipe_sem p v m) c k = load_bytes m c k" "load_bytes (set_pipe_size p w m) c k = load_bytes m c k"
    "load_bytes (set_buf p v m) c k = load_bytes m c k" "load_bytes (set_tail p v m) c k = load_bytes m c k"
    "load_bytes (set_head p v m) c k = load_bytes m c k" "load_bytes (set_end p v m) c k = load_bytes m c k"
    "load_bytes (set_users p w m) c k = load_bytes m c k"
proof -
  have "load_bytes (set_pipe_sem p v m) c k = load_bytes m c k \<and> load_bytes (set_pipe_size p w m) c k = load_bytes m c k
    \<and> load_bytes (set_buf p v m) c k = load_bytes m c k \<and> load_bytes (set_tail p v m) c k = load_bytes m c k
    \<and> load_bytes (set_head p v m) c k = load_bytes m c k \<and> load_bytes (set_end p v m) c k = load_bytes m c k
    \<and> load_bytes (set_users p w m) c k = load_bytes m c k"
  proof (cases "k = 0")
    case False
    then show ?thesis
      using write_other(1) [OF assms, of 0] write_other(2) [OF assms, of 8] write_other(1) [OF assms, of 16]
        write_other(1) [OF assms, of 32] write_other(1) [OF assms, of 24] write_other(1) [OF assms, of 40]
        write_other(2) [OF assms, of 48]
      by (simp add: pipe_defs)
  qed (simp add: load_bytes_def)
  then show "load_bytes (set_pipe_sem p v m) c k = load_bytes m c k" "load_bytes (set_pipe_size p w m) c k = load_bytes m c k"
    "load_bytes (set_buf p v m) c k = load_bytes m c k" "load_bytes (set_tail p v m) c k = load_bytes m c k"
    "load_bytes (set_head p v m) c k = load_bytes m c k" "load_bytes (set_end p v m) c k = load_bytes m c k"
    "load_bytes (set_users p w m) c k = load_bytes m c k" by blast+
qed

lemma owned_pipes [simp]: "owned P N K (s\<lparr>pipes := x\<rparr>) = owned P N K s"
  by (intro ext) (simp add: owned_def heap_ok_def pmm_ok_def pmm_layout_def pmm_frames_def)

lemma sem_rep_pipes [simp]: "sem_rep P N K (s\<lparr>pipes := x\<rparr>) q v ps = sem_rep P N K s q v ps"
  by (simp add: sem_rep_def)

text \<open>A pipe that is open: its entry, its objects, its buffer and its users.\<close>

definition pipe_open ::
  "u64 set \<Rightarrow> nat \<Rightarrow> nat \<Rightarrow> 'a pipe_state_scheme \<Rightarrow> u32 \<Rightarrow> u64 \<Rightarrow> u64 \<Rightarrow> u64 \<Rightarrow> bool"
where
  "pipe_open P N K s fd p b q \<longleftrightarrow> obj_get (pipes s) (sint fd) = Some p \<and> pipe_objects P N K s p b q
     \<and> pipe_size (mem s) p = of_nat PIPE_SIZE"

lemma OpenPipe_ok:
  assumes hk: "heap_ok P N K s bs" and left: "3 \<le> unat (free_blocks s)"
    and fd: "0 \<le> sint fd" "sint fd < int MAX_PIPES" and ps: "length (pipes s) = MAX_PIPES" "pipes s ! nat (sint fd) = 0"
  shows "\<exists>t p b q B v. OpenPipe fd s = Some (fd, t) \<and> pipe_open P N K t fd p b q \<and> pipe_rep (mem t) p b B 0 v
    \<and> pipe_tail (mem t) p = b \<and> pipe_users (mem t) p = 1 \<and> sem_rep P N K t q 1 []
    \<and> pipes t = (pipes s)[nat (sint fd) := p]"
proof -
  have g0: "obj_get (pipes s) (sint fd) = Some 0" using fd ps by (simp add: obj_get_in)
  obtain p m1 f1 r1 where 1: "let t = s\<lparr>mem := m1, free_blocks := f1, base_addr := r1\<rparr> in
      mmu_kmalloc PIPE_STRUCT_SIZE s = Some (p, t) \<and> (\<exists>cs. heap_ok P N K t cs)
      \<and> owned P N K t p (unat PIPE_STRUCT_SIZE) \<and> grows P N K p s t \<and> unat (free_blocks s) \<le> Suc (unat f1)"
    using kmalloc_grows [OF hk, of PIPE_STRUCT_SIZE] left by auto
  define u1 where "u1 = s\<lparr>mem := m1, free_blocks := f1, base_addr := r1\<rparr>"
  define s1 where "s1 = u1\<lparr>mem := set_pipe_size p (of_nat PIPE_SIZE) (mem u1)\<rparr>"
  have k1: "mmu_kmalloc PIPE_STRUCT_SIZE s = Some (p, u1)" and o1': "owned P N K u1 p 56"
    and l1: "2 \<le> unat f1" using 1 left by (simp_all add: Let_def u1_def)
  have "owned P N K s1 = owned P N K u1"
    unfolding s1_def by (rule owned_pipe_set(2) [OF o1'])
  then have o1: "owned P N K s1 p 56" using o1' by simp
  obtain bs1 where h1: "heap_ok P N K s1 bs1" using owned_heap [OF o1] by blast
  obtain b m2 f2 r2 where 2: "let t = s1\<lparr>mem := m2, free_blocks := f2, base_addr := r2\<rparr> in
      mmu_kmalloc (of_nat PIPE_SIZE) s1 = Some (b, t) \<and> (\<exists>cs. heap_ok P N K t cs)
      \<and> owned P N K t b (unat (of_nat PIPE_SIZE :: u64)) \<and> grows P N K b s1 t
      \<and> unat (free_blocks s1) \<le> Suc (unat f2)"
    using kmalloc_grows [OF h1, of "of_nat PIPE_SIZE"] l1 by (auto simp: s1_def u1_def)
  define m3 where "m3 = set_users p 1 (set_end p (b + of_nat PIPE_SIZE) (set_head p b (set_tail p b (set_buf p b m2))))"
  define s2 where "s2 = s1\<lparr>mem := m2, free_blocks := f2, base_addr := r2\<rparr>"
  define s3 where "s3 = s1\<lparr>mem := m3, free_blocks := f2, base_addr := r2\<rparr>"
  have k2: "mmu_kmalloc (of_nat PIPE_SIZE) s1 = Some (b, s2)" and o2b: "owned P N K s2 b 200"
    and g2: "grows P N K b s1 s2" and l2: "1 \<le> unat f2" and ms2: "mem s2 = m2"
    using 2 l1 by (simp_all add: Let_def s2_def s1_def u1_def)
  have o2: "owned P N K s2 p 56" "p \<noteq> b" "load_bytes m2 p 56 = load_bytes (mem s1) p 56"
    using g2 o1 ms2 by (auto simp: grows_def)
  have s3: "s3 = s2\<lparr>mem := m3\<rparr>" by (simp add: s2_def s3_def)
  have "owned P N K (s2\<lparr>mem := m2\<rparr>) = owned P N K s2" using ms2 by (metis surjective_pairing machine.surjective machine.update_convs(1) machine.select_convs(1))
  then have ow3: "owned P N K s3 = owned P N K s2"
    unfolding s3 m3_def by (intro owned_pipe_chain) (use o2(1) in auto)
  have keep3: "load_bytes m3 c k = load_bytes m2 c k" if "owned P N K s2 c k" "c \<noteq> p" for c k
    unfolding m3_def by (simp add: pipe_write_other [OF o2(1) that])
  have sz3: "pipe_size m3 p = of_nat PIPE_SIZE"
    using pipe_fields_keep(2) [OF o2(3)] by (simp add: m3_def s1_def)
  have f3: "pipe_buf m3 p = b" "pipe_end m3 p = b + of_nat PIPE_SIZE" "pipe_head m3 p = b" "pipe_tail m3 p = b" "pipe_users m3 p = 1"
    by (simp_all add: m3_def)
  have o3: "owned P N K s3 p 56" "owned P N K s3 b 200" unfolding ow3 by (rule o2, rule o2b)
  obtain bs3 where h3: "heap_ok P N K s3 bs3" using owned_heap [OF o3(1)] by blast
  have "0 < unat (free_blocks s3)" using l2 by (simp add: s3_def)
  from CreateSem_ok [OF h3 this, of 1] obtain q m4 f4 r4 where 4:
    "let t = s3\<lparr>mem := m4, free_blocks := f4, base_addr := r4\<rparr> in CreateSem 1 s3 = Some (q, t)
    \<and> sem_rep P N K t q 1 [] \<and> grows P N K q s3 t \<and> unat (free_blocks s3) \<le> Suc (unat f4)" by blast
  define s4 where "s4 = s3\<lparr>mem := m4, free_blocks := f4, base_addr := r4\<rparr>"
  have k4: "CreateSem 1 s3 = Some (q, s4)" "sem_rep P N K s4 q 1 []" "grows P N K q s3 s4" "mem s4 = m4"
    using 4 by (simp_all add: Let_def s4_def)
  have o4: "owned P N K s4 p 56" "owned P N K s4 b 200" "p \<noteq> q" "b \<noteq> q" "owned P N K s4 q 24"
    "load_bytes m4 p 56 = load_bytes m3 p 56"
    using k4 o3 by (auto simp: grows_def sem_rep_Nil s3_def)
  note k = pipe_fields_keep [OF o4(6)]
  define m5 where "m5 = set_pipe_sem p q m4"
  have ow5: "owned P N K (s4\<lparr>mem := m5\<rparr>) = owned P N K s4"
    using owned_pipe_set(1) [OF o4(1), of q] k4(4) by (simp add: m5_def)
  have "load_bytes m5 q 24 = load_bytes m4 q 24"
    using pipe_write_other(1) [OF o4(1,5)] o4(3) by (simp add: m5_def)
  from sem_fields_keep [OF this] have sem: "sem_rep P N K (s4\<lparr>mem := m5\<rparr>) q 1 []"
    using k4(2,4) unfolding sem_rep_Nil ow5 by simp
  define t where "t = s4\<lparr>mem := m5, pipes := (pipes s)[nat (sint fd) := p]\<rparr>"
  have pp: "pipes s4 = pipes s" by (simp add: s4_def s3_def s1_def u1_def)
  have e2: "mmu_kmalloc 200 (u1\<lparr>mem := set_pipe_size p 200 (mem u1)\<rparr>) = Some (b, s2)"
    using k2 by (simp add: s1_def)
  have e3: "CreateSem 1 (s2\<lparr>mem := set_users p 1 (set_end p (b + 200) (set_head p b (set_tail p b (set_buf p b (mem s2)))))\<rparr>)
      = Some (q, s4)" using k4(1) by (simp add: s3 m3_def ms2)
  have "OpenPipe fd s = Some (fd, t)"
    using fd ps pp by (simp add: OpenPipe_def g0 k1 e2 e3 k4(4) obj_set_in t_def m5_def)
  moreover have "pipe_rep m5 p b (load_bytes m5 b PIPE_SIZE) 0 (pipe_avail m5 p)"
  proof -
    have "unat p + 56 \<le> unat b \<or> unat b + 200 \<le> unat p" by (rule owned_apart [OF o4(1,2) o2(2)])
    then show ?thesis
      using owned_bounds [OF o4(1)] owned_bounds [OF o4(2)] k f3
      by (simp add: pipe_rep_def pipe_places_def m5_def)
  qed
  moreover have "pipe_open P N K t fd p b q"
    using o4 o2(2) ow5 k sz3 fd ps
    by (simp add: pipe_open_def pipe_objects_def t_def obj_get_in m5_def)
  moreover have "mem t = m5" "pipes t = (pipes s)[nat (sint fd) := p]" by (simp_all add: t_def)
  moreover have "sem_rep P N K t q 1 []" using sem by (simp add: t_def)
  ultimately show ?thesis using k f3 by (intro exI conjI) (auto simp: m5_def)
qed

subsection \<open>Closing a pipe\<close>

lemma kfree_rest:
  assumes "get_block a s = Some b" and "b \<noteq> 0"
  shows "\<exists>m r. mmu_kfree a s = Some (s\<lparr>mem := m, base_addr := r\<rparr>)"
proof -
  have e: "\<exists>m' r. s\<lparr>mem := m\<rparr> = s\<lparr>mem := m', base_addr := r\<rparr>" for m
    by (rule exI [of _ m], rule exI [of _ "base_addr s"]) simp
  show ?thesis using assms e by (auto simp: mmu_kfree_def Let_def)
qed

lemma owned_free:
  assumes "owned P N K s a n"
  shows "\<exists>m r. let t = s\<lparr>mem := m, base_addr := r\<rparr> in mmu_kfree a s = Some t \<and> \<not> owned P N K t a k
    \<and> (\<forall>c j. owned P N K s c j \<and> c \<noteq> a \<longrightarrow> owned P N K t c j \<and> load_bytes m c j = load_bytes (mem s) c j)"
proof -
  obtain bs where h: "heap_ok P N K s bs" using owned_heap [OF assms] by blast
  obtain b where b: "b \<in> set bs" "a = b + 32" using owned_block [OF assms h] by metis
  have b0: "b \<noteq> 0" using h b(1) path_nonzero by (auto simp: heap_ok_def heap_list_def)
  let ?cs = "if b = last bs then butlast bs else bs"
  obtain t where t: "mmu_kfree a s = Some t" "heap_ok P N K t ?cs" "block_free (mem t) b = 1"
    "used_kept (mem s) (remove1 b bs) (mem t) ?cs" using kfree_ok [OF h b(1)] b(2) by blast
  obtain m r where "t = s\<lparr>mem := m, base_addr := r\<rparr>"
    using kfree_rest [of a s b] get_block_in [OF h b(1)] b0 b(2) t(1) by auto
  moreover have "\<not> owned P N K t a k" unfolding owned_iff [OF t(2)] using b(2) t(3) by auto
  moreover have "owned P N K t c j \<and> load_bytes (mem t) c j = load_bytes (mem s) c j"
    if o: "owned P N K s c j" and "c \<noteq> a" for c j
  proof -
    obtain x where x: "x \<in> set bs" "block_free (mem s) x = 0" "c = x + 32" "j \<le> unat (block_size (mem s) x)"
      "unat c = unat x + 32" using owned_block [OF o h] by metis
    have "x \<in> set (remove1 b bs)" using x b \<open>c \<noteq> a\<close> by auto
    then have k: "x \<in> set ?cs" "block_free (mem t) x = 0" "block_size (mem t) x = block_size (mem s) x"
      "\<And>y. in_data (mem s) x y \<Longrightarrow> mem t y = mem s y" using t(4) x(2) by (auto simp: used_kept_def)
    have "mem t (c + of_nat i) = mem s (c + of_nat i)" if "i < j" for i
    proof (rule k(4))
      have "unat (c + of_nat i) = unat c + i"
        using owned_bounds [OF o] that by (intro unat_add_small) simp
      then show "in_data (mem s) x (c + of_nat i)" using x that by (simp add: in_data_def block_len_def)
    qed
    then have "load_bytes (mem t) c j = load_bytes (mem s) c j" by (simp add: load_bytes_def)
    moreover have "owned P N K t c j" unfolding owned_iff [OF t(2)] using k x by fastforce
    ultimately show ?thesis by blast
  qed
  ultimately show ?thesis using t(1) by (intro exI [of _ m] exI [of _ r]) (auto simp: Let_def)
qed

lemma FlushSemQueue_empty: "sem_queue (mem s) q = 0 \<Longrightarrow> FlushSemQueue q s = Some s"
  by (subst FlushSemQueue.simps) simp

lemma FlushSem_empty:
  "sem_queue (mem s) q = 0 \<Longrightarrow> FlushSem q s = Some (s\<lparr>mem := set_value q (- 1) (mem s)\<rparr>)"
  unfolding FlushSem_def by (subst flush_loop.simps) (simp add: FlushSemQueue_empty)

lemma DeletePipe_ok:
  assumes "pipe_open P N K s fd p b q" and "sem_rep P N K s q v []"
  shows "\<exists>t. DeletePipe fd s = Some t \<and> obj_get (pipes t) (sint fd) = Some 0
    \<and> \<not> owned P N K t p 56 \<and> owned P N K t b 200"
proof -
  have ob: "obj_get (pipes s) (sint fd) = Some p" "owned P N K s p 56" "owned P N K s b 200" "owned P N K s q 24"
    "p \<noteq> b" "p \<noteq> q" "q \<noteq> b" "pipe_sem (mem s) p = q"
    using assms(1) by (auto simp: pipe_open_def pipe_objects_def)
  have q0: "sem_queue (mem s) q = 0" using assms(2) by (simp add: sem_rep_Nil)
  have p0: "p \<noteq> 0" using owned_bounds [OF ob(2)] by auto
  define s1 where "s1 = s\<lparr>mem := set_value q (- 1) (mem s)\<rparr>"
  have ow1: "owned P N K s1 = owned P N K s" unfolding s1_def by (rule set_fields_owned(2) [OF ob(4)]) simp
  have k1: "load_bytes (mem s1) p 56 = load_bytes (mem s) p 56"
    using set_fields_other(2) [OF ob(4,2)] ob(6) by (simp add: s1_def)
  have q1: "sem_queue (mem s1) q = 0" using q0 by (simp add: s1_def)
  have o1: "owned P N K s1 q 24" "owned P N K s1 p 56" "owned P N K s1 b 200" unfolding ow1 by (rule ob)+
  obtain m2 r2 where 2: "let t = s1\<lparr>mem := m2, base_addr := r2\<rparr> in mmu_kfree q s1 = Some t \<and> \<not> owned P N K t q 24
    \<and> (\<forall>c j. owned P N K s1 c j \<and> c \<noteq> q \<longrightarrow> owned P N K t c j \<and> load_bytes m2 c j = load_bytes (mem s1) c j)"
    using owned_free [OF o1(1)] by blast
  define s2 where "s2 = s1\<lparr>mem := m2, base_addr := r2\<rparr>"
  have k2: "mmu_kfree q s1 = Some s2" "owned P N K s2 p 56" "owned P N K s2 b 200"
    using 2 o1 ob(6,7) by (auto simp: Let_def s2_def)
  obtain m3 r3 where 3: "let t = s2\<lparr>mem := m3, base_addr := r3\<rparr> in mmu_kfree p s2 = Some t \<and> \<not> owned P N K t p 56
    \<and> (\<forall>c j. owned P N K s2 c j \<and> c \<noteq> p \<longrightarrow> owned P N K t c j \<and> load_bytes m3 c j = load_bytes (mem s2) c j)"
    using owned_free [OF k2(2)] by blast
  define s3 where "s3 = s2\<lparr>mem := m3, base_addr := r3\<rparr>"
  have k3: "mmu_kfree p s2 = Some s3" "\<not> owned P N K s3 p 56" "owned P N K s3 b 200"
    using 3 k2 ob(5) by (auto simp: Let_def s3_def)
  have ps: "pipes s3 = pipes s" by (simp add: s3_def s2_def s1_def)
  have "sint fd < int (length (pipes s))" "0 \<le> sint fd" using ob(1) by (auto dest: obj_get_SomeD)
  then have st: "obj_set (pipes s3) (sint fd) 0 = Some ((pipes s)[nat (sint fd) := 0])"
    "obj_get ((pipes s)[nat (sint fd) := 0]) (sint fd) = Some 0"
    unfolding ps by (simp_all add: obj_set_in obj_get_in)
  have "DeletePipe fd s = Some (s3\<lparr>pipes := (pipes s)[nat (sint fd) := 0]\<rparr>)"
    using p0 by (simp add: DeletePipe_def ob(1,8) FlushSem_empty [OF q0] FlushSemQueue_empty [OF q1]
        DeleteSem_def pipe_fields_keep(1) [OF k1] k2(1) k3(1) st(1) flip: s1_def)
  then show ?thesis using st(2) k3(2,3) by simp
qed

lemma users_write:
  assumes "pipe_open P N K s fd p b q" and "sem_rep P N K s q v []"
  shows "pipe_open P N K (s\<lparr>mem := set_users p u (mem s)\<rparr>) fd p b q"
    and "sem_rep P N K (s\<lparr>mem := set_users p u (mem s)\<rparr>) q v []"
proof -
  have ob: "owned P N K s p 56" "owned P N K s q 24" "p \<noteq> q"
    using assms(1) by (auto simp: pipe_open_def pipe_objects_def)
  have own: "owned P N K (s\<lparr>mem := set_users p u (mem s)\<rparr>) = owned P N K s" by (rule owned_pipe_set(7) [OF ob(1)])
  have "load_bytes (set_users p u (mem s)) q 24 = load_bytes (mem s) q 24"
    using pipe_write_other(7) [OF ob(1,2)] ob(3) by simp
  from sem_fields_keep [OF this] show "sem_rep P N K (s\<lparr>mem := set_users p u (mem s)\<rparr>) q v []"
    using assms(2) unfolding sem_rep_Nil own by simp
  show "pipe_open P N K (s\<lparr>mem := set_users p u (mem s)\<rparr>) fd p b q"
    using assms(1) own by (simp add: pipe_open_def pipe_objects_def)
qed

lemma ClosePipe_ok:
  assumes "pipe_open P N K s fd p b q" and "sem_rep P N K s q v []"
  shows "\<exists>t. ClosePipe fd s = Some t
    \<and> (if pipe_users (mem s) p = 1 then pipe_open P N K t fd p b q \<and> pipe_users (mem t) p = 0
       else obj_get (pipes t) (sint fd) = Some 0 \<and> \<not> owned P N K t p 56 \<and> owned P N K t b 200)"
proof -
  let ?s = "s\<lparr>mem := set_users p (pipe_users (mem s) p - 1) (mem s)\<rparr>"
  note w = users_write [OF assms, of "pipe_users (mem s) p - 1"]
  have g: "obj_get (pipes s) (sint fd) = Some p" using assms(1) by (simp add: pipe_open_def)
  have e: "ClosePipe fd s = (if pipe_users (mem s) p = 1 then Some ?s else DeletePipe fd ?s)"
    by (simp add: ClosePipe_def g)
  show ?thesis using w DeletePipe_ok [OF w] by (auto simp: e)
qed

subsection \<open>A machine with a pipe\<close>

definition pipe_demo :: pipe_state where
  "pipe_demo = mmu_state.extend heap_demo (pipe_state.fields (replicate 20 0))"

lemma pipe_demo_ok: "heap_ok demo_frames 24 1 pipe_demo []"
proof -
  have "heap_ok demo_frames 24 1 pipe_demo [] = heap_ok demo_frames 24 1 heap_demo []"
    by (simp add: pipe_demo_def mmu_state.defs heap_ok_def pmm_ok_def pmm_layout_def pmm_frames_def)
  then show ?thesis using heap_demo_ok by simp
qed

lemma pipe_demo_fields [simp]:
  "pipes pipe_demo = replicate 20 0" "free_blocks pipe_demo = free_blocks heap_demo"
  "active pipe_demo = active heap_demo" "processes pipe_demo = processes heap_demo"
  "mem_stack pipe_demo = mem_stack heap_demo"
  by (simp_all add: pipe_demo_def mmu_state.defs pipe_state.defs)

lemma pipe_demo_opens:
  "\<exists>t p b q B v. OpenPipe 3 pipe_demo = Some (3, t) \<and> pipe_open demo_frames 24 1 t 3 p b q
    \<and> pipe_rep (mem t) p b B 0 v \<and> pipe_tail (mem t) p = b \<and> pipe_users (mem t) p = 1
    \<and> sem_rep demo_frames 24 1 t q 1 []"
proof -
  have "\<exists>t p b q B v. OpenPipe 3 pipe_demo = Some (3, t) \<and> pipe_open demo_frames 24 1 t 3 p b q
    \<and> pipe_rep (mem t) p b B 0 v \<and> pipe_tail (mem t) p = b \<and> pipe_users (mem t) p = 1
    \<and> sem_rep demo_frames 24 1 t q 1 [] \<and> pipes t = (pipes pipe_demo)[nat (sint (3 :: u32)) := p]"
    by (rule OpenPipe_ok [OF pipe_demo_ok]) simp_all
  then show ?thesis by blast
qed

lemma pipe_demo_pid: "sched_getpid (pipe_demo\<lparr>mem := m, free_blocks := f, base_addr := r\<rparr>) = Some 1"
  by (simp add: sched_getpid_def proc_at_def obj_get_def pipe_demo_def heap_demo_def sched_demo_def
      sched_state.defs mmu_state.defs vmm_state.defs demo_proc_def)

text \<open>The count of a new pipe is what the memory held; with another value there the pipe is as good.\<close>

lemma avail_write:
  assumes "pipe_open P N K s fd p b q" and "pipe_rep (mem s) p b B h v" and "sem_rep P N K s q w []"
  shows "pipe_open P N K (s\<lparr>mem := set_avail p x (mem s)\<rparr>) fd p b q"
    and "pipe_rep (set_avail p x (mem s)) p b B h x" and "sem_rep P N K (s\<lparr>mem := set_avail p x (mem s)\<rparr>) q w []"
proof -
  have ob: "owned P N K s p 56" "owned P N K s q 24" "pipe_objects P N K s p b q"
    using assms(1) by (auto simp: pipe_open_def pipe_objects_def)
  note pl = pipe_objects_places [OF ob(3)]
  have own: "owned P N K (s\<lparr>mem := set_avail p x (mem s)\<rparr>) = owned P N K s"
    by (rule owned_pipe_fields(2) [OF ob(1)]) simp
  have "load_bytes (set_avail p x (mem s)) q 24 = load_bytes (mem s) q 24"
    using pl by (intro struct_write_apart(2)) (auto simp: pipe_places_def)
  from sem_fields_keep [OF this] show "sem_rep P N K (s\<lparr>mem := set_avail p x (mem s)\<rparr>) q w []"
    using assms(3) unfolding sem_rep_Nil own by simp
  show "pipe_open P N K (s\<lparr>mem := set_avail p x (mem s)\<rparr>) fd p b q"
    using assms(1) own by (simp add: pipe_open_def pipe_objects_def)
  have "load_bytes (set_avail p x (mem s)) b 200 = load_bytes (mem s) b 200"
    using pl(1) by (intro struct_write_apart(2)) (auto simp: pipe_places_def)
  then show "pipe_rep (set_avail p x (mem s)) p b B h x" using assms(2) by (simp add: pipe_rep_def)
qed

lemma owned_above: "owned P N K s a n \<Longrightarrow> 32 \<le> unat a"
  by (metis owned_heap owned_block le_add2)

lemma pipe_demo_state:
  "\<exists>t p b q B. pipe_open demo_frames 24 1 (t :: pipe_state) 3 p b q \<and> pipe_rep (mem t) p b B 0 x
    \<and> pipe_tail (mem t) p = b \<and> pipe_users (mem t) p = 1 \<and> sem_rep demo_frames 24 1 t q 1 []"
proof -
  obtain s p b q B v where s: "pipe_open demo_frames 24 1 (s :: pipe_state) 3 p b q" "pipe_rep (mem s) p b B 0 v"
    "pipe_tail (mem s) p = b" "pipe_users (mem s) p = 1" "sem_rep demo_frames 24 1 s q 1 []"
    using pipe_demo_opens by blast
  let ?t = "s\<lparr>mem := set_avail p x (mem s)\<rparr>"
  show ?thesis
    by (rule exI [of _ ?t], rule exI [of _ p], rule exI [of _ b], rule exI [of _ q], rule exI [of _ B])
      (use avail_write [OF s(1,2,5), of x] s(3,4) in simp)
qed

text \<open>A sequence of writes and reads on one pipe, with the results of the calls.\<close>

datatype pipe_op = Put u64 u32 | Get u64 u32

primrec pipe_run :: "u32 \<Rightarrow> pipe_op list \<Rightarrow> 'a pipe_state_scheme \<Rightarrow> (u32 list \<times> 'a pipe_state_scheme) option" where
  "pipe_run fd [] s = Some ([], s)"
| "pipe_run fd (x # xs) s = do {
     (r, s) \<leftarrow> (case x of Put d n \<Rightarrow> syscall_wpipe fd d n s | Get d n \<Rightarrow> syscall_rpipe fd d n s);
     (rs, s) \<leftarrow> pipe_run fd xs s;
     Some (r # rs, s)
   }"

subsection \<open>Properties\<close>

text \<open>C17: A semaphore implements a counter with a queue of waiting processes. With a positive value,
  \<open>WaitSem\<close> returns 1 and counts down; otherwise it returns 0 (it does not block) and the running
  process is appended to the queue. \<open>SignalSem\<close> counts up when nobody waits and otherwise takes the
  first process off the queue. The semaphore and its nodes are objects of the kernel heap.\<close>

theorem semaphore_refines_queue:
  assumes "sem_rep P N K s q v ps" and "sched_getpid s = Some pid" and "pmm_frames s \<noteq> []"
    and "4 \<le> unat (mem_stack s)"
  shows "(\<exists>t. WaitSem q s = Some (if sint v > 0 then 1 else 0, t)
      \<and> sem_rep P N K t q (if sint v > 0 then v - 1 else v) (if sint v > 0 then ps else ps @ [ucast pid]))
    \<and> sem_rep P N K (s\<lparr>mem := SignalSem q (mem s)\<rparr>) q (if ps = [] then v + 1 else v) (tl ps)"
proof (rule conjI [OF _ signal_refines [OF assms(1)]])
  show "\<exists>t. WaitSem q s = Some (if sint v > 0 then 1 else 0, t)
      \<and> sem_rep P N K t q (if sint v > 0 then v - 1 else v) (if sint v > 0 then ps else ps @ [ucast pid])"
    using wait_passes [OF assms(1)] wait_queues [OF assms(1) _ assms(3,4,2)] by (cases "sint v > 0") simp_all
qed

theorem semaphore_refines_queue_witness:
  "\<exists>q s (t :: pipe_state). CreateSem 0 pipe_demo = Some (q, s) \<and> WaitSem q s = Some (0, t)
    \<and> sem_rep demo_frames 24 1 t q 0 [1] \<and> sem_rep demo_frames 24 1 (s\<lparr>mem := SignalSem q (mem s)\<rparr>) q 1 []"
proof -
  have f: "0 < unat (free_blocks pipe_demo)" by simp
  obtain q m f r where 1: "let t = pipe_demo\<lparr>mem := m, free_blocks := f, base_addr := r\<rparr> in
      CreateSem 0 pipe_demo = Some (q, t) \<and> sem_rep demo_frames 24 1 t q 0 [] \<and> grows demo_frames 24 1 q pipe_demo t
      \<and> unat (free_blocks pipe_demo) \<le> Suc (unat f)"
    using CreateSem_ok [OF pipe_demo_ok f, of 0] by blast
  define s where "s = pipe_demo\<lparr>mem := m, free_blocks := f, base_addr := r\<rparr>"
  have s: "CreateSem 0 pipe_demo = Some (q, s)" "sem_rep demo_frames 24 1 s q 0 []" "0 < unat (free_blocks s)"
    using 1 by (simp_all add: Let_def s_def)
  from semaphore_refines_queue [OF s(2) _ frames_left [OF s(3)], of 1]
  have "(\<exists>t. WaitSem q s = Some (0, t) \<and> sem_rep demo_frames 24 1 t q 0 [1])
    \<and> sem_rep demo_frames 24 1 (s\<lparr>mem := SignalSem q (mem s)\<rparr>) q 1 []"
    by (simp add: s_def pipe_demo_pid)
  then show ?thesis using s(1) by blast
qed

text \<open>C18: A write of at most 200 bytes, from memory apart from the pipe, to an open pipe whose count allows it
  and for which no process waits stores its bytes in the ring buffer from the head
  on, around the end; it moves the head and raises the count. It returns 0, not the number of bytes,
  and it raises the semaphore, for which it did not wait. Nothing else changes: no byte of memory
  outside the buffer, the head and the count of the pipe and the value of its semaphore, and no other
  part of the state.\<close>

theorem pipe_put_ring:
  assumes "pipe_open P N K s fd p b q" and "pipe_rep (mem s) p b B h v" and "sem_rep P N K s q w []"
    and "n \<le> of_nat PIPE_SIZE" and "n \<le> v"
    and "unat p + 56 \<le> unat d \<or> unat d + unat n \<le> unat p" and "unat b + 200 \<le> unat d \<or> unat d + unat n \<le> unat b"
    and "unat d + unat n \<le> 2 ^ 63"
  shows "\<exists>t. PutPipe fd d n s = Some (0, t)
    \<and> pipe_rep (mem t) p b (ring_put B h (load_bytes (mem s) d (unat n))) ((h + unat n) mod PIPE_SIZE) (v + n)
    \<and> sem_rep P N K t q (w + 1) [] \<and> pipe_objects P N K t p b q \<and> t = s\<lparr>mem := mem t\<rparr>
    \<and> (\<forall>a. \<not> pipe_written p b a \<longrightarrow> \<not> in_range (q + 8) 4 a \<longrightarrow> mem t a = mem s a)"
  by (rule PutPipe_ring) (use assms in \<open>simp_all add: pipe_open_def\<close>)

theorem pipe_put_ring_witness:
  "\<exists>s p b q B t. pipe_open demo_frames 24 1 (s :: pipe_state) 3 p b q \<and> PutPipe 3 0 3 s = Some (0, t)
    \<and> pipe_rep (mem t) p b (ring_put B 0 (load_bytes (mem s) 0 3)) 3 203 \<and> sem_rep demo_frames 24 1 t q 2 []
    \<and> t = s\<lparr>mem := mem t\<rparr> \<and> (\<forall>a. \<not> pipe_written p b a \<longrightarrow> \<not> in_range (q + 8) 4 a \<longrightarrow> mem t a = mem s a)"
proof -
  obtain s p b q B where s: "pipe_open demo_frames 24 1 (s :: pipe_state) 3 p b q"
    "pipe_rep (mem s) p b B 0 200" "sem_rep demo_frames 24 1 s q 1 []" using pipe_demo_state by blast
  have "32 \<le> unat p" "32 \<le> unat b" using s(1) owned_above by (auto simp: pipe_open_def pipe_objects_def)
  then have "\<exists>t. PutPipe 3 0 3 s = Some (0, t)
    \<and> pipe_rep (mem t) p b (ring_put B 0 (load_bytes (mem s) 0 (unat (3 :: u32)))) ((0 + unat (3 :: u32)) mod PIPE_SIZE) (200 + 3)
    \<and> sem_rep demo_frames 24 1 t q (1 + 1) [] \<and> pipe_objects demo_frames 24 1 t p b q \<and> t = s\<lparr>mem := mem t\<rparr>
    \<and> (\<forall>a. \<not> pipe_written p b a \<longrightarrow> \<not> in_range (q + 8) 4 a \<longrightarrow> mem t a = mem s a)"
    by (intro pipe_put_ring [OF s]) simp_all
  then obtain t where "PutPipe 3 0 3 s = Some (0, t)"
    "pipe_rep (mem t) p b (ring_put B 0 (load_bytes (mem s) 0 3)) 3 203" "sem_rep demo_frames 24 1 t q 2 []"
    "t = s\<lparr>mem := mem t\<rparr>" "\<forall>a. \<not> pipe_written p b a \<longrightarrow> \<not> in_range (q + 8) 4 a \<longrightarrow> mem t a = mem s a" by auto
  then show ?thesis using s(1) by blast
qed

text \<open>C28: A pipe whose head is at its tail and whose count is zero, as a new one on cleared memory,
  transfers nothing: in every sequence of reads and of writes of at least one byte each call returns 0
  and the state stays as it is.\<close>

theorem new_pipe_transfers_nothing:
  assumes "pipe_open P N K s fd p b q" and "sem_rep P N K s q w []" and "sint w > 0"
    and "pipe_head (mem s) p = pipe_tail (mem s) p" and "pipe_avail (mem s) p = 0"
    and "\<forall>d. Put d 0 \<notin> set xs"
  shows "pipe_run fd xs s = Some (replicate (length xs) 0, s)"
proof -
  have ob: "obj_get (pipes s) (sint fd) = Some p" "owned P N K s p 56" "pipe_sem (mem s) p = q" "p \<noteq> q"
    using assms(1) by (auto simp: pipe_open_def pipe_objects_def)
  have p0: "p \<noteq> 0" using owned_bounds [OF ob(2)] by auto
  have get: "GetPipe fd d n s = Some (0, s)" for d n
    using GetPipe_idle [OF ob(1-4) assms(2,3)] assms(4) by blast
  have put: "PutPipe fd d n s = Some (0, s)" if "n \<noteq> 0" for d n
  proof -
    have "pipe_avail (mem s) p < n" using that assms(5) by (simp add: word_neq_0_conv)
    then show ?thesis by (rule PutPipe_refused [OF ob(1) p0])
  qed
  show ?thesis
    using assms(6)
  proof (induction xs)
    case (Cons x xs)
    then show ?case
      by (cases x) (auto simp: syscall_wpipe_def syscall_rpipe_def get put)
  qed simp
qed

theorem new_pipe_transfers_nothing_witness:
  "\<exists>s p b q. pipe_open demo_frames 24 1 (s :: pipe_state) 3 p b q
    \<and> pipe_run 3 [Put 0x100 5, Get 0x200 5] s = Some ([0, 0], s)"
proof -
  obtain s p b q B where s: "pipe_open demo_frames 24 1 (s :: pipe_state) 3 p b q" "pipe_rep (mem s) p b B 0 0"
    "pipe_tail (mem s) p = b" "sem_rep demo_frames 24 1 s q 1 []" using pipe_demo_state by blast
  have "pipe_run 3 [Put 0x100 5, Get 0x200 5] s = Some (replicate (length [Put 0x100 5, Get 0x200 5]) 0, s)"
    by (rule new_pipe_transfers_nothing [OF s(1,4)]) (use s(2,3) in \<open>simp_all add: pipe_rep_def\<close>)
  then show ?thesis using s(1) by auto
qed

text \<open>A read always ends after at most one byte, whatever size is asked for: it then returns -1, which
  is also the error code, otherwise 0.\<close>

theorem pipe_get_one_byte:
  assumes "1 \<le> n"
  shows "\<exists>r m'. get_pipe_loop p n 0 d m = Some (r, m')
    \<and> (if pipe_head m p \<noteq> pipe_tail m p \<and> pipe_avail m p \<noteq> 0
       then r = - 1 \<and> m' = (let m1 = advance_head p (store8 m d (load8 m (pipe_head m p)))
                             in set_avail p (pipe_avail m1 p - 1) m1)
       else r = 0 \<and> m' = m)"
  using get_pipe_loop_once [OF assms, of p d m] by (auto simp: Let_def)

theorem pipe_get_one_byte_witness:
  "\<exists>m'. get_pipe_loop 0 100 0 0x1000 (set_tail 0 0 (\<lambda>_. 5)) = Some (- 1, m')"
proof -
  let ?m = "set_tail 0 0 (\<lambda>_. 5) :: mem"
  have "pipe_head (\<lambda>_. 5) 0 = 0x0505050505050505" "pipe_avail (\<lambda>_. 5) 0 = 0x05050505"
    by (simp_all add: pipe_head_def pipe_avail_def load64_def load32_def load_bytes_def upt_rec)
  then show ?thesis using pipe_get_one_byte [of 100 0 "0x1000" ?m] by auto
qed

text \<open>\<open>ClosePipe\<close> has its test the wrong way round: the last user leaves the pipe open with no
  users, and with other users left the pipe and its semaphore are freed and the entry is cleared. The
  buffer is never freed.\<close>

theorem close_pipe_inverted:
  assumes "pipe_open P N K s fd p b q" and "sem_rep P N K s q v []"
  shows "\<exists>t. ClosePipe fd s = Some t
    \<and> (if pipe_users (mem s) p = 1 then pipe_open P N K t fd p b q \<and> pipe_users (mem t) p = 0
       else obj_get (pipes t) (sint fd) = Some 0 \<and> \<not> owned P N K t p 56 \<and> owned P N K t b 200)"
  by (rule ClosePipe_ok [OF assms])

theorem close_pipe_inverted_witness:
  "\<exists>s p b q t u. pipe_open demo_frames 24 1 (s :: pipe_state) 3 p b q
    \<and> ClosePipe 3 s = Some t \<and> pipe_users (mem t) p = 0 \<and> obj_get (pipes t) 3 = Some p
    \<and> ClosePipe 3 (s\<lparr>mem := set_users p 2 (mem s)\<rparr>) = Some u \<and> obj_get (pipes u) 3 = Some 0"
proof -
  obtain s p b q B where s: "pipe_open demo_frames 24 1 (s :: pipe_state) 3 p b q" "pipe_users (mem s) p = 1"
    "sem_rep demo_frames 24 1 s q 1 []" using pipe_demo_state by blast
  note w = users_write [OF s(1,3), of 2]
  obtain t where t: "ClosePipe 3 s = Some t" "pipe_users (mem t) p = 0" "pipe_open demo_frames 24 1 t 3 p b q"
    using close_pipe_inverted [OF s(1,3)] s(2) by auto
  obtain u where u: "ClosePipe 3 (s\<lparr>mem := set_users p 2 (mem s)\<rparr>) = Some u" "obj_get (pipes u) (sint (3 :: u32)) = Some 0"
    using close_pipe_inverted [OF w] by auto
  show ?thesis using s(1) t u by (intro exI conjI) (auto simp: pipe_open_def)
qed

end
