(* ===== verification/Clock.thy ===== *)
theory Clock
  imports Machine
begin

unbundle bit_operations_syntax

section \<open>Kernel/rtc-driver.c and Kernel/time.c: the real-time clock\<close>

text \<open>
  The clock chip behind ports 0x70 and 0x71 and the two system calls on it. The chip is what it
  answers on port 0x71; \<open>struct rtc_time\<close> lies in the caller's memory, one byte per field. The
  lemmas show that binary-coded decimals are decoded to what was encoded, that the calendar checks
  are those of the Gregorian calendar for the years they are given, and that a time which was set is
  the time that is read back.
\<close>

subsection \<open>The driver\<close>

definition get_rtc_crt :: "u32 \<Rightarrow> 'a machine_scheme \<Rightarrow> (u32 \<times> 'a machine_scheme) option" where
  "get_rtc_crt cmd s = inportb 0x71 (outportb 0x70 cmd s)"

definition set_rtc_crt :: "u32 \<Rightarrow> u8 \<Rightarrow> 'a machine_scheme \<Rightarrow> 'a machine_scheme" where
  "set_rtc_crt cmd data s = outportb 0x71 (ucast data) (outportb 0x70 cmd s)"

definition get_rtc_seconds where "get_rtc_seconds s = get_rtc_crt 0x00 s"
definition get_rtc_minutes where "get_rtc_minutes s = get_rtc_crt 0x02 s"
definition get_rtc_hours where "get_rtc_hours s = get_rtc_crt 0x04 s"
definition get_rtc_day_of_week where "get_rtc_day_of_week s = get_rtc_crt 0x06 s"
definition get_rtc_day_of_month where "get_rtc_day_of_month s = get_rtc_crt 0x07 s"
definition get_rtc_month where "get_rtc_month s = get_rtc_crt 0x08 s"
definition get_rtc_year where "get_rtc_year s = get_rtc_crt 0x09 s"

definition set_rtc_seconds where "set_rtc_seconds v s = set_rtc_crt 0x00 v s"
definition set_rtc_minutes where "set_rtc_minutes v s = set_rtc_crt 0x02 v s"
definition set_rtc_hours where "set_rtc_hours v s = set_rtc_crt 0x04 v s"
definition set_rtc_day_of_week where "set_rtc_day_of_week v s = set_rtc_crt 0x06 v s"
definition set_rtc_day_of_month where "set_rtc_day_of_month v s = set_rtc_crt 0x07 v s"
definition set_rtc_month where "set_rtc_month v s = set_rtc_crt 0x08 v s"
definition set_rtc_year where "set_rtc_year v s = set_rtc_crt 0x09 v s"

lemmas rtc_get_defs = get_rtc_seconds_def get_rtc_minutes_def get_rtc_hours_def
  get_rtc_day_of_month_def get_rtc_month_def get_rtc_year_def

lemmas rtc_set_defs = set_rtc_seconds_def set_rtc_minutes_def set_rtc_hours_def
  set_rtc_day_of_month_def set_rtc_month_def set_rtc_year_def

subsection \<open>Time and date\<close>

definition BCD2BIN :: "u8 \<Rightarrow> u8" where
  "BCD2BIN val = (val AND 15) + drop_bit 4 val * 10"

definition BIN2BCD :: "u8 \<Rightarrow> u8" where
  "BIN2BCD val = push_bit 4 (val div 10) + val mod 10"

definition isleapyear :: "u8 \<Rightarrow> bool" where
  "isleapyear year \<longleftrightarrow>
     (uint year mod 4 = 0 \<and> uint year mod 100 \<noteq> 0) \<or> uint year mod 400 = 0"

definition valid_time :: "u8 \<Rightarrow> u8 \<Rightarrow> u8 \<Rightarrow> bool" where
  "valid_time sec minute hrs \<longleftrightarrow> \<not> (sec > 60 \<or> minute > 60 \<or> hrs > 24)"

definition monthlen :: "nat list" where
  "monthlen = [31, 28, 31, 30, 31, 30, 31, 31, 30, 31, 30, 31]"

definition valid_date :: "u8 \<Rightarrow> u8 \<Rightarrow> u8 \<Rightarrow> bool" where
  "valid_date year month day \<longleftrightarrow>
     (if month < 1 \<or> month > 12 then False
      else let len = (if isleapyear year \<and> month = 2 then monthlen[1 := monthlen ! 1 + 1] else monthlen)
           in \<not> (unat day > len ! (unat month - 1) \<or> day < 1))"

definition to_24_hours :: "u8 \<Rightarrow> u8 \<Rightarrow> u8" where
  "to_24_hours registerB hour =
     (if registerB AND 0x02 = 0 \<and> hour AND 0x80 \<noteq> 0 then ((hour AND 0x7F) + 12) mod 24 else hour)"

text \<open>The offsets of the fields of \<open>struct rtc_time\<close>: sec, min, hour, day, mon, year.\<close>

definition syscall_get_time :: "u64 \<Rightarrow> 'a machine_scheme \<Rightarrow> 'a machine_scheme option" where
  "syscall_get_time time s = do {
     (registerB, s) \<leftarrow> get_rtc_crt 0x0B s;
     (sec, s) \<leftarrow> get_rtc_seconds s;
     (minute, s) \<leftarrow> get_rtc_minutes s;
     (hour, s) \<leftarrow> get_rtc_hours s;
     (mon, s) \<leftarrow> get_rtc_month s;
     (year, s) \<leftarrow> get_rtc_year s;
     (day, s) \<leftarrow> get_rtc_day_of_month s;
     let registerB = (ucast registerB :: u8);
     let conv = (\<lambda>v :: u32. if registerB AND 0x04 = 0 then BCD2BIN (ucast v) else ucast v);
     let hour = to_24_hours registerB (conv hour);
     let m = mem s;
     let m = store8 m time (conv sec);
     let m = store8 m (time + 1) (conv minute);
     let m = store8 m (time + 2) hour;
     let m = store8 m (time + 4) (conv mon);
     let m = store8 m (time + 5) (conv year);
     let m = store8 m (time + 3) (conv day);
     Some (s\<lparr>mem := m\<rparr>)
   }"

definition syscall_set_time :: "u64 \<Rightarrow> 'a machine_scheme \<Rightarrow> 'a machine_scheme option" where
  "syscall_set_time time s = do {
     (registerB, s) \<leftarrow> get_rtc_crt 0x0B s;
     let registerB = (ucast registerB :: u8);
     let conv = (\<lambda>v. if registerB AND 0x04 = 0 then BIN2BCD v else v);
     let sec = conv (load8 (mem s) time);
     let minute = conv (load8 (mem s) (time + 1));
     let hour = conv (load8 (mem s) (time + 2));
     let mon = conv (load8 (mem s) (time + 4));
     let year = conv (load8 (mem s) (time + 5));
     let day = conv (load8 (mem s) (time + 3));
     let hour = to_24_hours registerB hour;
     let s = set_rtc_seconds sec s;
     let s = set_rtc_minutes minute s;
     let s = set_rtc_hours hour s;
     let s = set_rtc_month mon s;
     let s = set_rtc_year year s;
     let s = set_rtc_day_of_month day s;
     Some s
   }"

subsection \<open>Binary-coded decimals\<close>

lemma bcd_table: "list_all (\<lambda>n. BCD2BIN (BIN2BCD (word_of_int n)) = word_of_int n) [0..99]"
  by code_simp

lemma BCD2BIN_BIN2BCD:
  assumes "unat v < 100" shows "BCD2BIN (BIN2BCD v) = v"
proof -
  have "uint v < int 100" by (rule uint_less_unat [OF assms])
  then have "uint v \<in> set [0..99]" by simp
  then have "BCD2BIN (BIN2BCD (word_of_int (uint v))) = word_of_int (uint v)"
    using bcd_table unfolding list_all_iff by blast
  then show ?thesis by simp
qed

lemma early_hours_table:
  "list_all (\<lambda>n. word_of_int n AND (0x80 :: u8) = 0 \<and> BIN2BCD (word_of_int n) AND 0x80 = 0) [0..79]"
  by code_simp

text \<open>Hours below 80 have bit 7 clear, in binary and in BCD, so the 12-hour branch leaves them alone.\<close>

lemma to_24_hours_early:
  assumes "unat v < 80" shows "to_24_hours B v = v" and "to_24_hours B (BIN2BCD v) = BIN2BCD v"
proof -
  have "uint v < int 80" by (rule uint_less_unat [OF assms])
  then have "uint v \<in> set [0..79]" by simp
  then have "word_of_int (uint v) AND (0x80 :: u8) = 0 \<and> BIN2BCD (word_of_int (uint v)) AND 0x80 = 0"
    using early_hours_table unfolding list_all_iff by blast
  then show "to_24_hours B v = v" "to_24_hours B (BIN2BCD v) = BIN2BCD v" by (simp_all add: to_24_hours_def)
qed

lemma pm_hours_table:
  "list_all (\<lambda>n. BCD2BIN (0x80 OR BIN2BCD (word_of_int n)) = word_of_int (n + 80)) [1..12]"
  by code_simp

subsection \<open>The calls\<close>

text \<open>
  The registers of the chip after a sequence of port writes, as the chip is documented: port 0x70
  selects a register, port 0x71 writes the selected one.
\<close>

fun cmos :: "(u16 \<times> u8) list \<Rightarrow> u8 \<times> (u8 \<Rightarrow> u8) \<Rightarrow> u8 \<times> (u8 \<Rightarrow> u8)" where
  "cmos [] c = c"
| "cmos ((port, v) # os) (sel, regs) =
     cmos os (if port = 0x70 then (v, regs) else if port = 0x71 then (sel, regs(sel := v)) else (sel, regs))"

text \<open>The order in which \<open>syscall_get_time\<close> asks for the registers.\<close>

definition rtc_order :: "u8 list" where
  "rtc_order = [0x0B, 0, 2, 4, 8, 9, 7]"

lemma ucast_u8_u32: "(ucast (ucast (v :: u8) :: u32) :: u8) = v"
  by (rule bit_word_eqI) (auto simp: bit_simps)

lemma get_rtc_crt_Cons:
  "inq s 0x71 = v # vs \<Longrightarrow>
   get_rtc_crt cmd s = Some (ucast v, s\<lparr>inq := (inq s)(0x71 := vs), outs := outs s @ [(0x70, ucast cmd)]\<rparr>)"
  by (simp add: get_rtc_crt_def outportb_def inportb_Cons)

lemma set_rtc_crt_eq:
  "set_rtc_crt cmd data s = s\<lparr>outs := outs s @ [(0x70, ucast cmd), (0x71, data)]\<rparr>"
  by (simp add: set_rtc_crt_def outportb_def ucast_u8_u32)

lemma get_time_eq:
  assumes "inq s 0x71 = B # sec # minute # hour # mon # year # day # rest"
  defines "conv \<equiv> (\<lambda>v. if B AND 0x04 = 0 then BCD2BIN v else v)"
  shows "\<exists>t. syscall_get_time time s = Some t \<and>
    mem t = store8 (store8 (store8 (store8 (store8 (store8 (mem s) time (conv sec)) (time + 1) (conv minute))
      (time + 2) (to_24_hours B (conv hour))) (time + 4) (conv mon)) (time + 5) (conv year)) (time + 3) (conv day)"
  using assms(1)
  by (simp add: syscall_get_time_def rtc_get_defs get_rtc_crt_Cons conv_def ucast_u8_u32)

lemma rtc_fields:
  "load_bytes m time 6 = [m time, m (time + 1), m (time + 2), m (time + 3), m (time + 4), m (time + 5)]"
  by (simp add: load_bytes_def upt_rec numeral_eq_Suc)

lemma rtc_offsets_distinct:
  fixes a :: u64
  shows "a + 1 \<noteq> a" "a + 2 \<noteq> a" "a + 3 \<noteq> a" "a + 4 \<noteq> a" "a + 5 \<noteq> a"
  by simp_all

lemma load_stored_time:
  "load_bytes (store8 (store8 (store8 (store8 (store8 (store8 m time a) (time + 1) b) (time + 2) c)
      (time + 4) e) (time + 5) f) (time + 3) d) time 6 = [a, b, c, d, e, f]"
  by (simp add: rtc_fields store8_def)

text \<open>C39: A time and date that was set is what is read back: if the clock answers with the registers
  that \<open>syscall_set_time\<close> wrote, then \<open>syscall_get_time\<close> stores the same six bytes, in binary and in
  BCD mode, for all fields below 100 and, when the clock is in 12-hour mode, hours below 80. For other
  bytes it need not hold: a BCD register has two digits, and from 80 on bit 7 of the hour is taken for
  the afternoon flag. \<open>syscall_set_time\<close> never sets that flag for such an hour; a clock in 12-hour BCD mode
  that sets it by itself is read wrongly (\<open>get_time_afternoon\<close>).\<close>

theorem set_get_time:
  assumes "inq s 0x71 = regs 0x0B # q" and "\<forall>i < 6. unat (mem s (time + of_nat i)) < 100"
    and "regs 0x0B AND 0x02 \<noteq> 0 \<or> unat (mem s (time + 2)) < 80"
  shows "\<exists>t. syscall_set_time time s = Some t \<and>
    (\<forall>u q'. inq u 0x71 = map (snd (cmos (drop (length (outs s)) (outs t)) (0, regs))) rtc_order @ q' \<longrightarrow>
      (\<exists>v. syscall_get_time time' u = Some v \<and> load_bytes (mem v) time' 6 = load_bytes (mem s) time 6))"
proof -
  define B where "B = regs 0x0B"
  define w where "w = (\<lambda>v. if B AND 0x04 = 0 then BIN2BCD v else v)"
  define r where "r = (\<lambda>v. if B AND 0x04 = 0 then BCD2BIN v else v)"
  let ?f = "\<lambda>i. mem s (time + i)"
  have rw: "r (w x) = x" if "unat x < 100" for x
    using that by (simp add: BCD2BIN_BIN2BCD r_def w_def)
  have b: "unat (mem s time) < 100" "unat (?f 1) < 100" "unat (?f 2) < 100" "unat (?f 3) < 100"
    "unat (?f 4) < 100" "unat (?f 5) < 100"
    using assms(2) [rule_format, of 0] assms(2) [rule_format, of 1] assms(2) [rule_format, of 2]
      assms(2) [rule_format, of 3] assms(2) [rule_format, of 4] assms(2) [rule_format, of 5] by simp_all
  have day: "to_24_hours B v = v" if "B AND 0x02 \<noteq> 0" for v using that by (simp add: to_24_hours_def)
  have h: "to_24_hours B (?f 2) = ?f 2" "to_24_hours B (w (?f 2)) = w (?f 2)"
    using to_24_hours_early [of "?f 2" B] assms(3) day unfolding B_def [symmetric] by (auto simp: w_def)
  have hb: "B AND 0x04 = 0 \<Longrightarrow> to_24_hours B (BIN2BCD (?f 2)) = BIN2BCD (?f 2)" using h(2) by (simp add: w_def)
  define os where "os = [(0x70, 0x0B), (0x70, 0), (0x71, w (mem s time)), (0x70, 2), (0x71, w (?f 1)),
    (0x70, 4), (0x71, w (?f 2)), (0x70, 8), (0x71, w (?f 4)), (0x70, 9), (0x71, w (?f 5)),
    (0x70 :: u16, 7), (0x71, w (?f 3))]"
  have set: "syscall_set_time time s = Some (s\<lparr>inq := (inq s)(0x71 := q), outs := outs s @ os\<rparr>)"
    using assms(1)
    by (simp add: syscall_set_time_def get_rtc_crt_Cons rtc_set_defs set_rtc_crt_eq ucast_u8_u32 h(1) hb load8_def
        os_def w_def flip: B_def)
  have order: "map (snd (cmos os (0, regs))) rtc_order
      = [B, w (mem s time), w (?f 1), w (?f 2), w (?f 4), w (?f 5), w (?f 3)]"
    by (simp add: rtc_order_def os_def B_def)
  have get: "\<exists>v. syscall_get_time time' u = Some v \<and> load_bytes (mem v) time' 6 = load_bytes (mem s) time 6"
    if u: "inq u 0x71 = [B, w (mem s time), w (?f 1), w (?f 2), w (?f 4), w (?f 5), w (?f 3)] @ q'" for u q'
  proof -
    obtain v where v: "syscall_get_time time' u = Some v"
      "mem v = store8 (store8 (store8 (store8 (store8 (store8 (mem u) time' (r (w (mem s time)))) (time' + 1)
        (r (w (?f 1)))) (time' + 2) (to_24_hours B (r (w (?f 2))))) (time' + 4) (r (w (?f 4)))) (time' + 5)
        (r (w (?f 5)))) (time' + 3) (r (w (?f 3)))"
      using get_time_eq [of u B "w (mem s time)" "w (?f 1)" "w (?f 2)" "w (?f 4)" "w (?f 5)" "w (?f 3)" q' time'] u
      unfolding r_def by auto
    have "load_bytes (mem v) time' 6 = load_bytes (mem s) time 6"
      unfolding v(2) load_stored_time by (simp add: rw b h rtc_fields)
    then show ?thesis using v(1) by blast
  qed
  have "drop (length (outs s)) (outs (s\<lparr>inq := (inq s)(0x71 := q), outs := outs s @ os\<rparr>)) = os" by simp
  then show ?thesis
    using get by (intro exI [of _ "s\<lparr>inq := (inq s)(0x71 := q), outs := outs s @ os\<rparr>"])
      (simp only: set order simp_thms, blast)
qed

definition clock_example :: machine where
  "clock_example = \<lparr>mem = (\<lambda>a. if a = 3 then 23 else 12), inq = (\<lambda>_. [2]), outs = []\<rparr>"

theorem set_get_time_witness:
  "\<exists>t. syscall_set_time 0 clock_example = Some t \<and>
    (\<exists>v. syscall_get_time 64 (clock_example\<lparr>inq := \<lambda>_.
        map (snd (cmos (drop (length (outs clock_example)) (outs t)) (0, \<lambda>_. 2))) rtc_order @ []\<rparr>) = Some v
      \<and> load_bytes (mem v) 64 6 = load_bytes (mem clock_example) 0 6)"
proof -
  have "inq clock_example 0x71 = (\<lambda>_. 2) 0x0B # []" "\<forall>i < 6. unat (mem clock_example (0 + of_nat i)) < 100"
    "(\<lambda>_. 2 :: u8) 0x0B AND 0x02 \<noteq> 0 \<or> unat (mem clock_example (0 + 2)) < 80"
    by (simp_all add: clock_example_def)
  from set_get_time [OF this, of 64] obtain t where t: "syscall_set_time 0 clock_example = Some t"
    "\<And>u q'. inq u 0x71 = map (snd (cmos (drop (length (outs clock_example)) (outs t)) (0, \<lambda>_. 2))) rtc_order @ q' \<Longrightarrow>
      \<exists>v. syscall_get_time 64 (u :: machine) = Some v \<and> load_bytes (mem v) 64 6 = load_bytes (mem clock_example) 0 6"
    by blast
  then show ?thesis
    by (intro exI [of _ t] conjI t(2)) simp_all
qed

text \<open>The Gregorian calendar.\<close>

definition greg_leap :: "nat \<Rightarrow> bool" where
  "greg_leap y \<longleftrightarrow> 4 dvd y \<and> (\<not> 100 dvd y \<or> 400 dvd y)"

definition greg_days :: "nat \<Rightarrow> nat \<Rightarrow> nat" where
  "greg_days y month =
     (if month = 2 then (if greg_leap y then 29 else 28) else if month \<in> {4, 6, 9, 11} then 30 else 31)"

lemma isleapyear_gregorian: "unat year < 100 \<Longrightarrow> isleapyear year \<longleftrightarrow> greg_leap (2000 + unat year)"
proof -
  assume y: "unat year < 100"
  define n where "n = unat year"
  have u: "uint year = int n" by (simp add: n_def)
  have n: "n < 100" using y by (simp add: n_def)
  have "int n mod 4 = 0 \<longleftrightarrow> 4 dvd n" by presburger
  moreover have "int n mod 100 = 0 \<longleftrightarrow> n = 0" "int n mod 400 = 0 \<longleftrightarrow> n = 0" using n by simp_all
  moreover have "4 dvd 2000 + n \<longleftrightarrow> 4 dvd n" "100 dvd 2000 + n \<longleftrightarrow> 100 dvd n" "400 dvd 2000 + n \<longleftrightarrow> 400 dvd n"
    by (intro dvd_add_right_iff; simp)+
  moreover have "100 dvd n \<longleftrightarrow> n = 0" "400 dvd n \<longleftrightarrow> n = 0" using n by (auto dest: dvd_imp_le)
  ultimately show ?thesis
    unfolding isleapyear_def greg_leap_def u n_def [symmetric] by auto
qed

lemma month_cases: "1 \<le> m \<Longrightarrow> m \<le> 12 \<Longrightarrow> (m :: nat) \<in> {1, 2, 3, 4, 5, 6, 7, 8, 9, 10, 11, 12}"
  unfolding insert_iff empty_iff by presburger

text \<open>C40: For the two-digit years of the clock chip, \<open>valid_date\<close> accepts exactly the dates of the
  Gregorian calendar of the years 2000 to 2099.\<close>

theorem valid_date_gregorian:
  assumes "unat year < 100"
  shows "valid_date year month day \<longleftrightarrow>
    1 \<le> unat month \<and> unat month \<le> 12 \<and> 1 \<le> unat day \<and> unat day \<le> greg_days (2000 + unat year) (unat month)"
proof (cases "1 \<le> unat month \<and> unat month \<le> 12")
  case False
  then have "month < 1 \<or> month > 12" by (auto simp: word_less_nat_alt)
  then show ?thesis using False by (auto simp: valid_date_def)
next
  case True
  then have m: "\<not> (month < 1 \<or> month > 12)" by (auto simp: word_less_nat_alt)
  have d: "day < 1 \<longleftrightarrow> \<not> 1 \<le> unat day" by (auto simp: word_less_nat_alt)
  have two: "month = 2 \<longleftrightarrow> unat month = 2" by (simp add: word_unat_eq_iff)
  have "unat month \<in> {1, 2, 3, 4, 5, 6, 7, 8, 9, 10, 11, 12}"
    using True by (intro month_cases) simp_all
  then have "(if isleapyear year \<and> month = 2 then monthlen[1 := monthlen ! 1 + 1] else monthlen) ! (unat month - 1)
      = greg_days (2000 + unat year) (unat month)"
    unfolding two isleapyear_gregorian [OF assms]
    by (elim insertE) (simp_all add: monthlen_def greg_days_def)
  then show ?thesis
    using True unfolding valid_date_def if_not_P [OF m] Let_def d by auto
qed

theorem valid_date_gregorian_witness:
  "valid_date 12 2 29 \<longleftrightarrow> 1 \<le> unat (2 :: u8) \<and> unat (2 :: u8) \<le> 12 \<and> 1 \<le> unat (29 :: u8)
    \<and> unat (29 :: u8) \<le> greg_days (2000 + unat (12 :: u8)) (unat (2 :: u8))"
  by (rule valid_date_gregorian) simp

text \<open>With a clock in 12-hour BCD mode, an hour of the afternoon is read as the hour plus 80: the
  afternoon flag (bit 7) is taken for a decimal digit before the code looks at it.\<close>

theorem get_time_afternoon:
  assumes "inq s 0x71 = B # sec # minute # (0x80 OR BIN2BCD h) # mon # year # day # rest"
    and "B AND 0x02 = 0" and "B AND 0x04 = 0" and "1 \<le> unat h" and "unat h \<le> 12"
  shows "\<exists>t. syscall_get_time time s = Some t \<and> mem t (time + 2) = h + 80"
proof -
  have "int 1 \<le> int (unat h)" "int (unat h) \<le> int 12" using assms(4,5) by (simp_all only: of_nat_le_iff)
  then have "uint h \<in> set [1..12]" by simp
  then have "BCD2BIN (0x80 OR BIN2BCD (word_of_int (uint h))) = word_of_int (uint h + 80)"
    using pm_hours_table unfolding list_all_iff by blast
  then have c: "BCD2BIN (0x80 OR BIN2BCD h) = h + 80" by simp
  have u: "unat (h + 80) < 128" using assms(5) by (simp add: unat_plus_if' )
  have "(h + 80) AND 0x80 = 0"
    using u and_exp_eq_0_iff_not_bit [of "h + 80" 7] bit7_iff [of "h + 80"] by simp
  then have "to_24_hours B (h + 80) = h + 80" by (simp add: to_24_hours_def)
  then show ?thesis
    using get_time_eq [OF assms(1), of time] assms(3) c by (auto simp: store8_def)
qed

theorem get_time_afternoon_witness:
  "\<exists>t. syscall_get_time 0 (clock_example\<lparr>inq := \<lambda>_. 0 # 0 # 0 # (0x80 OR BIN2BCD 3) # 1 # 18 # 1 # []\<rparr>) = Some t
    \<and> mem t (0 + 2) = 3 + 80"
  by (rule get_time_afternoon [where B = 0]) simp_all

end
