(* ===== verification/Interrupts.thy ===== *)
theory Interrupts
  imports Pipe_Props Clock
begin

unbundle bit_operations_syntax

section \<open>Kernel/interrupts.c: the interrupt table and the handlers\<close>

text \<open>
  The table of hardware handlers, the installation of the gates, and the page fault handler that stops
  the machine. A gate is read back as the processor does it (\<open>gate_at\<close>); the lemmas say what
  \<open>install_interrupts\<close> leaves in the table and in the rest of the memory.
\<close>

abbreviation INT_IDT_SIZE :: u32 where "INT_IDT_SIZE \<equiv> 0xFF"
abbreviation INT_TABLE_SIZE :: nat where "INT_TABLE_SIZE \<equiv> 16"
abbreviation IDT_MASTER :: u32 where "IDT_MASTER \<equiv> 0x20"
abbreviation IDT_SLAVE :: u32 where "IDT_SLAVE \<equiv> 0x70"
abbreviation IDTE_PRESENT :: u16 where "IDTE_PRESENT \<equiv> 0x80"
abbreviation IDTE_DPL_SW :: u16 where "IDTE_DPL_SW \<equiv> 0x60"
abbreviation IDTE_T_GATE :: u16 where "IDTE_T_GATE \<equiv> 0x0F"
abbreviation IDTE_SW :: u16 where "IDTE_SW \<equiv> IDTE_PRESENT OR IDTE_DPL_SW OR IDTE_T_GATE"
abbreviation INT_SYS :: u32 where "INT_SYS \<equiv> 0x80"
abbreviation INT_MEM :: u32 where "INT_MEM \<equiv> 0x0E"
abbreviation IDT_SELECTOR :: u16 where "IDT_SELECTOR \<equiv> 0x08"

text \<open>The interrupts that have a handler, and the first of the slave controller.\<close>

abbreviation INT_PIT :: u32 where "INT_PIT \<equiv> IDT_MASTER + 0"
abbreviation INT_KEYB :: u32 where "INT_KEYB \<equiv> IDT_MASTER + 1"
abbreviation INT_CMOS :: u32 where "INT_CMOS \<equiv> IDT_SLAVE + 8"

text \<open>
  A function pointer is null or one of the functions the kernel installs. The processor's interrupt
  descriptor table register is its limit and its base; \<open>idtr\<close> is a pointer that nothing ever sets,
  so it is null and what is stored through it lands at address 0.
\<close>

datatype hw_handler = Kbrd_irq | Pit_irq

record int_state = pipe_state +
  handlers :: "hw_handler option list"
  syscall_set :: bool
  cpu_idt :: "u16 \<times> u64"

abbreviation idtr_addr :: u64 where "idtr_addr \<equiv> 0"

subsection \<open>Hardware interrupts\<close>

definition irq_get_hw_index :: "u32 \<Rightarrow> u32" where
  "irq_get_hw_index irq =
     (if irq AND IDT_MASTER \<noteq> 0 then irq - IDT_MASTER
      else if irq AND IDT_SLAVE \<noteq> 0 then irq - IDT_SLAVE
      else 0)"

definition pit_irq :: "'a int_state_scheme \<Rightarrow> 'a int_state_scheme option" where
  "pit_irq s = tick_sound s"

definition call_handler :: "hw_handler \<Rightarrow> 'a int_state_scheme \<Rightarrow> 'a int_state_scheme option" where
  "call_handler h s = (case h of Kbrd_irq \<Rightarrow> kbrd_irq s | Pit_irq \<Rightarrow> pit_irq s)"

definition irq_handler :: "u32 \<Rightarrow> 'a int_state_scheme \<Rightarrow> 'a int_state_scheme option" where
  "irq_handler irq s =
     (let index = irq_get_hw_index irq
      in if index = - 1 then Some s
         else do {
           handler \<leftarrow> obj_get (handlers s) (sint index);
           case handler of None \<Rightarrow> Some s | Some h \<Rightarrow> call_handler h s
         })"

text \<open>\<open>uint16_t index\<close> is never -1.\<close>

definition install_hw_handler :: "hw_handler option \<Rightarrow> u32 \<Rightarrow> 'a int_state_scheme \<Rightarrow> 'a int_state_scheme option" where
  "install_hw_handler handler interrupt s =
     (let index = (ucast (irq_get_hw_index interrupt) :: u16)
      in do {
        hs \<leftarrow> obj_set (handlers s) (uint index) handler;
        Some (s\<lparr>handlers := hs\<rparr>)
      })"

definition install_syscall_handler :: "bool \<Rightarrow> 'a int_state_scheme \<Rightarrow> 'a int_state_scheme" where
  "install_syscall_handler handler s = s\<lparr>syscall_set := handler\<rparr>"

subsection \<open>The interrupt descriptor table\<close>

definition load16 :: "mem \<Rightarrow> u64 \<Rightarrow> u16" where
  "load16 m a = le_word (load_bytes m a 2)"

definition store16 :: "mem \<Rightarrow> u64 \<Rightarrow> u16 \<Rightarrow> mem" where
  "store16 m a v = store_bytes m a (le_bytes 2 v)"

text \<open>\<open>struct IDT_Entry\<close>: offset, selector, zero, type, middle offset, high offset, zero; packed.\<close>

definition IDT_ENTRY_SIZE :: u64 where
  "IDT_ENTRY_SIZE = 16"

definition install_IDT_entry :: "u64 \<Rightarrow> u32 \<Rightarrow> u64 \<Rightarrow> u16 \<Rightarrow> mem \<Rightarrow> mem" where
  "install_IDT_entry table idx handler flags m =
     (let entry = table + ucast (idx mod INT_IDT_SIZE) * IDT_ENTRY_SIZE;
          m = store8 m (entry + 4) 0;
          m = store32 m (entry + 12) 0;
          m = store8 m (entry + 5) (ucast flags);
          m = store16 m (entry + 2) IDT_SELECTOR;
          m = store16 m entry (ucast (handler AND 0xFFFF));
          m = store16 m (entry + 6) (ucast (drop_bit 16 handler AND 0xFFFF))
      in store32 m (entry + 8) (ucast (drop_bit 32 handler AND 0xFFFFFFFF)))"

text \<open>asm/interrupts.asm: the register in memory, and the ports of the two controllers.\<close>

definition sidt :: "u64 \<Rightarrow> 'a int_state_scheme \<Rightarrow> 'a int_state_scheme" where
  "sidt a s = s\<lparr>mem := store64 (store16 (mem s) a (fst (cpu_idt s))) (a + 2) (snd (cpu_idt s))\<rparr>"

definition lidt :: "u64 \<Rightarrow> 'a int_state_scheme \<Rightarrow> 'a int_state_scheme" where
  "lidt a s = s\<lparr>cpu_idt := (load16 (mem s) a, load64 (mem s) (a + 2))\<rparr>"

definition idt_pic_master_mask :: "u32 \<Rightarrow> 'a machine_scheme \<Rightarrow> 'a machine_scheme" where
  "idt_pic_master_mask v s = outportb 0x21 v s"
definition idt_pic_slave_mask :: "u32 \<Rightarrow> 'a machine_scheme \<Rightarrow> 'a machine_scheme" where
  "idt_pic_slave_mask v s = outportb 0xA1 v s"
definition idt_pic_master_set_map :: "u32 \<Rightarrow> 'a machine_scheme \<Rightarrow> 'a machine_scheme" where
  "idt_pic_master_set_map v s = outportb 0x20 v s"
definition idt_pic_slave_set_map :: "u32 \<Rightarrow> 'a machine_scheme \<Rightarrow> 'a machine_scheme" where
  "idt_pic_slave_set_map v s = outportb 0xA0 v s"

text \<open>The entry points that the table gets, addresses the linker sets.\<close>

record int_symbols =
  sym_int_sys :: u64
  sym_int_mem :: u64
  sym_irq_20h :: u64
  sym_irq_21h :: u64

definition install_interrupts :: "int_symbols \<Rightarrow> 'a int_state_scheme \<Rightarrow> 'a int_state_scheme" where
  "install_interrupts is s =
     (let s = sidt idtr_addr s;
          s = idt_pic_master_mask 0 s;
          s = idt_pic_slave_mask 0 s;
          s = idt_pic_master_set_map IDT_MASTER s;
          s = idt_pic_slave_set_map IDT_SLAVE s;
          table = load64 (mem s) (idtr_addr + 2);
          m = install_IDT_entry table INT_SYS (sym_int_sys is) IDTE_SW (mem s);
          m = install_IDT_entry table INT_MEM (sym_int_mem is) IDTE_SW m;
          m = install_IDT_entry table INT_PIT (sym_irq_20h is) IDTE_SW m;
          m = install_IDT_entry table INT_KEYB (sym_irq_21h is) IDTE_SW m
      in lidt idtr_addr (s\<lparr>mem := m\<rparr>))"

subsection \<open>Page faults\<close>

text \<open>A computation that goes on with a result, or a machine that halts.\<close>

datatype 'a outcome = Runs u64 'a | Halts 'a

definition fault_codes :: "string list" where
  "fault_codes =
     [''0  0  0 - Supervisory process tried to read a non-present page entry'',
      ''0  0  1 - Supervisory process tried to read a page and caused a protection fault'',
      ''0  1  0 - Supervisory process tried to write to a non-present page entry'',
      ''0  1  1 - Supervisory process tried to write a page and caused a protection fault'',
      ''1  0  0 - User process tried to read a non-present page entry'',
      ''1  0  1 - User process tried to read a page and caused a protection fault'',
      ''1  1  0 - User process tried to write to a non-present page entry'',
      ''1  1  1 - User process tried to write a page and caused a protection fault'']"

definition mem_handler :: "u64 \<Rightarrow> u64 \<Rightarrow> 'a int_state_scheme \<Rightarrow> 'a int_state_scheme outcome option" where
  "mem_handler flag by_addr s = do {
     s \<leftarrow> kprintf (''*** Fault @ 0x%x err %bb'' @ [CHR 0x0A]) [Arg_num by_addr, Arg_num flag] s;
     s \<leftarrow> kprintf (''     US RW  P - Description'' @ [CHR 0x0A]) [] s;
     code \<leftarrow> obj_get fault_codes (uint (flag mod 8));
     s \<leftarrow> kprintf (''Code: %s'' @ [CHR 0x0A]) [Arg_str (bytes code @ [0])] s;
     s \<leftarrow> kprintf (''CR3: %x Bitmap: %x'' @ [CHR 0x0A]) [Arg_num (read_cr3 s), Arg_num (cur_bitmap s)] s;
     s \<leftarrow> panic ''Faulted'' s;
     Some (Halts s)
   }"

subsection \<open>What the table holds\<close>

interpretation c16: cell_store load16 store16 2
proof unfold_locales
  fix m :: mem and a and v :: u16
  have "load_bytes (store_bytes m a (le_bytes 2 v)) a (length (le_bytes 2 v)) = le_bytes 2 v"
    by (rule load_store_bytes) simp
  then show "load16 (store16 m a v) a = v"
    by (simp add: load16_def store16_def le_word_le_bytes)
next
  fix m m' :: mem and a b
  show "store16 m a (load16 m' b) = store_bytes m a (load_bytes m' b 2)"
    using le_bytes_le_word [of "load_bytes m' b 2", where 'a = 16]
    by (simp add: store16_def load16_def)
qed (simp_all add: store16_def load16_def mem_simps)

text \<open>A gate as the processor reads it: the offset from its three parts, selector and type.\<close>

definition gate_offset :: "mem \<Rightarrow> u64 \<Rightarrow> u64" where
  "gate_offset m e = ucast (load16 m e) OR push_bit 16 (ucast (load16 m (e + 6))) OR push_bit 32 (ucast (load32 m (e + 8)))"

definition gate_at :: "mem \<Rightarrow> u64 \<Rightarrow> u64 \<Rightarrow> u16 \<Rightarrow> bool" where
  "gate_at m e h flags \<longleftrightarrow> gate_offset m e = h \<and> load16 m (e + 2) = IDT_SELECTOR \<and> load8 m (e + 5) = ucast flags
     \<and> load8 m (e + 4) = 0 \<and> load32 m (e + 12) = 0"

lemma split_offset:
  "ucast (ucast ((h :: u64) AND 0xFFFF) :: u16) OR push_bit 16 (ucast (ucast (drop_bit 16 h AND 0xFFFF) :: u16))
     OR push_bit 32 (ucast (ucast (drop_bit 32 h AND 0xFFFFFFFF) :: u32)) = (h :: u64)"
proof (rule bit_word_eqI)
  fix n assume "n < LENGTH(64)"
  have m: "(0xFFFF :: u64) = mask 16" "(0xFFFFFFFF :: u64) = mask 32" by (simp_all add: mask_eq_exp_minus_1)
  show "bit (ucast (ucast (h AND 0xFFFF) :: u16) OR push_bit 16 (ucast (ucast (drop_bit 16 h AND 0xFFFF) :: u16))
     OR push_bit 32 (ucast (ucast (drop_bit 32 h AND 0xFFFFFFFF) :: u32)) :: u64) n = bit h n"
    using \<open>n < LENGTH(64)\<close> unfolding m
    by (cases "n < 16"; cases "n < 32") (auto simp: bit_simps)
qed

lemma in_range_unat: "unat a + n \<le> 2 ^ 64 \<Longrightarrow> in_range a n x \<longleftrightarrow> unat a \<le> unat x \<and> unat x < unat a + n"
proof -
  assume b: "unat a + n \<le> 2 ^ 64"
  show ?thesis
  proof (cases "a \<le> x")
    case True
    then show ?thesis by (simp add: in_range_def unat_sub word_le_nat_alt less_diff_conv2 add.commute)
  next
    case False
    then have "unat x < unat a" by (simp add: word_le_nat_alt)
    moreover have "unat (x - a) = 2 ^ 64 - (unat a - unat x)"
      using calculation unat_minus_swap [of x a] unat_sub [of x a] by (auto simp: word_le_nat_alt)
    ultimately show ?thesis using b by (simp add: in_range_def)
  qed
qed

text \<open>Cells of the three sizes at offsets from one base.\<close>

lemma offsets_apart:
  "apart (e + c) n (e + d) k \<longleftrightarrow> n \<le> unat (d - c) \<and> k \<le> unat (c - d)"
  "apart e n (e + d) k \<longleftrightarrow> n \<le> unat d \<and> k \<le> unat (- d)"
  "apart (e + c) n e k \<longleftrightarrow> n \<le> unat (- c) \<and> k \<le> unat c"
  by (simp_all add: apart_def)

lemma other_cell:
  "apart a 4 b 2 \<Longrightarrow> load16 (store32 m a v) b = load16 m b" "apart a 1 b 2 \<Longrightarrow> load16 (store8 m a w) b = load16 m b"
  "apart a 2 b 2 \<Longrightarrow> load16 (store16 m a u) b = load16 m b"
  "apart a 4 b 4 \<Longrightarrow> load32 (store32 m a v) b = load32 m b" "apart a 1 b 4 \<Longrightarrow> load32 (store8 m a w) b = load32 m b"
  "apart a 2 b 4 \<Longrightarrow> load32 (store16 m a u) b = load32 m b"
  "apart a 4 b 1 \<Longrightarrow> load8 (store32 m a v) b = load8 m b" "apart a 1 b 1 \<Longrightarrow> load8 (store8 m a w) b = load8 m b"
  "apart a 2 b 1 \<Longrightarrow> load8 (store16 m a u) b = load8 m b"
  by (intro c16.ld_bytes c32.ld_bytes c8.ld_bytes c16.st_apart c32.st_apart c8.st_apart; assumption)+

lemmas gate_cells = c16.ld_st c32.ld_st c8.ld_st other_cell offsets_apart

lemma store_outside:
  "\<not> in_range a 2 x \<Longrightarrow> store16 m a u x = m x" "\<not> in_range a 4 x \<Longrightarrow> store32 m a v x = m x"
  "\<not> in_range a 1 x \<Longrightarrow> store8 m a w x = m x"
  by (simp_all add: store16_def store32_def store8_bytes store_bytes_other)

lemma unat_m1: "unat (- 1 :: u64) = 2 ^ 64 - 1"
  by (simp add: unat_minus_swap [of 0 1, simplified])

lemma install_gate:
  fixes idx :: u32 and table :: u64
  defines "e \<equiv> table + ucast (idx mod 0xFF) * 16"
  shows "gate_at (install_IDT_entry table idx h flags m) e h flags"
    and "\<not> in_range e 16 x \<Longrightarrow> install_IDT_entry table idx h flags m x = m x"
proof -
  define m' where "m' = install_IDT_entry table idx h flags m"
  have m': "m' = store32 (store16 (store16 (store16 (store8 (store32 (store8 m (e + 4) 0) (e + 12) 0) (e + 5) (ucast flags))
      (e + 2) IDT_SELECTOR) e (ucast (h AND 0xFFFF))) (e + 6) (ucast (drop_bit 16 h AND 0xFFFF)))
      (e + 8) (ucast (drop_bit 32 h AND 0xFFFFFFFF))"
    by (simp add: m'_def install_IDT_entry_def e_def IDT_ENTRY_SIZE_def Let_def)
  have "load16 m' e = ucast (h AND 0xFFFF)" "load16 m' (e + 6) = ucast (drop_bit 16 h AND 0xFFFF)"
    "load32 m' (e + 8) = ucast (drop_bit 32 h AND 0xFFFFFFFF)" "load16 m' (e + 2) = IDT_SELECTOR"
    "load8 m' (e + 5) = ucast flags" "load8 m' (e + 4) = 0" "load32 m' (e + 12) = 0"
    unfolding m' by (simp_all add: gate_cells unat_m1)
  then show "gate_at (install_IDT_entry table idx h flags m) e h flags"
    unfolding m'_def [symmetric] by (simp only: gate_at_def gate_offset_def split_offset)
  assume x: "\<not> in_range e 16 x"
  have "\<not> in_range (e + of_nat i) k x" if "i + k \<le> 16" "0 < k" for i k
    using x that in_range_offset(1) [of i k e x] by (simp add: in_range_def)
  from this [of 4 1] this [of 12 4] this [of 5 1] this [of 2 2] this [of 0 2] this [of 6 2] this [of 8 4]
  show "install_IDT_entry table idx h flags m x = m x" unfolding m'_def [symmetric] m' by (simp add: store_outside)
qed

lemma gate_at_cong:
  assumes "\<And>x. in_range e 16 x \<Longrightarrow> m' x = m x"
  shows "gate_at m' e h flags = gate_at m e h flags"
proof -
  have m: "m' (e + of_nat i) = m (e + of_nat i)" if "i < 16" for i
    by (rule assms) (use that in_range_self [of i 16 e] in simp)
  have lb: "load_bytes m' (e + of_nat i) n = load_bytes m (e + of_nat i) n" if "i + n \<le> 16" for i n
  proof (rule nth_equalityI)
    fix j assume "j < length (load_bytes m' (e + of_nat i) n)"
    then show "load_bytes m' (e + of_nat i) n ! j = load_bytes m (e + of_nat i) n ! j"
      using that m [of "i + j"] by (simp add: add.assoc)
  qed simp
  have "load16 m' (e + of_nat i) = load16 m (e + of_nat i)" if "i + 2 \<le> 16" for i
    using lb [OF that] by (simp add: load16_def)
  note l16 = this [of 0] this [of 2] this [of 6]
  have "load32 m' (e + of_nat i) = load32 m (e + of_nat i)" if "i + 4 \<le> 16" for i
    using lb [OF that] by (simp add: load32_def)
  note l32 = this [of 8] this [of 12]
  show ?thesis using l16 l32 m [of 4] m [of 5] by (simp add: gate_at_def gate_offset_def load8_def)
qed


lemma low_gate:
  assumes "unat table + 4096 \<le> 2 ^ 64" and "k + 16 \<le> 4096"
  shows "unat (table + of_nat k) = unat table + k"
    "in_range (table + of_nat k) 16 x \<longleftrightarrow> unat table + k \<le> unat x \<and> unat x < unat table + k + 16"
proof -
  show u: "unat (table + of_nat k) = unat table + k" by (rule unat_add_small) (use assms in simp)
  show "in_range (table + of_nat k) 16 x \<longleftrightarrow> unat table + k \<le> unat x \<and> unat x < unat table + k + 16"
    using in_range_unat [of "table + of_nat k" 16 x] assms by (simp add: u)
qed

lemma interrupts_install:
  assumes "cpu_idt s = (lim, table)" and room: "unat table + 4096 \<le> 2 ^ 64"
  shows "cpu_idt (install_interrupts sy s) = cpu_idt s
    \<and> gate_at (mem (install_interrupts sy s)) (table + 0x800) (sym_int_sys sy) IDTE_SW
    \<and> gate_at (mem (install_interrupts sy s)) (table + 0xE0) (sym_int_mem sy) IDTE_SW
    \<and> gate_at (mem (install_interrupts sy s)) (table + 0x200) (sym_irq_20h sy) IDTE_SW
    \<and> gate_at (mem (install_interrupts sy s)) (table + 0x210) (sym_irq_21h sy) IDTE_SW
    \<and> (\<forall>x. 10 \<le> unat x \<and> (\<forall>k \<in> {0x800, 0xE0, 0x200, 0x210}. \<not> in_range (table + of_nat k) 16 x)
         \<longrightarrow> mem (install_interrupts sy s) x = mem s x)
    \<and> load16 (mem (install_interrupts sy s)) 0 = lim \<and> load64 (mem (install_interrupts sy s)) 2 = table"
proof -
  define m0 where "m0 = store64 (store16 (mem s) 0 lim) 2 table"
  define m1 where "m1 = install_IDT_entry table 0x80 (sym_int_sys sy) IDTE_SW m0"
  define m2 where "m2 = install_IDT_entry table 0x0E (sym_int_mem sy) IDTE_SW m1"
  define m3 where "m3 = install_IDT_entry table 0x20 (sym_irq_20h sy) IDTE_SW m2"
  define m4 where "m4 = install_IDT_entry table 0x21 (sym_irq_21h sy) IDTE_SW m3"
  have t: "mem (install_interrupts sy s) = m4" "cpu_idt (install_interrupts sy s) = (load16 m4 0, load64 m4 2)"
    by (simp_all add: install_interrupts_def sidt_def lidt_def idt_pic_master_mask_def idt_pic_slave_mask_def
        idt_pic_master_set_map_def idt_pic_slave_set_map_def outportb_def assms(1) m0_def m1_def m2_def m3_def m4_def
        cell_simps Let_def)
  note lg = low_gate [OF room]
  have g: "gate_at m1 (table + 0x800) (sym_int_sys sy) IDTE_SW" "gate_at m2 (table + 0xE0) (sym_int_mem sy) IDTE_SW"
    "gate_at m3 (table + 0x200) (sym_irq_20h sy) IDTE_SW" "gate_at m4 (table + 0x210) (sym_irq_21h sy) IDTE_SW"
    unfolding m1_def m2_def m3_def m4_def
    using install_gate(1) [of table "0x80"] install_gate(1) [of table "0x0E"] install_gate(1) [of table "0x20"]
      install_gate(1) [of table "0x21"] by simp_all
  have o: "\<not> in_range (table + 0x800) 16 x \<Longrightarrow> m1 x = m0 x" "\<not> in_range (table + 0xE0) 16 x \<Longrightarrow> m2 x = m1 x"
    "\<not> in_range (table + 0x200) 16 x \<Longrightarrow> m3 x = m2 x" "\<not> in_range (table + 0x210) 16 x \<Longrightarrow> m4 x = m3 x" for x
    unfolding m1_def m2_def m3_def m4_def
    using install_gate(2) [of table "0x80" x] install_gate(2) [of table "0x0E" x] install_gate(2) [of table "0x20" x]
      install_gate(2) [of table "0x21" x] by simp_all
  note r = lg(2) [of "0x800"] lg(2) [of "0xE0"] lg(2) [of "0x200"] lg(2) [of "0x210"]
  have same: "m4 x = m1 x" if "in_range (table + 0x800) 16 x" for x
    using that o(2-4) [of x] r [where x = x] by auto
  have 1: "gate_at m4 (table + 0x800) (sym_int_sys sy) IDTE_SW"
    using g(1) gate_at_cong [of "table + 0x800" m4 m1] same by blast
  have "m4 x = m2 x" if "in_range (table + 0xE0) 16 x" for x
    using that o(3,4) [of x] r [where x = x] by auto
  then have 2: "gate_at m4 (table + 0xE0) (sym_int_mem sy) IDTE_SW"
    using g(2) gate_at_cong [of "table + 0xE0" m4 m2] by blast
  have "m4 x = m3 x" if "in_range (table + 0x200) 16 x" for x
    using that o(4) [of x] r [where x = x] by auto
  then have 3: "gate_at m4 (table + 0x200) (sym_irq_20h sy) IDTE_SW"
    using g(3) gate_at_cong [of "table + 0x200" m4 m3] by blast
  have out: "m4 x = m0 x" if "\<forall>k \<in> {0x800, 0xE0, 0x200, 0x210}. \<not> in_range (table + of_nat k) 16 x" for x
    using that o [of x] by simp
  have low: "m4 x = m0 x" if "unat x < 10" for x by (rule out) (use that r [where x = x] in simp)
  have l: "load16 m4 0 = load16 m0 0" "load64 m4 2 = load64 m0 2"
  proof -
    have lb: "load_bytes m4 (of_nat a) n = load_bytes m0 (of_nat a) n" if "a + n \<le> 10" for a n
    proof (rule nth_equalityI)
      fix i assume "i < length (load_bytes m4 (of_nat a) n)"
      then have i: "i < n" by simp
      have "unat (of_nat (a + i) :: u64) = a + i" by (rule unat_of_nat_small) (use that i in simp)
      then have "m4 (of_nat (a + i)) = m0 (of_nat (a + i))" by (intro low) (use that i in linarith)
      then show "load_bytes m4 (of_nat a) n ! i = load_bytes m0 (of_nat a) n ! i" using i by simp
    qed simp
    from lb [of 0 2] lb [of 2 8] have "load_bytes m4 0 2 = load_bytes m0 0 2" "load_bytes m4 2 8 = load_bytes m0 2 8" by simp_all
    then show "load16 m4 0 = load16 m0 0" "load64 m4 2 = load64 m0 2" by (simp_all add: load16_def load64_def)
  qed
  have l0: "load16 m0 0 = lim" "load64 m0 2 = table"
  proof -
    have "load_bytes m0 0 2 = load_bytes (store16 (mem s) 0 lim) 0 2"
      unfolding m0_def by (rule c64.st_apart) (simp add: apart_def)
    then have "load16 m0 0 = load16 (store16 (mem s) 0 lim) 0" by (simp add: load16_def)
    then show "load16 m0 0 = lim" by (simp add: c16.ld_st)
  qed (simp add: m0_def c64.ld_st)
  have hi: "m0 x = mem s x" if "10 \<le> unat x" for x
  proof -
    have "\<not> in_range 2 8 x" "\<not> in_range 0 2 x" using that in_range_unat [of 2 8 x] in_range_unat [of 0 2 x] by simp_all
    then show ?thesis by (simp add: m0_def store_outside store64_def store_bytes_other)
  qed
  show ?thesis using 1 2 3 g(4) out hi by (simp add: t assms(1) l l0)
qed

end
