(* ===== verification/Syscalls.thy ===== *)
theory Syscalls
  imports Interrupts
begin

unbundle bit_operations_syntax

section \<open>System calls and trap entries\<close>

text \<open>
  \<open>Kernel/syscall/proc.c\<close>, the dispatcher \<open>int80h\<close>, and the entry code of
  asm/sys.asm, asm/interrupts.asm and asm/stack.mac: what is saved on the stack of the interrupted
  process, the switch of stacks, and what is restored. The system call number, which
  \<open>sys_handler\<close> takes from rax, is its first argument.
\<close>

subsection \<open>Numbers\<close>

abbreviation SYSCALL_WRITE :: u64 where "SYSCALL_WRITE \<equiv> 0"
abbreviation SYSCALL_READ :: u64 where "SYSCALL_READ \<equiv> 1"
abbreviation SYSCALL_MMAP :: u64 where "SYSCALL_MMAP \<equiv> 9"
abbreviation SYSCALL_MUNMAP :: u64 where "SYSCALL_MUNMAP \<equiv> 11"
abbreviation SYSCALL_IOCTL :: u64 where "SYSCALL_IOCTL \<equiv> 16"
abbreviation SYSCALL_OPIPE :: u64 where "SYSCALL_OPIPE \<equiv> 22"
abbreviation SYSCALL_CPIPE :: u64 where "SYSCALL_CPIPE \<equiv> 23"
abbreviation SYSCALL_WPIPE :: u64 where "SYSCALL_WPIPE \<equiv> 24"
abbreviation SYSCALL_RPIPE :: u64 where "SYSCALL_RPIPE \<equiv> 25"
abbreviation SYSCALL_GPIPES :: u64 where "SYSCALL_GPIPES \<equiv> 26"
abbreviation SYSCALL_PAUSE :: u64 where "SYSCALL_PAUSE \<equiv> 34"
abbreviation SYSCALL_GETPID :: u64 where "SYSCALL_GETPID \<equiv> 39"
abbreviation SYSCALL_BEEP :: u64 where "SYSCALL_BEEP \<equiv> 42"
abbreviation SYSCALL_HALT :: u64 where "SYSCALL_HALT \<equiv> 48"
abbreviation SYSCALL_EXIT :: u64 where "SYSCALL_EXIT \<equiv> 60"
abbreviation SYSCALL_KILL :: u64 where "SYSCALL_KILL \<equiv> 62"
abbreviation SYSCALL_SETTIME :: u64 where "SYSCALL_SETTIME \<equiv> 227"
abbreviation SYSCALL_GETTIME :: u64 where "SYSCALL_GETTIME \<equiv> 228"
abbreviation SIGKILL :: u32 where "SIGKILL \<equiv> 9"

subsection \<open>Kernel/syscall/proc.c\<close>

definition syscall_pause :: "'a int_state_scheme \<Rightarrow> 'a int_state_scheme" where
  "syscall_pause s = s"

definition syscall_exit :: "u32 \<Rightarrow> 'a int_state_scheme \<Rightarrow> (u32 \<times> 'a int_state_scheme) option" where
  "syscall_exit code s = do {
     pid \<leftarrow> sched_getpid s;
     s \<leftarrow> kprintf (''Killing current process %d with code %d'' @ [CHR 0x0A]) [Arg_num pid, Arg_num (ucast code)] s;
     pid \<leftarrow> sched_getpid s;
     (r, s) \<leftarrow> sched_terminate_process pid (ucast code) s;
     Some (ucast r, s)
   }"

definition syscall_getpid :: "'a int_state_scheme \<Rightarrow> (u32 \<times> 'a int_state_scheme) option" where
  "syscall_getpid s = do { pid \<leftarrow> sched_getpid s; Some (ucast pid, s) }"

definition syscall_fork :: "u64 \<Rightarrow> u32" where
  "syscall_fork pid = - 1"

definition syscall_kill :: "u64 \<Rightarrow> u32 \<Rightarrow> 'a int_state_scheme \<Rightarrow> (u32 \<times> 'a int_state_scheme) option" where
  "syscall_kill pid sig s = do {
     s \<leftarrow> kprintf (''Received kill signal'' @ [CHR 0x0A]) [] s;
     if sig = SIGKILL then do {
       s \<leftarrow> kprintf (''Killing process %d'' @ [CHR 0x0A]) [Arg_num pid] s;
       (r, s) \<leftarrow> sched_terminate_process pid 0 s;
       Some (ucast r, s)
     }
     else Some (- 1, s)
   }"

subsection \<open>Dispatch\<close>

text \<open>A call with an \<open>int\<close> result, whose sign is extended, and a call without a result.\<close>

definition with_exitno :: "(u32 \<times> 'b) option \<Rightarrow> 'b outcome option" where
  "with_exitno r = map_option (\<lambda>(e, s). Runs (scast e) s) r"

definition without_exitno :: "'b option \<Rightarrow> 'b outcome option" where
  "without_exitno r = map_option (Runs 0) r"

definition int80h ::
  "u64 \<Rightarrow> u64 \<Rightarrow> u64 \<Rightarrow> u64 \<Rightarrow> u64 \<Rightarrow> u64 \<Rightarrow> u64 \<Rightarrow> 'a int_state_scheme
   \<Rightarrow> 'a int_state_scheme outcome option"
where
  "int80h sysno RDI RSI RDX RCX R8 R9 s =
     (if sysno = SYSCALL_WRITE then with_exitno (syscall_write (ucast RDI) RSI (ucast RDX) s)
      else if sysno = SYSCALL_READ then with_exitno (syscall_read (ucast RDI) RSI (ucast RDX) s)
      else if sysno = SYSCALL_IOCTL then with_exitno (syscall_ioctl (ucast RDI) RSI RDX s)
      else if sysno = SYSCALL_PAUSE then Some (Runs 0 (syscall_pause s))
      else if sysno = SYSCALL_HALT then map_option Halts (syscall_halt s)
      else if sysno = SYSCALL_GETPID then with_exitno (syscall_getpid s)
      else if sysno = SYSCALL_BEEP then without_exitno (beep s)
      else if sysno = SYSCALL_EXIT then with_exitno (syscall_exit (ucast (ucast RDI :: u8)) s)
      else if sysno = SYSCALL_KILL then with_exitno (syscall_kill RDI (ucast RSI) s)
      else if sysno = SYSCALL_GETTIME then without_exitno (syscall_get_time RDI s)
      else if sysno = SYSCALL_SETTIME then without_exitno (syscall_set_time RDI s)
      else if sysno = SYSCALL_MMAP then map_option (\<lambda>(r, s). Runs r s) (syscall_mmap RDI RSI s)
      else if sysno = SYSCALL_MUNMAP then without_exitno (syscall_munmap RDI RSI s)
      else if sysno = SYSCALL_OPIPE then with_exitno (syscall_opipe (ucast RDI) s)
      else if sysno = SYSCALL_CPIPE then without_exitno (syscall_cpipe (ucast RDI) s)
      else if sysno = SYSCALL_WPIPE then with_exitno (syscall_wpipe (ucast RDI) RSI (ucast RDX) s)
      else if sysno = SYSCALL_RPIPE then with_exitno (syscall_rpipe (ucast RDI) RSI (ucast RDX) s)
      else if sysno = SYSCALL_GPIPES then Some (Runs 0 (syscall_get_pipes RDI s))
      else Some (Runs (- 1) s))"

definition sys_handler ::
  "u64 \<Rightarrow> u64 \<Rightarrow> u64 \<Rightarrow> u64 \<Rightarrow> u64 \<Rightarrow> u64 \<Rightarrow> u64 \<Rightarrow> 'a int_state_scheme
   \<Rightarrow> 'a int_state_scheme outcome option"
where
  "sys_handler sysno RDI RSI RDX RCX R8 R9 s =
     (if \<not> syscall_set s then Some (Runs 0 s) else int80h sysno RDI RSI RDX RCX R8 R9 s)"

subsection \<open>Trap frames\<close>

text \<open>
  asm/stack.mac: the registers in the order of \<open>PUSHA\<close> (rax, rbx, rcx, rdx, rbp, rdi, rsi, r8 to r15,
  fs, gs), below the frame that the processor pushes. \<open>POPA\<close> gives them back with the stack pointer.
\<close>

definition PUSHA :: "u64 list \<Rightarrow> u64 \<times> mem \<Rightarrow> u64 \<times> mem" where
  "PUSHA regs c = push_all regs c"

primrec pop_all :: "nat \<Rightarrow> u64 \<Rightarrow> mem \<Rightarrow> u64 list" where
  "pop_all 0 rsp m = []"
| "pop_all (Suc n) rsp m = load64 m rsp # pop_all n (rsp + 8) m"

definition POPA :: "u64 \<Rightarrow> mem \<Rightarrow> u64 list \<times> u64" where
  "POPA rsp m = (rev (pop_all 17 rsp m), rsp + 8 * 17)"

text \<open>
  \<open>HANDLE_IRQ\<close> between \<open>PUSHA\<close> and \<open>POPA\<close>: the registers and the stack pointer (below the
  processor's frame) the interrupt finds, and those it returns to. \<open>EOIM\<close> and \<open>EOIS\<close> write to the
  controllers. What calls push on the kernel stack is not modelled.
\<close>

definition EOIM :: "'a machine_scheme \<Rightarrow> 'a machine_scheme" where
  "EOIM s = outportb 0x20 0x20 s"

definition EOIS :: "'a machine_scheme \<Rightarrow> 'a machine_scheme" where
  "EOIS s = outportb 0xA0 0xA0 (EOIM s)"

definition irq_entry ::
  "u32 \<Rightarrow> ('a int_state_scheme \<Rightarrow> 'a int_state_scheme) \<Rightarrow> u64 list \<Rightarrow> u64 \<Rightarrow> 'a int_state_scheme
   \<Rightarrow> (u64 list \<times> u64 \<times> 'a int_state_scheme) option"
where
  "irq_entry irq eoi regs rsp s = do {
     let (rsp, m) = PUSHA regs (rsp, mem s);
     (kernel_stack, s) \<leftarrow> sched_switch_to_kernel_stack rsp (s\<lparr>mem := m\<rparr>);
     s \<leftarrow> irq_handler irq s;
     (rsp, s) \<leftarrow> sched_switch_to_user_stack kernel_stack s;
     let s = eoi s;
     let (regs, rsp) = POPA rsp (mem s);
     Some (regs, rsp, s)
   }"

definition irq_master_handler ::
  "u32 \<Rightarrow> u64 list \<Rightarrow> u64 \<Rightarrow> 'a int_state_scheme \<Rightarrow> (u64 list \<times> u64 \<times> 'a int_state_scheme) option"
where
  "irq_master_handler irq = irq_entry irq EOIM"

definition irq_slave_handler ::
  "u32 \<Rightarrow> u64 list \<Rightarrow> u64 \<Rightarrow> 'a int_state_scheme \<Rightarrow> (u64 list \<times> u64 \<times> 'a int_state_scheme) option"
where
  "irq_slave_handler irq = irq_entry irq EOIS"

text \<open>
  \<open>_int_sys_handler\<close>: the registers as a list of 17, number 0 is rax. \<open>PUSH_PARAMS\<close> writes below the
  saved registers.
\<close>

definition int_sys_handler ::
  "u64 list \<Rightarrow> u64 \<Rightarrow> 'a int_state_scheme \<Rightarrow> (u64 list \<times> u64 \<times> 'a int_state_scheme) outcome option"
where
  "int_sys_handler regs rsp s = do {
     let (r15, m) = PUSHA regs (rsp, mem s);
     let (rax, rcx, rdx) = (regs ! 0, regs ! 2, regs ! 3);
     let (rdi, rsi, r8, r9) = (regs ! 5, regs ! 6, regs ! 7, regs ! 8);
     let (_, m) = push_all [r15, rsi, rdx, rcx, r8, r9] (r15, m);
     (kernel_stack, s) \<leftarrow> sched_switch_to_kernel_stack r15 (s\<lparr>mem := m\<rparr>);
     r \<leftarrow> sys_handler rax rdi rsi rdx rcx r8 r9 s;
     case r of
       Halts s \<Rightarrow> Some (Halts ([], 0, s))
     | Runs v s \<Rightarrow> do {
         let s = sched_step_syscall_rax r15 v s;
         (rsp, s) \<leftarrow> sched_switch_to_user_stack kernel_stack s;
         let (regs, rsp) = POPA rsp (mem s);
         Some (Runs v (regs, rsp, s))
       }
   }"

text \<open>\<open>_int_mem_handler\<close>: the error code and the address in cr2 are arguments; the handler does not return.\<close>

definition int_mem_handler ::
  "u64 \<Rightarrow> u64 list \<Rightarrow> u64 \<Rightarrow> 'a int_state_scheme \<Rightarrow> 'a int_state_scheme outcome option"
where
  "int_mem_handler cr2 regs rsp s = do {
     let (rsp, m) = PUSHA regs (rsp, mem s);
     s \<leftarrow> show_stack (load64 m (rsp + 8 * 18)) (s\<lparr>mem := m\<rparr>);
     mem_handler (load64 (mem s) (rsp + 8 * 17)) cr2 s
   }"

text \<open>asm/scheduling.asm: the first switch to a process. The processor's frame is not used: the address
  that lies where it begins is popped and jumped to.\<close>

definition sched_drop_to_user :: "'a int_state_scheme \<Rightarrow> (u64 list \<times> u64 \<times> u64) option" where
  "sched_drop_to_user s = do {
     rsp \<leftarrow> sched_get_process s;
     let (regs, rsp) = POPA rsp (mem s);
     let rip = load64 (mem s) rsp;
     Some (rip # tl regs, rsp + 8, rip)
   }"

end
