(* ===== verification/Traps.thy ===== *)
theory Traps
  imports Syscalls
begin

unbundle bit_operations_syntax

section \<open>What a trap does\<close>

text \<open>
  The registers saved by an interrupt are those restored; a timer interrupt runs the next process of the
  ring; a system call leaves its result in the saved rax. \<open>same_sched\<close> relates states with the same
  process table, \<open>timer_run\<close> is a sequence of timer interrupts with the memory writes of the processes
  between them.
\<close>

subsection \<open>What the stack switches leave alone\<close>

text \<open>Two states with the same process table.\<close>

definition same_sched :: "'a sched_state_scheme \<Rightarrow> 'b sched_state_scheme \<Rightarrow> bool" where
  "same_sched s t \<longleftrightarrow> idle_process t = idle_process s \<and> active t = active s \<and> processes t = processes s
     \<and> max_pid t = max_pid s \<and> proc_idx t = proc_idx s"

lemma same_sched_at: "same_sched s t \<Longrightarrow> proc_at q t = proc_at q s"
  by (simp add: same_sched_def proc_at_def split: process_ptr.split)

lemma same_sched_views:
  assumes "same_sched s t"
  shows "stack_of t q = stack_of s q" "pid_of t q = pid_of s q" "sched_ok t zs = sched_ok s zs"
    "settled t zs = settled s zs" "sched_getpid t = sched_getpid s"
proof -
  note at = same_sched_at [OF assms]
  show "stack_of t q = stack_of s q" and pid: "pid_of t q = pid_of s q" for q by (simp_all add: stack_of_def pid_of_def at)
  show set: "settled t zs = settled s zs"
    using assms by (simp add: settled_def cycle_def in_table_def next_of_def at same_sched_def)
  show "sched_ok t zs = sched_ok s zs" using assms by (simp add: sched_ok_def set pid same_sched_def)
  show "sched_getpid t = sched_getpid s" using assms by (auto simp: sched_getpid_def at same_sched_def split: option.split)
qed

lemma proc_set_rest:
  "proc_set p f s = Some t \<Longrightarrow> \<exists>q ps. t = s\<lparr>idle_process := q, processes := ps\<rparr>"
proof (cases p)
  case Idle
  assume "proc_set p f s = Some t"
  then have "t = s\<lparr>idle_process := f (idle_process s), processes := processes s\<rparr>" by (cases s) (auto simp: proc_set_def Idle)
  then show ?thesis by blast
next
  case (Process i)
  assume "proc_set p f s = Some t"
  then obtain ps where "t = s\<lparr>idle_process := idle_process s, processes := ps\<rparr>"
    by (auto simp: proc_set_def Process split: Option.bind_splits)
  then show ?thesis by blast
qed

lemma kernel_switch_rest:
  assumes "sched_switch_to_kernel_stack st s = Some (k, t)"
  shows "\<exists>q ps. t = s\<lparr>idle_process := q, processes := ps\<rparr>"
proof -
  define a where "a = (case active s of None \<Rightarrow> Idle | Some a \<Rightarrow> a)"
  have "Option.bind (proc_set a (\<lambda>p. p\<lparr>p_stack := st\<rparr>) s) (\<lambda>s. Option.bind (proc_at a s) (\<lambda>p. Some (p_kernel_stack p, s)))
      = Some (k, t)"
    using assms by (simp only: sched_switch_to_kernel_stack_def a_def Let_def)
  then have "proc_set a (\<lambda>p. p\<lparr>p_stack := st\<rparr>) s = Some t" by (auto simp: bind_eq_Some_conv)
  then show ?thesis by (rule proc_set_rest)
qed

lemma user_switch_rest:
  assumes "sched_switch_to_user_stack st s = Some (u, t)"
  shows "\<exists>q a ps. t = s\<lparr>idle_process := q, active := a, processes := ps\<rparr>"
proof -
  obtain b v a where v: "proc_set b (\<lambda>p. p\<lparr>p_kernel_stack := st\<rparr>) s = Some v" "t = v\<lparr>active := a\<rparr>"
  proof (cases "active s")
    case None
    then have "proc_set Idle (\<lambda>p. p\<lparr>p_kernel_stack := st\<rparr>) s = Some t"
      using assms by (simp add: sched_switch_to_user_stack_def bind_eq_Some_conv)
    moreover have "t = t\<lparr>active := active t\<rparr>" by (cases t) simp
    ultimately show ?thesis using that by blast
  next
    case (Some b)
    have "Option.bind (proc_set b (\<lambda>p. p\<lparr>p_kernel_stack := st\<rparr>) s) (\<lambda>v. Option.bind (proc_at b v) (\<lambda>p.
        Option.bind (p_next p) (\<lambda>a. Option.bind (proc_at a (v\<lparr>active := p_next p\<rparr>)) (\<lambda>p'. Some (p_stack p', v\<lparr>active := p_next p\<rparr>)))))
      = Some (u, t)"
      using assms by (simp add: sched_switch_to_user_stack_def Some Let_def)
    then show ?thesis using that by (fastforce simp: bind_eq_Some_conv)
  qed
  obtain q ps where q: "v = s\<lparr>idle_process := q, processes := ps\<rparr>" using proc_set_rest [OF v(1)] by blast
  show ?thesis by (intro exI [of _ q] exI [of _ a] exI [of _ ps]) (simp add: v(2) q)
qed

subsection \<open>The saved registers\<close>

lemma pop_all_snoc: "pop_all (Suc n) a m = pop_all n a m @ [load64 m (a + of_nat (8 * n))]"
proof (induction n arbitrary: a)
  case (Suc n)
  have "pop_all (Suc (Suc n)) a m = load64 m a # pop_all (Suc n) (a + 8) m" by simp
  also have "\<dots> = load64 m a # pop_all n (a + 8) m @ [load64 m (a + 8 + of_nat (8 * n))]" by (simp only: Suc)
  also have "a + 8 + of_nat (8 * n) = a + of_nat (8 * Suc n)" by simp
  finally show ?case by simp
qed simp

lemma push_all_frame:
  assumes "8 * length vs < 2 ^ 64"
  shows "\<exists>M. push_all vs (rsp, m) = (rsp - of_nat (8 * length vs), M)
    \<and> pop_all (length vs) (rsp - of_nat (8 * length vs)) M = rev vs
    \<and> (\<forall>x. \<not> in_range (rsp - of_nat (8 * length vs)) (8 * length vs) x \<longrightarrow> M x = m x)"
  using assms
proof (induction vs arbitrary: rsp m)
  case (Cons v vs)
  let ?n = "length vs"
  define b where "b = rsp - of_nat (8 * length (v # vs))"
  have n: "8 * ?n + 8 < 2 ^ 64" using Cons.prems by simp
  have b: "rsp - 8 - of_nat (8 * ?n) = b" and b8: "rsp - 8 = b + of_nat (8 * ?n)"
    by (simp_all add: b_def algebra_simps)
  obtain M where M: "push_all vs (rsp - 8, store64 m (rsp - 8) v) = (b, M)" "pop_all ?n b M = rev vs"
    "\<forall>x. \<not> in_range b (8 * ?n) x \<longrightarrow> M x = store64 m (rsp - 8) v x"
    using Cons.IH [of "rsp - 8" "store64 m (rsp - 8) v", unfolded b] n by auto
  have "\<not> in_range b (8 * ?n) (rsp - 8 + of_nat j)" if "j < 8" for j
  proof -
    have "rsp - 8 + of_nat j - b = of_nat (8 * ?n + j)" by (simp add: b8)
    moreover have "unat (of_nat (8 * ?n + j) :: u64) = 8 * ?n + j" by (rule unat_of_nat_small) (use n that in simp)
    ultimately have "unat (rsp - 8 + of_nat j - b) = 8 * ?n + j" by (simp only:)
    then show ?thesis unfolding in_range_def by linarith
  qed
  then have "load64 M (rsp - 8) = load64 (store64 m (rsp - 8) v) (rsp - 8)" by (intro load64_cong) (use M(3) in blast)
  then have top: "load64 M (b + of_nat (8 * ?n)) = v" by (simp only: b8 [symmetric] cell_simps)
  have "M x = m x" if x: "\<not> in_range b (8 * length (v # vs)) x" for x
  proof -
    have "\<not> in_range b (8 * ?n) x" using x by (simp add: in_range_def)
    moreover have "\<not> in_range (rsp - 8) 8 x"
    proof
      assume r: "in_range (rsp - 8) 8 x"
      have "unat (x - (rsp - 8)) < 8" using r by (simp add: in_range_def)
      moreover have "x - b = (x - (rsp - 8)) + of_nat (8 * ?n)" unfolding b8 by (simp add: algebra_simps)
      moreover have "unat ((x - (rsp - 8)) + of_nat (8 * ?n)) = unat (x - (rsp - 8)) + 8 * ?n"
        by (rule unat_add_small) (use n calculation(1) in linarith)
      ultimately have "unat (x - b) < 8 + 8 * ?n" by (simp only:)
      then show False using x by (simp add: in_range_def)
    qed
    ultimately show ?thesis using M(3) store_bytes_other [of "rsp - 8" "le_bytes 8 v" x m] by (simp add: store64_def)
  qed
  moreover have "pop_all (length (v # vs)) b M = rev (v # vs)"
    using pop_all_snoc [of ?n b M, unfolded M(2) top] by (simp only: length_Cons rev.simps)
  moreover have "push_all (v # vs) (rsp, m) = (b, M)" using M(1) by simp
  ultimately show ?case unfolding b_def [symmetric] by blast
qed simp

lemma PUSHA_frame:
  assumes "length regs = 17"
  shows "\<exists>M. PUSHA regs (rsp, m) = (rsp - 136, M) \<and> POPA (rsp - 136) M = (regs, rsp)
    \<and> (\<forall>x. \<not> in_range (rsp - 136) 136 x \<longrightarrow> M x = m x)"
  using push_all_frame [of regs rsp m] assms by (auto simp: PUSHA_def POPA_def)

lemma pop_all_cong:
  assumes "\<And>x. in_range a (8 * n) x \<Longrightarrow> M x = m x" and "8 * n < 2 ^ 64"
  shows "pop_all n a M = pop_all n a m"
  using assms
proof (induction n)
  case (Suc n)
  have "pop_all n a M = pop_all n a m"
    by (rule Suc.IH) (use Suc.prems in \<open>auto simp: in_range_def\<close>)
  moreover have "load64 M (a + of_nat (8 * n)) = load64 m (a + of_nat (8 * n))"
  proof (rule load64_cong)
    fix j :: nat assume "j < 8"
    then have "in_range a (8 * Suc n) (a + of_nat (8 * n + j))" using Suc.prems(2) by (intro in_range_self) simp_all
    then show "M (a + of_nat (8 * n) + of_nat j) = m (a + of_nat (8 * n) + of_nat j)"
      using Suc.prems(1) by (simp add: add.assoc)
  qed
  ultimately show ?case by (simp only: pop_all_snoc)
qed simp

lemma POPA_cong: "(\<And>x. in_range a 136 x \<Longrightarrow> M x = m x) \<Longrightarrow> POPA a M = POPA a m"
  using pop_all_cong [of a 17 M m] by (simp add: POPA_def)

subsection \<open>The timer interrupt\<close>

definition tick_room :: "'a int_state_scheme \<Rightarrow> nat" where
  "tick_room s = unat (snd_timeout s) + length (inq s 0x61)"

lemma tick_sound_rest:
  assumes "0 < tick_room s"
  shows "\<exists>t n i ou. tick_sound s = Some t \<and> t = s\<lparr>inq := i, outs := ou, snd_timeout := n\<rparr> \<and> tick_room t = tick_room s - 1"
proof (cases "snd_timeout s > 0")
  case True
  then have "unat (snd_timeout s - 1) = unat (snd_timeout s) - 1" "unat (snd_timeout s) > 0"
    by (simp_all add: unat_minus_one word_neq_0_conv word_less_nat_alt)
  then show ?thesis using True
    by (intro exI [of _ "s\<lparr>inq := inq s, outs := outs s, snd_timeout := snd_timeout s - 1\<rparr>"]
        exI [of _ "snd_timeout s - 1"] exI [of _ "inq s"] exI [of _ "outs s"])
      (cases s; simp add: tick_sound_def tick_room_def)
next
  case False
  then have z: "snd_timeout s = 0" using word_neq_0_conv by blast
  then obtain v vs where "inq s 0x61 = v # vs" using assms by (cases "inq s 0x61") (auto simp: tick_room_def)
  then show ?thesis using z
    by (intro exI [of _ "s\<lparr>inq := (inq s)(0x61 := vs), outs := outs s @ [(0x61, ucast (ucast v AND 0xFC :: u32))], snd_timeout := 0\<rparr>"]
        exI [of _ 0] exI [of _ "(inq s)(0x61 := vs)"] exI [of _ "outs s @ [(0x61, ucast (ucast v AND 0xFC :: u32))]"])
      (cases s; simp add: tick_sound_def nosound_def inportb_def outportb_def tick_room_def)
qed

text \<open>The handler of the timer is installed.\<close>

definition timer_on :: "'a int_state_scheme \<Rightarrow> bool" where
  "timer_on s \<longleftrightarrow> length (handlers s) = INT_TABLE_SIZE \<and> handlers s ! 0 = Some Pit_irq"

lemma timer_mem [simp]: "tick_room (s\<lparr>mem := m\<rparr>) = tick_room s" "timer_on (s\<lparr>mem := m\<rparr>) = timer_on s"
  by (simp_all add: tick_room_def timer_on_def)

lemma irq_timer: "timer_on s \<Longrightarrow> irq_handler 0x20 s = tick_sound s"
  by (simp add: irq_handler_def irq_get_hw_index_def timer_on_def obj_get_def call_handler_def pit_irq_def)

lemma irq_tick:
  assumes ok: "sched_ok s zs" and tm: "timer_on s" "0 < tick_room s" and len: "length regs = 17"
  shows "\<exists>regs' rsp' t u. irq_master_handler 0x20 regs rsp s = Some (regs', rsp', t)
    \<and> sched_ok t (rotate1 zs) \<and> timer_on t \<and> tick_room t = tick_room s - 1
    \<and> (\<forall>r. stack_of t r = (if r = running zs then Some (rsp - 136) else stack_of s r))
    \<and> stack_of t (running (rotate1 zs)) = Some u \<and> POPA u (mem t) = (regs', rsp')
    \<and> POPA (rsp - 136) (mem t) = (regs, rsp) \<and> (\<forall>x. \<not> in_range (rsp - 136) 136 x \<longrightarrow> mem t x = mem s x)"
proof -
  obtain M where M: "PUSHA regs (rsp, mem s) = (rsp - 136, M)" "POPA (rsp - 136) M = (regs, rsp)"
    "\<forall>x. \<not> in_range (rsp - 136) 136 x \<longrightarrow> M x = mem s x" using PUSHA_frame [OF len] by blast
  let ?s = "s\<lparr>mem := M\<rparr>"
  have "same_sched s ?s" by (simp add: same_sched_def)
  note v0 = same_sched_views [OF this]
  have ok0: "sched_ok ?s zs" using ok by (simp add: v0)
  obtain k s1 where 1: "sched_switch_to_kernel_stack (rsp - 136) ?s = Some (k, s1)" "settled s1 zs" "same_pids ?s s1"
    "\<forall>r. stack_of s1 r = (if r = running zs then Some (rsp - 136) else stack_of ?s r)"
    using kernel_side [OF sched_ok_settled [OF ok0]] by blast
  obtain q ps where s1: "s1 = ?s\<lparr>idle_process := q, processes := ps\<rparr>" using kernel_switch_rest [OF 1(1)] by blast
  have "timer_on s1" "0 < tick_room s1" "tick_room s1 = tick_room s" using tm by (simp_all add: s1 timer_on_def tick_room_def)
  then obtain s2 n i ou where 2: "irq_handler 0x20 s1 = Some s2" "s2 = s1\<lparr>inq := i, outs := ou, snd_timeout := n\<rparr>"
    "tick_room s2 = tick_room s - 1" using tick_sound_rest [of s1] irq_timer [of s1] by auto
  have "same_sched s1 s2" by (simp add: same_sched_def 2(2))
  note v2 = same_sched_views [OF this]
  have "settled s2 zs" using 1(2) by (simp add: v2)
  from user_side [OF this, of k] obtain u s3 where 3: "sched_switch_to_user_stack k s2 = Some (u, s3)"
    "settled s3 (rotate1 zs)" "same_pids s2 s3" "\<forall>r. stack_of s3 r = stack_of s2 r"
    "stack_of s2 (running (rotate1 zs)) = Some u" by blast
  obtain q' a' ps' where s3: "s3 = s2\<lparr>idle_process := q', active := a', processes := ps'\<rparr>" using user_switch_rest [OF 3(1)] by blast
  let ?t = "EOIM s3"
  have "same_sched s3 ?t" by (simp add: same_sched_def EOIM_def outportb_def)
  note v4 = same_sched_views [OF this]
  have "same_pids s1 s2" using v2(2) by (simp add: same_pids_def 2(2))
  then have "same_pids ?s s3" using 1(3) 3(3) same_pids_trans by blast
  then have okt: "sched_ok ?t (rotate1 zs)" using sched_ok_step [OF ok0 3(2)] by (simp add: v4)
  have m: "mem ?t = M" by (simp add: EOIM_def s3 2(2) s1)
  obtain regs' rsp' where p: "POPA u M = (regs', rsp')" by (cases "POPA u M")
  have "irq_master_handler 0x20 regs rsp s = Some (regs', rsp', ?t)"
    by (simp add: irq_master_handler_def irq_entry_def M(1) 1(1) 2(1) 3(1) m p)
  moreover have "timer_on ?t" "tick_room ?t = tick_room s - 1"
    using tm 2(3) by (simp_all add: timer_on_def tick_room_def EOIM_def outportb_def s3) (simp_all add: 2(2) s1)
  moreover have "stack_of ?t r = (if r = running zs then Some (rsp - 136) else stack_of s r)" for r
    using 1(4) 3(4) by (simp add: v4 v2 v0)
  moreover have "stack_of ?t (running (rotate1 zs)) = Some u" using 3(4,5) by (simp add: v4)
  ultimately show ?thesis using okt p M(2,3) unfolding m [symmetric] by blast
qed

text \<open>
  Several interrupts: before each one the process that runs writes to memory and leaves its registers
  and its stack pointer. The result is what each interrupt returns to.
\<close>

primrec timer_run ::
  "((mem \<Rightarrow> mem) \<times> u64 list \<times> u64) list \<Rightarrow> 'a int_state_scheme \<Rightarrow> ((u64 list \<times> u64) list \<times> 'a int_state_scheme) option"
where
  "timer_run [] s = Some ([], s)"
| "timer_run (c # cs) s = do {
     let (user, regs, rsp) = c;
     (regs, rsp, s) \<leftarrow> irq_master_handler 0x20 regs rsp (s\<lparr>mem := user (mem s)\<rparr>);
     (rs, s) \<leftarrow> timer_run cs s;
     Some ((regs, rsp) # rs, s)
   }"

text \<open>A process that runs leaves the frame at \<open>a\<close> alone, and so does what its interrupt pushes.\<close>

definition frame_kept :: "u64 \<Rightarrow> (mem \<Rightarrow> mem) \<times> u64 list \<times> u64 \<Rightarrow> bool" where
  "frame_kept a c = (case c of (user, regs, rsp) \<Rightarrow> length regs = 17 \<and> apart a 136 (rsp - 136) 136
     \<and> (\<forall>m x. in_range a 136 x \<longrightarrow> user m x = m x))"

lemma apart_range: "apart a n b k \<Longrightarrow> in_range a n x \<Longrightarrow> \<not> in_range b k x"
proof
  assume ap: "apart a n b k" and r: "in_range a n x" "in_range b k x"
  have "unat (x - b) < k" "k \<le> unat (a - b)" using r(2) ap by (simp_all add: in_range_def apart_def)
  moreover have "\<not> in_range a n (b + of_nat (unat (x - b)))"
    by (rule apart_not_in_range [OF ap]) (use r(2) in \<open>simp add: in_range_def\<close>)
  ultimately show False using r(1) by simp
qed

lemma timer_run_keeps:
  assumes "sched_ok s (xs @ q # ys)" and "length cs = length xs" and "timer_on s" and "length cs \<le> tick_room s"
    and "stack_of s q = Some a" and "POPA a (mem s) = (regs, rsp)" and "\<forall>c \<in> set cs. frame_kept a c"
  shows "\<exists>rs t. timer_run cs s = Some (rs, t) \<and> sched_ok t (q # ys @ xs) \<and> (cs \<noteq> [] \<longrightarrow> last rs = (regs, rsp))"
  using assms
proof (induction cs arbitrary: s xs ys)
  case (Cons c cs)
  obtain x xs' where xs: "xs = x # xs'" using Cons.prems(2) by (cases xs) auto
  obtain user gs sp where c: "c = (user, gs, sp)" by (cases c)
  have k: "length gs = 17" "apart a 136 (sp - 136) 136" "\<And>m z. in_range a 136 z \<Longrightarrow> user m z = m z"
    using Cons.prems(7) by (simp_all add: frame_kept_def c)
  let ?s = "s\<lparr>mem := user (mem s)\<rparr>"
  have "same_sched s ?s" by (simp add: same_sched_def)
  note v = same_sched_views [OF this]
  have d: "distinct (xs @ q # ys)" using Cons.prems(1) by (simp add: sched_ok_def settled_def cycle_def)
  have "sched_ok ?s (xs @ q # ys)" "timer_on ?s" "0 < tick_room ?s"
    using Cons.prems(1,3,4) by (simp_all add: v)
  from irq_tick [OF this k(1), of sp] obtain gs' sp' t u where
    t: "irq_master_handler 0x20 gs sp ?s = Some (gs', sp', t)" "sched_ok t (rotate1 (xs @ q # ys))" "timer_on t"
      "tick_room t = tick_room ?s - 1"
      "\<forall>r. stack_of t r = (if r = running (xs @ q # ys) then Some (sp - 136) else stack_of ?s r)"
      "stack_of t (running (rotate1 (xs @ q # ys))) = Some u" "POPA u (mem t) = (gs', sp')"
      "\<forall>z. \<not> in_range (sp - 136) 136 z \<longrightarrow> mem t z = mem ?s z" by blast
  have room: "tick_room t = tick_room s - 1" using t(4) by simp
  have ok: "sched_ok t (xs' @ q # (ys @ [x]))" using t(2) by (simp add: xs)
  have len: "length cs = length xs'" and le: "length cs \<le> tick_room t" using Cons.prems(2,4) room by (simp_all add: xs)
  have st: "stack_of t q = Some a" using t(5) d Cons.prems(5) by (auto simp: xs running_def v)
  have "POPA a (mem t) = POPA a (mem s)"
    by (rule POPA_cong) (use t(8) apart_range [OF k(2)] k(3) in simp)
  then have po: "POPA a (mem t) = (regs, rsp)" using Cons.prems(6) by simp
  obtain rs w where r: "timer_run cs t = Some (rs, w)" "sched_ok w (q # (ys @ [x]) @ xs')" "cs \<noteq> [] \<longrightarrow> last rs = (regs, rsp)"
    using Cons.IH [OF ok len t(3) le st po] Cons.prems(7) by auto
  have "last ((gs', sp') # rs) = (regs, rsp)"
  proof (cases "cs = []")
    case True
    then have "rs = []" "xs' = []" using r(1) Cons.prems(2) xs by auto
    then show ?thesis using t(6,7) st po by (simp add: xs running_def)
  next
    case False
    then obtain c' cs' where "cs = c' # cs'" by (cases cs) auto
    then have "rs \<noteq> []" using r(1) by (auto simp: Let_def split: Option.bind_splits prod.splits)
    then show ?thesis using r(3) False by simp
  qed
  then show ?case using t(1) r(1,2) by (simp add: c xs)
qed simp

lemma timer_run_resumes:
  assumes "sched_ok s (z # zs)" and "length cs = length zs" and "timer_on s" and "length cs < tick_room s"
    and "length regs = 17" and "\<forall>c \<in> set cs. frame_kept (rsp - 136) c"
  shows "\<exists>rs t. timer_run ((user, regs, rsp) # cs) s = Some (rs, t) \<and> active t = Some z \<and> last rs = (regs, rsp)"
proof -
  let ?s = "s\<lparr>mem := user (mem s)\<rparr>"
  have "same_sched s ?s" by (simp add: same_sched_def)
  note v = same_sched_views [OF this]
  have "sched_ok ?s (z # zs)" "timer_on ?s" "0 < tick_room ?s" using assms(1,3,4) by (simp_all add: v)
  from irq_tick [OF this assms(5), of rsp] obtain gs sp t u where
    t: "irq_master_handler 0x20 regs rsp ?s = Some (gs, sp, t)" "sched_ok t (zs @ [z])" "timer_on t"
      "tick_room t = tick_room ?s - 1" "stack_of t z = Some (rsp - 136)" "stack_of t (running (zs @ [z])) = Some u"
      "POPA u (mem t) = (gs, sp)" "POPA (rsp - 136) (mem t) = (regs, rsp)"
    by (auto simp: running_def)
  have room: "tick_room t = tick_room s - 1" using t(4) by simp
  then have le: "length cs \<le> tick_room t" using assms(4) by simp
  obtain rs w where r: "timer_run cs t = Some (rs, w)" "sched_ok w (z # [] @ zs)" "cs \<noteq> [] \<longrightarrow> last rs = (regs, rsp)"
    using timer_run_keeps [OF t(2) assms(2) t(3) le t(5,8) assms(6)] by auto
  have "last ((gs, sp) # rs) = (regs, rsp)"
  proof (cases cs)
    case Nil
    then show ?thesis using r(1) t(5-8) assms(2) by (simp add: running_def)
  next
    case (Cons c' cs')
    then have "rs \<noteq> []" using r(1) by (auto simp: Let_def split: Option.bind_splits prod.splits)
    then show ?thesis using r(3) Cons by simp
  qed
  then show ?thesis using t(1) r(1,2) by (simp add: sched_ok_def settled_def)
qed

subsection \<open>Dispatch of the hardware interrupts\<close>

lemma irq_dispatch_eq:
  assumes "length (handlers s) = INT_TABLE_SIZE" and "k < 8"
  shows "irq_handler (0x20 + of_nat k) s =
      (case handlers s ! k of None \<Rightarrow> Some s | Some h \<Rightarrow> call_handler h s)"
    and "irq_handler (0x70 + of_nat k) s = None"
proof -
  have "k = 0 \<or> k = 1 \<or> k = 2 \<or> k = 3 \<or> k = 4 \<or> k = 5 \<or> k = 6 \<or> k = 7" using assms(2) by linarith
  then show "irq_handler (0x20 + of_nat k) s = (case handlers s ! k of None \<Rightarrow> Some s | Some h \<Rightarrow> call_handler h s)"
    "irq_handler (0x70 + of_nat k) s = None"
    using assms(1) by (elim disjE; simp add: irq_handler_def irq_get_hw_index_def obj_get_def)+
qed

subsection \<open>The system call trap\<close>

text \<open>The switch does not look at the memory.\<close>

lemma proc_mem [simp]:
  "proc_at q (s\<lparr>mem := m\<rparr>) = proc_at q s"
  "proc_set q f (s\<lparr>mem := m\<rparr>) = map_option (\<lambda>t. t\<lparr>mem := m\<rparr>) (proc_set q f s)"
  by (auto simp: proc_at_def proc_set_def split: process_ptr.split Option.bind_split)

lemma user_switch_mem:
  "sched_switch_to_user_stack k (s\<lparr>mem := m\<rparr>) = map_option (\<lambda>(u, t). (u, t\<lparr>mem := m\<rparr>)) (sched_switch_to_user_stack k s)"
proof -
  have at: "proc_at q (t\<lparr>mem := m, active := a\<rparr>) = proc_at q (t\<lparr>active := a\<rparr>)" for q t a
    using proc_mem(1) [where q = q and s = "t\<lparr>active := a\<rparr>" and m = m] by (cases t) simp
  show ?thesis
    unfolding sched_switch_to_user_stack_def
    by (auto simp: Let_def at bind_map_option comp_def split: option.split Option.bind_split)
qed

lemma same_procs_mem: "same_procs s t \<Longrightarrow> mem t = mem s"
  by (cases t; cases s; auto simp: same_procs_def)

lemma POPA_rax:
  assumes "POPA a m = (regs, rsp)"
  shows "POPA a (store64 m (a + 128) v) = (regs[0 := v], rsp)"
proof -
  let ?m = "store64 m (a + 128) v"
  have p: "pop_all 17 a x = pop_all 16 a x @ [load64 x (a + 128)]" for x
    using pop_all_snoc [of 16 a x] by simp
  have "pop_all 16 a ?m = pop_all 16 a m"
  proof (rule pop_all_cong)
    fix x assume x: "in_range a (8 * 16) x"
    have "\<not> in_range (a + of_nat 128) 8 x" using x in_range_offset(1) [of 128 8 a x] by (simp add: in_range_def)
    then show "?m x = m x" by (simp add: store64_def store_bytes_other)
  qed simp
  then show ?thesis using assms p [of m] p [of ?m] by (auto simp: POPA_def cell_simps)
qed

lemma syscall_entry:
  assumes ok: "sched_ok s zs" and len: "length regs = 17"
  shows "\<exists>k s1. sched_ok s1 zs \<and> (\<forall>r. pid_of s1 r = pid_of s r)
    \<and> (\<forall>r. stack_of s1 r = (if r = running zs then Some (rsp - 136) else stack_of s r))
    \<and> POPA (rsp - 136) (mem s1) = (regs, rsp) \<and> (\<forall>x. \<not> in_range (rsp - 184) 184 x \<longrightarrow> mem s1 x = mem s x)
    \<and> (\<exists>m q ps. s1 = s\<lparr>mem := m, idle_process := q, processes := ps\<rparr>)
    \<and> int_sys_handler regs rsp s = Option.bind
         (sys_handler (regs ! 0) (regs ! 5) (regs ! 6) (regs ! 3) (regs ! 2) (regs ! 7) (regs ! 8) s1)
         (\<lambda>r. case r of Halts s \<Rightarrow> Some (Halts ([], 0, s))
            | Runs v s \<Rightarrow> Option.bind (sched_switch_to_user_stack k (sched_step_syscall_rax (rsp - 136) v s))
                (\<lambda>(u, s). let (regs, rsp) = POPA u (mem s) in Some (Runs v (regs, rsp, s))))"
proof -
  obtain M where M: "PUSHA regs (rsp, mem s) = (rsp - 136, M)" "POPA (rsp - 136) M = (regs, rsp)"
    "\<forall>x. \<not> in_range (rsp - 136) 136 x \<longrightarrow> M x = mem s x" using PUSHA_frame [OF len] by blast
  let ?ps = "[rsp - 136, regs ! 6, regs ! 3, regs ! 2, regs ! 7, regs ! 8]"
  obtain N where N: "push_all ?ps (rsp - 136, M) = (rsp - 184, N)" "\<forall>x. \<not> in_range (rsp - 184) 48 x \<longrightarrow> N x = M x"
    using push_all_frame [of ?ps "rsp - 136" M] by auto
  have e: "rsp - 136 = rsp - 184 + of_nat 48" "rsp - 184 + of_nat 0 = rsp - 184" by simp_all
  have r: "in_range (rsp - 136) 136 x \<longleftrightarrow> 48 \<le> unat (x - (rsp - 184)) \<and> in_range (rsp - 184) 184 x"
    "in_range (rsp - 184) 48 x \<longleftrightarrow> unat (x - (rsp - 184)) < 48 \<and> in_range (rsp - 184) 184 x" for x
    using in_range_offset(1) [of 48 136 "rsp - 184" x] unfolding e(1) [symmetric] by (auto simp: in_range_def)
  have "POPA (rsp - 136) N = POPA (rsp - 136) M" by (rule POPA_cong) (use N(2) r in auto)
  then have pop: "POPA (rsp - 136) N = (regs, rsp)" using M(2) by simp
  have keep: "N x = mem s x" if "\<not> in_range (rsp - 184) 184 x" for x using that M(3) N(2) r by auto
  let ?s = "s\<lparr>mem := N\<rparr>"
  have "same_sched s ?s" by (simp add: same_sched_def)
  note v = same_sched_views [OF this]
  have oks: "sched_ok ?s zs" using ok by (simp add: v)
  obtain k s1 where 1: "sched_switch_to_kernel_stack (rsp - 136) ?s = Some (k, s1)" "settled s1 zs" "same_pids ?s s1"
    "\<forall>r. stack_of s1 r = (if r = running zs then Some (rsp - 136) else stack_of ?s r)"
    using kernel_side [OF sched_ok_settled [OF oks]] by blast
  obtain q ps where s1: "s1 = ?s\<lparr>idle_process := q, processes := ps\<rparr>" using kernel_switch_rest [OF 1(1)] by blast
  have "sched_ok s1 zs" by (rule sched_ok_step [OF oks 1(2) _ 1(3)]) simp
  moreover have "pid_of s1 r = pid_of s r" for r using 1(3) by (simp add: same_pids_def v)
  moreover have "stack_of s1 r = (if r = running zs then Some (rsp - 136) else stack_of s r)" for r using 1(4) by (simp add: v)
  moreover have "mem s1 = N" by (simp add: s1)
  moreover have "int_sys_handler regs rsp s = Option.bind
         (sys_handler (regs ! 0) (regs ! 5) (regs ! 6) (regs ! 3) (regs ! 2) (regs ! 7) (regs ! 8) s1)
         (\<lambda>r. case r of Halts s \<Rightarrow> Some (Halts ([], 0, s))
            | Runs v s \<Rightarrow> Option.bind (sched_switch_to_user_stack k (sched_step_syscall_rax (rsp - 136) v s))
                (\<lambda>(u, s). let (regs, rsp) = POPA u (mem s) in Some (Runs v (regs, rsp, s))))"
    by (simp only: int_sys_handler_def M(1) Let_def prod.case N(1) 1(1) Option.bind.simps)
  ultimately show ?thesis using pop keep s1 by blast
qed

text \<open>The call returns to the next process, the caller goes on later with the result in rax.\<close>

lemma getpid_trap:
  assumes ok: "sched_ok s (z # zs)" and "length regs = 17" and "regs ! 0 = SYSCALL_GETPID" and "syscall_set s"
    and "pid_of s z = Some pid"
  defines "v \<equiv> scast (ucast pid :: u32)"
  shows "\<exists>r rsp' t. int_sys_handler regs rsp s = Some (Runs v (r, rsp', t)) \<and> sched_ok t (zs @ [z])
    \<and> stack_of t z = Some (rsp - 136) \<and> POPA (rsp - 136) (mem t) = (regs[0 := v], rsp)"
proof -
  obtain k s1 where 1: "sched_ok s1 (z # zs)" "\<forall>r. pid_of s1 r = pid_of s r"
    "\<forall>r. stack_of s1 r = (if r = running (z # zs) then Some (rsp - 136) else stack_of s r)"
    "POPA (rsp - 136) (mem s1) = (regs, rsp)" "\<exists>m q ps. s1 = s\<lparr>mem := m, idle_process := q, processes := ps\<rparr>"
    "int_sys_handler regs rsp s = Option.bind
         (sys_handler (regs ! 0) (regs ! 5) (regs ! 6) (regs ! 3) (regs ! 2) (regs ! 7) (regs ! 8) s1)
         (\<lambda>r. case r of Halts s \<Rightarrow> Some (Halts ([], 0, s))
            | Runs v s \<Rightarrow> Option.bind (sched_switch_to_user_stack k (sched_step_syscall_rax (rsp - 136) v s))
                (\<lambda>(u, s). let (regs, rsp) = POPA u (mem s) in Some (Runs v (regs, rsp, s))))"
    using syscall_entry [OF ok assms(2), of rsp] by blast
  have "active s1 = Some z" using 1(1) by (simp add: sched_ok_def settled_def)
  moreover have "pid_of s1 z = Some pid" using 1(2) assms(5) by simp
  ultimately have "sched_getpid s1 = Some pid" by (simp add: sched_getpid_def pid_of_def)
  moreover have "syscall_set s1" using 1(5) assms(4) by auto
  ultimately have h: "sys_handler (regs ! 0) (regs ! 5) (regs ! 6) (regs ! 3) (regs ! 2) (regs ! 7) (regs ! 8) s1 = Some (Runs v s1)"
    by (simp add: sys_handler_def int80h_def assms(3) syscall_getpid_def with_exitno_def v_def)
  let ?s = "sched_step_syscall_rax (rsp - 136) v s1"
  have "same_sched s1 ?s" by (simp add: same_sched_def sched_step_syscall_rax_def)
  note w = same_sched_views [OF this]
  have oks: "sched_ok ?s (z # zs)" using 1(1) by (simp add: w)
  from user_side [OF sched_ok_settled [OF this], of k] obtain u t where
    2: "sched_switch_to_user_stack k ?s = Some (u, t)" "settled t (zs @ [z])" "same_pids ?s t" "\<forall>r. stack_of t r = stack_of ?s r"
    by auto
  have "sched_ok t (zs @ [z])" by (rule sched_ok_step [OF oks 2(2) _ 2(3)]) auto
  moreover have "stack_of t z = Some (rsp - 136)" using 2(4) 1(3) by (simp add: w running_def)
  moreover have "mem t = store64 (mem s1) (rsp - 136 + 128) v"
    using user_switch_rest [OF 2(1)] by (auto simp: sched_step_syscall_rax_def)
  ultimately show ?thesis using POPA_rax [OF 1(4), of v]
    by (cases "POPA u (mem t)") (simp add: 1(6) h 2(1))
qed

lemma exit_trap:
  assumes ok: "sched_ok s (z # zs)" and con: "con_ok s" and "length regs = 17" and "regs ! 0 = SYSCALL_EXIT" and "syscall_set s"
    and nx: "stack_of s (running zs) = Some a" "POPA a (mem s) = (gs, sp)"
    and ap: "apart a 136 (rsp - 184) 184" "apart a 136 0xB8000 4000"
  shows "\<exists>t. int_sys_handler regs rsp s = Some (Runs 0 (gs, sp, t)) \<and> sched_ok t zs"
proof -
  obtain k s1 where 1: "sched_ok s1 (z # zs)" "\<forall>r. pid_of s1 r = pid_of s r"
    "\<forall>r. stack_of s1 r = (if r = running (z # zs) then Some (rsp - 136) else stack_of s r)"
    "\<forall>x. \<not> in_range (rsp - 184) 184 x \<longrightarrow> mem s1 x = mem s x"
    "\<exists>m q ps. s1 = s\<lparr>mem := m, idle_process := q, processes := ps\<rparr>"
    "int_sys_handler regs rsp s = Option.bind
         (sys_handler (regs ! 0) (regs ! 5) (regs ! 6) (regs ! 3) (regs ! 2) (regs ! 7) (regs ! 8) s1)
         (\<lambda>r. case r of Halts s \<Rightarrow> Some (Halts ([], 0, s))
            | Runs v s \<Rightarrow> Option.bind (sched_switch_to_user_stack k (sched_step_syscall_rax (rsp - 136) v s))
                (\<lambda>(u, s). let (regs, rsp) = POPA u (mem s) in Some (Runs v (regs, rsp, s))))"
    using syscall_entry [OF ok assms(3), of rsp] by blast
  have d: "z \<notin> set zs" using ok by (simp add: sched_ok_def settled_def cycle_def)
  obtain i where z: "z = Process i" using sched_ok_pid [OF ok, of z] by auto
  have rz: "running zs \<noteq> z" using d z by (cases zs) (auto simp: running_def)
  obtain pid where pid: "pid_of s1 z = Some pid" using sched_ok_pid [OF 1(1), of z] by auto
  have act: "active s1 = Some z" using 1(1) by (simp add: sched_ok_def settled_def)
  have con1: "con_ok s1" and sc1: "syscall_set s1" using 1(5) con assms(5) by (auto simp: con_ok_def)
  let ?code = "ucast (ucast (regs ! 5) :: u8) :: u32"
  have "fmt_ok (bytes (''Killing current process %d with code %d'' @ [CHR 0x0A]) @ [0]) False [Arg_num pid, Arg_num (ucast ?code)]"
    by (simp add: bytes_def)
  from kprintf_screen [OF con1 this] obtain s2 where
    2: "kprintf (''Killing current process %d with code %d'' @ [CHR 0x0A]) [Arg_num pid, Arg_num (ucast ?code)] s1 = Some s2"
      "screen_only s1 s2" by blast
  have "same_sched s1 s2" using 2(2) by (auto simp: screen_only_def same_sched_def)
  note v2 = same_sched_views [OF this]
  have "sched_getpid s1 = Some pid" using act pid by (simp add: sched_getpid_def pid_of_def)
  then have gp: "sched_getpid s1 = Some pid" "sched_getpid s2 = Some pid" by (simp_all add: v2)
  have ok2: "sched_ok s2 (z # zs)" using 1(1) by (simp add: v2)
  have rem: "remove1 z (rotate1 (z # zs)) = zs" using d by (simp add: remove1_append)
  from terminate_ok [OF ok2, of z pid "ucast ?code" k, unfolded rem] pid obtain s3 u t where
    3: "sched_terminate_process pid (ucast ?code) s2 = Some (0, s3)" "same_procs s2 s3"
      "sched_switch_to_user_stack k s3 = Some (u, t)" "sched_ok t zs" "\<forall>r. stack_of t r = stack_of s2 r"
      "stack_of t (running zs) = Some u" by (auto simp: v2)
  have "syscall_exit ?code s1 = Some (ucast (0 :: u64), s3)"
    by (simp only: syscall_exit_def gp 2(1) 3(1) Option.bind.simps prod.case)
  then have h: "sys_handler (regs ! 0) (regs ! 5) (regs ! 6) (regs ! 3) (regs ! 2) (regs ! 7) (regs ! 8) s1 = Some (Runs 0 s3)"
    using sc1 by (simp add: sys_handler_def int80h_def assms(4) with_exitno_def)
  let ?m = "store64 (mem s3) (rsp - 136 + 128) 0" and ?t = "t\<lparr>mem := store64 (mem s3) (rsp - 136 + 128) 0\<rparr>"
  have sw: "sched_switch_to_user_stack k (sched_step_syscall_rax (rsp - 136) 0 s3) = Some (u, ?t)"
    by (simp add: sched_step_syscall_rax_def user_switch_mem 3(3))
  have "u = a" using 3(5,6) 1(3) nx(1) rz by (simp add: v2 running_def)
  have "?m x = mem s x" if x: "in_range a 136 x" for x
  proof -
    have o: "\<not> in_range (rsp - 184) 184 x" "\<not> in_range 0xB8000 4000 x"
      using apart_range [OF ap(1) x] apart_range [OF ap(2) x] .
    have "\<not> in_range (rsp - 184 + of_nat 176) 8 x"
      using o(1) in_range_offset(1) [of 176 8 "rsp - 184" x] by (simp add: in_range_def)
    then have "?m x = mem s3 x" by (simp add: store64_def store_bytes_other)
    also have "mem s3 x = mem s2 x" using same_procs_mem [OF 3(2)] by simp
    also have "mem s2 x = mem s1 x" by (rule screen_only_mem [OF 2(2) o(2)])
    finally show ?thesis using 1(4) o(1) by simp
  qed
  then have "POPA u ?m = (gs, sp)" using POPA_cong [of a ?m "mem s"] nx(2) \<open>u = a\<close> by simp
  moreover have "same_sched t ?t" by (simp add: same_sched_def)
  ultimately show ?thesis using 3(4) same_sched_views(3) [of t ?t zs] by (simp add: 1(6) h sw)
qed

subsection \<open>A machine with three processes and its handlers installed\<close>

definition int_demo :: int_state where
  "int_demo = (pipe_state.extend pipe_demo
     (int_state.fields ([Some Pit_irq, Some Kbrd_irq] @ replicate 14 None) True (0xFFF, 0)))\<lparr>snd_timeout := 9\<rparr>"

definition demo_regs :: "u64 \<Rightarrow> u64 list" where
  "demo_regs v = replicate 17 v"

lemma int_demo_fields [simp]:
  "handlers int_demo = [Some Pit_irq, Some Kbrd_irq] @ replicate 14 None" "syscall_set int_demo" "cpu_idt int_demo = (0xFFF, 0)"
  "snd_timeout int_demo = 9" "mem int_demo = mem vmm_demo"
  by (simp_all add: int_demo_def pipe_state.defs int_state.defs pipe_demo_def heap_demo_def sched_demo_def
      mmu_state.defs sched_state.defs vmm_state.defs)

lemma int_demo_same: "same_sched sched_demo int_demo"
  by (simp add: same_sched_def int_demo_def pipe_demo_def heap_demo_def pipe_state.defs int_state.defs mmu_state.defs
      sched_state.defs sched_demo_def vmm_state.defs)

lemma int_demo_ok: "sched_ok int_demo [Process 0, Process 2, Process 1]"
  using sched_demo_ok by (simp add: same_sched_views [OF int_demo_same])

lemma int_demo_views: "pid_of int_demo (Process 0) = Some 1" "stack_of int_demo (Process 2) = Some 0x300"
proof -
  have "stack_of sched_demo (Process 2) = Some 0x300" by (simp add: stack_of_def)
  then show "stack_of int_demo (Process 2) = Some 0x300" by (simp only: same_sched_views [OF int_demo_same])
qed (use sched_demo_pid in \<open>simp add: same_sched_views [OF int_demo_same]\<close>)

lemma int_demo_con: "con_ok int_demo"
  using heap_demo_con by (simp add: con_ok_def int_demo_def pipe_demo_def pipe_state.defs int_state.defs mmu_state.defs)

subsection \<open>Properties\<close>

text \<open>C29: After \<open>install_interrupts\<close> the processor's table, where the boot loader left it, sends system calls, page
  faults, timer and keyboard to the kernel's entry points; every other gate stays, except that the ten
  bytes of the register image are written to address 0 through the null pointer \<open>idtr\<close>.\<close>

theorem interrupts_installed:
  assumes "cpu_idt s = (lim, table)" and "unat table + 4096 \<le> 2 ^ 64"
  shows "cpu_idt (install_interrupts sy s) = cpu_idt s
    \<and> gate_at (mem (install_interrupts sy s)) (table + 0x800) (sym_int_sys sy) IDTE_SW
    \<and> gate_at (mem (install_interrupts sy s)) (table + 0xE0) (sym_int_mem sy) IDTE_SW
    \<and> gate_at (mem (install_interrupts sy s)) (table + 0x200) (sym_irq_20h sy) IDTE_SW
    \<and> gate_at (mem (install_interrupts sy s)) (table + 0x210) (sym_irq_21h sy) IDTE_SW
    \<and> (\<forall>x. 10 \<le> unat x \<and> (\<forall>k \<in> {0x800, 0xE0, 0x200, 0x210}. \<not> in_range (table + of_nat k) 16 x)
         \<longrightarrow> mem (install_interrupts sy s) x = mem s x)
    \<and> load16 (mem (install_interrupts sy s)) 0 = lim \<and> load64 (mem (install_interrupts sy s)) 2 = table"
  by (rule interrupts_install [OF assms])

theorem interrupts_installed_witness:
  "let t = install_interrupts \<lparr>sym_int_sys = 0x100200, sym_int_mem = 0x100300, sym_irq_20h = 0x100400, sym_irq_21h = 0x100500\<rparr> int_demo
   in gate_at (mem t) 0x800 0x100200 IDTE_SW \<and> gate_at (mem t) 0x200 0x100400 IDTE_SW \<and> load16 (mem t) 0 = 0xFFF"
proof -
  let ?y = "\<lparr>sym_int_sys = 0x100200, sym_int_mem = 0x100300, sym_irq_20h = 0x100400, sym_irq_21h = 0x100500\<rparr>"
  have i: "cpu_idt int_demo = (0xFFF, 0)" by simp
  show ?thesis using interrupts_installed [OF i, of ?y] by (simp add: Let_def)
qed

text \<open>The eight interrupts of the master controller go to their entries of the handler table, an entry without
  handler is ignored; those of the slave controller index the table of 16 from 80 on.\<close>

theorem irq_dispatch:
  assumes "length (handlers s) = INT_TABLE_SIZE" and "k < 8"
  shows "irq_handler (IDT_MASTER + of_nat k) s = (case handlers s ! k of None \<Rightarrow> Some s | Some h \<Rightarrow> call_handler h s)
    \<and> irq_handler (IDT_SLAVE + of_nat k) s = None"
  using irq_dispatch_eq [OF assms] by simp

theorem irq_dispatch_witness:
  "irq_handler (IDT_MASTER + of_nat 5) int_demo = Some int_demo \<and> irq_handler (IDT_SLAVE + of_nat 5) int_demo = None"
  using irq_dispatch [of int_demo 5] by simp

text \<open>C6: An interrupted process does not notice: when every other process has run, and none of them nor its
  interrupt wrote to the saved registers, the last timer interrupt returns to the process with all its
  registers and its stack pointer.\<close>

theorem interrupt_transparent:
  assumes "sched_ok s (z # zs)" and "length cs = length zs" and "timer_on s" and "length cs < tick_room s"
    and "length regs = 17" and "\<forall>c \<in> set cs. frame_kept (rsp - 136) c"
  shows "\<exists>rs t. timer_run ((user, regs, rsp) # cs) s = Some (rs, t) \<and> active t = Some z \<and> last rs = (regs, rsp)"
  by (rule timer_run_resumes [OF assms])

theorem interrupt_transparent_witness:
  "\<exists>rs t. timer_run [(id, demo_regs 7, 0x70000000), (\<lambda>m. m(0x123 := 9), demo_regs 8, 0x71000000), (id, demo_regs 9, 0x72000000)] int_demo
     = Some (rs, t) \<and> active t = Some (Process 0) \<and> last rs = (demo_regs 7, 0x70000000)"
  by (rule interrupt_transparent [OF int_demo_ok])
    (auto simp: timer_on_def tick_room_def demo_regs_def frame_kept_def apart_def in_range_def)

text \<open>\<open>getpid\<close> as a system call: the caller goes on, when it is its turn, with its pid in rax and every other
  register as it was.\<close>

theorem getpid_in_rax:
  assumes "sched_ok s (z # zs)" and "length regs = 17" and "regs ! 0 = SYSCALL_GETPID" and "syscall_set s"
    and "pid_of s z = Some pid"
  shows "\<exists>r rsp' t. int_sys_handler regs rsp s = Some (Runs (scast (ucast pid :: u32)) (r, rsp', t)) \<and> sched_ok t (zs @ [z])
    \<and> stack_of t z = Some (rsp - 136) \<and> POPA (rsp - 136) (mem t) = (regs[0 := scast (ucast pid :: u32)], rsp)"
  by (rule getpid_trap [OF assms])

theorem getpid_in_rax_witness:
  "\<exists>r rsp' t. int_sys_handler (demo_regs 39) 0x70000000 int_demo = Some (Runs 1 (r, rsp', t))
    \<and> POPA (0x70000000 - 136) (mem t) = ((demo_regs 39)[0 := 1], 0x70000000)"
  using getpid_in_rax [OF int_demo_ok _ _ _ int_demo_views(1), of "demo_regs 39" "0x70000000"] by (auto simp: demo_regs_def)

text \<open>C7: \<open>exit\<close> does not return to its caller: the process leaves the ring and the next one, or the idle process,
  goes on with the registers of its own interrupt.\<close>

theorem exit_resumes_next:
  assumes "sched_ok s (z # zs)" and "con_ok s" and "length regs = 17" and "regs ! 0 = SYSCALL_EXIT" and "syscall_set s"
    and "stack_of s (running zs) = Some a" and "POPA a (mem s) = (gs, sp)"
    and "apart a 136 (rsp - 184) 184" and "apart a 136 0xB8000 4000"
  shows "\<exists>t. int_sys_handler regs rsp s = Some (Runs 0 (gs, sp, t)) \<and> sched_ok t zs"
  by (rule exit_trap [OF assms])

theorem exit_resumes_next_witness:
  "\<exists>t. int_sys_handler (demo_regs 60) 0x70000000 int_demo
     = Some (Runs 0 (fst (POPA 0x300 (mem int_demo)), snd (POPA 0x300 (mem int_demo)), t)) \<and> sched_ok t [Process 2, Process 1]"
proof (rule exit_resumes_next [OF int_demo_ok int_demo_con])
  show "apart 0x300 136 (0x70000000 - 184) 184" "apart 0x300 136 0xB8000 4000" by (rule apart_below; simp)+
qed (simp_all add: demo_regs_def running_def int_demo_views)

end
