(* ===== verification/Libc_Stub.thy ===== *)
theory Libc_Stub
  imports Traps
begin

section \<open>Userland/libc/syscalls.asm: the way into the kernel\<close>

text \<open>
  The macro behind every system call of a program, on the registers it names and the stack. \<open>int80\<close>, an
  argument, is the trap: what the processor and the kernel make of the registers and the memory.
\<close>

record cpu =
  rax :: u64
  rbx :: u64
  rsp :: u64
  rbp :: u64
  r12 :: u64
  r13 :: u64
  r14 :: u64
  r15 :: u64
  ram :: mem

definition cpu_push :: "u64 \<Rightarrow> cpu \<Rightarrow> cpu" where
  "cpu_push v c = c\<lparr>rsp := rsp c - 8, ram := store64 (ram c) (rsp c - 8) v\<rparr>"

definition cpu_pop :: "cpu \<Rightarrow> u64 \<times> cpu" where
  "cpu_pop c = (load64 (ram c) (rsp c), c\<lparr>rsp := rsp c + 8\<rparr>)"

text \<open>\<open>push RSP\<close> stores the value before the push, \<open>pop RSP\<close> ends with the value popped.\<close>

definition PUSHALL :: "cpu \<Rightarrow> cpu" where
  "PUSHALL c =
     (let c = cpu_push (rbx c) c;
          c = cpu_push (rsp c) c;
          c = cpu_push (r12 c) c;
          c = cpu_push (r13 c) c;
          c = cpu_push (r14 c) c
      in cpu_push (r15 c) c)"

definition POPALL :: "cpu \<Rightarrow> cpu" where
  "POPALL c =
     (let (v, c) = cpu_pop c; c = c\<lparr>r15 := v\<rparr>;
          (v, c) = cpu_pop c; c = c\<lparr>r14 := v\<rparr>;
          (v, c) = cpu_pop c; c = c\<lparr>r13 := v\<rparr>;
          (v, c) = cpu_pop c; c = c\<lparr>r12 := v\<rparr>;
          (v, c) = cpu_pop c; c = c\<lparr>rsp := v\<rparr>;
          (v, c) = cpu_pop c; c = c\<lparr>rsp := v\<rparr>;
          (v, c) = cpu_pop c
      in c\<lparr>rbx := v\<rparr>)"

definition libc_ENTER :: "cpu \<Rightarrow> cpu" where
  "libc_ENTER c = (let c = cpu_push (rbp c) c; c = c\<lparr>rbp := rsp c\<rparr> in PUSHALL c)"

text \<open>With the address that \<open>ret\<close> goes to.\<close>

definition libc_LEAVE :: "cpu \<Rightarrow> u64 \<times> cpu" where
  "libc_LEAVE c =
     (let c = POPALL c;
          c = c\<lparr>rsp := rbp c\<rparr>;
          (v, c) = cpu_pop c; c = c\<lparr>rbp := v\<rparr>
      in cpu_pop c)"

definition libc_int80h :: "(cpu \<Rightarrow> cpu) \<Rightarrow> u64 \<Rightarrow> cpu \<Rightarrow> u64 \<times> cpu" where
  "libc_int80h int80 no c =
     (let c = libc_ENTER c;
          c = c\<lparr>rax := no\<rparr>;
          c = int80 c
      in libc_LEAVE c)"

lemma stub_frame:
  fixes s :: cpu
  defines "c \<equiv> libc_ENTER s" and "a \<equiv> rsp s - 56"
  shows "c = s\<lparr>rsp := a, rbp := a + 48, ram := ram c\<rparr>"
    and "pop_all 7 a (ram c) = [r15 s, r14 s, r13 s, r12 s, a + 40, rbx s, rbp s]"
    and "\<And>x. \<not> in_range a 56 x \<Longrightarrow> ram c x = ram s x"
proof -
  let ?vs = "[rbp s, rbx s, a + 40, r12 s, r13 s, r14 s, r15 s]"
  show "c = s\<lparr>rsp := a, rbp := a + 48, ram := ram c\<rparr>"
    by (simp add: c_def libc_ENTER_def PUSHALL_def cpu_push_def Let_def a_def)
  have m: "push_all ?vs (rsp s, ram s) = (a, ram c)"
    by (simp add: c_def libc_ENTER_def PUSHALL_def cpu_push_def Let_def a_def)
  obtain M where M: "push_all ?vs (rsp s, ram s) = (rsp s - of_nat (8 * length ?vs), M)"
    "pop_all (length ?vs) (rsp s - of_nat (8 * length ?vs)) M = rev ?vs"
    "\<forall>x. \<not> in_range (rsp s - of_nat (8 * length ?vs)) (8 * length ?vs) x \<longrightarrow> M x = ram s x"
    using push_all_frame [of ?vs "rsp s" "ram s"] by auto
  have l: "length ?vs = 7" "rsp s - of_nat (8 * length ?vs) = a" by (simp_all add: a_def)
  have "M = ram c" using M(1) m by simp
  then show "pop_all 7 a (ram c) = [r15 s, r14 s, r13 s, r12 s, a + 40, rbx s, rbp s]"
    using M(2) by (simp add: a_def eval_nat_numeral)
  show "ram c x = ram s x" if "\<not> in_range a 56 x" for x using M(3) that unfolding \<open>M = ram c\<close> by (simp add: a_def)
qed

text \<open>C20: A system call's stub saves six registers and takes seven off the stack: everything comes back as it was but
  rbx, which gets the word in memory that it pointed to.\<close>

theorem stub_clobbers_rbx:
  assumes "int80 ((libc_ENTER s)\<lparr>rax := no\<rparr>) = (libc_ENTER s)\<lparr>rax := v, ram := M\<rparr>"
    and "\<forall>x. in_range (rsp s - 56) 64 x \<longrightarrow> M x = ram (libc_ENTER s) x"
  shows "libc_int80h int80 no s =
    (load64 (ram s) (rsp s), s\<lparr>rax := v, rbx := load64 M (rbx s), rsp := rsp s + 8, ram := M\<rparr>)"
proof -
  let ?a = "rsp s - 56" and ?c = "libc_ENTER s"
  note f = stub_frame [of s]
  have ld: "load64 M (?a + of_nat i) = load64 (ram ?c) (?a + of_nat i)" if "i \<le> 56" for i
  proof (rule load64_cong)
    fix j :: nat assume j: "j < 8"
    have "unat (of_nat (i + j) :: u64) = i + j" by (rule unat_of_nat_small) (use that j in simp)
    then have "in_range ?a 64 (?a + of_nat i + of_nat j)" using that j by (simp add: in_range_def add.assoc)
    then show "M (?a + of_nat i + of_nat j) = ram ?c (?a + of_nat i + of_nat j)" using assms(2) by blast
  qed
  have seven: "pop_all 7 ?a (ram ?c) = [load64 (ram ?c) ?a, load64 (ram ?c) (?a + 8), load64 (ram ?c) (?a + 16),
      load64 (ram ?c) (?a + 24), load64 (ram ?c) (?a + 32), load64 (ram ?c) (?a + 40), load64 (ram ?c) (?a + 48)]"
    by (simp add: eval_nat_numeral add.assoc)
  have ret: "load64 (ram ?c) (?a + 56) = load64 (ram s) (rsp s)"
  proof -
    have "load64 (ram ?c) (rsp s) = load64 (ram s) (rsp s)"
    proof (rule load64_cong)
      fix j :: nat assume j: "j < 8"
      have "rsp s + of_nat j - ?a = of_nat (56 + j)" by simp
      moreover have "unat (of_nat (56 + j) :: u64) = 56 + j" by (rule unat_of_nat_small) (use j in simp)
      ultimately have "unat (rsp s + of_nat j - ?a) = 56 + j" by (simp only:)
      then have "\<not> in_range ?a 56 (rsp s + of_nat j)" by (simp add: in_range_def)
      then show "ram ?c (rsp s + of_nat j) = ram s (rsp s + of_nat j)" by (rule f(3))
    qed
    then show ?thesis by simp
  qed
  have regs: "load64 M ?a = r15 s" "load64 M (?a + 8) = r14 s" "load64 M (?a + 16) = r13 s" "load64 M (?a + 24) = r12 s"
    "load64 M (?a + 32) = ?a + 40" "load64 M (?a + 40) = rbx s" "load64 M (?a + 48) = rbp s" "load64 M (?a + 56) = load64 (ram s) (rsp s)"
    using f(2) seven ld [of 0] ld [of 8] ld [of 16] ld [of 24] ld [of 32] ld [of 40] ld [of 48] ld [of 56] ret by simp_all
  have "libc_int80h int80 no s = libc_LEAVE (?c\<lparr>rax := v, ram := M\<rparr>)"
    by (simp add: libc_int80h_def assms(1) Let_def)
  also have "?c\<lparr>rax := v, ram := M\<rparr> = s\<lparr>rax := v, rsp := ?a, rbp := ?a + 48, ram := M\<rparr>"
    by (subst f(1)) simp
  finally show ?thesis
    using regs by (simp add: libc_LEAVE_def POPALL_def cpu_pop_def Let_def add.assoc)
qed

definition cpu_demo :: cpu where
  "cpu_demo = \<lparr>rax = 0, rbx = 0x2000, rsp = 0x1000, rbp = 1, r12 = 2, r13 = 3, r14 = 4, r15 = 5,
     ram = (\<lambda>a. if a = 0x2000 then 9 else 0)\<rparr>"

theorem stub_clobbers_rbx_witness:
  "libc_int80h (\<lambda>c. c\<lparr>rax := 7\<rparr>) 39 cpu_demo = (load64 (ram cpu_demo) (rsp cpu_demo),
     cpu_demo\<lparr>rax := 7, rbx := load64 (ram (libc_ENTER cpu_demo)) (rbx cpu_demo), rsp := rsp cpu_demo + 8,
       ram := ram (libc_ENTER cpu_demo)\<rparr>)"
  by (rule stub_clobbers_rbx) simp_all

end
