(* ===== verification/Libc_IO.thy ===== *)
theory Libc_IO
  imports Syscalls
begin

unbundle bit_operations_syntax

section \<open>The C library: system calls, input and output\<close>

text \<open>
  \<open>Userland/libc/syscalls.asm\<close>, putc.c, printf.c, getc.c and scanf.c. A system call is the kernel's
  dispatcher on the state of the machine, which the program's own variables extend. Reading a key polls
  the kernel; \<open>irqs\<close>, an argument of everything that reads, is what the interrupts do between two polls.
\<close>

subsection \<open>The state of a user program\<close>

text \<open>
  \<open>unchar\<close> is the static variable of getc.c, \<open>heap_base\<close> and \<open>last_mmap\<close> are those of memory.c.
  \<open>local_addr\<close> gives the addresses that the compiler chose for local variables whose address is
  taken. A library function that does not return (the program has ended) is \<open>Halts\<close>.
\<close>

record libc_state = int_state +
  local_addr :: "string \<Rightarrow> u64"
  unchar :: u32
  heap_base :: u64
  last_mmap :: u64

subsection \<open>System calls\<close>

text \<open>
  What the calls do to the machine; that other processes may run before they return is the subject of
  the theory Traps. \<open>u_write\<close> takes the bytes its pointer points to.
\<close>

definition u_call :: "u64 \<Rightarrow> u64 \<Rightarrow> u64 \<Rightarrow> u64 \<Rightarrow> 'a int_state_scheme \<Rightarrow> 'a int_state_scheme outcome option" where
  "u_call no rdi rsi rdx s = sys_handler no rdi rsi rdx 0 0 0 s"

definition u_value :: "'b outcome option \<Rightarrow> (u64 \<times> 'b) option" where
  "u_value r = (case r of Some (Runs v s) \<Rightarrow> Some (v, s) | _ \<Rightarrow> None)"

definition u_int :: "'b outcome option \<Rightarrow> (u32 \<times> 'b) option" where
  "u_int r = map_option (\<lambda>(v, s). (ucast v, s)) (u_value r)"

definition u_void :: "'b outcome option \<Rightarrow> 'b option" where
  "u_void r = map_option snd (u_value r)"

definition u_write :: "u32 \<Rightarrow> u8 list \<Rightarrow> 'a int_state_scheme \<Rightarrow> (u32 \<times> 'a int_state_scheme) option" where
  "u_write fd bs s = (if syscall_set s then write_bytes fd bs s else Some (0, s))"

definition u_read :: "u32 \<Rightarrow> u64 \<Rightarrow> u32 \<Rightarrow> 'a int_state_scheme \<Rightarrow> (u32 \<times> 'a int_state_scheme) option" where
  "u_read fd str n s = u_int (u_call SYSCALL_READ (ucast fd) str (ucast n) s)"
definition u_ioctl :: "u32 \<Rightarrow> u64 \<Rightarrow> u64 \<Rightarrow> 'a int_state_scheme \<Rightarrow> (u32 \<times> 'a int_state_scheme) option" where
  "u_ioctl fd request params s = u_int (u_call SYSCALL_IOCTL (ucast fd) request params s)"
definition u_beep :: "'a int_state_scheme \<Rightarrow> 'a int_state_scheme option" where
  "u_beep s = u_void (u_call SYSCALL_BEEP 0 0 0 s)"
definition u_getpid :: "'a int_state_scheme \<Rightarrow> (u32 \<times> 'a int_state_scheme) option" where
  "u_getpid s = u_int (u_call SYSCALL_GETPID 0 0 0 s)"
definition u_gettime :: "u64 \<Rightarrow> 'a int_state_scheme \<Rightarrow> 'a int_state_scheme option" where
  "u_gettime t s = u_void (u_call SYSCALL_GETTIME t 0 0 s)"
definition u_settime :: "u64 \<Rightarrow> 'a int_state_scheme \<Rightarrow> 'a int_state_scheme option" where
  "u_settime t s = u_void (u_call SYSCALL_SETTIME t 0 0 s)"
definition u_mmap :: "u64 \<Rightarrow> u64 \<Rightarrow> 'a int_state_scheme \<Rightarrow> (u64 \<times> 'a int_state_scheme) option" where
  "u_mmap add size64 s = u_value (u_call SYSCALL_MMAP add size64 0 s)"
definition u_munmap :: "u64 \<Rightarrow> u64 \<Rightarrow> 'a int_state_scheme \<Rightarrow> 'a int_state_scheme option" where
  "u_munmap add size64 s = u_void (u_call SYSCALL_MUNMAP add size64 0 s)"
definition u_opipe :: "u32 \<Rightarrow> 'a int_state_scheme \<Rightarrow> (u32 \<times> 'a int_state_scheme) option" where
  "u_opipe fd s = u_int (u_call SYSCALL_OPIPE (ucast fd) 0 0 s)"
definition u_cpipe :: "u32 \<Rightarrow> 'a int_state_scheme \<Rightarrow> 'a int_state_scheme option" where
  "u_cpipe fd s = u_void (u_call SYSCALL_CPIPE (ucast fd) 0 0 s)"
definition u_wpipe :: "u32 \<Rightarrow> u64 \<Rightarrow> u32 \<Rightarrow> 'a int_state_scheme \<Rightarrow> (u32 \<times> 'a int_state_scheme) option" where
  "u_wpipe fd data n s = u_int (u_call SYSCALL_WPIPE (ucast fd) data (ucast n) s)"
definition u_rpipe :: "u32 \<Rightarrow> u64 \<Rightarrow> u32 \<Rightarrow> 'a int_state_scheme \<Rightarrow> (u32 \<times> 'a int_state_scheme) option" where
  "u_rpipe fd data n s = u_int (u_call SYSCALL_RPIPE (ucast fd) data (ucast n) s)"
definition u_gpipes :: "u64 \<Rightarrow> 'a int_state_scheme \<Rightarrow> 'a int_state_scheme option" where
  "u_gpipes fd s = u_void (u_call SYSCALL_GPIPES fd 0 0 s)"
definition u_halt :: "'a int_state_scheme \<Rightarrow> 'a int_state_scheme outcome option" where
  "u_halt s = u_call SYSCALL_HALT 0 0 0 s"

text \<open>A process that has killed itself does not run again.\<close>

definition u_kill :: "u32 \<Rightarrow> u32 \<Rightarrow> 'a int_state_scheme \<Rightarrow> 'a int_state_scheme outcome option" where
  "u_kill pid code s = do {
     own \<leftarrow> sched_getpid s;
     (r, s) \<leftarrow> u_int (u_call SYSCALL_KILL (ucast pid) (ucast code) 0 s);
     Some (if r = 0 \<and> code = SIGKILL \<and> ucast pid = own then Halts s else Runs (ucast r) s)
   }"

subsection \<open>putc.c and printf.c\<close>

definition libc_fputc :: "u32 \<Rightarrow> u8 \<Rightarrow> 'a int_state_scheme \<Rightarrow> (u32 \<times> 'a int_state_scheme) option" where
  "libc_fputc fd c s = u_write fd [c] s"
definition libc_putc :: "u8 \<Rightarrow> 'a int_state_scheme \<Rightarrow> (u32 \<times> 'a int_state_scheme) option" where
  "libc_putc c s = libc_fputc STDOUT c s"
definition libc_fputsn :: "u32 \<Rightarrow> u8 list \<Rightarrow> u32 \<Rightarrow> 'a int_state_scheme \<Rightarrow> (u32 \<times> 'a int_state_scheme) option" where
  "libc_fputsn fd c n s = u_write fd (take (unat n) c) s"
definition libc_fputs :: "u32 \<Rightarrow> u8 list \<Rightarrow> 'a int_state_scheme \<Rightarrow> (u32 \<times> 'a int_state_scheme) option" where
  "libc_fputs fd c s = do { n \<leftarrow> strlen c; u_write fd (take (nat n) c) s }"
definition libc_puts :: "u8 list \<Rightarrow> 'a int_state_scheme \<Rightarrow> (u32 \<times> 'a int_state_scheme) option" where
  "libc_puts c s = libc_fputs STDOUT c s"

definition u_fprintf :: "u32 \<Rightarrow> string \<Rightarrow> fmt_arg list \<Rightarrow> 'a int_state_scheme \<Rightarrow> 'a int_state_scheme option" where
  "u_fprintf fd fmt ap s = map_option snd (libc_vfprintf (\<lambda>bs s. map_option snd (u_write fd bs s)) (bytes fmt @ [0]) ap s)"

definition u_printf :: "string \<Rightarrow> fmt_arg list \<Rightarrow> 'a int_state_scheme \<Rightarrow> 'a int_state_scheme option" where
  "u_printf fmt ap s = u_fprintf STDOUT fmt ap s"

subsection \<open>getc.c\<close>

text \<open>
  The loop that polls for a key; \<open>irqs\<close> is what the interrupts do between two polls. Between them
  nothing else runs. \<open>int\<close> results of characters have their sign extended.
\<close>

partial_function (option) fgetc_loop ::
  "('a libc_state_scheme \<Rightarrow> 'a libc_state_scheme option) \<Rightarrow> u32 \<Rightarrow> 'a libc_state_scheme \<Rightarrow> 'a libc_state_scheme option"
where
  "fgetc_loop irqs fd s = do {
     (r, s) \<leftarrow> u_read fd (local_addr s ''fgetc.c'') 1 s;
     (if r \<noteq> - 1 then Some s else Option.bind (irqs s) (fgetc_loop irqs fd))
   }"

definition fgetc ::
  "('a libc_state_scheme \<Rightarrow> 'a libc_state_scheme option) \<Rightarrow> u32 \<Rightarrow> 'a libc_state_scheme \<Rightarrow> (u32 \<times> 'a libc_state_scheme) option"
where
  "fgetc irqs fd s =
     (if unchar s \<noteq> - 1 then Some (scast (ucast (unchar s) :: u8), s\<lparr>unchar := - 1\<rparr>)
      else do {
        s \<leftarrow> fgetc_loop irqs fd s;
        Some (scast (load8 (mem s) (local_addr s ''fgetc.c'')), s)
      })"

definition getc ::
  "('a libc_state_scheme \<Rightarrow> 'a libc_state_scheme option) \<Rightarrow> 'a libc_state_scheme \<Rightarrow> (u32 \<times> 'a libc_state_scheme) option"
where
  "getc irqs s = fgetc irqs STDIN s"

definition fungetc :: "u32 \<Rightarrow> u8 \<Rightarrow> 'a libc_state_scheme \<Rightarrow> 'a libc_state_scheme" where
  "fungetc fd c s = (if fd = STDIN then s\<lparr>unchar := scast c\<rparr> else s)"

definition ungetc :: "u8 \<Rightarrow> 'a libc_state_scheme \<Rightarrow> 'a libc_state_scheme" where
  "ungetc c s = fungetc STDIN c s"

definition fgetsn :: "u32 \<Rightarrow> u64 \<Rightarrow> u32 \<Rightarrow> 'a libc_state_scheme \<Rightarrow> (u32 \<times> 'a libc_state_scheme) option" where
  "fgetsn fd c n s =
     (let (has_read, c, s) =
            (if unchar s \<noteq> - 1 \<and> sint n > 1
             then (1, c + 1, s\<lparr>mem := store8 (mem s) c (ucast (unchar s)), unchar := - 1\<rparr>) else (0, c, s));
          s = s\<lparr>unchar := - 1\<rparr>
      in do {
        (r, s) \<leftarrow> u_read fd c (n - has_read) s;
        Some (has_read + r, s)
      })"

text \<open>\<open>char idx\<close> is compared with an \<open>unsigned int\<close>.\<close>

partial_function (option) fgets_loop ::
  "('a libc_state_scheme \<Rightarrow> 'a libc_state_scheme option) \<Rightarrow> u32 \<Rightarrow> u64 \<Rightarrow> u32 \<Rightarrow> u8 \<Rightarrow> 'a libc_state_scheme
   \<Rightarrow> (u32 \<times> 'a libc_state_scheme) option"
where
  "fgets_loop irqs fd c n idx s =
     (if scast idx < n
      then do {
        (k, s) \<leftarrow> fgetc irqs fd s;
        let buffer = (ucast k :: u8);
        (if buffer \<noteq> 10 then fgets_loop irqs fd (c + 1) n (idx + 1) (s\<lparr>mem := store8 (mem s) c buffer\<rparr>)
         else Some (scast idx, s))
      }
      else Some (scast idx, s))"

definition fgets ::
  "('a libc_state_scheme \<Rightarrow> 'a libc_state_scheme option) \<Rightarrow> u32 \<Rightarrow> u64 \<Rightarrow> u32 \<Rightarrow> 'a libc_state_scheme
   \<Rightarrow> (u32 \<times> 'a libc_state_scheme) option"
where
  "fgets irqs fd c n s = fgets_loop irqs fd c n 0 s"

definition gets ::
  "('a libc_state_scheme \<Rightarrow> 'a libc_state_scheme option) \<Rightarrow> u64 \<Rightarrow> u32 \<Rightarrow> 'a libc_state_scheme \<Rightarrow> (u32 \<times> 'a libc_state_scheme) option"
where
  "gets irqs c n s = fgets irqs STDIN c n s"

subsection \<open>scanf.c\<close>

abbreviation SCANF_MAX_STR_BUFFER :: nat where "SCANF_MAX_STR_BUFFER \<equiv> 64"

text \<open>\<open>n\<close> more characters; the index after the last one.\<close>

primrec read_str_loop ::
  "('a libc_state_scheme \<Rightarrow> 'a libc_state_scheme option) \<Rightarrow> u32 \<Rightarrow> u64 \<Rightarrow> nat \<Rightarrow> nat \<Rightarrow> 'a libc_state_scheme
   \<Rightarrow> (nat \<times> 'a libc_state_scheme) option"
where
  "read_str_loop irqs fd str idx 0 s = Some (idx, s)"
| "read_str_loop irqs fd str idx (Suc n) s = do {
     (k, s) \<leftarrow> fgetc irqs fd s;
     let c = (ucast k :: u8);
     if c = 32 \<or> c = 10 then Some (idx, s)
     else do {
       (_, s) \<leftarrow> libc_fputc STDOUT c s;
       read_str_loop irqs fd str (idx + 1) n (s\<lparr>mem := store8 (mem s) (str + of_nat idx) c\<rparr>)
     }
   }"

definition read_str ::
  "('a libc_state_scheme \<Rightarrow> 'a libc_state_scheme option) \<Rightarrow> u32 \<Rightarrow> u64 \<Rightarrow> 'a libc_state_scheme \<Rightarrow> (bool \<times> 'a libc_state_scheme) option"
where
  "read_str irqs fd str s = do {
     (idx, s) \<leftarrow> read_str_loop irqs fd str 0 (SCANF_MAX_STR_BUFFER - 1) s;
     let s = s\<lparr>mem := store8 (mem s) (str + of_nat idx) 0\<rparr>;
     Some (idx > 0, s)
   }"

primrec read_base_10_loop ::
  "('a libc_state_scheme \<Rightarrow> 'a libc_state_scheme option) \<Rightarrow> u32 \<Rightarrow> nat \<Rightarrow> u64 \<Rightarrow> nat \<Rightarrow> 'a libc_state_scheme
   \<Rightarrow> (nat \<times> u64 \<times> 'a libc_state_scheme) option"
where
  "read_base_10_loop irqs fd idx asd 0 s = Some (idx, asd, s)"
| "read_base_10_loop irqs fd idx asd (Suc n) s = do {
     (k, s) \<leftarrow> fgetc irqs fd s;
     let c = (ucast k :: u8);
     (_, s) \<leftarrow> libc_fputc STDOUT c s;
     if chr_int c < 48 \<or> chr_int c > 57 \<or> asd \<ge> (- 1) div 9 then Some (idx, asd, fungetc fd c s)
     else read_base_10_loop irqs fd (idx + 1) (asd * 10 + scast c - 48) n s
   }"

definition read_base_10 ::
  "('a libc_state_scheme \<Rightarrow> 'a libc_state_scheme option) \<Rightarrow> u32 \<Rightarrow> u64 \<Rightarrow> 'a libc_state_scheme \<Rightarrow> (bool \<times> 'a libc_state_scheme) option"
where
  "read_base_10 irqs fd n s = do {
     (idx, asd, s) \<leftarrow> read_base_10_loop irqs fd 0 0 9 s;
     Some (idx > 0, s\<lparr>mem := store32 (mem s) n (ucast asd)\<rparr>)
   }"

text \<open>The arguments are pointers. The result is whether a value was read.\<close>

definition read_fmt ::
  "('a libc_state_scheme \<Rightarrow> 'a libc_state_scheme option) \<Rightarrow> u32 \<Rightarrow> u8 \<Rightarrow> u64 list \<Rightarrow> 'a libc_state_scheme
   \<Rightarrow> (bool \<times> u64 list \<times> 'a libc_state_scheme) option"
where
  "read_fmt irqs fd c ap s =
     (if c = 115 \<or> c = 100 \<or> c = 99 then
        (case ap of
           [] \<Rightarrow> None
         | ptr # ap \<Rightarrow> do {
             (r, s) \<leftarrow>
               (if c = 115 then read_str irqs fd ptr s
                else if c = 100 then read_base_10 irqs fd ptr s
                else do {
                  (k, s) \<leftarrow> fgetc irqs fd s;
                  let s = s\<lparr>mem := store8 (mem s) ptr (ucast k)\<rparr>;
                  (_, s) \<leftarrow> libc_fputc STDOUT (load8 (mem s) ptr) s;
                  Some (True, s)
                });
             (_, s) \<leftarrow> libc_fputc STDOUT 10 s;
             Some (r, ap, s)
           })
      else Some (False, ap, s))"

partial_function (option) skip_blanks ::
  "('a libc_state_scheme \<Rightarrow> 'a libc_state_scheme option) \<Rightarrow> u32 \<Rightarrow> 'a libc_state_scheme \<Rightarrow> (u32 \<times> 'a libc_state_scheme) option"
where
  "skip_blanks irqs fd s = do {
     (l, s) \<leftarrow> fgetc irqs fd s;
     (if l = 32 then skip_blanks irqs fd s else Some (l, s))
   }"

text \<open>\<open>last\<close> is not initialised: reading it before it is set is \<open>None\<close>.\<close>

fun vfscanf_loop ::
  "('a libc_state_scheme \<Rightarrow> 'a libc_state_scheme option) \<Rightarrow> u32 \<Rightarrow> u8 list \<Rightarrow> bool \<Rightarrow> nat \<Rightarrow> u32 option \<Rightarrow> u64 list
   \<Rightarrow> 'a libc_state_scheme \<Rightarrow> (nat \<times> 'a libc_state_scheme) option"
where
  "vfscanf_loop irqs fd [] in_fmt rd lst ap s = None"
| "vfscanf_loop irqs fd (c # ptr) in_fmt rd lst ap s =
     (if c = 0 then Some (rd, s)
      else if in_fmt then do {
        (r, ap, s) \<leftarrow> read_fmt irqs fd c ap s;
        if \<not> r then Some (rd, s)
        else do {
          (l, s) \<leftarrow> skip_blanks irqs fd s;
          vfscanf_loop irqs fd ptr False (rd + 1) (Some l) ap s
        }
      }
      else if c = 37 then vfscanf_loop irqs fd ptr True rd lst ap s
      else do {
        l \<leftarrow> lst;
        if l = 10 then Some (rd, s)
        else do {
          (l, s) \<leftarrow> skip_blanks irqs fd s;
          vfscanf_loop irqs fd ptr False rd (Some l) ap s
        }
      })"

definition vfscanf ::
  "('a libc_state_scheme \<Rightarrow> 'a libc_state_scheme option) \<Rightarrow> u32 \<Rightarrow> string \<Rightarrow> u64 list \<Rightarrow> 'a libc_state_scheme
   \<Rightarrow> (nat \<times> 'a libc_state_scheme) option"
where
  "vfscanf irqs fd fmt ap s = vfscanf_loop irqs fd (bytes fmt @ [0]) False 0 None ap s"

definition fscanf where "fscanf irqs fd fmt ap s = vfscanf irqs fd fmt ap s"
definition scanf where "scanf irqs fmt ap s = vfscanf irqs STDIN fmt ap s"

end
