(* ===== verification/Libc_Print.thy ===== *)
theory Libc_Print
  imports Libc_IO
begin

unbundle bit_operations_syntax

section \<open>Output of programs\<close>

text \<open>
  The C library's formatted output against the kernel's, and operations that write to the screen and
  change nothing else.
\<close>

subsection \<open>The two printf\<close>

text \<open>The formats without \<open>%b\<close>, which the C library does not have.\<close>

fun no_b :: "u8 list \<Rightarrow> bool \<Rightarrow> bool" where
  "no_b [] in_fmt = True"
| "no_b (c # ptr) in_fmt \<longleftrightarrow> c = 0 \<or> (if in_fmt then c \<noteq> 98 \<and> no_b ptr False else no_b ptr (c = 37))"

lemma libc_print_same:
  assumes "c \<noteq> 98" shows "libc_print_number wr ap c s = print_number wr ap c s"
proof -
  have d: "libc_print_dec wr v s = print_dec wr v s" "libc_print_oct wr v s = print_oct wr v s" "libc_print_hex wr v s = print_hex wr v s"
    for v
    using print_based_eq [of 10 128 wr v s] print_based_eq [of 8 128 wr v s] print_based_eq [of 16 128 wr v s]
      digits_bound [of 10 v 20] digits_bound [of 8 v 22] digits_bound [of 16 v 16] unat_lt64 [of v]
    by (simp_all add: libc_print_dec_def libc_print_oct_def libc_print_hex_def print_dec_eq print_oct_eq print_hex_eq)
  show ?thesis unfolding libc_print_number_def print_number_def using assms by (simp add: d)
qed

lemma vfprintf_loop_same:
  "no_b fmt in_fmt \<Longrightarrow> vfprintf_loop libc_print_number wr fmt in_fmt ap s = vfprintf_loop print_number wr fmt in_fmt ap s"
proof (induction fmt arbitrary: in_fmt ap s)
  case (Cons c ptr)
  have l: "vfprintf_loop libc_print_number wr ptr False ap s = vfprintf_loop print_number wr ptr False ap s"
    if "no_b ptr False" for ap s
    using that by (rule Cons.IH)
  have t: "vfprintf_loop libc_print_number wr ptr True ap s = vfprintf_loop print_number wr ptr True ap s"
    if "no_b ptr True" for ap s
    using that by (rule Cons.IH)
  show ?case using Cons.prems by (auto simp: l t libc_print_same split: if_splits)
qed simp

text \<open>The console as the programs see it.\<close>

interpretation prog: byte_sink "\<lambda>bs s. map_option snd (u_write fd bs s)" "\<lambda>s. con_ok s \<and> syscall_set s" screen_only for fd
proof unfold_locales
  fix s t u :: "'a int_state_scheme" and bs
  show "con_ok s \<and> syscall_set s \<Longrightarrow> screen_only s s" using screen_only_refl by blast
  show "screen_only s t \<Longrightarrow> screen_only t u \<Longrightarrow> screen_only s u" by (rule screen_only_trans)
  assume a: "con_ok s \<and> syscall_set s"
  from write_bytes_screen [of s fd bs] obtain v w where w: "write_bytes fd bs s = Some (v, w)" "screen_only s w" using a by blast
  have "con_ok w" using screen_only_ok [OF conjunct1 [OF a] w(2)] .
  moreover have "syscall_set w" using w(2) a by (auto simp: screen_only_def)
  ultimately show "\<exists>s'. map_option snd (u_write fd bs s) = Some s' \<and> (con_ok s' \<and> syscall_set s') \<and> screen_only s s'"
    using w a by (simp add: u_write_def)
qed

lemma u_fprintf_screen:
  assumes "con_ok s" and "syscall_set s" and "fmt_ok (bytes fmt @ [0]) False ap" and "no_b (bytes fmt @ [0]) False"
  shows "\<exists>t. u_fprintf fd fmt ap s = Some t \<and> con_ok t \<and> syscall_set t \<and> screen_only s t"
  using prog.vfprintf_loop_sink [OF assms(3), of s fd] assms(1,2,4)
  by (auto simp: u_fprintf_def libc_vfprintf_def vfprintf_loop_same)

lemma u_printf_screen:
  assumes "con_ok s" and "syscall_set s" and "fmt_ok (bytes fmt @ [0]) False ap" and "no_b (bytes fmt @ [0]) False"
  shows "\<exists>t. u_printf fmt ap s = Some t \<and> con_ok t \<and> syscall_set t \<and> screen_only s t"
  unfolding u_printf_def by (rule u_fprintf_screen [OF assms])

lemma u_putc_screen:
  assumes "con_ok s" and "syscall_set s"
  shows "\<exists>v t. libc_putc c s = Some (v, t) \<and> con_ok t \<and> syscall_set t \<and> screen_only s t"
proof -
  obtain t where "map_option snd (u_write STDOUT [c] s) = Some t" "con_ok t" "syscall_set t" "screen_only s t"
    using prog.wr_rel [of s STDOUT "[c]"] assms by blast
  then show ?thesis by (auto simp: libc_putc_def libc_fputc_def)
qed

subsection \<open>Commands that only write to the screen\<close>

definition shows_only :: "('a int_state_scheme \<Rightarrow> 'a int_state_scheme option) \<Rightarrow> bool" where
  "shows_only f \<longleftrightarrow> (\<forall>s. con_ok s \<and> syscall_set s \<longrightarrow> (\<exists>t. f s = Some t \<and> con_ok t \<and> syscall_set t \<and> screen_only s t))"

lemma shows_onlyD:
  assumes "shows_only f" and "con_ok s" and "syscall_set s"
  obtains t where "f s = Some t" and "con_ok t" and "syscall_set t" and "screen_only s t"
  using assms unfolding shows_only_def by blast

lemma shows_bind:
  assumes "shows_only f" and "shows_only g"
  shows "shows_only (\<lambda>s. Option.bind (f s) g)"
  unfolding shows_only_def
proof (intro allI impI)
  fix s :: "'a int_state_scheme" assume "con_ok s \<and> syscall_set s"
  then obtain t where t: "f s = Some t" "con_ok t" "syscall_set t" "screen_only s t" using assms(1) unfolding shows_only_def by blast
  moreover obtain u where "g t = Some u" "con_ok u" "syscall_set u" "screen_only t u"
    using assms(2) t unfolding shows_only_def by blast
  ultimately show "\<exists>u. Option.bind (f s) g = Some u \<and> con_ok u \<and> syscall_set u \<and> screen_only s u"
    using screen_only_trans by auto
qed

lemma shows_none: "(\<And>s. f s = Some s) \<Longrightarrow> shows_only f"
  unfolding shows_only_def using screen_only_refl by auto

lemma shows_printf: "fmt_ok (bytes fmt @ [0]) False ap \<Longrightarrow> no_b (bytes fmt @ [0]) False \<Longrightarrow> shows_only (u_printf fmt ap)"
  unfolding shows_only_def using u_printf_screen by blast

lemma shows_putc: "shows_only (\<lambda>s. map_option snd (libc_putc c s))"
  unfolding shows_only_def using u_putc_screen by (metis option.simps(9) snd_conv)

end
