(* ===== verification/Libc_Heap.thy ===== *)
theory Libc_Heap
  imports Libc_IO
begin

unbundle bit_operations_syntax

section \<open>Userland/libc/memory.c: malloc and free\<close>

text \<open>
  The heap of a user program: a list of blocks like the kernel's, with 64-bit sizes, on memory from
  \<open>mmap\<close>. \<open>merge_free_blocks\<close> is not called by anything.
\<close>

subsection \<open>The fields of a block\<close>

definition ub_size :: "mem \<Rightarrow> u64 \<Rightarrow> u64" where "ub_size m b = load64 m b"
definition ub_next :: "mem \<Rightarrow> u64 \<Rightarrow> u64" where "ub_next m b = load64 m (b + 8)"
definition ub_prev :: "mem \<Rightarrow> u64 \<Rightarrow> u64" where "ub_prev m b = load64 m (b + 16)"
definition ub_free :: "mem \<Rightarrow> u64 \<Rightarrow> u32" where "ub_free m b = load32 m (b + 24)"

definition set_ub_size :: "u64 \<Rightarrow> u64 \<Rightarrow> mem \<Rightarrow> mem" where "set_ub_size b v m = store64 m b v"
definition set_ub_next :: "u64 \<Rightarrow> u64 \<Rightarrow> mem \<Rightarrow> mem" where "set_ub_next b v m = store64 m (b + 8) v"
definition set_ub_prev :: "u64 \<Rightarrow> u64 \<Rightarrow> mem \<Rightarrow> mem" where "set_ub_prev b v m = store64 m (b + 16) v"
definition set_ub_free :: "u64 \<Rightarrow> u32 \<Rightarrow> mem \<Rightarrow> mem" where "set_ub_free b v m = store32 m (b + 24) v"

abbreviation LIBC_BLOCK_SIZE :: u64 where "LIBC_BLOCK_SIZE \<equiv> 32"
abbreviation LIBC_MIN_ALLOC :: u64 where "LIBC_MIN_ALLOC \<equiv> 4"

subsection \<open>The operations\<close>

text \<open>The C library has its own \<open>memset\<close>, the same as the kernel's.\<close>

definition libc_memset :: "mem \<Rightarrow> u64 \<Rightarrow> u32 \<Rightarrow> u64 \<Rightarrow> mem \<times> u64" where
  "libc_memset m destination c len = (memset_loop m destination (ucast c) (unat len), destination)"

text \<open>\<open>clearBSS\<close> with the linker's addresses of \<open>bss\<close> and \<open>endOfBinary\<close>.\<close>

definition libc_clearBSS :: "u64 \<Rightarrow> u64 \<Rightarrow> mem \<Rightarrow> mem" where
  "libc_clearBSS bss endOfBinary m = fst (libc_memset m bss 0 (endOfBinary - bss))"

definition ub_fits :: "mem \<Rightarrow> u64 \<Rightarrow> u64 \<Rightarrow> bool" where
  "ub_fits m b size64 \<longleftrightarrow> ub_free m b \<noteq> 0 \<and> ub_size m b \<ge> size64"

partial_function (option) u_find_loop :: "u64 \<Rightarrow> u64 \<Rightarrow> u64 \<Rightarrow> mem \<Rightarrow> (u64 \<times> u64) option" where
  "u_find_loop cur_block last_block size64 m =
     (if cur_block \<noteq> 0 \<and> \<not> ub_fits m cur_block size64
      then u_find_loop (ub_next m cur_block) cur_block size64 m
      else Some (cur_block, last_block))"

definition u_find_block :: "u64 \<Rightarrow> u64 \<Rightarrow> 'a libc_state_scheme \<Rightarrow> (u64 \<times> u64) option" where
  "u_find_block last_block size64 s = u_find_loop (heap_base s) last_block size64 (mem s)"

definition u_split_block :: "u64 \<Rightarrow> u64 \<Rightarrow> mem \<Rightarrow> mem" where
  "u_split_block b size64 m =
     (let new_block = b + LIBC_BLOCK_SIZE + size64;
          m = set_ub_next new_block (ub_next m b) m;
          m = set_ub_prev new_block b m;
          m = set_ub_free new_block 1 m;
          m = set_ub_size new_block (ub_size m b - size64 - LIBC_BLOCK_SIZE) m;
          m = set_ub_next b new_block m;
          m = set_ub_size b size64 m
      in if ub_next m new_block \<noteq> 0 then set_ub_prev (ub_next m new_block) new_block m else m)"

definition u_expand_heap :: "u64 \<Rightarrow> u64 \<Rightarrow> 'a libc_state_scheme \<Rightarrow> (u64 \<times> 'a libc_state_scheme) option" where
  "u_expand_heap last_block size64 s = do {
     let needed_base_addr = (if last_block \<noteq> 0 then last_block + LIBC_BLOCK_SIZE + ub_size (mem s) last_block else 0);
     (result, s) \<leftarrow> u_mmap needed_base_addr (LIBC_BLOCK_SIZE + size64) s;
     if result = 0 then Some (0, s)
     else do {
       let s = s\<lparr>last_mmap := result + LIBC_BLOCK_SIZE\<rparr>;
       let new_block = result;
       let m = set_ub_size new_block size64 (mem s);
       let m = set_ub_free new_block 0 m;
       let m = set_ub_prev new_block last_block m;
       let m = set_ub_next new_block 0 m;
       Some (new_block,
         if last_block \<noteq> 0 then s\<lparr>mem := set_ub_next last_block new_block m\<rparr>
         else s\<lparr>mem := m, heap_base := new_block\<rparr>)
     }
   }"

definition u_malloc :: "u64 \<Rightarrow> 'a libc_state_scheme \<Rightarrow> (u64 \<times> 'a libc_state_scheme) option" where
  "u_malloc size64 s =
     (if heap_base s \<noteq> 0
      then do {
        (current_block, last_block) \<leftarrow> u_find_block (heap_base s) size64 s;
        if current_block \<noteq> 0
        then do {
          let m = (if ub_size (mem s) current_block - size64 \<ge> LIBC_BLOCK_SIZE + LIBC_MIN_ALLOC
                   then u_split_block current_block size64 (mem s) else mem s);
          Some (current_block + LIBC_BLOCK_SIZE, s\<lparr>mem := set_ub_free current_block 0 m\<rparr>)
        }
        else do {
          (current_block, s) \<leftarrow> u_expand_heap last_block size64 s;
          Some (if current_block = 0 then 0 else current_block + LIBC_BLOCK_SIZE, s)
        }
      }
      else do {
        (current_block, s) \<leftarrow> u_expand_heap 0 size64 s;
        Some (if current_block = 0 then 0 else current_block + LIBC_BLOCK_SIZE, s)
      })"

definition get_base_block :: "'a libc_state_scheme \<Rightarrow> u64" where
  "get_base_block s = heap_base s"

definition valid_address :: "u64 \<Rightarrow> 'a libc_state_scheme \<Rightarrow> bool" where
  "valid_address address s \<longleftrightarrow> heap_base s \<noteq> 0 \<and> address \<ge> heap_base s \<and> address \<le> last_mmap s"

partial_function (option) u_get_block_loop :: "u64 \<Rightarrow> u64 \<Rightarrow> mem \<Rightarrow> u64 option" where
  "u_get_block_loop cur_block address m =
     (if cur_block = 0 then Some 0
      else if cur_block + LIBC_BLOCK_SIZE = address then Some cur_block
      else u_get_block_loop (ub_next m cur_block) address m)"

definition u_get_block :: "u64 \<Rightarrow> 'a libc_state_scheme \<Rightarrow> u64 option" where
  "u_get_block address s = u_get_block_loop (heap_base s) address (mem s)"

definition u_free :: "u64 \<Rightarrow> 'a libc_state_scheme \<Rightarrow> 'a libc_state_scheme option" where
  "u_free address s =
     (if valid_address address s
      then do {
        b \<leftarrow> u_get_block address s;
        if b = 0 then Some s
        else do {
          let s = s\<lparr>mem := set_ub_free b 1 (mem s)\<rparr>;
          if ub_next (mem s) b = 0
          then do {
            let s = (if ub_prev (mem s) b \<noteq> 0 then s\<lparr>mem := set_ub_next (ub_prev (mem s) b) 0 (mem s)\<rparr>
                     else s\<lparr>heap_base := 0\<rparr>);
            let s = s\<lparr>last_mmap := last_mmap s - ub_size (mem s) b - LIBC_BLOCK_SIZE\<rparr>;
            u_munmap b (ub_size (mem s) b + LIBC_BLOCK_SIZE) s
          }
          else Some s
        }
      }
      else Some s)"

definition merge_free_blocks :: "u64 \<Rightarrow> u64 \<Rightarrow> mem \<Rightarrow> mem" where
  "merge_free_blocks prev_block block_to_free m =
     (let m = set_ub_size prev_block (ub_size m prev_block + (ub_size m block_to_free + LIBC_BLOCK_SIZE)) m;
          m = set_ub_next prev_block (ub_next m block_to_free) m
      in if ub_next m prev_block \<noteq> 0 then set_ub_prev (ub_next m prev_block) prev_block m else m)"

end
