(* ===== verification/Shell_Table.thy ===== *)
theory Shell_Table
  imports Libc_IO
begin

unbundle bit_operations_syntax

section \<open>Userland/shell/shell.c: the table of commands\<close>

text \<open>
  The 23 commands with their help texts, the search for a command, and the splitting of the line into
  arguments. A string is its bytes with the terminator.
\<close>

abbreviation SHELL_BUFFER_SIZE :: nat where "SHELL_BUFFER_SIZE \<equiv> 128"
abbreviation SHELL_TEXT :: string where "SHELL_TEXT \<equiv> ''# ''"

definition WELCOME_TEXT :: string where
  "WELCOME_TEXT = [CHR 0x0A, CHR 0x0A] @ '' Prompt ready. Type \"commands\" for a list of commands (duh).'' @ [CHR 0x0A, CHR 0x0A]"

subsection \<open>The table of commands\<close>

text \<open>The functions that the table points to, by their names in command.c.\<close>

datatype cmd_func =
    C_echo | C_clear | C_date | C_time | C_set_date | C_set_time
  | C_getchar_cmd | C_printf_cmd | C_scanf_cmd | C_help | C_halt_system
  | C_commands | C_print_ascii_table | C_setcolor | C_kill_cmd | C_producer_cmd
  | C_exec_string_malloc | C_exec_malloc | C_exec_free | C_exec_print_heap | C_consumer_cmd | C_close_pipe | C_get_pipes

text \<open>\<open>func\<close> is null until the table is initialised; the strings are their bytes with the terminator.\<close>

record cmd_entry =
  cmd_name :: "u8 list"
  cmd_help :: "u8 list"
  cmd_func :: "cmd_func option"

record shell_state = libc_state +
  shell_buffer :: "u8 list"
  curr_pos :: int
  cmd_table :: "cmd_entry list"

definition cmd :: "string \<Rightarrow> cmd_func \<Rightarrow> string \<Rightarrow> cmd_entry" where
  "cmd name func help = \<lparr>cmd_name = bytes name @ [0], cmd_help = bytes help @ [0], cmd_func = Some func\<rparr>"

definition shell_commands :: "cmd_entry list" where
  "shell_commands = [
    cmd ''echo'' C_echo (''Echo repeats the input string following echo statement '' @ [CHR 0x0A] @ '' example: \"echo Hello I am using echo\".'' @ [CHR 0x0A]),
    cmd ''clear'' C_clear (''Clears the screen, uses no arguments, therefore will ignore any ones received.'' @ [CHR 0x0A]),
    cmd ''date'' C_date (''Prints current system date on screen with format: \"dd/mm/yy\".'' @ [CHR 0x0A]),
    cmd ''time'' C_time (''Prints current system time on screenwith format: \"hs:mm:ss\".'' @ [CHR 0x0A]),
    cmd ''setdate'' C_set_date (''Sets system date, format must be dd/mm/yyyy.'' @ [CHR 0x0A] @ ''Example: \"setdate 05/05/2015\".'' @ [CHR 0x0A]),
    cmd ''settime'' C_set_time (''Sets system time, format must be ss:mm:hh.'' @ [CHR 0x0A] @ '' Example: \" settime 10:59:22\".'' @ [CHR 0x0A]),
    cmd ''getchar'' C_getchar_cmd (''Test command for directive board to test getchar() functionality.'' @ [CHR 0x0A]),
    cmd ''printf'' C_printf_cmd (''Test command for supreme leaders to test printf() functionality .'' @ [CHR 0x0A]),
    cmd ''scanf'' C_scanf_cmd (''Test command for the High Command to test scanf() functionality.'' @ [CHR 0x0A]),
    cmd ''help'' C_help (''Displays information about following command, syntaxt: \"help \"command_name\"\".'' @ [CHR 0x0A]),
    cmd ''halt'' C_halt_system (''Halts the system.'' @ [CHR 0x0A]),
    cmd ''commands'' C_commands (''Displays list of available commands.'' @ [CHR 0x0A]),
    cmd ''printascii'' C_print_ascii_table (''Prints entire list of ascii characters in order.'' @ [CHR 0x0A]),
    cmd ''setcolor'' C_setcolor (''Sets the console color (duh).'' @ [CHR 0x0A]),
    cmd ''kill'' C_kill_cmd (''Terminates process with selected id, format is: \"kill id\".'' @ [CHR 0x0A]),
    cmd ''producer'' C_producer_cmd (''Initializes a producer task, input is: \"producer fd message\". '' @ [CHR 0x0A]),
    cmd ''smalloc'' C_exec_string_malloc (''Test function to instance memory for a given string and returns the virtual address. '' @ [CHR 0x0A]),
    cmd ''malloc'' C_exec_malloc (''Receives the amount of bytes to be insanced, and return the virtual address.'' @ [CHR 0x0A]),
    cmd ''free'' C_exec_free (''Receives the virtual addresses to be freed.'' @ [CHR 0x0A]),
    cmd ''pheap'' C_exec_print_heap (''Prints current heap.'' @ [CHR 0x0A]),
    cmd ''consumer'' C_consumer_cmd (''Initializes a consumer task, input is: \"producer fd numberToRead\". '' @ [CHR 0x0A]),
    cmd ''pipeclose'' C_close_pipe (''Closes the Pipe, format is: \"pipeclose fd\".'' @ [CHR 0x0A]),
    cmd ''getpipes'' C_get_pipes (''Returns the current open pipes. Receives no argumentes, ignores any given.'' @ [CHR 0x0A])]"

definition initialize_cmd_table :: "'a shell_state_scheme \<Rightarrow> 'a shell_state_scheme" where
  "initialize_cmd_table s = s\<lparr>cmd_table := shell_commands\<rparr>"

definition get_cmd_count :: "'a shell_state_scheme \<Rightarrow> nat" where
  "get_cmd_count s = length (cmd_table s)"

definition get_command_table :: "'a shell_state_scheme \<Rightarrow> cmd_entry list" where
  "get_command_table s = cmd_table s"

fun cmd_index_loop :: "u8 list \<Rightarrow> cmd_entry list \<Rightarrow> int \<Rightarrow> int option" where
  "cmd_index_loop name [] i = Some (- 1)"
| "cmd_index_loop name (e # es) i = do {
     r \<leftarrow> strcmp name (cmd_name e);
     if r = 0 then Some i else cmd_index_loop name es (i + 1)
   }"

definition get_cmd_index :: "u8 list \<Rightarrow> 'a shell_state_scheme \<Rightarrow> int option" where
  "get_cmd_index name s = cmd_index_loop name (cmd_table s) 0"

primrec commands_loop :: "cmd_entry list \<Rightarrow> 'a int_state_scheme \<Rightarrow> 'a int_state_scheme option" where
  "commands_loop [] s = Some s"
| "commands_loop (e # es) s = do {
     s \<leftarrow> u_printf ([CHR 0x09] @ ''%s'' @ [CHR 0x0A]) [Arg_str (cmd_name e)] s;
     commands_loop es s
   }"

definition shell_print_commands :: "'a shell_state_scheme \<Rightarrow> 'a shell_state_scheme option" where
  "shell_print_commands s = commands_loop (cmd_table s) s"

subsection \<open>Finding a command and its arguments\<close>

text \<open>The first entry whose name begins the line, -1 for none.\<close>

fun find_command :: "cmd_entry list \<Rightarrow> int \<Rightarrow> u8 list \<Rightarrow> int option" where
  "find_command [] i buffer = Some (- 1)"
| "find_command (e # es) i buffer = do {
     b \<leftarrow> substr (cmd_name e) buffer;
     if b then Some i else find_command es (i + 1) buffer
   }"

definition parse_command :: "cmd_entry list \<Rightarrow> u8 list \<Rightarrow> int option" where
  "parse_command table buffer = do {
     c \<leftarrow> obj_get buffer 0;
     if c = 0 then Some (- 1)
     else do {
       cmd_no \<leftarrow> find_command table 0 buffer;
       e \<leftarrow> obj_get table cmd_no;
       i \<leftarrow> strlen (cmd_name e);
       nxt \<leftarrow> obj_get buffer i;
       Some (if nxt = 32 \<or> nxt = 0 then cmd_no else - 1)
     }
   }"

text \<open>
  \<open>get_arguments\<close> ends each argument with a null byte in the buffer and returns where they begin.
  The loops run off the end of an object without a terminator (\<open>None\<close>).
\<close>

fun skip_spaces :: "u8 list \<Rightarrow> nat \<Rightarrow> nat option" where
  "skip_spaces [] i = None"
| "skip_spaces (c # buffer) i = (if c \<noteq> 0 \<and> c = 32 then skip_spaces buffer (i + 1) else Some i)"

fun arguments_loop :: "u8 list \<Rightarrow> nat \<Rightarrow> nat \<Rightarrow> bool \<Rightarrow> (nat list \<times> u8 list) option" where
  "arguments_loop [] i arg in_arg = None"
| "arguments_loop (c # buffer) i arg in_arg =
     (if c = 0 \<or> arg \<ge> 64 then Some ([], c # buffer)
      else if c = 32 then map_option (\<lambda>(args, b). (args, 0 # b)) (arguments_loop buffer (i + 1) arg False)
      else if \<not> in_arg then map_option (\<lambda>(args, b). (i # args, c # b)) (arguments_loop buffer (i + 1) (arg + 1) True)
      else map_option (\<lambda>(args, b). (args, c # b)) (arguments_loop buffer (i + 1) arg True))"

definition get_arguments :: "u8 list \<Rightarrow> (nat list \<times> u8 list) option" where
  "get_arguments buffer = do {
     i \<leftarrow> skip_spaces buffer 0;
     (args, b) \<leftarrow> arguments_loop (drop i buffer) i 0 False;
     Some (args, take i buffer @ b)
   }"

text \<open>The strings that the argument pointers point to.\<close>

definition argument_strings :: "nat list \<Rightarrow> u8 list \<Rightarrow> u8 list list" where
  "argument_strings args b = map (\<lambda>i. drop i b) args"

end
