(* ===== verification/Commands.thy ===== *)
theory Commands
  imports Libc_Heap Shell_Table
begin

unbundle bit_operations_syntax

section \<open>Userland/shell/command.c: the commands\<close>

text \<open>
  Each command with its arguments, the strings \<open>args\<close> points to, and their number. Structures whose
  address is passed on lie in memory at the address \<open>local_addr\<close> gives for their name.
\<close>

abbreviation IOCTL_MOVE :: u64 where "IOCTL_MOVE \<equiv> 0"
abbreviation IOCTL_CLR :: u64 where "IOCTL_CLR \<equiv> 1"
abbreviation IOCTL_SET_COLOR :: u64 where "IOCTL_SET_COLOR \<equiv> 2"

definition IOCTL_HIGH_LOW :: "int \<Rightarrow> int \<Rightarrow> u64" where
  "IOCTL_HIGH_LOW high low = push_bit 8 (word_of_int high AND 0xFF) OR (word_of_int low AND 0xFF)"

definition INVALID_DATE :: string where
  "INVALID_DATE = (''Invalid date inserted, please respect dd/mm/yy format & insert a valid date.'' @ [CHR 0x0A])"
definition INVALID_TIME :: string where
  "INVALID_TIME = (''No arguments were sent to command settime format musut be ss:mm:hh '' @ [CHR 0x0A])"
definition KILL_ERROR :: string where
  "KILL_ERROR = (''The id of the process to be killed must be inserted. Format: \"kill id\".'' @ [CHR 0x0A])"

text \<open>
  The arguments of a command: an \<open>int\<close> passed to a function of variable arguments is in a 32-bit
  register, a \<open>char\<close> is converted to \<open>int\<close> first. A command returns an \<open>int\<close>; one after which the
  program does not go on has an \<open>outcome\<close>. An argument behind the last is an uninitialised pointer.
\<close>

definition arg_int :: "int \<Rightarrow> fmt_arg" where
  "arg_int i = Arg_num (ucast (word_of_int i :: u32))"

definition obind :: "'b outcome option \<Rightarrow> (u64 \<Rightarrow> 'b \<Rightarrow> 'b outcome option) \<Rightarrow> 'b outcome option" where
  "obind r f = (case r of None \<Rightarrow> None | Some (Halts s) \<Rightarrow> Some (Halts s) | Some (Runs v s) \<Rightarrow> f v s)"

definition returns :: "u32 \<Rightarrow> 'b option \<Rightarrow> (u32 \<times> 'b) option" where
  "returns v r = map_option (Pair v) r"

subsection \<open>Commands\<close>

definition help_error_print :: "'a shell_state_scheme \<Rightarrow> 'a shell_state_scheme option" where
  "help_error_print s =
     u_printf ([CHR 0x0A] @ ''Invoke help as follows: \"help \"command_name\"\".'' @ [CHR 0x0A] @ ''To see list of available commands type \"commands\"'') [] s"

definition help_cmd :: "u8 list list \<Rightarrow> int \<Rightarrow> 'a shell_state_scheme \<Rightarrow> (u32 \<times> 'a shell_state_scheme) option" where
  "help_cmd argv argc s = returns 0
     (if argc = 1 then do {
        name \<leftarrow> obj_get argv 0;
        cmd_index \<leftarrow> get_cmd_index name s;
        if cmd_index \<noteq> - 1 then do {
          e \<leftarrow> obj_get (get_command_table s) cmd_index;
          u_printf ''%s'' [Arg_str (cmd_help e)] s
        }
        else help_error_print s
      }
      else if argc = 0 then help_error_print s else Some s)"

primrec echo_loop :: "nat \<Rightarrow> int \<Rightarrow> u8 list list \<Rightarrow> 'a int_state_scheme \<Rightarrow> 'a int_state_scheme option" where
  "echo_loop 0 i args s = Some s"
| "echo_loop (Suc n) i args s = do {
     arg \<leftarrow> obj_get args i;
     s \<leftarrow> u_printf ''%s '' [Arg_str arg] s;
     echo_loop n (i + 1) args s
   }"

definition echo :: "u8 list list \<Rightarrow> int \<Rightarrow> 'a int_state_scheme \<Rightarrow> (u32 \<times> 'a int_state_scheme) option" where
  "echo args argc s = do {
     s \<leftarrow> echo_loop (nat argc) 0 args s;
     (_, s) \<leftarrow> libc_putc 10 s;
     Some (0, s)
   }"

definition clear :: "'a int_state_scheme \<Rightarrow> (u32 \<times> 'a int_state_scheme) option" where
  "clear s = do {
     (_, s) \<leftarrow> u_ioctl STDOUT IOCTL_CLR 0 s;
     (_, s) \<leftarrow> u_ioctl STDOUT IOCTL_MOVE 0 s;
     Some (0, s)
   }"

definition commands_cmd :: "'a shell_state_scheme \<Rightarrow> (u32 \<times> 'a shell_state_scheme) option" where
  "commands_cmd s = do {
     s \<leftarrow> u_printf (''Available commands are: '' @ [CHR 0x0A]) [] s;
     returns 0 (shell_print_commands s)
   }"

text \<open>The fields of \<open>struct rtc_time\<close> are bytes: sec, min, hour, day, mon, year.\<close>

definition date :: "'a libc_state_scheme \<Rightarrow> (u32 \<times> 'a libc_state_scheme) option" where
  "date s = do {
     let t = local_addr s ''date.time_struct'';
     s \<leftarrow> u_gettime t s;
     returns 0 (u_printf (''%d/%d/%d'' @ [CHR 0x0A])
       [Arg_num (ucast (load8 (mem s) (t + 3))), Arg_num (ucast (load8 (mem s) (t + 4))), Arg_num (ucast (load8 (mem s) (t + 5)))] s)
   }"

definition time_cmd :: "'a libc_state_scheme \<Rightarrow> (u32 \<times> 'a libc_state_scheme) option" where
  "time_cmd s = do {
     let t = local_addr s ''time.time_struct'';
     s \<leftarrow> u_gettime t s;
     returns 0 (u_printf (''%d:%d:%d'' @ [CHR 0x0A])
       [Arg_num (ucast (load8 (mem s) (t + 2))), Arg_num (ucast (load8 (mem s) (t + 1))), Arg_num (ucast (load8 (mem s) t))] s)
   }"

text \<open>\<open>(c >= '0') && (c <+ '9')\<close>: a unary plus.\<close>

definition is_num :: "u8 \<Rightarrow> bool" where
  "is_num c \<longleftrightarrow> chr_int c \<ge> 48 \<and> chr_int c < 57"

definition is_leap_year :: "int \<Rightarrow> bool" where
  "is_leap_year year \<longleftrightarrow> (year mod 4 = 0 \<and> year mod 100 \<noteq> 0) \<or> year mod 400 = 0"

definition shell_monthlen :: "int list" where
  "shell_monthlen = [31, 28, 31, 30, 31, 30, 31, 31, 30, 31, 30, 31]"

definition shell_valid_date :: "int \<Rightarrow> int \<Rightarrow> int \<Rightarrow> bool" where
  "shell_valid_date day month year \<longleftrightarrow>
     (if month < 1 \<or> day < 1 \<or> month > 12 then False
      else (let ml = (if is_leap_year year \<and> month = 2 then shell_monthlen[1 := shell_monthlen ! 1 + 1] else shell_monthlen)
            in \<not> (day > ml ! nat (month - 1) \<or> day < 1)))"

definition shell_valid_time :: "int \<Rightarrow> int \<Rightarrow> int \<Rightarrow> bool" where
  "shell_valid_time sec mnt hrs \<longleftrightarrow> \<not> (sec > 60 \<or> sec < 0 \<or> mnt > 60 \<or> mnt < 0 \<or> hrs > 24 \<or> sec < 0)"

text \<open>
  Both parsers: eight characters, the third and the sixth \<open>sep\<close>, the others digits, as three numbers.
  \<open>Some None\<close> is the result 0, which leaves the output parameters unused.
\<close>

definition two_digits :: "u8 \<Rightarrow> u8 \<Rightarrow> int" where
  "two_digits a b = (chr_int a - 48) * 10 + (chr_int b - 48)"

definition parse_fields :: "u8 \<Rightarrow> u8 list \<Rightarrow> (int \<times> int \<times> int) option option" where
  "parse_fields sep str = do {
     len \<leftarrow> strlen str;
     if len \<noteq> 8 then Some None
     else do {
       c2 \<leftarrow> obj_get str 2; c5 \<leftarrow> obj_get str 5;
       if c2 \<noteq> sep \<or> c5 \<noteq> sep then Some None
       else do {
         c0 \<leftarrow> obj_get str 0; c1 \<leftarrow> obj_get str 1; c3 \<leftarrow> obj_get str 3; c4 \<leftarrow> obj_get str 4;
         c6 \<leftarrow> obj_get str 6; c7 \<leftarrow> obj_get str 7;
         Some (if \<not> is_num c0 \<or> \<not> is_num c1 then None
               else if \<not> is_num c3 \<or> \<not> is_num c4 then None
               else if \<not> is_num c6 \<or> \<not> is_num c7 then None
               else Some (two_digits c0 c1, two_digits c3 c4, two_digits c6 c7))
       }
     }
   }"

definition parse_date :: "u8 list \<Rightarrow> (int \<times> int \<times> int) option option" where
  "parse_date str = map_option (\<lambda>r. case r of None \<Rightarrow> None
     | Some (days, months, years) \<Rightarrow> if shell_valid_date days months years then Some (days, months, years) else None)
     (parse_fields 47 str)"

definition parse_time :: "u8 list \<Rightarrow> (int \<times> int \<times> int) option option" where
  "parse_time str = map_option (\<lambda>r. case r of None \<Rightarrow> None
     | Some (seconds, minutes, hours) \<Rightarrow> if shell_valid_time seconds minutes hours then Some (seconds, minutes, hours) else None)
     (parse_fields 58 str)"

text \<open>The call of \<open>settime\<close> is behind the \<open>return\<close>.\<close>

definition set_date :: "u8 list list \<Rightarrow> int \<Rightarrow> 'a libc_state_scheme \<Rightarrow> (u32 \<times> 'a libc_state_scheme) option" where
  "set_date args argc s = do {
     let t = local_addr s ''set_date.time_struct'';
     s \<leftarrow> u_gettime t s;
     if argc < 1 then returns 0 (u_fprintf STDERR INVALID_DATE [] s)
     else do {
       arg \<leftarrow> obj_get args 0;
       r \<leftarrow> parse_date arg;
       case r of
         None \<Rightarrow> returns 0 (u_fprintf STDERR INVALID_DATE [] s)
       | Some (days, months, years) \<Rightarrow>
           Some (0, s\<lparr>mem := store8 (store8 (store8 (mem s) (t + 5) (word_of_int years)) (t + 4) (word_of_int months))
                              (t + 3) (word_of_int days)\<rparr>)
     }
   }"

definition set_time :: "u8 list list \<Rightarrow> int \<Rightarrow> 'a libc_state_scheme \<Rightarrow> (u32 \<times> 'a libc_state_scheme) option" where
  "set_time args argc s = do {
     let t = local_addr s ''set_time.time_struct'';
     s \<leftarrow> u_gettime t s;
     if argc < 1 then returns 0 (u_fprintf STDERR INVALID_TIME [] s)
     else do {
       arg \<leftarrow> obj_get args 0;
       r \<leftarrow> parse_time arg;
       case r of
         None \<Rightarrow> returns 0 (u_fprintf STDERR INVALID_TIME [] s)
       | Some (seconds, minutes, hours) \<Rightarrow>
           returns 0 (u_settime t (s\<lparr>mem := store8 (store8 (store8 (mem s) t (word_of_int seconds)) (t + 1) (word_of_int minutes))
                                             (t + 2) (word_of_int hours)\<rparr>))
     }
   }"

definition halt_system :: "'a int_state_scheme \<Rightarrow> 'a int_state_scheme outcome option" where
  "halt_system s = u_halt s"

primrec ascii_loop :: "nat \<Rightarrow> 'a int_state_scheme \<Rightarrow> 'a int_state_scheme option" where
  "ascii_loop 0 s = Some s"
| "ascii_loop (Suc n) s = do {
     let i = 127 - int n;
     s \<leftarrow> u_printf ''%x: %c'' [arg_int i, arg_int (if i < 32 then 32 else i)] s;
     s \<leftarrow> (if i mod 8 \<noteq> 0 then u_printf ('' '' @ [CHR 0x09] @ ''| '') [] s else map_option snd (libc_putc 10 s));
     ascii_loop n s
   }"

definition print_ascii_table :: "'a int_state_scheme \<Rightarrow> (u32 \<times> 'a int_state_scheme) option" where
  "print_ascii_table s = do {
     s \<leftarrow> ascii_loop 128 s;
     (i, s) \<leftarrow> libc_putc 10 s;
     returns 0 (u_printf (''last call to putc returned %d'' @ [CHR 0x0A]) [Arg_num (ucast i)] s)
   }"

primrec u_printfs :: "string list \<Rightarrow> 'a int_state_scheme \<Rightarrow> 'a int_state_scheme option" where
  "u_printfs [] s = Some s"
| "u_printfs (f # fs) s = do { s \<leftarrow> u_printf f [] s; u_printfs fs s }"

definition setcolor_usage :: "string list" where
  "setcolor_usage =
     [(''usage: setcolor foreground background'' @ [CHR 0x0A]),
      ([CHR 0x0A] @ ''Colors are:'' @ [CHR 0x0A]),
      ([CHR 0x09] @ ''darker       | lighter'' @ [CHR 0x0A]),
      ([CHR 0x09] @ ''black:     0 | light gray:   8'' @ [CHR 0x0A]),
      ([CHR 0x09] @ ''blue:      1 | celurean:     9'' @ [CHR 0x0A]),
      ([CHR 0x09] @ ''green:     2 | light green: 10'' @ [CHR 0x0A]),
      ([CHR 0x09] @ ''cyan:      3 | light cyan:  11'' @ [CHR 0x0A]),
      ([CHR 0x09] @ ''red:       4 | light red:   12'' @ [CHR 0x0A]),
      ([CHR 0x09] @ ''magenta 1: 5 | magenta 2:   13'' @ [CHR 0x0A]),
      ([CHR 0x09] @ ''brown:     6 | yellow:      14'' @ [CHR 0x0A]),
      ([CHR 0x09] @ ''gray 1:    7 | white:       15'' @ [CHR 0x0A]),
      ([CHR 0x0A] @ ''note: you might not choose two of the same.'' @ [CHR 0x0A])]"

definition setcolor :: "u8 list list \<Rightarrow> int \<Rightarrow> 'a int_state_scheme \<Rightarrow> 'a int_state_scheme outcome option" where
  "setcolor args argc s =
     (if argc \<noteq> 2 then do {
        arg \<leftarrow> obj_get args 0;
        fore \<leftarrow> atoi arg;
        obind
          (if fore = 42 then do {
             (pid, s) \<leftarrow> u_getpid s;
             s \<leftarrow> u_printf (''pid is %d'' @ [CHR 0x0A]) [Arg_num (ucast pid)] s;
             (pid, s) \<leftarrow> u_getpid s;
             u_kill pid 9 s
           }
           else Some (Runs 0 s))
          (\<lambda>_ s. map_option (Runs 0) (u_printfs setcolor_usage s))
      }
      else do {
        a \<leftarrow> obj_get args 0; fore \<leftarrow> atoi a;
        b \<leftarrow> obj_get args 1; back \<leftarrow> atoi b;
        if fore = back
        then map_option (Runs 0) (u_fprintf STDERR (''Aaaand you chose two of the same...'' @ [CHR 0x0A] @ '' Nope.'' @ [CHR 0x0A]) [] s)
        else if fore \<ge> 16 \<or> back \<ge> 16 \<or> fore < 0 \<or> back < 0
        then map_option (Runs 0) (u_fprintf STDERR (''Invalid parameter: %d, %d'' @ [CHR 0x0A]) [arg_int fore, arg_int back] s)
        else do {
          (_, s) \<leftarrow> u_ioctl STDOUT IOCTL_SET_COLOR (IOCTL_HIGH_LOW fore back) s;
          (_, s) \<leftarrow> clear s;
          Some (Runs 0 s)
        }
      })"

definition kill_cmd :: "u8 list list \<Rightarrow> int \<Rightarrow> 'a int_state_scheme \<Rightarrow> 'a int_state_scheme outcome option" where
  "kill_cmd args argc s =
     (if argc \<noteq> 1 then map_option (Runs 0) (u_printf KILL_ERROR [] s)
      else do {
        arg \<leftarrow> obj_get args 0;
        pid \<leftarrow> atoi arg;
        if pid = - 1 then map_option (Runs 0) (u_printf KILL_ERROR [] s)
        else obind (u_kill (word_of_int pid) 9 s)
          (\<lambda>r s. map_option (Runs 0)
             (if (ucast r :: u32) \<noteq> 0 then u_printf ''Killed pid: %d'' [arg_int pid] s
              else u_printf ''No process with pid: %d found'' [arg_int pid] s))
      })"

text \<open>\<open>count\<close> is 0: the loop over the processes is never entered.\<close>

definition ps_cmd :: "'a int_state_scheme \<Rightarrow> (u32 \<times> 'a int_state_scheme) option" where
  "ps_cmd s = returns 0 (u_printf (''Name'' @ [CHR 0x09] @ ''PID'' @ [CHR 0x09] @ ''Status'' @ [CHR 0x0A]) [] s)"

text \<open>\<open>int aux = s_to_i(...)\<close> keeps the low half.\<close>

definition s_to_int :: "u8 list \<Rightarrow> int option" where
  "s_to_int str = map_option (\<lambda>v. sint (ucast v :: u32)) (s_to_i str)"

definition consumer_cmd :: "u8 list list \<Rightarrow> int \<Rightarrow> 'a int_state_scheme \<Rightarrow> (u32 \<times> 'a int_state_scheme) option" where
  "consumer_cmd args argc s = do {
     arg \<leftarrow> obj_get args 0;
     aux \<leftarrow> s_to_int arg;
     bad \<leftarrow> (if argc \<noteq> 2 \<or> aux < 1 then Some True
            else do { arg \<leftarrow> obj_get args 2; n \<leftarrow> strlen arg; Some (n = 0) });
     if bad then returns 0 (u_printf (''Invalid arguments, use help for more details '' @ [CHR 0x0A]) [] s)
     else Some (- 1, s)
   }"

definition producer_cmd :: "u8 list list \<Rightarrow> int \<Rightarrow> 'a int_state_scheme \<Rightarrow> (u32 \<times> 'a int_state_scheme) option" where
  "producer_cmd args argc s = do {
     a \<leftarrow> obj_get args 0; fd \<leftarrow> s_to_int a;
     b \<leftarrow> obj_get args 1; sz \<leftarrow> s_to_int b;
     if argc \<noteq> 2 \<or> fd < 1 \<or> sz < 1
     then returns 0 (u_printf (''Invalid arguments, use help for more details '' @ [CHR 0x0A]) [] s)
     else Some (- 1, s)
   }"

subsection \<open>Commands on the heap\<close>

text \<open>\<open>n\<close> is what is left of \<open>argc\<close>, \<open>args\<close> starts where the pointer is.\<close>

primrec string_malloc_loop :: "nat \<Rightarrow> u8 list list \<Rightarrow> 'a libc_state_scheme \<Rightarrow> 'a libc_state_scheme option" where
  "string_malloc_loop 0 args s = Some s"
| "string_malloc_loop (Suc n) args s = do {
     arg \<leftarrow> obj_get args 0;
     len \<leftarrow> strlen arg;
     (p, s) \<leftarrow> u_malloc (word_of_int (len + 1)) s;
     if p \<noteq> 0 then do {
       let s = s\<lparr>mem := store_bytes (mem s) p (take (nat (len + 1)) arg)\<rparr>;
       str \<leftarrow> load_str (mem s) p;
       s \<leftarrow> u_printf (''Malloc string \"%s\" at address %d'' @ [CHR 0x0A]) [Arg_str str, Arg_num p] s;
       string_malloc_loop n (drop 1 args) s
     }
     else do {
       s \<leftarrow> u_printf ''Not enough heap for \"%s\"'' [Arg_str arg] s;
       string_malloc_loop n args s
     }
   }"

definition exec_string_malloc :: "u8 list list \<Rightarrow> int \<Rightarrow> 'a libc_state_scheme \<Rightarrow> (u32 \<times> 'a libc_state_scheme) option" where
  "exec_string_malloc args argc s = returns 0 (string_malloc_loop (nat argc) args s)"

definition exec_malloc :: "u8 list list \<Rightarrow> int \<Rightarrow> 'a libc_state_scheme \<Rightarrow> (u32 \<times> 'a libc_state_scheme) option" where
  "exec_malloc args argc s = do {
     arg \<leftarrow> obj_get args 0;
     n \<leftarrow> s_to_i arg;
     (p, s) \<leftarrow> u_malloc n s;
     returns 0 (if p \<noteq> 0 then u_printf (''Malloc %d bytes at address %d'' @ [CHR 0x0A]) [Arg_num n, Arg_num p] s
                else u_printf (''Not enough heap for %d bytes'' @ [CHR 0x0A]) [Arg_num n] s)
   }"

partial_function (option) print_heap_loop :: "u64 \<Rightarrow> 'a libc_state_scheme \<Rightarrow> 'a libc_state_scheme option" where
  "print_heap_loop cur_block s =
     (if cur_block = 0 then Some s
      else do {
        str \<leftarrow> load_str (mem s) (cur_block + LIBC_BLOCK_SIZE);
        s \<leftarrow> u_printf kheap_format
          [Arg_num cur_block, Arg_num (cur_block + LIBC_BLOCK_SIZE), Arg_num (ub_size (mem s) cur_block),
           Arg_num (ub_prev (mem s) cur_block), Arg_num (ub_next (mem s) cur_block),
           Arg_num (ucast (ub_free (mem s) cur_block)), Arg_str str] s;
        print_heap_loop (ub_next (mem s) cur_block) s
      })"

definition exec_print_heap :: "'a libc_state_scheme \<Rightarrow> (u32 \<times> 'a libc_state_scheme) option" where
  "exec_print_heap s =
     (let cur_block = get_base_block s
      in if cur_block = 0 then returns 1 (u_printf (''Heap is empty bro'' @ [CHR 0x0A]) [] s)
         else returns 0 (print_heap_loop cur_block s))"

primrec exec_free_loop :: "nat \<Rightarrow> u8 list list \<Rightarrow> 'a libc_state_scheme \<Rightarrow> 'a libc_state_scheme option" where
  "exec_free_loop 0 args s = Some s"
| "exec_free_loop (Suc n) args s = do {
     arg \<leftarrow> obj_get args 0;
     dir \<leftarrow> s_to_i arg;
     s \<leftarrow> u_free dir s;
     s \<leftarrow> u_printf (''Freeing address %d'' @ [CHR 0x0A]) [Arg_num dir] s;
     exec_free_loop n (drop 1 args) s
   }"

definition exec_free :: "u8 list list \<Rightarrow> int \<Rightarrow> 'a libc_state_scheme \<Rightarrow> (u32 \<times> 'a libc_state_scheme) option" where
  "exec_free args argc s = returns 0 (exec_free_loop (nat argc) args s)"

subsection \<open>Commands on pipes\<close>

definition close_pipe :: "u8 list list \<Rightarrow> int \<Rightarrow> 'a int_state_scheme \<Rightarrow> (u32 \<times> 'a int_state_scheme) option" where
  "close_pipe args argc s =
     (if argc \<noteq> 1 then returns 0 (u_printf ''Invalid arguments, please refer to help'' [] s)
      else do {
        arg \<leftarrow> obj_get args 0;
        fd \<leftarrow> atoi arg;
        returns 0 (u_cpipe (word_of_int fd) s)
      })"

text \<open>\<open>int pipes[80]\<close>: \<open>n\<close> more of its entries.\<close>

primrec shell_pipes_loop :: "u64 \<Rightarrow> nat \<Rightarrow> 'a int_state_scheme \<Rightarrow> 'a int_state_scheme option" where
  "shell_pipes_loop p 0 s = None"
| "shell_pipes_loop p (Suc n) s =
     (if load32 (mem s) p \<noteq> 0
      then do { s \<leftarrow> u_printf (''%d, '' @ [CHR 0x0A]) [Arg_num (ucast (load32 (mem s) p))] s; shell_pipes_loop (p + 4) n s }
      else Some s)"

definition get_pipes_cmd :: "'a libc_state_scheme \<Rightarrow> (u32 \<times> 'a libc_state_scheme) option" where
  "get_pipes_cmd s = do {
     let p = local_addr s ''get_pipes.pipes'';
     s \<leftarrow> u_gpipes p s;
     s \<leftarrow> u_printf (''Los pipes activos son: '' @ [CHR 0x0A]) [] s;
     returns 0 (shell_pipes_loop p 80 s)
   }"

text \<open>\<open>producer\<close> and \<open>consumer\<close>, which no command calls. \<open>msg\<close> is a pointer.\<close>

definition producer :: "u32 \<Rightarrow> u64 \<Rightarrow> 'a libc_state_scheme \<Rightarrow> 'a libc_state_scheme option" where
  "producer fd msg s = do {
     (_, s) \<leftarrow> u_opipe fd s;
     str \<leftarrow> load_str (mem s) msg;
     n \<leftarrow> strlen str;
     (_, s) \<leftarrow> u_wpipe fd msg (word_of_int n) s;
     Some s
   }"

partial_function (option) consumer_loop :: "u32 \<Rightarrow> u64 \<Rightarrow> u32 \<Rightarrow> u32 \<Rightarrow> 'a libc_state_scheme \<Rightarrow> 'a libc_state_scheme option" where
  "consumer_loop fd buf sz read_count s =
     (if read_count \<noteq> - 1
      then Option.bind
        (if read_count \<noteq> 0
         then do {
           (_, s) \<leftarrow> u_rpipe fd buf sz s;
           u_printf (''Managed to read: %d characters, which were: \"%c\"'' @ [CHR 0x0A]) [Arg_num (ucast read_count), Arg_num buf] s
         }
         else Some s) (consumer_loop fd buf sz read_count)
      else Some s)"

definition consumer :: "u32 \<Rightarrow> u32 \<Rightarrow> 'a libc_state_scheme \<Rightarrow> 'a libc_state_scheme outcome option" where
  "consumer fd sz s = do {
     let buf = local_addr s ''consumer.read'';
     (_, s) \<leftarrow> u_opipe fd s;
     (read_count, s) \<leftarrow> u_rpipe fd buf sz s;
     s \<leftarrow> consumer_loop fd buf sz read_count s;
     s \<leftarrow> u_cpipe fd s;
     (pid, s) \<leftarrow> u_getpid s;
     u_kill pid 9 s
   }"

subsection \<open>Commands that try the library\<close>

definition getchar_cmd ::
  "('a libc_state_scheme \<Rightarrow> 'a libc_state_scheme option) \<Rightarrow> 'a libc_state_scheme \<Rightarrow> (u32 \<times> 'a libc_state_scheme) option"
where
  "getchar_cmd irqs s = do {
     s \<leftarrow> u_printf (''Please type in a character'' @ [CHR 0x0A]) [] s;
     (k, s) \<leftarrow> getc irqs s;
     let c = (ucast k :: u8);
     returns 0 (u_printf (''You pressed: %c'' @ [CHR 0x0A]) [Arg_num (ucast (scast c :: u32))] s)
   }"

definition printf_cmd :: "'a int_state_scheme \<Rightarrow> (u32 \<times> 'a int_state_scheme) option" where
  "printf_cmd s = do {
     s \<leftarrow> u_printf (''Testing printf...'' @ [CHR 0x0A, CHR 0x0A]) [] s;
     s \<leftarrow> u_printf (''Printing an integer: %d'' @ [CHR 0x0A]) [Arg_num 99] s;
     s \<leftarrow> u_printf (''Printing a string: %s'' @ [CHR 0x0A]) [Arg_str (bytes ''This is a real cool string!'' @ [0])] s;
     s \<leftarrow> u_printf (''Printing in uppercase hexadecimal notation: %x'' @ [CHR 0x0A]) [Arg_num 0x55fa] s;
     returns 0 (u_printf (''Printing a single char: %c'' @ [CHR 0x0A]) [Arg_num 122] s)
   }"

primrec reset_vect_loop :: "nat \<Rightarrow> u64 \<Rightarrow> mem \<Rightarrow> mem" where
  "reset_vect_loop 0 vec m = m"
| "reset_vect_loop (Suc n) vec m = reset_vect_loop n vec (store8 m (vec + of_nat (49 - n)) 0)"

definition reset_vect :: "u64 \<Rightarrow> 'a int_state_scheme \<Rightarrow> 'a int_state_scheme" where
  "reset_vect vec s = s\<lparr>mem := reset_vect_loop 50 vec (mem s)\<rparr>"

definition scanf_cmd ::
  "('a libc_state_scheme \<Rightarrow> 'a libc_state_scheme option) \<Rightarrow> 'a libc_state_scheme \<Rightarrow> (u32 \<times> 'a libc_state_scheme) option"
where
  "scanf_cmd irqs s = do {
     let n = local_addr s ''scanf_cmd.n'';
     let vec = local_addr s ''scanf_cmd.vec'';
     s \<leftarrow> u_printfs [(''Welcome to scanf user test:'' @ [CHR 0x0A] @ '' ''), (''And so, the trial begins...'' @ [CHR 0x0A]), (''Please type in a number: '' @ [CHR 0x0A])] s;
     (_, s) \<leftarrow> scanf irqs ''%d'' [n] s;
     s \<leftarrow> u_printf (''You typed in: %d'' @ [CHR 0x0A, CHR 0x0A]) [Arg_num (ucast (load32 (mem s) n))] s;
     let s = reset_vect vec s;
     s \<leftarrow> u_printf ''Trial number 2...type in a short text: '' [] s;
     (_, s) \<leftarrow> scanf irqs ''%s'' [vec] s;
     str \<leftarrow> load_str (mem s) vec;
     s \<leftarrow> u_printf (''You typed in: %s'' @ [CHR 0x0A, CHR 0x0A]) [Arg_str str] s;
     let s = reset_vect vec s;
     s \<leftarrow> u_printf ''Trial number 3...Please type in a single character: '' [] s;
     (_, s) \<leftarrow> scanf irqs ''%c'' [vec] s;
     s \<leftarrow> u_printf ([CHR 0x0A] @ ''You typed: %c'' @ [CHR 0x0A, CHR 0x0A]) [Arg_num (ucast (scast (load8 (mem s) vec) :: u32))] s;
     let s = reset_vect vec s;
     s \<leftarrow> u_printfs [(''And so, the final trial begins:'' @ [CHR 0x0A]), (''Are you ready? Type in Y or N'' @ [CHR 0x0A])] s;
     (_, s) \<leftarrow> scanf irqs ''%s'' [vec] s;
     let s = reset_vect vec s;
     s \<leftarrow> u_printfs [('' Actually your response was irrelevant, proceeding with last trial...'' @ [CHR 0x0A] @ '' ''),
       (''Type in string format, your credit card number followed by verification code'' @ [CHR 0x0A])] s;
     (_, s) \<leftarrow> scanf irqs ''%s'' [vec] s;
     str \<leftarrow> load_str (mem s) vec;
     s \<leftarrow> u_printf ([CHR 0x0A] @ ''Your fake card data was: %s'' @ [CHR 0x0A, CHR 0x0A]) [Arg_str str] s;
     Some (0, reset_vect vec s)
   }"

end
