(* ===== verification/Shell.thy ===== *)
theory Shell
  imports Commands
begin

unbundle bit_operations_syntax

section \<open>Userland/shell/shell.c and main.c: the command loop\<close>

text \<open>
  What the shell does with each key, how it executes a line, and the loop of \<open>main\<close>.
\<close>

definition run_command ::
  "cmd_func \<Rightarrow> ('a shell_state_scheme \<Rightarrow> 'a shell_state_scheme option) \<Rightarrow> u8 list list \<Rightarrow> int \<Rightarrow> 'a shell_state_scheme
   \<Rightarrow> 'a shell_state_scheme outcome option"
where
  "run_command f irqs args argc s =
     (let int_result = map_option (\<lambda>(v, s). Runs (scast v) s)
      in case f of
           C_echo \<Rightarrow> int_result (echo args argc s)
         | C_clear \<Rightarrow> int_result (clear s)
         | C_date \<Rightarrow> int_result (date s)
         | C_time \<Rightarrow> int_result (time_cmd s)
         | C_set_date \<Rightarrow> int_result (set_date args argc s)
         | C_set_time \<Rightarrow> int_result (set_time args argc s)
         | C_getchar_cmd \<Rightarrow> int_result (getchar_cmd irqs s)
         | C_printf_cmd \<Rightarrow> int_result (printf_cmd s)
         | C_scanf_cmd \<Rightarrow> int_result (scanf_cmd irqs s)
         | C_help \<Rightarrow> int_result (help_cmd args argc s)
         | C_halt_system \<Rightarrow> halt_system s
         | C_commands \<Rightarrow> int_result (commands_cmd s)
         | C_print_ascii_table \<Rightarrow> int_result (print_ascii_table s)
         | C_setcolor \<Rightarrow> setcolor args argc s
         | C_kill_cmd \<Rightarrow> kill_cmd args argc s
         | C_producer_cmd \<Rightarrow> int_result (producer_cmd args argc s)
         | C_exec_string_malloc \<Rightarrow> int_result (exec_string_malloc args argc s)
         | C_exec_malloc \<Rightarrow> int_result (exec_malloc args argc s)
         | C_exec_free \<Rightarrow> int_result (exec_free args argc s)
         | C_exec_print_heap \<Rightarrow> int_result (exec_print_heap s)
         | C_consumer_cmd \<Rightarrow> int_result (consumer_cmd args argc s)
         | C_close_pipe \<Rightarrow> int_result (close_pipe args argc s)
         | C_get_pipes \<Rightarrow> int_result (get_pipes_cmd s))"

definition print_shell_error :: "'a shell_state_scheme \<Rightarrow> 'a shell_state_scheme option" where
  "print_shell_error s =
     u_fprintf STDERR (''We are sorry, \"%s\" command does not exist. '' @ [CHR 0x0A]
         @ ''For full list of commands please type: \"commands\"'' @ [CHR 0x0A])
       [Arg_str (shell_buffer s)] s"

definition excecute_command ::
  "('a shell_state_scheme \<Rightarrow> 'a shell_state_scheme option) \<Rightarrow> 'a shell_state_scheme \<Rightarrow> 'a shell_state_scheme outcome option"
where
  "excecute_command irqs s = do {
     cmd_no \<leftarrow> parse_command (cmd_table s) (shell_buffer s);
     if cmd_no = - 1 then map_option (Runs 0) (print_shell_error s)
     else do {
       e \<leftarrow> obj_get (cmd_table s) cmd_no;
       cmd_len \<leftarrow> strlen (cmd_name e);
       (args, b) \<leftarrow> get_arguments (drop (nat cmd_len) (shell_buffer s));
       let s = s\<lparr>shell_buffer := take (nat cmd_len) (shell_buffer s) @ b\<rparr>;
       f \<leftarrow> cmd_func e;
       run_command f irqs (argument_strings args b) (int (length args)) s
     }
   }"

definition print_shell_text :: "'a int_state_scheme \<Rightarrow> 'a int_state_scheme option" where
  "print_shell_text s = u_printf SHELL_TEXT [] s"

text \<open>\<open>i < SHELL_BUFFER_SIZE && i < curr_pos\<close>, with \<open>n\<close> steps left before the first bound.\<close>

primrec clean_buffer_loop :: "nat \<Rightarrow> int \<Rightarrow> int \<Rightarrow> u8 list \<Rightarrow> u8 list option" where
  "clean_buffer_loop 0 i pos b = Some b"
| "clean_buffer_loop (Suc n) i pos b =
     (if i < pos then do { b \<leftarrow> obj_set b i 0; clean_buffer_loop n (i + 1) pos b } else Some b)"

definition clean_buffer :: "'a shell_state_scheme \<Rightarrow> 'a shell_state_scheme option" where
  "clean_buffer s = do {
     b \<leftarrow> clean_buffer_loop SHELL_BUFFER_SIZE 0 (curr_pos s) (shell_buffer s);
     Some (s\<lparr>shell_buffer := b, curr_pos := 0\<rparr>)
   }"

definition prnt_welcome_msg :: "'a int_state_scheme \<Rightarrow> 'a int_state_scheme option" where
  "prnt_welcome_msg s = u_printf WELCOME_TEXT [] s"

definition init_shell :: "'a shell_state_scheme \<Rightarrow> 'a shell_state_scheme option" where
  "init_shell s = do {
     s \<leftarrow> clean_buffer s;
     let s = initialize_cmd_table s;
     s \<leftarrow> prnt_welcome_msg s;
     print_shell_text s
   }"

text \<open>What \<open>update_shell\<close> does with a key.\<close>

definition shell_key ::
  "('a shell_state_scheme \<Rightarrow> 'a shell_state_scheme option) \<Rightarrow> u8 \<Rightarrow> 'a shell_state_scheme \<Rightarrow> 'a shell_state_scheme outcome option"
where
  "shell_key irqs key s =
     (if key = 0 then Some (Runs 0 s)
      else if key = 10 then do {
        (_, s) \<leftarrow> libc_putc 10 s;
        b \<leftarrow> obj_set (shell_buffer s) (curr_pos s) 0;
        obind (excecute_command irqs (s\<lparr>shell_buffer := b\<rparr>))
          (\<lambda>r s. if (ucast r :: u32) = - 1 then Some (Runs 0 s)
                 else do {
                   s \<leftarrow> print_shell_text s;
                   s \<leftarrow> clean_buffer s;
                   Some (Runs 1 s)
                 })
      }
      else if key = 8 then
        (if curr_pos s > 0 then do {
           (_, s) \<leftarrow> libc_putc 8 s;
           (_, s) \<leftarrow> libc_putc 32 s;
           (_, s) \<leftarrow> libc_putc 8 s;
           b \<leftarrow> obj_set (shell_buffer s) (curr_pos s - 1) 0;
           Some (Runs 1 (s\<lparr>curr_pos := curr_pos s - 1, shell_buffer := b\<rparr>))
         }
         else map_option (Runs 1) (u_beep s))
      else if curr_pos s \<ge> int SHELL_BUFFER_SIZE - 2 then map_option (Runs 0) (u_beep s)
      else do {
        (_, s) \<leftarrow> libc_putc key s;
        b \<leftarrow> obj_set (shell_buffer s) (curr_pos s) key;
        Some (Runs 1 (s\<lparr>shell_buffer := b, curr_pos := curr_pos s + 1\<rparr>))
      })"

definition update_shell ::
  "('a shell_state_scheme \<Rightarrow> 'a shell_state_scheme option) \<Rightarrow> 'a shell_state_scheme \<Rightarrow> 'a shell_state_scheme outcome option"
where
  "update_shell irqs s = do {
     (k, s) \<leftarrow> getc irqs s;
     shell_key irqs (ucast k) s
   }"

text \<open>main.c. Its result 0 is the exit code of the program.\<close>

partial_function (option) shell_loop ::
  "('a shell_state_scheme \<Rightarrow> 'a shell_state_scheme option) \<Rightarrow> 'a shell_state_scheme \<Rightarrow> 'a shell_state_scheme outcome option"
where
  "shell_loop irqs s =
     Option.bind (update_shell irqs s) (\<lambda>r. case r of
       Halts s \<Rightarrow> Some (Halts s)
     | Runs v s \<Rightarrow> if v \<noteq> 0 then shell_loop irqs s else Some (Runs 0 s))"

definition shell_main ::
  "('a shell_state_scheme \<Rightarrow> 'a shell_state_scheme option) \<Rightarrow> 'a shell_state_scheme \<Rightarrow> 'a shell_state_scheme outcome option"
where
  "shell_main irqs s = Option.bind (init_shell s) (shell_loop irqs)"

end
