(* ===== verification/Shell_Lines.thy ===== *)
theory Shell_Lines
  imports Shell
begin

unbundle bit_operations_syntax

section \<open>Lines and commands\<close>

text \<open>
  The line in the buffer as a list edited by keys, the words of a line, and the command that a line
  runs. \<open>words_of\<close> is the reference for \<open>get_arguments\<close>; \<open>edited\<close> relates states that differ in
  the screen and the line only.
\<close>

subsection \<open>Words of a line\<close>

text \<open>The words of a line, as they are meant to be split, and what \<open>get_arguments\<close> does.\<close>

function words_of :: "u8 list \<Rightarrow> u8 list list" where
  "words_of [] = []"
| "words_of (c # cs) =
     (if c = 32 then words_of cs
      else (c # takeWhile (\<lambda>c. c \<noteq> 32) cs) # words_of (dropWhile (\<lambda>c. c \<noteq> 32) cs))"
  by pat_completeness auto
termination by (relation "measure length") (auto simp: le_imp_less_Suc length_dropWhile_le)

fun word_starts :: "u8 list \<Rightarrow> nat \<Rightarrow> bool \<Rightarrow> nat list" where
  "word_starts [] i in_arg = []"
| "word_starts (c # cs) i in_arg =
     (if c = 32 then word_starts cs (i + 1) False
      else if \<not> in_arg then i # word_starts cs (i + 1) True
      else word_starts cs (i + 1) True)"

definition cut_spaces :: "u8 list \<Rightarrow> u8 list" where
  "cut_spaces = map (\<lambda>c. if c = 32 then 0 else c)"

lemma arguments_loop_starts:
  "0 \<notin> set line \<Longrightarrow> arg + length (word_starts line i p) < 64 \<Longrightarrow>
   arguments_loop (line @ 0 # r) i arg p = Some (word_starts line i p, cut_spaces line @ 0 # r)"
  by (induction line arbitrary: i arg p) (auto simp: cut_spaces_def)

lemma word_starts_True:
  "word_starts cs i True =
     word_starts (dropWhile (\<lambda>c. c \<noteq> 32) cs) (i + length (takeWhile (\<lambda>c. c \<noteq> 32) cs)) False"
  by (induction cs arbitrary: i) auto

lemma word_starts_ge: "k \<in> set (word_starts cs i p) \<Longrightarrow> i \<le> k"
  by (induction cs arbitrary: i p) (force split: if_splits)+

lemma word_starts_less: "k \<in> set (word_starts cs i p) \<Longrightarrow> k < i + length cs"
  by (induction cs arbitrary: i p) (force split: if_splits)+

lemma cut_word: "0 \<notin> set cs \<Longrightarrow> cstr (cut_spaces cs @ 0 # r) = takeWhile (\<lambda>c. c \<noteq> 32) cs"
  by (induction cs) (auto simp: cstr_def cut_spaces_def)

lemma starts_words:
  "0 \<notin> set cs \<Longrightarrow> map (\<lambda>k. cstr (drop (k - i) (cut_spaces cs @ 0 # r))) (word_starts cs i False) = words_of cs"
proof (induction cs arbitrary: i rule: words_of.induct)
  case (2 c cs)
  show ?case
  proof (cases "c = 32")
    case True
    have "cstr (drop (k - i) (cut_spaces (c # cs) @ 0 # r)) = cstr (drop (k - Suc i) (cut_spaces cs @ 0 # r))"
      if "k \<in> set (word_starts cs (Suc i) False)" for k
    proof -
      have "k - i = Suc (k - Suc i)" using word_starts_ge [OF that] by simp
      then show ?thesis by (simp add: cut_spaces_def)
    qed
    then show ?thesis using 2(1) [OF True, of "Suc i"] 2(3) True by (simp cong: map_cong)
  next
    case False
    let ?t = "takeWhile (\<lambda>c. c \<noteq> 32) cs" and ?d = "dropWhile (\<lambda>c. c \<noteq> 32) cs"
    have cs: "cs = ?t @ ?d" by simp
    have cut: "cut_spaces (c # cs) = cut_spaces (c # ?t) @ cut_spaces ?d"
      unfolding cut_spaces_def by (subst (1) cs) (simp del: takeWhile_dropWhile_id)
    have "cstr (drop (k - i) (cut_spaces (c # cs) @ 0 # r)) = cstr (drop (k - (i + Suc (length ?t))) (cut_spaces ?d @ 0 # r))"
      if "k \<in> set (word_starts ?d (i + Suc (length ?t)) False)" for k
    proof -
      have k: "i + Suc (length ?t) \<le> k" using word_starts_ge [OF that] .
      have "drop (k - i) (cut_spaces (c # cs) @ 0 # r) = drop (k - i - length (cut_spaces (c # ?t))) (cut_spaces ?d @ 0 # r)"
      proof -
        have "length (cut_spaces (c # ?t)) \<le> k - i" using k by (simp add: cut_spaces_def)
        then show ?thesis unfolding cut append_assoc drop_append by simp
      qed
      moreover have "k - i - length (cut_spaces (c # ?t)) = k - (i + Suc (length ?t))" by (simp add: cut_spaces_def)
      ultimately show ?thesis by (simp only:)
    qed
    moreover have "0 \<notin> set ?d" using 2(3) by (auto dest: set_dropWhileD)
    ultimately have "map (\<lambda>k. cstr (drop (k - i) (cut_spaces (c # cs) @ 0 # r))) (word_starts ?d (i + Suc (length ?t)) False)
        = words_of ?d"
      using 2(2) [OF False, of "i + Suc (length ?t)"] by (simp cong: map_cong)
    moreover have "cstr (cut_spaces (c # cs) @ 0 # r) = c # ?t" using cut_word [of "c # cs" r] 2(3) False by simp
    ultimately show ?thesis using False word_starts_True [of cs "Suc i"] by simp
  qed
qed simp

lemma words_short: "2 * length (words_of cs) \<le> length cs + 1"
proof (induction cs rule: measure_induct_rule [where f = length])
  case (less ds)
  show ?case
  proof (cases ds)
    case (Cons c cs)
    let ?d = "dropWhile (\<lambda>c. c \<noteq> 32) cs"
    have d: "length ?d \<le> length cs" by (rule length_dropWhile_le)
    have "2 * length (words_of ?d) \<le> length cs"
    proof (cases ?d)
      case (Cons x xs)
      then have "x = 32" using hd_dropWhile [of "\<lambda>c. c \<noteq> 32" cs] by simp
      then show ?thesis using less [of xs] d Cons \<open>ds = c # cs\<close> by simp
    next
      case Nil
      then show ?thesis by (simp only: words_of.simps) simp
    qed
    then show ?thesis using less [of cs] Cons by simp
  qed simp
qed

subsection \<open>Looking a command up\<close>

definition command_names :: "string list" where
  "command_names = [''echo'', ''clear'', ''date'', ''time'', ''setdate'', ''settime'', ''getchar'', ''printf'', ''scanf'', ''help'', ''halt'', ''commands'', ''printascii'', ''setcolor'', ''kill'', ''producer'', ''smalloc'', ''malloc'', ''free'', ''pheap'', ''consumer'', ''pipeclose'', ''getpipes'']"

definition command_funcs :: "cmd_func list" where
  "command_funcs = [C_echo, C_clear, C_date, C_time, C_set_date, C_set_time, C_getchar_cmd, C_printf_cmd, C_scanf_cmd, C_help, C_halt_system, C_commands, C_print_ascii_table, C_setcolor, C_kill_cmd, C_producer_cmd, C_exec_string_malloc, C_exec_malloc, C_exec_free, C_exec_print_heap, C_consumer_cmd, C_close_pipe, C_get_pipes]"

lemma shell_commands_names: "map cmd_name shell_commands = map (\<lambda>n. bytes n @ [0]) command_names"
  and shell_commands_funcs: "map cmd_func shell_commands = map Some command_funcs"
  and length_shell_commands: "length shell_commands = 23"
  by (simp_all add: shell_commands_def command_names_def command_funcs_def cmd_def)

fun find_name :: "u8 list list \<Rightarrow> int \<Rightarrow> u8 list \<Rightarrow> int option" where
  "find_name [] i buffer = Some (- 1)"
| "find_name (n # ns) i buffer = do {
     b \<leftarrow> substr n buffer;
     if b then Some i else find_name ns (i + 1) buffer
   }"

lemma find_command_names: "find_command es i b = find_name (map cmd_name es) i b"
  by (induction es arbitrary: i) (auto split: Option.bind_split)

lemma find_name_none:
  "0 \<notin> set line \<Longrightarrow> (\<And>n. n \<in> set ns \<Longrightarrow> 0 \<notin> set n \<and> take (length n) line \<noteq> n) \<Longrightarrow>
   find_name (map (\<lambda>n. n @ [0]) ns) i (line @ 0 # r) = Some (- 1)"
proof (induction ns arbitrary: i)
  case (Cons n ns)
  have "substr (n @ 0 # []) (line @ 0 # r) = Some (take (length n) line = n)"
    by (rule substr_append) (use Cons.prems in auto)
  then show ?case using Cons by simp
qed simp

lemma find_each_name:
  assumes "i < 23" and "c = 0 \<or> c = 32"
  shows "find_name (map (\<lambda>n. bytes n @ [0]) command_names) 0 (bytes (command_names ! i) @ c # r) = Some (int i)"
proof -
  have "i \<in> {0..<23}" using assms(1) by simp
  then have "i \<in> {0,1,2,3,4,5,6,7,8,9,10,11,12,13,14,15,16,17,18,19,20,21,22}" by (auto simp: eval_nat_numeral atLeast0_lessThan_Suc)
  then show ?thesis using assms(2) by (elim insertE emptyE; simp add: command_names_def bytes_def)
qed

lemma skip_spaces_count:
  "0 \<notin> set tail \<Longrightarrow> skip_spaces (tail @ 0 # r) i = Some (i + length (takeWhile (\<lambda>c. c = 32) tail))"
  by (induction tail arbitrary: i) auto

lemma words_of_skip: "words_of (dropWhile (\<lambda>c. c = 32) tail) = words_of tail"
  by (induction tail) auto

lemma length_word_starts: "length (word_starts cs i False) = length (words_of cs)"
proof (induction cs arbitrary: i rule: words_of.induct)
  case (2 c cs)
  then show ?case by (simp add: word_starts_True)
qed simp

lemma get_arguments_words:
  assumes "0 \<notin> set tail" and "length (words_of tail) < 64"
  shows "\<exists>idxs b. get_arguments (tail @ 0 # r) = Some (idxs, b) \<and> map cstr (argument_strings idxs b) = words_of tail
    \<and> length idxs = length (words_of tail) \<and> length b = length (tail @ 0 # r)
    \<and> (\<forall>a \<in> set (argument_strings idxs b). 0 \<in> set a)"
proof -
  define k where "k = length (takeWhile (\<lambda>c. c = 32) tail)"
  define d where "d = dropWhile (\<lambda>c. c = 32) tail"
  have w: "words_of d = words_of tail" by (simp add: d_def words_of_skip)
  have dk: "d = drop k tail" by (simp add: d_def k_def dropWhile_eq_drop)
  have k: "k \<le> length tail" by (simp add: k_def length_takeWhile_le)
  have d0: "0 \<notin> set d" using assms(1) by (auto simp: d_def dest: set_dropWhileD)
  have l: "length (word_starts d k False) = length (words_of tail)" by (simp add: length_word_starts w)
  have a: "arguments_loop (drop k (tail @ 0 # r)) k 0 False = Some (word_starts d k False, cut_spaces d @ 0 # r)"
    using arguments_loop_starts [OF d0, of 0 k False r] assms(2) l k by (simp add: dk)
  let ?b = "take k (tail @ 0 # r) @ cut_spaces d @ 0 # r"
  have "get_arguments (tail @ 0 # r) = Some (word_starts d k False, ?b)"
    using a by (simp add: get_arguments_def skip_spaces_count [OF assms(1)] k_def [symmetric])
  moreover have "map cstr (argument_strings (word_starts d k False) ?b) = words_of tail"
  proof -
    have "drop j ?b = drop (j - k) (cut_spaces d @ 0 # r)" if "j \<in> set (word_starts d k False)" for j
    proof -
      have "length (take k (tail @ 0 # r)) = k" using k by simp
      then show ?thesis using word_starts_ge [OF that] by (simp only: drop_append) simp
    qed
    then have "map cstr (argument_strings (word_starts d k False) ?b)
        = map (\<lambda>j. cstr (drop (j - k) (cut_spaces d @ 0 # r))) (word_starts d k False)"
      by (simp add: argument_strings_def)
    then show ?thesis using starts_words [OF d0, of k r] w by simp
  qed
  moreover have "length ?b = length (tail @ 0 # r)" using k by (simp add: cut_spaces_def dk)
  moreover have "\<forall>a \<in> set (argument_strings (word_starts d k False) ?b). 0 \<in> set a"
  proof
    fix a assume "a \<in> set (argument_strings (word_starts d k False) ?b)"
    then obtain j where j: "j \<in> set (word_starts d k False)" "a = drop j ?b" by (auto simp: argument_strings_def)
    have "j \<le> length (take k (tail @ 0 # r) @ cut_spaces d)" using word_starts_less [OF j(1)] k by (simp add: cut_spaces_def dk)
    then have "a = drop j (take k (tail @ 0 # r) @ cut_spaces d) @ 0 # r" using j(2) by simp
    then show "0 \<in> set a" by simp
  qed
  ultimately show ?thesis using l by blast
qed

subsection \<open>Editing the line\<close>

definition shell_ok :: "'a shell_state_scheme \<Rightarrow> bool" where
  "shell_ok s \<longleftrightarrow> con_ok s \<and> syscall_set s \<and> length (shell_buffer s) = SHELL_BUFFER_SIZE \<and> 0 \<le> curr_pos s
     \<and> curr_pos s \<le> 126"

definition line_of :: "'a shell_state_scheme \<Rightarrow> u8 list" where
  "line_of s = take (nat (curr_pos s)) (shell_buffer s)"

definition edit :: "u8 list \<Rightarrow> u8 \<Rightarrow> u8 list" where
  "edit line key = (if key = 8 then butlast line else line @ [key])"

text \<open>Keys that edit the line: neither 0 nor the new line, no backspace on an empty line, no character past 126.\<close>

fun edits :: "u8 list \<Rightarrow> u8 list \<Rightarrow> bool" where
  "edits line [] = True"
| "edits line (k # ks) \<longleftrightarrow> k \<noteq> 0 \<and> k \<noteq> 10 \<and> (if k = 8 then line \<noteq> [] else length line < 126) \<and> edits (edit line k) ks"

fun_cases edits_ConsE: "edits line (k # ks)"

text \<open>The loop of \<open>main\<close> on keys that are there.\<close>

primrec shell_keys ::
  "('a shell_state_scheme \<Rightarrow> 'a shell_state_scheme option) \<Rightarrow> u8 list \<Rightarrow> 'a shell_state_scheme \<Rightarrow> 'a shell_state_scheme outcome option"
where
  "shell_keys irqs [] s = Some (Runs 1 s)"
| "shell_keys irqs (k # ks) s = obind (shell_key irqs k s) (\<lambda>r s. if r \<noteq> 0 then shell_keys irqs ks s else Some (Runs 0 s))"

lemma shell_keys_append:
  "shell_keys irqs (ks @ ks') s = obind (shell_keys irqs ks s) (\<lambda>r s. if r \<noteq> 0 then shell_keys irqs ks' s else Some (Runs 0 s))"
  by (induction ks arbitrary: s) (auto simp: obind_def split: option.split outcome.split)

text \<open>The command loop changes the screen, the line and nothing else of the machine.\<close>

definition edited :: "'a shell_state_scheme \<Rightarrow> 'a shell_state_scheme \<Rightarrow> bool" where
  "edited s t \<longleftrightarrow> (\<exists>M T B P. t = s\<lparr>mem := M, terminals := T, shell_buffer := B, curr_pos := P\<rparr>)"

lemma edited_fields: "edited s t \<Longrightarrow> cmd_table t = cmd_table s \<and> syscall_set t = syscall_set s"
  by (auto simp: edited_def)

lemma edited_trans:
  assumes "edited s t" and "edited t u" shows "edited s u"
proof -
  obtain M T B P where t: "t = s\<lparr>mem := M, terminals := T, shell_buffer := B, curr_pos := P\<rparr>"
    using assms(1) unfolding edited_def by blast
  obtain M' T' B' P' where "u = t\<lparr>mem := M', terminals := T', shell_buffer := B', curr_pos := P'\<rparr>"
    using assms(2) unfolding edited_def by blast
  then have "u = s\<lparr>mem := M', terminals := T', shell_buffer := B', curr_pos := P'\<rparr>" by (simp add: t)
  then show ?thesis unfolding edited_def by blast
qed

lemma edited_line: "edited s (s\<lparr>shell_buffer := B, curr_pos := P\<rparr>)"
proof -
  have "s\<lparr>shell_buffer := B, curr_pos := P\<rparr> = s\<lparr>mem := mem s, terminals := terminals s, shell_buffer := B, curr_pos := P\<rparr>" by simp
  then show ?thesis unfolding edited_def by blast
qed

lemma screen_edited:
  assumes "screen_only s t" shows "edited s t" and "shell_buffer t = shell_buffer s" and "curr_pos t = curr_pos s"
proof -
  obtain M T where t: "t = s\<lparr>mem := M, terminals := T\<rparr>" using assms by (auto simp: screen_only_def)
  have "t = s\<lparr>mem := M, terminals := T, shell_buffer := shell_buffer s, curr_pos := curr_pos s\<rparr>" by (simp add: t)
  then show "edited s t" unfolding edited_def by blast
  show "shell_buffer t = shell_buffer s" "curr_pos t = curr_pos s" by (simp_all add: t)
qed

lemma putc_shows:
  assumes "con_ok s" and "syscall_set s"
  shows "\<exists>v t. libc_putc c s = Some (v, t) \<and> con_ok t \<and> edited s t \<and> shell_buffer t = shell_buffer s \<and> curr_pos t = curr_pos s"
proof -
  obtain v t where "write_bytes STDOUT [c] s = Some (v, t)" "screen_only s t"
    using write_bytes_screen [OF assms(1), of STDOUT "[c]"] by auto
  then show ?thesis using assms(2) screen_edited [of s t] screen_only_ok [OF assms(1)]
    by (auto simp: libc_putc_def libc_fputc_def u_write_def)
qed

lemma con_ok_line [simp]: "con_ok (s\<lparr>shell_buffer := B, curr_pos := P\<rparr>) = con_ok s" "con_ok (s\<lparr>shell_buffer := B\<rparr>) = con_ok s"
  by (simp_all add: con_ok_def)

lemma shell_key_edits:
  assumes ok: "shell_ok s" and k: "key \<noteq> 0" "key \<noteq> 10" "if key = 8 then line_of s \<noteq> [] else length (line_of s) < 126"
  shows "\<exists>t. shell_key irqs key s = Some (Runs 1 t) \<and> shell_ok t \<and> line_of t = edit (line_of s) key \<and> edited s t"
proof -
  have s: "con_ok s" "syscall_set s" "length (shell_buffer s) = 128" "0 \<le> curr_pos s" "curr_pos s \<le> 126"
    using ok by (simp_all add: shell_ok_def)
  define n where "n = nat (curr_pos s)"
  have n: "curr_pos s = int n" "n \<le> 126" using s by (simp_all add: n_def)
  have len: "length (line_of s) = n" using n s(3) by (simp add: line_of_def)
  show ?thesis
  proof (cases "key = 8")
    case True
    then have pos: "0 < n" using k(3) len by auto
    obtain v1 s1 where 1: "libc_putc 8 s = Some (v1, s1)" "con_ok s1" "edited s s1" "shell_buffer s1 = shell_buffer s" "curr_pos s1 = curr_pos s"
      using putc_shows [OF s(1,2)] by blast
    have y1: "syscall_set s1" using edited_fields [OF 1(3)] s(2) by simp
    obtain v2 s2 where 2: "libc_putc 32 s1 = Some (v2, s2)" "con_ok s2" "edited s1 s2" "shell_buffer s2 = shell_buffer s1" "curr_pos s2 = curr_pos s1"
      using putc_shows [OF 1(2) y1] by blast
    have y2: "syscall_set s2" using edited_fields [OF 2(3)] y1 by simp
    obtain v3 s3 where 3: "libc_putc 8 s2 = Some (v3, s3)" "con_ok s3" "edited s2 s3" "shell_buffer s3 = shell_buffer s2" "curr_pos s3 = curr_pos s2"
      using putc_shows [OF 2(2) y2] by blast
    have e: "edited s s3" "shell_buffer s3 = shell_buffer s" "curr_pos s3 = curr_pos s"
      using edited_trans 1(3-5) 2(3-5) 3(3-5) by metis+
    let ?b = "(shell_buffer s)[n - 1 := 0]"
    let ?t = "s3\<lparr>shell_buffer := ?b, curr_pos := curr_pos s - 1\<rparr>"
    have p1: "curr_pos s - 1 = int (n - 1)" using pos n by simp
    have "obj_set (shell_buffer s) (curr_pos s - 1) 0 = Some ?b"
      unfolding p1 by (rule obj_set_nat) (use s(3) n pos in simp)
    moreover have "?t = s3\<lparr>curr_pos := curr_pos s - 1, shell_buffer := ?b\<rparr>" by simp
    ultimately have "shell_key irqs key s = Some (Runs 1 ?t)"
      using True pos n(1) by (simp add: shell_key_def 1(1) 2(1) 3(1) e(2,3))
    moreover have "shell_ok ?t"
      using 3(2) s n pos e edited_fields [OF e(1)] by (simp add: shell_ok_def)
    moreover have "line_of ?t = edit (line_of s) key"
    proof -
      have "nat (curr_pos s - 1) = n - 1" using p1 by simp
      then have "line_of ?t = take (n - 1) (shell_buffer s)" by (simp add: line_of_def)
      moreover have "butlast (line_of s) = take (n - 1) (shell_buffer s)"
        using s(3) n by (simp add: line_of_def butlast_take)
      ultimately show ?thesis using True by (simp add: edit_def)
    qed
    moreover have "edited s ?t" using edited_trans [OF e(1) edited_line] .
    ultimately show ?thesis by blast
  next
    case False
    then have room: "n < 126" using k(3) len by simp
    obtain v s1 where 1: "libc_putc key s = Some (v, s1)" "con_ok s1" "edited s s1" "shell_buffer s1 = shell_buffer s" "curr_pos s1 = curr_pos s"
      using putc_shows [OF s(1,2)] by blast
    let ?b = "(shell_buffer s)[n := key]"
    let ?t = "s1\<lparr>shell_buffer := ?b, curr_pos := curr_pos s + 1\<rparr>"
    have "obj_set (shell_buffer s) (curr_pos s) key = Some ?b"
      unfolding n(1) by (rule obj_set_nat) (use s(3) n in simp)
    then have "shell_key irqs key s = Some (Runs 1 ?t)"
      using False k(1,2) room n(1) by (simp add: shell_key_def 1(1,4,5))
    moreover have "shell_ok ?t" using 1(2) s n room edited_fields [OF 1(3)] by (simp add: shell_ok_def)
    moreover have "line_of ?t = edit (line_of s) key"
    proof -
      have "nat (curr_pos s + 1) = Suc n" using n(1) by simp
      then have "line_of ?t = take (Suc n) ?b" by (simp add: line_of_def)
      also have "\<dots> = take n (shell_buffer s) @ [key]" using s(3) n by (simp add: take_Suc_conv_app_nth)
      finally show ?thesis using False by (simp add: edit_def line_of_def n(1))
    qed
    moreover have "edited s ?t" using edited_trans [OF 1(3) edited_line] .
    ultimately show ?thesis by blast
  qed
qed

lemma shell_keys_edit:
  assumes "shell_ok s" and "edits (line_of s) ks"
  shows "\<exists>t. shell_keys irqs ks s = Some (Runs 1 t) \<and> shell_ok t \<and> line_of t = foldl edit (line_of s) ks \<and> edited s t"
  using assms
proof (induction ks arbitrary: s)
  case Nil
  have "s = s\<lparr>shell_buffer := shell_buffer s, curr_pos := curr_pos s\<rparr>" by simp
  then have "edited s s" using edited_line by metis
  then show ?case using Nil by simp
next
  case (Cons k ks)
  then have k: "k \<noteq> 0" "k \<noteq> 10" "if k = 8 then line_of s \<noteq> [] else length (line_of s) < 126" "edits (edit (line_of s) k) ks"
    by (auto elim: edits_ConsE)
  obtain t where t: "shell_key irqs k s = Some (Runs 1 t)" "shell_ok t" "line_of t = edit (line_of s) k" "edited s t"
    using shell_key_edits [OF Cons.prems(1) k(1-3)] by blast
  obtain u where "shell_keys irqs ks t = Some (Runs 1 u)" "shell_ok u" "line_of u = foldl edit (line_of t) ks" "edited t u"
    using Cons.IH [OF t(2)] k(4) t(3) by auto
  then show ?case using t edited_trans by (auto simp: obind_def)
qed

subsection \<open>The new line\<close>

lemma command_name_props:
  assumes "i < 23"
  shows "0 \<notin> set (bytes (command_names ! i))" "bytes (command_names ! i) \<noteq> []"
    "cmd_name (shell_commands ! i) = bytes (command_names ! i) @ [0]" "cmd_func (shell_commands ! i) = Some (command_funcs ! i)"
proof -
  have "\<forall>n \<in> set command_names. 0 \<notin> set (bytes n) \<and> bytes n \<noteq> []" by (simp add: command_names_def bytes_def)
  moreover have "command_names ! i \<in> set command_names" using assms by (intro nth_mem) (simp add: command_names_def)
  ultimately show "0 \<notin> set (bytes (command_names ! i))" "bytes (command_names ! i) \<noteq> []" by blast+
  have l: "i < length shell_commands" "i < length command_names" "i < length command_funcs"
    using assms by (simp_all add: length_shell_commands command_names_def command_funcs_def)
  show "cmd_name (shell_commands ! i) = bytes (command_names ! i) @ [0]"
    using arg_cong [OF shell_commands_names, of "\<lambda>l. l ! i"] l by simp
  show "cmd_func (shell_commands ! i) = Some (command_funcs ! i)"
    using arg_cong [OF shell_commands_funcs, of "\<lambda>l. l ! i"] l by simp
qed

lemma parse_command_found:
  assumes "i < 23" and "c = 0 \<or> c = 32"
  shows "parse_command shell_commands (bytes (command_names ! i) @ c # r) = Some (int i)"
proof -
  let ?n = "bytes (command_names ! i)"
  note p = command_name_props [OF assms(1)]
  obtain x xs where x: "?n = x # xs" using p(2) by (cases ?n) auto
  have "obj_get (?n @ c # r) 0 = Some x" "x \<noteq> 0" using p(1) by (simp_all add: x obj_get_def)
  moreover have "find_command shell_commands 0 (?n @ c # r) = Some (int i)"
    unfolding find_command_names shell_commands_names by (rule find_each_name [OF assms])
  moreover have "obj_get shell_commands (int i) = Some (shell_commands ! i)"
    by (rule obj_get_nat) (simp add: length_shell_commands assms(1))
  moreover have "strlen (?n @ [0]) = Some (int (length ?n))" using strlen_append [OF p(1), of "[]"] by simp
  moreover have "obj_get (?n @ c # r) (int (length ?n)) = Some c" using obj_get_nat [of "length ?n" "?n @ c # r"] by (simp add: nth_append)
  ultimately show ?thesis using assms(2) p(3) by (auto simp: parse_command_def)
qed

lemma parse_command_unknown:
  assumes "0 \<notin> set line" and "line \<noteq> []" and "\<forall>n \<in> set command_names. take (length n) line \<noteq> bytes n"
  shows "parse_command shell_commands (line @ 0 # r) = None"
proof -
  obtain x xs where x: "line = x # xs" using assms(2) by (cases line) auto
  have names: "0 \<notin> set (bytes n)" if "n \<in> set command_names" for n
    using that by (auto simp: command_names_def bytes_def)
  have "find_command shell_commands 0 (line @ 0 # r) = Some (- 1)"
  proof -
    have "map (\<lambda>n. bytes n @ [0]) command_names = map (\<lambda>n. n @ [0]) (map bytes command_names)" by simp
    moreover have "0 \<notin> set n \<and> take (length n) line \<noteq> n" if "n \<in> set (map bytes command_names)" for n
      using that assms(3) by (auto simp: names)
    ultimately show ?thesis
      unfolding find_command_names shell_commands_names using find_name_none [OF assms(1), of "map bytes command_names" 0 r] by (simp add: comp_def)
  qed
  then show ?thesis using assms(1) by (simp add: parse_command_def x obj_get_def)
qed

text \<open>The buffer that the command gets.\<close>

definition entered :: "u8 list \<Rightarrow> 'a shell_state_scheme \<Rightarrow> 'a shell_state_scheme \<Rightarrow> bool" where
  "entered line s t \<longleftrightarrow> con_ok t \<and> syscall_set t \<and> cmd_table t = cmd_table s \<and> edited s t \<and> curr_pos t = curr_pos s
     \<and> (\<exists>r. shell_buffer t = line @ 0 # r \<and> length (shell_buffer t) = SHELL_BUFFER_SIZE)"

definition after_command :: "u64 \<Rightarrow> 'a shell_state_scheme \<Rightarrow> 'a shell_state_scheme outcome option" where
  "after_command r s = (if (ucast r :: u32) = - 1 then Some (Runs 0 s)
     else do { s \<leftarrow> print_shell_text s; s \<leftarrow> clean_buffer s; Some (Runs 1 s) })"

lemma enter_executes:
  assumes "shell_ok s"
  shows "\<exists>t. entered (line_of s) s t \<and> shell_key irqs 10 s = obind (excecute_command irqs t) after_command"
proof -
  have s: "con_ok s" "syscall_set s" "length (shell_buffer s) = 128" "0 \<le> curr_pos s" "curr_pos s \<le> 126"
    using assms by (simp_all add: shell_ok_def)
  define n where "n = nat (curr_pos s)"
  have n: "curr_pos s = int n" "n \<le> 126" using s by (simp_all add: n_def)
  obtain v s1 where 1: "libc_putc 10 s = Some (v, s1)" "con_ok s1" "edited s s1" "shell_buffer s1 = shell_buffer s" "curr_pos s1 = curr_pos s"
    using putc_shows [OF s(1,2)] by blast
  let ?b = "(shell_buffer s)[n := 0]"
  let ?t = "s1\<lparr>shell_buffer := ?b\<rparr>"
  have b: "?b = line_of s @ 0 # drop (Suc n) (shell_buffer s)"
    using s(3) n by (simp add: line_of_def upd_conv_take_nth_drop)
  have "obj_set (shell_buffer s) (curr_pos s) 0 = Some ?b"
    unfolding n(1) by (rule obj_set_nat) (use s(3) n in simp)
  then have "shell_key irqs 10 s = obind (excecute_command irqs ?t) after_command"
    by (simp add: shell_key_def 1(1,4,5) after_command_def [abs_def])
  moreover have "edited s ?t"
  proof -
    have "?t = s1\<lparr>shell_buffer := ?b, curr_pos := curr_pos s1\<rparr>" by simp
    then show ?thesis using edited_trans [OF 1(3) edited_line] by metis
  qed
  moreover have "entered (line_of s) s ?t"
    using 1(2,5) s edited_fields [OF 1(3)] \<open>edited s ?t\<close> b n by (auto simp: entered_def line_of_def)
  ultimately show ?thesis by blast
qed

lemma entered_runs:
  assumes en: "entered (bytes (command_names ! i) @ tail) s t" and tb: "cmd_table s = shell_commands" and i: "i < 23"
    and tail: "0 \<notin> set tail" "tail = [] \<or> hd tail = 32"
  shows "\<exists>u args. excecute_command irqs t = run_command (command_funcs ! i) irqs args (int (length (words_of tail))) u
    \<and> map cstr args = words_of tail \<and> length args = length (words_of tail) \<and> (\<forall>a \<in> set args. 0 \<in> set a)
    \<and> con_ok u \<and> syscall_set u \<and> edited s u \<and> length (shell_buffer u) = SHELL_BUFFER_SIZE \<and> curr_pos u = curr_pos s"
proof -
  let ?n = "bytes (command_names ! i)"
  note p = command_name_props [OF i]
  have t: "con_ok t" "syscall_set t" "cmd_table t = shell_commands" "edited s t" "length (shell_buffer t) = 128"
    "curr_pos t = curr_pos s" using en tb by (auto simp: entered_def)
  obtain r where r: "shell_buffer t = ?n @ tail @ 0 # r" using en by (auto simp: entered_def)
  obtain c r' where c: "tail @ 0 # r = c # r'" "c = 0 \<or> c = 32" using tail(2) by (cases tail) auto
  have parse: "parse_command (cmd_table t) (shell_buffer t) = Some (int i)"
    unfolding t(3) r c(1) by (rule parse_command_found [OF i c(2)])
  have e: "obj_get (cmd_table t) (int i) = Some (shell_commands ! i)"
    unfolding t(3) by (rule obj_get_nat) (simp add: length_shell_commands i)
  have len: "strlen (cmd_name (shell_commands ! i)) = Some (int (length ?n))"
    unfolding p(3) using strlen_append [OF p(1), of "[]"] by simp
  have "0 < length (command_names ! i)" using p(2) by auto
  then have "length tail \<le> 126" using t(5) unfolding r length_append list.size(4) length_bytes by linarith
  then have "length (words_of tail) < 64" using words_short [of tail] by simp
  from get_arguments_words [OF tail(1) this, of r] obtain idxs b where
    g: "get_arguments (tail @ 0 # r) = Some (idxs, b)" "map cstr (argument_strings idxs b) = words_of tail"
      "length idxs = length (words_of tail)" "length b = length (tail @ 0 # r)"
      "\<forall>a \<in> set (argument_strings idxs b). 0 \<in> set a" by blast
  let ?u = "t\<lparr>shell_buffer := ?n @ b\<rparr>"
  have "excecute_command irqs t = run_command (command_funcs ! i) irqs (argument_strings idxs b) (int (length idxs)) ?u"
    by (simp add: excecute_command_def parse [unfolded r] e len r g(1) p(4))
  moreover have "edited s ?u"
  proof -
    have "?u = t\<lparr>shell_buffer := ?n @ b, curr_pos := curr_pos t\<rparr>" by simp
    then show ?thesis using edited_trans [OF t(4) edited_line] by metis
  qed
  moreover have "length (argument_strings idxs b) = length idxs" by (simp add: argument_strings_def)
  moreover have "length (?n @ b) = 128" using t(5) g(4) by (simp only: r length_append)
  ultimately show ?thesis using g(2,3,5) t(1,2,6) by (intro exI [of _ ?u] exI [of _ "argument_strings idxs b"]) simp
qed

text \<open>A typed line runs its command.\<close>

lemma typed_command:
  assumes ok: "shell_ok s" "line_of s = []" "cmd_table s = shell_commands" and ed: "edits [] ks"
    and line: "foldl edit [] ks = bytes (command_names ! i) @ tail" "i < 23" "0 \<notin> set tail" "tail = [] \<or> hd tail = 32"
  shows "\<exists>u args. shell_keys irqs (ks @ [10]) s
      = obind (obind (run_command (command_funcs ! i) irqs args (int (length (words_of tail))) u) after_command)
          (\<lambda>r s. Some (Runs (if r \<noteq> 0 then 1 else 0) s))
    \<and> map cstr args = words_of tail \<and> length args = length (words_of tail) \<and> (\<forall>a \<in> set args. 0 \<in> set a)
    \<and> con_ok u \<and> syscall_set u \<and> edited s u \<and> length (shell_buffer u) = SHELL_BUFFER_SIZE \<and> 0 \<le> curr_pos u \<and> curr_pos u \<le> 126"
proof -
  obtain t where t: "shell_keys irqs ks s = Some (Runs 1 t)" "shell_ok t" "line_of t = foldl edit [] ks" "edited s t"
    using shell_keys_edit [OF ok(1)] ok(2) ed by auto
  obtain w where w: "entered (line_of t) t w" "shell_key irqs 10 t = obind (excecute_command irqs w) after_command"
    using enter_executes [OF t(2)] by blast
  have "cmd_table t = shell_commands" using edited_fields [OF t(4)] ok(3) by simp
  from entered_runs [OF w(1) [unfolded t(3) line(1)] this line(2-4), of irqs] obtain u args where
    u: "excecute_command irqs w = run_command (command_funcs ! i) irqs args (int (length (words_of tail))) u"
      "map cstr args = words_of tail" "length args = length (words_of tail)" "\<forall>a \<in> set args. 0 \<in> set a"
      "con_ok u" "syscall_set u" "edited t u" "length (shell_buffer u) = SHELL_BUFFER_SIZE" "curr_pos u = curr_pos t" by blast
  have "shell_keys irqs (ks @ [10]) s = obind (shell_key irqs 10 t) (\<lambda>r s. Some (Runs (if r \<noteq> 0 then 1 else 0) s))"
    by (simp add: shell_keys_append t(1) obind_def cong: if_cong) (auto split: option.split outcome.split)
  then show ?thesis using w(2) u edited_trans [OF t(4) u(7)] t(2)
    by (intro exI [of _ u] exI [of _ args]) (simp add: shell_ok_def)
qed

end
