(* ===== verification/Shell_Props.thy ===== *)
theory Shell_Props
  imports Traps Libc_Print Shell_Lines
begin

unbundle bit_operations_syntax

section \<open>The shell at work\<close>

text \<open>
  Lines typed at the prompt and the commands they run: a session of printing commands, \<open>kill\<close>, \<open>setdate\<close>,
  and the keys that the library loses.
\<close>

subsection \<open>A shell that has started\<close>

definition shell_demo :: shell_state where
  "shell_demo = libc_state.extend (int_state.extend int_demo (libc_state.fields (\<lambda>_. 0x60001000) (- 1) 0 0))
     (shell_state.fields (replicate 128 0) 0 shell_commands)"

lemma shell_demo_fields [simp]:
  "cmd_table shell_demo = shell_commands" "curr_pos shell_demo = 0" "shell_buffer shell_demo = replicate 128 0"
  "syscall_set shell_demo" "line_of shell_demo = []" "unchar shell_demo = - 1" "local_addr shell_demo v = 0x60001000"
  by (simp_all add: shell_demo_def int_state.defs libc_state.defs shell_state.defs line_of_def)

lemma shell_demo_ok: "shell_ok shell_demo"
proof -
  have "con_ok shell_demo"
    using int_demo_con by (simp add: con_ok_def shell_demo_def int_state.defs libc_state.defs shell_state.defs)
  then show ?thesis by (simp add: shell_ok_def)
qed

lemma shell_demo_same: "same_sched int_demo shell_demo"
  by (simp add: same_sched_def shell_demo_def int_state.defs libc_state.defs shell_state.defs)

subsection \<open>What the commands do\<close>

text \<open>Reading changes the memory and the position in the key buffer.\<close>

lemma read_loop_rest:
  assumes "read_loop buf n s = Some y"
  shows "\<exists>m f. snd y = s\<lparr>mem := m, buffer_first_key := f\<rparr>"
proof (rule read_loop.raw_induct [OF _ assms], goal_cases)
  case (1 rec buf n s y)
  obtain key u where u: "kbrd_get_key s = Some (key, u)" using 1(2) by (auto simp: bind_eq_Some_conv)
  obtain g where g: "u = s\<lparr>buffer_first_key := g\<rparr>"
  proof (cases "buffer_is_empty s")
    case True
    then have "u = s\<lparr>buffer_first_key := buffer_first_key s\<rparr>" using u by (simp add: kbrd_get_key_def)
    then show ?thesis by (rule that)
  qed (use u that in \<open>auto simp: kbrd_get_key_def bind_eq_Some_conv\<close>)
  show ?case
  proof (cases "key = KEY_UNKNOWN")
    case True
    then have "snd y = s\<lparr>mem := mem s, buffer_first_key := g\<rparr>" using 1(2) u g by auto
    then show ?thesis by blast
  next
    case False
    obtain m where "rec buf (n + 1) (u\<lparr>mem := m\<rparr>) = Some y"
    proof (cases "kbrd_key_to_ascii key u = 0")
      case True
      have "u = u\<lparr>mem := mem u\<rparr>" by simp
      then show ?thesis using 1(2) u False True that [of "mem u"] by (simp add: Let_def)
    qed (use 1(2) u False that in \<open>auto simp: Let_def\<close>)
    from 1(1) [OF this] obtain m' f where "snd y = u\<lparr>mem := m\<rparr>\<lparr>mem := m', buffer_first_key := f\<rparr>" by blast
    then have "snd y = s\<lparr>mem := m', buffer_first_key := f\<rparr>" by (simp add: g)
    then show ?thesis by blast
  qed
qed

lemma ucast_scast_32: "ucast (scast (v :: u32) :: u64) = v"
  by (rule bit_word_eqI) (auto simp: bit_simps)

lemma read_call:
  "syscall_set s \<Longrightarrow> read_loop buf (- 1) s = Some (r, t) \<Longrightarrow> u_read fd buf n s = Some (r, t)"
  by (simp add: u_read_def u_call_def sys_handler_def int80h_def syscall_read_def with_exitno_def u_int_def u_value_def
      ucast_scast_32)

text \<open>Keys behind the first one.\<close>

lemma getc_first_key:
  assumes "kbd_ok s" and "kbd_items s = k # ks" and "length ks < 100" and "syscall_set s" and "unchar s = - 1"
    and "\<forall>key \<in> set (k # ks). key \<noteq> KEY_UNKNOWN \<and> kbrd_key_to_ascii key s \<noteq> 0"
  defines "a \<equiv> local_addr s ''fgetc.c''"
  shows "\<exists>t. getc irqs s = Some (scast (kbrd_key_to_ascii k s), t) \<and> kbd_items t = [] \<and> kbd_ok t
    \<and> mem t = store_bytes (mem s) a (map (\<lambda>key. kbrd_key_to_ascii key s) (k # ks))
    \<and> (\<exists>m f. t = s\<lparr>mem := m, buffer_first_key := f\<rparr>)"
proof -
  have keys: "\<forall>key \<in> set (k # ks). key \<noteq> KEY_UNKNOWN \<and> kbrd_key_to_ascii key s \<noteq> 0" by (rule assms(6))
  obtain t where t: "read_loop a (of_nat 0 - 1) s = Some (of_nat (0 + length (k # ks)) - 1, t)"
    "mem t = store_bytes (mem s) (a + of_nat 0) (map (\<lambda>key. kbrd_key_to_ascii key s) (k # ks))" "kbd_items t = []" "kbd_ok t"
    using read_loop_keys [OF keys, of s "k # ks" 0 a] assms(1-3) by auto
  then have rl: "read_loop a (- 1) s = Some (of_nat (length ks), t)" by simp
  obtain m f where tf: "t = s\<lparr>mem := m, buffer_first_key := f\<rparr>" using read_loop_rest [OF rl] by auto
  have ne: "of_nat (length ks) \<noteq> (- 1 :: u32)"
  proof
    assume e: "of_nat (length ks) = (- 1 :: u32)"
    then have "of_nat (Suc (length ks)) = (0 :: u32)" by simp
    moreover have "unat (of_nat (Suc (length ks)) :: u32) = Suc (length ks)" by (rule unat_of_nat_small) (use assms(3) in simp)
    ultimately show False by (simp del: of_nat_Suc)
  qed
  have "fgetc_loop irqs STDIN s = Some t"
    by (subst fgetc_loop.simps) (simp add: read_call [OF assms(4) rl] a_def [symmetric] ne)
  moreover have "local_addr t ''fgetc.c'' = a" by (simp add: tf a_def)
  moreover have "load8 (mem t) a = kbrd_key_to_ascii k s"
    using t(2) by (simp add: load8_def store_bytes_def in_range_def)
  ultimately show ?thesis using t(2,3,4) tf assms(5) by (auto simp: getc_def fgetc_def)
qed

text \<open>C21: With several keys in the queue, \<open>getc\<close> delivers the first one and writes the others behind its one-byte
  buffer: they are lost and the bytes after the local variable are overwritten.\<close>

theorem getc_drops_type_ahead:
  assumes "kbd_ok s" and "kbd_items s = k # ks" and "length ks < 100" and "syscall_set s" and "unchar s = - 1"
    and "\<forall>key \<in> set (k # ks). key \<noteq> KEY_UNKNOWN \<and> kbrd_key_to_ascii key s \<noteq> 0"
  shows "\<exists>t. getc irqs s = Some (scast (kbrd_key_to_ascii k s), t) \<and> kbd_items t = []
    \<and> mem t = store_bytes (mem s) (local_addr s ''fgetc.c'') (map (\<lambda>key. kbrd_key_to_ascii key s) (k # ks))"
  using getc_first_key [OF assms] by blast

definition typed_demo :: shell_state where
  "typed_demo = shell_demo\<lparr>key_buffer := [104, 105] @ replicate 62 0, buffer_first_key := 0, buffer_last_key := 2, num_lock := 0,
     caps_lock := 0, shift_hold := 0\<rparr>"

theorem getc_drops_type_ahead_witness:
  "\<exists>t. getc Some typed_demo = Some (scast (kbrd_key_to_ascii 104 typed_demo), t) \<and> kbd_items t = []
    \<and> mem t = store_bytes (mem typed_demo) (local_addr typed_demo ''fgetc.c'') (map (\<lambda>key. kbrd_key_to_ascii key typed_demo) (104 # [105]))"
proof (rule getc_drops_type_ahead)
  show "kbd_ok typed_demo" by (simp add: typed_demo_def kbd_ok_def)
  show "kbd_items typed_demo = 104 # [105]"
    by (simp add: typed_demo_def kbd_items_def kbd_count_def ring_dist_def upt_rec)
  show "\<forall>key \<in> set (104 # [105]). key \<noteq> KEY_UNKNOWN \<and> kbrd_key_to_ascii key typed_demo \<noteq> 0"
    by (simp add: kbrd_key_to_ascii_def isascii_def typed_demo_def)
qed (simp_all add: typed_demo_def)

lemma shows_echo_loop:
  "\<forall>a \<in> set args. 0 \<in> set a \<Longrightarrow> n + i \<le> length args \<Longrightarrow> shows_only (echo_loop n (int i) args :: 'a int_state_scheme \<Rightarrow> _)"
proof (induction n arbitrary: i)
  case 0
  show ?case by (rule shows_none) simp
next
  case (Suc n)
  have a: "obj_get args (int i) = Some (args ! i)" by (rule obj_get_nat) (use Suc.prems in simp)
  have "fmt_ok (bytes ''%s '' @ [0]) False [Arg_str (args ! i)]" "no_b (bytes ''%s '' @ [0]) False" using Suc.prems by (simp_all add: bytes_def)
  then have "shows_only (\<lambda>s :: 'a int_state_scheme. Option.bind (u_printf ''%s '' [Arg_str (args ! i)] s) (echo_loop n (int i + 1) args))"
    using Suc.IH [of "Suc i"] Suc.prems by (intro shows_bind shows_printf) (simp_all add: add.commute)
  then show ?case by (simp add: a shows_only_def)
qed

lemma shows_commands_loop: "\<forall>e \<in> set es. 0 \<in> set (cmd_name e) \<Longrightarrow> shows_only (commands_loop es :: 'a int_state_scheme \<Rightarrow> _)"
proof (induction es)
  case Nil
  show ?case by (rule shows_none) simp
next
  case (Cons e es)
  have "shows_only (\<lambda>s :: 'a int_state_scheme. Option.bind (u_printf ([CHR 0x09] @ ''%s'' @ [CHR 0x0A]) [Arg_str (cmd_name e)] s) (commands_loop es))"
    using Cons by (intro shows_bind shows_printf) (simp_all add: bytes_def)
  then show ?case by (simp add: shows_only_def)
qed

lemma shows_ascii_loop: "shows_only (ascii_loop n :: 'a int_state_scheme \<Rightarrow> _)"
proof (induction n)
  case 0
  show ?case by (rule shows_none) simp
next
  case (Suc n)
  let ?i = "127 - int n"
  have 1: "shows_only (\<lambda>s :: 'a int_state_scheme. u_printf ''%x: %c'' [arg_int ?i, arg_int (if ?i < 32 then 32 else ?i)] s)"
    by (rule shows_printf) (simp_all add: bytes_def arg_int_def)
  have "shows_only (\<lambda>s :: 'a int_state_scheme. u_printf ('' '' @ [CHR 0x09] @ ''| '') [] s)" by (rule shows_printf) (simp_all add: bytes_def)
  then have 2: "shows_only (\<lambda>s :: 'a int_state_scheme. if ?i mod 8 \<noteq> 0 then u_printf ('' '' @ [CHR 0x09] @ ''| '') [] s else map_option snd (libc_putc 10 s))"
    using shows_putc [of 10] by (cases "?i mod 8 \<noteq> 0") simp_all
  have "shows_only (\<lambda>s :: 'a int_state_scheme. Option.bind (u_printf ''%x: %c'' [arg_int ?i, arg_int (if ?i < 32 then 32 else ?i)] s)
    (\<lambda>s. Option.bind (if ?i mod 8 \<noteq> 0 then u_printf ('' '' @ [CHR 0x09] @ ''| '') [] s else map_option snd (libc_putc 10 s)) (ascii_loop n)))"
    by (intro shows_bind 1 2 Suc)
  then show ?case by (simp add: shows_only_def Let_def)
qed

text \<open>The commands that print and return 0 whatever their arguments.\<close>

definition quiet :: "cmd_func set" where
  "quiet = {C_echo, C_commands, C_print_ascii_table, C_printf_cmd}"

lemma echo_quiet:
  assumes "\<forall>a \<in> set args. 0 \<in> set a" and "con_ok s" and "syscall_set s"
  shows "\<exists>t. echo args (int (length args)) s = Some (0, t) \<and> con_ok t \<and> syscall_set t \<and> screen_only s t"
proof -
  have "shows_only (\<lambda>s :: 'a int_state_scheme. echo_loop (length args) (int 0) args s)"
    by (rule shows_echo_loop) (use assms(1) in simp_all)
  then obtain t where t: "echo_loop (length args) 0 args s = Some t" "con_ok t" "syscall_set t" "screen_only s t"
    using assms(2,3) by (auto elim: shows_onlyD)
  obtain v u where "libc_putc 10 t = Some (v, u)" "con_ok u" "syscall_set u" "screen_only t u"
    using u_putc_screen [OF t(2,3)] by blast
  then show ?thesis using t screen_only_trans [OF t(4)] by (auto simp: echo_def)
qed

lemma commands_quiet:
  assumes "cmd_table s = shell_commands" and "con_ok s" and "syscall_set s"
  shows "\<exists>t. commands_cmd s = Some (0, t) \<and> con_ok t \<and> syscall_set t \<and> screen_only s t"
proof -
  have "\<forall>x \<in> set (map cmd_name shell_commands). 0 \<in> set x" unfolding shell_commands_names by simp
  then have l: "shows_only (\<lambda>s :: 'a shell_state_scheme. commands_loop shell_commands s)" by (intro shows_commands_loop) simp
  have f: "fmt_ok (bytes (''Available commands are: '' @ [CHR 0x0A]) @ [0]) False []"
    "no_b (bytes (''Available commands are: '' @ [CHR 0x0A]) @ [0]) False" by (simp_all add: bytes_def)
  obtain t where t: "u_printf (''Available commands are: '' @ [CHR 0x0A]) [] s = Some t" "con_ok t" "syscall_set t" "screen_only s t"
    using u_printf_screen [OF assms(2,3) f] by blast
  obtain u where u: "commands_loop shell_commands t = Some u" "con_ok u" "syscall_set u" "screen_only t u"
    using shows_onlyD [OF l t(2,3)] by blast
  have "cmd_table t = shell_commands" using t(4) assms(1) by (auto simp: screen_only_def)
  then have "commands_cmd s = Some (0, u)"
    unfolding commands_cmd_def t(1) by (simp add: shell_print_commands_def u(1) returns_def)
  then show ?thesis using u(2-4) screen_only_trans [OF t(4)] by blast
qed

lemma ascii_quiet:
  assumes "con_ok s" and "syscall_set s"
  shows "\<exists>t. print_ascii_table s = Some (0, t) \<and> con_ok t \<and> syscall_set t \<and> screen_only s t"
proof -
  obtain t where t: "ascii_loop 128 s = Some t" "con_ok t" "syscall_set t" "screen_only s t"
    using shows_onlyD [OF shows_ascii_loop assms] by blast
  obtain v u where u: "libc_putc 10 t = Some (v, u)" "con_ok u" "syscall_set u" "screen_only t u"
    using u_putc_screen [OF t(2,3)] by blast
  have f: "fmt_ok (bytes (''last call to putc returned %d'' @ [CHR 0x0A]) @ [0]) False [Arg_num (ucast v)]"
    "no_b (bytes (''last call to putc returned %d'' @ [CHR 0x0A]) @ [0]) False" by (simp_all add: bytes_def)
  obtain w where w: "u_printf (''last call to putc returned %d'' @ [CHR 0x0A]) [Arg_num (ucast v)] u = Some w"
    "con_ok w" "syscall_set w" "screen_only u w"
    using u_printf_screen [OF u(2,3) f] by blast
  have "print_ascii_table s = Some (0, w)" 
    by (simp only: print_ascii_table_def returns_def t(1) u(1) w(1) Option.bind.bind_lunit prod.case option.map)
  then show ?thesis using w(2-4) screen_only_trans [OF screen_only_trans [OF t(4) u(4)]] by blast
qed

lemma printf_quiet:
  assumes "con_ok s" and "syscall_set s"
  shows "\<exists>t. printf_cmd s = Some (0, t) \<and> con_ok t \<and> syscall_set t \<and> screen_only s t"
proof -
  let ?g = "\<lambda>s :: 'a int_state_scheme. Option.bind (u_printf (''Testing printf...'' @ [CHR 0x0A, CHR 0x0A]) [] s) (\<lambda>s.
    Option.bind (u_printf (''Printing an integer: %d'' @ [CHR 0x0A]) [Arg_num 99] s) (\<lambda>s.
    Option.bind (u_printf (''Printing a string: %s'' @ [CHR 0x0A]) [Arg_str (bytes ''This is a real cool string!'' @ [0])] s) (\<lambda>s.
    Option.bind (u_printf (''Printing in uppercase hexadecimal notation: %x'' @ [CHR 0x0A]) [Arg_num 0x55fa] s) (\<lambda>s.
      u_printf (''Printing a single char: %c'' @ [CHR 0x0A]) [Arg_num 122] s))))"
  have "shows_only ?g" by (intro shows_bind shows_printf) (simp_all add: bytes_def)
  from shows_onlyD [OF this assms] obtain t where t: "?g s = Some t" "con_ok t" "syscall_set t" "screen_only s t" by blast
  have "printf_cmd s = map_option (Pair 0) (?g s)"
    unfolding printf_cmd_def returns_def by (simp only: map_option_bind comp_def)
  then show ?thesis using t by (simp only: t(1) option.map) blast
qed


lemma quiet_command:
  assumes "f \<in> quiet" and "\<forall>a \<in> set args. 0 \<in> set a" and "cmd_table s = shell_commands" and "con_ok s" and "syscall_set s"
  shows "\<exists>t. run_command f irqs args (int (length args)) s = Some (Runs 0 t) \<and> con_ok t \<and> syscall_set t \<and> screen_only s t"
proof -
  note q = echo_quiet [OF assms(2,4,5)] commands_quiet [OF assms(3-5)] ascii_quiet [OF assms(4,5)] printf_quiet [OF assms(4,5)]
  show ?thesis using assms(1) q unfolding quiet_def by (elim insertE emptyE) (auto simp: run_command_def)
qed

lemma prompt_again:
  assumes "con_ok t" and "syscall_set t" and "length (shell_buffer t) = SHELL_BUFFER_SIZE" and "0 \<le> curr_pos t" and "curr_pos t \<le> 126"
  shows "\<exists>u. after_command 0 t = Some (Runs 1 u) \<and> shell_ok u \<and> line_of u = [] \<and> edited t u"
proof -
  have f: "fmt_ok (bytes SHELL_TEXT @ [0]) False []" "no_b (bytes SHELL_TEXT @ [0]) False" by (simp_all add: bytes_def)
  obtain u where u: "u_printf SHELL_TEXT [] t = Some u" "con_ok u" "syscall_set u" "screen_only t u"
    using u_printf_screen [OF assms(1,2) f] by blast
  have same: "shell_buffer u = shell_buffer t" "curr_pos u = curr_pos t" by (rule screen_edited [OF u(4)])+
  have loop: "\<exists>b'. clean_buffer_loop n (int i) p b = Some b' \<and> length b' = length b" if "n + i \<le> length b" for n i p b
    using that
  proof (induction n arbitrary: i b)
    case (Suc n)
    have "obj_set b (int i) 0 = Some (b[i := 0])" by (rule obj_set_nat) (use Suc.prems in simp)
    then show ?case using Suc.IH [of "Suc i" "b[i := 0]"] Suc.prems by (auto simp: add.commute)
  qed simp
  obtain b where b: "clean_buffer_loop SHELL_BUFFER_SIZE 0 (curr_pos u) (shell_buffer u) = Some b" "length b = SHELL_BUFFER_SIZE"
    using loop [of SHELL_BUFFER_SIZE 0 "shell_buffer u" "curr_pos u"] assms(3) by (auto simp: same)
  have "edited t (u\<lparr>shell_buffer := b, curr_pos := 0\<rparr>)" by (rule edited_trans [OF screen_edited(1) [OF u(4)] edited_line])
  then show ?thesis using b u(2,3)
    by (simp add: after_command_def print_shell_text_def u(1) clean_buffer_def shell_ok_def line_of_def same)
qed

lemma edits_clean: "edits l ks \<Longrightarrow> 0 \<notin> set l \<Longrightarrow> 0 \<notin> set (foldl edit l ks)"
  by (induction ks arbitrary: l) (auto simp: edit_def dest: in_set_butlastD split: if_splits)

text \<open>C13: A line typed at the prompt, with its corrections, runs the command whose name begins it, with the words behind
  the name as its arguments; until then only the screen and the line change.\<close>

theorem typed_line_runs:
  assumes "shell_ok s" and "line_of s = []" and "cmd_table s = shell_commands" and "edits [] ks"
    and "foldl edit [] ks = bytes (command_names ! i) @ tail" and "i < 23" and "tail = [] \<or> hd tail = 32"
  shows "\<exists>u args. shell_keys irqs (ks @ [10]) s
      = obind (obind (run_command (command_funcs ! i) irqs args (int (length (words_of tail))) u) after_command)
          (\<lambda>r s. Some (Runs (if r \<noteq> 0 then 1 else 0) s))
    \<and> map cstr args = words_of tail \<and> con_ok u \<and> syscall_set u \<and> edited s u"
proof -
  have "0 \<notin> set tail" using edits_clean [OF assms(4)] assms(5) by simp
  from typed_command [OF assms(1-6) this assms(7), of irqs] show ?thesis by blast
qed

theorem typed_line_runs_witness:
  "\<exists>u args. shell_keys Some ((bytes ''echp'' @ [8] @ bytes ''o hi'') @ [10]) shell_demo
      = obind (obind (run_command (command_funcs ! 0) Some args (int (length (words_of (bytes '' hi'')))) u) after_command)
          (\<lambda>r s. Some (Runs (if r \<noteq> 0 then 1 else 0) s))
    \<and> map cstr args = words_of (bytes '' hi'') \<and> con_ok u \<and> syscall_set u \<and> edited shell_demo u"
  by (rule typed_line_runs [OF shell_demo_ok]) (simp_all add: bytes_def edit_def command_names_def)

text \<open>C23: A line that no command's name begins makes the shell read the entry before the table.\<close>

theorem unknown_command_faults:
  assumes "shell_ok s" and "line_of s = []" and "cmd_table s = shell_commands" and "edits [] ks"
    and "foldl edit [] ks \<noteq> []" and "\<forall>n \<in> set command_names. take (length n) (foldl edit [] ks) \<noteq> bytes n"
  shows "shell_keys irqs (ks @ [10]) s = None"
proof -
  obtain t where t: "shell_keys irqs ks s = Some (Runs 1 t)" "shell_ok t" "line_of t = foldl edit [] ks" "edited s t"
    using shell_keys_edit [OF assms(1)] assms(2,4) by auto
  obtain w where w: "entered (line_of t) t w" "shell_key irqs 10 t = obind (excecute_command irqs w) after_command"
    using enter_executes [OF t(2)] by blast
  obtain r where r: "shell_buffer w = foldl edit [] ks @ 0 # r" using w(1) t(3) by (auto simp: entered_def)
  have "cmd_table w = shell_commands" using w(1) edited_fields [OF t(4)] assms(3) by (simp add: entered_def)
  then have "excecute_command irqs w = None"
    using parse_command_unknown [OF edits_clean [OF assms(4)] assms(5,6), of r] by (simp add: excecute_command_def r)
  then have "shell_key irqs 10 t = None" by (simp add: w(2) obind_def)
  then show ?thesis by (simp add: shell_keys_append t(1) obind_def)
qed

theorem unknown_command_faults_witness: "shell_keys Some (bytes ''ls'' @ [10]) shell_demo = None"
  by (rule unknown_command_faults [OF shell_demo_ok]) (simp_all add: bytes_def edit_def command_names_def)

text \<open>C24: The key after the 126th character of a line ends the shell: its loop takes the beep's result for the end.\<close>

theorem long_line_ends_shell:
  assumes "shell_ok s" and "length (line_of s) = 126" and "key \<notin> {0, 8, 10}" and "inq s 0x61 \<noteq> []"
  shows "\<exists>t. shell_keys irqs (key # ks) s = Some (Runs 0 t) \<and> shell_buffer t = shell_buffer s"
proof -
  have "curr_pos s = 126" using assms(1,2) by (auto simp: shell_ok_def line_of_def)
  moreover obtain b q where "inq s 0x61 = b # q" using assms(4) by (cases "inq s 0x61") auto
  ultimately show ?thesis using assms(1,3)
    by (auto simp: shell_key_def obind_def shell_ok_def u_beep_def u_void_def u_call_def sys_handler_def int80h_def u_value_def
        without_exitno_def beep_def beepl_def beeplf_def sound_def inportb_def outportb_def Let_def)
qed

definition long_demo :: shell_state where
  "long_demo = shell_demo\<lparr>curr_pos := 126, shell_buffer := replicate 126 97 @ [0, 0], inq := \<lambda>_. [3]\<rparr>"

theorem long_line_ends_shell_witness:
  "\<exists>t. shell_keys Some [97] long_demo = Some (Runs 0 t) \<and> shell_buffer t = shell_buffer long_demo"
proof (rule long_line_ends_shell)
  show "shell_ok long_demo" using shell_demo_ok by (simp add: shell_ok_def con_ok_def long_demo_def)
qed (simp_all add: long_demo_def line_of_def)

lemma screen_same_sched: "screen_only s t \<Longrightarrow> same_sched s t"
  by (auto simp: screen_only_def same_sched_def)

lemma screen_mem_views:
  assumes "screen_only s t"
  shows "settled t zs = settled s zs" "pid_of t q = pid_of s q" "sched_ok t zs = sched_ok s zs"
  using same_sched_views [OF screen_same_sched [OF assms]] by auto

lemma kill_call:
  assumes "con_ok s" and "syscall_set s"
  shows "\<exists>u. screen_only s u \<and> u_int (u_call SYSCALL_KILL (ucast (word_of_int pid :: u32)) (ucast (SIGKILL :: u32)) 0 s)
    = map_option (\<lambda>(r, t). (ucast (scast (ucast r :: u32) :: u64), t)) (sched_terminate_process (ucast (word_of_int pid :: u32)) 0 u)"
proof -
  have f: "fmt_ok (bytes (''Received kill signal'' @ [CHR 0x0A]) @ [0]) False []"
    "fmt_ok (bytes (''Killing process %d'' @ [CHR 0x0A]) @ [0]) False [Arg_num (ucast (word_of_int pid :: u32))]"
    by (simp_all add: bytes_def)
  obtain s1 where 1: "kprintf (''Received kill signal'' @ [CHR 0x0A]) [] s = Some s1" "con_ok s1" "screen_only s s1"
    using kprintf_screen [OF assms(1) f(1)] by blast
  obtain s2 where 2: "kprintf (''Killing process %d'' @ [CHR 0x0A]) [Arg_num (ucast (word_of_int pid :: u32))] s1 = Some s2" "screen_only s1 s2"
    using kprintf_screen [OF 1(2) f(2)] by blast
  have "screen_only s s2" using 1(3) 2(2) by (rule screen_only_trans)
  moreover have "syscall_kill (ucast (word_of_int pid :: u32)) SIGKILL s
      = map_option (\<lambda>(r, t). (ucast r, t)) (sched_terminate_process (ucast (word_of_int pid :: u32)) 0 s2)"
    using 1(1) 2(1) by (simp only: syscall_kill_def) (auto split: Option.bind_split)
  ultimately show ?thesis using assms(2)
    by (intro exI [of _ s2]) (auto simp: u_int_def u_value_def u_call_def sys_handler_def int80h_def with_exitno_def
        option.map_comp comp_def split: option.split)
qed


lemma kill_result:
  assumes ok: "sched_ok s (z # zs)" "con_ok s" "syscall_set s" and arg: "atoi arg = Some pid" "pid \<noteq> - 1"
  defines "p \<equiv> ucast (word_of_int pid :: u32)"
  assumes other: "pid_of s z \<noteq> Some p"
  shows "\<exists>u. screen_only s u \<and> (\<forall>r t. sched_terminate_process p 0 u = Some (r, t) \<longrightarrow> r \<in> {0, - 1} \<longrightarrow>
    kill_cmd [arg] 1 s = map_option (Runs 0)
      (if r \<noteq> 0 then u_printf ''Killed pid: %d'' [arg_int pid] t else u_printf ''No process with pid: %d found'' [arg_int pid] t))"
proof -
  obtain u where u: "screen_only s u" "u_int (u_call SYSCALL_KILL p (ucast (SIGKILL :: u32)) 0 s)
      = map_option (\<lambda>(r, t). (ucast (scast (ucast r :: u32) :: u64), t)) (sched_terminate_process p 0 u)"
    using kill_call [OF ok(2,3), of pid] unfolding p_def by blast
  have st: "settled s (z # zs)" by (rule sched_ok_settled [OF ok(1)])
  obtain q where "proc_at z s = Some q" using proc_at_table [of s z] st by (auto simp: settled_def cycle_def)
  then have own: "sched_getpid s = Some (p_pid q)" "p_pid q \<noteq> p" using st other by (auto simp: sched_getpid_def settled_def pid_of_def)
  have a: "obj_get [arg] 0 = Some arg" by (simp add: obj_get_def)
  have minus: "ucast (ucast (ucast (scast (ucast (- 1 :: u64) :: u32) :: u64) :: u32) :: u64) = (- 1 :: u32)"
    by (rule bit_word_eqI) (auto simp: bit_simps)
  show ?thesis
  proof (intro exI [of _ u] conjI allI impI)
    fix r t assume "sched_terminate_process p 0 u = Some (r, t)" "r \<in> {0, - 1}"
    then show "kill_cmd [arg] 1 s = map_option (Runs 0)
      (if r \<noteq> 0 then u_printf ''Killed pid: %d'' [arg_int pid] t else u_printf ''No process with pid: %d found'' [arg_int pid] t)"
      using u(2) own arg(2) by (auto simp: kill_cmd_def a arg(1) u_kill_def p_def [symmetric] obind_def minus)
  qed (rule u(1))
qed

text \<open>C19: The messages of \<open>kill\<close> are swapped: a process that was killed is reported as not found, a pid nobody has as killed.\<close>

theorem kill_messages_swapped:
  assumes "sched_ok s (z # zs)" and "con_ok s" and "syscall_set s" and "atoi arg = Some pid" and "pid \<noteq> - 1"
    and "pid_of s z \<noteq> Some (ucast (word_of_int pid :: u32))"
  shows "(\<exists>q \<in> set zs. pid_of s q = Some (ucast (word_of_int pid :: u32)) \<and>
      (\<exists>t. kill_cmd [arg] 1 s = map_option (Runs 0) (u_printf ''No process with pid: %d found'' [arg_int pid] t)
        \<and> settled t (z # remove1 q zs)))
    \<or> (\<forall>q \<in> set zs. pid_of s q \<noteq> Some (ucast (word_of_int pid :: u32))) \<and>
      (\<exists>t. kill_cmd [arg] 1 s = map_option (Runs 0) (u_printf ''Killed pid: %d'' [arg_int pid] t) \<and> settled t (z # zs))"
proof -
  let ?p = "ucast (word_of_int pid :: u32) :: u64"
  obtain u where u: "screen_only s u" and res: "\<And>r t. sched_terminate_process ?p 0 u = Some (r, t) \<Longrightarrow> r \<in> {0, - 1} \<Longrightarrow>
      kill_cmd [arg] 1 s = map_option (Runs 0)
        (if r \<noteq> 0 then u_printf ''Killed pid: %d'' [arg_int pid] t else u_printf ''No process with pid: %d found'' [arg_int pid] t)"
    using kill_result [OF assms] by blast
  note v = screen_mem_views [OF u]
  have st: "settled u (z # zs)" using sched_ok_settled [OF assms(1)] v by simp
  have found: "\<exists>t. kill_cmd [arg] 1 s = map_option (Runs 0) (u_printf ''No process with pid: %d found'' [arg_int pid] t)
      \<and> settled t (z # remove1 q zs)" if q: "q \<in> set zs" "pid_of s q = Some ?p" for q
  proof -
    obtain xs ys where zs: "zs = xs @ q # ys" "q \<notin> set xs" using split_list_first [OF q(1)] by blast
    have "r = q" if "r \<in> set (z # xs)" "pid_of u r = Some ?p" for r
      by (rule sched_ok_inj [OF assms(1)]) (use that q zs(1) in \<open>auto simp: v\<close>)
    then have "pid_of u r \<noteq> Some ?p" if "r \<in> set (z # xs)" for r
      using that zs(2) assms(6) q(2) by auto
    then obtain t where t: "sched_terminate_process ?p 0 u = Some (0, t)" "cycle t ((z # xs) @ ys)" "active t = active u"
      using terminate_one [of u "z # xs" q ys ?p 0] st q(2) by (auto simp: zs(1) v)
    have "settled t (z # remove1 q zs)" using t(2,3) st zs(2) by (simp add: settled_def zs(1) remove1_append)
    then show ?thesis using res [OF t(1)] by auto
  qed
  moreover have "\<exists>t. kill_cmd [arg] 1 s = map_option (Runs 0) (u_printf ''Killed pid: %d'' [arg_int pid] t) \<and> settled t (z # zs)"
    if "\<forall>q \<in> set zs. pid_of s q \<noteq> Some ?p"
  proof -
    have "sched_terminate_process ?p 0 u = Some (- 1, u)"
      by (rule terminate_unknown [OF st]) (use that assms(6) in \<open>auto simp: v\<close>)
    then show ?thesis using res [of "- 1" u] st by auto
  qed
  ultimately show ?thesis by blast
qed

lemma sched_ok_shell: "sched_ok shell_demo [Process 0, Process 2, Process 1]"
  using int_demo_ok by (simp only: same_sched_views [OF shell_demo_same])

lemma shell_demo_pids: "pid_of shell_demo (Process 0) = Some 1" "pid_of shell_demo (Process 1) = Some 2"
  using sched_demo_pid by (simp_all add: same_sched_views [OF shell_demo_same] same_sched_views [OF int_demo_same])

theorem kill_messages_swapped_witness:
  "(\<exists>q \<in> set [Process 2, Process 1]. pid_of shell_demo q = Some (ucast (word_of_int 2 :: u32)) \<and>
      (\<exists>t. kill_cmd [bytes ''2'' @ [0]] 1 shell_demo = map_option (Runs 0) (u_printf ''No process with pid: %d found'' [arg_int 2] t)
        \<and> settled t (Process 0 # remove1 q [Process 2, Process 1])))
    \<or> (\<forall>q \<in> set [Process 2, Process 1]. pid_of shell_demo q \<noteq> Some (ucast (word_of_int 2 :: u32))) \<and>
      (\<exists>t. kill_cmd [bytes ''2'' @ [0]] 1 shell_demo = map_option (Runs 0) (u_printf ''Killed pid: %d'' [arg_int 2] t)
        \<and> settled t [Process 0, Process 2, Process 1])"
proof (rule kill_messages_swapped [OF sched_ok_shell])
  show "con_ok shell_demo" using shell_demo_ok by (simp add: shell_ok_def)
  show "atoi (bytes ''2'' @ [0]) = Some 2" by (simp add: bytes_def atoi_def int32_def chr_int_def)
qed (simp_all add: shell_demo_pids)

text \<open>A line that a quiet command's name begins.\<close>

definition quiet_text :: "u8 list \<Rightarrow> bool" where
  "quiet_text l \<longleftrightarrow> (\<exists>i < 23. command_funcs ! i \<in> quiet \<and> (\<exists>tail. l = bytes (command_names ! i) @ tail \<and> (tail = [] \<or> hd tail = 32)))"

lemma enter_quiet:
  assumes ok: "shell_ok s" "cmd_table s = shell_commands" and l: "quiet_text (line_of s)" "0 \<notin> set (line_of s)"
  shows "\<exists>t. shell_key irqs 10 s = Some (Runs 1 t) \<and> shell_ok t \<and> line_of t = [] \<and> edited s t"
proof -
  obtain i tail where i: "i < 23" "command_funcs ! i \<in> quiet" "line_of s = bytes (command_names ! i) @ tail"
    "tail = [] \<or> hd tail = 32" using l(1) by (auto simp: quiet_text_def)
  have z: "0 \<notin> set tail" using l(2) i(3) by simp
  obtain w where w: "entered (line_of s) s w" "shell_key irqs 10 s = obind (excecute_command irqs w) after_command"
    using enter_executes [OF ok(1)] by blast
  from entered_runs [OF w(1) [unfolded i(3)] ok(2) i(1) z i(4), of irqs] obtain u args where
    u: "excecute_command irqs w = run_command (command_funcs ! i) irqs args (int (length (words_of tail))) u"
      "length args = length (words_of tail)" "\<forall>a \<in> set args. 0 \<in> set a" "con_ok u" "syscall_set u" "edited s u"
      "length (shell_buffer u) = SHELL_BUFFER_SIZE" "curr_pos u = curr_pos s" by blast
  have tb: "cmd_table u = shell_commands" using edited_fields [OF u(6)] ok(2) by simp
  obtain t where t: "run_command (command_funcs ! i) irqs args (int (length args)) u = Some (Runs 0 t)"
    "con_ok t" "syscall_set t" "screen_only u t"
    using quiet_command [OF i(2) u(3) tb u(4,5)] by blast
  have e: "edited u t" "shell_buffer t = shell_buffer u" "curr_pos t = curr_pos u" by (rule screen_edited [OF t(4)])+
  obtain v where v: "after_command 0 t = Some (Runs 1 v)" "shell_ok v" "line_of v = []" "edited t v"
    using prompt_again [OF t(2,3)] u(7,8) e ok(1) by (auto simp: shell_ok_def)
  have "shell_key irqs 10 s = Some (Runs 1 v)" using t(1) v(1) by (simp add: w(2) u(1,2) obind_def)
  then show ?thesis using v edited_trans [OF edited_trans [OF u(6) e(1)] v(4)] by blast
qed

definition quiet_line :: "u8 list \<Rightarrow> bool" where
  "quiet_line ks \<longleftrightarrow> edits [] ks \<and> quiet_text (foldl edit [] ks)"

lemma quiet_line_prompt:
  assumes ok: "shell_ok s" "line_of s = []" "cmd_table s = shell_commands" and q: "quiet_line ks"
  shows "\<exists>t. shell_keys irqs (ks @ [10]) s = Some (Runs 1 t) \<and> shell_ok t \<and> line_of t = [] \<and> cmd_table t = shell_commands"
proof -
  obtain u where u: "shell_keys irqs ks s = Some (Runs 1 u)" "shell_ok u" "line_of u = foldl edit [] ks" "edited s u"
    using shell_keys_edit [OF ok(1)] ok(2) q by (auto simp: quiet_line_def)
  have "cmd_table u = shell_commands" "quiet_text (line_of u)" "0 \<notin> set (line_of u)"
    using edited_fields [OF u(4)] ok(3) q edits_clean by (auto simp: quiet_line_def u(3))
  from enter_quiet [OF u(2) this] obtain t where
    t: "shell_key irqs 10 u = Some (Runs 1 t)" "shell_ok t" "line_of t = []" "edited u t" by blast
  then show ?thesis using edited_fields [OF t(4)] \<open>cmd_table u = _\<close> by (simp add: shell_keys_append u(1) obind_def)
qed

text \<open>C5: The shell goes on for ever on lines of the commands that only print: after any number of them it is at the
  prompt with an empty line, its table as it was and the screen in order.\<close>

theorem shell_session:
  assumes "shell_ok s" and "line_of s = []" and "cmd_table s = shell_commands" and "\<forall>ks \<in> set lines. quiet_line ks"
  shows "\<exists>t. shell_keys irqs (concat (map (\<lambda>ks. ks @ [10]) lines)) s = Some (Runs 1 t)
    \<and> shell_ok t \<and> line_of t = [] \<and> cmd_table t = shell_commands"
  using assms
proof (induction lines arbitrary: s)
  case (Cons ks lines)
  obtain u where u: "shell_keys irqs (ks @ [10]) s = Some (Runs 1 u)" "shell_ok u" "line_of u = []" "cmd_table u = shell_commands"
    using quiet_line_prompt [OF Cons.prems(1-3), of ks irqs] Cons.prems(4) by auto
  obtain t where t: "shell_keys irqs (concat (map (\<lambda>ks. ks @ [10]) lines)) u = Some (Runs 1 t)"
    "shell_ok t \<and> line_of t = [] \<and> cmd_table t = shell_commands"
    using Cons.IH [OF u(2-4)] Cons.prems(4) by auto
  have "concat (map (\<lambda>ks. ks @ [10]) (ks # lines)) = (ks @ [10]) @ concat (map (\<lambda>ks. ks @ [10]) lines)" by simp
  then have "shell_keys irqs (concat (map (\<lambda>ks. ks @ [10]) (ks # lines))) s = Some (Runs 1 t)"
    by (simp only: shell_keys_append [of irqs "ks @ [10]"] u(1)) (simp add: obind_def t(1))
  then show ?case using t(2) by blast
qed simp

theorem shell_session_witness:
  "\<exists>t. shell_keys Some (concat (map (\<lambda>ks. ks @ [10]) [bytes ''echo hi'', bytes ''commands'', bytes ''prints'' @ [8] @ bytes ''f x''])) shell_demo
      = Some (Runs 1 t)
    \<and> shell_ok t \<and> line_of t = [] \<and> cmd_table t = shell_commands"
proof (rule shell_session [OF shell_demo_ok])
  have "quiet_line ks" if "edits [] ks" "i < 23" "command_funcs ! i \<in> quiet" "foldl edit [] ks = bytes (command_names ! i) @ tail"
    "tail = [] \<or> hd tail = 32" for ks i tail
    using that unfolding quiet_line_def quiet_text_def by blast
  from this [of "bytes ''echo hi''" 0 "bytes '' hi''"] this [of "bytes ''commands''" 11 "[]"]
    this [of "bytes ''prints'' @ [8] @ bytes ''f x''" 7 "bytes '' x''"]
  show "\<forall>ks \<in> set [bytes ''echo hi'', bytes ''commands'', bytes ''prints'' @ [8] @ bytes ''f x'']. quiet_line ks"
    by (simp add: bytes_def edit_def command_names_def command_funcs_def quiet_def)
qed simp_all

definition ports_only :: "'a machine_scheme \<Rightarrow> 'a machine_scheme \<Rightarrow> bool" where
  "ports_only s t \<longleftrightarrow> (\<exists>Q P. t = s\<lparr>inq := Q, outs := P\<rparr>)"

lemma get_rtc_ports:
  assumes "get_rtc_crt reg s = Some (v, t)" shows "ports_only s t"
proof -
  obtain x xs where "inq s 0x71 = x # xs" "t = s\<lparr>inq := (inq s)(0x71 := xs), outs := outs s @ [(0x70, ucast reg)]\<rparr>"
    using assms by (cases "inq s 0x71") (auto simp: get_rtc_crt_Cons get_rtc_crt_def outportb_def inportb_def)
  then show ?thesis unfolding ports_only_def by blast
qed

definition stores :: "('a machine_scheme \<Rightarrow> 'a machine_scheme option) \<Rightarrow> bool" where
  "stores f \<longleftrightarrow> (\<forall>s t. f s = Some t \<longrightarrow> (\<exists>M Q P. t = s\<lparr>mem := M, inq := Q, outs := P\<rparr>))"

lemma stores_bind:
  assumes "\<And>v. stores (g v)"
  shows "stores (\<lambda>s. Option.bind (get_rtc_crt reg s) (\<lambda>(v, s). g v s))"
  unfolding stores_def
proof (intro allI impI)
  fix s t assume "Option.bind (get_rtc_crt reg s) (\<lambda>(v, s). g v s) = Some t"
  then obtain v u where u: "get_rtc_crt reg s = Some (v, u)" "g v u = Some t" by (auto simp: bind_eq_Some_conv)
  obtain Q P where s: "u = s\<lparr>inq := Q, outs := P\<rparr>" using get_rtc_ports [OF u(1)] unfolding ports_only_def by blast
  obtain M Q' P' where "t = u\<lparr>mem := M, inq := Q', outs := P'\<rparr>" using assms u(2) unfolding stores_def by blast
  then have "t = s\<lparr>mem := M, inq := Q', outs := P'\<rparr>" by (simp add: s)
  then show "\<exists>M Q P. t = s\<lparr>mem := M, inq := Q, outs := P\<rparr>" by blast
qed

lemma stores_mem: "stores (\<lambda>s. Some (s\<lparr>mem := F s\<rparr>))"
  unfolding stores_def
proof (intro allI impI)
  fix s t :: "'a machine_scheme" assume "Some (s\<lparr>mem := F s\<rparr>) = Some t"
  then have t: "t = s\<lparr>mem := F s\<rparr>" by simp
  have "t = s\<lparr>mem := F s, inq := inq s, outs := outs s\<rparr>" by (simp add: t)
  then show "\<exists>M Q P. t = s\<lparr>mem := M, inq := Q, outs := P\<rparr>" by blast
qed

lemma get_time_ports: "stores (\<lambda>s. syscall_get_time time s)"
  unfolding syscall_get_time_def rtc_get_defs Let_def by (intro stores_bind stores_mem)

lemma parse_fields_nine:
  assumes "parse_fields sep str = Some (Some r)" and "i \<in> {0, 1, 3, 4, 6, 7}"
  shows "str ! i \<noteq> 57"
proof -
  have n: "\<not> is_num 57" by (simp add: is_num_def chr_int_def)
  have "obj_get str (int i) = Some (str ! i) \<and> is_num (str ! i)"
    using assms unfolding parse_fields_def by (auto simp: obj_get_def bind_eq_Some_conv split: if_splits)
  then show ?thesis using n by auto
qed

lemma parse_fields_some:
  assumes "strlen str = Some n" and "strlen str = Some 8 \<Longrightarrow> 8 \<le> length str" shows "\<exists>r. parse_fields sep str = Some r"
  using assms by (cases "n = 8") (auto simp: parse_fields_def obj_get_def)

text \<open>C25: \<open>setdate\<close> never writes the clock: all it sends to the ports is what \<open>gettime\<close> sends. A date with the
  digit 9 is called invalid besides.\<close>

theorem set_date_leaves_clock:
  assumes "con_ok s" and "syscall_set s" and "0 \<notin> set str"
    and "u_gettime (local_addr s ''set_date.time_struct'') s = Some s1"
  shows "\<exists>t. set_date [str @ 0 # r] 1 s = Some (0, t) \<and> outs t = outs s1 \<and> inq t = inq s1
    \<and> (57 \<in> set str \<longrightarrow> u_fprintf STDERR INVALID_DATE [] s1 = Some t)"
proof -
  let ?arg = "str @ 0 # r"
  obtain M Q P where s1: "s1 = s\<lparr>mem := M, inq := Q, outs := P\<rparr>"
  proof -
    have "syscall_get_time (local_addr s ''set_date.time_struct'') s = Some s1"
      using assms(2,4) by (auto simp: u_gettime_def u_void_def u_value_def u_call_def sys_handler_def int80h_def without_exitno_def
          split: option.splits)
    then show ?thesis using get_time_ports that unfolding stores_def by blast
  qed
  then have ok: "con_ok s1" "syscall_set s1" using assms(1,2) by (simp_all add: con_ok_def)
  have f: "fmt_ok (bytes INVALID_DATE @ [0]) False []" "no_b (bytes INVALID_DATE @ [0]) False"
    by (simp_all add: bytes_def INVALID_DATE_def)
  obtain e where e: "u_fprintf STDERR INVALID_DATE [] s1 = Some e" "screen_only s1 e"
    using u_fprintf_screen [OF ok f] by blast
  then have ports: "outs e = outs s1" "inq e = inq s1" by (auto simp: screen_only_def)
  have len: "strlen ?arg = Some (int (length str))" using strlen_append [OF assms(3)] .
  then have "\<exists>p. parse_fields 47 ?arg = Some p" by (rule parse_fields_some) (use len in simp)
  then obtain p where p: "parse_fields 47 ?arg = Some p" by blast
  have nine: "p = None" if n: "57 \<in> set str"
  proof (rule ccontr)
    assume "p \<noteq> None"
    then obtain q where q: "parse_fields 47 ?arg = Some (Some q)" using p by auto
    have d: "?arg ! i \<noteq> 57" if "i \<in> {0, 1, 3, 4, 6, 7}" for i by (rule parse_fields_nine [OF q that])
    have "length str = 8" "obj_get ?arg 2 = Some 47" "obj_get ?arg 5 = Some 47"
      using q len by (auto simp: parse_fields_def bind_eq_Some_conv split: if_splits)
    then have l: "length str = 8" "str ! 2 = 47" "str ! 5 = 47" by (auto simp: obj_get_def nth_append split: if_splits)
    obtain i where i: "i < 8" "str ! i = 57" using n l(1) by (auto simp: in_set_conv_nth)
    then have "i \<in> {0, 1, 3, 4, 6, 7} \<or> i = 2 \<or> i = 5" by auto
    then show False using d [of i] i l by (auto simp: nth_append)
  qed
  have a: "obj_get [?arg] 0 = Some ?arg" by (simp add: obj_get_def)
  show ?thesis
  proof (cases "parse_date ?arg = Some None")
    case True
    then have "set_date [?arg] 1 s = Some (0, e)" by (simp add: set_date_def assms(4) a e(1) returns_def)
    then show ?thesis using ports e(1) by blast
  next
    case False
    then obtain x where x: "parse_date ?arg = Some (Some x)" using p by (auto simp: parse_date_def split: option.splits)
    then have "57 \<notin> set str" using nine p by (auto simp: parse_date_def)
    moreover obtain d mo y where "x = (d, mo, y)" by (cases x)
    ultimately show ?thesis by (simp add: set_date_def assms(4) a x Let_def)
  qed
qed

theorem set_date_leaves_clock_witness:
  "\<exists>s1 t. u_gettime (local_addr (shell_demo\<lparr>inq := \<lambda>_. replicate 7 0\<rparr>) ''set_date.time_struct'') (shell_demo\<lparr>inq := \<lambda>_. replicate 7 0\<rparr>) = Some s1
    \<and> set_date [bytes ''19/01/12'' @ 0 # []] 1 (shell_demo\<lparr>inq := \<lambda>_. replicate 7 0\<rparr>) = Some (0, t)
    \<and> outs t = outs s1 \<and> inq t = inq s1
    \<and> (57 \<in> set (bytes ''19/01/12'') \<longrightarrow> u_fprintf STDERR INVALID_DATE [] s1 = Some t)"
proof -
  let ?s = "shell_demo\<lparr>inq := \<lambda>_. replicate 7 0\<rparr>"
  have ok: "con_ok ?s" "syscall_set ?s" using shell_demo_ok by (simp_all add: shell_ok_def con_ok_def)
  have "inq ?s 0x71 = [0, 0, 0, 0, 0, 0, 0]" by (simp add: eval_nat_numeral)
  then obtain u where "syscall_get_time (local_addr ?s ''set_date.time_struct'') ?s = Some u"
    using get_time_eq [of ?s 0 0 0 0 0 0 0 "[]"] by blast
  then have g: "u_gettime (local_addr ?s ''set_date.time_struct'') ?s = Some u"
    by (simp add: u_gettime_def u_void_def u_value_def u_call_def sys_handler_def int80h_def without_exitno_def)
  have "0 \<notin> set (bytes ''19/01/12'')" by (simp add: bytes_def)
  from set_date_leaves_clock [OF ok this g, of "[]"] g show ?thesis by blast
qed

end
