(* ===== verification/Libc_Heap_Props.thy ===== *)
theory Libc_Heap_Props
  imports Shell_Props
begin

unbundle bit_operations_syntax

section \<open>The heap of a program\<close>

text \<open>
  The list of blocks of Userland/libc/memory.c, as an invariant of \<open>malloc\<close> and \<open>free\<close>. The pointers lie where
  the kernel's do, so \<open>path\<close> is the kernel's.
\<close>

subsection \<open>Headers of the program's heap\<close>

text \<open>The fields lie where the kernel's do, but for the size, which has eight bytes.\<close>

lemma ub_kernel:
  "ub_next m b = block_next m b" "ub_prev m b = block_prev m b" "ub_free m b = block_free m b"
  "set_ub_next b v m = set_next b v m" "set_ub_prev b v m = set_prev b v m" "set_ub_free b w m = set_free b w m"
  by (simp_all add: ub_next_def ub_prev_def ub_free_def set_ub_next_def set_ub_prev_def set_ub_free_def
      block_next_def block_prev_def block_free_def set_next_def set_prev_def set_free_def)

lemma ub_size_same:
  "ub_size (set_ub_size b v m) b = v" "ub_size (set_next b x m) b = ub_size m b" "ub_size (set_prev b x m) b = ub_size m b"
  "ub_size (set_free b w m) b = ub_size m b" "block_next (set_ub_size b v m) b = block_next m b"
  "block_prev (set_ub_size b v m) b = block_prev m b" "block_free (set_ub_size b v m) b = block_free m b"
  unfolding ub_size_def set_ub_size_def block_defs
  by (simp add: c64.ld_st) (rule cell_apart, simp add: apart_def unat_minus_swap)+

lemma ub_size_far:
  assumes "far b c"
  shows "ub_size (set_ub_size b v m) c = ub_size m c" "ub_size (set_next b x m) c = ub_size m c" "ub_size (set_prev b x m) c = ub_size m c"
    "ub_size (set_free b w m) c = ub_size m c" "block_next (set_ub_size b v m) c = block_next m c"
    "block_prev (set_ub_size b v m) c = block_prev m c" "block_free (set_ub_size b v m) c = block_free m c"
proof -
  note f = far_apart [OF assms]
  have ap: "apart b 8 c 8" "apart (b + 8) 8 c 8" "apart (b + 16) 8 c 8" "apart (b + 24) 4 c 8"
    "apart b 8 (c + 8) 8" "apart b 8 (c + 16) 8" "apart b 8 (c + 24) 4"
    using f [of 0 8 0 8] f [of 8 8 0 8] f [of 16 8 0 8] f [of 24 4 0 8] f [of 0 8 8 8] f [of 0 8 16 8] f [of 0 8 24 4] by simp_all
  show "ub_size (set_ub_size b v m) c = ub_size m c" "ub_size (set_next b x m) c = ub_size m c" "ub_size (set_prev b x m) c = ub_size m c"
    "ub_size (set_free b w m) c = ub_size m c" "block_next (set_ub_size b v m) c = block_next m c"
    "block_prev (set_ub_size b v m) c = block_prev m c" "block_free (set_ub_size b v m) c = block_free m c"
    unfolding ub_size_def set_ub_size_def block_defs by (simp_all add: ap cell_apart)
qed

lemma set_ub_size_outside:
  assumes "unat b + 32 \<le> 2 ^ 63" and "unat x < unat b \<or> unat b + 32 \<le> unat x"
  shows "set_ub_size b v m x = m x"
  using header_outside [OF assms, of 0 8] by (simp add: set_ub_size_def store64_def store_bytes_other)

subsection \<open>The list of blocks\<close>

definition ub_end :: "mem \<Rightarrow> u64 \<Rightarrow> nat" where
  "ub_end m b = unat b + 32 + unat (ub_size m b)"

definition ub_apart :: "mem \<Rightarrow> u64 \<Rightarrow> u64 \<Rightarrow> bool" where
  "ub_apart m b c \<longleftrightarrow> ub_end m b \<le> unat c \<or> ub_end m c \<le> unat b"

definition ub_list :: "mem \<Rightarrow> u64 \<Rightarrow> u64 list \<Rightarrow> bool" where
  "ub_list m a bs \<longleftrightarrow> path m 0 a bs 0 \<and> distinct bs \<and> (\<forall>b \<in> set bs. ub_end m b \<le> 2 ^ 63)
     \<and> (\<forall>b \<in> set bs. \<forall>c \<in> set bs. b \<noteq> c \<longrightarrow> ub_apart m b c)"

lemma ub_list_far: "ub_list m a bs \<Longrightarrow> b \<in> set bs \<Longrightarrow> c \<in> set bs \<Longrightarrow> b \<noteq> c \<Longrightarrow> far b c"
  by (fastforce simp: ub_list_def ub_apart_def ub_end_def far_def)

lemma ub_find_first:
  assumes "path m p a (xs @ b # ys) 0" and "\<And>c. c \<in> set xs \<Longrightarrow> \<not> ub_fits m c n" and "ub_fits m b n"
  shows "u_find_loop a l n m = Some (b, last (l # xs))"
  using assms
proof (induction xs arbitrary: p a l)
  case Nil
  then show ?case by (subst u_find_loop.simps) simp
next
  case (Cons c xs)
  then show ?case by (subst u_find_loop.simps) (auto simp: ub_kernel)
qed

text \<open>What \<open>split_block\<close> writes.\<close>

lemma u_split_headers:
  assumes fbn: "far b n" and n: "n = b + 32 + sz" and m': "m' = u_split_block b sz m" and y: "y = block_next m b"
    and fy: "y \<noteq> 0 \<Longrightarrow> far y b \<and> far y n"
  shows "ub_size m' b = sz" "block_next m' b = n" "block_prev m' b = block_prev m b" "block_free m' b = block_free m b"
    and "ub_size m' n = ub_size m b - sz - 32" "block_next m' n = y" "block_prev m' n = b" "block_free m' n = 1"
    and "\<And>c. far b c \<Longrightarrow> far n c \<Longrightarrow> c = y \<or> y = 0 \<or> far y c \<Longrightarrow> ub_size m' c = ub_size m c \<and> block_next m' c = block_next m c
      \<and> block_free m' c = block_free m c \<and> block_prev m' c = (if y \<noteq> 0 \<and> c = y then n else block_prev m c)"
    and "\<And>x :: u64. \<not> (unat b \<le> unat x \<and> unat x < unat b + 32) \<Longrightarrow> \<not> (unat n \<le> unat x \<and> unat x < unat n + 32) \<Longrightarrow>
      y = 0 \<or> \<not> (unat y \<le> unat x \<and> unat x < unat y + 32) \<Longrightarrow> m' x = m x"
proof -
  have fnb: "far n b" using fbn by (simp add: far_sym)
  define m1 where "m1 = set_ub_size b sz (set_next b n (set_ub_size n (ub_size m b - sz - 32) (set_free n 1
    (set_prev n b (set_next n (block_next m b) m)))))"
  note far_simps = block_far [OF fnb] block_far [OF fbn] ub_size_far [OF fnb] ub_size_far [OF fbn] ub_size_same
  have h1: "ub_size m1 b = sz" "block_next m1 b = n" "block_prev m1 b = block_prev m b" "block_free m1 b = block_free m b"
    "ub_size m1 n = ub_size m b - sz - 32" "block_next m1 n = y" "block_prev m1 n = b" "block_free m1 n = 1"
    by (simp_all add: m1_def y far_simps)
  have eq: "m' = (if y \<noteq> 0 then set_prev y n m1 else m1)"
    using h1(6) by (simp add: m' u_split_block_def Let_def n [symmetric] ub_kernel far_simps m1_def)
  show "ub_size m' b = sz" "block_next m' b = n" "block_prev m' b = block_prev m b" "block_free m' b = block_free m b"
    "ub_size m' n = ub_size m b - sz - 32" "block_next m' n = y" "block_prev m' n = b" "block_free m' n = 1"
    using fy h1 by (auto simp: eq block_far ub_size_far)
  show "ub_size m' c = ub_size m c \<and> block_next m' c = block_next m c
      \<and> block_free m' c = block_free m c \<and> block_prev m' c = (if y \<noteq> 0 \<and> c = y then n else block_prev m c)"
    if "far b c" "far n c" "c = y \<or> y = 0 \<or> far y c" for c
  proof -
    have "ub_size m1 c = ub_size m c" "block_next m1 c = block_next m c" "block_prev m1 c = block_prev m c"
      "block_free m1 c = block_free m c"
      by (simp_all add: m1_def block_far [OF that(1)] block_far [OF that(2)] ub_size_far [OF that(1)] ub_size_far [OF that(2)])
    moreover have "\<not> far y y" by (simp add: far_def)
    ultimately show ?thesis using that(3) by (auto simp: eq block_far ub_size_far ub_size_same)
  qed
  fix x :: u64
  assume x: "\<not> (unat b \<le> unat x \<and> unat x < unat b + 32)" "\<not> (unat n \<le> unat x \<and> unat x < unat n + 32)"
    "y = 0 \<or> \<not> (unat y \<le> unat x \<and> unat x < unat y + 32)"
  have "m1 x = m x" using fbn x(1,2) by (simp add: m1_def far_def set_outside set_ub_size_outside not_le not_less disj_commute)
  moreover have "m' x = m1 x" using fy x(3) by (auto simp: eq far_def set_outside not_le not_less)
  ultimately show "m' x = m x" by simp
qed

lemma ub_list_cut:
  assumes hl: "ub_list m a (xs @ b # ys)" and p: "path m' 0 a (xs @ b # n # ys) 0"
    and n: "n \<notin> set (xs @ b # ys)" "ub_end m' b = unat n" "ub_end m' n = ub_end m b"
    and c: "\<And>c. c \<in> set (xs @ ys) \<Longrightarrow> ub_size m' c = ub_size m c"
  shows "ub_list m' a (xs @ b # n # ys)"
proof -
  have e: "ub_end m' c = ub_end m c" if "c \<in> set (xs @ ys)" for c using c [OF that] by (simp add: ub_end_def)
  have on: "ub_apart m' b c \<and> ub_apart m' n c \<and> ub_apart m' c b \<and> ub_apart m' c n" if c: "c \<in> set (xs @ ys)" for c
  proof -
    have "ub_apart m b c" using hl c by (auto simp: ub_list_def)
    moreover have "unat b \<le> unat n" using n(2) by (simp add: ub_end_def)
    moreover have "unat n \<le> ub_end m b" using n(3) by (simp add: ub_end_def)
    ultimately show ?thesis using n(2,3) e [OF c] by (auto simp: ub_apart_def)
  qed
  have bn: "ub_apart m' b n" "ub_apart m' n b" using n(2) by (auto simp: ub_apart_def)
  have "ub_apart m' c d" if cd: "c \<in> set (xs @ b # n # ys)" "d \<in> set (xs @ b # n # ys)" "c \<noteq> d" for c d
  proof (cases "c \<in> {b, n} \<or> d \<in> {b, n}")
    case False
    then have "c \<in> set (xs @ ys)" "d \<in> set (xs @ ys)" using cd by auto
    moreover from this have "ub_apart m c d" using hl cd(3) by (auto simp: ub_list_def)
    ultimately show ?thesis using e by (simp add: ub_apart_def)
  qed (use on bn cd in auto)
  moreover have "ub_end m' c \<le> 2 ^ 63" if "c \<in> set (xs @ b # n # ys)" for c
  proof (cases "c \<in> {b, n}")
    case True
    have "ub_end m b \<le> 2 ^ 63" using hl by (simp add: ub_list_def)
    moreover have "unat n \<le> ub_end m' n" by (simp add: ub_end_def)
    ultimately show ?thesis using True n(2,3) by auto
  next
    case False
    then have "c \<in> set (xs @ ys)" using that by auto
    moreover from this have "ub_end m c \<le> 2 ^ 63" using hl by (auto simp: ub_list_def)
    ultimately show ?thesis using e by simp
  qed
  moreover have "distinct (xs @ b # n # ys)" using hl n(1) by (auto simp: ub_list_def)
  ultimately show ?thesis using p by (simp add: ub_list_def)
qed

lemma u_split_sizes:
  assumes "ub_end m b \<le> 2 ^ 63" and "unat sz + 32 \<le> unat (ub_size m b)" and "n = b + 32 + sz"
  shows "unat n = unat b + 32 + unat sz" and "unat (ub_size m b - sz - 32) = unat (ub_size m b) - unat sz - 32" and "far b n"
proof -
  have "unat (b + of_nat (32 + unat sz)) = unat b + (32 + unat sz)"
    by (rule unat_add_small) (use assms(1,2) in \<open>simp add: ub_end_def\<close>)
  moreover have "b + of_nat (32 + unat sz) = n" by (simp add: assms(3) algebra_simps)
  ultimately show un: "unat n = unat b + 32 + unat sz" by simp
  have "unat (ub_size m b - sz) = unat (ub_size m b) - unat sz"
    using unat_sub [of sz "ub_size m b"] assms(2) by (simp add: word_le_nat_alt)
  then show "unat (ub_size m b - sz - 32) = unat (ub_size m b) - unat sz - 32"
    using unat_sub [of "32 :: u64" "ub_size m b - sz"] assms(2) by (simp add: word_le_nat_alt)
  show "far b n" using assms(1,2) by (simp add: far_def un ub_end_def)
qed

lemma u_split_list:
  assumes hl: "ub_list m a (xs @ b # ys)" and sz: "unat sz + 32 \<le> unat (ub_size m b)"
    and n: "n = b + 32 + sz" and m': "m' = u_split_block b sz m"
  shows "ub_list m' a (xs @ b # n # ys)" and "ub_size m' b = sz" and "block_free m' n = 1" and "n \<notin> set (xs @ b # ys)"
    and "\<And>c. c \<in> set (xs @ ys) \<Longrightarrow> ub_size m' c = ub_size m c \<and> block_free m' c = block_free m c"
    and "\<And>x :: u64. \<not> (unat b \<le> unat x \<and> unat x < ub_end m b) \<Longrightarrow>
      (\<And>c. c \<in> set ys \<Longrightarrow> \<not> (unat c \<le> unat x \<and> unat x < unat c + 32)) \<Longrightarrow> m' x = m x"
proof -
  have bb: "ub_end m b \<le> 2 ^ 63" using hl by (simp add: ub_list_def)
  note ss = u_split_sizes [OF bb sz n]
  have far_c: "far b c \<and> far n c" if c: "c \<in> set (xs @ ys)" for c
  proof -
    have ne: "b \<noteq> c" using c hl by (auto simp: ub_list_def)
    have "ub_apart m b c" "ub_end m c \<le> 2 ^ 63" using c hl ne by (auto simp: ub_list_def)
    then show ?thesis using bb sz by (auto simp: far_def ub_apart_def ss(1) ub_end_def)
  qed
  show new: "n \<notin> set (xs @ b # ys)"
  proof
    assume "n \<in> set (xs @ b # ys)"
    then have "n = b \<or> n \<in> set (xs @ ys)" by auto
    then show False using far_c [of n] ss(3) by (auto simp: far_def)
  qed
  have p: "path m 0 a (xs @ b # ys) 0" "distinct (xs @ b # ys)" using hl by (simp_all add: ub_list_def)
  define y where "y = block_next m b"
  have y: "y = (case ys of [] \<Rightarrow> 0 | y # _ \<Rightarrow> y)" using p(1) by (cases ys) (auto simp: path_append y_def)
  have y0: "y \<noteq> 0 \<longleftrightarrow> ys \<noteq> []" using p(1) y by (cases ys) (auto simp: path_append)
  have yh: "ys \<noteq> [] \<Longrightarrow> y = hd ys" "ys \<noteq> [] \<Longrightarrow> y \<in> set ys" using y by (cases ys; simp)+
  have fy: "y \<noteq> 0 \<Longrightarrow> far y b \<and> far y n" using far_c [of y] y0 yh by (auto simp: far_sym)
  note h = u_split_headers [OF ss(3) n m' y_def fy]
  show "ub_size m' b = sz" by (rule h(1))
  show "block_free m' n = 1" by (rule h(8))
  have hc: "ub_size m' c = ub_size m c \<and> block_next m' c = block_next m c
      \<and> block_free m' c = block_free m c \<and> block_prev m' c = (if ys \<noteq> [] \<and> c = hd ys then n else block_prev m c)"
    if c: "c \<in> set (xs @ ys)" for c
  proof -
    have "c = y \<or> y = 0 \<or> far y c" using ub_list_far [OF hl, of y c] c y0 yh(2) by (cases "c = y") auto
    then show ?thesis using h(9) [of c] far_c [OF c] y0 yh(1) by auto
  qed
  then show "\<And>c. c \<in> set (xs @ ys) \<Longrightarrow> ub_size m' c = ub_size m c \<and> block_free m' c = block_free m c" by blast
  have "n \<noteq> 0" using ss(1) by auto
  then have "path m' 0 a (xs @ b # n # ys) 0"
    using path_insert [OF p new _ h(2,3)] h(6,7) hc by (auto simp: y_def)
  moreover have "ub_end m' b = unat n" "ub_end m' n = ub_end m b"
    using h(1,5) ss sz by (simp_all add: ub_end_def)
  ultimately show "ub_list m' a (xs @ b # n # ys)" using hc by (intro ub_list_cut [OF hl _ new]) auto
  fix x :: u64
  assume x: "\<not> (unat b \<le> unat x \<and> unat x < ub_end m b)"
    "\<And>c. c \<in> set ys \<Longrightarrow> \<not> (unat c \<le> unat x \<and> unat x < unat c + 32)"
  show "m' x = m x"
  proof (rule h(10))
    show "y = 0 \<or> \<not> (unat y \<le> unat x \<and> unat x < unat y + 32)" using x(2) [of y] y0 yh(2) by auto
  qed (use x(1) sz ss(1) in \<open>auto simp: ub_end_def\<close>)
qed

lemma ub_list_free:
  assumes hl: "ub_list m a bs" and b: "b \<in> set bs"
  shows "ub_list (set_free b v m) a bs" and "\<And>c. c \<in> set bs \<Longrightarrow> ub_size (set_free b v m) c = ub_size m c"
    and "\<And>c. c \<in> set bs \<Longrightarrow> c \<noteq> b \<Longrightarrow> block_free (set_free b v m) c = block_free m c"
proof -
  have same: "ub_size (set_free b v m) c = ub_size m c" "block_next (set_free b v m) c = block_next m c"
    "block_prev (set_free b v m) c = block_prev m c" "c \<noteq> b \<Longrightarrow> block_free (set_free b v m) c = block_free m c" if "c \<in> set bs" for c
    using ub_list_far [OF hl b that] by (cases "c = b"; simp add: ub_size_same ub_size_far block_far)+
  then show "\<And>c. c \<in> set bs \<Longrightarrow> ub_size (set_free b v m) c = ub_size m c"
    and "\<And>c. c \<in> set bs \<Longrightarrow> c \<noteq> b \<Longrightarrow> block_free (set_free b v m) c = block_free m c" by blast+
  have "path (set_free b v m) 0 a bs 0 = path m 0 a bs 0" by (rule path_cong) (use same in blast)
  then show "ub_list (set_free b v m) a bs"
    using hl same(1) by (simp add: ub_list_def ub_apart_def ub_end_def)
qed

lemma malloc_fit:
  assumes "ub_list (mem s) (heap_base s) (xs @ b # ys)" and "heap_base s \<noteq> 0"
    and "\<forall>c \<in> set xs. \<not> ub_fits (mem s) c n" and "ub_fits (mem s) b n"
  shows "\<exists>t cs. u_malloc n s = Some (b + 32, t) \<and> heap_base t = heap_base s \<and> ub_list (mem t) (heap_base t) (xs @ b # cs @ ys)
    \<and> ub_free (mem t) b = 0 \<and> ub_size (mem t) b = (if ub_size (mem s) b - n \<ge> 36 then n else ub_size (mem s) b) \<and> cs = (if ub_size (mem s) b - n \<ge> 36 then [b + 32 + n] else [])
    \<and> (\<forall>c \<in> set cs. ub_free (mem t) c = 1 \<and> ub_size (mem t) c = ub_size (mem s) b - n - 32)
    \<and> (\<forall>c \<in> set (xs @ ys). ub_size (mem t) c = ub_size (mem s) c \<and> ub_free (mem t) c = ub_free (mem s) c
        \<and> (\<forall>x. unat c + 32 \<le> unat x \<and> unat x < ub_end (mem s) c \<longrightarrow> mem t x = mem s x))"
proof -
  let ?m = "mem s" and ?split = "ub_size (mem s) b - n \<ge> 36"
  have hl: "ub_list ?m (heap_base s) (xs @ b # ys)" by (rule assms(1))
  have fit: "unat n \<le> unat (ub_size ?m b)" using assms(4) by (simp add: ub_fits_def word_le_nat_alt)
  have b: "b \<noteq> 0" "path ?m 0 (heap_base s) (xs @ b # ys) 0" "ub_end ?m b \<le> 2 ^ 63" using hl by (auto simp: ub_list_def path_append)
  have find: "u_find_block (heap_base s) n s = Some (b, last (heap_base s # xs))"
    unfolding u_find_block_def by (rule ub_find_first [OF b(2)]) (use assms(3,4) in auto)
  define m1 where "m1 = (if ?split then u_split_block b n ?m else ?m)"
  define cs where "cs = (if ?split then [b + 32 + n] else [])"
  let ?t = "s\<lparr>mem := set_free b 0 m1\<rparr>"
  have run: "u_malloc n s = Some (b + 32, ?t)"
    using assms(2) b(1) by (simp add: u_malloc_def find m1_def ub_kernel cong: if_cong)
  have one: "ub_list m1 (heap_base s) (xs @ b # cs @ ys) \<and> ub_size m1 b = (if ?split then n else ub_size ?m b)
    \<and> (\<forall>c \<in> set cs. block_free m1 c = 1 \<and> ub_size m1 c = ub_size ?m b - n - 32 \<and> c \<noteq> b)
    \<and> (\<forall>c \<in> set (xs @ ys). ub_size m1 c = ub_size ?m c \<and> block_free m1 c = block_free ?m c
      \<and> (\<forall>x. unat c + 32 \<le> unat x \<and> unat x < ub_end ?m c \<longrightarrow> m1 x = ?m x))"
  proof (cases ?split)
    case False
    then show ?thesis using hl fit by (simp add: m1_def cs_def word_le_nat_alt)
  next
    case True
    have "unat (ub_size ?m b - n) = unat (ub_size ?m b) - unat n" by (rule unat_sub) (use fit in \<open>simp add: word_le_nat_alt\<close>)
    then have sz: "unat n + 32 \<le> unat (ub_size ?m b)" using True fit by (simp add: word_le_nat_alt)
    have m1: "m1 = u_split_block b n ?m" using True by (simp add: m1_def)
    note u = u_split_list [OF hl sz refl m1]
    have "ub_size m1 (b + 32 + n) = ub_size ?m b - n - 32"
    proof -
      have "block_next ?m b \<noteq> 0 \<Longrightarrow> far (block_next ?m b) b \<and> far (block_next ?m b) (b + 32 + n)"
      proof -
        assume y: "block_next ?m b \<noteq> 0"
        then obtain z zs where z: "ys = z # zs" "z = block_next ?m b" using b(2) by (cases ys) (auto simp: path_append)
        have "z \<noteq> b" using hl z(1) by (auto simp: ub_list_def)
        then have ap: "ub_apart ?m b z" "ub_end ?m z \<le> 2 ^ 63" using hl z(1) by (auto simp: ub_list_def)
        then show ?thesis using b(3) sz u_split_sizes(1) [OF b(3) sz refl] unfolding z(2) [symmetric]
          by (auto simp: far_def ub_apart_def ub_end_def)
      qed
      from u_split_headers(5) [OF u_split_sizes(3) [OF b(3) sz refl] refl m1 refl this] show ?thesis .
    qed
    moreover have "m1 x = ?m x" if "c \<in> set (xs @ ys)" "unat c + 32 \<le> unat x" "unat x < ub_end ?m c" for c and x :: u64
    proof (rule u(6))
      have "b \<noteq> c" using hl that(1) by (auto simp: ub_list_def)
      then have "ub_apart ?m b c" using hl that(1) by (auto simp: ub_list_def)
      then show "\<not> (unat b \<le> unat x \<and> unat x < ub_end ?m b)" using that(2,3) by (auto simp: ub_apart_def)
      fix d assume "d \<in> set ys"
      then have "d \<noteq> c \<Longrightarrow> ub_apart ?m d c" using hl that(1) by (auto simp: ub_list_def)
      then show "\<not> (unat d \<le> unat x \<and> unat x < unat d + 32)" using that(2,3) by (cases "d = c") (auto simp: ub_apart_def ub_end_def)
    qed
    ultimately show ?thesis using u(1-5) True by (auto simp: cs_def)
  qed
  have inb: "b \<in> set (xs @ b # cs @ ys)" by simp
  note f = ub_list_free [where v = 0, OF conjunct1 [OF one] inb]
  have other: "set_free b 0 m1 x = m1 x" if "c \<in> set (xs @ ys)" "unat c + 32 \<le> unat x" "unat x < ub_end ?m c" for c and x :: u64
  proof (rule set_outside(4))
    show "unat b + 32 \<le> 2 ^ 63" using b(3) by (simp add: ub_end_def)
    have "b \<noteq> c" using hl that(1) by (auto simp: ub_list_def)
    then have "ub_apart ?m b c" using hl that(1) by (auto simp: ub_list_def)
    then show "unat x < unat b \<or> unat b + 32 \<le> unat x" using that(2,3) by (auto simp: ub_apart_def ub_end_def)
  qed
  have ne: "c \<noteq> b" if "c \<in> set (xs @ ys)" for c using hl that by (auto simp: ub_list_def)
  have "heap_base ?t = heap_base s" by simp
  moreover have "ub_list (mem ?t) (heap_base ?t) (xs @ b # cs @ ys)" using f(1) by simp
  moreover have "ub_free (mem ?t) b = 0" by (simp add: ub_kernel)
  moreover have "ub_size (mem ?t) b = (if ?split then n else ub_size ?m b)" using f(2) [OF inb] one by simp
  moreover have "\<forall>c \<in> set cs. ub_free (mem ?t) c = 1 \<and> ub_size (mem ?t) c = ub_size ?m b - n - 32"
    using f(2,3) one by (simp add: ub_kernel)
  moreover have "\<forall>c \<in> set (xs @ ys). ub_size (mem ?t) c = ub_size ?m c \<and> ub_free (mem ?t) c = ub_free ?m c
        \<and> (\<forall>x. unat c + 32 \<le> unat x \<and> unat x < ub_end ?m c \<longrightarrow> mem ?t x = ?m x)"
    using f(2,3) one other ne by (auto simp: ub_kernel)
  ultimately show ?thesis using run unfolding cs_def by blast
qed


text \<open>C14: \<open>malloc\<close> takes the first free block that is large enough, cuts off what is not needed when the rest can hold
  a block of its own, and keeps the list of blocks whole; other blocks keep their size, their state and their data.\<close>

theorem malloc_first_fit:
  assumes "ub_list (mem s) (heap_base s) (xs @ b # ys)" and "heap_base s \<noteq> 0"
    and "\<forall>c \<in> set xs. \<not> ub_fits (mem s) c n" and "ub_fits (mem s) b n"
  shows "\<exists>t cs. u_malloc n s = Some (b + 32, t) \<and> heap_base t = heap_base s \<and> ub_list (mem t) (heap_base t) (xs @ b # cs @ ys)
    \<and> ub_free (mem t) b = 0 \<and> ub_size (mem t) b = (if ub_size (mem s) b - n \<ge> 36 then n else ub_size (mem s) b) \<and> cs = (if ub_size (mem s) b - n \<ge> 36 then [b + 32 + n] else [])
    \<and> (\<forall>c \<in> set cs. ub_free (mem t) c = 1 \<and> ub_size (mem t) c = ub_size (mem s) b - n - 32)
    \<and> (\<forall>c \<in> set (xs @ ys). ub_size (mem t) c = ub_size (mem s) c \<and> ub_free (mem t) c = ub_free (mem s) c
        \<and> (\<forall>x. unat c + 32 \<le> unat x \<and> unat x < ub_end (mem s) c \<longrightarrow> mem t x = mem s x))"
  by (rule malloc_fit [OF assms])

text \<open>A heap with one free block of 64 bytes between two that are in use.\<close>

definition heap_blocks :: mem where
  "heap_blocks = set_ub_size 0x3000 8 (set_next 0x3000 0 (set_prev 0x3000 0x2000 (set_free 0x3000 0
     (set_ub_size 0x2000 64 (set_next 0x2000 0x3000 (set_prev 0x2000 0x1000 (set_free 0x2000 1
     (set_ub_size 0x1000 16 (set_next 0x1000 0x2000 (set_prev 0x1000 0 (set_free 0x1000 0 (\<lambda>_. 0))))))))))))"

lemma heap_blocks_fields:
  "ub_size heap_blocks 0x1000 = 16" "block_next heap_blocks 0x1000 = 0x2000" "block_prev heap_blocks 0x1000 = 0" "block_free heap_blocks 0x1000 = 0"
  "ub_size heap_blocks 0x2000 = 64" "block_next heap_blocks 0x2000 = 0x3000" "block_prev heap_blocks 0x2000 = 0x1000" "block_free heap_blocks 0x2000 = 1"
  "ub_size heap_blocks 0x3000 = 8" "block_next heap_blocks 0x3000 = 0" "block_prev heap_blocks 0x3000 = 0x2000" "block_free heap_blocks 0x3000 = 0"
proof -
  have f: "far 0x3000 0x2000" "far 0x3000 0x1000" "far 0x2000 0x1000" by (simp_all add: far_def)
  note h = block_far [OF f(1)] block_far [OF f(2)] block_far [OF f(3)] ub_size_far [OF f(1)] ub_size_far [OF f(2)] ub_size_far [OF f(3)]
    ub_size_same
  show "ub_size heap_blocks 0x1000 = 16" "block_next heap_blocks 0x1000 = 0x2000" "block_prev heap_blocks 0x1000 = 0"
    "block_free heap_blocks 0x1000 = 0"
    "ub_size heap_blocks 0x2000 = 64" "block_next heap_blocks 0x2000 = 0x3000" "block_prev heap_blocks 0x2000 = 0x1000"
    "block_free heap_blocks 0x2000 = 1"
    "ub_size heap_blocks 0x3000 = 8" "block_next heap_blocks 0x3000 = 0" "block_prev heap_blocks 0x3000 = 0x2000"
    "block_free heap_blocks 0x3000 = 0"
    unfolding heap_blocks_def by (simp_all add: h)
qed

definition heap_shell :: shell_state where
  "heap_shell = shell_demo\<lparr>mem := heap_blocks, heap_base := 0x1000, last_mmap := 0x3020\<rparr>"

theorem malloc_first_fit_witness:
  "\<exists>t cs. u_malloc 10 heap_shell = Some (0x2000 + 32, t) \<and> heap_base t = heap_base heap_shell
    \<and> ub_list (mem t) (heap_base t) ([0x1000] @ 0x2000 # cs @ [0x3000])
    \<and> ub_free (mem t) 0x2000 = 0
    \<and> ub_size (mem t) 0x2000 = (if ub_size (mem heap_shell) 0x2000 - 10 \<ge> 36 then 10 else ub_size (mem heap_shell) 0x2000)
    \<and> cs = (if ub_size (mem heap_shell) 0x2000 - 10 \<ge> 36 then [0x2000 + 32 + 10] else [])
    \<and> (\<forall>c \<in> set cs. ub_free (mem t) c = 1 \<and> ub_size (mem t) c = ub_size (mem heap_shell) 0x2000 - 10 - 32)
    \<and> (\<forall>c \<in> set ([0x1000] @ [0x3000]). ub_size (mem t) c = ub_size (mem heap_shell) c \<and> ub_free (mem t) c = ub_free (mem heap_shell) c
        \<and> (\<forall>x. unat c + 32 \<le> unat x \<and> unat x < ub_end (mem heap_shell) c \<longrightarrow> mem t x = mem heap_shell x))"
proof (rule malloc_first_fit)
  show "ub_list (mem heap_shell) (heap_base heap_shell) ([0x1000] @ 0x2000 # [0x3000])"
    by (simp add: heap_shell_def ub_list_def ub_apart_def ub_end_def heap_blocks_fields)
qed (simp_all add: heap_shell_def ub_fits_def ub_kernel heap_blocks_fields)

text \<open>The other side of \<open>malloc\<close>: \<open>free\<close> of a block in use that is not the last one.\<close>

lemma u_get_block_list:
  assumes "path m p a bs 0" and "b \<in> set bs"
  shows "u_get_block_loop a (b + 32) m = Some b"
  using assms
proof (induction bs arbitrary: p a)
  case (Cons c bs)
  then show ?case by (subst u_get_block_loop.simps) (auto simp: ub_kernel)
qed simp

text \<open>C22: When no block before it fits, a block that is not the last one and whose data lie between the start
  of the heap and \<open>last_mmap\<close> is, once \<open>free\<close> gave it back, what \<open>malloc\<close> hands out next for the same size:
  the same address, and the list of blocks is as before, with the same sizes. When an earlier free block
  fits, \<open>malloc\<close> takes that one. When the data lie outside those bounds, \<open>free\<close> does nothing at all, and
  the block stays in use: this happens above \<open>last_mmap\<close>, which is lowered too far when a last block larger
  than the one before it is freed.\<close>

theorem free_malloc_same:
  assumes "ub_list (mem s) (heap_base s) (xs @ b # y # ys)" and "heap_base s \<noteq> 0"
    and "\<forall>c \<in> set xs. \<not> ub_fits (mem s) c (ub_size (mem s) b)"
  shows "if heap_base s \<le> b + 32 \<and> b + 32 \<le> last_mmap s
    then \<exists>u t. u_free (b + 32) s = Some u \<and> u_malloc (ub_size (mem s) b) u = Some (b + 32, t)
      \<and> ub_list (mem t) (heap_base t) (xs @ b # y # ys) \<and> ub_free (mem t) b = 0
      \<and> (\<forall>c \<in> set (xs @ b # y # ys). ub_size (mem t) c = ub_size (mem s) c)
    else u_free (b + 32) s = Some s"
proof (cases "heap_base s \<le> b + 32 \<and> b + 32 \<le> last_mmap s")
  case True
  let ?n = "ub_size (mem s) b"
  have inb: "b \<in> set (xs @ b # y # ys)" by simp
  note f = ub_list_free [where v = 1, OF assms(1) inb]
  define u where "u = s\<lparr>mem := set_free b 1 (mem s)\<rparr>"
  have p: "path (mem s) 0 (heap_base s) (xs @ b # y # ys) 0" "b \<noteq> 0" "block_next (mem s) b = y" "y \<noteq> 0"
    using assms(1) by (auto simp: ub_list_def path_append)
  have free: "u_free (b + 32) s = Some u"
    using True assms(2) p by (simp add: u_free_def valid_address_def u_get_block_def u_get_block_list [OF p(1) inb] ub_kernel u_def)
  have fits: "ub_fits (mem u) b ?n" using f(2) [OF inb] by (simp add: u_def ub_fits_def ub_kernel)
  have none: "\<forall>c \<in> set xs. \<not> ub_fits (mem u) c ?n"
  proof
    fix c assume c: "c \<in> set xs"
    moreover have "c \<noteq> b" using assms(1) c by (auto simp: ub_list_def)
    ultimately show "\<not> ub_fits (mem u) c ?n" using assms(3) f(2,3) [of c] by (auto simp: u_def ub_fits_def ub_kernel)
  qed
  have l: "ub_list (mem u) (heap_base u) (xs @ b # (y # ys))" "heap_base u \<noteq> 0" using f(1) assms(2) by (simp_all add: u_def)
  have sz: "ub_size (mem u) b = ?n" using f(2) [OF inb] by (simp add: u_def)
  obtain t where t: "u_malloc ?n u = Some (b + 32, t)" "ub_list (mem t) (heap_base t) (xs @ b # y # ys)"
    "ub_free (mem t) b = 0" "ub_size (mem t) b = ?n" "\<forall>c \<in> set (xs @ y # ys). ub_size (mem t) c = ub_size (mem u) c"
    using malloc_fit [OF l none fits] by (auto simp: sz)
  moreover have "\<forall>c \<in> set (xs @ b # y # ys). ub_size (mem t) c = ub_size (mem s) c"
    using t(4,5) f(2) by (auto simp: u_def)
  ultimately show ?thesis using free unfolding if_P [OF True] by auto
next
  case False
  then show ?thesis by (auto simp: u_free_def valid_address_def)
qed

theorem free_malloc_same_witness:
  "(\<exists>u t. u_free (0x2000 + 32) heap_shell = Some u \<and> u_malloc (ub_size (mem heap_shell) 0x2000) u = Some (0x2000 + 32, t)
      \<and> ub_list (mem t) (heap_base t) ([0x1000] @ 0x2000 # 0x3000 # []) \<and> ub_free (mem t) 0x2000 = 0
      \<and> (\<forall>c \<in> set ([0x1000] @ 0x2000 # 0x3000 # []). ub_size (mem t) c = ub_size (mem heap_shell) c))
    \<and> u_free (0x2000 + 32) (heap_shell\<lparr>last_mmap := 0x2010\<rparr>) = Some (heap_shell\<lparr>last_mmap := 0x2010\<rparr>)"
proof -
  have l: "ub_list (mem heap_shell) (heap_base heap_shell) ([0x1000] @ 0x2000 # 0x3000 # [])"
    by (simp add: heap_shell_def ub_list_def ub_apart_def ub_end_def heap_blocks_fields)
  have x: "\<forall>c \<in> set [0x1000]. \<not> ub_fits (mem heap_shell) c (ub_size (mem heap_shell) 0x2000)" "heap_base heap_shell = 0x1000"
    "last_mmap heap_shell = 0x3020"
    by (simp_all add: heap_shell_def ub_fits_def ub_kernel heap_blocks_fields)
  let ?s = "heap_shell\<lparr>last_mmap := 0x2010\<rparr>"
  show ?thesis using free_malloc_same [OF l _ x(1)] free_malloc_same [where s = ?s and xs = "[0x1000]" and b = "0x2000" and y = "0x3000" and ys = "[]"] l x by simp
qed

end
