(* ===== verification/Typing.thy ===== *)
theory Typing
  imports Shell_Props
begin

section \<open>From the key pressed to the command run\<close>

text \<open>
  The keyboard's interrupt, \<open>read\<close>, \<open>getc\<close> and the loop of the shell together: with an idle keyboard \<open>getc\<close> polls
  until the next interrupt and delivers the character of the key, so the scan codes of a line are the line, and the
  line runs its command. Between two polls the keyboard's interrupt comes (\<open>irqs\<close> is \<open>kbrd_irq\<close>).
\<close>

text \<open>With no key there \<open>getc\<close> waits for the next interrupt.\<close>

lemma getc_waits:
  assumes "kbd_ok s" and "kbd_items s = []" and "syscall_set s" and "unchar s = - 1"
    and "irqs s = Some s1" and "unchar s1 = - 1" 
  shows "getc irqs s = getc irqs s1"
proof -
  have "kbrd_get_key s = Some (KEY_UNKNOWN, s)"
    using kbf.get_empty [of s] kbf.empty_iff [of s] assms(1,2) by (auto simp: kbrd_get_key_def)
  then have "read_loop a (- 1) s = Some (- 1, s)" for a by (subst read_loop.simps) simp
  note r = read_call [OF assms(3) this]
  have "fgetc_loop irqs STDIN s = fgetc_loop irqs STDIN s1"
    by (subst fgetc_loop.simps) (simp add: r assms(5))
  then show ?thesis using assms(4,6) by (simp add: getc_def fgetc_def)
qed

text \<open>A key press changes the buffer and the ports.\<close>

lemma kbrd_make_frame:
  assumes "types_key c" and "kbd_ok s" and "kbd_count s < 63"
  shows "\<exists>b f. kbrd_make (uint c) s = Some (s\<lparr>scancode := word_of_int (uint c), key_buffer := b, buffer_last_key := f\<rparr>)"
proof -
  let ?s = "s\<lparr>scancode := word_of_int (uint c)\<rparr>"
  obtain s' where s': "kbrd_make (uint c) s = Some s'" using kbrd_make_queues [OF assms] by blast
  have "kbrd_make (uint c) s = key_buffer_add (key_of c) ?s"
    using assms(1) scancode_get [of c] by (simp add: kbrd_make_def types_key_def acted_on_def key_of_def)
  moreover have "\<not> key_buffer_is_full ?s"
    using kbd_full_iff [OF assms(2)] assms(3) by (simp add: key_buffer_is_full_def)
  ultimately show ?thesis using s' by (auto simp: key_buffer_add_def split: bind_splits)
qed

definition polled :: "'a keyboard_state_scheme \<Rightarrow> 'a keyboard_state_scheme \<Rightarrow> bool" where
  "polled s t \<longleftrightarrow> (\<exists>M Q c b f l. t = s\<lparr>mem := M, inq := Q, scancode := c, key_buffer := b, buffer_first_key := f, buffer_last_key := l\<rparr>)"

lemma kbd_same:
  assumes "edited s t"
  shows "kbd_ok t = kbd_ok s" "kbd_items t = kbd_items s"
  using assms by (auto simp: edited_def kbd_ok_def kbd_items_def kbd_count_def)

text \<open>Scan codes that the controller holds for an idle keyboard.\<close>

definition typing :: "u8 list \<Rightarrow> 'a shell_state_scheme \<Rightarrow> bool" where
  "typing cs s \<longleftrightarrow> kbd_ok s \<and> kbd_items s = [] \<and> unchar s = - 1 \<and> inq s 0x60 = cs
     \<and> length cs \<le> length (inq s 0x64) \<and> list_all (\<lambda>v. bit v 0) (inq s 0x64)"

text \<open>The character of a key.\<close>

definition char_of_code :: "'a keyboard_state_scheme \<Rightarrow> u8 \<Rightarrow> u8" where
  "char_of_code s c = kbrd_key_to_ascii (key_of c) s"

definition typeable :: "'a keyboard_state_scheme \<Rightarrow> u8 \<Rightarrow> bool" where
  "typeable s c \<longleftrightarrow> types_key c \<and> key_of c \<noteq> KEY_UNKNOWN \<and> char_of_code s c \<noteq> 0"

lemma getc_key_pressed:
  assumes "typing (c # cs) s" and "typeable s c" and "syscall_set s"
  shows "\<exists>t. getc kbrd_irq s = Some (scast (char_of_code s c), t) \<and> polled s t \<and> typing cs t"
proof -
  obtain st sts where st: "inq s 0x64 = st # sts" using assms(1) by (cases "inq s 0x64") (auto simp: typing_def)
  let ?s = "s\<lparr>inq := (inq s)(0x64 := sts, 0x60 := cs)\<rparr>"
  have c: "inq s 0x60 = c # cs" "bit st 0" "kbd_ok s" "kbd_items s = []" "unchar s = - 1"
    using assms(1) st by (simp_all add: typing_def)
  have k: "types_key c" "key_of c \<noteq> KEY_UNKNOWN" "kbrd_key_to_ascii (key_of c) s \<noteq> 0"
    using assms(2) by (simp_all add: typeable_def char_of_code_def)
  have irq: "kbrd_irq s = kbrd_make (uint c) ?s"
    using kbrd_irq_code [OF st c(1,2)] types_key_not_prefix [OF k(1)] by simp
  have ok: "kbd_ok ?s" "kbd_count ?s < 63" "kbd_items ?s = []"
    using c(3,4) length_kbd_items [of s] by (simp_all add: kbd_ok_def kbd_count_def kbd_items_def)
  obtain s1 where s1: "kbrd_make (uint c) ?s = Some s1" "kbd_ok s1" "kbd_items s1 = [key_of c]"
    "shift_hold s1 = shift_hold s" "caps_lock s1 = caps_lock s"
    using kbrd_make_queues [OF k(1) ok(1,2)] ok(3) by auto
  obtain b f where f: "s1 = ?s\<lparr>scancode := word_of_int (uint c), key_buffer := b, buffer_last_key := f\<rparr>"
    using kbrd_make_frame [OF k(1) ok(1,2)] s1(1) by auto
  have a: "kbrd_key_to_ascii (key_of c) s1 = kbrd_key_to_ascii (key_of c) s"
    by (rule kbrd_key_to_ascii_state) (use s1(4,5) in simp_all)
  have "kbrd_irq s = Some s1" using irq s1(1) by simp
  moreover have "unchar s1 = - 1" "syscall_set s1" using c(5) assms(3) by (simp_all add: f)
  ultimately have w: "getc kbrd_irq s = getc kbrd_irq s1" using getc_waits [OF c(3,4) assms(3) c(5)] by blast
  obtain t where t: "getc kbrd_irq s1 = Some (scast (kbrd_key_to_ascii (key_of c) s), t)" "kbd_items t = []" "kbd_ok t"
      "\<exists>m f. t = s1\<lparr>mem := m, buffer_first_key := f\<rparr>"
    using getc_first_key [OF s1(2,3), of kbrd_irq] \<open>unchar s1 = - 1\<close> \<open>syscall_set s1\<close> k(2,3) a by auto
  obtain m g where g: "t = s1\<lparr>mem := m, buffer_first_key := g\<rparr>" using t(4) by blast
  have "t = s\<lparr>mem := m, inq := (inq s)(0x64 := sts, 0x60 := cs), scancode := word_of_int (uint c), key_buffer := b, buffer_first_key := g, buffer_last_key := f\<rparr>"
    by (simp add: g f)
  then have "polled s t" unfolding polled_def by blast
  moreover have "typing cs t"
    using t(2,3) assms(1) by (simp add: typing_def st) (simp add: g f c(5))
  ultimately show ?thesis using w t(1) by (auto simp: char_of_code_def)
qed

lemma polled_keeps:
  fixes s :: "'a shell_state_scheme"
  assumes "polled s t"
  shows "shell_ok t = shell_ok s" "line_of t = line_of s" "cmd_table t = cmd_table s" "syscall_set t = syscall_set s"
    "shift_hold t = shift_hold s" "caps_lock t = caps_lock s"
  using assms by (auto simp: polled_def shell_ok_def con_ok_def line_of_def)

text \<open>What an idle keyboard and its modifiers are, the shell leaves alone.\<close>

lemma edited_keeps:
  assumes "edited s t"
  shows "typing cs t = typing cs s" "shift_hold t = shift_hold s" "caps_lock t = caps_lock s" "cmd_table t = cmd_table s"
proof -
  obtain M T B P where t: "t = s\<lparr>mem := M, terminals := T, shell_buffer := B, curr_pos := P\<rparr>" using assms unfolding edited_def by blast
  show "typing cs t = typing cs s" using kbd_same [OF assms] by (simp add: typing_def) (simp add: t)
  show "shift_hold t = shift_hold s" "caps_lock t = caps_lock s" "cmd_table t = cmd_table s" by (simp_all add: t)
qed

definition same_modifiers :: "'a keyboard_state_scheme \<Rightarrow> 'a keyboard_state_scheme \<Rightarrow> bool" where
  "same_modifiers s t \<longleftrightarrow> shift_hold t = shift_hold s \<and> caps_lock t = caps_lock s"

lemma same_chars:
  assumes "same_modifiers s t" shows "char_of_code t = char_of_code s" "typeable t = typeable s"
  using kbrd_key_to_ascii_state [of t s] assms by (auto simp: same_modifiers_def char_of_code_def typeable_def fun_eq_iff)

lemma update_on_press:
  assumes "typing (c # cs) s" and "typeable s c" and "shell_ok s"
  shows "\<exists>t. update_shell kbrd_irq s = shell_key kbrd_irq (char_of_code s c) t \<and> typing cs t \<and> shell_ok t
    \<and> line_of t = line_of s \<and> cmd_table t = cmd_table s \<and> same_modifiers s t"
proof -
  obtain t where t: "getc kbrd_irq s = Some (scast (char_of_code s c), t)" "polled s t" "typing cs t"
    using getc_key_pressed [OF assms(1,2)] assms(3) by (auto simp: shell_ok_def)
  have "(ucast (scast (char_of_code s c) :: u32) :: u8) = char_of_code s c" by (rule bit_word_eqI) (auto simp: bit_simps)
  then have "update_shell kbrd_irq s = shell_key kbrd_irq (char_of_code s c) t" by (simp add: update_shell_def t(1))
  then show ?thesis using t(3) assms(3) polled_keeps [OF t(2)] by (auto simp: same_modifiers_def)
qed

text \<open>\<open>n\<close> rounds of the loop of \<open>main\<close>.\<close>

primrec updates ::
  "nat \<Rightarrow> ('a shell_state_scheme \<Rightarrow> 'a shell_state_scheme option) \<Rightarrow> 'a shell_state_scheme \<Rightarrow> 'a shell_state_scheme outcome option"
where
  "updates 0 irqs s = Some (Runs 1 s)"
| "updates (Suc n) irqs s = obind (update_shell irqs s) (\<lambda>r s. if r \<noteq> 0 then updates n irqs s else Some (Runs 0 s))"

lemma updates_append:
  "updates m irqs s = Some (Runs 1 t) \<Longrightarrow> updates (m + n) irqs s = updates n irqs t"
  by (induction m arbitrary: s) (auto simp: obind_def split: option.splits outcome.splits if_splits)

lemma updates_loop:
  "updates n irqs s = Some (Runs 1 t) \<Longrightarrow> shell_loop irqs s = shell_loop irqs t"
proof (induction n arbitrary: s)
  case (Suc n)
  then obtain r u where u: "update_shell irqs s = Some (Runs r u)" "r \<noteq> 0" "updates n irqs u = Some (Runs 1 t)"
    by (auto simp: obind_def split: option.splits outcome.splits if_splits)
  then show ?case using Suc.IH [OF u(3)] by (subst shell_loop.simps) simp
qed simp

lemma pressed_edits:
  assumes "typing (cs @ rest) s" and "\<forall>c \<in> set cs. typeable s c" and "shell_ok s" and "edits (line_of s) (map (char_of_code s) cs)"
  shows "\<exists>t. updates (length cs) kbrd_irq s = Some (Runs 1 t) \<and> typing rest t \<and> shell_ok t
    \<and> line_of t = foldl edit (line_of s) (map (char_of_code s) cs) \<and> cmd_table t = cmd_table s \<and> same_modifiers s t"
  using assms
proof (induction cs arbitrary: s)
  case (Cons c cs)
  obtain u where u: "update_shell kbrd_irq s = shell_key kbrd_irq (char_of_code s c) u" "typing (cs @ rest) u" "shell_ok u"
    "line_of u = line_of s" "cmd_table u = cmd_table s" "same_modifiers s u"
    using update_on_press [of c "cs @ rest" s] Cons.prems by auto
  let ?k = "char_of_code s c"
  have k: "?k \<noteq> 0" "?k \<noteq> 10" "if ?k = 8 then line_of u \<noteq> [] else length (line_of u) < 126"
    "edits (edit (line_of u) ?k) (map (char_of_code s) cs)"
    using Cons.prems(4) u(4) by (auto elim: edits_ConsE)
  obtain v where v: "shell_key kbrd_irq ?k u = Some (Runs 1 v)" "shell_ok v" "line_of v = edit (line_of u) ?k" "edited u v"
    using shell_key_edits [OF u(3) k(1-3)] by blast
  have m: "same_modifiers s v" "typing (cs @ rest) v" "cmd_table v = cmd_table s"
    using edited_keeps [OF v(4)] u(2,5,6) by (simp_all add: same_modifiers_def)
  obtain t where "updates (length cs) kbrd_irq v = Some (Runs 1 t)" "typing rest t" "shell_ok t"
    "line_of t = foldl edit (line_of v) (map (char_of_code s) cs)" "cmd_table t = cmd_table v" "same_modifiers v t"
    using Cons.IH [OF m(2)] same_chars [OF m(1)] Cons.prems(2) v(2,3) k(4) by auto
  then show ?case using u(1,4) v(1,3) m by (auto simp: obind_def same_modifiers_def)
qed (simp add: same_modifiers_def)

text \<open>Scan codes of a line: its keys, then enter.\<close>

definition codes_line :: "'a keyboard_state_scheme \<Rightarrow> u8 list \<Rightarrow> bool" where
  "codes_line s cs \<longleftrightarrow> (\<forall>c \<in> set cs. typeable s c) \<and> (\<exists>ks. map (char_of_code s) cs = ks @ [10] \<and> quiet_line ks)"

lemma pressed_line:
  assumes "typing (cs @ rest) s" and "codes_line s cs" and "shell_ok s" and "line_of s = []" and "cmd_table s = shell_commands"
  shows "\<exists>t. updates (length cs) kbrd_irq s = Some (Runs 1 t) \<and> typing rest t \<and> shell_ok t \<and> line_of t = []
    \<and> cmd_table t = shell_commands \<and> same_modifiers s t"
proof -
  obtain ks where ks: "\<forall>c \<in> set cs. typeable s c" "map (char_of_code s) cs = ks @ [10]" "quiet_line ks"
    using assms(2) by (auto simp: codes_line_def)
  obtain cs' c where c: "cs = cs' @ [c]" "map (char_of_code s) cs' = ks" "char_of_code s c = 10"
    using ks(2) by (auto simp: map_eq_append_conv)
  obtain u where u: "updates (length cs') kbrd_irq s = Some (Runs 1 u)" "typing (c # rest) u" "shell_ok u"
    "line_of u = foldl edit [] ks" "cmd_table u = shell_commands" "same_modifiers s u"
    using pressed_edits [of cs' "c # rest" s] assms ks(1,3) by (auto simp: c(1,2) quiet_line_def)
  obtain v where v: "update_shell kbrd_irq u = shell_key kbrd_irq 10 v" "typing rest v" "shell_ok v"
    "line_of v = line_of u" "cmd_table v = cmd_table u" "same_modifiers u v"
    using update_on_press [OF u(2) _ u(3)] same_chars [OF u(6)] ks(1) c(3) by (auto simp: c(1))
  have q: "quiet_text (line_of v)" "0 \<notin> set (line_of v)"
    using ks(3) edits_clean by (auto simp: quiet_line_def v(4) u(4))
  obtain t where t: "shell_key kbrd_irq 10 v = Some (Runs 1 t)" "shell_ok t" "line_of t = []" "edited v t"
    using enter_quiet [OF v(3) _ q] v(5) u(5) by auto
  have "updates (length cs) kbrd_irq s = Some (Runs 1 t)"
    using updates_append [OF u(1), of 1] v(1) t(1) by (simp add: c(1) obind_def)
  then show ?thesis using t(2,3) edited_keeps [OF t(4)] v(2,5,6) u(5,6) by (auto simp: same_modifiers_def)
qed

text \<open>C4: Lines of printing commands typed on the keyboard are run one after the other: from their scan codes, with
  corrections, the shell's loop gets back to an empty line at the prompt, with no key left in the queue.\<close>

theorem typed_session:
  assumes "shell_ok s" and "line_of s = []" and "cmd_table s = shell_commands"
    and "typing (concat lines @ rest) s" and "\<forall>cs \<in> set lines. codes_line s cs"
  shows "\<exists>t. updates (length (concat lines)) kbrd_irq s = Some (Runs 1 t) \<and> shell_loop kbrd_irq s = shell_loop kbrd_irq t
    \<and> typing rest t \<and> shell_ok t \<and> line_of t = [] \<and> cmd_table t = shell_commands"
proof -
  have "\<exists>t. updates (length (concat lines)) kbrd_irq s = Some (Runs 1 t)
    \<and> typing rest t \<and> shell_ok t \<and> line_of t = [] \<and> cmd_table t = shell_commands"
    using assms
  proof (induction lines arbitrary: s)
    case (Cons cs lines)
    obtain u where u: "updates (length cs) kbrd_irq s = Some (Runs 1 u)" "typing (concat lines @ rest) u" "shell_ok u" "line_of u = []"
      "cmd_table u = shell_commands" "same_modifiers s u"
      using pressed_line [of cs "concat lines @ rest" s] Cons.prems by auto
    have "\<forall>cs \<in> set lines. codes_line u cs" using Cons.prems(5) same_chars [OF u(6)] by (simp add: codes_line_def)
    from Cons.IH [OF u(3-5,2) this] show ?case using updates_append [OF u(1)] by auto
  qed simp
  then show ?thesis using updates_loop by blast
qed

definition demo_lines :: "u8 list list" where
  "demo_lines = [[0x12, 0x2E, 0x23, 0x18, 0x39, 0x23, 0x1C], [0x12, 0x2E, 0x23, 0x17, 0x0E, 0x18, 0x1C]]"

definition typing_demo :: shell_state where
  "typing_demo = shell_demo\<lparr>key_buffer := replicate 64 0, buffer_first_key := 5, buffer_last_key := 5, shift_hold := 0, caps_lock := 0,
     inq := (\<lambda>_. [])(0x60 := concat demo_lines @ [0x10], 0x64 := replicate 20 1)\<rparr>"

lemma typing_demo_fields: "shift_hold typing_demo = 0" "caps_lock typing_demo = 0"
  by (simp_all add: typing_demo_def)

lemma demo_codes:
  assumes "c \<in> {0x12, 0x2E, 0x23, 0x18, 0x39, 0x1C, 0x17, 0x0E}"
  shows "typeable typing_demo c"
  using assms by (elim insertE emptyE)
    (simp_all add: typeable_def char_of_code_def types_key_def acted_on_def key_of_def kbrdscancode_std_def kbrd_key_to_ascii_def
      typing_demo_fields isascii_def shifted_other_def)

lemma demo_chars:
  "map (char_of_code typing_demo) [0x12, 0x2E, 0x23, 0x18, 0x39, 0x23, 0x1C] = bytes ''echo h'' @ [10]"
  "map (char_of_code typing_demo) [0x12, 0x2E, 0x23, 0x17, 0x0E, 0x18, 0x1C] = bytes ''echi'' @ 8 # bytes ''o'' @ [10]"
  by (simp_all add: char_of_code_def key_of_def kbrdscancode_std_def kbrd_key_to_ascii_def
      typing_demo_fields isascii_def shifted_other_def bytes_def)

lemma quiet_echo: "quiet_text (bytes ''echo'' @ tail)" if "tail = [] \<or> hd tail = 32" for tail
proof -
  have "command_funcs ! 0 \<in> quiet" "command_names ! 0 = ''echo''" by (simp_all add: command_funcs_def quiet_def command_names_def)
  then show ?thesis unfolding quiet_text_def using that by (intro exI [of _ 0]) auto
qed

lemma demo_codes_lines: "\<forall>cs \<in> set demo_lines. codes_line typing_demo cs"
proof -
  have 1: "quiet_line (bytes ''echo h'')" using quiet_echo [of "bytes '' h''"] by (simp add: quiet_line_def bytes_def edit_def)
  have 2: "quiet_line (bytes ''echi'' @ 8 # bytes ''o'')" using quiet_echo [of "[]"] by (simp add: quiet_line_def bytes_def edit_def)
  have "codes_line typing_demo [0x12, 0x2E, 0x23, 0x18, 0x39, 0x23, 0x1C]"
    unfolding codes_line_def demo_chars using 1 demo_codes by simp
  moreover have "codes_line typing_demo [0x12, 0x2E, 0x23, 0x17, 0x0E, 0x18, 0x1C]"
    unfolding codes_line_def demo_chars using 2 demo_codes by simp
  ultimately show ?thesis by (simp only: demo_lines_def list.set ball_simps simp_thms)
qed

theorem typed_session_witness:
  "\<exists>t. updates (length (concat demo_lines)) kbrd_irq typing_demo = Some (Runs 1 t)
    \<and> shell_loop kbrd_irq typing_demo = shell_loop kbrd_irq t
    \<and> typing [0x10] t \<and> shell_ok t \<and> line_of t = [] \<and> cmd_table t = shell_commands"
proof (rule typed_session [OF _ _ _ _ demo_codes_lines])
  show "shell_ok typing_demo" using shell_demo_ok by (simp add: shell_ok_def con_ok_def typing_demo_def)
  show "typing (concat demo_lines @ [0x10]) typing_demo"
    by (simp add: typing_def typing_demo_def demo_lines_def list_all_iff bit_0 kbd_ok_def kbd_items_def kbd_count_def ring_dist_def)
qed (simp_all add: typing_demo_def line_of_def)

end
