(* ===== verification/First_Space.thy ===== *)
theory First_Space
  imports Virtual_Memory
begin

unbundle bit_operations_syntax

section \<open>The first address space: vmm_initialize\<close>

text \<open>
  The tables that \<open>identity_paging\<close> builds, by induction on the level: each call takes frames from the free stack,
  leaves a tree of tables in them that maps its pages to themselves, and touches no other memory. Then the
  bitmap of full page tables. All the other lemmas on page tables start from the \<open>vmm_ok\<close> that holds here.
\<close>

subsection \<open>What the tables shall say\<close>

text \<open>The entries that \<open>identity_paging\<close> writes.\<close>

definition kernel_entry :: "u64 \<Rightarrow> u64" where
  "kernel_entry f = pte_set_frame (pte_add_attrib 0 (MASK_PRESENT OR MASK_WRITEABLE)) f"

lemma kernel_entry_val: "kernel_entry f = entry_val 0 f 2"
proof -
  have "(3 :: u64) AND NOT MASK_FRAME = 3" by (simp add: MASK_FRAME_def)
  then show ?thesis by (simp add: kernel_entry_def pte_set_frame_def pte_add_attrib_def entry_val_def or.commute or.left_commute)
qed

lemma kernel_entry_props:
  "pte_is_present (kernel_entry f)" "f mod VMM_PAGE_SIZE = 0 \<Longrightarrow> pte_pfn (kernel_entry f) = f"
proof -
  show "pte_is_present (kernel_entry f)" by (simp add: kernel_entry_val entry_val_present)
  have "(scast (2 :: u32) :: u64) AND MASK_FRAME = 0" by (simp add: MASK_FRAME_def)
  then show "f mod VMM_PAGE_SIZE = 0 \<Longrightarrow> pte_pfn (kernel_entry f) = f" by (simp add: kernel_entry_val entry_val_pfn)
qed

text \<open>The number of a page among those that a table of level \<open>k\<close> maps, and its entry when the page \<open>c\<close> is the
  first of them and \<open>n\<close> the end of all.\<close>

primrec pgno :: "nat \<Rightarrow> u64 \<Rightarrow> nat" where
  "pgno 0 v = vidx v 0"
| "pgno (Suc k) v = vidx v (Suc k) * 512 ^ Suc k + pgno k v"

definition id_page :: "nat \<Rightarrow> nat \<Rightarrow> u64 option" where
  "id_page n p = (if p < n then Some (kernel_entry (of_nat (4096 * p))) else None)"

text \<open>The number of tables for \<open>p\<close> pages.\<close>

primrec tables_needed :: "nat \<Rightarrow> nat \<Rightarrow> nat" where
  "tables_needed 0 p = 1"
| "tables_needed (Suc k) p = Suc (\<Sum>i<512. if i * 512 ^ Suc k < p then tables_needed k (p - i * 512 ^ Suc k) else 0)"

lemma signed_less:
  assumes "c < 2 ^ 31" and "n < 2 ^ 31" shows "(of_nat c :: u32) <s of_nat n \<longleftrightarrow> c < n"
  using sint_of_nat_small [where 'a = 32, of c] sint_of_nat_small [where 'a = 32, of n] assms by (simp add: word_sless_alt)

subsection \<open>A table of pages\<close>

lemma fill_pages:
  assumes t: "is_frame t" and N: "N \<le> 2 ^ 18"
  shows "n \<le> 512 \<Longrightarrow> c \<le> N \<Longrightarrow>
    \<exists>fr' m'. fill_table (identity_paging 0 (of_nat N)) n t (of_nat N) (of_nat c) fr p4 s
      = (True, of_nat (min N (c + n)), fr', p4, s\<lparr>mem := m'\<rparr>)
    \<and> (\<forall>l<512. load64 m' (slot t l) = (if 512 - n \<le> l \<and> c + (l - (512 - n)) < N
        then kernel_entry (of_nat (4096 * (c + (l - (512 - n))))) else load64 (mem s) (slot t l)))
    \<and> (\<forall>x. \<not> in_frame t x \<longrightarrow> m' x = mem s x)"
proof (induction n arbitrary: c fr s)
  case 0
  have "s = s\<lparr>mem := mem s\<rparr>" by simp
  then show ?case using 0 by (intro exI [of _ fr] exI [of _ "mem s"]) simp
next
  case (Suc n)
  let ?i = "512 - Suc n"
  have lt: "(of_nat c :: u32) <s of_nat N \<longleftrightarrow> c < N" by (rule signed_less) (use Suc.prems N in simp_all)
  show ?case
  proof (cases "c < N")
    case False
    then have c: "c = N" using Suc.prems by simp
    have "s = s\<lparr>mem := mem s\<rparr>" by simp
    then show ?thesis using lt c by (intro exI [of _ fr] exI [of _ "mem s"]) simp
  next
    case True
    have "c < 2 ^ 31" using True N by simp
    then have a: "(scast (of_nat c :: u32) :: u64) * VMM_PAGE_SIZE = of_nat (4096 * c)"
      by (simp add: scast_of_nat_32)
    let ?e = "kernel_entry (of_nat (4096 * c))"
    let ?s = "s\<lparr>mem := store64 (mem s) (slot t ?i) ?e\<rparr>"
    have i: "?i < 512" by simp
    have i': "512 - n = Suc ?i" using Suc.prems(1) by simp
    obtain fr' m' where m': "fill_table (identity_paging 0 (of_nat N)) n t (of_nat N) (of_nat (Suc c)) (of_nat (4096 * c)) p4 ?s
        = (True, of_nat (min N (Suc c + n)), fr', p4, ?s\<lparr>mem := m'\<rparr>)"
      "\<forall>l<512. load64 m' (slot t l) = (if 512 - n \<le> l \<and> Suc c + (l - (512 - n)) < N
        then kernel_entry (of_nat (4096 * (Suc c + (l - (512 - n))))) else load64 (mem ?s) (slot t l))"
      "\<forall>x. \<not> in_frame t x \<longrightarrow> m' x = mem ?s x"
      using Suc.IH [OF Suc_leD [OF Suc.prems(1)] Suc_leI [OF True], of "of_nat (4096 * c)" ?s] by blast
    have "fill_table (identity_paging 0 (of_nat N)) (Suc n) t (of_nat N) (of_nat c) fr p4 s
        = (True, of_nat (min N (c + Suc n)), fr', p4, s\<lparr>mem := m'\<rparr>)"
      using lt True m'(1) a by (simp add: Let_def slot_def kernel_entry_def add.commute)
    moreover have "load64 m' (slot t l) = (if ?i \<le> l \<and> c + (l - ?i) < N
        then kernel_entry (of_nat (4096 * (c + (l - ?i)))) else load64 (mem s) (slot t l))" if l: "l < 512" for l
    proof (cases "l = ?i")
      case eq: True
      then show ?thesis using m'(2) l True i' by (simp add: c64.ld_st)
    next
      case False
      have "load64 (mem ?s) (slot t l) = load64 (mem s) (slot t l)"
        using store64_other_slot [OF t i l] False by simp
      moreover have "Suc c + (l - (512 - n)) = c + (l - ?i)" if "Suc ?i \<le> l" using that i' by simp
      moreover have "512 - n \<le> l \<longleftrightarrow> ?i \<le> l" using False i' by auto
      ultimately show ?thesis using m'(2) l i' by (cases "?i \<le> l") auto
    qed
    moreover have "m' x = mem s x" if "\<not> in_frame t x" for x
      using m'(3) store64_frame [OF t i that] that by simp
    ultimately show ?thesis by blast
  qed
qed


subsection \<open>The tables above\<close>

text \<open>What a call of \<open>identity_paging\<close> leaves: the table \<open>t\<close> of level \<open>k\<close>, in frames that it took, maps the pages from
  \<open>c\<close> on; all other memory is as before.\<close>

definition maps_id :: "u64 set \<Rightarrow> nat \<Rightarrow> nat \<Rightarrow> nat \<Rightarrow> nat \<Rightarrow> nat \<Rightarrow> 'a vmm_state_scheme \<Rightarrow> u64 \<Rightarrow> 'a vmm_state_scheme \<Rightarrow> bool" where
  "maps_id P M K k c n s t s' \<longleftrightarrow> pmm_ok P M K s' \<and> s' = s\<lparr>mem := mem s', free_blocks := free_blocks s'\<rparr>
     \<and> (\<exists>gs. pmm_frames s = pmm_frames s' @ gs \<and> length gs = tables_needed k (n - c) \<and> pt_tables k t (mem s') \<subseteq> set gs
          \<and> (\<forall>x. \<not> pmm_area K s x \<longrightarrow> (\<forall>f \<in> set gs. \<not> in_frame f x) \<longrightarrow> mem s' x = mem s x))
     \<and> pt_tree k t (mem s') \<and> (\<forall>v. pt_lookup k v t (mem s') = id_page n (c + pgno k v))"

text \<open>What its loop leaves from the entry \<open>i\<close> of the table on.\<close>

definition filled :: "u64 set \<Rightarrow> nat \<Rightarrow> nat \<Rightarrow> nat \<Rightarrow> nat \<Rightarrow> nat \<Rightarrow> nat \<Rightarrow> 'a vmm_state_scheme \<Rightarrow> u64 \<Rightarrow> 'a vmm_state_scheme \<Rightarrow> bool" where
  "filled P M K k i c n s t s' \<longleftrightarrow> pmm_ok P M K s' \<and> s' = s\<lparr>mem := mem s', free_blocks := free_blocks s'\<rparr>
     \<and> (\<exists>gs. pmm_frames s = pmm_frames s' @ gs
          \<and> length gs = (\<Sum>j<512 - i. if c + j * 512 ^ Suc k < n then tables_needed k (n - c - j * 512 ^ Suc k) else 0)
          \<and> pt_tables (Suc k) t (mem s') \<subseteq> pt_tables (Suc k) t (mem s) \<union> set gs
          \<and> (\<forall>x. \<not> pmm_area K s x \<longrightarrow> \<not> in_frame t x \<longrightarrow> (\<forall>f \<in> set gs. \<not> in_frame f x) \<longrightarrow> mem s' x = mem s x))
     \<and> pt_tree (Suc k) t (mem s')
     \<and> (\<forall>v. pt_lookup (Suc k) v t (mem s') = (if vidx v (Suc k) < i then pt_lookup (Suc k) v t (mem s)
          else id_page n (c + (vidx v (Suc k) - i) * 512 ^ Suc k + pgno k v)))"

lemma filled_done:
  assumes "pmm_ok P M K s" and "pt_tree (Suc k) t (mem s)" and "n \<le> c"
    and "\<forall>j<512. i \<le> j \<longrightarrow> child t j (mem s) = None"
  shows "filled P M K k i c n s t s"
proof -
  have "pt_lookup (Suc k) v t (mem s) = None" if "i \<le> vidx v (Suc k)" for v using assms(4) that by simp
  then show ?thesis using assms(1-3) by (auto simp: filled_def id_page_def)
qed

lemma filled_end:
  assumes "pmm_ok P M K s" and "pt_tree (Suc k) t (mem s)"
  shows "filled P M K k 512 c n s t s"
  using assms by (auto simp: filled_def)

text \<open>One more subtree.\<close>

lemma add_subtree:
  assumes ok: "pmm_ok P M K s" and tree: "pt_tree (Suc k) t (mem s)"
    and tab: "pt_tables (Suc k) t (mem s) \<subseteq> P - set (pmm_frames s)" and i: "i < 512"
    and sub: "maps_id P M K k c n s f s1"
  defines "s2 \<equiv> s1\<lparr>mem := store64 (mem s1) (slot t i) (kernel_entry f)\<rparr>"
  shows "pmm_ok P M K s2" and "s2 = s\<lparr>mem := mem s2, free_blocks := free_blocks s2\<rparr>"
    and "pt_tree (Suc k) t (mem s2)" and "\<And>j. j < 512 \<Longrightarrow> j \<noteq> i \<Longrightarrow> child t j (mem s2) = child t j (mem s)"
    and "\<And>v. pt_lookup (Suc k) v t (mem s2)
      = (if vidx v (Suc k) = i then id_page n (c + pgno k v) else pt_lookup (Suc k) v t (mem s))"
    and "\<exists>gs. pmm_frames s = pmm_frames s2 @ gs \<and> length gs = tables_needed k (n - c)
      \<and> pt_tables (Suc k) t (mem s2) \<subseteq> pt_tables (Suc k) t (mem s) \<union> set gs
      \<and> (\<forall>x. \<not> pmm_area K s x \<longrightarrow> \<not> in_frame t x \<longrightarrow> (\<forall>f \<in> set gs. \<not> in_frame f x) \<longrightarrow> mem s2 x = mem s x)"
proof -
  have lay: "pmm_layout P M K s" using ok by (simp add: pmm_ok_def)
  obtain gs where gs: "pmm_frames s = pmm_frames s1 @ gs" "length gs = tables_needed k (n - c)" "pt_tables k f (mem s1) \<subseteq> set gs"
    "\<forall>x. \<not> pmm_area K s x \<longrightarrow> (\<forall>f \<in> set gs. \<not> in_frame f x) \<longrightarrow> mem s1 x = mem s x"
    using sub by (auto simp: maps_id_def)
  have s1: "pmm_ok P M K s1" "s1 = s\<lparr>mem := mem s1, free_blocks := free_blocks s1\<rparr>" "pt_tree k f (mem s1)"
    "\<And>v. pt_lookup k v f (mem s1) = id_page n (c + pgno k v)"
    using sub unfolding maps_id_def by blast+
  have ar: "pmm_area K s1 = pmm_area K s" by (subst s1(2)) (simp add: pmm_area_def fun_eq_iff)
  have tP: "t \<in> P" "t \<notin> set (pmm_frames s)" using tab by auto
  have tf: "is_frame t" by (rule pool_frame(1) [OF lay tP(1)])
  have gP: "g \<in> P" if "g \<in> set gs" for g using that ok gs(1) by (auto simp: pmm_ok_def)
  have f: "f \<in> set gs" using gs(3) by auto
  have ff: "is_frame f" by (rule pool_frame(1) [OF lay gP [OF f]])
  have st: "mem s2 x = mem s1 x" if "\<not> in_frame t x" for x using store64_frame [OF tf i that] by (simp add: s2_def)
  have old: "mem s1 x = mem s x" if "in_frame h x" "h \<in> P" "h \<notin> set (pmm_frames s)" for h x
  proof -
    have "\<not> in_frame g x" if "g \<in> set gs" for g
      using frames_apart [OF pool_frame(1) [OF lay \<open>h \<in> P\<close>] pool_frame(1) [OF lay gP [OF that]] _ \<open>in_frame h x\<close>]
        \<open>h \<notin> set (pmm_frames s)\<close> that gs(1) by auto
    then show ?thesis using gs(4) pool_frame(2) [OF lay that(2,1)] by blast
  qed
  have na: "mem s2 x = mem s1 x" if "pmm_area K s1 x" for x
    using st pool_frame(2) [OF lay tP(1)] that ar by metis
  have s2': "s2 = s1\<lparr>mem := mem s2\<rparr>" by (simp add: s2_def)
  have pm: "pmm_ok P M K s2" "pmm_frames s2 = pmm_frames s1"
    using pmm_ok_mem [OF s1(1), of "mem s2"] pmm_frames_mem [OF s1(1), of "mem s2"] na s2' by metis+
  show "pmm_ok P M K s2" by (rule pm(1))
  show "s2 = s\<lparr>mem := mem s2, free_blocks := free_blocks s2\<rparr>" by (subst s2', subst s1(2)) (simp add: s2_def)
  have ch: "child t j (mem s2) = child t j (mem s)" if j: "j < 512" "j \<noteq> i" for j
  proof -
    have "same_frame t (mem s) (mem s1)" using old [OF _ tP] by (simp add: same_frame_def)
    then have "load64 (mem s1) (slot t j) = load64 (mem s) (slot t j)" by (rule load64_same [OF _ tf j(1)])
    then show ?thesis using store64_other_slot [OF tf i j(1)] j(2) by (simp add: child_def s2_def)
  qed
  then show "\<And>j. j < 512 \<Longrightarrow> j \<noteq> i \<Longrightarrow> child t j (mem s2) = child t j (mem s)" .
  have "f mod VMM_PAGE_SIZE = 0" using ff by (simp add: is_frame_def)
  then have ci: "child t i (mem s2) = Some f" by (simp add: child_def s2_def c64.ld_st kernel_entry_props)
  have below: "is_frame h \<and> same_frame h (mem s1) (mem s2)" if "h \<in> pt_tables k f (mem s1)" for h
  proof -
    have h: "h \<in> set gs" using that gs(3) by blast
    then have "h \<noteq> t" using tP(2) gs(1) by auto
    moreover have "is_frame h" by (rule pool_frame(1) [OF lay gP [OF h]])
    ultimately show ?thesis using st frames_apart [of h t] tf by (auto simp: same_frame_def)
  qed
  have same: "pt_tables k f (mem s2) = pt_tables k f (mem s1)" "pt_tree k f (mem s2)"
  proof -
    show "pt_tables k f (mem s2) = pt_tables k f (mem s1)" using below by (rule tables_same)
    show "pt_tree k f (mem s2)" using below s1(3) by (rule tree_same)
  qed
  have look: "pt_lookup k v f (mem s2) = id_page n (c + pgno k v)" for v
    unfolding s1(4) [symmetric] using below by (rule lookup_same)
  have tn: "t \<notin> pt_tables k f (mem s2)" using same(1) gs(1,3) tP(2) by auto
  have rest: "is_frame h \<and> same_frame h (mem s) (mem s2) \<and> h \<notin> pt_tables k f (mem s2)"
    if j: "j < 512" "j \<noteq> i" "child t j (mem s) = Some d" "h \<in> pt_tables k d (mem s)" for j d h
  proof -
    have h: "h \<in> P" "h \<notin> set (pmm_frames s)" using pt_tables_child [OF j(1,3)] j(4) tab by auto
    have hf: "is_frame h" by (rule pool_frame(1) [OF lay h(1)])
    have "h \<noteq> t" using tree j by auto
    then have "mem s2 x = mem s x" if "in_frame h x" for x
      using st [of x] old [OF that h] frames_apart [OF hf tf _ that] by simp
    then show ?thesis using hf h(2) same(1) gs(1,3) by (auto simp: same_frame_def)
  qed
  note ru = root_update [OF i ci same(2) tn _ _ tree]
  show "pt_tree (Suc k) t (mem s2)" by (rule ru(1)) (erule (1) ch, erule (3) rest)
  show "pt_lookup (Suc k) v t (mem s2)
      = (if vidx v (Suc k) = i then id_page n (c + pgno k v) else pt_lookup (Suc k) v t (mem s))" for v
    unfolding look [symmetric] by (rule ru(3)) (erule (1) ch, erule (3) rest)
  have "pt_tables (Suc k) t (mem s2) \<subseteq> pt_tables (Suc k) t (mem s) \<union> pt_tables k f (mem s2)"
    by (rule ru(2)) (erule (1) ch, erule (3) rest)
  then have "pt_tables (Suc k) t (mem s2) \<subseteq> pt_tables (Suc k) t (mem s) \<union> set gs"
    unfolding same(1) using gs(3) by (rule order_trans [OF _ Un_mono [OF order_refl]])
  moreover have "mem s2 x = mem s x" if "\<not> pmm_area K s x" "\<not> in_frame t x" "\<forall>f \<in> set gs. \<not> in_frame f x" for x
    using st gs(4) that by simp
  ultimately show "\<exists>gs. pmm_frames s = pmm_frames s2 @ gs \<and> length gs = tables_needed k (n - c)
      \<and> pt_tables (Suc k) t (mem s2) \<subseteq> pt_tables (Suc k) t (mem s) \<union> set gs
      \<and> (\<forall>x. \<not> pmm_area K s x \<longrightarrow> \<not> in_frame t x \<longrightarrow> (\<forall>f \<in> set gs. \<not> in_frame f x) \<longrightarrow> mem s2 x = mem s x)"
    using gs(1,2) pm(2) by (intro exI [of _ gs]) simp
qed


lemma tables_taken:
  assumes "pmm_ok P M K s" and "pmm_frames s = fs @ gs" and "T \<subseteq> P - set (pmm_frames s)" and "T' \<subseteq> T \<union> set gs"
  shows "T' \<subseteq> P - set fs"
  using assms by (auto simp: pmm_ok_def)

lemma rest_pages:
  fixes c w N j :: nat
  shows "(if min N (c + w) + j * w < N then h (N - min N (c + w) - j * w) else 0)
    = (if c + Suc j * w < N then h (N - c - Suc j * w) else (0 :: nat))"
  by (cases "c + w \<le> N") (simp_all add: min_def add.assoc)

lemma rest_page: "id_page N (min N (c + w) + (l - Suc i) * w + p) = id_page N (c + (l - i) * w + p)" if "Suc i \<le> l" for w :: nat
proof -
  have "(l - i) * w = w + (l - Suc i) * w" using that by (simp add: Suc_diff_Suc mult_Suc [symmetric] del: mult_Suc)
  then show ?thesis by (cases "c + w \<le> N") (simp_all add: min_def id_page_def add.assoc)
qed

lemma filled_step:
  assumes ok: "pmm_ok P M K s" and tree: "pt_tree (Suc k) t (mem s)"
    and tab: "pt_tables (Suc k) t (mem s) \<subseteq> P - set (pmm_frames s)" and i: "i < 512" and cn: "c < n"
    and sub: "maps_id P M K k c n s f s1"
  defines "s2 \<equiv> s1\<lparr>mem := store64 (mem s1) (slot t i) (kernel_entry f)\<rparr>"
  assumes fill: "filled P M K k (Suc i) (min n (c + 512 ^ Suc k)) n s2 t s'"
  shows "filled P M K k i c n s t s'"
proof -
  let ?w = "512 ^ Suc k :: nat"
  note a = add_subtree [OF ok tree tab i sub, folded s2_def]
  obtain gs where gs: "pmm_frames s = pmm_frames s2 @ gs" "length gs = tables_needed k (n - c)"
    "pt_tables (Suc k) t (mem s2) \<subseteq> pt_tables (Suc k) t (mem s) \<union> set gs"
    "\<forall>x. \<not> pmm_area K s x \<longrightarrow> \<not> in_frame t x \<longrightarrow> (\<forall>f \<in> set gs. \<not> in_frame f x) \<longrightarrow> mem s2 x = mem s x"
    using a(6) by blast
  obtain hs where hs: "pmm_frames s2 = pmm_frames s' @ hs"
    "length hs = (\<Sum>j<512 - Suc i. if min n (c + ?w) + j * ?w < n then tables_needed k (n - min n (c + ?w) - j * ?w) else 0)"
    "pt_tables (Suc k) t (mem s') \<subseteq> pt_tables (Suc k) t (mem s2) \<union> set hs"
    "\<forall>x. \<not> pmm_area K s2 x \<longrightarrow> \<not> in_frame t x \<longrightarrow> (\<forall>f \<in> set hs. \<not> in_frame f x) \<longrightarrow> mem s' x = mem s2 x"
    using fill unfolding filled_def by blast
  have s': "pmm_ok P M K s'" "s' = s2\<lparr>mem := mem s', free_blocks := free_blocks s'\<rparr>" "pt_tree (Suc k) t (mem s')"
    using fill unfolding filled_def by blast+
  have ar: "pmm_area K s2 = pmm_area K s" by (subst a(2)) (simp add: pmm_area_def fun_eq_iff)
  have "s' = s\<lparr>mem := mem s', free_blocks := free_blocks s'\<rparr>"
    by (subst s'(2), subst a(2)) simp
  moreover have "length (hs @ gs) = (\<Sum>j<512 - i. if c + j * ?w < n then tables_needed k (n - c - j * ?w) else 0)"
  proof -
    have "512 - i = Suc (512 - Suc i)" using i by simp
    then show ?thesis
      unfolding length_append hs(2) gs(2) rest_pages by (simp only: sum.lessThan_Suc_shift comp_def) (simp add: cn)
  qed
  moreover have "pt_lookup (Suc k) v t (mem s') = (if vidx v (Suc k) < i then pt_lookup (Suc k) v t (mem s)
      else id_page n (c + (vidx v (Suc k) - i) * ?w + pgno k v))" for v
  proof -
    have l: "pt_lookup (Suc k) v t (mem s') = (if vidx v (Suc k) < Suc i then pt_lookup (Suc k) v t (mem s2)
        else id_page n (min n (c + ?w) + (vidx v (Suc k) - Suc i) * ?w + pgno k v))"
      using fill unfolding filled_def by blast
    consider "vidx v (Suc k) < i" | "vidx v (Suc k) = i" | "Suc i \<le> vidx v (Suc k)" by linarith
    then show ?thesis
    proof cases
      case 3
      then show ?thesis unfolding l rest_page [OF 3] by simp
    qed (use l a(5) [of v] in simp_all)
  qed
  moreover have "mem s' x = mem s x"
    if "\<not> pmm_area K s x" "\<not> in_frame t x" "\<forall>f \<in> set (hs @ gs). \<not> in_frame f x" for x
    using gs(4) hs(4) that ar by simp
  moreover have "pmm_frames s = pmm_frames s' @ hs @ gs" using gs(1) hs(1) by simp
  moreover have "pt_tables (Suc k) t (mem s') \<subseteq> pt_tables (Suc k) t (mem s) \<union> set (hs @ gs)"
    using gs(3) hs(3) by (simp only: set_append) blast
  ultimately show ?thesis using s'(1,3) unfolding filled_def by blast
qed

definition pages_call :: "u64 set \<Rightarrow> nat \<Rightarrow> nat \<Rightarrow> nat \<Rightarrow> nat \<Rightarrow> 'a vmm_state_scheme itself \<Rightarrow> bool" where
  "pages_call P M K k n _ \<longleftrightarrow> (\<forall>c fr p4 (s :: 'a vmm_state_scheme). c < n \<longrightarrow> pmm_ok P M K s \<longrightarrow> tables_needed k (n - c) \<le> length (pmm_frames s) \<longrightarrow>
     (\<exists>f s'. identity_paging (Suc k) (of_nat n) (of_nat c) fr p4 s = (True, of_nat (min n (c + 512 ^ Suc k)), f, f, s')
       \<and> maps_id P M K k c n s f s'))"

lemma fill_tables:
  fixes s :: "'a vmm_state_scheme"
  assumes below: "pages_call P M K k N TYPE('a vmm_state_scheme)" and N: "N \<le> 2 ^ 18"
  shows "n \<le> 512 \<Longrightarrow> c \<le> N \<Longrightarrow> pmm_ok P M K s \<Longrightarrow> pt_tree (Suc k) t (mem s) \<Longrightarrow>
    pt_tables (Suc k) t (mem s) \<subseteq> P - set (pmm_frames s) \<Longrightarrow> \<forall>j<512. 512 - n \<le> j \<longrightarrow> child t j (mem s) = None \<Longrightarrow>
    (\<Sum>j<n. if c + j * 512 ^ Suc k < N then tables_needed k (N - c - j * 512 ^ Suc k) else 0) \<le> length (pmm_frames s) \<Longrightarrow>
    \<exists>fr' p4' s'. fill_table (identity_paging (Suc k) (of_nat N)) n t (of_nat N) (of_nat c) fr p4 s
      = (True, of_nat (min N (c + n * 512 ^ Suc k)), fr', p4', s') \<and> filled P M K k (512 - n) c N s t s'"
proof (induction n arbitrary: c fr p4 s)
  case 0
  then show ?case using filled_end [OF 0(3,4)] by simp
next
  case (Suc n)
  let ?i = "512 - Suc n" and ?w = "512 ^ Suc k :: nat"
  have lt: "(of_nat c :: u32) <s of_nat N \<longleftrightarrow> c < N" by (rule signed_less) (use Suc.prems(2) N in simp_all)
  show ?case
  proof (cases "c < N")
    case False
    then have c: "c = N" using Suc.prems(2) by simp
    have "fill_table (identity_paging (Suc k) (of_nat N)) (Suc n) t (of_nat N) (of_nat c) fr p4 s = (True, of_nat c, fr, p4, s)"
      using lt False by (simp only: fill_table.simps if_False)
    moreover have "filled P M K k ?i c N s t s" by (rule filled_done [OF Suc.prems(3,4) _ Suc.prems(6)]) (simp add: c)
    moreover have "min N (c + Suc n * ?w) = c" by (simp add: c)
    ultimately show ?thesis by metis
  next
    case True
    have i: "?i < 512" and i': "512 - n = Suc ?i" using Suc.prems(1) by simp_all
    let ?h = "\<lambda>c j. if c + j * ?w < N then tables_needed k (N - c - j * ?w) else 0"
    have need: "tables_needed k (N - c) + (\<Sum>j<n. ?h (min N (c + ?w)) j) \<le> length (pmm_frames s)"
      using Suc.prems(7) unfolding rest_pages by (simp only: sum.lessThan_Suc_shift comp_def) (simp add: True)
    then have "tables_needed k (N - c) \<le> length (pmm_frames s)" by simp
    from below [unfolded pages_call_def, rule_format, OF True Suc.prems(3) this, of fr p4] obtain f s1 where
      f: "identity_paging (Suc k) (of_nat N) (of_nat c) fr p4 s = (True, of_nat (min N (c + ?w)), f, f, s1)"
      and sub: "maps_id P M K k c N s f s1" by blast
    let ?s2 = "s1\<lparr>mem := store64 (mem s1) (slot t ?i) (kernel_entry f)\<rparr>"
    note a = add_subtree [OF Suc.prems(3-5) i sub]
    obtain gs where gs: "pmm_frames s = pmm_frames ?s2 @ gs" "length gs = tables_needed k (N - c)"
      "pt_tables (Suc k) t (mem ?s2) \<subseteq> pt_tables (Suc k) t (mem s) \<union> set gs" using a(6) by blast
    have p: "pt_tables (Suc k) t (mem ?s2) \<subseteq> P - set (pmm_frames ?s2)"
      by (rule tables_taken [OF Suc.prems(3) gs(1) Suc.prems(5) gs(3)])
    have none: "\<forall>j<512. 512 - n \<le> j \<longrightarrow> child t j (mem ?s2) = None" using a(4) Suc.prems(6) i' by auto
    have "(\<Sum>j<n. ?h (min N (c + ?w)) j) \<le> length (pmm_frames ?s2)"
      using need gs(2) arg_cong [OF gs(1), of length] unfolding length_append by linarith
    from Suc.IH [OF Suc_leD [OF Suc.prems(1)] min.cobounded1 a(1,3) p none this, of f f] obtain fr' p4' s' where
      r: "fill_table (identity_paging (Suc k) (of_nat N)) n t (of_nat N) (of_nat (min N (c + ?w))) f f ?s2
        = (True, of_nat (min N (min N (c + ?w) + n * ?w)), fr', p4', s')"
      "filled P M K k (512 - n) (min N (c + ?w)) N ?s2 t s'" by blast
    have "min N (min N (c + ?w) + n * ?w) = min N (c + Suc n * ?w)" by (simp add: min_def)
    then have "fill_table (identity_paging (Suc k) (of_nat N)) (Suc n) t (of_nat N) (of_nat c) fr p4 s
        = (True, of_nat (min N (c + Suc n * ?w)), fr', p4', s')"
      using lt True r(1) unfolding fill_table.simps f slot_def kernel_entry_def by (simp add: Let_def)
    moreover have "filled P M K k ?i c N s t s'" by (rule filled_step [OF Suc.prems(3-5) i True sub r(2) [unfolded i']])
    ultimately show ?thesis by blast
  qed
qed


lemma maps_id_filled:
  assumes ok: "pmm_ok P M K s" and f: "pmm_frames s = fs @ [f]" and g: "gmem s = (f, s1)"
  defines "s2 \<equiv> s1\<lparr>mem := clear_frame f (mem s1)\<rparr>"
  shows "pmm_ok P M K s2" and "pmm_frames s2 = fs" and "s2 = s\<lparr>mem := mem s2, free_blocks := free_blocks s2\<rparr>"
    and "is_frame f" and "f \<in> P - set fs"
    and "\<And>i. i < 512 \<Longrightarrow> load64 (mem s2) (slot f i) = 0"
    and "\<And>x. \<not> pmm_area K s x \<Longrightarrow> \<not> in_frame f x \<Longrightarrow> mem s2 x = mem s x"
proof -
  have lay: "pmm_layout P M K s" using ok by (simp add: pmm_ok_def)
  show fP: "f \<in> P - set fs" using ok f by (auto simp: pmm_ok_def)
  show ff: "is_frame f" by (rule pool_frame(1) [OF lay]) (use fP in simp)
  have s1: "pmm_ok P M K s1" "pmm_frames s1 = fs" using gmem_frame [OF ok f] g by auto
  have s1': "s1 = s\<lparr>mem := mem s1, free_blocks := free_blocks s1\<rparr>" by (rule gmem_rest [OF g])
  have ar: "pmm_area K s1 = pmm_area K s" by (subst s1') (simp add: pmm_area_def fun_eq_iff)
  have out: "mem s2 x = mem s1 x" if "\<not> in_frame f x" for x using clear_frame_other [OF ff that] by (simp add: s2_def)
  have na: "mem s2 x = mem s1 x" if "pmm_area K s1 x" for x
    using out pool_frame(2) [OF lay, of f x] fP that ar by auto
  have s2': "s2 = s1\<lparr>mem := mem s2\<rparr>" by (simp add: s2_def)
  show "pmm_ok P M K s2" "pmm_frames s2 = fs"
    using pmm_ok_mem [OF s1(1), of "mem s2"] pmm_frames_mem [OF s1(1), of "mem s2"] na s2' s1(2) by metis+
  show "s2 = s\<lparr>mem := mem s2, free_blocks := free_blocks s2\<rparr>" by (subst s2', subst s1') (simp add: s2_def)
  show "\<And>i. i < 512 \<Longrightarrow> load64 (mem s2) (slot f i) = 0" using clear_frame_zero [OF ff] by (simp add: s2_def)
  show "\<And>x. \<not> pmm_area K s x \<Longrightarrow> \<not> in_frame f x \<Longrightarrow> mem s2 x = mem s x" using out gmem_writes [OF ok g] by simp
qed

lemma identity_pages:
  assumes N: "N \<le> 2 ^ 18" shows "pages_call P M K 0 N TYPE('a vmm_state_scheme)"
  unfolding pages_call_def
proof (intro allI impI)
  fix c fr p4 and s :: "'a vmm_state_scheme"
  assume c: "c < N" and ok: "pmm_ok P M K s" and len: "tables_needed 0 (N - c) \<le> length (pmm_frames s)"
  obtain fs f where f: "pmm_frames s = fs @ [f]" using len by (cases "pmm_frames s" rule: rev_cases) auto
  obtain s1 where g: "gmem s = (f, s1)" using gmem_frame [OF ok f] by blast
  let ?s2 = "s1\<lparr>mem := clear_frame f (mem s1)\<rparr>"
  note n = maps_id_filled [OF ok f g]
  obtain fr' m' where m': "fill_table (identity_paging 0 (of_nat N)) 512 f (of_nat N) (of_nat c) fr p4 ?s2
      = (True, of_nat (min N (c + 512)), fr', p4, ?s2\<lparr>mem := m'\<rparr>)"
    "\<forall>l<512. load64 m' (slot f l) = (if c + l < N then kernel_entry (of_nat (4096 * (c + l))) else load64 (mem ?s2) (slot f l))"
    "\<forall>x. \<not> in_frame f x \<longrightarrow> m' x = mem ?s2 x"
    using fill_pages [OF n(4) N, of 512 c fr p4 ?s2] c by auto
  let ?s' = "?s2\<lparr>mem := m'\<rparr>"
  have lay: "pmm_layout P M K ?s2" using n(1) by (simp add: pmm_ok_def)
  have na: "m' x = mem ?s2 x" if "pmm_area K ?s2 x" for x
    using m'(3) pool_frame(2) [OF lay, of f x] n(5) that by auto
  have pm: "pmm_ok P M K ?s'" "pmm_frames ?s' = fs"
    using pmm_ok_mem [OF n(1), of m'] pmm_frames_mem [OF n(1), of m'] na n(2) by metis+
  have look: "pt_lookup 0 v f m' = id_page N (c + pgno 0 v)" for v
    using m'(2) n(6) by (simp add: id_page_def kernel_entry_props pte_is_present_def [of 0])
  have "f \<noteq> 0" using n(4) by (simp add: is_frame_def)
  then have "identity_paging (Suc 0) (of_nat N) (of_nat c) fr p4 s = (True, of_nat (min N (c + 512)), f, f, ?s')"
    unfolding identity_paging.simps(2) using m'(1) by (simp only: g Let_def clear_frame_def prod.case if_False not_True_eq_False)
  moreover have "maps_id P M K 0 c N s f ?s'"
  proof -
    have req: "?s' = s\<lparr>mem := mem ?s', free_blocks := free_blocks ?s'\<rparr>"
      using arg_cong [OF n(3), of "\<lambda>s. s\<lparr>mem := m'\<rparr>"] by simp
    have "mem ?s' x = mem s x" if "\<not> pmm_area K s x" "\<forall>g \<in> set [f]. \<not> in_frame g x" for x
      using m'(3) n(7) that by simp
    moreover have "pmm_frames s = pmm_frames ?s' @ [f]" "length [f] = tables_needed 0 (N - c)" "pt_tables 0 f (mem ?s') \<subseteq> set [f]"
      using f pm(2) by simp_all
    ultimately have "\<exists>gs. pmm_frames s = pmm_frames ?s' @ gs \<and> length gs = tables_needed 0 (N - c) \<and> pt_tables 0 f (mem ?s') \<subseteq> set gs
        \<and> (\<forall>x. \<not> pmm_area K s x \<longrightarrow> (\<forall>f \<in> set gs. \<not> in_frame f x) \<longrightarrow> mem ?s' x = mem s x)"
      by blast
    moreover have "\<forall>v. pt_lookup 0 v f (mem ?s') = id_page N (c + pgno 0 v)" using look by simp
    ultimately show ?thesis using pm(1) req unfolding maps_id_def by (intro conjI) simp_all
  qed
  ultimately show "\<exists>f s'. identity_paging (Suc 0) (of_nat N) (of_nat c) fr p4 s = (True, of_nat (min N (c + 512 ^ Suc 0)), f, f, s')
      \<and> maps_id P M K 0 c N s f s'" by auto
qed


lemma identity_tables:
  assumes below: "pages_call P M K k N TYPE('a vmm_state_scheme)" and N: "N \<le> 2 ^ 18"
  shows "pages_call P M K (Suc k) N TYPE('a vmm_state_scheme)"
  unfolding pages_call_def
proof (intro allI impI)
  fix c fr p4 and s :: "'a vmm_state_scheme"
  assume c: "c < N" and ok: "pmm_ok P M K s" and len: "tables_needed (Suc k) (N - c) \<le> length (pmm_frames s)"
  obtain fs f where f: "pmm_frames s = fs @ [f]" using len by (cases "pmm_frames s" rule: rev_cases) auto
  obtain s1 where g: "gmem s = (f, s1)" using gmem_frame [OF ok f] by blast
  define s2 where "s2 = s1\<lparr>mem := clear_frame f (mem s1)\<rparr>"
  note n = maps_id_filled [OF ok f g, folded s2_def]
  let ?w = "512 ^ Suc k :: nat"
  have none: "child f j (mem s2) = None" if "j < 512" for j using n(6) [OF that] by (simp add: child_def pte_is_present_def)
  have e: "pt_tables (Suc k) f (mem s2) = {f}" "pt_tree (Suc k) f (mem s2)" using empty_table(1,2) [of f "mem s2" "Suc k"] none by blast+
  have sum: "(\<Sum>j<512. if c + j * ?w < N then tables_needed k (N - c - j * ?w) else 0)
      = (\<Sum>j<512. if j * ?w < N - c then tables_needed k (N - c - j * ?w) else 0)"
    by (rule sum.cong [OF refl]) (use c in auto)
  have "(\<Sum>j<512. if c + j * ?w < N then tables_needed k (N - c - j * ?w) else 0) \<le> length (pmm_frames s2)"
    using len unfolding sum n(2) by (simp add: f)
  from fill_tables [OF below N le_refl less_imp_le [OF c] n(1) e(2) _ _ this, of fr p4] obtain fr' p4' s' where
    r: "fill_table (identity_paging (Suc k) (of_nat N)) 512 f (of_nat N) (of_nat c) fr p4 s2
      = (True, of_nat (min N (c + 512 * ?w)), fr', p4', s')" "filled P M K k 0 c N s2 f s'"
    using e(1) n(2,5) none by auto
  obtain gs where gs: "pmm_frames s2 = pmm_frames s' @ gs"
    "length gs = (\<Sum>j<512 - 0. if c + j * ?w < N then tables_needed k (N - c - j * ?w) else 0)"
    "pt_tables (Suc k) f (mem s') \<subseteq> pt_tables (Suc k) f (mem s2) \<union> set gs"
    "\<forall>x. \<not> pmm_area K s2 x \<longrightarrow> \<not> in_frame f x \<longrightarrow> (\<forall>g \<in> set gs. \<not> in_frame g x) \<longrightarrow> mem s' x = mem s2 x"
    using r(2) unfolding filled_def by blast
  have s': "pmm_ok P M K s'" "s' = s2\<lparr>mem := mem s', free_blocks := free_blocks s'\<rparr>" "pt_tree (Suc k) f (mem s')"
    using r(2) unfolding filled_def by blast+
  have ar: "pmm_area K s2 = pmm_area K s" by (subst n(3)) (simp add: pmm_area_def fun_eq_iff)
  have "f \<noteq> 0" using n(4) by (simp add: is_frame_def)
  then have "identity_paging (Suc (Suc k)) (of_nat N) (of_nat c) fr p4 s = (True, of_nat (min N (c + 512 * ?w)), f, f, s')"
    unfolding identity_paging.simps(2) [of "Suc k"] g Let_def prod.case clear_frame_def [symmetric] s2_def [symmetric]
    by (simp only: r(1) prod.case if_False not_True_eq_False)
  moreover have "maps_id P M K (Suc k) c N s f s'"
  proof -
    have req: "s' = s\<lparr>mem := mem s', free_blocks := free_blocks s'\<rparr>" by (subst s'(2), subst n(3)) simp
    have "pmm_frames s = pmm_frames s' @ gs @ [f]" using f n(2) gs(1) by simp
    moreover have "length (gs @ [f]) = tables_needed (Suc k) (N - c)" unfolding length_append gs(2) diff_zero sum tables_needed.simps by simp
    moreover have "pt_tables (Suc k) f (mem s') \<subseteq> set (gs @ [f])" using gs(3) unfolding e(1) by auto
    moreover have "mem s' x = mem s x" if "\<not> pmm_area K s x" "\<forall>g \<in> set (gs @ [f]). \<not> in_frame g x" for x
      using gs(4) n(7) that ar by simp
    ultimately have "\<exists>gs. pmm_frames s = pmm_frames s' @ gs \<and> length gs = tables_needed (Suc k) (N - c)
        \<and> pt_tables (Suc k) f (mem s') \<subseteq> set gs
        \<and> (\<forall>x. \<not> pmm_area K s x \<longrightarrow> (\<forall>f \<in> set gs. \<not> in_frame f x) \<longrightarrow> mem s' x = mem s x)"
      by blast
    moreover have "pt_lookup (Suc k) v f (mem s') = id_page N (c + pgno (Suc k) v)" for v
    proof -
      have "pt_lookup (Suc k) v f (mem s') = id_page N (c + (vidx v (Suc k) - 0) * ?w + pgno k v)"
        using r(2) unfolding filled_def by (metis not_less0)
      then show ?thesis by (simp only: pgno.simps diff_zero add.assoc)
    qed
    ultimately show ?thesis using s'(1,3) req unfolding maps_id_def by blast
  qed
  moreover have "512 * ?w = 512 ^ Suc (Suc k)" by simp
  ultimately show "\<exists>f s'. identity_paging (Suc (Suc k)) (of_nat N) (of_nat c) fr p4 s = (True, of_nat (min N (c + 512 ^ Suc (Suc k))), f, f, s')
      \<and> maps_id P M K (Suc k) c N s f s'" by metis
qed

lemma identity_all:
  assumes "N \<le> 2 ^ 18" shows "pages_call P M K k N TYPE('a vmm_state_scheme)"
  by (induction k) (rule identity_pages [OF assms], rule identity_tables [OF _ assms])


subsection \<open>The address space\<close>

text \<open>The address of a table is what the processor uses.\<close>

lemma read_cr3_table:
  assumes "is_frame f" and "unat f < 2 ^ 48" and "cr3 s = (push_bit 12 (drop_bit 28 (push_bit 16 f)) OR 0x8) OR 0x8"
  shows "read_cr3 s = f"
proof (rule bit_word_eqI)
  fix n assume n: "n < LENGTH(64)"
  have "take_bit 12 f = 0" using assms(1) by (simp add: is_frame_def take_bit_eq_mod)
  then have lo: "\<not> bit f n" if "n < 12" using that bit_take_bit_iff [of 12 f n] by simp
  have "take_bit 48 f = f" using assms(2) by (simp add: word_unat_eq_iff unsigned_take_bit_eq take_bit_nat_eq_self)
  then have hi: "bit f n \<Longrightarrow> n < 48" using bit_take_bit_iff [of 48 f n] by simp
  have m: "(0xFFFFFFFFF000 :: u64) = push_bit 12 (mask 36)" by (simp add: mask_eq_exp_minus_1)
  have "bit (8 :: u64) n \<longleftrightarrow> n = 3" using bit_exp_iff [of 3 n, where 'a = u64] n by auto
  then show "bit (read_cr3 s) n = bit f n"
    unfolding read_cr3_def assms(3) m using lo hi n by (cases "n < 12") (auto simp: bit_simps)
qed

lemma pgno_eq: "pgno k v = unat v div 4096 mod 512 ^ Suc k"
proof (induction k)
  case 0
  show ?case by (simp add: vidx_def)
next
  case (Suc k)
  have "(2 :: nat) ^ (Suc k * 9 + 12) = 4096 * 512 ^ Suc k"
  proof -
    have "(2 :: nat) ^ (Suc k * 9 + 12) = (2 ^ 9) ^ Suc k * 2 ^ 12" by (simp only: power_add power_mult mult.commute [of _ 9])
    then show ?thesis by (simp add: mult.commute)
  qed
  then have v: "vidx v (Suc k) = unat v div 4096 div 512 ^ Suc k mod 512" unfolding vidx_def div_mult2_eq [symmetric] by (simp only:)
  have "unat v div 4096 mod (512 ^ Suc k * 512) = 512 ^ Suc k * (unat v div 4096 div 512 ^ Suc k mod 512) + unat v div 4096 mod 512 ^ Suc k"
    by (rule mod_mult2_eq)
  then show ?case unfolding pgno.simps v Suc.IH by (simp only: power_Suc2 [of 512 "Suc k"] mult.commute)
qed

lemma pgno_page: "unat q < 2 ^ 27 \<Longrightarrow> pgno 3 (4096 * q) = unat q"
  by (simp add: pgno_eq unat_page_addr)

lemma tables_for_gigabyte: "tables_needed 3 262144 = 515"
proof -
  have one: "(\<Sum>i<512. if i * w < p then h i else 0) = h 0" if "0 < p" "p \<le> w" for w p :: nat and h :: "nat \<Rightarrow> nat"
  proof -
    have "(\<Sum>i<512. if i * w < p then h i else 0) = (\<Sum>i<512. if i = 0 then h i else 0)"
    proof (rule sum.cong [OF refl])
      fix i :: nat
      have "i * w < p \<longleftrightarrow> i = 0" using that by (cases i) auto
      then show "(if i * w < p then h i else 0) = (if i = 0 then h i else 0)" by simp
    qed
    then show ?thesis by simp
  qed
  have "(\<Sum>i<512. if i * 512 ^ Suc 0 < (262144 :: nat) then tables_needed 0 (262144 - i * 512 ^ Suc 0) else 0) = (\<Sum>i<512 :: nat. 1)"
    by (rule sum.cong [OF refl]) simp
  then have "tables_needed (Suc 0) 262144 = 513" unfolding tables_needed.simps(2) by simp
  moreover have "tables_needed (Suc (Suc 0)) 262144 = Suc (tables_needed (Suc 0) (262144 - 0 * 512 ^ Suc (Suc 0)))"
    unfolding tables_needed.simps(2) [of "Suc 0"] by (subst one) simp_all
  moreover have "tables_needed (Suc (Suc (Suc 0))) 262144 = Suc (tables_needed (Suc (Suc 0)) (262144 - 0 * 512 ^ Suc (Suc (Suc 0))))"
    unfolding tables_needed.simps(2) [of "Suc (Suc 0)"] by (subst one) simp_all
  ultimately show ?thesis by (simp only: numeral_3_eq_3 mult_0 diff_zero)
qed


text \<open>The bitmap: a bit that is set or cleared, and the others.\<close>

lemma pt_is_complete_after:
  assumes ok: "vmm_ok P M K s" and i: "unat i < 2 ^ 15" and j: "unat j < 2 ^ 15"
  shows "\<not> pt_is_complete i (pt_incomplete i s)"
    and "pt_is_complete i (pt_incomplete j s) \<Longrightarrow> pt_is_complete i s"
    and "pt_is_complete i (pt_complete i s)"
    and "pt_is_complete i s \<Longrightarrow> pt_is_complete i (pt_complete j s)"
    and "unat i div 64 \<noteq> unat j div 64 \<Longrightarrow> pt_is_complete i (pt_complete j s) = pt_is_complete i s"
proof -
  have f: "is_frame (cur_bitmap s)" using ok pool_frame(1) by (fastforce simp: vmm_ok_def pmm_ok_def)
  note slots = bitmap_slot [OF i] bitmap_slot [OF j]
  have lt: "unat i div 64 < 512" "unat j div 64 < 512" using i j by simp_all
  have ld: "load64 (store64 (mem s) (slot (cur_bitmap s) (unat j div 64)) x) (slot (cur_bitmap s) (unat i div 64))
      = (if unat i div 64 = unat j div 64 then x else load64 (mem s) (slot (cur_bitmap s) (unat i div 64)))" for x
    using store64_other_slot [OF f lt(2,1)] by (simp add: c64.ld_st)
  have swap: "(a AND NOT b) AND c = (a AND c) AND NOT b" for a b c :: u64 by (rule bit_word_eqI) (auto simp: bit_simps)
  note defs = pt_is_complete_def pt_complete_def pt_incomplete_def Let_def slots
  show "\<not> pt_is_complete i (pt_incomplete i s)" unfolding defs by (simp add: c64.ld_st and.assoc)
  show "pt_is_complete i (pt_complete i s)"
    unfolding defs using int_shl1_nonzero [of i] by (simp add: c64.ld_st bit.conj_disj_distrib2)
  show "pt_is_complete i (pt_incomplete j s) \<Longrightarrow> pt_is_complete i s"
    unfolding defs by (cases "unat i div 64 = unat j div 64") (auto simp: ld swap c64.ld_st)
  show "pt_is_complete i s \<Longrightarrow> pt_is_complete i (pt_complete j s)"
    unfolding defs by (auto simp: ld bit.conj_disj_distrib2 or_eq_0_iff)
  show "unat i div 64 \<noteq> unat j div 64 \<Longrightarrow> pt_is_complete i (pt_complete j s) = pt_is_complete i s"
    unfolding defs by (simp add: ld)
qed

lemma incomplete_loop_clears:
  "vmm_ok P M K s \<Longrightarrow> b + n \<le> 2 ^ 15 \<Longrightarrow> i < b \<longrightarrow> \<not> pt_is_complete (of_nat i) s \<Longrightarrow> i < b + n \<Longrightarrow>
    \<not> pt_is_complete (of_nat i) (incomplete_loop n (of_nat b) s)"
proof (induction n arbitrary: b s)
  case (Suc n)
  have u: "unat (of_nat b :: u64) = b" "unat (of_nat i :: u64) = i" using Suc.prems(2,4) by (auto intro!: unat_of_nat_small)
  then have bits: "unat (of_nat i :: u64) < 2 ^ 15" "unat (of_nat b :: u64) < 2 ^ 15" using Suc.prems(2,4) by simp_all
  have ok: "vmm_ok P M K (pt_incomplete (of_nat b) s)" using bitmap_ops(2) [OF Suc.prems(1) bits(2)] by blast
  have "i < Suc b \<longrightarrow> \<not> pt_is_complete (of_nat i) (pt_incomplete (of_nat b) s)"
    using pt_is_complete_after(1,2) [OF Suc.prems(1) bits] Suc.prems(3) by (cases "i = b") auto
  moreover have "incomplete_loop (Suc n) (of_nat b) s = incomplete_loop n (of_nat (Suc b)) (pt_incomplete (of_nat b) s)"
    by (simp add: add.commute)
  ultimately show ?case using Suc.IH [OF ok, of "Suc b"] Suc.prems(2,4) by simp
qed simp

text \<open>\<open>mark_bits\<close> up to a whole word.\<close>

lemma mark_bits_ok:
  "vmm_ok P M K s \<Longrightarrow> b + n \<le> 2 ^ 15 \<Longrightarrow>
    vmm_ok P M K (mark_bits_loop n (of_nat b) s) \<and> vm_same s (mark_bits_loop n (of_nat b) s)
    \<and> (i < 2 ^ 15 \<longrightarrow> (i < b \<longrightarrow> pt_is_complete (of_nat i) s) \<longrightarrow> i < b + n \<longrightarrow> pt_is_complete (of_nat i) (mark_bits_loop n (of_nat b) s))
    \<and> (i < 2 ^ 15 \<longrightarrow> (b + n + 63) div 64 \<le> i div 64 \<longrightarrow> pt_is_complete (of_nat i) (mark_bits_loop n (of_nat b) s) = pt_is_complete (of_nat i) s)"
proof (induction n arbitrary: b s)
  case (Suc n)
  have e: "(scast (of_nat b :: u32) :: u64) = of_nat b" by (rule scast_of_nat_32) (use Suc.prems(2) in simp)
  have u: "unat (of_nat b :: u64) = b" "i < 2 ^ 15 \<Longrightarrow> unat (of_nat i :: u64) = i"
    using Suc.prems(2) by (auto intro!: unat_of_nat_small)
  let ?s = "pt_complete (of_nat b) s"
  have c: "vmm_ok P M K ?s" "vm_same s ?s" using bitmap_ops(1) [OF Suc.prems(1), of "of_nat b"] u(1) Suc.prems(2) by auto
  have l: "mark_bits_loop (Suc n) (of_nat b) s = mark_bits_loop n (of_nat (Suc b)) ?s" using e by (simp add: add.commute)
  have bits: "(i < b \<longrightarrow> pt_is_complete (of_nat i) s) \<Longrightarrow> i < Suc b \<longrightarrow> pt_is_complete (of_nat i) ?s"
    "(b + Suc n + 63) div 64 \<le> i div 64 \<Longrightarrow> pt_is_complete (of_nat i) ?s = pt_is_complete (of_nat i) s" if "i < 2 ^ 15"
    using pt_is_complete_after(3,4,5) [OF Suc.prems(1), of "of_nat i" "of_nat b"] u(1) u(2) [OF that] that Suc.prems(2)
    by (auto simp: less_Suc_eq)
  have "Suc b + n \<le> 2 ^ 15" using Suc.prems(2) by simp
  from Suc.IH [OF c(1) this] show ?case unfolding l using vm_same_trans [OF c(2)] bits by auto
qed auto

text \<open>The steps of \<open>vmm_initialize\<close>: the tables, the bitmap's frame, the bitmap.\<close>

lemma first_tables:
  fixes s :: "'a vmm_state_scheme"
  assumes ok: "pmm_ok P M K s" and n: "515 \<le> length (pmm_frames s)"
  shows "\<exists>t s1 gs. identity_paging 4 ONE_GB_OF_PAGES 0 0 0 s = (True, ONE_GB_OF_PAGES, t, t, s1) \<and> pmm_ok P M K s1
    \<and> pmm_frames s = pmm_frames s1 @ gs \<and> length gs = 515 \<and> pt_tables 3 t (mem s1) \<subseteq> set gs \<and> pt_tree 3 t (mem s1)
    \<and> (\<forall>v. pt_lookup 3 v t (mem s1) = id_page 262144 (pgno 3 v))"
proof -
  have call: "pages_call P M K 3 262144 TYPE('a vmm_state_scheme)" by (rule identity_all) simp
  have "tables_needed 3 (262144 - 0) \<le> length (pmm_frames s)" using n by (simp add: tables_for_gigabyte)
  from call [unfolded pages_call_def, rule_format, OF _ ok this, of 0 0] obtain t s1 where
    i: "identity_paging (Suc 3) (of_nat 262144) (of_nat 0) 0 0 s = (True, of_nat (min 262144 (0 + 512 ^ Suc 3)), t, t, s1)"
    and m: "maps_id P M K 3 0 262144 s t s1" by auto
  have "pt_lookup 3 v t (mem s1) = id_page 262144 (0 + pgno 3 v)" for v using m unfolding maps_id_def by blast
  moreover have "identity_paging 4 ONE_GB_OF_PAGES 0 0 0 s = (True, ONE_GB_OF_PAGES, t, t, s1)" using i by simp
  ultimately show ?thesis using m unfolding maps_id_def by (simp only: tables_for_gigabyte diff_zero add_0) blast
qed

lemma first_space:
  assumes ok: "pmm_ok P M K s" and tab: "pt_tables 3 t (mem s) \<subseteq> P - set (pmm_frames s)" and tree: "pt_tree 3 t (mem s)"
    and lo: "unat t < 2 ^ 48" and fr: "pmm_frames s = fs @ [b]"
  defines "s2 \<equiv> write_cr3 (push_bit 12 (drop_bit 28 (push_bit 16 t)) OR 0x8) s"
  shows "\<exists>s3. gmem s2 = (b, s3) \<and> b \<noteq> 0 \<and> vmm_ok P M K (s3\<lparr>cur_bitmap := b\<rparr>) \<and> pmm_frames (s3\<lparr>cur_bitmap := b\<rparr>) = fs
    \<and> as_map (s3\<lparr>cur_bitmap := b\<rparr>) = (\<lambda>q. if unat q < 2 ^ 27 then pt_lookup 3 (4096 * q) t (mem s) else None)"
proof -
  have lay: "pmm_layout P M K s" using ok by (simp add: pmm_ok_def)
  have tP: "t \<in> P" using tab pt_tables_self [of t 3 "mem s"] by blast
  have tf: "is_frame t" by (rule pool_frame(1) [OF lay tP])
  have s2: "mem s2 = mem s" "pmm_frames s2 = fs @ [b]"
    using fr by (simp_all add: s2_def write_cr3_def pmm_frames_def)
  have s2ok: "pmm_ok P M K s2" using ok unfolding pmm_ok_def pmm_layout_def s2(2) fr by (simp add: s2_def write_cr3_def)
  obtain s3 where g: "gmem s2 = (b, s3)" "pmm_ok P M K s3" "pmm_frames s3 = fs" using gmem_frame [OF s2ok s2(2)] by blast
  have s3': "s3 = s2\<lparr>mem := mem s3, free_blocks := free_blocks s3\<rparr>" by (rule gmem_rest [OF g(1)])
  have b: "b \<in> P" "b \<notin> set fs" using ok fr by (auto simp: pmm_ok_def)
  let ?s4 = "s3\<lparr>cur_bitmap := b\<rparr>"
  have s4: "pmm_frames ?s4 = fs" using g(3) by (simp add: pmm_frames_def)
  have s4ok: "pmm_ok P M K ?s4" using g(2) unfolding pmm_ok_def pmm_layout_def s4 g(3) by simp
  have "cr3 ?s4 = cr3 s2" by (subst s3') simp
  then have cr: "read_cr3 ?s4 = t" by (intro read_cr3_table [OF tf lo]) (simp add: s2_def write_cr3_def)
  have lay2: "pmm_layout P M K s2" using s2ok by (simp add: pmm_ok_def)
  have same: "is_frame h \<and> same_frame h (mem s) (mem ?s4)" if h: "h \<in> pt_tables 3 t (mem s)" for h
  proof -
    have hP: "h \<in> P" using tab h by blast
    then have "mem s3 x = mem s2 x" if "in_frame h x" for x
      using gmem_writes [OF s2ok g(1)] pool_frame(2) [OF lay2 hP that] by blast
    then show ?thesis using pool_frame(1) [OF lay hP] by (simp add: same_frame_def s2(1))
  qed
  have tt: "pt_tables 3 t (mem ?s4) = pt_tables 3 t (mem s)" using same by (rule tables_same)
  have tr: "pt_tree 3 t (mem ?s4)" using same tree by (rule tree_same)
  have tl: "pt_lookup 3 v t (mem ?s4) = pt_lookup 3 v t (mem s)" for v using same by (rule lookup_same)
  have "pt_tables 3 t (mem s) \<subseteq> P - set fs" "b \<in> P - set fs - pt_tables 3 t (mem s)" using tab b fr by auto
  then have "vmm_ok P M K ?s4" unfolding vmm_ok_def vm_tables_def cr tt s4 using s4ok tr by simp
  moreover have "b \<noteq> 0" using pool_frame(1) [OF lay b(1)] by (simp add: is_frame_def)
  moreover have "as_map ?s4 = (\<lambda>q. if unat q < 2 ^ 27 then pt_lookup 3 (4096 * q) t (mem s) else None)"
    by (rule ext) (simp only: as_map_def cr tl)
  ultimately show ?thesis using g(1) s4 by blast
qed

lemma first_bitmap:
  assumes ok: "vmm_ok P M K s"
  defines "s' \<equiv> mark_bits 0 (ONE_GB_OF_PAGES div 512) (incomplete_loop 4096 0 s)"
  shows "vmm_ok P M K s'" and "vm_same s s'" and "i < 4096 \<Longrightarrow> pt_is_complete (of_nat i) s' \<longleftrightarrow> i < 512"
proof -
  define t where "t = incomplete_loop 4096 (of_nat 0) s"
  have t: "vmm_ok P M K t" "vm_same s t" using incomplete_loop_ok [OF ok, of 0 4096] by (simp_all add: t_def)
  have s': "s' = mark_bits_loop 512 (of_nat 0) t" by (simp add: s'_def t_def mark_bits_def)
  show "vmm_ok P M K s'" "vm_same s s'" using mark_bits_ok [OF t(1), of 0 512] vm_same_trans [OF t(2)] unfolding s' by auto
  assume i: "i < 4096"
  have "\<not> pt_is_complete (of_nat i) t" unfolding t_def by (rule incomplete_loop_clears [OF ok]) (use i in simp_all)
  then show "pt_is_complete (of_nat i) s' \<longleftrightarrow> i < 512"
    using mark_bits_ok [OF t(1), of 0 512 i] i unfolding s' by (cases "i < 512") auto
qed

text \<open>C31: After \<open>vmm_initialize\<close> the address space maps the pages of the first gigabyte, each to itself, and no other
  page; the tables are 515 frames of the pool in a tree, the bitmap has a frame of its own and marks their 512 page
  tables as full. It takes 516 frames and never fails when they are there.\<close>

theorem vmm_initialize_identity:
  assumes "pmm_ok P M K s" and "516 \<le> length (pmm_frames s)" and "\<forall>f \<in> P. unat f < 2 ^ 48"
  shows "\<exists>b s'. vmm_initialize s = (Some b, s') \<and> vmm_ok P M K s' \<and> cur_bitmap s' = b
    \<and> (\<exists>gs. pmm_frames s = pmm_frames s' @ gs \<and> length gs = 516)
    \<and> (\<forall>q. as_map s' q = (if unat q < 262144 then Some (kernel_entry (4096 * q)) else None))
    \<and> (\<forall>i < 4096. pt_is_complete (of_nat i) s' \<longleftrightarrow> i < 512)"
proof -
  have "515 \<le> length (pmm_frames s)" using assms(2) by linarith
  from first_tables [OF assms(1) this] obtain t s1 gs where
    i: "identity_paging 4 ONE_GB_OF_PAGES 0 0 0 s = (True, ONE_GB_OF_PAGES, t, t, s1)" "pmm_ok P M K s1"
      "pmm_frames s = pmm_frames s1 @ gs" "length gs = 515" "pt_tables 3 t (mem s1) \<subseteq> set gs" "pt_tree 3 t (mem s1)"
      "\<forall>v. pt_lookup 3 v t (mem s1) = id_page 262144 (pgno 3 v)" by blast
  have tab: "pt_tables 3 t (mem s1) \<subseteq> P - set (pmm_frames s1)" using i(3,5) assms(1) by (auto simp: pmm_ok_def)
  then have lo: "unat t < 2 ^ 48" using assms(3) pt_tables_self [of t 3 "mem s1"] by blast
  have "length (pmm_frames s) = length (pmm_frames s1) + 515" using i(3,4) by simp
  then obtain fs b where b: "pmm_frames s1 = fs @ [b]" using assms(2) by (cases "pmm_frames s1" rule: rev_cases) (auto simp del: length_pmm_frames)
  from first_space [OF i(2) tab i(6) lo b] obtain s3 where
    s3: "gmem (write_cr3 (push_bit 12 (drop_bit 28 (push_bit 16 t)) OR 0x8) s1) = (b, s3)" "b \<noteq> 0"
      "vmm_ok P M K (s3\<lparr>cur_bitmap := b\<rparr>)" "pmm_frames (s3\<lparr>cur_bitmap := b\<rparr>) = fs"
      "as_map (s3\<lparr>cur_bitmap := b\<rparr>) = (\<lambda>q. if unat q < 2 ^ 27 then pt_lookup 3 (4096 * q) t (mem s1) else None)" by blast
  let ?s = "mark_bits 0 (ONE_GB_OF_PAGES div 512) (incomplete_loop 4096 0 (s3\<lparr>cur_bitmap := b\<rparr>))"
  note m = first_bitmap [OF s3(3)]
  have "vmm_initialize s = (Some b, ?s)"
    using s3(2) by (simp only: vmm_initialize_def Let_def i(1) s3(1) prod.case if_False not_True_eq_False)
  moreover have "as_map ?s q = (if unat q < 262144 then Some (kernel_entry (4096 * q)) else None)" for q
  proof -
    have "unat q < 2 ^ 27 \<Longrightarrow> of_nat (4096 * unat q) = 4096 * q" by simp
    then show ?thesis using m(2) i(7) s3(5) by (auto simp: vm_same_def id_page_def pgno_page)
  qed
  moreover have "pmm_frames s = pmm_frames ?s @ (b # gs)" "cur_bitmap ?s = b"
    using m(2) s3(4) i(3) b by (simp_all add: vm_same_def)
  moreover have "length (b # gs) = 516" using i(4) by simp
  ultimately show ?thesis using m(1,3) by blast
qed

theorem vmm_initialize_identity_witness:
  "\<exists>b s'. vmm_initialize (pmm_state.extend pmm_start (vmm_state.fields 0 0)) = (Some b, s')
    \<and> vmm_ok (pmm_pool 512) (256 * 512 - pmm_R 512) (4 * 512 + 1) s' \<and> cur_bitmap s' = b
    \<and> (\<exists>gs. pmm_frames (pmm_state.extend pmm_start (vmm_state.fields 0 0)) = pmm_frames s' @ gs \<and> length gs = 516)
    \<and> (\<forall>q. as_map s' q = (if unat q < 262144 then Some (kernel_entry (4096 * q)) else None))
    \<and> (\<forall>i < 4096. pt_is_complete (of_nat i) s' \<longleftrightarrow> i < 512)"
proof (rule vmm_initialize_identity)
  let ?s = "pmm_state.extend pmm_start (vmm_state.fields 0 0)"
  have f: "pmm_frames ?s = pmm_frames pmm_start" by (simp add: pmm_frames_def pmm_state.defs vmm_state.defs)
  show "pmm_ok (pmm_pool 512) (256 * 512 - pmm_R 512) (4 * 512 + 1) ?s"
    using pmm_start_ok unfolding pmm_ok_def pmm_layout_def f by (simp add: pmm_state.defs vmm_state.defs)
  show "516 \<le> length (pmm_frames ?s)" unfolding f pmm_start_frames length_map length_upt by (simp add: pmm_R_def pmm_B_def pmm_S_def)
  show "\<forall>f \<in> pmm_pool 512. unat f < 2 ^ 48"
  proof
    fix f assume "f \<in> pmm_pool 512"
    then obtain p where p: "f = of_nat (4096 * p)" "p < 256 * 512" unfolding pmm_pool_def by auto
    have "unat f = 4096 * p" unfolding p(1) by (rule unat_of_nat_small) (use p(2) in simp)
    then show "unat f < 2 ^ 48" using p(2) by simp
  qed
qed

end
