(* ===== verification/Boot.thy ===== *)
theory Boot
  imports Traps Modules
begin

unbundle bit_operations_syntax

section \<open>Kernel/kernel.c: the boot sequence\<close>

text \<open>
  What is left of the drivers' interfaces, the message of the day, and \<open>main\<close> from the boot loader's
  jump to the first process.
\<close>

subsection \<open>What is left of the drivers' interfaces\<close>

definition kbrd_get_scroll_lock :: "'a keyboard_state_scheme \<Rightarrow> u8" where "kbrd_get_scroll_lock s = scroll_lock s"
definition kbrd_get_numlock :: "'a keyboard_state_scheme \<Rightarrow> u8" where "kbrd_get_numlock s = num_lock s"
definition kbrd_get_capslock :: "'a keyboard_state_scheme \<Rightarrow> u8" where "kbrd_get_capslock s = caps_lock s"
definition kbrd_get_ctrl :: "'a keyboard_state_scheme \<Rightarrow> u8" where "kbrd_get_ctrl s = ctrl_hold s"
definition kbrd_get_alt :: "'a keyboard_state_scheme \<Rightarrow> u8" where "kbrd_get_alt s = alt_hold s"
definition kbrd_get_shift :: "'a keyboard_state_scheme \<Rightarrow> u8" where "kbrd_get_shift s = shift_hold s"
definition kbrd_get_last_scan :: "'a keyboard_state_scheme \<Rightarrow> u8" where "kbrd_get_last_scan s = scancode s"

definition fputc :: "u32 \<Rightarrow> u8 \<Rightarrow> 'a console_state_scheme \<Rightarrow> (u32 \<times> 'a console_state_scheme) option" where
  "fputc fd c s = write_bytes fd [c] s"
definition putc :: "u8 \<Rightarrow> 'a console_state_scheme \<Rightarrow> (u32 \<times> 'a console_state_scheme) option" where
  "putc c s = fputc SYSLOG c s"
definition fputs :: "u32 \<Rightarrow> u8 list \<Rightarrow> 'a console_state_scheme \<Rightarrow> (u32 \<times> 'a console_state_scheme) option" where
  "fputs fd c s = do { n \<leftarrow> strlen c; write_bytes fd (take (nat n) c) s }"

definition kfprintf :: "u32 \<Rightarrow> string \<Rightarrow> fmt_arg list \<Rightarrow> 'a console_state_scheme \<Rightarrow> 'a console_state_scheme option" where
  "kfprintf fd fmt ap s = map_option snd (vfprintf (fputsn fd) (bytes fmt @ [0]) ap s)"


subsection \<open>Kernel/motd.c\<close>

definition motd_lines :: "string list" where
  "motd_lines =
    [[CHR 0x0A],
     ''     ++++++/////++++/:` `+++++           .++++++`     /+++++- `++++////// '' @ [CHR 0x0A],
     ''     mmmmmd`    +mmmmmy .mmmmd`          -mmmmmd`     hmmmmm/ .dmmm:      '' @ [CHR 0x0A],
     ''     mmmmmd     +mmmmmy .mmmmd`          -mmmmmd`     hmmmmm/ .dmmm:      '' @ [CHR 0x0A],
     ''     mmmmmd-----ommmdy/ .mmmmd`          -mmmmmd`     hmmmmm/ .dmmm+::::: '' @ [CHR 0x0A],
     ''     mmmmmd`````+mmmmdo .mmmmd`          -mmmmmd`     hmmmmm/ .dmmm/````` '' @ [CHR 0x0A],
     ''     mmmmmd     +mmmmmy .mmmmd`          -mmmmmd`     hmmmmm/ .dmmm:      '' @ [CHR 0x0A],
     ''     mmmmmd-....ommmmds .mmmmd.......... -dmmmmd......hmmmmm/ .dmmm+..... '' @ [CHR 0x0A],
     ''     mdhhhhhhhhhhhhhhyssymmmdhhhhhhhddddyyhhhhhhhhddhhhhhhhhhyhmmmmdhhhhh '' @ [CHR 0x0A],
     ''     -`````        `````./mm:``````+mmmmmm+``````:md````````+dmmmmms````` '' @ [CHR 0x0A],
     ''           .mmmmmms      -mm:      +mmmmmm+      -md         .odmmms      '' @ [CHR 0x0A],
     ''            mmmmmmhssssssymm:      +mmmmmm+      -md     :-    -smms      '' @ [CHR 0x0A],
     ''     o/::            ..-:smm:      +mmmmmm+      -md     +do.    :ys      '' @ [CHR 0x0A],
     ''     ++++++ommmmmms      -mm:      +mmmmmm+      -md     +mmh/`   `-      '' @ [CHR 0x0A],
     ''           .mmmmmms      -mm:      +mmmmmm+      -md     +mmmmh:          '' @ [CHR 0x0A],
     ''     /-..           ..-:ommo:-...            ..-:omd.....ommmmmds-....... '' @ [CHR 0x0A],
     ''     +hdddddddddddddddddmmmmmmddddddddddddddddddmmmmddddddmmmmmmmddddddy- '' @ [CHR 0x0A],
     ''      .odmmmmmmmmmmmmmmmmmmmmmmmmmmmmmmmmmmmmmmmmmmmmmmmmmmmmmmmmmmmmh+`  '' @ [CHR 0x0A],
     ''        .+hdmmmmmmmmmmmmmmmmmmmmmmmmmmmmmmmmmmmmmmmmmmmmmmmmmmmmmmdy/`    '' @ [CHR 0x0A],
     ''          `-ohdmmmmmmmmmmmmmmmmmmmmmmmmmmmmmmmmmmmmmmmmmmmmmmmmdy+.       '' @ [CHR 0x0A],
     ''             `-/shdmmmmmmmmmmmmmmmmmmmmmmmmmmmmmmmmmmmmmmmmdyo:.          '' @ [CHR 0x0A],
     ''                 `.:+syhddmmmmmmmmmmmmmmmmmmmmmmmmmmddhyo/-.`             '' @ [CHR 0x0A],
     ''                       `.-:+osyyyhhhhdddhhhhhyysoo/:-.`   '' @ [CHR 0x09, CHR 0x09, CHR 0x09, CHR 0x09] @ ''   '' @ [CHR 0x0A],
     [CHR 0x0A]]"

primrec puts_all :: "string list \<Rightarrow> 'a console_state_scheme \<Rightarrow> 'a console_state_scheme option" where
  "puts_all [] s = Some s"
| "puts_all (l # ls) s = do { s \<leftarrow> puts l s; puts_all ls s }"

definition motd :: "'a console_state_scheme \<Rightarrow> 'a console_state_scheme option" where
  "motd s = puts_all motd_lines s"

subsection \<open>Kernel/kernel.c: from the boot loader to the first process\<close>

text \<open>
  \<open>e\<close> stands for the \<open>struct module_entry\<close> variables, which are not initialised. \<open>log_line\<close> is a
  call of \<open>printf\<close> with one number.
\<close>

primrec log_lines :: "(string \<times> u64) list \<Rightarrow> 'a console_state_scheme \<Rightarrow> 'a console_state_scheme option" where
  "log_lines [] s = Some s"
| "log_lines (l # ls) s = do { s \<leftarrow> kprintf (fst l @ [CHR 0x0A]) [Arg_num (snd l)] s; log_lines ls s }"

definition print_log :: "image_symbols \<Rightarrow> module_entry \<Rightarrow> 'a console_state_scheme \<Rightarrow> 'a console_state_scheme option" where
  "print_log im e s = do {
     s \<leftarrow> kprintf (''This might be useful:'' @ [CHR 0x0A]) [] s;
     s \<leftarrow> log_lines
       [(''- Detected memory size: %d Mb'', ucast (get_memory_size s)),
        (''- base: %x'', getStackBase im),
        (''- text: %x'', sym_text im),
        (''- rodata: %x'', sym_rodata im),
        (''- data: %x'', sym_data im),
        (''- bss: %x'', sym_bss im),
        (''- endOfKernelBinary: %x'', sym_end_of_binary im),
        (''- endOfKernel: %x'', sym_end_of_kernel im),
        (''- Module zone: %x'', get_module_zone im),
        (''- Safe zone:   %x'', get_safe_zone)] s;
     a \<leftarrow> get_entry_point im (bytes ''shell.bin'' @ [0]) e (mem s);
     s \<leftarrow> kprintf (''Module shell.bin located at %x'' @ [CHR 0x0A]) [Arg_num a] s;
     a \<leftarrow> get_entry_point im (bytes ''template.bin'' @ [0]) e (mem s);
     kprintf (''Module template.bin located at %x'' @ [CHR 0x0A]) [Arg_num a] s
   }"

text \<open>
  The machine stops with a panic (\<open>Inl\<close>) or goes on with the registers of the first process (\<open>Inr\<close>).
  \<open>rdx\<close> is what happens to be in that register when the frame of the idle process and of the shell are made.
\<close>

type_synonym 's boot_result = "'s + 's \<times> u64 list \<times> u64 \<times> u64"

definition kernel_main ::
  "kernel_symbols \<Rightarrow> image_symbols \<Rightarrow> int_symbols \<Rightarrow> u64 \<times> u64 \<Rightarrow> module_entry \<Rightarrow> 'a int_state_scheme
   \<Rightarrow> 'a int_state_scheme boot_result option"
where
  "kernel_main ks im ints rdx e s = do {
     s \<leftarrow> vid_init s;
     s \<leftarrow> print_log im e s;
     let (_, s) = init_mem (ucast get_safe_zone) s;
     let (bitmap, s) = vmm_initialize s;
     case bitmap of
       None \<Rightarrow> map_option Inl (panic ''Failed to start vmm.'' s)
     | Some bitmap \<Rightarrow> do {
         (_, s) \<leftarrow> sched_init ks (fst rdx) bitmap s;
         let s = install_syscall_handler True s;
         s \<leftarrow> install_hw_handler (Some Kbrd_irq) INT_KEYB s;
         s \<leftarrow> install_hw_handler (Some Pit_irq) INT_PIT s;
         let s = install_interrupts ints s;
         s \<leftarrow> kbrd_install (Some Handle_esc) s;
         (r, init) \<leftarrow> ldr_module_load (mem s) (get_module_zone im) (bytes ''shell.bin'' @ [0]) e;
         if r = 0 then map_option Inl (panic ''Failed to load INIT. Halting.'' s)
         else do {
           (r, template) \<leftarrow> ldr_module_load (mem s) (get_module_zone im) (bytes ''template.bin'' @ [0]) e;
           if r = 0 then map_option Inl (panic ''Failed to load Template. Halting.'' s)
           else do {
             let s = s\<lparr>mem := fst (memcpy (mem s) 0x4100000 (mod_start template) (mod_size template))\<rparr>;
             let s = s\<lparr>mem := fst (memcpy (mem s) 0x4000000 (mod_start init) (mod_size init))\<rparr>;
             s \<leftarrow> kprintf (''init size is %d'' @ [CHR 0x0A]) [Arg_num (mod_size init)] s;
             (_, s) \<leftarrow> sched_spawn_module ks (snd rdx) init 0x4000000 s;
             s \<leftarrow> kprintf (''Dropping to userland.'' @ [CHR 0x0A]) [] s;
             (regs, rsp, rip) \<leftarrow> sched_drop_to_user s;
             Some (Inr (s, regs, rsp, rip))
           }
         }
       }
   }"

end
