(* ===== verification/Bmfs.thy ===== *)
theory Bmfs
  imports Phys_Mem
begin

section \<open>The disk file system tool: directory, create, read, write, delete\<close>

text \<open>
  Bootloader/BMFS/bmfs.c, a program of the machine on which the system is built: it makes the disk image and keeps files in it.
  The state is the files of that machine and the variables of the program. The disk has a tag at byte 1024, a directory of 64
  entries of 64 bytes at byte 4096 and then files in blocks of 2 MiB. \<open>None\<close> is undefined behaviour (a null file name, a name that
  runs over the directory, a counter past \<open>2\<^sup>3\<^sup>1 - 1\<close>). Output is a list of calls of \<open>printf\<close>. Streams are not buffered, and reading never
  fails; a write fails when the host says so.
\<close>

subsection \<open>Files of the host\<close>

text \<open>
  A file is its bytes, a stream (\<open>FILE *\<close>) the name of its file, its position and its error indicator. \<open>bm_fwrite_ok\<close> is
  what the next calls that write will answer (after the end of the list they succeed); a write that fails changes
  nothing. \<open>bm_writable\<close> says which files can be opened for writing, \<open>bm_malloc_ok\<close> whether there is memory,
  \<open>bm_stdin\<close> is the line on standard input. \<open>bm_printed\<close> collects the calls of \<open>printf\<close>.
\<close>

datatype harg = HStr "u8 list" | HNum int

record hfile =
  f_name :: "u8 list"
  f_pos :: nat
  f_err :: bool

record bmfs_state =
  bm_files :: "u8 list \<Rightarrow> u8 list option"
  bm_writable :: "u8 list \<Rightarrow> bool"
  bm_fwrite_ok :: "bool list"
  bm_malloc_ok :: bool
  bm_stdin :: "u8 list"
  bm_printed :: "(string \<times> harg list) list"
  bm_disk :: "hfile option"
  disksize :: u32
  bm_diskname :: "u8 list"
  bm_entry :: "u8 list"
  Directory :: "u8 list"
  DiskInfo :: "u8 list"

definition say :: "string \<Rightarrow> harg list \<Rightarrow> bmfs_state \<Rightarrow> bmfs_state" where
  "say fmt args s = s\<lparr>bm_printed := bm_printed s @ [(fmt, args)]\<rparr>"

definition file_of :: "hfile \<Rightarrow> bmfs_state \<Rightarrow> u8 list" where
  "file_of f s = (case bm_files s (f_name f) of None \<Rightarrow> [] | Some c \<Rightarrow> c)"

text \<open>Bytes put at a position; a gap behind the end is filled with zeros.\<close>

definition put_at :: "nat \<Rightarrow> u8 list \<Rightarrow> u8 list \<Rightarrow> u8 list" where
  "put_at p xs c = take p (c @ replicate (p - length c) 0) @ xs @ drop (p + length xs) c"

definition host_fwrite :: "u8 list \<Rightarrow> hfile \<Rightarrow> bmfs_state \<Rightarrow> bool \<times> hfile \<times> bmfs_state" where
  "host_fwrite xs f s =
     (let ok = (bm_fwrite_ok s = [] \<or> hd (bm_fwrite_ok s));
          s = s\<lparr>bm_fwrite_ok := tl (bm_fwrite_ok s)\<rparr>
      in if ok then (True, f\<lparr>f_pos := f_pos f + length xs\<rparr>,
                     s\<lparr>bm_files := (bm_files s)(f_name f := Some (put_at (f_pos f) xs (file_of f s)))\<rparr>)
         else (False, f\<lparr>f_err := True\<rparr>, s))"

definition host_fread :: "nat \<Rightarrow> hfile \<Rightarrow> bmfs_state \<Rightarrow> u8 list \<times> hfile" where
  "host_fread n f s = (let got = take n (drop (f_pos f) (file_of f s)) in (got, f\<lparr>f_pos := f_pos f + length got\<rparr>))"

text \<open>\<open>getc\<close>, with the byte that \<open>putc\<close> makes of its result: the end of the file, -1, becomes 255.\<close>

definition host_getc :: "hfile \<Rightarrow> bmfs_state \<Rightarrow> u8 \<times> hfile" where
  "host_getc f s = (case host_fread 1 f s of ([], f) \<Rightarrow> (255, f) | (c # _, f) \<Rightarrow> (c, f))"

text \<open>\<open>fseek\<close> from the start. Its offset is a \<open>long\<close>; a negative one is refused.\<close>

definition host_fseek :: "int \<Rightarrow> hfile \<Rightarrow> hfile" where
  "host_fseek off f = (if off < 0 then f else f\<lparr>f_pos := nat off\<rparr>)"

text \<open>The stream \<open>disk\<close>; a null pointer is \<open>None\<close>.\<close>

definition disk_fwrite :: "u8 list \<Rightarrow> bmfs_state \<Rightarrow> (bool \<times> bmfs_state) option" where
  "disk_fwrite xs s = do {
     f \<leftarrow> bm_disk s;
     let (ok, f, s) = host_fwrite xs f s;
     Some (ok, s\<lparr>bm_disk := Some f\<rparr>)
   }"

definition disk_fseek :: "int \<Rightarrow> bmfs_state \<Rightarrow> bmfs_state option" where
  "disk_fseek off s = do {
     f \<leftarrow> bm_disk s;
     Some (s\<lparr>bm_disk := Some (host_fseek off f)\<rparr>)
   }"

definition disk_fread :: "nat \<Rightarrow> bmfs_state \<Rightarrow> (u8 list \<times> bmfs_state) option" where
  "disk_fread n s = do {
     f \<leftarrow> bm_disk s;
     let (got, f) = host_fread n f s;
     Some (got, s\<lparr>bm_disk := Some f\<rparr>)
   }"

subsection \<open>Strings of the C library\<close>

text \<open>\<open>strcmp(a, b) == 0\<close> and \<open>strcasecmp(a, b) == 0\<close> on arrays; \<open>None\<close> reads behind their end.\<close>

fun str_same :: "(u8 \<Rightarrow> u8) \<Rightarrow> u8 list \<Rightarrow> u8 list \<Rightarrow> bool option" where
  "str_same f (a # as) (b # bs) =
     (if f a \<noteq> f b then Some False else if a = 0 then Some True else str_same f as bs)"
| "str_same f _ _ = None"

definition host_tolower :: "u8 \<Rightarrow> u8" where
  "host_tolower c = (if 65 \<le> c \<and> c \<le> 90 then c + 32 else c)"

definition host_toupper :: "u8 \<Rightarrow> u8" where
  "host_toupper c = (if 97 \<le> c \<and> c \<le> 122 then c - 32 else c)"

definition host_isdigit :: "u8 \<Rightarrow> bool" where
  "host_isdigit c \<longleftrightarrow> 48 \<le> c \<and> c \<le> 57"

definition str_eq :: "u8 list \<Rightarrow> u8 list \<Rightarrow> bool option" where
  "str_eq a b = str_same id a b"

definition str_caseeq :: "u8 list \<Rightarrow> u8 list \<Rightarrow> bool option" where
  "str_caseeq a b = str_same host_tolower a b"

text \<open>\<open>strcpy\<close> to the offset \<open>p\<close> of an array.\<close>

definition str_copy :: "u8 list \<Rightarrow> nat \<Rightarrow> u8 list \<Rightarrow> u8 list option" where
  "str_copy d p src =
     (if 0 \<in> set src \<and> p + length (cstr src) < length d then Some (put_at p (cstr src @ [0]) d) else None)"

text \<open>\<open>atoi\<close>: blanks, a sign, digits; a value that is no \<open>int\<close> is undefined.\<close>

definition host_atoi :: "u8 list \<Rightarrow> int option" where
  "host_atoi str =
     (let t = dropWhile (\<lambda>c. c = 32 \<or> 9 \<le> c \<and> c \<le> 13) str;
          neg = (t \<noteq> [] \<and> hd t = 45);
          t = (if t \<noteq> [] \<and> (hd t = 43 \<or> hd t = 45) then tl t else t);
          v = foldl (\<lambda>a c. 10 * a + (uint c - 48)) 0 (takeWhile host_isdigit t);
          v = (if neg then - v else v)
      in if - (2 ^ 31) \<le> v \<and> v < 2 ^ 31 then Some v else None)"

subsection \<open>The directory\<close>

text \<open>The fields of \<open>struct BMFSEntry\<close>; the name is at its beginning.\<close>

definition StartingBlock :: "u8 list \<Rightarrow> u64" where
  "StartingBlock e = le_word (take 8 (drop 32 e))"

definition ReservedBlocks :: "u8 list \<Rightarrow> u64" where
  "ReservedBlocks e = le_word (take 8 (drop 40 e))"

definition FileSize :: "u8 list \<Rightarrow> u64" where
  "FileSize e = le_word (take 8 (drop 48 e))"

definition dir_entry :: "u8 list \<Rightarrow> nat \<Rightarrow> u8 list" where
  "dir_entry d i = take 64 (drop (64 * i) d)"

primrec findfile_loop :: "nat \<Rightarrow> u8 list option \<Rightarrow> bmfs_state \<Rightarrow> ((u8 list \<times> nat) option \<times> bmfs_state) option" where
  "findfile_loop 0 filename s = Some (None, s)"
| "findfile_loop (Suc n) filename s =
     (let tint = 64 - Suc n;
          e = dir_entry (Directory s) tint;
          s = s\<lparr>bm_entry := e\<rparr>
      in if e ! 0 = 0 then Some (None, s)
         else if e ! 0 = 1 then findfile_loop n filename s
         else do {
           f \<leftarrow> filename;
           same \<leftarrow> str_eq f e;
           (if same then Some (Some (e, tint), s) else findfile_loop n filename s)
         })"

definition findfile :: "u8 list option \<Rightarrow> bmfs_state \<Rightarrow> ((u8 list \<times> nat) option \<times> bmfs_state) option" where
  "findfile filename s = findfile_loop 64 filename s"

primrec list_loop :: "nat \<Rightarrow> bmfs_state \<Rightarrow> bmfs_state" where
  "list_loop 0 s = s"
| "list_loop (Suc n) s =
     (let e = dir_entry (Directory s) (64 - Suc n);
          s = s\<lparr>bm_entry := e\<rparr>
      in if e ! 0 = 0 then s
         else if e ! 0 = 1 then list_loop n s
         else list_loop n (say (''%-32s %20lld %20lld'' @ [CHR 0x0A])
                [HStr (cstr e), HNum (sint (FileSize e)), HNum (sint (ReservedBlocks e * 2))] s))"

definition bmfs_list :: "bmfs_state \<Rightarrow> bmfs_state" where
  "bmfs_list s =
     (let s = say (''%s'' @ [CHR 0x0A] @ ''Disk Size: %d MiB'' @ [CHR 0x0A]) [HStr (bm_diskname s), HNum (sint (disksize s))] s;
          s = say (''Name                            |            Size (B)|      Reserved (MiB)'' @ [CHR 0x0A]) [] s;
          s = say (''=========================================================================='' @ [CHR 0x0A]) [] s
      in list_loop 64 s)"

definition fs_tag :: "u8 list" where
  "fs_tag = bytes ''BMFS'' @ [0]"

definition bmfs_format :: "bmfs_state \<Rightarrow> bmfs_state option" where
  "bmfs_format s = do {
     let s = s\<lparr>DiskInfo := put_at 0 (take 4 fs_tag) (replicate 512 0), Directory := replicate 4096 0\<rparr>;
     s \<leftarrow> disk_fseek 1024 s;
     (_, s) \<leftarrow> disk_fwrite (DiskInfo s) s;
     s \<leftarrow> disk_fseek 4096 s;
     (_, s) \<leftarrow> disk_fwrite (Directory s) s;
     Some (say (''Format complete.'' @ [CHR 0x0A]) [] s)
   }"

subsection \<open>create\<close>

text \<open>\<open>StartingBlockCmp\<close> takes the low 32 bits of the difference as an \<open>int\<close>.\<close>

definition StartingBlockCmp :: "u8 list \<Rightarrow> u8 list \<Rightarrow> int" where
  "StartingBlockCmp ea eb =
     (if ea ! 0 = 1 then 1 else if eb ! 0 = 1 then - 1
      else sint (ucast (StartingBlock ea - StartingBlock eb) :: u32))"

text \<open>The library's \<open>qsort\<close>, here by insertion.\<close>

primrec qsort_insert :: "('e \<Rightarrow> 'e \<Rightarrow> int) \<Rightarrow> 'e \<Rightarrow> 'e list \<Rightarrow> 'e list" where
  "qsort_insert cmp x [] = [x]"
| "qsort_insert cmp x (y # ys) = (if cmp x y \<le> 0 then x # y # ys else y # qsort_insert cmp x ys)"

primrec host_qsort :: "('e \<Rightarrow> 'e \<Rightarrow> int) \<Rightarrow> 'e list \<Rightarrow> 'e list" where
  "host_qsort cmp [] = []"
| "host_qsort cmp (x # xs) = qsort_insert cmp x (host_qsort cmp xs)"

text \<open>The loop that counts the entries: \<open>num_used_entries\<close> and \<open>first_free_entry\<close>.\<close>

primrec count_entries :: "nat \<Rightarrow> u8 list \<Rightarrow> nat \<Rightarrow> int \<Rightarrow> nat \<times> int" where
  "count_entries 0 d num_used_entries first_free_entry = (num_used_entries, first_free_entry)"
| "count_entries (Suc n) d num_used_entries first_free_entry =
     (let tint = 64 - Suc n;
          c = dir_entry d tint ! 0
      in if c = 0 then (tint, if first_free_entry = - 1 then int tint else first_free_entry)
         else if c = 1 then count_entries n d num_used_entries (if first_free_entry = - 1 then int tint else first_free_entry)
         else count_entries n d num_used_entries first_free_entry)"

text \<open>The loop over the gaps, on the sorted entries: \<open>new_file_start\<close>.\<close>

primrec find_gap :: "u64 \<Rightarrow> u64 \<Rightarrow> u8 list list \<Rightarrow> u64 \<Rightarrow> u64" where
  "find_gap num_blocks blocks_requested [] prev_file_end =
     (if num_blocks - 1 - prev_file_end \<ge> blocks_requested then prev_file_end else 0)"
| "find_gap num_blocks blocks_requested (e # es) prev_file_end =
     (let this_file_start = (if e ! 0 = 1 then num_blocks - 1 else StartingBlock e)
      in if this_file_start - prev_file_end \<ge> blocks_requested then prev_file_end
         else find_gap num_blocks blocks_requested es (StartingBlock e + ReservedBlocks e))"

definition bmfs_create :: "u8 list \<Rightarrow> u64 \<Rightarrow> bmfs_state \<Rightarrow> bmfs_state option" where
  "bmfs_create filename maxsize s = do {
     let maxsize = (if maxsize mod 2 \<noteq> 0 then maxsize + 1 else maxsize);
     (found, s) \<leftarrow> findfile (Some filename) s;
     (if found \<noteq> None then Some (say (''Error: File already exists.'' @ [CHR 0x0A]) [] s)
      else do {
        let blocks_requested = maxsize div 2;
        let num_blocks = (ucast (disksize s div 2) :: u64);
        let s = say (''Creating new file...'' @ [CHR 0x0A]) [] s;
        let d = Directory s;
        let (num_used_entries, first_free_entry) = count_entries 64 d 0 (- 1);
        (if first_free_entry = - 1
         then Some (say (''Cannot create file: no free directory entries.'' @ [CHR 0x0A]) [] s)
         else do {
           let dir_copy = host_qsort StartingBlockCmp (map (dir_entry d) [0..<num_used_entries]);
           let new_file_start = find_gap num_blocks blocks_requested dir_copy 1;
           (if new_file_start = 0
            then Some (say (''Cannot create file of size %lld MiB.'' @ [CHR 0x0A]) [HNum (sint maxsize)] s)
            else do {
              let p = 64 * nat first_free_entry;
              let d = put_at (p + 32) (le_bytes 8 new_file_start) d;
              let d = put_at (p + 40) (le_bytes 8 blocks_requested) d;
              let d = put_at (p + 48) (le_bytes 8 (0 :: u64)) d;
              d \<leftarrow> str_copy d p filename;
              let d = (if first_free_entry = int num_used_entries \<and> num_used_entries + 1 < 64
                       then d[64 * (num_used_entries + 1) := 0] else d);
              let s = s\<lparr>Directory := d\<rparr>;
              s \<leftarrow> disk_fseek 4096 s;
              (_, s) \<leftarrow> disk_fwrite (Directory s) s;
              Some (say (''Complete'' @ [CHR 0x0A]) [] s)
            })
         })
      })
   }"

subsection \<open>read, write, delete\<close>

text \<open>A loop \<open>for (tint = 0; tint < size; tint++)\<close> with an \<open>int\<close> counter: more than \<open>2\<^sup>3\<^sup>1 - 1\<close> rounds overflow it.\<close>

primrec read_bytes :: "nat \<Rightarrow> hfile \<Rightarrow> bmfs_state \<Rightarrow> (hfile \<times> bmfs_state) option" where
  "read_bytes 0 tfile s = Some (tfile, s)"
| "read_bytes (Suc n) tfile s = do {
     f \<leftarrow> bm_disk s;
     let (c, f) = host_getc f s;
     let s = s\<lparr>bm_disk := Some f\<rparr>;
     let (_, tfile, s) = host_fwrite [c] tfile s;
     read_bytes n tfile s
   }"

definition bmfs_read :: "u8 list option \<Rightarrow> bmfs_state \<Rightarrow> bmfs_state option" where
  "bmfs_read filename s = do {
     (found, s) \<leftarrow> findfile filename s;
     (case found of
        None \<Rightarrow> Some (say (''Error: File not found in BMFS.'' @ [CHR 0x0A]) [] s)
      | Some (tempentry, slot) \<Rightarrow> do {
          name \<leftarrow> filename;
          let s = say ''Reading '%s' from BMFS to local file... '' [HStr (cstr name)] s;
          (if 0 \<notin> set tempentry then None
           else if \<not> bm_writable s (cstr tempentry)
           then Some (say (''Error: Could not open local file '%s'' @ [CHR 0x27, CHR 0x0A]) [HStr (cstr tempentry)] s)
           else do {
             let s = s\<lparr>bm_files := (bm_files s)(cstr tempentry := Some [])\<rparr>;
             s \<leftarrow> disk_fseek (sint (StartingBlock tempentry * 2097152)) s;
             (if unat (FileSize tempentry) \<ge> 2 ^ 31 then None else Some ());
             (_, s) \<leftarrow> read_bytes (unat (FileSize tempentry)) \<lparr>f_name = cstr tempentry, f_pos = 0, f_err = False\<rparr> s;
             Some (say (''Complete'' @ [CHR 0x0A]) [] s)
           })
        })
   }"

primrec write_bytes_disk :: "nat \<Rightarrow> hfile \<Rightarrow> bmfs_state \<Rightarrow> (hfile \<times> bmfs_state) option" where
  "write_bytes_disk 0 tfile s = Some (tfile, s)"
| "write_bytes_disk (Suc n) tfile s = do {
     let (c, tfile) = host_getc tfile s;
     (_, s) \<leftarrow> disk_fwrite [c] s;
     write_bytes_disk n tfile s
   }"

definition bmfs_write :: "u8 list option \<Rightarrow> bmfs_state \<Rightarrow> bmfs_state option" where
  "bmfs_write filename s = do {
     (found, s) \<leftarrow> findfile filename s;
     (case found of
        None \<Rightarrow> Some (say (''Error: File not found in BMFS. A file entry must first be created.'' @ [CHR 0x0A]) [] s)
      | Some (tempentry, slot) \<Rightarrow> do {
          name \<leftarrow> filename;
          let s = say ''Writing local file '%s' to BMFS... '' [HStr (cstr name)] s;
          (case bm_files s (cstr name) of
             None \<Rightarrow> Some (say (''Error: Could not open local file '%s'' @ [CHR 0x27, CHR 0x0A]) [HStr (cstr tempentry)] s)
           | Some content \<Rightarrow> do {
               let tempfilesize = (of_nat (length content) :: u64);
               (if ReservedBlocks tempentry * 2097152 < tempfilesize
                then Some (say (''Not enough reserved space in BMFS.'' @ [CHR 0x0A]) [] s)
                else do {
                  s \<leftarrow> disk_fseek (sint (StartingBlock tempentry * 2097152)) s;
                  (if unat tempfilesize \<ge> 2 ^ 31 then None else Some ());
                  (_, s) \<leftarrow> write_bytes_disk (unat tempfilesize) \<lparr>f_name = cstr name, f_pos = 0, f_err = False\<rparr> s;
                  let s = s\<lparr>Directory := put_at (64 * slot + 48) (le_bytes 8 tempfilesize) (Directory s)\<rparr>;
                  s \<leftarrow> disk_fseek 4096 s;
                  (_, s) \<leftarrow> disk_fwrite (Directory s) s;
                  Some (say (''Complete'' @ [CHR 0x0A]) [] s)
                })
             })
        })
   }"

definition bmfs_delete :: "u8 list option \<Rightarrow> bmfs_state \<Rightarrow> bmfs_state option" where
  "bmfs_delete filename s = do {
     (found, s) \<leftarrow> findfile filename s;
     (case found of
        None \<Rightarrow> Some (say (''Error: File not found in BMFS.'' @ [CHR 0x0A]) [] s)
      | Some (tempentry, slot) \<Rightarrow> do {
          name \<leftarrow> filename;
          let s = say ''Deleting file '%s' from BMFS... '' [HStr (cstr name)] s;
          let s = s\<lparr>Directory := (Directory s)[64 * slot := 1]\<rparr>;
          s \<leftarrow> disk_fseek 4096 s;
          (_, s) \<leftarrow> disk_fwrite (Directory s) s;
          Some (say (''Complete'' @ [CHR 0x0A]) [] s)
        })
   }"

end
