(* ===== verification/Bmfs_Dir.thy ===== *)
theory Bmfs_Dir
  imports Bmfs
begin

section \<open>Directories of the disk\<close>

text \<open>
  What a directory holds: the slots with files, their names and blocks, and when it is in order. The lookup by name, the effect of
  writing one entry, directories that agree but for the sizes, and directories for examples.
\<close>

subsection \<open>Bytes put into a buffer\<close>

lemma min_pad: "min a p + (p - a) = (p :: nat)"
  by (simp add: min_def)

lemma length_put_at: "length (put_at p xs c) = max (length c) (p + length xs)"
  by (simp add: put_at_def min_pad max_def)

lemma put_at_inside: "p + length xs \<le> length c \<Longrightarrow> put_at p xs c = take p c @ xs @ drop (p + length xs) c"
  by (simp add: put_at_def)

lemma length_put_at_inside [simp]: "p + length xs \<le> length c \<Longrightarrow> length (put_at p xs c) = length c"
  by (simp add: length_put_at)

lemma nth_put_at:
  "i < max (length c) (p + length xs) \<Longrightarrow>
   put_at p xs c ! i = (if p \<le> i \<and> i < p + length xs then xs ! (i - p) else if i < length c then c ! i else 0)"
  by (auto simp: put_at_def nth_append min_pad)

lemma part_put_at_other:
  assumes "p + length xs \<le> length c" and "q + n \<le> p \<or> p + length xs \<le> q" and "q + n \<le> length c"
  shows "take n (drop q (put_at p xs c)) = take n (drop q c)"
  by (rule nth_equalityI) (use assms in \<open>auto simp: nth_put_at\<close>)

lemma part_put_at_same: "p + length xs \<le> length c \<Longrightarrow> take (length xs) (drop p (put_at p xs c)) = xs"
  by (simp add: put_at_inside)

lemma put_at_put_at: "put_at (p + length xs) ys (put_at p xs c) = put_at p (xs @ ys) c"
  by (rule nth_equalityI) (auto simp: length_put_at nth_put_at nth_append max_def split: if_splits)

lemma put_at_Nil: "p \<le> length c \<Longrightarrow> put_at p [] c = c"
  by (simp add: put_at_def)

subsection \<open>Entries\<close>

lemma length_dir_entry: "length d = 4096 \<Longrightarrow> i < 64 \<Longrightarrow> length (dir_entry d i) = 64"
  by (simp add: dir_entry_def)

lemma nth_dir_entry: "length d = 4096 \<Longrightarrow> i < 64 \<Longrightarrow> k < 64 \<Longrightarrow> dir_entry d i ! k = d ! (64 * i + k)"
  by (simp add: dir_entry_def)

text \<open>The slots of the directory that hold a file.\<close>

definition present :: "u8 list \<Rightarrow> nat \<Rightarrow> bool" where
  "present d i \<longleftrightarrow> i < 64 \<and> (\<forall>j\<le>i. dir_entry d j ! 0 \<noteq> 0) \<and> dir_entry d i ! 0 \<noteq> 1"

definition entry_name :: "u8 list \<Rightarrow> nat \<Rightarrow> u8 list" where
  "entry_name d i = cstr (dir_entry d i)"

definition blocks :: "u8 list \<Rightarrow> nat set" where
  "blocks e = {unat (StartingBlock e) ..< unat (StartingBlock e) + unat (ReservedBlocks e)}"

text \<open>
  A directory in order on a disk of \<open>nb\<close> blocks: names end within their field, the files lie between the first
  and the last block, and no two share a name or a block.
\<close>

definition placed :: "nat \<Rightarrow> u8 list \<Rightarrow> bool" where
  "placed nb e \<longleftrightarrow> 1 \<le> unat (StartingBlock e) \<and> 1 \<le> unat (ReservedBlocks e) \<and> unat (StartingBlock e) + unat (ReservedBlocks e) < nb"

definition dir_ok :: "nat \<Rightarrow> u8 list \<Rightarrow> bool" where
  "dir_ok nb d \<longleftrightarrow> length d = 4096 \<and> (\<forall>i. present d i \<longrightarrow> 0 \<in> set (take 32 (dir_entry d i)) \<and> placed nb (dir_entry d i))
     \<and> (\<forall>i j. present d i \<longrightarrow> present d j \<longrightarrow> i \<noteq> j \<longrightarrow>
          entry_name d i \<noteq> entry_name d j \<and> blocks (dir_entry d i) \<inter> blocks (dir_entry d j) = {})"

lemma str_same_id:
  "0 \<in> set a \<Longrightarrow> 0 \<in> set b \<Longrightarrow> str_same id a b = Some (cstr a = cstr b)"
proof (induction a arbitrary: b)
  case (Cons x a)
  then show ?case by (cases b) (auto simp: cstr_def)
qed simp

lemma str_eq_names: "0 \<in> set a \<Longrightarrow> 0 \<in> set b \<Longrightarrow> str_eq a b = Some (cstr a = cstr b)"
  by (simp add: str_eq_def str_same_id)

subsection \<open>findfile\<close>

text \<open>The slot of a name.\<close>

definition lookup_name :: "u8 list \<Rightarrow> u8 list \<Rightarrow> nat option \<Rightarrow> bool" where
  "lookup_name d name r \<longleftrightarrow> (case r of
     None \<Rightarrow> (\<forall>i. present d i \<longrightarrow> entry_name d i \<noteq> name)
   | Some i \<Rightarrow> present d i \<and> entry_name d i = name \<and> (\<forall>j<i. present d j \<longrightarrow> entry_name d j \<noteq> name))"

lemma findfile_loop_finds:
  assumes ok: "dir_ok nb (Directory s)" and f: "0 \<in> set f"
  shows "n \<le> 64 \<Longrightarrow> \<forall>j < 64 - n. dir_entry (Directory s) j ! 0 \<noteq> 0 \<Longrightarrow>
    \<forall>j < 64 - n. present (Directory s) j \<longrightarrow> entry_name (Directory s) j \<noteq> cstr f \<Longrightarrow>
    \<exists>r e. findfile_loop n (Some f) s = Some (map_option (\<lambda>i. (dir_entry (Directory s) i, i)) r, s\<lparr>bm_entry := e\<rparr>)
      \<and> lookup_name (Directory s) (cstr f) r"
  using ok
proof (induction n arbitrary: s)
  case 0
  have "s = s\<lparr>bm_entry := bm_entry s\<rparr>" by simp
  moreover have "lookup_name (Directory s) (cstr f) None" using 0(3) by (auto simp: lookup_name_def present_def)
  ultimately show ?case by (intro exI [of _ None] exI [of _ "bm_entry s"]) simp
next
  case (Suc n)
  let ?t = "64 - Suc n" and ?d = "Directory s"
  let ?e = "dir_entry ?d ?t"
  let ?s = "s\<lparr>bm_entry := ?e\<rparr>"
  have t: "?t < 64" using Suc.prems(1) by simp
  have sp: "64 - n = Suc ?t" using Suc.prems(1) by simp
  show ?case
  proof (cases "?e ! 0 = 0")
    case True
    have "\<not> present ?d i" if "?t \<le> i" for i using True that by (auto simp: present_def)
    then have "lookup_name ?d (cstr f) None" using Suc.prems(3) by (simp add: lookup_name_def) (metis not_le)
    then show ?thesis using True by (intro exI [of _ None] exI [of _ ?e]) (simp add: Let_def)
  next
    case nz: False
    have before: "\<forall>j < 64 - n. dir_entry (Directory ?s) j ! 0 \<noteq> 0" using Suc.prems(2) nz by (simp add: sp less_Suc_eq)
    have rest: "\<exists>r e. findfile_loop n (Some f) ?s = Some (map_option (\<lambda>i. (dir_entry ?d i, i)) r, s\<lparr>bm_entry := e\<rparr>)
        \<and> lookup_name ?d (cstr f) r" if "present ?d ?t \<longrightarrow> entry_name ?d ?t \<noteq> cstr f"
      using Suc.IH [OF _ before] Suc.prems that by (auto simp: sp less_Suc_eq)
    show ?thesis
    proof (cases "?e ! 0 = 1")
      case True
      then have "\<not> present ?d ?t" by (simp add: present_def)
      then show ?thesis using rest nz True by (simp add: Let_def)
    next
      case False
      then have p: "present ?d ?t" using nz Suc.prems(1,2) by (auto simp: present_def le_less)
      then have "0 \<in> set ?e" using Suc.prems(4) in_set_takeD unfolding dir_ok_def by metis
      then have eq: "str_eq f ?e = Some (cstr f = entry_name ?d ?t)" using f by (simp add: str_eq_names entry_name_def)
      show ?thesis
      proof (cases "entry_name ?d ?t = cstr f")
        case True
        then have "lookup_name ?d (cstr f) (Some ?t)" using p Suc.prems(3) by (simp add: lookup_name_def)
        then show ?thesis using nz False eq True by (intro exI [of _ "Some ?t"] exI [of _ ?e]) (simp add: Let_def)
      next
        case ne: False
        then show ?thesis using rest nz False eq by (simp add: Let_def)
      qed
    qed
  qed
qed

lemma findfile_finds:
  assumes "dir_ok nb (Directory s)" and "0 \<in> set f"
  shows "\<exists>r e. findfile (Some f) s = Some (map_option (\<lambda>i. (dir_entry (Directory s) i, i)) r, s\<lparr>bm_entry := e\<rparr>)
    \<and> lookup_name (Directory s) (cstr f) r"
  using findfile_loop_finds [OF assms, of 64] by (simp add: findfile_def)

subsection \<open>The directory written to the disk\<close>

text \<open>The state after the directory was written to the disk.\<close>

definition flushed :: "hfile \<Rightarrow> bmfs_state \<Rightarrow> bmfs_state" where
  "flushed h s = s\<lparr>bm_files := (bm_files s)(f_name h := Some (put_at 4096 (Directory s) (file_of h s))),
     bm_disk := Some (h\<lparr>f_pos := 4096 + length (Directory s)\<rparr>)\<rparr>"

lemma write_all: "bm_fwrite_ok s = [] \<Longrightarrow> host_fwrite xs f s =
   (True, f\<lparr>f_pos := f_pos f + length xs\<rparr>, s\<lparr>bm_files := (bm_files s)(f_name f := Some (put_at (f_pos f) xs (file_of f s)))\<rparr>)"
  by (simp add: host_fwrite_def file_of_def)

lemma flush_directory:
  assumes "bm_disk s = Some h" and "bm_fwrite_ok s = []"
  shows "do { s \<leftarrow> disk_fseek 4096 s; (_, s) \<leftarrow> disk_fwrite (Directory s) s; Some (say m a s) } = Some (say m a (flushed h s))"
  using assms by (simp add: disk_fseek_def disk_fwrite_def host_fseek_def write_all flushed_def file_of_def)

lemma flushed_simps [simp]:
  "Directory (flushed h s) = Directory s" "disksize (flushed h s) = disksize s" "bm_fwrite_ok (flushed h s) = bm_fwrite_ok s"
  by (simp_all add: flushed_def)

lemma say_simps [simp]:
  "Directory (say m a s) = Directory s" "disksize (say m a s) = disksize s" "bm_files (say m a s) = bm_files s"
  "bm_disk (say m a s) = bm_disk s" "bm_fwrite_ok (say m a s) = bm_fwrite_ok s" "bm_writable (say m a s) = bm_writable s"
  "file_of h (say m a s) = file_of h s"
  by (simp_all add: say_def file_of_def)

text \<open>The disk holds the directory.\<close>

definition on_disk :: "hfile \<Rightarrow> u8 list \<Rightarrow> bmfs_state \<Rightarrow> bool" where
  "on_disk h d s \<longleftrightarrow> take 4096 (drop 4096 (file_of h s)) = d"

lemma written_on_disk:
  assumes "bm_files s' = (bm_files s)(f_name h := Some (put_at 4096 d c))" and "length d = 4096"
  shows "on_disk h d s'"
  unfolding on_disk_def file_of_def assms(1) put_at_def using assms(2) by (simp add: min_def)

lemma part_put_at_before:
  assumes "q + n \<le> p" and "q + n \<le> length c"
  shows "take n (drop q (put_at p xs c)) = take n (drop q c)"
proof (rule nth_equalityI)
  show "length (take n (drop q (put_at p xs c))) = length (take n (drop q c))" using assms by (simp add: length_put_at)
next
  fix i assume "i < length (take n (drop q (put_at p xs c)))"
  then have i: "i < n" by simp
  then have "put_at p xs c ! (q + i) = c ! (q + i)" using assms by (subst nth_put_at) auto
  then show "take n (drop q (put_at p xs c)) ! i = take n (drop q c) ! i" using i assms by (simp add: length_put_at)
qed

subsection \<open>A new entry\<close>

lemma entry_fields:
  assumes "length d = 4096" and "k < 64"
  shows "StartingBlock (dir_entry d k) = le_word (take 8 (drop (64 * k + 32) d))"
    and "ReservedBlocks (dir_entry d k) = le_word (take 8 (drop (64 * k + 40) d))"
    and "FileSize (dir_entry d k) = le_word (take 8 (drop (64 * k + 48) d))"
  by (simp_all add: StartingBlock_def ReservedBlocks_def FileSize_def dir_entry_def drop_take add.commute)

definition put_entry :: "u8 list \<Rightarrow> nat \<Rightarrow> u64 \<Rightarrow> u64 \<Rightarrow> u8 list \<Rightarrow> u8 list" where
  "put_entry d k start res name = put_at (64 * k) (name @ [0])
     (put_at (64 * k + 48) (le_bytes 8 (0 :: u64)) (put_at (64 * k + 40) (le_bytes 8 res) (put_at (64 * k + 32) (le_bytes 8 start) d)))"

lemma put_entry_props:
  assumes d: "length d = 4096" and k: "k < 64" and n: "length name < 32" "0 \<notin> set name"
  shows "length (put_entry d k start res name) = 4096"
    and "j < 64 \<Longrightarrow> j \<noteq> k \<Longrightarrow> dir_entry (put_entry d k start res name) j = dir_entry d j"
    and "StartingBlock (dir_entry (put_entry d k start res name) k) = start"
    and "ReservedBlocks (dir_entry (put_entry d k start res name) k) = res"
    and "FileSize (dir_entry (put_entry d k start res name) k) = 0"
    and "\<exists>r. dir_entry (put_entry d k start res name) k = name @ 0 # r"
proof -
  have b: "64 * k + 64 \<le> 4096" using k by simp
  let ?d1 = "put_at (64 * k + 32) (le_bytes 8 start) d"
  let ?d2 = "put_at (64 * k + 40) (le_bytes 8 res) ?d1"
  let ?d3 = "put_at (64 * k + 48) (le_bytes 8 (0 :: u64)) ?d2"
  have l: "length ?d1 = 4096" "length ?d2 = 4096" "length ?d3 = 4096" using d b by simp_all
  note p = put_entry_def [of d k start res name]
  show len: "length (put_entry d k start res name) = 4096" unfolding p using l b n by simp
  have w: "le_word (le_bytes 8 x) = (x :: u64)" for x by (rule le_word_le_bytes) simp
  have o: "take c (drop q (put_entry d k start res name)) = take c (drop q ?d3)" if "64 * k + 32 \<le> q" "q + c \<le> 4096" for q c
  proof -
    have "64 * k + length (name @ [0]) \<le> length ?d3" "q + c \<le> length ?d3" "64 * k + length (name @ [0]) \<le> q"
      unfolding l using b n that by simp_all
    then show ?thesis unfolding p by (intro part_put_at_other) simp_all
  qed
  show "j < 64 \<Longrightarrow> j \<noteq> k \<Longrightarrow> dir_entry (put_entry d k start res name) j = dir_entry d j"
  proof -
    assume j: "j < 64" "j \<noteq> k"
    then have a: "64 * j + 64 \<le> 64 * k \<or> 64 * k + 64 \<le> 64 * j" "64 * j + 64 \<le> 4096" by auto
    have o: "take 64 (drop (64 * j) (put_at (64 * k + off) xs c)) = take 64 (drop (64 * j) c)"
      if "length c = 4096" "off + length xs \<le> 64" for off xs c
      by (rule part_put_at_other) (use a b that in auto)
    have "length (name @ [0]) \<le> 64" using n by simp
    then show ?thesis unfolding dir_entry_def p using o [OF l(3), of 0 "name @ [0]"] o [OF l(2), of 48] o [OF l(1), of 40] o [OF d, of 32] by simp
  qed
  show "StartingBlock (dir_entry (put_entry d k start res name) k) = start"
    using o [of "64 * k + 32" 8] part_put_at_other [of "64 * k + 48" "le_bytes 8 (0 :: u64)" ?d2 "64 * k + 32" 8]
      part_put_at_other [of "64 * k + 40" "le_bytes 8 res" ?d1 "64 * k + 32" 8] part_put_at_same [of "64 * k + 32" "le_bytes 8 start" d]
    k by (simp add: entry_fields(1) [OF len k] l d w)
  show "ReservedBlocks (dir_entry (put_entry d k start res name) k) = res"
    using o [of "64 * k + 40" 8] part_put_at_other [of "64 * k + 48" "le_bytes 8 (0 :: u64)" ?d2 "64 * k + 40" 8]
      part_put_at_same [of "64 * k + 40" "le_bytes 8 res" ?d1]
    k by (simp add: entry_fields(2) [OF len k] l d w)
  show "FileSize (dir_entry (put_entry d k start res name) k) = 0"
    using o [of "64 * k + 48" 8] part_put_at_same [of "64 * k + 48" "le_bytes 8 (0 :: u64)" ?d2]
    k by (simp add: entry_fields(3) [OF len k] l d w)
  have "put_entry d k start res name = take (64 * k) ?d3 @ (name @ [0]) @ drop (64 * k + length (name @ [0])) ?d3"
    unfolding p by (rule put_at_inside) (use l b n in simp)
  then have "dir_entry (put_entry d k start res name) k
      = name @ 0 # take (64 - Suc (length name)) (drop (64 * k + length (name @ [0])) ?d3)"
    using l b n by (simp add: dir_entry_def take_Cons')
  then show "\<exists>r. dir_entry (put_entry d k start res name) k = name @ 0 # r" by blast
qed

lemma dir_entry_update:
  assumes "length d = 4096" and "i < 64" and "i \<noteq> j"
  shows "dir_entry (d[64 * j := v]) i = dir_entry d i"
proof (rule nth_equalityI)
  show "length (dir_entry (d[64 * j := v]) i) = length (dir_entry d i)" by (simp add: dir_entry_def)
next
  fix t assume "t < length (dir_entry (d[64 * j := v]) i)"
  then have t: "t < 64" using assms by (simp add: length_dir_entry)
  then have "64 * j \<noteq> 64 * i + t" using assms(3) by presburger
  then show "dir_entry (d[64 * j := v]) i ! t = dir_entry d i ! t" using assms t by (simp add: nth_dir_entry)
qed

lemma dir_entry_update_first: "length d = 4096 \<Longrightarrow> j < 64 \<Longrightarrow> dir_entry (d[64 * j := v]) j ! 0 = v"
  by (simp add: nth_dir_entry)

subsection \<open>The end of the directory, and ordered directories\<close>

text \<open>\<open>m\<close> is the place of the end mark, 64 without one.\<close>

definition dir_end :: "u8 list \<Rightarrow> nat \<Rightarrow> bool" where
  "dir_end d m \<longleftrightarrow> m \<le> 64 \<and> (\<forall>j<m. dir_entry d j ! 0 \<noteq> 0) \<and> (m < 64 \<longrightarrow> dir_entry d m ! 0 = 0)"

definition deleted :: "u8 list \<Rightarrow> nat \<Rightarrow> bool" where
  "deleted d i \<longleftrightarrow> dir_entry d i ! 0 = 1"

definition files :: "u8 list \<Rightarrow> u8 list set" where
  "files d = dir_entry d ` {i. present d i}"

lemma present_iff: "dir_end d m \<Longrightarrow> present d i \<longleftrightarrow> i < m \<and> \<not> deleted d i"
  by (auto simp: dir_end_def present_def deleted_def) (metis leI less_irrefl order_less_le_trans)

lemma dir_okD:
  assumes "dir_ok nb d"
  shows "length d = 4096" and "present d i \<Longrightarrow> placed nb (dir_entry d i)"
    and "present d i \<Longrightarrow> present d j \<Longrightarrow> i \<noteq> j \<Longrightarrow> dir_entry d i \<noteq> dir_entry d j"
    and "present d i \<Longrightarrow> present d j \<Longrightarrow> i \<noteq> j \<Longrightarrow> blocks (dir_entry d i) \<inter> blocks (dir_entry d j) = {}"
  using assms unfolding dir_ok_def entry_name_def by metis+

lemma disjoint_files:
  assumes "dir_ok nb d" and "e \<in> files d" and "f \<in> files d" and "e \<noteq> f"
  shows "blocks e \<inter> blocks f = {}"
  using assms dir_okD(4) [OF assms(1)] unfolding files_def by blast

lemma dir_ok_fewer:
  assumes ok: "dir_ok nb d" and "length d' = 4096" and fewer: "\<And>j. present d' j \<Longrightarrow> present d j \<and> dir_entry d' j = dir_entry d j"
  shows "dir_ok nb d'"
  unfolding dir_ok_def
proof (intro conjI allI impI)
  fix i assume "present d' i"
  then show "0 \<in> set (take 32 (dir_entry d' i))" "placed nb (dir_entry d' i)" using ok fewer by (simp_all add: dir_ok_def)
next
  fix i j assume "present d' i" "present d' j" "i \<noteq> j"
  then show "entry_name d' i \<noteq> entry_name d' j" "blocks (dir_entry d' i) \<inter> blocks (dir_entry d' j) = {}"
    using ok fewer by (simp_all add: dir_ok_def entry_name_def)
qed (rule assms(2))

lemma empty_directory:
  shows "dir_ok nb (replicate 4096 0)" and "\<not> present (replicate 4096 0) i"
proof -
  have n: "\<not> present (replicate 4096 0) i" for i by (auto simp: present_def dir_entry_def)
  then show "dir_ok nb (replicate 4096 0)" "\<not> present (replicate 4096 0) i" by (simp_all add: dir_ok_def)
qed

subsection \<open>Directories that agree on all but the sizes\<close>

lemma agree_fields:
  assumes "take 48 e' = take 48 e"
  shows "StartingBlock e' = StartingBlock e" and "ReservedBlocks e' = ReservedBlocks e" and "take 32 e' = take 32 e"
    and "0 \<in> set (take 32 e) \<Longrightarrow> cstr e' = cstr e" and "0 < length e \<Longrightarrow> 0 < length e' \<Longrightarrow> e' ! 0 = e ! 0"
proof -
  have part: "take n (drop k e') = take n (drop k e)" if "k + n \<le> 48" for k n
    using arg_cong [OF assms, of "\<lambda>x. take n (drop k x)"] that by (simp add: drop_take min_absorb1)
  show "StartingBlock e' = StartingBlock e" "ReservedBlocks e' = ReservedBlocks e"
    unfolding StartingBlock_def ReservedBlocks_def using part [of 32 8] part [of 40 8] by simp_all
  show t: "take 32 e' = take 32 e" using part [of 0 32] by simp
  show "0 \<in> set (take 32 e) \<Longrightarrow> cstr e' = cstr e" using cstr_take [of 32 e] cstr_take [of 32 e'] t by simp
  show "0 < length e \<Longrightarrow> 0 < length e' \<Longrightarrow> e' ! 0 = e ! 0" using nth_take [of 0 48 e] nth_take [of 0 48 e'] assms by simp
qed

lemma agree_dir:
  assumes ok: "dir_ok nb d" and l: "length d' = 4096" and a: "\<And>i. i < 64 \<Longrightarrow> take 48 (dir_entry d' i) = take 48 (dir_entry d i)"
  shows "present d' = present d" and "dir_ok nb d'" and "present d i \<Longrightarrow> entry_name d' i = entry_name d i"
proof -
  have d: "length d = 4096" using ok by (simp add: dir_ok_def)
  have "dir_entry d' i ! 0 = dir_entry d i ! 0" if "i < 64" for i
    using agree_fields(5) [OF a [OF that]] length_dir_entry l d that by simp
  then show p: "present d' = present d" by (auto simp: present_def fun_eq_iff)
  have n: "0 \<in> set (take 32 (dir_entry d i))" "i < 64" if "present d i" for i using ok that by (auto simp: dir_ok_def present_def)
  show nm: "present d i \<Longrightarrow> entry_name d' i = entry_name d i" for i
    unfolding entry_name_def using agree_fields(4) [OF a] n by blast
  have b: "blocks (dir_entry d' i) = blocks (dir_entry d i)" "placed nb (dir_entry d' i) = placed nb (dir_entry d i)"
    "take 32 (dir_entry d' i) = take 32 (dir_entry d i)" if "present d i" for i
    unfolding blocks_def placed_def using agree_fields(1-3) [OF a] n(2) [OF that] by simp_all
  show "dir_ok nb d'" using ok l unfolding dir_ok_def p by (simp add: nm b cong: conj_cong)
qed

subsection \<open>An open disk\<close>

text \<open>An open disk of \<open>nb\<close> blocks with an ordered directory.\<close>

definition mounted :: "nat \<Rightarrow> hfile \<Rightarrow> bmfs_state \<Rightarrow> bool" where
  "mounted nb h s \<longleftrightarrow> dir_ok nb (Directory s) \<and> nb < 2 ^ 31 \<and> bm_disk s = Some h \<and> bm_fwrite_ok s = []
     \<and> bm_files s (f_name h) \<noteq> None \<and> nb * 2097152 \<le> length (file_of h s)"

text \<open>The bytes of the blocks of a file.\<close>

definition block_bytes :: "hfile \<Rightarrow> u8 list \<Rightarrow> bmfs_state \<Rightarrow> u8 list" where
  "block_bytes h e s = take (2097152 * unat (ReservedBlocks e)) (drop (2097152 * unat (StartingBlock e)) (file_of h s))"

lemma name_unique:
  assumes "dir_ok nb d" and "present d i" and "lookup_name d (entry_name d i) r"
  shows "r = Some i"
  using assms unfolding lookup_name_def dir_ok_def by (cases r) auto

lemma findfile_present:
  assumes "dir_ok nb (Directory s)" and "present (Directory s) i" and "0 \<in> set f" and "entry_name (Directory s) i = cstr f"
  shows "\<exists>e. findfile (Some f) s = Some (Some (dir_entry (Directory s) i, i), s\<lparr>bm_entry := e\<rparr>)"
  using findfile_finds [OF assms(1,3)] name_unique [OF assms(1,2)] assms(4) by fastforce

subsection \<open>Directories for examples\<close>

definition sample_entry :: "u8 \<Rightarrow> u64 \<Rightarrow> u64 \<Rightarrow> u8 list" where
  "sample_entry c start res = c # replicate 31 0 @ le_bytes 8 start @ le_bytes 8 res @ replicate 16 0"

definition sample_dir :: "u8 list list \<Rightarrow> u8 list" where
  "sample_dir es = concat es @ replicate (64 * (64 - length es)) 0"

lemma sample_entry_simps [simp]:
  "length (sample_entry c start res) = 64" "sample_entry c start res ! 0 = c" "StartingBlock (sample_entry c start res) = start"
  "ReservedBlocks (sample_entry c start res) = res" "0 \<in> set (take 32 (sample_entry c start res))"
  by (simp_all add: sample_entry_def StartingBlock_def ReservedBlocks_def le_word_le_bytes take_Cons' drop_Cons')

lemma cstr_sample_entry [simp]: "c \<noteq> 0 \<Longrightarrow> cstr (sample_entry c start res) = [c]"
  using cstr_append_zero [of "[c]" "replicate 30 0 @ le_bytes 8 start @ le_bytes 8 res @ replicate 16 0"]
  by (simp add: sample_entry_def numeral_eq_Suc)

lemma length_concat_64: "\<forall>e \<in> set es. length e = 64 \<Longrightarrow> length (concat es) = 64 * length es"
  by (induction es) auto

lemma sample_dir_entry:
  assumes "\<forall>e \<in> set es. length e = 64" and "length es \<le> 64"
  shows "length (sample_dir es) = 4096"
    and "i < 64 \<Longrightarrow> dir_entry (sample_dir es) i = (if i < length es then es ! i else replicate 64 0)"
proof -
  show "length (sample_dir es) = 4096" using assms length_concat_64 [OF assms(1)] by (simp add: sample_dir_def)
  show "i < 64 \<Longrightarrow> dir_entry (sample_dir es) i = (if i < length es then es ! i else replicate 64 0)"
  proof (cases "i < length es")
    case True
    have l: "length (concat (take i es)) = 64 * i" using length_concat_64 [of "take i es"] assms(1) True by (auto dest: in_set_takeD)
    have "es = take i es @ es ! i # drop (Suc i) es" using True by (rule id_take_nth_drop)
    then have "concat es = concat (take i es) @ es ! i @ concat (drop (Suc i) es)" by (metis concat.simps(2) concat_append)
    then show ?thesis using True l assms(1) by (simp add: dir_entry_def sample_dir_def)
  next
    case False
    assume "i < 64"
    then show ?thesis using False length_concat_64 [OF assms(1)] by (simp add: dir_entry_def sample_dir_def)
  qed
qed

text \<open>The entries of a directory are in order when its first entries are.\<close>

lemma sample_dir_ok:
  assumes es: "\<forall>e \<in> set es. length e = 64 \<and> e ! 0 \<noteq> 0" and l: "length es \<le> 64"
    and live: "\<forall>e \<in> set es. e ! 0 \<noteq> 1 \<longrightarrow> 0 \<in> set (take 32 e) \<and> placed nb e"
    and two: "sorted_wrt (\<lambda>x y. x ! 0 \<noteq> 1 \<longrightarrow> y ! 0 \<noteq> 1 \<longrightarrow> cstr x \<noteq> cstr y \<and> blocks x \<inter> blocks y = {}) es"
  shows "dir_end (sample_dir es) (length es)" and "present (sample_dir es) i \<longleftrightarrow> i < length es \<and> es ! i ! 0 \<noteq> 1" and "dir_ok nb (sample_dir es)"
proof -
  have e: "dir_entry (sample_dir es) i = es ! i" if "i < length es" for i using sample_dir_entry(2) [of es i] es l that by simp
  show m: "dir_end (sample_dir es) (length es)"
    using sample_dir_entry(2) [of es "length es"] es l e by (auto simp: dir_end_def)
  have p: "present (sample_dir es) i \<longleftrightarrow> i < length es \<and> es ! i ! 0 \<noteq> 1" for i
    using present_iff [OF m, of i] e [of i] by (auto simp: deleted_def)
  then show "present (sample_dir es) i \<longleftrightarrow> i < length es \<and> es ! i ! 0 \<noteq> 1" .
  have "cstr (es ! i) \<noteq> cstr (es ! j) \<and> blocks (es ! i) \<inter> blocks (es ! j) = {}"
    if "i < length es" "j < length es" "es ! i ! 0 \<noteq> 1" "es ! j ! 0 \<noteq> 1" "i \<noteq> j" for i j
    using two that unfolding sorted_wrt_iff_nth_less by (metis Int_commute linorder_neqE_nat)
  then show "dir_ok nb (sample_dir es)"
    using sample_dir_entry(1) [of es] es l live by (simp add: dir_ok_def p e entry_name_def)
qed

lemma sample_deleted: "\<forall>e \<in> set es. length e = 64 \<Longrightarrow> length es \<le> 64 \<Longrightarrow> i < length es \<Longrightarrow>
    deleted (sample_dir es) i \<longleftrightarrow> es ! i ! 0 = 1"
  using sample_dir_entry(2) [of es i] by (simp add: deleted_def)

lemma sample_one:
  assumes "c \<noteq> 0" and "c \<noteq> 1" and "placed nb (sample_entry c start res)"
  shows "dir_end (sample_dir [sample_entry c start res]) 1" and "present (sample_dir [sample_entry c start res]) i \<longleftrightarrow> i = 0"
    and "dir_ok nb (sample_dir [sample_entry c start res])" and "dir_entry (sample_dir [sample_entry c start res]) 0 = sample_entry c start res"
proof -
  let ?es = "[sample_entry c start res]"
  have "\<forall>e \<in> set ?es. length e = 64 \<and> e ! 0 \<noteq> 0" using assms(1) by simp
  note S = sample_dir_ok [OF this, of nb]
  show "dir_end (sample_dir ?es) 1" using S(1) assms(3) by simp
  show "present (sample_dir ?es) i \<longleftrightarrow> i = 0" using S(2) [of i] assms(2,3) by auto
  show "dir_ok nb (sample_dir ?es)" using S(3) assms(3) by simp
  show "dir_entry (sample_dir ?es) 0 = sample_entry c start res" using sample_dir_entry(2) [of ?es 0] by simp
qed

text \<open>A run of the tool on the disk \<open>d\<close> that holds \<open>D\<close>.\<close>

definition sample_state :: "u8 list \<Rightarrow> u32 \<Rightarrow> u8 list \<Rightarrow> (u8 list \<Rightarrow> u8 list option) \<Rightarrow> bmfs_state" where
  "sample_state D mib dir fs = \<lparr>bm_files = fs([100] := Some D), bm_writable = (\<lambda>_. True), bm_fwrite_ok = [], bm_malloc_ok = True,
     bm_stdin = [], bm_printed = [], bm_disk = Some \<lparr>f_name = [100], f_pos = 0, f_err = False\<rparr>, disksize = mib,
     bm_diskname = [100], bm_entry = [], Directory = dir, DiskInfo = []\<rparr>"

lemma sample_state_simps [simp]:
  "Directory (sample_state D mib dir fs) = dir" "disksize (sample_state D mib dir fs) = mib" "bm_fwrite_ok (sample_state D mib dir fs) = []"
  "bm_disk (sample_state D mib dir fs) = Some \<lparr>f_name = [100], f_pos = 0, f_err = False\<rparr>"
  "bm_files (sample_state D mib dir fs) = fs([100] := Some D)" "bm_writable (sample_state D mib dir fs) n"
  "bm_malloc_ok (sample_state D mib dir fs)" "file_of \<lparr>f_name = [100], f_pos = p, f_err = e\<rparr> (sample_state D mib dir fs) = D"
  by (simp_all add: sample_state_def file_of_def)

abbreviation sample_disk :: hfile where "sample_disk \<equiv> \<lparr>f_name = [100], f_pos = 0, f_err = False\<rparr>"

lemma cstr_one: "c \<noteq> 0 \<Longrightarrow> cstr [c, 0] = [c]"
  by (simp add: cstr_def)

end
