(* ===== verification/Bmfs_Create.thy ===== *)
theory Bmfs_Create
  imports Bmfs_Dir "HOL-Library.Multiset"
begin

section \<open>create: first fit\<close>

text \<open>
  The library's \<open>qsort\<close> as an interface (a permutation, sorted when the comparison orders the elements), the search for a gap as the
  least place with room, and what \<open>create\<close> does without deleted entries, with one, and in a full directory.
\<close>

subsection \<open>Counting the entries\<close>

lemma count_entries_found:
  assumes "dir_end d m" and "f \<noteq> - 1"
  shows "n \<le> 64 \<Longrightarrow> 64 - n \<le> m \<Longrightarrow> count_entries n d num f = (if m < 64 then m else num, f)"
proof (induction n)
  case (Suc n)
  show ?case
  proof (cases "64 - Suc n = m")
    case True
    then have "m < 64" using Suc.prems(1) by simp
    then show ?thesis using assms True by (simp add: dir_end_def Let_def)
  next
    case False
    then have "64 - Suc n < m" "64 - n \<le> m" using Suc.prems by simp_all
    then show ?thesis using Suc assms by (simp add: dir_end_def Let_def)
  qed
qed (use assms in \<open>simp add: dir_end_def\<close>)

lemma count_entries_first:
  assumes "dir_end d m"
  shows "n \<le> 64 \<Longrightarrow> 64 - n \<le> m \<Longrightarrow> \<forall>j < 64 - n. \<not> deleted d j \<Longrightarrow>
    (\<exists>k<m. deleted d k \<and> (\<forall>j<k. \<not> deleted d j) \<and> count_entries n d num (- 1) = (if m < 64 then m else num, int k))
    \<or> (\<forall>j<m. \<not> deleted d j) \<and> count_entries n d num (- 1) = (if m < 64 then (m, int m) else (num, - 1))"
proof (induction n)
  case (Suc n)
  let ?t = "64 - Suc n"
  show ?case
  proof (cases "?t = m")
    case True
    then have "m < 64" using Suc.prems(1) by simp
    then show ?thesis using assms True Suc.prems(3) by (simp add: dir_end_def Let_def)
  next
    case False
    then have t: "?t < m" "64 - n \<le> m" "64 - n = Suc ?t" using Suc.prems by simp_all
    have nz: "dir_entry d ?t ! 0 \<noteq> 0" using assms t(1) by (simp add: dir_end_def)
    show ?thesis
    proof (cases "deleted d ?t")
      case True
      have "count_entries n d num (int ?t) = (if m < 64 then m else num, int ?t)"
        by (rule count_entries_found [OF assms]) (use Suc.prems(1) t in simp_all)
      then have "count_entries (Suc n) d num (- 1) = (if m < 64 then m else num, int ?t)"
        using True nz by (simp add: Let_def deleted_def)
      then show ?thesis using True t(1) Suc.prems(3) by blast
    next
      case nd: False
      have "\<forall>j < 64 - n. \<not> deleted d j" using Suc.prems(3) nd by (simp add: t(3) less_Suc_eq)
      moreover have "count_entries (Suc n) d num (- 1) = count_entries n d num (- 1)"
        using nd nz by (simp add: Let_def deleted_def)
      ultimately show ?thesis using Suc.IH t(2) Suc.prems(1) by simp
    qed
  qed
qed (use assms in \<open>auto simp: dir_end_def\<close>)

subsection \<open>The library's sort\<close>

text \<open>What C promises of \<open>qsort\<close> when the comparison orders the elements.\<close>

definition orders :: "('e \<Rightarrow> 'e \<Rightarrow> int) \<Rightarrow> 'e set \<Rightarrow> bool" where
  "orders cmp A \<longleftrightarrow> (\<forall>x \<in> A. \<forall>y \<in> A. x \<noteq> y \<longrightarrow> cmp x y \<le> 0 \<or> cmp y x \<le> 0)
     \<and> (\<forall>x \<in> A. \<forall>y \<in> A. \<forall>z \<in> A. x \<noteq> y \<longrightarrow> y \<noteq> z \<longrightarrow> x \<noteq> z \<longrightarrow> cmp x y \<le> 0 \<longrightarrow> cmp y z \<le> 0 \<longrightarrow> cmp x z \<le> 0)"

locale library_sort =
  fixes sort :: "('e \<Rightarrow> 'e \<Rightarrow> int) \<Rightarrow> 'e list \<Rightarrow> 'e list"
  assumes mset_sort: "mset (sort cmp xs) = mset xs"
    and sorted_sort: "distinct xs \<Longrightarrow> orders cmp (set xs) \<Longrightarrow> sorted_wrt (\<lambda>x y. cmp x y \<le> 0) (sort cmp xs)"
begin

lemma set_sort: "set (sort cmp xs) = set xs"
  using mset_sort by (metis set_mset_mset)

lemma distinct_sort: "distinct xs \<Longrightarrow> distinct (sort cmp xs)"
  using mset_sort by (metis mset_eq_imp_distinct_iff)

text \<open>Elements that the comparison puts behind all others stand at the end, the others by their key.\<close>

lemma sorted_key:
  assumes d: "distinct xs"
    and cmp: "\<And>x y. x \<in> set xs \<Longrightarrow> y \<in> set xs \<Longrightarrow> x \<noteq> y \<Longrightarrow> cmp x y \<le> 0 \<longleftrightarrow> live x \<and> (live y \<longrightarrow> key x \<le> (key y :: nat))"
    and one: "\<And>x y. x \<in> set xs \<Longrightarrow> y \<in> set xs \<Longrightarrow> \<not> live x \<Longrightarrow> \<not> live y \<Longrightarrow> x = y"
  shows "sorted_wrt (\<lambda>x y. live x \<and> (live y \<longrightarrow> key x \<le> key y)) (sort cmp xs)"
proof -
  have "orders cmp (set xs)" unfolding orders_def
  proof (intro conjI ballI impI)
    fix x y assume "x \<in> set xs" "y \<in> set xs" "x \<noteq> y"
    then show "cmp x y \<le> 0 \<or> cmp y x \<le> 0" using cmp [of x y] cmp [of y x] one [of x y] by auto
  next
    fix x y z assume "x \<in> set xs" "y \<in> set xs" "z \<in> set xs" "x \<noteq> y" "y \<noteq> z" "x \<noteq> z" "cmp x y \<le> 0" "cmp y z \<le> 0"
    then show "cmp x z \<le> 0" using cmp [of x y] cmp [of y z] cmp [of x z] by auto
  qed
  from sorted_sort [OF d this] have "sorted_wrt (\<lambda>x y. cmp x y \<le> 0) (sort cmp xs)" .
  then have "sorted_wrt (\<lambda>x y. x \<noteq> y \<and> cmp x y \<le> 0) (sort cmp xs)"
    using distinct_sort [OF d, of cmp] by (auto simp: sorted_wrt_iff_nth_less nth_eq_iff_index_eq)
  then show ?thesis by (rule sorted_wrt_mono_rel [rotated]) (use cmp set_sort in auto)
qed

end

lemma qsort_insert_mset: "mset (qsort_insert cmp x xs) = add_mset x (mset xs)"
  by (induction xs) auto

lemma qsort_mset: "mset (host_qsort cmp xs) = mset xs"
  by (induction xs) (simp_all add: qsort_insert_mset)

lemma orders_sub: "orders cmp A \<Longrightarrow> B \<subseteq> A \<Longrightarrow> orders cmp B"
  unfolding orders_def by (meson subsetD)

lemma qsort_insert_sorted:
  assumes "orders cmp (insert x (set xs))" and "x \<notin> set xs" and "distinct xs" and "sorted_wrt (\<lambda>x y. cmp x y \<le> 0) xs"
  shows "sorted_wrt (\<lambda>x y. cmp x y \<le> (0 :: int)) (qsort_insert cmp x xs)"
  using assms
proof (induction xs)
  case (Cons y xs)
  have s: "set (qsort_insert cmp x xs) = insert x (set xs)" using qsort_insert_mset [of cmp x xs] by (metis set_mset_add_mset_insert set_mset_mset)
  have sub: "orders cmp (insert x (set xs))" by (rule orders_sub [OF Cons.prems(1)]) auto
  show ?case
  proof (cases "cmp x y \<le> 0")
    case True
    have "cmp x z \<le> 0" if z: "z \<in> set xs" for z
    proof -
      have "cmp y z \<le> 0" "y \<noteq> z" "x \<noteq> z" "x \<noteq> y" using Cons.prems(2-4) z by auto
      then show ?thesis using Cons.prems(1) True z unfolding orders_def by (meson insertI1 insertI2 list.set_intros)
    qed
    then show ?thesis using True Cons.prems(4) by simp
  next
    case False
    then have "cmp y x \<le> 0" using Cons.prems(1,2) by (auto simp: orders_def)
    then show ?thesis using False Cons.IH [OF sub] Cons.prems(2-4) s by auto
  qed
qed simp

lemma qsort_sorted:
  assumes "distinct xs" and "orders cmp (set xs)"
  shows "sorted_wrt (\<lambda>x y. cmp x y \<le> (0 :: int)) (host_qsort cmp xs)"
  using assms
proof (induction xs)
  case (Cons x xs)
  have s: "set (host_qsort cmp xs) = set xs" "distinct (host_qsort cmp xs)"
    using Cons.prems(1) qsort_mset [of cmp xs] mset_eq_setD mset_eq_imp_distinct_iff by (metis, metis distinct.simps(2))
  have "orders cmp (set xs)" by (rule orders_sub [OF Cons.prems(2)]) auto
  then have "sorted_wrt (\<lambda>x y. cmp x y \<le> 0) (host_qsort cmp xs)" using Cons by simp
  then show ?case using Cons.prems s unfolding host_qsort.simps by (intro qsort_insert_sorted) simp_all
qed simp

interpretation qs: library_sort host_qsort
  by unfold_locales (simp_all add: qsort_mset qsort_sorted)

subsection \<open>The gaps\<close>

text \<open>Room for \<open>r\<close> blocks at \<open>b\<close> between files \<open>es\<close>.\<close>

definition room :: "nat \<Rightarrow> nat \<Rightarrow> u8 list set \<Rightarrow> nat \<Rightarrow> bool" where
  "room nb r es b \<longleftrightarrow> 1 \<le> b \<and> b + r < nb \<and> (\<forall>e \<in> es. blocks e \<inter> {b ..< b + r} = {})"

text \<open>Files in the order of their blocks, from \<open>p\<close> on.\<close>

fun chain :: "nat \<Rightarrow> nat \<Rightarrow> u8 list list \<Rightarrow> bool" where
  "chain nb p [] \<longleftrightarrow> p < nb"
| "chain nb p (e # es) \<longleftrightarrow> e ! 0 \<noteq> 1 \<and> placed nb e \<and> p \<le> unat (StartingBlock e)
     \<and> chain nb (unat (StartingBlock e) + unat (ReservedBlocks e)) es"

lemma chain_start: "chain nb p es \<Longrightarrow> e \<in> set es \<Longrightarrow> p \<le> unat (StartingBlock e)"
proof (induction es arbitrary: p)
  case (Cons a es)
  then have "unat (StartingBlock a) + unat (ReservedBlocks a) \<le> unat (StartingBlock e)" if "e \<in> set es" using that by simp
  then show ?case using Cons.prems by auto
qed simp

lemma chain_less: "chain nb p es \<Longrightarrow> p < nb"
  by (induction es arbitrary: p) (auto simp: placed_def)

lemma unat_sub_le: "unat p \<le> unat q \<Longrightarrow> unat (q - p) = unat q - unat (p :: u64)"
  by (simp add: unat_sub word_le_nat_alt)

lemma find_gap_first:
  assumes "chain nb (unat p) es" and nb: "unat N = nb" and r: "1 \<le> unat R" and p: "1 \<le> unat p"
  shows "if \<exists>b \<ge> unat p. room nb (unat R) (set es) b
    then unat p \<le> unat (find_gap N R es p) \<and> room nb (unat R) (set es) (unat (find_gap N R es p))
      \<and> (\<forall>b. unat p \<le> b \<longrightarrow> room nb (unat R) (set es) b \<longrightarrow> unat (find_gap N R es p) \<le> b)
    else find_gap N R es p = 0"
  using assms(1) p
proof (induction es arbitrary: p)
  case Nil
  have lt: "unat p < nb" using Nil.prems(1) by simp
  have N1: "unat (N - 1) = nb - 1" using lt nb unat_sub_le [of 1 N] by simp
  have "unat (N - 1 - p) = nb - 1 - unat p" using lt N1 by (subst unat_sub_le) simp_all
  then have c: "R \<le> N - 1 - p \<longleftrightarrow> unat p + unat R < nb" using lt by (auto simp: word_le_nat_alt)
  show ?case
  proof (cases "unat p + unat R < nb")
    case True
    then show ?thesis using c Nil.prems(2) by (auto simp: room_def)
  next
    case False
    then show ?thesis using c by (auto simp: room_def)
  qed
next
  case (Cons e es)
  let ?q = "StartingBlock e + ReservedBlocks e"
  have e: "e ! 0 \<noteq> 1" "placed nb e" "unat p \<le> unat (StartingBlock e)" "chain nb (unat (StartingBlock e) + unat (ReservedBlocks e)) es"
    using Cons.prems(1) by simp_all
  have q: "unat ?q = unat (StartingBlock e) + unat (ReservedBlocks e)"
    using e(2) nb unat_lt64 [of N] by (intro unat_add_lem [THEN iffD1]) (simp add: placed_def)
  have ch: "chain nb (unat ?q) es" using e(4) q by simp
  have c: "R \<le> StartingBlock e - p \<longleftrightarrow> unat p + unat R \<le> unat (StartingBlock e)"
    using unat_sub_le [OF e(3)] e(3) by (auto simp: word_le_nat_alt)
  have later: "unat ?q \<le> unat (StartingBlock f)" if "f \<in> set es" for f by (rule chain_start [OF ch that])
  show ?case
  proof (cases "unat p + unat R \<le> unat (StartingBlock e)")
    case True
    have "blocks f \<inter> {unat p ..< unat p + unat R} = {}" if "f \<in> set (e # es)" for f
    proof -
      have "unat p + unat R \<le> unat (StartingBlock f)"
      proof (cases "f = e")
        case False
        then have "unat ?q \<le> unat (StartingBlock f)" using later that by simp
        then show ?thesis using True q by linarith
      qed (use True in simp)
      then show ?thesis by (auto simp: blocks_def)
    qed
    then have "room nb (unat R) (set (e # es)) (unat p)"
      using True e(2) Cons.prems(2) by (simp add: room_def placed_def)
    then show ?thesis using True c e(1) by auto
  next
    case False
    have step: "room nb (unat R) (set (e # es)) b \<longleftrightarrow> room nb (unat R) (set es) b" if "unat ?q \<le> b" for b
      using that q by (auto simp: room_def blocks_def)
    have after: "unat ?q \<le> b" if b: "unat p \<le> b" "room nb (unat R) (set (e # es)) b" for b
    proof (rule ccontr)
      assume n: "\<not> unat ?q \<le> b"
      let ?x = "max b (unat (StartingBlock e))"
      have "?x \<in> blocks e" using n e(2) by (auto simp: blocks_def q placed_def max_def)
      moreover have "?x \<in> {b ..< b + unat R}" using b(1) False r by (auto simp: max_def)
      ultimately show False using b(2) by (auto simp: room_def)
    qed
    have "1 \<le> unat ?q" using e(2) q by (simp add: placed_def)
    note IH = Cons.IH [OF ch this]
    have "unat p \<le> unat ?q" using e(3) q by simp
    then have ex: "(\<exists>b \<ge> unat p. room nb (unat R) (set (e # es)) b) \<longleftrightarrow> (\<exists>b \<ge> unat ?q. room nb (unat R) (set es) b)"
      using after step by (meson order_trans)
    have fg: "find_gap N R (e # es) p = find_gap N R es ?q" using False c e(1) by (simp add: Let_def)
    show ?thesis
      unfolding fg ex using IH step after \<open>unat p \<le> unat ?q\<close> by (auto split: if_splits)
  qed
qed

subsection \<open>The sorted copy\<close>

lemma sint_ucast_small: "- (2 ^ 31) \<le> k \<Longrightarrow> k < 2 ^ 31 \<Longrightarrow> sint (ucast (word_of_int k :: u64) :: u32) = k"
  unfolding ucast_word_of_int by (rule sint_word_of_int_small)

lemma diff_small: "(x :: nat) < 2 ^ 31 \<Longrightarrow> y < 2 ^ 31 \<Longrightarrow> - (2 ^ 31) \<le> int x - int y \<and> int x - int y < 2 ^ 31"
  by simp

lemma StartingBlockCmp_le:
  assumes "unat (StartingBlock a) < 2 ^ 31" and "unat (StartingBlock b) < 2 ^ 31"
  shows "StartingBlockCmp a b \<le> 0 \<longleftrightarrow> a ! 0 \<noteq> 1 \<and> (b ! 0 \<noteq> 1 \<longrightarrow> unat (StartingBlock a) \<le> unat (StartingBlock b))"
proof -
  let ?k = "int (unat (StartingBlock a)) - int (unat (StartingBlock b))"
  have k: "- (2 ^ 31) \<le> ?k \<and> ?k < 2 ^ 31" by (rule diff_small [OF assms])
  have "StartingBlock a - StartingBlock b = (word_of_int ?k :: u64)" by simp
  then have "sint (ucast (StartingBlock a - StartingBlock b) :: u32) = ?k"
    using k by (metis sint_ucast_small)
  then show ?thesis unfolding StartingBlockCmp_def by (auto simp: word_le_nat_alt [symmetric] word_le_def [symmetric])
qed

lemma chain_sorted:
  assumes "sorted_wrt (\<lambda>x y. unat (StartingBlock x) \<le> unat (StartingBlock y)) es" and "distinct es"
    and "\<forall>e \<in> set es. e ! 0 \<noteq> 1 \<and> placed nb e" and "\<forall>e \<in> set es. \<forall>f \<in> set es. e \<noteq> f \<longrightarrow> blocks e \<inter> blocks f = {}"
    and "\<forall>e \<in> set es. p \<le> unat (StartingBlock e)" and "p < nb"
  shows "chain nb p es"
  using assms
proof (induction es arbitrary: p)
  case (Cons e es)
  have after: "unat (StartingBlock e) + unat (ReservedBlocks e) \<le> unat (StartingBlock f)" if f: "f \<in> set es" for f
  proof (rule ccontr)
    assume n: "\<not> ?thesis"
    have "unat (StartingBlock e) \<le> unat (StartingBlock f)" "1 \<le> unat (ReservedBlocks f)"
      using Cons.prems(1,3) f by (auto simp: placed_def)
    then have "unat (StartingBlock f) \<in> blocks e \<inter> blocks f" using n by (simp add: blocks_def)
    moreover have "e \<noteq> f" using Cons.prems(2) f by auto
    ultimately show False using Cons.prems(4) f by auto
  qed
  have "placed nb e" using Cons.prems(3) by simp
  then have "chain nb (unat (StartingBlock e) + unat (ReservedBlocks e)) es"
    using Cons.prems after by (intro Cons.IH) (simp_all add: placed_def)
  then show ?case using Cons.prems(3,5) by simp
qed simp

text \<open>The directory with the new entry.\<close>

definition new_dir :: "u8 list \<Rightarrow> nat \<Rightarrow> nat \<Rightarrow> u64 \<Rightarrow> u64 \<Rightarrow> u8 list \<Rightarrow> u8 list" where
  "new_dir d n k start res name =
     (let d = put_entry d k start res name in if k = n \<and> n + 1 < 64 then d[64 * (n + 1) := 0] else d)"

definition halved :: "u64 \<Rightarrow> u64" where
  "halved maxsize = (if maxsize mod 2 \<noteq> 0 then maxsize + 1 else maxsize) div 2"

lemma str_copy_entry:
  assumes "length d = 4096" and "k < 64" and "0 \<in> set f" and "length (cstr f) < 32"
  shows "str_copy (put_at (64 * k + 48) (le_bytes 8 (0 :: u64)) (put_at (64 * k + 40) (le_bytes 8 res) (put_at (64 * k + 32) (le_bytes 8 start) d)))
    (64 * k) f = Some (put_entry d k start res (cstr f))"
  using assms by (simp add: str_copy_def put_entry_def)

lemma create_eval:
  assumes "findfile (Some f) s = Some (None, s\<lparr>bm_entry := e\<rparr>)" and "length (Directory s) = 4096"
    and "count_entries 64 (Directory s) 0 (- 1) = (n, int k)" and "k < 64" and "0 \<in> set f" and "length (cstr f) < 32"
    and "find_gap (ucast (disksize s div 2)) (halved maxsize) (host_qsort StartingBlockCmp (map (dir_entry (Directory s)) [0..<n])) 1 = b"
    and "b \<noteq> 0" and "bm_disk s = Some h" and "bm_fwrite_ok s = []"
  shows "\<exists>s'. bmfs_create f maxsize s = Some s' \<and> Directory s' = new_dir (Directory s) n k b (halved maxsize) (cstr f)
    \<and> bm_files s' = (bm_files s)(f_name h := Some (put_at 4096 (Directory s') (file_of h s)))
    \<and> bm_fwrite_ok s' = [] \<and> bm_writable s' = bm_writable s"
proof -
  let ?R = "halved maxsize"
  let ?s = "say (''Creating new file...'' @ [CHR 0x0A]) [] (s\<lparr>bm_entry := e\<rparr>)"
  let ?d = "new_dir (Directory s) n k b ?R (cstr f)"
  have "bmfs_create f maxsize s = do {
      let s = ?s\<lparr>Directory := ?d\<rparr>;
      s \<leftarrow> disk_fseek 4096 s;
      (_, s) \<leftarrow> disk_fwrite (Directory s) s;
      Some (say (''Complete'' @ [CHR 0x0A]) [] s) }"
    unfolding bmfs_create_def Let_def assms(1)
    using assms(2-8) str_copy_entry [OF assms(2,4,5,6), of ?R b]
    by (simp add: halved_def new_dir_def Let_def)
  also have "\<dots> = Some (say (''Complete'' @ [CHR 0x0A]) [] (flushed h (?s\<lparr>Directory := ?d\<rparr>)))"
    unfolding Let_def by (rule flush_directory) (use assms(9,10) in simp_all)
  finally show ?thesis using assms(10) by (auto simp: flushed_def file_of_def)
qed

lemma create_no_room:
  assumes "findfile (Some f) s = Some (None, s\<lparr>bm_entry := e\<rparr>)"
    and "count_entries 64 (Directory s) 0 (- 1) = (n, int k)"
    and "find_gap (ucast (disksize s div 2)) (halved maxsize) (host_qsort StartingBlockCmp (map (dir_entry (Directory s)) [0..<n])) 1 = 0"
  shows "\<exists>s'. bmfs_create f maxsize s = Some s' \<and> Directory s' = Directory s \<and> bm_files s' = bm_files s"
  unfolding bmfs_create_def Let_def assms(1) using assms(2,3) by (simp add: halved_def Let_def)

lemma create_no_slot:
  assumes "findfile (Some f) s = Some (None, s\<lparr>bm_entry := e\<rparr>)" and "count_entries 64 (Directory s) 0 (- 1) = (n, - 1)"
  shows "\<exists>s'. bmfs_create f maxsize s = Some s' \<and> Directory s' = Directory s \<and> bm_files s' = bm_files s"
  unfolding bmfs_create_def Let_def assms(1) using assms(2) by (simp add: Let_def)

lemma placed_small: "placed nb e \<Longrightarrow> nb < 2 ^ 31 \<Longrightarrow> unat (StartingBlock e) < 2 ^ 31"
  by (simp add: placed_def)

text \<open>The sorted copy without deleted entries, and with one.\<close>

lemma sorted_entries:
  assumes ok: "dir_ok nb d" and m: "dir_end d m" and nb: "nb < 2 ^ 31"
    and one: "\<And>i j. i < m \<Longrightarrow> j < m \<Longrightarrow> deleted d i \<Longrightarrow> deleted d j \<Longrightarrow> i = j"
    and del: "\<And>i. i < m \<Longrightarrow> deleted d i \<Longrightarrow> unat (StartingBlock (dir_entry d i)) < 2 ^ 31"
  shows "sorted_wrt (\<lambda>x y. x ! 0 \<noteq> 1 \<and> (y ! 0 \<noteq> 1 \<longrightarrow> unat (StartingBlock x) \<le> unat (StartingBlock y)))
      (host_qsort StartingBlockCmp (map (dir_entry d) [0..<m]))"
    and "distinct (host_qsort StartingBlockCmp (map (dir_entry d) [0..<m]))"
    and "set (host_qsort StartingBlockCmp (map (dir_entry d) [0..<m])) = dir_entry d ` {..<m}"
proof -
  have "inj_on (dir_entry d) {0..<m}"
  proof (rule inj_onI)
    fix i j assume ij: "i \<in> {0..<m}" "j \<in> {0..<m}" and e: "dir_entry d i = dir_entry d j"
    show "i = j"
    proof (cases "deleted d i")
      case True
      then have "deleted d j" using e by (simp add: deleted_def)
      then show ?thesis using one True ij by simp
    next
      case False
      then have "\<not> deleted d j" using e by (simp add: deleted_def)
      then show ?thesis using False ij e dir_okD(3) [OF ok] present_iff [OF m] by (metis atLeastLessThan_iff)
    qed
  qed
  then have dist: "distinct (map (dir_entry d) [0..<m])" by (simp add: distinct_map)
  have small: "unat (StartingBlock (dir_entry d i)) < 2 ^ 31" if "i < m" for i
    using del that placed_small [OF dir_okD(2) [OF ok] nb] present_iff [OF m] by blast
  show "sorted_wrt (\<lambda>x y. x ! 0 \<noteq> 1 \<and> (y ! 0 \<noteq> 1 \<longrightarrow> unat (StartingBlock x) \<le> unat (StartingBlock y)))
      (host_qsort StartingBlockCmp (map (dir_entry d) [0..<m]))"
  proof (rule qs.sorted_key [OF dist])
    fix x y assume "x \<in> set (map (dir_entry d) [0..<m])" "y \<in> set (map (dir_entry d) [0..<m])"
    then show "StartingBlockCmp x y \<le> 0 \<longleftrightarrow> x ! 0 \<noteq> 1 \<and> (y ! 0 \<noteq> 1 \<longrightarrow> unat (StartingBlock x) \<le> unat (StartingBlock y))"
      using small by (intro StartingBlockCmp_le) auto
  next
    fix x y assume "x \<in> set (map (dir_entry d) [0..<m])" "y \<in> set (map (dir_entry d) [0..<m])" "\<not> x ! 0 \<noteq> 1" "\<not> y ! 0 \<noteq> 1"
    then obtain i j where "i < m" "j < m" "x = dir_entry d i" "y = dir_entry d j" "deleted d i" "deleted d j"
      by (auto simp: deleted_def)
    then show "x = y" using one [of i j] by simp
  qed
  show "distinct (host_qsort StartingBlockCmp (map (dir_entry d) [0..<m]))" by (rule qs.distinct_sort [OF dist])
  show "set (host_qsort StartingBlockCmp (map (dir_entry d) [0..<m])) = dir_entry d ` {..<m}"
    unfolding qs.set_sort by auto
qed

lemma chain_files:
  assumes ok: "dir_ok nb d" and "set es = files d" and "distinct es" and "1 < nb"
    and "sorted_wrt (\<lambda>x y. unat (StartingBlock x) \<le> unat (StartingBlock y)) es"
  shows "chain nb 1 es"
proof (rule chain_sorted [OF assms(5,3)])
  have live: "e ! 0 \<noteq> 1 \<and> placed nb e" if "e \<in> files d" for e
    using that dir_okD(2) [OF ok] by (auto simp: files_def present_def)
  then show "\<forall>e \<in> set es. e ! 0 \<noteq> 1 \<and> placed nb e" using assms(2) by blast
  then show "\<forall>e \<in> set es. 1 \<le> unat (StartingBlock e)" by (simp add: placed_def)
  show "\<forall>e \<in> set es. \<forall>f \<in> set es. e \<noteq> f \<longrightarrow> blocks e \<inter> blocks f = {}"
    using disjoint_files [OF ok] assms(2) by blast
qed (rule assms(4))

lemma chain_no_deleted:
  assumes "dir_ok nb d" and m: "dir_end d m" and "nb < 2 ^ 31" and none: "\<forall>i<m. \<not> deleted d i" and "1 < nb"
  shows "chain nb 1 (host_qsort StartingBlockCmp (map (dir_entry d) [0..<m]))"
    and "set (host_qsort StartingBlockCmp (map (dir_entry d) [0..<m])) = files d"
proof -
  let ?es = "host_qsort StartingBlockCmp (map (dir_entry d) [0..<m])"
  note s = sorted_entries [OF assms(1-3)]
  have sorted: "sorted_wrt (\<lambda>x y. x ! 0 \<noteq> 1 \<and> (y ! 0 \<noteq> 1 \<longrightarrow> unat (StartingBlock x) \<le> unat (StartingBlock y))) ?es"
    using s(1) none by blast
  have "{i. present d i} = {..<m}" using present_iff [OF m] none by auto
  then show set: "set ?es = files d" using s(3) none by (simp add: files_def)
  show "chain nb 1 ?es"
  proof (rule chain_files [OF assms(1) set _ assms(5)])
    show "distinct ?es" using s(2) none by blast
    have "x ! 0 \<noteq> 1" if "x \<in> set ?es" for x using that set by (auto simp: files_def present_def)
    then show "sorted_wrt (\<lambda>x y. unat (StartingBlock x) \<le> unat (StartingBlock y)) ?es"
      by (intro sorted_wrt_mono_rel [OF _ sorted]) simp
  qed
qed

text \<open>The deleted entry is the last.\<close>

lemma chain_one_deleted:
  assumes ok: "dir_ok nb d" and m: "dir_end d m" and nb: "nb < 2 ^ 31" "1 < nb"
    and k: "k < m" "\<forall>i<m. deleted d i \<longleftrightarrow> i = k" "unat (StartingBlock (dir_entry d k)) < 2 ^ 31"
  shows "\<exists>ls. host_qsort StartingBlockCmp (map (dir_entry d) [0..<m]) = ls @ [dir_entry d k] \<and> chain nb 1 ls \<and> set ls = files d"
proof -
  let ?es = "host_qsort StartingBlockCmp (map (dir_entry d) [0..<m])" and ?x = "dir_entry d k"
  have del: "i = k" if "i < m" "deleted d i" for i using k(2) that by simp
  have one: "i = j" if "i < m" "j < m" "deleted d i" "deleted d j" for i j using del that by blast
  have small: "unat (StartingBlock (dir_entry d i)) < 2 ^ 31" if "i < m" "deleted d i" for i using del [OF that] k(3) by simp
  note s = sorted_entries [OF ok m nb(1) one small]
  have sorted: "sorted_wrt (\<lambda>x y. x ! 0 \<noteq> 1 \<and> (y ! 0 \<noteq> 1 \<longrightarrow> unat (StartingBlock x) \<le> unat (StartingBlock y))) ?es"
    and d: "distinct ?es" and set: "set ?es = dir_entry d ` {..<m}"
    by (rule s, assumption+)+
  have x1: "?x ! 0 = 1" using k(1,2) by (auto simp: deleted_def)
  have ne: "?es \<noteq> []" using set k(1) by auto
  then obtain ls z where es: "?es = ls @ [z]" by (metis append_butlast_last_id)
  have live: "x ! 0 \<noteq> 1" if "x \<in> set ls" for x using sorted that unfolding es by (simp add: sorted_wrt_append)
  have "?x \<in> set ?es" using set k(1) by simp
  then have z: "z = ?x" using live x1 es by auto
  have fs: "files d = dir_entry d ` {..<m} - {?x}"
  proof
    show "files d \<subseteq> dir_entry d ` {..<m} - {?x}"
    proof
      fix e assume "e \<in> files d"
      then obtain i where i: "present d i" "e = dir_entry d i" by (auto simp: files_def)
      then have "i < m" "e ! 0 \<noteq> 1" using present_iff [OF m, of i] by (simp_all add: deleted_def)
      then show "e \<in> dir_entry d ` {..<m} - {?x}" using i(2) x1 by blast
    qed
    show "dir_entry d ` {..<m} - {?x} \<subseteq> files d"
    proof
      fix e assume "e \<in> dir_entry d ` {..<m} - {?x}"
      then obtain i where i: "i < m" "e = dir_entry d i" "e \<noteq> ?x" by blast
      then have "\<not> deleted d i" using del by blast
      then have "present d i" using i(1) present_iff [OF m, of i] by simp
      then show "e \<in> files d" using i(2) by (simp add: files_def)
    qed
  qed
  have "?x \<notin> set ls" using d unfolding es z by simp
  then have "set ls = set (ls @ [?x]) - {?x}" by simp
  also have "\<dots> = files d" using set unfolding es z fs by simp
  finally have set_ls: "set ls = files d" .
  have "chain nb 1 ls"
  proof (rule chain_files [OF ok set_ls _ nb(2)])
    show "distinct ls" using d by (simp add: es)
    have "sorted_wrt (\<lambda>x y. x ! 0 \<noteq> 1 \<and> (y ! 0 \<noteq> 1 \<longrightarrow> unat (StartingBlock x) \<le> unat (StartingBlock y))) ls"
      using sorted by (simp add: es sorted_wrt_append)
    then show "sorted_wrt (\<lambda>x y. unat (StartingBlock x) \<le> unat (StartingBlock y)) ls"
      by (rule sorted_wrt_mono_rel [rotated]) (use live in simp)
  qed
  then show ?thesis using es z set_ls by blast
qed

text \<open>Without room among the files the search goes on behind them.\<close>

lemma find_gap_none:
  assumes "chain nb (unat p) es" and "unat N = nb" and "1 \<le> unat p"
    and "\<forall>b \<ge> unat p. \<not> room nb (unat R) (set es) b"
  shows "\<exists>q. find_gap N R (es @ ys) p = find_gap N R ys q \<and> unat q < nb \<and> nb \<le> unat q + unat R"
  using assms(1,3,4)
proof (induction es arbitrary: p)
  case Nil
  then have "\<not> room nb (unat R) {} (unat p)" by auto
  then show ?case using Nil by (intro exI [of _ p]) (auto simp: room_def)
next
  case (Cons e es)
  let ?q = "StartingBlock e + ReservedBlocks e"
  have e: "e ! 0 \<noteq> 1" "placed nb e" "unat p \<le> unat (StartingBlock e)" "chain nb (unat (StartingBlock e) + unat (ReservedBlocks e)) es"
    using Cons.prems(1) by simp_all
  have q: "unat ?q = unat (StartingBlock e) + unat (ReservedBlocks e)"
    using e(2) assms(2) unat_lt64 [of N] by (intro unat_add_lem [THEN iffD1]) (simp add: placed_def)
  have later: "unat ?q \<le> unat (StartingBlock f)" if "f \<in> set es" for f
    using chain_start [OF e(4) that] q by simp
  have "\<not> unat p + unat R \<le> unat (StartingBlock e)"
  proof
    assume fit: "unat p + unat R \<le> unat (StartingBlock e)"
    have "unat p + unat R \<le> unat (StartingBlock f)" if "f \<in> set (e # es)" for f
      using that fit later [of f] q by auto
    then have "room nb (unat R) (set (e # es)) (unat p)"
      using fit e(2) Cons.prems(2) by (fastforce simp: room_def placed_def blocks_def)
    then show False using Cons.prems(3) by auto
  qed
  then have "\<not> R \<le> StartingBlock e - p"
    using unat_sub_le [OF e(3)] e(3) by (auto simp: word_le_nat_alt)
  then have fg: "find_gap N R ((e # es) @ ys) p = find_gap N R (es @ ys) ?q" using e(1) by (simp add: Let_def)
  have "\<not> room nb (unat R) (set es) b" if b: "unat ?q \<le> b" for b
  proof -
    have "room nb (unat R) (set (e # es)) b \<longleftrightarrow> room nb (unat R) (set es) b"
      using b q by (auto simp: room_def blocks_def)
    moreover have "unat p \<le> b" using b q e(3) by simp
    ultimately show ?thesis using Cons.prems(3) by blast
  qed
  then show ?case unfolding fg using Cons.IH [of ?q] e q by (simp add: placed_def)
qed

text \<open>A name that an entry can hold: not empty, not the mark of a deleted entry, within its field.\<close>

definition name_ok :: "u8 list \<Rightarrow> bool" where
  "name_ok name \<longleftrightarrow> name \<noteq> [] \<and> hd name \<noteq> 1 \<and> 0 \<notin> set name \<and> length name < 32"

lemma new_dir_entries:
  assumes d: "length d = 4096" and m: "dir_end d m" and k: "k < 64" "k = m \<and> n = m \<or> k < m \<and> k \<noteq> n" and name: "name_ok name"
  shows "length (new_dir d n k b R name) = 4096"
    and "StartingBlock (dir_entry (new_dir d n k b R name) k) = b"
    and "ReservedBlocks (dir_entry (new_dir d n k b R name) k) = R"
    and "FileSize (dir_entry (new_dir d n k b R name) k) = 0"
    and "entry_name (new_dir d n k b R name) k = name"
    and "0 \<in> set (take 32 (dir_entry (new_dir d n k b R name) k))"
    and "i \<noteq> k \<Longrightarrow> present d i \<Longrightarrow> dir_entry (new_dir d n k b R name) i = dir_entry d i"
    and "present (new_dir d n k b R name) i \<longleftrightarrow> i = k \<or> present d i"
proof -
  let ?p = "put_entry d k b R name" and ?d = "new_dir d n k b R name"
  have nm: "length name < 32" "0 \<notin> set name" using name by (simp_all add: name_ok_def)
  note p = put_entry_props [OF d k(1) nm, where start = b and res = R]
  show len: "length ?d = 4096" using p(1) by (auto simp: new_dir_def Let_def)
  have same: "dir_entry ?d j = dir_entry ?p j" if "j < 64" "j \<le> k \<or> k < m" for j
  proof -
    have "dir_entry (?p[64 * (n + 1) := 0]) j = dir_entry ?p j" if "k = n"
      by (rule dir_entry_update) (use that \<open>j < 64\<close> \<open>j \<le> k \<or> k < m\<close> k p(1) in auto)
    then show ?thesis by (simp add: new_dir_def Let_def)
  qed
  have K: "dir_entry ?d k = dir_entry ?p k" using same k(1) by simp
  then show "StartingBlock (dir_entry ?d k) = b" "ReservedBlocks (dir_entry ?d k) = R" "FileSize (dir_entry ?d k) = 0"
    using p(3,4,5) by simp_all
  obtain r where r: "dir_entry ?d k = name @ 0 # r" using p(6) K by auto
  then show "entry_name ?d k = name" using nm by (simp add: entry_name_def)
  show "0 \<in> set (take 32 (dir_entry ?d k))" unfolding r using nm(1) by (simp add: take_Cons')
  have "dir_entry ?d k ! 0 = hd name" "hd name \<in> set name" using name by (simp_all add: r nth_append hd_conv_nth name_ok_def)
  then have first: "dir_entry ?d k ! 0 \<noteq> 0" "dir_entry ?d k ! 0 \<noteq> 1" using name unfolding name_ok_def by metis+
  have other: "dir_entry ?d j = dir_entry d j" if "j < 64" "j \<noteq> k" "j < m" for j
    using that same [of j] p(2) [of j] k(2) by auto
  show "i \<noteq> k \<Longrightarrow> present d i \<Longrightarrow> dir_entry ?d i = dir_entry d i"
    using other present_iff [OF m, of i] by (auto simp: present_def)
  have m64: "m \<le> 64" using m by (simp add: dir_end_def)
  show "present ?d i \<longleftrightarrow> i = k \<or> present d i"
  proof (cases "k < m")
    case True
    have nz: "dir_entry ?d j ! 0 \<noteq> 0" if "j < m" for j
      using that first other [of j] m m64 by (cases "j = k") (auto simp: dir_end_def)
    have "dir_end ?d m" unfolding dir_end_def
    proof (intro conjI impI)
      assume "m < 64"
      then show "dir_entry ?d m ! 0 = 0" using same [of m] p(2) [of m] True m by (simp add: dir_end_def)
    qed (use nz m64 in auto)
    then have "present ?d i \<longleftrightarrow> i < m \<and> \<not> deleted ?d i" by (rule present_iff)
    then show ?thesis using True first other [of i] m64 present_iff [OF m, of i] by (cases "i = k") (auto simp: deleted_def)
  next
    case False
    then have km: "k = m" "n = m" using k(2) by auto
    have "dir_entry ?d (Suc m) ! 0 = 0" if "Suc m < 64"
      using that km p(1) dir_entry_update_first [of ?p "Suc m" 0] by (simp add: new_dir_def Let_def)
    then have "dir_end ?d (Suc m)"
      using first other m km k(1) by (auto simp: dir_end_def less_Suc_eq)
    then have "present ?d i \<longleftrightarrow> i < Suc m \<and> \<not> deleted ?d i" by (rule present_iff)
    then show ?thesis using km first other [of i] m64 present_iff [OF m, of i] by (cases "i = k") (auto simp: deleted_def less_Suc_eq)
  qed
qed

lemma new_dir_ok:
  assumes ok: "dir_ok nb d" and m: "dir_end d m" and k: "k < 64" "k = m \<and> n = m \<or> k < m \<and> k \<noteq> n" and name: "name_ok name"
    and free: "\<not> present d k" and new: "\<forall>i. present d i \<longrightarrow> entry_name d i \<noteq> name"
    and room: "room nb (unat R) (files d) (unat b)" and R: "1 \<le> unat R"
  shows "dir_ok nb (new_dir d n k b R name)"
proof -
  let ?d = "new_dir d n k b R name"
  note e = new_dir_entries [OF dir_okD(1) [OF ok] m k name, where b = b and R = R]
  have kb: "blocks (dir_entry ?d k) = {unat b ..< unat b + unat R}" by (simp add: blocks_def e(2,3))
  have other: "entry_name ?d i \<noteq> name \<and> blocks (dir_entry ?d i) \<inter> blocks (dir_entry ?d k) = {}"
    if i: "present d i" "i \<noteq> k" for i
    using e(7) [OF i(2,1)] new i(1) room unfolding kb by (auto simp: entry_name_def room_def files_def)
  show ?thesis unfolding dir_ok_def
  proof (intro conjI allI impI)
    show "length ?d = 4096" by (rule e(1))
  next
    fix i assume "present ?d i"
    then show "0 \<in> set (take 32 (dir_entry ?d i))" using e(6,7,8) ok by (cases "i = k") (auto simp: dir_ok_def)
  next
    fix i assume i: "present ?d i"
    show "placed nb (dir_entry ?d i)"
    proof (cases "i = k")
      case True
      then show ?thesis using room R by (simp add: placed_def e(2,3) room_def)
    next
      case False
      then show ?thesis using i e(7,8) dir_okD(2) [OF ok] by simp
    qed
  next
    fix i j assume ij: "present ?d i" "present ?d j" "i \<noteq> j"
    consider "i = k" "present d j" "j \<noteq> k" | "j = k" "present d i" "i \<noteq> k" | "present d i" "present d j" "i \<noteq> k" "j \<noteq> k"
      using ij e(8) [of i] e(8) [of j] by blast
    then show "entry_name ?d i \<noteq> entry_name ?d j"
    proof cases
      case 3
      then show ?thesis using ok ij(3) e(7) unfolding dir_ok_def by (simp add: entry_name_def)
    qed (use other e(5) in metis)+
  next
    fix i j assume ij: "present ?d i" "present ?d j" "i \<noteq> j"
    consider "i = k" "present d j" "j \<noteq> k" | "j = k" "present d i" "i \<noteq> k" | "present d i" "present d j" "i \<noteq> k" "j \<noteq> k"
      using ij e(8) [of i] e(8) [of j] by blast
    then show "blocks (dir_entry ?d i) \<inter> blocks (dir_entry ?d j) = {}"
    proof cases
      case 3
      then show ?thesis using dir_okD(4) [OF ok] ij(3) e(7) by simp
    qed (use other in auto)
  qed
qed

lemma unat_halved:
  assumes "unat x < 2 ^ 64 - 1"
  shows "unat (halved x) = (unat x + 1) div 2"
proof -
  have s: "unat (x + 1) = unat x + 1" using assms by (simp add: unat_word_ariths)
  have o: "unat (x mod 2) = unat x mod 2" by (simp add: unat_mod)
  show ?thesis
  proof (cases "x mod 2 = 0")
    case True
    then have "even (unat x)" using o by (simp add: even_iff_mod_2_eq_zero)
    then show ?thesis using True by (simp add: halved_def unat_div)
  next
    case False
    then have "unat (x mod 2) \<noteq> 0" by (simp only: unat_eq_0 not_False_eq_True)
    then show ?thesis using False s by (simp only: halved_def unat_div) simp
  qed
qed

text \<open>A new name on an open disk, in an ordered directory with its end at \<open>m\<close>.\<close>

definition creates :: "nat \<Rightarrow> nat \<Rightarrow> nat \<Rightarrow> u8 list \<Rightarrow> u64 \<Rightarrow> hfile \<Rightarrow> bmfs_state \<Rightarrow> bool" where
  "creates nb r m f maxsize h s \<longleftrightarrow> dir_ok nb (Directory s) \<and> dir_end (Directory s) m \<and> nb = unat (disksize s div 2) \<and> 1 < nb
     \<and> 0 \<in> set f \<and> name_ok (cstr f) \<and> (\<forall>i. present (Directory s) i \<longrightarrow> entry_name (Directory s) i \<noteq> cstr f)
     \<and> 1 \<le> unat maxsize \<and> unat maxsize < 2 ^ 64 - 1 \<and> r = (unat maxsize + 1) div 2 \<and> bm_disk s = Some h \<and> bm_fwrite_ok s = []"

lemma createsD:
  assumes "creates nb r m f maxsize h s"
  shows "dir_ok nb (Directory s)" and "dir_end (Directory s) m" and "length (Directory s) = 4096" and "m \<le> 64" and "nb < 2 ^ 31" and "1 < nb"
    and "\<exists>e. findfile (Some f) s = Some (None, s\<lparr>bm_entry := e\<rparr>)" and "0 \<in> set f" and "name_ok (cstr f)" and "length (cstr f) < 32"
    and "\<forall>i. present (Directory s) i \<longrightarrow> entry_name (Directory s) i \<noteq> cstr f"
    and "unat (halved maxsize) = r" and "1 \<le> r" and "unat (ucast (disksize s div 2) :: u64) = nb" and "bm_disk s = Some h" and "bm_fwrite_ok s = []"
proof -
  note c = assms [unfolded creates_def]
  show ok: "dir_ok nb (Directory s)" and "dir_end (Directory s) m" and "1 < nb" and f: "0 \<in> set f" and "name_ok (cstr f)"
    and new: "\<forall>i. present (Directory s) i \<longrightarrow> entry_name (Directory s) i \<noteq> cstr f" and "1 \<le> r" and "bm_disk s = Some h" and "bm_fwrite_ok s = []"
    using c by auto
  show "length (Directory s) = 4096" by (rule dir_okD(1) [OF ok])
  show "m \<le> 64" "length (cstr f) < 32" using c by (simp_all add: dir_end_def name_ok_def)
  show "unat (halved maxsize) = r" using c unat_halved by simp
  have nb: "nb = unat (disksize s) div 2" using c by (simp add: unat_div)
  show "nb < 2 ^ 31" using nb unsigned_less [of "disksize s", where 'a = nat] by simp
  show "unat (ucast (disksize s div 2) :: u64) = nb" using c unsigned_less [of "disksize s div 2", where 'a = nat] by (simp add: unsigned_ucast_eq take_bit_nat_eq_self)
  obtain r' e where r': "findfile (Some f) s = Some (map_option (\<lambda>i. (dir_entry (Directory s) i, i)) r', s\<lparr>bm_entry := e\<rparr>)"
    "lookup_name (Directory s) (cstr f) r'" using findfile_finds [OF ok f] by blast
  then have "r' = None" using new by (cases r') (auto simp: lookup_name_def)
  then show "\<exists>e. findfile (Some f) s = Some (None, s\<lparr>bm_entry := e\<rparr>)" using r' by auto
qed

lemma count_no_deleted:
  assumes "dir_end d m" and "\<forall>i<m. \<not> deleted d i"
  shows "count_entries 64 d 0 (- 1) = (if m < 64 then (m, int m) else (0, - 1))"
  using count_entries_first [OF assms(1), of 64 0] assms(2) by auto

lemma count_first_deleted:
  assumes "dir_end d m" and "k < m" and "deleted d k" and "\<forall>j<k. \<not> deleted d j"
  shows "count_entries 64 d 0 (- 1) = (if m < 64 then m else 0, int k)"
proof -
  from count_entries_first [OF assms(1), of 64 0] assms(2,3)
  obtain k' where "k' < m" "deleted d k'" "\<forall>j<k'. \<not> deleted d j" "count_entries 64 d 0 (- 1) = (if m < 64 then m else 0, int k')"
    by auto
  moreover have "k' = k" using calculation(2,3) assms(3,4) by (meson linorder_neqE_nat)
  ultimately show ?thesis by simp
qed

text \<open>What the directory holds after the entry was made.\<close>

definition entry_added :: "u8 list \<Rightarrow> nat \<Rightarrow> u8 list \<Rightarrow> nat \<Rightarrow> nat \<Rightarrow> u8 list \<Rightarrow> bool" where
  "entry_added d k name b r d' \<longleftrightarrow> entry_name d' k = name \<and> unat (StartingBlock (dir_entry d' k)) = b
     \<and> unat (ReservedBlocks (dir_entry d' k)) = r \<and> FileSize (dir_entry d' k) = 0
     \<and> (\<forall>i. present d' i \<longleftrightarrow> i = k \<or> present d i) \<and> (\<forall>i. i \<noteq> k \<longrightarrow> present d i \<longrightarrow> dir_entry d' i = dir_entry d i)"

lemma new_dir_added:
  assumes "length d = 4096" and "dir_end d m" and "k < 64" and "k = m \<and> n = m \<or> k < m \<and> k \<noteq> n" and "name_ok name"
  shows "entry_added d k name (unat b) (unat R) (new_dir d n k b R name)"
  unfolding entry_added_def using new_dir_entries [OF assms, where b = b and R = R] by simp

text \<open>The search for a block, and the entry where there is one.\<close>

lemma gap_least:
  assumes c: "creates nb r m f maxsize h s" and none: "\<forall>i<m. \<not> deleted (Directory s) i"
    and b: "b = find_gap (ucast (disksize s div 2)) (halved maxsize) (host_qsort StartingBlockCmp (map (dir_entry (Directory s)) [0..<m])) 1"
  shows "if \<exists>b. room nb r (files (Directory s)) b
    then room nb r (files (Directory s)) (unat b) \<and> unat b = (LEAST b. room nb r (files (Directory s)) b) \<and> b \<noteq> 0 else b = 0"
proof -
  let ?d = "Directory s" and ?N = "ucast (disksize s div 2) :: u64"
  note C = createsD [OF c]
  note ch = chain_no_deleted [OF C(1,2,5) none C(6)]
  have gap: "if \<exists>b \<ge> 1. room nb r (files ?d) b
    then 1 \<le> unat b \<and> room nb r (files ?d) (unat b) \<and> (\<forall>b'. 1 \<le> b' \<longrightarrow> room nb r (files ?d) b' \<longrightarrow> unat b \<le> b') else b = 0"
    unfolding b by (rule find_gap_first [of nb 1 _ ?N "halved maxsize", unfolded unat_1 C(12), OF ch(1) C(14,13) le_refl, unfolded ch(2)])
  have one: "1 \<le> b'" if "room nb r (files ?d) b'" for b' using that by (simp add: room_def)
  show ?thesis
  proof (cases "\<exists>b. room nb r (files ?d) b")
    case True
    then have b: "1 \<le> unat b" "room nb r (files ?d) (unat b)" "\<And>b'. room nb r (files ?d) b' \<Longrightarrow> unat b \<le> b'"
      using gap one by (auto split: if_splits)
    have "(LEAST b. room nb r (files ?d) b) = unat b" by (rule Least_equality) (use b in auto)
    then show ?thesis using True b(1,2) by auto
  qed (use gap in auto)
qed

lemma create_gives:
  assumes c: "creates nb r m f maxsize h s" and none: "\<forall>i<m. \<not> deleted (Directory s) i"
    and m: "m < 64" and b: "\<exists>b. room nb r (files (Directory s)) b"
  shows "\<exists>s'. bmfs_create f maxsize s = Some s' \<and> dir_ok nb (Directory s')
    \<and> entry_added (Directory s) m (cstr f) (LEAST b. room nb r (files (Directory s)) b) r (Directory s')
    \<and> bm_files s' = (bm_files s)(f_name h := Some (put_at 4096 (Directory s') (file_of h s)))
    \<and> bm_fwrite_ok s' = [] \<and> bm_writable s' = bm_writable s"
proof -
  let ?d = "Directory s" and ?R = "halved maxsize"
  let ?b = "find_gap (ucast (disksize s div 2)) ?R (host_qsort StartingBlockCmp (map (dir_entry ?d) [0..<m])) 1"
  note C = createsD [OF c]
  obtain e where ff: "findfile (Some f) s = Some (None, s\<lparr>bm_entry := e\<rparr>)" using C(7) by blast
  have cnt: "count_entries 64 ?d 0 (- 1) = (m, int m)" using count_no_deleted [OF C(2) none] m by simp
  have g: "room nb r (files ?d) (unat ?b)" "unat ?b = (LEAST b. room nb r (files ?d) b)" "?b \<noteq> 0"
    using gap_least [OF c none refl, unfolded if_P [OF b]] by blast+
  obtain s' where s': "bmfs_create f maxsize s = Some s'" "Directory s' = new_dir ?d m m ?b ?R (cstr f)"
    "bm_files s' = (bm_files s)(f_name h := Some (put_at 4096 (Directory s') (file_of h s)))" "bm_fwrite_ok s' = []" "bm_writable s' = bm_writable s"
    using create_eval [OF ff C(3) cnt m C(8,10) refl g(3) C(15,16)] by blast
  have "dir_ok nb (Directory s')" unfolding s'(2)
    by (rule new_dir_ok [OF C(1,2) m _ C(9) _ C(11)]) (use g(1) C(12,13) present_iff [OF C(2), of m] in auto)
  moreover have "entry_added ?d m (cstr f) (unat ?b) r (Directory s')"
    using new_dir_added [OF C(3,2) m _ C(9), of m ?b ?R] C(12) by (simp add: s'(2))
  ultimately show ?thesis using s' g(2) by auto
qed

text \<open>C16: Without deleted entries \<open>create\<close> is first fit: a file of \<open>r\<close> blocks gets the lowest block from which \<open>r\<close> blocks are free,
  in the first unused slot, in memory and on the disk; without such blocks or without a slot nothing changes.\<close>

theorem create_first_fit:
  assumes c: "creates nb r m f maxsize h s" and none: "\<forall>i<m. \<not> deleted (Directory s) i"
  shows "\<exists>s'. bmfs_create f maxsize s = Some s' \<and> dir_ok nb (Directory s')
    \<and> (if m < 64 \<and> (\<exists>b. room nb r (files (Directory s)) b)
       then entry_added (Directory s) m (cstr f) (LEAST b. room nb r (files (Directory s)) b) r (Directory s') \<and> on_disk h (Directory s') s'
       else Directory s' = Directory s \<and> bm_files s' = bm_files s)"
proof (cases "m < 64 \<and> (\<exists>b. room nb r (files (Directory s)) b)")
  case True
  then obtain s' where s': "bmfs_create f maxsize s = Some s'" "dir_ok nb (Directory s')"
    "entry_added (Directory s) m (cstr f) (LEAST b. room nb r (files (Directory s)) b) r (Directory s')"
    "bm_files s' = (bm_files s)(f_name h := Some (put_at 4096 (Directory s') (file_of h s)))"
    using create_gives [OF c none] by blast
  then show ?thesis using True written_on_disk [OF s'(4) dir_okD(1) [OF s'(2)]] by auto
next
  case False
  note C = createsD [OF c]
  obtain e where ff: "findfile (Some f) s = Some (None, s\<lparr>bm_entry := e\<rparr>)" using C(7) by blast
  have "\<exists>s'. bmfs_create f maxsize s = Some s' \<and> Directory s' = Directory s \<and> bm_files s' = bm_files s"
  proof (cases "m < 64")
    case True
    then have "count_entries 64 (Directory s) 0 (- 1) = (m, int m)" using count_no_deleted [OF C(2) none] by simp
    then show ?thesis by (rule create_no_room [OF ff]) (use gap_least [OF c none refl] False True in simp)
  next
    case False
    then show ?thesis using count_no_deleted [OF C(2) none] create_no_slot [OF ff] by simp
  qed
  then obtain s' where "bmfs_create f maxsize s = Some s'" "Directory s' = Directory s" "bm_files s' = bm_files s" by blast
  then show ?thesis using False C(1) by auto
qed

lemma create_first_fit_witness:
  "\<exists>s'. bmfs_create [97, 0] 2 (sample_state [] 8 (sample_dir [sample_entry 98 1 1]) Map.empty) = Some s'
    \<and> entry_added (sample_dir [sample_entry 98 1 1]) 1 [97] 2 1 (Directory s')"
proof -
  let ?e = "sample_entry 98 1 1"
  let ?s = "sample_state [] 8 (sample_dir [?e]) Map.empty"
  have pl: "placed 4 ?e" by (simp add: placed_def)
  have S: "dir_end (sample_dir [?e]) 1" "\<And>i. present (sample_dir [?e]) i \<longleftrightarrow> i = 0" "dir_ok 4 (sample_dir [?e])"
    and e0: "dir_entry (sample_dir [?e]) 0 = ?e" by (rule sample_one, use pl in simp_all)+
  have "creates 4 1 1 [97, 0] 2 sample_disk ?s"
    unfolding creates_def using S e0 by (simp add: name_ok_def cstr_one entry_name_def)
  from create_first_fit [OF this] have *: "\<exists>s'. bmfs_create [97, 0] 2 ?s = Some s' \<and> dir_ok 4 (Directory s')
    \<and> (if (1 :: nat) < 64 \<and> (\<exists>b. room 4 1 (files (Directory ?s)) b)
       then entry_added (Directory ?s) 1 (cstr [97, 0]) (LEAST b. room 4 1 (files (Directory ?s)) b) 1 (Directory s') \<and> on_disk sample_disk (Directory s') s'
       else Directory s' = Directory ?s \<and> bm_files s' = bm_files ?s)"
    using sample_deleted [of "[?e]" 0] by simp
  have fs: "files (sample_dir [?e]) = {?e}" using S(2) e0 by (auto simp: files_def)
  have room: "room 4 (Suc 0) {?e} b \<longleftrightarrow> b = 2" for b by (auto simp: room_def blocks_def)
  have "Least (room 4 (Suc 0) {?e}) = 2" by (rule Least_equality) (simp_all add: room)
  then show ?thesis using * by (auto simp: fs cstr_one room split: if_splits)
qed

lemma find_gap_deleted:
  assumes N: "unat N = nb" and q: "unat q < nb" "nb \<le> unat q + unat R" and x: "x ! 0 = 1"
    and e: "e = unat (StartingBlock x) + unat (ReservedBlocks x)" "e + unat R < nb"
  shows "find_gap N R [x] q = StartingBlock x + ReservedBlocks x" and "unat (StartingBlock x + ReservedBlocks x) = e"
proof -
  let ?e = "StartingBlock x + ReservedBlocks x"
  show u: "unat ?e = e" using e N unat_lt64 [of N] unat_add_lem [of "StartingBlock x" "ReservedBlocks x"] by simp
  have N1: "unat (N - 1) = nb - 1" using q N unat_sub_le [of 1 N] by simp
  have "unat (N - 1 - q) = nb - 1 - unat q" using q N1 by (subst unat_sub_le) simp_all
  then have "\<not> R \<le> N - 1 - q" using q by (simp add: word_le_nat_alt)
  moreover have "unat (N - 1 - ?e) = nb - 1 - e" using e(2) N1 u by (subst unat_sub_le) simp_all
  then have "R \<le> N - 1 - ?e" using e(2) by (simp add: word_le_nat_alt)
  ultimately show "find_gap N R [x] q = ?e" using x by (simp add: Let_def)
qed

text \<open>C26: A deleted entry sends the search back to the end of the deleted file: when the disk has no room but enough blocks lie behind
  that end, \<open>create\<close> succeeds and puts the file over one that is still there.
\<close>

theorem create_over_live_file:
  assumes c: "creates nb r m f maxsize h s" and m: "m < 64" and k: "k < m" "\<forall>i<m. deleted (Directory s) i \<longleftrightarrow> i = k"
    and full: "\<forall>b. \<not> room nb r (files (Directory s)) b"
    and e: "e = unat (StartingBlock (dir_entry (Directory s) k)) + unat (ReservedBlocks (dir_entry (Directory s) k))" "1 \<le> e" "e + r < nb"
  shows "\<exists>s' i. bmfs_create f maxsize s = Some s' \<and> entry_added (Directory s) k (cstr f) e r (Directory s') \<and> on_disk h (Directory s') s'
    \<and> present (Directory s) i \<and> blocks (dir_entry (Directory s') i) \<inter> blocks (dir_entry (Directory s') k) \<noteq> {}"
proof -
  let ?d = "Directory s" and ?R = "halved maxsize" and ?N = "ucast (disksize s div 2) :: u64"
  let ?x = "dir_entry ?d k" and ?es = "host_qsort StartingBlockCmp (map (dir_entry ?d) [0..<m])"
  let ?b = "StartingBlock ?x + ReservedBlocks ?x"
  note C = createsD [OF c]
  obtain t where ff: "findfile (Some f) s = Some (None, s\<lparr>bm_entry := t\<rparr>)" using C(7) by blast
  have x: "?x ! 0 = 1" using k by (simp add: deleted_def)
  have cnt: "count_entries 64 ?d 0 (- 1) = (m, int k)" using count_first_deleted [OF C(2) k(1)] k m by simp
  have "unat (StartingBlock ?x) < 2 ^ 31" using e C(5) by linarith
  then obtain ls where ls: "?es = ls @ [?x]" "chain nb 1 ls" "set ls = files ?d" using chain_one_deleted [OF C(1,2,5,6) k] by blast
  have "\<forall>b \<ge> 1. \<not> room nb (unat ?R) (set ls) b" using full ls(3) C(12) by simp
  then obtain q where q: "find_gap ?N ?R ?es 1 = find_gap ?N ?R [?x] q" "unat q < nb" "nb \<le> unat q + unat ?R"
    using find_gap_none [of nb 1 ls ?N ?R "[?x]"] ls(1,2) C(14) by auto
  have gap: "find_gap ?N ?R ?es 1 = ?b" "unat ?b = e"
    using find_gap_deleted [OF C(14) q(2,3) x e(1)] e(3) C(12) q(1) by simp_all
  have "?b \<noteq> 0" using gap(2) e(2) by auto
  then obtain s' where s': "bmfs_create f maxsize s = Some s'" "Directory s' = new_dir ?d m k ?b ?R (cstr f)"
    "bm_files s' = (bm_files s)(f_name h := Some (put_at 4096 (Directory s') (file_of h s)))"
    using create_eval [OF ff C(3) cnt _ C(8,10) gap(1) _ C(15,16)] k m by auto
  have k': "k < 64" "k = m \<and> m = m \<or> k < m \<and> k \<noteq> m" using k m by auto
  have added: "entry_added ?d k (cstr f) e r (Directory s')"
    using new_dir_added [OF C(3,2) k' C(9), of ?b ?R] C(12) gap(2) by (simp add: s'(2))
  have disk: "on_disk h (Directory s') s'"
    by (rule written_on_disk [OF s'(3)]) (simp add: s'(2) new_dir_entries(1) [OF C(3,2) k' C(9)])
  have "\<not> room nb r (files ?d) e" using full by blast
  then obtain i where i: "present ?d i" "blocks (dir_entry ?d i) \<inter> {e ..< e + r} \<noteq> {}" using e(2,3) unfolding room_def files_def by blast
  have "i \<noteq> k" using i(1) x by (auto simp: present_def)
  then have "blocks (dir_entry (Directory s') i) \<inter> blocks (dir_entry (Directory s') k) \<noteq> {}"
    using i added by (simp add: entry_added_def blocks_def)
  then show ?thesis using s'(1) added disk i(1) by blast
qed

lemma create_over_live_file_witness:
  "\<exists>s' i. bmfs_create [97, 0] 10 (sample_state [] 22 (sample_dir [sample_entry 1 1 2, sample_entry 98 3 7]) Map.empty) = Some s'
    \<and> present (sample_dir [sample_entry 1 1 2, sample_entry 98 3 7]) i
    \<and> blocks (dir_entry (Directory s') i) \<inter> blocks (dir_entry (Directory s') 0) \<noteq> {}"
proof -
  let ?es = "[sample_entry 1 1 2, sample_entry 98 3 7]"
  let ?d = "sample_dir ?es" and ?s = "sample_state [] 22 (sample_dir ?es) Map.empty"
  have two: "i < 2 \<longleftrightarrow> i = 0 \<or> i = 1" for i :: nat by auto
  have pl: "placed 11 (sample_entry 98 3 7)" by (simp add: placed_def)
  have c: "\<forall>e \<in> set ?es. length e = 64 \<and> e ! 0 \<noteq> 0" "length ?es \<le> 64" by simp_all
  have "\<forall>e \<in> set ?es. e ! 0 \<noteq> 1 \<longrightarrow> 0 \<in> set (take 32 e) \<and> placed 11 e" using pl by simp
  note S = sample_dir_ok [OF c this]
  have S: "dir_end ?d (length ?es)" "\<And>i. present ?d i \<longleftrightarrow> i < length ?es \<and> ?es ! i ! 0 \<noteq> 1" "dir_ok 11 ?d"
    by (rule S; simp)+
  have d2: "dir_end ?d 2" using S(1) by (simp add: numeral_2_eq_2)
  have p: "present ?d i \<longleftrightarrow> i = 1" for i unfolding S(2) using two [of i] by auto
  have e: "dir_entry ?d 0 = sample_entry 1 1 2" "dir_entry ?d 1 = sample_entry 98 3 7"
    using sample_dir_entry(2) [of ?es 0] sample_dir_entry(2) [of ?es 1] by simp_all
  have del: "\<forall>i<2. deleted ?d i \<longleftrightarrow> i = 0" unfolding two using e by (auto simp: deleted_def)
  have cr: "creates 11 5 2 [97, 0] 10 sample_disk ?s"
    unfolding creates_def using d2 S(3) p e by (simp add: name_ok_def cstr_one entry_name_def)
  have fs: "files ?d = {sample_entry 98 3 7}" using p e by (auto simp: files_def)
  have full: "\<forall>b. \<not> room 11 5 (files ?d) b" unfolding fs by (auto simp: room_def blocks_def)
  have "\<exists>s' i. bmfs_create [97, 0] 10 ?s = Some s' \<and> entry_added (Directory ?s) 0 (cstr [97, 0]) 3 5 (Directory s') \<and> on_disk sample_disk (Directory s') s'
    \<and> present (Directory ?s) i \<and> blocks (dir_entry (Directory s') i) \<inter> blocks (dir_entry (Directory s') 0) \<noteq> {}"
    by (rule create_over_live_file [OF cr]) (use del full e(1) in simp_all)
  then show ?thesis unfolding sample_state_simps by blast
qed

text \<open>The new entry in the first slot, which is also the number of used entries counted in a directory without an end.\<close>

lemma new_dir_first:
  assumes "length d = 4096" and "name_ok name"
  shows "length (new_dir d 0 0 b R name) = 4096" and "present (new_dir d 0 0 b R name) i \<longleftrightarrow> i = 0"
    and "entry_name (new_dir d 0 0 b R name) 0 = name" and "StartingBlock (dir_entry (new_dir d 0 0 b R name) 0) = b"
proof -
  let ?p = "put_entry d 0 b R name" and ?d = "new_dir d 0 0 b R name"
  have d: "?d = ?p[64 * 1 := 0]" by (simp add: new_dir_def)
  have nm: "length name < 32" "0 \<notin> set name" using assms(2) by (simp_all add: name_ok_def)
  note p = put_entry_props [OF assms(1) _ nm, of 0, where start = b and res = R]
  show "length ?d = 4096" using p(1) by (simp add: d)
  have e: "dir_entry ?d 0 = dir_entry ?p 0" unfolding d by (rule dir_entry_update) (use p(1) in simp_all)
  then show "StartingBlock (dir_entry ?d 0) = b" using p(3) by simp
  obtain r where r: "dir_entry ?d 0 = name @ 0 # r" using p(6) e by auto
  then show "entry_name ?d 0 = name" using nm by (simp add: entry_name_def)
  have "dir_entry ?d 0 ! 0 = hd name" "hd name \<in> set name" using assms(2) by (simp_all add: r nth_append hd_conv_nth name_ok_def)
  then have "dir_entry ?d 0 ! 0 \<noteq> 0" "dir_entry ?d 0 ! 0 \<noteq> 1" using assms(2) unfolding name_ok_def by metis+
  moreover have "dir_entry ?d 1 ! 0 = 0" unfolding d by (rule dir_entry_update_first) (use p(1) in simp_all)
  ultimately show "present ?d i \<longleftrightarrow> i = 0" by (auto simp: present_def dest: spec [of _ 1])
qed

text \<open>C27: In a full directory the count of used entries stays 0: a file that takes a deleted entry starts at block 1 whatever lies there,
  and when the entry is the first, all other files are lost.
\<close>

theorem create_full_directory:
  assumes c: "creates nb r 64 f maxsize h s" and k: "k < 64" "deleted (Directory s) k" "\<forall>j<k. \<not> deleted (Directory s) j" and fits: "r + 1 < nb"
  shows "\<exists>s'. bmfs_create f maxsize s = Some s' \<and> entry_name (Directory s') k = cstr f \<and> unat (StartingBlock (dir_entry (Directory s') k)) = 1
    \<and> on_disk h (Directory s') s'
    \<and> (if k = 0 then \<forall>i. present (Directory s') i \<longleftrightarrow> i = 0
       else \<forall>i. present (Directory s) i \<longrightarrow> present (Directory s') i
         \<and> (unat (StartingBlock (dir_entry (Directory s') i)) \<le> r \<longrightarrow> blocks (dir_entry (Directory s') i) \<inter> blocks (dir_entry (Directory s') k) \<noteq> {}))"
proof -
  let ?d = "Directory s" and ?R = "halved maxsize" and ?N = "ucast (disksize s div 2) :: u64"
  note C = createsD [OF c]
  obtain t where ff: "findfile (Some f) s = Some (None, s\<lparr>bm_entry := t\<rparr>)" using C(7) by blast
  have cnt: "count_entries 64 ?d 0 (- 1) = (0, int k)" using count_first_deleted [OF C(2) k] by simp
  have "unat (?N - 1) = nb - 1" using fits C(14) unat_sub_le [of 1 ?N] by simp
  then have "unat (?N - 1 - 1) = nb - 2" using fits unat_sub_le [of 1 "?N - 1"] by simp
  then have gap: "find_gap ?N ?R (host_qsort StartingBlockCmp (map (dir_entry ?d) [0..<0])) 1 = 1"
    using fits C(12) by (simp add: word_le_nat_alt)
  obtain s' where s': "bmfs_create f maxsize s = Some s'" "Directory s' = new_dir ?d 0 k 1 ?R (cstr f)"
    "bm_files s' = (bm_files s)(f_name h := Some (put_at 4096 (Directory s') (file_of h s)))"
    using create_eval [OF ff C(3) cnt k(1) C(8,10) gap _ C(15,16)] by auto
  show ?thesis
  proof (cases "k = 0")
    case True
    note n = new_dir_first [OF C(3,9), of 1 ?R]
    have "on_disk h (Directory s') s'" by (rule written_on_disk [OF s'(3)]) (simp add: s'(2) True n(1))
    then show ?thesis using s'(1) n(2-4) by (simp add: s'(2) True)
  next
    case False
    then have k': "k = 64 \<and> 0 = (64 :: nat) \<or> k < 64 \<and> k \<noteq> 0" using k(1) by simp
    have disk: "on_disk h (Directory s') s'"
      by (rule written_on_disk [OF s'(3)]) (simp add: s'(2) new_dir_entries(1) [OF C(3,2) k(1) k' C(9)])
    have a: "entry_added ?d k (cstr f) 1 r (Directory s')"
      using new_dir_added [OF C(3,2) k(1) k' C(9), of 1 ?R] C(12) by (simp add: s'(2))
    have "blocks (dir_entry (Directory s') i) \<inter> blocks (dir_entry (Directory s') k) \<noteq> {}"
      if i: "present ?d i" "unat (StartingBlock (dir_entry (Directory s') i)) \<le> r" for i
    proof -
      have "i \<noteq> k" using i(1) k(2) by (auto simp: present_def deleted_def)
      then have "placed nb (dir_entry (Directory s') i)" using dir_okD(2) [OF C(1) i(1)] a i(1) by (simp add: entry_added_def)
      then have "unat (StartingBlock (dir_entry (Directory s') i)) \<in> blocks (dir_entry (Directory s') i) \<inter> blocks (dir_entry (Directory s') k)"
        using i(2) a by (simp add: blocks_def placed_def entry_added_def)
      then show ?thesis by blast
    qed
    then show ?thesis using s'(1) disk a False by (auto simp: entry_added_def)
  qed
qed

lemma create_full_directory_witness:
  "\<exists>es s'. present (sample_dir es) 1 \<and> bmfs_create [97, 0] 2 (sample_state [] 16 (sample_dir es) Map.empty) = Some s'
    \<and> (\<forall>i. present (Directory s') i \<longleftrightarrow> i = 0)"
proof -
  let ?x = "sample_entry 1 1 1" and ?e = "sample_entry 98 1 1"
  let ?es = "?x # ?e # replicate 62 ?x"
  let ?d = "sample_dir ?es" and ?s = "sample_state [] 16 (sample_dir ?es) Map.empty"
  have pl: "placed 8 ?e" by (simp add: placed_def)
  have c: "\<forall>e \<in> set ?es. length e = 64 \<and> e ! 0 \<noteq> 0" "length ?es \<le> 64" by simp_all
  have n: "?es ! i = (if i = 1 then ?e else ?x)" if "i < 64" for i using that by (auto simp: nth_Cons split: nat.splits)
  have "\<forall>e \<in> set ?es. e ! 0 \<noteq> 1 \<longrightarrow> 0 \<in> set (take 32 e) \<and> placed 8 e" using pl by simp
  note S = sample_dir_ok [OF c this]
  have "sorted_wrt (\<lambda>x y. x ! 0 \<noteq> 1 \<longrightarrow> y ! 0 \<noteq> 1 \<longrightarrow> cstr x \<noteq> cstr y \<and> blocks x \<inter> blocks y = {}) (replicate k ?x)" for k
    by (simp add: sorted_wrt_iff_nth_less)
  then have S: "dir_end ?d (length ?es)" "\<And>i. present ?d i \<longleftrightarrow> i < length ?es \<and> ?es ! i ! 0 \<noteq> 1" "dir_ok 8 ?d"
    by - (rule S; simp)+
  have p: "present ?d i \<longleftrightarrow> i = 1" for i unfolding S(2) using n [of i] by (cases "i < 64") (auto simp del: nth_Cons_0)
  have e: "dir_entry ?d 1 = ?e" using sample_dir_entry(2) [of ?es 1] by simp
  have del: "deleted ?d 0" using sample_deleted [of ?es 0] by simp
  have cr: "creates 8 1 64 [97, 0] 2 sample_disk ?s"
    unfolding creates_def using S(1,3) p e by (simp add: name_ok_def cstr_one entry_name_def)
  show ?thesis using create_full_directory [OF cr, of 0] del p by auto
qed

end
