(* ===== verification/Bmfs_Files.thy ===== *)
theory Bmfs_Files
  imports Bmfs_Dir
begin

section \<open>read, write and delete on the disk\<close>

text \<open>
  The byte loops, a file written and read back with all others untouched, and deletion.
\<close>

subsection \<open>The loops\<close>

lemma put_size:
  assumes d: "length d = 4096" and k: "k < 64"
  shows "length (put_at (64 * k + 48) (le_bytes 8 (v :: u64)) d) = 4096"
    and "i < 64 \<Longrightarrow> take 48 (dir_entry (put_at (64 * k + 48) (le_bytes 8 v) d) i) = take 48 (dir_entry d i)"
    and "i < 64 \<Longrightarrow> i \<noteq> k \<Longrightarrow> dir_entry (put_at (64 * k + 48) (le_bytes 8 v) d) i = dir_entry d i"
    and "FileSize (dir_entry (put_at (64 * k + 48) (le_bytes 8 v) d) k) = v"
proof -
  let ?d = "put_at (64 * k + 48) (le_bytes 8 v) d"
  show l: "length ?d = 4096" using d k by simp
  show "take 48 (dir_entry ?d i) = take 48 (dir_entry d i)" if i: "i < 64"
  proof -
    have "take 48 (drop (64 * i) ?d) = take 48 (drop (64 * i) d)"
      by (rule part_put_at_other) (use d k i in \<open>cases "i \<le> k"; simp\<close>)+
    then show ?thesis by (simp add: dir_entry_def)
  qed
  show "dir_entry ?d i = dir_entry d i" if i: "i < 64" "i \<noteq> k"
    unfolding dir_entry_def by (rule part_put_at_other) (use d k i in \<open>cases "i < k"; simp\<close>)+
  have "FileSize (dir_entry ?d k) = le_word (take 8 (drop (64 * k + 48) ?d))" by (rule entry_fields(3) [OF l k])
  also have "take 8 (drop (64 * k + 48) ?d) = le_bytes 8 v" using part_put_at_same [of "64 * k + 48" "le_bytes 8 v" d] d k by simp
  finally show "FileSize (dir_entry ?d k) = v" by (simp add: le_word_le_bytes)
qed

lemma write_bytes_disk_all:
  assumes "bm_disk s = Some h" and "bm_fwrite_ok s = []" and "bm_files s (f_name h) = Some D" and "f_pos h \<le> length D"
    and "bm_files s (f_name tf) = Some c" and "f_name tf \<noteq> f_name h" and "f_pos tf + n \<le> length c"
  shows "\<exists>tf'. write_bytes_disk n tf s = Some (tf', s\<lparr>bm_disk := Some (h\<lparr>f_pos := f_pos h + n\<rparr>),
      bm_files := (bm_files s)(f_name h := Some (put_at (f_pos h) (take n (drop (f_pos tf) c)) D))\<rparr>)"
  using assms
proof (induction n arbitrary: tf s h D)
  case 0
  have "s\<lparr>bm_disk := bm_disk s, bm_files := bm_files s\<rparr> = s" by simp
  then show ?case using 0 by (simp add: put_at_Nil fun_upd_idem)
next
  case (Suc n)
  let ?c = "c ! f_pos tf"
  let ?tf = "tf\<lparr>f_pos := f_pos tf + 1\<rparr>" and ?h = "h\<lparr>f_pos := f_pos h + 1\<rparr>" and ?D = "put_at (f_pos h) [?c] D"
  let ?s = "s\<lparr>bm_files := (bm_files s)(f_name h := Some ?D), bm_disk := Some ?h\<rparr>"
  have dr: "drop (f_pos tf) c = ?c # drop (f_pos tf + 1) c" using Suc.prems(7) Cons_nth_drop_Suc [of "f_pos tf" c] by simp
  have g: "host_getc tf s = (?c, ?tf)" using Suc.prems(5) by (simp add: host_getc_def host_fread_def file_of_def dr)
  have w: "disk_fwrite [?c] s = Some (True, ?s)" using Suc.prems by (simp add: disk_fwrite_def write_all file_of_def)
  have "\<exists>tf'. write_bytes_disk n ?tf ?s = Some (tf', ?s\<lparr>bm_disk := Some (?h\<lparr>f_pos := f_pos ?h + n\<rparr>),
      bm_files := (bm_files ?s)(f_name ?h := Some (put_at (f_pos ?h) (take n (drop (f_pos ?tf) c)) ?D))\<rparr>)"
    by (rule Suc.IH) (use Suc.prems in \<open>simp_all add: length_put_at\<close>)
  moreover have "put_at (f_pos h + 1) (take n (drop (f_pos tf + 1) c)) ?D = put_at (f_pos h) (take (Suc n) (drop (f_pos tf) c)) D"
    using put_at_put_at [of "f_pos h" "[?c]"] by (simp add: dr)
  ultimately show ?case using g w by simp (simp add: fun_upd_def)
qed

lemma read_bytes_all:
  assumes "bm_disk s = Some h" and "bm_fwrite_ok s = []" and "bm_files s (f_name h) = Some D" and "f_pos h + n \<le> length D"
    and "bm_files s (f_name tf) = Some t" and "f_name tf \<noteq> f_name h" and "f_pos tf = length t"
  shows "\<exists>tf'. read_bytes n tf s = Some (tf', s\<lparr>bm_disk := Some (h\<lparr>f_pos := f_pos h + n\<rparr>),
      bm_files := (bm_files s)(f_name tf := Some (t @ take n (drop (f_pos h) D)))\<rparr>)"
  using assms
proof (induction n arbitrary: tf s h t)
  case 0
  have "s\<lparr>bm_disk := bm_disk s, bm_files := bm_files s\<rparr> = s" by simp
  then show ?case using 0 by (simp add: fun_upd_idem)
next
  case (Suc n)
  let ?c = "D ! f_pos h"
  let ?tf = "tf\<lparr>f_pos := f_pos tf + 1\<rparr>" and ?h = "h\<lparr>f_pos := f_pos h + 1\<rparr>"
  let ?s = "s\<lparr>bm_disk := Some ?h, bm_files := (bm_files s)(f_name tf := Some (t @ [?c]))\<rparr>"
  have dr: "drop (f_pos h) D = ?c # drop (f_pos h + 1) D" using Suc.prems(4) Cons_nth_drop_Suc [of "f_pos h" D] by simp
  have g: "host_getc h s = (?c, ?h)" using Suc.prems(3) by (simp add: host_getc_def host_fread_def file_of_def dr)
  have w: "host_fwrite [?c] tf (s\<lparr>bm_disk := Some ?h\<rparr>) = (True, ?tf, ?s)"
    using Suc.prems by (simp add: write_all file_of_def put_at_def)
  have "\<exists>tf'. read_bytes n ?tf ?s = Some (tf', ?s\<lparr>bm_disk := Some (?h\<lparr>f_pos := f_pos ?h + n\<rparr>),
      bm_files := (bm_files ?s)(f_name ?tf := Some ((t @ [?c]) @ take n (drop (f_pos ?h) D)))\<rparr>)"
    by (rule Suc.IH) (use Suc.prems in simp_all)
  then show ?case using g w Suc.prems(1) by (simp add: dr) (simp add: fun_upd_def)
qed

subsection \<open>read and write\<close>

lemma sint_word_of_nat_small:
  assumes "n < 2 ^ 63"
  shows "sint (of_nat n :: u64) = int n"
proof -
  have "sint (word_of_int (int n) :: u64) = int n"
    using assms by (simp add: signed_of_int signed_take_bit_int_eq_self del: of_int_of_nat_eq)
  then show ?thesis by simp
qed

lemma block_offset:
  assumes "placed nb e" and "nb < 2 ^ 31"
  shows "host_fseek (sint (StartingBlock e * 2097152)) h = h\<lparr>f_pos := 2097152 * unat (StartingBlock e)\<rparr>"
    and "unat (ReservedBlocks e * 2097152) = 2097152 * unat (ReservedBlocks e)"
proof -
  have b: "unat (StartingBlock e) < 2 ^ 31" "unat (ReservedBlocks e) < 2 ^ 31" using assms by (simp_all add: placed_def)
  show "unat (ReservedBlocks e * 2097152) = 2097152 * unat (ReservedBlocks e)"
    using b(2) by (subst unat_mult_lem [THEN iffD1]) simp_all
  have w: "StartingBlock e * 2097152 = of_nat (2097152 * unat (StartingBlock e))" by simp
  have "sint (StartingBlock e * 2097152) = int (2097152 * unat (StartingBlock e))"
    unfolding w by (rule sint_word_of_nat_small) (use b(1) in simp)
  then show "host_fseek (sint (StartingBlock e * 2097152)) h = h\<lparr>f_pos := 2097152 * unat (StartingBlock e)\<rparr>"
    by (simp only: host_fseek_def of_nat_less_0_iff if_False nat_int)
qed

text \<open>A write leaves the disk with the bytes in the blocks of the file and the new directory.\<close>

lemma write_eval:
  assumes m: "mounted nb h s" and i: "present (Directory s) i" and f: "0 \<in> set f" "entry_name (Directory s) i = cstr f"
    and c: "bm_files s (cstr f) = Some c" "length c < 2 ^ 31" "cstr f \<noteq> f_name h"
    and fits: "length c \<le> 2097152 * unat (ReservedBlocks (dir_entry (Directory s) i))"
  shows "\<exists>s'. bmfs_write (Some f) s = Some s' \<and> Directory s' = put_at (64 * i + 48) (le_bytes 8 (of_nat (length c) :: u64)) (Directory s)
    \<and> bm_files s' = (bm_files s)(f_name h := Some (put_at 4096 (Directory s')
        (put_at (2097152 * unat (StartingBlock (dir_entry (Directory s) i))) c (file_of h s))))
    \<and> bm_disk s' = Some (h\<lparr>f_pos := 8192\<rparr>) \<and> bm_fwrite_ok s' = [] \<and> bm_writable s' = bm_writable s"
proof -
  let ?e = "dir_entry (Directory s) i" and ?n = "of_nat (length c) :: u64"
  let ?p = "2097152 * unat (StartingBlock ?e)" and ?D = "file_of h s"
  let ?dir = "put_at (64 * i + 48) (le_bytes 8 ?n) (Directory s)"
  note M = m [unfolded mounted_def]
  have i64: "i < 64" using i by (simp add: present_def)
  have pl: "placed nb ?e" using M i by (simp add: dir_okD(2))
  have len: "length (Directory s) = 4096" using M by (simp add: dir_ok_def)
  obtain t where ff: "findfile (Some f) s = Some (Some (?e, i), s\<lparr>bm_entry := t\<rparr>)" using findfile_present [OF _ i f] M by blast
  have n: "unat ?n = length c" using c(2) by (simp add: unat_of_nat_small)
  have small: "\<not> ReservedBlocks ?e * 2097152 < ?n" using fits n block_offset(2) [OF pl] M by (simp add: word_less_nat_alt)
  let ?s1 = "say ''Writing local file '%s' to BMFS... '' [HStr (cstr f)] (s\<lparr>bm_entry := t\<rparr>)"
  let ?h1 = "h\<lparr>f_pos := ?p\<rparr>"
  let ?s2 = "?s1\<lparr>bm_disk := Some ?h1\<rparr>"
  have seek: "disk_fseek (sint (StartingBlock ?e * 2097152)) ?s1 = Some ?s2"
    using M block_offset(1) [OF pl] by (simp add: disk_fseek_def)
  have D: "bm_files s (f_name h) = Some ?D" using M by (auto simp: file_of_def)
  have "?p \<le> length ?D" using M pl by (simp add: placed_def)
  then obtain tf where loop: "write_bytes_disk (length c) \<lparr>f_name = cstr f, f_pos = 0, f_err = False\<rparr> ?s2 =
      Some (tf, ?s2\<lparr>bm_disk := Some (?h1\<lparr>f_pos := f_pos ?h1 + length c\<rparr>), bm_files := (bm_files ?s2)(f_name ?h1 := Some (put_at (f_pos ?h1) (take (length c) (drop 0 c)) ?D))\<rparr>)"
    using write_bytes_disk_all [of ?s2 ?h1 ?D "\<lparr>f_name = cstr f, f_pos = 0, f_err = False\<rparr>" c "length c"] M D c
    by (auto simp: say_def)
  let ?s3 = "?s2\<lparr>bm_disk := Some (?h1\<lparr>f_pos := f_pos ?h1 + length c\<rparr>), bm_files := (bm_files ?s2)(f_name ?h1 := Some (put_at (f_pos ?h1) (take (length c) (drop 0 c)) ?D)), Directory := ?dir\<rparr>"
  have "bmfs_write (Some f) s = do {
      s \<leftarrow> disk_fseek 4096 ?s3; (_, s) \<leftarrow> disk_fwrite (Directory s) s; Some (say (''Complete'' @ [CHR 0x0A]) [] s) }"
    unfolding bmfs_write_def ff Let_def using c small seek loop n by (simp add: say_def)
  also have "\<dots> = Some (say (''Complete'' @ [CHR 0x0A]) [] (flushed (?h1\<lparr>f_pos := f_pos ?h1 + length c\<rparr>) ?s3))"
    by (rule flush_directory) (use M in \<open>simp_all add: say_def\<close>)
  finally show ?thesis using len i64 M by (auto simp: flushed_def file_of_def say_def)
qed

lemma read_eval:
  assumes ok: "dir_ok nb (Directory s)" and nb: "nb < 2 ^ 31" and d: "bm_disk s = Some h" "bm_fwrite_ok s = []" "bm_files s (f_name h) = Some D"
    and i: "present (Directory s) i" and f: "0 \<in> set f" "entry_name (Directory s) i = cstr f" "cstr f \<noteq> f_name h" "bm_writable s (cstr f)"
    and n: "unat (FileSize (dir_entry (Directory s) i)) = n" "n < 2 ^ 31" "2097152 * unat (StartingBlock (dir_entry (Directory s) i)) + n \<le> length D"
  shows "\<exists>s'. bmfs_read (Some f) s = Some s'
    \<and> bm_files s' = (bm_files s)(cstr f := Some (take n (drop (2097152 * unat (StartingBlock (dir_entry (Directory s) i))) D)))"
proof -
  let ?e = "dir_entry (Directory s) i"
  let ?p = "2097152 * unat (StartingBlock ?e)"
  have pl: "placed nb ?e" by (rule dir_okD(2) [OF ok i])
  have ce: "cstr ?e = cstr f" using f(2) by (simp add: entry_name_def)
  have z: "0 \<in> set ?e" using ok i unfolding dir_ok_def by (meson in_set_takeD)
  obtain t where ff: "findfile (Some f) s = Some (Some (?e, i), s\<lparr>bm_entry := t\<rparr>)" using findfile_present [OF ok i f(1,2)] by blast
  let ?s1 = "say ''Reading '%s' from BMFS to local file... '' [HStr (cstr f)] (s\<lparr>bm_entry := t\<rparr>)"
  let ?s2 = "?s1\<lparr>bm_files := (bm_files ?s1)(cstr f := Some [])\<rparr>" and ?h1 = "h\<lparr>f_pos := ?p\<rparr>"
  let ?s3 = "?s2\<lparr>bm_disk := Some ?h1\<rparr>" and ?tf = "\<lparr>f_name = cstr f, f_pos = 0, f_err = False\<rparr>"
  have seek: "disk_fseek (sint (StartingBlock ?e * 2097152)) ?s2 = Some ?s3"
    using d block_offset(1) [OF pl nb] by (simp add: disk_fseek_def)
  have "\<exists>tf'. read_bytes n ?tf ?s3 = Some (tf', ?s3\<lparr>bm_disk := Some (?h1\<lparr>f_pos := f_pos ?h1 + n\<rparr>),
      bm_files := (bm_files ?s3)(f_name ?tf := Some ([] @ take n (drop (f_pos ?h1) D)))\<rparr>)"
    by (rule read_bytes_all) (use d f(3) n in \<open>simp_all add: say_def\<close>)
  then obtain tf' where loop: "read_bytes n ?tf ?s3 = Some (tf', ?s3\<lparr>bm_disk := Some (?h1\<lparr>f_pos := f_pos ?h1 + n\<rparr>),
      bm_files := (bm_files ?s3)(f_name ?tf := Some ([] @ take n (drop (f_pos ?h1) D)))\<rparr>)" by blast
  show ?thesis
    unfolding bmfs_read_def ff Let_def using seek loop n(1,2) f(4) z by (simp add: ce)
qed

text \<open>
  After \<open>write\<close> has copied a local file into BMFS, the directory on the disk has its size, the blocks of all other files are
  as they were, and \<open>read\<close> brings back the file, whatever the local file has become.
\<close>

theorem write_read_roundtrip:
  assumes m: "mounted nb h s" and i: "present (Directory s) i" and f: "0 \<in> set f" "entry_name (Directory s) i = cstr f"
    and c: "bm_files s (cstr f) = Some c" "length c < 2 ^ 31" "cstr f \<noteq> f_name h" "bm_writable s (cstr f)"
    and fits: "length c \<le> 2097152 * unat (ReservedBlocks (dir_entry (Directory s) i))"
  shows "\<exists>s'. bmfs_write (Some f) s = Some s' \<and> dir_ok nb (Directory s') \<and> on_disk h (Directory s') s'
    \<and> (\<forall>j. present (Directory s) j \<longrightarrow> j \<noteq> i \<longrightarrow> dir_entry (Directory s') j = dir_entry (Directory s) j
         \<and> block_bytes h (dir_entry (Directory s) j) s' = block_bytes h (dir_entry (Directory s) j) s)
    \<and> (\<forall>x. \<exists>s''. bmfs_read (Some f) (s'\<lparr>bm_files := (bm_files s')(cstr f := x)\<rparr>) = Some s'' \<and> bm_files s'' (cstr f) = Some c)"
proof -
  let ?d = "Directory s"
  let ?e = "dir_entry ?d i" and ?n = "of_nat (length c) :: u64"
  let ?p = "2097152 * unat (StartingBlock ?e)" and ?D = "file_of h s"
  obtain s' where s': "bmfs_write (Some f) s = Some s'" "Directory s' = put_at (64 * i + 48) (le_bytes 8 ?n) ?d"
    "bm_files s' = (bm_files s)(f_name h := Some (put_at 4096 (Directory s') (put_at ?p c ?D)))"
    "bm_disk s' = Some (h\<lparr>f_pos := 8192\<rparr>)" "bm_fwrite_ok s' = []" "bm_writable s' = bm_writable s"
    using write_eval [OF m i f c(1-3) fits] by blast
  note M = m [unfolded mounted_def]
  have ok: "dir_ok nb ?d" and nb: "nb < 2 ^ 31" using M by auto
  have i64: "i < 64" using i by (simp add: present_def)
  note P = put_size [OF dir_okD(1) [OF ok] i64, where v = ?n, folded s'(2)]
  have pl: "placed nb ?e" by (rule dir_okD(2) [OF ok i])
  note A = agree_dir [OF ok P(1,2)]
  have len: "?p + length c \<le> length ?D" "8192 \<le> ?p" using M pl fits by (simp_all add: placed_def)
  let ?D1 = "put_at ?p c ?D"
  let ?D2 = "put_at 4096 (Directory s') ?D1"
  have l1: "length ?D1 = length ?D" using len by simp
  have far: "take k (drop q ?D2) = take k (drop q ?D1)" if "8192 \<le> q" "q + k \<le> length ?D" for q k
    by (rule part_put_at_other) (use that P(1) l1 len in auto)
  have "block_bytes h (dir_entry ?d j) s' = block_bytes h (dir_entry ?d j) s" if j: "present ?d j" "j \<noteq> i" for j
  proof -
    let ?g = "dir_entry ?d j"
    have pg: "placed nb ?g" by (rule dir_okD(2) [OF ok j(1)])
    have "blocks ?g \<inter> blocks ?e = {}" by (rule dir_okD(4) [OF ok j(1) i j(2)])
    then have "unat (StartingBlock ?g) + unat (ReservedBlocks ?g) \<le> unat (StartingBlock ?e) \<or>
      unat (StartingBlock ?e) + unat (ReservedBlocks ?e) \<le> unat (StartingBlock ?g)"
      using pg pl unfolding blocks_def placed_def by (simp add: Int_atLeastLessThan max_def min_def split: if_splits)
    then have "2097152 * unat (StartingBlock ?g) + 2097152 * unat (ReservedBlocks ?g) \<le> ?p \<or> ?p + length c \<le> 2097152 * unat (StartingBlock ?g)"
      using fits by linarith
    moreover have q: "2097152 * unat (StartingBlock ?g) + 2097152 * unat (ReservedBlocks ?g) \<le> length ?D" "8192 \<le> 2097152 * unat (StartingBlock ?g)"
      using M pg by (simp_all add: placed_def)
    ultimately have "take (2097152 * unat (ReservedBlocks ?g)) (drop (2097152 * unat (StartingBlock ?g)) ?D1)
        = take (2097152 * unat (ReservedBlocks ?g)) (drop (2097152 * unat (StartingBlock ?g)) ?D)"
      by (intro part_put_at_other) (use len in auto)
    then show ?thesis unfolding block_bytes_def using far [OF q(2,1)] s'(3) by (simp add: file_of_def)
  qed
  moreover have "on_disk h (Directory s') s'" by (rule written_on_disk [OF s'(3) P(1)])
  moreover have "\<exists>s''. bmfs_read (Some f) (s'\<lparr>bm_files := (bm_files s')(cstr f := x)\<rparr>) = Some s'' \<and> bm_files s'' (cstr f) = Some c" for x
  proof -
    let ?s = "s'\<lparr>bm_files := (bm_files s')(cstr f := x)\<rparr>" and ?e' = "dir_entry (Directory s') i"
    have same: "StartingBlock ?e' = StartingBlock ?e" using agree_fields(1) [OF P(2) [OF i64]] .
    have size: "unat (FileSize ?e') = length c" unfolding P(4) using c(2) by (simp add: unat_of_nat_small)
    have "\<exists>s''. bmfs_read (Some f) ?s = Some s''
      \<and> bm_files s'' = (bm_files ?s)(cstr f := Some (take (length c) (drop (2097152 * unat (StartingBlock (dir_entry (Directory ?s) i))) ?D2)))"
      by (rule read_eval [where nb = nb and h = "h\<lparr>f_pos := 8192\<rparr>"])
        (use A f c(2,3,4) s'(3-6) nb i size same len P(1) in \<open>simp_all add: length_put_at\<close>)
    moreover have "take (length c) (drop ?p ?D2) = c" using far [OF len(2,1)] part_put_at_same [OF len(1)] by simp
    ultimately show ?thesis using same by auto
  qed
  moreover have "dir_entry (Directory s') j = dir_entry ?d j" if "present ?d j" "j \<noteq> i" for j
    using that P(3) by (simp add: present_def)
  ultimately show ?thesis using s'(1) A(2) by blast
qed

text \<open>\<open>delete\<close> takes the file out of the directory, in memory and on the disk, and nothing else.\<close>

theorem delete_removes:
  assumes m: "mounted nb h s" and i: "present (Directory s) i" and f: "0 \<in> set f" "entry_name (Directory s) i = cstr f"
  shows "\<exists>s' s''. bmfs_delete (Some f) s = Some s' \<and> dir_ok nb (Directory s') \<and> on_disk h (Directory s') s'
    \<and> (\<forall>j. present (Directory s') j \<longleftrightarrow> present (Directory s) j \<and> j \<noteq> i)
    \<and> (\<forall>j. j < 64 \<longrightarrow> j \<noteq> i \<longrightarrow> dir_entry (Directory s') j = dir_entry (Directory s) j)
    \<and> findfile (Some f) s' = Some (None, s'')"
proof -
  note M = m [unfolded mounted_def]
  let ?d = "Directory s" and ?d' = "(Directory s)[64 * i := 1]"
  have ok: "dir_ok nb ?d" and i64: "i < 64" using M i by (auto simp: present_def)
  note len = dir_okD(1) [OF ok]
  obtain t where ff: "findfile (Some f) s = Some (Some (dir_entry ?d i, i), s\<lparr>bm_entry := t\<rparr>)" using findfile_present [OF ok i f] by blast
  let ?s = "say ''Deleting file '%s' from BMFS... '' [HStr (cstr f)] (s\<lparr>bm_entry := t\<rparr>)\<lparr>Directory := ?d'\<rparr>"
  have "bmfs_delete (Some f) s = do {
      s \<leftarrow> disk_fseek 4096 ?s; (_, s) \<leftarrow> disk_fwrite (Directory s) s; Some (say (''Complete'' @ [CHR 0x0A]) [] s) }"
    unfolding bmfs_delete_def ff Let_def by simp
  also have "\<dots> = Some (say (''Complete'' @ [CHR 0x0A]) [] (flushed h ?s))"
    by (rule flush_directory) (use M in simp_all)
  finally obtain s' where s': "bmfs_delete (Some f) s = Some s'" "Directory s' = ?d'"
    "bm_files s' = (bm_files s)(f_name h := Some (put_at 4096 (Directory s') (file_of h s)))"
    by (simp add: flushed_def file_of_def)
  have other: "dir_entry ?d' j = dir_entry ?d j" if "j < 64" "j \<noteq> i" for j by (rule dir_entry_update [OF len that])
  have first: "dir_entry ?d' i ! 0 = 1" by (rule dir_entry_update_first [OF len i64])
  have z: "dir_entry ?d' j ! 0 = 0 \<longleftrightarrow> dir_entry ?d j ! 0 = 0" if "j < 64" for j
    using first other [OF that] i by (cases "j = i") (auto simp: present_def)
  have p: "present ?d' j \<longleftrightarrow> present ?d j \<and> j \<noteq> i" for j
  proof (cases "j = i")
    case True
    then show ?thesis using first by (simp add: present_def)
  next
    case False
    then show ?thesis using z other [of j] by (auto simp: present_def)
  qed
  have e: "dir_entry ?d' j = dir_entry ?d j" if "present ?d' j" for j using that p other by (simp add: present_def)
  have ok': "dir_ok nb ?d'" by (rule dir_ok_fewer [OF ok]) (use len p e in simp_all)
  obtain r q where ff': "findfile (Some f) s' = Some (map_option (\<lambda>i. (dir_entry ?d' i, i)) r, q)" "lookup_name ?d' (cstr f) r"
    using findfile_finds [of nb s' f] ok' f(1) s'(2) by auto
  have "entry_name ?d' j \<noteq> cstr f" if "present ?d' j" for j
    using that e [OF that] ok i f(2) unfolding p dir_ok_def entry_name_def by metis
  then have "r = None" using ff'(2) by (cases r) (auto simp: lookup_name_def)
  then have "findfile (Some f) s' = Some (None, q)" using ff'(1) by simp
  moreover have "on_disk h (Directory s') s'" by (rule written_on_disk [OF s'(3)]) (simp add: s'(2) len)
  ultimately show ?thesis using s'(1) ok' by (intro exI [of _ s'] exI [of _ q]) (simp add: s'(2) p other)
qed

text \<open>A disk of three blocks with one file in the second.\<close>

abbreviation sample_bmfs :: bmfs_state where
  "sample_bmfs \<equiv> sample_state (replicate (3 * 2097152) 0) 6 (sample_dir [sample_entry 97 1 1]) (Map.empty([97] := Some [1, 2, 3]))"

lemma sample_mounted:
  shows "mounted 3 sample_disk sample_bmfs" and "present (Directory sample_bmfs) 0" and "dir_entry (Directory sample_bmfs) 0 = sample_entry 97 1 1"
proof -
  have pl: "placed 3 (sample_entry 97 1 1)" by (simp add: placed_def)
  have S: "dir_ok 3 (sample_dir [sample_entry 97 1 1])" "present (sample_dir [sample_entry 97 1 1]) 0"
    "dir_entry (sample_dir [sample_entry 97 1 1]) 0 = sample_entry 97 1 1"
    using sample_one(2) [of 97 3 1 1 0] sample_one(3,4) [of 97 3 1 1] pl by simp_all
  show "mounted 3 sample_disk sample_bmfs" unfolding mounted_def using S(1) by simp
  show "present (Directory sample_bmfs) 0" "dir_entry (Directory sample_bmfs) 0 = sample_entry 97 1 1" using S by simp_all
qed

lemma write_read_roundtrip_witness:
  "\<exists>s' s''. bmfs_write (Some [97, 0]) sample_bmfs = Some s'
    \<and> bmfs_read (Some [97, 0]) (s'\<lparr>bm_files := (bm_files s')([97] := None)\<rparr>) = Some s'' \<and> bm_files s'' [97] = Some [1, 2, 3]"
proof -
  have "entry_name (Directory sample_bmfs) 0 = cstr [97, 0]" unfolding entry_name_def sample_mounted(3) by (simp add: cstr_one)
  moreover have "length [1, 2, 3 :: u8] \<le> 2097152 * unat (ReservedBlocks (dir_entry (Directory sample_bmfs) 0))"
    unfolding sample_mounted(3) by simp
  ultimately have "\<exists>s'. bmfs_write (Some [97, 0]) sample_bmfs = Some s' \<and> (\<forall>x. \<exists>s''. bmfs_read (Some [97, 0])
      (s'\<lparr>bm_files := (bm_files s')(cstr [97, 0] := x)\<rparr>) = Some s'' \<and> bm_files s'' (cstr [97, 0]) = Some [1, 2, 3])"
    using write_read_roundtrip [OF sample_mounted(1,2), of "[97, 0]" "[1, 2, 3]"] by (simp add: cstr_one) blast
  then show ?thesis by (simp add: cstr_one) blast
qed

lemma delete_removes_witness:
  "\<exists>s' s''. bmfs_delete (Some [97, 0]) sample_bmfs = Some s' \<and> findfile (Some [97, 0]) s' = Some (None, s'')"
proof -
  have "entry_name (Directory sample_bmfs) 0 = cstr [97, 0]" unfolding entry_name_def sample_mounted(3) by (simp add: cstr_one)
  from delete_removes [OF sample_mounted(1,2) _ this] show ?thesis by auto
qed

end
