(* ===== verification/Bmfs_Main.thy ===== *)
theory Bmfs_Main
  imports Bmfs
begin

section \<open>The disk file system tool: initialize and the command line\<close>

text \<open>
  \<open>initialize\<close> makes a disk of the given size, with boot record, boot loader and kernel; \<open>main\<close> picks the command.
\<close>

subsection \<open>initialize\<close>

abbreviation minimumDiskSize :: u64 where "minimumDiskSize \<equiv> 6291456"
abbreviation bufferSize :: nat where "bufferSize \<equiv> 51200"

text \<open>
  The loop over the size string, at its position \<open>i\<close>: \<open>ret\<close>, \<open>diskSize\<close>, \<open>diskSizeFactor\<close>. It stops at the end
  of the string and at an error.
\<close>

fun size_loop :: "u8 list \<Rightarrow> nat \<Rightarrow> u8 list \<Rightarrow> u64 \<Rightarrow> nat \<Rightarrow> bmfs_state \<Rightarrow> (int \<times> u64 \<times> nat \<times> bmfs_state) option" where
  "size_loop sz i [] diskSize factor s = None"
| "size_loop sz i (ch # cs) diskSize factor s =
     (if ch = 0 then Some (0, diskSize, factor, s)
      else if host_isdigit ch then
        (let n = ucast (ch - 48) :: u64
         in if diskSize * 10 > diskSize then size_loop sz (i + 1) cs (diskSize * 10 + n) factor s
            else if diskSize = 0 then size_loop sz (i + 1) cs (diskSize + n) factor s
            else Some (1, diskSize, factor, say (''Error: Disk size is too large'' @ [CHR 0x0A]) [] s))
      else if i = 0 then Some (1, diskSize, factor, say (''Error: A numeric disk size must be specified'' @ [CHR 0x0A]) [] s)
      else do {
        let c = host_toupper ch;
        let invalid = say (''Error: Invalid disk size string: '%s'' @ [CHR 0x27, CHR 0x0A]) [HStr (cstr sz)] s;
        (if c \<notin> {75, 77, 71, 84, 80} then Some (1, diskSize, factor, invalid)
         else do {
           let factor = (if c = 75 then 1 else if c = 77 then 2 else if c = 71 then 3 else if c = 84 then 4 else 5);
           x \<leftarrow> obj_get cs 0;
           (if x \<noteq> 0 then Some (1, diskSize, factor, invalid)
            else size_loop sz (i + 1) cs diskSize factor s)
         })
      })"

primrec scale_loop :: "nat \<Rightarrow> u64 \<Rightarrow> int \<Rightarrow> bmfs_state \<Rightarrow> int \<times> u64 \<times> bmfs_state" where
  "scale_loop 0 diskSize ret s = (ret, diskSize, s)"
| "scale_loop (Suc factor) diskSize ret s =
     (if diskSize * 1024 > diskSize then scale_loop factor (diskSize * 1024) ret s
      else scale_loop factor diskSize 1 (say (''Error: Disk size is too large'' @ [CHR 0x0A]) [] s))"

text \<open>\<open>fopen\<close> for reading, when a name was given and no error occurred before.\<close>

definition open_source ::
  "string \<Rightarrow> harg list \<Rightarrow> u8 list option \<Rightarrow> int \<Rightarrow> bmfs_state \<Rightarrow> int \<times> hfile option \<times> bmfs_state"
where
  "open_source fmt args path ret s =
     (case path of
        None \<Rightarrow> (ret, None, s)
      | Some p \<Rightarrow>
          if ret \<noteq> 0 then (ret, None, s)
          else if bm_files s (cstr p) = None then (1, None, say fmt (args @ [HStr (cstr p)]) s)
          else (ret, Some \<lparr>f_name = cstr p, f_pos = 0, f_err = False\<rparr>, s))"

definition write_failed :: "bmfs_state \<Rightarrow> bmfs_state" where
  "write_failed s = say (''Error: Failed to write disk '%s'' @ [CHR 0x27, CHR 0x0A]) [HStr (bm_diskname s)] s"

definition read_failed :: "u8 list \<Rightarrow> bmfs_state \<Rightarrow> bmfs_state" where
  "read_failed path s = say (''Error: Failed to read file '%s'' @ [CHR 0x27, CHR 0x0A]) [HStr (cstr path)] s"

text \<open>The percentage in the message follows from its two numbers and is left out.\<close>

partial_function (option) fill_loop :: "u64 \<Rightarrow> u64 \<Rightarrow> bmfs_state \<Rightarrow> (int \<times> u64 \<times> bmfs_state) option" where
  "fill_loop writeSize diskSize s =
     (if writeSize < diskSize
      then do {
        let s = say (''Formatting disk: %llu of %llu bytes (%.0f%%)...'' @ [CHR 0x0D]) [HNum (uint writeSize), HNum (uint diskSize)] s;
        let chunkSize = (if of_nat bufferSize > diskSize - writeSize then diskSize - writeSize else of_nat bufferSize);
        (ok, s) \<leftarrow> disk_fwrite (replicate (unat chunkSize) 0) s;
        (if \<not> ok then Some (1, writeSize, write_failed s)
         else fill_loop (writeSize + chunkSize) diskSize s)
      }
      else Some (0, writeSize, s))"

text \<open>The copy loops ask for the error indicator of \<open>disk\<close>, not of the file that is read.\<close>

partial_function (option) copy_loop :: "u8 list \<Rightarrow> hfile \<Rightarrow> int \<Rightarrow> bmfs_state \<Rightarrow> (int \<times> bmfs_state) option" where
  "copy_loop path src ret s =
     (case host_fread bufferSize src s of (chunk, src) \<Rightarrow>
        if chunk \<noteq> []
        then do {
          (ok, s) \<leftarrow> disk_fwrite chunk s;
          (if ok then copy_loop path src ret s else copy_loop path src 1 (write_failed s))
        }
        else do {
          f \<leftarrow> bm_disk s;
          (if f_err f then Some (1, read_failed path s) else Some (ret, s))
        })"

definition write_mbr :: "u8 list \<Rightarrow> hfile \<Rightarrow> bmfs_state \<Rightarrow> (int \<times> bmfs_state) option" where
  "write_mbr path src s = do {
     let s = say (''Writing master boot record.'' @ [CHR 0x0A]) [] s;
     s \<leftarrow> disk_fseek 0 s;
     let (got, _) = host_fread 512 src s;
     (if length got = 512
      then do {
        (ok, s) \<leftarrow> disk_fwrite got s;
        Some (if ok then (0, s) else (1, write_failed s))
      }
      else Some (1, read_failed path s))
   }"

text \<open>The test \<open>ret == 0 && file != NULL\<close> before each of the three files.\<close>

definition if_open ::
  "u8 list option \<times> hfile option \<Rightarrow> (u8 list \<Rightarrow> hfile \<Rightarrow> bmfs_state \<Rightarrow> (int \<times> bmfs_state) option) \<Rightarrow> int \<Rightarrow> bmfs_state \<Rightarrow> (int \<times> bmfs_state) option"
where
  "if_open given act ret s =
     (case given of (Some path, Some src) \<Rightarrow> if ret = 0 then act path src s else Some (ret, s) | _ \<Rightarrow> Some (ret, s))"

definition write_image ::
  "u64 \<Rightarrow> u8 list option \<times> hfile option \<Rightarrow> harg list \<Rightarrow> u8 list option \<times> hfile option \<Rightarrow> u8 list option \<times> hfile option \<Rightarrow>
   bmfs_state \<Rightarrow> (int \<times> bmfs_state) option"
where
  "write_image diskSize mbr bootFileType boot kern s = do {
     (ret, writeSize, s) \<leftarrow> fill_loop 0 diskSize s;
     s \<leftarrow> (if ret = 0
         then do {
           let s = say (''Formatting disk: %llu of %llu bytes (100%%)%9s'' @ [CHR 0x0A]) [HNum (uint writeSize), HNum (uint diskSize), HStr []] s;
           s \<leftarrow> disk_fseek 0 s;
           bmfs_format s
         }
         else Some s);
     (ret, s) \<leftarrow> if_open mbr write_mbr ret s;
     (ret, s) \<leftarrow> if_open boot (\<lambda>path src s. do {
          let s = say (''Writing %s file.'' @ [CHR 0x0A]) bootFileType s;
          s \<leftarrow> disk_fseek 8192 s;
          copy_loop path src 0 s
        }) ret s;
     if_open kern (\<lambda>path src s. copy_loop path src 0 (say (''Writing kernel.'' @ [CHR 0x0A]) [] s)) ret s
   }"

definition bmfs_initialize ::
  "u8 list \<Rightarrow> u8 list \<Rightarrow> u8 list option \<Rightarrow> u8 list option \<Rightarrow> u8 list option \<Rightarrow> bmfs_state \<Rightarrow> (int \<times> bmfs_state) option"
where
  "bmfs_initialize diskname sz mbr boot kern s = do {
     let bootFileType = (if boot = None then [] else [HStr (bytes (if kern = None then ''system'' else ''boot loader''))]);
     (ret, diskSize, factor, s) \<leftarrow> size_loop sz 0 sz 0 0 s;
     let (ret, diskSize, s) = (if ret = 0 \<and> diskSize > 0 \<and> factor > 0 then scale_loop factor diskSize ret s else (ret, diskSize, s));
     let (ret, s) = (if ret = 0 \<and> diskSize < minimumDiskSize
                     then (1, say (''Error: Disk size must be at least %llu bytes (%lluMiB)'' @ [CHR 0x0A])
                                [HNum (uint minimumDiskSize), HNum (uint (minimumDiskSize div (1024 * 1024)))] s)
                     else (ret, s));
     let (ret, mbrFile, s) = open_source (''Error: Unable to open MBR file '%s'' @ [CHR 0x27, CHR 0x0A]) [] mbr ret s;
     let (ret, bootFile, s) = open_source (''Error: Unable to open %s file '%s'' @ [CHR 0x27, CHR 0x0A]) bootFileType boot ret s;
     let (ret, kernelFile, s) = open_source (''Error: Unable to open kernel file '%s'' @ [CHR 0x27, CHR 0x0A]) [] kern ret s;
     let (ret, s) = (if ret = 0 \<and> \<not> bm_malloc_ok s then (1, say (''Error: Failed to allocate buffer'' @ [CHR 0x0A]) [] s) else (ret, s));
     (if ret \<noteq> 0 then Some (ret, s)
      else if \<not> bm_writable s (cstr diskname)
      then Some (1, say (''Error: Unable to open disk '%s'' @ [CHR 0x27, CHR 0x0A]) [HStr (cstr diskname)] s)
      else do {
        let s = s\<lparr>bm_files := (bm_files s)(cstr diskname := Some []),
                  bm_disk := Some \<lparr>f_name = cstr diskname, f_pos = 0, f_err = False\<rparr>\<rparr>;
        (ret, s) \<leftarrow> write_image diskSize (mbr, mbrFile) bootFileType (boot, bootFile) (kern, kernelFile) s;
        let s = s\<lparr>bm_disk := None\<rparr>;
        Some (ret, if ret = 0 then say (''Disk initialization complete.'' @ [CHR 0x0A]) [] s else s)
      })
   }"

subsection \<open>main\<close>

definition bmfs_usage :: "u8 list \<Rightarrow> bmfs_state \<Rightarrow> bmfs_state" where
  "bmfs_usage prog s =
     (let s = say (''BareMetal File System Utility v1.0 (2013 04 10)'' @ [CHR 0x0A]) [] s;
          s = say (''Written by Ian Seyler @ Return Infinity (ian.seyler@returninfinity.com)'' @ [CHR 0x0A, CHR 0x0A]) [] s;
          s = say (''Usage: %s disk function file'' @ [CHR 0x0A]) [HStr (cstr prog)] s;
          s = say (''Disk: the name of the disk file'' @ [CHR 0x0A]) [] s;
          s = say (''Function: list, read, write, create, delete, format, initialize'' @ [CHR 0x0A]) [] s
      in say (''File: (if applicable)'' @ [CHR 0x0A]) [] s)"

text \<open>The line that \<open>fgets\<close> reads into \<open>tempstring\<close>; with no input that is as it was, empty.\<close>

definition tempstring :: "bmfs_state \<Rightarrow> u8 list" where
  "tempstring s =
     (let line = takeWhile (\<lambda>c. c \<noteq> 10) (bm_stdin s);
          line = take 31 (if length line < length (bm_stdin s) then line @ [10] else line)
      in line @ [0])"

definition main_create :: "u8 list option \<Rightarrow> u8 list list \<Rightarrow> bmfs_state \<Rightarrow> bmfs_state option" where
  "main_create filename argv s =
     (case filename of
        None \<Rightarrow> Some (say (''Error: File name not specified.'' @ [CHR 0x0A]) [] s)
      | Some name \<Rightarrow>
          if length argv > 4
          then do {
            filesize \<leftarrow> host_atoi (argv ! 4);
            (if filesize \<ge> 1 then bmfs_create name (word_of_int filesize) s
             else Some (say (''Error: Invalid file size.'' @ [CHR 0x0A]) [] s))
          }
          else do {
            let s = say ''Maximum file size in MiB: '' [] s;
            size \<leftarrow> host_atoi (tempstring s);
            let filesize = (word_of_int size :: u32);
            (if filesize \<ge> 1 then bmfs_create name (ucast filesize) s
             else Some (say (''Error: Invalid file size.'' @ [CHR 0x0A]) [] s))
          })"

definition main_command :: "u8 list list \<Rightarrow> bmfs_state \<Rightarrow> bmfs_state option" where
  "main_command argv s = do {
     let command = argv ! 2;
     let filename = (if length argv > 3 then Some (argv ! 3) else None);
     is_list \<leftarrow> str_caseeq (bytes ''list'' @ [0]) command;
     is_format \<leftarrow> str_caseeq (bytes ''format'' @ [0]) command;
     is_create \<leftarrow> str_caseeq (bytes ''create'' @ [0]) command;
     is_read \<leftarrow> str_caseeq (bytes ''read'' @ [0]) command;
     is_write \<leftarrow> str_caseeq (bytes ''write'' @ [0]) command;
     is_delete \<leftarrow> str_caseeq (bytes ''delete'' @ [0]) command;
     (if is_list then Some (bmfs_list s)
      else if is_format then
        (case filename of
           None \<Rightarrow> Some (say (''Format aborted!'' @ [CHR 0x0A]) [] s)
         | Some force \<Rightarrow> do {
             forced \<leftarrow> str_caseeq force (bytes ''/FORCE'' @ [0]);
             (if forced then bmfs_format s else Some (say (''Format aborted!'' @ [CHR 0x0A]) [] s))
           })
      else if is_create then main_create filename argv s
      else if is_read then bmfs_read filename s
      else if is_write then bmfs_write filename s
      else if is_delete then bmfs_delete filename s
      else Some (say (''Unknown command'' @ [CHR 0x0A]) [] s))
   }"

text \<open>A buffer that \<open>fread\<close> fills as far as the file goes.\<close>

definition read_into :: "u8 list \<Rightarrow> u8 list \<Rightarrow> u8 list" where
  "read_into got buffer = got @ drop (length got) buffer"

definition open_disk :: "u8 list \<Rightarrow> bmfs_state \<Rightarrow> bmfs_state option" where
  "open_disk diskname s = do {
     let f = \<lparr>f_name = cstr diskname, f_pos = 0, f_err = False\<rparr>;
     let s = s\<lparr>bm_disk := Some f, disksize := of_nat (length (file_of f s) div 1048576)\<rparr>;
     s \<leftarrow> disk_fseek 1024 s;
     (got, s) \<leftarrow> disk_fread 512 s;
     let s = s\<lparr>DiskInfo := read_into got (DiskInfo s)\<rparr>;
     s \<leftarrow> disk_fseek 4096 s;
     (got, s) \<leftarrow> disk_fread 4096 s;
     let s = s\<lparr>Directory := read_into got (Directory s)\<rparr>;
     disk_fseek 0 s
   }"

definition bmfs_main :: "u8 list list \<Rightarrow> bmfs_state \<Rightarrow> (int \<times> bmfs_state) option" where
  "bmfs_main argv s =
     (if length argv < 3 then do {
        prog \<leftarrow> obj_get argv 0;
        Some (0, bmfs_usage prog s)
      }
      else do {
        let s = s\<lparr>bm_diskname := cstr (argv ! 1)\<rparr>;
        is_initialize \<leftarrow> str_caseeq (bytes ''initialize'' @ [0]) (argv ! 2);
        (if is_initialize then
           (if length argv \<ge> 4
            then bmfs_initialize (argv ! 1) (argv ! 3) (if length argv > 4 then Some (argv ! 4) else None)
                   (if length argv > 5 then Some (argv ! 5) else None) (if length argv > 6 then Some (argv ! 6) else None) s
            else (let s = say ''Usage: %s disk %s '' [HStr (cstr (argv ! 0)), HStr (cstr (argv ! 2))] s;
                      s = say ''size [mbr_file] '' [] s
                  in Some (1, say (''[bootloader_file] [kernel_file]'' @ [CHR 0x0A]) [] s)))
         else if bm_files s (cstr (argv ! 1)) = None \<or> \<not> bm_writable s (cstr (argv ! 1))
         then Some (0, say (''Error: Unable to open disk '%s'' @ [CHR 0x27, CHR 0x0A]) [HStr (cstr (argv ! 1))] s)
         else do {
           s \<leftarrow> open_disk (argv ! 1) s;
           valid \<leftarrow> str_caseeq (DiskInfo s) fs_tag;
           s \<leftarrow> (if valid then main_command argv s
               else do {
                 is_format \<leftarrow> str_caseeq (bytes ''format'' @ [0]) (argv ! 2);
                 (if is_format then bmfs_format s
                  else Some (say (''Error: Not a valid BMFS drive (Disk is not BMFS formatted).'' @ [CHR 0x0A]) [] s))
               });
           Some (0, s\<lparr>bm_disk := None\<rparr>)
         })
      })"

end
