(* ===== verification/Bmfs_Init.thy ===== *)
theory Bmfs_Init
  imports Bmfs_Files Bmfs_Main
begin

section \<open>initialize: the image of a disk\<close>

text \<open>
  The size text, the loops that fill the disk and copy the files (both end), and the image that is left.
\<close>

subsection \<open>The size of the disk\<close>

definition digits_value :: "nat \<Rightarrow> u8 list \<Rightarrow> nat" where
  "digits_value a cs = foldl (\<lambda>a c. 10 * a + (unat c - 48)) a cs"

lemma digits_value_simps [simp]: "digits_value a [] = a" "digits_value a (c # cs) = digits_value (10 * a + (unat c - 48)) cs"
  by (simp_all add: digits_value_def)

lemma digits_value_mono: "a \<le> digits_value a cs"
proof (induction cs arbitrary: a)
  case (Cons c cs)
  show ?case using Cons [of "10 * a + (unat c - 48)"] by simp
qed simp

text \<open>Numbers below \<open>2\<^sup>6\<^sup>4\<close> pass the test against overflow.\<close>

lemma size_loop_digits:
  assumes "\<forall>c \<in> set cs. host_isdigit c" and "digits_value a cs < 2 ^ 64"
  shows "size_loop sz i (cs @ rest) (of_nat a) g s = size_loop sz (i + length cs) rest (of_nat (digits_value a cs)) g s"
  using assms
proof (induction cs arbitrary: a i)
  case (Cons c cs)
  let ?a = "10 * a + (unat c - 48)"
  have lt: "?a < 2 ^ 64" using Cons.prems(2) digits_value_mono [of ?a cs] by simp
  have c: "host_isdigit c" "48 \<le> unat c" using Cons.prems(1) by (simp_all add: host_isdigit_def word_le_nat_alt)
  then have c0: "c \<noteq> 0" by auto
  have u: "(ucast (c - 48) :: u64) = of_nat (unat c - 48)"
  proof -
    have s: "unat (c - 48) = unat c - 48" using c(2) unat_sub [of 48 c] by (simp add: word_le_nat_alt)
    have "unat c < 2 ^ 8" using unsigned_less [of c, where 'a = nat] by simp
    then have "unat (of_nat (unat c - 48) :: u64) = unat c - 48" by (intro unat_of_nat_small) simp
    moreover have "unat (ucast (c - 48) :: u64) = unat c - 48"
      using s \<open>unat c < 2 ^ 8\<close> by (simp add: unsigned_ucast_eq take_bit_nat_eq_self)
    ultimately show ?thesis by (simp add: word_unat_eq_iff)
  qed
  have gt: "(of_nat a * 10 > (of_nat a :: u64)) \<longleftrightarrow> a \<noteq> 0"
  proof -
    have "(of_nat a * 10 :: u64) = of_nat (a * 10)" by simp
    moreover have "unat (of_nat (a * 10) :: u64) = a * 10" using lt by (intro unat_of_nat_small) simp
    ultimately have "unat (of_nat a * 10 :: u64) = a * 10" by (simp only:)
    moreover have "unat (of_nat a :: u64) = a" using lt by (intro unat_of_nat_small) simp
    ultimately show ?thesis by (simp add: word_less_nat_alt)
  qed
  have "size_loop sz i (c # cs @ rest) (of_nat a) g s = size_loop sz (i + 1) (cs @ rest) (of_nat ?a) g s"
    using c(1) c0 gt u by (simp add: Let_def mult.commute)
  then show ?case using Cons.IH [of ?a "i + 1"] Cons.prems by simp
qed simp

lemma scale_loop_all:
  assumes "0 < v" and "v * 1024 ^ k < 2 ^ 64"
  shows "scale_loop k (of_nat v) ret s = (ret, of_nat (v * 1024 ^ k), s)"
  using assms
proof (induction k arbitrary: v)
  case (Suc k)
  have e: "v * 1024 ^ Suc k = v * 1024 * 1024 ^ k" by simp
  have "v * 1024 * 1 \<le> v * 1024 * 1024 ^ k" by (intro mult_le_mono) simp_all
  then have lt: "v * 1024 < 2 ^ 64" using Suc.prems(2) unfolding e by linarith
  have "unat (of_nat (v * 1024) :: u64) = v * 1024" "unat (of_nat v :: u64) = v" using lt by (intro unat_of_nat_small; simp)+
  then have gt: "(of_nat v :: u64) * 1024 > of_nat v" using Suc.prems(1) by (simp add: word_less_nat_alt)
  have m: "(of_nat v :: u64) * 1024 = of_nat (v * 1024)" by simp
  have "scale_loop (Suc k) (of_nat v) ret s = scale_loop k (of_nat (v * 1024)) ret s"
    using gt unfolding m by (simp only: scale_loop.simps m if_True)
  also have "\<dots> = (ret, of_nat (v * 1024 * 1024 ^ k), s)"
    by (rule Suc.IH) (use Suc.prems e in simp_all)
  finally show ?case unfolding e .
qed simp

text \<open>A size: digits, and perhaps a unit, the power of 1024 that its letter stands for.\<close>

definition size_text :: "u8 list \<Rightarrow> nat \<Rightarrow> bool" where
  "size_text sz v \<longleftrightarrow> (\<exists>ds u k. sz = ds @ u @ [0] \<and> ds \<noteq> [] \<and> (\<forall>c \<in> set ds. host_isdigit c) \<and> v = digits_value 0 ds * 1024 ^ k
     \<and> (u = [] \<and> k = 0 \<or> (\<exists>c. u = [c] \<and> 1 \<le> k \<and> k \<le> 5 \<and> host_toupper c = bytes ''KMGTP'' ! (k - 1))))"

lemma size_parsed:
  assumes "size_text sz v" and v: "0 < v" "v < 2 ^ 64"
  shows "\<exists>d k. size_loop sz 0 sz 0 0 s = Some (0, d, k, s) \<and> d > 0 \<and> (k = 0 \<longrightarrow> d = of_nat v) \<and> scale_loop k d 0 s = (0, of_nat v, s)"
proof -
  obtain ds u k where sz: "sz = ds @ u @ [0]" "ds \<noteq> []" "\<forall>c \<in> set ds. host_isdigit c" "v = digits_value 0 ds * 1024 ^ k"
    and u: "u = [] \<and> k = 0 \<or> (\<exists>c. u = [c] \<and> 1 \<le> k \<and> k \<le> 5 \<and> host_toupper c = bytes ''KMGTP'' ! (k - 1))"
    using assms(1) unfolding size_text_def by blast
  let ?w = "digits_value 0 ds"
  have "?w * 1 \<le> v" unfolding sz(4) by (intro mult_le_mono) simp_all
  then have w: "?w < 2 ^ 64" using v(2) by linarith
  have w0: "0 < ?w" using v(1) unfolding sz(4) by (cases "?w = 0") simp_all
  have "size_loop sz 0 sz 0 0 s = size_loop sz (length ds) (u @ [0]) (of_nat ?w) 0 s"
    using size_loop_digits [OF sz(3) w, of sz 0 "u @ [0]"] by (simp add: sz(1))
  also have "\<dots> = Some (0, of_nat ?w, k, s)"
    using u
  proof
    assume "\<exists>c. u = [c] \<and> 1 \<le> k \<and> k \<le> 5 \<and> host_toupper c = bytes ''KMGTP'' ! (k - 1)"
    then obtain c where c: "u = [c]" "1 \<le> k" "k \<le> 5" "host_toupper c = bytes ''KMGTP'' ! (k - 1)" by blast
    have "k = 1 \<or> k = 2 \<or> k = 3 \<or> k = 4 \<or> k = 5" using c(2,3) by auto
    then have up: "k = 1 \<and> host_toupper c = 75 \<or> k = 2 \<and> host_toupper c = 77 \<or> k = 3 \<and> host_toupper c = 71
        \<or> k = 4 \<and> host_toupper c = 84 \<or> k = 5 \<and> host_toupper c = 80"
      using c(4) by (auto simp: bytes_def)
    have nd: "c \<noteq> 0" "\<not> host_isdigit c"
      using up by (auto simp: host_toupper_def host_isdigit_def word_le_nat_alt split: if_splits)
    show ?thesis using up nd sz(2) by (auto simp: c(1) Let_def obj_get_def)
  qed simp
  finally have "size_loop sz 0 sz 0 0 s = Some (0, of_nat ?w, k, s)" .
  moreover have "(of_nat ?w :: u64) > 0" using w w0 by (simp add: word_less_nat_alt unat_of_nat_small)
  moreover have "scale_loop k (of_nat ?w) 0 s = (0, of_nat v, s)" using scale_loop_all [OF w0, of k] v(2) unfolding sz(4) by blast
  moreover have "k = 0 \<longrightarrow> (of_nat ?w :: u64) = of_nat v" using sz(4) by simp
  ultimately show ?thesis by blast
qed

subsection \<open>initialize\<close>

text \<open>The stream \<open>disk\<close> at position \<open>p\<close> of the file \<open>nm\<close>, which holds \<open>D\<close>; the other files are \<open>fs\<close>.\<close>

definition at_disk :: "u8 list \<Rightarrow> (u8 list \<Rightarrow> u8 list option) \<Rightarrow> nat \<Rightarrow> u8 list \<Rightarrow> bmfs_state \<Rightarrow> bool" where
  "at_disk nm fs p D s \<longleftrightarrow> bm_disk s = Some \<lparr>f_name = nm, f_pos = p, f_err = False\<rparr> \<and> bm_fwrite_ok s = []
     \<and> bm_files s = fs(nm := Some D)"

lemma at_say [simp]: "at_disk nm fs p D (say m a s) = at_disk nm fs p D s"
  by (simp add: at_disk_def)

lemma at_seek: "at_disk nm fs p D s \<Longrightarrow> \<exists>s'. disk_fseek (int q) s = Some s' \<and> at_disk nm fs q D s'"
  by (simp add: at_disk_def disk_fseek_def host_fseek_def)

lemma at_write:
  "at_disk nm fs p D s \<Longrightarrow> \<exists>s'. disk_fwrite xs s = Some (True, s') \<and> at_disk nm fs (p + length xs) (put_at p xs D) s'"
  by (auto simp: at_disk_def disk_fwrite_def write_all file_of_def)

lemma at_read: "at_disk nm fs p D s \<Longrightarrow> f_name f \<noteq> nm \<Longrightarrow> fs (f_name f) = Some c \<Longrightarrow>
    host_fread n f s = (take n (drop (f_pos f) c), f\<lparr>f_pos := f_pos f + length (take n (drop (f_pos f) c))\<rparr>)"
  by (simp add: at_disk_def host_fread_def file_of_def Let_def)

lemma at_fill:
  assumes "at_disk nm fs w (replicate w 0) s" and "w \<le> n" and "n < 2 ^ 64"
  shows "\<exists>s'. fill_loop (of_nat w) (of_nat n) s = Some (0, of_nat n, s') \<and> at_disk nm fs n (replicate n 0) s'"
  using assms
proof (induction "n - w" arbitrary: w s rule: less_induct)
  case less
  have u: "unat (of_nat w :: u64) = w" "unat (of_nat n :: u64) = n" using less.prems by (intro unat_of_nat_small; simp)+
  show ?case
  proof (cases "w = n")
    case True
    then show ?thesis using less.prems by (subst fill_loop.simps) simp
  next
    case False
    then have lt: "w < n" using less.prems(2) by simp
    then have c: "(of_nat w :: u64) < of_nat n" using u by (simp add: word_less_nat_alt)
    let ?k = "if n - w < 51200 then n - w else 51200"
    let ?m = "say (''Formatting disk: %llu of %llu bytes (%.0f%%)...'' @ [CHR 0x0D]) [HNum (uint (of_nat w :: u64)), HNum (uint (of_nat n :: u64))] s"
    have sub: "(of_nat n :: u64) - of_nat w = of_nat (n - w)" using lt by (simp add: of_nat_diff)
    have un: "unat (of_nat (n - w) :: u64) = n - w" using less.prems(3) by (intro unat_of_nat_small) simp
    then have less: "(of_nat (n - w) :: u64) < of_nat bufferSize \<longleftrightarrow> n - w < 51200"
      by (simp only: word_less_nat_alt) (simp add: unat_of_nat_small)
    have chunk: "(if (of_nat bufferSize :: u64) > of_nat n - of_nat w then of_nat n - of_nat w else of_nat bufferSize) = (of_nat ?k :: u64)"
      unfolding sub less by simp
    have uk: "unat (of_nat ?k :: u64) = ?k" by (rule unat_of_nat_small) (use less.prems(3) in simp)
    obtain s' where s': "disk_fwrite (replicate ?k 0) ?m = Some (True, s')" "at_disk nm fs (w + ?k) (put_at w (replicate ?k 0) (replicate w 0)) s'"
      using at_write [of nm fs w "replicate w 0" ?m "replicate ?k 0"] less.prems(1) by auto
    have "put_at w (replicate ?k 0) (replicate w 0) = replicate (w + ?k) (0 :: u8)" by (simp add: put_at_def replicate_add)
    then have at: "at_disk nm fs (w + ?k) (replicate (w + ?k) 0) s'" using s'(2) by simp
    have add: "(of_nat w :: u64) + of_nat ?k = of_nat (w + ?k)" by (rule of_nat_add [symmetric])
    have step: "fill_loop (of_nat w) (of_nat n) s = fill_loop (of_nat (w + ?k)) (of_nat n) s'"
      by (subst fill_loop.simps) (simp only: c if_True Let_def chunk uk s'(1) Option.bind.bind_lunit prod.case add, simp)
    show ?thesis unfolding step by (rule less.hyps [OF _ at]) (use lt less.prems(3) in auto)
  qed
qed

lemma at_copy:
  assumes "at_disk nm fs p D s" and "p \<le> length D" and "f_name f \<noteq> nm" and "fs (f_name f) = Some c" and "f_pos f \<le> length c"
  shows "\<exists>s'. copy_loop path f ret s = Some (ret, s')
    \<and> at_disk nm fs (p + (length c - f_pos f)) (put_at p (drop (f_pos f) c) D) s'"
  using assms
proof (induction "length c - f_pos f" arbitrary: f p D s rule: less_induct)
  case less
  let ?g = "take bufferSize (drop (f_pos f) c)"
  let ?f = "f\<lparr>f_pos := f_pos f + length ?g\<rparr>"
  note rd = at_read [OF less.prems(1,3,4), of bufferSize]
  show ?case
  proof (cases "f_pos f = length c")
    case True
    have "copy_loop path f ret s = Some (ret, s)"
      using less.prems(1) True by (subst copy_loop.simps) (simp add: rd at_disk_def)
    then show ?thesis using less.prems(1,2) True by (simp add: put_at_Nil)
  next
    case False
    then have lt: "f_pos f < length c" using less.prems(5) by simp
    then have ne: "?g \<noteq> []" by simp
    obtain s' where s': "disk_fwrite ?g s = Some (True, s')" "at_disk nm fs (p + length ?g) (put_at p ?g D) s'"
      using at_write [OF less.prems(1)] by blast
    have step: "copy_loop path f ret s = copy_loop path ?f ret s'"
      by (subst copy_loop.simps) (simp only: rd prod.case ne not_False_eq_True if_True s'(1) Option.bind.bind_lunit)
    have IH: "\<exists>s''. copy_loop path ?f ret s' = Some (ret, s'')
      \<and> at_disk nm fs (p + length ?g + (length c - f_pos ?f)) (put_at (p + length ?g) (drop (f_pos ?f) c) (put_at p ?g D)) s''"
      by (rule less.hyps [OF _ s'(2)]) (use less.prems lt in \<open>auto simp: length_put_at\<close>)
    have e1: "put_at (p + length ?g) (drop (f_pos ?f) c) (put_at p ?g D) = put_at p (drop (f_pos f) c) D"
    proof -
      have "?g @ drop (f_pos ?f) c = drop (f_pos f) c"
        using append_take_drop_id [of bufferSize "drop (f_pos f) c"] lt by (simp add: min_def add.commute split: if_splits)
      then show ?thesis unfolding put_at_put_at by simp
    qed
    have e2: "p + length ?g + (length c - f_pos ?f) = p + (length c - f_pos f)" using lt by simp
    show ?thesis unfolding step using IH unfolding e1 e2 .
  qed
qed

text \<open>The two sectors that \<open>format\<close> writes.\<close>

definition formatted :: "u8 list \<Rightarrow> u8 list" where
  "formatted D = put_at 4096 (replicate 4096 0) (put_at 1024 (put_at 0 (take 4 fs_tag) (replicate 512 0)) D)"

lemma at_format:
  assumes "at_disk nm fs p D s"
  shows "\<exists>s'. bmfs_format s = Some s' \<and> at_disk nm fs 8192 (formatted D) s'"
proof -
  have l: "length (take 4 fs_tag) = 4" by (simp add: fs_tag_def bytes_def)
  show ?thesis
    using assms unfolding bmfs_format_def Let_def
    by (simp add: at_disk_def disk_fseek_def disk_fwrite_def host_fseek_def write_all file_of_def formatted_def say_def)
qed

lemma at_mbr:
  assumes "at_disk nm fs p D s" and "f_name f \<noteq> nm" and "fs (f_name f) = Some c" and "512 \<le> length c" and "f_pos f = 0"
  shows "\<exists>s'. write_mbr path f s = Some (0, s') \<and> at_disk nm fs 512 (put_at 0 (take 512 c) D) s'"
proof -
  let ?s = "say (''Writing master boot record.'' @ [CHR 0x0A]) [] s"
  obtain s1 where s1: "disk_fseek (int 0) ?s = Some s1" "at_disk nm fs 0 D s1" using at_seek [of nm fs p D ?s 0] assms(1) by auto
  obtain s2 where s2: "disk_fwrite (take 512 c) s1 = Some (True, s2)" "at_disk nm fs (0 + length (take 512 c)) (put_at 0 (take 512 c) D) s2"
    using at_write [OF s1(2)] by blast
  have "host_fread 512 f s1 = (take 512 c, f\<lparr>f_pos := 512\<rparr>)" using at_read [OF s1(2) assms(2,3), of 512] assms(4,5) by simp
  then show ?thesis unfolding write_mbr_def Let_def using s1(1) s2 assms(4) by simp
qed

text \<open>The bytes of a file that may be given.\<close>

definition source_bytes :: "bmfs_state \<Rightarrow> u8 list option \<Rightarrow> u8 list" where
  "source_bytes s path = (case path of None \<Rightarrow> [] | Some p \<Rightarrow> (case bm_files s (cstr p) of None \<Rightarrow> [] | Some c \<Rightarrow> c))"

definition readable :: "u8 list \<Rightarrow> bmfs_state \<Rightarrow> u8 list option \<Rightarrow> bool" where
  "readable nm s path \<longleftrightarrow> (\<forall>p. path = Some p \<longrightarrow> cstr p \<noteq> nm \<and> bm_files s (cstr p) \<noteq> None)"

text \<open>The disk: zeros, the directory and its tag, the first sector, the boot loader and behind it the kernel.\<close>

definition image_bytes :: "nat \<Rightarrow> u8 list \<Rightarrow> u8 list \<Rightarrow> u8 list \<Rightarrow> u8 list" where
  "image_bytes v mbr boot kern = put_at 8192 (boot @ kern) (put_at 0 (take 512 mbr) (formatted (replicate v 0)))"

definition source_stream :: "u8 list option \<Rightarrow> hfile option" where
  "source_stream path = map_option (\<lambda>p. \<lparr>f_name = cstr p, f_pos = 0, f_err = False\<rparr>) path"

lemma open_readable:
  assumes "readable nm s0 path" and "bm_files s = bm_files s0"
  shows "open_source fmt args path 0 s = (0, source_stream path, s)"
  using assms by (cases path) (auto simp: open_source_def readable_def source_stream_def)

lemma length_formatted: "8192 \<le> length D \<Longrightarrow> length (formatted D) = length D"
  by (simp add: formatted_def length_put_at max_def fs_tag_def bytes_def)

lemma if_open_given:
  assumes "readable nm s0 path" and "\<And>p. cstr p \<noteq> nm \<Longrightarrow> fs (cstr p) = bm_files s0 (cstr p)"
    and "path = None \<Longrightarrow> Q [] s"
    and "\<And>q f c. f_name f \<noteq> nm \<Longrightarrow> fs (f_name f) = Some c \<Longrightarrow> f_pos f = 0 \<Longrightarrow> c = source_bytes s0 path \<Longrightarrow> path \<noteq> None
      \<Longrightarrow> \<exists>s'. act q f s = Some (0, s') \<and> Q c s'"
  shows "\<exists>s'. if_open (path, source_stream path) act 0 s = Some (0, s') \<and> Q (source_bytes s0 path) s'"
proof (cases path)
  case None
  then show ?thesis using assms(3) by (simp add: if_open_def source_stream_def source_bytes_def)
next
  case (Some q)
  then obtain c where c: "cstr q \<noteq> nm" "bm_files s0 (cstr q) = Some c" "source_bytes s0 path = c"
    using assms(1) by (auto simp: readable_def source_bytes_def)
  have "\<exists>s'. act q \<lparr>f_name = cstr q, f_pos = 0, f_err = False\<rparr> s = Some (0, s') \<and> Q c s'"
    by (rule assms(4)) (use c assms(2) Some in simp_all)
  then show ?thesis using Some c(3) by (simp add: if_open_def source_stream_def)
qed

lemma write_image_all:
  assumes at: "at_disk nm fs 0 [] s" and v: "6291456 \<le> v" "v < 2 ^ 64"
    and fs: "\<And>p. cstr p \<noteq> nm \<Longrightarrow> fs (cstr p) = bm_files s0 (cstr p)"
    and src: "readable nm s0 mbr" "readable nm s0 boot" "readable nm s0 kern"
    and mbr: "mbr \<noteq> None \<longrightarrow> 512 \<le> length (source_bytes s0 mbr)" and order: "boot = None \<longrightarrow> kern = None"
  shows "\<exists>s' p. write_image (of_nat v) (mbr, source_stream mbr) t (boot, source_stream boot) (kern, source_stream kern) s = Some (0, s')
    \<and> at_disk nm fs p (image_bytes v (source_bytes s0 mbr) (source_bytes s0 boot) (source_bytes s0 kern)) s'"
proof -
  obtain s1 where s1: "fill_loop 0 (of_nat v) s = Some (0, of_nat v, s1)" "at_disk nm fs v (replicate v 0) s1"
    using at_fill [of nm fs 0 s v] at v by auto
  let ?m = "say (''Formatting disk: %llu of %llu bytes (100%%)%9s'' @ [CHR 0x0A]) [HNum (uint (of_nat v :: u64)), HNum (uint (of_nat v :: u64)), HStr []] s1"
  obtain s2 where s2: "disk_fseek 0 ?m = Some s2" "at_disk nm fs 0 (replicate v 0) s2"
    using at_seek [of nm fs v "replicate v 0" ?m 0] s1(2) by auto
  let ?D1 = "formatted (replicate v 0)"
  obtain s3 where s3: "bmfs_format s2 = Some s3" "at_disk nm fs 8192 ?D1 s3" using at_format [OF s2(2)] by blast
  let ?D2 = "put_at 0 (take 512 (source_bytes s0 mbr)) ?D1"
  have len: "length ?D2 = v" using v by (simp add: length_formatted length_put_at max_def)
  obtain s4 p where s4: "if_open (mbr, source_stream mbr) write_mbr 0 s3 = Some (0, s4)" "at_disk nm fs p ?D2 s4"
  proof -
    have "\<exists>s'. if_open (mbr, source_stream mbr) write_mbr 0 s3 = Some (0, s') \<and> (\<exists>p. at_disk nm fs p (put_at 0 (take 512 (source_bytes s0 mbr)) ?D1) s')"
    proof (rule if_open_given [OF src(1) fs])
      show "mbr = None \<Longrightarrow> \<exists>p. at_disk nm fs p (put_at 0 (take 512 []) ?D1) s3" using s3(2) by (auto simp: put_at_Nil)
    next
      fix q c and f :: hfile assume f: "f_name f \<noteq> nm" "fs (f_name f) = Some c" "f_pos f = 0" "c = source_bytes s0 mbr" "mbr \<noteq> None"
      then show "\<exists>s'. write_mbr q f s3 = Some (0, s') \<and> (\<exists>p. at_disk nm fs p (put_at 0 (take 512 c) ?D1) s')"
        using at_mbr [OF s3(2) f(1,2) _ f(3)] mbr by blast
    qed
    then show ?thesis using that by blast
  qed
  let ?boot = "\<lambda>path src s. do { let s = say (''Writing %s file.'' @ [CHR 0x0A]) t s; s \<leftarrow> disk_fseek 8192 s; copy_loop path src 0 s }"
  let ?Q = "\<lambda>c s. at_disk nm fs (if boot = None then p else 8192 + length c) (put_at 8192 c ?D2) s"
  obtain s5 where s5: "if_open (boot, source_stream boot) ?boot 0 s4 = Some (0, s5)" "?Q (source_bytes s0 boot) s5"
  proof -
    have "\<exists>s'. if_open (boot, source_stream boot) ?boot 0 s4 = Some (0, s') \<and> ?Q (source_bytes s0 boot) s'"
    proof (rule if_open_given [OF src(2) fs])
      show "boot = None \<Longrightarrow> ?Q [] s4" using s4(2) len v by (simp add: put_at_Nil)
    next
      fix q c and f :: hfile assume f: "f_name f \<noteq> nm" "fs (f_name f) = Some c" "f_pos f = 0" "c = source_bytes s0 boot" "boot \<noteq> None"
      obtain sa where "disk_fseek 8192 (say (''Writing %s file.'' @ [CHR 0x0A]) t s4) = Some sa" "at_disk nm fs 8192 ?D2 sa"
        using at_seek [of nm fs p ?D2 "say (''Writing %s file.'' @ [CHR 0x0A]) t s4" 8192] s4(2) by auto
      moreover from at_copy [OF this(2) _ f(1,2), of q 0] obtain sb where "copy_loop q f 0 sa = Some (0, sb)" "at_disk nm fs (8192 + length c) (put_at 8192 c ?D2) sb"
        using f(3) len v by auto
      ultimately show "\<exists>s'. ?boot q f s4 = Some (0, s') \<and> ?Q c s'" using f(5) by auto
    qed
    then show ?thesis using that by blast
  qed
  let ?kern = "\<lambda>path src s. copy_loop path src 0 (say (''Writing kernel.'' @ [CHR 0x0A]) [] s)"
  have k: "\<exists>s'. if_open (kern, source_stream kern) ?kern 0 s5 = Some (0, s')
    \<and> (\<exists>p. at_disk nm fs p (put_at 8192 (source_bytes s0 boot @ source_bytes s0 kern) ?D2) s')"
  proof (rule if_open_given [OF src(3) fs])
    show "kern = None \<Longrightarrow> \<exists>p. at_disk nm fs p (put_at 8192 (source_bytes s0 boot @ []) ?D2) s5" using s5(2) by auto
  next
    fix q c and f :: hfile assume f: "f_name f \<noteq> nm" "fs (f_name f) = Some c" "f_pos f = 0" "c = source_bytes s0 kern" "kern \<noteq> None"
    then have "boot \<noteq> None" using order by blast
    then have at: "at_disk nm fs (8192 + length (source_bytes s0 boot)) (put_at 8192 (source_bytes s0 boot) ?D2) (say (''Writing kernel.'' @ [CHR 0x0A]) [] s5)"
      using s5(2) by auto
    from at_copy [OF at _ f(1,2), of q 0] show "\<exists>s'. ?kern q f s5 = Some (0, s') \<and> (\<exists>p. at_disk nm fs p (put_at 8192 (source_bytes s0 boot @ c) ?D2) s')"
      using f(3) len v by (auto simp: put_at_put_at length_put_at)
  qed
  show ?thesis
    unfolding write_image_def image_bytes_def using s1(1) s2(1) s3(1) s4(1) s5(1) k by (simp add: Let_def)
qed

lemma image_parts:
  assumes "8192 \<le> v" and "length (take 512 mbr) \<le> 512"
  shows "take 512 (drop 1024 (image_bytes v mbr boot kern)) = bytes ''BMFS'' @ replicate 508 0"
    and "take 4096 (drop 4096 (image_bytes v mbr boot kern)) = replicate 4096 0"
    and "v \<le> length (image_bytes v mbr boot kern)"
proof -
  let ?tag = "put_at 0 (take 4 fs_tag) (replicate 512 0)" and ?z = "replicate v (0 :: u8)"
  have tag: "?tag = bytes ''BMFS'' @ replicate 508 0"
    by (simp add: put_at_def fs_tag_def bytes_def)
  have lt: "length ?tag = 512" by (simp add: tag)
  let ?A = "put_at 1024 ?tag ?z"
  have lA: "length ?A = v" using assms(1) lt by simp
  have lF: "length (formatted ?z) = v" using assms(1) by (simp add: length_formatted)
  let ?B = "put_at 0 (take 512 mbr) (formatted ?z)"
  have lB: "length ?B = v" using lF assms(1) by (simp add: length_put_at)
  show "v \<le> length (image_bytes v mbr boot kern)" unfolding image_bytes_def using lB by (simp add: length_put_at)
  have B: "take n (drop q (image_bytes v mbr boot kern)) = take n (drop q (formatted ?z))" if "1024 \<le> q" "q + n \<le> 8192" for n q
  proof -
    have "take n (drop q (image_bytes v mbr boot kern)) = take n (drop q ?B)"
      unfolding image_bytes_def by (rule part_put_at_before) (use that lB assms(1) in simp_all)
    also have "\<dots> = take n (drop q (formatted ?z))"
      by (rule part_put_at_other) (use that lF assms in auto)
    finally show ?thesis .
  qed
  have "take 4096 (drop 4096 (formatted ?z)) = replicate 4096 0"
    unfolding formatted_def using part_put_at_same [of 4096 "replicate 4096 0" ?A] lA assms(1) by simp
  then show "take 4096 (drop 4096 (image_bytes v mbr boot kern)) = replicate 4096 0" using B [of 4096 4096] by simp
  have "take 512 (drop 1024 (formatted ?z)) = take 512 (drop 1024 ?A)"
    unfolding formatted_def by (rule part_put_at_before) (use lA assms(1) in simp_all)
  also have "\<dots> = ?tag" using part_put_at_same [of 1024 ?tag ?z] lt assms(1) by simp
  finally show "take 512 (drop 1024 (image_bytes v mbr boot kern)) = bytes ''BMFS'' @ replicate 508 0" using B [of 1024 512] tag by simp
qed

lemma tag_valid: "str_caseeq (bytes ''BMFS'' @ replicate 508 0) fs_tag = Some True"
  by (simp add: str_caseeq_def fs_tag_def bytes_def host_tolower_def numeral_eq_Suc)

text \<open>A block of the disk, 2 MiB; behind the boot loader and the kernel every block is zero.\<close>

definition disk_block :: "nat \<Rightarrow> u8 list \<Rightarrow> u8 list" where
  "disk_block k D = take 2097152 (drop (2097152 * k) D)"

lemma image_zero:
  assumes "8192 + length (boot @ kern) \<le> q" and "q + n \<le> v"
  shows "take n (drop q (image_bytes v mbr boot kern)) = replicate n 0"
proof -
  let ?tag = "put_at 0 (take 4 fs_tag) (replicate 512 0)" and ?z = "replicate v (0 :: u8)"
  have lt: "length ?tag = 512" by (simp add: put_at_def fs_tag_def bytes_def)
  have lA: "length (put_at 1024 ?tag ?z) = v" using assms lt by simp
  have lF: "length (formatted ?z) = v" using assms by (simp add: length_formatted)
  have lB: "length (put_at 0 (take 512 mbr) (formatted ?z)) = v" using lF assms by (simp add: length_put_at)
  have "take n (drop q (image_bytes v mbr boot kern)) = take n (drop q (put_at 0 (take 512 mbr) (formatted ?z)))"
    unfolding image_bytes_def by (rule part_put_at_other) (use assms lB in simp_all)
  also have "\<dots> = take n (drop q (formatted ?z))" by (rule part_put_at_other) (use assms lF in auto)
  also have "\<dots> = take n (drop q (put_at 1024 ?tag ?z))"
    unfolding formatted_def by (rule part_put_at_other) (use assms lA in simp_all)
  also have "\<dots> = take n (drop q ?z)" by (rule part_put_at_other) (use assms lt in simp_all)
  also have "\<dots> = replicate n 0" using assms by simp
  finally show ?thesis .
qed

lemma last_block_zero:
  assumes "8192 + length (boot @ kern) \<le> 2097152 * k" and "2097152 * Suc k \<le> v"
  shows "disk_block k (image_bytes v mbr boot kern) = replicate 2097152 0 \<and> disk_block 0 (image_bytes v mbr boot kern) \<noteq> replicate 2097152 0"
proof -
  let ?i = "image_bytes v mbr boot kern"
  have v: "8192 \<le> v" using assms by simp
  have n: "length (bytes ''BMFS'' @ replicate 508 0) = 512" "(bytes ''BMFS'' @ replicate 508 0) ! 0 = 0x42" by (simp_all add: bytes_def)
  have l: "v \<le> length ?i" "take 512 (drop 1024 ?i) = bytes ''BMFS'' @ replicate 508 0" using image_parts [OF v, of mbr] by simp_all
  have "take 512 (drop 1024 ?i) ! 0 = ?i ! 1024" using l(1) v by simp
  then have t: "?i ! 1024 = 0x42" unfolding l(2) n(2) by simp
  have "disk_block 0 ?i ! 1024 = ?i ! 1024" using l(1) v by (simp add: disk_block_def)
  then have "disk_block 0 ?i \<noteq> replicate 2097152 0" using t by auto
  moreover have "disk_block k ?i = replicate 2097152 0" unfolding disk_block_def by (rule image_zero [OF assms(1)]) (use assms(2) in simp)
  ultimately show ?thesis by blast
qed

text \<open>The variables at the start of a run: what stays of earlier runs are the files.\<close>

definition fresh_run :: "bmfs_state \<Rightarrow> bmfs_state" where
  "fresh_run s = s\<lparr>bm_printed := [], bm_disk := None, disksize := 0, bm_diskname := [], bm_entry := replicate 64 0,
     Directory := replicate 4096 0, DiskInfo := replicate 512 0\<rparr>"

text \<open>Opening an image: the tag, the directory, the size.\<close>

lemma open_image:
  assumes "bm_files s (cstr dn) = Some D" and "8192 \<le> length D" and "length (DiskInfo s) = 512" and "length (Directory s) = 4096"
  shows "\<exists>s2. open_disk dn s = Some s2 \<and> DiskInfo s2 = take 512 (drop 1024 D) \<and> Directory s2 = take 4096 (drop 4096 D)
    \<and> disksize s2 = of_nat (length D div 1048576) \<and> bm_files s2 = bm_files s \<and> bm_fwrite_ok s2 = bm_fwrite_ok s
    \<and> bm_writable s2 = bm_writable s \<and> bm_disk s2 = Some \<lparr>f_name = cstr dn, f_pos = 0, f_err = False\<rparr>"
  using assms
  by (simp add: open_disk_def Let_def disk_fseek_def disk_fread_def host_fseek_def host_fread_def file_of_def read_into_def)

lemma opened_mounted:
  assumes "bm_files s (cstr dn) = Some D" and "disksize s = of_nat (length D div 1048576)" and "Directory s = replicate 4096 0"
    and "bm_disk s = Some h" and "f_name h = cstr dn" and "bm_fwrite_ok s = []"
  shows "mounted (unat (disksize s div 2)) h s"
proof -
  have "unat (disksize s) < 2 ^ 32" using unsigned_less [of "disksize s", where 'a = nat] by simp
  then have lt: "unat (disksize s div 2) < 2 ^ 31" by (simp add: unat_div)
  have "unat (disksize s) = (length D div 1048576) mod 2 ^ 32" by (simp add: assms(2) unat_of_nat)
  then have "unat (disksize s) \<le> length D div 1048576" by simp
  then have "unat (disksize s) div 2 * 2097152 \<le> length D" by linarith
  then show ?thesis using lt assms empty_directory(1) by (simp add: mounted_def file_of_def unat_div)
qed

lemma size_accepted:
  assumes "size_text sz v" and "6291456 \<le> v" and "v < 2 ^ 64"
  shows "\<exists>d k. size_loop sz 0 sz 0 0 s = Some (0, d, k, s)
    \<and> (if (0 :: int) = 0 \<and> d > 0 \<and> k > 0 then scale_loop k d 0 s else (0, d, s)) = (0, of_nat v, s)"
proof -
  have "0 < v" using assms(2) by simp
  from size_parsed [OF assms(1) this assms(3)] obtain d k where "size_loop sz 0 sz 0 0 s = Some (0, d, k, s)" "d > 0"
    "k = 0 \<longrightarrow> d = of_nat v" "scale_loop k d 0 s = (0, of_nat v, s)" by blast
  then show ?thesis by (intro exI [of _ d] exI [of _ k]) auto
qed

text \<open>C15: \<open>initialize\<close> with a valid size of at least 6 MiB, source files that can be read and a host that
  writes makes the disk: zeros with the tag and an empty directory, the boot record in the
  first sector, the boot loader from byte 8192 on and the kernel behind it; a later run opens it as an ordered, empty
  directory. Every block behind the boot loader and the kernel is zero, the last one too: the layout in "BareMetal File
  System.md" has a copy of block 0 there, which this tool never writes.\<close>

theorem initialize_disk:
  assumes v: "size_text sz v" "6291456 \<le> v" "v < 2 ^ 64"
    and src: "readable (cstr dn) s mbr" "readable (cstr dn) s boot" "readable (cstr dn) s kern"
    and mbr: "mbr \<noteq> None \<longrightarrow> 512 \<le> length (source_bytes s mbr)" and order: "boot = None \<longrightarrow> kern = None"
    and host: "bm_malloc_ok s" "bm_writable s (cstr dn)" "bm_fwrite_ok s = []"
  shows "\<exists>s' s2 h. bmfs_initialize dn sz mbr boot kern s = Some (0, s')
    \<and> bm_files s' = (bm_files s)(cstr dn := Some (image_bytes v (source_bytes s mbr) (source_bytes s boot) (source_bytes s kern)))
    \<and> open_disk dn (fresh_run s') = Some s2
    \<and> str_caseeq (DiskInfo s2) fs_tag = Some True \<and> Directory s2 = replicate 4096 0 \<and> mounted (unat (disksize s2 div 2)) h s2
    \<and> (\<forall>k. 2097152 * Suc k \<le> v \<and> 8192 + length (source_bytes s boot @ source_bytes s kern) \<le> 2097152 * k \<longrightarrow>
        disk_block k (the (bm_files s' (cstr dn))) = replicate 2097152 0 \<and> disk_block 0 (the (bm_files s' (cstr dn))) \<noteq> replicate 2097152 0)"
proof -
  let ?img = "image_bytes v (source_bytes s mbr) (source_bytes s boot) (source_bytes s kern)"
  let ?s1 = "s\<lparr>bm_files := (bm_files s)(cstr dn := Some []), bm_disk := Some \<lparr>f_name = cstr dn, f_pos = 0, f_err = False\<rparr>\<rparr>"
  let ?t = "if boot = None then [] else [HStr (bytes (if kern = None then ''system'' else ''boot loader''))]"
  obtain d k where size: "size_loop sz 0 sz 0 0 s = Some (0, d, k, s)"
    "(if (0 :: int) = 0 \<and> d > 0 \<and> k > 0 then scale_loop k d 0 s else (0, d, s)) = (0, of_nat v, s)" using size_accepted [OF v] by blast
  have big: "\<not> (of_nat v :: u64) < 6291456" using v by (simp add: word_less_nat_alt unat_of_nat_small)
  have "at_disk (cstr dn) (bm_files s) 0 [] ?s1" using host(3) by (simp add: at_disk_def)
  from write_image_all [OF this v(2,3) refl src mbr order]
  obtain sw p where sw: "write_image (of_nat v) (mbr, source_stream mbr) ?t (boot, source_stream boot) (kern, source_stream kern) ?s1 = Some (0, sw)"
    "at_disk (cstr dn) (bm_files s) p ?img sw" by blast
  let ?s' = "say (''Disk initialization complete.'' @ [CHR 0x0A]) [] (sw\<lparr>bm_disk := None\<rparr>)"
  have opens: "open_source fmt args path 0 s = (0, source_stream path, s)" if "readable (cstr dn) s path" for fmt args path
    by (rule open_readable [OF that refl])
  have init: "bmfs_initialize dn sz mbr boot kern s = Some (0, ?s')"
    unfolding bmfs_initialize_def Let_def size(1) using host(1,2) sw(1)
    by (simp add: size(2) [simplified] big opens [OF src(1)] opens [OF src(2)] opens [OF src(3)])
  let ?n = "fresh_run ?s'"
  have img: "8192 \<le> length ?img" "take 512 (drop 1024 ?img) = bytes ''BMFS'' @ replicate 508 0" "take 4096 (drop 4096 ?img) = replicate 4096 0"
    using image_parts [of v "source_bytes s mbr" "source_bytes s boot" "source_bytes s kern"] v(2) by simp_all
  have f: "bm_files ?n (cstr dn) = Some ?img" "bm_fwrite_ok ?n = []" using sw(2) by (simp_all add: at_disk_def fresh_run_def)
  obtain s2 where s2: "open_disk dn ?n = Some s2" "DiskInfo s2 = bytes ''BMFS'' @ replicate 508 0" "Directory s2 = replicate 4096 0"
    "disksize s2 = of_nat (length ?img div 1048576)" "bm_files s2 = bm_files ?n" "bm_fwrite_ok s2 = []"
    "bm_disk s2 = Some \<lparr>f_name = cstr dn, f_pos = 0, f_err = False\<rparr>"
    using open_image [OF f(1) img(1)] img(2,3) f(2) by (auto simp: fresh_run_def)
  have "mounted (unat (disksize s2 div 2)) \<lparr>f_name = cstr dn, f_pos = 0, f_err = False\<rparr> s2"
    by (rule opened_mounted [OF _ s2(4,3,7) _ s2(6)]) (use s2(5) f(1) in simp_all)
  moreover have "str_caseeq (DiskInfo s2) fs_tag = Some True"
    unfolding s2(2) by (rule tag_valid)
  moreover have "bm_files ?s' = (bm_files s)(cstr dn := Some ?img)" using sw(2) by (simp add: at_disk_def)
  moreover have "\<forall>k. 2097152 * Suc k \<le> v \<and> 8192 + length (source_bytes s boot @ source_bytes s kern) \<le> 2097152 * k \<longrightarrow>
      disk_block k ?img = replicate 2097152 0 \<and> disk_block 0 ?img \<noteq> replicate 2097152 0"
    using last_block_zero by blast
  moreover have "the (bm_files ?s' (cstr dn)) = ?img" using sw(2) by (simp add: at_disk_def)
  ultimately show ?thesis using init s2(1,3) by metis
qed

lemma initialize_disk_witness:
  "\<exists>s' s2 h. bmfs_initialize [100, 0] [54, 77, 0] None (Some [98, 0]) None (sample_state [] 0 [] (Map.empty([98] := Some [1, 2, 3]))) = Some (0, s')
    \<and> open_disk [100, 0] (fresh_run s') = Some s2 \<and> mounted (unat (disksize s2 div 2)) h s2
    \<and> disk_block 2 (the (bm_files s' [100])) = replicate 2097152 0 \<and> disk_block 0 (the (bm_files s' [100])) \<noteq> replicate 2097152 0"
proof -
  let ?s = "sample_state [] 0 [] (Map.empty([98] := Some [1, 2, 3]))"
  have sz: "size_text [54, 77, 0] 6291456"
    unfolding size_text_def by (intro exI [of _ "[54]"] exI [of _ "[77]"] exI [of _ 2])
      (simp add: host_isdigit_def host_toupper_def digits_value_def bytes_def)
  have "\<exists>s' s2 h. bmfs_initialize [100, 0] [54, 77, 0] None (Some [98, 0]) None ?s = Some (0, s')
    \<and> bm_files s' = (bm_files ?s)(cstr [100, 0] := Some (image_bytes 6291456 (source_bytes ?s None) (source_bytes ?s (Some [98, 0])) (source_bytes ?s None)))
    \<and> open_disk [100, 0] (fresh_run s') = Some s2
    \<and> str_caseeq (DiskInfo s2) fs_tag = Some True \<and> Directory s2 = replicate 4096 0 \<and> mounted (unat (disksize s2 div 2)) h s2
    \<and> (\<forall>k. 2097152 * Suc k \<le> 6291456 \<and> 8192 + length (source_bytes ?s (Some [98, 0]) @ source_bytes ?s None) \<le> 2097152 * k \<longrightarrow>
        disk_block k (the (bm_files s' (cstr [100, 0]))) = replicate 2097152 0 \<and> disk_block 0 (the (bm_files s' (cstr [100, 0]))) \<noteq> replicate 2097152 0)"
    by (rule initialize_disk [OF sz]) (simp_all add: readable_def cstr_one)
  moreover have "2097152 * Suc 2 \<le> 6291456 \<and> 8192 + length (source_bytes ?s (Some [98, 0]) @ source_bytes ?s None) \<le> 2097152 * 2"
    by (simp add: source_bytes_def cstr_one)
  moreover have "cstr [100, 0] = [100]" by (rule cstr_one) simp
  ultimately show ?thesis by metis
qed

end
