(* ===== verification/Bmfs_Runs.thy ===== *)
theory Bmfs_Runs
  imports Bmfs_Create Bmfs_Init
begin

section \<open>Runs of the tool, one after the other\<close>

text \<open>
  From the command line: each run opens the disk that the one before has left.
\<close>

subsection \<open>Runs of the tool\<close>

text \<open>The bytes of a formatted disk with an ordered directory, and the number of its blocks.\<close>

definition disk_blocks :: "u8 list \<Rightarrow> nat" where
  "disk_blocks D = unat (of_nat (length D div 1048576) div 2 :: u32)"

definition valid_disk :: "u8 list \<Rightarrow> bool" where
  "valid_disk D \<longleftrightarrow> 8192 \<le> length D \<and> str_caseeq (take 512 (drop 1024 D)) fs_tag = Some True
     \<and> dir_ok (disk_blocks D) (take 4096 (drop 4096 D))"

lemma disk_blocks_le: "disk_blocks D < 2 ^ 31" "disk_blocks D * 2097152 \<le> length D"
proof -
  let ?u = "of_nat (length D div 1048576) :: u32"
  have "unat ?u < 2 ^ 32" using unsigned_less [of ?u, where 'a = nat] by simp
  then show "disk_blocks D < 2 ^ 31" by (simp add: disk_blocks_def unat_div)
  have "unat ?u \<le> length D div 1048576" by (simp add: unat_of_nat)
  then show "disk_blocks D * 2097152 \<le> length D" by (simp add: disk_blocks_def unat_div)
qed

text \<open>A run with a command on a valid disk.\<close>

lemma main_runs:
  assumes "bm_files s (cstr dn) = Some D" and "valid_disk D" and "bm_writable s (cstr dn)" and "bm_fwrite_ok s = []"
    and "str_caseeq (bytes ''initialize'' @ [0]) c = Some False"
  shows "\<exists>s2. mounted (disk_blocks D) \<lparr>f_name = cstr dn, f_pos = 0, f_err = False\<rparr> s2 \<and> disk_blocks D = unat (disksize s2 div 2)
    \<and> Directory s2 = take 4096 (drop 4096 D) \<and> bm_files s2 = bm_files s \<and> bm_writable s2 = bm_writable s
    \<and> bmfs_main (p # dn # c # args) (fresh_run s)
      = (case main_command (p # dn # c # args) s2 of None \<Rightarrow> None | Some s3 \<Rightarrow> Some (0, s3\<lparr>bm_disk := None\<rparr>))"
proof -
  let ?s = "fresh_run s\<lparr>bm_diskname := cstr dn\<rparr>"
  have V: "8192 \<le> length D" "str_caseeq (take 512 (drop 1024 D)) fs_tag = Some True" "dir_ok (disk_blocks D) (take 4096 (drop 4096 D))"
    using assms(2) by (simp_all add: valid_disk_def)
  have "bm_files ?s (cstr dn) = Some D" "length (DiskInfo ?s) = 512" "length (Directory ?s) = 4096" using assms(1) by (simp_all add: fresh_run_def)
  from open_image [OF this(1) V(1) this(2,3)] obtain s2 where s2: "open_disk dn ?s = Some s2" "DiskInfo s2 = take 512 (drop 1024 D)"
    "Directory s2 = take 4096 (drop 4096 D)" "disksize s2 = of_nat (length D div 1048576)" "bm_files s2 = bm_files ?s"
    "bm_fwrite_ok s2 = bm_fwrite_ok ?s" "bm_writable s2 = bm_writable ?s" "bm_disk s2 = Some \<lparr>f_name = cstr dn, f_pos = 0, f_err = False\<rparr>"
    by blast
  have "mounted (disk_blocks D) \<lparr>f_name = cstr dn, f_pos = 0, f_err = False\<rparr> s2"
    using V(3) s2 disk_blocks_le [of D] assms(1,4) by (simp add: mounted_def file_of_def fresh_run_def)
  moreover have "bmfs_main (p # dn # c # args) (fresh_run s)
      = (case main_command (p # dn # c # args) s2 of None \<Rightarrow> None | Some s3 \<Rightarrow> Some (0, s3\<lparr>bm_disk := None\<rparr>))"
    unfolding bmfs_main_def using assms(1,3,5) s2(1,2) V(2) by (simp add: fresh_run_def Let_def split: option.splits)
  ultimately show ?thesis using s2 by (intro exI [of _ s2]) (simp add: disk_blocks_def fresh_run_def)
qed

lemma command_words:
  "str_caseeq (bytes ''initialize'' @ [0]) (bytes ''create'' @ [0]) = Some False"
  "str_caseeq (bytes ''initialize'' @ [0]) (bytes ''write'' @ [0]) = Some False"
  "str_caseeq (bytes ''initialize'' @ [0]) (bytes ''read'' @ [0]) = Some False"
  by (simp_all add: str_caseeq_def bytes_def host_tolower_def)

lemma main_create_command:
  assumes "host_atoi sz = Some n" and "1 \<le> n"
  shows "main_command [p, dn, bytes ''create'' @ [0], f, sz] s = bmfs_create f (word_of_int n) s"
  using assms by (simp add: main_command_def main_create_def str_caseeq_def bytes_def host_tolower_def)

lemma main_write_command: "main_command [p, dn, bytes ''write'' @ [0], f] s = bmfs_write (Some f) s"
  by (simp add: main_command_def str_caseeq_def bytes_def host_tolower_def)

lemma main_read_command: "main_command [p, dn, bytes ''read'' @ [0], f] s = bmfs_read (Some f) s"
  by (simp add: main_command_def str_caseeq_def bytes_def host_tolower_def)

text \<open>A disk with another directory, or with other bytes behind the directory.\<close>

lemma valid_disk_directory:
  assumes "valid_disk D" and "length d = 4096" and "dir_ok (disk_blocks D) d"
  shows "valid_disk (put_at 4096 d D)" and "take 4096 (drop 4096 (put_at 4096 d D)) = d"
    and "length (put_at 4096 d D) = length D" and "disk_blocks (put_at 4096 d D) = disk_blocks D"
proof -
  have l: "8192 \<le> length D" using assms(1) by (simp add: valid_disk_def)
  show d: "take 4096 (drop 4096 (put_at 4096 d D)) = d" using part_put_at_same [of 4096 d D] l assms(2) by simp
  show len: "length (put_at 4096 d D) = length D" using l assms(2) by simp
  then show b: "disk_blocks (put_at 4096 d D) = disk_blocks D" by (simp add: disk_blocks_def)
  have "take 512 (drop 1024 (put_at 4096 d D)) = take 512 (drop 1024 D)" by (rule part_put_at_before) (use l in simp_all)
  then show "valid_disk (put_at 4096 d D)" using assms l len b d by (simp add: valid_disk_def)
qed

lemma valid_disk_data:
  assumes "valid_disk D" and "8192 \<le> p" and "p + length c \<le> length D"
  shows "valid_disk (put_at p c D)" and "disk_blocks (put_at p c D) = disk_blocks D"
proof -
  have l: "8192 \<le> length D" using assms(1) by (simp add: valid_disk_def)
  have len: "length (put_at p c D) = length D" using assms(3) by simp
  then show b: "disk_blocks (put_at p c D) = disk_blocks D" by (simp add: disk_blocks_def)
  have "take 512 (drop 1024 (put_at p c D)) = take 512 (drop 1024 D)" "take 4096 (drop 4096 (put_at p c D)) = take 4096 (drop 4096 D)"
    by (rule part_put_at_before; use l assms in simp)+
  then show "valid_disk (put_at p c D)" using assms(1) len b by (simp add: valid_disk_def)
qed

lemma host_atoi_small: "host_atoi sz = Some n \<Longrightarrow> n < 2 ^ 31"
  by (auto simp: host_atoi_def Let_def split: if_splits)

text \<open>A run of \<open>create\<close> on a disk without deleted entries.\<close>

lemma create_run:
  assumes D: "bm_files s (cstr dn) = Some D" "valid_disk D" "d = take 4096 (drop 4096 D)"
    and host: "bm_writable s (cstr dn)" "bm_fwrite_ok s = []"
    and slot: "dir_end d m" "m < 64" "\<forall>i<m. \<not> deleted d i"
    and f: "0 \<in> set f" "name_ok (cstr f)" "\<forall>i. present d i \<longrightarrow> entry_name d i \<noteq> cstr f"
    and n: "host_atoi sz = Some n" "1 \<le> n" "r = (nat n + 1) div 2" and b: "\<exists>b. room (disk_blocks D) r (files d) b"
  shows "\<exists>s' d' b. bmfs_main [p, dn, bytes ''create'' @ [0], f, sz] (fresh_run s) = Some (0, s') \<and> dir_ok (disk_blocks D) d'
    \<and> entry_added d m (cstr f) b r d' \<and> bm_files s' = (bm_files s)(cstr dn := Some (put_at 4096 d' D))
    \<and> bm_fwrite_ok s' = [] \<and> bm_writable s' = bm_writable s"
proof -
  let ?h = "\<lparr>f_name = cstr dn, f_pos = 0, f_err = False\<rparr>" and ?n = "word_of_int n :: u64"
  obtain s2 where s2: "mounted (disk_blocks D) ?h s2" "disk_blocks D = unat (disksize s2 div 2)" "Directory s2 = d" "bm_files s2 = bm_files s"
    "bm_writable s2 = bm_writable s"
    "bmfs_main [p, dn, bytes ''create'' @ [0], f, sz] (fresh_run s)
      = (case main_command [p, dn, bytes ''create'' @ [0], f, sz] s2 of None \<Rightarrow> None | Some s3 \<Rightarrow> Some (0, s3\<lparr>bm_disk := None\<rparr>))"
    using main_runs [OF D(1,2) host command_words(1), of p "[f, sz]"] D(3) by blast
  have "nat n < 2 ^ 31" using host_atoi_small [OF n(1)] n(2) by simp
  moreover have "?n = of_nat (nat n)" using n(2) by simp
  ultimately have un: "unat ?n = nat n" by (simp only:) (rule unat_of_nat_small, simp)
  have nb: "1 < disk_blocks D" using b by (auto simp: room_def)
  have "1 \<le> nat n" using n(2) by linarith
  then have c: "creates (disk_blocks D) r m f ?n ?h s2"
    unfolding creates_def un using s2(1-3) slot(1) nb f n(3) \<open>nat n < 2 ^ 31\<close> by (simp add: mounted_def)
  obtain s3 where s3: "bmfs_create f ?n s2 = Some s3" "dir_ok (disk_blocks D) (Directory s3)"
    "entry_added d m (cstr f) (LEAST b. room (disk_blocks D) r (files d) b) r (Directory s3)"
    "bm_files s3 = (bm_files s2)(cstr dn := Some (put_at 4096 (Directory s3) (file_of ?h s2)))" "bm_fwrite_ok s3 = []" "bm_writable s3 = bm_writable s2"
    using create_gives [OF c] slot(2,3) b unfolding s2(3) by auto
  have "file_of ?h s2 = D" using D(1) s2(4) by (simp add: file_of_def)
  then show ?thesis using s2(4-6) s3 unfolding main_create_command [OF n(1,2)]
    by (intro exI [of _ "s3\<lparr>bm_disk := None\<rparr>"] exI [of _ "Directory s3"] exI [of _ "LEAST b. room (disk_blocks D) r (files d) b"]) simp
qed

text \<open>A run of \<open>write\<close>.\<close>

lemma write_run:
  assumes D: "bm_files s (cstr dn) = Some D" "valid_disk D" "d = take 4096 (drop 4096 D)"
    and host: "bm_writable s (cstr dn)" "bm_fwrite_ok s = []"
    and i: "present d i" "0 \<in> set f" "entry_name d i = cstr f" "cstr f \<noteq> cstr dn"
    and c: "bm_files s (cstr f) = Some c" "length c < 2 ^ 31" "length c \<le> 2097152 * unat (ReservedBlocks (dir_entry d i))"
  shows "\<exists>s' D' d'. bmfs_main [p, dn, bytes ''write'' @ [0], f] (fresh_run s) = Some (0, s') \<and> bm_files s' = (bm_files s)(cstr dn := Some D')
    \<and> valid_disk D' \<and> d' = take 4096 (drop 4096 D') \<and> present d' i \<and> entry_name d' i = cstr f \<and> unat (FileSize (dir_entry d' i)) = length c
    \<and> 2097152 * unat (StartingBlock (dir_entry d' i)) + length c \<le> length D'
    \<and> take (length c) (drop (2097152 * unat (StartingBlock (dir_entry d' i))) D') = c
    \<and> bm_fwrite_ok s' = [] \<and> bm_writable s' = bm_writable s"
proof -
  let ?h = "\<lparr>f_name = cstr dn, f_pos = 0, f_err = False\<rparr>" and ?n = "of_nat (length c) :: u64"
  obtain s2 where s2: "mounted (disk_blocks D) ?h s2" "Directory s2 = d" "bm_files s2 = bm_files s" "bm_writable s2 = bm_writable s"
    "bmfs_main [p, dn, bytes ''write'' @ [0], f] (fresh_run s)
      = (case main_command [p, dn, bytes ''write'' @ [0], f] s2 of None \<Rightarrow> None | Some s3 \<Rightarrow> Some (0, s3\<lparr>bm_disk := None\<rparr>))"
    using main_runs [OF D(1,2) host command_words(2), of p "[f]"] D(3) by blast
  let ?p = "2097152 * unat (StartingBlock (dir_entry d i))" and ?d = "put_at (64 * i + 48) (le_bytes 8 ?n) d"
  have D2: "file_of ?h s2 = D" using D(1) s2(3) by (simp add: file_of_def)
  have "\<exists>s3. bmfs_write (Some f) s2 = Some s3 \<and> Directory s3 = put_at (64 * i + 48) (le_bytes 8 ?n) (Directory s2)
    \<and> bm_files s3 = (bm_files s2)(f_name ?h := Some (put_at 4096 (Directory s3)
        (put_at (2097152 * unat (StartingBlock (dir_entry (Directory s2) i))) c (file_of ?h s2))))
    \<and> bm_disk s3 = Some (?h\<lparr>f_pos := 8192\<rparr>) \<and> bm_fwrite_ok s3 = [] \<and> bm_writable s3 = bm_writable s2"
    by (rule write_eval [OF s2(1)]) (use i c s2(2,3) in simp_all)
  then obtain s3 where s3: "bmfs_write (Some f) s2 = Some s3" "bm_files s3 = (bm_files s)(cstr dn := Some (put_at 4096 ?d (put_at ?p c D)))"
    "bm_fwrite_ok s3 = []" "bm_writable s3 = bm_writable s" unfolding s2(2,3,4) D2 by auto
  have ok: "dir_ok (disk_blocks D) d" using D(2,3) by (simp add: valid_disk_def)
  have i64: "i < 64" using i(1) by (simp add: present_def)
  note P = put_size [OF dir_okD(1) [OF ok] i64, where v = ?n]
  note A = agree_dir [OF ok P(1,2)]
  have pl: "placed (disk_blocks D) (dir_entry d i)" by (rule dir_okD(2) [OF ok i(1)])
  have p: "8192 \<le> ?p" "?p + length c \<le> length D" using pl c(3) disk_blocks_le(2) [of D] by (simp_all add: placed_def)
  note V1 = valid_disk_data [OF D(2) p]
  have "dir_ok (disk_blocks (put_at ?p c D)) ?d" unfolding V1(2) by (rule A(2)) simp_all
  note V2 = valid_disk_directory [OF V1(1) P(1) this]
  have start: "StartingBlock (dir_entry ?d i) = StartingBlock (dir_entry d i)" by (rule agree_fields(1) [OF P(2) [OF i64]])
  have size: "unat (FileSize (dir_entry ?d i)) = length c" unfolding P(4) using c(2) by (simp add: unat_of_nat_small)
  have len: "length (put_at ?p c D) = length D" using p by simp
  have "take (length c) (drop ?p (put_at 4096 ?d (put_at ?p c D))) = take (length c) (drop ?p (put_at ?p c D))"
    by (rule part_put_at_other) (use p len P(1) in simp_all)
  also have "\<dots> = c" by (rule part_put_at_same [OF p(2)])
  finally have data: "take (length c) (drop ?p (put_at 4096 ?d (put_at ?p c D))) = c" .
  show ?thesis
    by (intro exI [of _ "s3\<lparr>bm_disk := None\<rparr>"] exI [of _ "put_at 4096 ?d (put_at ?p c D)"] exI [of _ ?d])
      (use s2(5) s3 V2 A(1) A(3) i size data start p(2) len in \<open>simp add: main_write_command\<close>)
qed

text \<open>C12: Three runs of the tool: what \<open>create\<close> and then \<open>write\<close> have stored, \<open>read\<close> brings back, although nothing but the bytes of the disk
  passes from one run to the next and the local file may be changed or lost.
\<close>

theorem stored_file_comes_back:
  assumes D: "bm_files s (cstr dn) = Some D" "valid_disk D" "d = take 4096 (drop 4096 D)"
    and host: "bm_writable s (cstr dn)" "bm_writable s (cstr f)" "bm_fwrite_ok s = []"
    and slot: "dir_end d m" "m < 64" "\<forall>i<m. \<not> deleted d i"
    and f: "0 \<in> set f" "name_ok (cstr f)" "\<forall>i. present d i \<longrightarrow> entry_name d i \<noteq> cstr f" "cstr f \<noteq> cstr dn"
    and n: "host_atoi sz = Some n" "1 \<le> n" "r = (nat n + 1) div 2" and b: "\<exists>b. room (disk_blocks D) r (files d) b"
    and c: "length c < 2 ^ 31" "length c \<le> 2097152 * r"
  shows "\<exists>s1 s2. bmfs_main [p, dn, bytes ''create'' @ [0], f, sz] (fresh_run s) = Some (0, s1)
    \<and> bmfs_main [p, dn, bytes ''write'' @ [0], f] (fresh_run (s1\<lparr>bm_files := (bm_files s1)(cstr f := Some c)\<rparr>)) = Some (0, s2)
    \<and> (\<forall>x. \<exists>s3. bmfs_main [p, dn, bytes ''read'' @ [0], f] (fresh_run (s2\<lparr>bm_files := (bm_files s2)(cstr f := x)\<rparr>)) = Some (0, s3)
         \<and> bm_files s3 (cstr f) = Some c)"
proof -
  obtain s1 d1 b where s1: "bmfs_main [p, dn, bytes ''create'' @ [0], f, sz] (fresh_run s) = Some (0, s1)" "dir_ok (disk_blocks D) d1"
    "entry_added d m (cstr f) b r d1" "bm_files s1 = (bm_files s)(cstr dn := Some (put_at 4096 d1 D))" "bm_fwrite_ok s1 = []" "bm_writable s1 = bm_writable s"
    using create_run [OF D host(1,3) slot f(1-3) n b] by blast
  note V1 = valid_disk_directory [OF D(2) dir_okD(1) [OF s1(2)] s1(2)]
  have e: "present d1 m" "entry_name d1 m = cstr f" "unat (ReservedBlocks (dir_entry d1 m)) = r" using s1(3) by (simp_all add: entry_added_def)
  let ?t = "s1\<lparr>bm_files := (bm_files s1)(cstr f := Some c)\<rparr>"
  have t: "bm_files ?t (cstr dn) = Some (put_at 4096 d1 D)" "bm_writable ?t (cstr dn)" "bm_fwrite_ok ?t = []" "bm_files ?t (cstr f) = Some c"
    using s1(4-6) f(4) host by auto
  have fits: "length c \<le> 2097152 * unat (ReservedBlocks (dir_entry d1 m))" using c(2) e(3) by simp
  from write_run [OF t(1) V1(1) V1(2) [symmetric] t(2,3) e(1) f(1) e(2) f(4) t(4) c(1) fits, of p]
  obtain s2 D2 d2 where s2: "bmfs_main [p, dn, bytes ''write'' @ [0], f] (fresh_run ?t) = Some (0, s2)" "bm_files s2 = (bm_files ?t)(cstr dn := Some D2)"
    "valid_disk D2" "d2 = take 4096 (drop 4096 D2)" "present d2 m" "entry_name d2 m = cstr f" "unat (FileSize (dir_entry d2 m)) = length c"
    "2097152 * unat (StartingBlock (dir_entry d2 m)) + length c \<le> length D2"
    "take (length c) (drop (2097152 * unat (StartingBlock (dir_entry d2 m))) D2) = c" "bm_fwrite_ok s2 = []" "bm_writable s2 = bm_writable ?t" by blast
  have "\<exists>s3. bmfs_main [p, dn, bytes ''read'' @ [0], f] (fresh_run (s2\<lparr>bm_files := (bm_files s2)(cstr f := x)\<rparr>)) = Some (0, s3)
      \<and> bm_files s3 (cstr f) = Some c" for x
  proof -
    let ?u = "s2\<lparr>bm_files := (bm_files s2)(cstr f := x)\<rparr>" and ?h = "\<lparr>f_name = cstr dn, f_pos = 0, f_err = False\<rparr>"
    have u: "bm_files ?u (cstr dn) = Some D2" "bm_writable ?u (cstr dn)" "bm_writable ?u (cstr f)" "bm_fwrite_ok ?u = []"
      using s2(2,10,11) s1(6) f(4) host by auto
    obtain s3 where s3: "mounted (disk_blocks D2) ?h s3" "Directory s3 = d2" "bm_files s3 = bm_files ?u" "bm_writable s3 = bm_writable ?u"
      "bmfs_main [p, dn, bytes ''read'' @ [0], f] (fresh_run ?u)
        = (case main_command [p, dn, bytes ''read'' @ [0], f] s3 of None \<Rightarrow> None | Some s4 \<Rightarrow> Some (0, s4\<lparr>bm_disk := None\<rparr>))"
      using main_runs [OF u(1) s2(3) u(2,4) command_words(3), of p "[f]"] s2(4) by blast
    note M = s3(1) [unfolded mounted_def]
    have "\<exists>s4. bmfs_read (Some f) s3 = Some s4 \<and> bm_files s4 = (bm_files s3)(cstr f :=
        Some (take (length c) (drop (2097152 * unat (StartingBlock (dir_entry (Directory s3) m))) D2)))"
      by (rule read_eval [where nb = "disk_blocks D2" and h = ?h]) (use M u s3(2-4) s2(5-8) f(1,4) c(1) in simp_all)
    then obtain s4 where "bmfs_read (Some f) s3 = Some s4" "bm_files s4 (cstr f) = Some c" using s2(9) s3(2) by auto
    then show ?thesis using s3(5) by (simp add: main_read_command)
  qed
  then show ?thesis using s1(1) s2(1) by blast
qed

lemma stored_file_comes_back_witness:
  "\<exists>s s1 s2 s3. bmfs_main [[98, 0], [100, 0], bytes ''create'' @ [0], [97, 0], [50, 0]] (fresh_run s) = Some (0, s1)
    \<and> bmfs_main [[98, 0], [100, 0], bytes ''write'' @ [0], [97, 0]] (fresh_run (s1\<lparr>bm_files := (bm_files s1)([97] := Some [1, 2, 3])\<rparr>)) = Some (0, s2)
    \<and> bmfs_main [[98, 0], [100, 0], bytes ''read'' @ [0], [97, 0]] (fresh_run (s2\<lparr>bm_files := (bm_files s2)([97] := None)\<rparr>)) = Some (0, s3)
    \<and> bm_files s3 [97] = Some [1, 2, 3]"
proof -
  let ?D = "image_bytes 6291456 [] [] []"
  let ?s = "sample_state ?D 0 [] Map.empty"
  have l: "length ?D = 6291456" by (simp add: image_bytes_def length_put_at length_formatted)
  have parts: "take 512 (drop 1024 ?D) = bytes ''BMFS'' @ replicate 508 0" "take 4096 (drop 4096 ?D) = replicate 4096 0"
    using image_parts [of 6291456 "[]" "[]" "[]"] by simp_all
  have nb: "disk_blocks ?D = 3" by (simp add: disk_blocks_def l)
  have valid: "valid_disk ?D" unfolding valid_disk_def parts using l tag_valid empty_directory(1) by simp
  have none: "\<not> present (replicate 4096 0) i" for i by (rule empty_directory(2))
  have slot: "dir_end (replicate 4096 0) 0" by (simp add: dir_end_def dir_entry_def)
  have room: "\<exists>b. room (disk_blocks ?D) 1 (files (replicate 4096 0)) b"
    unfolding nb using none by (intro exI [of _ 1]) (simp add: room_def files_def)
  have atoi: "host_atoi [50, 0] = Some 2" by (simp add: host_atoi_def host_isdigit_def)
  have "\<exists>s1 s2. bmfs_main [[98, 0], [100, 0], bytes ''create'' @ [0], [97, 0], [50, 0]] (fresh_run ?s) = Some (0, s1)
    \<and> bmfs_main [[98, 0], [100, 0], bytes ''write'' @ [0], [97, 0]] (fresh_run (s1\<lparr>bm_files := (bm_files s1)(cstr [97, 0] := Some [1, 2, 3])\<rparr>)) = Some (0, s2)
    \<and> (\<forall>x. \<exists>s3. bmfs_main [[98, 0], [100, 0], bytes ''read'' @ [0], [97, 0]] (fresh_run (s2\<lparr>bm_files := (bm_files s2)(cstr [97, 0] := x)\<rparr>)) = Some (0, s3)
         \<and> bm_files s3 (cstr [97, 0]) = Some [1, 2, 3])"
    by (rule stored_file_comes_back [where D = ?D and d = "replicate 4096 0" and m = 0 and n = 2 and r = 1])
      (use valid parts slot room none atoi in \<open>simp_all add: cstr_one name_ok_def\<close>)
  then show ?thesis unfolding cstr_one [OF one_neq_zero] by (simp add: cstr_one) blast
qed

text \<open>A negative size is refused as an argument, but a negative line at the prompt is a size beyond two million gigabytes.\<close>

lemma negative_size:
  assumes "- (2 ^ 31) \<le> n" and "n < 0"
  shows "host_atoi sz = Some n \<Longrightarrow> main_create (Some f) [p, dn, c, f, sz] s = Some (say (''Error: Invalid file size.'' @ [CHR 0x0A]) [] s)"
    and "host_atoi (tempstring s) = Some n \<Longrightarrow> main_create (Some f) [p, dn, c, f] s
      = bmfs_create f (word_of_int (2 ^ 32 + n)) (say ''Maximum file size in MiB: '' [] s)"
proof -
  show "host_atoi sz = Some n \<Longrightarrow> main_create (Some f) [p, dn, c, f, sz] s = Some (say (''Error: Invalid file size.'' @ [CHR 0x0A]) [] s)"
    using assms(2) by (simp add: main_create_def)
  have temp: "tempstring (say m a s) = tempstring s" for m a by (simp add: tempstring_def say_def)
  obtain k where k: "2 ^ 32 + n = k" by blast
  have w: "(word_of_int n :: u32) = word_of_int k" unfolding k [symmetric] by (simp add: word_of_int_eq_iff take_bit_eq_mod)
  have range: "1 \<le> k" "k < 2 ^ 32" using assms k by auto
  then have u: "uint (word_of_int k :: u32) = k" by (simp add: unsigned_of_int take_bit_int_eq_self)
  have le: "(1 :: u32) \<le> word_of_int k" unfolding word_le_def u using range by simp
  have c: "(ucast (word_of_int k :: u32) :: u64) = word_of_int k" by (simp only: ucast_eq u)
  show "host_atoi (tempstring s) = Some n \<Longrightarrow> main_create (Some f) [p, dn, c, f] s
      = bmfs_create f (word_of_int (2 ^ 32 + n)) (say ''Maximum file size in MiB: '' [] s)"
    unfolding main_create_def k by (simp add: Let_def temp w le c)
qed

end
