(* ===== verification/Spec2Isabelle.thy ===== *)
theory Spec2Isabelle
  imports Heap_Props Packer Pipe_Props Traps Libc_Stub Libc_Heap_Props Typing First_Space Boot Bmfs_Runs
begin

section \<open>The kernel, its C library and its shell\<close>

text \<open>
  A model of a small x86-64 teaching kernel with its user land (C and some assembly), and what is
  proved of it. The kernel drives text screen, keyboard, speaker and clock, manages page frames and
  page tables, schedules processes round robin, and offers system calls for the console, memory, time,
  processes and pipes. User land is a C library on those calls and a shell with 23 commands. A tool run at
  build time appends the programs to the kernel image, another puts the image on a disk. Paths below are relative to \<open>src/\<close>.

  \<^bold>\<open>How the parts interact.\<close> The boot loader jumps to \<open>main\<close> (Kernel/kernel.c), which starts the
  managers in order, installs the interrupt table and enters the first process. From then on everything is
  a trap: an interrupt or a system call saves the registers, switches to the kernel stack of the running
  process, runs its handler, and switches to the stack of the next process. The keyboard interrupt puts
  key codes into a queue; the system call \<open>read\<close> takes them out as characters; the C library's \<open>getc\<close> polls
  \<open>read\<close>; the shell edits a line with what \<open>getc\<close> delivers and runs a command at the end of it; the command
  calls the C library, which calls the kernel.

  \<^bold>\<open>The state.\<close> There is one kernel state, a chain of record extensions in which every component adds
  its static variables: \<open>machine\<close> (memory, ports) \<open>\<rightarrow>\<close> \<open>sound_state\<close> \<open>\<rightarrow>\<close> \<open>video_state\<close> \<open>\<rightarrow>\<close> \<open>keyboard_state\<close>
  \<open>\<rightarrow>\<close> \<open>console_state\<close> \<open>\<rightarrow>\<close> \<open>pmm_state\<close> \<open>\<rightarrow>\<close> \<open>vmm_state\<close> \<open>\<rightarrow>\<close> \<open>sched_state\<close> \<open>\<rightarrow>\<close> \<open>mmu_state\<close> \<open>\<rightarrow>\<close> \<open>pipe_state\<close> \<open>\<rightarrow>\<close>
  \<open>int_state\<close> \<open>\<rightarrow>\<close> \<open>libc_state\<close> \<open>\<rightarrow>\<close> \<open>shell_state\<close>. Operations are polymorphic in the extension, so those of all
  components run on the one state, and an operation returns the state it leaves.

  \<^bold>\<open>Theories and code.\<close>
  \<^item> Prelude, Phys_Mem, Machine, Interfaces: machine words, C arrays, byte-addressed memory and its cells,
    ports, and the locales that are the interfaces (a bounded queue, a frame allocator, a run queue; the cells
    of memory, a byte sink and a store of heap objects stand in the theories of their providers).
  \<^item> Lib_Mem (Kernel/lib/mem.c), Lib_Text (Kernel/lib/string.c, printf.c, Userland/libc/string.c, printf.c):
    block operations, strings, numbers in text, formatted output.
  \<^item> Sound (Kernel/sound.c), Video (Kernel/video.c), Keyboard (Kernel/keyboard.c, include/keyboard.h), Clock
    (Kernel/rtc-driver.c, time.c), Console (Kernel/syscall/io.c, power.c, lib/putc.c): the drivers and the calls
    on them.
  \<^item> Phys_Alloc (Kernel/pmm.c): the stack of free frames and its bitmap.
  \<^item> Paging, Address_Space, Page_Search, Virtual_Memory, First_Space (Kernel/pte.c, vmm.c): page table entries,
    the walk through four levels, mapping, the search for free pages, and the identity mapping at boot.
  \<^item> Sched, Sched_Ring, Spawn, Scheduling (Kernel/sched.c, asm/scheduling.asm): the process table, the ring of
    processes, creation and termination, the switches.
  \<^item> Heap, Heap_List, Heap_Alloc, Heap_Objects, Heap_Props (Kernel/mmu.c): the kernel heap and \<open>mmap\<close>.
  \<^item> Modules (Kernel/moduleLoader.c), Packer (Toolchain/ModulePacker): the packed programs, both ends.
  \<^item> Semaphore (Kernel/semaphore.c), Pipe, Pipe_Props (Kernel/pipe.c).
  \<^item> Interrupts (Kernel/interrupts.c, asm/interrupts.asm), Syscalls (Kernel/syscall/, asm/sys.asm, asm/stack.mac),
    Traps: the interrupt table, the dispatcher, the trap entries and what a trap leaves of the interrupted process.
  \<^item> Boot (Kernel/kernel.c, motd.c): \<open>main\<close>.
  \<^item> Libc_IO, Libc_Stub, Libc_Print (Userland/libc: syscalls.asm, putc.c, getc.c, scanf.c), Libc_Heap,
    Libc_Heap_Props (memory.c): the C library.
  \<^item> Shell_Table, Commands, Shell, Shell_Lines, Shell_Props, Typing (Userland/shell): the table of commands, the
    commands, the loop, and lines from the key pressed to the command run.
  \<^item> Bmfs, Bmfs_Main, Bmfs_Dir, Bmfs_Create, Bmfs_Files, Bmfs_Init, Bmfs_Runs (Bootloader/BMFS/bmfs.c): the tool that makes the
    disk image and stores files in it. It runs when the system is built, so it has a state of its own (\<open>bmfs_state\<close>): the files of
    the building machine and the variables of the program. Not in the model: the percentage it prints while it fills the disk.

  \<^bold>\<open>Conventions.\<close>
  \<^item> A C integer is a word of its width; where the code mixes widths the conversions are written out as
    \<open>ucast\<close> and \<open>scast\<close>. A C \<open>int\<close> result is a \<open>u32\<close>. Signed arithmetic that may overflow is \<open>int\<close> with a check
    (\<open>int32\<close>: \<open>None\<close> on overflow) or a word where the compiler's wrap-around is relied on (a shift of an \<open>int\<close> by 32
    and more takes the amount modulo 32, as the processor does).
  \<^item> An array or a string object is a list; \<open>obj_get\<close> and \<open>obj_set\<close> are \<open>None\<close> out of bounds, as are reads of
    uninitialised variables and division by zero. \<open>None\<close> is undefined behaviour or a loop that does not end,
    never an error the code handles; those are values.
  \<^item> Memory reached through raw pointers is \<open>mem\<close>, a total map from addresses to bytes, little-endian. Below one
    gigabyte addresses are physical, which the identity mapping justifies (First_Space). The model is
    flat: a user address is used as the same number in \<open>mem\<close>, so what a page above the first gigabyte is mapped
    to matters only in the page tables. Page 0 is mapped, so the null pointer can be read and written.
  \<^item> A port is the list of bytes it will answer (\<open>inq\<close>) and what was written to it is logged (\<open>outs\<close>); an empty
    list is a device that does not answer.
  \<^item> Addresses that the linker gives are records (\<open>kernel_symbols\<close>, \<open>image_symbols\<close>, \<open>int_symbols\<close>), those of local
    variables a field (\<open>local_addr\<close>). \<open>irqs\<close>, an argument of whatever polls, is what the interrupts do between two
    polls.
  \<^item> An operation after which the machine or the program does not go on ends in \<open>Halts\<close>.

  \<^bold>\<open>Loops.\<close> A loop with a constant or computed number of iterations is a \<open>primrec\<close> on that number (512 entries of a
  table, 128 characters of the table of characters, 63 characters of \<open>scanf\<close>), so there is no fuel to run
  out of. Every other loop is a \<open>partial_function (option)\<close>, for which \<open>None\<close> includes not ending; the theorems
  that such an operation works state that its result is \<open>Some\<close>.

  \<^bold>\<open>What the lemmas show.\<close>
  \<^item> Drivers: the key buffer is a bounded queue, typed text arrives in order, the terminals never write outside
    the screen, the clock gives back what was set.
  \<^item> Memory: no frame is given to two owners; mapping a page changes the abstract address space at that page only;
    the search for free pages passes over full page tables to the first gap, and does not end when that is too
    small; after \<open>vmm_initialize\<close> the first gigabyte is mapped to itself; objects on the heap are apart and keep their
    contents.
  \<^item> Scheduling: the table is one ring with the running process at its head in every reachable state; no tick
    faults; every process gets its turn, with its own registers and stack.
  \<^item> Modules: what the packer writes the loader finds. Semaphores refine a counter with a queue. A pipe is a ring
    buffer on the writing side, and a write touches nothing else.
  \<^item> User land: \<open>malloc\<close> is first fit on a list that stays whole; keys pressed become a line, and a line runs its
    command with its words; the shell survives any number of printing commands.
  \<^item> The disk tool: \<open>initialize\<close> leaves the image it should; \<open>create\<close> is first fit as long as nothing was deleted, and may put a
    file over another afterwards; what is stored in one run comes back in another.
  \<^item> Errors: where the code does something else than it means to, a theorem says what it does; the manifest lists
    these and the smaller ones that have no theorem.

  \<^bold>\<open>Not modelled.\<close> The boot loader (Bootloader/Pure64), a third-party program in assembly that only jumps to the
  kernel; the assembly behind ports, control registers and \<open>hlt\<close>
  (Kernel/asm/libasm.asm, paging.asm, loader.asm, Userland/libc/crt0.asm), which the model of ports and registers
  stands for; the frame that the processor pushes on a trap and the return addresses of calls on the kernel
  stacks; two sample programs (Userland/test2, tpl); makefiles and linker scripts. A trap is one
  step of the model: every entry turns interrupts off first and its last instructions turn them on again.
\<close>

end
